(* ===== verification/Prelude.thy ===== *)
theory Prelude
  imports Main "HOL-Library.Word" "HOL-Library.Monad_Syntax" "HOL-Library.List_Lexorder"
begin

unbundle bit_operations_syntax

section \<open>Bytes, buffers and the C conventions shared by every component\<close>

text \<open>
  The C code works on byte buffers through pointers. A buffer is modelled as the list of its
  bytes, a pointer into a buffer as the buffer with an offset, and the null pointer as the empty
  list. (What \<open>malloc(0)\<close> answers is up to the implementation; the model takes the null pointer,
  which is also what the wrapper \<open>my_malloc\<close> of \<^verbatim>\<open>libsres/res_support.c\<close> answers.)

  A computation that may access memory outside an object has an \<open>option\<close> result, and \<open>None\<close>
  stands for the undefined behaviour of C. A theorem that says \<open>f x = Some y\<close> therefore says,
  beside what the result is, that no access of \<open>f\<close> on \<open>x\<close> leaves its buffer.
  The option monad threads these faults through the code.
\<close>

type_synonym byte = "8 word"
type_synonym u16 = "16 word"
type_synonym u32 = "32 word"

named_theorems fault_simps \<open>reads and writes inside a buffer do not fault\<close>

declare Option.bind_cong [fundef_cong]

subsection \<open>Reading and writing\<close>

definition rd :: "byte list \<Rightarrow> nat \<Rightarrow> byte option" where
  "rd xs i = (if i < length xs then Some (xs ! i) else None)"

definition wr :: "byte list \<Rightarrow> nat \<Rightarrow> byte \<Rightarrow> byte list option" where
  "wr xs i b = (if i < length xs then Some (xs[i := b]) else None)"

definition seg :: "byte list \<Rightarrow> nat \<Rightarrow> nat \<Rightarrow> byte list option" where
  "seg xs i n = (if i + n \<le> length xs then Some (take n (drop i xs)) else None)"

definition blit :: "byte list \<Rightarrow> nat \<Rightarrow> byte list \<Rightarrow> byte list option" where
  "blit dst i src =
     (if i + length src \<le> length dst
      then Some (take i dst @ src @ drop (i + length src) dst) else None)"

text \<open>\<open>ptr xs i\<close> is the interior pointer \<open>&xs[i]\<close>, made to be dereferenced.\<close>

definition ptr :: "byte list \<Rightarrow> nat \<Rightarrow> byte list option" where
  "ptr xs i = (if i < length xs then Some (drop i xs) else None)"

lemma ptr_lt [fault_simps]: "i < length xs \<Longrightarrow> ptr xs i = Some (drop i xs)"
  by (simp add: ptr_def)

lemma ptr_append [simp]: "ys \<noteq> [] \<Longrightarrow> ptr (xs @ ys) (length xs) = Some ys"
  by (simp add: ptr_def)

lemma ptr_0 [simp]: "xs \<noteq> [] \<Longrightarrow> ptr xs 0 = Some xs"
  by (simp add: ptr_def)

lemma rd_lt [fault_simps]: "i < length xs \<Longrightarrow> rd xs i = Some (xs ! i)"
  by (simp add: rd_def)

lemma rd_eq_Some_iff: "rd xs i = Some b \<longleftrightarrow> i < length xs \<and> xs ! i = b"
  by (simp add: rd_def)

lemma rd_eq_None_iff: "rd xs i = None \<longleftrightarrow> length xs \<le> i"
  by (simp add: rd_def not_less)

lemma rd_Cons_0 [simp]: "rd (x # xs) 0 = Some x"
  by (simp add: rd_def)

lemma rd_Cons_Suc [simp]: "rd (x # xs) (Suc i) = rd xs i"
  by (simp add: rd_def)

lemma rd_Nil [simp]: "rd [] i = None"
  by (simp add: rd_def)

lemma rd_append_right [simp]: "rd (xs @ ys) (length xs + i) = rd ys i"
  by (simp add: rd_def nth_append)

lemma rd_append_right0 [simp]: "rd (xs @ ys) (length xs) = rd ys 0"
  using rd_append_right [of xs ys 0] by simp

lemma rd_append_left: "i < length xs \<Longrightarrow> rd (xs @ ys) i = Some (xs ! i)"
  by (simp add: rd_def nth_append)

lemma rd_drop: "rd (drop k xs) i = rd xs (k + i)"
  by (auto simp: rd_def)

lemma rd_append: "rd (xs @ ys) i = (if i < length xs then rd xs i else rd ys (i - length xs))"
  by (auto simp: rd_def nth_append)

lemma rd_Cons: "rd (x # xs) i = (if i = 0 then Some x else rd xs (i - 1))"
  by (cases i) auto

lemma seg_append: "seg (xs @ ys @ zs) (length xs) (length ys) = Some ys"
  by (simp add: seg_def)

lemma length_seg: "seg xs i n = Some ys \<Longrightarrow> length ys = n"
  by (auto simp: seg_def split: if_splits)

lemma seg_full: "n \<le> length xs \<Longrightarrow> seg xs 0 n = Some (take n xs)"
  by (simp add: seg_def)

lemma blit_append:
  "length src = length mid \<Longrightarrow> blit (pre @ mid @ t) (length pre) src = Some (pre @ src @ t)"
  by (simp add: blit_def)

lemma blit_length: "blit dst i src = Some dst' \<Longrightarrow> length dst' = length dst"
  by (auto simp: blit_def split: if_splits)

subsection \<open>Conditions\<close>

text \<open>\<open>&&\<close> evaluates its second operand only when the first one holds.\<close>

definition sc_and :: "bool option \<Rightarrow> bool option \<Rightarrow> bool option" where
  "sc_and a b = do { x \<leftarrow> a; if x then b else Some False }"

lemma sc_and_simps [simp]:
  "sc_and None b = None" "sc_and (Some False) b = Some False" "sc_and (Some True) b = b"
  by (simp_all add: sc_and_def)

lemma sc_and_Some [simp]: "sc_and (Some p) (Some q) = Some (p \<and> q)"
  by (cases p) simp_all

subsection \<open>Properties of all bytes\<close>

lemma all_bytes: "(\<forall>b::byte. P b) \<longleftrightarrow> list_all P (map word_of_nat [0..<256])"
proof
  assume h: "list_all P (map word_of_nat [0..<256])"
  show "\<forall>b. P b"
  proof
    fix b :: byte
    have "unat b < 256" using unsigned_less [of b] by simp
    then have "b \<in> set (map word_of_nat [0..<256])"
      by (auto intro!: image_eqI [of b word_of_nat "unat b"])
    with h show "P b" by (simp only: list_all_iff)
  qed
qed (simp add: list_all_iff)

lemma bit_c0: "bit (0xc0 :: byte) n \<longleftrightarrow> n = 6 \<or> n = 7"
  by (auto simp: bit_numeral_rec bit_simps numeral_eq_Suc less_Suc_eq split: nat.splits)

lemma and_c0_eq_0_iff: "0xc0 AND (b :: byte) = 0 \<longleftrightarrow> unat b \<le> 63"
proof -
  have "0xc0 AND b = 0 \<longleftrightarrow> b AND mask 6 = b"
  proof -
    have "(\<forall>n<8. bit (0xc0 :: byte) n \<longrightarrow> \<not> bit b n) \<longleftrightarrow> (\<forall>n<8. (bit b n \<and> n < 6) = bit b n)"
    proof -
      have "bit (0xc0 :: byte) n \<longleftrightarrow> \<not> n < 6" if "n < 8" for n
        unfolding bit_c0 using that by arith
      then show ?thesis by blast
    qed
    then show ?thesis by (auto simp: bit_eq_iff bit_simps)
  qed
  also have "\<dots> \<longleftrightarrow> unat b \<le> 63"
  proof -
    have "uint b < 64 \<longleftrightarrow> unat b \<le> 63"
      using uint_nat [of b] by arith
    then show ?thesis by (simp add: mask_eq_iff)
  qed
  finally show ?thesis .
qed

subsection \<open>Three-way comparison\<close>

text \<open>The sign every C comparison function promises, over any linear order.\<close>

definition ocmp :: "'a::linorder \<Rightarrow> 'a \<Rightarrow> int" where
  "ocmp x y = (if x < y then -1 else if x = y then 0 else 1)"

lemma ocmp_eq_0_iff [simp]: "ocmp x y = 0 \<longleftrightarrow> x = y"
  by (simp add: ocmp_def)

lemma ocmp_less_0_iff [simp]: "ocmp x y < 0 \<longleftrightarrow> x < y"
  by (simp add: ocmp_def)

lemma ocmp_greater_0_iff [simp]: "0 < ocmp x y \<longleftrightarrow> y < x"
  by (auto simp: ocmp_def)

lemma sgn_eq_ocmpD:
  assumes "sgn (r::int) = ocmp x y"
  shows "r = 0 \<longleftrightarrow> x = y" "r < 0 \<longleftrightarrow> x < y" "0 < r \<longleftrightarrow> y < x"
    "r \<le> 0 \<longleftrightarrow> x \<le> y" "0 \<le> r \<longleftrightarrow> y \<le> x"
  using assms by (auto simp: ocmp_def sgn_if not_less split: if_splits)

lemma ocmp_Cons:
  "ocmp (x # xs) (y # ys) = (if x = y then ocmp xs ys else ocmp x y)"
  by (auto simp: ocmp_def)

lemma ocmp_Nil [simp]: "ocmp [] [] = 0" "ocmp [] (y # ys) = -1" "ocmp (x # xs) [] = 1"
  by (auto simp: ocmp_def)

lemma ocmp_Nil_cases:
  "ocmp [] ys = (if ys = [] then 0 else -1)" "ocmp xs [] = (if xs = [] then 0 else 1)"
  by (cases ys, simp_all) (cases xs, simp_all)

lemma ex_le_Suc_iff: "(\<exists>k \<le> Suc n. P k) \<longleftrightarrow> P 0 \<or> (\<exists>k \<le> n. P (Suc k))"
  by (metis Suc_le_mono le0 not0_implies_Suc)

subsection \<open>Network byte order\<close>

text \<open>
  \<open>get16\<close> and \<open>get32\<close> are the macros \<open>VAL_GET16\<close> and \<open>VAL_GET32\<close> of
  \<^verbatim>\<open>include/validator/validator-compat.h\<close>, \<open>put16\<close> and \<open>put32\<close> the bytes that
  \<open>NS_PUT16\<close>, \<open>NS_PUT32\<close>, \<open>htons\<close> and \<open>htonl\<close> lay out.
\<close>

definition be16 :: "byte \<Rightarrow> byte \<Rightarrow> u16" where
  "be16 a b = (push_bit 8 (ucast a)) OR (ucast b)"

definition be32 :: "byte \<Rightarrow> byte \<Rightarrow> byte \<Rightarrow> byte \<Rightarrow> u32" where
  "be32 a b c d = (push_bit 24 (ucast a)) OR (push_bit 16 (ucast b)) OR
     (push_bit 8 (ucast c)) OR (ucast d)"

definition get16 :: "byte list \<Rightarrow> nat \<Rightarrow> u16 option" where
  "get16 xs i = do { a \<leftarrow> rd xs i; b \<leftarrow> rd xs (i + 1); Some (be16 a b) }"

definition get32 :: "byte list \<Rightarrow> nat \<Rightarrow> u32 option" where
  "get32 xs i = do { a \<leftarrow> rd xs i; b \<leftarrow> rd xs (i + 1); c \<leftarrow> rd xs (i + 2);
     d \<leftarrow> rd xs (i + 3); Some (be32 a b c d) }"

definition put16 :: "u16 \<Rightarrow> byte list" where
  "put16 w = [ucast (drop_bit 8 w), ucast w]"

definition put32 :: "u32 \<Rightarrow> byte list" where
  "put32 w = [ucast (drop_bit 24 w), ucast (drop_bit 16 w), ucast (drop_bit 8 w), ucast w]"

lemma length_put16 [simp]: "length (put16 w) = 2"
  by (simp add: put16_def)

lemma length_put32 [simp]: "length (put32 w) = 4"
  by (simp add: put32_def)

lemma be16_put16: "be16 (ucast (drop_bit 8 w)) (ucast w) = w"
  unfolding be16_def by (rule bit_word_eqI) (auto simp: bit_simps)

lemma put16_be16: "put16 (be16 a b) = [a, b]"
proof -
  have "ucast (drop_bit 8 (be16 a b)) = a"
  proof (rule bit_word_eqI)
    fix n
    assume "n < LENGTH(8)"
    then show "bit (ucast (drop_bit 8 (be16 a b)) :: byte) n = bit a n"
      using bit_imp_le_length [of b "8 + n"] by (auto simp: be16_def bit_simps)
  qed
  moreover have "ucast (be16 a b) = b"
    by (rule bit_word_eqI) (auto simp: be16_def bit_simps)
  ultimately show ?thesis by (simp add: put16_def)
qed

lemma be32_put32:
  "be32 (ucast (drop_bit 24 w)) (ucast (drop_bit 16 w)) (ucast (drop_bit 8 w)) (ucast w) = w"
proof (rule bit_word_eqI)
  fix n :: nat
  assume n: "n < LENGTH(32)"
  consider "n < 8" | "8 \<le> n" "n < 16" | "16 \<le> n" "n < 24" | "24 \<le> n" by linarith
  then show "bit (be32 (ucast (drop_bit 24 w)) (ucast (drop_bit 16 w)) (ucast (drop_bit 8 w)) (ucast w)) n
      = bit w n"
    using n by cases (auto simp: be32_def bit_simps)
qed

lemma get16_put16: "get16 (xs @ put16 w @ ys) (length xs) = Some w"
  by (simp add: get16_def put16_def be16_put16 rd_append rd_Cons)

lemma get32_put32: "get32 (xs @ put32 w @ ys) (length xs) = Some w"
  by (simp add: get32_def put32_def be32_put32 rd_append rd_Cons)

end
