(* ===== verification/Names.thy ===== *)
theory Names
  imports Prelude
begin

section \<open>Wire-format domain names\<close>

text \<open>
  The name routines every other part rests on: \<open>wire_name_length\<close>
  (\<^verbatim>\<open>libsres/res_query.c\<close>), \<open>label_bytes_cmp\<close>, \<open>labelcmp\<close>, \<open>namecmp\<close>
  (\<^verbatim>\<open>libsres/res_support.c\<close>), \<open>namename\<close>, \<open>wire_name_labels\<close>, \<open>is_tail\<close>,
  \<open>lower_name\<close> (\<^verbatim>\<open>libval/val_support.c\<close>).
  A name is a buffer that starts with the name's bytes; what follows the name is arbitrary.
  The abstract names are lists of labels, \<open>enc\<close> is their wire format, and \<open>cname\<close> their
  canonical form, whose linear order is the canonical order of RFC 4034 section 6.1.
\<close>

subsection \<open>The code\<close>


abbreviation NS_MAXCDNAME :: nat where "NS_MAXCDNAME \<equiv> 255"

text \<open>The scan of \<open>wire_name_length\<close>: the index at which its \<open>for\<close> loop stops.\<close>

function wnl_scan :: "byte list \<Rightarrow> nat \<Rightarrow> nat option" where
  "wnl_scan field j =
     (if j < NS_MAXCDNAME then do {
        b \<leftarrow> rd field j;
        if b \<noteq> 0 \<and> 0xc0 AND b = 0 then wnl_scan field (j + unat b + 1) else Some j
      } else Some j)"
  by pat_completeness auto
termination by (relation "measure (\<lambda>(field, j). NS_MAXCDNAME - j)") auto

declare wnl_scan.simps [simp del]

definition wire_name_length :: "byte list \<Rightarrow> nat option" where
  "wire_name_length field =
     (if field = [] then Some 0
      else do {
        j \<leftarrow> wnl_scan field 0;
        if NS_MAXCDNAME \<le> j then Some 0
        else do { b \<leftarrow> rd field j; Some (if b \<noteq> 0 then 0 else j + 1) }
      })"

text \<open>\<open>isupper\<close> and \<open>tolower\<close> of the C locale, and \<open>memcmp\<close> (only its sign is used).\<close>

definition tolower :: "byte \<Rightarrow> byte" where
  "tolower c = (if 0x41 \<le> c \<and> c \<le> 0x5a then c + 0x20 else c)"

fun memcmp :: "byte list \<Rightarrow> byte list \<Rightarrow> int" where
  "memcmp (x # xs) (y # ys) = (if x = y then memcmp xs ys else uint x - uint y)"
| "memcmp _ _ = 0"

definition label_bytes_cmp :: "byte list \<Rightarrow> nat \<Rightarrow> byte list \<Rightarrow> nat \<Rightarrow> int option" where
  "label_bytes_cmp field1 length1 field2 length2 =
     (if length1 = 0 \<or> length2 = 0 then Some (int length1 - int length2)
      else let min_len = (if length1 < length2 then length1 else length2) in
        if NS_MAXCDNAME < min_len then None
        else do {
          buffer1 \<leftarrow> seg field1 0 min_len;
          buffer2 \<leftarrow> seg field2 0 min_len;
          let ret_val = memcmp (map tolower buffer1) (map tolower buffer2);
          Some (if ret_val \<noteq> 0 then ret_val else int length1 - int length2)
        })"

text \<open>\<open>labelcmp\<close>: record where each label starts, then compare from the last label upwards.\<close>

fun label_starts :: "byte list \<Rightarrow> nat \<Rightarrow> nat \<Rightarrow> nat list option" where
  "label_starts name offset 0 = Some []"
| "label_starts name offset (Suc n) = do {
     b \<leftarrow> rd name offset;
     ps \<leftarrow> label_starts name (offset + unat b + 1) n;
     Some (offset # ps)
   }"

fun labels_up :: "byte list \<Rightarrow> byte list \<Rightarrow> (nat \<times> nat) list \<Rightarrow> int option" where
  "labels_up name1 name2 [] = Some 0"
| "labels_up name1 name2 ((p1, p2) # ps) = do {
     length1 \<leftarrow> rd name1 p1;
     length2 \<leftarrow> rd name2 p2;
     retval \<leftarrow> (if length1 = 0 \<or> length2 = 0 then Some (int (unat length1) - int (unat length2))
       else label_bytes_cmp (drop (p1 + 1) name1) (unat length1)
              (drop (p2 + 1) name2) (unat length2));
     if retval \<noteq> 0 then Some retval else labels_up name1 name2 ps
   }"

definition labelcmp :: "byte list \<Rightarrow> byte list \<Rightarrow> nat \<Rightarrow> int option" where
  "labelcmp name1 name2 label_cnt = do {
     length1 \<leftarrow> (if name1 = [] then Some 0 else rd name1 0);
     length2 \<leftarrow> (if name2 = [] then Some 0 else rd name2 0);
     if length1 = 0 \<or> length2 = 0 then Some (int (unat length1) - int (unat length2))
     else if 256 < label_cnt then Some (-1)
     else do {
       ptr1 \<leftarrow> label_starts name1 0 label_cnt;
       ptr2 \<leftarrow> label_starts name2 0 label_cnt;
       labels_up name1 name2 (rev (zip ptr1 ptr2))
     }
   }"

text \<open>The two loops of \<open>namecmp\<close>: counting the labels, and skipping the extra ones.\<close>

function count_labels :: "byte list \<Rightarrow> nat \<Rightarrow> nat \<Rightarrow> nat option" where
  "count_labels name index labels = do {
     b \<leftarrow> rd name index;
     if b = 0 then Some labels else count_labels name (index + unat b + 1) (labels + 1)
   }"
  by pat_completeness auto
termination
  by (relation "measure (\<lambda>(name, index, labels). length name - index)") (auto simp: rd_eq_Some_iff)

declare count_labels.simps [simp del]

fun skip_labels :: "byte list \<Rightarrow> nat \<Rightarrow> nat \<Rightarrow> nat option" where
  "skip_labels name index 0 = Some index"
| "skip_labels name index (Suc n) =
     do { b \<leftarrow> rd name index; skip_labels name (index + unat b + 1) n }"

definition namecmp :: "byte list \<Rightarrow> byte list \<Rightarrow> int option" where
  "namecmp name1 name2 =
     (if name1 = [] then Some (if name2 = [] then 0 else -1)
      else if name2 = [] then Some 1
      else do {
        labels1 \<leftarrow> count_labels name1 0 1;
        labels2 \<leftarrow> count_labels name2 0 1;
        (index1, index2, label_cnt) \<leftarrow>
          (if labels2 < labels1
           then do { i \<leftarrow> skip_labels name1 0 (labels1 - labels2); Some (i, 0, labels2) }
           else do { i \<leftarrow> skip_labels name2 0 (labels2 - labels1); Some (0, i, labels1) });
        p1 \<leftarrow> ptr name1 index1;
        p2 \<leftarrow> ptr name2 index2;
        ret_val \<leftarrow> labelcmp p1 p2 label_cnt;
        Some (if ret_val \<noteq> 0 then ret_val else int labels1 - int labels2)
      })"

text \<open>
  \<open>namename\<close> answers a pointer into \<open>big_name\<close> or NULL: here the offset of the label the pointer
  points at, or \<open>None\<close> inside the fault monad's \<open>Some\<close>.
\<close>

function namename_scan :: "byte list \<Rightarrow> byte list \<Rightarrow> nat \<Rightarrow> nat option option" where
  "namename_scan big_name little_name p = do {
     b \<leftarrow> rd big_name p;
     if b = 0 then Some None
     else do {
       sub \<leftarrow> ptr big_name p;
       d \<leftarrow> namecmp sub little_name;
       if d = 0 then Some (Some p)
       else if d < 0 then Some None
       else namename_scan big_name little_name (p + unat b + 1)
     }
   }"
  by pat_completeness auto
termination
  by (relation "measure (\<lambda>(big_name, little_name, p). length big_name - p)")
    (auto simp: rd_eq_Some_iff)

declare namename_scan.simps [simp del]

definition namename :: "byte list \<Rightarrow> byte list \<Rightarrow> nat option option" where
  "namename big_name little_name =
     (if big_name = [] \<or> little_name = [] then Some None
      else do {
        c \<leftarrow> rd little_name 0;
        if c = 0 then do {
          d \<leftarrow> wire_name_length big_name;
          Some (if 1 \<le> d then Some (d - 1) else None)
        } else namename_scan big_name little_name 0
      })"

text \<open>\<open>wire_name_labels\<close> reads \<open>field[j]\<close> before it tests \<open>j < NS_MAXCDNAME\<close>.\<close>

function wnlabels_scan :: "byte list \<Rightarrow> nat \<Rightarrow> nat \<Rightarrow> (nat \<times> nat) option" where
  "wnlabels_scan field j l = do {
     b \<leftarrow> rd field j;
     if b \<noteq> 0 \<and> 0xc0 AND b = 0 \<and> j < NS_MAXCDNAME
     then wnlabels_scan field (j + unat b + 1) (l + 1) else Some (j, l)
   }"
  by pat_completeness auto
termination by (relation "measure (\<lambda>(field, j, l). NS_MAXCDNAME - j)") auto

declare wnlabels_scan.simps [simp del]

definition wire_name_labels :: "byte list \<Rightarrow> nat option" where
  "wire_name_labels field =
     (if field = [] then Some 0
      else do {
        (j, l) \<leftarrow> wnlabels_scan field 0 0;
        b \<leftarrow> rd field j;
        let j' = (if b \<noteq> 0 then j + 1 else j) + 1;
        Some (if NS_MAXCDNAME < j' then 0 else l + 1)
      })"

text \<open>\<open>is_tail\<close>: the last loop walks the labels of \<open>full\<close> up to the offset \<open>f_len - t_len\<close>.\<close>

function tail_walk :: "byte list \<Rightarrow> nat \<Rightarrow> nat \<Rightarrow> bool option" where
  "tail_walk full limit index =
     (if index < limit then do {
        b \<leftarrow> rd full index;
        let index' = index + unat b + 1;
        if index' = limit then Some True else tail_walk full limit index'
      } else Some False)"
  by pat_completeness auto
termination by (relation "measure (\<lambda>(full, limit, index). limit - index)") auto

declare tail_walk.simps [simp del]

definition is_tail :: "byte list \<Rightarrow> byte list \<Rightarrow> bool option" where
  "is_tail full tail = do {
     f_len \<leftarrow> wire_name_length full;
     t_len \<leftarrow> wire_name_length tail;
     if f_len = t_len then
       (if f_len \<noteq> 0 then do { c \<leftarrow> namecmp full tail; Some (c = 0) } else Some False)
     else if f_len < t_len then Some False
     else do {
       sub \<leftarrow> ptr full (f_len - t_len);
       c \<leftarrow> namecmp sub tail;
       if c = 0 then tail_walk full (f_len - t_len) 0 else Some False
     }
   }"

text \<open>\<open>lower_name\<close> lowers a name inside a buffer in place and moves the index past it.\<close>

definition lower_name :: "byte list \<Rightarrow> nat \<Rightarrow> (byte list \<times> nat) option" where
  "lower_name rdata index =
     (if rdata = [] then Some (rdata, index)
      else do {
        sub \<leftarrow> ptr rdata index;
        len \<leftarrow> wire_name_length sub;
        name \<leftarrow> seg rdata index len;
        rdata' \<leftarrow> blit rdata index (map tolower name);
        Some (rdata', index + len)
      })"

subsection \<open>Abstract names and their wire format\<close>

type_synonym label = "byte list"

definition wf_label :: "label \<Rightarrow> bool" where
  "wf_label l \<longleftrightarrow> 0 < length l \<and> length l \<le> 63"

fun encl :: "label list \<Rightarrow> byte list" where
  "encl [] = []"
| "encl (l # ls) = word_of_nat (length l) # l @ encl ls"

definition enc :: "label list \<Rightarrow> byte list" where
  "enc ls = encl ls @ [0]"

definition wf_name :: "label list \<Rightarrow> bool" where
  "wf_name ls \<longleftrightarrow> list_all wf_label ls \<and> length (enc ls) \<le> NS_MAXCDNAME"

lemma encl_append [simp]: "encl (xs @ ys) = encl xs @ encl ys"
  by (induction xs) auto

lemma enc_Nil [simp]: "enc [] = [0]"
  by (simp add: enc_def)

lemma enc_Cons [simp]: "enc (l # ls) = word_of_nat (length l) # l @ enc ls"
  by (simp add: enc_def)

lemma enc_append: "enc (xs @ ys) = encl xs @ enc ys"
  by (simp add: enc_def)

lemma enc_not_Nil [simp]: "enc ls \<noteq> []"
  by (simp add: enc_def)

lemma length_enc: "length (enc ls) = length (encl ls) + 1"
  by (simp add: enc_def)

lemma length_encl: "length (encl ls) = sum_list (map length ls) + length ls"
  by (induction ls) auto

lemma wf_name_Nil [simp]: "wf_name []"
  by (simp add: wf_name_def)

lemma wf_name_Cons:
  "wf_name (l # ls) \<longleftrightarrow> wf_label l \<and> wf_name ls \<and> length l + 1 + length (enc ls) \<le> NS_MAXCDNAME"
  by (auto simp: wf_name_def)

lemma wf_name_append: "wf_name (xs @ ys) \<Longrightarrow> wf_name xs \<and> wf_name ys"
  by (auto simp: wf_name_def length_enc)

lemma wf_name_labels: "wf_name ls \<Longrightarrow> list_all wf_label ls"
  by (simp add: wf_name_def)

lemma two_labels_le: "list_all wf_label ls \<Longrightarrow> 2 * length ls \<le> length (encl ls)"
proof (induction ls)
  case (Cons l ls)
  then show ?case by (cases l) (auto simp: wf_label_def)
qed simp

lemma wf_name_length: "wf_name ls \<Longrightarrow> length ls \<le> 127"
  using two_labels_le [of ls] by (simp add: wf_name_def length_enc)

lemma unat_len_label: "wf_label l \<Longrightarrow> unat (word_of_nat (length l) :: byte) = length l"
  by (simp add: wf_label_def unat_of_nat)

lemma len_label_ne_0: "wf_label l \<Longrightarrow> (word_of_nat (length l) :: byte) \<noteq> 0"
  using unat_len_label [of l] by (auto simp: wf_label_def)

lemma len_label_and_c0: "wf_label l \<Longrightarrow> 0xc0 AND (word_of_nat (length l) :: byte) = 0"
  using unat_len_label [of l] by (simp add: and_c0_eq_0_iff wf_label_def)

lemmas label_simps = unat_len_label len_label_ne_0 len_label_and_c0

text \<open>Reading the length byte of a label that stands after \<open>pre\<close>.\<close>

lemma rd_label: "rd (pre @ word_of_nat (length l) # rest) (length pre) = Some (word_of_nat (length l))"
  by simp

lemma next_label:
  "pre @ word_of_nat (length l) # l @ rest = (pre @ word_of_nat (length l) # l) @ rest"
  "length pre + length l + 1 = length (pre @ word_of_nat (length l) # l)"
  by simp_all

lemma wnl_scan_enc:
  "list_all wf_label ls \<Longrightarrow> length pre + length (enc ls) \<le> NS_MAXCDNAME \<Longrightarrow>
   wnl_scan (pre @ enc ls @ t) (length pre) = Some (length pre + length (encl ls))"
proof (induction ls arbitrary: pre)
  case Nil
  then show ?case by (simp add: wnl_scan.simps)
next
  case (Cons l ls)
  then show ?case
    using Cons.IH [of "pre @ word_of_nat (length l) # l"]
    by (simp add: wnl_scan.simps [of _ "length pre"] label_simps length_enc add.assoc)
qed

lemma wnl_scan_long:
  "list_all wf_label ls \<Longrightarrow> NS_MAXCDNAME < length pre + length (enc ls) \<Longrightarrow>
   \<exists>j. wnl_scan (pre @ enc ls @ t) (length pre) = Some j \<and> NS_MAXCDNAME \<le> j"
proof (induction ls arbitrary: pre)
  case Nil
  then show ?case by (simp add: wnl_scan.simps)
next
  case (Cons l ls)
  then show ?case
    using Cons.IH [of "pre @ word_of_nat (length l) # l"]
    by (auto simp: wnl_scan.simps [of _ "length pre"] label_simps length_enc add.assoc)
qed

lemma wire_name_length_enc:
  assumes "list_all wf_label ls"
  shows "wire_name_length (enc ls @ t) =
    Some (if length (enc ls) \<le> NS_MAXCDNAME then length (enc ls) else 0)"
proof (cases "length (enc ls) \<le> NS_MAXCDNAME")
  case True
  then show ?thesis
    using wnl_scan_enc [OF assms, of "[]" t] assms
    by (simp add: wire_name_length_def length_enc enc_def rd_append)
next
  case False
  then show ?thesis
    using wnl_scan_long [OF assms, of "[]" t] by (auto simp: wire_name_length_def)
qed

lemma wire_name_length_wf [simp]: "wf_name ls \<Longrightarrow> wire_name_length (enc ls @ t) = Some (length (enc ls))"
  by (simp add: wire_name_length_enc wf_name_def)

lemma count_labels_enc:
  "list_all wf_label ls \<Longrightarrow> count_labels (pre @ enc ls @ t) (length pre) n = Some (n + length ls)"
proof (induction ls arbitrary: pre n)
  case Nil
  then show ?case by (simp add: count_labels.simps)
next
  case (Cons l ls)
  then show ?case
    using Cons.IH [of "pre @ word_of_nat (length l) # l" "n + 1"]
    by (simp add: count_labels.simps [of _ "length pre"] label_simps add.assoc)
qed

lemma skip_labels_enc:
  "list_all wf_label xs \<Longrightarrow>
   skip_labels (pre @ encl xs @ t) (length pre) (length xs) = Some (length pre + length (encl xs))"
proof (induction xs arbitrary: pre)
  case Nil
  then show ?case by simp
next
  case (Cons l ls)
  then show ?case
    using Cons.IH [of "pre @ word_of_nat (length l) # l"] by (simp add: label_simps add.assoc)
qed

subsection \<open>The canonical order\<close>

text \<open>\<open>lcmp\<close> and \<open>upcmp\<close> are what \<open>label_bytes_cmp\<close> and \<open>labelcmp\<close> compute on whole labels.\<close>

definition lcmp :: "label \<Rightarrow> label \<Rightarrow> int" where
  "lcmp x y =
     (if x = [] \<or> y = [] then int (length x) - int (length y)
      else let r = memcmp (map tolower x) (map tolower y)
           in if r \<noteq> 0 then r else int (length x) - int (length y))"

fun upcmp :: "label list \<Rightarrow> label list \<Rightarrow> int" where
  "upcmp (x # xs) (y # ys) = (if lcmp x y \<noteq> 0 then lcmp x y else upcmp xs ys)"
| "upcmp _ _ = 0"

lemma memcmp_eq_0: "length xs = length ys \<Longrightarrow> memcmp xs ys = 0 \<longleftrightarrow> xs = ys"
  by (induction xs ys rule: list_induct2) (auto simp: word_uint_eq_iff)

lemma memcmp_take:
  "length xs \<le> m \<or> length ys \<le> m \<Longrightarrow> memcmp (take m xs) (take m ys) = memcmp xs ys"
proof (induction xs ys arbitrary: m rule: memcmp.induct)
  case (1 x xs y ys)
  then show ?case by (cases m) auto
qed auto

lemma memcmp_take_length [simp]:
  "memcmp xs (take (length xs) ys) = memcmp xs ys" "memcmp (take (length ys) xs) ys = memcmp xs ys"
  using memcmp_take [of xs "length xs" ys] memcmp_take [of xs "length ys" ys] by simp_all

lemma label_bytes_cmp_lcmp:
  assumes "length x \<le> NS_MAXCDNAME" "length y \<le> NS_MAXCDNAME"
  shows "label_bytes_cmp (x @ s) (length x) (y @ t) (length y) = Some (lcmp x y)"
  using assms
  using memcmp_take_length [of "map tolower x" "map tolower y"]
    memcmp_take_length [of "map tolower y" "map tolower x"]
  by (auto simp: label_bytes_cmp_def lcmp_def seg_def Let_def take_map)

lemma sgn_memcmp_length:
  "sgn (if memcmp xs ys \<noteq> 0 then memcmp xs ys else int (length xs) - int (length ys)) = ocmp xs ys"
proof (induction xs ys rule: memcmp.induct)
  case (1 x xs y ys)
  show ?case
  proof (cases "x = y")
    case True
    with 1 show ?thesis by (simp add: ocmp_Cons split: if_splits)
  next
    case False
    then have "uint x \<noteq> uint y" using unsigned_word_eqI by blast
    with False show ?thesis by (simp add: ocmp_Cons ocmp_def sgn_if word_less_def)
  qed
next
  case "2_1"
  then show ?case by (simp add: ocmp_Nil_cases sgn_if)
next
  case "2_2"
  then show ?case by (simp add: ocmp_Nil_cases sgn_if)
qed

lemma sgn_lcmp: "sgn (lcmp x y) = ocmp (map tolower x) (map tolower y)"
proof (cases "x = [] \<or> y = []")
  case True
  then show ?thesis by (cases x; cases y) (auto simp: lcmp_def)
next
  case False
  then show ?thesis
    using sgn_memcmp_length [of "map tolower x" "map tolower y"]
    by (simp add: lcmp_def Let_def split: if_splits)
qed

lemma sgn_upcmp:
  "sgn (if upcmp xs ys \<noteq> 0 then upcmp xs ys else int (length xs) - int (length ys)) =
   ocmp (map (map tolower) xs) (map (map tolower) ys)"
proof (induction xs ys rule: upcmp.induct)
  case (1 x xs y ys)
  have "lcmp x y = 0 \<longleftrightarrow> map tolower x = map tolower y"
    using sgn_eq_ocmpD(1) [OF sgn_lcmp] .
  with 1 show ?case by (auto simp: ocmp_Cons sgn_lcmp)
next
  case "2_1"
  then show ?case by (simp add: ocmp_Nil_cases sgn_if)
next
  case "2_2"
  then show ?case by (simp add: ocmp_Nil_cases sgn_if)
qed

lemma upcmp_take: "length xs \<le> m \<or> length ys \<le> m \<Longrightarrow> upcmp (take m xs) (take m ys) = upcmp xs ys"
proof (induction xs ys arbitrary: m rule: upcmp.induct)
  case (1 x xs y ys)
  then show ?case by (cases m) auto
qed auto

text \<open>The canonical form of a name: its labels lowered, from the root down.\<close>

datatype cname = CName (root_down: "label list")

instantiation cname :: linorder
begin

definition less_eq_cname :: "cname \<Rightarrow> cname \<Rightarrow> bool" where
  "less_eq_cname a b \<longleftrightarrow> root_down a \<le> root_down b"

definition less_cname :: "cname \<Rightarrow> cname \<Rightarrow> bool" where
  "less_cname a b \<longleftrightarrow> root_down a < root_down b"

instance
  by standard (auto simp: less_eq_cname_def less_cname_def cname.expand)

end

definition cname :: "label list \<Rightarrow> cname" where
  "cname ls = CName (rev (map (map tolower) ls))"

lemma ocmp_CName: "ocmp (CName xs) (CName ys) = ocmp xs ys"
  by (simp add: ocmp_def less_cname_def)

lemma cname_eq_iff: "cname xs = cname ys \<longleftrightarrow> map (map tolower) xs = map (map tolower) ys"
  by (simp add: cname_def)

lemma cname_eq_length: "cname xs = cname ys \<Longrightarrow> length xs = length ys"
  by (metis cname_eq_iff length_map)

text \<open>\<open>label_at name p l\<close>: the label \<open>l\<close> stands at offset \<open>p\<close> of the buffer (the root as \<open>[]\<close>).\<close>

definition label_at :: "byte list \<Rightarrow> nat \<Rightarrow> label \<Rightarrow> bool" where
  "label_at name p l \<longleftrightarrow> rd name p = Some (word_of_nat (length l)) \<and>
     length l \<le> 63 \<and> (\<exists>t. drop (p + 1) name = l @ t)"

lemma labels_up_upcmp:
  assumes "list_all2 (label_at name1) ps1 ls1" "list_all2 (label_at name2) ps2 ls2"
    and "length ls1 = length ls2"
  shows "labels_up name1 name2 (zip ps1 ps2) = Some (upcmp ls1 ls2)"
  using assms(3,1,2)
proof (induction ls1 ls2 arbitrary: ps1 ps2 rule: list_induct2)
  case Nil
  then show ?case by simp
next
  case (Cons x xs y ys)
  then obtain p ps q qs where ps: "ps1 = p # ps" "ps2 = q # qs"
    and at: "label_at name1 p x" "label_at name2 q y"
    and rest: "list_all2 (label_at name1) ps xs" "list_all2 (label_at name2) qs ys"
    by (auto simp: list_all2_Cons2)
  from at have len: "unat (word_of_nat (length x) :: byte) = length x"
      "unat (word_of_nat (length y) :: byte) = length y"
    by (auto simp: label_at_def unat_of_nat)
  from at obtain s t where "drop (p + 1) name1 = x @ s" "drop (q + 1) name2 = y @ t"
    by (auto simp: label_at_def)
  moreover have "(word_of_nat (length x) :: byte) = 0 \<longleftrightarrow> x = []" "(word_of_nat (length y) :: byte) = 0 \<longleftrightarrow> y = []"
    using len by (auto simp flip: unat_eq_0)
  ultimately have "labels_up name1 name2 ((p, q) # zip ps qs) =
      (if lcmp x y \<noteq> 0 then Some (lcmp x y) else labels_up name1 name2 (zip ps qs))"
    using at label_bytes_cmp_lcmp [of x y s t]
    by (auto simp: label_at_def len lcmp_def)
  then show ?case by (simp add: ps Cons.IH [OF rest])
qed


fun starts :: "nat \<Rightarrow> label list \<Rightarrow> nat list" where
  "starts p [] = [p]"
| "starts p (l # ls) = p # starts (p + length l + 1) ls"

lemma length_starts [simp]: "length (starts p ls) = length ls + 1"
  by (induction ls arbitrary: p) auto

lemma label_starts_enc:
  "list_all wf_label ls \<Longrightarrow>
   label_starts (pre @ enc ls @ t) (length pre) (length ls + 1) = Some (starts (length pre) ls)"
proof (induction ls arbitrary: pre)
  case Nil
  then show ?case by simp
next
  case (Cons l ls)
  then show ?case
    using Cons.IH [of "pre @ word_of_nat (length l) # l"]
    by (simp add: label_starts.simps(2) [of _ "length pre"] label_simps add.assoc del: label_starts.simps)
qed

lemma starts_label_at:
  "list_all wf_label ls \<Longrightarrow>
   list_all2 (label_at (pre @ enc ls @ t)) (starts (length pre) ls) (ls @ [[]])"
proof (induction ls arbitrary: pre)
  case Nil
  then show ?case by (simp add: label_at_def)
next
  case (Cons l ls)
  then show ?case
    using Cons.IH [of "pre @ word_of_nat (length l) # l"]
    by (simp add: label_at_def wf_label_def add.assoc)
qed

lemma labelcmp_enc:
  assumes "list_all wf_label xs" "list_all wf_label ys" "length xs = length ys" "length xs < 256"
  shows "labelcmp (enc xs @ s) (enc ys @ t) (length xs + 1) = Some (upcmp (rev xs) (rev ys))"
proof (cases xs)
  case Nil
  with assms show ?thesis by (simp add: labelcmp_def)
next
  case (Cons x xs')
  with assms obtain y ys' where ys: "ys = y # ys'" by (cases ys) auto
  have "list_all2 (label_at (enc xs @ s)) (rev (starts 0 xs)) (rev (xs @ [[]]))"
    and "list_all2 (label_at (enc ys @ t)) (rev (starts 0 ys)) (rev (ys @ [[]]))"
    using starts_label_at [of xs "[]" s] starts_label_at [of ys "[]" t] assms
    by (simp_all only: list_all2_rev append_Nil list.size)
  then have "labels_up (enc xs @ s) (enc ys @ t) (zip (rev (starts 0 xs)) (rev (starts 0 ys))) =
      Some (upcmp (rev (xs @ [[]])) (rev (ys @ [[]])))"
    using assms(3) by (intro labels_up_upcmp) simp_all
  moreover have "label_starts (enc xs @ s) 0 (length xs + 1) = Some (starts 0 xs)"
    "label_starts (enc ys @ t) 0 (length xs + 1) = Some (starts 0 ys)"
    using label_starts_enc [of xs "[]" s] label_starts_enc [of ys "[]" t] assms by simp_all
  moreover have "zip (rev (starts 0 xs)) (rev (starts 0 ys)) = rev (zip (starts 0 xs) (starts 0 ys))"
    using assms(3) by (intro zip_rev) simp
  moreover have "rd (enc xs @ s) 0 = Some (word_of_nat (length x))"
    "rd (enc ys @ t) 0 = Some (word_of_nat (length y))" "wf_label x" "wf_label y"
    using Cons ys assms by simp_all
  ultimately show ?thesis
    using assms(4) by (simp add: labelcmp_def label_simps lcmp_def del: label_starts.simps)
qed

lemma labelcmp_suffix:
  assumes "wf_name xs" "wf_name ys" "length ys \<le> length xs"
    and "as = take (length xs - length ys) xs" "bs = drop (length xs - length ys) xs"
  shows "skip_labels (enc xs @ s) 0 (length xs - length ys) = Some (length (encl as))"
    and "ptr (enc xs @ s) (length (encl as)) = Some (enc bs @ s)"
    and "labelcmp (enc bs @ s) (enc ys @ t) (Suc (length ys)) = Some (upcmp (rev bs) (rev ys))"
    and "labelcmp (enc ys @ t) (enc bs @ s) (Suc (length ys)) = Some (upcmp (rev ys) (rev bs))"
    and "upcmp (rev bs) (rev ys) = upcmp (rev xs) (rev ys)"
    and "upcmp (rev ys) (rev bs) = upcmp (rev ys) (rev xs)"
proof -
  have xs: "xs = as @ bs" and len: "length bs = length ys" "length as = length xs - length ys"
    using assms(3-5) by simp_all
  have wf: "list_all wf_label as" "list_all wf_label bs" "list_all wf_label ys" "length ys < 256"
    using assms(1,2) wf_name_length [of ys] by (simp_all add: xs wf_name_def)
  show "skip_labels (enc xs @ s) 0 (length xs - length ys) = Some (length (encl as))"
    using skip_labels_enc [OF wf(1), of "[]" "enc bs @ s"] by (simp add: xs enc_append len(1))
  show "ptr (enc xs @ s) (length (encl as)) = Some (enc bs @ s)"
    by (simp add: xs enc_append)
  show "labelcmp (enc bs @ s) (enc ys @ t) (Suc (length ys)) = Some (upcmp (rev bs) (rev ys))"
    "labelcmp (enc ys @ t) (enc bs @ s) (Suc (length ys)) = Some (upcmp (rev ys) (rev bs))"
    using labelcmp_enc [of bs ys s t] labelcmp_enc [of ys bs t s] wf len by simp_all
  have "rev bs = take (length ys) (rev xs)" "rev ys = take (length ys) (rev ys)"
    by (simp_all add: xs len)
  then show "upcmp (rev bs) (rev ys) = upcmp (rev xs) (rev ys)"
    "upcmp (rev ys) (rev bs) = upcmp (rev ys) (rev xs)"
    using upcmp_take [of "rev xs" "length ys" "rev ys"] upcmp_take [of "rev ys" "length ys" "rev xs"]
    by simp_all
qed

lemma namecmp_enc_eq:
  assumes "wf_name xs" "wf_name ys"
  shows "namecmp (enc xs @ s) (enc ys @ t) =
    Some (if upcmp (rev xs) (rev ys) \<noteq> 0 then upcmp (rev xs) (rev ys)
          else int (length xs) - int (length ys))"
proof -
  have cnt: "count_labels (enc xs @ s) 0 (Suc 0) = Some (Suc (length xs))"
    "count_labels (enc ys @ t) 0 (Suc 0) = Some (Suc (length ys))"
    using count_labels_enc [of xs "[]" s 1] count_labels_enc [of ys "[]" t 1] assms
    by (simp_all add: wf_name_labels)
  show ?thesis
  proof (cases "length ys < length xs")
    case True
    note suffix = labelcmp_suffix [OF assms _ refl refl]
    from True show ?thesis
      using suffix(1,2,3,5) by (simp add: namecmp_def cnt)
  next
    case False
    note suffix = labelcmp_suffix [OF assms(2,1) _ refl refl]
    from False show ?thesis
      using suffix(1,2,4,6) by (simp add: namecmp_def cnt)
  qed
qed

lemma namecmp_sgn:
  assumes "wf_name xs" "wf_name ys"
  obtains r where "namecmp (enc xs @ s) (enc ys @ t) = Some r" "sgn r = ocmp (cname xs) (cname ys)"
  using namecmp_enc_eq [OF assms] sgn_upcmp [of "rev xs" "rev ys"]
  by (simp add: cname_def ocmp_CName rev_map split: if_splits)

text \<open>\<open>encodes buf ls\<close>: the buffer holds the well-formed name \<open>ls\<close>, followed by anything.\<close>

definition encodes :: "byte list \<Rightarrow> label list \<Rightarrow> bool" where
  "encodes buf ls \<longleftrightarrow> wf_name ls \<and> (\<exists>t. buf = enc ls @ t)"

lemma encodes_enc [intro, simp]: "wf_name ls \<Longrightarrow> encodes (enc ls @ t) ls" "wf_name ls \<Longrightarrow> encodes (enc ls) ls"
  unfolding encodes_def by (auto intro: exI [of _ "[]"])

lemma encodesE:
  assumes "encodes buf ls"
  obtains t where "buf = enc ls @ t" "wf_name ls"
  using assms by (auto simp: encodes_def)

lemma encodes_not_Nil [simp]: "encodes buf ls \<Longrightarrow> buf \<noteq> []"
  by (auto simp: encodes_def)

lemma wire_name_length_encodes:
  "encodes buf ls \<Longrightarrow> wire_name_length buf = Some (length (enc ls))"
  by (auto elim: encodesE)

lemma namecmp_encodes:
  assumes "encodes n1 xs" "encodes n2 ys"
  obtains r where "namecmp n1 n2 = Some r" "sgn r = ocmp (cname xs) (cname ys)"
  using assms by (auto simp: encodes_def elim: namecmp_sgn)

lemma namecmp_eq_0:
  assumes "encodes n1 xs" "encodes n2 ys"
  shows "namecmp n1 n2 = Some 0 \<longleftrightarrow> cname xs = cname ys"
proof -
  obtain r where r: "namecmp n1 n2 = Some r" "sgn r = ocmp (cname xs) (cname ys)"
    using namecmp_encodes [OF assms] .
  with sgn_eq_ocmpD(1) [OF r(2)] show ?thesis by simp
qed

text \<open>\<open>subname xs ys\<close>: the name \<open>xs\<close> is at or below \<open>ys\<close>; \<open>ancestor xs ys\<close> are the labels above.\<close>

definition under :: "label list \<Rightarrow> label list \<Rightarrow> label list" where
  "under xs ys = take (length xs - length ys) xs"

definition subname :: "label list \<Rightarrow> label list \<Rightarrow> bool" where
  "subname xs ys \<longleftrightarrow> length ys \<le> length xs \<and> cname (drop (length xs - length ys) xs) = cname ys"

lemma subname_refl [simp]: "subname xs xs"
  by (simp add: subname_def)

lemma subname_Nil [simp]: "subname xs []"
  by (simp add: subname_def)

lemma subname_Cons:
  "length ys \<le> length xs \<Longrightarrow> subname (x # xs) ys \<longleftrightarrow> subname xs ys"
  by (simp add: subname_def Suc_diff_le)

lemma cname_Cons: "root_down (cname (x # xs)) = root_down (cname xs) @ [map tolower x]"
  by (simp add: cname_def)

lemma append_less_same: "(xs :: 'a::linorder list) < xs @ [y]"
  by (induction xs) auto

lemma cname_tl_less: "cname xs < cname (x # xs)"
  by (simp add: less_cname_def cname_Cons append_less_same)

lemma cname_drop_le: "cname (drop k xs) \<le> cname xs"
proof (induction k arbitrary: xs)
  case (Suc k)
  then show ?case
    by (cases xs) (auto intro: order.trans [OF Suc.IH less_imp_le [OF cname_tl_less]])
qed simp

lemma cname_drop: "cname xs = cname ys \<Longrightarrow> cname (drop k xs) = cname (drop k ys)"
  by (simp add: cname_eq_iff flip: drop_map)

lemma subname_trans: "subname xs ys \<Longrightarrow> subname ys zs \<Longrightarrow> subname xs zs"
proof -
  assume a: "subname xs ys" "subname ys zs"
  let ?k = "length ys - length zs"
  have "cname (drop ?k (drop (length xs - length ys) xs)) = cname (drop ?k ys)"
    using a(1) by (intro cname_drop) (simp add: subname_def)
  moreover have "?k + (length xs - length ys) = length xs - length zs" using a by (simp add: subname_def)
  ultimately show "subname xs zs" using a by (simp add: subname_def)
qed

lemma subname_cname: "cname xs = cname xs' \<Longrightarrow> subname xs zs \<longleftrightarrow> subname xs' zs"
  using cname_drop [of xs xs'] cname_eq_length [of xs xs'] by (simp add: subname_def)

lemma subname_cname_le: "subname xs ys \<Longrightarrow> cname ys \<le> cname xs"
  by (metis subname_def cname_drop_le)

lemma subname_short: "length xs < length ys \<Longrightarrow> \<not> subname xs ys"
  by (simp add: subname_def)

lemma namename_scan_enc:
  assumes "list_all wf_label pre" "wf_name xs" "encodes little ys" "ys \<noteq> []"
  shows "namename_scan (encl pre @ enc xs @ t) little (length (encl pre)) =
    Some (if subname xs ys then Some (length (encl (pre @ under xs ys))) else None)"
  using assms
proof (induction xs arbitrary: pre)
  case Nil
  then show ?case by (simp add: namename_scan.simps subname_def)
next
  case (Cons x xs)
  then have wf: "wf_label x" "wf_name xs" by (simp_all add: wf_name_Cons)
  have IH: "namename_scan (encl (pre @ [x]) @ enc xs @ t) little (length (encl (pre @ [x]))) =
      Some (if subname xs ys then Some (length (encl ((pre @ [x]) @ under xs ys))) else None)"
    using Cons.IH [of "pre @ [x]"] Cons.prems wf by simp
  obtain r where r: "namecmp (enc (x # xs) @ t) little = Some r" "sgn r = ocmp (cname (x # xs)) (cname ys)"
    using namecmp_encodes [OF encodes_enc(1) [OF Cons.prems(2), of t] Cons.prems(3)] .
  note r_iff = sgn_eq_ocmpD [OF r(2)]
  have step: "namename_scan (encl pre @ word_of_nat (length x) # x @ enc xs @ t) little (length (encl pre)) =
      (if r = 0 then Some (Some (length (encl pre))) else if r < 0 then Some None
       else namename_scan (encl (pre @ [x]) @ enc xs @ t) little (length (encl (pre @ [x]))))"
    using r(1) by (simp add: namename_scan.simps [of _ _ "length (encl pre)"] label_simps wf add.assoc)
  consider "r = 0" | "r < 0" | "0 < r" by linarith
  then show ?case
  proof cases
    case 1
    with r_iff have "cname (x # xs) = cname ys" by simp
    moreover from cname_eq_length [OF this] have "length ys = length (x # xs)" by simp
    ultimately show ?thesis by (simp add: step 1 subname_def under_def)
  next
    case 2
    with r_iff have "cname (x # xs) < cname ys" by simp
    then have "\<not> subname (x # xs) ys" using subname_cname_le by force
    with 2 show ?thesis by (simp add: step)
  next
    case 3
    with r_iff have ne: "cname (x # xs) \<noteq> cname ys" by auto
    then have "subname (x # xs) ys \<longleftrightarrow> subname xs ys"
    proof (cases "length ys \<le> length xs")
      case False
      with ne show ?thesis by (auto simp: subname_def not_less_eq_eq)
    qed (simp add: subname_Cons)
    moreover have "under (x # xs) ys = x # under xs ys" if "subname xs ys"
      using that by (simp add: under_def subname_def Suc_diff_le)
    ultimately show ?thesis using 3 IH by (simp add: step)
  qed
qed

theorem namename_encodes:
  assumes "encodes big xs" "encodes little ys"
  shows "namename big little =
    Some (if subname xs ys then Some (length (encl (under xs ys))) else None)"
proof (cases ys)
  case Nil
  with assms show ?thesis
    by (auto simp: namename_def under_def length_enc elim!: encodesE)
next
  case (Cons y ys')
  with assms have "wf_label y" by (auto simp: encodes_def wf_name_Cons)
  then show ?thesis
    using assms namename_scan_enc [of "[]" xs little ys] Cons
    by (auto simp: namename_def label_simps elim!: encodesE)
qed

lemma wnlabels_scan_enc:
  "list_all wf_label ls \<Longrightarrow> length pre + length (enc ls) \<le> NS_MAXCDNAME \<Longrightarrow>
   wnlabels_scan (pre @ enc ls @ t) (length pre) n = Some (length pre + length (encl ls), n + length ls)"
proof (induction ls arbitrary: pre n)
  case Nil
  then show ?case by (simp add: wnlabels_scan.simps)
next
  case (Cons l ls)
  then show ?case
    using Cons.IH [of "pre @ word_of_nat (length l) # l" "n + 1"]
    by (simp add: wnlabels_scan.simps [of _ "length pre"] label_simps length_enc add.assoc)
qed

lemma wire_name_labels_encodes:
  assumes "encodes buf ls"
  shows "wire_name_labels buf = Some (length ls + 1)"
proof -
  from assms obtain t where buf: "buf = enc ls @ t" and wf: "wf_name ls" by (rule encodesE)
  then have "wnlabels_scan buf 0 0 = Some (length (encl ls), length ls)"
    using wnlabels_scan_enc [of ls "[]" t 0] by (simp add: wf_name_def)
  with buf wf show ?thesis
    by (simp add: wire_name_labels_def wf_name_def enc_def length_enc rd_append)
qed

lemma cname_eq_length_enc: "cname xs = cname ys \<Longrightarrow> length (encl xs) = length (encl ys)"
proof -
  assume "cname xs = cname ys"
  then have "map length xs = map length ys"
    by (metis (no_types, lifting) cname_eq_iff length_map list.map_comp list.map_cong0 o_apply)
  then show ?thesis by (metis length_encl length_map)
qed

lemma length_encl_lower [simp]: "length (encl (map (map tolower) ls)) = length (encl ls)"
  by (induction ls) auto

lemma length_enc_lower [simp]: "length (enc (map (map tolower) ls)) = length (enc ls)"
  by (simp add: length_enc)

lemma subname_offset:
  assumes "subname xs ys"
  shows "length (encl (under xs ys)) + length (enc ys) = length (enc xs)"
proof -
  let ?k = "length xs - length ys"
  from assms have "length (encl (drop ?k xs)) = length (encl ys)"
    by (auto simp: subname_def dest: cname_eq_length_enc)
  moreover have "length (encl xs) = length (encl (take ?k xs)) + length (encl (drop ?k xs))"
    by (simp flip: length_append encl_append)
  ultimately show ?thesis by (simp add: under_def length_enc)
qed

lemma encl_take_less:
  assumes "i < j" "j \<le> length xs"
  shows "length (encl (take i xs)) < length (encl (take j xs))"
proof -
  have "take j xs = take i xs @ take (j - i) (drop i xs)"
    using assms(1) by (metis le_add_diff_inverse less_imp_le take_add)
  moreover have "take (j - i) (drop i xs) \<noteq> []" using assms by simp
  ultimately show ?thesis by (cases "take (j - i) (drop i xs)") simp_all
qed

lemma encl_take_inj:
  assumes "length (encl (take i xs)) = length (encl (take j xs))" "i \<le> length xs" "j \<le> length xs"
  shows "i = j"
  using assms encl_take_less [of i j xs] encl_take_less [of j i xs]
  by (cases i j rule: linorder_cases) simp_all

lemma set_starts: "limit \<in> set (starts p ls) \<longleftrightarrow> (\<exists>k \<le> length ls. limit = p + length (encl (take k ls)))"
proof (induction ls arbitrary: p)
  case (Cons l ls)
  have "(\<exists>k \<le> length (l # ls). limit = p + length (encl (take k (l # ls)))) \<longleftrightarrow>
      limit = p \<or> (\<exists>k \<le> length ls. limit = p + length l + 1 + length (encl (take k ls)))"
    by (simp add: ex_le_Suc_iff add.assoc)
  with Cons show ?case by simp
qed auto

lemma tail_walk_enc:
  "list_all wf_label ls \<Longrightarrow> limit \<le> length pre + length (encl ls) \<Longrightarrow> length pre < limit \<Longrightarrow>
   tail_walk (pre @ enc ls @ t) limit (length pre) = Some (limit \<in> set (starts (length pre) ls))"
proof (induction ls arbitrary: pre)
  case Nil
  then show ?case by simp
next
  case (Cons l ls)
  let ?pre = "pre @ word_of_nat (length l) # l"
  have over: "tail_walk (?pre @ enc ls @ t) limit (length ?pre) = Some False" if "limit < length ?pre"
    using that by (subst tail_walk.simps) simp
  have IH: "tail_walk (?pre @ enc ls @ t) limit (length ?pre) = Some (limit \<in> set (starts (length ?pre) ls))"
    if "length ?pre < limit"
    using that Cons.prems by (intro Cons.IH) auto
  from Cons.prems have "wf_label l" by simp
  then have "tail_walk (pre @ enc (l # ls) @ t) limit (length pre) =
      (if length ?pre = limit then Some True else tail_walk (?pre @ enc ls @ t) limit (length ?pre))"
    using Cons.prems by (simp add: tail_walk.simps [of _ _ "length pre"] label_simps add.assoc)
  moreover have "limit \<in> set (starts (length pre) (l # ls)) \<longleftrightarrow> limit \<in> set (starts (length ?pre) ls)"
    using Cons.prems(3) by (simp add: add.assoc)
  moreover have "length ?pre \<in> set (starts (length ?pre) ls)" by (cases ls) auto
  moreover have "limit \<notin> set (starts (length ?pre) ls)" if "limit < length ?pre"
    using that by (auto simp: set_starts)
  ultimately show ?case using over IH by (cases "length ?pre" limit rule: linorder_cases) auto
qed

lemma is_tail_boundary:
  assumes "wf_name xs" "encodes tail ys" "k \<le> length xs"
    and k: "length (encl (take k xs)) + length (enc ys) = length (enc xs)"
  shows "is_tail (enc xs @ t) tail = Some (subname xs ys)"
proof -
  have sub: "subname xs ys \<longleftrightarrow> cname (drop k xs) = cname ys"
  proof
    assume s: "subname xs ys"
    from subname_offset [OF s] k have "length (encl (take (length xs - length ys) xs)) = length (encl (take k xs))"
      by (simp add: under_def)
    then have "length xs - length ys = k" by (rule encl_take_inj) (use assms(3) in auto)
    with s show "cname (drop k xs) = cname ys" by (simp add: subname_def)
  next
    assume c: "cname (drop k xs) = cname ys"
    from cname_eq_length [OF c] have "length xs - length ys = k" "length ys \<le> length xs"
      using assms(3) by auto
    with c show "subname xs ys" by (simp add: subname_def)
  qed
  have split: "enc xs = encl (take k xs) @ enc (drop k xs)" by (simp flip: enc_append)
  have wfd: "wf_name (drop k xs)"
    using assms(1) wf_name_append [of "take k xs" "drop k xs"] by simp
  obtain r where r: "namecmp (enc (drop k xs) @ t) tail = Some r" "sgn r = ocmp (cname (drop k xs)) (cname ys)"
    using namecmp_encodes [OF encodes_enc(1) [OF wfd] assms(2)] .
  have walk: "tail_walk (enc xs @ t) (length (encl (take k xs))) 0 = Some True" if "0 < length (encl (take k xs))"
  proof -
    have "length (encl (take k xs)) \<le> length (encl xs)" using k by (simp add: length_enc)
    then show ?thesis
      using tail_walk_enc [of xs _ "[]" t] that assms(1,3) by (auto simp: set_starts wf_name_def)
  qed
  have len: "wire_name_length (enc xs @ t) = Some (length (enc xs))" "wire_name_length tail = Some (length (enc ys))"
    using assms(1,2) by (simp_all add: wire_name_length_encodes)
  show ?thesis
  proof (cases "k = 0")
    case True
    with r k len sub sgn_eq_ocmpD(1) [OF r(2)] show ?thesis by (simp add: is_tail_def)
  next
    case False
    then have pos: "0 < length (encl (take k xs))"
      using assms(3) by (cases xs; cases k) auto
    have "length (enc xs) - length (enc ys) = length (encl (take k xs))" using k by simp
    moreover have "ptr (enc xs @ t) (length (encl (take k xs))) = Some (enc (drop k xs) @ t)"
      by (simp add: split)
    ultimately show ?thesis
      using pos len r sub walk sgn_eq_ocmpD(1) [OF r(2)] by (simp add: is_tail_def flip: k)
  qed
qed

theorem is_tail_sound:
  assumes "encodes full xs" "encodes tail ys" "is_tail full tail = Some b"
  shows "b \<longleftrightarrow> subname xs ys"
proof (cases "\<exists>k \<le> length xs. length (encl (take k xs)) + length (enc ys) = length (enc xs)")
  case True
  then obtain k where k: "k \<le> length xs" "length (encl (take k xs)) + length (enc ys) = length (enc xs)" by blast
  from assms(1) obtain t where "full = enc xs @ t" "wf_name xs" by (rule encodesE)
  with is_tail_boundary [OF _ assms(2) k, of t] assms(3) show ?thesis by simp
next
  case False
  from assms(1) obtain t where full: "full = enc xs @ t" and wf: "wf_name xs" by (rule encodesE)
  note len = wire_name_length_encodes [OF assms(1)] wire_name_length_encodes [OF assms(2)]
  have "\<not> subname xs ys"
    using False subname_offset [of xs ys] by (auto simp: under_def)
  moreover have "length (enc xs) \<noteq> length (enc ys)" using False by (auto dest: spec [of _ 0])
  moreover have "tail_walk full (length (enc xs) - length (enc ys)) 0 = Some False"
    if "length (enc ys) < length (enc xs)"
  proof -
    have "length (enc xs) - length (enc ys) \<notin> set (starts 0 xs)"
      using False that by (auto simp: set_starts)
    then show ?thesis
      using tail_walk_enc [of xs _ "[]" t] that wf by (auto simp: full wf_name_def length_enc)
  qed
  ultimately show ?thesis
    using assms(3) len by (auto simp: is_tail_def bind_eq_Some_conv split: if_splits)
qed

lemma map_tolower_enc: "list_all wf_label ls \<Longrightarrow> map tolower (enc ls) = enc (map (map tolower) ls)"
proof (induction ls)
  case (Cons l ls)
  then have "unat (word_of_nat (length l) :: byte) \<le> 63" by (simp add: unat_len_label wf_label_def)
  then have "tolower (word_of_nat (length l)) = word_of_nat (length l)"
    by (auto simp: tolower_def word_le_nat_alt)
  with Cons show ?case by simp
qed (simp add: tolower_def)

lemma lower_name_enc:
  assumes "wf_name ls"
  shows "lower_name (pre @ enc ls @ t) (length pre) =
    Some (pre @ enc (map (map tolower) ls) @ t, length pre + length (enc ls))"
  using assms
  by (simp add: lower_name_def seg_append blit_append map_tolower_enc wf_name_labels)

end
