(* ===== verification/NsName.thy ===== *)
theory NsName
  imports Names
begin

section \<open>Names in messages and in text\<close>

text \<open>
  \<^verbatim>\<open>libsres/ns_name.c\<close>: expanding compressed names (\<open>ns_name_unpack\<close>), skipping
  them (\<open>ns_name_skip\<close>), lowering them (\<open>ns_name_ntol\<close>), printing them (\<open>ns_name_ntop\<close>) and
  parsing them (\<open>ns_name_pton\<close>), with the EDNS0 bit-string labels.
  Every routine answers \<open>-1\<close> on a malformed name: the inner \<open>None\<close> here. What an output buffer
  holds after a failure is not modelled, no caller looks at it.
\<close>

subsection \<open>The code\<close>

abbreviation NS_CMPRSFLGS :: byte where "NS_CMPRSFLGS \<equiv> 0xc0"
abbreviation NS_TYPE_ELT :: byte where "NS_TYPE_ELT \<equiv> 0x40"
abbreviation DNS_LABELTYPE_BITSTRING :: byte where "DNS_LABELTYPE_BITSTRING \<equiv> 0x41"

text \<open>Appending to an output buffer of \<open>cap\<close> bytes of which \<open>out\<close> is already written.\<close>

definition emit :: "nat \<Rightarrow> byte list \<Rightarrow> byte list \<Rightarrow> byte list option" where
  "emit cap out bs = (if length out + length bs \<le> cap then Some (out @ bs) else None)"

definition labellen :: "byte list \<Rightarrow> nat \<Rightarrow> int option" where
  "labellen buf lp = do {
     l \<leftarrow> rd buf lp;
     if l AND NS_CMPRSFLGS = NS_CMPRSFLGS then Some (-1)
     else if l AND NS_CMPRSFLGS = NS_TYPE_ELT then
       (if l = DNS_LABELTYPE_BITSTRING then do {
          b \<leftarrow> rd buf (lp + 1);
          let bitlen = (if b = 0 then 256 else uint b);
          Some ((bitlen + 7) div 8 + 1)
        } else Some (-1))
     else Some (uint l)
   }"

text \<open>The loop of \<open>ns_name_unpack\<close>. \<open>len\<close> is the C variable of that name, \<open>None\<close> while negative.\<close>

function unpack_loop :: "byte list \<Rightarrow> nat \<Rightarrow> nat \<Rightarrow> nat \<Rightarrow> nat \<Rightarrow> nat \<Rightarrow> nat option \<Rightarrow> byte list \<Rightarrow>
    (nat \<times> byte list) option option" where
  "unpack_loop msg eom src dstsiz srcp checked len out = do {
     n \<leftarrow> rd msg srcp;
     if n = 0 then do {
       out' \<leftarrow> emit dstsiz out [0];
       Some (Some (case len of None \<Rightarrow> srcp + 1 - src | Some k \<Rightarrow> k, out'))
     }
     else if n AND NS_CMPRSFLGS = 0 \<or> n AND NS_CMPRSFLGS = NS_TYPE_ELT then do {
       l \<leftarrow> labellen msg srcp;
       if l < 0 then Some None
       else if dstsiz \<le> length out + nat l + 1 \<or> eom \<le> srcp + 1 + nat l then Some None
       else do {
         bs \<leftarrow> seg msg (srcp + 1) (nat l);
         out' \<leftarrow> emit dstsiz out (n # bs);
         unpack_loop msg eom src dstsiz (srcp + 1 + nat l) (checked + nat l + 1) len out'
       }
     }
     else if n AND NS_CMPRSFLGS = NS_CMPRSFLGS then
       (if eom \<le> srcp + 1 then Some None
        else do {
          b \<leftarrow> rd msg (srcp + 1);
          let len' = (case len of None \<Rightarrow> Some (srcp + 2 - src) | Some k \<Rightarrow> len);
          let srcp' = 256 * unat (n AND 0x3f) + unat b;
          if eom \<le> srcp' then Some None
          else if eom \<le> checked + 2 then Some None
          else unpack_loop msg eom src dstsiz srcp' (checked + 2) len' out
        })
     else Some None
   }"
  by pat_completeness auto
termination
  by (relation "measure (\<lambda>(msg, eom, src, dstsiz, srcp, checked, len, out).
        (dstsiz - length out) + (eom - checked))")
    (auto simp: emit_def split: if_splits)

declare unpack_loop.simps [simp del]

definition ns_name_unpack :: "byte list \<Rightarrow> nat \<Rightarrow> nat \<Rightarrow> nat \<Rightarrow> (nat \<times> byte list) option option" where
  "ns_name_unpack msg eom src dstsiz =
     (if eom \<le> src then Some None else unpack_loop msg eom src dstsiz src 0 None [])"

text \<open>\<open>ns_name_skip\<close> answers the new value of \<open>*ptrptr\<close>.\<close>

function skip_loop :: "byte list \<Rightarrow> nat \<Rightarrow> nat \<Rightarrow> nat option option" where
  "skip_loop msg eom cp =
     (if eom \<le> cp then Some (Some cp)
      else do {
        n \<leftarrow> rd msg cp;
        if n = 0 then Some (Some (cp + 1))
        else if n AND NS_CMPRSFLGS = 0 then skip_loop msg eom (cp + 1 + unat n)
        else if n AND NS_CMPRSFLGS = NS_TYPE_ELT then do {
          l \<leftarrow> labellen msg cp;
          if l < 0 then Some None else skip_loop msg eom (cp + 1 + nat l)
        }
        else if n AND NS_CMPRSFLGS = NS_CMPRSFLGS then Some (Some (cp + 2))
        else Some None
      })"
  by pat_completeness auto
termination by (relation "measure (\<lambda>(msg, eom, cp). eom - cp)") auto

declare skip_loop.simps [simp del]

definition ns_name_skip :: "byte list \<Rightarrow> nat \<Rightarrow> nat \<Rightarrow> nat option option" where
  "ns_name_skip msg eom cp = do {
     r \<leftarrow> skip_loop msg eom cp;
     Some (case r of None \<Rightarrow> None | Some cp' \<Rightarrow> if eom < cp' then None else Some cp')
   }"

text \<open>\<open>ns_name_ntol\<close>.\<close>

function ntol_loop :: "byte list \<Rightarrow> nat \<Rightarrow> nat \<Rightarrow> byte list \<Rightarrow> byte list option option" where
  "ntol_loop src dstsiz cp out = do {
     n \<leftarrow> rd src cp;
     if n = 0 then do { out' \<leftarrow> emit dstsiz out [0]; Some (Some out') }
     else if n AND NS_CMPRSFLGS = NS_CMPRSFLGS then Some None
     else do {
       out1 \<leftarrow> emit dstsiz out [n];
       l \<leftarrow> labellen src cp;
       if l < 0 then Some None
       else if dstsiz \<le> length out1 + nat l then Some None
       else do {
         bs \<leftarrow> seg src (cp + 1) (nat l);
         out2 \<leftarrow> emit dstsiz out1 (map tolower bs);
         ntol_loop src dstsiz (cp + 1 + nat l) out2
       }
     }
   }"
  by pat_completeness auto
termination
  by (relation "measure (\<lambda>(src, dstsiz, cp, out). length src - cp)") (auto simp: rd_eq_Some_iff)

declare ntol_loop.simps [simp del]

definition ns_name_ntol :: "byte list \<Rightarrow> nat \<Rightarrow> byte list option option" where
  "ns_name_ntol src dstsiz = (if dstsiz = 0 then Some None else ntol_loop src dstsiz 0 [])"

subsection \<open>Expansion of compressed names\<close>

text \<open>
  What RFC 1035 section 4.1.4 calls the name at an offset of a message, as the list of its
  labels in wire format (length byte first): labels follow each other until a zero byte, and a
  pointer continues at its target.
\<close>

inductive expands :: "byte list \<Rightarrow> nat \<Rightarrow> byte list list \<Rightarrow> bool" for msg where
  expands_root: "rd msg p = Some 0 \<Longrightarrow> expands msg p []"
| expands_label: "rd msg p = Some n \<Longrightarrow> n \<noteq> 0 \<Longrightarrow> n AND NS_CMPRSFLGS \<in> {0, NS_TYPE_ELT} \<Longrightarrow>
    labellen msg p = Some (int l) \<Longrightarrow> seg msg (p + 1) l = Some bs \<Longrightarrow>
    expands msg (p + 1 + l) cs \<Longrightarrow> expands msg p ((n # bs) # cs)"
| expands_ptr: "rd msg p = Some n \<Longrightarrow> n AND NS_CMPRSFLGS = NS_CMPRSFLGS \<Longrightarrow>
    rd msg (p + 1) = Some b \<Longrightarrow> expands msg (256 * unat (n AND 0x3f) + unat b) cs \<Longrightarrow>
    expands msg p cs"

inductive_cases expandsE: "expands msg p cs"

lemma expands_det: "expands msg p cs \<Longrightarrow> expands msg p cs' \<Longrightarrow> cs' = cs"
proof (induction arbitrary: cs' rule: expands.induct)
  case (expands_root p)
  from expands_root(2,1) show ?case by (cases rule: expandsE) auto
next
  case (expands_label p n l bs cs)
  from expands_label.prems expands_label.hyps show ?case
    by (cases rule: expandsE) (auto dest: expands_label.IH [simplified])
next
  case (expands_ptr p n b cs)
  from expands_ptr.prems expands_ptr.hyps show ?case
    by (cases rule: expandsE) (auto dest: expands_ptr.IH)
qed

lemma unpack_loop_sound:
  "unpack_loop msg eom src dstsiz srcp checked len out = Some (Some (k, res)) \<Longrightarrow>
   \<exists>cs. expands msg srcp cs \<and> res = out @ concat cs @ [0] \<and> length res \<le> dstsiz"
proof (induction msg eom src dstsiz srcp checked len out rule: unpack_loop.induct)
  case (1 msg eom src dstsiz srcp checked len out)
  from "1.prems" obtain n where n: "rd msg srcp = Some n"
    by (subst (asm) unpack_loop.simps) (auto split: bind_splits)
  consider (root) "n = 0"
    | (lab) "n \<noteq> 0" "n AND NS_CMPRSFLGS = 0 \<or> n AND NS_CMPRSFLGS = NS_TYPE_ELT"
    | (ptr) "n \<noteq> 0" "\<not> (n AND NS_CMPRSFLGS = 0 \<or> n AND NS_CMPRSFLGS = NS_TYPE_ELT)" by blast
  then show ?case
  proof cases
    case root
    with "1.prems" n show ?thesis
      by (subst (asm) unpack_loop.simps)
        (auto simp: emit_def intro!: exI [of _ "[]"] expands_root split: if_splits)
  next
    case lab
    with "1.prems" n obtain l bs where l: "labellen msg srcp = Some l" "\<not> l < 0"
      "\<not> (dstsiz \<le> length out + nat l + 1 \<or> eom \<le> srcp + 1 + nat l)"
      "seg msg (srcp + 1) (nat l) = Some bs" "emit dstsiz out (n # bs) = Some (out @ n # bs)"
      and rest: "unpack_loop msg eom src dstsiz (srcp + 1 + nat l) (checked + nat l + 1) len (out @ n # bs)
        = Some (Some (k, res))"
      by (subst (asm) unpack_loop.simps) (auto simp: emit_def split: bind_splits if_splits)
    from "1.IH"(1) [OF n lab l(1,2,3,4,5) rest] obtain cs where
      "expands msg (srcp + 1 + nat l) cs" "res = (out @ n # bs) @ concat cs @ [0]" "length res \<le> dstsiz"
      by blast
    with l(1,2,4) n lab show ?thesis
      by (intro exI [of _ "(n # bs) # cs"]) (auto intro!: expands_label [of _ _ n "nat l"])
  next
    case ptr
    with "1.prems" n obtain b where b: "n AND NS_CMPRSFLGS = NS_CMPRSFLGS" "\<not> eom \<le> srcp + 1"
      "rd msg (srcp + 1) = Some b"
      "\<not> eom \<le> 256 * unat (n AND 0x3f) + unat b" "\<not> eom \<le> checked + 2"
      and rest: "unpack_loop msg eom src dstsiz (256 * unat (n AND 0x3f) + unat b) (checked + 2)
        (case len of None \<Rightarrow> Some (srcp + 2 - src) | Some k \<Rightarrow> len) out = Some (Some (k, res))"
      by (subst (asm) unpack_loop.simps) (auto simp: Let_def split: bind_splits if_splits)
    from "1.IH"(2) [OF n ptr b(1,2,3) refl refl b(4,5) rest] show ?thesis
      using expands_ptr [OF n b(1,3)] by blast
  qed
qed

lemma labellen_plain: "rd msg p = Some n \<Longrightarrow> n AND NS_CMPRSFLGS = 0 \<Longrightarrow> labellen msg p = Some (uint n)"
  by (auto simp: labellen_def)

text \<open>No access of \<open>ns_name_unpack\<close> leaves the message or the output buffer.\<close>

lemma unpack_loop_safe:
  assumes "srcp < eom" "eom < length msg \<or> eom = length msg \<and> last msg \<noteq> DNS_LABELTYPE_BITSTRING"
    and "length out < dstsiz"
  shows "unpack_loop msg eom src dstsiz srcp checked len out \<noteq> None"
  using assms
proof (induction msg eom src dstsiz srcp checked len out rule: unpack_loop.induct)
  case (1 msg eom src dstsiz srcp checked len out)
  from "1.prems" have n: "rd msg srcp = Some (msg ! srcp)" by (auto simp: rd_def)
  define n where "n = msg ! srcp"
  note n = n [folded n_def]
  consider (root) "n = 0"
    | (lab) "n \<noteq> 0" "n AND NS_CMPRSFLGS = 0 \<or> n AND NS_CMPRSFLGS = NS_TYPE_ELT"
    | (ptr) "n \<noteq> 0" "\<not> (n AND NS_CMPRSFLGS = 0 \<or> n AND NS_CMPRSFLGS = NS_TYPE_ELT)" by blast
  then show ?case
  proof cases
    case root
    with "1.prems" n show ?thesis by (subst unpack_loop.simps) (auto simp: emit_def)
  next
    case lab
    have "labellen msg srcp \<noteq> None"
    proof (cases "n = DNS_LABELTYPE_BITSTRING \<and> srcp + 1 = length msg")
      case True
      then have "last msg = n" by (metis Suc_eq_plus1 diff_Suc_1 last_conv_nth length_0_conv n_def nat.simps(3))
      with True "1.prems" show ?thesis by auto
    next
      case False
      with "1.prems" n show ?thesis by (auto simp: labellen_def rd_def)
    qed
    then obtain l where l: "labellen msg srcp = Some l" by blast
    show ?thesis
    proof (cases "l < 0 \<or> dstsiz \<le> length out + nat l + 1 \<or> eom \<le> srcp + 1 + nat l")
      case True
      with n lab l show ?thesis by (subst unpack_loop.simps) auto
    next
      case False
      let ?bs = "take (nat l) (drop (srcp + 1) msg)"
      from False "1.prems" have bs: "seg msg (srcp + 1) (nat l) = Some ?bs"
        and len: "length ?bs = nat l" by (auto simp: seg_def)
      with False have em: "emit dstsiz out (n # ?bs) = Some (out @ n # ?bs)" by (simp add: emit_def)
      from False len have "length (out @ n # ?bs) < dstsiz" "srcp + 1 + nat l < eom" by auto
      with False have "unpack_loop msg eom src dstsiz (srcp + 1 + nat l) (checked + nat l + 1) len (out @ n # ?bs) \<noteq> None"
        by (intro "1.IH"(1) [OF n lab l _ _ bs em _ "1.prems"(2)]) simp_all
      with n lab l False bs em show ?thesis by (subst unpack_loop.simps) auto
    qed
  next
    case ptr
    show ?thesis
    proof (cases "n AND NS_CMPRSFLGS = NS_CMPRSFLGS \<and> \<not> eom \<le> srcp + 1")
      case False
      with n ptr show ?thesis by (subst unpack_loop.simps) auto
    next
      case True
      with "1.prems" have b: "rd msg (srcp + 1) = Some (msg ! (srcp + 1))" by (auto simp: rd_def)
      show ?thesis
        using n ptr True b "1.prems"
          "1.IH"(2) [OF n ptr conjunct1 [OF True] conjunct2 [OF True] b refl refl]
        by (subst unpack_loop.simps) (auto simp: Let_def)
    qed
  qed
qed

lemma and_c0_label: "wf_label l \<Longrightarrow> (word_of_nat (length l) :: byte) AND NS_CMPRSFLGS = 0"
  using len_label_and_c0 [of l] by (simp add: and.commute)

lemma labellen_label:
  "wf_label l \<Longrightarrow> labellen (pre @ word_of_nat (length l) # rest) (length pre) = Some (int (length l))"
  by (simp add: labellen_plain [OF rd_label and_c0_label] uint_nat unat_len_label)

text \<open>One label of \<open>ns_name_unpack\<close>, then all of them up to what follows.\<close>

lemma unpack_step:
  assumes "wf_label l" "length out + length l + 1 < dstsiz" "length pre + 1 + length l < eom"
    and "eom \<le> length (pre @ word_of_nat (length l) # l @ rest)"
  shows "unpack_loop (pre @ word_of_nat (length l) # l @ rest) eom src dstsiz (length pre) checked len out =
    unpack_loop (pre @ word_of_nat (length l) # l @ rest) eom src dstsiz (length pre + 1 + length l)
      (checked + length l + 1) len (out @ word_of_nat (length l) # l)"
proof -
  have "seg (pre @ word_of_nat (length l) # l @ rest) (Suc (length pre)) (length l) = Some l"
    using seg_append [of "pre @ [word_of_nat (length l)]" l rest] by simp
  with assms show ?thesis
    by (subst unpack_loop.simps)
      (simp add: labellen_label and_c0_label len_label_ne_0 emit_def)
qed

lemma unpack_labels:
  assumes "list_all wf_label ls" "length out + length (encl ls) < dstsiz"
    and "length pre + length (encl ls) < eom" "eom \<le> length (pre @ encl ls @ rest)"
  shows "unpack_loop (pre @ encl ls @ rest) eom src dstsiz (length pre) checked len out =
    unpack_loop (pre @ encl ls @ rest) eom src dstsiz (length pre + length (encl ls))
      (checked + length (encl ls)) len (out @ encl ls)"
  using assms
proof (induction ls arbitrary: pre out checked)
  case (Cons l ls)
  have "unpack_loop (pre @ word_of_nat (length l) # l @ encl ls @ rest) eom src dstsiz (length pre) checked len out =
    unpack_loop (pre @ word_of_nat (length l) # l @ encl ls @ rest) eom src dstsiz (length pre + 1 + length l)
      (checked + length l + 1) len (out @ word_of_nat (length l) # l)"
    using Cons.prems by (intro unpack_step) auto
  with Cons.prems Cons.IH [of "out @ word_of_nat (length l) # l" "pre @ word_of_nat (length l) # l"
      "checked + length l + 1"]
  show ?case by (simp add: add.assoc)
qed simp

lemma unpack_root:
  "length out < dstsiz \<Longrightarrow> unpack_loop (pre @ 0 # rest) eom src dstsiz (length pre) checked len out =
    Some (Some (case len of None \<Rightarrow> length pre + 1 - src | Some k \<Rightarrow> k, out @ [0]))"
  by (subst unpack_loop.simps) (simp add: emit_def)

text \<open>A name without pointers unpacks to itself.\<close>

lemma unpack_enc:
  assumes "wf_name ls" "length (enc ls) \<le> dstsiz"
    and "length pre + length (enc ls) \<le> eom" "eom \<le> length (pre @ enc ls @ rest)"
  shows "ns_name_unpack (pre @ enc ls @ rest) eom (length pre) dstsiz =
    Some (Some (length (enc ls), enc ls))"
  using assms unpack_labels [of ls "[]" dstsiz pre eom "0 # rest" "length pre" 0 None]
    unpack_root [of "encl ls" dstsiz "pre @ encl ls" rest]
  by (simp add: ns_name_unpack_def wf_name_labels enc_def)

text \<open>A pointer is written as its two flag bits and fourteen bits of offset.\<close>

definition ptr_bytes :: "nat \<Rightarrow> byte list" where
  "ptr_bytes p = [NS_CMPRSFLGS OR word_of_nat (p div 256), word_of_nat p]"

lemma ptr_byte_flags:
  assumes "p < 0x4000"
  shows "(NS_CMPRSFLGS OR word_of_nat (p div 256)) AND NS_CMPRSFLGS = NS_CMPRSFLGS"
    and "256 * unat ((NS_CMPRSFLGS OR word_of_nat (p div 256)) AND 0x3f) + unat (word_of_nat p :: byte) = p"
proof -
  show "(NS_CMPRSFLGS OR word_of_nat (p div 256)) AND NS_CMPRSFLGS = NS_CMPRSFLGS"
    by (simp add: bit_eq_iff bit_simps)
  have lt: "p div 256 < 64" using assms by simp
  then have "word_of_nat (p div 256) = (take_bit 6 (word_of_nat (p div 256)) :: byte)"
    using mask_eq_iff [of "word_of_nat (p div 256) :: byte" 6]
    by (simp add: take_bit_eq_mask uint_nat unat_of_nat)
  moreover have "(NS_CMPRSFLGS OR w) AND 0x3f = take_bit 6 w" for w :: byte
    unfolding take_bit_eq_mask by (rule bit_word_eqI)
      (auto simp: bit_simps bit_c0 mask_eq_exp_minus_1 bit_numeral_rec numeral_eq_Suc less_Suc_eq)
  ultimately have "(NS_CMPRSFLGS OR word_of_nat (p div 256)) AND 0x3f = (word_of_nat (p div 256) :: byte)"
    by metis
  with lt show "256 * unat ((NS_CMPRSFLGS OR word_of_nat (p div 256)) AND 0x3f) + unat (word_of_nat p :: byte) = p"
    by (simp add: unat_of_nat)
qed

text \<open>A name compressed with one pointer unpacks to its labels followed by the target's.\<close>

lemma unpack_pointer:
  assumes "rd m q = Some n" "n AND NS_CMPRSFLGS = NS_CMPRSFLGS" "rd m (q + 1) = Some b"
    and "256 * unat (n AND 0x3f) + unat b = p" "p < eom" "q + 1 < eom" "checked + 2 < eom"
  shows "unpack_loop m eom src dstsiz q checked len out =
    unpack_loop m eom src dstsiz p (checked + 2)
      (case len of None \<Rightarrow> Some (q + 2 - src) | Some k \<Rightarrow> len) out"
proof -
  have n: "n \<noteq> 0" "n AND NS_CMPRSFLGS \<noteq> 0" "n AND NS_CMPRSFLGS \<noteq> NS_TYPE_ELT" using assms(2) by auto
  have le: "\<not> eom \<le> p" "\<not> eom \<le> q + 1" "\<not> eom \<le> checked + 2" using assms(5-7) by simp_all
  show ?thesis
    by (subst unpack_loop.simps)
      (simp only: assms(1,3,4) assms(2) [THEN iffD2 [OF eq_True]] n [THEN iffD2 [OF eq_False]] le [THEN iffD2 [OF eq_False]]
        bind.bind_lunit if_True if_False Let_def simp_thms)
qed

lemma unpack_compressed:
  assumes m: "m = pre @ encl xs @ ptr_bytes p @ rest" "m = pre' @ enc ys @ rest'" "p = length pre'"
    and "wf_name (xs @ ys)" "length (enc (xs @ ys)) \<le> dstsiz" "p < 0x4000"
    and "length (encl xs) + 2 < length m"
  shows "ns_name_unpack m (length m) (length pre) dstsiz =
    Some (Some (length (encl xs) + 2, enc (xs @ ys)))"
proof -
  let ?q = "length pre + length (encl xs)"
  have wf: "wf_name xs" "wf_name ys" using wf_name_append [OF assms(4)] by simp_all
  have l1: "length m = length pre + length (encl xs) + 2 + length rest"
    by (simp add: m(1) ptr_bytes_def)
  have l2: "length m = p + length (enc ys) + length rest'" by (simp add: m(2,3))
  have "rd m ?q = rd ((pre @ encl xs) @ ptr_bytes p @ rest) (length (pre @ encl xs))" by (simp add: m(1))
  then have r0: "rd m ?q = Some (NS_CMPRSFLGS OR word_of_nat (p div 256))"
    by (simp only: rd_append_right0) (simp add: ptr_bytes_def)
  have "rd m (?q + 1) = rd ((pre @ encl xs) @ ptr_bytes p @ rest) (length (pre @ encl xs) + 1)"
    by (simp add: m(1))
  then have r1: "rd m (?q + 1) = Some (word_of_nat p)"
    by (simp only: rd_append_right) (simp add: ptr_bytes_def)
  have "ns_name_unpack m (length m) (length pre) dstsiz =
      unpack_loop m (length m) (length pre) dstsiz ?q (length (encl xs)) None (encl xs)"
    using unpack_labels [of xs "[]" dstsiz pre "length m" "ptr_bytes p @ rest" "length pre" 0 None]
      wf assms(5) l1 by (simp add: ns_name_unpack_def m(1) [symmetric] wf_name_labels enc_append length_enc)
  also have "\<dots> = unpack_loop m (length m) (length pre) dstsiz p (length (encl xs) + 2)
      (Some (length (encl xs) + 2)) (encl xs)"
    using unpack_pointer [OF r0 ptr_byte_flags(1) [OF assms(6)] r1 ptr_byte_flags(2) [OF assms(6)]]
      l1 l2 assms(7) by (simp add: length_enc)
  also have "\<dots> = unpack_loop m (length m) (length pre) dstsiz (p + length (encl ys))
      (length (encl xs) + 2 + length (encl ys)) (Some (length (encl xs) + 2)) (encl xs @ encl ys)"
    using unpack_labels [of ys "encl xs" dstsiz pre' "length m" "0 # rest'" "length pre"
        "length (encl xs) + 2" "Some (length (encl xs) + 2)"]
      wf(2) assms(5) l2 m(2,3) by (simp add: wf_name_labels enc_def)
  also have "\<dots> = Some (Some (length (encl xs) + 2, enc (xs @ ys)))"
    using unpack_root [of "encl xs @ encl ys" dstsiz "pre' @ encl ys" rest' "length m" "length pre"]
      assms(5) m(2,3) by (simp add: enc_def)
  finally show ?thesis .
qed

text \<open>\<open>ns_name_skip\<close> moves past a name, compressed or not.\<close>

lemma skip_labels_loop:
  assumes "list_all wf_label ls" "length pre + length (encl ls) \<le> eom" "eom \<le> length (pre @ encl ls @ rest)"
  shows "skip_loop (pre @ encl ls @ rest) eom (length pre) =
    skip_loop (pre @ encl ls @ rest) eom (length pre + length (encl ls))"
  using assms
proof (induction ls arbitrary: pre)
  case (Cons l ls)
  then show ?case
    using Cons.IH [of "pre @ word_of_nat (length l) # l"]
    by (simp add: skip_loop.simps [of _ _ "length pre"] and_c0_label len_label_ne_0 unat_len_label add.assoc)
qed simp

lemma skip_enc:
  assumes "list_all wf_label ls" "length pre + length (enc ls) \<le> eom" "eom \<le> length (pre @ enc ls @ rest)"
  shows "ns_name_skip (pre @ enc ls @ rest) eom (length pre) = Some (Some (length pre + length (enc ls)))"
proof -
  have "rd (pre @ encl ls @ 0 # rest) (length pre + length (encl ls)) = Some 0"
    using rd_append_right0 [of "pre @ encl ls" "0 # rest"] by simp
  with assms skip_labels_loop [of ls pre eom "0 # rest"] show ?thesis
    by (simp add: ns_name_skip_def enc_def skip_loop.simps [of _ _ "length pre + length (encl ls)"])
qed

lemma skip_compressed:
  assumes "list_all wf_label xs" "length pre + length (encl xs) + 2 \<le> eom" "p < 0x4000"
    and "eom \<le> length (pre @ encl xs @ ptr_bytes p @ rest)"
  shows "ns_name_skip (pre @ encl xs @ ptr_bytes p @ rest) eom (length pre) =
    Some (Some (length pre + length (encl xs) + 2))"
proof -
  have "rd (pre @ encl xs @ ptr_bytes p @ rest) (length pre + length (encl xs)) =
      Some (NS_CMPRSFLGS OR word_of_nat (p div 256))"
    using rd_append_right0 [of "pre @ encl xs" "ptr_bytes p @ rest"] by (simp add: ptr_bytes_def)
  moreover have "NS_CMPRSFLGS OR word_of_nat (p div 256) \<noteq> (0 :: byte)"
    using ptr_byte_flags(1) [OF assms(3)] by fastforce
  ultimately show ?thesis
    using assms skip_labels_loop [of xs pre eom "ptr_bytes p @ rest"] ptr_byte_flags(1) [OF assms(3)]
    by (simp add: ns_name_skip_def skip_loop.simps [of _ _ "length pre + length (encl xs)"])
qed

text \<open>\<open>ns_name_ntol\<close> yields the canonical lower-case wire form.\<close>

lemma ntol_labels:
  assumes "list_all wf_label ls" "length out + length (enc ls) \<le> dstsiz"
  shows "ntol_loop (pre @ enc ls @ rest) dstsiz (length pre) out =
    Some (Some (out @ enc (map (map tolower) ls)))"
  using assms
proof (induction ls arbitrary: pre out)
  case Nil
  then show ?case by (subst ntol_loop.simps) (simp add: emit_def)
next
  case (Cons l ls)
  have seg: "seg (pre @ word_of_nat (length l) # l @ enc ls @ rest) (Suc (length pre)) (length l) = Some l"
    using seg_append [of "pre @ [word_of_nat (length l)]" l "enc ls @ rest"] by simp
  from Cons.prems Cons.IH [of "out @ word_of_nat (length l) # map tolower l" "pre @ word_of_nat (length l) # l"]
  show ?case
    by (simp add: ntol_loop.simps [of _ _ "length pre"] and_c0_label len_label_ne_0 labellen_label
        emit_def seg length_enc add.assoc)
qed

lemma ntol_enc:
  assumes "wf_name ls" "length (enc ls) \<le> dstsiz"
  shows "ns_name_ntol (enc ls @ t) dstsiz = Some (Some (enc (map (map tolower) ls)))"
  using assms ntol_labels [of ls "[]" dstsiz "[]" t]
  by (simp add: ns_name_ntol_def wf_name_labels length_enc)

subsection \<open>Text form: the code\<close>

text \<open>\<open>special\<close>, \<open>printable\<close>, the decimal digits and the hexadecimal digits of \<open>sprintf\<close>.\<close>

definition special :: "byte \<Rightarrow> bool" where
  "special ch \<longleftrightarrow> ch \<in> {0x22, 0x2E, 0x3B, 0x5C, 0x28, 0x29, 0x40, 0x24}"

definition printable :: "byte \<Rightarrow> bool" where
  "printable ch \<longleftrightarrow> 0x20 < ch \<and> ch < 0x7f"

definition digits :: "nat \<Rightarrow> byte" where
  "digits n = word_of_nat (0x30 + n)"

definition hexdigit :: "nat \<Rightarrow> byte" where
  "hexdigit n = (if n < 10 then word_of_nat (0x30 + n) else word_of_nat (0x61 + n - 10))"

function udigits :: "nat \<Rightarrow> nat \<Rightarrow> byte list" where
  "udigits base n = (if base < 2 then [] else
     if n < base then [hexdigit n] else udigits base (n div base) @ [hexdigit (n mod base)])"
  by pat_completeness auto
termination by (relation "measure snd") (auto intro: div_less_dividend)

declare udigits.simps [simp del]

text \<open>
  \<open>sprintf\<close> with \<open>"%02x"\<close>, \<open>"%1x"\<close> and \<open>"%d"\<close>; \<open>cp\<close> points at the length byte of the bit string.
  The characters of the code are signed, so \<open>tc & (0xff << (8 - b))\<close> keeps bits of the sign
  extension of \<open>tc\<close>.
\<close>

definition fmt_02x :: "nat \<Rightarrow> byte list" where
  "fmt_02x n = (if n < 16 then [0x30, hexdigit n] else udigits 16 n)"

fun bitstring_bytes :: "byte list \<Rightarrow> nat \<Rightarrow> nat \<Rightarrow> byte list option" where
  "bitstring_bytes src cp 0 = Some []"
| "bitstring_bytes src cp (Suc k) = do {
     c \<leftarrow> rd src cp;
     rest \<leftarrow> bitstring_bytes src (cp + 1) k;
     Some (fmt_02x (unat c) @ rest)
   }"

definition decode_bitstring :: "byte list \<Rightarrow> nat \<Rightarrow> nat \<Rightarrow> byte list \<Rightarrow> (nat \<times> byte list) option option" where
  "decode_bitstring src cp dstsiz dn = do {
     c \<leftarrow> rd src cp;
     let blen = (if c = 0 then 256 else unat c);
     let plen = (blen + 3) div 4 + 6 + (if 99 < blen then 3 else if 9 < blen then 2 else 1);
     if dstsiz \<le> length dn + plen then Some None
     else do {
       let k = blen div 8;
       let b = blen mod 8;
       whole \<leftarrow> bitstring_bytes src (cp + 1) k;
       let cp' = cp + 1 + k;
       (part, cp'') \<leftarrow>
         (if 4 < b then do {
            tc \<leftarrow> rd src cp';
            Some (fmt_02x (unat ((scast tc :: u32) AND push_bit (8 - b) 0xff)), cp' + 1)
          } else if 0 < b then do {
            tc \<leftarrow> rd src cp';
            Some (udigits 16 (unat (drop_bit 4 tc AND 0x0f AND push_bit (4 - b) 0x0f)), cp' + 1)
          } else Some ([], cp'));
       let text = [0x5c, 0x5b, 0x78] @ whole @ part @ [0x2f] @ udigits 10 blen @ [0x5d];
       _ \<leftarrow> emit dstsiz dn (text @ [0]);
       Some (Some (cp'', dn @ text))
     }
   }"

lemma decode_bitstring_forward:
  "decode_bitstring src cp dstsiz dn = Some (Some (cp', dn')) \<Longrightarrow> cp < cp'"
  by (auto simp: decode_bitstring_def Let_def split: bind_splits if_splits)

text \<open>The inner loop of \<open>ns_name_ntop\<close> over the bytes of one label, then \<open>ns_name_ntop\<close>.\<close>

fun ntop_bytes :: "byte list \<Rightarrow> nat \<Rightarrow> byte list \<Rightarrow> byte list option" where
  "ntop_bytes [] dstsiz dn = Some dn"
| "ntop_bytes (c # cs) dstsiz dn =
     (if special c then
        (if dstsiz \<le> length dn + 1 then None else ntop_bytes cs dstsiz (dn @ [0x5c, c]))
      else if \<not> printable c then
        (if dstsiz \<le> length dn + 3 then None
         else ntop_bytes cs dstsiz (dn @ [0x5c, digits (unat c div 100),
           digits (unat c mod 100 div 10), digits (unat c mod 10)]))
      else (if dstsiz \<le> length dn then None else ntop_bytes cs dstsiz (dn @ [c])))"

function ntop_loop :: "byte list \<Rightarrow> nat \<Rightarrow> nat \<Rightarrow> byte list \<Rightarrow> byte list option option" where
  "ntop_loop src dstsiz cp dn = do {
     n \<leftarrow> rd src cp;
     if n = 0 then do {
       let dn1 = (if dn = [] then [0x2e] else dn);
       Some (if dn = [] \<and> dstsiz = 0 then None
         else if dstsiz \<le> length dn1 then None else Some (dn1 @ [0]))
     }
     else if n AND NS_CMPRSFLGS = NS_CMPRSFLGS then Some None
     else if dn \<noteq> [] \<and> dstsiz \<le> length dn then Some None
     else do {
       let dn1 = (if dn \<noteq> [] then dn @ [0x2e] else dn);
       l \<leftarrow> labellen src cp;
       if l < 0 then Some None
       else if dstsiz \<le> length dn1 + nat l then Some None
       else if n AND NS_CMPRSFLGS = NS_TYPE_ELT then
         (if n \<noteq> DNS_LABELTYPE_BITSTRING then Some None
          else do {
            r \<leftarrow> decode_bitstring src (cp + 1) dstsiz dn1;
            case r of None \<Rightarrow> Some None
            | Some (cp', dn2) \<Rightarrow> ntop_loop src dstsiz cp' dn2
          })
       else do {
         bs \<leftarrow> seg src (cp + 1) (nat l);
         case ntop_bytes bs dstsiz dn1 of None \<Rightarrow> Some None
         | Some dn2 \<Rightarrow> ntop_loop src dstsiz (cp + 1 + nat l) dn2
       }
     }
   }"
  by pat_completeness auto
termination
  by (relation "measure (\<lambda>(src, dstsiz, cp, dn). length src - cp)") (auto simp: rd_eq_Some_iff dest!: decode_bitstring_forward)

declare ntop_loop.simps [simp del]

definition ns_name_ntop :: "byte list \<Rightarrow> nat \<Rightarrow> byte list option option" where
  "ns_name_ntop src dstsiz = ntop_loop src dstsiz 0 []"

subsection \<open>Parsing the text form: the code\<close>

datatype errno = EINVAL | EMSGSIZE

definition isdigit :: "byte \<Rightarrow> bool" where
  "isdigit c \<longleftrightarrow> 0x30 \<le> c \<and> c \<le> 0x39"

definition isxdigit :: "byte \<Rightarrow> bool" where
  "isxdigit c \<longleftrightarrow> isdigit c \<or> (0x41 \<le> c \<and> c \<le> 0x46) \<or> (0x61 \<le> c \<and> c \<le> 0x66)"

definition digitvalue :: "byte \<Rightarrow> int" where
  "digitvalue c = (if isdigit c then uint c - 0x30 else if 0x41 \<le> c \<and> c \<le> 0x46 then uint c - 0x37
     else if 0x61 \<le> c \<and> c \<le> 0x66 then uint c - 0x57 else -1)"

text \<open>
  \<open>strtol\<close> with base ten on characters already known to start with a digit, its result clamped
  to \<open>LONG_MAX\<close> and cast to \<open>int\<close>.
\<close>

definition strtol_int :: "byte list \<Rightarrow> int" where
  "strtol_int cs = sint (word_of_int (min (foldl (\<lambda>v c. 10 * v + digitvalue c) 0 (takeWhile isdigit cs))
     (2 ^ 63 - 1)) :: u32)"

text \<open>
  The \<open>for\<close> loop of \<open>encode_bitsring\<close>; it answers the error, or the final \<open>cp\<close>, \<open>tp\<close>, buffer,
  \<open>value\<close>, \<open>tbcount\<close> and \<open>blen\<close>. The shifts of the signed \<open>value\<close> wrap.
\<close>

function encode_loop :: "byte list \<Rightarrow> nat \<Rightarrow> byte list \<Rightarrow> nat \<Rightarrow> nat \<Rightarrow> bool \<Rightarrow> nat option \<Rightarrow> u32 \<Rightarrow>
    nat \<Rightarrow> nat \<Rightarrow> (errno + nat \<times> nat \<times> byte list \<times> u32 \<times> nat \<times> int) option" where
  "encode_loop src fin dst cp tp afterslash beg_blen value count tbcount =
     (if \<not> (cp < fin \<and> tp < length dst) then Some (Inr (cp, tp, dst, value, tbcount, 0))
      else do {
        c \<leftarrow> rd src cp;
        if c = 0x5d then
          (if afterslash \<and> beg_blen = None then Some (Inl EINVAL)
           else do {
             term \<leftarrow> (case beg_blen of Some i \<Rightarrow> rd src (i + length (takeWhile isdigit (drop i src)))
                | None \<Rightarrow> Some 0x5d);
             if term \<noteq> 0x5d then Some (Inl EINVAL)
             else do {
               (tp', dst') \<leftarrow> (if 0 < count then do { d \<leftarrow> wr dst tp (ucast (push_bit 4 value)); Some (tp + 1, d) }
                  else Some (tp, dst));
               Some (Inr (cp + 1, tp', dst', value, tbcount,
                 case beg_blen of Some i \<Rightarrow> strtol_int (drop i src) | None \<Rightarrow> 0))
             }
           })
        else if c = 0x2f then encode_loop src fin dst (cp + 1) tp True beg_blen value count tbcount
        else if afterslash then
          (if \<not> isdigit c then Some (Inl EINVAL)
           else case beg_blen of
             None \<Rightarrow> if c = 0x30 then Some (Inl EINVAL)
               else encode_loop src fin dst (cp + 1) tp afterslash (Some cp) value count tbcount
           | Some i \<Rightarrow> encode_loop src fin dst (cp + 1) tp afterslash beg_blen value count tbcount)
        else if \<not> isxdigit c then Some (Inl EINVAL)
        else
          let value' = push_bit 4 value + word_of_int (digitvalue c) in
          if 256 < tbcount + 4 then Some (Inl EINVAL)
          else if count + 4 = 8 then do {
            dst' \<leftarrow> wr dst tp (ucast value');
            encode_loop src fin dst' (cp + 1) (tp + 1) afterslash beg_blen value' 0 (tbcount + 4)
          }
          else encode_loop src fin dst (cp + 1) tp afterslash beg_blen value' (count + 4) (tbcount + 4)
      })"
  by pat_completeness auto
termination
  by (relation "measure (\<lambda>(src, fin, dst, cp, tp, afterslash, beg_blen, value, count, tbcount). fin - cp)") auto

declare encode_loop.simps [simp del]

text \<open>\<open>encode_bitsring\<close> with \<open>*bp\<close>, \<open>end\<close>, \<open>*labelp\<close>, \<open>*dst\<close>: the new \<open>*bp\<close>, \<open>*dst\<close> and the buffer.\<close>

definition encode_bitsring :: "byte list \<Rightarrow> nat \<Rightarrow> nat \<Rightarrow> byte list \<Rightarrow> nat \<Rightarrow> nat \<Rightarrow>
    (errno + nat \<times> nat \<times> byte list) option" where
  "encode_bitsring src bp fin dst label dp =
     (if fin < bp + 2 then Some (Inl EINVAL)
      else do {
        x \<leftarrow> rd src bp;
        if x \<noteq> 0x78 then Some (Inl EINVAL)
        else do {
          h \<leftarrow> rd src (bp + 1);
          if \<not> isxdigit h then Some (Inl EINVAL)
          else do {
            r \<leftarrow> encode_loop src fin dst (bp + 1) (dp + 1) False None 0 0 0;
            case r of Inl e \<Rightarrow> Some (Inl e)
            | Inr (cp, tp, dst', value, tbcount, blen) \<Rightarrow>
                if fin \<le> cp \<or> length dst \<le> tp then Some (Inl EMSGSIZE)
                else if 0 < blen \<and> (blen + 3) div 4 * 4 \<noteq> int tbcount then Some (Inl EINVAL)
                else if 0 < blen \<and>
                  push_bit (8 - nat (int tbcount - blen)) value AND 0xff \<noteq> 0 then Some (Inl EINVAL)
                else do {
                  let blen' = (if 0 < blen then blen else int tbcount);
                  let blen'' = (if blen' = 256 then 0 else blen');
                  dst1 \<leftarrow> wr dst' label DNS_LABELTYPE_BITSTRING;
                  dst2 \<leftarrow> wr dst1 dp (word_of_int blen'');
                  Some (Inr (cp, tp, dst2))
                }
          }
        }
      })"

lemma encode_loop_forward:
  "encode_loop src fin dst cp tp afterslash beg v count tbcount = Some (Inr (cp', rest)) \<Longrightarrow> cp \<le> cp'"
proof (induction "fin - cp" arbitrary: dst cp tp afterslash beg v count tbcount rule: less_induct)
  case less
  have IH: "Suc cp \<le> cp'" if "cp < fin"
    "encode_loop src fin d (Suc cp) t a b v' c n = Some (Inr (cp', rest))" for d t a b v' c n
    using less.hyps [OF _ that(2)] that(1) by simp
  from less.prems show ?case
    by (subst (asm) encode_loop.simps)
      (auto simp: Let_def split: bind_splits if_splits option.split_asm dest: IH)
qed

lemma encode_bitsring_forward:
  "encode_bitsring src bp fin dst label dp = Some (Inr (bp', rest)) \<Longrightarrow> bp < bp'"
  by (auto simp: encode_bitsring_def Let_def split: bind_splits if_splits sum.splits
      dest!: encode_loop_forward)

text \<open>
  \<open>ns_name_pton\<close>. \<open>strchr\<close> answers an index; the string ends at its first zero byte, and reading
  past the buffer that holds it is a fault.
\<close>

fun strchr :: "byte list \<Rightarrow> nat \<Rightarrow> byte \<Rightarrow> nat option" where
  "strchr [] i c = None"
| "strchr (x # xs) i c = (if x = c then Some i else if x = 0 then None else strchr xs (i + 1) c)"

text \<open>The end of \<open>ns_name_pton\<close>, from the label \<open>done\<close>.\<close>

definition pton_done :: "byte list \<Rightarrow> nat \<Rightarrow> nat \<Rightarrow> nat \<Rightarrow> (nat \<times> byte list) option option" where
  "pton_done dst label bp c =
     (if length dst \<le> label then Some None
      else do {
        dst1 \<leftarrow> wr dst label (word_of_nat c);
        if c \<noteq> 0 \<and> length dst \<le> bp then Some None
        else do {
          dst2 \<leftarrow> (if c \<noteq> 0 then wr dst1 bp 0 else Some dst1);
          let bp' = (if c \<noteq> 0 then bp + 1 else bp);
          Some (if NS_MAXCDNAME < bp' then None else Some (0, dst2))
        }
      })"

function pton_loop :: "byte list \<Rightarrow> nat \<Rightarrow> bool \<Rightarrow> nat \<Rightarrow> nat \<Rightarrow> byte list \<Rightarrow>
    (nat \<times> byte list) option option" where
  "pton_loop src i escaped label bp dst = do {
     c \<leftarrow> rd src i;
     if c = 0 then
       (if (bp - label - 1) AND 0xc0 \<noteq> 0 then Some None else pton_done dst label bp (bp - label - 1))
     else if escaped \<and> c = 0x5b then
       (case strchr (drop (i + 1) src) (i + 1) 0x5d of
          None \<Rightarrow> Some None
        | Some e \<Rightarrow> do {
            r \<leftarrow> encode_bitsring src (i + 1) (e + 2) dst label bp;
            case r of Inl err \<Rightarrow> Some None
            | Inr (i', bp', dst') \<Rightarrow> do {
                c' \<leftarrow> rd src i';
                if c' = 0 then pton_done dst' bp' (bp' + 1) 0
                else if c' \<noteq> 0x2e then Some None
                else pton_loop src (i' + 1) False bp' (bp' + 1) dst'
              }
          })
     else if escaped \<and> isdigit c then do {
       c1 \<leftarrow> rd src (i + 1);
       if \<not> isdigit c1 then Some None
       else do {
         c2 \<leftarrow> rd src (i + 2);
         if \<not> isdigit c2 then Some None
         else let n = digitvalue c * 100 + digitvalue c1 * 10 + digitvalue c2 in
           if 255 < n then Some None
           else if length dst \<le> bp then Some None
           else do {
             dst' \<leftarrow> wr dst bp (word_of_int n);
             pton_loop src (i + 3) False label (bp + 1) dst'
           }
       }
     }
     else if \<not> escaped \<and> c = 0x5c then pton_loop src (i + 1) True label bp dst
     else if \<not> escaped \<and> c = 0x2e then
       (let n = bp - label - 1 in
        if n AND 0xc0 \<noteq> 0 then Some None
        else if length dst \<le> label then Some None
        else do {
          dst1 \<leftarrow> wr dst label (word_of_nat n);
          d \<leftarrow> rd src (i + 1);
          if d = 0 then
            (if n \<noteq> 0 \<and> length dst \<le> bp then Some None
             else do {
               dst2 \<leftarrow> (if n \<noteq> 0 then wr dst1 bp 0 else Some dst1);
               let bp' = (if n \<noteq> 0 then bp + 1 else bp);
               Some (if NS_MAXCDNAME < bp' then None else Some (1, dst2))
             })
          else if n = 0 \<or> d = 0x2e then Some None
          else pton_loop src (i + 1) False bp (bp + 1) dst1
        })
     else if length dst \<le> bp then Some None
     else do {
       dst' \<leftarrow> wr dst bp c;
       pton_loop src (i + 1) False label (bp + 1) dst'
     }
   }"
  by pat_completeness auto
termination
  by (relation "measure (\<lambda>(src, i, escaped, label, bp, dst). length src - i)")
    (auto simp: rd_eq_Some_iff dest!: encode_bitsring_forward)

declare pton_loop.simps [simp del]

definition ns_name_pton :: "byte list \<Rightarrow> byte list \<Rightarrow> (nat \<times> byte list) option option" where
  "ns_name_pton src dst = pton_loop src 0 False 0 1 dst"

subsection \<open>Printing and parsing\<close>

definition escape :: "byte \<Rightarrow> byte list" where
  "escape c = (if special c then [0x5c, c]
     else if \<not> printable c then
       [0x5c, digits (unat c div 100), digits (unat c mod 100 div 10), digits (unat c mod 10)]
     else [c])"

definition text_label :: "label \<Rightarrow> byte list" where
  "text_label l = concat (map escape l)"

definition text_rest :: "label list \<Rightarrow> byte list" where
  "text_rest ls = concat (map (\<lambda>l. 0x2e # text_label l) ls)"

fun text_name :: "label list \<Rightarrow> byte list" where
  "text_name [] = [0x2e]"
| "text_name (l # ls) = text_label l @ text_rest ls"

lemma text_simps [simp]:
  "text_label [] = []" "text_label (c # cs) = escape c @ text_label cs"
  "text_rest [] = []" "text_rest (l # ls) = 0x2e # text_label l @ text_rest ls"
  by (simp_all add: text_label_def text_rest_def)

lemma length_escape: "length (escape c) = (if special c then 2 else if \<not> printable c then 4 else 1)"
  by (simp add: escape_def)

lemma length_text_label: "length l \<le> length (text_label l)"
  by (induction l) (auto simp: length_escape)

lemma ntop_bytes_text:
  "length dn \<le> dstsiz \<Longrightarrow> ntop_bytes cs dstsiz dn =
    (if length dn + length (text_label cs) \<le> dstsiz then Some (dn @ text_label cs) else None)"
  by (induction cs arbitrary: dn) (auto simp: escape_def)

lemma ntop_step:
  assumes "wf_label l" "dn1 = (if dn = [] then dn else dn @ [0x2e])" "length dn \<le> dstsiz"
  shows "ntop_loop (pre @ word_of_nat (length l) # l @ rest) dstsiz (length pre) dn =
    (if length dn1 + length (text_label l) < dstsiz \<or> length dn1 + length (text_label l) = dstsiz \<and> length l < length (text_label l)
     then ntop_loop (pre @ word_of_nat (length l) # l @ rest) dstsiz (length pre + 1 + length l) (dn1 @ text_label l)
     else Some None)"
proof -
  have "seg (pre @ word_of_nat (length l) # l @ rest) (Suc (length pre)) (length l) = Some l"
    using seg_append [of "pre @ [word_of_nat (length l)]" l rest] by simp
  then show ?thesis
    using assms length_text_label [of l]
    by (subst ntop_loop.simps)
      (auto simp: labellen_label and_c0_label len_label_ne_0 Let_def ntop_bytes_text)
qed

lemma ntop_rest:
  assumes "list_all wf_label ls" "dn \<noteq> []" "length dn \<le> dstsiz"
  shows "ntop_loop (pre @ enc ls @ t) dstsiz (length pre) dn =
    Some (if length dn + length (text_rest ls) < dstsiz then Some (dn @ text_rest ls @ [0]) else None)"
  using assms
proof (induction ls arbitrary: pre dn)
  case Nil
  then show ?case by (subst ntop_loop.simps) simp
next
  case (Cons l ls)
  from Cons.prems Cons.IH [of "dn @ 0x2e # text_label l" "pre @ word_of_nat (length l) # l"]
  show ?case
    by (simp add: ntop_step add.assoc)
qed

lemma ntop_enc:
  assumes "list_all wf_label ls"
  shows "ns_name_ntop (enc ls @ t) dstsiz =
    Some (if length (text_name ls) < dstsiz then Some (text_name ls @ [0]) else None)"
proof (cases ls)
  case Nil
  then show ?thesis by (simp add: ns_name_ntop_def ntop_loop.simps Let_def)
next
  case (Cons l ls')
  with assms have "text_label l \<noteq> []" using length_text_label [of l] by (auto simp: wf_label_def)
  with Cons assms show ?thesis
    using ntop_step [of l "[]" "[]" dstsiz "[]" "enc ls' @ t"]
      ntop_rest [of ls' "text_label l" dstsiz "word_of_nat (length l) # l" t]
    by (simp add: ns_name_ntop_def)
qed

text \<open>\<open>ns_name_pton\<close> reads one escaped character, one label, and then the rest of the name.\<close>

lemma wr_append: "k = length pre \<Longrightarrow> wr (pre @ x # post) k y = Some (pre @ y # post)"
  by (simp add: wr_def)

lemma unat_digits: "n < 10 \<Longrightarrow> unat (digits n) = 48 + n"
  unfolding digits_def unat_of_nat by simp

lemma isdigit_digits: "n < 10 \<Longrightarrow> isdigit (digits n)"
  by (simp add: isdigit_def word_le_nat_alt unat_digits)

lemma digitvalue_digits: "n < 10 \<Longrightarrow> digitvalue (digits n) = int n"
  by (simp add: digitvalue_def isdigit_digits uint_nat unat_digits)

lemma unat_byte: "unat (c :: byte) < 256"
  using unsigned_less [of c] by simp

lemma digits_small: "unat (c :: byte) div 100 < 10" "unat c mod 100 div 10 < 10" "unat c mod 10 < 10"
  using unat_byte [of c] by simp_all

lemma digits_values:
  "digitvalue (digits (unat c div 100)) * 100 + digitvalue (digits (unat c mod 100 div 10)) * 10 +
    digitvalue (digits (unat c mod 10)) = uint (c :: byte)"
proof -
  have "n mod 100 mod 10 = n mod 10" for n :: nat by (simp add: mod_mod_cancel)
  then have h: "n div 100 * 100 + n mod 100 div 10 * 10 + n mod 10 = n" for n :: nat
    by (metis div_mult_mod_eq add.assoc)
  have "int (unat c div 100 * 100 + unat c mod 100 div 10 * 10 + unat c mod 10) = int (unat c)"
    by (simp only: h)
  then show ?thesis by (simp add: digitvalue_digits digits_small)
qed

lemma isdigit_not: "isdigit c \<Longrightarrow> c \<noteq> 0 \<and> c \<noteq> 0x5b \<and> c \<noteq> 0x5c \<and> c \<noteq> 0x2e"
  by (auto simp: isdigit_def)

lemma special_not: "special c \<Longrightarrow> c \<noteq> 0 \<and> c \<noteq> 0x5b \<and> \<not> isdigit c"
  by (auto simp: special_def isdigit_def)

lemma plain_not: "\<not> special c \<Longrightarrow> printable c \<Longrightarrow> c \<noteq> 0 \<and> c \<noteq> 0x5c \<and> c \<noteq> 0x2e"
  by (auto simp: special_def printable_def)

lemma pton_char:
  assumes "bp = length front"
  shows "pton_loop (pre @ escape c @ r) (length pre) False label bp (front @ x # back) =
    pton_loop (pre @ escape c @ r) (length pre + length (escape c)) False label (bp + 1) (front @ c # back)"
proof -
  consider (special) "special c" | (octal) "\<not> special c" "\<not> printable c"
    | (plain) "\<not> special c" "printable c" by blast
  then show ?thesis
  proof cases
    case special
    with assms special_not [OF special] show ?thesis
      by (simp add: escape_def pton_loop.simps [of _ "length pre"] pton_loop.simps [of _ "Suc (length pre)"]
          rd_append rd_Cons wr_append)
  next
    case octal
    have u: "\<not> 255 < uint c" using unat_byte [of c] uint_nat [of c] by arith
    have four: "4 + length pre = Suc (Suc (Suc (Suc (length pre))))" by simp
    from octal assms u digits_values [of c] digits_small [of c] isdigit_not [OF isdigit_digits [OF digits_small(1) [of c]]]
    show ?thesis
      by (simp add: escape_def pton_loop.simps [of _ "length pre"] pton_loop.simps [of _ "Suc (length pre)"]
          rd_append rd_Cons wr_append isdigit_digits digitvalue_digits four)
  next
    case plain
    with assms plain_not [OF plain] show ?thesis
      by (simp add: escape_def pton_loop.simps [of _ "length pre"] rd_append rd_Cons wr_append)
  qed
qed

lemma pton_label:
  assumes "length old = length l"
  shows "pton_loop (pre @ text_label l @ r) (length pre) False label (length front) (front @ old @ back) =
    pton_loop (pre @ text_label l @ r) (length pre + length (text_label l)) False label
      (length front + length l) (front @ l @ back)"
  using assms
proof (induction l arbitrary: old pre front)
  case (Cons c l)
  then obtain x old' where "old = x # old'" "length old' = length l" by (cases old) auto
  with pton_char [of "length front" front pre c "text_label l @ r" label x "old' @ back"]
    Cons.IH [of old' "pre @ escape c" "front @ [c]"]
  show ?case by (simp add: add.assoc)
qed simp

lemma label_len_bits: "n \<le> 63 \<Longrightarrow> n AND 0xc0 = (0 :: nat)"
proof -
  have "list_all (\<lambda>n. n AND 0xc0 = (0 :: nat)) [0..<64]" by code_simp
  then show "n \<le> 63 \<Longrightarrow> n AND 0xc0 = (0 :: nat)" by (auto simp: list_all_iff)
qed

lemma hd_escape: "\<exists>d ds. escape c = d # ds \<and> d \<noteq> 0 \<and> d \<noteq> 0x2e"
  using plain_not [of c] by (auto simp: escape_def)

lemma hd_text_label: "wf_label l \<Longrightarrow> \<exists>d ds. text_label l = d # ds \<and> d \<noteq> 0 \<and> d \<noteq> 0x2e"
proof (cases l)
  case (Cons c cs)
  then show ?thesis using hd_escape [of c] by auto
qed (simp add: wf_label_def)

lemma pton_end:
  assumes "wf_label l"
  shows "pton_loop (pre @ 0 # junk) (length pre) False (length front) (Suc (length front + length l))
      (front @ x # l @ y # back) =
    (if NS_MAXCDNAME < length front + length l + 2 then Some None
     else Some (Some (0, front @ word_of_nat (length l) # l @ 0 # back)))"
proof -
  have "wr (front @ w # l @ y # back) (Suc (length front + length l)) 0 = Some (front @ w # l @ 0 # back)" for w
    using wr_append [of _ "front @ w # l"] by simp
  with assms show ?thesis
    by (simp add: pton_loop.simps [of _ "length pre"] label_len_bits wf_label_def pton_done_def wr_append)
qed

lemma pton_dot:
  assumes "wf_label l" "d \<noteq> 0" "d \<noteq> 0x2e"
  shows "pton_loop (pre @ 0x2e # d # r) (length pre) False (length front) (Suc (length front + length l))
      (front @ x # l @ back) =
    pton_loop (pre @ 0x2e # d # r) (Suc (length pre)) False (Suc (length front + length l))
      (Suc (Suc (length front + length l))) (front @ word_of_nat (length l) # l @ back)"
  using assms
  by (simp add: pton_loop.simps [of _ "length pre"] label_len_bits wf_label_def wr_append rd_append rd_Cons Let_def)

lemma pton_rest:
  assumes "list_all wf_label (l # ls)" "length (x # old) = length (enc (l # ls))"
    and "length front + length (enc (l # ls)) \<le> NS_MAXCDNAME"
  shows "pton_loop (pre @ text_label l @ text_rest ls @ 0 # junk) (length pre) False
      (length front) (Suc (length front)) (front @ x # old @ back) =
    Some (Some (0, front @ enc (l # ls) @ back))"
  using assms
proof (induction ls arbitrary: l pre front x old)
  case Nil
  then obtain old' y where old: "old = old' @ [y]" "length old' = length l"
    by (cases old rule: rev_cases) auto
  with Nil pton_label [of old' l pre "0 # junk" "length front" "front @ [x]" "y # back"]
    pton_end [of l "pre @ text_label l" junk front x y "back"]
  show ?case by simp
next
  case (Cons k ls)
  obtain y mid old' where old: "old = mid @ y # old'" "length mid = length l"
    "length (y # old') = length (enc (k # ls))"
    using Cons.prems(2)
    by (intro that [of "take (length l) old" "old ! length l" "drop (Suc (length l)) old"])
      (simp_all add: id_take_nth_drop [symmetric])
  from Cons.prems hd_text_label [of k] obtain d ds where d: "text_label k = d # ds" "d \<noteq> 0" "d \<noteq> 0x2e" by auto
  have "pton_loop (pre @ text_label l @ text_rest (k # ls) @ 0 # junk) (length pre) False
      (length front) (Suc (length front)) (front @ x # old @ back) =
    pton_loop ((pre @ text_label l) @ 0x2e # d # ds @ text_rest ls @ 0 # junk) (length (pre @ text_label l)) False
      (length front) (Suc (length front + length l)) (front @ x # l @ y # old' @ back)"
    using old d pton_label [of mid l pre "text_rest (k # ls) @ 0 # junk" "length front" "front @ [x]" "y # old' @ back"]
    by simp
  also have "\<dots> = pton_loop ((pre @ text_label l @ [0x2e]) @ text_label k @ text_rest ls @ 0 # junk)
      (length (pre @ text_label l @ [0x2e])) False (length (front @ word_of_nat (length l) # l))
      (Suc (length (front @ word_of_nat (length l) # l))) ((front @ word_of_nat (length l) # l) @ y # old' @ back)"
    using Cons.prems(1) d(1) pton_dot [OF _ d(2,3), of l "pre @ text_label l" "ds @ text_rest ls @ 0 # junk" front x "y # old' @ back"]
    by simp
  also have "\<dots> = Some (Some (0, (front @ word_of_nat (length l) # l) @ enc (k # ls) @ back))"
    using Cons.prems(1,3) old(3) by (intro Cons.IH) simp_all
  finally show ?case by simp
qed

lemma pton_text:
  assumes "wf_name ls" "length (enc ls) \<le> length dst"
  shows "ns_name_pton (text_name ls @ 0 # junk) dst =
    Some (Some (if ls = [] then 1 else 0, enc ls @ drop (length (enc ls)) dst))"
proof (cases ls)
  case Nil
  with assms obtain x xs where "dst = x # xs" by (cases dst) auto
  with Nil show ?thesis
    by (simp add: ns_name_pton_def pton_loop.simps [of _ 0] rd_Cons wr_def)
next
  case (Cons l ls')
  with assms obtain x old where "take (length (enc ls)) dst = x # old"
    by (cases "take (length (enc ls)) dst") auto
  moreover from this assms(2) have "length (x # old) = length (enc ls)"
    by (metis length_take min.absorb2)
  moreover have "dst = take (length (enc ls)) dst @ drop (length (enc ls)) dst" by simp
  ultimately have "dst = x # old @ drop (length (enc ls)) dst" "length (x # old) = length (enc ls)"
    by simp_all
  with Cons assms pton_rest [of l ls' x old "[]" "[]" junk "drop (length (enc ls)) dst"]
  show ?thesis by (simp add: ns_name_pton_def wf_name_def)
qed

end
