(* ===== verification/Pack.thy ===== *)
theory Pack
  imports NsName
begin

section \<open>Names written into a message\<close>

text \<open>
  The other half of \<^verbatim>\<open>libsres/ns_name.c\<close>: \<open>ns_name_pack\<close> writes a name into a message and replaces a suffix that is already
  there by a pointer (\<open>dn_find\<close>), with the list of the names written so far. \<^verbatim>\<open>libsres/res_comp.c\<close> rests on it and tests the
  characters of host names. What a pointer stands for is \<open>expands\<close>, as for unpacking.
\<close>

subsection \<open>Packing\<close>

definition mklower :: "byte \<Rightarrow> byte" where
  "mklower ch = (if 0x41 \<le> ch \<and> ch \<le> 0x5a then ch + 0x20 else ch)"

lemma mklower_tolower [simp]: "mklower = tolower"
  by (rule ext) (simp add: mklower_def tolower_def)

text \<open>
  \<open>dn_find\<close>. The message starts at offset zero of \<open>msg\<close>, a pointer into it is an offset, \<open>domain\<close> starts where the C pointer
  does. The inner loops: the characters of a label, and one name of the message from \<open>cp\<close> on against the domain; the answer
  is \<open>None\<close> for a type of label that ends the search. Pointers in the message may make it run forever.
\<close>

fun same_chars :: "byte list \<Rightarrow> byte list \<Rightarrow> nat \<Rightarrow> nat \<Rightarrow> nat \<Rightarrow> bool option" where
  "same_chars domain msg dn cp 0 = Some True"
| "same_chars domain msg dn cp (Suc n) = do {
     a \<leftarrow> rd domain dn;
     b \<leftarrow> rd msg cp;
     if mklower a \<noteq> mklower b then Some False else same_chars domain msg (dn + 1) (cp + 1) n
   }"

partial_function (option) dn_same :: "byte list \<Rightarrow> byte list \<Rightarrow> nat \<Rightarrow> nat \<Rightarrow> bool option option" where
  "dn_same domain msg dn cp = do {
     n \<leftarrow> rd msg cp;
     if n = 0 then Some (Some False)
     else if n AND NS_CMPRSFLGS = 0 then do {
       d \<leftarrow> rd domain dn;
       if n \<noteq> d then Some (Some False)
       else do {
         e \<leftarrow> same_chars domain msg (dn + 1) (cp + 1) (unat n);
         if \<not> e then Some (Some False)
         else do {
           d' \<leftarrow> rd domain (dn + 1 + unat n);
           if d' \<noteq> 0 then dn_same domain msg (dn + 1 + unat n) (cp + 1 + unat n)
           else do { c' \<leftarrow> rd msg (cp + 1 + unat n); Some (Some (c' = 0)) }
         }
       }
     }
     else if n AND NS_CMPRSFLGS = NS_CMPRSFLGS then do {
       b \<leftarrow> rd msg (cp + 1);
       dn_same domain msg dn (256 * unat (n AND 0x3f) + unat b)
     }
     else Some None
   }"

text \<open>The suffixes of one name of the message, then all names.\<close>

function dn_walk :: "byte list \<Rightarrow> byte list \<Rightarrow> nat \<Rightarrow> (nat option) option option" where
  "dn_walk domain msg sp = do {
     b \<leftarrow> rd msg sp;
     if b = 0 \<or> b AND NS_CMPRSFLGS \<noteq> 0 \<or> 0x4000 \<le> sp then Some (Some None)
     else do {
       r \<leftarrow> dn_same domain msg 0 sp;
       case r of None \<Rightarrow> Some None
       | Some e \<Rightarrow> if e then Some (Some (Some sp)) else dn_walk domain msg (sp + unat b + 1)
     }
   }"
  by pat_completeness auto
termination
  by (relation "measure (\<lambda>(domain, msg, sp). length msg - sp)") (auto simp: rd_eq_Some_iff)

declare dn_walk.simps [simp del]

fun dn_find :: "byte list \<Rightarrow> byte list \<Rightarrow> nat list \<Rightarrow> nat option option" where
  "dn_find domain msg [] = Some None"
| "dn_find domain msg (p # ps) = do {
     r \<leftarrow> dn_walk domain msg p;
     case r of None \<Rightarrow> Some None
     | Some (Some q) \<Rightarrow> Some (Some q)
     | Some None \<Rightarrow> dn_find domain msg ps
   }"

text \<open>
  \<open>ns_name_pack\<close>. The first loop tests whether the name is legal. In the second one \<open>buf\<close> is the message, \<open>dstp\<close> the place
  to write to, \<open>dn\<close> the names to look for pointers in (\<open>None\<close> without compression), \<open>cap\<close> the number of pointers the array
  \<open>dnptrs\<close> holds with the first one and the final null pointer. The answer is the new \<open>dstp\<close> or \<open>None\<close> for an error, the message
  and the list of pointers. What follows the second loop is never reached with \<open>dstp > eob\<close>.
\<close>

function pack_legal :: "byte list \<Rightarrow> nat \<Rightarrow> nat \<Rightarrow> bool option" where
  "pack_legal src i l = do {
     n \<leftarrow> rd src i;
     if n AND NS_CMPRSFLGS = NS_CMPRSFLGS then Some False
     else do {
       tmp_l \<leftarrow> labellen src i;
       if tmp_l < 0 then Some False
       else if NS_MAXCDNAME < l + nat tmp_l + 1 then Some False
       else if n = 0 then Some True
       else pack_legal src (i + nat tmp_l + 1) (l + nat tmp_l + 1)
     }
   }"
  by pat_completeness auto
termination
  by (relation "measure (\<lambda>(src, i, l). length src - i)") (auto simp: rd_eq_Some_iff)

declare pack_legal.simps [simp del]

definition save_dnptr :: "nat option \<Rightarrow> nat \<Rightarrow> bool \<times> nat list \<Rightarrow> bool \<times> nat list" where
  "save_dnptr cap dstp st = (case (cap, st) of
     (Some lastdnptr, first, ptrs) \<Rightarrow>
       if length ptrs + 2 < lastdnptr \<and> dstp < 0x4000 \<and> first then (False, ptrs @ [dstp]) else (first, ptrs)
   | (None, st) \<Rightarrow> st)"

definition pack_find :: "byte list \<Rightarrow> nat \<Rightarrow> byte list \<Rightarrow> nat list option \<Rightarrow> nat option option" where
  "pack_find src i buf dn = do {
     n \<leftarrow> rd src i;
     case dn of None \<Rightarrow> Some None
     | Some ps \<Rightarrow> if n = 0 then Some None else do { domain \<leftarrow> ptr src i; dn_find domain buf ps }
   }"

definition pack_pointer :: "byte list \<Rightarrow> nat \<Rightarrow> nat \<Rightarrow> nat \<Rightarrow> (nat option \<times> byte list) option" where
  "pack_pointer buf dstp eob l =
     (if eob \<le> dstp + 1 then Some (None, buf)
      else do {
        buf1 \<leftarrow> wr buf dstp (NS_CMPRSFLGS OR word_of_nat (l div 256));
        buf2 \<leftarrow> wr buf1 (dstp + 1) (word_of_nat (l mod 256));
        Some (Some (dstp + 2), buf2)
      })"

definition pack_label :: "byte list \<Rightarrow> nat \<Rightarrow> byte list \<Rightarrow> nat \<Rightarrow> nat \<Rightarrow> ((nat \<times> byte list) option) option" where
  "pack_label src i buf dstp eob = do {
     n \<leftarrow> rd src i;
     if n AND NS_CMPRSFLGS = NS_CMPRSFLGS then Some None
     else do {
       l \<leftarrow> labellen src i;
       if l < 0 then None
       else if eob \<le> dstp + 1 + nat l then Some None
       else do { bs \<leftarrow> seg src i (nat l + 1); buf' \<leftarrow> blit buf dstp bs; Some (Some (nat l, buf')) }
     }
   }"

function pack_loop :: "byte list \<Rightarrow> nat \<Rightarrow> byte list \<Rightarrow> nat \<Rightarrow> nat \<Rightarrow> nat list option \<Rightarrow> nat option \<Rightarrow> bool \<times> nat list \<Rightarrow>
    (nat option \<times> byte list \<times> nat list) option" where
  "pack_loop src i buf dstp eob dn cap st = do {
     r \<leftarrow> pack_find src i buf dn;
     case r of
       Some l \<Rightarrow> do { (e, buf') \<leftarrow> pack_pointer buf dstp eob l; Some (e, buf', snd st) }
     | None \<Rightarrow> do {
         n \<leftarrow> rd src i;
         let st' = (if n \<noteq> 0 \<and> dn \<noteq> None then save_dnptr cap dstp st else st);
         c \<leftarrow> pack_label src i buf dstp eob;
         case c of None \<Rightarrow> Some (None, buf, snd st')
         | Some (l, buf') \<Rightarrow>
             if l = 0 then Some (Some (dstp + 1), buf', snd st')
             else pack_loop src (i + l + 1) buf' (dstp + l + 1) eob dn cap st'
       }
   }"
  by pat_completeness auto
termination
  by (relation "measure (\<lambda>(src, i, buf, dstp, eob, dn, cap, st). length src - i)") (auto simp: rd_eq_Some_iff)

declare pack_loop.simps [simp del]

definition ns_name_pack :: "byte list \<Rightarrow> byte list \<Rightarrow> nat \<Rightarrow> nat \<Rightarrow> nat list option \<Rightarrow> nat option \<Rightarrow>
    (nat option \<times> byte list \<times> nat list option) option" where
  "ns_name_pack src buf dst dstsiz dnptrs cap = do {
     legal \<leftarrow> pack_legal src 0 0;
     if \<not> legal then Some (None, buf, dnptrs)
     else do {
       (e, buf', ptrs) \<leftarrow> pack_loop src 0 buf dst (dst + dstsiz) dnptrs cap (True, case dnptrs of None \<Rightarrow> [] | Some ps \<Rightarrow> ps);
       Some (case e of None \<Rightarrow> (None, buf', dnptrs)
         | Some dstp \<Rightarrow> (Some (dstp - dst), buf', map_option (\<lambda>_. ptrs) dnptrs))
     }
   }"

text \<open>\<open>ns_name_compress\<close> (\<open>dn_comp\<close>) from text, \<open>ns_name_uncompress\<close> to text and \<open>dn_expand\<close>, and \<open>ns_name_rollback\<close>.\<close>

definition ns_name_compress :: "byte list \<Rightarrow> byte list \<Rightarrow> nat \<Rightarrow> nat \<Rightarrow> nat list option \<Rightarrow> nat option \<Rightarrow>
    (nat option \<times> byte list \<times> nat list option) option" where
  "ns_name_compress src buf dst dstsiz dnptrs cap = do {
     r \<leftarrow> ns_name_pton src (replicate NS_MAXCDNAME 0);
     case r of None \<Rightarrow> Some (None, buf, dnptrs) | Some (_, tmp) \<Rightarrow> ns_name_pack tmp buf dst dstsiz dnptrs cap
   }"

definition ns_name_uncompress :: "byte list \<Rightarrow> nat \<Rightarrow> nat \<Rightarrow> nat \<Rightarrow> (nat \<times> byte list) option option" where
  "ns_name_uncompress msg eom src dstsiz = do {
     r \<leftarrow> ns_name_unpack msg eom src NS_MAXCDNAME;
     case r of None \<Rightarrow> Some None
     | Some (n, tmp) \<Rightarrow> do {
         t \<leftarrow> ns_name_ntop tmp dstsiz;
         Some (map_option (\<lambda>dst. (n, dst)) t)
       }
   }"

definition dn_expand :: "byte list \<Rightarrow> nat \<Rightarrow> nat \<Rightarrow> nat \<Rightarrow> (nat \<times> byte list) option option" where
  "dn_expand msg eom src dstsiz = do {
     r \<leftarrow> ns_name_uncompress msg eom src dstsiz;
     Some (map_option (\<lambda>(n, dst). (n, if 0 < n \<and> take 1 dst = [0x2e] then 0 # drop 1 dst else dst)) r)
   }"

definition ns_name_rollback :: "nat \<Rightarrow> nat list \<Rightarrow> nat list" where
  "ns_name_rollback src dnptrs = takeWhile (\<lambda>p. p < src) dnptrs"

text \<open>The tests of \<open>res_hnok\<close> and its relatives, on a string without its final zero.\<close>

definition alphachar :: "byte \<Rightarrow> bool" where
  "alphachar c \<longleftrightarrow> (0x41 \<le> c \<and> c \<le> 0x5a) \<or> (0x61 \<le> c \<and> c \<le> 0x7a)"

definition borderchar :: "byte \<Rightarrow> bool" where
  "borderchar c \<longleftrightarrow> alphachar c \<or> isdigit c"

definition middlechar :: "byte \<Rightarrow> bool" where
  "middlechar c \<longleftrightarrow> borderchar c \<or> c = 0x2d"

definition domainchar :: "byte \<Rightarrow> bool" where
  "domainchar c \<longleftrightarrow> 0x20 < c \<and> c < 0x7f"

fun hnok_loop :: "byte \<Rightarrow> byte list \<Rightarrow> bool" where
  "hnok_loop pch [] = True"
| "hnok_loop pch (ch # dn) = (let nch = (case dn of [] \<Rightarrow> 0 | c # _ \<Rightarrow> c) in
     if ch = 0x2e then hnok_loop ch dn
     else if pch = 0x2e then borderchar ch \<and> hnok_loop ch dn
     else if nch = 0x2e \<or> nch = 0 then borderchar ch \<and> hnok_loop ch dn
     else middlechar ch \<and> hnok_loop ch dn)"

definition res_hnok :: "byte list \<Rightarrow> bool" where
  "res_hnok dn = hnok_loop 0x2e dn"

definition res_ownok :: "byte list \<Rightarrow> bool" where
  "res_ownok dn =
     (if take 2 dn = [0x2a, 0x2e] then res_hnok (drop 2 dn) else if dn = [0x2a] then True else res_hnok dn)"

fun mailok_loop :: "bool \<Rightarrow> byte list \<Rightarrow> bool" where
  "mailok_loop escaped [] = False"
| "mailok_loop escaped (ch # dn) =
     (if \<not> domainchar ch then False
      else if \<not> escaped \<and> ch = 0x2e then res_hnok dn
      else mailok_loop (if escaped then False else ch = 0x5c) dn)"

definition res_mailok :: "byte list \<Rightarrow> bool" where
  "res_mailok dn = (dn = [] \<or> mailok_loop False dn)"

definition res_dnok :: "byte list \<Rightarrow> bool" where
  "res_dnok dn = list_all domainchar dn"

subsection \<open>A packed name expands to the name\<close>

lemma rd_more: "rd m p = Some n \<Longrightarrow> rd (m @ t) p = Some n"
  by (auto simp: rd_eq_Some_iff nth_append)

lemma seg_more: "seg m p n = Some bs \<Longrightarrow> seg (m @ t) p n = Some bs"
  by (auto simp: seg_def split: if_splits)

lemma labellen_more: "labellen m p = Some l \<Longrightarrow> labellen (m @ t) p = Some l"
  by (auto simp: labellen_def Let_def rd_more [of m _ _ t] split: Option.bind_splits if_splits)

lemma expands_more: "expands m p cs \<Longrightarrow> expands (m @ t) p cs"
proof (induction rule: expands.induct)
  case (expands_root p)
  show ?case by (rule expands.expands_root [OF rd_more [OF expands_root]])
next
  case (expands_label p n l bs cs)
  show ?case
    by (rule expands.expands_label [OF rd_more [OF expands_label(1)] expands_label(2,3) labellen_more [OF expands_label(4)]
        seg_more [OF expands_label(5)] expands_label.IH])
next
  case (expands_ptr p n b cs)
  show ?case
    by (rule expands.expands_ptr [OF rd_more [OF expands_ptr(1)] expands_ptr(2) rd_more [OF expands_ptr(3)] expands_ptr.IH])
qed

lemma expands_prefix:
  assumes "expands (take k m) p cs" "take k m = take k m'"
  shows "expands m' p cs"
proof -
  have "take k m @ drop k m' = m'" using assms(2) by simp
  with expands_more [OF assms(1), of "drop k m'"] show ?thesis by metis
qed

lemma expands_longer:
  assumes "expands (take k m) p cs" "k \<le> k'"
  shows "expands (take k' m) p cs"
proof (rule expands_prefix [OF assms(1)])
  show "take k m = take k (take k' m)" using assms(2) by (simp add: min_absorb1)
qed

lemma expands_plain:
  assumes "expands m p cs" "rd m p = Some n" "n \<noteq> 0" "n AND NS_CMPRSFLGS = 0"
  shows "\<exists>bs cs'. cs = (n # bs) # cs' \<and> seg m (p + 1) (unat n) = Some bs \<and> expands m (p + 1 + unat n) cs'"
  using assms(1)
proof (cases rule: expands.cases)
  case (expands_label n' l bs cs')
  have "n' = n" using expands_label(2) assms(2) by simp
  moreover have "l = unat n" using expands_label(5) labellen_plain [OF assms(2,4)] by (metis nat_int option.inject unat_eq_nat_uint)
  ultimately show ?thesis using expands_label by blast
qed (use assms in auto)

text \<open>The labels of a name up to case.\<close>

definition folded :: "byte list list \<Rightarrow> byte list" where
  "folded cs = map tolower (concat cs @ [0])"

lemma folded_Cons: "folded (c # cs) = map tolower c @ folded cs"
  by (simp add: folded_def)

lemma folded_Nil: "folded [] = [0]"
  by (simp add: folded_def tolower_def)

lemma tolower_len: "n \<le> 63 \<Longrightarrow> tolower (word_of_nat n) = word_of_nat n"
proof -
  assume "n \<le> 63"
  then have "unat (word_of_nat n :: byte) \<le> 63" by (simp add: unat_of_nat)
  then show ?thesis by (simp add: tolower_def word_le_nat_alt)
qed

lemma same_chars_eq:
  "same_chars domain msg dn cp n = Some True \<Longrightarrow> dn \<le> length domain \<Longrightarrow> cp \<le> length msg \<Longrightarrow>
    \<exists>xs ys. seg domain dn n = Some xs \<and> seg msg cp n = Some ys \<and> map tolower xs = map tolower ys"
proof (induction n arbitrary: dn cp)
  case 0
  then show ?case by (simp add: seg_def)
next
  case (Suc n)
  from Suc.prems(1) obtain a b where ab: "rd domain dn = Some a" "rd msg cp = Some b" "tolower a = tolower b"
    "same_chars domain msg (dn + 1) (cp + 1) n = Some True" by (auto split: Option.bind_splits if_splits)
  then have lt: "dn < length domain" "cp < length msg" by (auto simp: rd_eq_Some_iff)
  with Suc.IH [OF ab(4)] obtain xs ys where xs: "seg domain (dn + 1) n = Some xs" "seg msg (cp + 1) n = Some ys"
    "map tolower xs = map tolower ys" by auto
  have "seg domain dn (Suc n) = Some (a # xs)" "seg msg cp (Suc n) = Some (b # ys)"
    using ab(1,2) xs(1,2) by (auto simp: seg_def rd_eq_Some_iff Cons_nth_drop_Suc [symmetric] split: if_splits)
  with xs(3) ab(3) show ?case by simp
qed

lemma dn_same_sound:
  assumes "dn_same (pre @ enc xs @ t) msg (length pre) cp = Some (Some True)" "wf_name xs" "xs \<noteq> []"
  shows "\<exists>cs. expands msg cp cs \<and> folded cs = map tolower (enc xs)"
proof -
  have "\<forall>pre xs. domain = pre @ enc xs @ t \<and> m = msg \<and> dn = length pre \<and> list_all wf_label xs \<and> xs \<noteq> [] \<and> r = Some True \<longrightarrow>
      (\<exists>cs. expands msg cp cs \<and> folded cs = map tolower (enc xs))"
    if "dn_same domain m dn cp = Some r" for domain m dn cp r
  proof (rule dn_same.raw_induct [OF _ that], intro allI impI, elim conjE)
    fix f domain m dn cp and r :: "bool option" and pre xs
    assume IH: "\<And>domain m dn cp r. f domain m dn cp = Some r \<Longrightarrow>
        \<forall>pre xs. domain = pre @ enc xs @ t \<and> m = msg \<and> dn = length pre \<and> list_all wf_label xs \<and> xs \<noteq> [] \<and> r = Some True \<longrightarrow>
          (\<exists>cs. expands msg cp cs \<and> folded cs = map tolower (enc xs))"
      and body: "do {
         n \<leftarrow> rd m cp;
         if n = 0 then Some (Some False)
         else if n AND NS_CMPRSFLGS = 0 then do {
           d \<leftarrow> rd domain dn;
           if n \<noteq> d then Some (Some False)
           else do {
             e \<leftarrow> same_chars domain m (dn + 1) (cp + 1) (unat n);
             if \<not> e then Some (Some False)
             else do {
               d' \<leftarrow> rd domain (dn + 1 + unat n);
               if d' \<noteq> 0 then f domain m (dn + 1 + unat n) (cp + 1 + unat n)
               else do { c' \<leftarrow> rd m (cp + 1 + unat n); Some (Some (c' = 0)) }
             }
           }
         }
         else if n AND NS_CMPRSFLGS = NS_CMPRSFLGS then do {
           b \<leftarrow> rd m (cp + 1);
           f domain m dn (256 * unat (n AND 0x3f) + unat b)
         }
         else Some None
       } = Some r"
      and eqs: "domain = pre @ enc xs @ t" "m = msg" "dn = length pre" "r = Some True" and wf: "list_all wf_label xs" "xs \<noteq> []"
    obtain n where n: "rd msg cp = Some n" "n \<noteq> 0" using body eqs by (auto split: Option.bind_splits if_splits)
    show "\<exists>cs. expands msg cp cs \<and> folded cs = map tolower (enc xs)"
    proof (cases "n AND NS_CMPRSFLGS = 0")
      case False
      with body eqs n obtain b where b: "n AND NS_CMPRSFLGS = NS_CMPRSFLGS" "rd msg (cp + 1) = Some b"
        "f domain m dn (256 * unat (n AND 0x3f) + unat b) = Some r"
        by (auto split: Option.bind_splits if_splits)
      from IH [OF b(3)] eqs wf obtain cs where "expands msg (256 * unat (n AND 0x3f) + unat b) cs" "folded cs = map tolower (enc xs)"
        by blast
      with expands_ptr [OF n(1) b(1,2)] show ?thesis by blast
    next
      case plain: True
      obtain l ls where xs: "xs = l # ls" using wf(2) by (cases xs) auto
      have l: "wf_label l" "list_all wf_label ls" using wf(1) xs by auto
      have "rd domain dn = Some (word_of_nat (length l))" using eqs xs by (simp add: rd_append)
      with body eqs n plain obtain d' where nl: "n = word_of_nat (length l)"
        and ch: "same_chars domain msg (length pre + 1) (cp + 1) (unat n) = Some True"
        and d': "rd domain (length pre + 1 + unat n) = Some d'"
        and rest: "(if d' \<noteq> 0 then f domain m (dn + 1 + unat n) (cp + 1 + unat n)
          else do { c' \<leftarrow> rd m (cp + 1 + unat n); Some (Some (c' = 0)) }) = Some r"
        by (auto split: Option.bind_splits if_splits)
      have un: "unat n = length l" using nl l(1) by (simp add: unat_len_label)
      have le: "length pre + 1 \<le> length domain" "cp + 1 \<le> length msg"
        using eqs(1) xs n(1) by (auto simp: rd_eq_Some_iff)
      have sl: "seg domain (length pre + 1) (length l) = Some l"
        using seg_append [of "pre @ [word_of_nat (length l)]" l "enc ls @ t"] eqs(1) xs by simp
      from same_chars_eq [OF ch le] sl un obtain ys where ys: "seg msg (cp + 1) (unat n) = Some ys" "map tolower ys = map tolower l"
        by auto
      have lab: "labellen msg cp = Some (int (unat n))" using labellen_plain [OF n(1) plain] by (simp only: uint_nat)
      have tl: "tolower n = n" using tolower_len [of "length l"] l(1) nl by (simp add: wf_label_def)
      have dom: "domain = (pre @ word_of_nat (length l) # l) @ enc ls @ t" using eqs(1) xs by simp
      have step: "expands msg cp ((n # ys) # cs) \<and> folded ((n # ys) # cs) = map tolower (enc xs)"
        if "expands msg (cp + 1 + unat n) cs" "folded cs = map tolower (enc ls)" for cs
        using expands_label [OF n _ lab ys(1) that(1)] plain that(2) ys(2) tl nl xs by (simp add: folded_Cons)
      show ?thesis
      proof (cases ls)
        case Nil
        with d' dom un have "d' = 0" by (simp add: rd_append)
        with rest eqs have "rd msg (cp + 1 + unat n) = Some 0" by (auto split: Option.bind_splits)
        with step [OF expands_root] Nil show ?thesis by (auto simp: folded_Nil tolower_def)
      next
        case (Cons l' ls')
        with d' dom un l(2) have "d' \<noteq> 0" by (auto simp: rd_append len_label_ne_0)
        with rest have step_eq: "f domain m (dn + 1 + unat n) (cp + 1 + unat n) = Some r" by simp
        have "domain = (pre @ word_of_nat (length l) # l) @ enc ls @ t \<and> m = msg \<and>
            dn + 1 + unat n = length (pre @ word_of_nat (length l) # l) \<and> list_all wf_label ls \<and> ls \<noteq> [] \<and> r = Some True"
          using dom eqs un l(2) Cons by simp
        with IH [OF step_eq] obtain cs where "expands msg (cp + 1 + unat n) cs" "folded cs = map tolower (enc ls)"
          by blast
        from step [OF this] show ?thesis by blast
      qed
    qed
  qed
  from this [OF assms(1)] assms(2,3) show ?thesis by (simp add: wf_name_labels)
qed

lemma rd_take: "rd (take k m) p = Some b \<Longrightarrow> rd m p = Some b"
  using rd_more [of "take k m" p b "drop k m"] by simp

lemma expands_rd: "expands m p cs \<Longrightarrow> \<exists>b. rd m p = Some b"
  by (cases rule: expands.cases) auto

lemma dn_walk_sound:
  assumes "dn_walk (enc xs @ t) msg sp = Some (Some (Some q))" "wf_name xs" "xs \<noteq> []" "expands (take k msg) sp cs"
  shows "q < 0x4000 \<and> (\<exists>cs'. expands (take k msg) q cs' \<and> folded cs' = map tolower (enc xs))"
  using assms
proof (induction "enc xs @ t" msg sp arbitrary: cs rule: dn_walk.induct)
  case (1 msg sp)
  obtain b where b0: "rd (take k msg) sp = Some b" using expands_rd [OF 1(5)] by blast
  note b = rd_take [OF b0]
  from 1(2) b have ok: "b \<noteq> 0" "b AND NS_CMPRSFLGS = 0" "sp < 0x4000"
    by (subst (asm) dn_walk.simps, auto split: if_splits)+
  then have no: "\<not> (b = 0 \<or> b AND NS_CMPRSFLGS \<noteq> 0 \<or> 0x4000 \<le> sp)" by auto
  with 1(2) b obtain r where r: "dn_same (enc xs @ t) msg 0 sp = Some r" "r \<noteq> None"
    by (subst (asm) dn_walk.simps) (auto split: Option.bind_splits option.splits)
  then obtain e where e: "r = Some e" by blast
  show ?case
  proof (cases e)
    case True
    with 1(2) b no r e have q: "q = sp" by (subst (asm) dn_walk.simps) simp
    have "dn_same ([] @ enc xs @ t) msg (length ([] :: byte list)) sp = Some (Some True)" using r e True by simp
    from dn_same_sound [OF this 1(3,4)] obtain cs2 where cs2: "expands msg sp cs2" "folded cs2 = map tolower (enc xs)" by blast
    have "expands msg sp cs" using expands_prefix [OF 1(5)] by simp
    with cs2(1) have "cs2 = cs" by (metis expands_det)
    with cs2(2) 1(5) q ok(3) show ?thesis by blast
  next
    case False
    with 1(2) b no r e have w: "dn_walk (enc xs @ t) msg (sp + unat b + 1) = Some (Some (Some q))"
      by (subst (asm) dn_walk.simps) simp
    obtain cs' where "expands (take k msg) (sp + 1 + unat b) cs'" using expands_plain [OF 1(5) b0 ok(1,2)] by blast
    then have x: "expands (take k msg) (sp + unat b + 1) cs'" by (simp add: add.commute add.left_commute)
    show ?thesis by (rule 1(1) [OF b no r(1) e False w 1(3,4) x])
  qed
qed

definition names_at :: "byte list \<Rightarrow> nat \<Rightarrow> nat list \<Rightarrow> bool" where
  "names_at msg k ps \<longleftrightarrow> (\<forall>p \<in> set ps. \<exists>cs. expands (take k msg) p cs)"

lemma dn_find_sound:
  assumes "dn_find (enc xs @ t) msg ps = Some (Some q)" "wf_name xs" "xs \<noteq> []" "names_at msg k ps"
  shows "q < 0x4000 \<and> (\<exists>cs. expands (take k msg) q cs \<and> folded cs = map tolower (enc xs))"
  using assms
proof (induction ps)
  case (Cons p ps)
  from Cons.prems(4) obtain cs where "expands (take k msg) p cs" by (auto simp: names_at_def)
  with Cons show ?case
    by (auto simp: names_at_def split: Option.bind_splits option.splits dest: dn_walk_sound)
qed simp

text \<open>The list of names stays one of names that end in front of the place to write to, and what is in front of that place stays.\<close>

lemma names_at_keep: "names_at msg k ps \<Longrightarrow> take k msg = take k msg' \<Longrightarrow> names_at msg' k ps"
  by (simp add: names_at_def)

lemma names_at_longer: "names_at msg k ps \<Longrightarrow> k \<le> k' \<Longrightarrow> names_at msg k' ps"
  unfolding names_at_def using expands_longer by blast

lemma save_dnptr_cases: "snd (save_dnptr cap d st) = snd st \<or> snd (save_dnptr cap d st) = snd st @ [d]"
  by (cases st) (auto simp: save_dnptr_def split: option.splits)

lemma pack_pointer_sound:
  assumes "pack_pointer buf d eob l = Some (Some e, buf')" "l < 0x4000"
  shows "e = d + 2" "e < eob + 1" "take d buf' = take d buf" "length buf' = length buf"
    "expands (take d buf) l cs \<Longrightarrow> expands (take e buf') d cs"
proof -
  from assms(1) have w: "d + 1 < length buf" "\<not> eob \<le> d + 1" "e = d + 2"
    "buf' = buf[d := NS_CMPRSFLGS OR word_of_nat (l div 256), d + 1 := word_of_nat (l mod 256)]"
    by (auto simp: pack_pointer_def wr_def split: if_splits Option.bind_splits)
  then show "e = d + 2" "e < eob + 1" "take d buf' = take d buf" "length buf' = length buf"
    by auto
  assume x: "expands (take d buf) l cs"
  have "take d (take e buf') = take d buf" using w by (simp add: min_absorb1)
  then have 1: "expands (take e buf') l cs" using expands_prefix [OF x, of "take e buf'"] by simp
  have r0: "rd (take e buf') d = Some (NS_CMPRSFLGS OR word_of_nat (l div 256))"
    and r1: "rd (take e buf') (d + 1) = Some (word_of_nat (l mod 256))"
    using w by (simp_all add: rd_eq_Some_iff nth_list_update)
  have m: "(word_of_nat (l mod 256) :: byte) = word_of_nat l"
    by (simp add: word_unat_eq_iff unat_of_nat)
  note p = ptr_byte_flags [OF assms(2)]
  show "expands (take e buf') d cs"
    using expands_ptr [OF r0 p(1) r1] p(2) m 1 by simp
qed

lemma blit_at:
  assumes "blit buf d bs = Some buf'"
  shows "length buf' = length buf" "take d buf' = take d buf" "d + length bs \<le> length buf"
    "take (d + length bs) buf' = take d buf @ bs"
  using assms by (auto simp: blit_def split: if_splits)

lemma expands_written:
  assumes "take (d + 1 + length l) buf' = take d buf @ word_of_nat (length l) # l" "wf_label l" "d \<le> length buf"
    and "expands (take e buf') (d + 1 + length l) cs" "d + 1 + length l \<le> e"
  shows "expands (take e buf') d ((word_of_nat (length l) # l) # cs)"
proof -
  let ?m = "take e buf'"
  have m: "?m = take d buf @ word_of_nat (length l) # l @ drop (d + 1 + length l) ?m"
    using assms(1,5) by (metis append_take_drop_id append.assoc append_Cons min.absorb1 take_take)
  have len: "length (take d buf) = d" using assms(3) by simp
  have "rd ?m d = Some (word_of_nat (length l))" by (subst m, subst len [symmetric]) (rule rd_label)
  moreover have "labellen ?m d = Some (int (length l))"
    by (subst m, subst len [symmetric]) (rule labellen_label [OF assms(2)])
  moreover have "seg ?m (d + 1) (length l) = Some l"
    using seg_append [of "take d buf @ [word_of_nat (length l)]" l "drop (d + 1 + length l) ?m"] m len by simp
  moreover have "(word_of_nat (length l) :: byte) \<noteq> 0" using assms(2) by (rule len_label_ne_0)
  moreover have "(word_of_nat (length l) :: byte) AND NS_CMPRSFLGS \<in> {0, NS_TYPE_ELT}" using and_c0_label [OF assms(2)] by simp
  ultimately show ?thesis using assms(4) by (intro expands_label) auto
qed

lemma pack_label_wf:
  assumes "pack_label (pre @ word_of_nat (length l) # l @ rest) (length pre) buf d eob = Some (Some (n, buf'))" "wf_label l"
  shows "n = length l" "d + 1 + length l < eob" "blit buf d (word_of_nat (length l) # l) = Some buf'"
proof -
  have "seg (pre @ word_of_nat (length l) # l @ rest) (length pre) (length l + 1) = Some (word_of_nat (length l) # l)"
    using seg_append [of pre "word_of_nat (length l) # l" rest] by simp
  then show "n = length l" "d + 1 + length l < eob" "blit buf d (word_of_nat (length l) # l) = Some buf'"
    using assms by (auto simp: pack_label_def labellen_label rd_append and_c0_label split: if_splits Option.bind_splits)
qed

lemma pack_loop_copy:
  assumes "pack_loop src i buf d eob dn cap st = Some (Some e, buf', ptrs')" "pack_find src i buf dn = Some None" "rd src i = Some n"
  obtains n1 buf1 where "pack_label src i buf d eob = Some (Some (n1, buf1))"
    "(if n1 = 0 then Some (Some (d + 1), buf1, snd (if n \<noteq> 0 \<and> dn \<noteq> None then save_dnptr cap d st else st))
      else pack_loop src (i + n1 + 1) buf1 (d + n1 + 1) eob dn cap (if n \<noteq> 0 \<and> dn \<noteq> None then save_dnptr cap d st else st)) =
      Some (Some e, buf', ptrs')"
proof -
  note run = assms(1) [unfolded pack_loop.simps [of src i]]
  from run assms(2,3) that show thesis by (auto simp: Let_def simp del: not_None_eq split: Option.bind_splits option.splits)
qed

lemma pack_loop_sound:
  assumes "pack_loop (pre @ enc xs @ t) (length pre) buf d eob dn cap st = Some (Some e, buf', ptrs')" "wf_name xs"
    and "\<And>ps. dn = Some ps \<Longrightarrow> names_at buf k ps" "k \<le> d"
  shows "d < e \<and> e \<le> eob \<and> take d buf' = take d buf \<and> length buf' = length buf \<and>
    (\<exists>cs. expands (take e buf') d cs \<and> folded cs = map tolower (enc xs)) \<and>
    (\<forall>p \<in> set ptrs'. p \<in> set (snd st) \<or> (\<exists>cs. expands (take e buf') p cs))"
  using assms
proof (induction xs arbitrary: pre buf d st)
  case Nil
  have r: "rd (pre @ enc [] @ t) (length pre) = Some 0" by (simp add: rd_append)
  then have "pack_find (pre @ enc [] @ t) (length pre) buf dn = Some None" by (auto simp: pack_find_def split: option.splits)
  from pack_loop_copy [OF Nil(1) this r] obtain n1 buf1 where c1: "pack_label (pre @ enc [] @ t) (length pre) buf d eob = Some (Some (n1, buf1))"
    and c2: "(if n1 = 0 then Some (Some (d + 1), buf1, snd (if (0 :: byte) \<noteq> 0 \<and> dn \<noteq> None then save_dnptr cap d st else st))
      else pack_loop (pre @ enc [] @ t) (length pre + n1 + 1) buf1 (d + n1 + 1) eob dn cap
        (if (0 :: byte) \<noteq> 0 \<and> dn \<noteq> None then save_dnptr cap d st else st)) = Some (Some e, buf', ptrs')"
    by blast
  have "labellen (pre @ enc [] @ t) (length pre) = Some 0" using labellen_plain [OF r] by simp
  moreover have "seg (pre @ enc [] @ t) (length pre) 1 = Some [0]" using seg_append [of pre "[0]" t] by simp
  ultimately have "n1 = 0" "d + 1 < eob" and b: "blit buf d [0] = Some buf1"
    using c1 r by (auto simp: pack_label_def split: if_splits Option.bind_splits)
  with c2 have e: "e = d + 1" "buf' = buf1" "ptrs' = snd st" by simp_all
  note w = blit_at [OF b]
  have "rd (take e buf') d = Some 0" using w(3,4) e by (simp add: rd_append)
  from expands_root [OF this] e w \<open>d + 1 < eob\<close> show ?case by (auto simp: folded_Nil tolower_def intro!: exI [of _ "[]"])
next
  case (Cons l ls)
  let ?src = "pre @ enc (l # ls) @ t"
  let ?n = "word_of_nat (length l) :: byte"
  have wf: "wf_label l" "wf_name ls" using Cons.prems(2) by (auto simp: wf_name_Cons)
  have src: "?src = pre @ ?n # l @ enc ls @ t" by simp
  have r: "rd ?src (length pre) = Some ?n" by (simp add: rd_append)
  have n0: "?n \<noteq> 0" using wf(1) by (rule len_label_ne_0)
  from Cons.prems(1) obtain q where q: "pack_find ?src (length pre) buf dn = Some q"
    by (subst (asm) pack_loop.simps) (auto split: Option.bind_splits)
  show ?case
  proof (cases q)
    case (Some p)
    with Cons.prems(1) q have pp: "pack_pointer buf d eob p = Some (Some e, buf')" "ptrs' = snd st"
      by (subst (asm) pack_loop.simps, auto split: Option.bind_splits)+
    from q Some r n0 obtain ps where ps: "dn = Some ps" "dn_find (enc (l # ls) @ t) buf ps = Some (Some p)"
      by (auto simp: pack_find_def ptr_append split: option.splits Option.bind_splits if_splits)
    have at: "names_at buf d ps" using names_at_longer [OF Cons.prems(3) [OF ps(1)] Cons.prems(4)] .
    from dn_find_sound [OF ps(2) Cons.prems(2) _ at] obtain cs where cs: "p < 0x4000" "expands (take d buf) p cs"
      "folded cs = map tolower (enc (l # ls))" by auto
    note pt = pack_pointer_sound [OF pp(1) cs(1)]
    from pt(5) [OF cs(2)] pt(1-4) cs(3) pp(2) show ?thesis by auto
  next
    case None
    let ?st = "if dn \<noteq> None then save_dnptr cap d st else st"
    obtain n1 buf1 where c: "pack_label ?src (length pre) buf d eob = Some (Some (n1, buf1))"
      and rest: "(if n1 = 0 then Some (Some (d + 1), buf1, snd ?st)
        else pack_loop ?src (length pre + n1 + 1) buf1 (d + n1 + 1) eob dn cap ?st) = Some (Some e, buf', ptrs')"
    proof (rule pack_loop_copy [OF Cons.prems(1) q [unfolded None] r], rule that)
      fix n1 buf1
      have st: "(if ?n \<noteq> 0 \<and> dn \<noteq> None then save_dnptr cap d st else st) = ?st" using n0 by simp
      assume "(if n1 = 0 then Some (Some (d + 1), buf1, snd (if ?n \<noteq> 0 \<and> dn \<noteq> None then save_dnptr cap d st else st))
        else pack_loop ?src (length pre + n1 + 1) buf1 (d + n1 + 1) eob dn cap
          (if ?n \<noteq> 0 \<and> dn \<noteq> None then save_dnptr cap d st else st)) = Some (Some e, buf', ptrs')"
      then show "(if n1 = 0 then Some (Some (d + 1), buf1, snd ?st)
        else pack_loop ?src (length pre + n1 + 1) buf1 (d + n1 + 1) eob dn cap ?st) = Some (Some e, buf', ptrs')"
        by (simp only: st)
    qed
    note pl = pack_label_wf [OF c [unfolded src] wf(1)]
    note w = blit_at [OF pl(3)]
    have pos: "n1 \<noteq> 0" using pl(1) wf(1) by (auto simp: wf_label_def)
    have len: "length (pre @ ?n # l) = length pre + n1 + 1" "d + n1 + 1 = d + 1 + length l" using pl(1) by simp_all
    have run: "pack_loop ((pre @ ?n # l) @ enc ls @ t) (length (pre @ ?n # l)) buf1 (d + 1 + length l) eob dn cap ?st = Some (Some e, buf', ptrs')"
      using rest pos len by simp
    have keep: "names_at buf1 k ps" if "dn = Some ps" for ps
    proof (rule names_at_keep [OF Cons.prems(3) [OF that]])
      have "take k (take d buf) = take k (take d buf1)" using w(2) by simp
      then show "take k buf = take k buf1" using Cons.prems(4) by (simp add: min_absorb1)
    qed
    have kd: "k \<le> d + 1 + length l" using Cons.prems(4) by simp
    from Cons.IH [OF run wf(2) keep kd] obtain cs where ih: "d + 1 + length l < e" "e \<le> eob"
      "take (d + 1 + length l) buf' = take (d + 1 + length l) buf1" "length buf' = length buf1"
      "expands (take e buf') (d + 1 + length l) cs" "folded cs = map tolower (enc ls)"
      "\<forall>p \<in> set ptrs'. p \<in> set (snd ?st) \<or> (\<exists>cs. expands (take e buf') p cs)" by blast
    have "take (d + 1 + length l) buf' = take d buf @ ?n # l" using ih(3) w(4) by simp
    from expands_written [OF this wf(1) _ ih(5)] w(3) ih(1) have x: "expands (take e buf') d ((?n # l) # cs)" by simp
    have t: "take d buf' = take d buf"
    proof -
      have "take d (take (d + 1 + length l) buf') = take d (take (d + 1 + length l) buf1)" using ih(3) by simp
      with w(2) show ?thesis by (simp add: min_absorb1)
    qed
    have "tolower ?n = ?n" using tolower_len wf(1) by (simp add: wf_label_def)
    then have f: "folded ((?n # l) # cs) = map tolower (enc (l # ls))" using ih(6) by (simp add: folded_Cons)
    have "p \<in> set (snd st) \<or> p = d" if "p \<in> set (snd ?st)" for p
      using that save_dnptr_cases [of cap d st] by (auto split: if_splits)
    with ih(7) x have "\<forall>p \<in> set ptrs'. p \<in> set (snd st) \<or> (\<exists>cs. expands (take e buf') p cs)" by blast
    with ih(1,2,4) t x f w(1) show ?thesis by auto
  qed
qed

lemma ns_name_pack_sound:
  assumes "ns_name_pack (enc xs @ t) buf dst dstsiz (Some ps) cap = Some (Some n, buf', Some ps')" "wf_name xs"
    and "names_at buf k ps" "k \<le> dst"
  shows "n \<le> dstsiz \<and> take dst buf' = take dst buf \<and> names_at buf' (dst + n) ps' \<and>
    (\<exists>cs. expands (take (dst + n) buf') dst cs \<and> folded cs = map tolower (enc xs))"
proof -
  from assms(1) obtain e where run: "pack_loop ([] @ enc xs @ t) (length ([] :: byte list)) buf dst (dst + dstsiz) (Some ps) cap (True, ps) =
      Some (Some e, buf', ps')" and n: "n = e - dst"
    by (auto simp: ns_name_pack_def split: Option.bind_splits if_splits option.splits)
  have at: "\<And>qs. Some ps = Some qs \<Longrightarrow> names_at buf k qs" using assms(3) by simp
  from pack_loop_sound [OF run assms(2) at assms(4)] obtain cs where s: "dst < e" "e \<le> dst + dstsiz" "take dst buf' = take dst buf"
    "expands (take e buf') dst cs" "folded cs = map tolower (enc xs)"
    "\<forall>p \<in> set ps'. p \<in> set ps \<or> (\<exists>cs. expands (take e buf') p cs)" by auto
  have e: "dst + n = e" using n s(1) by simp
  have "take k buf = take k buf'" using s(3) assms(4) by (metis min.absorb1 take_take)
  from names_at_longer [OF names_at_keep [OF assms(3) this], of e] s(1) assms(4) have "names_at buf' e ps" by simp
  with s(6) have "names_at buf' e ps'" unfolding names_at_def by blast
  with s e n show ?thesis by auto
qed

text \<open>Without names to point to, the name is copied.\<close>

lemma pack_legal_wf:
  "list_all wf_label xs \<Longrightarrow> l + length (enc xs) \<le> NS_MAXCDNAME \<Longrightarrow> pack_legal (pre @ enc xs @ t) (length pre) l = Some True"
proof (induction xs arbitrary: pre l)
  case Nil
  have "labellen (pre @ 0 # t) (length pre) = Some 0" using labellen_plain [of "pre @ 0 # t" "length pre" 0] by (simp add: rd_append)
  with Nil show ?case by (simp add: pack_legal.simps [of _ "length pre"] rd_append)
next
  case (Cons l' ls)
  let ?n = "word_of_nat (length l') :: byte"
  have wf: "wf_label l'" using Cons.prems by simp
  have "pack_legal ((pre @ ?n # l') @ enc ls @ t) (length (pre @ ?n # l')) (l + length l' + 1) = Some True"
    using Cons.prems by (intro Cons.IH) auto
  then have "pack_legal (pre @ ?n # l' @ enc ls @ t) (length pre + length l' + 1) (l + length l' + 1) = Some True" by simp
  with Cons.prems wf show ?case
    by (subst pack_legal.simps) (simp add: rd_append labellen_label and_c0_label len_label_ne_0)
qed

lemma pack_label_copies:
  assumes "d + 1 + length l < eob" "eob \<le> length buf" "wf_label l"
  shows "pack_label (pre @ word_of_nat (length l) # l @ rest) (length pre) buf d eob =
    Some (Some (length l, take d buf @ (word_of_nat (length l) # l) @ drop (d + 1 + length l) buf))"
proof -
  have "seg (pre @ word_of_nat (length l) # l @ rest) (length pre) (length l + 1) = Some (word_of_nat (length l) # l)"
    using seg_append [of pre "word_of_nat (length l) # l" rest] by simp
  moreover have "d + length (word_of_nat (length l) # l) = d + 1 + length l" by simp
  ultimately show ?thesis using assms
    by (simp add: pack_label_def labellen_label rd_append and_c0_label blit_def)
qed

lemma pack_loop_copies:
  assumes "list_all wf_label xs" "d + length (enc xs) < eob" "eob \<le> length buf" "dn = None \<or> dn = Some []"
  shows "\<exists>ptrs. pack_loop (pre @ enc xs @ t) (length pre) buf d eob dn cap st =
    Some (Some (d + length (enc xs)), take d buf @ enc xs @ drop (d + length (enc xs)) buf, ptrs)"
  using assms
proof (induction xs arbitrary: pre buf d st)
  case Nil
  have "labellen (pre @ 0 # t) (length pre) = Some 0" using labellen_plain [of "pre @ 0 # t" "length pre" 0] by (simp add: rd_append)
  moreover have "seg (pre @ 0 # t) (length pre) 1 = Some [0]" using seg_append [of pre "[0]" t] by simp
  moreover have "pack_find (pre @ 0 # t) (length pre) buf dn = Some None" using Nil(4) by (auto simp: pack_find_def rd_append)
  ultimately show ?case using Nil
    by (subst pack_loop.simps) (simp add: pack_label_def rd_append blit_def)
next
  case (Cons l ls)
  let ?n = "word_of_nat (length l) :: byte"
  let ?buf = "take d buf @ (?n # l) @ drop (d + 1 + length l) buf"
  have wf: "wf_label l" "list_all wf_label ls" using Cons.prems by simp_all
  have fits: "d + 1 + length l < eob" using Cons.prems(2) by simp
  have len: "length ?buf = length buf" using fits Cons.prems(3) by simp
  have "d + 1 + length l + length (enc ls) < eob" using Cons.prems(2) by simp
  let ?st = "if dn \<noteq> None then save_dnptr cap d st else st"
  have "\<exists>ptrs. pack_loop ((pre @ ?n # l) @ enc ls @ t) (length (pre @ ?n # l)) ?buf (d + 1 + length l) eob dn cap ?st =
    Some (Some (d + 1 + length l + length (enc ls)),
      take (d + 1 + length l) ?buf @ enc ls @ drop (d + 1 + length l + length (enc ls)) ?buf, ptrs)"
    using len Cons.prems(3,4) \<open>d + 1 + length l + length (enc ls) < eob\<close> by (intro Cons.IH wf(2)) simp_all
  moreover have "length (pre @ ?n # l) = length pre + length l + 1" "d + 1 + length l = d + length l + 1"
    "(pre @ ?n # l) @ enc ls @ t = pre @ ?n # l @ enc ls @ t" by simp_all
  ultimately obtain ptrs where run: "pack_loop (pre @ ?n # l @ enc ls @ t) (length pre + length l + 1) ?buf (d + length l + 1) eob dn cap
      (if dn \<noteq> None then save_dnptr cap d st else st) =
    Some (Some (d + 1 + length l + length (enc ls)),
      take (d + 1 + length l) ?buf @ enc ls @ drop (d + 1 + length l + length (enc ls)) ?buf, ptrs)"
    by metis
  have find: "pack_find (pre @ ?n # l @ enc ls @ t) (length pre) buf dn = Some None"
    using Cons.prems(4) by (auto simp: pack_find_def rd_append ptr_append)
  have pl: "pack_label (pre @ ?n # l @ enc ls @ t) (length pre) buf d eob = Some (Some (length l, ?buf))"
    using pack_label_copies [OF fits Cons.prems(3) wf(1)] .
  have pos: "length l \<noteq> 0" using wf(1) by (auto simp: wf_label_def)
  have "take (d + 1 + length l) ?buf = take d buf @ ?n # l"
    "drop (d + 1 + length l + length (enc ls)) ?buf = drop (d + 1 + length l + length (enc ls)) buf"
    using fits Cons.prems(3) by (simp_all add: algebra_simps)
  with run find pl pos wf(1) show ?case
    by (subst pack_loop.simps) (simp add: rd_append len_label_ne_0 Let_def add.commute add.left_commute)
qed

lemma ns_name_pack_copies:
  assumes "wf_name xs" "length (enc xs) < dstsiz" "dst + dstsiz \<le> length buf" "dnptrs = None \<or> dnptrs = Some []"
  shows "\<exists>ps. ns_name_pack (enc xs @ t) buf dst dstsiz dnptrs cap =
    Some (Some (length (enc xs)), take dst buf @ enc xs @ drop (dst + length (enc xs)) buf, ps)"
proof -
  have "pack_legal ([] @ enc xs @ t) (length ([] :: byte list)) 0 = Some True"
    using assms(1) by (intro pack_legal_wf) (simp_all add: wf_name_def)
  moreover obtain ptrs where "pack_loop ([] @ enc xs @ t) (length ([] :: byte list)) buf dst (dst + dstsiz) dnptrs cap
      (True, case dnptrs of None \<Rightarrow> [] | Some ps \<Rightarrow> ps) =
    Some (Some (dst + length (enc xs)), take dst buf @ enc xs @ drop (dst + length (enc xs)) buf, ptrs)"
    using pack_loop_copies [of xs dst "dst + dstsiz" buf dnptrs "[]" t cap "(True, case dnptrs of None \<Rightarrow> [] | Some ps \<Rightarrow> ps)"] assms
    by (auto simp: wf_name_def)
  ultimately show ?thesis by (simp add: ns_name_pack_def)
qed

end
