(* ===== verification/Message.thy ===== *)
theory Message
  imports NsName
begin

section \<open>Resource records in messages\<close>

text \<open>
  Reading a resource record out of a response and putting its data into the form the validator
  works on: \<open>extract_from_rr\<close>, \<open>decompress\<close>, \<open>lower\<close> and \<open>val_create_rr_otw\<close> of
  \<^verbatim>\<open>libval/val_support.c\<close>.
  Allocation succeeds for every request a process can make (a negative size stands for the wrapped
  unsigned one, which no allocator grants, and a zero size yields the null pointer); what fresh
  memory holds is the parameter \<open>junk\<close>.
\<close>

subsection \<open>Record types and return values\<close>

abbreviation ns_t_a :: u16 where "ns_t_a \<equiv> 1"
abbreviation ns_t_ns :: u16 where "ns_t_ns \<equiv> 2"
abbreviation ns_t_md :: u16 where "ns_t_md \<equiv> 3"
abbreviation ns_t_mf :: u16 where "ns_t_mf \<equiv> 4"
abbreviation ns_t_cname :: u16 where "ns_t_cname \<equiv> 5"
abbreviation ns_t_soa :: u16 where "ns_t_soa \<equiv> 6"
abbreviation ns_t_mb :: u16 where "ns_t_mb \<equiv> 7"
abbreviation ns_t_mg :: u16 where "ns_t_mg \<equiv> 8"
abbreviation ns_t_mr :: u16 where "ns_t_mr \<equiv> 9"
abbreviation ns_t_ptr :: u16 where "ns_t_ptr \<equiv> 12"
abbreviation ns_t_minfo :: u16 where "ns_t_minfo \<equiv> 14"
abbreviation ns_t_mx :: u16 where "ns_t_mx \<equiv> 15"
abbreviation ns_t_rp :: u16 where "ns_t_rp \<equiv> 17"
abbreviation ns_t_afsdb :: u16 where "ns_t_afsdb \<equiv> 18"
abbreviation ns_t_rt :: u16 where "ns_t_rt \<equiv> 21"
abbreviation ns_t_px :: u16 where "ns_t_px \<equiv> 26"
abbreviation ns_t_aaaa :: u16 where "ns_t_aaaa \<equiv> 28"
abbreviation ns_t_srv :: u16 where "ns_t_srv \<equiv> 33"
abbreviation ns_t_kx :: u16 where "ns_t_kx \<equiv> 36"
abbreviation ns_t_dname :: u16 where "ns_t_dname \<equiv> 39"
abbreviation ns_t_ds :: u16 where "ns_t_ds \<equiv> 43"
abbreviation ns_t_rrsig :: u16 where "ns_t_rrsig \<equiv> 46"
abbreviation ns_t_nsec :: u16 where "ns_t_nsec \<equiv> 47"
abbreviation ns_t_dnskey :: u16 where "ns_t_dnskey \<equiv> 48"
abbreviation ns_t_nsec3 :: u16 where "ns_t_nsec3 \<equiv> 50"
abbreviation ns_t_any :: u16 where "ns_t_any \<equiv> 255"
abbreviation ns_t_dlv :: u16 where "ns_t_dlv \<equiv> 32769"

datatype val_ret = VAL_NO_ERROR | VAL_BAD_ARGUMENT | VAL_OUT_OF_MEMORY | VAL_NOT_IMPLEMENTED
  | VAL_CONF_PARSE_ERROR | VAL_CONF_NOT_FOUND | VAL_INTERNAL_ERROR | VAL_NO_POLICY

abbreviation SIGNBY :: nat where "SIGNBY \<equiv> 18"

text \<open>The groups of the \<open>switch\<close> statements of \<open>decompress\<close> and \<open>lower\<close>.\<close>

definition two_names_first :: "u16 \<Rightarrow> bool" where
  "two_names_first t \<longleftrightarrow> t \<in> {ns_t_soa, ns_t_minfo, ns_t_rp}"

definition one_name_first :: "u16 \<Rightarrow> bool" where
  "one_name_first t \<longleftrightarrow> t \<in> {ns_t_ns, ns_t_cname, ns_t_dname, ns_t_mb, ns_t_mg, ns_t_mr, ns_t_md,
     ns_t_mf, ns_t_ptr}"

definition prefix_then_name :: "u16 \<Rightarrow> bool" where
  "prefix_then_name t \<longleftrightarrow> t \<in> {ns_t_rt, ns_t_mx, ns_t_afsdb, ns_t_kx, ns_t_px}"

lemmas type_groups = two_names_first_def one_name_first_def prefix_then_name_def

subsection \<open>Reading a record\<close>

record rr_fields =
  rf_name :: "byte list"
  rf_type_h :: u16
  rf_set_type_h :: u16
  rf_class_h :: u16
  rf_ttl_h :: u32
  rf_rdata_length_h :: nat
  rf_rdata_index :: nat
  rf_response_index :: nat

definition extract_from_rr :: "byte list \<Rightarrow> nat \<Rightarrow> nat \<Rightarrow> (val_ret + rr_fields) option" where
  "extract_from_rr response response_index eom = do {
     r \<leftarrow> ns_name_unpack response eom response_index NS_MAXCDNAME;
     case r of None \<Rightarrow> Some (Inl VAL_BAD_ARGUMENT)
     | Some (ret_val, name_n) \<Rightarrow>
         let i = response_index + ret_val in
         if eom < i + 10 then Some (Inl VAL_BAD_ARGUMENT)
         else do {
           type_h \<leftarrow> get16 response i;
           class_h \<leftarrow> get16 response (i + 2);
           ttl_h \<leftarrow> get32 response (i + 4);
           rdlen \<leftarrow> get16 response (i + 8);
           let fields = \<lparr> rf_name = name_n, rf_type_h = type_h, rf_set_type_h = type_h,
             rf_class_h = class_h, rf_ttl_h = ttl_h, rf_rdata_length_h = unat rdlen,
             rf_rdata_index = i + 10, rf_response_index = i + 10 + unat rdlen \<rparr>;
           if type_h = ns_t_rrsig then
             (if eom < i + 10 + 2 then Some (Inl VAL_BAD_ARGUMENT)
              else do {
                set_type_h \<leftarrow> get16 response (i + 10);
                Some (Inr (fields\<lparr> rf_set_type_h := set_type_h \<rparr>))
              })
           else Some (Inr fields)
         }
   }"

subsection \<open>Expanding the names of the record data\<close>

definition malloc :: "(nat \<Rightarrow> byte) \<Rightarrow> int \<Rightarrow> byte list option" where
  "malloc junk n = (if n \<le> 0 then None else Some (map junk [0..<nat n]))"

text \<open>
  One call of \<open>ns_name_unpack\<close> with \<open>wire_name_length\<close> of what it yields: the octets consumed, and
  the first \<open>wire_name_length\<close> bytes of the expanded name (\<open>memcpy\<close> copies these).
\<close>

definition expand_name :: "byte list \<Rightarrow> nat \<Rightarrow> nat \<Rightarrow> (nat \<times> byte list) option option" where
  "expand_name response eom i = do {
     r \<leftarrow> ns_name_unpack response eom i NS_MAXCDNAME;
     case r of None \<Rightarrow> Some None
     | Some (inc, expanded) \<Rightarrow> do {
         len \<leftarrow> wire_name_length expanded;
         name \<leftarrow> seg expanded 0 len;
         Some (Some (inc, name))
       }
   }"

text \<open>The three groups of \<open>decompress\<close> that rewrite names.\<close>

definition decompress_first :: "(nat \<Rightarrow> byte) \<Rightarrow> byte list \<Rightarrow> nat \<Rightarrow> nat \<Rightarrow> int \<Rightarrow> byte list \<Rightarrow> int \<Rightarrow>
    (val_ret + byte list) option" where
  "decompress_first junk response eom wi rdata_len_h other expansion = do {
     r \<leftarrow> expand_name response eom wi;
     case r of None \<Rightarrow> Some (Inl VAL_BAD_ARGUMENT)
     | Some (inc, name) \<Rightarrow>
         let wi' = wi + inc;
             expansion' = expansion + int (length name) - int inc;
             new_size = rdata_len_h + expansion' in
         case malloc junk new_size of None \<Rightarrow> Some (Inl VAL_OUT_OF_MEMORY)
         | Some buf \<Rightarrow> do {
             buf1 \<leftarrow> blit buf 0 other;
             buf2 \<leftarrow> blit buf1 (length other) name;
             let len = new_size - int (length other) - int (length name);
             if int eom < int wi' + len then Some (Inl VAL_BAD_ARGUMENT)
             else if len < 0 then None
             else do {
               tl \<leftarrow> seg response wi' (nat len);
               buf3 \<leftarrow> blit buf2 (length other + length name) tl;
               Some (Inr buf3)
             }
           }
   }"

definition decompress_prefix :: "(nat \<Rightarrow> byte) \<Rightarrow> byte list \<Rightarrow> nat \<Rightarrow> nat \<Rightarrow> u16 \<Rightarrow> int \<Rightarrow> byte list \<Rightarrow>
    (val_ret + byte list) option" where
  "decompress_prefix junk response eom wi type_h rdata_len_h prefix =
     (if eom < wi + 2 then Some (Inl VAL_BAD_ARGUMENT)
      else do {
        short \<leftarrow> seg response wi 2;
        let prefix' = prefix @ short;
        r \<leftarrow> expand_name response eom (wi + 2);
        case r of None \<Rightarrow> Some (Inl VAL_BAD_ARGUMENT)
        | Some (inc, name) \<Rightarrow> do {
            second \<leftarrow> (if type_h = ns_t_px then expand_name response eom (wi + 2 + inc) else Some (Some (0, [])));
            case second of None \<Rightarrow> Some (Inl VAL_BAD_ARGUMENT)
            | Some (inc', other) \<Rightarrow>
                let expansion = int (length name) - int inc + (int (length other) - int inc');
                    new_size = rdata_len_h + expansion in
                case malloc junk new_size of None \<Rightarrow> Some (Inl VAL_OUT_OF_MEMORY)
                | Some buf \<Rightarrow> do {
                    buf1 \<leftarrow> blit buf 0 prefix';
                    buf2 \<leftarrow> blit buf1 (length prefix') name;
                    buf3 \<leftarrow> blit buf2 (length prefix' + length name) other;
                    Some (Inr buf3)
                  }
          }
      })"

definition decompress_rrsig :: "(nat \<Rightarrow> byte) \<Rightarrow> byte list \<Rightarrow> nat \<Rightarrow> nat \<Rightarrow> int \<Rightarrow>
    (val_ret + byte list) option" where
  "decompress_rrsig junk response eom wi rdata_len_h = do {
     r \<leftarrow> expand_name response eom (wi + SIGNBY);
     case r of None \<Rightarrow> Some (Inl VAL_BAD_ARGUMENT)
     | Some (inc, name) \<Rightarrow>
         let expansion = int (length name) - int inc;
             new_size = rdata_len_h + expansion in
         case malloc junk new_size of None \<Rightarrow> Some (Inl VAL_OUT_OF_MEMORY)
         | Some buf \<Rightarrow>
             if eom < wi + SIGNBY then Some (Inl VAL_BAD_ARGUMENT)
             else do {
               fixed \<leftarrow> seg response wi SIGNBY;
               buf1 \<leftarrow> blit buf 0 fixed;
               buf2 \<leftarrow> blit buf1 SIGNBY name;
               let wi' = wi + SIGNBY + inc;
               let len = rdata_len_h - int inc - int SIGNBY;
               if int eom < int wi' + len then Some (Inl VAL_BAD_ARGUMENT)
               else if len < 0 then None
               else do {
                 sig \<leftarrow> seg response wi' (nat len);
                 buf3 \<leftarrow> blit buf2 (SIGNBY + length name) sig;
                 Some (Inr buf3)
               }
             }
   }"

definition decompress :: "(nat \<Rightarrow> byte) \<Rightarrow> byte list \<Rightarrow> nat \<Rightarrow> nat \<Rightarrow> u16 \<Rightarrow> nat \<Rightarrow>
    (val_ret + byte list) option" where
  "decompress junk response rdata_index eom type_h rdata_len_h =
     (if two_names_first type_h then do {
        r \<leftarrow> expand_name response eom rdata_index;
        case r of None \<Rightarrow> Some (Inl VAL_BAD_ARGUMENT)
        | Some (inc, other) \<Rightarrow>
            decompress_first junk response eom (rdata_index + inc) (int rdata_len_h) other
              (int (length other) - int inc)
      }
      else if one_name_first type_h then
        decompress_first junk response eom rdata_index (int rdata_len_h) [] 0
      else if type_h = ns_t_srv then
        (if eom < rdata_index + 4 then Some (Inl VAL_BAD_ARGUMENT)
         else do {
           prefix \<leftarrow> seg response rdata_index 4;
           decompress_prefix junk response eom (rdata_index + 4) type_h (int rdata_len_h) prefix
         })
      else if prefix_then_name type_h then
        decompress_prefix junk response eom rdata_index type_h (int rdata_len_h) []
      else if type_h = ns_t_rrsig then
        decompress_rrsig junk response eom rdata_index (int rdata_len_h)
      else if rdata_len_h = 0 then Some (Inr [])
      else if eom < rdata_index + rdata_len_h then Some (Inl VAL_BAD_ARGUMENT)
      else do { bs \<leftarrow> seg response rdata_index rdata_len_h; Some (Inr bs) })"

subsection \<open>Lower case\<close>

definition lower :: "u16 \<Rightarrow> byte list \<Rightarrow> byte list option" where
  "lower type_h rdata =
     (if rdata = [] then Some rdata
      else if two_names_first type_h then do {
        (rdata1, index) \<leftarrow> lower_name rdata 0;
        (rdata2, _) \<leftarrow> lower_name rdata1 index;
        Some rdata2
      }
      else if one_name_first type_h then do {
        (rdata1, _) \<leftarrow> lower_name rdata 0;
        Some rdata1
      }
      else if type_h = ns_t_srv then do {
        (rdata1, _) \<leftarrow> lower_name rdata 6;
        Some rdata1
      }
      else if prefix_then_name type_h then do {
        (rdata1, index) \<leftarrow> lower_name rdata 2;
        if type_h = ns_t_px then do {
          (rdata2, _) \<leftarrow> lower_name rdata1 index;
          Some rdata2
        } else Some rdata1
      }
      else Some rdata)"

subsection \<open>Writing a record\<close>

text \<open>\<open>ttl_h\<close> is declared \<open>u_int16_t\<close> in \<open>val_create_rr_otw\<close>, so only 16 bits of \<open>ttl\<close> survive.\<close>

definition val_create_rr_otw :: "(nat \<Rightarrow> byte) \<Rightarrow> byte list \<Rightarrow> int \<Rightarrow> int \<Rightarrow> int \<Rightarrow> byte list \<Rightarrow>
    (val_ret + byte list) option" where
  "val_create_rr_otw junk name typ cls ttl rdata = do {
     r \<leftarrow> ns_name_pton name (map junk [0..<NS_MAXCDNAME]);
     case r of None \<Rightarrow> Some (Inl VAL_BAD_ARGUMENT)
     | Some (ret, domain_name_n) \<Rightarrow> do {
         namelen \<leftarrow> wire_name_length domain_name_n;
         owner \<leftarrow> seg domain_name_n 0 namelen;
         let ttl_h = (word_of_int ttl :: u16);
         Some (Inr (owner @ put16 (word_of_int typ) @ put16 (word_of_int cls) @
           put32 (ucast ttl_h) @ put16 (word_of_nat (length rdata)) @ rdata))
       }
   }"

subsection \<open>Reading what the wire format lays out\<close>

lemma get16_at: "i = length xs \<Longrightarrow> get16 (xs @ put16 w @ ys) i = Some w"
  by (simp add: get16_put16)

lemma get32_at: "i = length xs \<Longrightarrow> get32 (xs @ put32 w @ ys) i = Some w"
  by (simp add: get32_put32)

lemma seg_at: "i = length xs \<Longrightarrow> n = length ys \<Longrightarrow> seg (xs @ ys @ zs) i n = Some ys"
  by (simp add: seg_append)

lemma word16_of_nat [simp]: "n < 65536 \<Longrightarrow> unat (word_of_nat n :: u16) = n"
  by (simp add: unat_of_nat)

text \<open>The fixed part of a record, and a whole record.\<close>

definition rr_head :: "u16 \<Rightarrow> u16 \<Rightarrow> u32 \<Rightarrow> nat \<Rightarrow> byte list" where
  "rr_head t c ttl rdlen = put16 t @ put16 c @ put32 ttl @ put16 (word_of_nat rdlen)"

lemma length_rr_head [simp]: "length (rr_head t c ttl n) = 10"
  by (simp add: rr_head_def)

lemma rr_head_fields:
  assumes "i = length pre"
  shows "get16 (pre @ rr_head t c ttl n @ rest) i = Some t"
    and "get16 (pre @ rr_head t c ttl n @ rest) (i + 2) = Some c"
    and "get32 (pre @ rr_head t c ttl n @ rest) (i + 4) = Some ttl"
    and "get16 (pre @ rr_head t c ttl n @ rest) (i + 8) = Some (word_of_nat n)"
  using assms get16_at [of i pre t "put16 c @ put32 ttl @ put16 (word_of_nat n) @ rest"]
    get16_at [of "i + 2" "pre @ put16 t" c "put32 ttl @ put16 (word_of_nat n) @ rest"]
    get32_at [of "i + 4" "pre @ put16 t @ put16 c" ttl "put16 (word_of_nat n) @ rest"]
    get16_at [of "i + 8" "pre @ put16 t @ put16 c @ put32 ttl" "word_of_nat n" rest]
  by (simp_all add: rr_head_def)

text \<open>A buffer whose name at offset \<open>i\<close> is \<open>ls\<close>, in \<open>inc\<close> octets.\<close>

definition name_in :: "byte list \<Rightarrow> nat \<Rightarrow> nat \<Rightarrow> nat \<Rightarrow> label list \<Rightarrow> bool" where
  "name_in response eom i inc ls \<longleftrightarrow> wf_name ls \<and>
     ns_name_unpack response eom i NS_MAXCDNAME = Some (Some (inc, enc ls))"

lemma name_in_enc:
  assumes "wf_name ls" "length pre + length (enc ls) \<le> eom" "eom \<le> length (pre @ enc ls @ rest)"
  shows "name_in (pre @ enc ls @ rest) eom (length pre) (length (enc ls)) ls"
  using assms unpack_enc [OF assms(1) _ assms(2,3)] by (simp add: name_in_def wf_name_def)

lemma name_in_pointer:
  assumes "m = pre @ encl xs @ ptr_bytes p @ rest" "m = pre' @ enc ys @ rest'" "p = length pre'"
    and "wf_name (xs @ ys)" "p < 0x4000" "length (encl xs) + 2 < length m"
  shows "name_in m (length m) (length pre) (length (encl xs) + 2) (xs @ ys)"
  using unpack_compressed [OF assms(1,2,3,4) _ assms(5,6)] assms(4)
  by (simp add: name_in_def wf_name_def)

lemma expand_name_in:
  "name_in response eom i inc ls \<Longrightarrow> expand_name response eom i = Some (Some (inc, enc ls))"
  using wire_name_length_wf [of ls "[]"]
  by (simp add: name_in_def expand_name_def seg_full)

lemma extract_from_rr_fields:
  assumes "name_in r eom i inc ls" "i + inc = length pre" "r = pre @ rr_head t c ttl n @ rest"
    and "i + inc + 10 \<le> eom" "n < 65536" "t \<noteq> ns_t_rrsig"
  shows "extract_from_rr r i eom = Some (Inr \<lparr> rf_name = enc ls, rf_type_h = t, rf_set_type_h = t,
    rf_class_h = c, rf_ttl_h = ttl, rf_rdata_length_h = n, rf_rdata_index = i + inc + 10,
    rf_response_index = i + inc + 10 + n \<rparr>)"
  using assms(1,4-6) rr_head_fields [OF assms(2), of t c ttl n rest]
  unfolding assms(3) extract_from_rr_def name_in_def by (simp add: Let_def)

lemma extract_from_rr_rrsig:
  assumes "name_in r eom i inc ls" "i + inc = length pre" "r = pre @ rr_head ns_t_rrsig c ttl n @ put16 s @ rest"
    and "i + inc + 12 \<le> eom" "n < 65536"
  shows "extract_from_rr r i eom = Some (Inr \<lparr> rf_name = enc ls, rf_type_h = ns_t_rrsig, rf_set_type_h = s,
    rf_class_h = c, rf_ttl_h = ttl, rf_rdata_length_h = n, rf_rdata_index = i + inc + 10,
    rf_response_index = i + inc + 10 + n \<rparr>)"
  using assms(1,4,5) rr_head_fields [OF assms(2), of ns_t_rrsig c ttl n "put16 s @ rest"]
    get16_at [of "i + inc + 10" "pre @ rr_head ns_t_rrsig c ttl n" s rest] assms(2)
  unfolding assms(3) extract_from_rr_def name_in_def by (simp add: Let_def)

text \<open>Decompression yields the record data with its names written out.\<close>

lemma malloc_pos: "0 < n \<Longrightarrow> malloc junk n = Some (map junk [0..<nat n])"
  by (simp add: malloc_def)

lemma malloc_fit: "malloc junk (int n) = (if n = 0 then None else Some (map junk [0..<n]))"
  by (simp add: malloc_def)

lemma malloc_eq: "x = int n \<Longrightarrow> n \<noteq> 0 \<Longrightarrow> malloc junk x = Some (map junk [0..<n])"
  by (simp add: malloc_def)

text \<open>Filling a fresh buffer front to back.\<close>

lemma blit_front:
  "length xs + length src \<le> n \<Longrightarrow>
   blit (xs @ drop (length xs) (map junk [0..<n])) (length xs) src =
     Some ((xs @ src) @ drop (length xs + length src) (map junk [0..<n]))"
  by (simp add: blit_def add.commute)

lemma blit_first:
  "length src \<le> n \<Longrightarrow>
   blit (map junk [0..<n]) 0 src = Some (src @ drop (length src) (map junk [0..<n]))"
  by (simp add: blit_def)

lemma decompress_first_ok:
  assumes "name_in r eom wi inc ls" "eom \<le> length r" "wi + len + inc = eom'" "eom' \<le> eom"
    and "rdlen + expansion = int (length other) + int len + int inc"
  shows "decompress_first junk r eom wi rdlen other expansion =
    Some (Inr (other @ enc ls @ take len (drop (wi + inc) r)))"
proof -
  let ?n = "length other + length (enc ls) + len"
  have size: "rdlen + (expansion + int (length (enc ls)) - int inc) = int ?n"
    using assms(5) by simp
  have nz: "?n \<noteq> 0" by simp
  let ?tl = "take len (drop (wi + inc) r)"
  have seg: "seg r (wi + inc) len = Some ?tl" "length ?tl = len"
    using assms(2-4) by (simp_all add: seg_def add.commute add.left_commute)
  have b1: "blit (map junk [0..<?n]) 0 other = Some (other @ drop (length other) (map junk [0..<?n]))"
    by (rule blit_first) simp
  have b2: "blit (other @ drop (length other) (map junk [0..<?n])) (length other) (enc ls) =
      Some ((other @ enc ls) @ drop (length other + length (enc ls)) (map junk [0..<?n]))"
    by (rule blit_front) simp
  have b3: "blit ((other @ enc ls) @ drop (length (other @ enc ls)) (map junk [0..<?n])) (length (other @ enc ls)) ?tl =
      Some (((other @ enc ls) @ ?tl) @ drop (length (other @ enc ls) + length ?tl) (map junk [0..<?n]))"
    by (rule blit_front) (simp add: seg(2))
  have mal: "malloc junk (rdlen + (expansion + int (length (enc ls)) - int inc)) = Some (map junk [0..<?n])"
    unfolding size malloc_fit by simp
  have le: "rdlen + (expansion + int (length (enc ls)) - int inc) - int (length other) - int (length (enc ls)) = int len"
    using assms(5) by simp
  show ?thesis
    unfolding decompress_first_def expand_name_in [OF assms(1)]
    using assms(3,4) seg b1 b2 b3
    by (simp add: mal le Let_def)
qed

lemma decompress_first_short:
  assumes "name_in r eom wi inc ls"
    and "rdlen + expansion < int (length other) + int inc"
    and "0 < rdlen + expansion + int (length (enc ls)) - int inc"
  shows "decompress_first junk r eom wi rdlen other expansion = None"
proof -
  let ?n = "rdlen + expansion + int (length (enc ls)) - int inc"
  have "blit buf 0 other = Some b \<Longrightarrow> length buf = nat ?n \<Longrightarrow> blit b (length other) (enc ls) = None" for buf b
    using assms(2,3) blit_length [of buf 0 other b] by (simp add: blit_def nat_less_iff)
  then show ?thesis
    using assms(2,3)
    unfolding decompress_first_def expand_name_in [OF assms(1)]
    by (simp add: malloc_pos Let_def add_diff_eq split: bind_splits)
qed

lemma decompress_one:
  assumes "one_name_first t" "name_in r eom i inc ls" "eom \<le> length r" "inc \<le> n" "i + n \<le> eom"
  shows "decompress junk r i eom t n = Some (Inr (enc ls @ take (n - inc) (drop (i + inc) r)))"
proof -
  have "\<not> two_names_first t" using assms(1) by (auto simp: type_groups)
  with assms decompress_first_ok [OF assms(2,3), of "n - inc" "i + n" "int n" 0 "[]" junk]
  show ?thesis by (simp add: decompress_def)
qed

lemma decompress_two:
  assumes "two_names_first t" "name_in r eom i inc ls" "name_in r eom (i + inc) inc' ls'"
    and "eom \<le> length r" "inc + inc' \<le> n" "i + n \<le> eom"
  shows "decompress junk r i eom t n =
    Some (Inr (enc ls @ enc ls' @ take (n - (inc + inc')) (drop (i + inc + inc') r)))"
  using assms decompress_first_ok [OF assms(3,4), of "n - (inc + inc')" "i + n" "int n"
      "int (length (enc ls)) - int inc" "enc ls" junk]
  by (simp add: decompress_def expand_name_in)

lemma decompress_prefix_ok:
  assumes "t = ns_t_px \<Longrightarrow> name_in r eom (wi + 2 + inc) inc' ls'"
    and "t \<noteq> ns_t_px \<Longrightarrow> inc' = 0 \<and> other = []" "t = ns_t_px \<Longrightarrow> other = enc ls'"
    and "name_in r eom (wi + 2) inc ls" "wi + 2 \<le> eom" "eom \<le> length r"
    and "length pre + 2 + inc + inc' = n"
  shows "decompress_prefix junk r eom wi t (int n) pre =
    Some (Inr (pre @ take 2 (drop wi r) @ enc ls @ other))"
proof -
  let ?p = "pre @ take 2 (drop wi r)"
  let ?n = "length pre + 2 + length (enc ls) + length other"
  have short: "seg r wi 2 = Some (take 2 (drop wi r))" "length (take 2 (drop wi r)) = 2"
    using assms(5,6) by (simp_all add: seg_def)
  have mal: "malloc junk (int n + (int (length (enc ls)) - int inc + (int (length other) - int inc'))) =
      Some (map junk [0..<?n])"
    using assms(7) by (intro malloc_eq) simp_all
  have b1: "blit (map junk [0..<?n]) 0 ?p = Some (?p @ drop (length ?p) (map junk [0..<?n]))"
    using short(2) by (intro blit_first) simp
  have b2: "blit (?p @ drop (length ?p) (map junk [0..<?n])) (length ?p) (enc ls) =
      Some ((?p @ enc ls) @ drop (length ?p + length (enc ls)) (map junk [0..<?n]))"
    using short(2) by (intro blit_front) simp
  have b3: "blit ((?p @ enc ls) @ drop (length (?p @ enc ls)) (map junk [0..<?n])) (length (?p @ enc ls)) other =
      Some (((?p @ enc ls) @ other) @ drop (length (?p @ enc ls) + length other) (map junk [0..<?n]))"
    using short(2) by (intro blit_front) simp
  have second: "(if t = ns_t_px then expand_name r eom (wi + 2 + inc) else Some (Some (0, []))) =
      Some (Some (inc', other))"
    using assms(1-3) by (simp add: expand_name_in)
  show ?thesis
    unfolding decompress_prefix_def expand_name_in [OF assms(4)]
    using assms(5) short b1 b2 b3 second
    by (simp add: mal Let_def)
qed

lemma decompress_mx:
  assumes "prefix_then_name t" "t \<noteq> ns_t_px" "name_in r eom (i + 2) inc ls" "eom \<le> length r"
    and "i + 2 \<le> eom" "n = 2 + inc"
  shows "decompress junk r i eom t n = Some (Inr (take 2 (drop i r) @ enc ls))"
proof -
  have "\<not> two_names_first t" "\<not> one_name_first t" "t \<noteq> ns_t_srv"
    using assms(1) by (auto simp: type_groups)
  with assms decompress_prefix_ok [of t r eom i inc 0 "[]" "[]" ls "[]" n junk]
  show ?thesis by (simp add: decompress_def)
qed

lemma decompress_srv:
  assumes "name_in r eom (i + 6) inc ls" "eom \<le> length r" "i + 6 \<le> eom" "n = 6 + inc"
  shows "decompress junk r i eom ns_t_srv n = Some (Inr (take 6 (drop i r) @ enc ls))"
proof -
  have "take 4 (drop i r) @ take 2 (drop (i + 4) r) = take 6 (drop i r)"
    using take_add [of 4 2 "drop i r"] by (simp add: add.commute)
  then have app: "take 4 (drop i r) @ take 2 (drop (i + 4) r) @ xs = take 6 (drop i r) @ xs" for xs
    by (metis append_assoc)
  have "i + 4 + 2 = i + 6" by simp
  then have nm: "name_in r eom (i + 4 + 2) inc ls" using assms(1) by metis
  have "decompress_prefix junk r eom (i + 4) ns_t_srv (int n) (take 4 (drop i r)) =
      Some (Inr (take 4 (drop i r) @ take 2 (drop (i + 4) r) @ enc ls @ []))"
    by (rule decompress_prefix_ok [OF _ _ _ nm, where inc' = 0]) (use assms in simp_all)
  with assms app show ?thesis by (simp add: decompress_def type_groups seg_def)
qed

lemma decompress_rrsig_ok:
  assumes "name_in r eom (i + SIGNBY) inc ls" "eom \<le> length r" "SIGNBY + inc \<le> n" "i + n \<le> eom"
  shows "decompress junk r i eom ns_t_rrsig n =
    Some (Inr (take SIGNBY (drop i r) @ enc ls @ take (n - (SIGNBY + inc)) (drop (i + SIGNBY + inc) r)))"
proof -
  let ?len = "n - (SIGNBY + inc)"
  let ?p = "take SIGNBY (drop i r)" and ?tl = "take ?len (drop (i + SIGNBY + inc) r)"
  let ?n = "SIGNBY + length (enc ls) + ?len"
  have p: "seg r i SIGNBY = Some ?p" "length ?p = SIGNBY"
    using assms(2-4) by (simp_all add: seg_def)
  have tl: "seg r (i + SIGNBY + inc) ?len = Some ?tl" "length ?tl = ?len"
    using assms(2-4) by (simp_all add: seg_def)
  have mal: "malloc junk (int n + (int (length (enc ls)) - int inc)) = Some (map junk [0..<?n])"
    using assms(3) by (intro malloc_eq) simp_all
  have b1: "blit (map junk [0..<?n]) 0 ?p = Some (?p @ drop (length ?p) (map junk [0..<?n]))"
    using p(2) by (intro blit_first) simp
  have b2: "blit (?p @ drop (length ?p) (map junk [0..<?n])) (length ?p) (enc ls) =
      Some ((?p @ enc ls) @ drop (length ?p + length (enc ls)) (map junk [0..<?n]))"
    using p(2) by (intro blit_front) simp
  have b3: "blit ((?p @ enc ls) @ drop (length (?p @ enc ls)) (map junk [0..<?n])) (length (?p @ enc ls)) ?tl =
      Some (((?p @ enc ls) @ ?tl) @ drop (length (?p @ enc ls) + length ?tl) (map junk [0..<?n]))"
    using p(2) tl(2) by (intro blit_front) simp
  have len: "int n - int inc - int SIGNBY = int ?len" using assms(3) by simp
  have len': "nat (int n - (int SIGNBY + int inc)) = ?len" using assms(3) by simp
  have "decompress junk r i eom ns_t_rrsig n = decompress_rrsig junk r eom i (int n)"
    by (simp add: decompress_def type_groups)
  also have "\<dots> = Some (Inr (?p @ enc ls @ ?tl))"
    unfolding decompress_rrsig_def expand_name_in [OF assms(1)]
    using assms(3,4) p tl b1 b2 b3
    by (simp add: mal len len' Let_def del: of_nat_numeral)
  finally show ?thesis .
qed

lemma decompress_plain:
  assumes "\<not> two_names_first t" "\<not> one_name_first t" "t \<noteq> ns_t_srv" "\<not> prefix_then_name t"
    "t \<noteq> ns_t_rrsig" "i + n \<le> eom" "eom \<le> length r"
  shows "decompress junk r i eom t n = Some (Inr (take n (drop i r)))"
  using assms by (simp add: decompress_def seg_def)

text \<open>
  When the record data is shorter than the names it is said to hold, the buffer \<open>decompress\<close>
  allocates is too small and the copy of the last name leaves it.
\<close>

lemma decompress_one_short:
  assumes "one_name_first t" "name_in r eom i inc ls" "n < inc" "inc < n + length (enc ls)"
  shows "decompress junk r i eom t n = None"
proof -
  have "\<not> two_names_first t" using assms(1) by (auto simp: type_groups)
  with assms decompress_first_short [OF assms(2), of "int n" 0 "[]" junk]
  show ?thesis by (simp add: decompress_def)
qed

text \<open>Lowering the names of canonical record data.\<close>

abbreviation lower_labels :: "label list \<Rightarrow> label list" where
  "lower_labels ls \<equiv> map (map tolower) ls"

lemma lower_name_first:
  "wf_name ls \<Longrightarrow> lower_name (enc ls @ t) 0 = Some (enc (lower_labels ls) @ t, length (enc ls))"
  using lower_name_enc [of ls "[]" t] by simp

lemma lower_one:
  "one_name_first t \<Longrightarrow> wf_name ls \<Longrightarrow> lower t (enc ls @ rest) = Some (enc (lower_labels ls) @ rest)"
  by (auto simp: lower_def lower_name_first type_groups)

lemma lower_two:
  assumes "two_names_first t" "wf_name ls" "wf_name ls'"
  shows "lower t (enc ls @ enc ls' @ rest) = Some (enc (lower_labels ls) @ enc (lower_labels ls') @ rest)"
  using assms lower_name_enc [of ls' "enc (lower_labels ls)" rest]
  by (simp add: lower_def lower_name_first)

lemma lower_prefix:
  assumes "prefix_then_name t" "t \<noteq> ns_t_px" "wf_name ls" "length p = 2"
  shows "lower t (p @ enc ls @ rest) = Some (p @ enc (lower_labels ls) @ rest)"
proof -
  have "\<not> two_names_first t" "\<not> one_name_first t" "t \<noteq> ns_t_srv"
    using assms(1) by (auto simp: type_groups)
  with assms lower_name_enc [of ls p rest] show ?thesis by (simp add: lower_def)
qed

lemma lower_px:
  assumes "wf_name ls" "wf_name ls'" "length p = 2"
  shows "lower ns_t_px (p @ enc ls @ enc ls' @ rest) =
    Some (p @ enc (lower_labels ls) @ enc (lower_labels ls') @ rest)"
  using assms lower_name_enc [of ls p "enc ls' @ rest"]
    lower_name_enc [of ls' "p @ enc (lower_labels ls)" rest]
  by (simp add: lower_def type_groups)

lemma lower_srv:
  assumes "wf_name ls" "length p = 6"
  shows "lower ns_t_srv (p @ enc ls @ rest) = Some (p @ enc (lower_labels ls) @ rest)"
  using assms lower_name_enc [of ls p rest] by (simp add: lower_def type_groups)

lemma lower_other:
  "\<not> two_names_first t \<Longrightarrow> \<not> one_name_first t \<Longrightarrow> t \<noteq> ns_t_srv \<Longrightarrow> \<not> prefix_then_name t \<Longrightarrow>
   lower t rdata = Some rdata"
  by (simp add: lower_def)

text \<open>What \<open>val_create_rr_otw\<close> writes, \<open>extract_from_rr\<close> reads.\<close>

lemma val_create_rr_otw_text:
  assumes "wf_name ls"
  shows "val_create_rr_otw junk (text_name ls @ [0]) typ cls ttl rdata =
    Some (Inr (enc ls @ rr_head (word_of_int typ) (word_of_int cls) (ucast (word_of_int ttl :: u16))
      (length rdata) @ rdata))"
  using assms pton_text [OF assms, of "map junk [0..<NS_MAXCDNAME]" "[]"]
  by (simp add: val_create_rr_otw_def wf_name_def seg_full rr_head_def)

lemma extract_created:
  assumes "wf_name ls" "word_of_int typ \<noteq> ns_t_rrsig" "length rdata < 65536"
    and "val_create_rr_otw junk (text_name ls @ [0]) typ cls ttl rdata = Some (Inr otw)"
  shows "extract_from_rr otw 0 (length otw) = Some (Inr \<lparr> rf_name = enc ls,
    rf_type_h = word_of_int typ, rf_set_type_h = word_of_int typ, rf_class_h = word_of_int cls,
    rf_ttl_h = ucast (word_of_int ttl :: u16), rf_rdata_length_h = length rdata,
    rf_rdata_index = length (enc ls) + 10, rf_response_index = length otw \<rparr>)"
proof -
  let ?ttl = "ucast (word_of_int ttl :: u16)"
  have otw: "otw = enc ls @ rr_head (word_of_int typ) (word_of_int cls) ?ttl (length rdata) @ rdata"
    using assms(4) by (simp add: val_create_rr_otw_text [OF assms(1)])
  have len: "length otw = length (enc ls) + 10 + length rdata" by (simp add: otw)
  have "name_in otw (length otw) 0 (length (enc ls)) ls"
    using name_in_enc [OF assms(1), of "[]" "length otw"] len otw by simp
  from extract_from_rr_fields [OF this _ otw _ assms(3,2)] show ?thesis
    by (simp add: len)
qed

end
