(* ===== verification/RRset.thy ===== *)
theory RRset
  imports Message
begin

section \<open>Record sets and their lists\<close>

text \<open>
  The record sets the validator keeps (\<open>struct rrset_rec\<close>), their construction and canonical copy
  (\<open>add_to_set\<close>, \<open>add_as_sig\<close>, \<open>init_rr_set\<close>, \<open>find_rr_set\<close>, \<open>copy_rr_rec\<close>, \<open>link_rr\<close>,
  \<open>copy_rrset_rec\<close>, \<open>merge_rrset_recs\<close>), and the chains of names and queries
  (\<open>add_to_qname_chain\<close>, \<open>name_in_qname_chain\<close>, \<open>register_query\<close>) of
  \<^verbatim>\<open>libval/val_support.c\<close>. Linked lists are lists; a pointer into a list is an index.
\<close>

subsection \<open>The data\<close>

record rrset_rr =
  rr_rdata :: "byte list"
  rr_status :: u16

record name_server =
  ns_name_n :: "byte list"
  ns_options :: "64 word"
  ns_address :: "byte list list"

record rrset_rec =
  rrs_rcode :: nat
  rrs_name_n :: "byte list"
  rrs_class_h :: u16
  rrs_type_h :: u16
  rrs_ttl_h :: u32
  rrs_ttl_x :: u32
  rrs_section :: byte
  rrs_server :: "byte list"
  rrs_ns_options :: "64 word"
  rrs_data :: "rrset_rr list"
  rrs_sig :: "rrset_rr list"
  rrs_zonecut_n :: "byte list"
  rrs_cred :: byte
  rrs_ans_kind :: byte

abbreviation VAL_AC_UNSET :: u16 where "VAL_AC_UNSET \<equiv> 0"

abbreviation VAL_FROM_ANSWER :: byte where "VAL_FROM_ANSWER \<equiv> 1"
abbreviation VAL_FROM_AUTHORITY :: byte where "VAL_FROM_AUTHORITY \<equiv> 2"
abbreviation VAL_FROM_ADDITIONAL :: byte where "VAL_FROM_ADDITIONAL \<equiv> 3"

abbreviation SR_CRED_UNSET :: byte where "SR_CRED_UNSET \<equiv> 0"
abbreviation SR_CRED_AUTH_ANS :: byte where "SR_CRED_AUTH_ANS \<equiv> 3"
abbreviation SR_CRED_AUTH_AUTH :: byte where "SR_CRED_AUTH_AUTH \<equiv> 4"
abbreviation SR_CRED_AUTH_ADD :: byte where "SR_CRED_AUTH_ADD \<equiv> 5"
abbreviation SR_CRED_ITER_ANS :: byte where "SR_CRED_ITER_ANS \<equiv> 6"
abbreviation SR_CRED_ITER_AUTH :: byte where "SR_CRED_ITER_AUTH \<equiv> 6"
abbreviation SR_CRED_ITER_ADD :: byte where "SR_CRED_ITER_ADD \<equiv> 6"
abbreviation SR_CRED_NONAUTH_ANS :: byte where "SR_CRED_NONAUTH_ANS \<equiv> 7"
abbreviation SR_CRED_NONAUTH_AUTH :: byte where "SR_CRED_NONAUTH_AUTH \<equiv> 7"
abbreviation SR_CRED_NONAUTH_ADD :: byte where "SR_CRED_NONAUTH_ADD \<equiv> 7"

abbreviation SR_ANS_UNSET :: byte where "SR_ANS_UNSET \<equiv> 0"
abbreviation SR_ANS_STRAIGHT :: byte where "SR_ANS_STRAIGHT \<equiv> 1"
abbreviation SR_ANS_CNAME :: byte where "SR_ANS_CNAME \<equiv> 2"
abbreviation SR_ANS_DNAME :: byte where "SR_ANS_DNAME \<equiv> 3"
abbreviation SR_ANS_NACK :: byte where "SR_ANS_NACK \<equiv> 4"
abbreviation SR_ANS_BARE_RRSIG :: byte where "SR_ANS_BARE_RRSIG \<equiv> 5"

text \<open>What \<open>memset\<close> leaves in a fresh \<open>struct rrset_rec\<close>.\<close>

definition zero_rrset :: rrset_rec where
  "zero_rrset = \<lparr> rrs_rcode = 0, rrs_name_n = [], rrs_class_h = 0, rrs_type_h = 0, rrs_ttl_h = 0,
     rrs_ttl_x = 0, rrs_section = 0, rrs_server = [], rrs_ns_options = 0, rrs_data = [],
     rrs_sig = [], rrs_zonecut_n = [], rrs_cred = 0, rrs_ans_kind = 0 \<rparr>"

subsection \<open>Building a record set\<close>

definition add_to_set :: "rrset_rec \<Rightarrow> nat \<Rightarrow> byte list \<Rightarrow> (val_ret \<times> rrset_rec) option" where
  "add_to_set rr_set rdata_len_h rdata =
     (if rdata = [] \<or> rdata_len_h = 0 then Some (VAL_BAD_ARGUMENT, rr_set)
      else do {
        bs \<leftarrow> seg rdata 0 rdata_len_h;
        Some (VAL_NO_ERROR, rr_set\<lparr> rrs_data := rrs_data rr_set @
          [\<lparr> rr_rdata = bs, rr_status = VAL_AC_UNSET \<rparr>] \<rparr>)
      })"

definition add_as_sig :: "rrset_rec \<Rightarrow> nat \<Rightarrow> byte list \<Rightarrow> (val_ret \<times> rrset_rec) option" where
  "add_as_sig rr_set rdata_len_h rdata =
     (if rdata = [] \<or> rdata_len_h = 0 then Some (VAL_BAD_ARGUMENT, rr_set)
      else do {
        bs \<leftarrow> seg rdata 0 rdata_len_h;
        Some (VAL_NO_ERROR, rr_set\<lparr> rrs_sig := rrs_sig rr_set @
          [\<lparr> rr_rdata = bs, rr_status = VAL_AC_UNSET \<rparr>] \<rparr>)
      })"

text \<open>
  \<open>init_rr_set\<close>. \<open>tv\<close> is what \<open>gettimeofday\<close> yields, \<open>None\<close> when it fails; the response code is
  the low half of the fourth byte of the header.
\<close>

definition init_cred :: "byte \<Rightarrow> bool \<Rightarrow> bool \<Rightarrow> byte" where
  "init_cred from_section authoritive_answer iterative_answer =
     (if from_section = VAL_FROM_ANSWER then
        (if authoritive_answer then SR_CRED_AUTH_ANS
         else if iterative_answer then SR_CRED_ITER_ANS else SR_CRED_NONAUTH_ANS)
      else if from_section = VAL_FROM_AUTHORITY then
        (if authoritive_answer then SR_CRED_AUTH_AUTH
         else if iterative_answer then SR_CRED_ITER_AUTH else SR_CRED_NONAUTH_AUTH)
      else if from_section = VAL_FROM_ADDITIONAL then
        (if authoritive_answer then SR_CRED_AUTH_ADD
         else if iterative_answer then SR_CRED_ITER_ADD else SR_CRED_NONAUTH_ADD)
      else SR_CRED_UNSET)"

definition init_rr_set :: "int option \<Rightarrow> rrset_rec \<Rightarrow> byte list \<Rightarrow> u16 \<Rightarrow> u16 \<Rightarrow> u32 \<Rightarrow> byte list \<Rightarrow>
    byte \<Rightarrow> bool \<Rightarrow> bool \<Rightarrow> name_server option \<Rightarrow> (val_ret \<times> rrset_rec) option" where
  "init_rr_set tv new_set name_n set_type_h class_h ttl_h hptr from_section authoritive_answer
     iterative_answer respondent_server = do {
     name_len \<leftarrow> wire_name_length name_n;
     if name_n = [] then Some (VAL_BAD_ARGUMENT, new_set)
     else if rrs_name_n new_set \<noteq> [] then Some (VAL_NO_ERROR, new_set)
     else if name_len = 0 then Some (VAL_OUT_OF_MEMORY, new_set)
     else do {
       rcode \<leftarrow> (if hptr \<noteq> [] then do { b \<leftarrow> rd hptr 3; Some (unat (b AND 0x0f)) } else Some 0);
       name \<leftarrow> seg name_n 0 name_len;
       let server = (case respondent_server of
         Some ns \<Rightarrow> (case ns_address ns of a # _ \<Rightarrow> (a, ns_options ns) | [] \<Rightarrow> ([], 0))
       | None \<Rightarrow> ([], 0));
       Some (VAL_NO_ERROR, new_set\<lparr>
         rrs_name_n := name, rrs_rcode := rcode, rrs_type_h := set_type_h, rrs_class_h := class_h,
         rrs_ttl_h := ttl_h,
         rrs_ttl_x := (case tv of Some tv_sec \<Rightarrow> word_of_int (tv_sec + uint ttl_h) | None \<Rightarrow> 0),
         rrs_data := [], rrs_sig := [], rrs_server := fst server, rrs_ns_options := snd server,
         rrs_cred := init_cred from_section authoritive_answer iterative_answer,
         rrs_section := from_section, rrs_ans_kind := SR_ANS_UNSET \<rparr>)
     }
   }"

text \<open>The macro \<open>IS_THE_ONE\<close> for a record, with \<open>&r[SIGNBY]\<close> the signer name of a signature.\<close>

definition first_rdata :: "rrset_rr list \<Rightarrow> byte list option" where
  "first_rdata rrs = (case rrs of [] \<Rightarrow> None | rr # _ \<Rightarrow> Some (rr_rdata rr))"

definition name_eq :: "byte list \<Rightarrow> byte list \<Rightarrow> bool option" where
  "name_eq n1 n2 = do { c \<leftarrow> namecmp n1 n2; Some (c = 0) }"

definition is_the_one :: "rrset_rec \<Rightarrow> byte list \<Rightarrow> u16 \<Rightarrow> u16 \<Rightarrow> u16 \<Rightarrow> byte list \<Rightarrow> bool option" where
  "is_the_one a n t s c r =
     (if s \<noteq> ns_t_nsec then
        sc_and (Some (rrs_type_h a = s \<and> rrs_class_h a = c)) (name_eq (rrs_name_n a) n)
      else if t = ns_t_rrsig then
        sc_and (Some (rrs_data a \<noteq> [] \<and> rrs_class_h a = c \<and> rrs_type_h a = ns_t_nsec))
          (sc_and (name_eq (rrs_name_n a) n)
            (do { d \<leftarrow> first_rdata (rrs_data a); sig \<leftarrow> ptr r SIGNBY; is_tail d sig }))
      else if t = ns_t_nsec then
        sc_and (Some (rrs_sig a \<noteq> [] \<and> rrs_class_h a = c \<and> rrs_type_h a = ns_t_nsec))
          (sc_and (name_eq (rrs_name_n a) n)
            (do { d \<leftarrow> first_rdata (rrs_sig a); sig \<leftarrow> ptr d SIGNBY; is_tail r sig }))
      else Some False)"

fun find_one :: "rrset_rec list \<Rightarrow> byte list \<Rightarrow> u16 \<Rightarrow> u16 \<Rightarrow> u16 \<Rightarrow> byte list \<Rightarrow> nat \<Rightarrow> nat option option" where
  "find_one [] n t s c r i = Some None"
| "find_one (a # as) n t s c r i = do {
     b \<leftarrow> is_the_one a n t s c r;
     if b then Some (Some i) else find_one as n t s c r (i + 1)
   }"

text \<open>\<open>find_rr_set\<close> answers the list and the index of the set; a failure frees the list.\<close>

definition find_rr_set :: "int option \<Rightarrow> name_server option \<Rightarrow> rrset_rec list \<Rightarrow> byte list \<Rightarrow> u16 \<Rightarrow> u16 \<Rightarrow>
    u16 \<Rightarrow> u32 \<Rightarrow> byte list \<Rightarrow> byte list \<Rightarrow> byte \<Rightarrow> bool \<Rightarrow> bool \<Rightarrow> byte list \<Rightarrow>
    (rrset_rec list \<times> nat option) option" where
  "find_rr_set tv respondent_server the_list name_n type_h set_type_h class_h ttl_h hptr rdata_n
     from_section authoritive_answer iterative_answer zonecut_n =
     (if name_n = [] then Some (the_list, None)
      else do {
        f \<leftarrow> find_one the_list name_n type_h set_type_h class_h rdata_n 0;
        case f of
          Some i \<Rightarrow>
            let r = the_list ! i in
            Some (the_list[i := r\<lparr> rrs_ttl_h := (if ttl_h < rrs_ttl_h r then ttl_h else rrs_ttl_h r) \<rparr>], Some i)
        | None \<Rightarrow> do {
            len \<leftarrow> wire_name_length zonecut_n;
            if zonecut_n \<noteq> [] \<and> len = 0 then Some ([], None)
            else do {
              zonecut \<leftarrow> seg zonecut_n 0 len;
              (ret, new_one) \<leftarrow> init_rr_set tv (zero_rrset\<lparr> rrs_zonecut_n := zonecut \<rparr>) name_n set_type_h
                class_h ttl_h hptr from_section authoritive_answer iterative_answer respondent_server;
              if ret \<noteq> VAL_NO_ERROR then Some ([], None)
              else Some (the_list @ [new_one], Some (length the_list))
            }
          }
      })"

subsection \<open>The canonical copy\<close>

definition copy_rr_rec :: "u16 \<Rightarrow> rrset_rr \<Rightarrow> bool \<Rightarrow> rrset_rr option option" where
  "copy_rr_rec type_h r dolower =
     (if rr_rdata r = [] then Some None
      else do {
        bs \<leftarrow> (if dolower then lower type_h (rr_rdata r) else Some (rr_rdata r));
        Some (Some (r\<lparr> rr_rdata := bs \<rparr>))
      })"

text \<open>
  \<open>link_rr\<close>: the first comparison and the loop make the same decision about the record at hand.
  The second component is the return value.
\<close>

fun link_rr :: "rrset_rr list \<Rightarrow> rrset_rr \<Rightarrow> rrset_rr list \<times> int" where
  "link_rr [] cr = ([cr], 1)"
| "link_rr (c # cs) cr =
     (let len = (if length (rr_rdata c) < length (rr_rdata cr) then length (rr_rdata c)
                 else length (rr_rdata cr));
          ret_val = memcmp (take len (rr_rdata c)) (take len (rr_rdata cr)) in
      if ret_val = 0 \<and> length (rr_rdata c) = length (rr_rdata cr) then (c # cs, -1)
      else if 0 < ret_val \<or> ret_val = 0 \<and> len = length (rr_rdata cr) then (cr # c # cs, 1)
      else let (cs', k) = link_rr cs cr in (c # cs', k))"

text \<open>The two copying loops of \<open>copy_rrset_rec\<close>; the inner \<open>None\<close> is the jump to \<open>err\<close>.\<close>

fun copy_rrs :: "u16 \<Rightarrow> bool \<Rightarrow> rrset_rr list \<Rightarrow> rrset_rr list \<Rightarrow> rrset_rr list option option" where
  "copy_rrs type_h dolower [] acc = Some (Some acc)"
| "copy_rrs type_h dolower (r # rs) acc = do {
     c \<leftarrow> copy_rr_rec type_h r dolower;
     case c of None \<Rightarrow> Some None
     | Some copy_rr \<Rightarrow> copy_rrs type_h dolower rs (fst (link_rr acc copy_rr))
   }"

definition copy_rrset_rec :: "rrset_rec \<Rightarrow> rrset_rec option option" where
  "copy_rrset_rec rr_set = do {
     zlen \<leftarrow> wire_name_length (rrs_zonecut_n rr_set);
     if rrs_zonecut_n rr_set \<noteq> [] \<and> zlen = 0 then Some None
     else do {
       zonecut \<leftarrow> seg (rrs_zonecut_n rr_set) 0 zlen;
       o_length \<leftarrow> wire_name_length (rrs_name_n rr_set);
       if rrs_name_n rr_set \<noteq> [] \<and> o_length = 0 then Some None
       else do {
         name \<leftarrow> seg (rrs_name_n rr_set) 0 o_length;
         d \<leftarrow> copy_rrs (rrs_type_h rr_set) True (rrs_data rr_set) [];
         case d of None \<Rightarrow> Some None
         | Some ds \<Rightarrow> do {
             s \<leftarrow> copy_rrs (rrs_type_h rr_set) False (rrs_sig rr_set) [];
             case s of None \<Rightarrow> Some None
             | Some sigs \<Rightarrow> Some (Some \<lparr> rrs_rcode = rrs_rcode rr_set, rrs_name_n = name,
                 rrs_class_h = rrs_class_h rr_set, rrs_type_h = rrs_type_h rr_set,
                 rrs_ttl_h = rrs_ttl_h rr_set, rrs_ttl_x = rrs_ttl_x rr_set,
                 rrs_section = rrs_section rr_set, rrs_server = rrs_server rr_set,
                 rrs_ns_options = (if rrs_server rr_set \<noteq> [] then rrs_ns_options rr_set else 0),
                 rrs_data = ds, rrs_sig = sigs, rrs_zonecut_n = zonecut,
                 rrs_cred = SR_CRED_UNSET, rrs_ans_kind = SR_ANS_UNSET \<rparr>)
           }
       }
     }
   }"

fun copy_rrset_rec_list :: "rrset_rec list \<Rightarrow> rrset_rec list option option" where
  "copy_rrset_rec_list [] = Some (Some [])"
| "copy_rrset_rec_list (r # rs) = do {
     c \<leftarrow> copy_rrset_rec r;
     case c of None \<Rightarrow> Some None
     | Some new_set \<Rightarrow> do {
         rest \<leftarrow> copy_rrset_rec_list rs;
         Some (case rest of None \<Rightarrow> None | Some cs \<Rightarrow> Some (new_set # cs))
       }
   }"

subsection \<open>Chains of names and of queries\<close>

definition add_to_qname_chain :: "byte list list \<Rightarrow> byte list \<Rightarrow> (val_ret \<times> byte list list) option" where
  "add_to_qname_chain qnames name_n =
     (if name_n = [] then Some (VAL_BAD_ARGUMENT, qnames)
      else do {
        len \<leftarrow> wire_name_length name_n;
        name \<leftarrow> seg name_n 0 len;
        Some (VAL_NO_ERROR, name # qnames)
      })"

fun name_in_qname_chain :: "byte list list \<Rightarrow> byte list \<Rightarrow> bool option" where
  "name_in_qname_chain [] name_n = Some False"
| "name_in_qname_chain (q # qs) name_n =
     (if name_n = [] then Some False
      else do {
        c \<leftarrow> namecmp q name_n;
        if c \<noteq> 0 then name_in_qname_chain qs name_n else Some True
      })"

record query_list =
  ql_name_n :: "byte list"
  ql_zone_n :: "byte list"
  ql_type_h :: u16

abbreviation ITS_BEEN_DONE :: int where "ITS_BEEN_DONE \<equiv> 0"
abbreviation IT_HASNT :: int where "IT_HASNT \<equiv> 1"
abbreviation IT_WONT :: int where "IT_WONT \<equiv> -1"
abbreviation MAX_ALIAS_CHAIN_LENGTH :: nat where "MAX_ALIAS_CHAIN_LENGTH \<equiv> 10"

definition ql_matches :: "query_list \<Rightarrow> byte list \<Rightarrow> byte list \<Rightarrow> bool option" where
  "ql_matches q name_n zone_n =
     sc_and (if zone_n = [] then Some True else name_eq (ql_zone_n q) zone_n) (name_eq (ql_name_n q) name_n)"

text \<open>The loop of \<open>register_query\<close>: \<open>IT_HASNT\<close> when it reaches the end without a match.\<close>

fun register_walk :: "query_list list \<Rightarrow> nat \<Rightarrow> byte list \<Rightarrow> byte list \<Rightarrow> int option" where
  "register_walk [] count name_n zone_n = Some IT_HASNT"
| "register_walk (q # qs) count name_n zone_n = do {
     b \<leftarrow> ql_matches q name_n zone_n;
     if b then Some ITS_BEEN_DONE
     else if qs \<noteq> [] \<and> MAX_ALIAS_CHAIN_LENGTH < count + 1 then Some IT_WONT
     else register_walk qs (count + 1) name_n zone_n
   }"

definition register_query :: "query_list list \<Rightarrow> byte list \<Rightarrow> u16 \<Rightarrow> byte list \<Rightarrow>
    (int \<times> query_list list) option" where
  "register_query q name_n type_h zone_n =
     (if name_n = [] then Some (IT_WONT, q)
      else do {
        r \<leftarrow> register_walk q 0 name_n zone_n;
        if r \<noteq> IT_HASNT then Some (r, q)
        else do {
          len \<leftarrow> wire_name_length name_n;
          name \<leftarrow> seg name_n 0 len;
          zlen \<leftarrow> wire_name_length zone_n;
          zone \<leftarrow> (if zone_n = [] then Some (replicate NS_MAXCDNAME 0) else seg zone_n 0 zlen);
          Some (IT_HASNT, q @ [\<lparr> ql_name_n = name, ql_zone_n = zone, ql_type_h = type_h \<rparr>])
        }
      })"

subsection \<open>Merging lists of record sets\<close>

definition same_rrset :: "rrset_rec \<Rightarrow> rrset_rec \<Rightarrow> bool option" where
  "same_rrset old new_rr =
     sc_and (Some (rrs_type_h old = rrs_type_h new_rr \<and> rrs_class_h old = rrs_class_h new_rr))
       (name_eq (rrs_name_n old) (rrs_name_n new_rr))"

definition exchange :: "rrset_rec \<Rightarrow> rrset_rec \<Rightarrow> rrset_rec" where
  "exchange old new_rr = old\<lparr> rrs_cred := rrs_cred new_rr, rrs_section := rrs_section new_rr,
     rrs_ans_kind := rrs_ans_kind new_rr, rrs_data := rrs_data new_rr, rrs_sig := rrs_sig new_rr \<rparr>"

definition merge_competitors :: "rrset_rec \<Rightarrow> rrset_rec \<Rightarrow> rrset_rec" where
  "merge_competitors old new_rr =
     (if \<not> (rrs_cred old < rrs_cred new_rr \<or>
            rrs_cred old = rrs_cred new_rr \<and> rrs_section old \<le> rrs_section new_rr)
      then exchange old new_rr else old)"

text \<open>The inner loop: the first new set that competes with \<open>old\<close>, and the others.\<close>

fun take_competitor :: "rrset_rec \<Rightarrow> rrset_rec list \<Rightarrow> (rrset_rec \<times> rrset_rec list) option option" where
  "take_competitor old [] = Some None"
| "take_competitor old (n # ns) = do {
     b \<leftarrow> same_rrset old n;
     if b then Some (Some (n, ns))
     else do {
       r \<leftarrow> take_competitor old ns;
       Some (case r of None \<Rightarrow> None | Some (m, ms) \<Rightarrow> Some (m, n # ms))
     }
   }"

fun merge_rrset_recs :: "rrset_rec list \<Rightarrow> rrset_rec list \<Rightarrow> rrset_rec list option" where
  "merge_rrset_recs [] new_info = Some new_info"
| "merge_rrset_recs (old # olds) new_info =
     (if new_info = [] then Some (old # olds)
      else do {
        r \<leftarrow> take_competitor old new_info;
        case r of
          None \<Rightarrow> do { rest \<leftarrow> merge_rrset_recs olds new_info; Some (old # rest) }
        | Some (new_rr, new_info') \<Rightarrow> do {
            rest \<leftarrow> merge_rrset_recs olds new_info';
            Some (merge_competitors old new_rr # rest)
          }
      })"

subsection \<open>Names as keys\<close>

text \<open>
  \<open>canon n\<close> is the canonical wire form of the name a buffer holds. On buffers that hold a name,
  \<open>namecmp\<close> decides equality of canonical forms.
\<close>

definition valid_name :: "byte list \<Rightarrow> bool" where
  "valid_name n \<longleftrightarrow> (\<exists>ls. encodes n ls)"

definition canon :: "byte list \<Rightarrow> byte list" where
  "canon n = (case wire_name_length n of Some k \<Rightarrow> map tolower (take k n) | None \<Rightarrow> [])"

lemma canon_encodes: "encodes n ls \<Longrightarrow> canon n = enc (lower_labels ls)"
  by (auto simp: canon_def map_tolower_enc wf_name_labels elim!: encodesE)

lemma enc_eq_append:
  "list_all wf_label xs \<Longrightarrow> list_all wf_label ys \<Longrightarrow> enc xs @ s = enc ys @ t \<Longrightarrow> xs = ys \<and> s = t"
proof (induction xs arbitrary: ys)
  case Nil
  then show ?case by (cases ys) (auto dest: len_label_ne_0)
next
  case (Cons x xs)
  then obtain y ys' where ys: "ys = y # ys'" by (cases ys) (auto dest: len_label_ne_0)
  have eqs: "(word_of_nat (length x) :: byte) = word_of_nat (length y)"
    "x @ enc xs @ s = y @ enc ys' @ t" using Cons.prems(3) ys by simp_all
  have "unat (word_of_nat (length x) :: byte) = length x" "unat (word_of_nat (length y) :: byte) = length y"
    using Cons.prems(1,2) ys by (auto intro: unat_len_label)
  with eqs(1) have "length x = length y" by metis
  with eqs(2) have "x = y" "enc xs @ s = enc ys' @ t" by simp_all
  with Cons.IH [of ys'] Cons.prems(1,2) ys show ?case by simp
qed

lemma enc_eq_iff: "list_all wf_label xs \<Longrightarrow> list_all wf_label ys \<Longrightarrow> enc xs = enc ys \<longleftrightarrow> xs = ys"
  using enc_eq_append [of xs ys "[]" "[]"] by auto

lemma lower_wf_labels: "list_all wf_label ls \<Longrightarrow> list_all wf_label (lower_labels ls)"
  by (induction ls) (auto simp: wf_label_def)

lemma lower_wf_name: "wf_name ls \<Longrightarrow> wf_name (lower_labels ls)"
  by (simp add: wf_name_def lower_wf_labels)

lemma canon_eq_iff:
  assumes "encodes n1 xs" "encodes n2 ys"
  shows "canon n1 = canon n2 \<longleftrightarrow> cname xs = cname ys"
  using assms
  by (auto simp: canon_encodes enc_eq_iff lower_wf_labels wf_name_labels cname_eq_iff encodes_def)

lemma name_eq_valid:
  assumes "valid_name n1" "valid_name n2"
  shows "name_eq n1 n2 = Some (canon n1 = canon n2)"
proof -
  from assms obtain xs ys where e: "encodes n1 xs" "encodes n2 ys" by (auto simp: valid_name_def)
  then obtain r where "namecmp n1 n2 = Some r" by (rule namecmp_encodes)
  with namecmp_eq_0 [OF e] canon_eq_iff [OF e] show ?thesis by (simp add: name_eq_def)
qed

lemma valid_nameE:
  assumes "valid_name n"
  obtains ls t where "n = enc ls @ t" "wf_name ls"
  using assms by (auto simp: valid_name_def encodes_def)

lemma valid_name_enc [simp]: "wf_name ls \<Longrightarrow> valid_name (enc ls)" "wf_name ls \<Longrightarrow> valid_name (enc ls @ t)"
  by (auto simp: valid_name_def intro: encodes_enc)

lemma valid_name_not_Nil: "valid_name n \<Longrightarrow> n \<noteq> []"
  by (metis encodes_not_Nil valid_name_def)

text \<open>The copy of its first \<open>wire_name_length\<close> bytes is a name again, with the same canonical form.\<close>

lemma copy_name:
  assumes "valid_name n"
  obtains len where "wire_name_length n = Some len" "0 < len" "seg n 0 len = Some (take len n)"
    "valid_name (take len n)" "canon (take len n) = canon n" "wire_name_length (take len n) = Some len"
proof -
  from assms obtain ls t where n: "n = enc ls @ t" "wf_name ls" by (rule valid_nameE)
  have e: "encodes (enc ls) ls" "encodes n ls" using n by auto
  have "canon (enc ls) = canon n" using canon_encodes [OF e(1)] canon_encodes [OF e(2)] by simp
  with n wire_name_length_wf [OF n(2), of "[]"]
  show ?thesis by (intro that [of "length (enc ls)"]) (simp_all add: seg_full length_enc)
qed

text \<open>
  The interface of every search by key in this program: a comparison that does not fault on the
  objects the program keeps and decides equality of their keys.
\<close>

locale keyed =
  fixes eq :: "'a \<Rightarrow> 'b \<Rightarrow> bool option"
    and okA :: "'a \<Rightarrow> bool" and okB :: "'b \<Rightarrow> bool"
    and keyA :: "'a \<Rightarrow> 'k" and keyB :: "'b \<Rightarrow> 'k"
  assumes eq_key: "okA x \<Longrightarrow> okB y \<Longrightarrow> eq x y = Some (keyA x = keyB y)"
begin

lemma eq_total: "okA x \<Longrightarrow> okB y \<Longrightarrow> eq x y \<noteq> None"
  by (simp add: eq_key)

lemma eq_True_iff: "okA x \<Longrightarrow> okB y \<Longrightarrow> eq x y = Some True \<longleftrightarrow> keyA x = keyB y"
  by (simp add: eq_key)

text \<open>Any function with the recursion of a search through a list finds the first object of the key.\<close>

lemma search_list:
  assumes nil: "\<And>x. srch x [] = Some None"
    and cons: "\<And>x y ys. srch x (y # ys) = do { b \<leftarrow> eq x y;
       if b then Some (Some (y, ys))
       else do { r \<leftarrow> srch x ys; Some (case r of None \<Rightarrow> None | Some (m, ms) \<Rightarrow> Some (m, y # ms)) } }"
    and ok: "okA x" "list_all okB ys"
  shows "(keyA x \<notin> keyB ` set ys \<longrightarrow> srch x ys = Some None) \<and>
    (keyA x \<in> keyB ` set ys \<longrightarrow> (\<exists>us m vs. ys = us @ m # vs \<and> keyB m = keyA x \<and>
       keyA x \<notin> keyB ` set us \<and> srch x ys = Some (Some (m, us @ vs))))"
  using ok(2)
proof (induction ys)
  case Nil
  then show ?case by (simp add: nil)
next
  case (Cons y ys)
  show ?case
  proof (cases "keyA x = keyB y")
    case True
    then have "srch x (y # ys) = Some (Some (y, [] @ ys))" "y # ys = [] @ y # ys"
      using Cons.prems ok(1) by (simp_all add: cons eq_key)
    with True show ?thesis by (metis empty_iff image_empty imageI list.set(1) list.set_intros(1))
  next
    case False
    show ?thesis
    proof (cases "keyA x \<in> keyB ` set ys")
      case True
      with Cons obtain us m vs where "ys = us @ m # vs" "keyB m = keyA x" "keyA x \<notin> keyB ` set us"
        "srch x ys = Some (Some (m, us @ vs))" by auto
      with False Cons.prems ok(1) have "srch x (y # ys) = Some (Some (m, (y # us) @ vs))"
        "y # ys = (y # us) @ m # vs" "keyA x \<notin> keyB ` set (y # us)" by (simp_all add: cons eq_key)
      with \<open>keyB m = keyA x\<close> True show ?thesis by (metis image_insert insertI2 list.set(2))
    next
      case f: False
      with Cons False ok(1) show ?thesis by (simp add: cons eq_key)
    qed
  qed
qed

end

interpretation nm: keyed name_eq valid_name valid_name canon canon
  by unfold_locales (rule name_eq_valid)

definition rrset_key :: "rrset_rec \<Rightarrow> u16 \<times> u16 \<times> byte list" where
  "rrset_key rs = (rrs_type_h rs, rrs_class_h rs, canon (rrs_name_n rs))"

definition ok_rrset :: "rrset_rec \<Rightarrow> bool" where
  "ok_rrset rs \<longleftrightarrow> valid_name (rrs_name_n rs)"

lemma same_rrset_key:
  "ok_rrset x \<Longrightarrow> ok_rrset y \<Longrightarrow> same_rrset x y = Some (rrset_key x = rrset_key y)"
  by (auto simp: same_rrset_def rrset_key_def ok_rrset_def nm.eq_key)

interpretation rs: keyed same_rrset ok_rrset ok_rrset rrset_key rrset_key
  by unfold_locales (rule same_rrset_key)

subsection \<open>Canonical insertion\<close>

text \<open>
  The contract of an insertion into a set kept as a sorted list, and what it gives for the loop
  that inserts one element after the other: the sorted list of all keys, whatever their order.
\<close>

locale insertion =
  fixes ins :: "'a list \<Rightarrow> 'a \<Rightarrow> 'a list"
    and key :: "'a \<Rightarrow> 'k::linorder"
  assumes ins_sorted: "sorted_wrt (<) (map key xs) \<Longrightarrow> sorted_wrt (<) (map key (ins xs x))"
    and ins_set: "key ` set (ins xs x) = insert (key x) (key ` set xs)"
begin

lemma foldl_sorted:
  "sorted_wrt (<) (map key acc) \<Longrightarrow> sorted_wrt (<) (map key (foldl ins acc xs))"
  by (induction xs arbitrary: acc) (auto intro: ins_sorted)

lemma foldl_set: "key ` set (foldl ins acc xs) = key ` set xs \<union> key ` set acc"
  by (induction xs arbitrary: acc) (auto simp: ins_set)

lemma foldl_keys:
  "map key (foldl ins [] xs) = sorted_list_of_set (key ` set xs)"
proof -
  have s: "sorted_wrt (<) (map key (foldl ins [] xs))" by (rule foldl_sorted) simp
  have "set (map key (foldl ins [] xs)) = key ` set xs" using foldl_set [of "[]" xs] by simp
  with s show ?thesis
    by (metis List.finite_set sorted_list_of_set.idem_if_sorted_distinct strict_sorted_iff)
qed

lemma foldl_order_irrelevant:
  "key ` set xs = key ` set ys \<Longrightarrow> map key (foldl ins [] xs) = map key (foldl ins [] ys)"
  by (simp add: foldl_keys)

end

text \<open>\<open>link_rr\<close> keeps the canonical record order of RFC 4034 section 6.3 and drops duplicates.\<close>

lemma link_rr_cmp:
  fixes xs ys :: "byte list"
  defines "len \<equiv> if length xs < length ys then length xs else length ys"
  defines "r \<equiv> memcmp (take len xs) (take len ys)"
  shows "r = 0 \<and> length xs = length ys \<longleftrightarrow> xs = ys"
    and "xs \<noteq> ys \<Longrightarrow> 0 < r \<or> r = 0 \<and> len = length ys \<longleftrightarrow> ys < xs"
proof -
  have r: "r = memcmp xs ys" unfolding r_def len_def by (rule memcmp_take) simp
  have s: "sgn (if r \<noteq> 0 then r else int (length xs) - int (length ys)) = ocmp xs ys"
    unfolding r by (rule sgn_memcmp_length)
  show "r = 0 \<and> length xs = length ys \<longleftrightarrow> xs = ys"
    using sgn_eq_ocmpD(1) [OF s] by (auto split: if_splits)
  show "xs \<noteq> ys \<Longrightarrow> 0 < r \<or> r = 0 \<and> len = length ys \<longleftrightarrow> ys < xs"
    using sgn_eq_ocmpD(1,3) [OF s] by (auto simp: len_def split: if_splits)
qed

lemma link_rr_Cons:
  "link_rr (c # cs) cr =
    (if rr_rdata c = rr_rdata cr then (c # cs, -1)
     else if rr_rdata cr < rr_rdata c then (cr # c # cs, 1)
     else (c # fst (link_rr cs cr), snd (link_rr cs cr)))"
  using link_rr_cmp [of "rr_rdata c" "rr_rdata cr"]
  by (simp add: Let_def split_beta del: if_split)

lemma link_rr_set: "rr_rdata ` set (fst (link_rr cs cr)) = insert (rr_rdata cr) (rr_rdata ` set cs)"
  by (induction cs) (auto simp: link_rr_Cons simp del: link_rr.simps(2))

lemma link_rr_sorted:
  "sorted_wrt (<) (map rr_rdata cs) \<Longrightarrow> sorted_wrt (<) (map rr_rdata (fst (link_rr cs cr)))"
proof (induction cs)
  case (Cons c cs)
  then show ?case
    using link_rr_set [of cs cr]
    by (auto simp: link_rr_Cons not_less le_less simp del: link_rr.simps(2))
qed simp

interpretation ln: insertion "\<lambda>cs cr. fst (link_rr cs cr)" rr_rdata
  by unfold_locales (simp_all add: link_rr_sorted link_rr_set)

lemma link_rr_result:
  "sorted_wrt (<) (map rr_rdata cs) \<Longrightarrow>
   snd (link_rr cs cr) = (if rr_rdata cr \<in> rr_rdata ` set cs then -1 else 1)"
proof (induction cs)
  case (Cons c cs)
  then have "\<forall>x\<in>set cs. rr_rdata c < rr_rdata x" by simp
  then have "rr_rdata cr < rr_rdata c \<Longrightarrow> rr_rdata cr \<notin> rr_rdata ` set cs"
    by (metis imageE order.asym)
  with Cons show ?case by (auto simp: link_rr_Cons simp del: link_rr.simps(2))
qed simp

text \<open>The copying loops insert the lowered records one after the other.\<close>

definition lowered :: "u16 \<Rightarrow> bool \<Rightarrow> rrset_rr \<Rightarrow> rrset_rr" where
  "lowered t dolower r = r\<lparr> rr_rdata := (if dolower then the (lower t (rr_rdata r)) else rr_rdata r) \<rparr>"

definition ok_rr :: "u16 \<Rightarrow> bool \<Rightarrow> rrset_rr \<Rightarrow> bool" where
  "ok_rr t dolower r \<longleftrightarrow> rr_rdata r \<noteq> [] \<and> (dolower \<longrightarrow> lower t (rr_rdata r) \<noteq> None)"

lemma copy_rr_rec_ok: "ok_rr t d r \<Longrightarrow> copy_rr_rec t r d = Some (Some (lowered t d r))"
  by (auto simp: copy_rr_rec_def ok_rr_def lowered_def)

lemma copy_rrs_ok:
  "list_all (ok_rr t d) rs \<Longrightarrow>
   copy_rrs t d rs acc = Some (Some (foldl (\<lambda>cs cr. fst (link_rr cs cr)) acc (map (lowered t d) rs)))"
  by (induction rs arbitrary: acc) (auto simp: copy_rr_rec_ok)

text \<open>A record set whose names are names and whose records can be lowered.\<close>

definition wf_rrset :: "rrset_rec \<Rightarrow> bool" where
  "wf_rrset rs \<longleftrightarrow> valid_name (rrs_name_n rs) \<and>
     (rrs_zonecut_n rs = [] \<or> valid_name (rrs_zonecut_n rs)) \<and>
     list_all (ok_rr (rrs_type_h rs) True) (rrs_data rs) \<and>
     list_all (ok_rr (rrs_type_h rs) False) (rrs_sig rs)"

abbreviation rdatas :: "rrset_rr list \<Rightarrow> byte list list" where
  "rdatas \<equiv> map rr_rdata"

definition name_bytes :: "byte list \<Rightarrow> byte list" where
  "name_bytes n = take (the (wire_name_length n)) n"

definition canonical_rrs :: "u16 \<Rightarrow> bool \<Rightarrow> rrset_rr list \<Rightarrow> rrset_rr list" where
  "canonical_rrs t d rs = foldl (\<lambda>cs cr. fst (link_rr cs cr)) [] (map (lowered t d) rs)"

definition canonical_copy :: "rrset_rec \<Rightarrow> rrset_rec" where
  "canonical_copy rs = rs\<lparr> rrs_name_n := name_bytes (rrs_name_n rs),
     rrs_zonecut_n := name_bytes (rrs_zonecut_n rs),
     rrs_ns_options := (if rrs_server rs \<noteq> [] then rrs_ns_options rs else 0),
     rrs_data := canonical_rrs (rrs_type_h rs) True (rrs_data rs),
     rrs_sig := canonical_rrs (rrs_type_h rs) False (rrs_sig rs),
     rrs_cred := SR_CRED_UNSET, rrs_ans_kind := SR_ANS_UNSET \<rparr>"

lemma canonical_rrs_rdatas:
  "rdatas (canonical_rrs t d rs) =
    sorted_list_of_set ((\<lambda>r. if d then the (lower t (rr_rdata r)) else rr_rdata r) ` set rs)"
  by (simp add: canonical_rrs_def ln.foldl_keys image_image lowered_def)

lemma name_bytes_Nil [simp]: "name_bytes [] = []"
  by (simp add: name_bytes_def)

lemma name_bytes_valid:
  assumes "valid_name n"
  shows "canon (name_bytes n) = canon n" "valid_name (name_bytes n)"
  using copy_name [OF assms] unfolding name_bytes_def by (metis option.sel)+

lemma copy_rrset_rec_ok:
  assumes "wf_rrset rs"
  shows "copy_rrset_rec rs = Some (Some (canonical_copy rs))"
proof -
  from assms have v: "valid_name (rrs_name_n rs)" by (simp add: wf_rrset_def)
  obtain len where len: "wire_name_length (rrs_name_n rs) = Some len" "0 < len"
    "seg (rrs_name_n rs) 0 len = Some (name_bytes (rrs_name_n rs))"
    using copy_name [OF v] unfolding name_bytes_def by (metis option.sel)
  obtain zlen where z: "wire_name_length (rrs_zonecut_n rs) = Some zlen" "rrs_zonecut_n rs = [] \<or> zlen \<noteq> 0"
    "seg (rrs_zonecut_n rs) 0 zlen = Some (name_bytes (rrs_zonecut_n rs))"
  proof (cases "rrs_zonecut_n rs = []")
    case True
    then show ?thesis by (intro that [of 0]) (simp_all add: wire_name_length_def seg_def name_bytes_def)
  next
    case False
    with assms have "valid_name (rrs_zonecut_n rs)" by (simp add: wf_rrset_def)
    from copy_name [OF this] that show ?thesis unfolding name_bytes_def by (metis less_irrefl option.sel)
  qed
  from assms have "copy_rrs (rrs_type_h rs) True (rrs_data rs) [] =
      Some (Some (canonical_rrs (rrs_type_h rs) True (rrs_data rs)))"
    "copy_rrs (rrs_type_h rs) False (rrs_sig rs) [] =
      Some (Some (canonical_rrs (rrs_type_h rs) False (rrs_sig rs)))"
    by (simp_all add: copy_rrs_ok wf_rrset_def canonical_rrs_def)
  with z len show ?thesis
    by (cases rs) (auto simp: copy_rrset_rec_def canonical_copy_def)
qed

lemma canonical_copy_key: "wf_rrset rs \<Longrightarrow> rrset_key (canonical_copy rs) = rrset_key rs"
  by (simp add: rrset_key_def canonical_copy_def wf_rrset_def name_bytes_valid)

subsection \<open>Merging\<close>

text \<open>
  The list \<open>merge_rrset_recs\<close> is to build: every old set settles with its competitor, and the new
  sets without a competitor follow.
\<close>

definition merge_spec :: "rrset_rec list \<Rightarrow> rrset_rec list \<Rightarrow> rrset_rec list" where
  "merge_spec dest new_info =
     map (\<lambda>old. case List.find (\<lambda>n. rrset_key n = rrset_key old) new_info of
       None \<Rightarrow> old | Some n \<Rightarrow> merge_competitors old n) dest @
     filter (\<lambda>n. rrset_key n \<notin> rrset_key ` set dest) new_info"

lemmas take_competitor_search = rs.search_list [of take_competitor, OF take_competitor.simps]

lemma find_append: "\<not> (\<exists>x\<in>set us. P x) \<Longrightarrow> List.find P (us @ vs) = List.find P vs"
  by (induction us) auto

lemma find_other:
  "\<not> P m \<Longrightarrow> List.find P (us @ m # vs) = List.find P (us @ vs)"
  by (induction us) auto

lemma find_NoneI: "(\<And>x. x \<in> set xs \<Longrightarrow> \<not> P x) \<Longrightarrow> List.find P xs = None"
  by (induction xs) auto

lemma merge_spec_Nil: "merge_spec dest [] = dest"
  by (simp add: merge_spec_def)

lemma filter_cong_key:
  "k \<notin> f ` set xs \<Longrightarrow> filter (\<lambda>n. f n \<notin> insert k A) xs = filter (\<lambda>n. f n \<notin> A) xs"
  "k \<notin> f ` set xs \<Longrightarrow> filter (\<lambda>n. f n \<noteq> k \<and> f n \<notin> A) xs = filter (\<lambda>n. f n \<notin> A) xs"
  by (induction xs) auto

lemma merge_eq_spec:
  assumes "list_all ok_rrset dest" "list_all ok_rrset new_info"
    and "distinct (map rrset_key dest)" "distinct (map rrset_key new_info)"
  shows "merge_rrset_recs dest new_info = Some (merge_spec dest new_info)"
  using assms
proof (induction dest arbitrary: new_info)
  case Nil
  then show ?case by (simp add: merge_spec_def)
next
  case (Cons old olds)
  have ok: "ok_rrset old" using Cons.prems(1) by simp
  note srch = take_competitor_search [OF ok Cons.prems(2)]
  consider (nil) "new_info = []" | (none) "rrset_key old \<notin> rrset_key ` set new_info"
    | (comp) "new_info \<noteq> []" "rrset_key old \<in> rrset_key ` set new_info" by blast
  then show ?case
  proof cases
    case nil
    then show ?thesis by (simp add: merge_spec_Nil)
  next
    case none
    with srch have t: "take_competitor old new_info = Some None" by simp
    have f: "List.find (\<lambda>n. rrset_key n = rrset_key old) new_info = None"
      using none by (intro find_NoneI) (metis image_eqI)
    have "merge_rrset_recs olds new_info = Some (merge_spec olds new_info)"
      using Cons by simp
    with t f none show ?thesis
      by (cases "new_info = []") (simp_all add: merge_spec_def filter_cong_key)
  next
    case comp
    with srch obtain us m vs where m: "new_info = us @ m # vs" "rrset_key m = rrset_key old"
      "rrset_key old \<notin> rrset_key ` set us" "take_competitor old new_info = Some (Some (m, us @ vs))"
      by auto
    have nvs: "rrset_key old \<notin> rrset_key ` set vs" using Cons.prems(4) m(1,2) by auto
    have f: "List.find (\<lambda>n. rrset_key n = rrset_key old) new_info = Some m"
    proof -
      have "\<not> (\<exists>x\<in>set us. rrset_key x = rrset_key old)" using m(3) by (metis image_eqI)
      then show ?thesis unfolding m(1) by (simp add: find_append m(2))
    qed
    have fo: "List.find (\<lambda>n. rrset_key n = rrset_key ol) new_info =
        List.find (\<lambda>n. rrset_key n = rrset_key ol) (us @ vs)" if "ol \<in> set olds" for ol
      using that Cons.prems(3) m(2) unfolding m(1) by (intro find_other) auto
    have "merge_rrset_recs olds (us @ vs) = Some (merge_spec olds (us @ vs))"
      using Cons.prems m(1) by (intro Cons.IH) auto
    moreover have "filter (\<lambda>n. rrset_key n \<notin> rrset_key ` set (old # olds)) new_info =
        filter (\<lambda>n. rrset_key n \<notin> rrset_key ` set olds) (us @ vs)"
      using m(2,3) nvs unfolding m(1) by (simp add: filter_cong_key)
    ultimately show ?thesis
      using m(4) f comp(1) fo by (auto simp: merge_spec_def)
  qed
qed

lemma merge_competitors_key [simp]: "rrset_key (merge_competitors old n) = rrset_key old"
  by (simp add: merge_competitors_def exchange_def rrset_key_def)

lemma merge_spec_keys:
  "map rrset_key (merge_spec dest new_info) =
    map rrset_key dest @ filter (\<lambda>k. k \<notin> set (map rrset_key dest)) (map rrset_key new_info)"
  by (auto simp: merge_spec_def filter_map comp_def split: option.splits)

lemma merge_spec_distinct:
  "distinct (map rrset_key dest) \<Longrightarrow> distinct (map rrset_key new_info) \<Longrightarrow>
   distinct (map rrset_key (merge_spec dest new_info)) \<and>
   rrset_key ` set (merge_spec dest new_info) = rrset_key ` set dest \<union> rrset_key ` set new_info"
proof -
  assume d: "distinct (map rrset_key dest)" "distinct (map rrset_key new_info)"
  have "distinct (map rrset_key (merge_spec dest new_info))"
    unfolding merge_spec_keys using d by (auto simp: distinct_filter)
  moreover have "set (map rrset_key (merge_spec dest new_info)) = rrset_key ` set dest \<union> rrset_key ` set new_info"
    unfolding merge_spec_keys by auto
  ultimately show ?thesis by simp
qed

text \<open>The set that stays is the more credible one, then the one from the earlier section.\<close>

definition rank_le :: "rrset_rec \<Rightarrow> rrset_rec \<Rightarrow> bool" where
  "rank_le a b \<longleftrightarrow> rrs_cred a < rrs_cred b \<or> rrs_cred a = rrs_cred b \<and> rrs_section a \<le> rrs_section b"

lemma merge_competitors_rank:
  "rank_le (merge_competitors old n) old" "rank_le (merge_competitors old n) n"
  by (auto simp: merge_competitors_def exchange_def rank_le_def)

lemma merge_competitors_data:
  "(rrs_data (merge_competitors old n), rrs_sig (merge_competitors old n)) =
    (if rank_le old n then (rrs_data old, rrs_sig old) else (rrs_data n, rrs_sig n))"
  by (simp add: merge_competitors_def exchange_def rank_le_def)

subsection \<open>The chains\<close>

lemma name_in_qname_chain_canon:
  "list_all valid_name qs \<Longrightarrow> valid_name n \<Longrightarrow> name_in_qname_chain qs n = Some (canon n \<in> canon ` set qs)"
proof (induction qs)
  case (Cons q qs)
  then have "name_eq q n = Some (canon q = canon n)" by (simp add: nm.eq_key)
  then obtain c where "namecmp q n = Some c" "c = 0 \<longleftrightarrow> canon q = canon n"
    by (auto simp: name_eq_def split: bind_splits)
  with Cons valid_name_not_Nil [of n] show ?case by auto
qed simp

lemma name_bytes_seg:
  assumes "valid_name n"
  obtains len where "wire_name_length n = Some len" "0 < len" "seg n 0 len = Some (name_bytes n)"
  using copy_name [OF assms] unfolding name_bytes_def by (metis option.sel)

lemma add_to_qname_chain_ok:
  assumes "valid_name n"
  shows "add_to_qname_chain qs n = Some (VAL_NO_ERROR, name_bytes n # qs)"
proof -
  obtain len where "wire_name_length n = Some len" "seg n 0 len = Some (name_bytes n)"
    using assms by (rule name_bytes_seg)
  with valid_name_not_Nil [OF assms] show ?thesis by (simp add: add_to_qname_chain_def)
qed

definition ok_query :: "query_list \<Rightarrow> bool" where
  "ok_query q \<longleftrightarrow> valid_name (ql_name_n q) \<and> valid_name (ql_zone_n q)"

definition ql_hits :: "byte list \<Rightarrow> byte list \<Rightarrow> query_list \<Rightarrow> bool" where
  "ql_hits n z q \<longleftrightarrow> (z = [] \<or> canon (ql_zone_n q) = canon z) \<and> canon (ql_name_n q) = canon n"

lemma ql_matches_hits:
  "ok_query q \<Longrightarrow> valid_name n \<Longrightarrow> z = [] \<or> valid_name z \<Longrightarrow> ql_matches q n z = Some (ql_hits n z q)"
  by (auto simp: ql_matches_def ql_hits_def ok_query_def nm.eq_key)

text \<open>\<open>register_query\<close> looks at the first \<open>MAX_ALIAS_CHAIN_LENGTH + 1\<close> entries.\<close>

lemma register_walk_eq:
  assumes "list_all ok_query qs" "valid_name n" "z = [] \<or> valid_name z" "count \<le> 10"
  shows "register_walk qs count n z = Some
    (if \<exists>q\<in>set (take (11 - count) qs). ql_hits n z q then ITS_BEEN_DONE
     else if 11 - count < length qs then IT_WONT else IT_HASNT)"
  using assms
proof (induction qs arbitrary: count)
  case (Cons q qs)
  then have m: "ql_matches q n z = Some (ql_hits n z q)" by (simp add: ql_matches_hits)
  obtain k where k: "11 - count = Suc k" "k = 11 - Suc count" using Cons.prems(4) by (cases "11 - count") auto
  show ?case
  proof (cases "count = 10")
    case True
    with k m show ?thesis by (cases qs) auto
  next
    case False
    with Cons k m show ?thesis by simp
  qed
qed simp

lemma zone_root_valid: "valid_name (replicate NS_MAXCDNAME 0)"
proof -
  have "replicate NS_MAXCDNAME (0 :: byte) = enc [] @ replicate 254 0"
    by (simp add: replicate_Suc [symmetric] del: replicate_Suc)
  then show ?thesis by (metis valid_name_enc(2) wf_name_Nil)
qed

definition new_query :: "byte list \<Rightarrow> u16 \<Rightarrow> byte list \<Rightarrow> query_list" where
  "new_query n t z = \<lparr> ql_name_n = name_bytes n,
     ql_zone_n = (if z = [] then replicate NS_MAXCDNAME 0 else name_bytes z), ql_type_h = t \<rparr>"

lemma register_query_eq:
  assumes "list_all ok_query q" "valid_name n" "z = [] \<or> valid_name z"
  shows "register_query q n t z = Some
    (if \<exists>x\<in>set (take 11 q). ql_hits n z x then (ITS_BEEN_DONE, q)
     else if 11 < length q then (IT_WONT, q)
     else (IT_HASNT, q @ [new_query n t z]))"
proof -
  obtain len where n: "wire_name_length n = Some len" "seg n 0 len = Some (name_bytes n)"
    using assms(2) by (rule name_bytes_seg)
  obtain zlen where z: "wire_name_length z = Some zlen"
    "(if z = [] then Some (replicate NS_MAXCDNAME 0) else seg z 0 zlen) = Some (ql_zone_n (new_query n t z))"
  proof (cases "z = []")
    case True
    then show ?thesis by (intro that [of 0]) (simp_all add: wire_name_length_def new_query_def)
  next
    case False
    with assms(3) have "valid_name z" by simp
    then obtain l where "wire_name_length z = Some l" "seg z 0 l = Some (name_bytes z)"
      by (rule name_bytes_seg)
    with False show ?thesis by (intro that) (simp_all add: new_query_def)
  qed
  have "n \<noteq> []" using assms(2) by (rule valid_name_not_Nil)
  moreover have "\<lparr> ql_name_n = name_bytes n, ql_zone_n = ql_zone_n (new_query n t z), ql_type_h = t \<rparr> =
      new_query n t z" by (simp add: new_query_def)
  ultimately show ?thesis
    using register_walk_eq [OF assms, of 0]
    by (simp add: register_query_def n z)
qed

end
