(* ===== verification/Crypto.thy ===== *)
theory Crypto
  imports RRset
begin

section \<open>Keys, digests and signatures\<close>

text \<open>
  \<^verbatim>\<open>libval/val_crypto.c\<close>: what the validator does around the OpenSSL primitives, namely
  taking public keys and signatures apart, choosing the digest, comparing DS digests and hashing
  NSEC3 names. OpenSSL itself is the parameter \<open>openssl\<close>, one field per primitive; a
  \<open>BIGNUM\<close> is the natural number of its bytes.
\<close>

subsection \<open>Parsed record data\<close>

text \<open>The structures of \<^verbatim>\<open>include/validator/validator.h\<close>; the lengths are those of the lists.\<close>

record val_dnskey_rdata =
  flags :: u16
  protocol :: byte
  algorithm :: byte
  public_key :: "byte list"
  key_tag :: u16

record val_rrsig_rdata =
  type_covered :: u16
  sig_algorithm :: byte
  labels :: byte
  orig_ttl :: u32
  sig_expr :: u32
  sig_incp :: u32
  sig_key_tag :: u16
  signer_name :: "byte list"
  signature :: "byte list"

record val_ds_rdata =
  d_keytag :: u16
  d_algo :: byte
  d_type :: byte
  d_hash :: "byte list"

abbreviation ALG_RSAMD5 :: byte where "ALG_RSAMD5 \<equiv> 1"
abbreviation ALG_DSASHA1 :: byte where "ALG_DSASHA1 \<equiv> 3"
abbreviation ALG_RSASHA1 :: byte where "ALG_RSASHA1 \<equiv> 5"
abbreviation ALG_NSEC3_DSASHA1 :: byte where "ALG_NSEC3_DSASHA1 \<equiv> 6"
abbreviation ALG_NSEC3_RSASHA1 :: byte where "ALG_NSEC3_RSASHA1 \<equiv> 7"
abbreviation ALG_RSASHA256 :: byte where "ALG_RSASHA256 \<equiv> 8"
abbreviation ALG_RSASHA512 :: byte where "ALG_RSASHA512 \<equiv> 10"
abbreviation ALG_ECDSAP256SHA256 :: byte where "ALG_ECDSAP256SHA256 \<equiv> 13"
abbreviation ALG_ECDSAP384SHA384 :: byte where "ALG_ECDSAP384SHA384 \<equiv> 14"

abbreviation VAL_AC_INVALID_RRSIG :: u16 where "VAL_AC_INVALID_RRSIG \<equiv> 20"
abbreviation VAL_AC_RRSIG_VERIFY_FAILED :: u16 where "VAL_AC_RRSIG_VERIFY_FAILED \<equiv> 23"
abbreviation VAL_AC_INVALID_KEY :: u16 where "VAL_AC_INVALID_KEY \<equiv> 28"
abbreviation VAL_AC_RRSIG_VERIFIED :: u16 where "VAL_AC_RRSIG_VERIFIED \<equiv> 32"

subsection \<open>The primitives\<close>

datatype digest = MD5 | SHA1 | SHA256 | SHA384 | SHA512

datatype curve = P256 | P384

record openssl =
  evp :: "digest \<Rightarrow> byte list \<Rightarrow> byte list"
  RSA_verify :: "digest \<Rightarrow> byte list \<Rightarrow> byte list \<Rightarrow> nat \<Rightarrow> nat \<Rightarrow> bool"
  DSA_verify :: "byte list \<Rightarrow> byte list \<Rightarrow> nat \<Rightarrow> nat \<Rightarrow> nat \<Rightarrow> nat \<Rightarrow> bool"
  EC_KEY_set :: "curve \<Rightarrow> nat \<Rightarrow> nat \<Rightarrow> bool"
  ECDSA_verify :: "curve \<Rightarrow> byte list \<Rightarrow> nat \<Rightarrow> nat \<Rightarrow> nat \<Rightarrow> nat \<Rightarrow> bool"
  BIO_base64 :: "byte list \<Rightarrow> byte list option"

definition digest_length :: "digest \<Rightarrow> nat" where
  "digest_length d = (case d of MD5 \<Rightarrow> 16 | SHA1 \<Rightarrow> 20 | SHA256 \<Rightarrow> 32 | SHA384 \<Rightarrow> 48 | SHA512 \<Rightarrow> 64)"

text \<open>The documented length of each digest.\<close>

definition digests_sized :: "openssl \<Rightarrow> bool" where
  "digests_sized C \<longleftrightarrow> (\<forall>d x. length (evp C d x) = digest_length d)"

definition BN_bin2bn :: "byte list \<Rightarrow> nat" where
  "BN_bin2bn xs = foldl (\<lambda>n b. 256 * n + unat b) 0 xs"

fun BN_bn2bin :: "nat \<Rightarrow> byte list" where
  "BN_bn2bin n = (if n = 0 then [] else BN_bn2bin (n div 256) @ [word_of_nat n])"

declare BN_bn2bin.simps [simp del]

subsection \<open>Public keys\<close>

text \<open>The exponent and the modulus of an RSA key, RFC 3110; the inner \<open>None\<close> is \<open>VAL_BAD_ARGUMENT\<close>.\<close>

definition rsa_exponent_length :: "byte list \<Rightarrow> (nat \<times> nat) option option" where
  "rsa_exponent_length buf = do {
     b \<leftarrow> rd buf 0;
     if b = 0 then
       (if length buf < 3 then Some None else do { e \<leftarrow> get16 buf 1; Some (Some (unat e, 3)) })
     else Some (Some (unat b, 1))
   }"

definition rsa_parse_public_key :: "byte list \<Rightarrow> (nat \<times> nat) option option" where
  "rsa_parse_public_key buf =
     (if buf = [] then Some None
      else do {
        h \<leftarrow> rsa_exponent_length buf;
        case h of None \<Rightarrow> Some None
        | Some (exp_len, index) \<Rightarrow>
            if length buf < index + exp_len then Some None
            else do {
              e \<leftarrow> seg buf index exp_len;
              if length buf \<le> index + exp_len then Some None
              else do {
                m \<leftarrow> seg buf (index + exp_len) (length buf - (index + exp_len));
                Some (Some (BN_bin2bn e, BN_bin2bn m))
              }
            }
      })"

definition rsamd5_parse_public_key :: "byte list \<Rightarrow> (nat \<times> nat) option option" where
  "rsamd5_parse_public_key buf =
     (if buf = [] then Some None
      else do {
        h \<leftarrow> rsa_exponent_length buf;
        case h of None \<Rightarrow> Some None
        | Some (exp_len, index) \<Rightarrow>
            if length buf - index < exp_len then Some None
            else do {
              e \<leftarrow> seg buf index exp_len;
              if length buf \<le> index + exp_len then Some None
              else do {
                m \<leftarrow> seg buf (index + exp_len) (length buf - (index + exp_len));
                Some (Some (BN_bin2bn e, BN_bin2bn m))
              }
            }
      })"

text \<open>\<open>VAL_BAD_ARGUMENT\<close> (-3) leaves \<open>rsamd5_keytag\<close> as if it were a key tag.\<close>

definition rsamd5_keytag :: "byte list \<Rightarrow> u16 option" where
  "rsamd5_keytag pubkey = do {
     k \<leftarrow> rsamd5_parse_public_key pubkey;
     case k of None \<Rightarrow> Some (word_of_int (-3))
     | Some (_, modulus) \<Rightarrow> do {
         let modulus_bin = BN_bn2bin modulus;
         if length modulus_bin < 3 then None
         else do {
           a \<leftarrow> rd modulus_bin (length modulus_bin - 3);
           b \<leftarrow> rd modulus_bin (length modulus_bin - 2);
           Some (be16 a b)
         }
       }
   }"

text \<open>\<open>(p, q, g, y)\<close> of a DSA key, RFC 2536.\<close>

definition dsasha1_parse_public_key :: "byte list \<Rightarrow> (nat \<times> nat \<times> nat \<times> nat) option option" where
  "dsasha1_parse_public_key buf =
     (if buf = [] then Some None
      else do {
        T \<leftarrow> rd buf 0;
        let n = 64 + unat T * 8;
        if length buf < 1 + 20 then Some None
        else do {
          q \<leftarrow> seg buf 1 20;
          if length buf < 21 + n then Some None
          else do {
            p \<leftarrow> seg buf 21 n;
            if length buf < 21 + n + n then Some None
            else do {
              g \<leftarrow> seg buf (21 + n) n;
              if length buf < 21 + n + n + n then Some None
              else do {
                y \<leftarrow> seg buf (21 + n + n) n;
                Some (Some (BN_bin2bn p, BN_bin2bn q, BN_bin2bn g, BN_bin2bn y))
              }
            }
          }
        }
      })"

subsection \<open>Signatures\<close>

text \<open>Each routine takes and answers the pair of \<open>*key_status\<close> and \<open>*sig_status\<close>.\<close>

definition rsamd5_sigverify :: "openssl \<Rightarrow> byte list \<Rightarrow> val_dnskey_rdata \<Rightarrow> val_rrsig_rdata \<Rightarrow>
    u16 \<times> u16 \<Rightarrow> (u16 \<times> u16) option" where
  "rsamd5_sigverify C data dnskey rrsig st = do {
     k \<leftarrow> rsamd5_parse_public_key (public_key dnskey);
     case k of None \<Rightarrow> Some (VAL_AC_INVALID_KEY, snd st)
     | Some (e, n) \<Rightarrow>
         Some (fst st, if RSA_verify C MD5 (evp C MD5 data) (signature rrsig) n e
           then VAL_AC_RRSIG_VERIFIED else VAL_AC_RRSIG_VERIFY_FAILED)
   }"

definition rsasha_digest :: "byte \<Rightarrow> digest option" where
  "rsasha_digest alg =
     (if alg = ALG_RSASHA1 \<or> alg = ALG_NSEC3_RSASHA1 then Some SHA1
      else if alg = ALG_RSASHA256 then Some SHA256
      else if alg = ALG_RSASHA512 then Some SHA512
      else None)"

definition rsasha_sigverify :: "openssl \<Rightarrow> byte list \<Rightarrow> val_dnskey_rdata \<Rightarrow> val_rrsig_rdata \<Rightarrow>
    u16 \<times> u16 \<Rightarrow> (u16 \<times> u16) option" where
  "rsasha_sigverify C data dnskey rrsig st = do {
     k \<leftarrow> rsa_parse_public_key (public_key dnskey);
     case k of None \<Rightarrow> Some (VAL_AC_INVALID_KEY, snd st)
     | Some (e, n) \<Rightarrow> (case rsasha_digest (sig_algorithm rrsig) of
         None \<Rightarrow> Some (VAL_AC_INVALID_KEY, snd st)
       | Some d \<Rightarrow>
           Some (fst st, if RSA_verify C d (evp C d data) (signature rrsig) n e
             then VAL_AC_RRSIG_VERIFIED else VAL_AC_RRSIG_VERIFY_FAILED))
   }"

definition dsasha1_sigverify :: "openssl \<Rightarrow> byte list \<Rightarrow> val_dnskey_rdata \<Rightarrow> val_rrsig_rdata \<Rightarrow>
    u16 \<times> u16 \<Rightarrow> (u16 \<times> u16) option" where
  "dsasha1_sigverify C data dnskey rrsig st = do {
     k \<leftarrow> dsasha1_parse_public_key (public_key dnskey);
     case k of None \<Rightarrow> Some (VAL_AC_INVALID_KEY, snd st)
     | Some (p, q, g, y) \<Rightarrow>
         if length (signature rrsig) < 1 + 2 * 20 then Some (fst st, VAL_AC_INVALID_RRSIG)
         else do {
           r \<leftarrow> seg (signature rrsig) 1 20;
           s \<leftarrow> seg (signature rrsig) 21 20;
           let sig_asn1 = [0x30, 0x2E, 0x02, 0x15, 0x00] @ r @ [0x02, 0x15, 0x00] @ s;
           Some (fst st, if DSA_verify C (evp C SHA1 data) sig_asn1 p q g y
             then VAL_AC_RRSIG_VERIFIED else VAL_AC_RRSIG_VERIFY_FAILED)
         }
   }"

definition ecdsa_sigverify :: "openssl \<Rightarrow> byte list \<Rightarrow> val_dnskey_rdata \<Rightarrow> val_rrsig_rdata \<Rightarrow>
    u16 \<times> u16 \<Rightarrow> (u16 \<times> u16) option" where
  "ecdsa_sigverify C data dnskey rrsig st =
     (let params = (if sig_algorithm rrsig = ALG_ECDSAP256SHA256 then Some (P256, SHA256)
          else if sig_algorithm rrsig = ALG_ECDSAP384SHA384 then Some (P384, SHA384) else None) in
      case params of None \<Rightarrow> Some (VAL_AC_INVALID_KEY, snd st)
      | Some (crv, d) \<Rightarrow>
          let hashlen = digest_length d in
          if length (public_key dnskey) \<noteq> 2 * hashlen then Some (VAL_AC_INVALID_KEY, snd st)
          else do {
            x \<leftarrow> seg (public_key dnskey) 0 hashlen;
            y \<leftarrow> seg (public_key dnskey) hashlen hashlen;
            if \<not> EC_KEY_set C crv (BN_bin2bn x) (BN_bin2bn y) then Some (VAL_AC_INVALID_KEY, snd st)
            else if length (signature rrsig) \<noteq> 2 * hashlen then Some (fst st, VAL_AC_RRSIG_VERIFY_FAILED)
            else do {
              r \<leftarrow> seg (signature rrsig) 0 hashlen;
              s \<leftarrow> seg (signature rrsig) hashlen hashlen;
              Some (fst st, if ECDSA_verify C crv (evp C d data) (BN_bin2bn r) (BN_bin2bn s)
                  (BN_bin2bn x) (BN_bin2bn y)
                then VAL_AC_RRSIG_VERIFIED else VAL_AC_RRSIG_VERIFY_FAILED)
            }
          })"

subsection \<open>Digests of names\<close>

text \<open>
  The lowered copy of a name that the digest routines make; the copy is as long as
  \<open>wire_name_length\<close> says.
\<close>

definition lowered_copy :: "byte list \<Rightarrow> byte list option" where
  "lowered_copy name_n = do {
     namelen \<leftarrow> wire_name_length name_n;
     name \<leftarrow> seg name_n 0 namelen;
     (lowered, _) \<leftarrow> lower_name name 0;
     Some lowered
   }"

definition ds_digest_is_equal :: "openssl \<Rightarrow> digest \<Rightarrow> byte list \<Rightarrow> byte list \<Rightarrow> byte list \<Rightarrow> bool option" where
  "ds_digest_is_equal C d name_n rrdata ds_hash =
     (if rrdata = [] \<or> length ds_hash \<noteq> digest_length d then Some False
      else do {
        qc_name_n \<leftarrow> lowered_copy name_n;
        Some (evp C d (qc_name_n @ rrdata) = ds_hash)
      })"

definition ds_sha_hash_is_equal where "ds_sha_hash_is_equal C = ds_digest_is_equal C SHA1"
definition ds_sha256_hash_is_equal where "ds_sha256_hash_is_equal C = ds_digest_is_equal C SHA256"
definition ds_sha384_hash_is_equal where "ds_sha384_hash_is_equal C = ds_digest_is_equal C SHA384"

fun nsec3_iterate :: "openssl \<Rightarrow> byte list \<Rightarrow> nat \<Rightarrow> byte list \<Rightarrow> byte list" where
  "nsec3_iterate C salt 0 hash = hash"
| "nsec3_iterate C salt (Suc i) hash = nsec3_iterate C salt i (evp C SHA1 (hash @ salt))"

definition nsec3_sha_hash_compute :: "openssl \<Rightarrow> byte list \<Rightarrow> byte list \<Rightarrow> nat \<Rightarrow> byte list option" where
  "nsec3_sha_hash_compute C name_n salt iter = do {
     qc_name_n \<leftarrow> lowered_copy name_n;
     len \<leftarrow> wire_name_length qc_name_n;
     name \<leftarrow> seg qc_name_n 0 len;
     Some (nsec3_iterate C salt iter (evp C SHA1 (name @ salt)))
   }"

subsection \<open>What these routines compute\<close>

lemma lowered_copy_canon:
  assumes "valid_name n"
  shows "lowered_copy n = Some (canon n)"
proof -
  from assms obtain ls t where n: "n = enc ls @ t" "wf_name ls" by (rule valid_nameE)
  have "encodes n ls" using n by simp
  then have "canon n = enc (lower_labels ls)" by (rule canon_encodes)
  with n lower_name_enc [OF n(2), of "[]" "[]"] show ?thesis
    by (simp add: lowered_copy_def seg_full)
qed

lemma canon_idem:
  assumes "valid_name n"
  shows "valid_name (canon n)" "canon (canon n) = canon n" "wire_name_length (canon n) = Some (length (canon n))"
proof -
  from assms obtain ls t where n: "n = enc ls @ t" "wf_name ls" by (rule valid_nameE)
  have "encodes n ls" using n by simp
  then have c: "canon n = enc (lower_labels ls)" by (rule canon_encodes)
  have wf: "wf_name (lower_labels ls)" using n(2) by (rule lower_wf_name)
  have idem: "tolower (tolower b) = tolower b" for b
    by (auto simp: tolower_def word_le_nat_alt unat_plus_if_size word_size)
  from wf show "valid_name (canon n)" by (simp add: c)
  show "canon (canon n) = canon n"
    using canon_encodes [of "enc (lower_labels ls)" "lower_labels ls"] wf
    by (simp add: c comp_def idem)
  show "wire_name_length (canon n) = Some (length (canon n))"
    using wire_name_length_wf [OF wf, of "[]"] by (simp add: c)
qed

lemma ds_digest_is_equal_iff:
  assumes "valid_name n" "rrdata \<noteq> []" "digests_sized C"
  shows "ds_digest_is_equal C d n rrdata h = Some (h = evp C d (canon n @ rrdata))"
  using assms by (auto simp: ds_digest_is_equal_def lowered_copy_canon digests_sized_def)

lemma nsec3_iterate_funpow:
  "nsec3_iterate C salt k h = ((\<lambda>x. evp C SHA1 (x @ salt)) ^^ k) h"
proof (induction k arbitrary: h)
  case (Suc k)
  then show ?case using funpow_swap1 [of "\<lambda>x. evp C SHA1 (x @ salt)" k h] by simp
qed simp

lemma nsec3_sha_hash_compute_eq:
  assumes "valid_name n"
  shows "nsec3_sha_hash_compute C n salt iter =
    Some (((\<lambda>x. evp C SHA1 (x @ salt)) ^^ (iter + 1)) (canon n))"
  using canon_idem [OF assms] funpow_swap1 [of "\<lambda>x. evp C SHA1 (x @ salt)" iter "canon n"]
  by (simp add: nsec3_sha_hash_compute_def lowered_copy_canon [OF assms] nsec3_iterate_funpow
      seg_full)

text \<open>An RSA key in the format of RFC 3110, with the short or the long exponent length.\<close>

definition rsa_key_bytes :: "byte list \<Rightarrow> byte list \<Rightarrow> byte list" where
  "rsa_key_bytes e m = (if 0 < length e \<and> length e < 256 then [word_of_nat (length e)]
     else 0 # put16 (word_of_nat (length e))) @ e @ m"

lemma rsa_exponent_length_key:
  assumes "length e < 65536" "m \<noteq> []"
  shows "rsa_exponent_length (rsa_key_bytes e m) =
    Some (Some (length e, length (rsa_key_bytes e m) - length e - length m))"
proof (cases "0 < length e \<and> length e < 256")
  case True
  then have "unat (word_of_nat (length e) :: byte) = length e" by (simp add: unat_of_nat)
  moreover from this True have "(word_of_nat (length e) :: byte) \<noteq> 0" by force
  ultimately show ?thesis using True by (simp add: rsa_exponent_length_def rsa_key_bytes_def)
next
  case False
  then show ?thesis
    using assms get16_at [of 1 "[0]" "word_of_nat (length e)" "e @ m"]
    by (cases m) (auto simp: rsa_exponent_length_def rsa_key_bytes_def)
qed

lemma rsa_parse_key:
  assumes "length e < 65536" "m \<noteq> []"
  shows "rsa_parse_public_key (rsa_key_bytes e m) = Some (Some (BN_bin2bn e, BN_bin2bn m))"
proof -
  let ?h = "if 0 < length e \<and> length e < 256 then [word_of_nat (length e)]
     else 0 # put16 (word_of_nat (length e))"
  have b: "rsa_key_bytes e m = ?h @ e @ m" by (simp only: rsa_key_bytes_def)
  define h :: "byte list" where "h = ?h"
  have bh: "rsa_key_bytes e m = h @ e @ m" using b by (simp only: h_def)
  have "seg (h @ e @ m) (length h) (length e) = Some e" by (rule seg_append)
  moreover have "seg (h @ e @ m) (length h + length e) (length m) = Some m"
    using seg_append [of "h @ e" m "[]"] by simp
  moreover have "rsa_exponent_length (h @ e @ m) = Some (Some (length e, length h))"
    using rsa_exponent_length_key [OF assms] unfolding bh by simp
  ultimately show ?thesis unfolding bh using assms(2) by (simp add: rsa_parse_public_key_def)
qed

text \<open>Both parsers of RSA keys are the same function, and neither reads past its buffer.\<close>

lemma rsa_exponent_length_cases:
  "buf \<noteq> [] \<Longrightarrow> \<exists>h. rsa_exponent_length buf = Some h \<and> (\<forall>e i. h = Some (e, i) \<longrightarrow> i \<le> length buf)"
  by (cases buf) (auto simp: rsa_exponent_length_def get16_def rd_def split: bind_splits)

lemma rsa_parsers_agree: "rsamd5_parse_public_key buf = rsa_parse_public_key buf"
proof (cases "buf = []")
  case False
  then obtain h where h: "rsa_exponent_length buf = Some h" "\<forall>e i. h = Some (e, i) \<longrightarrow> i \<le> length buf"
    using rsa_exponent_length_cases by blast
  then have "length buf - i < e \<longleftrightarrow> length buf < i + e" if "h = Some (e, i)" for e i
    using that by auto
  with h(1) show ?thesis
    by (auto simp: rsamd5_parse_public_key_def rsa_parse_public_key_def split: option.splits)
qed (simp add: rsamd5_parse_public_key_def rsa_parse_public_key_def)

lemma rsa_parse_safe: "rsa_parse_public_key buf \<noteq> None"
  using rsa_exponent_length_cases [of buf]
  by (auto simp: rsa_parse_public_key_def seg_def split: option.splits)

end
