(* ===== verification/Parse.thy ===== *)
theory Parse
  imports Crypto
begin

section \<open>Parsing record data\<close>

text \<open>
  \<^verbatim>\<open>libval/val_parse.c\<close> and \<open>base32hex_encode\<close> of \<^verbatim>\<open>libval/val_support.c\<close>: key
  tags, DNSKEY, RRSIG, DS and NSEC3 record data, and the textual forms of DNSKEY and DS records
  that configuration files hold.
\<close>

subsection \<open>Key tags\<close>

fun keytag_loop :: "byte list \<Rightarrow> nat \<Rightarrow> u32 \<Rightarrow> u32" where
  "keytag_loop [] i ac = ac"
| "keytag_loop (b # bs) i ac =
     keytag_loop bs (i + 1) (ac + (if odd i then ucast b else push_bit 8 (ucast b)))"

definition keytag :: "byte list \<Rightarrow> u16" where
  "keytag key = (let ac = keytag_loop key 0 0; ac' = ac + (drop_bit 16 ac AND 0xFFFF) in
     ucast (ac' AND 0xFFFF))"

subsection \<open>Names in signatures\<close>

text \<open>
  \<open>val_parse_dname\<close> follows compression pointers without a bound, so its loop is a partial
  function: \<open>None\<close> stands for a fault as well as for a call that never returns. \<open>cap\<close> is the
  size of the array \<open>dname\<close>.
\<close>

partial_function (option) dname_loop :: "byte list \<Rightarrow> nat \<Rightarrow> nat \<Rightarrow> nat \<Rightarrow> nat \<Rightarrow> bool \<Rightarrow> byte list \<Rightarrow>
    (nat \<times> byte list) option" where
  "dname_loop buf buflen cap newoffset count compressed dname =
     (if newoffset < buflen then do {
        b \<leftarrow> rd buf newoffset;
        if b = 0 then Some (count, dname)
        else if b AND 0xc0 = 0xc0 then do {
          c \<leftarrow> rd buf (newoffset + 1);
          dname_loop buf buflen cap (256 * unat (b AND 0x3f) + unat c)
            (if compressed then count else count + 1) True dname
        }
        else do {
          bs \<leftarrow> seg buf (newoffset + 1) (min (unat b) (buflen - (newoffset + 1)));
          dname1 \<leftarrow> emit cap dname (bs @ [0x2e]);
          _ \<leftarrow> emit cap dname1 [0];
          dname_loop buf buflen cap (newoffset + unat b + 1)
            (if compressed then count else count + (unat b + 1)) compressed dname1
        }
      } else Some (count, dname))"

declare dname_loop.simps [code]

definition val_parse_dname :: "byte list \<Rightarrow> nat \<Rightarrow> nat \<Rightarrow> nat \<Rightarrow> (val_ret + byte list \<times> nat) option" where
  "val_parse_dname buf buflen offset cap =
     (if buf = [] \<or> buflen < offset then Some (Inl VAL_BAD_ARGUMENT)
      else do {
        _ \<leftarrow> emit cap [] [0];
        (count, dname) \<leftarrow> dname_loop buf buflen cap offset 0 False [];
        Some (Inr (dname, count + 1))
      })"

subsection \<open>Record data\<close>

definition val_parse_dnskey_rdata :: "byte list \<Rightarrow> (val_ret + val_dnskey_rdata) option" where
  "val_parse_dnskey_rdata buf =
     (if length buf < 4 then Some (Inl VAL_BAD_ARGUMENT)
      else do {
        fl \<leftarrow> get16 buf 0;
        prot \<leftarrow> rd buf 2;
        alg \<leftarrow> rd buf 3;
        key \<leftarrow> seg buf 4 (length buf - 4);
        tag \<leftarrow> (if alg = ALG_RSAMD5 then rsamd5_keytag buf else Some (keytag buf));
        Some (Inr \<lparr> flags = fl, protocol = prot, algorithm = alg, public_key = key, key_tag = tag \<rparr>)
      })"

definition val_parse_rrsig_rdata :: "byte list \<Rightarrow> (val_ret + val_rrsig_rdata) option" where
  "val_parse_rrsig_rdata buf =
     (if length buf < 18 then Some (Inl VAL_BAD_ARGUMENT)
      else do {
        covered \<leftarrow> get16 buf 0;
        alg \<leftarrow> rd buf 2;
        labs \<leftarrow> rd buf 3;
        ttl \<leftarrow> get32 buf 4;
        expr \<leftarrow> get32 buf 8;
        incp \<leftarrow> get32 buf 12;
        tag \<leftarrow> get16 buf 16;
        r \<leftarrow> val_parse_dname buf (length buf) 18 256;
        case r of Inl e \<Rightarrow> Some (Inl e)
        | Inr (name, namelen) \<Rightarrow> do {
            let index = 18 + namelen;
            sig \<leftarrow> (if index < length buf then seg buf index (length buf - index) else Some []);
            Some (Inr \<lparr> type_covered = covered, sig_algorithm = alg, labels = labs, orig_ttl = ttl,
              sig_expr = expr, sig_incp = incp, sig_key_tag = tag, signer_name = name, signature = sig \<rparr>)
          }
      })"

abbreviation ALG_DS_HASH_SHA1 :: byte where "ALG_DS_HASH_SHA1 \<equiv> 1"
abbreviation ALG_DS_HASH_SHA256 :: byte where "ALG_DS_HASH_SHA256 \<equiv> 2"
abbreviation ALG_DS_HASH_SHA384 :: byte where "ALG_DS_HASH_SHA384 \<equiv> 4"

definition val_parse_ds_rdata :: "byte list \<Rightarrow> (val_ret + val_ds_rdata) option" where
  "val_parse_ds_rdata buf =
     (if length buf < 4 then Some (Inl VAL_BAD_ARGUMENT)
      else do {
        tag \<leftarrow> get16 buf 0;
        alg \<leftarrow> rd buf 2;
        typ \<leftarrow> rd buf 3;
        let hash_len = (if typ = ALG_DS_HASH_SHA1 then Some (digest_length SHA1)
          else if typ = ALG_DS_HASH_SHA256 then Some (digest_length SHA256) else None);
        case hash_len of None \<Rightarrow> Some (Inl VAL_NOT_IMPLEMENTED)
        | Some n \<Rightarrow>
            if length buf < 4 + n then Some (Inl VAL_BAD_ARGUMENT)
            else do {
              h \<leftarrow> seg buf 4 n;
              Some (Inr \<lparr> d_keytag = tag, d_algo = alg, d_type = typ, d_hash = h \<rparr>)
            }
      })"

subsection \<open>Base 32\<close>

definition base32hex :: "byte list" where
  "base32hex = map (\<lambda>i. word_of_nat (0x30 + i)) [0..<10] @ map (\<lambda>i. word_of_nat (0x41 + i)) [0..<22]"

definition base32_char :: "byte \<Rightarrow> byte" where
  "base32_char b = tolower (base32hex ! unat b)"

text \<open>The eight characters of forty bits; a short last group is padded with zeros.\<close>

definition base32_group :: "byte list \<Rightarrow> byte list" where
  "base32_group buf = map base32_char
     [drop_bit 3 (buf ! 0 AND 0xf8),
      push_bit 2 (buf ! 0 AND 0x07) OR drop_bit 6 (buf ! 1 AND 0xc0),
      drop_bit 1 (buf ! 1 AND 0x3e),
      push_bit 4 (buf ! 1 AND 0x01) OR drop_bit 4 (buf ! 2 AND 0xf0),
      push_bit 1 (buf ! 2 AND 0x0f) OR drop_bit 7 (buf ! 3 AND 0x80),
      drop_bit 2 (buf ! 3 AND 0x7c),
      push_bit 3 (buf ! 3 AND 0x03) OR drop_bit 5 (buf ! 4 AND 0xe0),
      buf ! 4 AND 0x1f]"

function base32_loop :: "byte list \<Rightarrow> nat \<Rightarrow> byte list \<Rightarrow> byte list option" where
  "base32_loop inp cap out =
     (if inp = [] then Some out
      else do {
        let buf = (if length inp < 5 then inp @ replicate (5 - length inp) 0 else take 5 inp);
        out' \<leftarrow> emit cap out (base32_group buf);
        base32_loop (drop 5 inp) cap out'
      })"
  by pat_completeness auto
termination by (relation "measure (\<lambda>(inp, cap, out). length inp)") auto

declare base32_loop.simps [simp del]

definition base32hex_outlen :: "nat \<Rightarrow> nat" where
  "base32hex_outlen inlen =
     (let rem = inlen mod 5; extra = (if rem \<noteq> 0 then 40 - rem else 0) in
      inlen + (inlen * 8 + extra) div 40 * 3)"

text \<open>The encoding and \<open>*outlen\<close>; the buffer is cleared before the loop fills its front.\<close>

definition base32hex_encode :: "byte list \<Rightarrow> byte list option" where
  "base32hex_encode inp =
     (if inp = [] then Some []
      else do {
        out \<leftarrow> base32_loop inp (base32hex_outlen (length inp)) [];
        Some (out @ replicate (base32hex_outlen (length inp) - length out) 0)
      })"

subsection \<open>NSEC3\<close>

record val_nsec3_rdata =
  n3_alg :: byte
  n3_flags :: byte
  n3_iterations :: u16
  n3_salt :: "byte list"
  n3_nexthash :: "byte list"
  n3_nexthashlen :: byte
  n3_bit_field :: u16

text \<open>The inner \<open>None\<close> is the null result. \<open>nexthashlen\<close> keeps eight bits of the length.\<close>

definition val_parse_nsec3_rdata :: "byte list \<Rightarrow> val_nsec3_rdata option option" where
  "val_parse_nsec3_rdata nbuf =
     (if length nbuf < 5 then Some None
      else do {
        alg \<leftarrow> rd nbuf 0;
        fl \<leftarrow> rd nbuf 1;
        iter \<leftarrow> get16 nbuf 2;
        saltlen \<leftarrow> rd nbuf 4;
        if length nbuf \<le> 5 then Some None
        else if length nbuf \<le> 5 + unat saltlen then Some None
        else do {
          salt \<leftarrow> seg nbuf 5 (unat saltlen);
          let cp = 5 + unat saltlen;
          nexthashlen \<leftarrow> rd nbuf cp;
          if length nbuf \<le> cp + 1 then Some None
          else if length nbuf < cp + 1 + unat nexthashlen then Some None
          else do {
            nexthash \<leftarrow> seg nbuf (cp + 1) (unat nexthashlen);
            enc32 \<leftarrow> base32hex_encode nexthash;
            let n = (word_of_nat (length enc32) :: byte);
            if unat n < length enc32 then Some None
            else do {
              let cp' = cp + 1 + unat nexthashlen;
              Some (Some \<lparr> n3_alg = alg, n3_flags = fl, n3_iterations = iter, n3_salt = salt,
                n3_nexthash = enc32, n3_nexthashlen = n,
                n3_bit_field = (if cp' = length nbuf then 0 else word_of_nat cp') \<rparr>)
            }
          }
        }
      })"

subsection \<open>Text\<close>

definition isspace :: "byte \<Rightarrow> bool" where
  "isspace c \<longleftrightarrow> c = 0x20 \<or> (0x09 \<le> c \<and> c \<le> 0x0d)"

text \<open>\<open>strtol\<close> on a word: an optional sign, then digits of the base, clamped to a \<open>long\<close>.\<close>

definition strtol :: "int \<Rightarrow> byte list \<Rightarrow> int" where
  "strtol base s =
     (let neg = (case s of c # _ \<Rightarrow> c = 0x2d | [] \<Rightarrow> False);
          s' = (case s of c # r \<Rightarrow> if c = 0x2d \<or> c = 0x2b then r else s | [] \<Rightarrow> s);
          v = foldl (\<lambda>v c. base * v + digitvalue c) 0
                (takeWhile (\<lambda>c. 0 \<le> digitvalue c \<and> digitvalue c < base) s') in
      if neg then max (- (2 ^ 63)) (- v) else min (2 ^ 63 - 1) v)"

abbreviation TOKEN_SIZE :: nat where "TOKEN_SIZE \<equiv> 1025"

text \<open>
  The macro \<open>TOK_IN_STR\<close> on what is left of the string; the inner \<open>None\<close> is its return of
  \<open>VAL_BAD_ARGUMENT\<close>. It stores the final zero behind the characters it took, which may be as many
  as the array holds.
\<close>

definition tok_in_str :: "byte list \<Rightarrow> (byte list \<times> byte list) option option" where
  "tok_in_str s =
     (let s1 = dropWhile isspace s in
      if s1 = [] then Some None
      else let token = take TOKEN_SIZE (takeWhile (\<lambda>c. \<not> isspace c) s1) in
        do {
          _ \<leftarrow> emit TOKEN_SIZE token [0];
          Some (Some (token, drop (length token) s1))
        })"

fun hex_bytes :: "byte list \<Rightarrow> byte list" where
  "hex_bytes [] = []"
| "hex_bytes [c] = [word_of_int (strtol 16 [c])]"
| "hex_bytes (c # d # s) = word_of_int (strtol 16 [c, d]) # hex_bytes s"

text \<open>
  When only white space follows the third field, \<open>dsptr\<close> stays null and the code subtracts it
  from \<open>ep\<close>, which is undefined.
\<close>

definition val_parse_ds_string :: "byte list \<Rightarrow> (val_ret + val_ds_rdata) option" where
  "val_parse_ds_string dsstr = do {
     t1 \<leftarrow> tok_in_str dsstr;
     case t1 of None \<Rightarrow> Some (Inl VAL_BAD_ARGUMENT) | Some (w1, s1) \<Rightarrow> do {
     t2 \<leftarrow> tok_in_str s1;
     case t2 of None \<Rightarrow> Some (Inl VAL_BAD_ARGUMENT) | Some (w2, s2) \<Rightarrow> do {
     t3 \<leftarrow> tok_in_str s2;
     case t3 of None \<Rightarrow> Some (Inl VAL_BAD_ARGUMENT) | Some (w3, s3) \<Rightarrow>
       if s3 = [] then Some (Inl VAL_CONF_PARSE_ERROR)
       else let hex = filter (\<lambda>c. \<not> isspace c) s3 in
         if hex = [] then None
         else Some (Inr \<lparr> d_keytag = word_of_int (strtol 10 w1), d_algo = word_of_int (strtol 10 w2),
           d_type = word_of_int (strtol 10 w3), d_hash = hex_bytes hex \<rparr>)
     }}}"

text \<open>
  \<open>le\<close> says whether the host is little-endian: the flags are copied into the buffer for the key tag
  in host order.
\<close>

definition host16 :: "bool \<Rightarrow> u16 \<Rightarrow> byte list" where
  "host16 le w = (if le then rev (put16 w) else put16 w)"

definition val_parse_dnskey_string :: "openssl \<Rightarrow> bool \<Rightarrow> byte list \<Rightarrow> (val_ret + val_dnskey_rdata) option" where
  "val_parse_dnskey_string C le keystr = do {
     t1 \<leftarrow> tok_in_str keystr;
     case t1 of None \<Rightarrow> Some (Inl VAL_BAD_ARGUMENT) | Some (w1, s1) \<Rightarrow> do {
     t2 \<leftarrow> tok_in_str s1;
     case t2 of None \<Rightarrow> Some (Inl VAL_BAD_ARGUMENT) | Some (w2, s2) \<Rightarrow> do {
     t3 \<leftarrow> tok_in_str s2;
     case t3 of None \<Rightarrow> Some (Inl VAL_BAD_ARGUMENT) | Some (w3, s3) \<Rightarrow>
       if s3 = [] then Some (Inl VAL_CONF_PARSE_ERROR)
       else let b64 = filter (\<lambda>c. \<not> isspace c) s3 in
         if b64 = [] then Some (Inl VAL_CONF_PARSE_ERROR)
         else do {
           key \<leftarrow> BIO_base64 C b64;
           if key = [] then Some (Inl VAL_BAD_ARGUMENT)
           else do {
             let fl = word_of_int (strtol 10 w1);
             let prot = word_of_int (strtol 10 w2);
             let alg = word_of_int (strtol 10 w3);
             let buf = host16 le fl @ [prot, alg] @ key;
             tag \<leftarrow> (if alg = ALG_RSAMD5 then rsamd5_keytag buf else Some (keytag buf));
             Some (Inr \<lparr> flags = fl, protocol = prot, algorithm = alg, public_key = key, key_tag = tag \<rparr>)
           }
         }
     }}}"

subsection \<open>Key tags\<close>

text \<open>The key tag of RFC 4034 appendix B, over the natural numbers.\<close>

fun tag_sum :: "byte list \<Rightarrow> nat" where
  "tag_sum [] = 0"
| "tag_sum [a] = 256 * unat a"
| "tag_sum (a # b # r) = 256 * unat a + unat b + tag_sum r"

lemma tag_sum_bound: "2 * tag_sum xs \<le> 65535 * (length xs + 1)"
proof (induction xs rule: tag_sum.induct)
  case (2 a)
  then show ?case using unat_byte [of a] by simp
next
  case (3 a b r)
  then show ?case using unat_byte [of a] unat_byte [of b] by simp
qed simp

lemma unat_shift8: "unat (push_bit 8 (ucast (b :: byte)) :: u32) = 256 * unat b"
  using unat_byte [of b] by (simp add: push_bit_eq_mult unat_mult_lem unat_word_ariths unsigned_ucast_eq take_bit_nat_eq_self)

lemma keytag_loop_sum:
  "even i \<Longrightarrow> unat ac + tag_sum key < 2 ^ 32 \<Longrightarrow> unat (keytag_loop key i ac) = unat ac + tag_sum key"
proof (induction key arbitrary: i ac rule: tag_sum.induct)
  case (2 a)
  then show ?case by (simp add: unat_word_ariths unat_shift8)
next
  case (3 a b r)
  have e: "unat (ac + push_bit 8 (ucast a) + ucast b) = unat ac + 256 * unat a + unat b"
    using 3(3) by (simp add: unat_word_ariths unat_shift8 unsigned_ucast_eq take_bit_nat_eq_self)
  with 3 show ?case by (simp add: add.assoc)
qed simp

lemma keytag_fold:
  assumes "S < 2 ^ 32" "unat (ac :: u32) = S"
  shows "unat (ucast ((ac + (drop_bit 16 ac AND 0xFFFF)) AND 0xFFFF) :: u16) = (S + S div 65536) mod 65536"
proof -
  have d: "unat (drop_bit 16 ac AND 0xFFFF) = S div 65536"
  proof -
    have "drop_bit 16 ac AND mask 16 = drop_bit 16 ac"
      by (rule bit_word_eqI) (auto simp: bit_simps dest: bit_imp_le_length)
    then show ?thesis using assms by (simp add: mask_eq_exp_minus_1 drop_bit_eq_div unat_div)
  qed
  have u: "(ucast (x AND 0xFFFF) :: u16) = ucast x" for x :: u32
  proof -
    have "(ucast (x AND mask 16) :: u16) = ucast x" by (rule bit_word_eqI) (auto simp: bit_simps)
    moreover have "(mask 16 :: u32) = 0xFFFF" by (simp add: mask_eq_exp_minus_1)
    ultimately show ?thesis by simp
  qed
  have "unat (ac + (drop_bit 16 ac AND 0xFFFF)) mod 65536 = (S + S div 65536) mod 65536"
    using d assms by (simp add: unat_word_ariths mod_mod_cancel)
  then show ?thesis by (simp add: u unsigned_ucast_eq take_bit_eq_mod)
qed

lemma keytag_rfc4034:
  assumes "length key \<le> 65535"
  shows "unat (keytag key) = (tag_sum key + tag_sum key div 65536) mod 65536"
proof -
  have b: "tag_sum key < 2 ^ 32" using tag_sum_bound [of key] assms by simp
  then have "unat (keytag_loop key 0 0) = tag_sum key" using keytag_loop_sum [of 0 0 key] by simp
  with keytag_fold [OF b this] show ?thesis by (simp add: keytag_def Let_def)
qed

subsection \<open>Names in signatures\<close>

definition dotted :: "label list \<Rightarrow> byte list" where
  "dotted ls = concat (map (\<lambda>l. l @ [0x2e]) ls)"

lemma length_dotted: "length (dotted ls) = length (encl ls)"
  by (induction ls) (auto simp: dotted_def)

lemma dname_loop_enc:
  assumes "list_all wf_label ls" "length dname + length (encl ls) < cap"
    and "length pre + length (enc ls) \<le> buflen" "buflen \<le> length (pre @ enc ls @ rest)"
  shows "dname_loop (pre @ enc ls @ rest) buflen cap (length pre) count False dname =
    Some (count + length (encl ls), dname @ dotted ls)"
  using assms
proof (induction ls arbitrary: pre count dname)
  case Nil
  then show ?case by (simp add: dname_loop.simps dotted_def)
next
  case (Cons l ls)
  let ?buf = "pre @ word_of_nat (length l) # l @ enc ls @ rest"
  have l: "wf_label l" using Cons.prems(1) by simp
  have "seg ?buf (Suc (length pre)) (length l) = Some l"
    using seg_append [of "pre @ [word_of_nat (length l)]" l "enc ls @ rest"] by simp
  moreover have "min (length l) (buflen - Suc (length pre)) = length l" using Cons.prems(3) by simp
  moreover have "(word_of_nat (length l) :: byte) AND 0xc0 \<noteq> 0xc0" using and_c0_label [OF l] by simp
  ultimately show ?case
    using Cons.prems l
      Cons.IH [of "dname @ l @ [0x2e]" "pre @ word_of_nat (length l) # l" "count + (length l + 1)"]
    by (simp add: dname_loop.simps [of _ _ _ "length pre"] len_label_ne_0 unat_len_label emit_def
        length_enc dotted_def add.assoc)
qed

lemma val_parse_dname_enc:
  assumes "wf_name ls" "length pre + length (enc ls) \<le> buflen" "buflen \<le> length (pre @ enc ls @ rest)"
  shows "val_parse_dname (pre @ enc ls @ rest) buflen (length pre) 256 =
    Some (Inr (dotted ls, length (enc ls)))"
  using assms dname_loop_enc [of ls "[]" 256 pre buflen rest 0]
  by (simp add: val_parse_dname_def emit_def wf_name_def length_enc)

text \<open>A compression pointer to itself is followed for ever.\<close>

lemma dname_loop_self:
  assumes "rd buf p = Some b" "b AND 0xc0 = 0xc0" "rd buf (p + 1) = Some c"
    and "256 * unat (b AND 0x3f) + unat c = p" "p < n"
  shows "dname_loop buf n cap p count compressed dname = None"
proof -
  have "b \<noteq> 0" using assms(2) by auto
  have "\<not> (bf = buf \<and> q = p \<and> p < m)" if "dname_loop bf m cap' q count' compressed' dname' = Some r"
    for bf m cap' q count' compressed' dname' r
  proof (rule dname_loop.raw_induct [OF _ that])
    fix f bf m cap' q count' compressed' dname' r
    assume IH: "\<And>bf m cap' q count' compressed' dname' r.
        f bf m cap' q count' compressed' dname' = Some r \<Longrightarrow> \<not> (bf = buf \<and> q = p \<and> p < m)"
      and step: "(if q < m
        then rd bf q \<bind> (\<lambda>b. if b = 0 then Some (count', dname')
          else if b AND 0xc0 = 0xc0
            then rd bf (q + 1) \<bind> (\<lambda>c. f bf m cap' (256 * unat (b AND 0x3f) + unat c)
                (if compressed' then count' else count' + 1) True dname')
            else seg bf (q + 1) (min (unat b) (m - (q + 1))) \<bind>
              (\<lambda>bs. emit cap' dname' (bs @ [0x2e]) \<bind>
                (\<lambda>dname1. emit cap' dname1 [0] \<bind>
                  (\<lambda>_. f bf m cap' (q + unat b + 1)
                    (if compressed' then count' else count' + (unat b + 1)) compressed' dname1))))
        else Some (count', dname')) = Some r"
    show "\<not> (bf = buf \<and> q = p \<and> p < m)"
    proof
      assume eq: "bf = buf \<and> q = p \<and> p < m"
      with step assms(1-4) \<open>b \<noteq> 0\<close>
      have "f buf m cap' p (if compressed' then count' else count' + 1) True dname' = Some r" by simp
      from IH [OF this] eq show False by simp
    qed
  qed
  then show ?thesis using assms(5) by (cases "dname_loop buf n cap p count compressed dname") auto
qed

lemma val_parse_dname_self:
  assumes "rd buf p = Some b" "b AND 0xc0 = 0xc0" "rd buf (p + 1) = Some c"
    and "256 * unat (b AND 0x3f) + unat c = p" "p < n" "0 < cap"
  shows "val_parse_dname buf n p cap = None"
proof -
  have "buf \<noteq> []" using assms(1) by auto
  with assms(5,6) dname_loop_self [OF assms(1-5), of cap 0 False "[]"] show ?thesis
    by (simp add: val_parse_dname_def emit_def)
qed

subsection \<open>Record data\<close>

lemma val_parse_dnskey_rdata_fields:
  assumes "alg \<noteq> ALG_RSAMD5"
  shows "val_parse_dnskey_rdata (put16 fl @ [prot, alg] @ key) =
    Some (Inr \<lparr> flags = fl, protocol = prot, algorithm = alg, public_key = key,
      key_tag = keytag (put16 fl @ [prot, alg] @ key) \<rparr>)"
proof -
  have "seg (put16 fl @ prot # alg # key) 4 (length key) = Some key"
    using seg_append [of "put16 fl @ [prot, alg]" key "[]"] by simp
  moreover have "get16 (put16 fl @ prot # alg # key) 0 = Some fl"
    using get16_at [of 0 "[]" fl "prot # alg # key"] by simp
  ultimately show ?thesis using assms
    by (simp add: val_parse_dnskey_rdata_def rd_append rd_Cons)
qed

definition rrsig_bytes :: "u16 \<Rightarrow> byte \<Rightarrow> byte \<Rightarrow> u32 \<Rightarrow> u32 \<Rightarrow> u32 \<Rightarrow> u16 \<Rightarrow> label list \<Rightarrow> byte list \<Rightarrow> byte list" where
  "rrsig_bytes t alg labs ttl expr incp tag signer sig =
     put16 t @ [alg, labs] @ put32 ttl @ put32 expr @ put32 incp @ put16 tag @ enc signer @ sig"

lemma val_parse_rrsig_rdata_fields:
  assumes "wf_name signer"
  shows "val_parse_rrsig_rdata (rrsig_bytes t alg labs ttl expr incp tag signer sig) =
    Some (Inr \<lparr> type_covered = t, sig_algorithm = alg, labels = labs, orig_ttl = ttl,
      sig_expr = expr, sig_incp = incp, sig_key_tag = tag, signer_name = dotted signer, signature = sig \<rparr>)"
proof -
  let ?h = "put16 t @ [alg, labs] @ put32 ttl @ put32 expr @ put32 incp @ put16 tag"
  let ?b = "rrsig_bytes t alg labs ttl expr incp tag signer sig"
  have b: "?b = ?h @ enc signer @ sig" by (simp add: rrsig_bytes_def)
  have len: "length ?b = 18 + length (enc signer) + length sig" by (simp add: b)
  have "val_parse_dname ?b (length ?b) 18 256 = Some (Inr (dotted signer, length (enc signer)))"
    using val_parse_dname_enc [OF assms, of ?h "length ?b" sig] by (simp add: b)
  moreover have "seg ?b (18 + length (enc signer)) (length sig) = Some sig"
    using seg_append [of "?h @ enc signer" sig "[]"] by (simp add: b)
  moreover have "get16 ?b 0 = Some t" "get32 ?b 4 = Some ttl" "get32 ?b 8 = Some expr"
    "get32 ?b 12 = Some incp" "get16 ?b 16 = Some tag"
    using get16_at [of 0 "[]" t] get32_at [of 4 "put16 t @ [alg, labs]" ttl]
      get32_at [of 8 "put16 t @ [alg, labs] @ put32 ttl" expr]
      get32_at [of 12 "put16 t @ [alg, labs] @ put32 ttl @ put32 expr" incp]
      get16_at [of 16 "put16 t @ [alg, labs] @ put32 ttl @ put32 expr @ put32 incp" tag]
    by (simp_all add: b)
  moreover have "rd ?b 2 = Some alg" "rd ?b 3 = Some labs"
    by (simp_all add: b rd_append rd_Cons)
  ultimately show ?thesis
    using len by (cases sig) (simp_all add: val_parse_rrsig_rdata_def Let_def)
qed

lemma val_parse_ds_rdata_fields:
  assumes "typ = ALG_DS_HASH_SHA1 \<and> length h = 20 \<or> typ = ALG_DS_HASH_SHA256 \<and> length h = 32"
  shows "val_parse_ds_rdata (put16 tag @ [alg, typ] @ h @ rest) =
    Some (Inr \<lparr> d_keytag = tag, d_algo = alg, d_type = typ, d_hash = h \<rparr>)"
proof -
  have "seg (put16 tag @ alg # typ # h @ rest) 4 (length h) = Some h"
    using seg_append [of "put16 tag @ [alg, typ]" h rest] by simp
  moreover have "get16 (put16 tag @ alg # typ # h @ rest) 0 = Some tag"
    using get16_at [of 0 "[]" tag "alg # typ # h @ rest"] by simp
  ultimately show ?thesis using assms
    by (auto simp: val_parse_ds_rdata_def rd_append rd_Cons digest_length_def Let_def)
qed

lemma val_parse_ds_rdata_sha384:
  "val_parse_ds_rdata (put16 tag @ [alg, ALG_DS_HASH_SHA384] @ h) = Some (Inl VAL_NOT_IMPLEMENTED)"
  using get16_at [of 0 "[]" tag "alg # ALG_DS_HASH_SHA384 # h"]
  by (simp add: val_parse_ds_rdata_def rd_append rd_Cons Let_def)

subsection \<open>Base 32\<close>

fun quintets :: "byte list \<Rightarrow> byte list list" where
  "quintets xs = (if xs = [] then [] else
     (if length xs < 5 then xs @ replicate (5 - length xs) 0 else take 5 xs) # quintets (drop 5 xs))"

declare quintets.simps [simp del]

definition base32 :: "byte list \<Rightarrow> byte list" where
  "base32 xs = concat (map base32_group (quintets xs))"

lemma length_base32_group [simp]: "length (base32_group g) = 8"
  by (simp add: base32_group_def)

lemma base32_Nil [simp]: "base32 [] = []"
  by (simp add: base32_def quintets.simps)

lemma base32_step: "xs \<noteq> [] \<Longrightarrow> base32 xs =
    base32_group (if length xs < 5 then xs @ replicate (5 - length xs) 0 else take 5 xs) @ base32 (drop 5 xs)"
  by (simp add: base32_def quintets.simps [of xs])

lemma length_base32: "length (base32 xs) = 8 * ((length xs + 4) div 5)"
proof (induction "length xs" arbitrary: xs rule: less_induct)
  case less
  show ?case
  proof (cases "xs = []")
    case False
    with less [of "drop 5 xs"] have "length (base32 xs) = 8 + 8 * ((length (drop 5 xs) + 4) div 5)"
      by (simp add: base32_step)
    also have "\<dots> = 8 * ((length xs + 4) div 5)"
    proof (cases "length xs < 5")
      case True
      have "1 \<le> length xs" using False by (cases xs) auto
      with True have "(length xs + 4) div 5 = 1" by (intro div_nat_eqI) auto
      with True show ?thesis by simp
    next
      case False
      then show ?thesis by (simp add: le_div_geq)
    qed
    finally show ?thesis .
  qed simp
qed

lemma base32_loop_eq:
  "length out \<le> cap \<Longrightarrow> base32_loop inp cap out =
    (if length out + length (base32 inp) \<le> cap then Some (out @ base32 inp) else None)"
proof (induction inp cap out rule: base32_loop.induct)
  case (1 inp cap out)
  show ?case
  proof (cases "inp = []")
    case True
    with 1(2) show ?thesis by (simp add: base32_loop.simps)
  next
    case False
    let ?buf = "if length inp < 5 then inp @ replicate (5 - length inp) 0 else take 5 inp"
    show ?thesis
    proof (cases "length out + 8 \<le> cap")
      case True
      then have "emit cap out (base32_group ?buf) = Some (out @ base32_group ?buf)" by (simp add: emit_def)
      with 1(1) [OF False refl this] True False show ?thesis
        by (simp add: base32_loop.simps [of inp] base32_step [OF False] Let_def)
    next
      case f: False
      then have "emit cap out (base32_group ?buf) = None" by (simp add: emit_def)
      with f False show ?thesis by (simp add: base32_loop.simps [of inp] base32_step [OF False] Let_def)
    qed
  qed
qed

lemma base32hex_outlen_multiple: "base32hex_outlen (5 * k) = 8 * k"
  by (simp add: base32hex_outlen_def)

lemma base32hex_outlen_short:
  assumes "n mod 5 \<noteq> 0"
  shows "base32hex_outlen n < 8 * ((n + 4) div 5)"
proof -
  define q r where "q = n div 5" and "r = n mod 5"
  have n: "n = 5 * q + r" "r < 5" "0 < r" using assms by (simp_all add: q_def r_def)
  have "(n * 8 + (40 - r)) div 40 = q + 1"
  proof -
    have "n * 8 + (40 - r) = 40 * q + (40 + 7 * r)" using n by simp
    moreover have "(40 * q + (40 + 7 * r)) div 40 = q + (40 + 7 * r) div 40" by simp
    moreover have "(40 + 7 * r) div 40 = 1" using n by (intro div_nat_eqI) simp_all
    ultimately show ?thesis by simp
  qed
  moreover have "(n + 4) div 5 = q + 1"
  proof -
    have "n + 4 = 5 * q + (r + 4)" using n by simp
    moreover have "(r + 4) div 5 = 1" using n by (intro div_nat_eqI) simp_all
    ultimately show ?thesis by simp
  qed
  moreover have "n mod 5 = r" by (simp add: r_def)
  ultimately show ?thesis using n by (simp add: base32hex_outlen_def Let_def)
qed

lemma base32hex_encode_multiple:
  assumes "length inp mod 5 = 0"
  shows "base32hex_encode inp = Some (base32 inp)"
proof (cases "inp = []")
  case False
  from assms obtain k where k: "length inp = 5 * k" by (auto simp: mod_eq_0_iff_dvd elim: dvdE)
  have "(5 * k + 4) div 5 = k" by simp
  then have "length (base32 inp) = base32hex_outlen (length inp)"
    by (simp add: length_base32 k base32hex_outlen_multiple)
  with False base32_loop_eq [of "[]" "base32hex_outlen (length inp)" inp] show ?thesis
    by (simp add: base32hex_encode_def)
qed (simp add: base32hex_encode_def)

text \<open>Any other length makes the output buffer too short, and the encoder writes past its end.\<close>

lemma base32hex_encode_overflow:
  assumes "length inp mod 5 \<noteq> 0"
  shows "base32hex_encode inp = None"
proof -
  have "inp \<noteq> []" using assms by auto
  with base32_loop_eq [of "[]" "base32hex_outlen (length inp)" inp]
    base32hex_outlen_short [OF assms] show ?thesis
    by (simp add: base32hex_encode_def length_base32)
qed

lemma val_parse_nsec3_rdata_overflow:
  assumes "length h < 256" "length h mod 5 \<noteq> 0" "length salt < 256"
  shows "val_parse_nsec3_rdata ([alg, fl] @ put16 iter @ [word_of_nat (length salt)] @ salt @
    [word_of_nat (length h)] @ h @ bits) = None"
proof -
  let ?p = "[alg, fl] @ put16 iter @ [word_of_nat (length salt)]"
  let ?b = "?p @ salt @ [word_of_nat (length h)] @ h @ bits"
  have ls: "unat (word_of_nat (length salt) :: byte) = length salt"
    and lh: "unat (word_of_nat (length h) :: byte) = length h" using assms by (simp_all add: unat_of_nat)
  have "h \<noteq> []" using assms(2) by auto
  have "seg ?b 5 (length salt) = Some salt" using seg_append [of ?p salt] by simp
  moreover have "rd ?b (5 + length salt) = Some (word_of_nat (length h))"
  proof -
    have "rd ((?p @ salt) @ [word_of_nat (length h)] @ h @ bits) (length (?p @ salt)) = Some (word_of_nat (length h))"
      by (simp only: rd_append_right0) simp
    moreover have "length (?p @ salt) = 5 + length salt" by simp
    ultimately show ?thesis by (metis append_assoc)
  qed
  moreover have "seg ?b (Suc (5 + length salt)) (length h) = Some h"
  proof -
    have "seg ((?p @ salt @ [word_of_nat (length h)]) @ h @ bits) (Suc (5 + length salt)) (length h) = Some h"
      by (rule seg_at) simp_all
    then show ?thesis by simp
  qed
  moreover have "get16 ?b 2 = Some iter" using get16_at [of 2 "[alg, fl]" iter] by simp
  moreover have "rd ?b 0 = Some alg" "rd ?b 1 = Some fl" "rd ?b 4 = Some (word_of_nat (length salt))"
    by (simp_all add: rd_append rd_Cons)
  moreover have "length ?b = 6 + length salt + length h + length bits" by simp
  ultimately show ?thesis
    using ls lh \<open>h \<noteq> []\<close> base32hex_encode_overflow [OF assms(2)]
    unfolding val_parse_nsec3_rdata_def by (simp del: append_Cons append.simps)
qed

subsection \<open>Text\<close>

lemma tok_in_str_word:
  assumes "list_all isspace ws" "list_all (\<lambda>c. \<not> isspace c) w" "w \<noteq> []"
    and "rest = [] \<or> isspace (hd rest)"
  shows "tok_in_str (ws @ w @ rest) = (if length w < TOKEN_SIZE then Some (Some (w, rest)) else None)"
proof -
  have dw: "dropWhile isspace (ws @ w @ rest) = w @ rest"
    using assms(1-3) by (induction ws) (auto simp: neq_Nil_conv)
  have tw: "takeWhile (\<lambda>c. \<not> isspace c) (w @ rest) = w"
    using assms(2,4) by (cases rest) (auto simp: takeWhile_append list_all_iff)
  show ?thesis
  proof (cases "length w < TOKEN_SIZE")
    case True
    then have "take TOKEN_SIZE w = w" by simp
    with True dw tw assms(3) show ?thesis by (simp add: tok_in_str_def emit_def)
  next
    case False
    then have "length (take TOKEN_SIZE w) = TOKEN_SIZE" by simp
    with False dw tw assms(3) show ?thesis by (simp add: tok_in_str_def emit_def)
  qed
qed

text \<open>
  On a big-endian host a configured key parses to what its record data parses to; on a
  little-endian one the key tag is computed over swapped flags.
\<close>

lemma val_parse_dnskey_string_tag:
  assumes "val_parse_dnskey_string C le s = Some (Inr k)" "algorithm k \<noteq> ALG_RSAMD5"
  shows "key_tag k = keytag (host16 le (flags k) @ [protocol k, algorithm k] @ public_key k)"
  using assms
  by (auto simp: val_parse_dnskey_string_def Let_def split: bind_splits option.splits if_splits)

lemma val_parse_dnskey_string_big_endian:
  assumes "val_parse_dnskey_string C False s = Some (Inr k)" "algorithm k \<noteq> ALG_RSAMD5"
  shows "val_parse_dnskey_rdata (put16 (flags k) @ [protocol k, algorithm k] @ public_key k) = Some (Inr k)"
  using val_parse_dnskey_rdata_fields [OF assms(2)] val_parse_dnskey_string_tag [OF assms]
  by (simp add: host16_def)

lemma keytag_swapped: "keytag (host16 True 256 @ [3, 5, 0x41]) \<noteq> keytag (put16 256 @ [3, 5, 0x41])"
  by code_simp

end
