(* ===== verification/Policy.thy ===== *)
theory Policy
  imports Parse
begin

section \<open>Zone policies\<close>

text \<open>
  How the validator finds the policy that governs a name: the macro \<open>RETRIEVE_POLICY\<close>
  (\<^verbatim>\<open>libval/val_policy.h\<close>), \<open>get_clock_skew\<close> (\<^verbatim>\<open>libval/val_verify.c\<close>),
  \<open>get_zse\<close>, \<open>find_trust_point\<close>, \<open>find_dlv_trust_point\<close> and \<open>replace_name_in_name\<close>
  (\<^verbatim>\<open>libval/val_assertion.c\<close>). Policies of a kind are a list kept with the longer zones
  first; the arguments \<open>ctx\<close>, \<open>now\<close> stand for the context's list and the time of day.
\<close>

subsection \<open>Policy lists\<close>

record 'a policy_entry =
  zone_n :: "byte list"
  exp_ttl :: int
  pol :: "'a option"

text \<open>
  \<open>ctx->e_pol[index]\<close>: a list, or a pointer to an entry that has been freed. \<open>RETRIEVE_POLICY\<close> frees
  expired entries; when the first one goes, only its local \<open>pol\<close> is moved past it.
\<close>

datatype 'a e_pol = Entries "'a policy_entry list" | Dangling

definition expired :: "int \<Rightarrow> 'a policy_entry \<Rightarrow> bool" where
  "expired now e \<longleftrightarrow> 0 < exp_ttl e \<and> exp_ttl e \<le> now"

definition retrieve_policy :: "int \<Rightarrow> 'a e_pol \<Rightarrow> ('a policy_entry list \<times> 'a e_pol) option" where
  "retrieve_policy now p = (case p of
     Dangling \<Rightarrow> None
   | Entries es \<Rightarrow>
       let live = filter (\<lambda>e. \<not> expired now e) es in
       Some (live, case es of [] \<Rightarrow> Entries [] | e # _ \<Rightarrow> if expired now e then Dangling else Entries live))"

fun skip_longer :: "'a policy_entry list \<Rightarrow> nat \<Rightarrow> 'a policy_entry list option" where
  "skip_longer [] name_len = Some []"
| "skip_longer (e # es) name_len = do {
     l \<leftarrow> wire_name_length (zone_n e);
     if name_len < l then skip_longer es name_len else Some (e # es)
   }"

subsection \<open>The zone a name is in\<close>

text \<open>The \<open>while\<close> loop that looks for the zone among the suffixes of the name.\<close>

function zone_walk :: "byte list \<Rightarrow> byte list \<Rightarrow> nat \<Rightarrow> nat option" where
  "zone_walk name_n zone p = do {
     b \<leftarrow> rd name_n p;
     if b = 0 then Some p
     else do {
       sub \<leftarrow> ptr name_n p;
       c \<leftarrow> namecmp sub zone;
       if c = 0 then Some p else zone_walk name_n zone (p + unat b + 1)
     }
   }"
  by pat_completeness auto
termination
  by (relation "measure (\<lambda>(name_n, zone, p). length name_n - p)") (auto simp: rd_eq_Some_iff)

declare zone_walk.simps [simp del]

definition zone_matches :: "byte list \<Rightarrow> byte list \<Rightarrow> bool option" where
  "zone_matches name_n zone = do {
     r \<leftarrow> namecmp zone [0];
     if r = 0 then Some True
     else do {
       p \<leftarrow> zone_walk name_n zone 0;
       sub \<leftarrow> ptr name_n p;
       c \<leftarrow> namecmp sub zone;
       Some (c = 0)
     }
   }"

fun find_zone_policy :: "byte list \<Rightarrow> 'a policy_entry list \<Rightarrow> 'a policy_entry option option" where
  "find_zone_policy name_n [] = Some None"
| "find_zone_policy name_n (e # es) = do {
     m \<leftarrow> zone_matches name_n (zone_n e);
     if m \<and> pol e \<noteq> None then Some (Some e) else find_zone_policy name_n es
   }"

text \<open>\<open>get_clock_skew\<close>: the skew, the new \<open>*ttl_x\<close>, and what the context's list becomes.\<close>

definition get_clock_skew :: "int \<Rightarrow> int e_pol \<Rightarrow> byte list \<Rightarrow> u32 \<Rightarrow> (int \<times> u32 \<times> int e_pol) option" where
  "get_clock_skew now ctx name_n ttl_x = do {
     (cs_pol, ctx') \<leftarrow> retrieve_policy now ctx;
     name_len \<leftarrow> (if cs_pol \<noteq> [] then wire_name_length name_n else Some 0);
     cs_cur \<leftarrow> skip_longer cs_pol name_len;
     r \<leftarrow> find_zone_policy name_n cs_cur;
     Some (case r of
       Some e \<Rightarrow> (the (pol e), if 0 < exp_ttl e then word_of_int (exp_ttl e) else ttl_x, ctx')
     | None \<Rightarrow> (0, ttl_x, ctx'))
   }"

datatype zone_se = ZONE_SE_IGNORE | ZONE_SE_DO_VAL | ZONE_SE_UNTRUSTED

abbreviation VAL_AC_WAIT_FOR_TRUST :: u16 where "VAL_AC_WAIT_FOR_TRUST \<equiv> 2"
abbreviation VAL_AC_IGNORE_VALIDATION :: u16 where "VAL_AC_IGNORE_VALIDATION \<equiv> 7"
abbreviation VAL_AC_UNTRUSTED_ZONE :: u16 where "VAL_AC_UNTRUSTED_ZONE \<equiv> 8"

text \<open>\<open>get_zse\<close>: the status, the offset of \<open>*match_ptr\<close> in the name, \<open>*ttl_x\<close> and the list.\<close>

definition zse_status :: "zone_se \<Rightarrow> u16" where
  "zse_status t = (case t of ZONE_SE_UNTRUSTED \<Rightarrow> VAL_AC_UNTRUSTED_ZONE
     | ZONE_SE_DO_VAL \<Rightarrow> VAL_AC_WAIT_FOR_TRUST | ZONE_SE_IGNORE \<Rightarrow> VAL_AC_IGNORE_VALIDATION)"

definition get_zse :: "int \<Rightarrow> zone_se e_pol \<Rightarrow> byte list \<Rightarrow> u32 \<Rightarrow>
    (val_ret + u16 \<times> nat option \<times> u32 \<times> zone_se e_pol) option" where
  "get_zse now ctx name_n ttl_x =
     (if name_n = [] then Some (Inl VAL_BAD_ARGUMENT)
      else do {
        name_len \<leftarrow> wire_name_length name_n;
        (zse_pol, ctx') \<leftarrow> retrieve_policy now ctx;
        zse_cur \<leftarrow> skip_longer zse_pol name_len;
        r \<leftarrow> find_zone_policy name_n zse_cur;
        case r of
          None \<Rightarrow> Some (Inr (VAL_AC_WAIT_FOR_TRUST, None, ttl_x, ctx'))
        | Some e \<Rightarrow> do {
            match_ptr \<leftarrow> namename name_n (zone_n e);
            Some (Inr (zse_status (the (pol e)), match_ptr,
              if 0 < exp_ttl e then word_of_int (exp_ttl e) else ttl_x, ctx'))
          }
      })"

subsection \<open>Trust points\<close>

text \<open>The inner \<open>for\<close> loop, which also moves \<open>ta_tmphead\<close>; the match is the entry found.\<close>

fun ta_scan :: "('a policy_entry \<Rightarrow> bool) \<Rightarrow> 'a policy_entry list \<Rightarrow> 'a policy_entry list \<Rightarrow> byte list \<Rightarrow>
    ('a policy_entry list \<times> 'a policy_entry option) option" where
  "ta_scan usable [] tmphead zp = Some (tmphead, None)"
| "ta_scan usable (e # es) tmphead zp = do {
     lz \<leftarrow> wire_name_length zp;
     le \<leftarrow> wire_name_length (zone_n e);
     let tmphead' = (if lz < le then es else tmphead);
     c \<leftarrow> namecmp (zone_n e) zp;
     if c = 0 \<and> usable e then Some (tmphead', Some e) else ta_scan usable es tmphead' zp
   }"

function ta_climb :: "('a policy_entry \<Rightarrow> bool) \<Rightarrow> byte list \<Rightarrow> nat \<Rightarrow> nat \<Rightarrow> 'a policy_entry list \<Rightarrow>
    (nat \<times> 'a policy_entry) option option" where
  "ta_climb usable zone zp ep tmphead =
     (if zp < ep then do {
        sub \<leftarrow> ptr zone zp;
        (tmphead', r) \<leftarrow> ta_scan usable tmphead tmphead sub;
        case r of
          Some e \<Rightarrow> Some (Some (zp, e))
        | None \<Rightarrow> do { b \<leftarrow> rd zone zp; ta_climb usable zone (zp + unat b + 1) ep tmphead' }
      } else Some None)"
  by pat_completeness auto
termination by (relation "measure (\<lambda>(usable, zone, zp, ep, tmphead). ep - zp)") auto

declare ta_climb.simps [simp del]

text \<open>\<open>find_trust_point\<close>: \<open>*matched_zone\<close> (the null pointer is empty), \<open>*ttl_x\<close> and the list.\<close>

definition find_trust_point :: "int \<Rightarrow> 'a e_pol \<Rightarrow> byte list \<Rightarrow>
    (val_ret \<times> byte list \<times> u32 \<times> 'a e_pol) option" where
  "find_trust_point now ctx zone =
     (if zone = [] then Some (VAL_BAD_ARGUMENT, [], 0, ctx)
      else do {
        name_len \<leftarrow> wire_name_length zone;
        (ta_pol, ctx') \<leftarrow> retrieve_policy now ctx;
        ta_cur \<leftarrow> skip_longer ta_pol name_len;
        r \<leftarrow> ta_climb (\<lambda>_. True) zone 0 name_len ta_cur;
        case r of
          None \<Rightarrow> Some (VAL_NO_ERROR, [], 0, ctx')
        | Some (zp, e) \<Rightarrow> do {
            sub \<leftarrow> ptr zone zp;
            len \<leftarrow> wire_name_length sub;
            if len = 0 then Some (VAL_OUT_OF_MEMORY, [], 0, ctx')
            else do {
              matched \<leftarrow> seg sub 0 len;
              Some (VAL_NO_ERROR, matched, if 0 < exp_ttl e then word_of_int (exp_ttl e) else 0, ctx')
            }
          }
      })"

text \<open>
  \<open>find_dlv_trust_point\<close>: \<open>*dlv_tp\<close>, \<open>*dlv_target\<close> and \<open>*ttl_x\<close>. A policy is the registry's name, and
  an entry without one is passed over.
\<close>

definition find_dlv_trust_point :: "int \<Rightarrow> byte list e_pol \<Rightarrow> byte list \<Rightarrow> u32 \<Rightarrow>
    (val_ret \<times> byte list \<times> byte list \<times> u32 \<times> byte list e_pol) option" where
  "find_dlv_trust_point now ctx zone ttl_x =
     (if zone = [] then Some (VAL_BAD_ARGUMENT, [], [], ttl_x, ctx)
      else do {
        name_len \<leftarrow> wire_name_length zone;
        (ta_pol, ctx') \<leftarrow> retrieve_policy now ctx;
        ta_cur \<leftarrow> skip_longer ta_pol name_len;
        r \<leftarrow> ta_climb (\<lambda>e. the (pol e) \<noteq> []) zone 0 name_len ta_cur;
        case r of
          None \<Rightarrow> Some (VAL_NO_ERROR, [], [], ttl_x, ctx')
        | Some (zp, e) \<Rightarrow> do {
            let tp = the (pol e);
            tp_len \<leftarrow> wire_name_length tp;
            sub \<leftarrow> ptr zone zp;
            len \<leftarrow> wire_name_length sub;
            if tp_len = 0 \<or> len = 0 then Some (VAL_OUT_OF_MEMORY, [], [], ttl_x, ctx')
            else do {
              dlv_tp \<leftarrow> seg tp 0 tp_len;
              dlv_target \<leftarrow> seg sub 0 len;
              Some (VAL_NO_ERROR, dlv_tp, dlv_target,
                if 0 < exp_ttl e then word_of_int (exp_ttl e) else ttl_x, ctx')
            }
          }
      })"

text \<open>
  \<open>replace_name_in_name\<close>: the return value, the name after the call and \<open>*new_name\<close>. The name is cut at
  \<open>s\<close> by a zero byte, but its whole old length is copied and \<open>d\<close> goes behind it.
\<close>

definition replace_name_in_name :: "byte list \<Rightarrow> byte list \<Rightarrow> byte list \<Rightarrow>
    (val_ret \<times> byte list \<times> byte list) option" where
  "replace_name_in_name name_n s d =
     (if name_n = [] \<or> s = [] \<or> d = [] then Some (VAL_BAD_ARGUMENT, name_n, [])
      else do {
        len1 \<leftarrow> wire_name_length name_n;
        len2 \<leftarrow> wire_name_length d;
        if len1 = 0 \<or> len2 = 0 then Some (VAL_BAD_ARGUMENT, name_n, [])
        else do {
          r \<leftarrow> namename name_n s;
          case r of None \<Rightarrow> Some (VAL_NO_ERROR, name_n, [])
          | Some p \<Rightarrow> do {
              cut \<leftarrow> wr name_n p 0;
              front \<leftarrow> seg cut 0 len1;
              dn \<leftarrow> seg d 0 len2;
              slen \<leftarrow> wire_name_length s;
              sn \<leftarrow> seg s 0 slen;
              name' \<leftarrow> blit cut p sn;
              Some (VAL_NO_ERROR, name', take (len1 - 1) front @ dn)
            }
        }
      })"

subsection \<open>The zone of a name\<close>

lemma zone_walk_enc:
  assumes "list_all wf_label pre" "wf_name xs" "encodes zone ys"
  shows "zone_walk (encl pre @ enc xs @ t) zone (length (encl pre)) =
    Some (length (encl (pre @ (if subname xs ys then under xs ys else xs))))"
  using assms
proof (induction xs arbitrary: pre)
  case Nil
  then show ?case by (simp add: zone_walk.simps under_def)
next
  case (Cons l ls)
  have wf: "wf_label l" "wf_name ls" using Cons.prems(2) by (auto simp: wf_name_Cons)
  have wf3: "encodes (enc (l # ls) @ t) (l # ls)" by (rule encodes_enc(1) [OF Cons.prems(2)])
  obtain c where c: "namecmp (enc (l # ls) @ t) zone = Some c" "c = 0 \<longleftrightarrow> cname (l # ls) = cname ys"
    using namecmp_encodes [OF wf3 Cons.prems(3)] sgn_eq_ocmpD(1) by metis
  show ?case
  proof (cases "cname (l # ls) = cname ys")
    case True
    then have "subname (l # ls) ys" "under (l # ls) ys = []"
      using cname_eq_length [OF True] by (simp_all add: subname_def under_def)
    with True c wf(1) show ?thesis
      by (simp add: zone_walk.simps [of _ _ "length (encl pre)"] label_simps)
  next
    case False
    have sub: "subname (l # ls) ys \<longleftrightarrow> subname ls ys"
    proof (cases "length ys \<le> length ls")
      case True
      then show ?thesis by (rule subname_Cons)
    next
      case False
      then have "\<not> subname ls ys" by (simp add: subname_short)
      moreover have "\<not> subname (l # ls) ys"
        using False \<open>cname (l # ls) \<noteq> cname ys\<close> by (auto simp: subname_def)
      ultimately show ?thesis by simp
    qed
    have un: "subname ls ys \<Longrightarrow> under (l # ls) ys = l # under ls ys"
      by (simp add: subname_def under_def Suc_diff_le)
    from False c wf Cons.prems Cons.IH [of "pre @ [l]"] show ?thesis
      by (simp add: zone_walk.simps [of _ _ "length (encl pre)"] label_simps sub un add.assoc)
  qed
qed

lemma cname_Nil_iff: "cname ys = cname [] \<longleftrightarrow> ys = []"
  by (simp add: cname_eq_iff)

lemma zone_matches_encodes:
  assumes "encodes name_n xs" "encodes zone ys"
  shows "zone_matches name_n zone = Some (subname xs ys)"
proof -
  have "encodes [0] []" using encodes_enc(2) [of "[]"] by simp
  then obtain r where r: "namecmp zone [0] = Some r" "r = 0 \<longleftrightarrow> ys = []"
    using namecmp_encodes [OF assms(2)] sgn_eq_ocmpD(1) cname_Nil_iff by metis
  show ?thesis
  proof (cases "ys = []")
    case True
    with r show ?thesis by (simp add: zone_matches_def)
  next
    case False
    from assms(1) obtain t where n: "name_n = enc xs @ t" "wf_name xs" by (rule encodesE)
    let ?k = "if subname xs ys then under xs ys else xs"
    have w: "zone_walk name_n zone 0 = Some (length (encl ?k))"
      using zone_walk_enc [of "[]" xs zone ys t] assms(2) n by simp
    obtain zs where zs: "xs = ?k @ zs" "cname zs = cname ys \<longleftrightarrow> subname xs ys"
    proof (cases "subname xs ys")
      case True
      then show ?thesis
        by (intro that [of "drop (length xs - length ys) xs"]) (simp_all add: subname_def under_def)
    next
      case f: False
      with False cname_Nil_iff [of ys] show ?thesis by (intro that [of "[]"]) auto
    qed
    have "ptr name_n (length (encl ?k)) = Some (enc zs @ t)"
      using n zs(1) by (metis append_assoc enc_append enc_not_Nil append_is_Nil_conv ptr_append)
    moreover have "encodes (enc zs @ t) zs"
      using n(2) zs(1) by (metis encodes_enc(1) wf_name_append)
    then obtain c where "namecmp (enc zs @ t) zone = Some c" "c = 0 \<longleftrightarrow> subname xs ys"
      using namecmp_encodes [OF _ assms(2)] sgn_eq_ocmpD(1) zs(2) by metis
    ultimately show ?thesis using r False w by (simp add: zone_matches_def)
  qed
qed

text \<open>The test agrees with \<open>namename\<close>.\<close>

definition in_zone :: "byte list \<Rightarrow> byte list \<Rightarrow> bool" where
  "in_zone n z \<longleftrightarrow> (case namename n z of Some (Some _) \<Rightarrow> True | _ \<Rightarrow> False)"

lemma in_zone_encodes: "encodes n xs \<Longrightarrow> encodes z ys \<Longrightarrow> in_zone n z \<longleftrightarrow> subname xs ys"
  by (simp add: in_zone_def namename_encodes)

lemma zone_matches_in_zone:
  assumes "valid_name n" "valid_name z"
  shows "zone_matches n z = Some (in_zone n z)"
  using assms by (auto simp: valid_name_def in_zone_encodes zone_matches_encodes)

abbreviation name_len :: "byte list \<Rightarrow> nat" where
  "name_len n \<equiv> the (wire_name_length n)"

lemma valid_name_length:
  assumes "valid_name n"
  shows "wire_name_length n = Some (name_len n)"
  using copy_name [OF assms] by (metis option.sel)

lemma in_zone_length: "valid_name n \<Longrightarrow> valid_name z \<Longrightarrow> in_zone n z \<Longrightarrow> name_len z \<le> name_len n"
  using subname_offset
  by (fastforce simp: valid_name_def in_zone_encodes wire_name_length_encodes)

lemma canon_length: "valid_name m \<Longrightarrow> valid_name n \<Longrightarrow> canon m = canon n \<Longrightarrow> name_len m = name_len n"
  by (auto simp: valid_name_def canon_eq_iff wire_name_length_encodes length_enc dest: cname_eq_length_enc)

abbreviation ok_entries :: "'a policy_entry list \<Rightarrow> bool" where
  "ok_entries es \<equiv> list_all (\<lambda>e. valid_name (zone_n e)) es"

lemma skip_longer_eq:
  "ok_entries es \<Longrightarrow> skip_longer es k = Some (dropWhile (\<lambda>e. k < name_len (zone_n e)) es)"
proof (induction es)
  case (Cons e es)
  then obtain l where "wire_name_length (zone_n e) = Some l" "name_len (zone_n e) = l"
    using valid_name_length by fastforce
  with Cons show ?case by simp
qed simp

lemma find_zone_policy_eq:
  "ok_entries es \<Longrightarrow> valid_name n \<Longrightarrow>
   find_zone_policy n es = Some (List.find (\<lambda>e. in_zone n (zone_n e) \<and> pol e \<noteq> None) es)"
  by (induction es) (auto simp: zone_matches_in_zone)

lemma find_dropWhile:
  "(\<And>x. x \<in> set xs \<Longrightarrow> Q x \<Longrightarrow> \<not> P x) \<Longrightarrow> List.find P (dropWhile Q xs) = List.find P xs"
  by (induction xs) auto

lemma list_all_dropWhile: "list_all P xs \<Longrightarrow> list_all P (dropWhile Q xs)"
  by (induction xs) auto

text \<open>The policy that governs a name, of the entries that have not expired.\<close>

definition governing :: "'a policy_entry list \<Rightarrow> byte list \<Rightarrow> 'a policy_entry option" where
  "governing es n = List.find (\<lambda>e. in_zone n (zone_n e) \<and> pol e \<noteq> None) es"

lemma lookup_governing:
  assumes "ok_entries es" "valid_name n"
  shows "(do { cur \<leftarrow> skip_longer es (name_len n); find_zone_policy n cur }) = Some (governing es n)"
proof -
  have "List.find (\<lambda>e. in_zone n (zone_n e) \<and> pol e \<noteq> None) (dropWhile (\<lambda>e. name_len n < name_len (zone_n e)) es)
    = governing es n"
    unfolding governing_def using assms in_zone_length [OF assms(2)]
    by (intro find_dropWhile) (force simp: list_all_iff)
  then show ?thesis
    using assms by (simp add: skip_longer_eq find_zone_policy_eq list_all_dropWhile)
qed

text \<open>Lists are kept with the longer zones first, so the first match is the closest one.\<close>

definition longest_first :: "'a policy_entry list \<Rightarrow> bool" where
  "longest_first es \<longleftrightarrow> sorted_wrt (\<lambda>a b. name_len (zone_n b) \<le> name_len (zone_n a)) es"

lemma find_Some_split: "List.find P xs = Some x \<Longrightarrow> \<exists>us vs. xs = us @ x # vs \<and> P x \<and> (\<forall>u\<in>set us. \<not> P u)"
proof (induction xs)
  case (Cons y ys)
  show ?case
  proof (cases "P y")
    case True
    with Cons.prems show ?thesis by (intro exI [of _ "[]"] exI [of _ ys]) auto
  next
    case False
    with Cons obtain us vs where "ys = us @ x # vs" "P x" "\<forall>u\<in>set us. \<not> P u" by auto
    with False show ?thesis by (intro exI [of _ "y # us"] exI [of _ vs]) auto
  qed
qed simp

lemma governing_longest:
  assumes "longest_first es" "governing es n = Some e" "e' \<in> set es" "in_zone n (zone_n e')" "pol e' \<noteq> None"
  shows "name_len (zone_n e') \<le> name_len (zone_n e)"
proof -
  from find_Some_split [OF assms(2) [unfolded governing_def]] obtain us vs where
    es: "es = us @ e # vs" "\<forall>u\<in>set us. \<not> (in_zone n (zone_n u) \<and> pol u \<noteq> None)" by blast
  with assms(3-5) have "e' = e \<or> e' \<in> set vs" by auto
  with assms(1) es(1) show ?thesis by (auto simp: longest_first_def sorted_wrt_append)
qed

lemma retrieve_policy_live:
  "retrieve_policy now (Entries es) =
    Some (filter (\<lambda>e. \<not> expired now e) es,
      if es \<noteq> [] \<and> expired now (hd es) then Dangling else Entries (filter (\<lambda>e. \<not> expired now e) es))"
  by (cases es) (auto simp: retrieve_policy_def Let_def)

abbreviation live :: "int \<Rightarrow> 'a policy_entry list \<Rightarrow> 'a policy_entry list" where
  "live now es \<equiv> filter (\<lambda>e. \<not> expired now e) es"

lemma list_all_filter: "list_all P xs \<Longrightarrow> list_all P (filter Q xs)"
  by (induction xs) auto

lemma get_zse_governing:
  assumes "ok_entries es" "valid_name n"
  obtains ctx' where "get_zse now (Entries es) n ttl_x = Some (Inr (case governing (live now es) n of
    None \<Rightarrow> (VAL_AC_WAIT_FOR_TRUST, None, ttl_x, ctx')
  | Some e \<Rightarrow> (zse_status (the (pol e)), the (namename n (zone_n e)),
      if 0 < exp_ttl e then word_of_int (exp_ttl e) else ttl_x, ctx')))"
proof -
  note l = lookup_governing [OF list_all_filter [OF assms(1), of "\<lambda>e. \<not> expired now e"] assms(2)]
  obtain ctx' where ctx: "retrieve_policy now (Entries es) = Some (live now es, ctx')"
    using retrieve_policy_live by blast
  obtain cur where cur: "skip_longer (live now es) (name_len n) = Some cur"
    "find_zone_policy n cur = Some (governing (live now es) n)"
    using l by (auto split: bind_splits)
  have nn: "namename n (zone_n e) = Some (the (namename n (zone_n e)))" if "governing (live now es) n = Some e" for e
  proof -
    have "in_zone n (zone_n e)"
      using find_Some_split [OF that [unfolded governing_def]] by blast
    then show ?thesis by (auto simp: in_zone_def split: option.splits)
  qed
  obtain k where k: "wire_name_length n = Some k" "name_len n = k"
    using valid_name_length [OF assms(2)] by simp
  show ?thesis
  proof (cases "governing (live now es) n")
    case None
    show ?thesis
      using valid_name_not_Nil [OF assms(2)] ctx cur k None
      by (intro that [of ctx']) (simp add: get_zse_def)
  next
    case (Some e)
    obtain p where p: "namename n (zone_n e) = Some p" using nn [OF Some] by blast
    show ?thesis
      using valid_name_not_Nil [OF assms(2)] ctx cur k Some p
      by (intro that [of ctx']) (simp add: get_zse_def)
  qed
qed

lemma get_clock_skew_governing:
  assumes "ok_entries es" "valid_name n"
  obtains ctx' where "get_clock_skew now (Entries es) n ttl_x = Some (case governing (live now es) n of
    None \<Rightarrow> (0, ttl_x, ctx')
  | Some e \<Rightarrow> (the (pol e), if 0 < exp_ttl e then word_of_int (exp_ttl e) else ttl_x, ctx'))"
proof -
  note l = lookup_governing [OF list_all_filter [OF assms(1), of "\<lambda>e. \<not> expired now e"] assms(2)]
  obtain ctx' where ctx: "retrieve_policy now (Entries es) = Some (live now es, ctx')"
    using retrieve_policy_live by blast
  show ?thesis
  proof (cases "live now es = []")
    case True
    with ctx show ?thesis
      by (intro that [of ctx']) (simp add: get_clock_skew_def governing_def)
  next
    case False
    obtain k where k: "wire_name_length n = Some k" "name_len n = k"
      using valid_name_length [OF assms(2)] by simp
    obtain cur where cur: "skip_longer (live now es) k = Some cur"
      "find_zone_policy n cur = Some (governing (live now es) n)"
      using l k(2) by (auto split: bind_splits)
    show ?thesis
      by (rule that [of ctx']) (use ctx cur k(1) False in
        \<open>simp add: get_clock_skew_def split: option.split\<close>)
  qed
qed

subsection \<open>The closest trust point\<close>

text \<open>
  What the climb should find: the first of the name and its parents, down to the root, that some
  usable entry names.
\<close>

definition names_zone :: "('a policy_entry \<Rightarrow> bool) \<Rightarrow> byte list \<Rightarrow> 'a policy_entry \<Rightarrow> bool" where
  "names_zone usable z e \<longleftrightarrow> usable e \<and> canon (zone_n e) = canon z"

fun closest :: "('a policy_entry \<Rightarrow> bool) \<Rightarrow> 'a policy_entry list \<Rightarrow> label list \<Rightarrow>
    (label list \<times> 'a policy_entry) option" where
  "closest usable es xs = (case List.find (names_zone usable (enc xs)) es of
     Some e \<Rightarrow> Some (xs, e)
   | None \<Rightarrow> (case xs of [] \<Rightarrow> None | _ # ls \<Rightarrow> closest usable es ls))"

declare closest.simps [simp del]

abbreviation longer_than :: "nat \<Rightarrow> 'a policy_entry \<Rightarrow> bool" where
  "longer_than k e \<equiv> k < name_len (zone_n e)"

lemma names_zone_length:
  "names_zone usable (enc xs) e \<Longrightarrow> wf_name xs \<Longrightarrow> valid_name (zone_n e) \<Longrightarrow>
   name_len (zone_n e) = length (enc xs)"
  using encodes_enc(2) [of xs]
  by (auto simp: names_zone_def valid_name_def canon_eq_iff [OF _ encodes_enc(2)]
      wire_name_length_encodes length_enc dest: cname_eq_length_enc)

lemma closest_dropWhile:
  "ok_entries es \<Longrightarrow> wf_name xs \<Longrightarrow> length (enc xs) \<le> k \<Longrightarrow>
   closest usable (dropWhile (longer_than k) es) xs = closest usable es xs"
proof (induction xs)
  case (Cons l ls)
  have f: "List.find (names_zone usable (enc (l # ls))) (dropWhile (longer_than k) es)
    = List.find (names_zone usable (enc (l # ls))) es"
    using Cons.prems names_zone_length [OF _ Cons.prems(2)]
    by (intro find_dropWhile) (force simp: list_all_iff)
  have "length (enc ls) \<le> k" "wf_name ls" using Cons.prems by (auto simp: wf_name_Cons length_enc)
  with Cons f show ?case by (simp add: closest.simps [of _ _ "l # ls"] split: option.split)
next
  case Nil
  have "List.find (names_zone usable (enc [])) (dropWhile (longer_than k) es)
    = List.find (names_zone usable (enc [])) es"
    using Nil names_zone_length [OF _ Nil(2)]
    by (intro find_dropWhile) (force simp: list_all_iff)
  then show ?case by (simp add: closest.simps split: option.split)
qed

lemma ta_scan_eq:
  assumes "ok_entries es" "longest_first es" "encodes zp xs"
  obtains tmp where "ta_scan usable es tmphead zp = Some (tmp, List.find (names_zone usable zp) es)"
    "List.find (names_zone usable zp) es = None \<Longrightarrow>
       tmp = (if es \<noteq> [] \<and> longer_than (length (enc xs)) (hd es)
              then dropWhile (longer_than (length (enc xs))) es else tmphead)"
  using assms
proof (induction es arbitrary: tmphead thesis)
  case (Cons e es)
  let ?k = "length (enc xs)"
  have e: "valid_name (zone_n e)" and zp: "valid_name zp"
    using Cons.prems(2,4) by (auto simp: valid_name_def)
  obtain le where le: "wire_name_length (zone_n e) = Some le" "name_len (zone_n e) = le"
    using valid_name_length [OF e] by fastforce
  have lz: "wire_name_length zp = Some ?k" by (rule wire_name_length_encodes [OF Cons.prems(4)])
  obtain ys where "encodes (zone_n e) ys" using e by (auto simp: valid_name_def)
  then obtain c where c: "namecmp (zone_n e) zp = Some c" "c = 0 \<longleftrightarrow> canon (zone_n e) = canon zp"
    using namecmp_encodes [OF _ Cons.prems(4)] sgn_eq_ocmpD(1) canon_eq_iff [OF _ Cons.prems(4)] by metis
  have rest: "ok_entries es" "longest_first es" using Cons.prems by (auto simp: longest_first_def)
  let ?t = "if ?k < le then es else tmphead"
  show ?case
  proof (cases "names_zone usable zp e")
    case True
    with c lz le show ?thesis
      by (intro Cons.prems(1) [of ?t]) (auto simp: names_zone_def)
  next
    case False
    obtain tmp where tmp: "ta_scan usable es ?t zp = Some (tmp, List.find (names_zone usable zp) es)"
      "List.find (names_zone usable zp) es = None \<Longrightarrow>
         tmp = (if es \<noteq> [] \<and> longer_than ?k (hd es) then dropWhile (longer_than ?k) es else ?t)"
      using Cons.IH [OF _ rest Cons.prems(4)] by blast
    have short: "\<not> longer_than ?k (hd es)" if "\<not> ?k < le" "es \<noteq> []"
      using that Cons.prems(3) le by (cases es) (auto simp: longest_first_def)
    have "ta_scan usable (e # es) tmphead zp = Some (tmp, List.find (names_zone usable zp) (e # es))"
      using False c lz le tmp(1) by (auto simp: names_zone_def)
    moreover have "tmp = (if longer_than ?k e then dropWhile (longer_than ?k) (e # es) else tmphead)"
      if "List.find (names_zone usable zp) (e # es) = None"
    proof -
      have t: "tmp = (if es \<noteq> [] \<and> longer_than ?k (hd es) then dropWhile (longer_than ?k) es else ?t)"
        using that False tmp(2) by simp
      show ?thesis
      proof (cases "?k < le")
        case True
        with t le show ?thesis by (cases es) auto
      next
        case False
        with t le short show ?thesis by auto
      qed
    qed
    ultimately show ?thesis by (intro Cons.prems(1) [of tmp]) auto
  qed
qed simp

lemma names_zone_encodes:
  assumes "encodes z xs"
  shows "names_zone usable z = names_zone usable (enc xs)"
proof -
  have "encodes (enc xs) xs" using assms by (auto elim: encodesE)
  then have "canon z = canon (enc xs)" using assms canon_encodes by metis
  then show ?thesis by (simp add: fun_eq_iff names_zone_def)
qed

lemma dropWhile_hd: "(if xs \<noteq> [] \<and> P (hd xs) then dropWhile P xs else xs) = dropWhile P xs"
  by (cases xs) auto

lemma ta_scan_whole:
  assumes "ok_entries es" "longest_first es" "encodes zp xs"
  shows "\<exists>tmp. ta_scan usable es es zp = Some (tmp, List.find (names_zone usable zp) es) \<and>
    (List.find (names_zone usable zp) es = None \<longrightarrow> tmp = dropWhile (longer_than (length (enc xs))) es)"
proof (rule ta_scan_eq [OF assms, of usable es])
  fix tmp
  let ?P = "longer_than (length (enc xs))"
  assume s: "ta_scan usable es es zp = Some (tmp, List.find (names_zone usable zp) es)"
    and h: "List.find (names_zone usable zp) es = None \<Longrightarrow>
      tmp = (if es \<noteq> [] \<and> longer_than (length (enc xs)) (hd es)
             then dropWhile (longer_than (length (enc xs))) es else es)"
  have d: "tmp = dropWhile ?P es" if "List.find (names_zone usable zp) es = None"
    using h [OF that] dropWhile_hd [of es ?P] by (rule trans)
  show ?thesis by (intro exI [of _ tmp] conjI impI s) (rule d)
qed

lemma closest_suffix: "closest usable es xs = Some (zs, e) \<Longrightarrow> \<exists>us. xs = us @ zs"
proof (induction xs)
  case (Cons l ls)
  show ?case
  proof (cases "List.find (names_zone usable (enc (l # ls))) es")
    case None
    with Cons.prems have "closest usable es ls = Some (zs, e)" by (simp add: closest.simps [of _ _ "l # ls"])
    then obtain us where "ls = us @ zs" using Cons.IH by blast
    then show ?thesis by (intro exI [of _ "l # us"]) simp
  next
    case (Some a)
    with Cons.prems have "zs = l # ls" by (simp add: closest.simps [of _ _ "l # ls"])
    then show ?thesis by (intro exI [of _ "[]"]) simp
  qed
qed (simp add: closest.simps [of _ _ "[]"] split: option.splits)

lemma closest_length: "closest usable es xs = Some (zs, e) \<Longrightarrow> length (enc zs) \<le> length (enc xs)"
  by (drule closest_suffix) (auto simp: enc_append)

lemma ta_climb_enc:
  assumes "list_all wf_label pre" "wf_name xs" "ok_entries es" "longest_first es"
  shows "ta_climb usable (encl pre @ enc xs @ t) (length (encl pre)) (length (encl pre @ enc xs)) es =
    Some (map_option (\<lambda>(zs, e). (length (encl pre) + (length (enc xs) - length (enc zs)), e)) (closest usable es xs))"
  using assms
proof (induction xs arbitrary: pre es)
  case Nil
  have "encodes (enc [] @ t) []" using Nil by blast
  then obtain tmp where tmp: "ta_scan usable es es (enc [] @ t) =
      Some (tmp, List.find (names_zone usable (enc [] @ t)) es)"
    using ta_scan_eq [OF Nil(3,4)] by metis
  have z: "names_zone usable (enc [] @ t) = names_zone usable (enc [])"
    by (rule names_zone_encodes) (use Nil in blast)
  show ?case
    using Nil tmp z
    by (auto simp: ta_climb.simps [of _ _ "length (encl pre)"] closest.simps
        ta_climb.simps [of _ _ "Suc (length (encl pre))"] split: option.splits)
next
  case (Cons l ls)
  have wf: "wf_label l" "wf_name ls" using Cons.prems(2) by (auto simp: wf_name_Cons)
  have en: "encodes (enc (l # ls) @ t) (l # ls)" using Cons.prems(2) by blast
  obtain tmp where tmp: "ta_scan usable es es (enc (l # ls) @ t) =
      Some (tmp, List.find (names_zone usable (enc (l # ls) @ t)) es)"
    and tmp_drop: "List.find (names_zone usable (enc (l # ls) @ t)) es = None \<longrightarrow>
       tmp = dropWhile (longer_than (length (enc (l # ls)))) es"
    using ta_scan_whole [OF Cons.prems(3,4) en] by blast
  have z: "names_zone usable (enc (l # ls) @ t) = names_zone usable (enc (l # ls))"
    by (rule names_zone_encodes) (rule en)
  show ?case
  proof (cases "List.find (names_zone usable (enc (l # ls))) es")
    case (Some e)
    with tmp z show ?thesis
      by (simp add: ta_climb.simps [of _ _ "length (encl pre)"] closest.simps [of _ _ "l # ls"])
  next
    case None
    let ?d = "dropWhile (longer_than (length (enc (l # ls)))) es"
    have d: "ok_entries ?d" "longest_first ?d"
      using Cons.prems(3,4) by (auto simp: list_all_dropWhile longest_first_def sorted_wrt_dropWhile)
    have "closest usable ?d ls = closest usable es ls"
      using Cons.prems wf by (intro closest_dropWhile) (auto simp: length_enc)
    moreover have "map_option (\<lambda>(zs, e). (Suc (length (encl pre) + (length l + (length (enc ls) - length (enc zs)))), e))
        (closest usable es ls)
      = map_option (\<lambda>(zs, e). (length (encl pre) + (Suc (length l + length (enc ls)) - length (enc zs)), e))
        (closest usable es ls)"
      by (rule option.map_cong0) (auto simp: Suc_diff_le dest!: closest_length)
    ultimately show ?thesis
      using None tmp tmp_drop z wf Cons.IH [OF _ wf(2) d, of "pre @ [l]"] Cons.prems(1)
      by (simp add: ta_climb.simps [of _ _ "length (encl pre)"] closest.simps [of _ _ "l # ls"]
          label_simps add.assoc)
  qed
qed

abbreviation entry_ttl :: "'a policy_entry \<Rightarrow> u32 \<Rightarrow> u32" where
  "entry_ttl e ttl_x \<equiv> if 0 < exp_ttl e then word_of_int (exp_ttl e) else ttl_x"

lemma longest_first_live: "longest_first es \<Longrightarrow> longest_first (live now es)"
  by (simp add: longest_first_def sorted_wrt_filter)

lemma climb_live:
  assumes "encodes zone xs" "ok_entries es" "longest_first es"
  obtains cur where "skip_longer (live now es) (length (enc xs)) = Some cur"
    "ta_climb usable zone 0 (length (enc xs)) cur =
      Some (map_option (\<lambda>(zs, e). (length (enc xs) - length (enc zs), e)) (closest usable (live now es) xs))"
proof -
  let ?es = "live now es"
  let ?cur = "dropWhile (longer_than (length (enc xs))) ?es"
  obtain t where t: "zone = enc xs @ t" "wf_name xs" using assms(1) by (rule encodesE)
  have ok: "ok_entries ?es" "longest_first ?es"
    using assms by (simp_all add: list_all_filter longest_first_live)
  then have c: "ok_entries ?cur" "longest_first ?cur"
    by (auto simp: list_all_dropWhile longest_first_def sorted_wrt_dropWhile)
  have "closest usable ?cur xs = closest usable ?es xs"
    using ok t(2) by (intro closest_dropWhile) auto
  with ta_climb_enc [OF _ t(2) c, of "[]" usable t] skip_longer_eq [OF ok(1)] t(1)
  show ?thesis by (intro that [of ?cur]) simp_all
qed

lemma find_trust_point_closest:
  assumes "encodes zone xs" "ok_entries es" "longest_first es"
  obtains ctx' where "find_trust_point now (Entries es) zone = Some (case closest (\<lambda>_. True) (live now es) xs of
    None \<Rightarrow> (VAL_NO_ERROR, [], 0, ctx')
  | Some (zs, e) \<Rightarrow> (VAL_NO_ERROR, enc zs, entry_ttl e 0, ctx'))"
proof -
  obtain t where t: "zone = enc xs @ t" "wf_name xs" using assms(1) by (rule encodesE)
  obtain ctx' where ctx: "retrieve_policy now (Entries es) = Some (live now es, ctx')"
    using retrieve_policy_live by blast
  obtain cur where cur: "skip_longer (live now es) (length (enc xs)) = Some cur"
    "ta_climb (\<lambda>_. True) zone 0 (length (enc xs)) cur =
      Some (map_option (\<lambda>(zs, e). (length (enc xs) - length (enc zs), e)) (closest (\<lambda>_. True) (live now es) xs))"
    using climb_live [OF assms] by metis
  have l: "wire_name_length zone = Some (length (enc xs))" "zone \<noteq> []"
    using assms(1) t by (simp_all add: wire_name_length_encodes)
  show ?thesis
  proof (cases "closest (\<lambda>_. True) (live now es) xs")
    case None
    with cur l ctx show ?thesis by (intro that [of ctx']) (simp add: find_trust_point_def)
  next
    case (Some r)
    then obtain zs e us where r: "closest (\<lambda>_. True) (live now es) xs = Some (zs, e)" "xs = us @ zs"
      using closest_suffix by (metis prod.collapse)
    have wz: "encodes (enc zs @ t) zs" using t(2) r(2) by (metis encodes_enc(1) wf_name_append)
    have p: "ptr zone (length (enc xs) - length (enc zs)) = Some (enc zs @ t)"
      using t(1) r(2) by (simp add: enc_append)
    have "seg (enc zs @ t) 0 (length (enc zs)) = Some (enc zs)" by (simp add: seg_def)
    with cur l ctx r p wire_name_length_encodes [OF wz] show ?thesis
      by (intro that [of ctx']) (simp add: find_trust_point_def)
  qed
qed

text \<open>
  Replacing a suffix. Over the root the new name is the old one with \<open>d\<close> below it; over any other
  suffix the zero byte that marks the cut ends the new name, and \<open>d\<close> is never part of it.
\<close>

lemma replace_name_in_name_subname:
  assumes "encodes n xs" "encodes s ys" "encodes d ds" "subname xs ys"
  obtains n' rest where "replace_name_in_name n s d = Some (VAL_NO_ERROR, n',
    encl (under xs ys) @ (if ys = [] then enc ds else 0 # rest))"
proof -
  obtain t where n: "n = enc xs @ t" "wf_name xs" using assms(1) by (rule encodesE)
  obtain ts where s: "s = enc ys @ ts" using assms(2) by (rule encodesE)
  obtain td where d: "d = enc ds @ td" using assms(3) by (rule encodesE)
  let ?u = "under xs ys" and ?z = "drop (length xs - length ys) xs"
  have xs: "xs = ?u @ ?z" by (simp add: under_def)
  have zlen: "length (enc ?z) = length (enc ys)"
    using subname_offset [OF assms(4)] arg_cong [OF xs, of "\<lambda>l. length (enc l)"] by (simp add: enc_append)
  obtain b r where br: "enc ?z = b # r" by (cases "enc ?z") auto
  have ne: "n = encl ?u @ b # r @ t" using n xs br by (metis append_Cons append_assoc enc_append)
  have cut: "wr n (length (encl ?u)) 0 = Some (encl ?u @ 0 # r @ t)" by (simp add: ne wr_def)
  have len: "length (enc xs) = length (encl ?u) + 1 + length r"
    using subname_offset [OF assms(4)] zlen br by simp
  have front: "seg (encl ?u @ 0 # r @ t) 0 (length (enc xs)) = Some (encl ?u @ 0 # r)"
    by (simp add: seg_def len)
  have bl: "blit (encl ?u @ 0 # r @ t) (length (encl ?u)) (enc ys) = Some (encl ?u @ enc ys @ t)"
    using blit_append [of "enc ys" "0 # r" "encl ?u" t] zlen br by simp
  have name: "replace_name_in_name n s d = Some (VAL_NO_ERROR, encl ?u @ enc ys @ t,
      take (length (enc xs) - 1) (encl ?u @ 0 # r) @ enc ds)"
    using namename_encodes [OF assms(1,2)] assms(4) cut front bl s d
      assms(1-3) [THEN wire_name_length_encodes] assms(1-3) [THEN encodes_not_Nil]
    by (simp add: replace_name_in_name_def seg_full)
  show ?thesis
  proof (cases "r = []")
    case True
    then have "ys = []" using zlen br by (cases ys) auto
    with name True show ?thesis by (intro that) (simp add: len)
  next
    case False
    then have "ys \<noteq> []" using zlen br by (cases ys) auto
    with name False show ?thesis
      by (intro that [of _ "take (length r - 1) r @ enc ds"]) (simp add: len take_Cons')
  qed
qed

lemma replace_name_in_name_cuts:
  assumes "encodes n xs" "encodes s ys" "encodes d ds" "subname xs ys"
  obtains n' new where "replace_name_in_name n s d = Some (VAL_NO_ERROR, n', new)"
    "ys \<noteq> [] \<Longrightarrow> encodes new (under xs ys)"
proof -
  obtain n' rest where r: "replace_name_in_name n s d = Some (VAL_NO_ERROR, n',
    encl (under xs ys) @ (if ys = [] then enc ds else 0 # rest))"
    by (rule replace_name_in_name_subname [OF assms])
  have "wf_name xs" using assms(1) by (auto elim: encodesE)
  then have "wf_name (under xs ys)"
    unfolding under_def by (metis append_take_drop_id wf_name_append)
  then have "encodes (encl (under xs ys) @ 0 # rest) (under xs ys)"
    using encodes_enc(1) [of "under xs ys" rest] by (simp add: enc_def)
  with r show ?thesis by (cases "ys = []") (auto intro: that)
qed

end
