(* ===== verification/Verify.thy ===== *)
theory Verify
  imports Policy
begin

section \<open>Verifying signatures and following the chain of trust\<close>

text \<open>
  \<^verbatim>\<open>libval/val_verify.c\<close> (with the macros of \<^verbatim>\<open>val_verify.h\<close> and
  \<open>SET_MIN_TTL\<close> of \<^verbatim>\<open>val_support.h\<close>) and \<open>is_trusted_key\<close> of
  \<^verbatim>\<open>libval/val_assertion.c\<close>: the data a signature covers, one signature checked under one
  key, and the loops over the signatures, keys and DS records of an assertion. The arguments \<open>C\<close> and
  \<open>now\<close> stand for OpenSSL and the time of day.
\<close>

subsection \<open>Status values\<close>

abbreviation VAL_AC_TRUST_NOCHK :: u16 where "VAL_AC_TRUST_NOCHK \<equiv> 4"
abbreviation VAL_AC_NO_LINK :: u16 where "VAL_AC_NO_LINK \<equiv> 11"
abbreviation VAL_AC_TRUST :: u16 where "VAL_AC_TRUST \<equiv> 12"
abbreviation VAL_AC_RRSIG_MISSING :: u16 where "VAL_AC_RRSIG_MISSING \<equiv> 13"
abbreviation VAL_AC_DNSKEY_MISSING :: u16 where "VAL_AC_DNSKEY_MISSING \<equiv> 14"
abbreviation VAL_AC_NOT_VERIFIED :: u16 where "VAL_AC_NOT_VERIFIED \<equiv> 18"
abbreviation VAL_AC_WRONG_LABEL_COUNT :: u16 where "VAL_AC_WRONG_LABEL_COUNT \<equiv> 19"
abbreviation VAL_AC_RRSIG_NOTYETACTIVE :: u16 where "VAL_AC_RRSIG_NOTYETACTIVE \<equiv> 21"
abbreviation VAL_AC_RRSIG_EXPIRED :: u16 where "VAL_AC_RRSIG_EXPIRED \<equiv> 22"
abbreviation VAL_AC_RRSIG_ALGORITHM_MISMATCH :: u16 where "VAL_AC_RRSIG_ALGORITHM_MISMATCH \<equiv> 24"
abbreviation VAL_AC_DNSKEY_NOMATCH :: u16 where "VAL_AC_DNSKEY_NOMATCH \<equiv> 25"
abbreviation VAL_AC_UNKNOWN_DNSKEY_PROTOCOL :: u16 where "VAL_AC_UNKNOWN_DNSKEY_PROTOCOL \<equiv> 26"
abbreviation VAL_AC_DS_NOMATCH :: u16 where "VAL_AC_DS_NOMATCH \<equiv> 27"
abbreviation VAL_AC_INVALID_DS :: u16 where "VAL_AC_INVALID_DS \<equiv> 29"
abbreviation VAL_AC_ALGORITHM_NOT_SUPPORTED :: u16 where "VAL_AC_ALGORITHM_NOT_SUPPORTED \<equiv> 30"
abbreviation VAL_AC_VERIFIED :: u16 where "VAL_AC_VERIFIED \<equiv> 31"
abbreviation VAL_AC_WCARD_VERIFIED :: u16 where "VAL_AC_WCARD_VERIFIED \<equiv> 33"
abbreviation VAL_AC_RRSIG_VERIFIED_SKEW :: u16 where "VAL_AC_RRSIG_VERIFIED_SKEW \<equiv> 34"
abbreviation VAL_AC_WCARD_VERIFIED_SKEW :: u16 where "VAL_AC_WCARD_VERIFIED_SKEW \<equiv> 35"
abbreviation VAL_AC_TRUST_POINT :: u16 where "VAL_AC_TRUST_POINT \<equiv> 36"
abbreviation VAL_AC_SIGNING_KEY :: u16 where "VAL_AC_SIGNING_KEY \<equiv> 37"
abbreviation VAL_AC_VERIFIED_LINK :: u16 where "VAL_AC_VERIFIED_LINK \<equiv> 38"

abbreviation ZONE_KEY_FLAG :: u16 where "ZONE_KEY_FLAG \<equiv> 0x0100"
abbreviation VAL_QUERY_USING_DLV :: u32 where "VAL_QUERY_USING_DLV \<equiv> 0x00000008"
abbreviation VAL_QUERY_IGNORE_SKEW :: u32 where "VAL_QUERY_IGNORE_SKEW \<equiv> 0x00000100"
abbreviation VAL_QUERY_CHECK_ALL_RRSIGS :: u32 where "VAL_QUERY_CHECK_ALL_RRSIGS \<equiv> 0x00080000"

abbreviation RRSIGLABEL :: nat where "RRSIGLABEL \<equiv> 3"
abbreviation TTL :: nat where "TTL \<equiv> 4"
abbreviation ENVELOPE :: nat where "ENVELOPE \<equiv> 10"

subsection \<open>One signature under one key\<close>

text \<open>
  The time window. \<open>now\<close> is a \<open>long\<close>, the times of the signature are unsigned 32-bit numbers, and the
  sum and difference with the skew are taken in 32 bits.
\<close>

definition sig_time_error :: "int \<Rightarrow> val_rrsig_rdata \<Rightarrow> int \<Rightarrow> u16 option" where
  "sig_time_error now rrsig clock_skew =
     (if 0 \<le> clock_skew then
        (if now < uint (sig_incp rrsig) \<and> now < uint (sig_incp rrsig - word_of_int clock_skew)
         then Some VAL_AC_RRSIG_NOTYETACTIVE
         else if uint (sig_expr rrsig) < now \<and> uint (sig_expr rrsig + word_of_int clock_skew) < now
         then Some VAL_AC_RRSIG_EXPIRED
         else None)
      else None)"

text \<open>The \<open>switch\<close> over the algorithms.\<close>

definition sigverify_switch :: "openssl \<Rightarrow> byte list \<Rightarrow> val_dnskey_rdata \<Rightarrow> val_rrsig_rdata \<Rightarrow>
    u16 \<times> u16 \<Rightarrow> (u16 \<times> u16) option" where
  "sigverify_switch C data dnskey rrsig st =
     (let alg = sig_algorithm rrsig in
      if alg = ALG_RSAMD5 then rsamd5_sigverify C data dnskey rrsig st
      else if alg = ALG_NSEC3_DSASHA1 \<or> alg = ALG_DSASHA1 then dsasha1_sigverify C data dnskey rrsig st
      else if alg = ALG_NSEC3_RSASHA1 \<or> alg = ALG_RSASHA1 \<or> alg = ALG_RSASHA256 \<or> alg = ALG_RSASHA512
      then rsasha_sigverify C data dnskey rrsig st
      else if alg = ALG_ECDSAP256SHA256 \<or> alg = ALG_ECDSAP384SHA384
      then ecdsa_sigverify C data dnskey rrsig st
      else Some (VAL_AC_ALGORITHM_NOT_SUPPORTED, VAL_AC_ALGORITHM_NOT_SUPPORTED))"

text \<open>\<open>val_sigverify\<close>: the return value and the pair of \<open>*dnskey_status\<close> and \<open>*sig_status\<close>.\<close>

definition val_sigverify :: "openssl \<Rightarrow> int \<Rightarrow> nat \<Rightarrow> byte list \<Rightarrow> val_dnskey_rdata \<Rightarrow> val_rrsig_rdata \<Rightarrow>
    u16 \<times> u16 \<Rightarrow> int \<Rightarrow> (bool \<times> u16 \<times> u16) option" where
  "val_sigverify C now is_a_wildcard data dnskey rrsig st clock_skew =
     (if flags dnskey AND ZONE_KEY_FLAG = 0 then Some (False, VAL_AC_INVALID_KEY, snd st)
      else if protocol dnskey \<noteq> 3 then Some (False, VAL_AC_UNKNOWN_DNSKEY_PROTOCOL, snd st)
      else if algorithm dnskey \<noteq> sig_algorithm rrsig
      then Some (False, fst st, VAL_AC_RRSIG_ALGORITHM_MISMATCH)
      else case sig_time_error now rrsig clock_skew of
        Some e \<Rightarrow> Some (False, fst st, e)
      | None \<Rightarrow> do {
          (kst, sst) \<leftarrow> sigverify_switch C data dnskey rrsig st;
          Some (if sst = VAL_AC_RRSIG_VERIFIED then
              (True, kst,
               if is_a_wildcard \<noteq> 0 then
                 (if 0 < clock_skew then VAL_AC_WCARD_VERIFIED_SKEW else VAL_AC_WCARD_VERIFIED)
               else if 0 < clock_skew then VAL_AC_RRSIG_VERIFIED_SKEW else sst)
            else (False, kst, sst))
        })"

subsection \<open>The data a signature covers\<close>

text \<open>
  \<open>predict_sigbuflength\<close>: \<open>*field_length\<close> and \<open>*signer_length\<close>. The signer is that of the first
  signature of the set.
\<close>

definition predict_sigbuflength :: "rrset_rec \<Rightarrow> (val_ret + nat \<times> nat) option" where
  "predict_sigbuflength rr_set = do {
     owner_length \<leftarrow> wire_name_length (rrs_name_n rr_set);
     sig0 \<leftarrow> first_rdata (rrs_sig rr_set);
     signer \<leftarrow> ptr sig0 SIGNBY;
     signer_length \<leftarrow> wire_name_length signer;
     Some (if signer_length = 0 then Inl VAL_BAD_ARGUMENT
       else Inr (SIGNBY + signer_length +
         sum_list (map (\<lambda>rr. owner_length + ENVELOPE + length (rr_rdata rr)) (rrs_data rr_set)),
         signer_length))
   }"

text \<open>The owner name in each envelope; an inner \<open>None\<close> is the jump to \<open>err\<close>.\<close>

definition sigfield_owner :: "byte list \<Rightarrow> nat \<Rightarrow> byte list option option" where
  "sigfield_owner lowered_owner_n is_a_wildcard =
     (if is_a_wildcard \<noteq> 0 then do {
        i \<leftarrow> skip_labels lowered_owner_n 0 is_a_wildcard;
        np \<leftarrow> ptr lowered_owner_n i;
        outer_len \<leftarrow> wire_name_length np;
        if NS_MAXCDNAME < outer_len + 2 then Some None
        else do { outer \<leftarrow> seg np 0 outer_len; Some (Some (1 # 0x2a # outer)) }
      } else Some (Some lowered_owner_n))"

fun sigfield_rrs :: "byte list \<Rightarrow> nat \<Rightarrow> byte list \<Rightarrow> nat \<Rightarrow> rrset_rr list \<Rightarrow> byte list \<Rightarrow>
    byte list option option" where
  "sigfield_rrs lown is_a_wildcard fixed limit [] field = Some (Some field)"
| "sigfield_rrs lown is_a_wildcard fixed limit (rr # rrs) field =
     (if rr_rdata rr = [] then Some None
      else do {
        own \<leftarrow> sigfield_owner lown is_a_wildcard;
        case own of None \<Rightarrow> Some None
        | Some owner \<Rightarrow>
            if limit < length field + length owner then Some None
            else if limit < length field + length owner + 8 then Some None
            else if limit < length field + length owner + 8 + 2 + length (rr_rdata rr) then Some None
            else sigfield_rrs lown is_a_wildcard fixed limit rrs
              (field @ owner @ fixed @ put16 (word_of_nat (length (rr_rdata rr))) @ rr_rdata rr)
      })"

text \<open>\<open>make_sigfield\<close>: the set, whose \<open>rrs_ttl_h\<close> it sets, and \<open>*field\<close> or an error.\<close>

definition make_sigfield :: "rrset_rec \<Rightarrow> byte list \<Rightarrow> nat \<Rightarrow> (rrset_rec \<times> (val_ret + byte list)) option" where
  "make_sigfield rr_set rr_sig is_a_wildcard =
     (if rrs_name_n rr_set = [] \<or> rrs_sig rr_set = [] \<or> rr_rdata (hd (rrs_sig rr_set)) = []
      then Some (rr_set, Inl VAL_BAD_ARGUMENT)
      else do {
        p \<leftarrow> predict_sigbuflength rr_set;
        case p of Inl e \<Rightarrow> Some (rr_set, Inl e)
        | Inr (field_length, signer_length) \<Rightarrow> do {
            ttl_n \<leftarrow> seg rr_sig TTL 4;
            ttl \<leftarrow> get32 rr_sig TTL;
            let rr_set' = rr_set\<lparr> rrs_ttl_h := ttl \<rparr>;
            owner_length \<leftarrow> wire_name_length (rrs_name_n rr_set);
            if owner_length = 0 then Some (rr_set', Inl VAL_BAD_ARGUMENT)
            else do {
              lown \<leftarrow> lowered_copy (rrs_name_n rr_set);
              if field_length < SIGNBY + signer_length then Some (rr_set', Inl VAL_BAD_ARGUMENT)
              else do {
                sig_head \<leftarrow> seg rr_sig 0 (SIGNBY + signer_length);
                (field, _) \<leftarrow> lower_name sig_head SIGNBY;
                r \<leftarrow> sigfield_rrs lown is_a_wildcard
                  (put16 (rrs_type_h rr_set) @ put16 (rrs_class_h rr_set) @ ttl_n) field_length
                  (rrs_data rr_set) field;
                Some (rr_set', case r of None \<Rightarrow> Inl VAL_BAD_ARGUMENT | Some f \<Rightarrow> Inr f)
              }
            }
          }
      })"

subsection \<open>One signature of a set under one key\<close>

text \<open>\<open>identify_key_from_sig\<close>: the offset of the signer name and the key tag (in host order).\<close>

definition identify_key_from_sig :: "byte list \<Rightarrow> (val_ret + nat \<times> u16) option" where
  "identify_key_from_sig rdata =
     (if rdata = [] \<or> length rdata < SIGNBY then Some (Inl VAL_BAD_ARGUMENT)
      else do { tag \<leftarrow> get16 rdata (SIGNBY - 2); Some (Inr (SIGNBY, tag)) })"

definition set_min_ttl :: "u32 \<Rightarrow> u32 \<Rightarrow> u32" where
  "set_min_ttl q_ttl new_ttl = (if new_ttl \<noteq> 0 \<and> (q_ttl = 0 \<or> new_ttl < q_ttl) then new_ttl else q_ttl)"

text \<open>\<open>do_verify\<close>: its value, the two statuses, the set and the context's clock skew policies.\<close>

definition do_verify :: "openssl \<Rightarrow> int \<Rightarrow> int e_pol \<Rightarrow> byte list \<Rightarrow> u16 \<times> u16 \<Rightarrow> rrset_rec \<Rightarrow> byte list \<Rightarrow>
    val_dnskey_rdata \<Rightarrow> nat \<Rightarrow> u32 \<Rightarrow> (bool \<times> (u16 \<times> u16) \<times> rrset_rec \<times> int e_pol) option" where
  "do_verify C now ctx zone st the_set the_sig the_key is_a_wildcard fl =
     (if is_a_wildcard \<noteq> 0 \<and> (rrs_type_h the_set = ns_t_ds \<or> rrs_type_h the_set = ns_t_dnskey)
      then Some (False, (VAL_AC_INVALID_KEY, snd st), the_set, ctx)
      else do {
        (set1, f) \<leftarrow> make_sigfield the_set the_sig is_a_wildcard;
        case f of Inl _ \<Rightarrow> Some (False, (fst st, VAL_AC_INVALID_RRSIG), set1, ctx)
        | Inr ver_field \<Rightarrow> do {
            r \<leftarrow> val_parse_rrsig_rdata the_sig;
            case r of Inl _ \<Rightarrow> Some (False, (fst st, VAL_AC_INVALID_RRSIG), set1, ctx)
            | Inr rrsig \<Rightarrow> do {
                (clock_skew, ttl_x, ctx') \<leftarrow> (if fl AND VAL_QUERY_IGNORE_SKEW \<noteq> 0 then Some (-1, 0, ctx)
                  else get_clock_skew now ctx zone 0);
                let set2 = set1\<lparr> rrs_ttl_x := set_min_ttl (rrs_ttl_x set1) ttl_x \<rparr>;
                (ok, st') \<leftarrow> val_sigverify C now is_a_wildcard ver_field the_key rrsig st clock_skew;
                Some (ok, st', set2, ctx')
              }
          }
      })"

definition ds_hash_is_equal :: "openssl \<Rightarrow> byte \<Rightarrow> byte list \<Rightarrow> byte list \<Rightarrow> byte list \<Rightarrow> u16 \<Rightarrow>
    (bool \<times> u16) option" where
  "ds_hash_is_equal C ds_hashtype ds_hash name_n dnskey ds_status =
     (if ds_hash = [] \<or> name_n = [] then Some (False, ds_status)
      else if ds_hashtype = ALG_DS_HASH_SHA1
      then do { r \<leftarrow> ds_sha_hash_is_equal C name_n dnskey ds_hash; Some (r, ds_status) }
      else if ds_hashtype = ALG_DS_HASH_SHA256
      then do { r \<leftarrow> ds_sha256_hash_is_equal C name_n dnskey ds_hash; Some (r, ds_status) }
      else if ds_hashtype = ALG_DS_HASH_SHA384
      then do { r \<leftarrow> ds_sha384_hash_is_equal C name_n dnskey ds_hash; Some (r, ds_status) }
      else Some (False, VAL_AC_ALGORITHM_NOT_SUPPORTED))"

text \<open>The macros \<open>DNSKEY_MATCHES_DS\<close> and \<open>DNSKEY_MATCHES_DNSKEY\<close>.\<close>

definition dnskey_matches_ds :: "openssl \<Rightarrow> val_dnskey_rdata \<Rightarrow> val_ds_rdata \<Rightarrow> byte list \<Rightarrow> byte list \<Rightarrow> u16 \<Rightarrow>
    (bool \<times> u16) option" where
  "dnskey_matches_ds C dnskey ds name_n key_rdata ds_status =
     (if key_tag dnskey = d_keytag ds \<and> d_algo ds = algorithm dnskey
      then ds_hash_is_equal C (d_type ds) (d_hash ds) name_n key_rdata ds_status
      else Some (False, ds_status))"

definition dnskey_matches_dnskey :: "val_dnskey_rdata \<Rightarrow> val_dnskey_rdata \<Rightarrow> bool" where
  "dnskey_matches_dnskey key1 key2 \<longleftrightarrow>
     flags key1 = flags key2 \<and> protocol key1 = protocol key2 \<and> algorithm key1 = algorithm key2 \<and>
     key_tag key1 = key_tag key2 \<and> length (public_key key1) = length (public_key key2) \<and>
     memcmp (public_key key1) (public_key key2) = 0"

text \<open>\<open>check_label_count\<close>: \<open>*is_a_wildcard\<close>, or \<open>None\<close> for the answer 0.\<close>

definition check_label_count :: "byte list \<Rightarrow> byte list \<Rightarrow> nat option option" where
  "check_label_count name_n rdata = do {
     owner_labels \<leftarrow> wire_name_labels name_n;
     b \<leftarrow> rd rdata RRSIGLABEL;
     let sig_labels = unat b + 1;
     Some (if owner_labels < sig_labels then None else Some (owner_labels - sig_labels))
   }"

text \<open>The macro \<open>SET_STATUS\<close>: what becomes of \<open>savedstatus\<close>.\<close>

definition set_status :: "u16 \<Rightarrow> u16 \<Rightarrow> u16" where
  "set_status savedstatus newstatus =
     (if savedstatus = VAL_AC_TRUST_NOCHK \<and> newstatus = VAL_AC_DNSKEY_NOMATCH then VAL_AC_NOT_VERIFIED
      else if savedstatus = VAL_AC_TRUST_NOCHK \<or> savedstatus = VAL_AC_TRUST \<or>
        savedstatus = VAL_AC_VERIFIED \<or> savedstatus = VAL_AC_WCARD_VERIFIED \<or> newstatus = VAL_AC_UNSET
      then savedstatus
      else if newstatus = VAL_AC_RRSIG_VERIFIED \<or> newstatus = VAL_AC_RRSIG_VERIFIED_SKEW
      then VAL_AC_VERIFIED
      else if newstatus = VAL_AC_WCARD_VERIFIED \<or> newstatus = VAL_AC_WCARD_VERIFIED_SKEW
      then VAL_AC_WCARD_VERIFIED
      else VAL_AC_NOT_VERIFIED)"

subsection \<open>The assertion and its keys\<close>

text \<open>The inner \<open>while\<close> loop over the DS records: the records, the key's status, and whether one matched.\<close>

fun ds_scan :: "openssl \<Rightarrow> val_dnskey_rdata \<Rightarrow> byte list \<Rightarrow> byte list \<Rightarrow> rrset_rr list \<Rightarrow> u16 \<Rightarrow>
    (rrset_rr list \<times> u16 \<times> bool) option" where
  "ds_scan C dnskey name_n key_rdata [] kst = Some ([], kst, False)"
| "ds_scan C dnskey name_n key_rdata (dsrec # rest) kst = do {
     retval \<leftarrow> val_parse_ds_rdata (rr_rdata dsrec);
     case retval of
       Inl e \<Rightarrow> do {
         (rest', kst', m) \<leftarrow> ds_scan C dnskey name_n key_rdata rest kst;
         Some (dsrec\<lparr> rr_status := if e = VAL_NOT_IMPLEMENTED then VAL_AC_ALGORITHM_NOT_SUPPORTED
           else VAL_AC_INVALID_DS \<rparr> # rest', kst', m)
       }
     | Inr ds \<Rightarrow> do {
         (eq, dst) \<leftarrow> dnskey_matches_ds C dnskey ds name_n key_rdata (rr_status dsrec);
         if eq then Some (dsrec\<lparr> rr_status := VAL_AC_VERIFIED_LINK \<rparr> # rest, VAL_AC_VERIFIED_LINK, True)
         else do {
           (rest', kst', m) \<leftarrow> ds_scan C dnskey name_n key_rdata rest VAL_AC_DS_NOMATCH;
           Some (dsrec\<lparr> rr_status := dst \<rparr> # rest', kst', m)
         }
       }
   }"

text \<open>
  What \<open>verify_next_assertion\<close> changes: the status of the assertion, its set, the keys it looks at (those
  of the set for a DNSKEY set, or when \<open>as\<close> and \<open>the_trust\<close> are the same object, else those of the trust),
  the trust's DS records, the context's policies and the flag \<open>success\<close>. The status of the signature at
  hand is carried beside it.
\<close>

record vstate =
  v_status :: u16
  v_set :: rrset_rec
  v_ds :: "rrset_rr list option"
  v_policy :: "int e_pol"
  v_success :: bool

text \<open>The body of the loop over the keys from the call of \<open>do_verify\<close> on; the flag is the \<open>break\<close>.\<close>

definition try_key :: "openssl \<Rightarrow> int \<Rightarrow> u32 \<Rightarrow> bool \<Rightarrow> byte list \<Rightarrow> nat \<Rightarrow> rrset_rr \<Rightarrow> val_dnskey_rdata \<Rightarrow>
    u16 \<Rightarrow> vstate \<Rightarrow> (rrset_rr \<times> u16 \<times> vstate \<times> bool) option" where
  "try_key C now fl same the_sig is_a_wildcard nextrr dnskey sst s = do {
     (is_verified, (kst, sst'), set', ctx') \<leftarrow> do_verify C now (v_policy s) (drop SIGNBY the_sig)
       (rr_status nextrr, sst) (v_set s) the_sig dnskey is_a_wildcard fl;
     let status = set_status (v_status s) sst';
     let kst' = (if kst = VAL_AC_UNSET then VAL_AC_SIGNING_KEY else kst);
     let s' = s\<lparr> v_status := status, v_set := set', v_policy := ctx' \<rparr>;
     if \<not> is_verified then Some (nextrr\<lparr> rr_status := kst' \<rparr>, sst', s', False)
     else if status = VAL_AC_TRUST \<or> kst' = VAL_AC_TRUST_POINT
     then Some (nextrr\<lparr> rr_status := kst' \<rparr>, sst', s'\<lparr> v_status := VAL_AC_TRUST, v_success := True \<rparr>, True)
     else if rrs_type_h set' = ns_t_dnskey \<and> \<not> same then do {
       dsrecs \<leftarrow> v_ds s;
       (dsrecs', kst'', m) \<leftarrow> ds_scan C dnskey (rrs_name_n set') (rr_rdata nextrr) dsrecs kst';
       Some (nextrr\<lparr> rr_status := kst'' \<rparr>, sst',
         s'\<lparr> v_ds := Some dsrecs', v_success := v_success s \<or> m \<rparr>, False)
     }
     else Some (nextrr\<lparr> rr_status := kst' \<rparr>, sst', s', False)
   }"

fun key_loop :: "openssl \<Rightarrow> int \<Rightarrow> u32 \<Rightarrow> bool \<Rightarrow> byte list \<Rightarrow> nat \<Rightarrow> u16 \<Rightarrow> rrset_rr list \<Rightarrow> u16 \<Rightarrow> vstate \<Rightarrow>
    (rrset_rr list \<times> u16 \<times> vstate) option" where
  "key_loop C now fl same the_sig is_a_wildcard tag_h [] sst s = Some ([], sst, s)"
| "key_loop C now fl same the_sig is_a_wildcard tag_h (nextrr # rest) sst s = do {
     r \<leftarrow> val_parse_dnskey_rdata (rr_rdata nextrr);
     case r of
       Inl _ \<Rightarrow> do {
         (rest', sst', s') \<leftarrow> key_loop C now fl same the_sig is_a_wildcard tag_h rest sst s;
         Some (nextrr\<lparr> rr_status := VAL_AC_INVALID_KEY \<rparr> # rest', sst', s')
       }
     | Inr dnskey \<Rightarrow>
         if key_tag dnskey \<noteq> tag_h then do {
           (rest', sst', s') \<leftarrow> key_loop C now fl same the_sig is_a_wildcard tag_h rest sst s;
           Some (nextrr # rest', sst', s')
         } else do {
           (nextrr', sst1, s1, stop) \<leftarrow> try_key C now fl same the_sig is_a_wildcard nextrr dnskey sst s;
           if stop then Some (nextrr' # rest, sst1, s1)
           else do {
             (rest', sst', s') \<leftarrow> key_loop C now fl same the_sig is_a_wildcard tag_h rest sst1 s1;
             Some (nextrr' # rest', sst', s')
           }
         }
   }"

text \<open>The outer loop over the signatures: the signatures and keys with their statuses, and the state.\<close>

fun sig_loop :: "openssl \<Rightarrow> int \<Rightarrow> u32 \<Rightarrow> bool \<Rightarrow> rrset_rr list \<Rightarrow> rrset_rr list \<Rightarrow> vstate \<Rightarrow>
    (rrset_rr list \<times> rrset_rr list \<times> vstate) option" where
  "sig_loop C now fl same [] keys s = Some ([], keys, s)"
| "sig_loop C now fl same (the_sig # rest) keys s = do {
     w \<leftarrow> check_label_count (rrs_name_n (v_set s)) (rr_rdata the_sig);
     case w of
       None \<Rightarrow> do {
         (rest', keys', s') \<leftarrow> sig_loop C now fl same rest keys
           (s\<lparr> v_status := set_status (v_status s) VAL_AC_WRONG_LABEL_COUNT \<rparr>);
         Some (the_sig\<lparr> rr_status := VAL_AC_WRONG_LABEL_COUNT \<rparr> # rest', keys', s')
       }
     | Some is_a_wildcard \<Rightarrow> do {
         i \<leftarrow> identify_key_from_sig (rr_rdata the_sig);
         case i of
           Inl _ \<Rightarrow> do {
             (rest', keys', s') \<leftarrow> sig_loop C now fl same rest keys
               (s\<lparr> v_status := set_status (v_status s) VAL_AC_INVALID_RRSIG \<rparr>);
             Some (the_sig\<lparr> rr_status := VAL_AC_INVALID_RRSIG \<rparr> # rest', keys', s')
           }
         | Inr (_, tag_h) \<Rightarrow> do {
             (keys1, sst, s1) \<leftarrow> key_loop C now fl same (rr_rdata the_sig) is_a_wildcard tag_h keys
               (rr_status the_sig) s;
             let (sst', s2) = (if sst = VAL_AC_UNSET
               then (VAL_AC_DNSKEY_NOMATCH, s1\<lparr> v_status := set_status (v_status s1) VAL_AC_DNSKEY_NOMATCH \<rparr>)
               else (sst, s1));
             let sig' = the_sig\<lparr> rr_status := sst' \<rparr>;
             if v_success s2 \<and> fl AND VAL_QUERY_CHECK_ALL_RRSIGS = 0 then Some (sig' # rest, keys1, s2)
             else do {
               (rest', keys', s') \<leftarrow> sig_loop C now fl same rest keys1 s2;
               Some (sig' # rest', keys', s')
             }
           }
       }
   }"

text \<open>
  \<open>verify_next_assertion\<close>. \<open>as_data\<close> and \<open>trust_data\<close> are the sets of \<open>as\<close> and \<open>the_trust\<close>, different
  objects unless \<open>same\<close> holds; the answer is the status of \<open>as\<close>, its set, the set of \<open>the_trust\<close> and the
  policies.
\<close>

definition verify_next_assertion :: "openssl \<Rightarrow> int \<Rightarrow> int e_pol \<Rightarrow> u32 \<Rightarrow> bool \<Rightarrow> u16 \<Rightarrow> rrset_rec option \<Rightarrow>
    rrset_rec option \<Rightarrow> (u16 \<times> rrset_rec option \<times> rrset_rec option \<times> int e_pol) option" where
  "verify_next_assertion C now ctx fl same status as_data trust_data = (case as_data of
     None \<Rightarrow> Some (status, as_data, trust_data, ctx)
   | Some the_set \<Rightarrow>
       let own_keys = (rrs_type_h the_set = ns_t_dnskey \<or> same) in
       if rrs_sig the_set = [] then Some (VAL_AC_RRSIG_MISSING, as_data, trust_data, ctx)
       else if rrs_type_h the_set \<noteq> ns_t_dnskey \<and> \<not> same \<and> trust_data = None
       then Some (VAL_AC_DNSKEY_MISSING, as_data, trust_data, ctx)
       else if rrs_type_h the_set = ns_t_dnskey \<and> rrs_data the_set = []
       then Some (VAL_AC_DNSKEY_MISSING, as_data, trust_data, ctx)
       else do {
         let keys = (if own_keys then rrs_data the_set else rrs_data (the trust_data));
         (sigs', keys', s) \<leftarrow> sig_loop C now fl same (rrs_sig the_set) keys
           \<lparr> v_status = status, v_set = the_set,
             v_ds = (if same then None else map_option rrs_data trust_data), v_policy = ctx, v_success = False \<rparr>;
         let set1 = (v_set s)\<lparr> rrs_sig := sigs' \<rparr>;
         let set' = (if own_keys then set1\<lparr> rrs_data := keys' \<rparr> else set1);
         let trust' = (if same then Some set'
           else if own_keys then map_option (\<lambda>t. t\<lparr> rrs_data := the (v_ds s) \<rparr>) trust_data
           else map_option (\<lambda>t. t\<lparr> rrs_data := keys' \<rparr>) trust_data);
         Some (if \<not> v_success s \<and> rrs_type_h the_set = ns_t_dnskey then VAL_AC_NO_LINK else v_status s,
           Some set', trust', v_policy s)
       })"

subsection \<open>Trusted keys\<close>

record trust_anchor_policy =
  publickey :: "val_dnskey_rdata option"
  ta_ds :: "val_ds_rdata option"

text \<open>The loop over the keys for one trust anchor: the keys, and whether one is the anchor.\<close>

definition matches_anchor :: "openssl \<Rightarrow> trust_anchor_policy \<Rightarrow> byte list \<Rightarrow> val_dnskey_rdata \<Rightarrow> byte list \<Rightarrow>
    bool option" where
  "matches_anchor C ta zp dnskey key_rdata =
     (if (case publickey ta of Some k \<Rightarrow> dnskey_matches_dnskey dnskey k | None \<Rightarrow> False) then Some True
      else case ta_ds ta of
        Some ds \<Rightarrow> do { (m, _) \<leftarrow> dnskey_matches_ds C dnskey ds zp key_rdata VAL_AC_UNSET; Some m }
      | None \<Rightarrow> Some False)"

fun anchor_keys :: "openssl \<Rightarrow> trust_anchor_policy option \<Rightarrow> byte list \<Rightarrow> rrset_rr list \<Rightarrow>
    (rrset_rr list \<times> bool) option" where
  "anchor_keys C ta zp [] = Some ([], False)"
| "anchor_keys C ta zp (curkey # rest) = do {
     r \<leftarrow> val_parse_dnskey_rdata (rr_rdata curkey);
     m \<leftarrow> (case (r, ta) of (Inr dnskey, Some p) \<Rightarrow> matches_anchor C p zp dnskey (rr_rdata curkey)
       | _ \<Rightarrow> Some False);
     (rest', found) \<leftarrow> anchor_keys C ta zp rest;
     Some ((if m then curkey\<lparr> rr_status := VAL_AC_TRUST_POINT \<rparr> else curkey) # rest', m \<or> found)
   }"

text \<open>
  The loop over the anchors as long as the zone's own name: the anchors that are left, the keys,
  \<open>ta_specified\<close>, \<open>found\<close> and \<open>*ttl_x\<close>.
\<close>

fun anchors_here :: "openssl \<Rightarrow> byte list \<Rightarrow> nat \<Rightarrow> trust_anchor_policy policy_entry list \<Rightarrow> rrset_rr list \<Rightarrow>
    bool \<Rightarrow> bool \<Rightarrow> u32 \<Rightarrow>
    (trust_anchor_policy policy_entry list \<times> rrset_rr list \<times> bool \<times> bool \<times> u32) option" where
  "anchors_here C zp nlen [] keys ta_specified found ttl_x = Some ([], keys, ta_specified, found, ttl_x)"
| "anchors_here C zp nlen (ta_cur # rest) keys ta_specified found ttl_x = do {
     l \<leftarrow> wire_name_length (zone_n ta_cur);
     if l \<noteq> nlen then Some (ta_cur # rest, keys, ta_specified, found, ttl_x)
     else do {
       c \<leftarrow> namecmp (zone_n ta_cur) zp;
       if c \<noteq> 0 then anchors_here C zp nlen rest keys ta_specified found ttl_x
       else do {
         (keys', m) \<leftarrow> anchor_keys C (pol ta_cur) zp keys;
         anchors_here C zp nlen rest keys' True (found \<or> m)
           (if m \<and> 0 < exp_ttl ta_cur then word_of_int (exp_ttl ta_cur) else ttl_x)
       }
     }
   }"

text \<open>The last loop: is there an anchor above. The pointer moves before the names are compared.\<close>

function anchor_above :: "byte list \<Rightarrow> nat \<Rightarrow> nat \<Rightarrow> 'a policy_entry list \<Rightarrow> bool option" where
  "anchor_above zone zp ep tmphead =
     (if zp < ep then do {
        b \<leftarrow> rd zone zp;
        let zp' = zp + unat b + 1;
        sub \<leftarrow> (if tmphead = [] then Some [] else ptr zone zp');
        (tmphead', r) \<leftarrow> ta_scan (\<lambda>_. True) tmphead tmphead sub;
        case r of Some _ \<Rightarrow> Some True | None \<Rightarrow> anchor_above zone zp' ep tmphead'
      } else Some False)"
  by pat_completeness auto
termination by (relation "measure (\<lambda>(zone, zp, ep, tmphead). ep - zp)") auto

declare anchor_above.simps [simp del]

text \<open>
  \<open>is_trusted_key\<close>: the keys, \<open>*status\<close>, \<open>*ttl_x\<close> and the context's list. \<open>closest_ta_only\<close> is the option
  of that name in \<open>ctx->g_opt\<close>.
\<close>

definition is_trusted_key :: "openssl \<Rightarrow> int \<Rightarrow> bool \<Rightarrow> trust_anchor_policy e_pol \<Rightarrow> byte list \<Rightarrow> rrset_rr list \<Rightarrow>
    u32 \<Rightarrow> u32 \<Rightarrow> (val_ret + rrset_rr list \<times> u16 \<times> u32 \<times> trust_anchor_policy e_pol) option" where
  "is_trusted_key C now closest_ta_only ctx zone key fl ttl_x =
     (if zone = [] then Some (Inl VAL_BAD_ARGUMENT)
      else do {
        nlen \<leftarrow> wire_name_length zone;
        (ta_pol, ctx') \<leftarrow> retrieve_policy now ctx;
        if ta_pol = [] then Some (Inr (key, VAL_AC_NO_LINK, ttl_x, ctx'))
        else do {
          cur \<leftarrow> skip_longer ta_pol nlen;
          (rest, key', ta_specified, found, ttl_x') \<leftarrow> anchors_here C zone nlen cur key False False ttl_x;
          let dlv = (fl AND VAL_QUERY_USING_DLV \<noteq> 0);
          if ta_specified \<and> found then Some (Inr (key', VAL_AC_TRUST_NOCHK, ttl_x', ctx'))
          else if ta_specified \<and> closest_ta_only
          then Some (Inr (key', if dlv then VAL_AC_WAIT_FOR_TRUST else VAL_AC_NO_LINK, ttl_x', ctx'))
          else do {
            above \<leftarrow> anchor_above zone 0 nlen rest;
            Some (Inr (key', if above \<or> dlv then VAL_AC_WAIT_FOR_TRUST else VAL_AC_NO_LINK, ttl_x', ctx'))
          }
        }
      })"

subsection \<open>The time window and the primitives\<close>

lemma sig_time_window:
  assumes "0 \<le> skew" "skew \<le> uint (sig_incp rrsig)" "uint (sig_expr rrsig) + skew < 2 ^ 32"
  shows "sig_time_error now rrsig skew = None \<longleftrightarrow>
    uint (sig_incp rrsig) - skew \<le> now \<and> now \<le> uint (sig_expr rrsig) + skew"
proof -
  have b: "uint (sig_incp rrsig) < 2 ^ 32" "0 \<le> uint (sig_expr rrsig)"
    using uint_bounded [of "sig_incp rrsig"] by simp_all
  have s: "uint (word_of_int skew :: u32) = skew" using assms b by (simp add: uint_word_of_int_eq take_bit_int_eq_self)
  have "uint (sig_incp rrsig - word_of_int skew) = uint (sig_incp rrsig) - skew"
    using assms s by (simp add: uint_sub_if')
  moreover have "uint (sig_expr rrsig + word_of_int skew) = uint (sig_expr rrsig) + skew"
    using assms s by (simp add: uint_add_lem [THEN iffD1])
  ultimately show ?thesis using assms by (auto simp: sig_time_error_def)
qed

text \<open>The signature is good under the key, as the primitive for its algorithm says.\<close>

definition signed_by :: "openssl \<Rightarrow> byte list \<Rightarrow> val_dnskey_rdata \<Rightarrow> val_rrsig_rdata \<Rightarrow> bool" where
  "signed_by C data dnskey rrsig \<longleftrightarrow>
     map_option snd (sigverify_switch C data dnskey rrsig (VAL_AC_UNSET, VAL_AC_UNSET)) = Some VAL_AC_RRSIG_VERIFIED"

lemma rsamd5_sigverify_stale:
  "rsamd5_sigverify C data dnskey rrsig (k, s) = Some (k', VAL_AC_RRSIG_VERIFIED) \<Longrightarrow> s \<noteq> VAL_AC_RRSIG_VERIFIED \<Longrightarrow>
   map_option snd (rsamd5_sigverify C data dnskey rrsig (k0, s0)) = Some VAL_AC_RRSIG_VERIFIED"
  by (auto simp: rsamd5_sigverify_def split: bind_splits option.splits if_splits)

lemma rsasha_sigverify_stale:
  "rsasha_sigverify C data dnskey rrsig (k, s) = Some (k', VAL_AC_RRSIG_VERIFIED) \<Longrightarrow> s \<noteq> VAL_AC_RRSIG_VERIFIED \<Longrightarrow>
   map_option snd (rsasha_sigverify C data dnskey rrsig (k0, s0)) = Some VAL_AC_RRSIG_VERIFIED"
  by (auto simp: rsasha_sigverify_def split: bind_splits option.splits if_splits)

lemma dsasha1_sigverify_stale:
  "dsasha1_sigverify C data dnskey rrsig (k, s) = Some (k', VAL_AC_RRSIG_VERIFIED) \<Longrightarrow> s \<noteq> VAL_AC_RRSIG_VERIFIED \<Longrightarrow>
   map_option snd (dsasha1_sigverify C data dnskey rrsig (k0, s0)) = Some VAL_AC_RRSIG_VERIFIED"
  by (auto simp: dsasha1_sigverify_def Let_def split: bind_splits option.splits if_splits)

lemma ecdsa_sigverify_stale:
  "ecdsa_sigverify C data dnskey rrsig (k, s) = Some (k', VAL_AC_RRSIG_VERIFIED) \<Longrightarrow> s \<noteq> VAL_AC_RRSIG_VERIFIED \<Longrightarrow>
   map_option snd (ecdsa_sigverify C data dnskey rrsig (k0, s0)) = Some VAL_AC_RRSIG_VERIFIED"
  apply (cases "sig_algorithm rrsig = ALG_ECDSAP256SHA256"; cases "sig_algorithm rrsig = ALG_ECDSAP384SHA384")
     apply (simp_all add: ecdsa_sigverify_def Let_def split: bind_splits if_split_asm)
   apply auto
  done

lemma sigverify_switch_cases:
  obtains "\<And>st. sigverify_switch C data dnskey rrsig st = rsamd5_sigverify C data dnskey rrsig st"
  | "\<And>st. sigverify_switch C data dnskey rrsig st = dsasha1_sigverify C data dnskey rrsig st"
  | "\<And>st. sigverify_switch C data dnskey rrsig st = rsasha_sigverify C data dnskey rrsig st"
  | "\<And>st. sigverify_switch C data dnskey rrsig st = ecdsa_sigverify C data dnskey rrsig st"
  | "\<And>st. sigverify_switch C data dnskey rrsig st =
      Some (VAL_AC_ALGORITHM_NOT_SUPPORTED, VAL_AC_ALGORITHM_NOT_SUPPORTED)"
proof -
  let ?a = "sig_algorithm rrsig"
  consider "?a = ALG_RSAMD5" | "?a = ALG_NSEC3_DSASHA1 \<or> ?a = ALG_DSASHA1"
    | "?a = ALG_NSEC3_RSASHA1 \<or> ?a = ALG_RSASHA1 \<or> ?a = ALG_RSASHA256 \<or> ?a = ALG_RSASHA512"
    | "?a = ALG_ECDSAP256SHA256 \<or> ?a = ALG_ECDSAP384SHA384"
    | "?a \<notin> {ALG_RSAMD5, ALG_NSEC3_DSASHA1, ALG_DSASHA1, ALG_NSEC3_RSASHA1, ALG_RSASHA1, ALG_RSASHA256,
        ALG_RSASHA512, ALG_ECDSAP256SHA256, ALG_ECDSAP384SHA384}"
    by blast
  then show ?thesis
  proof cases
    case 1
    then show ?thesis by (intro that(1)) (simp add: sigverify_switch_def)
  next
    case 2
    then show ?thesis by (intro that(2)) (auto simp: sigverify_switch_def)
  next
    case 3
    then show ?thesis by (intro that(3)) (auto simp: sigverify_switch_def)
  next
    case 4
    then show ?thesis by (intro that(4)) (auto simp: sigverify_switch_def)
  next
    case 5
    then show ?thesis by (intro that(5)) (simp add: sigverify_switch_def)
  qed
qed

lemma sigverify_switch_signed:
  assumes "sigverify_switch C data dnskey rrsig (k, s) = Some (k', VAL_AC_RRSIG_VERIFIED)" "s \<noteq> VAL_AC_RRSIG_VERIFIED"
  shows "signed_by C data dnskey rrsig"
proof (cases rule: sigverify_switch_cases [of C data dnskey rrsig])
  case 1
  show ?thesis using assms unfolding signed_by_def 1 by (rule rsamd5_sigverify_stale)
next
  case 2
  show ?thesis using assms unfolding signed_by_def 2 by (rule dsasha1_sigverify_stale)
next
  case 3
  show ?thesis using assms unfolding signed_by_def 3 by (rule rsasha_sigverify_stale)
next
  case 4
  show ?thesis using assms unfolding signed_by_def 4 by (rule ecdsa_sigverify_stale)
next
  case 5
  show ?thesis using assms unfolding 5 by simp
qed

text \<open>What a positive answer of \<open>val_sigverify\<close> says, when the signature had no verdict before.\<close>

lemma val_sigverify_sound:
  assumes "val_sigverify C now w data dnskey rrsig (k, s) skew = Some (True, k', s')" "s \<noteq> VAL_AC_RRSIG_VERIFIED"
  shows "flags dnskey AND ZONE_KEY_FLAG \<noteq> 0" "protocol dnskey = 3" "algorithm dnskey = sig_algorithm rrsig"
    "sig_time_error now rrsig skew = None" "signed_by C data dnskey rrsig"
    "s' = (if w \<noteq> 0 then if 0 < skew then VAL_AC_WCARD_VERIFIED_SKEW else VAL_AC_WCARD_VERIFIED
           else if 0 < skew then VAL_AC_RRSIG_VERIFIED_SKEW else VAL_AC_RRSIG_VERIFIED)"
proof -
  obtain s1 where r: "sigverify_switch C data dnskey rrsig (k, s) = Some (k', s1)" "s1 = VAL_AC_RRSIG_VERIFIED"
    and r2: "flags dnskey AND ZONE_KEY_FLAG \<noteq> 0" "protocol dnskey = 3" "algorithm dnskey = sig_algorithm rrsig"
      "sig_time_error now rrsig skew = None"
      "s' = (if w \<noteq> 0 then if 0 < skew then VAL_AC_WCARD_VERIFIED_SKEW else VAL_AC_WCARD_VERIFIED
           else if 0 < skew then VAL_AC_RRSIG_VERIFIED_SKEW else VAL_AC_RRSIG_VERIFIED)"
    using assms(1) by (auto simp: val_sigverify_def split: if_splits option.splits bind_splits)
  show "signed_by C data dnskey rrsig"
    by (rule sigverify_switch_signed [OF r(1) [unfolded r(2)] assms(2)])
  show "flags dnskey AND ZONE_KEY_FLAG \<noteq> 0" "protocol dnskey = 3" "algorithm dnskey = sig_algorithm rrsig"
    "sig_time_error now rrsig skew = None"
    "s' = (if w \<noteq> 0 then if 0 < skew then VAL_AC_WCARD_VERIFIED_SKEW else VAL_AC_WCARD_VERIFIED
           else if 0 < skew then VAL_AC_RRSIG_VERIFIED_SKEW else VAL_AC_RRSIG_VERIFIED)"
    by (fact r2)+
qed

lemma val_sigverify_negative:
  assumes "val_sigverify C now w data dnskey rrsig (k, s) skew = Some (False, k', s')"
  shows "s' \<noteq> VAL_AC_RRSIG_VERIFIED \<or> s = VAL_AC_RRSIG_VERIFIED"
  using assms by (auto simp: val_sigverify_def sig_time_error_def split: if_splits option.splits bind_splits)

text \<open>
  A key that cannot be read is taken to have verified the signature, when another key has done so before:
  its routine leaves \<open>*sig_status\<close> alone.
\<close>

lemma val_sigverify_unreadable_key:
  assumes "flags dnskey AND ZONE_KEY_FLAG \<noteq> 0" "protocol dnskey = 3" "sig_algorithm rrsig = ALG_RSASHA1"
    "algorithm dnskey = ALG_RSASHA1" "sig_time_error now rrsig 0 = None" "rsa_parse_public_key (public_key dnskey) = Some None"
  shows "val_sigverify C now 0 data dnskey rrsig (k, VAL_AC_RRSIG_VERIFIED) 0 =
    Some (True, VAL_AC_INVALID_KEY, VAL_AC_RRSIG_VERIFIED)"
  using assms by (simp add: val_sigverify_def sigverify_switch_def rsasha_sigverify_def)

subsection \<open>The signed data\<close>

text \<open>
  The data of RFC 4034 section 3.1.8.1 for a set with owner \<open>xs\<close>: the signature's fields with the signer
  name in canonical form, then each record under the owner name, or under the wildcard that replaces its
  first \<open>w\<close> labels, with the original TTL.
\<close>

definition signed_owner :: "label list \<Rightarrow> nat \<Rightarrow> byte list" where
  "signed_owner xs w = (if w = 0 then enc (lower_labels xs) else enc ([0x2a] # lower_labels (drop w xs)))"

definition signed_rr :: "label list \<Rightarrow> nat \<Rightarrow> rrset_rec \<Rightarrow> byte list \<Rightarrow> rrset_rr \<Rightarrow> byte list" where
  "signed_rr xs w rs sig rr = signed_owner xs w @ put16 (rrs_type_h rs) @ put16 (rrs_class_h rs) @
     take 4 (drop TTL sig) @ put16 (word_of_nat (length (rr_rdata rr))) @ rr_rdata rr"

definition signed_data :: "label list \<Rightarrow> nat \<Rightarrow> label list \<Rightarrow> rrset_rec \<Rightarrow> byte list \<Rightarrow> byte list" where
  "signed_data xs w signer rs sig = take SIGNBY sig @ enc (lower_labels signer) @
     concat (map (signed_rr xs w rs sig) (rrs_data rs))"

lemma length_lower_labels: "length (enc (lower_labels xs)) = length (enc xs)"
  by (simp add: length_enc length_encl comp_def)

lemma sigfield_owner_enc:
  assumes "wf_name xs" "w \<le> length xs"
  shows "sigfield_owner (enc (lower_labels xs)) w = Some (Some (signed_owner xs w))"
    and "length (signed_owner xs w) \<le> length (enc xs)"
proof -
  let ?x = "lower_labels xs"
  have wx: "wf_name ?x" by (rule lower_wf_name [OF assms(1)])
  have split: "encl (take w ?x) @ enc (drop w ?x) = enc ?x" by (metis append_take_drop_id enc_append)
  have wt: "wf_name (take w ?x)" "wf_name (drop w ?x)"
    using wx wf_name_append [of "take w ?x" "drop w ?x"] by simp_all
  have sk: "skip_labels (enc ?x) 0 w = Some (length (encl (take w ?x)))"
    using skip_labels_enc [of "take w ?x" "[]" "enc (drop w ?x)"] wt assms(2)
    by (simp add: split wf_name_labels min_absorb2)
  have p: "ptr (enc ?x) (length (encl (take w ?x))) = Some (enc (drop w ?x))"
    by (metis split ptr_append enc_not_Nil)
  have two: "2 \<le> length (encl (take w ?x))" if "w \<noteq> 0"
  proof -
    have "take w ?x \<noteq> []" using that assms(2) by auto
    then obtain l ls where l: "take w ?x = l # ls" by (meson list.exhaust)
    then have "wf_label l" using wt(1) by (simp add: wf_name_Cons)
    then have "0 < length l" by (simp add: wf_label_def)
    with l show ?thesis by (cases "fst (l, ls)") auto
  qed
  have l: "length (enc (drop w ?x)) + 2 \<le> length (enc xs)" if "w \<noteq> 0"
    using two [OF that] arg_cong [OF split, of length] by (simp add: length_lower_labels)
  show "sigfield_owner (enc ?x) w = Some (Some (signed_owner xs w))"
  proof (cases "w = 0")
    case False
    have "length (enc xs) \<le> NS_MAXCDNAME" using assms(1) by (simp add: wf_name_def)
    then have "\<not> NS_MAXCDNAME < length (enc (drop w ?x)) + 2" using l [OF False] by linarith
    then show ?thesis
      using False sk p wire_name_length_encodes [OF encodes_enc(2) [OF wt(2)]]
      by (simp add: sigfield_owner_def signed_owner_def drop_map seg_full)
  qed (simp add: sigfield_owner_def signed_owner_def)
  show "length (signed_owner xs w) \<le> length (enc xs)"
    using l by (cases "w = 0") (auto simp: signed_owner_def length_lower_labels drop_map)
qed

lemma sigfield_rrs_enc:
  assumes "wf_name xs" "w \<le> length xs" "list_all (\<lambda>rr. rr_rdata rr \<noteq> []) rrs" "length fixed = 8"
    "length field + sum_list (map (\<lambda>rr. length (enc xs) + ENVELOPE + length (rr_rdata rr)) rrs) \<le> limit"
  shows "sigfield_rrs (enc (lower_labels xs)) w fixed limit rrs field = Some (Some (field @
    concat (map (\<lambda>rr. signed_owner xs w @ fixed @ put16 (word_of_nat (length (rr_rdata rr))) @ rr_rdata rr) rrs)))"
  using assms
proof (induction rrs arbitrary: field)
  case (Cons rr rrs)
  then show ?case using sigfield_owner_enc [OF Cons.prems(1,2)] by simp
qed simp

text \<open>The buffer built for a signature whose signer name is as long as that of the first signature.\<close>

lemma make_sigfield_signed_data:
  assumes "encodes (rrs_name_n rs) xs" "w \<le> length xs"
    and "rrs_sig rs \<noteq> []" "encodes (drop SIGNBY (rr_rdata (hd (rrs_sig rs)))) zs"
    and "encodes (drop SIGNBY sig) ys" "length (enc ys) = length (enc zs)"
    and "list_all (\<lambda>rr. rr_rdata rr \<noteq> []) (rrs_data rs)"
  obtains ttl where "make_sigfield rs sig w = Some (rs\<lparr> rrs_ttl_h := ttl \<rparr>, Inr (signed_data xs w ys rs sig))"
proof -
  obtain n t where n: "rrs_name_n rs = enc xs @ t" "wf_name xs" using assms(1) by (rule encodesE)
  obtain ty where ys: "drop SIGNBY sig = enc ys @ ty" "wf_name ys" using assms(5) by (rule encodesE)
  let ?s0 = "rr_rdata (hd (rrs_sig rs))"
  have s0: "drop SIGNBY ?s0 \<noteq> []" "?s0 \<noteq> []" using encodes_not_Nil [OF assms(4)] by auto
  have first: "first_rdata (rrs_sig rs) = Some ?s0"
    using assms(3) by (cases "rrs_sig rs") (simp_all add: first_rdata_def)
  have p0: "ptr ?s0 SIGNBY = Some (drop SIGNBY ?s0)" using s0 by (simp add: ptr_def)
  let ?len = "SIGNBY + length (enc zs) +
    sum_list (map (\<lambda>rr. length (enc xs) + ENVELOPE + length (rr_rdata rr)) (rrs_data rs))"
  have pred: "predict_sigbuflength rs = Some (Inr (?len, length (enc zs)))"
    using first p0 assms(1,4) wire_name_length_encodes by (simp add: predict_sigbuflength_def)
  let ?head = "take SIGNBY sig @ enc ys"
  have "length sig > SIGNBY" using ys(1) by (metis append_is_Nil_conv drop_eq_Nil2 enc_not_Nil linorder_not_less)
  then have sig: "sig = take SIGNBY sig @ enc ys @ ty" "length (take SIGNBY sig) = SIGNBY"
    using ys(1) \<open>length sig > SIGNBY\<close> by (metis append_take_drop_id, simp add: min_absorb2)
  obtain ttl where ttl: "get32 sig TTL = Some ttl" "seg sig TTL 4 = Some (take 4 (drop TTL sig))"
    using \<open>length sig > SIGNBY\<close> by (simp add: get32_def seg_def fault_simps)
  have hd: "seg sig 0 (SIGNBY + length (enc zs)) = Some ?head"
    using sig assms(6) by (metis append.assoc length_append list.size(3) seg_append append_Nil)
  have low: "lower_name ?head SIGNBY = Some (take SIGNBY sig @ enc (lower_labels ys), SIGNBY + length (enc ys))"
    using lower_name_enc [OF ys(2), of "take SIGNBY sig" "[]"] sig(2) by simp
  have vn: "valid_name (rrs_name_n rs)" using assms(1) by (auto simp: valid_name_def)
  have fields: "sigfield_rrs (enc (lower_labels xs)) w
      (put16 (rrs_type_h rs) @ put16 (rrs_class_h rs) @ take 4 (drop TTL sig)) ?len (rrs_data rs)
      (take SIGNBY sig @ enc (lower_labels ys)) =
    Some (Some (signed_data xs w ys rs sig))"
    by (subst sigfield_rrs_enc [OF n(2) assms(2,7)])
      (use \<open>length sig > SIGNBY\<close> sig(2) assms(6) in
        \<open>simp_all add: length_lower_labels signed_data_def signed_rr_def [abs_def]\<close>)
  show ?thesis
    using pred ttl hd low fields lowered_copy_canon [OF vn] canon_encodes [OF assms(1)] assms(3) s0
      wire_name_length_encodes [OF assms(1)] n
    by (intro that [of ttl]) (simp add: make_sigfield_def)
qed

text \<open>When the first signer name is longer than what a signature holds, the copy leaves the signature.\<close>

lemma make_sigfield_overread:
  assumes "encodes (rrs_name_n rs) xs" "rrs_sig rs \<noteq> []"
    and "encodes (drop SIGNBY (rr_rdata (hd (rrs_sig rs)))) zs" "length sig < SIGNBY + length (enc zs)"
  shows "make_sigfield rs sig w = None"
proof -
  let ?s0 = "rr_rdata (hd (rrs_sig rs))"
  have s0: "drop SIGNBY ?s0 \<noteq> []" "?s0 \<noteq> []" using encodes_not_Nil [OF assms(3)] by auto
  have first: "first_rdata (rrs_sig rs) = Some ?s0"
    using assms(2) by (cases "rrs_sig rs") (simp_all add: first_rdata_def)
  have p0: "ptr ?s0 SIGNBY = Some (drop SIGNBY ?s0)" using s0 by (simp add: ptr_def)
  obtain len where pred: "predict_sigbuflength rs = Some (Inr (len, length (enc zs)))"
      "SIGNBY + length (enc zs) \<le> len"
    using first p0 assms(1,3) wire_name_length_encodes by (simp add: predict_sigbuflength_def)
  have "seg sig 0 (SIGNBY + length (enc zs)) = None" using assms(4) by (simp add: seg_def)
  with pred assms(1,2) s0 show ?thesis
    by (simp add: make_sigfield_def wire_name_length_encodes not_less split: bind_splits)
qed

subsection \<open>What a verified assertion is worth\<close>

text \<open>The skew that \<open>do_verify\<close> takes, which is the same however often the policies are looked up.\<close>

definition skew_for :: "int \<Rightarrow> int e_pol \<Rightarrow> u32 \<Rightarrow> byte list \<Rightarrow> int option" where
  "skew_for now ctx fl sig = (if fl AND VAL_QUERY_IGNORE_SKEW \<noteq> 0 then Some (-1)
     else map_option fst (get_clock_skew now ctx (drop SIGNBY sig) 0))"

definition policy_from :: "int \<Rightarrow> 'a e_pol \<Rightarrow> 'a e_pol \<Rightarrow> bool" where
  "policy_from now ctx p \<longleftrightarrow> retrieve_policy now p = None \<or>
     map_option fst (retrieve_policy now p) = map_option fst (retrieve_policy now ctx)"

lemma policy_from_refl [simp]: "policy_from now ctx ctx"
  by (simp add: policy_from_def)

lemma policy_from_retrieve:
  "policy_from now ctx p \<Longrightarrow> retrieve_policy now p = Some (l, p') \<Longrightarrow> policy_from now ctx p'"
  by (auto simp: policy_from_def retrieve_policy_def Let_def split: e_pol.splits list.splits if_splits)

lemma get_clock_skew_from:
  assumes "policy_from now ctx p" "get_clock_skew now p z t = Some (skew, t', p')"
  shows "policy_from now ctx p'" "map_option fst (get_clock_skew now ctx z t) = Some skew"
proof -
  obtain l where l: "retrieve_policy now p = Some (l, p')"
    using assms(2) by (auto simp: get_clock_skew_def split: bind_splits option.splits)
  then obtain ctx' where "retrieve_policy now ctx = Some (l, ctx')"
    using assms(1) by (cases "retrieve_policy now ctx") (auto simp: policy_from_def)
  with l assms(2) show "map_option fst (get_clock_skew now ctx z t) = Some skew"
    by (cases "l = []") (auto simp: get_clock_skew_def split: bind_splits option.splits)
  from l assms(1) show "policy_from now ctx p'" by (rule policy_from_retrieve [rotated])
qed

text \<open>
  \<open>authentic\<close>: the signature is good for the set under the key, inside its time window, and the key may sign.
\<close>

definition authentic :: "openssl \<Rightarrow> int \<Rightarrow> int e_pol \<Rightarrow> u32 \<Rightarrow> rrset_rec \<Rightarrow> byte list \<Rightarrow> byte list \<Rightarrow> bool" where
  "authentic C now ctx fl rs sig key \<longleftrightarrow> (\<exists>dnskey rrsig w data ttl skew.
     val_parse_dnskey_rdata key = Some (Inr dnskey) \<and> val_parse_rrsig_rdata sig = Some (Inr rrsig) \<and>
     sig_key_tag rrsig = key_tag dnskey \<and> algorithm dnskey = sig_algorithm rrsig \<and>
     flags dnskey AND ZONE_KEY_FLAG \<noteq> 0 \<and> protocol dnskey = 3 \<and>
     check_label_count (rrs_name_n rs) sig = Some (Some w) \<and>
     (w \<noteq> 0 \<longrightarrow> rrs_type_h rs \<noteq> ns_t_ds \<and> rrs_type_h rs \<noteq> ns_t_dnskey) \<and>
     skew_for now ctx fl sig = Some skew \<and> sig_time_error now rrsig skew = None \<and>
     make_sigfield rs sig w = Some (rs\<lparr> rrs_ttl_h := ttl \<rparr>, Inr data) \<and> signed_by C data dnskey rrsig)"

text \<open>
  The time is inside the window of the signature, widened by the clock skew, wherever a skew is in force (a negative one, as
  \<open>VAL_QUERY_IGNORE_SKEW\<close> gives, asks for no test) and the window does not wrap in 32 bits.
\<close>

definition in_window :: "int \<Rightarrow> int e_pol \<Rightarrow> u32 \<Rightarrow> byte list \<Rightarrow> bool" where
  "in_window now ctx fl sig \<longleftrightarrow> (\<forall>rrsig skew. val_parse_rrsig_rdata sig = Some (Inr rrsig) \<longrightarrow> skew_for now ctx fl sig = Some skew \<longrightarrow>
     0 \<le> skew \<longrightarrow> skew \<le> uint (sig_incp rrsig) \<longrightarrow> uint (sig_expr rrsig) + skew < 2 ^ 32 \<longrightarrow>
     uint (sig_incp rrsig) - skew \<le> now \<and> now \<le> uint (sig_expr rrsig) + skew)"

lemma authentic_in_window: "authentic C now ctx fl rs sig key \<Longrightarrow> in_window now ctx fl sig"
  unfolding authentic_def in_window_def using sig_time_window by fastforce

text \<open>Only the TTLs of the set change on the way, and they play no part.\<close>

definition same_data :: "rrset_rec \<Rightarrow> rrset_rec \<Rightarrow> bool" where
  "same_data rs rs' \<longleftrightarrow> (\<exists>h x. rs' = rs\<lparr> rrs_ttl_h := h, rrs_ttl_x := x \<rparr>)"

lemma same_data_refl [simp]: "same_data rs rs"
  by (cases rs) (auto simp: same_data_def)

lemma same_data_fields:
  "same_data rs rs' \<Longrightarrow> rrs_name_n rs' = rrs_name_n rs \<and> rrs_type_h rs' = rrs_type_h rs \<and>
     rrs_sig rs' = rrs_sig rs \<and> rrs_data rs' = rrs_data rs"
  by (auto simp: same_data_def)

lemma same_data_update [simp]:
  "same_data rs rs' \<Longrightarrow> same_data rs (rs'\<lparr> rrs_ttl_h := h \<rparr>)"
  "same_data rs rs' \<Longrightarrow> same_data rs (rs'\<lparr> rrs_ttl_x := x \<rparr>)"
  by (cases rs; auto simp: same_data_def)+

lemma make_sigfield_snd:
  "map_option snd (make_sigfield (rs\<lparr> rrs_ttl_h := h, rrs_ttl_x := x \<rparr>) sig w) =
   map_option snd (make_sigfield rs sig w)"
proof -
  have "predict_sigbuflength (rs\<lparr> rrs_ttl_h := h, rrs_ttl_x := x \<rparr>) = predict_sigbuflength rs"
    unfolding predict_sigbuflength_def by (simp cong: if_cong)
  then show ?thesis
    by (simp add: make_sigfield_def Let_def map_option_bind comp_def split_def
        if_distrib [of "map_option snd"] sum.case_distrib [of "map_option snd"] cong: if_cong sum.case_cong)
qed

lemma make_sigfield_fst:
  assumes "make_sigfield rs sig w = Some (rs', r)"
  shows "\<exists>h. rs' = rs\<lparr> rrs_ttl_h := h \<rparr>"
proof -
  have u: "\<exists>h. rs = rs\<lparr> rrs_ttl_h := h \<rparr>" by (rule exI [of _ "rrs_ttl_h rs"]) simp
  then show ?thesis
    using assms
    by (simp add: make_sigfield_def Let_def split: if_split_asm bind_splits sum.split_asm prod.split_asm)
      blast+
qed

lemma make_sigfield_same_data:
  assumes "same_data rs rs'" "make_sigfield rs' sig w = Some (rs'', r)"
  obtains h where "same_data rs rs''" "make_sigfield rs sig w = Some (rs\<lparr> rrs_ttl_h := h \<rparr>, r)"
proof -
  obtain h x where rs': "rs' = rs\<lparr> rrs_ttl_h := h, rrs_ttl_x := x \<rparr>" using assms(1) by (auto simp: same_data_def)
  obtain rs1 where m: "make_sigfield rs sig w = Some (rs1, r)"
    using make_sigfield_snd [where rs = rs and h = h and x = x and sig = sig and w = w] assms(2)
    by (cases "make_sigfield rs sig w") (auto simp: rs' [symmetric])
  obtain h1 where "rs1 = rs\<lparr> rrs_ttl_h := h1 \<rparr>" using make_sigfield_fst [OF m] by blast
  moreover have "same_data rs rs''" using make_sigfield_fst [OF assms(2)] assms(1) by auto
  ultimately show ?thesis using m by (intro that) auto
qed

text \<open>The statuses of a signature that stand for success.\<close>

definition sig_verified :: "u16 \<Rightarrow> bool" where
  "sig_verified s \<longleftrightarrow> s \<in> {VAL_AC_RRSIG_VERIFIED, VAL_AC_WCARD_VERIFIED, VAL_AC_RRSIG_VERIFIED_SKEW,
     VAL_AC_WCARD_VERIFIED_SKEW}"

lemma sigverify_switch_status:
  assumes "sigverify_switch C data dnskey rrsig (k, s) = Some (k', s')"
  shows "s' = s \<or> s' \<in> {VAL_AC_INVALID_RRSIG, VAL_AC_RRSIG_VERIFY_FAILED, VAL_AC_ALGORITHM_NOT_SUPPORTED,
    VAL_AC_RRSIG_VERIFIED}"
proof (cases rule: sigverify_switch_cases [of C data dnskey rrsig])
  case 1
  then show ?thesis using assms by (auto simp: rsamd5_sigverify_def split: bind_splits option.split_asm if_split_asm)
next
  case 2
  then show ?thesis
    using assms by (auto simp: dsasha1_sigverify_def Let_def split: bind_splits option.splits if_split_asm)
next
  case 3
  then show ?thesis using assms by (auto simp: rsasha_sigverify_def split: bind_splits option.split_asm if_split_asm)
next
  case 4
  then show ?thesis
    using assms
    by (auto simp: ecdsa_sigverify_def Let_def split: bind_splits option.split_asm if_split_asm)
next
  case 5
  then show ?thesis using assms by simp
qed

lemma val_sigverify_status:
  assumes "val_sigverify C now w data dnskey rrsig (k, s) skew = Some (ok, k', s')"
  shows "(ok \<longrightarrow> sig_verified s') \<and> (\<not> ok \<longrightarrow> sig_verified s' \<longrightarrow> sig_verified s)"
  using assms
  by (auto simp: val_sigverify_def sig_time_error_def sig_verified_def
      split: if_split_asm option.split_asm bind_splits dest!: sigverify_switch_status)

lemma val_parse_rrsig_rdata_tag:
  "val_parse_rrsig_rdata sig = Some (Inr rrsig) \<Longrightarrow> get16 sig 16 = Some (sig_key_tag rrsig)"
  by (auto simp: val_parse_rrsig_rdata_def Let_def split: if_split_asm bind_splits sum.split_asm)

lemma do_verify_steps:
  assumes "do_verify C now p z (k, s) rs sig dnskey w fl = Some (ok, (k', s'), rs'', p')"
  obtains "\<not> ok" "rs'' = rs" "p' = p" "s' = s"
  | rs1 r where "make_sigfield rs sig w = Some (rs1, r)" "\<not> ok" "rs'' = rs1" "p' = p" "s' = VAL_AC_INVALID_RRSIG"
  | rs1 data rrsig skew x where "make_sigfield rs sig w = Some (rs1, Inr data)"
      "w \<noteq> 0 \<longrightarrow> rrs_type_h rs \<noteq> ns_t_ds \<and> rrs_type_h rs \<noteq> ns_t_dnskey"
      "val_parse_rrsig_rdata sig = Some (Inr rrsig)"
      "(if fl AND VAL_QUERY_IGNORE_SKEW \<noteq> 0 then Some (-1, 0, p) else get_clock_skew now p z 0) = Some (skew, x, p')"
      "val_sigverify C now w data dnskey rrsig (k, s) skew = Some (ok, k', s')"
      "rs'' = rs1\<lparr> rrs_ttl_x := set_min_ttl (rrs_ttl_x rs1) x \<rparr>"
proof (cases "w \<noteq> 0 \<and> (rrs_type_h rs = ns_t_ds \<or> rrs_type_h rs = ns_t_dnskey)")
  case True
  with assms show ?thesis by (intro that(1)) (auto simp: do_verify_def)
next
  case False
  then obtain rs1 f where f: "make_sigfield rs sig w = Some (rs1, f)"
    using assms by (auto simp: do_verify_def split: bind_splits)
  show ?thesis
  proof (cases f)
    case (Inl e)
    with False f assms show ?thesis by (intro that(2) [OF f]) (auto simp: do_verify_def)
  next
    case (Inr data)
    with False f assms obtain q where q: "val_parse_rrsig_rdata sig = Some q"
      by (auto simp: do_verify_def split: bind_splits)
    show ?thesis
    proof (cases q)
      case (Inl e)
      with False f Inr q assms show ?thesis by (intro that(2) [OF f]) (auto simp: do_verify_def)
    next
      case (Inr rrsig)
      let ?g = "if fl AND VAL_QUERY_IGNORE_SKEW \<noteq> 0 then Some (-1, 0, p) else get_clock_skew now p z 0"
      note d = assms [unfolded do_verify_def] False f \<open>f = Inr data\<close> q Inr
      obtain skew x p1 where g: "?g = Some (skew, x, p1)"
        using d by (cases ?g) (auto simp del: not_gr_zero)
      with d have "val_sigverify C now w data dnskey rrsig (k, s) skew = Some (ok, k', s')" "p1 = p'"
        "rs'' = rs1\<lparr> rrs_ttl_x := set_min_ttl (rrs_ttl_x rs1) x \<rparr>"
        by (auto simp: Let_def split: bind_splits)
      with False f \<open>f = Inr data\<close> q Inr g show ?thesis by (intro that(3)) auto
    qed
  qed
qed

lemma do_verify_sound:
  assumes "same_data rs rs'" "policy_from now ctx p"
    and "do_verify C now p (drop SIGNBY sig) (k, s) rs' sig dnskey w fl = Some (ok, (k', s'), rs'', p')"
    and "val_parse_dnskey_rdata key = Some (Inr dnskey)" "check_label_count (rrs_name_n rs) sig = Some (Some w)"
    and "get16 sig 16 = Some (key_tag dnskey)"
  shows "same_data rs rs'' \<and> policy_from now ctx p' \<and> (ok \<longrightarrow> sig_verified s') \<and>
    (sig_verified s' \<longrightarrow> sig_verified s \<or> authentic C now ctx fl rs sig key)"
  using assms(3)
proof (cases rule: do_verify_steps)
  case 1
  with assms show ?thesis by simp
next
  case (2 rs1 r)
  then have "same_data rs rs''" using make_sigfield_same_data [OF assms(1)] by metis
  with 2 assms(2) show ?thesis by (simp add: sig_verified_def)
next
  case (3 rs1 data rrsig skew x)
  obtain h where h: "same_data rs rs1" "make_sigfield rs sig w = Some (rs\<lparr> rrs_ttl_h := h \<rparr>, Inr data)"
    by (rule make_sigfield_same_data [OF assms(1) 3(1)])
  have pol: "policy_from now ctx p'" "skew_for now ctx fl sig = Some skew"
    using 3(4) assms(2) get_clock_skew_from [OF assms(2)]
    by (auto simp: skew_for_def split: if_split_asm)
  have st: "(ok \<longrightarrow> sig_verified s') \<and> (\<not> ok \<longrightarrow> sig_verified s' \<longrightarrow> sig_verified s)"
    by (rule val_sigverify_status [OF 3(5)])
  have "authentic C now ctx fl rs sig key" if "ok" "\<not> sig_verified s"
  proof -
    have ns: "s \<noteq> VAL_AC_RRSIG_VERIFIED" using that by (auto simp: sig_verified_def)
    have "sig_key_tag rrsig = key_tag dnskey"
      using val_parse_rrsig_rdata_tag [OF 3(3)] assms(6) by simp
    moreover have "w \<noteq> 0 \<longrightarrow> rrs_type_h rs \<noteq> ns_t_ds \<and> rrs_type_h rs \<noteq> ns_t_dnskey"
      using 3(2) same_data_fields [OF assms(1)] by simp
    ultimately show ?thesis
      using assms(4,5) 3(3) h(2) pol(2) val_sigverify_sound [OF 3(5) [unfolded that(1) [THEN iffD2 [OF eq_True]]] ns]
      unfolding authentic_def by metis
  qed
  with st pol(1) h(1) 3(6) show ?thesis by auto
qed

text \<open>The statuses of an assertion that stand for success.\<close>

definition as_verified :: "u16 \<Rightarrow> bool" where
  "as_verified s \<longleftrightarrow> s \<in> {VAL_AC_VERIFIED, VAL_AC_WCARD_VERIFIED, VAL_AC_TRUST}"

lemma set_status_verified: "as_verified (set_status a b) \<Longrightarrow> as_verified a \<or> sig_verified b"
  by (auto simp: set_status_def as_verified_def sig_verified_def split: if_split_asm)

text \<open>
  The invariant of the loops: success has a reason. \<open>E\<close> stands for the existence of a signature and a key
  that belong together.
\<close>

definition vinv :: "int \<Rightarrow> int e_pol \<Rightarrow> rrset_rec \<Rightarrow> bool \<Rightarrow> vstate \<Rightarrow> bool" where
  "vinv now ctx rs E s \<longleftrightarrow> same_data rs (v_set s) \<and> policy_from now ctx (v_policy s) \<and>
     (as_verified (v_status s) \<longrightarrow> E)"

lemma try_key_sound:
  assumes "try_key C now fl same sig w key dnskey sst s = Some (key', sst', s', stop)"
    and "vinv now ctx rs E s" "sig_verified sst \<longrightarrow> E"
    and "val_parse_dnskey_rdata (rr_rdata key) = Some (Inr dnskey)"
    and "check_label_count (rrs_name_n rs) sig = Some (Some w)" "get16 sig 16 = Some (key_tag dnskey)"
    and "authentic C now ctx fl rs sig (rr_rdata key) \<Longrightarrow> E"
  shows "vinv now ctx rs E s'" "sig_verified sst' \<longrightarrow> E" "rr_rdata key' = rr_rdata key"
proof -
  obtain ok kst rs' p' where d: "do_verify C now (v_policy s) (drop SIGNBY sig) (rr_status key, sst) (v_set s) sig
      dnskey w fl = Some (ok, (kst, sst'), rs', p')"
    and k': "rr_rdata key' = rr_rdata key"
    and s': "v_set s' = rs'" "v_policy s' = p'"
      "v_status s' = set_status (v_status s) sst' \<or> v_status s' = VAL_AC_TRUST \<and> ok"
    using assms(1)
    by (auto simp: try_key_def Let_def split: bind_splits if_split_asm)
  have v: "same_data rs rs' \<and> policy_from now ctx p' \<and> (ok \<longrightarrow> sig_verified sst') \<and>
    (sig_verified sst' \<longrightarrow> sig_verified sst \<or> authentic C now ctx fl rs sig (rr_rdata key))"
    using assms(2) by (intro do_verify_sound [OF _ _ d assms(4-6)]) (auto simp: vinv_def)
  then show E: "sig_verified sst' \<longrightarrow> E" using assms(3,7) by blast
  show "rr_rdata key' = rr_rdata key" by (fact k')
  have "as_verified (v_status s') \<longrightarrow> E"
    using s'(3) v E assms(2) set_status_verified [of "v_status s" sst'] by (auto simp: vinv_def)
  with v s' show "vinv now ctx rs E s'" by (simp add: vinv_def)
qed

lemma key_loop_sound:
  assumes "key_loop C now fl same sig w tag keys sst s = Some (keys', sst', s')"
    and "vinv now ctx rs E s" "sig_verified sst \<longrightarrow> E"
    and "check_label_count (rrs_name_n rs) sig = Some (Some w)" "get16 sig 16 = Some tag"
    and "\<forall>key \<in> set keys. authentic C now ctx fl rs sig (rr_rdata key) \<longrightarrow> E"
  shows "vinv now ctx rs E s' \<and> (sig_verified sst' \<longrightarrow> E) \<and> map rr_rdata keys' = map rr_rdata keys"
  using assms
proof (induction keys arbitrary: sst s keys')
  case (Cons k ks)
  obtain r where r: "val_parse_dnskey_rdata (rr_rdata k) = Some r"
    using Cons.prems(1) by (auto split: bind_splits)
  note IH = Cons.IH [OF _ _ _ Cons.prems(4,5)]
  show ?case
  proof (cases r)
    case (Inl e)
    with r Cons.prems(1) obtain ks' where a: "key_loop C now fl same sig w tag ks sst s = Some (ks', sst', s')"
      "keys' = k\<lparr> rr_status := VAL_AC_INVALID_KEY \<rparr> # ks'" by (auto split: bind_splits)
    show ?thesis using IH [OF a(1) Cons.prems(2,3)] Cons.prems(6) a(2) by simp
  next
    case (Inr dnskey)
    show ?thesis
    proof (cases "key_tag dnskey = tag")
      case False
      with r Inr Cons.prems(1) obtain ks' where
        a: "key_loop C now fl same sig w tag ks sst s = Some (ks', sst', s')" "keys' = k # ks'"
        by (auto split: bind_splits)
      show ?thesis using IH [OF a(1) Cons.prems(2,3)] Cons.prems(6) a(2) by simp
    next
      case True
      with r Inr Cons.prems(1) obtain k' sst1 s1 stop where
        t: "try_key C now fl same sig w k dnskey sst s = Some (k', sst1, s1, stop)"
        by (auto split: bind_splits)
      have tk: "vinv now ctx rs E s1" "sig_verified sst1 \<longrightarrow> E" "rr_rdata k' = rr_rdata k"
        using try_key_sound [OF t Cons.prems(2,3) r [unfolded Inr] Cons.prems(4)] Cons.prems(5,6) True by auto
      show ?thesis
      proof (cases stop)
        case True
        with t r Inr \<open>key_tag dnskey = tag\<close> Cons.prems(1) have "keys' = k' # ks" "sst' = sst1" "s' = s1"
          by auto
        with tk show ?thesis by simp
      next
        case False
        with t r Inr \<open>key_tag dnskey = tag\<close> Cons.prems(1) obtain ks' where
          a: "key_loop C now fl same sig w tag ks sst1 s1 = Some (ks', sst', s')" "keys' = k' # ks'"
          by (auto split: bind_splits)
        show ?thesis using IH [OF a(1) tk(1,2)] Cons.prems(6) a(2) tk(3) by simp
      qed
    qed
  qed
qed simp

lemma identify_key_tag:
  "identify_key_from_sig sig = Some (Inr (p, tag)) \<Longrightarrow> get16 sig 16 = Some tag"
  by (auto simp: identify_key_from_sig_def split: if_split_asm bind_splits)

lemma sig_loop_sound:
  assumes "sig_loop C now fl same sigs keys s = Some (sigs', keys', s')"
    and "vinv now ctx rs E s" "list_all (\<lambda>sig. \<not> sig_verified (rr_status sig)) sigs"
    and "\<forall>sig \<in> set sigs. \<forall>key \<in> rr_rdata ` set keys. authentic C now ctx fl rs (rr_rdata sig) key \<longrightarrow> E"
  shows "vinv now ctx rs E s'"
  using assms
proof (induction sigs arbitrary: keys s sigs')
  case (Cons sig sigs)
  have fields: "rrs_name_n (v_set s) = rrs_name_n rs"
    using Cons.prems(2) same_data_fields by (auto simp: vinv_def)
  have fail: "vinv now ctx rs E (s\<lparr> v_status := set_status (v_status s) st \<rparr>)" if "\<not> sig_verified st" for st
    using Cons.prems(2) set_status_verified [of "v_status s" st] that by (auto simp: vinv_def)
  have rest: "list_all (\<lambda>sig. \<not> sig_verified (rr_status sig)) sigs"
    using Cons.prems(3) by simp
  have E: "\<forall>sig \<in> set sigs. \<forall>key \<in> rr_rdata ` set keys. authentic C now ctx fl rs (rr_rdata sig) key \<longrightarrow> E"
    using Cons.prems(4) by simp
  obtain w where w: "check_label_count (rrs_name_n rs) (rr_rdata sig) = Some w"
    using Cons.prems(1) fields by (auto split: bind_splits)
  show ?case
  proof (cases w)
    case None
    with w fields Cons.prems(1) obtain sigs1 where
      "sig_loop C now fl same sigs keys (s\<lparr> v_status := set_status (v_status s) VAL_AC_WRONG_LABEL_COUNT \<rparr>)
        = Some (sigs1, keys', s')" by (auto split: bind_splits)
    then show ?thesis by (rule Cons.IH) (use fail rest E in \<open>auto simp: sig_verified_def\<close>)
  next
    case (Some wc)
    obtain i where i: "identify_key_from_sig (rr_rdata sig) = Some i"
      using Cons.prems(1) fields w Some by (auto split: bind_splits)
    show ?thesis
    proof (cases i)
      case (Inl e)
      with w Some i fields Cons.prems(1) obtain sigs1 where
        "sig_loop C now fl same sigs keys (s\<lparr> v_status := set_status (v_status s) VAL_AC_INVALID_RRSIG \<rparr>)
          = Some (sigs1, keys', s')" by (auto split: bind_splits)
      then show ?thesis by (rule Cons.IH) (use fail rest E in \<open>auto simp: sig_verified_def\<close>)
    next
      case (Inr q)
      obtain p tag where q: "q = (p, tag)" by (cases q)
      obtain keys1 sst s1 where k: "key_loop C now fl same (rr_rdata sig) wc tag keys (rr_status sig) s = Some (keys1, sst, s1)"
        using Cons.prems(1) fields w Some i Inr q by (auto split: bind_splits)
      have "vinv now ctx rs E s1 \<and> (sig_verified sst \<longrightarrow> E) \<and> rdatas keys1 = rdatas keys"
        by (rule key_loop_sound [OF k Cons.prems(2)])
          (use Cons.prems(3,4) w Some identify_key_tag [of "rr_rdata sig"] i Inr q in auto)
      then have v: "vinv now ctx rs E s1" "rr_rdata ` set keys1 = rr_rdata ` set keys"
        by (auto simp flip: set_map)
      define s2 where "s2 = (if sst = VAL_AC_UNSET
        then s1\<lparr> v_status := set_status (v_status s1) VAL_AC_DNSKEY_NOMATCH \<rparr> else s1)"
      have v2: "vinv now ctx rs E s2"
        using v(1) set_status_verified [of "v_status s1" VAL_AC_DNSKEY_NOMATCH]
        by (auto simp: s2_def vinv_def sig_verified_def)
      consider "s' = s2" | sigs1 where "sig_loop C now fl same sigs keys1 s2 = Some (sigs1, keys', s')"
        using Cons.prems(1) fields w Some i Inr q k
        by (auto simp: s2_def Let_def split: bind_splits if_split_asm)
      then show ?thesis
      proof cases
        case 1
        with v2 show ?thesis by simp
      next
        case 2
        then show ?thesis by (rule Cons.IH) (use v2 rest E v(2) in auto)
      qed
    qed
  qed
qed simp

theorem verify_next_assertion_sound:
  assumes "verify_next_assertion C now ctx fl same status (Some rs) trust = Some (st, as', trust', ctx')"
    and "\<not> as_verified status" "as_verified st" "list_all (\<lambda>sig. \<not> sig_verified (rr_status sig)) (rrs_sig rs)"
  shows "\<exists>sig \<in> set (rrs_sig rs).
    \<exists>key \<in> set (if rrs_type_h rs = ns_t_dnskey \<or> same then rrs_data rs else rrs_data (the trust)).
      authentic C now ctx fl rs (rr_rdata sig) (rr_rdata key)" (is "?E")
proof -
  let ?keys = "if rrs_type_h rs = ns_t_dnskey \<or> same then rrs_data rs else rrs_data (the trust)"
  let ?s0 = "\<lparr> v_status = status, v_set = rs,
      v_ds = (if same then None else map_option rrs_data trust), v_policy = ctx, v_success = False \<rparr>"
  have st: "st \<notin> {VAL_AC_RRSIG_MISSING, VAL_AC_DNSKEY_MISSING, VAL_AC_NO_LINK}"
    using assms(3) by (auto simp: as_verified_def)
  then obtain sigs' keys' s where l: "sig_loop C now fl same (rrs_sig rs) ?keys ?s0 = Some (sigs', keys', s)"
    "st = v_status s"
    using assms(1)
    by (auto simp: verify_next_assertion_def Let_def split: bind_splits if_split_asm)
  have "vinv now ctx rs ?E s"
    by (rule sig_loop_sound [OF l(1) _ assms(4)]) (use assms(2) in \<open>simp add: vinv_def\<close>, blast)
  with l(2) assms(3) show ?thesis by (simp add: vinv_def)
qed

subsection \<open>Trust anchors\<close>

lemma root_length:
  assumes "valid_name n" "name_len n \<le> 1"
  shows "canon n = canon (enc [])"
proof -
  obtain xs where xs: "encodes n xs" using assms(1) by (auto simp: valid_name_def)
  then have "length (enc xs) \<le> 1" using assms(2) by (simp add: wire_name_length_encodes)
  then have "xs = []" by (cases xs) (simp_all add: length_enc)
  with xs show ?thesis
    using canon_encodes [of n "[]"] canon_encodes [OF encodes_enc(2), of "[]"] by (simp add: wf_name_def)
qed

lemma anchor_above_enc:
  assumes "list_all wf_label pre" "wf_name xs" "ok_entries es" "longest_first es" "xs = [] \<Longrightarrow> es = []"
  shows "anchor_above (encl pre @ enc xs @ t) (length (encl pre)) (length (encl pre @ enc xs)) es =
    Some (case xs of [] \<Rightarrow> False | _ # ls \<Rightarrow> closest (\<lambda>_. True) es ls \<noteq> None)"
  using assms
proof (induction xs arbitrary: pre es)
  case Nil
  then show ?case
    by (simp add: anchor_above.simps [of _ "length (encl pre)"] anchor_above.simps [of _ "Suc (length (encl pre))"])
next
  case (Cons l ls)
  let ?k = "length (enc ls)"
  have wf: "wf_label l" "wf_name ls" using Cons.prems(2) by (auto simp: wf_name_Cons)
  have en: "encodes (enc ls @ t) ls" using wf(2) by blast
  have z: "names_zone (\<lambda>_. True) (enc ls @ t) = names_zone (\<lambda>_. True) (enc ls)"
    by (rule names_zone_encodes) (rule en)
  obtain tmp where tmp: "ta_scan (\<lambda>_. True) es es (enc ls @ t) =
      Some (tmp, List.find (names_zone (\<lambda>_. True) (enc ls)) es)"
    and drop: "List.find (names_zone (\<lambda>_. True) (enc ls)) es = None \<longrightarrow> tmp = dropWhile (longer_than ?k) es"
    using ta_scan_whole [OF Cons.prems(3,4) en, of "\<lambda>_. True", unfolded z]
    by (elim exE conjE) (rule that)
  have p: "ptr (encl pre @ enc (l # ls) @ t) (length (encl pre) + length l + 1) = Some (enc ls @ t)"
    using ptr_append [of "enc ls @ t" "encl (pre @ [l])"] by (simp add: add.assoc)
  show ?case
  proof (cases "List.find (names_zone (\<lambda>_. True) (enc ls)) es")
    case (Some e)
    then have "es \<noteq> []" by auto
    with Some p tmp wf show ?thesis
      by (simp add: anchor_above.simps [of _ "length (encl pre)"] label_simps closest.simps [of _ _ ls])
  next
    case None
    let ?d = "dropWhile (longer_than ?k) es"
    have d: "ok_entries ?d" "longest_first ?d"
      using Cons.prems(3,4) by (auto simp: list_all_dropWhile longest_first_def sorted_wrt_dropWhile)
    have root: "?d = []" if "ls = []"
    proof (rule ccontr)
      assume "?d \<noteq> []"
      then obtain e where e: "e \<in> set es" "\<not> longer_than ?k e" by (auto simp: dropWhile_eq_Nil_conv)
      then have "names_zone (\<lambda>_. True) (enc ls) e"
        using Cons.prems(3) root_length [of "zone_n e"] that by (auto simp: names_zone_def list_all_iff)
      with e(1) None show False by (auto simp: find_None_iff)
    qed
    have "anchor_above (encl (pre @ [l]) @ enc ls @ t) (length (encl (pre @ [l]))) (length (encl (pre @ [l]) @ enc ls)) ?d =
      Some (case ls of [] \<Rightarrow> False | _ # ls' \<Rightarrow> closest (\<lambda>_. True) ?d ls' \<noteq> None)"
      by (rule Cons.IH [OF _ wf(2) d root]) (use Cons.prems(1) wf(1) in auto)
    moreover have "(case ls of [] \<Rightarrow> False | _ # ls' \<Rightarrow> closest (\<lambda>_. True) ?d ls' \<noteq> None) =
        (closest (\<lambda>_. True) es ls \<noteq> None)"
      using None closest_dropWhile [of es _ ?k "\<lambda>_. True"] Cons.prems(3) wf(2)
      by (cases ls) (auto simp: closest.simps [of _ _ "_ # _"] closest.simps [of _ _ "[]"] wf_name_Cons length_enc)
    ultimately show ?thesis
      using p tmp None drop wf
      by (cases "es = []") (simp_all add: anchor_above.simps [of _ "length (encl pre)"] label_simps add.assoc)
  qed
qed

text \<open>
  A key becomes a trust point, and its set trusted, only by an anchor configured for its zone: the record
  data \<open>key\<close> is, field by field, the configured public key, or it has the algorithm and the key tag of
  RFC 4034 (but for the RSA/MD5 keys, which have one of their own) of the configured DS record, whose
  digest is that of the canonical owner name followed by \<open>key\<close>.
\<close>

definition ds_digest :: "byte \<Rightarrow> digest option" where
  "ds_digest t = (if t = 1 then Some SHA1 else if t = 2 then Some SHA256 else if t = 4 then Some SHA384 else None)"

definition ds_of_key :: "openssl \<Rightarrow> val_ds_rdata \<Rightarrow> byte list \<Rightarrow> byte \<Rightarrow> byte list \<Rightarrow> bool" where
  "ds_of_key C ds zone alg key \<longleftrightarrow> d_algo ds = alg \<and> (alg \<noteq> ALG_RSAMD5 \<longrightarrow> d_keytag ds = keytag key) \<and>
     (\<exists>d. ds_digest (d_type ds) = Some d \<and> d_hash ds = evp C d (canon zone @ key))"

definition anchored :: "openssl \<Rightarrow> trust_anchor_policy policy_entry \<Rightarrow> byte list \<Rightarrow> byte list \<Rightarrow> bool" where
  "anchored C e zone key \<longleftrightarrow> (\<exists>p fl prot alg k. pol e = Some p \<and> key = put16 fl @ [prot, alg] @ k \<and>
     ((\<exists>a. publickey p = Some a \<and> flags a = fl \<and> protocol a = prot \<and> algorithm a = alg \<and> public_key a = k) \<or>
      (\<exists>ds. ta_ds p = Some ds \<and> ds_of_key C ds zone alg key)))"

definition is_anchor :: "openssl \<Rightarrow> trust_anchor_policy option \<Rightarrow> byte list \<Rightarrow> byte list \<Rightarrow> bool" where
  "is_anchor C ta zone key \<longleftrightarrow> (\<exists>p dnskey. ta = Some p \<and> val_parse_dnskey_rdata key = Some (Inr dnskey) \<and>
     matches_anchor C p zone dnskey key = Some True)"

lemma dnskey_rdata_fields:
  assumes "val_parse_dnskey_rdata key = Some (Inr k)"
  shows "key = put16 (flags k) @ [protocol k, algorithm k] @ public_key k"
    "algorithm k \<noteq> ALG_RSAMD5 \<Longrightarrow> key_tag k = keytag key"
proof -
  have "4 \<le> length key" using assms by (auto simp: val_parse_dnskey_rdata_def split: if_split_asm)
  then obtain a b c d r where key: "key = a # b # c # d # r"
    by (auto simp: numeral_eq_Suc Suc_le_length_iff)
  have fl: "[a, b] = put16 (be16 a b)" "get16 key 0 = Some (be16 a b)"
    by (simp_all add: put16_be16 get16_def key rd_Cons)
  have s: "seg key 4 (length key - 4) = Some r"
    using seg_append [of "[a, b, c, d]" r "[]"] by (simp add: key numeral_eq_Suc)
  from assms fl s show "key = put16 (flags k) @ [protocol k, algorithm k] @ public_key k"
    by (auto simp: val_parse_dnskey_rdata_def key rd_Cons split: if_split_asm bind_splits)
  from assms fl s show "algorithm k \<noteq> ALG_RSAMD5 \<Longrightarrow> key_tag k = keytag key"
    by (auto simp: val_parse_dnskey_rdata_def key rd_Cons split: if_split_asm bind_splits)
qed

lemma matches_anchor_sound:
  assumes "matches_anchor C p zone dnskey key = Some True" "val_parse_dnskey_rdata key = Some (Inr dnskey)"
    and "valid_name zone"
    and "pol e = Some p"
  shows "anchored C e zone key"
proof (cases "case publickey p of Some k \<Rightarrow> dnskey_matches_dnskey dnskey k | None \<Rightarrow> False")
  case True
  then obtain a where "publickey p = Some a" "dnskey_matches_dnskey dnskey a" by (auto split: option.splits)
  then show ?thesis
    using dnskey_rdata_fields(1) [OF assms(2)]
    by (auto simp: anchored_def assms(4) dnskey_matches_dnskey_def memcmp_eq_0)
next
  case False
  with assms(1) obtain ds st where ds: "ta_ds p = Some ds"
    "dnskey_matches_ds C dnskey ds zone key VAL_AC_UNSET = Some (True, st)"
    by (auto simp: matches_anchor_def split: option.splits bind_splits)
  have "ds_of_key C ds zone (algorithm dnskey) key"
    using ds(2) dnskey_rdata_fields(2) [OF assms(2)] lowered_copy_canon [OF assms(3)]
    by (auto simp: ds_of_key_def ds_digest_def dnskey_matches_ds_def ds_hash_is_equal_def ds_digest_is_equal_def
        ds_sha_hash_is_equal_def ds_sha256_hash_is_equal_def ds_sha384_hash_is_equal_def
        split: if_split_asm bind_splits)
  with ds(1) dnskey_rdata_fields(1) [OF assms(2)] show ?thesis
    by (fastforce simp: anchored_def assms(4))
qed

lemma is_anchor_anchored: "is_anchor C (pol e) zone key \<Longrightarrow> valid_name zone \<Longrightarrow> anchored C e zone key"
  using matches_anchor_sound by (auto simp: is_anchor_def)

lemma anchor_keys_sound:
  assumes "anchor_keys C ta zp keys = Some (keys', found)"
  shows "(found \<longleftrightarrow> (\<exists>key \<in> set keys. is_anchor C ta zp (rr_rdata key))) \<and> map rr_rdata keys' = map rr_rdata keys"
  using assms
proof (induction keys arbitrary: keys' found)
  case (Cons key keys)
  obtain r where r: "val_parse_dnskey_rdata (rr_rdata key) = Some r"
    using Cons.prems by (cases "val_parse_dnskey_rdata (rr_rdata key)") simp_all
  let ?m = "case (r, ta) of (Inr dnskey, Some p) \<Rightarrow> matches_anchor C p zp dnskey (rr_rdata key) | _ \<Rightarrow> Some False"
  obtain m where m: "?m = Some m" using Cons.prems r by (cases ?m) simp_all
  obtain rest f where k: "anchor_keys C ta zp keys = Some (rest, f)"
    using Cons.prems r m by (cases "anchor_keys C ta zp keys") auto
  have "m \<longleftrightarrow> is_anchor C ta zp (rr_rdata key)"
    using r m by (cases r; cases ta) (auto simp: is_anchor_def)
  with Cons.IH [OF k] Cons.prems r m k show ?case by auto
qed simp

lemma anchors_here_sound:
  assumes "anchors_here C zp n es keys spec found t = Some (rest, keys', spec', found', t')" "found'" "\<not> found"
  shows "\<exists>e \<in> set es. namecmp (zone_n e) zp = Some 0 \<and> (\<exists>key \<in> rr_rdata ` set keys. is_anchor C (pol e) zp key)"
  using assms
proof (induction es arbitrary: keys spec found t)
  case (Cons e es)
  obtain l where l: "wire_name_length (zone_n e) = Some l" using Cons.prems(1) by (auto split: bind_splits)
  show ?case
  proof (cases "l = n")
    case False
    with l Cons.prems show ?thesis by simp
  next
    case True
    then obtain c where c: "namecmp (zone_n e) zp = Some c" using l Cons.prems(1) by (auto split: bind_splits)
    show ?thesis
    proof (cases "c = 0")
      case False
      with l True c Cons.prems Cons.IH show ?thesis by fastforce
    next
      case True
      then obtain keys1 m t1 where k: "anchor_keys C (pol e) zp keys = Some (keys1, m)"
        "anchors_here C zp n es keys1 True (found \<or> m) t1 = Some (rest, keys', spec', found', t')"
        using l c \<open>l = n\<close> Cons.prems(1) by (auto split: bind_splits)
      have same: "rr_rdata ` set keys1 = rr_rdata ` set keys"
        using anchor_keys_sound [OF k(1)] by (auto simp flip: set_map)
      show ?thesis
      proof (cases m)
        case True
        then have "\<exists>key \<in> rr_rdata ` set keys. is_anchor C (pol e) zp key"
          using anchor_keys_sound [OF k(1)] by auto
        with c \<open>c = 0\<close> show ?thesis by auto
      next
        case False
        then have "\<exists>e' \<in> set es. namecmp (zone_n e') zp = Some 0 \<and> (\<exists>key \<in> rr_rdata ` set keys1. is_anchor C (pol e') zp key)"
          using Cons.prems(2,3) by (intro Cons.IH [OF k(2)]) auto
        with same show ?thesis by auto
      qed
    qed
  qed
qed simp

lemma skip_longer_subset: "skip_longer es n = Some cur \<Longrightarrow> set cur \<subseteq> set es"
  by (induction es n rule: skip_longer.induct) (auto split: bind_splits if_split_asm)

theorem is_trusted_key_sound:
  assumes "is_trusted_key C now closest_only (Entries es) zone keys fl t = Some (Inr (keys', VAL_AC_TRUST_NOCHK, t', ctx'))"
    and wf: "valid_name zone"
  shows "\<exists>e \<in> set (live now es). namecmp (zone_n e) zone = Some 0 \<and>
    (\<exists>key \<in> rr_rdata ` set keys. anchored C e zone key)"
proof -
  obtain ctx1 where ctx: "retrieve_policy now (Entries es) = Some (live now es, ctx1)"
    using retrieve_policy_live by blast
  note d = assms(1) [unfolded is_trusted_key_def Let_def ctx]
  have z: "zone \<noteq> []" using d by (cases "zone = []") simp_all
  obtain n where n: "wire_name_length zone = Some n"
    using d z by (cases "wire_name_length zone") simp_all
  have ne: "zone \<noteq> []" "live now es \<noteq> []" using d z n by (simp, cases "live now es = []") simp_all
  obtain cur where cur: "skip_longer (live now es) n = Some cur"
    using d ne n by (cases "skip_longer (live now es) n") simp_all
  obtain rest keys1 spec found t1 where
    a: "anchors_here C zone n cur keys False False t = Some (rest, keys1, spec, found, t1)"
    using d ne n cur by (cases "anchors_here C zone n cur keys False False t") auto
  have found
    using d ne n cur a by (simp split: if_split_asm bind_splits)
  have "set cur \<subseteq> set (live now es)" by (rule skip_longer_subset [OF cur])
  with anchors_here_sound [OF a \<open>found\<close>] is_anchor_anchored [OF _ wf] show ?thesis by blast
qed

end
