(* ===== verification/Nsec.thy ===== *)
theory Nsec
  imports Verify
begin

section \<open>Kinds of answers and proofs of non-existence\<close>

text \<open>
  From \<^verbatim>\<open>libval/val_assertion.c\<close>: the type bitmap (\<open>is_type_set\<close>), the status predicates
  (\<open>val_istrusted\<close>, \<open>val_isvalidated\<close>, \<open>val_does_not_exist\<close>, \<open>GET_HEADER_STATUS_CODE\<close>), the kind of an answer
  (\<open>set_ans_kind\<close>, \<open>name_in_q_names\<close>, \<open>fails_to_answer_query\<close>), the span proofs (\<open>prove_nsec_span\<close>,
  \<open>compute_nsec3_hash\<close>, \<open>CHECK_RANGE\<close>, \<open>prove_nsec3_span\<close>) and \<open>check_anc_proof\<close>. A result of \<open>None\<close> is a fault;
  for \<open>cpe_search\<close> and what calls it, it also stands for a call that never returns.
\<close>

subsection \<open>Types in a bitmap\<close>

text \<open>
  \<open>is_type_set\<close>: the windows from \<open>cnt\<close> on are the list that remains, \<open>block\<close> is the window seen last.
  The byte offset is \<open>type / 8\<close>, as in the code, also for types above 255.
\<close>

function type_blocks :: "byte list \<Rightarrow> nat \<Rightarrow> nat \<Rightarrow> bool" where
  "type_blocks field block type =
     (case field of
        b # blen # rest \<Rightarrow>
          if rest \<noteq> [] \<and> block \<le> type div 256 then
            if unat b = type div 256 then
              type div 8 < unat blen \<and> type div 8 < length rest \<and>
                rest ! (type div 8) AND push_bit (7 - type mod 8) 1 \<noteq> 0
            else type_blocks (drop (unat blen) rest) (unat b) type
          else False
      | _ \<Rightarrow> False)"
  by pat_completeness auto
termination by (relation "measure (\<lambda>(field, block, type). length field)") auto

declare type_blocks.simps [simp del]

definition is_type_set :: "byte list \<Rightarrow> u16 \<Rightarrow> bool" where
  "is_type_set field type \<longleftrightarrow> 1 \<le> type \<and> type_blocks field 0 (unat type)"

text \<open>
  The tests on the bitmap of an NSEC or NSEC3 record that matches the query name, in the code's order.
\<close>

definition denies_type :: "byte list \<Rightarrow> u16 \<Rightarrow> bool" where
  "denies_type bitmap qtype_h \<longleftrightarrow>
     \<not> (qtype_h = ns_t_ds \<and> \<not> is_type_set bitmap ns_t_ns) \<and>
     \<not> (qtype_h = ns_t_ds \<and> is_type_set bitmap ns_t_soa) \<and>
     \<not> is_type_set bitmap qtype_h \<and> \<not> is_type_set bitmap ns_t_cname \<and> \<not> is_type_set bitmap ns_t_dname"

lemma type_blocks_Nil [simp]: "\<not> type_blocks [] block t"
  by (simp add: type_blocks.simps)

lemma type_blocks_step [simp]:
  "type_blocks (b # blen # rest) block t \<longleftrightarrow> rest \<noteq> [] \<and> block \<le> t div 256 \<and>
     (if unat b = t div 256 then t div 8 < unat blen \<and> t div 8 < length rest \<and> bit (rest ! (t div 8)) (7 - t mod 8)
      else type_blocks (drop (unat blen) rest) (unat b) t)"
  by (subst type_blocks.simps) (simp add: and_exp_eq_0_iff_not_bit push_bit_eq_mult)


text \<open>
  The bitmap of RFC 4034 section 4.1.2: windows of at most 32 bytes in increasing order, and the types they hold.
\<close>

fun window_bytes :: "nat \<times> byte list \<Rightarrow> byte list" where
  "window_bytes (b, bits) = word_of_nat b # word_of_nat (length bits) # bits"

definition wf_windows :: "(nat \<times> byte list) list \<Rightarrow> bool" where
  "wf_windows ws \<longleftrightarrow> sorted_wrt (<) (map fst ws) \<and>
     list_all (\<lambda>(b, bits). b < 256 \<and> bits \<noteq> [] \<and> length bits \<le> 32) ws"

definition holds_type :: "(nat \<times> byte list) list \<Rightarrow> nat \<Rightarrow> bool" where
  "holds_type ws t \<longleftrightarrow> (\<exists>(b, bits) \<in> set ws. b = t div 256 \<and> (t mod 256) div 8 < length bits \<and>
     bit (bits ! ((t mod 256) div 8)) (7 - t mod 8))"

lemma wf_windows_Cons:
  "wf_windows ((b, bits) # ws) \<longleftrightarrow> b < 256 \<and> bits \<noteq> [] \<and> length bits \<le> 32 \<and>
     (\<forall>w \<in> set ws. b < fst w) \<and> wf_windows ws"
  by (auto simp: wf_windows_def)

lemma windows_not_Nil: "wf_windows ws \<Longrightarrow> ws \<noteq> [] \<Longrightarrow> concat (map window_bytes ws) \<noteq> []"
  by (cases ws) auto

lemma type_blocks_windows:
  assumes "wf_windows ws" "t < 256" "list_all (\<lambda>w. p \<le> fst w) ws"
  shows "type_blocks (concat (map window_bytes ws)) p t \<longleftrightarrow> p = 0 \<and> holds_type ws t"
  using assms
proof (induction ws arbitrary: p)
  case (Cons w ws)
  obtain b bits where w: "w = (b, bits)" by (cases w)
  from Cons.prems w have wf: "b < 256" "bits \<noteq> []" "length bits \<le> 32" "\<forall>w \<in> set ws. b < fst w" "wf_windows ws"
    by (simp_all add: wf_windows_Cons)
  have "p \<le> b" using Cons.prems(3) w by simp
  have IH: "type_blocks (concat (map window_bytes ws)) b t \<longleftrightarrow> b = 0 \<and> holds_type ws t"
    using Cons.IH [OF wf(5) Cons.prems(2)] wf(4) by (simp add: list_all_iff order.strict_implies_order)
  have len: "unat (word_of_nat b :: byte) = b" "unat (word_of_nat (length bits) :: byte) = length bits"
    using wf by (simp_all add: unat_of_nat take_bit_nat_eq_self)
  have later: "\<not> holds_type ws t" using wf(4) Cons.prems(2) by (auto simp: holds_type_def)
  show ?case
  proof (cases "p = 0")
    case True
    have "holds_type (w # ws) t \<longleftrightarrow> b = 0 \<and> t div 8 < length bits \<and> bit (bits ! (t div 8)) (7 - t mod 8)"
      using later Cons.prems(2) by (auto simp: holds_type_def w)
    then show ?thesis using True wf later IH Cons.prems(2)
      by (auto simp: w len nth_append)
  next
    case False
    then show ?thesis using Cons.prems(2) \<open>p \<le> b\<close> by (simp add: w)
  qed
qed (simp add: holds_type_def)

lemma is_type_set_windows:
  assumes "wf_windows ws" "0 < type" "type < 256"
  shows "is_type_set (concat (map window_bytes ws)) type \<longleftrightarrow> holds_type ws (unat type)"
proof -
  have "unat type < 256" using assms(3) by (simp add: word_less_nat_alt)
  moreover have "1 \<le> type" using assms(2) by (simp add: word_le_nat_alt word_less_nat_alt)
  ultimately show ?thesis
    using type_blocks_windows [OF assms(1), of "unat type" 0] by (simp add: is_type_set_def list_all_iff)
qed

lemma type_blocks_high:
  assumes "wf_windows ws" "256 \<le> t"
  shows "\<not> type_blocks (concat (map window_bytes ws)) p t"
  using assms(1)
proof (induction ws arbitrary: p)
  case (Cons w ws)
  obtain b bits where w: "w = (b, bits)" by (cases w)
  with Cons.prems have wf: "b < 256" "length bits \<le> 32" "wf_windows ws"
    by (simp_all add: wf_windows_Cons)
  have "32 \<le> t div 8" using assms(2) by linarith
  with wf Cons.IH [OF wf(3)] show ?case by (simp add: w unat_of_nat take_bit_nat_eq_self)
qed simp

lemma is_type_set_high:
  assumes "wf_windows ws" "256 \<le> type"
  shows "\<not> is_type_set (concat (map window_bytes ws)) type"
proof -
  have "256 \<le> unat type" using assms(2) by (simp add: word_le_nat_alt)
  then show ?thesis using type_blocks_high [OF assms(1)] by (simp add: is_type_set_def)
qed


subsection \<open>Status codes of a validation\<close>

abbreviation VAL_BOGUS :: nat where "VAL_BOGUS \<equiv> 1"
abbreviation VAL_DNS_ERROR :: nat where "VAL_DNS_ERROR \<equiv> 2"
abbreviation VAL_SUCCESS :: nat where "VAL_SUCCESS \<equiv> 128"
abbreviation VAL_NONEXISTENT_NAME :: nat where "VAL_NONEXISTENT_NAME \<equiv> 133"
abbreviation VAL_NONEXISTENT_TYPE :: nat where "VAL_NONEXISTENT_TYPE \<equiv> 134"
abbreviation VAL_NONEXISTENT_NAME_NOCHAIN :: nat where "VAL_NONEXISTENT_NAME_NOCHAIN \<equiv> 135"
abbreviation VAL_NONEXISTENT_TYPE_NOCHAIN :: nat where "VAL_NONEXISTENT_TYPE_NOCHAIN \<equiv> 136"
abbreviation VAL_PINSECURE :: nat where "VAL_PINSECURE \<equiv> 137"
abbreviation VAL_IGNORE_VALIDATION :: nat where "VAL_IGNORE_VALIDATION \<equiv> 140"
abbreviation VAL_TRUSTED_ANSWER :: nat where "VAL_TRUSTED_ANSWER \<equiv> 143"
abbreviation VAL_VALIDATED_ANSWER :: nat where "VAL_VALIDATED_ANSWER \<equiv> 144"

definition val_istrusted :: "nat \<Rightarrow> bool" where
  "val_istrusted val_status \<longleftrightarrow> val_status \<in> {VAL_SUCCESS, VAL_NONEXISTENT_NAME, VAL_NONEXISTENT_TYPE,
     VAL_NONEXISTENT_NAME_NOCHAIN, VAL_NONEXISTENT_TYPE_NOCHAIN, VAL_VALIDATED_ANSWER, VAL_TRUSTED_ANSWER,
     VAL_PINSECURE, VAL_IGNORE_VALIDATION}"

definition val_isvalidated :: "nat \<Rightarrow> bool" where
  "val_isvalidated val_status \<longleftrightarrow> val_status \<in> {VAL_SUCCESS, VAL_NONEXISTENT_NAME, VAL_NONEXISTENT_TYPE,
     VAL_VALIDATED_ANSWER}"

definition val_does_not_exist :: "nat \<Rightarrow> bool" where
  "val_does_not_exist status \<longleftrightarrow> status = VAL_NONEXISTENT_TYPE \<or> status = VAL_NONEXISTENT_NAME \<or>
     status = VAL_NONEXISTENT_NAME_NOCHAIN \<or> status = VAL_NONEXISTENT_TYPE_NOCHAIN"

text \<open>\<open>GET_HEADER_STATUS_CODE\<close>: the response code kept in the set of the first proof.\<close>

definition get_header_status_code :: "rrset_rec option \<Rightarrow> nat" where
  "get_header_status_code qc_proof = (case qc_proof of
     Some ac_data \<Rightarrow>
       if rrs_rcode ac_data = 0 then VAL_NONEXISTENT_TYPE_NOCHAIN
       else if rrs_rcode ac_data = 3 then VAL_NONEXISTENT_NAME_NOCHAIN
       else VAL_DNS_ERROR
   | None \<Rightarrow> VAL_DNS_ERROR)"

lemma validated_is_trusted: "val_isvalidated st \<Longrightarrow> val_istrusted st"
  by (auto simp: val_isvalidated_def val_istrusted_def)

lemma denial_is_trusted: "val_does_not_exist st \<Longrightarrow> val_istrusted st"
  by (auto simp: val_does_not_exist_def val_istrusted_def)

subsection \<open>The kind of an answer\<close>

abbreviation VAL_AC_DNS_ERROR :: u16 where "VAL_AC_DNS_ERROR \<equiv> 17"
abbreviation ns_c_any :: u16 where "ns_c_any \<equiv> 255"

definition alias_match_type :: "u16 \<Rightarrow> bool" where
  "alias_match_type type_h \<longleftrightarrow> type_h \<noteq> ns_t_any \<and> type_h \<noteq> ns_t_rrsig \<and> type_h \<noteq> ns_t_dnskey \<and>
     type_h \<noteq> ns_t_ds \<and> type_h \<noteq> ns_t_soa"

text \<open>\<open>set_ans_kind\<close>: the set with its \<open>rrs_ans_kind\<close>, and \<open>*status\<close>.\<close>

definition set_ans_kind :: "byte list \<Rightarrow> u16 \<Rightarrow> u16 \<Rightarrow> rrset_rec option \<Rightarrow> u16 \<Rightarrow>
    (val_ret \<times> rrset_rec option \<times> u16) option" where
  "set_ans_kind qname_n q_type_h q_class_h set_p status = (case set_p of
     None \<Rightarrow> Some (VAL_BAD_ARGUMENT, None, status)
   | Some the_set \<Rightarrow>
       let kind = (\<lambda>k. Some (VAL_NO_ERROR, Some (the_set\<lparr> rrs_ans_kind := k \<rparr>), status));
           t = rrs_type_h the_set in
       if rrs_data the_set = [] \<and> rrs_sig the_set \<noteq> [] then kind SR_ANS_BARE_RRSIG
       else do {
         same \<leftarrow> name_eq (rrs_name_n the_set) qname_n;
         if t = ns_t_nsec \<or> t = ns_t_nsec3 \<or> t = ns_t_soa
         then kind (if same \<and> (q_type_h = ns_t_any \<or> q_type_h = t) then SR_ANS_STRAIGHT else SR_ANS_NACK)
         else if t = ns_t_cname
         then kind (if same \<and> (\<not> alias_match_type q_type_h \<or> q_type_h = t) then SR_ANS_STRAIGHT else SR_ANS_CNAME)
         else if t = ns_t_dname
         then kind (if same \<and> (\<not> alias_match_type q_type_h \<or> q_type_h = t) then SR_ANS_STRAIGHT else SR_ANS_DNAME)
         else if same \<and> (q_type_h = ns_t_any \<or> q_type_h = t)
         then kind (if rrs_data the_set = [] then SR_ANS_NACK else SR_ANS_STRAIGHT)
         else Some (VAL_NO_ERROR, Some (the_set\<lparr> rrs_ans_kind := SR_ANS_UNSET \<rparr>), VAL_AC_DNS_ERROR)
       })"

datatype qname_place = TOP_OF_QNAMES | MID_OF_QNAMES | NOT_IN_QNAMES

fun name_in_mid :: "byte list list \<Rightarrow> byte list \<Rightarrow> qname_place option" where
  "name_in_mid [] name_n = Some NOT_IN_QNAMES"
| "name_in_mid (q # qs) name_n = do {
     b \<leftarrow> name_eq name_n q;
     if b then Some MID_OF_QNAMES else name_in_mid qs name_n
   }"

fun name_in_q_names :: "byte list list \<Rightarrow> byte list \<Rightarrow> qname_place option" where
  "name_in_q_names [] name_n = Some NOT_IN_QNAMES"
| "name_in_q_names (q # qs) name_n =
     (if name_n = [] then Some NOT_IN_QNAMES
      else do {
        b \<leftarrow> name_eq name_n q;
        if b then Some TOP_OF_QNAMES else name_in_mid qs name_n
      })"

text \<open>\<open>fails_to_answer_query\<close>: the answer and \<open>*status\<close>.\<close>

definition fails_to_answer_query :: "byte list list \<Rightarrow> u16 \<Rightarrow> u16 \<Rightarrow> rrset_rec option \<Rightarrow> u16 \<Rightarrow> (bool \<times> u16) option" where
  "fails_to_answer_query q_names_n q_type_h q_class_h set_p status =
     (if status = VAL_AC_DNS_ERROR then Some (True, status)
      else case set_p of
        None \<Rightarrow> Some (True, VAL_AC_DNS_ERROR)
      | Some the_set \<Rightarrow>
          if q_names_n = [] then Some (True, VAL_AC_DNS_ERROR)
          else do {
            name_present \<leftarrow> name_in_q_names q_names_n (rrs_name_n the_set);
            let kind = rrs_ans_kind the_set;
            let type_match = (rrs_type_h the_set = q_type_h \<or>
              q_type_h = ns_t_any \<and> name_present = TOP_OF_QNAMES);
            let class_match = (rrs_class_h the_set = q_class_h \<or> q_class_h = ns_c_any);
            if \<not> class_match \<or>
               \<not> type_match \<and> kind = SR_ANS_STRAIGHT \<or>
               type_match \<and> kind \<noteq> SR_ANS_STRAIGHT \<and> kind \<noteq> SR_ANS_NACK \<or>
               name_present \<noteq> TOP_OF_QNAMES \<and> type_match \<and> kind = SR_ANS_STRAIGHT \<or>
               name_present \<noteq> MID_OF_QNAMES \<and> \<not> type_match \<and> kind = SR_ANS_CNAME \<or>
               name_present \<noteq> MID_OF_QNAMES \<and> \<not> type_match \<and> kind = SR_ANS_DNAME \<or>
               name_present = MID_OF_QNAMES \<and> \<not> type_match \<and> kind = SR_ANS_NACK
            then do {
              synthesized \<leftarrow> sc_and (Some (kind = SR_ANS_CNAME \<and> type_match \<and> class_match \<and> rrs_data the_set \<noteq> []))
                (do { target \<leftarrow> first_rdata (rrs_data the_set);
                      p \<leftarrow> name_in_q_names q_names_n target; Some (p = MID_OF_QNAMES) });
              Some (if synthesized then (False, VAL_AC_IGNORE_VALIDATION) else (True, VAL_AC_DNS_ERROR))
            }
            else Some (False, status)
          })"

lemma name_in_q_names_top:
  assumes "name_in_q_names qs n = Some TOP_OF_QNAMES"
  shows "qs \<noteq> [] \<and> name_eq n (hd qs) = Some True"
proof -
  have "name_in_mid rs n \<noteq> Some TOP_OF_QNAMES" for rs
    by (induction rs n rule: name_in_mid.induct) (auto split: Option.bind_splits if_splits)
  with assms show ?thesis by (cases qs) (auto split: Option.bind_splits if_splits)
qed

lemma accepted_straight:
  assumes "fails_to_answer_query qs qt qc (Some s) st = Some (False, st')"
    and "rrs_ans_kind s = SR_ANS_STRAIGHT"
  shows "name_in_q_names qs (rrs_name_n s) = Some TOP_OF_QNAMES" "rrs_type_h s = qt \<or> qt = ns_t_any"
    "rrs_class_h s = qc \<or> qc = ns_c_any" "st' = st"
  using assms by (auto simp: fails_to_answer_query_def Let_def split: if_splits Option.bind_splits)

lemma set_ans_kind_straight:
  assumes "set_ans_kind qn qt qc (Some s) st = Some (r, Some s', st')" "rrs_ans_kind s' = SR_ANS_STRAIGHT"
  shows "name_eq (rrs_name_n s) qn = Some True" "st' = st" "s' = s\<lparr> rrs_ans_kind := SR_ANS_STRAIGHT \<rparr>"
    "rrs_type_h s = qt \<or> \<not> alias_match_type qt"
  using assms by (auto simp: set_ans_kind_def Let_def alias_match_type_def split: if_splits Option.bind_splits)


subsection \<open>Proofs with NSEC records\<close>

text \<open>
  A list of proofs is the list of its record sets; an element is named by its index. A pointer to a name
  is the rest of the buffer from there on.
\<close>

text \<open>The loop with \<open>STRIP_LABEL\<close>: the first suffix of \<open>q\<close> that \<open>qname_n\<close> is at or below.\<close>

function enclosure :: "byte list \<Rightarrow> byte list \<Rightarrow> nat \<Rightarrow> byte list option" where
  "enclosure qname_n q p = do {
     b \<leftarrow> rd q p;
     sub \<leftarrow> ptr q p;
     if b = 0 then Some sub
     else do {
       r \<leftarrow> namename qname_n sub;
       if r \<noteq> None then Some sub else enclosure qname_n q (p + unat b + 1)
     }
   }"
  by pat_completeness auto
termination by (relation "measure (\<lambda>(qname_n, q, p). length q - p)") (auto simp: rd_eq_Some_iff)

declare enclosure.simps [simp del]

text \<open>Whether \<open>name\<close>, which comes after the owner, comes before the next name or that wraps around.\<close>

definition before_next :: "byte list \<Rightarrow> byte list \<Rightarrow> byte list \<Rightarrow> bool option" where
  "before_next name nxtname sig = do {
     c \<leftarrow> namecmp name nxtname;
     if c \<le> 0 then Some True
     else do {
       soa_name_n \<leftarrow> ptr sig SIGNBY;
       d \<leftarrow> namecmp nxtname soa_name_n;
       Some (d = 0)
     }
   }"

text \<open>The test at a matching owner: the record says which types the name has.\<close>

definition nsec_denies :: "byte list \<Rightarrow> u16 \<Rightarrow> bool option" where
  "nsec_denies nxtname qtype_h = do {
     nsec_bit_field \<leftarrow> wire_name_length nxtname;
     Some (nsec_bit_field \<le> length nxtname \<and> denies_type (drop nsec_bit_field nxtname) qtype_h)
   }"

definition longer_name :: "byte list \<Rightarrow> byte list \<Rightarrow> byte list option" where
  "longer_name q1 q2 = do {
     l1 \<leftarrow> wire_name_length q1;
     l2 \<leftarrow> wire_name_length q2;
     Some (if l2 < l1 then q1 else q2)
   }"

text \<open>
  The first loop: \<open>Inr i\<close> when the record \<open>i\<close> matches the name and denies the type, otherwise
  \<open>*span_proof\<close> and the closest enclosure \<open>ce\<close>.
\<close>

fun nsec_span_loop :: "byte list \<Rightarrow> u16 \<Rightarrow> rrset_rec list \<Rightarrow> nat \<Rightarrow> nat option \<Rightarrow> byte list option \<Rightarrow>
    ((nat option \<times> byte list option) + nat) option" where
  "nsec_span_loop qname_n qtype_h [] i span ce = Some (Inl (span, ce))"
| "nsec_span_loop qname_n qtype_h (n # ns) i span ce = do {
     sig \<leftarrow> first_rdata (rrs_sig n);
     nxtname \<leftarrow> first_rdata (rrs_data n);
     cmp \<leftarrow> namecmp qname_n (rrs_name_n n);
     if cmp = 0 then do {
       ok \<leftarrow> nsec_denies nxtname qtype_h;
       if ok then Some (Inr i) else nsec_span_loop qname_n qtype_h ns (i + 1) span ce
     } else do {
       hit \<leftarrow> sc_and (Some (0 < cmp)) (before_next qname_n nxtname sig);
       q1 \<leftarrow> enclosure qname_n (rrs_name_n n) 0;
       q2 \<leftarrow> enclosure qname_n nxtname 0;
       q \<leftarrow> longer_name q1 q2;
       ce' \<leftarrow> (case ce of None \<Rightarrow> Some q | Some c \<Rightarrow> longer_name c q);
       nsec_span_loop qname_n qtype_h ns (i + 1) (if hit then Some i else span) (Some ce')
     }
   }"

text \<open>The second loop: \<open>*wcard_proof\<close> and \<open>*notype\<close> for the wildcard name \<open>wc_n\<close>.\<close>

fun nsec_wcard_loop :: "byte list \<Rightarrow> rrset_rec list \<Rightarrow> nat \<Rightarrow> (nat option \<times> bool) option" where
  "nsec_wcard_loop wc_n [] i = Some (None, False)"
| "nsec_wcard_loop wc_n (n # ns) i = do {
     sig \<leftarrow> first_rdata (rrs_sig n);
     nxtname \<leftarrow> first_rdata (rrs_data n);
     cmp \<leftarrow> namecmp wc_n (rrs_name_n n);
     if cmp = 0 then Some (Some i, True)
     else do {
       hit \<leftarrow> sc_and (Some (0 < cmp)) (before_next wc_n nxtname sig);
       if hit then Some (Some i, False) else nsec_wcard_loop wc_n ns (i + 1)
     }
   }"

definition wildcard_name :: "byte list \<Rightarrow> byte list" where
  "wildcard_name ce = [1, 0x2a] @ ce @ replicate (NS_MAXCDNAME - (length ce + 2)) 0"

text \<open>\<open>prove_nsec_span\<close>: \<open>*span_proof\<close>, \<open>*wcard_proof\<close> and \<open>*notype\<close>, for a list that is not empty.\<close>

definition prove_nsec_span :: "rrset_rec list \<Rightarrow> byte list \<Rightarrow> u16 \<Rightarrow> byte list option \<Rightarrow>
    (nat option \<times> nat option \<times> bool) option" where
  "prove_nsec_span nlist qname_n qtype_h ce_wcard = do {
     r \<leftarrow> nsec_span_loop qname_n qtype_h nlist 0 None None;
     case r of
       Inr i \<Rightarrow> Some (Some i, Some i, True)
     | Inl (span, None) \<Rightarrow> Some (span, None, False)
     | Inl (span, Some ce) \<Rightarrow> (case ce_wcard of
         Some w \<Rightarrow> do {
           p \<leftarrow> namename w ce;
           Some (if p = None then (None, None, False) else (span, span, False))
         }
       | None \<Rightarrow> do {
           len \<leftarrow> wire_name_length ce;
           if NS_MAXCDNAME < len + 2 then Some (span, None, False)
           else do {
             name \<leftarrow> seg ce 0 len;
             (wcard, notype) \<leftarrow> nsec_wcard_loop (wildcard_name name) nlist 0;
             Some (span, wcard, notype)
           }
         })
   }"


text \<open>What an NSEC record says: its owner, the next name, the apex of the zone and the bitmap.\<close>

definition nsec_says :: "rrset_rec \<Rightarrow> label list \<Rightarrow> label list \<Rightarrow> label list \<Rightarrow> byte list \<Rightarrow> bool" where
  "nsec_says n own nxt apex bits \<longleftrightarrow> encodes (rrs_name_n n) own \<and> wf_name nxt \<and>
     rrs_data n \<noteq> [] \<and> rr_rdata (hd (rrs_data n)) = enc nxt @ bits \<and>
     rrs_sig n \<noteq> [] \<and> encodes (drop SIGNBY (rr_rdata (hd (rrs_sig n)))) apex"

text \<open>The span as the loops test it; unlike that of RFC 4034 it includes its end.\<close>

definition in_span :: "label list \<Rightarrow> label list \<Rightarrow> label list \<Rightarrow> label list \<Rightarrow> bool" where
  "in_span xs own nxt apex \<longleftrightarrow> cname own < cname xs \<and> (cname xs \<le> cname nxt \<or> cname nxt = cname apex)"

definition wf_nsec :: "rrset_rec \<Rightarrow> bool" where
  "wf_nsec n \<longleftrightarrow> (\<exists>own nxt apex bits. nsec_says n own nxt apex bits)"

definition nsec_found :: "rrset_rec \<Rightarrow> label list \<Rightarrow> u16 \<Rightarrow> bool" where
  "nsec_found n xs t \<longleftrightarrow> (\<exists>own nxt apex bits. nsec_says n own nxt apex bits \<and>
     cname xs = cname own \<and> denies_type bits t)"

definition nsec_in_span :: "rrset_rec \<Rightarrow> label list \<Rightarrow> bool" where
  "nsec_in_span n xs \<longleftrightarrow> (\<exists>own nxt apex bits. nsec_says n own nxt apex bits \<and> in_span xs own nxt apex)"

fun common :: "label list \<Rightarrow> label list \<Rightarrow> label list" where
  "common qs [] = []"
| "common qs (x # xs) = (if subname qs (x # xs) then x # xs else common qs xs)"

lemma subname_common: "subname qs (common qs xs)"
  by (induction xs) auto

lemma common_suffix: "\<exists>us. xs = us @ common qs xs"
proof (induction xs)
  case (Cons x xs)
  then obtain us where "xs = us @ common qs xs" ..
  then have "x # xs = (x # us) @ common qs xs" by simp
  then show ?case by (metis append_Nil common.simps(2))
qed simp

lemma encodes_drop:
  assumes "list_all wf_label pre" "wf_name xs"
  shows "encodes (drop (length (encl pre)) (encl pre @ enc xs @ t)) xs"
  using assms by simp

lemma enclosure_enc:
  assumes "encodes qname_n qs" "list_all wf_label pre" "wf_name xs"
  shows "\<exists>t'. enclosure qname_n (encl pre @ enc xs @ t) (length (encl pre)) = Some (enc (common qs xs) @ t')"
  using assms
proof (induction xs arbitrary: pre)
  case Nil
  then show ?case by (auto simp: enclosure.simps ptr_def)
next
  case (Cons x xs)
  then have wf: "wf_label x" "wf_name xs" "list_all wf_label (pre @ [x])" by (simp_all add: wf_name_Cons)
  have nm: "namename qname_n (enc (x # xs) @ t) = Some (if subname qs (x # xs)
      then Some (length (encl (under qs (x # xs)))) else None)"
    using namename_encodes [OF Cons.prems(1) encodes_enc(1) [OF Cons.prems(3)]] .
  have step: "enclosure qname_n (encl pre @ enc (x # xs) @ t) (length (encl pre)) =
      (if subname qs (x # xs) then Some (enc (x # xs) @ t)
       else enclosure qname_n (encl (pre @ [x]) @ enc xs @ t) (length (encl (pre @ [x]))))"
    using nm wf(1) by (subst enclosure.simps) (auto simp: ptr_def label_simps add.assoc)
  show ?case
  proof (cases "subname qs (x # xs)")
    case False
    with step Cons.IH [OF Cons.prems(1) wf(3,2)] show ?thesis by simp
  qed (use step in auto)
qed


lemma enclosure_encodes:
  assumes "encodes qname_n qs" "encodes q xs"
  shows "\<exists>c. enclosure qname_n q 0 = Some c \<and> encodes c (common qs xs)"
proof -
  obtain t where q: "q = enc xs @ t" "wf_name xs" using assms(2) by (rule encodesE)
  obtain us where "xs = us @ common qs xs" using common_suffix by blast
  then have "wf_name (common qs xs)" using q(2) wf_name_append by metis
  moreover obtain t' where "enclosure qname_n q 0 = Some (enc (common qs xs) @ t')"
    using enclosure_enc [OF assms(1), of "[]" xs t] q by auto
  ultimately show ?thesis by auto
qed

lemma longer_name_encodes:
  assumes "encodes a xs" "encodes b ys"
  shows "longer_name a b = Some (if length (enc ys) < length (enc xs) then a else b)"
  using assms by (simp add: longer_name_def wire_name_length_encodes)

lemma before_next_encodes:
  assumes "encodes name xs" "encodes nxtname nxt" "encodes (drop SIGNBY sig) apex"
  shows "before_next name nxtname sig = Some (cname xs \<le> cname nxt \<or> cname nxt = cname apex)"
proof -
  have "length sig > SIGNBY" using encodes_not_Nil [OF assms(3)] by (metis drop_all not_le)
  then have p: "ptr sig SIGNBY = Some (drop SIGNBY sig)" by (simp add: ptr_def)
  obtain c where c: "namecmp name nxtname = Some c" "sgn c = ocmp (cname xs) (cname nxt)"
    using namecmp_encodes [OF assms(1,2)] .
  obtain d where d: "namecmp nxtname (drop SIGNBY sig) = Some d" "sgn d = ocmp (cname nxt) (cname apex)"
    using namecmp_encodes [OF assms(2,3)] .
  have "c \<le> 0 \<longleftrightarrow> cname xs \<le> cname nxt" using sgn_eq_ocmpD [OF c(2)] by (metis linorder_not_le)
  moreover have "d = 0 \<longleftrightarrow> cname nxt = cname apex" using sgn_eq_ocmpD [OF d(2)] by simp
  ultimately show ?thesis using c(1) d(1) p by (simp add: before_next_def)
qed

lemma nsec_denies_enc: "wf_name nxt \<Longrightarrow> nsec_denies (enc nxt @ bits) t = Some (denies_type bits t)"
  by (simp add: nsec_denies_def wire_name_length_encodes)

text \<open>What a step of the loops reads from a record.\<close>

lemma nsec_says_step:
  assumes "nsec_says n own nxt apex bits" "encodes name xs"
  obtains sig cmp where "first_rdata (rrs_sig n) = Some sig" "first_rdata (rrs_data n) = Some (enc nxt @ bits)"
    "namecmp name (rrs_name_n n) = Some cmp" "cmp = 0 \<longleftrightarrow> cname xs = cname own"
    "sc_and (Some (0 < cmp)) (before_next name (enc nxt @ bits) sig) = Some (in_span xs own nxt apex)"
proof -
  from assms(1) obtain s ss d ds where n: "rrs_sig n = s # ss" "rrs_data n = d # ds"
    by (auto simp: nsec_says_def neq_Nil_conv)
  obtain cmp where c: "namecmp name (rrs_name_n n) = Some cmp" "sgn cmp = ocmp (cname xs) (cname own)"
    using assms namecmp_encodes by (metis nsec_says_def)
  have "before_next name (enc nxt @ bits) (rr_rdata s) = Some (cname xs \<le> cname nxt \<or> cname nxt = cname apex)"
    using assms n by (intro before_next_encodes) (auto simp: nsec_says_def)
  moreover have "0 < cmp \<longleftrightarrow> cname own < cname xs" "cmp = 0 \<longleftrightarrow> cname xs = cname own"
    using sgn_eq_ocmpD [OF c(2)] by auto
  ultimately show ?thesis using assms n c
    by (intro that [of "rr_rdata s" cmp]) (auto simp: first_rdata_def nsec_says_def in_span_def)
qed

definition span_result :: "rrset_rec list \<Rightarrow> label list \<Rightarrow> u16 \<Rightarrow> (nat option \<times> byte list option) + nat \<Rightarrow> bool" where
  "span_result nlist qs t r \<longleftrightarrow> (case r of
     Inr j \<Rightarrow> j < length nlist \<and> nsec_found (nlist ! j) qs t
   | Inl (span, ce) \<Rightarrow> (\<forall>j. span = Some j \<longrightarrow> j < length nlist \<and> nsec_in_span (nlist ! j) qs) \<and>
       (\<forall>c. ce = Some c \<longrightarrow> (\<exists>cs. encodes c cs \<and> subname qs cs)))"

lemma nsec_span_loop_result:
  assumes "encodes qname_n qs" "list_all wf_nsec ns" "nlist = ps @ ns"
    and "span_result nlist qs qtype_h (Inl (span, ce))"
  shows "\<exists>r. nsec_span_loop qname_n qtype_h ns (length ps) span ce = Some r \<and> span_result nlist qs qtype_h r"
  using assms(2-)
proof (induction ns arbitrary: ps span ce)
  case (Cons n ns)
  from Cons.prems(1) obtain own nxt apex bits where n: "nsec_says n own nxt apex bits"
    by (auto simp: wf_nsec_def)
  from Cons.prems(1) have wf: "list_all wf_nsec ns" by simp
  obtain sig cmp where step: "first_rdata (rrs_sig n) = Some sig" "first_rdata (rrs_data n) = Some (enc nxt @ bits)"
    "namecmp qname_n (rrs_name_n n) = Some cmp" "cmp = 0 \<longleftrightarrow> cname qs = cname own"
    "sc_and (Some (0 < cmp)) (before_next qname_n (enc nxt @ bits) sig) = Some (in_span qs own nxt apex)"
    using nsec_says_step [OF n assms(1)] .
  have nxt: "encodes (enc nxt @ bits) nxt" and own: "encodes (rrs_name_n n) own"
    using n by (simp_all add: nsec_says_def)
  obtain q1 q2 where q: "enclosure qname_n (rrs_name_n n) 0 = Some q1" "encodes q1 (common qs own)"
    "enclosure qname_n (enc nxt @ bits) 0 = Some q2" "encodes q2 (common qs nxt)"
    using enclosure_encodes [OF assms(1) own] enclosure_encodes [OF assms(1) nxt] by blast
  obtain q' cs' where q': "longer_name q1 q2 = Some q'" "encodes q' cs'" "subname qs cs'"
    using longer_name_encodes [OF q(2,4)] q(2,4) subname_common by (metis (full_types))
  have "\<exists>ce'. (case ce of None \<Rightarrow> Some q' | Some c \<Rightarrow> longer_name c q') = Some ce' \<and>
      (\<exists>cs. encodes ce' cs \<and> subname qs cs)"
  proof (cases ce)
    case None
    with q' show ?thesis by auto
  next
    case (Some c)
    with Cons.prems(3) obtain cs where "encodes c cs" "subname qs cs" by (auto simp: span_result_def)
    with q' longer_name_encodes [OF this(1) q'(2)] Some show ?thesis by auto
  qed
  then obtain ce' where ce': "(case ce of None \<Rightarrow> Some q' | Some c \<Rightarrow> longer_name c q') = Some ce'"
    "\<exists>cs. encodes ce' cs \<and> subname qs cs" by blast
  have IH: "span_result nlist qs qtype_h (Inl (s, c)) \<Longrightarrow>
      \<exists>r. nsec_span_loop qname_n qtype_h ns (Suc (length ps)) s c = Some r \<and> span_result nlist qs qtype_h r" for s c
    using Cons.IH [of "ps @ [n]" s c] wf Cons.prems(2) by simp
  show ?case
  proof (cases "cmp = 0")
    case True
    have "nsec_denies (enc nxt @ bits) qtype_h = Some (denies_type bits qtype_h)"
      using n by (intro nsec_denies_enc) (simp add: nsec_says_def)
    moreover have "span_result nlist qs qtype_h (Inr (length ps))" if "denies_type bits qtype_h"
      using that n True step(4) Cons.prems(2) by (auto simp: span_result_def nsec_found_def)
    ultimately show ?thesis using True step IH [OF Cons.prems(3)] by auto
  next
    case False
    have "span_result nlist qs qtype_h (Inl (if in_span qs own nxt apex then Some (length ps) else span, Some ce'))"
      using Cons.prems(2,3) n ce'(2) by (auto simp: span_result_def nsec_in_span_def)
    from IH [OF this] show ?thesis using False step q q' ce'(1) by simp
  qed
qed simp


text \<open>The wildcard of a name, and what a record proves about it.\<close>

abbreviation star :: label where "star \<equiv> [0x2a]"

definition nsec_owner :: "rrset_rec \<Rightarrow> label list \<Rightarrow> bool" where
  "nsec_owner n xs \<longleftrightarrow> (\<exists>own nxt apex bits. nsec_says n own nxt apex bits \<and> cname xs = cname own)"

definition wcard_result :: "rrset_rec list \<Rightarrow> label list \<Rightarrow> nat option \<times> bool \<Rightarrow> bool" where
  "wcard_result nlist ws r \<longleftrightarrow> (case r of
     (None, b) \<Rightarrow> \<not> b
   | (Some j, b) \<Rightarrow> j < length nlist \<and> (if b then nsec_owner (nlist ! j) ws else nsec_in_span (nlist ! j) ws))"

lemma nsec_wcard_loop_result:
  assumes "encodes wc_n ws" "list_all wf_nsec ns" "nlist = ps @ ns"
  shows "\<exists>r. nsec_wcard_loop wc_n ns (length ps) = Some r \<and> wcard_result nlist ws r"
  using assms(2-)
proof (induction ns arbitrary: ps)
  case Nil
  then show ?case by (simp add: wcard_result_def)
next
  case (Cons n ns)
  from Cons.prems(1) obtain own nxt apex bits where n: "nsec_says n own nxt apex bits"
    by (auto simp: wf_nsec_def)
  obtain sig cmp where step: "first_rdata (rrs_sig n) = Some sig" "first_rdata (rrs_data n) = Some (enc nxt @ bits)"
    "namecmp wc_n (rrs_name_n n) = Some cmp" "cmp = 0 \<longleftrightarrow> cname ws = cname own"
    "sc_and (Some (0 < cmp)) (before_next wc_n (enc nxt @ bits) sig) = Some (in_span ws own nxt apex)"
    using nsec_says_step [OF n assms(1)] .
  have IH: "\<exists>r. nsec_wcard_loop wc_n ns (Suc (length ps)) = Some r \<and> wcard_result nlist ws r"
    using Cons.IH [of "ps @ [n]"] Cons.prems by simp
  have at: "nlist ! length ps = n" "length ps < length nlist" using Cons.prems(2) by simp_all
  show ?case
  proof (cases "cmp = 0 \<or> in_span ws own nxt apex")
    case True
    with n at step(4) have "wcard_result nlist ws (Some (length ps), cmp = 0)"
      by (auto simp: wcard_result_def nsec_owner_def nsec_in_span_def)
    with True step show ?thesis by (cases "cmp = 0") simp_all
  qed (use IH step in simp)
qed

lemma wildcard_name_encodes:
  assumes "wf_name cs" "length (enc cs) + 2 \<le> NS_MAXCDNAME"
  shows "encodes (wildcard_name (enc cs)) (star # cs)"
proof -
  have "wf_label star" by (simp add: wf_label_def)
  moreover have "wildcard_name (enc cs) = enc (star # cs) @ replicate (NS_MAXCDNAME - (length (enc cs) + 2)) 0"
    by (simp add: wildcard_name_def)
  moreover have "wf_name (star # cs)"
    using assms calculation(1) by (simp add: wf_name_Cons)
  ultimately show ?thesis using encodes_enc(1) by metis
qed


lemma prove_nsec_span_result:
  assumes "encodes qname_n qs" "list_all wf_nsec nlist"
  shows "\<exists>span wcard notype. prove_nsec_span nlist qname_n qtype_h None = Some (span, wcard, notype) \<and>
    ((\<exists>i < length nlist. span = Some i \<and> wcard = Some i \<and> notype \<and> nsec_found (nlist ! i) qs qtype_h) \<or>
     (\<forall>i. span = Some i \<longrightarrow> i < length nlist \<and> nsec_in_span (nlist ! i) qs) \<and>
     (\<exists>cs. subname qs cs \<and> wcard_result nlist (star # cs) (wcard, notype)))"
proof -
  obtain r where r: "nsec_span_loop qname_n qtype_h nlist 0 None None = Some r" "span_result nlist qs qtype_h r"
    using nsec_span_loop_result [OF assms, of nlist "[]" qtype_h None None]
    by (auto simp: span_result_def)
  show ?thesis
  proof (cases r)
    case (Inr i)
    with r show ?thesis by (auto simp: prove_nsec_span_def span_result_def)
  next
    case (Inl p)
    obtain span ce where p: "p = (span, ce)" by (cases p)
    have none: "wcard_result nlist (star # cs) (None, False)" for cs by (simp add: wcard_result_def)
    have span: "\<forall>i. span = Some i \<longrightarrow> i < length nlist \<and> nsec_in_span (nlist ! i) qs"
      using r(2) Inl p by (simp add: span_result_def)
    show ?thesis
    proof (cases ce)
      case None
      with r(1) Inl p span none [of "[]"] show ?thesis
        by (intro exI [of _ span] exI [of _ "None :: nat option"] exI [of _ False])
          (auto simp: prove_nsec_span_def intro: exI [of _ "[]"])
    next
      case (Some c)
      with r(2) Inl p obtain cs where cs: "encodes c cs" "subname qs cs" by (auto simp: span_result_def)
      have len: "wire_name_length c = Some (length (enc cs))" by (rule wire_name_length_encodes [OF cs(1)])
      show ?thesis
      proof (cases "NS_MAXCDNAME < length (enc cs) + 2")
        case True
        with r(1) Inl p Some len span none cs(2) show ?thesis
          by (intro exI [of _ span] exI [of _ "None :: nat option"] exI [of _ False])
            (auto simp: prove_nsec_span_def)
      next
        case False
        obtain t where t: "c = enc cs @ t" "wf_name cs" using cs(1) by (rule encodesE)
        have "seg c 0 (length (enc cs)) = Some (enc cs)" using t(1) by (simp add: seg_def)
        moreover obtain wr where wr: "nsec_wcard_loop (wildcard_name (enc cs)) nlist 0 = Some wr"
          "wcard_result nlist (star # cs) wr"
          using nsec_wcard_loop_result [OF wildcard_name_encodes [OF t(2)] assms(2), of nlist "[]"] False by auto
        ultimately show ?thesis using r(1) Inl p Some len span False cs(2)
          by (intro exI [of _ span] exI [of _ "fst wr"] exI [of _ "snd wr"]) (auto simp: prove_nsec_span_def)
      qed
    qed
  qed
qed

text \<open>
  What RFC 4034 and RFC 4035 section 5.4 let a record deny, read off its bitmap and its two names without the code.
  A type is denied at the owner when neither it nor an alias is in the bitmap, and a DS only by a record of the
  parent, at a delegation (RFC 6840 section 4.4). A name is denied when it lies strictly between the owner and the
  next name, or after the owner of the last record of the zone.
\<close>

definition rfc_nsec :: "rrset_rec \<Rightarrow> bool" where
  "rfc_nsec n \<longleftrightarrow> (\<exists>own nxt apex ws. wf_windows ws \<and> nsec_says n own nxt apex (concat (map window_bytes ws)))"

definition type_absent :: "(nat \<times> byte list) list \<Rightarrow> nat \<Rightarrow> bool" where
  "type_absent ws t \<longleftrightarrow> \<not> holds_type ws t \<and> \<not> holds_type ws 5 \<and> \<not> holds_type ws 39 \<and>
     (t = 43 \<longrightarrow> holds_type ws 2 \<and> \<not> holds_type ws 6)"

definition nsec_denies_type :: "rrset_rec \<Rightarrow> label list \<Rightarrow> nat \<Rightarrow> bool" where
  "nsec_denies_type n xs t \<longleftrightarrow> (\<exists>own nxt apex ws. wf_windows ws \<and>
     nsec_says n own nxt apex (concat (map window_bytes ws)) \<and> cname xs = cname own \<and> type_absent ws t)"

definition nsec_denies_name :: "rrset_rec \<Rightarrow> label list \<Rightarrow> bool" where
  "nsec_denies_name n xs \<longleftrightarrow> (\<exists>own nxt apex bits. nsec_says n own nxt apex bits \<and>
     cname own < cname xs \<and> (cname xs < cname nxt \<or> cname nxt = cname apex))"

definition nsec_next :: "rrset_rec \<Rightarrow> label list \<Rightarrow> bool" where
  "nsec_next n xs \<longleftrightarrow> (\<exists>own nxt apex bits. nsec_says n own nxt apex bits \<and> cname nxt = cname xs)"

text \<open>Neither the name nor a wildcard above it is the next name of a record, where the span of the code is wrong.\<close>

definition no_next :: "rrset_rec list \<Rightarrow> label list \<Rightarrow> bool" where
  "no_next nlist qs \<longleftrightarrow> (\<forall>n \<in> set nlist. \<not> nsec_next n qs \<and> (\<forall>cs. subname qs cs \<longrightarrow> \<not> nsec_next n (star # cs)))"

lemma nsec_says_unique:
  assumes "nsec_says n own nxt apex bits" "nsec_says n own' nxt' apex' bits'"
  shows "nxt = nxt' \<and> bits = bits'"
proof (rule enc_eq_append)
  show "enc nxt @ bits = enc nxt' @ bits'" using assms by (simp add: nsec_says_def)
qed (use assms wf_name_labels in \<open>simp_all add: nsec_says_def\<close>)

lemma nsec_next_says: "nsec_says n own nxt apex bits \<Longrightarrow> nsec_next n xs \<longleftrightarrow> cname nxt = cname xs"
  unfolding nsec_next_def by (metis nsec_says_unique)

lemma rfc_nsec_wf: "rfc_nsec n \<Longrightarrow> wf_nsec n"
  by (auto simp: rfc_nsec_def wf_nsec_def)

lemma span_denies_name: "nsec_in_span n xs \<Longrightarrow> \<not> nsec_next n xs \<Longrightarrow> nsec_denies_name n xs"
  unfolding nsec_in_span_def nsec_denies_name_def in_span_def nsec_next_def by (metis le_less)

lemma denies_type_absent:
  assumes "wf_windows ws" "0 < t" "t < 256" "denies_type (concat (map window_bytes ws)) t"
  shows "type_absent ws (unat t)"
proof -
  have n: "unat t = 43 \<longleftrightarrow> t = ns_t_ds" by (auto simp: word_unat_eq_iff [of t])
  show ?thesis
    using assms(4) is_type_set_windows [OF assms(1-3)] is_type_set_windows [OF assms(1), of ns_t_cname]
      is_type_set_windows [OF assms(1), of ns_t_dname] is_type_set_windows [OF assms(1), of ns_t_ns]
      is_type_set_windows [OF assms(1), of ns_t_soa]
    by (auto simp: denies_type_def type_absent_def n)
qed

lemma found_denies_type:
  assumes "rfc_nsec n" "nsec_found n xs t" "0 < t" "t < 256"
  shows "nsec_denies_type n xs (unat t)"
proof -
  obtain own nxt apex ws where w: "wf_windows ws" "nsec_says n own nxt apex (concat (map window_bytes ws))"
    using assms(1) by (auto simp: rfc_nsec_def)
  obtain own' nxt' apex' bits where f: "nsec_says n own' nxt' apex' bits" "cname xs = cname own'" "denies_type bits t"
    using assms(2) by (auto simp: nsec_found_def)
  have b: "bits = concat (map window_bytes ws)" using nsec_says_unique [OF w(2) f(1)] by simp
  show ?thesis
    using w(1) f denies_type_absent [OF w(1) assms(3,4)] unfolding nsec_denies_type_def b by blast
qed

definition wildcard_shown :: "rrset_rec list \<Rightarrow> label list \<Rightarrow> nat option \<Rightarrow> bool \<Rightarrow> bool" where
  "wildcard_shown nlist ws wcard notype \<longleftrightarrow> (case wcard of None \<Rightarrow> \<not> notype
   | Some j \<Rightarrow> j < length nlist \<and> (if notype then nsec_owner (nlist ! j) ws else nsec_denies_name (nlist ! j) ws))"

lemma wcard_result_shown:
  assumes "wcard_result nlist ws (wcard, notype)" "\<forall>n \<in> set nlist. \<not> nsec_next n ws"
  shows "wildcard_shown nlist ws wcard notype"
  using assms span_denies_name [of "nlist ! the wcard" ws]
  by (auto simp: wcard_result_def wildcard_shown_def split: option.splits)

lemma prove_nsec_span_denies:
  assumes "encodes qname_n qs" "list_all rfc_nsec nlist" "0 < qtype_h" "qtype_h < 256" "no_next nlist qs"
  shows "\<exists>span wcard notype. prove_nsec_span nlist qname_n qtype_h None = Some (span, wcard, notype) \<and>
    ((\<exists>i < length nlist. span = Some i \<and> wcard = Some i \<and> notype \<and> nsec_denies_type (nlist ! i) qs (unat qtype_h)) \<or>
     (\<forall>i. span = Some i \<longrightarrow> i < length nlist \<and> nsec_denies_name (nlist ! i) qs) \<and>
     (\<exists>cs. subname qs cs \<and> wildcard_shown nlist (star # cs) wcard notype))"
proof -
  have wf: "list_all wf_nsec nlist" using assms(2) rfc_nsec_wf by (auto simp: list_all_iff)
  obtain span wcard notype where r: "prove_nsec_span nlist qname_n qtype_h None = Some (span, wcard, notype)"
    "(\<exists>i < length nlist. span = Some i \<and> wcard = Some i \<and> notype \<and> nsec_found (nlist ! i) qs qtype_h) \<or>
     (\<forall>i. span = Some i \<longrightarrow> i < length nlist \<and> nsec_in_span (nlist ! i) qs) \<and>
     (\<exists>cs. subname qs cs \<and> wcard_result nlist (star # cs) (wcard, notype))"
    using prove_nsec_span_result [OF assms(1) wf, of qtype_h] by blast
  have t: "nsec_found (nlist ! i) qs qtype_h \<Longrightarrow> i < length nlist \<Longrightarrow> nsec_denies_type (nlist ! i) qs (unat qtype_h)" for i
    using found_denies_type [OF _ _ assms(3,4)] assms(2) by (simp add: list_all_length)
  have s: "nsec_in_span (nlist ! i) qs \<Longrightarrow> i < length nlist \<Longrightarrow> nsec_denies_name (nlist ! i) qs" for i
    using span_denies_name assms(5) by (simp add: no_next_def)
  have w: "wcard_result nlist (star # cs) (wcard, notype) \<Longrightarrow> subname qs cs \<Longrightarrow> wildcard_shown nlist (star # cs) wcard notype" for cs
    using wcard_result_shown assms(5) by (simp add: no_next_def)
  have "(\<exists>i < length nlist. span = Some i \<and> wcard = Some i \<and> notype \<and> nsec_denies_type (nlist ! i) qs (unat qtype_h)) \<or>
     (\<forall>i. span = Some i \<longrightarrow> i < length nlist \<and> nsec_denies_name (nlist ! i) qs) \<and>
     (\<exists>cs. subname qs cs \<and> wildcard_shown nlist (star # cs) wcard notype)"
    using r(2) s t w by blast
  with r(1) show ?thesis by (intro exI conjI)
qed

text \<open>
  A wildcard that matches the name asked for counts as a proof that the type does not exist, whatever its bitmap
  says: the comment says the type has been checked, but the first loop checks only the owner of the name itself.
\<close>

lemma nsec_wcard_loop_ignores_types:
  assumes "encodes wc_n ws" "nsec_says n own nxt apex bits" "cname ws = cname own"
  shows "nsec_wcard_loop wc_n (n # ns) i = Some (Some i, True)"
  by (rule nsec_says_step [OF assms(2,1)]) (use assms(3) in simp)

text \<open>The next name of a record, which exists, is inside the span of the record.\<close>

lemma covers_next: "cname own < cname nxt \<Longrightarrow> in_span nxt own nxt apex"
  by (simp add: in_span_def)


lemma common_self: "common xs xs = xs"
  by (cases xs) simp_all

text \<open>
  Two records of an honest zone, the one that ends at a name and the one that starts there, deny the name:
  the span includes its end, and the record of the name itself is passed over when the type exists.
\<close>

lemma existing_name_denied:
  assumes "nsec_says n1 own nxt apex b1" "nsec_says n2 nxt nxt2 apex b2" "cname own < cname nxt"
    and "\<not> denies_type b2 t" "cname (star # nxt) \<le> cname nxt2 \<or> cname nxt2 = cname apex"
    and "cname nxt \<noteq> cname apex" "length (enc nxt) + 2 \<le> NS_MAXCDNAME"
  shows "prove_nsec_span [n1, n2] (enc nxt) t None = Some (Some 0, Some 1, False)"
proof -
  have nxt: "wf_name nxt" "wf_name nxt2" using assms(1,2) by (simp_all add: nsec_says_def)
  note q = encodes_enc(2) [OF nxt(1)]
  have own: "encodes (rrs_name_n n1) own" using assms(1) by (simp add: nsec_says_def)
  note wc = wildcard_name_encodes [OF nxt(1) assms(7)]
  obtain sig1 c1 where s1: "first_rdata (rrs_sig n1) = Some sig1" "first_rdata (rrs_data n1) = Some (enc nxt @ b1)"
    "namecmp (enc nxt) (rrs_name_n n1) = Some c1" "c1 = 0 \<longleftrightarrow> cname nxt = cname own"
    "sc_and (Some (0 < c1)) (before_next (enc nxt) (enc nxt @ b1) sig1) = Some (in_span nxt own nxt apex)"
    by (rule nsec_says_step [OF assms(1) q])
  obtain sig2 c2 where s2: "first_rdata (rrs_sig n2) = Some sig2" "first_rdata (rrs_data n2) = Some (enc nxt2 @ b2)"
    "namecmp (enc nxt) (rrs_name_n n2) = Some c2" "c2 = 0 \<longleftrightarrow> cname nxt = cname nxt"
    by (rule nsec_says_step [OF assms(2) q])
  obtain sig3 c3 where w1: "first_rdata (rrs_sig n1) = Some sig3" "first_rdata (rrs_data n1) = Some (enc nxt @ b1)"
    "namecmp (wildcard_name (enc nxt)) (rrs_name_n n1) = Some c3" "c3 = 0 \<longleftrightarrow> cname (star # nxt) = cname own"
    "sc_and (Some (0 < c3)) (before_next (wildcard_name (enc nxt)) (enc nxt @ b1) sig3) =
      Some (in_span (star # nxt) own nxt apex)"
    by (rule nsec_says_step [OF assms(1) wc])
  obtain sig4 c4 where w2: "first_rdata (rrs_sig n2) = Some sig4" "first_rdata (rrs_data n2) = Some (enc nxt2 @ b2)"
    "namecmp (wildcard_name (enc nxt)) (rrs_name_n n2) = Some c4" "c4 = 0 \<longleftrightarrow> cname (star # nxt) = cname nxt"
    "sc_and (Some (0 < c4)) (before_next (wildcard_name (enc nxt)) (enc nxt2 @ b2) sig4) =
      Some (in_span (star # nxt) nxt nxt2 apex)"
    by (rule nsec_says_step [OF assms(2) wc])
  obtain q1 where q1: "enclosure (enc nxt) (rrs_name_n n1) 0 = Some q1" "encodes q1 (common nxt own)"
    using enclosure_encodes [OF q own] by blast
  obtain q2 where q2: "enclosure (enc nxt) (enc nxt @ b1) 0 = Some q2" "encodes q2 nxt"
    using enclosure_encodes [OF q encodes_enc(1) [OF nxt(1), of b1]] by (auto simp: common_self)
  have "length (enc (common nxt own)) \<le> length (enc nxt)"
    using subname_offset [OF subname_common [of nxt own]] by linarith
  then have ce: "longer_name q1 q2 = Some q2" using longer_name_encodes [OF q1(2) q2(2)] by simp
  have seg: "wire_name_length q2 = Some (length (enc nxt))" "seg q2 0 (length (enc nxt)) = Some (enc nxt)"
    using q2(2) by (auto simp: seg_def wire_name_length_encodes elim!: encodesE)
  have c: "c1 \<noteq> 0" "c3 \<noteq> 0" "c4 \<noteq> 0" "c2 = 0"
    using s1(4) s2(4) w1(4) w2(4) assms(3) cname_tl_less [of nxt star] by auto
  have cov: "in_span nxt own nxt apex" "\<not> in_span (star # nxt) own nxt apex" "in_span (star # nxt) nxt nxt2 apex"
    using assms(3,5,6) cname_tl_less [of nxt star] by (auto simp: in_span_def)
  show ?thesis
    using s1 s2 w1 w2 q1 q2 ce c cov seg assms(4,7) nsec_denies_enc [OF nxt(2), of b2 t]
    by (simp add: prove_nsec_span_def)
qed


subsection \<open>Proofs with NSEC3 records\<close>

abbreviation ALG_NSEC3_HASH_SHA1 :: byte where "ALG_NSEC3_HASH_SHA1 \<equiv> 1"
abbreviation NSEC3_FLAG_OPTOUT :: byte where "NSEC3_FLAG_OPTOUT \<equiv> 1"

record nsec3proof =
  n3_nd :: val_nsec3_rdata
  n3_hashlen :: nat
  n3_hash :: "byte list"
  n3_set :: rrset_rec

definition check_range :: "byte list \<Rightarrow> nat \<Rightarrow> byte list \<Rightarrow> nat \<Rightarrow> byte list \<Rightarrow> nat \<Rightarrow> bool option" where
  "check_range range1 range1len range2 range2len hash hashlen = do {
     e \<leftarrow> label_bytes_cmp range2 range2len hash hashlen;
     if e = 0 then Some False
     else do {
       o' \<leftarrow> label_bytes_cmp range2 range2len range1 range1len;
       if 0 < o' then do {
         a \<leftarrow> label_bytes_cmp hash hashlen range1 range1len;
         if 0 < a then do { b \<leftarrow> label_bytes_cmp hash hashlen range2 range2len; Some (b < 0) }
         else Some False
       } else do {
         b \<leftarrow> label_bytes_cmp hash hashlen range2 range2len;
         if b < 0 then Some True
         else do { a \<leftarrow> label_bytes_cmp hash hashlen range1 range1len; Some (0 < a) }
       }
     }
   }"

text \<open>The first entry whose zone the signer is in; unlike \<open>get_zse\<close>, also one without a policy.\<close>

fun find_zone_entry :: "byte list \<Rightarrow> 'a policy_entry list \<Rightarrow> 'a policy_entry option option" where
  "find_zone_entry name_n [] = Some None"
| "find_zone_entry name_n (e # es) = do {
     m \<leftarrow> zone_matches name_n (zone_n e);
     if m then Some (Some e) else find_zone_entry name_n es
   }"

text \<open>\<open>compute_nsec3_hash\<close>: the hash or NULL, the new \<open>*ttl_x\<close> and the context's list.\<close>

definition compute_nsec3_hash :: "openssl \<Rightarrow> int \<Rightarrow> int e_pol \<Rightarrow> byte list \<Rightarrow> byte list \<Rightarrow> byte \<Rightarrow> u16 \<Rightarrow> byte list \<Rightarrow>
    u32 \<Rightarrow> (byte list option \<times> u32 \<times> int e_pol) option" where
  "compute_nsec3_hash C now ctx qname_n soa_name_n alg iter salt ttl_x =
     (if alg \<noteq> ALG_NSEC3_HASH_SHA1 then Some (None, ttl_x, ctx)
      else do {
        name_len \<leftarrow> wire_name_length soa_name_n;
        (es, ctx') \<leftarrow> retrieve_policy now ctx;
        cur \<leftarrow> skip_longer es name_len;
        r \<leftarrow> find_zone_entry soa_name_n cur;
        let (too_many, ttl_x') = (case r of
            Some e \<Rightarrow> (case pol e of
                Some n \<Rightarrow> (0 < n \<and> n < uint iter, if 0 < exp_ttl e then word_of_int (exp_ttl e) else ttl_x)
              | None \<Rightarrow> (False, ttl_x))
          | None \<Rightarrow> (False, ttl_x));
        if too_many then Some (None, ttl_x', ctx')
        else do {
          hash \<leftarrow> nsec3_sha_hash_compute C qname_n salt (unat iter);
          b32_hash \<leftarrow> base32hex_encode hash;
          Some (Some b32_hash, ttl_x', ctx')
        }
      })"

text \<open>The hash of \<open>name\<close> with the parameters of the record \<open>n\<close>.\<close>

definition hash_for :: "openssl \<Rightarrow> int \<Rightarrow> int e_pol \<Rightarrow> byte list \<Rightarrow> nsec3proof \<Rightarrow> u32 \<Rightarrow>
    (byte list option \<times> u32 \<times> int e_pol) option" where
  "hash_for C now ctx name n ttl_x = do {
     sig \<leftarrow> first_rdata (rrs_sig (n3_set n));
     soa_name_n \<leftarrow> ptr sig SIGNBY;
     compute_nsec3_hash C now ctx name soa_name_n (n3_alg (n3_nd n)) (n3_iterations (n3_nd n)) (n3_salt (n3_nd n)) ttl_x
   }"

text \<open>The bitmap of a record that matches the query name; a record without a bitmap denies every type.\<close>

definition nsec3_denies :: "nsec3proof \<Rightarrow> u16 \<Rightarrow> bool option" where
  "nsec3_denies n qtype_h = do {
     rdata \<leftarrow> first_rdata (rrs_data (n3_set n));
     let off = unat (n3_bit_field (n3_nd n));
     Some (\<not> (off \<noteq> 0 \<and> off < length rdata) \<or> denies_type (drop off rdata) qtype_h)
   }"

text \<open>
  The inner loop of the search for the closest provable encloser at the name \<open>cp\<close>; \<open>at_qname\<close> is
  \<open>cp == qname_n\<close>. The answer: \<open>Inr i\<close> for a record that matches the query name and denies the type, or
  \<open>Inl\<close> with \<open>*cpe\<close>.
\<close>

fun cpe_records :: "openssl \<Rightarrow> int \<Rightarrow> bool \<Rightarrow> byte list \<Rightarrow> u16 \<Rightarrow> nsec3proof list \<Rightarrow> nat \<Rightarrow> u32 \<Rightarrow> int e_pol \<Rightarrow>
    ((nat option + nat) \<times> u32 \<times> int e_pol) option" where
  "cpe_records C now at_qname cp qtype_h [] i ttl_x ctx = Some (Inl None, ttl_x, ctx)"
| "cpe_records C now at_qname cp qtype_h (n # ns) i ttl_x ctx = do {
     (h, ttl_x', ctx') \<leftarrow> hash_for C now ctx cp n ttl_x;
     case h of
       None \<Rightarrow> cpe_records C now at_qname cp qtype_h ns (i + 1) ttl_x' ctx'
     | Some hash \<Rightarrow> do {
         c \<leftarrow> label_bytes_cmp (n3_hash n) (n3_hashlen n) hash (length hash);
         if c \<noteq> 0 then cpe_records C now at_qname cp qtype_h ns (i + 1) ttl_x' ctx'
         else if at_qname then do {
           ok \<leftarrow> nsec3_denies n qtype_h;
           if ok then Some (Inr i, ttl_x', ctx') else cpe_records C now at_qname cp qtype_h ns (i + 1) ttl_x' ctx'
         }
         else Some (Inl (Some i), ttl_x', ctx')
       }
   }"


definition signer_of :: "nsec3proof \<Rightarrow> byte list option" where
  "signer_of n = do { sig \<leftarrow> first_rdata (rrs_sig (n3_set n)); ptr sig SIGNBY }"

text \<open>
  The search itself. \<open>STRIP_LABEL\<close> leaves the root where it is, so the loop need not end: \<open>None\<close> stands for a
  fault as well as for a call that never returns. \<open>p\<close> is the offset of \<open>cp\<close> in the query name.
\<close>

partial_function (option) cpe_search :: "openssl \<Rightarrow> int \<Rightarrow> byte list \<Rightarrow> u16 \<Rightarrow> nsec3proof list \<Rightarrow> nat \<Rightarrow> byte list \<Rightarrow>
    u32 \<Rightarrow> int e_pol \<Rightarrow> ((nat option + nat) \<times> nat \<times> u32 \<times> int e_pol) option" where
  "cpe_search C now qname_n qtype_h nlist p soa_name_n ttl_x ctx = do {
     cp \<leftarrow> ptr qname_n p;
     c \<leftarrow> namecmp cp soa_name_n;
     if c < 0 then Some (Inl None, p, ttl_x, ctx)
     else do {
       (r, ttl_x', ctx') \<leftarrow> cpe_records C now (p = 0) cp qtype_h nlist 0 ttl_x ctx;
       if r \<noteq> Inl None then Some (r, p, ttl_x', ctx')
       else do {
         b \<leftarrow> rd qname_n p;
         soa \<leftarrow> signer_of (last nlist);
         cpe_search C now qname_n qtype_h nlist (if b \<noteq> 0 then p + unat b + 1 else p) soa ttl_x' ctx'
       }
     }
   }"

text \<open>The name one label longer than \<open>cp\<close>: its offset in the query name.\<close>

function next_closer :: "byte list \<Rightarrow> byte list \<Rightarrow> nat \<Rightarrow> nat \<Rightarrow> nat option option" where
  "next_closer qname_n cp s_cp e_cp =
     (if s_cp < e_cp then do {
        b \<leftarrow> rd qname_n s_cp;
        n_cp \<leftarrow> ptr qname_n (s_cp + unat b + 1);
        c \<leftarrow> namecmp n_cp cp;
        if c = 0 then Some (Some s_cp) else next_closer qname_n cp (s_cp + unat b + 1) e_cp
      } else Some None)"
  by pat_completeness auto
termination by (relation "measure (\<lambda>(qname_n, cp, s_cp, e_cp). e_cp - s_cp)") auto

declare next_closer.simps [simp del]

text \<open>
  The loop over the records for the next closer name: \<open>Inl ()\<close> is the \<open>return\<close> on a hash that cannot be computed,
  \<open>Inr\<close> has \<open>*ncn\<close> and \<open>*optout\<close>.
\<close>

fun ncn_records :: "openssl \<Rightarrow> int \<Rightarrow> byte list \<Rightarrow> nsec3proof list \<Rightarrow> nat \<Rightarrow> u32 \<Rightarrow> int e_pol \<Rightarrow>
    ((unit + nat option \<times> bool) \<times> u32 \<times> int e_pol) option" where
  "ncn_records C now s_cp [] i ttl_x ctx = Some (Inr (None, False), ttl_x, ctx)"
| "ncn_records C now s_cp (n # ns) i ttl_x ctx = do {
     (h, ttl_x', ctx') \<leftarrow> hash_for C now ctx s_cp n ttl_x;
     case h of
       None \<Rightarrow> Some (Inl (), ttl_x', ctx')
     | Some hash \<Rightarrow> do {
         inside \<leftarrow> check_range (n3_hash n) (n3_hashlen n) (n3_nexthash (n3_nd n))
           (unat (n3_nexthashlen (n3_nd n))) hash (length hash);
         if inside then Some (Inr (Some i, n3_flags (n3_nd n) AND NSEC3_FLAG_OPTOUT \<noteq> 0), ttl_x', ctx')
         else ncn_records C now s_cp ns (i + 1) ttl_x' ctx'
       }
   }"

text \<open>The loop for the wildcard: \<open>*wcp\<close> and \<open>*notype\<close>.\<close>

fun wcp_records :: "openssl \<Rightarrow> int \<Rightarrow> byte list \<Rightarrow> nsec3proof list \<Rightarrow> nat \<Rightarrow> u32 \<Rightarrow> int e_pol \<Rightarrow>
    ((nat option \<times> bool) \<times> u32 \<times> int e_pol) option" where
  "wcp_records C now wc_n [] i ttl_x ctx = Some ((None, False), ttl_x, ctx)"
| "wcp_records C now wc_n (n # ns) i ttl_x ctx = do {
     (h, ttl_x', ctx') \<leftarrow> hash_for C now ctx wc_n n ttl_x;
     case h of
       None \<Rightarrow> Some ((None, False), ttl_x', ctx')
     | Some hash \<Rightarrow> do {
         c \<leftarrow> label_bytes_cmp (n3_hash n) (n3_hashlen n) hash (length hash);
         if c = 0 then Some ((Some i, True), ttl_x', ctx')
         else do {
           inside \<leftarrow> check_range (n3_hash n) (n3_hashlen n) (n3_nexthash (n3_nd n))
             (unat (n3_nexthashlen (n3_nd n))) hash (length hash);
           if inside then Some ((Some i, False), ttl_x', ctx')
           else wcp_records C now wc_n ns (i + 1) ttl_x' ctx'
         }
       }
   }"

record nsec3_span =
  sp_ncn :: "nat option"
  sp_cpe :: "nat option"
  sp_wcp :: "nat option"
  sp_notype :: bool
  sp_optout :: bool

definition no_span :: nsec3_span where
  "no_span = \<lparr> sp_ncn = None, sp_cpe = None, sp_wcp = None, sp_notype = False, sp_optout = False \<rparr>"

text \<open>From \<open>find the NCN\<close> on, for the encloser \<open>cp\<close>.\<close>

definition span_below :: "openssl \<Rightarrow> int \<Rightarrow> byte list \<Rightarrow> nsec3proof list \<Rightarrow> byte list \<Rightarrow> bool \<Rightarrow> nsec3_span \<Rightarrow> u32 \<Rightarrow> int e_pol \<Rightarrow>
    (nsec3_span \<times> u32 \<times> int e_pol) option" where
  "span_below C now qname_n nlist cp hinted s ttl_x ctx = do {
     len \<leftarrow> wire_name_length qname_n;
     w \<leftarrow> next_closer qname_n cp 0 len;
     case w of
       None \<Rightarrow> Some (s, ttl_x, ctx)
     | Some q \<Rightarrow> do {
         s_cp \<leftarrow> ptr qname_n q;
         (r, ttl_x', ctx') \<leftarrow> ncn_records C now s_cp nlist 0 ttl_x ctx;
         case r of
           Inl _ \<Rightarrow> Some (s, ttl_x', ctx')
         | Inr (k, oo) \<Rightarrow>
             let s' = s\<lparr> sp_ncn := k, sp_optout := oo \<rparr> in
             if hinted then Some (s'\<lparr> sp_wcp := k \<rparr>, ttl_x', ctx')
             else do {
               clen \<leftarrow> wire_name_length cp;
               if NS_MAXCDNAME < clen + 2 then Some (s', ttl_x', ctx')
               else do {
                 name \<leftarrow> seg cp 0 clen;
                 ((wc, nt), ttl_x'', ctx'') \<leftarrow> wcp_records C now (wildcard_name name) nlist 0 ttl_x' ctx';
                 Some (s'\<lparr> sp_wcp := wc, sp_notype := nt \<rparr>, ttl_x'', ctx'')
               }
             }
       }
   }"

text \<open>\<open>prove_nsec3_span\<close>, for a list that is not empty.\<close>

definition prove_nsec3_span :: "openssl \<Rightarrow> int \<Rightarrow> int e_pol \<Rightarrow> nsec3proof list \<Rightarrow> byte list \<Rightarrow> u16 \<Rightarrow> u32 \<Rightarrow> byte list option \<Rightarrow>
    (nsec3_span \<times> u32 \<times> int e_pol) option" where
  "prove_nsec3_span C now ctx nlist qname_n qtype_h ttl_x ce_wcard = (case ce_wcard of
     Some cp \<Rightarrow> span_below C now qname_n nlist cp True no_span ttl_x ctx
   | None \<Rightarrow> do {
       (r, p, ttl_x', ctx') \<leftarrow> cpe_search C now qname_n qtype_h nlist 0 qname_n ttl_x ctx;
       case r of
         Inr i \<Rightarrow> Some (\<lparr> sp_ncn = Some i, sp_cpe = Some i, sp_wcp = Some i, sp_notype = True, sp_optout = False \<rparr>, ttl_x', ctx')
       | Inl None \<Rightarrow> Some (no_span, ttl_x', ctx')
       | Inl (Some i) \<Rightarrow> do {
           cp \<leftarrow> ptr qname_n p;
           span_below C now qname_n nlist cp False (no_span\<lparr> sp_cpe := Some i \<rparr>) ttl_x' ctx'
         }
     })"


subsection \<open>What an NSEC3 proof shows\<close>

text \<open>The hash of a name with the parameters of a record, as it stands in owner names.\<close>

definition hashed :: "openssl \<Rightarrow> nsec3proof \<Rightarrow> label list \<Rightarrow> label" where
  "hashed C n xs = base32 (((\<lambda>x. evp C SHA1 (x @ n3_salt (n3_nd n))) ^^ (unat (n3_iterations (n3_nd n)) + 1))
     (enc (lower_labels xs)))"

abbreviation low :: "label \<Rightarrow> label" where "low \<equiv> map tolower"

definition n3_owner :: "nsec3proof \<Rightarrow> label" where
  "n3_owner n = take (n3_hashlen n) (n3_hash n)"

definition wf_nsec3 :: "nsec3proof \<Rightarrow> bool" where
  "wf_nsec3 n \<longleftrightarrow> n3_hashlen n \<le> length (n3_hash n) \<and> n3_hashlen n \<le> NS_MAXCDNAME \<and>
     unat (n3_nexthashlen (n3_nd n)) = length (n3_nexthash (n3_nd n))"

definition n3_matches :: "openssl \<Rightarrow> nsec3proof \<Rightarrow> label list \<Rightarrow> bool" where
  "n3_matches C n xs \<longleftrightarrow> low (hashed C n xs) = low (n3_owner n)"

text \<open>The hash lies in the gap after the owner; the last record of the chain wraps around.\<close>

definition in_gap :: "label \<Rightarrow> label \<Rightarrow> label \<Rightarrow> bool" where
  "in_gap lo hi h \<longleftrightarrow> h \<noteq> hi \<and> (if lo < hi then lo < h \<and> h < hi else h < hi \<or> lo < h)"

definition n3_covers :: "openssl \<Rightarrow> nsec3proof \<Rightarrow> label list \<Rightarrow> bool" where
  "n3_covers C n xs \<longleftrightarrow> in_gap (low (n3_owner n)) (low (n3_nexthash (n3_nd n))) (low (hashed C n xs))"

lemma label_bytes_cmp_sgn:
  assumes "k \<le> length a" "k \<le> NS_MAXCDNAME" "length b \<le> NS_MAXCDNAME"
  shows "\<exists>c. label_bytes_cmp a k b (length b) = Some c \<and> sgn c = ocmp (low (take k a)) (low b)"
    "\<exists>c. label_bytes_cmp b (length b) a k = Some c \<and> sgn c = ocmp (low b) (low (take k a))"
proof -
  have a: "a = take k a @ drop k a" "length (take k a) = k" using assms by simp_all
  have "label_bytes_cmp (take k a @ drop k a) (length (take k a)) (b @ []) (length b) = Some (lcmp (take k a) b)"
    by (rule label_bytes_cmp_lcmp) (use assms in simp_all)
  then show "\<exists>c. label_bytes_cmp a k b (length b) = Some c \<and> sgn c = ocmp (low (take k a)) (low b)"
    using a sgn_lcmp [of "take k a" b] by simp
  have "label_bytes_cmp (b @ []) (length b) (take k a @ drop k a) (length (take k a)) = Some (lcmp b (take k a))"
    by (rule label_bytes_cmp_lcmp) (use assms in simp_all)
  then show "\<exists>c. label_bytes_cmp b (length b) a k = Some c \<and> sgn c = ocmp (low b) (low (take k a))"
    using a sgn_lcmp [of b "take k a"] by simp
qed

lemma length_hashed: "digests_sized C \<Longrightarrow> length (hashed C n xs) = 32"
  by (simp add: hashed_def length_base32 digests_sized_def digest_length_def)

lemma hash_for_hashed:
  assumes "encodes name xs" "digests_sized C" "hash_for C now ctx name n ttl_x = Some (Some h, ttl_x', ctx')"
  shows "h = hashed C n xs"
proof -
  define hh where "hh = ((\<lambda>x. evp C SHA1 (x @ n3_salt (n3_nd n))) ^^ (unat (n3_iterations (n3_nd n)) + 1)) (enc (lower_labels xs))"
  have v: "valid_name name" using assms(1) by (auto simp: valid_name_def)
  have "canon name = enc (lower_labels xs)" by (rule canon_encodes [OF assms(1)])
  then have c: "nsec3_sha_hash_compute C name (n3_salt (n3_nd n)) (unat (n3_iterations (n3_nd n))) = Some hh"
    using nsec3_sha_hash_compute_eq [OF v] by (simp add: hh_def)
  have "length hh = 20" using assms(2) by (simp add: hh_def digests_sized_def digest_length_def)
  then have b: "base32hex_encode hh = Some (base32 hh)" by (intro base32hex_encode_multiple) simp
  from assms(3) obtain soa where "compute_nsec3_hash C now ctx name soa (n3_alg (n3_nd n)) (n3_iterations (n3_nd n))
      (n3_salt (n3_nd n)) ttl_x = Some (Some h, ttl_x', ctx')"
    by (auto simp: hash_for_def split: Option.bind_splits)
  then have "h = base32 hh"
    by (auto simp: compute_nsec3_hash_def c b Let_def split: if_splits Option.bind_splits prod.splits)
  then show ?thesis by (simp add: hashed_def hh_def)
qed

lemma owner_cmp:
  assumes "wf_nsec3 n" "length h = 32" "label_bytes_cmp (n3_hash n) (n3_hashlen n) h 32 = Some c"
  shows "c = 0 \<longleftrightarrow> low (n3_owner n) = low h"
  using label_bytes_cmp_sgn(1) [of "n3_hashlen n" "n3_hash n" h] assms sgn_eq_ocmpD(1)
  by (force simp: wf_nsec3_def n3_owner_def)

lemma check_range_gap:
  assumes "wf_nsec3 n" "length h = 32"
    and "check_range (n3_hash n) (n3_hashlen n) (n3_nexthash (n3_nd n)) (unat (n3_nexthashlen (n3_nd n))) h 32 = Some b"
  shows "b \<longleftrightarrow> in_gap (low (n3_owner n)) (low (n3_nexthash (n3_nd n))) (low h)"
proof -
  let ?nx = "n3_nexthash (n3_nd n)"
  have nx: "length ?nx \<le> NS_MAXCDNAME" "unat (n3_nexthashlen (n3_nd n)) = length ?nx"
    using assms(1) unat_byte [of "n3_nexthashlen (n3_nd n)"] by (simp_all add: wf_nsec3_def)
  have k: "n3_hashlen n \<le> length (n3_hash n)" "n3_hashlen n \<le> NS_MAXCDNAME" using assms(1) by (simp_all add: wf_nsec3_def)
  obtain e where e: "label_bytes_cmp ?nx (length ?nx) h 32 = Some e" "sgn e = ocmp (low ?nx) (low h)"
    using label_bytes_cmp_sgn(1) [of "length ?nx" ?nx h] nx assms(2) by auto
  obtain f where f: "label_bytes_cmp h 32 ?nx (length ?nx) = Some f" "sgn f = ocmp (low h) (low ?nx)"
    using label_bytes_cmp_sgn(2) [of "length ?nx" ?nx h] nx assms(2) by auto
  obtain g where g: "label_bytes_cmp ?nx (length ?nx) (n3_hash n) (n3_hashlen n) = Some g"
    "sgn g = ocmp (low ?nx) (low (n3_owner n))"
    using label_bytes_cmp_sgn(2) [of "n3_hashlen n" "n3_hash n" ?nx] nx k by (auto simp: n3_owner_def)
  obtain a where a: "label_bytes_cmp h 32 (n3_hash n) (n3_hashlen n) = Some a"
    "sgn a = ocmp (low h) (low (n3_owner n))"
    using label_bytes_cmp_sgn(2) [of "n3_hashlen n" "n3_hash n" h] k assms(2) by (auto simp: n3_owner_def)
  note iffs = sgn_eq_ocmpD [OF e(2)] sgn_eq_ocmpD [OF f(2)] sgn_eq_ocmpD [OF g(2)] sgn_eq_ocmpD [OF a(2)]
  from assms(3) show ?thesis
    using e(1) f(1) g(1) a(1) iffs nx(2)
    by (auto simp: check_range_def in_gap_def split: if_splits)
qed


lemma cpe_records_sound:
  assumes "cpe_records C now at_qname cp qtype_h ns (length ps) ttl_x ctx = Some (r, ttl_x', ctx')"
    and "encodes cp xs" "digests_sized C" "list_all wf_nsec3 ns" "nlist = ps @ ns"
  shows "(\<forall>i. r = Inr i \<longrightarrow> at_qname \<and> i < length nlist \<and> n3_matches C (nlist ! i) xs \<and>
      nsec3_denies (nlist ! i) qtype_h = Some True) \<and>
    (\<forall>i. r = Inl (Some i) \<longrightarrow> \<not> at_qname \<and> i < length nlist \<and> n3_matches C (nlist ! i) xs)"
  using assms
proof (induction ns arbitrary: ps ttl_x ctx)
  case (Cons n ns)
  have at: "nlist ! length ps = n" "length ps < length nlist" using Cons.prems(5) by simp_all
  have IH: ?case if "cpe_records C now at_qname cp qtype_h ns (Suc (length ps)) t1 c1 = Some (r, ttl_x', ctx')" for t1 c1
    using Cons.IH [of "ps @ [n]" t1 c1] that Cons.prems by simp
  from Cons.prems(1) obtain h t1 c1 where h: "hash_for C now ctx cp n ttl_x = Some (h, t1, c1)"
    by (auto split: Option.bind_splits)
  show ?case
  proof (cases h)
    case None
    with h Cons.prems(1) IH show ?thesis by simp
  next
    case (Some hash)
    have hash: "hash = hashed C n xs" using hash_for_hashed [OF Cons.prems(2,3)] h Some by simp
    then have len: "length hash = 32" by (simp add: length_hashed [OF Cons.prems(3)])
    from h Some len Cons.prems(1) obtain c where c: "label_bytes_cmp (n3_hash n) (n3_hashlen n) hash 32 = Some c"
      by (auto split: Option.bind_splits)
    have m: "c = 0 \<longleftrightarrow> n3_matches C n xs"
      using owner_cmp [OF _ len c] Cons.prems(4) hash by (auto simp: n3_matches_def)
    show ?thesis
      using Cons.prems(1) h Some c m IH at len by (auto split: if_splits Option.bind_splits)
  qed
qed auto

lemma ncn_records_sound:
  assumes "ncn_records C now s_cp ns (length ps) ttl_x ctx = Some (Inr (Some i, oo), ttl_x', ctx')"
    and "encodes s_cp xs" "digests_sized C" "list_all wf_nsec3 ns" "nlist = ps @ ns"
  shows "i < length nlist \<and> n3_covers C (nlist ! i) xs \<and>
    (oo \<longleftrightarrow> n3_flags (n3_nd (nlist ! i)) AND NSEC3_FLAG_OPTOUT \<noteq> 0)"
  using assms
proof (induction ns arbitrary: ps ttl_x ctx)
  case (Cons n ns)
  have at: "nlist ! length ps = n" "length ps < length nlist" using Cons.prems(5) by simp_all
  from Cons.prems(1) obtain hash t1 c1 where h: "hash_for C now ctx s_cp n ttl_x = Some (Some hash, t1, c1)"
    by (auto split: Option.bind_splits option.splits)
  have hash: "hash = hashed C n xs" by (rule hash_for_hashed [OF Cons.prems(2,3) h])
  then have len: "length hash = 32" by (simp add: length_hashed [OF Cons.prems(3)])
  from Cons.prems(1) h len obtain b where b:
    "check_range (n3_hash n) (n3_hashlen n) (n3_nexthash (n3_nd n)) (unat (n3_nexthashlen (n3_nd n))) hash 32 = Some b"
    by (auto split: Option.bind_splits)
  have "b \<longleftrightarrow> n3_covers C n xs"
    using check_range_gap [OF _ len b] Cons.prems(4) hash by (simp add: n3_covers_def)
  then show ?case
    using Cons.IH [of "ps @ [n]" t1 c1] Cons.prems h b at len by (auto split: if_splits)
qed simp

lemma wcp_records_sound:
  assumes "wcp_records C now wc_n ns (length ps) ttl_x ctx = Some ((Some i, nt), ttl_x', ctx')"
    and "encodes wc_n xs" "digests_sized C" "list_all wf_nsec3 ns" "nlist = ps @ ns"
  shows "i < length nlist \<and> (if nt then n3_matches C (nlist ! i) xs else n3_covers C (nlist ! i) xs)"
  using assms
proof (induction ns arbitrary: ps ttl_x ctx)
  case (Cons n ns)
  have at: "nlist ! length ps = n" "length ps < length nlist" using Cons.prems(5) by simp_all
  from Cons.prems(1) obtain hash t1 c1 where h: "hash_for C now ctx wc_n n ttl_x = Some (Some hash, t1, c1)"
    by (auto split: Option.bind_splits option.splits)
  have hash: "hash = hashed C n xs" by (rule hash_for_hashed [OF Cons.prems(2,3) h])
  then have len: "length hash = 32" by (simp add: length_hashed [OF Cons.prems(3)])
  from Cons.prems(1) h len obtain c where c: "label_bytes_cmp (n3_hash n) (n3_hashlen n) hash 32 = Some c"
    by (auto split: Option.bind_splits)
  have m: "c = 0 \<longleftrightarrow> n3_matches C n xs"
    using owner_cmp [OF _ len c] Cons.prems(4) hash by (auto simp: n3_matches_def)
  show ?case
  proof (cases "c = 0")
    case True
    with Cons.prems(1) h c m at len show ?thesis by auto
  next
    case False
    with Cons.prems(1) h c len obtain b where b:
      "check_range (n3_hash n) (n3_hashlen n) (n3_nexthash (n3_nd n)) (unat (n3_nexthashlen (n3_nd n))) hash 32 = Some b"
      by (auto split: Option.bind_splits)
    have "b \<longleftrightarrow> n3_covers C n xs"
      using check_range_gap [OF _ len b] Cons.prems(4) hash by (simp add: n3_covers_def)
    then show ?thesis
      using Cons.IH [of "ps @ [n]" t1 c1] Cons.prems h b c at len False by (auto split: if_splits)
  qed
qed simp


lemma ptr_label_boundary:
  assumes "qs = us @ cs"
  shows "ptr (enc qs @ t) (length (encl us)) = Some (enc cs @ t)"
  using assms by (simp add: enc_append)

lemma rd_label_boundary:
  assumes "list_all wf_label us" "wf_name cs"
  shows "rd (enc (us @ cs) @ t) (length (encl us)) = Some (case cs of [] \<Rightarrow> 0 | l # _ \<Rightarrow> word_of_nat (length l))"
  unfolding enc_append using assms by (cases cs) simp_all

definition encloser :: "openssl \<Rightarrow> nsec3proof list \<Rightarrow> label list \<Rightarrow> u16 \<Rightarrow> (nat option + nat) \<times> nat \<Rightarrow> bool" where
  "encloser C nlist qs t rp \<longleftrightarrow> (\<exists>us cs. qs = us @ cs \<and> snd rp = length (encl us) \<and>
     (\<forall>i. fst rp = Inr i \<longrightarrow> i < length nlist \<and> n3_matches C (nlist ! i) qs \<and> nsec3_denies (nlist ! i) t = Some True) \<and>
     (\<forall>i. fst rp = Inl (Some i) \<longrightarrow> us \<noteq> [] \<and> i < length nlist \<and> n3_matches C (nlist ! i) cs))"

lemma encl_eq_Nil [simp]: "encl us = [] \<longleftrightarrow> us = []"
  by (cases us) simp_all

lemma cpe_search_sound:
  assumes "wf_name qs" "digests_sized C" "list_all wf_nsec3 nlist" "qs = us @ cs"
    and "cpe_search C now (enc qs @ t) qtype_h nlist (length (encl us)) soa ttl_x ctx = Some (r, p, ttl_x', ctx')"
  shows "encloser C nlist qs qtype_h (r, p)"
proof -
  have "\<forall>us cs. C' = C \<and> now' = now \<and> qn = enc qs @ t \<and> qt = qtype_h \<and> nl = nlist \<and> qs = us @ cs \<and>
      pp = length (encl us) \<longrightarrow> encloser C nlist qs qtype_h (fst y, fst (snd y))"
    if "cpe_search C' now' qn qt nl pp so tx cx = Some y" for C' now' qn qt nl pp so tx cx y
  proof (rule cpe_search.raw_induct [OF _ that], intro allI impI, elim conjE)
    fix f C' now' qn qt nl pp so tx cx us cs and y :: "(nat option + nat) \<times> nat \<times> u32 \<times> int e_pol"
    assume IH: "\<And>C' now' qn qt nl pp so tx cx y. f C' now' qn qt nl pp so tx cx = Some y \<Longrightarrow>
        \<forall>us cs. C' = C \<and> now' = now \<and> qn = enc qs @ t \<and> qt = qtype_h \<and> nl = nlist \<and> qs = us @ cs \<and>
          pp = length (encl us) \<longrightarrow> encloser C nlist qs qtype_h (fst y, fst (snd y))"
      and body: "do {
         cp \<leftarrow> ptr qn pp;
         c \<leftarrow> namecmp cp so;
         if c < 0 then Some (Inl None, pp, tx, cx)
         else do {
           (r, ttl_x', ctx') \<leftarrow> cpe_records C' now' (pp = 0) cp qt nl 0 tx cx;
           if r \<noteq> Inl None then Some (r, pp, ttl_x', ctx')
           else do {
             b \<leftarrow> rd qn pp;
             soa \<leftarrow> signer_of (last nl);
             f C' now' qn qt nl (if b \<noteq> 0 then pp + unat b + 1 else pp) soa ttl_x' ctx'
           }
         }
       } = Some y"
      and eqs: "C' = C" "now' = now" "qn = enc qs @ t" "qt = qtype_h" "nl = nlist" "qs = us @ cs" "pp = length (encl us)"
    have wf: "list_all wf_label us" "wf_name cs"
      using assms(1) eqs(6) wf_name_append [of us cs] wf_name_labels [of qs] by simp_all
    have cp: "ptr qn pp = Some (enc cs @ t)" using ptr_label_boundary [OF eqs(6)] eqs by simp
    have b: "rd qn pp = Some (case cs of [] \<Rightarrow> 0 | l # _ \<Rightarrow> word_of_nat (length l))"
      using rd_label_boundary [OF wf] eqs by simp
    from body cp obtain c where c: "namecmp (enc cs @ t) so = Some c" by (auto split: Option.bind_splits)
    show "encloser C nlist qs qtype_h (fst y, fst (snd y))"
    proof (cases "c < 0")
      case True
      with body cp c have "y = (Inl None, pp, tx, cx)" by simp
      then show ?thesis using eqs by (auto simp: encloser_def)
    next
      case False
      with body cp c obtain r t1 c1 where rec: "cpe_records C now (us = []) (enc cs @ t) qtype_h nlist 0 tx cx = Some (r, t1, c1)"
        using eqs by (auto split: Option.bind_splits)
      note sound = cpe_records_sound [of C now "us = []" "enc cs @ t" qtype_h nlist "[]", simplified,
          OF rec encodes_enc(1) [OF wf(2)] assms(2,3), of nlist]
      show ?thesis
      proof (cases "r = Inl None")
        case False
        with \<open>\<not> c < 0\<close> body cp c rec eqs have "y = (r, pp, t1, c1)" by simp
        moreover have "encloser C nlist qs qtype_h (r, pp)"
          unfolding encloser_def using sound eqs(6,7) by (intro exI [of _ us] exI [of _ cs]) auto
        ultimately show ?thesis by simp
      next
        case True
        with \<open>\<not> c < 0\<close> body cp c rec b eqs obtain soa where
          more: "f C now (enc qs @ t) qtype_h nlist (case cs of [] \<Rightarrow> pp | l # _ \<Rightarrow> pp + length l + 1) soa t1 c1 = Some y"
          using wf(2) by (auto simp: wf_name_Cons label_simps split: Option.bind_splits list.splits)
        show ?thesis
        proof (cases cs)
          case Nil
          with IH [OF more, rule_format, of us "[]"] eqs show ?thesis by simp
        next
          case (Cons l cs')
          with IH [OF more, rule_format, of "us @ [l]" cs'] eqs show ?thesis by simp
        qed
      qed
    qed
  qed
  from this [OF assms(5)] assms(4) show ?thesis by auto
qed


lemma cname_suffix_unique:
  assumes "us @ cs = us' @ cs'" "cname cs = cname cs'"
  shows "us = us' \<and> cs = cs'"
  using assms cname_eq_length [OF assms(2)] by simp

lemma next_closer_enc:
  assumes "list_all wf_label us" "wf_name (vs @ l # cs)" "encodes cp cs" "e_cp = length (encl us) + length (enc (vs @ l # cs))"
  shows "next_closer (encl us @ enc (vs @ l # cs) @ t) cp (length (encl us)) e_cp =
    Some (Some (length (encl (us @ vs))))"
  using assms
proof (induction vs arbitrary: us)
  case Nil
  then have l: "wf_label l" "wf_name cs" by (simp_all add: wf_name_Cons)
  have "namecmp (enc cs @ t) cp = Some 0"
    using namecmp_eq_0 [OF encodes_enc(1) [OF l(2)] Nil.prems(3)] by simp
  moreover have "ptr (encl us @ enc (l # cs) @ t) (length (encl us) + length l + 1) = Some (enc cs @ t)"
    using ptr_label_boundary [of "us @ l # cs" "us @ [l]" cs t] by (simp add: enc_append add.assoc)
  ultimately show ?case using l Nil.prems(4)
    by (subst next_closer.simps) (simp add: label_simps)
next
  case (Cons v vs)
  then have v: "wf_label v" "wf_name (vs @ l # cs)" by (simp_all add: wf_name_Cons)
  let ?b = "enc (vs @ l # cs) @ t"
  obtain c where c: "namecmp ?b cp = Some c" "c = 0 \<longleftrightarrow> cname (vs @ l # cs) = cname cs"
    using namecmp_encodes [OF encodes_enc(1) [OF v(2), of t] Cons.prems(3)] sgn_eq_ocmpD(1) by metis
  have "c \<noteq> 0" using c(2) cname_eq_length [of "vs @ l # cs" cs] by auto
  moreover have "ptr (encl us @ enc ((v # vs) @ l # cs) @ t) (length (encl us) + length v + 1) = Some ?b"
    using ptr_label_boundary [of "us @ v # vs @ l # cs" "us @ [v]" "vs @ l # cs" t]
    by (simp add: enc_append add.assoc)
  moreover have "next_closer (encl (us @ [v]) @ enc (vs @ l # cs) @ t) cp (length (encl (us @ [v]))) e_cp =
      Some (Some (length (encl ((us @ [v]) @ vs))))"
    using Cons.prems v by (intro Cons.IH) simp_all
  ultimately show ?case using v Cons.prems(4) c(1)
    by (subst next_closer.simps) (simp add: label_simps add.assoc)
qed

definition below_ok :: "openssl \<Rightarrow> nsec3proof list \<Rightarrow> label \<Rightarrow> label list \<Rightarrow> nsec3_span \<Rightarrow> bool" where
  "below_ok C nlist l cs s \<longleftrightarrow>
     (\<forall>j. sp_ncn s = Some j \<longrightarrow> j < length nlist \<and> n3_covers C (nlist ! j) (l # cs) \<and>
        (sp_optout s \<longleftrightarrow> n3_flags (n3_nd (nlist ! j)) AND NSEC3_FLAG_OPTOUT \<noteq> 0)) \<and>
     (\<forall>k. sp_wcp s = Some k \<longrightarrow> k < length nlist \<and>
        (if sp_notype s then n3_matches C (nlist ! k) (star # cs) else n3_covers C (nlist ! k) (star # cs)))"

lemma span_below_sound:
  assumes "wf_name (vs @ l # cs)" "digests_sized C" "list_all wf_nsec3 nlist"
    and "span_below C now (enc (vs @ l # cs) @ t) nlist (enc cs @ t) False (no_span\<lparr> sp_cpe := e \<rparr>) ttl_x ctx =
      Some (s, ttl_x', ctx')"
  shows "sp_cpe s = e \<and> below_ok C nlist l cs s"
proof -
  have wf: "wf_name (l # cs)" "wf_name cs" using assms(1) wf_name_append [of vs "l # cs"] by (simp_all add: wf_name_Cons)
  have nc: "next_closer (enc (vs @ l # cs) @ t) (enc cs @ t) 0 (length (enc (vs @ l # cs))) = Some (Some (length (encl vs)))"
    using next_closer_enc [of "[]" vs l cs "enc cs @ t"] assms(1) wf(2) by simp
  have sp: "ptr (enc (vs @ l # cs) @ t) (length (encl vs)) = Some (enc (l # cs) @ t)"
    by (rule ptr_label_boundary) simp
  have len: "wire_name_length (enc (vs @ l # cs) @ t) = Some (length (enc (vs @ l # cs)))"
    "wire_name_length (enc cs @ t) = Some (length (enc cs))" "seg (enc cs @ t) 0 (length (enc cs)) = Some (enc cs)"
    using assms(1) wf(2) by (simp_all add: wire_name_length_encodes seg_def)
  have none: "below_ok C nlist l cs (no_span\<lparr> sp_cpe := e \<rparr>)" by (simp add: below_ok_def no_span_def)
  obtain r t1 c1 where r: "ncn_records C now (enc (l # cs) @ t) nlist 0 ttl_x ctx = Some (r, t1, c1)"
    using assms(4) nc sp len by (auto simp: span_below_def split: Option.bind_splits)
  show ?thesis
  proof (cases r)
    case (Inl u)
    with assms(4) nc sp len r none show ?thesis by (auto simp: span_below_def no_span_def)
  next
    case (Inr q)
    obtain k oo where q: "q = (k, oo)" by (cases q)
    have k: "j < length nlist \<and> n3_covers C (nlist ! j) (l # cs) \<and>
        (oo \<longleftrightarrow> n3_flags (n3_nd (nlist ! j)) AND NSEC3_FLAG_OPTOUT \<noteq> 0)" if "k = Some j" for j
      using ncn_records_sound [of C now "enc (l # cs) @ t" nlist "[]" ttl_x ctx j oo t1 c1 "l # cs" nlist] r Inr q that
        encodes_enc(1) [OF wf(1), of t] assms(2,3) by simp
    show ?thesis
    proof (cases "NS_MAXCDNAME < length (enc cs) + 2")
      case True
      with assms(4) nc sp len r Inr q k show ?thesis
        by (auto simp: span_below_def no_span_def below_ok_def Let_def)
    next
      case False
      have wc: "encodes (wildcard_name (enc cs)) (star # cs)"
        using False by (intro wildcard_name_encodes [OF wf(2)]) simp
      from False assms(4) nc sp len r Inr q obtain w nt t2 c2 where
        w: "wcp_records C now (wildcard_name (enc cs)) nlist 0 t1 c1 = Some ((w, nt), t2, c2)"
        by (auto simp: span_below_def no_span_def Let_def split: Option.bind_splits)
      have "i < length nlist \<and> (if nt then n3_matches C (nlist ! i) (star # cs) else n3_covers C (nlist ! i) (star # cs))"
        if "w = Some i" for i
        using wcp_records_sound [of C now "wildcard_name (enc cs)" nlist "[]" t1 c1 i nt t2 c2 "star # cs" nlist] w that wc assms(2,3) by simp
      with False assms(4) nc sp len r Inr q k w show ?thesis
        by (auto simp: span_below_def no_span_def below_ok_def Let_def)
    qed
  qed
qed

lemma prove_nsec3_span_sound:
  assumes "wf_name qs" "digests_sized C" "list_all wf_nsec3 nlist"
    and "prove_nsec3_span C now ctx nlist (enc qs @ t) qtype_h ttl_x None = Some (s, ttl_x', ctx')"
  shows "(\<exists>i < length nlist. s = \<lparr> sp_ncn = Some i, sp_cpe = Some i, sp_wcp = Some i, sp_notype = True, sp_optout = False \<rparr> \<and>
      n3_matches C (nlist ! i) qs \<and> nsec3_denies (nlist ! i) qtype_h = Some True) \<or>
    s = no_span \<or>
    (\<exists>i < length nlist. \<exists>vs l cs. qs = vs @ l # cs \<and> sp_cpe s = Some i \<and> n3_matches C (nlist ! i) cs \<and>
      below_ok C nlist l cs s)"
proof -
  from assms(4) obtain r p t1 c1 where
    r: "cpe_search C now (enc qs @ t) qtype_h nlist 0 (enc qs @ t) ttl_x ctx = Some (r, p, t1, c1)"
    by (auto simp: prove_nsec3_span_def split: Option.bind_splits)
  from cpe_search_sound [OF assms(1-3), of "[]" qs now t] r have "encloser C nlist qs qtype_h (r, p)" by simp
  then obtain us cs where e: "qs = us @ cs" "p = length (encl us)"
    "\<forall>i. r = Inr i \<longrightarrow> i < length nlist \<and> n3_matches C (nlist ! i) qs \<and> nsec3_denies (nlist ! i) qtype_h = Some True"
    "\<forall>i. r = Inl (Some i) \<longrightarrow> us \<noteq> [] \<and> i < length nlist \<and> n3_matches C (nlist ! i) cs"
    by (auto simp: encloser_def)
  consider i where "r = Inr i" | "r = Inl None" | i where "r = Inl (Some i)" by (metis not_Some_eq sum.exhaust)
  then show ?thesis
  proof cases
    case 1
    with assms(4) r e show ?thesis by (auto simp: prove_nsec3_span_def)
  next
    case 2
    with assms(4) r show ?thesis by (auto simp: prove_nsec3_span_def)
  next
    case 3
    with e obtain vs l where us: "us = vs @ [l]" by (metis rev_exhaust)
    have "ptr (enc qs @ t) p = Some (enc cs @ t)" using ptr_label_boundary [OF e(1)] e(2) by simp
    with assms(4) r 3 e(1) us have
      "span_below C now (enc (vs @ l # cs) @ t) nlist (enc cs @ t) False (no_span\<lparr> sp_cpe := Some i \<rparr>) t1 c1 =
        Some (s, ttl_x', ctx')"
      by (auto simp: prove_nsec3_span_def split: Option.bind_splits)
    from span_below_sound [OF _ assms(2,3) this] assms(1) e(1) us
    have "sp_cpe s = Some i \<and> below_ok C nlist l cs s" by simp
    with 3 e us show ?thesis by auto
  qed
qed

text \<open>
  What RFC 5155 lets a record that matches the hash of a name deny, read off its bitmap without the code: every
  type when it has none (an empty non-terminal), otherwise as an NSEC record does.
\<close>

definition n3_bits :: "nsec3proof \<Rightarrow> byte list option" where
  "n3_bits n = do {
     rdata \<leftarrow> first_rdata (rrs_data (n3_set n));
     let off = unat (n3_bit_field (n3_nd n));
     Some (if off = 0 then [] else drop off rdata)
   }"

definition rfc_nsec3 :: "nsec3proof \<Rightarrow> bool" where
  "rfc_nsec3 n \<longleftrightarrow> wf_nsec3 n \<and> (\<exists>ws. wf_windows ws \<and> n3_bits n = Some (concat (map window_bytes ws)))"

definition n3_denies_type :: "openssl \<Rightarrow> nsec3proof \<Rightarrow> label list \<Rightarrow> nat \<Rightarrow> bool" where
  "n3_denies_type C n xs t \<longleftrightarrow> n3_matches C n xs \<and>
     (\<exists>ws. wf_windows ws \<and> n3_bits n = Some (concat (map window_bytes ws)) \<and> (ws = [] \<or> type_absent ws t))"

lemma nsec3_denies_absent:
  assumes "rfc_nsec3 n" "nsec3_denies n t = Some True" "n3_matches C n xs" "0 < t" "t < 256"
  shows "n3_denies_type C n xs (unat t)"
proof -
  obtain ws where ws: "wf_windows ws" "n3_bits n = Some (concat (map window_bytes ws))"
    using assms(1) by (auto simp: rfc_nsec3_def)
  obtain rdata where r: "first_rdata (rrs_data (n3_set n)) = Some rdata"
    using assms(2) by (auto simp: nsec3_denies_def split: Option.bind_splits)
  have "ws = [] \<or> denies_type (concat (map window_bytes ws)) t"
  proof (cases "ws = []")
    case False
    define bs where "bs = concat (map window_bytes ws)"
    have "bs \<noteq> []" using windows_not_Nil [OF ws(1) False] by (simp add: bs_def)
    with assms(2) ws(2) r show ?thesis
      by (auto simp: nsec3_denies_def n3_bits_def Let_def simp flip: bs_def split: if_split_asm)
  qed simp
  with ws assms(3) denies_type_absent [OF ws(1) assms(4,5)] show ?thesis
    unfolding n3_denies_type_def by blast
qed

lemma prove_nsec3_span_denies:
  assumes "wf_name qs" "digests_sized C" "list_all rfc_nsec3 nlist" "0 < qtype_h" "qtype_h < 256"
    and "prove_nsec3_span C now ctx nlist (enc qs @ t) qtype_h ttl_x None = Some (s, ttl_x', ctx')"
  shows "(\<exists>i < length nlist. s = \<lparr> sp_ncn = Some i, sp_cpe = Some i, sp_wcp = Some i, sp_notype = True, sp_optout = False \<rparr> \<and>
      n3_denies_type C (nlist ! i) qs (unat qtype_h)) \<or>
    s = no_span \<or>
    (\<exists>i < length nlist. \<exists>vs l cs. qs = vs @ l # cs \<and> sp_cpe s = Some i \<and> n3_matches C (nlist ! i) cs \<and>
      below_ok C nlist l cs s)"
proof -
  have wf: "list_all wf_nsec3 nlist" using assms(3) by (auto simp: list_all_iff rfc_nsec3_def)
  have d: "n3_matches C (nlist ! i) qs \<Longrightarrow> nsec3_denies (nlist ! i) qtype_h = Some True \<Longrightarrow> i < length nlist \<Longrightarrow>
      n3_denies_type C (nlist ! i) qs (unat qtype_h)" for i
    using nsec3_denies_absent [OF _ _ _ assms(4,5)] assms(3) by (simp add: list_all_length)
  show ?thesis
    using prove_nsec3_span_sound [OF assms(1,2) wf assms(6)] d by blast
qed


text \<open>
  The search ends whenever the zone is not the root. At the root \<open>STRIP_LABEL\<close> does not move on: a root zone
  whose records match no suffix of the name keeps it going for ever.
\<close>

lemma cpe_search_root_loops:
  assumes "signer_of (last nlist) = Some soa" "encodes soa []" "encodes so []"
    and "\<And>tx cx. (\<exists>tx' cx'. cpe_records C now False ([0] @ t) qtype_h nlist 0 tx cx = Some (Inl None, tx', cx'))"
    and "us \<noteq> []"
  shows "cpe_search C now (encl us @ [0] @ t) qtype_h nlist (length (encl us)) so ttl_x ctx = None"
proof (rule ccontr)
  assume "cpe_search C now (encl us @ [0] @ t) qtype_h nlist (length (encl us)) so ttl_x ctx \<noteq> None"
  then obtain y where y: "cpe_search C now (encl us @ [0] @ t) qtype_h nlist (length (encl us)) so ttl_x ctx = Some y"
    by blast
  have "C' = C \<and> now' = now \<and> qn = encl us @ [0] @ t \<and> qt = qtype_h \<and> nl = nlist \<and> pp = length (encl us) \<and>
      encodes s [] \<longrightarrow> False"
    if "cpe_search C' now' qn qt nl pp s tx cx = Some z" for C' now' qn qt nl pp s tx cx z
  proof (rule cpe_search.raw_induct [OF _ that], intro impI, elim conjE)
    fix f C' now' qn qt nl pp s tx cx and z :: "(nat option + nat) \<times> nat \<times> u32 \<times> int e_pol"
    assume IH: "\<And>C' now' qn qt nl pp s tx cx z. f C' now' qn qt nl pp s tx cx = Some z \<Longrightarrow>
        C' = C \<and> now' = now \<and> qn = encl us @ [0] @ t \<and> qt = qtype_h \<and> nl = nlist \<and> pp = length (encl us) \<and>
          encodes s [] \<longrightarrow> False"
      and body: "do {
         cp \<leftarrow> ptr qn pp;
         c \<leftarrow> namecmp cp s;
         if c < 0 then Some (Inl None, pp, tx, cx)
         else do {
           (r, ttl_x', ctx') \<leftarrow> cpe_records C' now' (pp = 0) cp qt nl 0 tx cx;
           if r \<noteq> Inl None then Some (r, pp, ttl_x', ctx')
           else do {
             b \<leftarrow> rd qn pp;
             soa \<leftarrow> signer_of (last nl);
             f C' now' qn qt nl (if b \<noteq> 0 then pp + unat b + 1 else pp) soa ttl_x' ctx'
           }
         }
       } = Some z"
      and eqs: "C' = C" "now' = now" "qn = encl us @ [0] @ t" "qt = qtype_h" "nl = nlist" "pp = length (encl us)" "encodes s []"
    have "encodes (0 # t) []" using encodes_enc(1) [of "[]" t] by simp
    then have c: "namecmp (0 # t) s = Some 0" using namecmp_eq_0 eqs(7) by simp
    obtain tx' cx' where rec: "cpe_records C now False (0 # t) qtype_h nlist 0 tx cx = Some (Inl None, tx', cx')"
      using assms(4) [of tx cx] by auto
    have "f C now (encl us @ [0] @ t) qtype_h nlist (length (encl us)) soa tx' cx' = Some z"
      using body c rec eqs assms(1,5) by simp
    from IH [OF this] assms(2) show False by simp
  qed
  from this [OF y] assms(3) show False by simp
qed


lemma cpe_records_unknown_hash:
  "\<forall>n \<in> set ns. n3_alg (n3_nd n) \<noteq> ALG_NSEC3_HASH_SHA1 \<and> signer_of n \<noteq> None \<Longrightarrow>
   cpe_records C now at_qname cp qtype_h ns i ttl_x ctx = Some (Inl None, ttl_x, ctx)"
  by (induction ns arbitrary: i) (auto simp: hash_for_def signer_of_def compute_nsec3_hash_def split: Option.bind_splits)

text \<open>The step of the search at a label when no record matches.\<close>

lemma cpe_search_climb:
  assumes "list_all wf_label us" "wf_name (l # cs)" "0 \<le> c" "namecmp (enc (l # cs) @ t) so = Some c"
    and "cpe_records C now (us = []) (enc (l # cs) @ t) qtype_h nlist 0 ttl_x ctx = Some (Inl None, tx, cx)"
    and "signer_of (last nlist) = Some soa"
  shows "cpe_search C now (enc (us @ l # cs) @ t) qtype_h nlist (length (encl us)) so ttl_x ctx =
    cpe_search C now (enc ((us @ [l]) @ cs) @ t) qtype_h nlist (length (encl (us @ [l]))) soa tx cx"
proof -
  have l: "wf_label l" using assms(2) by (simp add: wf_name_Cons)
  have p: "ptr (enc (us @ l # cs) @ t) (length (encl us)) = Some (enc (l # cs) @ t)"
    by (rule ptr_label_boundary) simp
  have b: "rd (enc (us @ l # cs) @ t) (length (encl us)) = Some (word_of_nat (length l))"
    using rd_label_boundary [OF assms(1,2)] by simp
  show ?thesis
    using assms(3-6) p b l
    by (subst cpe_search.simps [of _ _ _ _ _ "length (encl us)"]) (simp add: label_simps add.assoc)
qed

lemma namecmp_root: "encodes n xs \<Longrightarrow> encodes r [] \<Longrightarrow> \<exists>c. namecmp n r = Some c \<and> 0 \<le> c"
proof -
  assume "encodes n xs" "encodes r []"
  then obtain c where c: "namecmp n r = Some c" "sgn c = ocmp (cname xs) (cname [])" by (rule namecmp_encodes)
  have "cname [] \<le> cname xs" using cname_drop_le [of "length xs" xs] by simp
  then have "0 \<le> c" using sgn_eq_ocmpD [OF c(2)] by (meson linorder_not_le)
  with c(1) show ?thesis by blast
qed

lemma prove_nsec3_span_root_loops:
  assumes "wf_name qs" "qs \<noteq> []" "nlist \<noteq> []"
    and "\<forall>n \<in> set nlist. n3_alg (n3_nd n) \<noteq> ALG_NSEC3_HASH_SHA1 \<and> (\<exists>soa. signer_of n = Some soa \<and> encodes soa [])"
  shows "prove_nsec3_span C now ctx nlist (enc qs @ t) qtype_h ttl_x None = None"
proof -
  obtain soa where soa: "signer_of (last nlist) = Some soa" "encodes soa []"
    using assms(3,4) last_in_set by blast
  have rec: "cpe_records C now a cp qtype_h nlist 0 tx cx = Some (Inl None, tx, cx)" for a cp tx cx
    using assms(4) by (intro cpe_records_unknown_hash) auto
  have climb: "cpe_search C now (enc (us @ cs) @ t) qtype_h nlist (length (encl us)) so tx cx = None"
    if "wf_name (us @ cs)" "us @ cs \<noteq> []" "\<exists>c. namecmp (enc cs @ t) so = Some c \<and> 0 \<le> c"
      "cs = [] \<longrightarrow> encodes so []" for us cs so tx cx
    using that
  proof (induction cs arbitrary: us so tx cx)
    case Nil
    with cpe_search_root_loops [of nlist soa so C now t qtype_h us tx cx] soa rec show ?case
      by (simp add: enc_def)
  next
    case (Cons l cs)
    from Cons.prems(3) obtain c where c: "namecmp (enc (l # cs) @ t) so = Some c" "0 \<le> c" by blast
    have wf: "wf_name (l # cs)" "list_all wf_label us" "wf_name cs"
      using Cons.prems(1) wf_name_append [of us "l # cs"] wf_name_labels [of "us @ l # cs"]
      by (simp_all add: wf_name_Cons)
    have "\<exists>c. namecmp (enc cs @ t) soa = Some c \<and> 0 \<le> c"
      by (rule namecmp_root [OF encodes_enc(1) [OF wf(3)] soa(2)])
    with Cons.IH [of "us @ [l]" soa tx cx] Cons.prems(1) soa
    have "cpe_search C now (enc ((us @ [l]) @ cs) @ t) qtype_h nlist (length (encl (us @ [l]))) soa tx cx = None" by simp
    with cpe_search_climb [OF wf(2,1) c(2,1) rec soa(1)] show ?case by simp
  qed
  have "namecmp (enc qs @ t) (enc qs @ t) = Some 0"
    using namecmp_eq_0 [OF encodes_enc(1) encodes_enc(1)] assms(1) by simp
  with climb [of "[]" qs "enc qs @ t" ttl_x ctx] assms(1,2)
  have "cpe_search C now (enc qs @ t) qtype_h nlist 0 (enc qs @ t) ttl_x ctx = None" by simp
  then show ?thesis by (simp add: prove_nsec3_span_def)
qed

text \<open>Outside the root zone the proof returns: here without policies, which could be freed under the code's feet.\<close>

definition proper_nsec3 :: "nsec3proof \<Rightarrow> bool" where
  "proper_nsec3 n \<longleftrightarrow> wf_nsec3 n \<and> rrs_data (n3_set n) \<noteq> [] \<and>
     (\<exists>soa apex. signer_of n = Some soa \<and> encodes soa apex \<and> apex \<noteq> [])"

lemma hash_for_total:
  assumes "encodes name xs" "digests_sized C" "proper_nsec3 n"
  shows "\<exists>h. hash_for C now (Entries []) name n ttl_x = Some (h, ttl_x, Entries []) \<and> (\<forall>k. h = Some k \<longrightarrow> length k = 32)"
proof -
  obtain soa apex where soa: "signer_of n = Some soa" "encodes soa apex"
    using assms(3) by (auto simp: proper_nsec3_def)
  define hh where "hh = ((\<lambda>x. evp C SHA1 (x @ n3_salt (n3_nd n))) ^^ (unat (n3_iterations (n3_nd n)) + 1)) (canon name)"
  have v: "valid_name name" using assms(1) by (auto simp: valid_name_def)
  have c: "nsec3_sha_hash_compute C name (n3_salt (n3_nd n)) (unat (n3_iterations (n3_nd n))) = Some hh"
    using nsec3_sha_hash_compute_eq [OF v] by (simp add: hh_def)
  have len: "length hh = 20" using assms(2) by (simp add: hh_def digests_sized_def digest_length_def)
  then have b: "base32hex_encode hh = Some (base32 hh)" by (intro base32hex_encode_multiple) simp
  have eq: "hash_for C now (Entries []) name n ttl_x =
      compute_nsec3_hash C now (Entries []) name soa (n3_alg (n3_nd n)) (n3_iterations (n3_nd n)) (n3_salt (n3_nd n)) ttl_x"
    using soa(1) by (auto simp: hash_for_def signer_of_def split: Option.bind_splits)
  show ?thesis
    using c b len by (auto simp: eq compute_nsec3_hash_def retrieve_policy_live wire_name_length_encodes [OF soa(2)] length_base32)
qed

lemma owner_cmp_total:
  assumes "proper_nsec3 n" "length h = 32"
  shows "\<exists>c. label_bytes_cmp (n3_hash n) (n3_hashlen n) h 32 = Some c"
  using label_bytes_cmp_sgn(1) [of "n3_hashlen n" "n3_hash n" h] assms
  by (force simp: wf_nsec3_def proper_nsec3_def)

lemma check_range_total:
  assumes "proper_nsec3 n" "length h = 32"
  shows "\<exists>b. check_range (n3_hash n) (n3_hashlen n) (n3_nexthash (n3_nd n)) (unat (n3_nexthashlen (n3_nd n))) h 32 = Some b"
proof -
  let ?nx = "n3_nexthash (n3_nd n)"
  have nx: "length ?nx \<le> NS_MAXCDNAME" "unat (n3_nexthashlen (n3_nd n)) = length ?nx"
    using assms(1) unat_byte [of "n3_nexthashlen (n3_nd n)"] by (simp_all add: wf_nsec3_def proper_nsec3_def)
  have k: "n3_hashlen n \<le> length (n3_hash n)" "n3_hashlen n \<le> NS_MAXCDNAME"
    using assms(1) by (simp_all add: wf_nsec3_def proper_nsec3_def)
  note cmp = label_bytes_cmp_sgn [of "length ?nx" ?nx h] label_bytes_cmp_sgn [of "n3_hashlen n" "n3_hash n" ?nx]
    label_bytes_cmp_sgn [of "n3_hashlen n" "n3_hash n" h]
  obtain e f g a where "label_bytes_cmp ?nx (length ?nx) h 32 = Some e" "label_bytes_cmp h 32 ?nx (length ?nx) = Some f"
    "label_bytes_cmp ?nx (length ?nx) (n3_hash n) (n3_hashlen n) = Some g"
    "label_bytes_cmp h 32 (n3_hash n) (n3_hashlen n) = Some a"
    using cmp nx k assms(2) by auto
  then show ?thesis using nx(2) by (auto simp: check_range_def)
qed

lemma cpe_records_total:
  assumes "encodes cp xs" "digests_sized C" "list_all proper_nsec3 ns"
  shows "\<exists>r. cpe_records C now at_qname cp qtype_h ns i ttl_x (Entries []) = Some (r, ttl_x, Entries [])"
  using assms(3)
proof (induction ns arbitrary: i)
  case (Cons n ns)
  then obtain h where h: "hash_for C now (Entries []) cp n ttl_x = Some (h, ttl_x, Entries [])"
    "\<forall>k. h = Some k \<longrightarrow> length k = 32" using hash_for_total [OF assms(1,2)] by fastforce
  have d: "\<exists>b. nsec3_denies n qtype_h = Some b"
    using Cons.prems by (auto simp: nsec3_denies_def proper_nsec3_def first_rdata_def Let_def split: list.splits)
  obtain r where r: "cpe_records C now at_qname cp qtype_h ns (i + 1) ttl_x (Entries []) = Some (r, ttl_x, Entries [])"
    using Cons by fastforce
  show ?case
  proof (cases h)
    case (Some k)
    with h(2) have len: "length k = 32" by simp
    then obtain c where "label_bytes_cmp (n3_hash n) (n3_hashlen n) k 32 = Some c"
      using owner_cmp_total Cons.prems by fastforce
    with Some h(1) d r len show ?thesis by auto
  qed (use h r in simp)
qed simp

lemma ncn_records_total:
  assumes "encodes s_cp xs" "digests_sized C" "list_all proper_nsec3 ns"
  shows "\<exists>r. ncn_records C now s_cp ns i ttl_x (Entries []) = Some (r, ttl_x, Entries [])"
  using assms(3)
proof (induction ns arbitrary: i)
  case (Cons n ns)
  then obtain h where h: "hash_for C now (Entries []) s_cp n ttl_x = Some (h, ttl_x, Entries [])"
    "\<forall>k. h = Some k \<longrightarrow> length k = 32" using hash_for_total [OF assms(1,2)] by fastforce
  obtain r where r: "ncn_records C now s_cp ns (i + 1) ttl_x (Entries []) = Some (r, ttl_x, Entries [])"
    using Cons by fastforce
  show ?case
  proof (cases h)
    case (Some k)
    with h(2) have len: "length k = 32" by simp
    then obtain b where "check_range (n3_hash n) (n3_hashlen n) (n3_nexthash (n3_nd n)) (unat (n3_nexthashlen (n3_nd n))) k 32 = Some b"
      using check_range_total Cons.prems by fastforce
    with Some h(1) r len show ?thesis by auto
  qed (use h in simp)
qed simp

lemma wcp_records_total:
  assumes "encodes wc_n xs" "digests_sized C" "list_all proper_nsec3 ns"
  shows "\<exists>r. wcp_records C now wc_n ns i ttl_x (Entries []) = Some (r, ttl_x, Entries [])"
  using assms(3)
proof (induction ns arbitrary: i)
  case Nil
  show ?case by (intro exI [of _ "(None, False)"]) simp
next
  case (Cons n ns)
  then obtain h where h: "hash_for C now (Entries []) wc_n n ttl_x = Some (h, ttl_x, Entries [])"
    "\<forall>k. h = Some k \<longrightarrow> length k = 32" using hash_for_total [OF assms(1,2)] by fastforce
  obtain r where r: "wcp_records C now wc_n ns (i + 1) ttl_x (Entries []) = Some (r, ttl_x, Entries [])"
    using Cons by fastforce
  show ?case
  proof (cases h)
    case (Some k)
    with h(2) have len: "length k = 32" by simp
    then obtain b c where
      "check_range (n3_hash n) (n3_hashlen n) (n3_nexthash (n3_nd n)) (unat (n3_nexthashlen (n3_nd n))) k 32 = Some b"
      "label_bytes_cmp (n3_hash n) (n3_hashlen n) k 32 = Some c"
      using check_range_total owner_cmp_total Cons.prems by fastforce
    with Some h(1) r len show ?thesis by auto
  next
    case None
    with h show ?thesis by (intro exI [of _ "(None, False)"]) simp
  qed
qed


lemma signer_of_proper:
  assumes "proper_nsec3 n"
  obtains soa apex where "signer_of n = Some soa" "encodes soa apex" "apex \<noteq> []"
  using assms by (auto simp: proper_nsec3_def)

lemma cpe_search_returns:
  assumes "digests_sized C" "list_all proper_nsec3 nlist" "nlist \<noteq> []"
    and "wf_name (us @ cs)" "\<exists>c. namecmp (enc cs @ t) so = Some c" "cs = [] \<longrightarrow> (\<exists>c. namecmp (enc cs @ t) so = Some c \<and> c < 0)"
  shows "\<exists>r p. cpe_search C now (enc (us @ cs) @ t) qtype_h nlist (length (encl us)) so ttl_x (Entries []) =
    Some (r, p, ttl_x, Entries [])"
  using assms(4-)
proof (induction cs arbitrary: us so)
  case Nil
  then obtain c where "namecmp (enc [] @ t) so = Some c" "c < 0" by blast
  with ptr_label_boundary [of "us @ []" us "[]" t] show ?case by (subst cpe_search.simps) simp
next
  case (Cons l cs)
  then obtain c where c: "namecmp (enc (l # cs) @ t) so = Some c" by blast
  have wf: "wf_name (l # cs)" "list_all wf_label us" "wf_name cs"
    using Cons.prems(1) wf_name_append [of us "l # cs"] wf_name_labels [of "us @ l # cs"]
    by (simp_all add: wf_name_Cons)
  have cp: "ptr (enc (us @ l # cs) @ t) (length (encl us)) = Some (enc (l # cs) @ t)"
    by (rule ptr_label_boundary) simp
  obtain r where r: "cpe_records C now (us = []) (enc (l # cs) @ t) qtype_h nlist 0 ttl_x (Entries []) =
      Some (r, ttl_x, Entries [])"
    using cpe_records_total [OF encodes_enc(1) [OF wf(1)] assms(1,2)] by blast
  show ?case
  proof (cases "c < 0 \<or> r \<noteq> Inl None")
    case True
    have z: "length (encl us) = 0 \<longleftrightarrow> us = []" by simp
    from True c cp r show ?thesis by (subst cpe_search.simps) (auto simp: z simp del: length_0_conv)
  next
    case False
    obtain soa apex where soa: "signer_of (last nlist) = Some soa" "encodes soa apex" "apex \<noteq> []"
      using assms(2,3) signer_of_proper [of "last nlist"] last_in_set by (metis list_all_iff)
    obtain d where d: "namecmp (enc cs @ t) soa = Some d" "sgn d = ocmp (cname cs) (cname apex)"
      using namecmp_encodes [OF encodes_enc(1) [OF wf(3), of t] soa(2)] .
    have "d < 0" if "cs = []"
    proof -
      have "cname [] \<le> cname apex" using cname_drop_le [of "length apex" apex] by simp
      moreover have "cname [] \<noteq> cname apex" using soa(3) cname_eq_length by fastforce
      ultimately have "cname [] < cname apex" by simp
      with d(2) that sgn_eq_ocmpD [OF d(2)] show ?thesis by simp
    qed
    with d(1) Cons.prems(1)
    have "\<exists>r p. cpe_search C now (enc ((us @ [l]) @ cs) @ t) qtype_h nlist (length (encl (us @ [l]))) soa ttl_x (Entries [])
      = Some (r, p, ttl_x, Entries [])" by (intro Cons.IH) auto
    with cpe_search_climb [OF wf(2,1) _ c _ soa(1)] r False show ?thesis by fastforce
  qed
qed

lemma span_below_total:
  assumes "wf_name (vs @ l # cs)" "digests_sized C" "list_all proper_nsec3 nlist"
  shows "\<exists>s'. span_below C now (enc (vs @ l # cs) @ t) nlist (enc cs @ t) False s ttl_x (Entries []) =
      Some (s', ttl_x, Entries [])"
proof -
  have wf: "wf_name (l # cs)" "wf_name cs" using assms(1) wf_name_append [of vs "l # cs"] by (simp_all add: wf_name_Cons)
  have nc: "next_closer (enc (vs @ l # cs) @ t) (enc cs @ t) 0 (length (enc (vs @ l # cs))) = Some (Some (length (encl vs)))"
    using next_closer_enc [of "[]" vs l cs "enc cs @ t"] assms(1) wf(2) by simp
  have sp: "ptr (enc (vs @ l # cs) @ t) (length (encl vs)) = Some (enc (l # cs) @ t)"
    by (rule ptr_label_boundary) simp
  have len: "wire_name_length (enc (vs @ l # cs) @ t) = Some (length (enc (vs @ l # cs)))"
    "wire_name_length (enc cs @ t) = Some (length (enc cs))" "seg (enc cs @ t) 0 (length (enc cs)) = Some (enc cs)"
    using assms(1) wf(2) by (simp_all add: wire_name_length_encodes seg_def)
  obtain r where r: "ncn_records C now (enc (l # cs) @ t) nlist 0 ttl_x (Entries []) = Some (r, ttl_x, Entries [])"
    using ncn_records_total [OF encodes_enc(1) [OF wf(1)] assms(2,3)] by blast
  show ?thesis
  proof (cases "NS_MAXCDNAME < length (enc cs) + 2")
    case True
    with r nc sp len show ?thesis
      by (cases r) (auto simp: span_below_def Let_def)
  next
    case False
    then have wc: "encodes (wildcard_name (enc cs)) (star # cs)" by (intro wildcard_name_encodes [OF wf(2)]) simp
    obtain w where "wcp_records C now (wildcard_name (enc cs)) nlist 0 ttl_x (Entries []) = Some (w, ttl_x, Entries [])"
      using wcp_records_total [OF wc assms(2,3)] by blast
    with False r nc sp len show ?thesis
      by (cases r; cases w) (auto simp: span_below_def Let_def)
  qed
qed

lemma prove_nsec3_span_returns:
  assumes "wf_name qs" "qs \<noteq> []" "digests_sized C" "list_all proper_nsec3 nlist" "nlist \<noteq> []"
  shows "\<exists>s. prove_nsec3_span C now (Entries []) nlist (enc qs @ t) qtype_h ttl_x None = Some (s, ttl_x, Entries [])"
proof -
  have "namecmp (enc qs @ t) (enc qs @ t) = Some 0"
    using namecmp_eq_0 [OF encodes_enc(1) encodes_enc(1)] assms(1) by simp
  then obtain r p where
    r: "cpe_search C now (enc qs @ t) qtype_h nlist 0 (enc qs @ t) ttl_x (Entries []) = Some (r, p, ttl_x, Entries [])"
    using cpe_search_returns [OF assms(3-5), of "[]" qs t "enc qs @ t" now qtype_h ttl_x] assms(1,2) by auto
  have wf: "list_all wf_nsec3 nlist" using assms(4) by (auto simp: list_all_iff proper_nsec3_def)
  have e: "encloser C nlist qs qtype_h (r, p)"
    using cpe_search_sound [OF assms(1,3) wf, of "[]" qs now t] r by simp
  show ?thesis
  proof (cases "\<exists>i. r = Inl (Some i)")
    case True
    then obtain i us cs where us: "r = Inl (Some i)" "qs = us @ cs" "p = length (encl us)" "us \<noteq> []"
      using e by (auto simp: encloser_def)
    then obtain vs l where v: "us = vs @ [l]" by (metis rev_exhaust)
    have "ptr (enc qs @ t) p = Some (enc cs @ t)" using ptr_label_boundary [OF us(2)] us(3) by simp
    moreover obtain s where "span_below C now (enc (vs @ l # cs) @ t) nlist (enc cs @ t) False
        (no_span\<lparr> sp_cpe := Some i \<rparr>) ttl_x (Entries []) = Some (s, ttl_x, Entries [])"
      using span_below_total [OF _ assms(3,4)] assms(1) us(2) v by fastforce
    ultimately show ?thesis using r us v by (simp add: prove_nsec3_span_def)
  next
    case False
    with r show ?thesis by (cases r) (auto simp: prove_nsec3_span_def)
  qed
qed

subsection \<open>Aggressive negative caching\<close>

text \<open>
  The lists \<open>check_anc_proof\<close> gathers from the proofs of a query: the NSEC sets, the parsed NSEC3 sets and
  the flag \<open>nsec3\<close>. A set is \<open>None\<close> for a null pointer.
\<close>

fun anc_gather :: "byte list \<Rightarrow> rrset_rec option list \<Rightarrow> rrset_rec list \<Rightarrow> nsec3proof list \<Rightarrow> bool \<Rightarrow>
    (rrset_rec list \<times> nsec3proof list \<times> bool) option" where
  "anc_gather name_n [] nseclist nsec3list nsec3 = Some (nseclist, nsec3list, nsec3)"
| "anc_gather name_n (None # as) nseclist nsec3list nsec3 = anc_gather name_n as nseclist nsec3list nsec3"
| "anc_gather name_n (Some the_set # as) nseclist nsec3list nsec3 =
     (if rrs_sig the_set = [] \<or> length (rr_rdata (hd (rrs_sig the_set))) < SIGNBY
      then anc_gather name_n as nseclist nsec3list nsec3
      else do {
        soa_name_n \<leftarrow> ptr (rr_rdata (hd (rrs_sig the_set))) SIGNBY;
        w \<leftarrow> namename name_n soa_name_n;
        if w = None then anc_gather name_n as nseclist nsec3list nsec3
        else if rrs_type_h the_set = ns_t_nsec then anc_gather name_n as (the_set # nseclist) nsec3list nsec3
        else if rrs_type_h the_set = ns_t_nsec3 then do {
          rdata \<leftarrow> first_rdata (rrs_data the_set);
          p \<leftarrow> val_parse_nsec3_rdata rdata;
          case p of
            None \<Rightarrow> anc_gather name_n as nseclist nsec3list True
          | Some nd \<Rightarrow> do {
              b \<leftarrow> rd (rrs_name_n the_set) 0;
              anc_gather name_n as nseclist
                (\<lparr> n3_nd = nd, n3_hashlen = unat b, n3_hash = (if b = 0 then [] else tl (rrs_name_n the_set)),
                   n3_set = the_set \<rparr> # nsec3list) True
            }
        }
        else anc_gather name_n as nseclist nsec3list nsec3
      })"

text \<open>
  \<open>check_anc_proof\<close>: \<open>*matches\<close>, the query's time to live and the context's policies. With NSEC3 records none of
  which can be parsed the code reads the results of \<open>prove_nsec3_span\<close> that were never set: a fault.
\<close>

definition check_anc_proof :: "openssl \<Rightarrow> int \<Rightarrow> int e_pol \<Rightarrow> rrset_rec option list \<Rightarrow> u16 \<Rightarrow> u32 \<Rightarrow> byte list \<Rightarrow>
    (bool \<times> u32 \<times> int e_pol) option" where
  "check_anc_proof C now ctx qc_proof qc_type_h qc_ttl_x name_n = do {
     (nseclist, nsec3list, nsec3) \<leftarrow> anc_gather name_n qc_proof [] [] False;
     if nseclist \<noteq> [] \<and> nsec3 then Some (False, qc_ttl_x, ctx)
     else if nsec3 then
       (if nsec3list = [] then None
        else do {
          (s, ttl_x, ctx') \<leftarrow> prove_nsec3_span C now ctx nsec3list name_n qc_type_h 0 None;
          Some (if sp_ncn s \<noteq> None \<and> sp_cpe s \<noteq> None \<and> (sp_optout s \<or> sp_wcp s \<noteq> None)
            then (True, set_min_ttl qc_ttl_x ttl_x, ctx') else (False, qc_ttl_x, ctx'))
        })
     else if nseclist \<noteq> [] then do {
       (span, wcard, _) \<leftarrow> prove_nsec_span nseclist name_n qc_type_h None;
       Some (span \<noteq> None \<and> wcard \<noteq> None, qc_ttl_x, ctx)
     }
     else Some (False, qc_ttl_x, ctx)
   }"

end
