(* ===== verification/Query.thy ===== *)
theory Query
  imports Nsec
begin

section \<open>The query cache\<close>

text \<open>
  The queries of a context and the chains of the requests that use them, from \<^verbatim>\<open>libval/val_assertion.c\<close>
  (\<open>add_to_query_chain\<close>, \<open>check_in_qfq_chain\<close>, \<open>add_to_qfq_chain\<close>, \<open>remove_from_qfq_chain\<close>, \<open>free_qfq_chain\<close> and
  the routines that clear a query) with the structures of \<^verbatim>\<open>include/validator-internal.h\<close>. Queries are shared
  between requests, so they live in a heap: a map from addresses. The reference count is an integer, not an \<open>int\<close>
  of 32 bits. The last part is the state machine of the requests of a context and its invariant.
\<close>

subsection \<open>Queries\<close>

record val_digested_auth_chain =
  val_ac_status :: u16
  ac_data :: "rrset_rec option"

record delegation_info =
  di_queries :: "query_list list"
  di_qnames :: "byte list list"
  di_answers :: "rrset_rec list"
  di_proofs :: "rrset_rec list"
  di_cur_pending_glue_ns :: "name_server list"
  di_pending_glue_ns :: "name_server list"
  di_merged_glue_ns :: "name_server list"
  di_saved_zonecut_n :: "byte list"
  di_learned_zones :: "rrset_rec list"

record val_query_chain =
  qc_refcount :: int
  qc_name_n :: "byte list"
  qc_original_name :: "byte list"
  qc_type_h :: u16
  qc_class_h :: u16
  qc_state :: u16
  qc_flags :: u32
  qc_fallback :: u32
  qc_ttl_x :: u32
  qc_bad :: int
  qc_zonecut_n :: "byte list"
  qc_referral :: "delegation_info option"
  qc_ns_list :: "name_server list"
  qc_respondent_server :: "name_server option"
  qc_respondent_server_options :: "64 word"
  qc_trans_id :: int
  qc_last_sent :: int
  qc_ea :: "nat option"
  qc_ans :: "val_digested_auth_chain list"
  qc_proof :: "val_digested_auth_chain list"

record queries_for_query =
  qfq_flags :: u32
  qfq_query :: nat

text \<open>The query cache of a context: the list \<open>q_list\<close> as addresses, and what is allocated.\<close>

record query_cache =
  q_list :: "nat list"
  q_heap :: "nat \<Rightarrow> val_query_chain option"

abbreviation Q_INIT :: u16 where "Q_INIT \<equiv> 1"
abbreviation Q_ANSWERED :: u16 where "Q_ANSWERED \<equiv> 0x10"
abbreviation Q_REFERRAL_ERROR :: u16 where "Q_REFERRAL_ERROR \<equiv> 0x200"
abbreviation VAL_QFLAGS_ANY :: u32 where "VAL_QFLAGS_ANY \<equiv> 0xffffffff"
abbreviation VAL_QFLAGS_CACHE_MASK :: u32 where "VAL_QFLAGS_CACHE_MASK \<equiv> 0x0000ffff"
abbreviation VAL_QFLAGS_CACHE_PREF_MASK :: u32 where "VAL_QFLAGS_CACHE_PREF_MASK \<equiv> 0x00ff0000"
abbreviation VAL_QUERY_DONT_VALIDATE :: u32 where "VAL_QUERY_DONT_VALIDATE \<equiv> 2"
abbreviation VAL_QUERY_MARK_FOR_DELETION :: u32 where "VAL_QUERY_MARK_FOR_DELETION \<equiv> 0x80"
abbreviation VAL_QUERY_SKIP_CACHE :: u32 where "VAL_QUERY_SKIP_CACHE \<equiv> 0x20000"
abbreviation QUERY_BAD_CACHE_THRESHOLD :: int where "QUERY_BAD_CACHE_THRESHOLD \<equiv> 5"
abbreviation QUERY_BAD_CACHE_TTL :: int where "QUERY_BAD_CACHE_TTL \<equiv> 60"

definition query_flags_matching :: "u32 \<Rightarrow> u32 \<Rightarrow> bool" where
  "query_flags_matching cacheflag queryflag \<longleftrightarrow> queryflag = VAL_QFLAGS_ANY \<or>
     queryflag AND VAL_QFLAGS_CACHE_MASK = cacheflag AND VAL_QFLAGS_CACHE_MASK \<and>
     (queryflag AND VAL_QFLAGS_CACHE_PREF_MASK = 0 \<or>
      queryflag AND VAL_QFLAGS_CACHE_PREF_MASK = cacheflag AND queryflag AND VAL_QFLAGS_CACHE_PREF_MASK)"

text \<open>\<open>init_query_chain_node\<close>; a name array stands for the bytes copied into it.\<close>

definition init_query_chain_node :: "val_query_chain \<Rightarrow> val_query_chain option" where
  "init_query_chain_node q = do {
     len \<leftarrow> wire_name_length (qc_original_name q);
     name \<leftarrow> seg (qc_original_name q) 0 len;
     Some (q\<lparr> qc_name_n := name, qc_state := Q_INIT, qc_ttl_x := 0, qc_bad := 0, qc_fallback := 0,
       qc_zonecut_n := [], qc_referral := None, qc_ns_list := [], qc_respondent_server := None,
       qc_respondent_server_options := 0, qc_trans_id := -1, qc_ea := None, qc_ans := [], qc_proof := [] \<rparr>)
   }"

text \<open>\<open>_release_query_chain_structure\<close> frees what hangs off the query and clears the pointers.\<close>

definition release_query :: "val_query_chain \<Rightarrow> val_query_chain" where
  "release_query q = q\<lparr> qc_zonecut_n := [], qc_referral := None, qc_ns_list := [],
     qc_respondent_server := None, qc_ans := [], qc_proof := [], qc_ea := None \<rparr>"

definition clear_query_chain_structure :: "val_query_chain \<Rightarrow> (val_query_chain \<times> bool) option" where
  "clear_query_chain_structure q =
     (if qc_refcount q = 1 then do { q' \<leftarrow> init_query_chain_node (release_query q); Some (q', True) }
      else Some (q, False))"

text \<open>The counting of bad answers in \<open>add_to_query_chain\<close>.\<close>

definition bad_cache :: "int \<Rightarrow> u32 \<Rightarrow> val_query_chain \<Rightarrow> val_query_chain" where
  "bad_cache now fl q =
     (if 0 < qc_bad q \<and> fl AND VAL_QUERY_DONT_VALIDATE = 0 then
        let bad = qc_bad q + 1; later = now + QUERY_BAD_CACHE_TTL in
        if bad < QUERY_BAD_CACHE_THRESHOLD then q\<lparr> qc_bad := bad, qc_ttl_x := 0 \<rparr>
        else if bad = QUERY_BAD_CACHE_THRESHOLD then
          q\<lparr> qc_bad := bad, qc_ttl_x :=
            (if 0 < qc_ttl_x q
             then (if later \<noteq> 0 \<and> later < uint (qc_ttl_x q) then word_of_int later else qc_ttl_x q)
             else word_of_int later) \<rparr>
        else q\<lparr> qc_bad := QUERY_BAD_CACHE_THRESHOLD \<rparr>
      else q)"

text \<open>An answered query that has timed out; \<open>max_refresh\<close> is that option of \<open>g_opt\<close>, \<open>None\<close> without options.\<close>

definition query_expired :: "int \<Rightarrow> int option \<Rightarrow> val_query_chain \<Rightarrow> bool" where
  "query_expired now max_refresh q \<longleftrightarrow> Q_ANSWERED \<le> qc_state q \<and>
     (uint (qc_ttl_x q) \<le> now \<or>
      qc_flags q AND VAL_QUERY_SKIP_CACHE \<noteq> 0 \<and> qc_last_sent q \<noteq> -1 \<and>
      (case max_refresh of None \<Rightarrow> False | Some r \<Rightarrow> 0 \<le> r \<and> r < now - qc_last_sent q))"

text \<open>
  The loop of \<open>add_to_query_chain\<close>. The list before the query at hand is \<open>front @ skipped\<close>, where \<open>prev\<close> points at
  the last of \<open>front\<close>: a query that is marked but in use does not move \<open>prev\<close>. The answer: the query found, the
  list, the heap and the sticky flags.
\<close>

fun scan_queries :: "int \<Rightarrow> int option \<Rightarrow> byte list \<Rightarrow> u16 \<Rightarrow> u16 \<Rightarrow> u32 \<Rightarrow> nat list \<Rightarrow> nat list \<Rightarrow> nat list \<Rightarrow>
    (nat \<Rightarrow> val_query_chain option) \<Rightarrow> u32 \<Rightarrow>
    (nat option \<times> nat list \<times> (nat \<Rightarrow> val_query_chain option) \<times> u32) option" where
  "scan_queries now mr name_n type_h class_h fl front skipped [] h sticky = Some (None, front @ skipped, h, sticky)"
| "scan_queries now mr name_n type_h class_h fl front skipped (a # rest) h sticky = do {
     q \<leftarrow> h a;
     if qc_flags q AND VAL_QUERY_MARK_FOR_DELETION \<noteq> 0 then
       (if qc_refcount q = 0
        then scan_queries now mr name_n type_h class_h fl front [] rest (h(a := None)) sticky
        else scan_queries now mr name_n type_h class_h fl front (skipped @ [a]) rest h sticky)
     else do {
       m \<leftarrow> sc_and (Some (qc_type_h q = type_h \<and> qc_class_h q = class_h \<and> query_flags_matching (qc_flags q) fl))
         (name_eq (qc_original_name q) name_n);
       if \<not> m then scan_queries now mr name_n type_h class_h fl (front @ skipped @ [a]) [] rest h sticky
       else
         let q' = bad_cache now fl q in
         if query_expired now mr q' then
           scan_queries now mr name_n type_h class_h fl (front @ skipped @ [a]) [] rest
             (h(a \<mapsto> q'\<lparr> qc_flags := qc_flags q' OR VAL_QUERY_MARK_FOR_DELETION \<rparr>)) (qc_flags q')
         else Some (Some a, front @ skipped @ a # rest, h(a \<mapsto> q'), sticky)
     }
   }"


text \<open>
  \<open>add_to_query_chain\<close>: \<open>*added_q\<close> and the cache. \<open>fresh\<close> is the address \<open>malloc\<close> answers. Fields of the new
  query that \<open>init_query_chain_node\<close> does not set start as they are written before it.
\<close>

definition new_query_chain :: "byte list \<Rightarrow> u16 \<Rightarrow> u16 \<Rightarrow> u32 \<Rightarrow> val_query_chain" where
  "new_query_chain name type_h class_h fl = \<lparr> qc_refcount = 0, qc_name_n = [], qc_original_name = name,
     qc_type_h = type_h, qc_class_h = class_h, qc_state = 0, qc_flags = fl, qc_fallback = 0, qc_ttl_x = 0,
     qc_bad = 0, qc_zonecut_n = [], qc_referral = None, qc_ns_list = [], qc_respondent_server = None,
     qc_respondent_server_options = 0, qc_trans_id = -1, qc_last_sent = -1, qc_ea = None, qc_ans = [], qc_proof = [] \<rparr>"

definition add_to_query_chain :: "int \<Rightarrow> int option \<Rightarrow> nat \<Rightarrow> query_cache \<Rightarrow> byte list \<Rightarrow> u16 \<Rightarrow> u16 \<Rightarrow> u32 \<Rightarrow>
    (val_ret + nat \<times> query_cache) option" where
  "add_to_query_chain now mr fresh c name_n type_h class_h fl =
     (if name_n = [] then Some (Inl VAL_BAD_ARGUMENT)
      else do {
        (found, l, h, sticky) \<leftarrow> scan_queries now mr name_n type_h class_h fl [] [] (q_list c) (q_heap c) 0;
        case found of
          Some a \<Rightarrow> Some (Inr (a, \<lparr> q_list = l, q_heap = h \<rparr>))
        | None \<Rightarrow> do {
            len \<leftarrow> wire_name_length name_n;
            name \<leftarrow> seg name_n 0 len;
            q \<leftarrow> init_query_chain_node (new_query_chain name type_h class_h (fl OR sticky));
            Some (Inr (fresh, \<lparr> q_list = fresh # l, q_heap = h(fresh \<mapsto> q) \<rparr>))
          }
      })"

subsection \<open>The queries of a request\<close>

text \<open>\<open>check_in_qfq_chain\<close>: the first match. For a DLV query the proofs of the match may lower its time to live.\<close>

fun check_in_qfq_chain :: "openssl \<Rightarrow> int \<Rightarrow> int e_pol \<Rightarrow> (nat \<Rightarrow> val_query_chain option) \<Rightarrow> queries_for_query list \<Rightarrow>
    nat \<Rightarrow> byte list \<Rightarrow> u16 \<Rightarrow> u16 \<Rightarrow> u32 \<Rightarrow> (nat option \<times> (nat \<Rightarrow> val_query_chain option) \<times> int e_pol) option" where
  "check_in_qfq_chain C now ctx h [] i name_n type_h class_h fl = Some (None, h, ctx)"
| "check_in_qfq_chain C now ctx h (e # es) i name_n type_h class_h fl = do {
     q \<leftarrow> h (qfq_query e);
     m \<leftarrow> sc_and (Some (qc_type_h q = type_h \<and> qc_class_h q = class_h \<and> query_flags_matching (qfq_flags e) fl))
       (name_eq (qc_original_name q) name_n);
     if \<not> m then check_in_qfq_chain C now ctx h es (i + 1) name_n type_h class_h fl
     else if type_h = ns_t_dlv then do {
       (_, ttl, ctx') \<leftarrow> check_anc_proof C now ctx (map ac_data (qc_proof q)) (qc_type_h q) (qc_ttl_x q) name_n;
       Some (Some i, h(qfq_query e \<mapsto> q\<lparr> qc_ttl_x := ttl \<rparr>), ctx')
     }
     else Some (Some i, h, ctx)
   }"

text \<open>\<open>add_to_qfq_chain\<close>: the place of \<open>*added_qfq\<close> in the chain, the chain, the cache and the policies.\<close>

definition add_to_qfq_chain :: "openssl \<Rightarrow> int \<Rightarrow> int option \<Rightarrow> nat \<Rightarrow> int e_pol \<Rightarrow> query_cache \<Rightarrow> queries_for_query list \<Rightarrow>
    byte list \<Rightarrow> u16 \<Rightarrow> u16 \<Rightarrow> u32 \<Rightarrow> (val_ret + nat \<times> queries_for_query list \<times> query_cache \<times> int e_pol) option" where
  "add_to_qfq_chain C now mr fresh ctx c queries name_n type_h class_h fl =
     (if name_n = [] then Some (Inl VAL_BAD_ARGUMENT)
      else do {
        (r, h, ctx') \<leftarrow> check_in_qfq_chain C now ctx (q_heap c) queries 0 name_n type_h class_h fl;
        case r of
          Some i \<Rightarrow> Some (Inr (i, queries, c\<lparr> q_heap := h \<rparr>, ctx'))
        | None \<Rightarrow> do {
            added \<leftarrow> add_to_query_chain now mr fresh (c\<lparr> q_heap := h \<rparr>) name_n type_h class_h fl;
            case added of
              Inl e \<Rightarrow> Some (Inl e)
            | Inr (a, c') \<Rightarrow> do {
                q \<leftarrow> q_heap c' a;
                Some (Inr (0, \<lparr> qfq_flags = fl, qfq_query = a \<rparr> # queries,
                  c'\<lparr> q_heap := (q_heap c')(a \<mapsto> q\<lparr> qc_refcount := qc_refcount q + 1 \<rparr>) \<rparr>, ctx'))
              }
          }
      })"

text \<open>\<open>free_qfq_chain\<close> gives the references back, the last element first.\<close>

fun free_qfq_chain :: "(nat \<Rightarrow> val_query_chain option) \<Rightarrow> queries_for_query list \<Rightarrow>
    (nat \<Rightarrow> val_query_chain option) option" where
  "free_qfq_chain h [] = Some h"
| "free_qfq_chain h (e # es) = do {
     h' \<leftarrow> free_qfq_chain h es;
     q \<leftarrow> h' (qfq_query e);
     Some (h'(qfq_query e \<mapsto> q\<lparr> qc_refcount := qc_refcount q - 1 \<rparr>))
   }"

text \<open>\<open>remove_from_qfq_chain\<close> takes the element at index \<open>i\<close> out; it gives no reference back.\<close>

definition remove_from_qfq_chain :: "queries_for_query list \<Rightarrow> nat \<Rightarrow> val_ret \<times> queries_for_query list" where
  "remove_from_qfq_chain queries i =
     (if i < length queries then (VAL_NO_ERROR, take i queries @ drop (i + 1) queries)
      else (VAL_BAD_ARGUMENT, queries))"

subsection \<open>Requests that share the cache\<close>

text \<open>
  The chains of all requests of a context, with the cache they share. A step opens a request, adds a query to one,
  ends one, or lets the resolver and the validator work on a query that is allocated: they change anything but its
  reference count. All are done with the context's lock held, so a step is atomic.
\<close>

type_synonym system = "query_cache \<times> queries_for_query list list"

inductive step :: "openssl \<Rightarrow> system \<Rightarrow> system \<Rightarrow> bool" for C where
  open_request: "step C (c, cs) (c, cs @ [[]])"
| add_query: "i < length cs \<Longrightarrow> q_heap c fresh = None \<Longrightarrow>
    add_to_qfq_chain C now mr fresh ctx c (cs ! i) name_n type_h class_h fl = Some (Inr (k, queries, c', ctx')) \<Longrightarrow>
    step C (c, cs) (c', cs[i := queries])"
| end_request: "i < length cs \<Longrightarrow> free_qfq_chain (q_heap c) (cs ! i) = Some h \<Longrightarrow>
    step C (c, cs) (c\<lparr> q_heap := h \<rparr>, cs[i := []])"
| work: "q_heap c a = Some q \<Longrightarrow> qc_refcount q' = qc_refcount q \<Longrightarrow>
    step C (c, cs) (c\<lparr> q_heap := (q_heap c)(a \<mapsto> q') \<rparr>, cs)"

inductive_cases stepE: "step C s s'"

inductive reachable :: "openssl \<Rightarrow> system \<Rightarrow> bool" for C where
  reach_start: "reachable C (\<lparr> q_list = [], q_heap = \<lambda>_. None \<rparr>, [])"
| reach_step: "reachable C s \<Longrightarrow> step C s s' \<Longrightarrow> reachable C s'"

definition refs :: "queries_for_query list list \<Rightarrow> nat \<Rightarrow> nat" where
  "refs cs a = count_list (map qfq_query (concat cs)) a"

text \<open>Every query that is allocated has as many references as its count says, and none is dangling.\<close>

definition counted :: "(nat \<Rightarrow> val_query_chain option) \<Rightarrow> (nat \<Rightarrow> nat) \<Rightarrow> bool" where
  "counted h n \<longleftrightarrow> (\<forall>a. h a = None \<longrightarrow> n a = 0) \<and> (\<forall>a q. h a = Some q \<longrightarrow> qc_refcount q = int (n a))"

definition listed :: "nat list \<Rightarrow> (nat \<Rightarrow> val_query_chain option) \<Rightarrow> bool" where
  "listed l h \<longleftrightarrow> distinct l \<and> set l \<subseteq> dom h"

fun good :: "system \<Rightarrow> bool" where
  "good (c, cs) \<longleftrightarrow> counted (q_heap c) (refs cs) \<and> listed (q_list c) (q_heap c)"

lemma countedD: "counted h n \<Longrightarrow> h a = Some q \<Longrightarrow> qc_refcount q = int (n a)"
  by (simp add: counted_def)

lemma counted_dom: "counted h n \<Longrightarrow> 0 < n a \<Longrightarrow> \<exists>q. h a = Some q"
  by (cases "h a") (auto simp: counted_def)

lemma counted_update:
  "counted h n \<Longrightarrow> h a = Some q \<Longrightarrow> qc_refcount q' = qc_refcount q \<Longrightarrow> counted (h(a \<mapsto> q')) n"
  by (auto simp: counted_def)

lemma counted_free:
  assumes "counted h n" "h a = Some q" "qc_refcount q = 0"
  shows "counted (h(a := None)) n"
proof -
  have "n a = 0" using countedD [OF assms(1,2)] assms(3) by simp
  with assms(1) show ?thesis by (auto simp: counted_def)
qed

lemma bad_cache_refcount [simp]: "qc_refcount (bad_cache now fl q) = qc_refcount q"
  by (simp add: bad_cache_def Let_def)

lemma dom_update: "h a = Some q \<Longrightarrow> dom (h(a \<mapsto> q')) = dom h"
  by auto

lemma listed_update: "listed l h \<Longrightarrow> h a = Some q \<Longrightarrow> listed l (h(a \<mapsto> q'))"
  unfolding listed_def by (simp only: dom_update)

lemma scan_queries_good:
  assumes "scan_queries now mr name_n type_h class_h fl front skipped rest h sticky = Some (found, l, h', st)"
    and "counted h n" "listed (front @ skipped @ rest) h"
  shows "counted h' n \<and> listed l h' \<and> (\<forall>a. found = Some a \<longrightarrow> a \<in> set l) \<and> dom h' \<subseteq> dom h"
  using assms
proof (induction rest arbitrary: front skipped h sticky)
  case (Cons a rest)
  from Cons.prems(1) obtain q where q: "h a = Some q" by (auto split: Option.bind_splits)
  show ?case
  proof (cases "qc_flags q AND VAL_QUERY_MARK_FOR_DELETION \<noteq> 0")
    case True
    note marked = True
    show ?thesis
    proof (cases "qc_refcount q = 0")
      case True
      have "listed (front @ [] @ rest) (h(a := None))" using Cons.prems(3) by (auto simp: listed_def)
      with True marked q Cons.prems(1) Cons.IH [OF _ counted_free [OF Cons.prems(2) q True]]
      show ?thesis by fastforce
    next
      case False
      with marked q Cons.prems Cons.IH [of front "skipped @ [a]" h sticky] show ?thesis by simp
    qed
  next
    case False
    with q Cons.prems(1) obtain m where
      m: "sc_and (Some (qc_type_h q = type_h \<and> qc_class_h q = class_h \<and> query_flags_matching (qc_flags q) fl))
         (name_eq (qc_original_name q) name_n) = Some m"
      by (auto split: Option.bind_splits)
    show ?thesis
    proof (cases "m \<and> query_expired now mr (bad_cache now fl q)")
      case True
      let ?q = "(bad_cache now fl q)\<lparr> qc_flags := qc_flags (bad_cache now fl q) OR VAL_QUERY_MARK_FOR_DELETION \<rparr>"
      have ref: "counted (h(a \<mapsto> ?q)) n" by (rule counted_update [OF Cons.prems(2) q]) simp
      have l: "listed ((front @ skipped @ [a]) @ [] @ rest) (h(a \<mapsto> ?q))"
        using Cons.prems(3) by (auto simp: listed_def)
      have run: "scan_queries now mr name_n type_h class_h fl (front @ skipped @ [a]) [] rest (h(a \<mapsto> ?q))
          (qc_flags (bad_cache now fl q)) = Some (found, l, h', st)"
        using True False m q Cons.prems(1) by (simp add: Let_def)
      have d: "dom (h(a \<mapsto> ?q)) = dom h" using q by auto
      show ?thesis by (rule Cons.IH [OF run ref l, unfolded d])
    next
      case no: False
      show ?thesis
      proof (cases m)
        case True
        have res: "found = Some a" "l = front @ skipped @ a # rest" "h' = h(a \<mapsto> bad_cache now fl q)"
          using True no False m q Cons.prems(1) by (simp_all add: Let_def)
        have "counted h' n" unfolding res by (rule counted_update [OF Cons.prems(2) q]) simp
        moreover have "listed l h'" unfolding res by (rule listed_update [of _ h a, OF Cons.prems(3) q])
        moreover have "dom h' = dom h" unfolding res by (rule dom_update [of h a, OF q])
        ultimately show ?thesis using res(1,2) by simp
      next
        case m': False
        with False m q Cons.prems Cons.IH [of "front @ skipped @ [a]" "[]" h sticky] show ?thesis by simp
      qed
    qed
  qed
qed auto


lemma init_query_refcount: "init_query_chain_node q = Some q' \<Longrightarrow> qc_refcount q' = qc_refcount q"
  by (auto simp: init_query_chain_node_def split: Option.bind_splits)

lemma counted_fresh:
  assumes "counted h n" "h a = None" "qc_refcount q = 0"
  shows "counted (h(a \<mapsto> q)) n"
proof -
  have "n a = 0" using assms(1,2) by (simp add: counted_def)
  with assms show ?thesis by (simp add: counted_def)
qed

lemma add_to_query_chain_good:
  assumes "add_to_query_chain now mr fresh c name_n type_h class_h fl = Some (Inr (a, c'))"
    and "counted (q_heap c) n" "listed (q_list c) (q_heap c)" "q_heap c fresh = None"
  shows "counted (q_heap c') n \<and> listed (q_list c') (q_heap c') \<and> a \<in> set (q_list c')"
proof -
  from assms(1) obtain found l h st where
    scan: "scan_queries now mr name_n type_h class_h fl [] [] (q_list c) (q_heap c) 0 = Some (found, l, h, st)"
    by (auto simp: add_to_query_chain_def split: if_splits Option.bind_splits)
  have good: "counted h n \<and> listed l h \<and> (\<forall>a. found = Some a \<longrightarrow> a \<in> set l) \<and> dom h \<subseteq> dom (q_heap c)"
    by (rule scan_queries_good [OF scan assms(2)]) (use assms(3) in simp)
  show ?thesis
  proof (cases found)
    case (Some b)
    with assms(1) scan good show ?thesis by (auto simp: add_to_query_chain_def split: if_splits)
  next
    case None
    with assms(1) scan obtain name q where q: "init_query_chain_node (new_query_chain name type_h class_h (fl OR st)) = Some q"
      "a = fresh" "c' = \<lparr> q_list = fresh # l, q_heap = h(fresh \<mapsto> q) \<rparr>"
      by (auto simp: add_to_query_chain_def split: if_splits Option.bind_splits)
    have "qc_refcount q = 0" using init_query_refcount [OF q(1)] by (simp add: new_query_chain_def)
    moreover have "fresh \<notin> dom h" using good assms(4) by blast
    ultimately have "counted (h(fresh \<mapsto> q)) n" using good by (intro counted_fresh) auto
    with q good \<open>fresh \<notin> dom h\<close> show ?thesis by (auto simp: listed_def)
  qed
qed

lemma check_in_qfq_chain_good:
  assumes "check_in_qfq_chain C now ctx h es i name_n type_h class_h fl = Some (r, h', ctx')" "counted h n"
  shows "counted h' n \<and> dom h' = dom h \<and> (\<forall>k. r = Some k \<longrightarrow> i \<le> k \<and> k < i + length es)"
  using assms
proof (induction es arbitrary: i)
  case (Cons e es)
  from Cons.prems(1) obtain q m where q: "h (qfq_query e) = Some q"
    and m: "sc_and (Some (qc_type_h q = type_h \<and> qc_class_h q = class_h \<and> query_flags_matching (qfq_flags e) fl))
       (name_eq (qc_original_name q) name_n) = Some m"
    by (auto split: Option.bind_splits)
  show ?case
  proof (cases m)
    case True
    then show ?thesis
      using Cons.prems q m counted_update [OF Cons.prems(2) q, of "q\<lparr> qc_ttl_x := _ \<rparr>"]
      by (auto split: if_splits Option.bind_splits)
  next
    case False
    with Cons.prems q m Cons.IH [of "i + 1"] show ?thesis by fastforce
  qed
qed auto


text \<open>The references held by one chain.\<close>

abbreviation held :: "queries_for_query list \<Rightarrow> nat \<Rightarrow> nat" where
  "held es \<equiv> count_list (map qfq_query es)"

lemma refs_append: "refs (cs @ [[]]) = refs cs"
  by (simp add: refs_def fun_eq_iff)

lemma refs_update: "i < length cs \<Longrightarrow> refs (cs[i := es]) a + held (cs ! i) a = refs cs a + held es a"
proof (induction cs arbitrary: i)
  case (Cons c cs)
  then show ?case by (cases i) (auto simp: refs_def)
qed simp

lemma held_le_refs: "i < length cs \<Longrightarrow> held (cs ! i) a \<le> refs cs a"
  using refs_update [of i cs "[]" a] by simp

lemma counted_cong: "counted h n \<Longrightarrow> (\<And>a. n a = n' a) \<Longrightarrow> counted h n'"
  by (metis ext)

lemma counted_incr:
  assumes "counted h n" "h a = Some q"
  shows "counted (h(a \<mapsto> q\<lparr> qc_refcount := qc_refcount q + 1 \<rparr>)) (n(a := n a + 1))"
  using assms by (auto simp: counted_def)

lemma add_to_qfq_chain_good:
  assumes "add_to_qfq_chain C now mr fresh ctx c es name_n type_h class_h fl = Some (Inr (k, es', c', ctx'))"
    and "counted (q_heap c) n" "listed (q_list c) (q_heap c)" "q_heap c fresh = None"
  shows "listed (q_list c') (q_heap c') \<and> k < length es' \<and> (\<exists>n'. counted (q_heap c') n' \<and> (\<forall>b. n' b + held es b = n b + held es' b))"
proof -
  from assms(1) obtain r h ctx1 where
    look: "check_in_qfq_chain C now ctx (q_heap c) es 0 name_n type_h class_h fl = Some (r, h, ctx1)"
    by (auto simp: add_to_qfq_chain_def split: if_splits Option.bind_splits)
  note g = check_in_qfq_chain_good [OF look assms(2)]
  have l: "listed (q_list c) h" using g assms(3) by (simp add: listed_def)
  show ?thesis
  proof (cases r)
    case (Some i)
    with assms(1) look g l show ?thesis
      by (auto simp: add_to_qfq_chain_def split: if_splits)
  next
    case None
    with assms(1) look obtain a c1 q where
      add: "add_to_query_chain now mr fresh (c\<lparr> q_heap := h \<rparr>) name_n type_h class_h fl = Some (Inr (a, c1))"
      and q: "q_heap c1 a = Some q" and res: "es' = \<lparr> qfq_flags = fl, qfq_query = a \<rparr> # es" "k = 0"
        "c' = c1\<lparr> q_heap := (q_heap c1)(a \<mapsto> q\<lparr> qc_refcount := qc_refcount q + 1 \<rparr>) \<rparr>"
      by (auto simp: add_to_qfq_chain_def split: if_splits Option.bind_splits sum.splits)
    have "h fresh = None" using g assms(4) by auto
    then have g1: "counted (q_heap c1) n \<and> listed (q_list c1) (q_heap c1) \<and> a \<in> set (q_list c1)"
      using add_to_query_chain_good [OF add, of n] g l by simp
    have "listed (q_list c') (q_heap c')"
      unfolding res(3) using listed_update [of "q_list c1" "q_heap c1" a q] g1 q by simp
    moreover have "counted (q_heap c') (n(a := n a + 1))"
      unfolding res(3) using counted_incr [of "q_heap c1" n a q] g1 q by simp
    ultimately show ?thesis using res(1,2) by (intro conjI exI [of _ "n(a := n a + 1)"]) auto
  qed
qed

lemma free_qfq_chain_good:
  assumes "free_qfq_chain h es = Some h'" "counted h n" "\<forall>a. held es a \<le> n a" "listed l h"
  shows "counted h' (\<lambda>a. n a - held es a) \<and> listed l h'"
  using assms
proof (induction es arbitrary: h')
  case (Cons e es)
  from Cons.prems(1) obtain h1 q where h1: "free_qfq_chain h es = Some h1" "h1 (qfq_query e) = Some q"
    "h' = h1(qfq_query e \<mapsto> q\<lparr> qc_refcount := qc_refcount q - 1 \<rparr>)"
    by (auto split: Option.bind_splits)
  have le: "held es a \<le> n a" for a using Cons.prems(3) [rule_format, of a] by (auto split: if_splits)
  have g: "counted h1 (\<lambda>a. n a - held es a)" "listed l h1" using Cons.IH [OF h1(1) Cons.prems(2)] le Cons.prems(4) by auto
  have "held es (qfq_query e) < n (qfq_query e)" using Cons.prems(3) [rule_format, of "qfq_query e"] by simp
  then have "counted h' (\<lambda>a. n a - held (e # es) a)"
    unfolding h1(3) using g(1) countedD [OF g(1) h1(2)] by (auto simp: counted_def)
  moreover have "listed l h'" unfolding h1(3) by (rule listed_update [of _ h1 "qfq_query e", OF g(2) h1(2)])
  ultimately show ?case by simp
qed simp

lemma step_good:
  assumes "step C s s'" "good s"
  shows "good s'"
  using assms
proof (induction rule: step.induct)
  case (open_request c cs)
  then show ?case by (simp add: refs_append)
next
  case (add_query i cs c fresh now mr ctx name_n type_h class_h fl k queries c' ctx')
  then have g: "counted (q_heap c) (refs cs)" "listed (q_list c) (q_heap c)" by simp_all
  from add_to_qfq_chain_good [OF add_query(3) g add_query(2)] obtain n' where
    n': "listed (q_list c') (q_heap c')" "counted (q_heap c') n'" "\<forall>b. n' b + held (cs ! i) b = refs cs b + held queries b"
    by blast
  have "n' b = refs (cs[i := queries]) b" for b
    using n'(3) [rule_format, of b] refs_update [OF add_query(1), of queries b] by linarith
  with counted_cong [OF n'(2)] n'(1) show ?case by simp
next
  case (end_request i cs c h)
  then have g: "counted (q_heap c) (refs cs)" "listed (q_list c) (q_heap c)" by simp_all
  have "counted h (\<lambda>a. refs cs a - held (cs ! i) a) \<and> listed (q_list c) h"
    by (rule free_qfq_chain_good [OF end_request(2) g(1) _ g(2)]) (simp add: held_le_refs [OF end_request(1)])
  moreover have "refs cs a - held (cs ! i) a = refs (cs[i := []]) a" for a
    using refs_update [OF end_request(1), of "[]" a] by simp
  ultimately show ?case using counted_cong by simp
next
  case (work c a q q' cs)
  then show ?case using counted_update listed_update [of "q_list c" "q_heap c" a q q'] by simp
qed

lemma reachable_good: "reachable C s \<Longrightarrow> good s"
proof (induction rule: reachable.induct)
  case reach_start
  then show ?case by (simp add: counted_def listed_def refs_def)
next
  case (reach_step s s')
  then show ?case by (blast intro: step_good)
qed

lemma reachable_live:
  assumes "reachable C (c, cs)" "es \<in> set cs" "e \<in> set es"
  shows "\<exists>q. q_heap c (qfq_query e) = Some q \<and> qc_refcount q = int (refs cs (qfq_query e)) \<and> 0 < qc_refcount q"
proof -
  have g: "counted (q_heap c) (refs cs)" using reachable_good [OF assms(1)] by simp
  have "qfq_query e \<in> set (map qfq_query (concat cs))" using assms(2,3) by auto
  then have pos: "0 < refs cs (qfq_query e)" unfolding refs_def by (metis count_list_0_iff gr0I)
  then obtain q where "q_heap c (qfq_query e) = Some q" using counted_dom [OF g] by blast
  with countedD [OF g this] pos show ?thesis by simp
qed


subsection \<open>Which query a look-up answers\<close>

lemma bad_cache_same [simp]:
  "qc_type_h (bad_cache now fl q) = qc_type_h q" "qc_class_h (bad_cache now fl q) = qc_class_h q"
  "qc_flags (bad_cache now fl q) = qc_flags q" "qc_original_name (bad_cache now fl q) = qc_original_name q"
  by (simp_all add: bad_cache_def Let_def)

definition answers_for :: "int \<Rightarrow> int option \<Rightarrow> byte list \<Rightarrow> u16 \<Rightarrow> u16 \<Rightarrow> u32 \<Rightarrow> val_query_chain \<Rightarrow> bool" where
  "answers_for now mr name_n type_h class_h fl q \<longleftrightarrow> qc_type_h q = type_h \<and> qc_class_h q = class_h \<and>
     query_flags_matching (qc_flags q) fl \<and> name_eq (qc_original_name q) name_n = Some True \<and>
     qc_flags q AND VAL_QUERY_MARK_FOR_DELETION = 0 \<and> \<not> query_expired now mr q"

lemma scan_queries_found:
  "scan_queries now mr name_n type_h class_h fl front skipped rest h sticky = Some (Some a, l, h', st) \<Longrightarrow>
   \<exists>q. h' a = Some q \<and> answers_for now mr name_n type_h class_h fl q"
proof (induction rest arbitrary: front skipped h sticky)
  case (Cons b rest)
  from Cons.prems obtain q where q: "h b = Some q" by (auto split: Option.bind_splits)
  show ?case
  proof (cases "qc_flags q AND VAL_QUERY_MARK_FOR_DELETION \<noteq> 0")
    case True
    with Cons q show ?thesis by (auto split: if_splits)
  next
    case False
    with q Cons.prems obtain m where
      m: "sc_and (Some (qc_type_h q = type_h \<and> qc_class_h q = class_h \<and> query_flags_matching (qc_flags q) fl))
         (name_eq (qc_original_name q) name_n) = Some m"
      by (auto split: Option.bind_splits)
    show ?thesis
    proof (cases "m \<and> \<not> query_expired now mr (bad_cache now fl q)")
      case True
      with m have "qc_type_h q = type_h \<and> qc_class_h q = class_h \<and> query_flags_matching (qc_flags q) fl \<and>
          name_eq (qc_original_name q) name_n = Some True"
        by (auto simp: sc_and_def split: Option.bind_splits if_splits)
      with True False m q Cons.prems show ?thesis by (auto simp: Let_def answers_for_def)
    next
      case no: False
      with False m q Cons.prems Cons.IH show ?thesis by (auto simp: Let_def split: if_splits)
    qed
  qed
qed simp

lemma add_to_query_chain_answer:
  assumes "add_to_query_chain now mr fresh c name_n type_h class_h fl = Some (Inr (a, c'))"
  shows "\<exists>q. q_heap c' a = Some q \<and> (answers_for now mr name_n type_h class_h fl q \<or>
    a = fresh \<and> hd (q_list c') = fresh \<and> qc_state q = Q_INIT \<and> qc_refcount q = 0 \<and> qc_type_h q = type_h \<and>
    qc_class_h q = class_h \<and> qc_ans q = [] \<and> (\<exists>len. wire_name_length name_n = Some len \<and> seg name_n 0 len = Some (qc_original_name q)))"
proof -
  from assms obtain found l h st where
    scan: "scan_queries now mr name_n type_h class_h fl [] [] (q_list c) (q_heap c) 0 = Some (found, l, h, st)"
    by (auto simp: add_to_query_chain_def split: if_splits Option.bind_splits)
  show ?thesis
  proof (cases found)
    case (Some b)
    with assms scan have "a = b" "q_heap c' = h" by (auto simp: add_to_query_chain_def split: if_splits)
    with scan_queries_found scan Some show ?thesis by blast
  next
    case None
    with assms scan show ?thesis
      by (auto simp: add_to_query_chain_def init_query_chain_node_def new_query_chain_def
          split: if_splits Option.bind_splits)
  qed
qed

text \<open>
  A query that is marked for deletion and still in use falls out of the list when the query after it is unlinked:
  nothing the context keeps points at it any more, so nothing will free it.
\<close>

lemma scan_queries_drops:
  assumes "h a = Some qa" "qc_flags qa AND VAL_QUERY_MARK_FOR_DELETION \<noteq> 0" "qc_refcount qa \<noteq> 0"
    and "h b = Some qb" "qc_flags qb AND VAL_QUERY_MARK_FOR_DELETION \<noteq> 0" "qc_refcount qb = 0" "a \<noteq> b"
  shows "scan_queries now mr name_n type_h class_h fl [] [] [a, b] h st = Some (None, [], h(b := None), st)"
  using assms by simp

lemma in_use_query_dropped:
  assumes "q_list c = [a, b]" "q_heap c a = Some qa" "qc_flags qa AND VAL_QUERY_MARK_FOR_DELETION \<noteq> 0"
    "0 < qc_refcount qa" "q_heap c b = Some qb" "qc_flags qb AND VAL_QUERY_MARK_FOR_DELETION \<noteq> 0"
    "qc_refcount qb = 0" "a \<noteq> b" "valid_name name_n" "fresh \<noteq> a"
  shows "\<exists>c'. add_to_query_chain now mr fresh c name_n type_h class_h fl = Some (Inr (fresh, c')) \<and>
    q_list c' = [fresh] \<and> q_heap c' a = Some qa"
proof -
  have s: "scan_queries now mr name_n type_h class_h fl [] [] [a, b] (q_heap c) 0 = Some (None, [], (q_heap c)(b := None), 0)"
    using assms by (intro scan_queries_drops [of _ _ qa _ qb]) auto
  obtain ls t where n: "name_n = enc ls @ t" "wf_name ls" using assms(9) by (rule valid_nameE)
  then have len: "wire_name_length name_n = Some (length (enc ls))" "seg name_n 0 (length (enc ls)) = Some (enc ls)"
    "wire_name_length (enc ls) = Some (length (enc ls))" "seg (enc ls) 0 (length (enc ls)) = Some (enc ls)" "name_n \<noteq> []"
    by (simp_all add: wire_name_length_encodes seg_def)
  show ?thesis
    using assms(1,2,8,10) s len by (auto simp: add_to_query_chain_def init_query_chain_node_def new_query_chain_def)
qed

end
