(* ===== verification/Referral.thy ===== *)
theory Referral
  imports Query
begin

section \<open>Referrals and aliases\<close>

text \<open>
  The part of \<^verbatim>\<open>libval/val_resquery.c\<close> that turns the records of a response into the next step of a query: the
  chain of aliases (\<open>process_cname_dname_responses\<close>), the sets a response is sorted into (\<open>SAVE_RR_TO_LIST\<close>,
  \<open>fix_zonecut_in_rrset\<close>, \<open>prepare_empty_nonexistence\<close>), the name servers of a zone with their addresses
  (\<open>extract_glue_from_rdata\<close>, \<open>res_zi_unverified_ns_list\<close>) and the referral itself (\<open>bootstrap_referral\<close>). The
  library is built with IPv6. A field that C leaves uninitialised is zero.
\<close>


subsection \<open>Alias chains\<close>

abbreviation Q_WAIT_FOR_A_GLUE :: u16 where "Q_WAIT_FOR_A_GLUE \<equiv> 4"
abbreviation Q_WAIT_FOR_AAAA_GLUE :: u16 where "Q_WAIT_FOR_AAAA_GLUE \<equiv> 8"
abbreviation Q_WAIT_FOR_GLUE :: u16 where "Q_WAIT_FOR_GLUE \<equiv> 12"
abbreviation VAL_QUERY_ITERATE :: u32 where "VAL_QUERY_ITERATE \<equiv> 0x10000"
abbreviation VAL_QUERY_GLUE_REQUEST :: u32 where "VAL_QUERY_GLUE_REQUEST \<equiv> 0x01000000"
abbreviation VAL_QUERY_IS_ITERATING :: u32 where "VAL_QUERY_IS_ITERATING \<equiv> 0x08000000"

definition new_delegation :: delegation_info where
  "new_delegation = \<lparr> di_queries = [], di_qnames = [], di_answers = [], di_proofs = [],
     di_cur_pending_glue_ns = [], di_pending_glue_ns = [], di_merged_glue_ns = [], di_saved_zonecut_n = [],
     di_learned_zones = [] \<rparr>"

definition referral_block :: "val_query_chain \<Rightarrow> delegation_info" where
  "referral_block q = (case qc_referral q of None \<Rightarrow> new_delegation | Some d \<Rightarrow> d)"

text \<open>The name of an alias is registered; \<open>True\<close> when it was there, and then the query has failed.\<close>

definition register_alias :: "val_query_chain \<Rightarrow> byte list \<Rightarrow> (bool \<times> val_query_chain) option" where
  "register_alias q name_n = do {
     (r, qs) \<leftarrow> register_query (di_queries (referral_block q)) name_n (qc_type_h q) (qc_zonecut_n q);
     let q' = q\<lparr> qc_referral := Some ((referral_block q)\<lparr> di_queries := qs \<rparr>) \<rparr>;
     Some (if r = ITS_BEEN_DONE then (True, q'\<lparr> qc_state := Q_REFERRAL_ERROR \<rparr>) else (False, q'))
   }"

text \<open>
  \<open>process_cname_dname_responses\<close>: the query, the chain of names, and whether \<open>*referral_error\<close> is set. A record
  has one type, so at most one of its two parts does anything.
\<close>

definition process_cname :: "byte list \<Rightarrow> val_query_chain \<Rightarrow> byte list list \<Rightarrow>
    (val_ret \<times> val_query_chain \<times> byte list list \<times> bool) option" where
  "process_cname rdata q qnames = do {
     (ret, qnames') \<leftarrow> add_to_qname_chain qnames rdata;
     if ret \<noteq> VAL_NO_ERROR then Some (ret, q, qnames', False)
     else do {
       (seen, q') \<leftarrow> register_alias q rdata;
       Some (VAL_NO_ERROR, if seen then q' else q'\<lparr> qc_state := Q_INIT \<rparr>, qnames', seen)
     }
   }"

definition process_dname :: "byte list \<Rightarrow> byte list \<Rightarrow> nat \<Rightarrow> val_query_chain \<Rightarrow> byte list list \<Rightarrow>
    (val_ret \<times> val_query_chain \<times> byte list list \<times> bool) option" where
  "process_dname name_n rdata len1 q qnames = do {
     len2 \<leftarrow> wire_name_length rdata;
     if NS_MAXCDNAME < len1 + len2
     then Some (VAL_NO_ERROR, q\<lparr> qc_state := Q_REFERRAL_ERROR \<rparr>, qnames, True)
     else do {
       (ret, qnames') \<leftarrow> add_to_qname_chain qnames name_n;
       if ret \<noteq> VAL_NO_ERROR then Some (ret, q, qnames', False)
       else do {
         (seen, q') \<leftarrow> register_alias q name_n;
         if seen then Some (VAL_NO_ERROR, q', qnames', True)
         else do {
           front \<leftarrow> seg (hd qnames) 0 len1;
           target \<leftarrow> seg rdata 0 len2;
           (ret, qnames'') \<leftarrow> add_to_qname_chain qnames' (front @ target);
           Some (ret, if ret \<noteq> VAL_NO_ERROR then q' else q'\<lparr> qc_state := Q_INIT \<rparr>, qnames'', False)
         }
       }
     }
   }"

definition process_cname_dname_responses :: "byte list \<Rightarrow> u16 \<Rightarrow> byte list \<Rightarrow> val_query_chain \<Rightarrow> byte list list \<Rightarrow>
    (val_ret \<times> val_query_chain \<times> byte list list \<times> bool) option" where
  "process_cname_dname_responses name_n type_h rdata q qnames =
     (if name_n = [] \<or> rdata = [] \<or> qnames = [] then Some (VAL_BAD_ARGUMENT, q, qnames, False)
      else do {
        same \<leftarrow> (if type_h = ns_t_cname \<and> qc_type_h q \<noteq> ns_t_cname \<or> type_h = ns_t_dname \<and> qc_type_h q \<noteq> ns_t_dname
          then name_eq (hd qnames) name_n else Some False);
        if type_h = ns_t_cname \<and> qc_type_h q \<noteq> ns_t_cname \<and> same then process_cname rdata q qnames
        else if type_h = ns_t_dname \<and> qc_type_h q \<noteq> ns_t_dname \<and> \<not> same then do {
          p \<leftarrow> namename (hd qnames) name_n;
          case p of
            None \<Rightarrow> Some (VAL_NO_ERROR, q, qnames, False)
          | Some len1 \<Rightarrow>
              if 0 < len1 then process_dname name_n rdata len1 q qnames
              else Some (VAL_NO_ERROR, q, qnames, False)
        }
        else Some (VAL_NO_ERROR, q, qnames, False)
      })"

subsection \<open>Keeping the records of a response\<close>

text \<open>The macro \<open>SAVE_RR_TO_LIST\<close>: the list of sets with the record, or the error the caller returns.\<close>

definition save_rr_to_list :: "int option \<Rightarrow> name_server option \<Rightarrow> rrset_rec list \<Rightarrow> byte list \<Rightarrow> u16 \<Rightarrow> u16 \<Rightarrow>
    u16 \<Rightarrow> u32 \<Rightarrow> byte list \<Rightarrow> byte list \<Rightarrow> nat \<Rightarrow> byte \<Rightarrow> bool \<Rightarrow> bool \<Rightarrow> byte list \<Rightarrow> (val_ret + rrset_rec list) option" where
  "save_rr_to_list tv respondent_server listtype name_n type_h set_type_h class_h ttl_h hptr rdata rdata_len_h
     from_section authoritive iterative zonecut_n = do {
     (sets, found) \<leftarrow> find_rr_set tv respondent_server listtype name_n type_h set_type_h class_h ttl_h hptr rdata
       from_section authoritive iterative zonecut_n;
     case found of
       None \<Rightarrow> Some (Inl VAL_OUT_OF_MEMORY)
     | Some i \<Rightarrow>
         if type_h \<noteq> ns_t_rrsig then do {
           (ret, rr_set) \<leftarrow> add_to_set (sets ! i) rdata_len_h rdata;
           Some (if ret \<noteq> VAL_NO_ERROR then Inl ret else Inr (sets[i := rr_set]))
         }
         else do {
           (ret, rr_set) \<leftarrow> add_as_sig (sets ! i) rdata_len_h rdata;
           if ret \<noteq> VAL_NO_ERROR then Some (Inl ret)
           else do {
             r \<leftarrow> (if SIGNBY < rdata_len_h then do { signer \<leftarrow> ptr rdata SIGNBY; namename name_n signer } else Some None);
             zonecut \<leftarrow> (case r of None \<Rightarrow> Some []
               | Some p \<Rightarrow> do { len \<leftarrow> wire_name_length (drop p name_n); seg name_n p len });
             Some (Inr (sets[i := rr_set\<lparr> rrs_zonecut_n := zonecut \<rparr>]))
           }
         }
   }"

text \<open>\<open>fix_zonecut_in_rrset\<close>.\<close>

definition closer_zonecut :: "rrset_rec \<Rightarrow> byte list \<Rightarrow> bool option" where
  "closer_zonecut r zonecut_n = do {
     p \<leftarrow> namename (rrs_name_n r) zonecut_n;
     if p = None \<or> rrs_zonecut_n r = [] then Some False
     else do { p' \<leftarrow> namename zonecut_n (rrs_zonecut_n r); Some (p' \<noteq> None) }
   }"

fun fix_zonecut_in_rrset :: "rrset_rec list \<Rightarrow> byte list \<Rightarrow> rrset_rec list option" where
  "fix_zonecut_in_rrset [] zonecut_n = Some []"
| "fix_zonecut_in_rrset (r # rs) zonecut_n =
     (if zonecut_n = [] then Some (r # rs)
      else do {
        len \<leftarrow> wire_name_length zonecut_n;
        b \<leftarrow> closer_zonecut r zonecut_n;
        name \<leftarrow> seg zonecut_n 0 len;
        rest \<leftarrow> fix_zonecut_in_rrset rs zonecut_n;
        Some ((if b then r\<lparr> rrs_zonecut_n := name \<rparr> else r) # rest)
      })"

text \<open>\<open>prepare_empty_nonexistence\<close>: the set that stands for an answer without records.\<close>

definition prepare_empty_nonexistence :: "rrset_rec list \<Rightarrow> name_server option \<Rightarrow> byte list \<Rightarrow> u16 \<Rightarrow> u16 \<Rightarrow>
    byte list \<Rightarrow> (val_ret \<times> rrset_rec list) option" where
  "prepare_empty_nonexistence answers respondent_server query_name_n query_type_h query_class_h hptr = do {
     len \<leftarrow> wire_name_length query_name_n;
     if len = 0 then Some (VAL_BAD_ARGUMENT, answers)
     else do {
       rcode \<leftarrow> (if hptr \<noteq> [] then do { b \<leftarrow> rd hptr 3; Some (unat (b AND 0x0f)) } else Some 0);
       name \<leftarrow> seg query_name_n 0 len;
       let server = (case respondent_server of
         Some ns \<Rightarrow> (case ns_address ns of a # _ \<Rightarrow> (a, ns_options ns) | [] \<Rightarrow> ([], 0))
       | None \<Rightarrow> ([], 0));
       Some (VAL_NO_ERROR, [zero_rrset\<lparr> rrs_name_n := name, rrs_rcode := rcode, rrs_type_h := query_type_h,
         rrs_class_h := query_class_h, rrs_ttl_h := 0, rrs_ttl_x := 0, rrs_cred := SR_CRED_UNSET,
         rrs_section := 0, rrs_server := fst server, rrs_ns_options := snd server, rrs_zonecut_n := [],
         rrs_data := [], rrs_sig := [] \<rparr>])
     }
   }"


subsection \<open>Alias chains: what the code does\<close>

text \<open>A name is refused when it is among the first eleven names registered for the zone.\<close>

definition ok_aliases :: "val_query_chain \<Rightarrow> bool" where
  "ok_aliases q \<longleftrightarrow> list_all ok_query (di_queries (referral_block q)) \<and>
     (qc_zonecut_n q = [] \<or> valid_name (qc_zonecut_n q))"

definition alias_seen :: "val_query_chain \<Rightarrow> byte list \<Rightarrow> bool" where
  "alias_seen q name_n \<longleftrightarrow> (\<exists>x\<in>set (take 11 (di_queries (referral_block q))). ql_hits name_n (qc_zonecut_n q) x)"

definition with_alias :: "val_query_chain \<Rightarrow> byte list \<Rightarrow> val_query_chain" where
  "with_alias q name_n = (let d = referral_block q in
     q\<lparr> qc_referral := Some (d\<lparr> di_queries := di_queries d @
       (if alias_seen q name_n \<or> 11 < length (di_queries d) then []
        else [new_query name_n (qc_type_h q) (qc_zonecut_n q)]) \<rparr>),
       qc_state := (if alias_seen q name_n then Q_REFERRAL_ERROR else qc_state q) \<rparr>)"

lemma register_alias_eq:
  assumes "ok_aliases q" "valid_name n"
  shows "register_alias q n = Some (alias_seen q n, with_alias q n)"
  using register_query_eq [of "di_queries (referral_block q)" n "qc_zonecut_n q" "qc_type_h q"] assms
  by (auto simp: register_alias_def ok_aliases_def alias_seen_def with_alias_def Let_def)

lemma encodes_valid: "encodes n ls \<Longrightarrow> valid_name n"
  by (auto simp: valid_name_def)

lemma process_cname_eq:
  assumes "ok_aliases q" "valid_name rdata"
  shows "process_cname rdata q qnames = Some (VAL_NO_ERROR,
    (if alias_seen q rdata then with_alias q rdata else (with_alias q rdata)\<lparr> qc_state := Q_INIT \<rparr>),
    name_bytes rdata # qnames, alias_seen q rdata)"
  using assms by (simp add: process_cname_def add_to_qname_chain_ok register_alias_eq)

lemma cname_followed:
  assumes "ok_aliases q" "valid_name rdata" "valid_name n" "list_all valid_name qnames" "qnames \<noteq> []"
    "canon (hd qnames) = canon n" "qc_type_h q \<noteq> ns_t_cname"
  shows "process_cname_dname_responses n ns_t_cname rdata q qnames = Some (VAL_NO_ERROR,
    (with_alias q rdata)\<lparr> qc_state := (if alias_seen q rdata then Q_REFERRAL_ERROR else Q_INIT) \<rparr>,
    name_bytes rdata # qnames, alias_seen q rdata)"
proof -
  have "valid_name (hd qnames)" using assms(4,5) by (cases qnames) auto
  with assms show ?thesis
    by (simp add: process_cname_dname_responses_def process_cname_eq nm.eq_key valid_name_not_Nil)
      (simp add: with_alias_def Let_def)
qed

lemma name_eq_encodes:
  assumes "encodes m xs" "encodes n ys"
  shows "name_eq m n = Some (cname xs = cname ys)"
  using name_eq_valid [OF encodes_valid [OF assms(1)] encodes_valid [OF assms(2)]] canon_eq_iff [OF assms] by simp

lemma name_bytes_encodes: "encodes n ls \<Longrightarrow> name_bytes n = enc ls"
  by (auto simp: name_bytes_def wire_name_length_encodes elim!: encodesE)

lemma enc_under: "length (enc (under xs ys @ zs)) = length (encl (under xs ys)) + length (enc zs)"
  by (simp add: enc_append)

lemma wf_name_under:
  assumes "wf_name xs" "wf_name zs" "length (enc (under xs ys @ zs)) \<le> NS_MAXCDNAME"
  shows "wf_name (under xs ys @ zs)"
  using assms by (auto simp: wf_name_def under_def list_all_iff dest: in_set_takeD)

lemma dname_followed:
  assumes "ok_aliases q" "qnames \<noteq> []" "encodes (hd qnames) xs" "encodes n ys" "encodes rdata zs"
    "subname xs ys" "length ys < length xs" "qc_type_h q \<noteq> ns_t_dname"
  shows "process_cname_dname_responses n ns_t_dname rdata q qnames = Some (VAL_NO_ERROR,
    (if NS_MAXCDNAME < length (enc (under xs ys @ zs)) then (q\<lparr> qc_state := Q_REFERRAL_ERROR \<rparr>, qnames, True)
     else if alias_seen q n then (with_alias q n, enc ys # qnames, True)
     else ((with_alias q n)\<lparr> qc_state := Q_INIT \<rparr>, enc (under xs ys @ zs) # enc ys # qnames, False)))"
proof -
  obtain t where hd: "hd qnames = enc xs @ t" "wf_name xs" using assms(3) by (rule encodesE)
  obtain t' where rd: "rdata = enc zs @ t'" "wf_name zs" using assms(5) by (rule encodesE)
  have ne: "cname xs \<noteq> cname ys" using assms(7) cname_eq_length [of xs ys] by auto
  have off: "namename (hd qnames) n = Some (Some (length (encl (under xs ys))))"
    using namename_encodes [OF assms(3,4)] assms(6) by simp
  have pos: "0 < length (encl (under xs ys))"
    using assms(7) by (cases xs) (auto simp: under_def Suc_diff_le)
  have split: "enc xs = encl (under xs ys) @ enc (drop (length xs - length ys) xs)"
    by (simp add: under_def flip: enc_append)
  have front: "seg (hd qnames) 0 (length (encl (under xs ys))) = Some (encl (under xs ys))"
    unfolding hd split by (simp add: seg_full)
  have target: "seg rdata 0 (length (enc zs)) = Some (enc zs)" by (simp add: rd seg_full)
  have len: "wire_name_length rdata = Some (length (enc zs))" by (rule wire_name_length_encodes [OF assms(5)])
  note n = encodes_valid [OF assms(4)]
  have chain: "add_to_qname_chain qs (encl (under xs ys) @ enc zs) = Some (VAL_NO_ERROR, enc (under xs ys @ zs) # qs)"
    if "length (enc (under xs ys @ zs)) \<le> NS_MAXCDNAME" for qs
  proof -
    have e: "encodes (enc (under xs ys @ zs)) (under xs ys @ zs)"
      by (rule encodes_enc(2) [OF wf_name_under [OF hd(2) rd(2) that]])
    show ?thesis
      using add_to_qname_chain_ok [OF encodes_valid [OF e], of qs] name_bytes_encodes [OF e] by (simp add: enc_append)
  qed
  show ?thesis
    using assms(1,2,8) off pos front target len ne chain n name_bytes_encodes [OF assms(4)]
      valid_name_not_Nil [OF n] valid_name_not_Nil [OF encodes_valid [OF assms(5)]]
    by (simp add: process_cname_dname_responses_def process_dname_def name_eq_encodes [OF assms(3,4)] register_alias_eq
        add_to_qname_chain_ok not_less enc_append)
qed

text \<open>
  Past twelve registered names nothing is registered and nothing is refused: a chain goes on as long as the
  records it is read from, and a name that comes back is not noticed.
\<close>

lemma alias_bound_not_enforced:
  assumes "ok_aliases q" "11 < length (di_queries (referral_block q))" "\<not> alias_seen q rdata"
    "valid_name rdata" "valid_name n" "list_all valid_name qnames" "qnames \<noteq> []"
    "canon (hd qnames) = canon n" "qc_type_h q \<noteq> ns_t_cname"
  shows "\<exists>q'. process_cname_dname_responses n ns_t_cname rdata q qnames = Some (VAL_NO_ERROR, q', name_bytes rdata # qnames, False) \<and>
    qc_state q' = Q_INIT \<and> di_queries (referral_block q') = di_queries (referral_block q)"
  using cname_followed [OF assms(1,4-9)] assms(2,3) by (simp add: with_alias_def Let_def referral_block_def)

subsection \<open>Zone cuts\<close>

lemma closer_zonecut_encodes:
  assumes "encodes (rrs_name_n r) xs" "encodes zonecut_n zs" "rrs_zonecut_n r = [] \<or> encodes (rrs_zonecut_n r) ys"
  shows "closer_zonecut r zonecut_n = Some (subname xs zs \<and> rrs_zonecut_n r \<noteq> [] \<and> subname zs ys)"
  using namename_encodes [OF assms(1,2)] namename_encodes [OF assms(2)] assms(3)
  by (auto simp: closer_zonecut_def)

lemma fix_zonecut_eq:
  assumes "encodes zonecut_n zs" "\<forall>r\<in>set rs. valid_name (rrs_name_n r) \<and> (rrs_zonecut_n r = [] \<or> valid_name (rrs_zonecut_n r))"
  shows "fix_zonecut_in_rrset rs zonecut_n = Some (map (\<lambda>r. if closer_zonecut r zonecut_n = Some True
    then r\<lparr> rrs_zonecut_n := enc zs \<rparr> else r) rs)"
  using assms(2)
proof (induction rs)
  case (Cons r rs)
  obtain t where z: "zonecut_n = enc zs @ t" "wf_name zs" using assms(1) by (rule encodesE)
  from Cons.prems obtain xs ys where "encodes (rrs_name_n r) xs" "rrs_zonecut_n r = [] \<or> encodes (rrs_zonecut_n r) ys"
    by (auto simp: valid_name_def)
  then obtain b where "closer_zonecut r zonecut_n = Some b"
    using closer_zonecut_encodes [OF _ assms(1)] by blast
  with Cons show ?case
    by (simp add: wire_name_length_encodes [OF assms(1)]) (simp add: z seg_full)
qed simp

text \<open>The cut of a set moves only towards the owner of the set, and never past it.\<close>

lemma fix_zonecut_closer:
  assumes "encodes zonecut_n zs" "encodes (rrs_name_n r) xs" "encodes (rrs_zonecut_n r) ys" "subname xs ys"
  shows "\<exists>r' ys'. fix_zonecut_in_rrset [r] zonecut_n = Some [r'] \<and> encodes (rrs_zonecut_n r') ys' \<and>
    subname xs ys' \<and> length ys \<le> length ys' \<and> rrs_data r' = rrs_data r \<and> rrs_name_n r' = rrs_name_n r"
proof -
  have f: "fix_zonecut_in_rrset [r] zonecut_n = Some [if closer_zonecut r zonecut_n = Some True
    then r\<lparr> rrs_zonecut_n := enc zs \<rparr> else r]"
    using fix_zonecut_eq [OF assms(1), of "[r]"] encodes_valid [OF assms(2)] encodes_valid [OF assms(3)] by simp
  have c: "closer_zonecut r zonecut_n = Some (subname xs zs \<and> rrs_zonecut_n r \<noteq> [] \<and> subname zs ys)"
    by (rule closer_zonecut_encodes [OF assms(2,1)]) (use assms(3) in simp)
  show ?thesis
  proof (cases "subname xs zs \<and> rrs_zonecut_n r \<noteq> [] \<and> subname zs ys")
    case True
    have "wf_name zs" using assms(1) by (rule encodesE)
    with True f c show ?thesis
      by (intro exI [of _ "r\<lparr> rrs_zonecut_n := enc zs \<rparr>"] exI [of _ zs]) (auto simp: subname_def)
  next
    case False
    with f c assms(3,4) show ?thesis by (intro exI [of _ r] exI [of _ ys]) auto
  qed
qed

subsection \<open>Name servers\<close>

text \<open>\<open>extract_glue_from_rdata\<close>. An address is its bytes: four of them are \<open>AF_INET\<close>, sixteen \<open>AF_INET6\<close>, on port 53.\<close>

definition is_address :: "rrset_rr \<Rightarrow> bool" where
  "is_address rr \<longleftrightarrow> length (rr_rdata rr) = 4 \<or> length (rr_rdata rr) = 16"

fun extract_glue_from_rdata :: "rrset_rr list \<Rightarrow> name_server \<Rightarrow> name_server" where
  "extract_glue_from_rdata [] ns = ns"
| "extract_glue_from_rdata (rr # rrs) ns =
     (if \<not> is_address rr then extract_glue_from_rdata rrs ns
      else extract_glue_from_rdata rrs (ns\<lparr> ns_address := ns_address ns @ [rr_rdata rr] \<rparr>))"

abbreviation SR_QUERY_RECURSE :: "64 word" where "SR_QUERY_RECURSE \<equiv> 2"
abbreviation SR_QUERY_DEFAULT :: "64 word" where "SR_QUERY_DEFAULT \<equiv> 2"
abbreviation SR_QUERY_DEBUG :: "64 word" where "SR_QUERY_DEBUG \<equiv> 1"
abbreviation SR_CRED_NONAUTH :: byte where "SR_CRED_NONAUTH \<equiv> 7"

text \<open>The name servers of one set, recursion disabled, in the order of the records.\<close>

definition create_name_server :: name_server where
  "create_name_server = \<lparr> ns_name_n = [], ns_options = SR_QUERY_DEFAULT OR SR_QUERY_DEBUG, ns_address = [] \<rparr>"

fun servers_of_rrs :: "rrset_rr list \<Rightarrow> name_server list option" where
  "servers_of_rrs [] = Some []"
| "servers_of_rrs (rr # rrs) = do {
     name_len \<leftarrow> wire_name_length (rr_rdata rr);
     name \<leftarrow> seg (rr_rdata rr) 0 name_len;
     rest \<leftarrow> servers_of_rrs rrs;
     let ns = create_name_server\<lparr> ns_name_n := name \<rparr>;
     Some ((if ns_options ns AND SR_QUERY_RECURSE \<noteq> 0
            then ns\<lparr> ns_options := ns_options ns XOR SR_QUERY_RECURSE \<rparr> else ns) # rest)
   }"

fun servers_of_zone :: "byte list \<Rightarrow> rrset_rec list \<Rightarrow> byte \<Rightarrow> name_server list \<Rightarrow>
    (byte \<times> name_server list) option" where
  "servers_of_zone zone_name [] ns_cred ns_list = Some (ns_cred, ns_list)"
| "servers_of_zone zone_name (rset # sets) ns_cred ns_list = do {
     b \<leftarrow> sc_and (Some (rrs_type_h rset = ns_t_ns)) (name_eq zone_name (rrs_name_n rset));
     if b then do {
       new \<leftarrow> servers_of_rrs (rrs_data rset);
       servers_of_zone zone_name sets
         (if ns_cred = SR_CRED_UNSET \<or> rrs_cred rset < ns_cred then rrs_cred rset else ns_cred) (ns_list @ new)
     }
     else servers_of_zone zone_name sets ns_cred ns_list
   }"

text \<open>The addresses: a set gives its addresses to the first server with the name of its owner.\<close>

fun glue_first :: "rrset_rec \<Rightarrow> name_server list \<Rightarrow> name_server list option" where
  "glue_first rset [] = Some []"
| "glue_first rset (ns # nss) = do {
     b \<leftarrow> name_eq (rrs_name_n rset) (ns_name_n ns);
     if b then Some (extract_glue_from_rdata (rrs_data rset) ns # nss)
     else do { rest \<leftarrow> glue_first rset nss; Some (ns # rest) }
   }"

fun glue_sets :: "bool \<Rightarrow> bool \<Rightarrow> byte \<Rightarrow> rrset_rec list \<Rightarrow> name_server list \<Rightarrow> name_server list option" where
  "glue_sets ip4 ip6 ns_cred [] ns_list = Some ns_list"
| "glue_sets ip4 ip6 ns_cred (rset # sets) ns_list =
     (if (ip4 \<and> rrs_type_h rset = ns_t_a \<or> ip6 \<and> rrs_type_h rset = ns_t_aaaa) \<and>
         \<not> (ns_cred < SR_CRED_NONAUTH \<and> SR_CRED_NONAUTH < rrs_cred rset)
      then do { nss \<leftarrow> glue_first rset ns_list; glue_sets ip4 ip6 ns_cred sets nss }
      else glue_sets ip4 ip6 ns_cred sets ns_list)"

text \<open>\<open>res_zi_unverified_ns_list\<close>: \<open>*ns_list\<close> and \<open>*pending_glue\<close>, the servers with and without an address.\<close>

definition res_zi_unverified_ns_list :: "bool \<Rightarrow> bool \<Rightarrow> byte list \<Rightarrow> rrset_rec list \<Rightarrow>
    (name_server list \<times> name_server list) option" where
  "res_zi_unverified_ns_list ip4 ip6 zone_name unchecked_zone_info = do {
     (ns_cred, ns_list) \<leftarrow> servers_of_zone zone_name unchecked_zone_info SR_CRED_UNSET [];
     nss \<leftarrow> glue_sets ip4 ip6 ns_cred unchecked_zone_info ns_list;
     Some (filter (\<lambda>ns. ns_address ns \<noteq> []) nss, filter (\<lambda>ns. ns_address ns = []) nss)
   }"

text \<open>What the options and addresses of the context decide; \<open>proto\<close> is \<open>g_opt->proto\<close>, \<open>None\<close> without options.\<close>

record net_context =
  g_proto :: "int option"
  have_ipv4 :: bool
  have_ipv6 :: bool
  root_ns :: "name_server list"

abbreviation VAL_POL_GOPT_PROTO_IPV4 :: int where "VAL_POL_GOPT_PROTO_IPV4 \<equiv> 1"
abbreviation VAL_POL_GOPT_PROTO_IPV6 :: int where "VAL_POL_GOPT_PROTO_IPV6 \<equiv> 2"


text \<open>\<open>retval = 0\<close> is overwritten by the line after it, so \<open>proto\<close> decides nothing.\<close>

definition val_context_ip4 :: "net_context \<Rightarrow> bool" where
  "val_context_ip4 ctx = (let retval = g_proto ctx \<noteq> Some VAL_POL_GOPT_PROTO_IPV6; retval = have_ipv4 ctx in retval)"

definition val_context_ip6 :: "net_context \<Rightarrow> bool" where
  "val_context_ip6 ctx = (let retval = g_proto ctx \<noteq> Some VAL_POL_GOPT_PROTO_IPV4; retval = have_ipv6 ctx in retval)"

definition clone_ns :: "name_server \<Rightarrow> name_server option" where
  "clone_ns ns = do {
     name_len \<leftarrow> wire_name_length (ns_name_n ns);
     name \<leftarrow> seg (ns_name_n ns) 0 name_len;
     Some \<lparr> ns_name_n = name, ns_options = ns_options ns, ns_address = ns_address ns \<rparr>
   }"

fun clone_ns_list :: "name_server list \<Rightarrow> name_server list option" where
  "clone_ns_list [] = Some []"
| "clone_ns_list (ns # nss) = do { c \<leftarrow> clone_ns ns; cs \<leftarrow> clone_ns_list nss; Some (c # cs) }"

subsection \<open>Referrals\<close>

text \<open>
  \<open>bootstrap_referral\<close>. The query is at the address \<open>a\<close> of the cache; the answer is the name servers, the chain of
  queries, the cache and the policies. Queries for glue come last and allocate at \<open>fresh4\<close> and \<open>fresh6\<close>.
\<close>

type_synonym net_result = "(val_ret \<times> name_server list \<times> queries_for_query list \<times> query_cache \<times> int e_pol) option"

definition put_query :: "query_cache \<Rightarrow> nat \<Rightarrow> val_query_chain \<Rightarrow> query_cache" where
  "put_query c a q = c\<lparr> q_heap := (q_heap c)(a \<mapsto> q) \<rparr>"

definition glue_query :: "openssl \<Rightarrow> int \<Rightarrow> int option \<Rightarrow> nat \<Rightarrow> nat \<Rightarrow> u16 \<Rightarrow> u16 \<Rightarrow> byte list \<Rightarrow> u32 \<Rightarrow>
    queries_for_query list \<times> query_cache \<times> int e_pol \<Rightarrow>
    (val_ret \<times> queries_for_query list \<times> query_cache \<times> int e_pol) option" where
  "glue_query C now mr fresh a wait type_h name_n fl st = (case st of (queries, c, ctx) \<Rightarrow> do {
     q \<leftarrow> q_heap c a;
     let c' = put_query c a (q\<lparr> qc_state := qc_state q OR wait \<rparr>);
     r \<leftarrow> add_to_qfq_chain C now mr fresh ctx c' queries name_n type_h 1 fl;
     Some (case r of Inl e \<Rightarrow> (e, queries, c', ctx)
       | Inr (_, queries', c'', ctx') \<Rightarrow> (VAL_NO_ERROR, queries', c'', ctx'))
   })"

definition fetch_glue :: "openssl \<Rightarrow> net_context \<Rightarrow> int \<Rightarrow> int option \<Rightarrow> nat \<Rightarrow> nat \<Rightarrow> nat \<Rightarrow> byte list \<Rightarrow> u32 \<Rightarrow>
    queries_for_query list \<times> query_cache \<times> int e_pol \<Rightarrow>
    (val_ret \<times> queries_for_query list \<times> query_cache \<times> int e_pol) option" where
  "fetch_glue C net now mr fresh4 fresh6 a name_n fl st = do {
     (ret, st') \<leftarrow> (if val_context_ip4 net
       then glue_query C now mr fresh4 a Q_WAIT_FOR_A_GLUE ns_t_a name_n fl st else Some (VAL_NO_ERROR, st));
     if ret \<noteq> VAL_NO_ERROR then Some (ret, st')
     else if val_context_ip6 net
     then glue_query C now mr fresh6 a Q_WAIT_FOR_AAAA_GLUE ns_t_aaaa name_n fl st' else Some (VAL_NO_ERROR, st')
   }"

definition bootstrap_referral :: "openssl \<Rightarrow> net_context \<Rightarrow> int \<Rightarrow> int option \<Rightarrow> nat \<Rightarrow> nat \<Rightarrow> int e_pol \<Rightarrow> query_cache \<Rightarrow>
    queries_for_query list \<Rightarrow> nat \<Rightarrow> byte list \<Rightarrow> rrset_rec list \<Rightarrow> net_result" where
  "bootstrap_referral C net now mr fresh4 fresh6 ctx c queries a referral_zone_n learned_zones = do {
     q \<leftarrow> q_heap c a;
     root \<leftarrow> name_eq referral_zone_n [0];
     if root then
       (if root_ns net = [] then
          Some (VAL_NO_ERROR, [], queries, put_query c a (q\<lparr> qc_state := Q_REFERRAL_ERROR \<rparr>), ctx)
        else do {
          nss \<leftarrow> clone_ns_list (root_ns net);
          Some (VAL_NO_ERROR, nss, queries,
            put_query c a (q\<lparr> qc_state := Q_INIT, qc_flags := qc_flags q OR VAL_QUERY_IS_ITERATING \<rparr>), ctx)
        })
     else do {
       (nss, pending) \<leftarrow> res_zi_unverified_ns_list (val_context_ip4 net) (val_context_ip6 net) referral_zone_n learned_zones;
       case pending of
         [] \<Rightarrow> Some (VAL_NO_ERROR, nss, queries,
           if nss \<noteq> [] then put_query c a (q\<lparr> qc_state := Q_INIT \<rparr>) else c, ctx)
       | p # ps \<Rightarrow>
           if qc_state q AND Q_WAIT_FOR_GLUE \<noteq> 0 \<and> nss = [] then
             Some (VAL_NO_ERROR, [], queries, put_query c a (q\<lparr> qc_state := Q_REFERRAL_ERROR \<rparr>), ctx)
           else do {
             len \<leftarrow> wire_name_length referral_zone_n;
             zonecut \<leftarrow> seg referral_zone_n 0 len;
             let d = (referral_block q)\<lparr> di_cur_pending_glue_ns := [], di_pending_glue_ns := [],
               di_saved_zonecut_n := zonecut \<rparr>;
             if nss \<noteq> [] then
               Some (VAL_NO_ERROR, nss, queries,
                 put_query c a (q\<lparr> qc_referral := Some (d\<lparr> di_pending_glue_ns := p # ps \<rparr>), qc_state := Q_INIT \<rparr>), ctx)
             else do {
               cyclic \<leftarrow> name_eq (ns_name_n p) (qc_name_n q);
               if cyclic then
                 (if root_ns net \<noteq> [] then do {
                    nss' \<leftarrow> clone_ns_list (root_ns net);
                    Some (VAL_NO_ERROR, nss', queries, put_query c a (q\<lparr> qc_referral := Some d, qc_state := Q_INIT,
                      qc_flags := qc_flags q OR VAL_QUERY_IS_ITERATING \<rparr>), ctx)
                  } else Some (VAL_NO_ERROR, [], queries, put_query c a (q\<lparr> qc_referral := Some d \<rparr>), ctx))
               else do {
                 (ret, queries', c', ctx') \<leftarrow> fetch_glue C net now mr fresh4 fresh6 a (ns_name_n p)
                   (qc_flags q OR VAL_QUERY_ITERATE OR (VAL_QUERY_GLUE_REQUEST OR VAL_QUERY_DONT_VALIDATE))
                   (queries, put_query c a (q\<lparr> qc_referral := Some (d\<lparr> di_cur_pending_glue_ns := [p],
                      di_pending_glue_ns := ps \<rparr>), qc_state := Q_INIT \<rparr>), ctx);
                 Some (ret, [], queries', c', ctx')
               }
             }
           }
     }
   }"

subsection \<open>The name servers of a zone\<close>

definition wants_glue :: "bool \<Rightarrow> bool \<Rightarrow> rrset_rec \<Rightarrow> bool" where
  "wants_glue ip4 ip6 rs \<longleftrightarrow> ip4 \<and> rrs_type_h rs = ns_t_a \<or> ip6 \<and> rrs_type_h rs = ns_t_aaaa"

definition glue :: "rrset_rec \<Rightarrow> byte list list" where
  "glue rs = map rr_rdata (filter is_address (rrs_data rs))"

lemma extract_glue_eq:
  "extract_glue_from_rdata rrs ns = ns\<lparr> ns_address := ns_address ns @ map rr_rdata (filter is_address rrs) \<rparr>"
  by (induction rrs arbitrary: ns) simp_all

text \<open>How a server grows: its addresses are kept, and every new one comes from a set of its name.\<close>

definition grown :: "(rrset_rec \<Rightarrow> bool) \<Rightarrow> name_server \<Rightarrow> name_server \<Rightarrow> bool" where
  "grown P ns ns' \<longleftrightarrow> ns_name_n ns' = ns_name_n ns \<and> ns_options ns' = ns_options ns \<and>
     set (ns_address ns) \<subseteq> set (ns_address ns') \<and>
     (\<forall>ad\<in>set (ns_address ns') - set (ns_address ns). \<exists>rs. P rs \<and> canon (rrs_name_n rs) = canon (ns_name_n ns) \<and> ad \<in> set (glue rs))"

lemma grown_refl [simp]: "grown P ns ns"
  by (simp add: grown_def)

lemma grown_trans:
  assumes "grown P a b" "grown Q b c"
  shows "grown (\<lambda>rs. P rs \<or> Q rs) a c"
proof -
  have "\<exists>rs. (P rs \<or> Q rs) \<and> canon (rrs_name_n rs) = canon (ns_name_n a) \<and> ad \<in> set (glue rs)"
    if "ad \<in> set (ns_address c)" "ad \<notin> set (ns_address a)" for ad
    using assms that unfolding grown_def by (cases "ad \<in> set (ns_address b)") fastforce+
  then show ?thesis using assms by (auto simp: grown_def)
qed

definition named_servers :: "name_server list \<Rightarrow> bool" where
  "named_servers nss \<longleftrightarrow> (\<forall>ns\<in>set nss. valid_name (ns_name_n ns))"

lemma grown_named: "list_all2 (grown P) nss nss' \<Longrightarrow> named_servers nss \<Longrightarrow> named_servers nss'"
  unfolding named_servers_def by (induction rule: list_all2_induct) (auto simp: grown_def)

lemma list_all2_refl_grown: "list_all2 (grown P) nss nss"
  by (simp add: list_all2_same)

text \<open>The interface of a round that hands addresses out, whatever the order in which it does.\<close>

lemma glue_first_grows:
  assumes "valid_name (rrs_name_n rs)" "named_servers nss"
  shows "\<exists>nss'. glue_first rs nss = Some nss' \<and> list_all2 (grown (\<lambda>x. x = rs)) nss nss' \<and>
    (canon (rrs_name_n rs) \<in> (canon \<circ> ns_name_n) ` set nss \<longrightarrow>
     (\<exists>ns\<in>set nss'. canon (ns_name_n ns) = canon (rrs_name_n rs) \<and> set (glue rs) \<subseteq> set (ns_address ns)))"
  using assms(2)
proof (induction nss)
  case (Cons ns nss)
  have v: "valid_name (ns_name_n ns)" "named_servers nss" using Cons.prems by (simp_all add: named_servers_def)
  have eq: "name_eq (rrs_name_n rs) (ns_name_n ns) = Some (canon (rrs_name_n rs) = canon (ns_name_n ns))"
    using assms(1) v(1) by (rule nm.eq_key)
  show ?case
  proof (cases "canon (rrs_name_n rs) = canon (ns_name_n ns)")
    case True
    then have "grown (\<lambda>x. x = rs) ns (extract_glue_from_rdata (rrs_data rs) ns)"
      by (auto simp: grown_def extract_glue_eq glue_def)
    with eq True show ?thesis by (auto simp: list_all2_refl_grown extract_glue_eq glue_def)
  next
    case False
    with Cons.IH [OF v(2)] eq show ?thesis by auto
  qed
qed simp

lemma grown_mono: "(\<And>x. P x \<Longrightarrow> Q x) \<Longrightarrow> list_all2 (grown P) nss nss' \<Longrightarrow> list_all2 (grown Q) nss nss'"
  by (erule list_all2_mono) (unfold grown_def, blast)

lemma list_all2_grown_trans:
  "list_all2 (grown P) a b \<Longrightarrow> list_all2 (grown Q) b c \<Longrightarrow> list_all2 (grown (\<lambda>rs. P rs \<or> Q rs)) a c"
  by (rule list_all2_trans [of "grown P" "grown Q" "grown (\<lambda>rs. P rs \<or> Q rs)"]) (auto intro: grown_trans)

lemma grown_canon: "list_all2 (grown P) nss nss' \<Longrightarrow> (canon \<circ> ns_name_n) ` set nss' = (canon \<circ> ns_name_n) ` set nss"
  by (induction rule: list_all2_induct) (auto simp: grown_def)

lemma grown_covers:
  assumes "list_all2 (grown P) nss nss'" "ns \<in> set nss"
  shows "\<exists>ns'\<in>set nss'. ns_name_n ns' = ns_name_n ns \<and> set (ns_address ns) \<subseteq> set (ns_address ns')"
  using assms by (induction rule: list_all2_induct) (auto simp: grown_def)

definition usable_glue :: "bool \<Rightarrow> bool \<Rightarrow> byte \<Rightarrow> rrset_rec \<Rightarrow> bool" where
  "usable_glue ip4 ip6 ns_cred rs \<longleftrightarrow> wants_glue ip4 ip6 rs \<and> \<not> (ns_cred < SR_CRED_NONAUTH \<and> SR_CRED_NONAUTH < rrs_cred rs)"

lemma glue_sets_grows:
  assumes "list_all ok_rrset sets" "named_servers nss"
  shows "\<exists>nss'. glue_sets ip4 ip6 cred sets nss = Some nss' \<and>
    list_all2 (grown (\<lambda>x. x \<in> set sets \<and> wants_glue ip4 ip6 x)) nss nss' \<and>
    (\<forall>rs\<in>set sets. usable_glue ip4 ip6 cred rs \<and> canon (rrs_name_n rs) \<in> (canon \<circ> ns_name_n) ` set nss \<longrightarrow>
      (\<exists>ns\<in>set nss'. canon (ns_name_n ns) = canon (rrs_name_n rs) \<and> set (glue rs) \<subseteq> set (ns_address ns)))"
  using assms
proof (induction sets arbitrary: nss)
  case Nil
  then show ?case by (simp add: list_all2_refl_grown)
next
  case (Cons rs sets)
  have v: "valid_name (rrs_name_n rs)" "list_all ok_rrset sets" using Cons.prems(1) by (simp_all add: ok_rrset_def [of rs])
  show ?case
  proof (cases "usable_glue ip4 ip6 cred rs")
    case True
    from glue_first_grows [OF v(1) Cons.prems(2)] obtain mid where mid: "glue_first rs nss = Some mid"
      "list_all2 (grown (\<lambda>x. x = rs)) nss mid"
      "canon (rrs_name_n rs) \<in> (canon \<circ> ns_name_n) ` set nss \<longrightarrow>
       (\<exists>ns\<in>set mid. canon (ns_name_n ns) = canon (rrs_name_n rs) \<and> set (glue rs) \<subseteq> set (ns_address ns))" by blast
    from Cons.IH [OF v(2) grown_named [OF mid(2) Cons.prems(2)]] obtain nss' where n:
      "glue_sets ip4 ip6 cred sets mid = Some nss'"
      "list_all2 (grown (\<lambda>x. x \<in> set sets \<and> wants_glue ip4 ip6 x)) mid nss'"
      "\<forall>rs\<in>set sets. usable_glue ip4 ip6 cred rs \<and> canon (rrs_name_n rs) \<in> (canon \<circ> ns_name_n) ` set mid \<longrightarrow>
      (\<exists>ns\<in>set nss'. canon (ns_name_n ns) = canon (rrs_name_n rs) \<and> set (glue rs) \<subseteq> set (ns_address ns))" by blast
    have "glue_sets ip4 ip6 cred (rs # sets) nss = Some nss'"
      using True mid(1) n(1) by (simp add: usable_glue_def wants_glue_def)
    moreover have "list_all2 (grown (\<lambda>x. x \<in> set (rs # sets) \<and> wants_glue ip4 ip6 x)) nss nss'"
      by (rule grown_mono [OF _ list_all2_grown_trans [OF mid(2) n(2)]]) (use True in \<open>auto simp: usable_glue_def\<close>)
    moreover have "\<exists>ns\<in>set nss'. canon (ns_name_n ns) = canon (rrs_name_n rs) \<and> set (glue rs) \<subseteq> set (ns_address ns)"
      if "canon (rrs_name_n rs) \<in> (canon \<circ> ns_name_n) ` set nss"
    proof -
      from mid(3) that obtain ns where "ns \<in> set mid" "canon (ns_name_n ns) = canon (rrs_name_n rs)"
        "set (glue rs) \<subseteq> set (ns_address ns)" by blast
      with grown_covers [OF n(2) this(1)] show ?thesis by (metis subset_trans)
    qed
    ultimately show ?thesis using n(3) grown_canon [OF mid(2)] by auto
  next
    case False
    then have run: "glue_sets ip4 ip6 cred (rs # sets) nss = glue_sets ip4 ip6 cred sets nss"
      by (auto simp: usable_glue_def wants_glue_def)
    from Cons.IH [OF v(2) Cons.prems(2)] obtain nss' where n:
      "glue_sets ip4 ip6 cred sets nss = Some nss'"
      "list_all2 (grown (\<lambda>x. x \<in> set sets \<and> wants_glue ip4 ip6 x)) nss nss'"
      "\<forall>rs\<in>set sets. usable_glue ip4 ip6 cred rs \<and> canon (rrs_name_n rs) \<in> (canon \<circ> ns_name_n) ` set nss \<longrightarrow>
      (\<exists>ns\<in>set nss'. canon (ns_name_n ns) = canon (rrs_name_n rs) \<and> set (glue rs) \<subseteq> set (ns_address ns))" by blast
    have "list_all2 (grown (\<lambda>x. x \<in> set (rs # sets) \<and> wants_glue ip4 ip6 x)) nss nss'"
      by (rule grown_mono [OF _ n(2)]) auto
    with run n(1,3) False show ?thesis by auto
  qed
qed


definition zone_ns :: "byte list \<Rightarrow> rrset_rec list \<Rightarrow> byte list list" where
  "zone_ns zone sets = map rr_rdata (concat (map rrs_data
     (filter (\<lambda>rs. rrs_type_h rs = ns_t_ns \<and> canon zone = canon (rrs_name_n rs)) sets)))"

definition fresh_server :: "byte list \<Rightarrow> name_server" where
  "fresh_server n = \<lparr> ns_name_n = name_bytes n, ns_options = SR_QUERY_DEBUG, ns_address = [] \<rparr>"

lemma servers_of_rrs_eq:
  "\<forall>rr\<in>set rrs. valid_name (rr_rdata rr) \<Longrightarrow> servers_of_rrs rrs = Some (map (fresh_server \<circ> rr_rdata) rrs)"
proof (induction rrs)
  case (Cons rr rrs)
  then have "valid_name (rr_rdata rr)" by simp
  then obtain len where "wire_name_length (rr_rdata rr) = Some len" "seg (rr_rdata rr) 0 len = Some (name_bytes (rr_rdata rr))"
    by (rule name_bytes_seg)
  with Cons show ?case by (simp add: create_name_server_def fresh_server_def Let_def)
qed simp

lemma servers_of_zone_eq:
  assumes "valid_name zone" "list_all ok_rrset sets" "\<forall>n\<in>set (zone_ns zone sets). valid_name n"
  shows "\<exists>cred'. servers_of_zone zone sets cred nss = Some (cred', nss @ map fresh_server (zone_ns zone sets))"
  using assms(2,3)
proof (induction sets arbitrary: cred nss)
  case (Cons rs sets)
  have v: "valid_name (rrs_name_n rs)" "list_all ok_rrset sets" using Cons.prems(1) by (simp_all add: ok_rrset_def [of rs])
  have IH: "\<exists>cred'. servers_of_zone zone sets cred nss = Some (cred', nss @ map fresh_server (zone_ns zone sets))" for cred nss
  proof (rule Cons.IH [OF v(2)])
    have "set (zone_ns zone sets) \<subseteq> set (zone_ns zone (rs # sets))" by (auto simp: zone_ns_def)
    with Cons.prems(2) show "\<forall>n\<in>set (zone_ns zone sets). valid_name n" by blast
  qed
  show ?case
  proof (cases "rrs_type_h rs = ns_t_ns \<and> canon zone = canon (rrs_name_n rs)")
    case True
    then have "\<forall>rr\<in>set (rrs_data rs). valid_name (rr_rdata rr)" using Cons.prems(2) by (auto simp: zone_ns_def)
    then have "servers_of_rrs (rrs_data rs) = Some (map (fresh_server \<circ> rr_rdata) (rrs_data rs))" by (rule servers_of_rrs_eq)
    moreover obtain cred' where "servers_of_zone zone sets
        (if cred = SR_CRED_UNSET \<or> rrs_cred rs < cred then rrs_cred rs else cred)
        (nss @ map (fresh_server \<circ> rr_rdata) (rrs_data rs)) =
      Some (cred', (nss @ map (fresh_server \<circ> rr_rdata) (rrs_data rs)) @ map fresh_server (zone_ns zone sets))"
      using IH by blast
    ultimately show ?thesis using True v(1) assms(1) by (simp add: nm.eq_key zone_ns_def)
  next
    case False
    with v(1) assms(1) have "servers_of_zone zone (rs # sets) cred nss = servers_of_zone zone sets cred nss"
      by (auto simp: nm.eq_key)
    moreover have "zone_ns zone (rs # sets) = zone_ns zone sets" using False by (auto simp: zone_ns_def)
    ultimately show ?thesis using IH by simp
  qed
qed (simp add: zone_ns_def)

text \<open>
  No credibility this program gives a set is above \<open>SR_CRED_NONAUTH\<close>, so the check that the addresses match the
  credibility of the name servers never refuses anything.
\<close>

lemma init_cred_le: "init_cred sec au it \<le> SR_CRED_NONAUTH"
  by (simp add: init_cred_def word_le_nat_alt)

lemma usable_glue_always: "rrs_cred rs \<le> SR_CRED_NONAUTH \<Longrightarrow> usable_glue ip4 ip6 cred rs = wants_glue ip4 ip6 rs"
  by (auto simp: usable_glue_def)

definition has_glue :: "bool \<Rightarrow> bool \<Rightarrow> rrset_rec list \<Rightarrow> name_server \<Rightarrow> bool" where
  "has_glue ip4 ip6 sets ns \<longleftrightarrow> (\<forall>ad\<in>set (ns_address ns). \<exists>rs\<in>set sets. wants_glue ip4 ip6 rs \<and>
     canon (rrs_name_n rs) = canon (ns_name_n ns) \<and> ad \<in> set (glue rs))"

lemma grown_has_glue:
  "list_all2 (grown (\<lambda>x. x \<in> set sets \<and> wants_glue ip4 ip6 x)) nss nss' \<Longrightarrow> \<forall>ns\<in>set nss. ns_address ns = [] \<Longrightarrow>
   \<forall>ns\<in>set nss'. has_glue ip4 ip6 sets ns"
  by (induction rule: list_all2_induct) (fastforce simp: grown_def has_glue_def)+

lemma grown_same: "list_all2 (grown P) nss nss' \<Longrightarrow> map (\<lambda>ns. (ns_name_n ns, ns_options ns)) nss' = map (\<lambda>ns. (ns_name_n ns, ns_options ns)) nss"
  by (induction rule: list_all2_induct) (auto simp: grown_def)

lemma name_servers_found:
  assumes "valid_name zone" "list_all ok_rrset sets" "\<forall>n\<in>set (zone_ns zone sets). valid_name n"
  obtains nss where
    "res_zi_unverified_ns_list ip4 ip6 zone sets =
      Some (filter (\<lambda>ns. ns_address ns \<noteq> []) nss, filter (\<lambda>ns. ns_address ns = []) nss)"
    "map ns_name_n nss = map name_bytes (zone_ns zone sets)" "\<forall>ns\<in>set nss. ns_options ns AND SR_QUERY_RECURSE = 0"
    "\<forall>ns\<in>set nss. has_glue ip4 ip6 sets ns"
    "\<And>rs. rs \<in> set sets \<Longrightarrow> wants_glue ip4 ip6 rs \<Longrightarrow> rrs_cred rs \<le> SR_CRED_NONAUTH \<Longrightarrow>
      canon (rrs_name_n rs) \<in> canon ` set (zone_ns zone sets) \<Longrightarrow>
      \<exists>ns\<in>set nss. canon (ns_name_n ns) = canon (rrs_name_n rs) \<and> set (glue rs) \<subseteq> set (ns_address ns)"
proof -
  let ?start = "map fresh_server (zone_ns zone sets)"
  from servers_of_zone_eq [OF assms, of SR_CRED_UNSET "[]"] obtain cred where
    z: "servers_of_zone zone sets SR_CRED_UNSET [] = Some (cred, ?start)" by auto
  have nm: "named_servers ?start" using assms(3) by (auto simp: named_servers_def fresh_server_def name_bytes_valid)
  from glue_sets_grows [OF assms(2) nm, of ip4 ip6 cred] obtain nss where
    n: "glue_sets ip4 ip6 cred sets ?start = Some nss"
    and g: "list_all2 (grown (\<lambda>x. x \<in> set sets \<and> wants_glue ip4 ip6 x)) ?start nss"
    and all: "\<forall>rs\<in>set sets. usable_glue ip4 ip6 cred rs \<and> canon (rrs_name_n rs) \<in> (canon \<circ> ns_name_n) ` set ?start \<longrightarrow>
      (\<exists>ns\<in>set nss. canon (ns_name_n ns) = canon (rrs_name_n rs) \<and> set (glue rs) \<subseteq> set (ns_address ns))" by blast
  have same: "map (\<lambda>ns. (ns_name_n ns, ns_options ns)) nss = map (\<lambda>n. (name_bytes n, SR_QUERY_DEBUG)) (zone_ns zone sets)"
    using grown_same [OF g] by (simp add: fresh_server_def comp_def)
  have names: "map ns_name_n nss = map name_bytes (zone_ns zone sets)"
    using arg_cong [OF same, of "map fst"] by (simp add: comp_def)
  have "map ns_options nss = map (\<lambda>_. SR_QUERY_DEBUG) (zone_ns zone sets)"
    using arg_cong [OF same, of "map snd"] by (simp add: comp_def)
  from arg_cong [OF this, of set] have opts: "\<forall>ns\<in>set nss. ns_options ns = SR_QUERY_DEBUG" by auto
  have img: "(canon \<circ> ns_name_n) ` set ?start = canon ` set (zone_ns zone sets)"
    using assms(3) by (force simp: fresh_server_def name_bytes_valid image_image)
  show ?thesis
  proof (rule that [OF _ names])
    show "res_zi_unverified_ns_list ip4 ip6 zone sets =
      Some (filter (\<lambda>ns. ns_address ns \<noteq> []) nss, filter (\<lambda>ns. ns_address ns = []) nss)"
      by (simp add: res_zi_unverified_ns_list_def z n)
    show "\<forall>ns\<in>set nss. ns_options ns AND SR_QUERY_RECURSE = 0" using opts by simp
    show "\<forall>ns\<in>set nss. has_glue ip4 ip6 sets ns" by (rule grown_has_glue [OF g]) (simp add: fresh_server_def)
  next
    fix rs
    assume "rs \<in> set sets" "wants_glue ip4 ip6 rs" "rrs_cred rs \<le> SR_CRED_NONAUTH"
      "canon (rrs_name_n rs) \<in> canon ` set (zone_ns zone sets)"
    with all img usable_glue_always [of rs ip4 ip6 cred]
    show "\<exists>ns\<in>set nss. canon (ns_name_n ns) = canon (rrs_name_n rs) \<and> set (glue rs) \<subseteq> set (ns_address ns)" by simp
  qed
qed


subsection \<open>A referral keeps the requests consistent\<close>

lemma put_query_step: "q_heap c a = Some q \<Longrightarrow> qc_refcount q' = qc_refcount q \<Longrightarrow> step C (c, cs) (put_query c a q', cs)"
  unfolding put_query_def by (rule step.work)

lemma put_query_reachable:
  "reachable C (c, cs) \<Longrightarrow> q_heap c a = Some q \<Longrightarrow> qc_refcount q' = qc_refcount q \<Longrightarrow> reachable C (put_query c a q', cs)"
  by (rule reachable.reach_step, assumption, rule put_query_step)

lemma put_query_dom: "q_heap c a = Some q \<Longrightarrow> dom (q_heap (put_query c a q')) = dom (q_heap c)"
  by (auto simp: put_query_def)

lemma check_in_qfq_chain_dom:
  "check_in_qfq_chain C now ctx h es i name_n type_h class_h fl = Some (r, h', ctx') \<Longrightarrow> dom h' = dom h"
proof (induction es arbitrary: i)
  case (Cons e es)
  then show ?case by (auto split: Option.bind_splits if_splits)
qed auto

lemma scan_queries_dom:
  "scan_queries now mr name_n type_h class_h fl front skipped rest h sticky = Some (found, l, h', st) \<Longrightarrow> dom h' \<subseteq> dom h"
proof (induction rest arbitrary: front skipped h sticky)
  case (Cons a rest)
  from Cons.prems obtain q where q: "h a = Some q" by (auto split: Option.bind_splits)
  show ?case
  proof (cases "qc_flags q AND VAL_QUERY_MARK_FOR_DELETION \<noteq> 0")
    case True
    with Cons q show ?thesis by (fastforce split: if_splits)
  next
    case False
    with q Cons show ?thesis by (fastforce simp: Let_def split: Option.bind_splits if_splits)
  qed
qed simp

lemma add_to_query_chain_dom:
  assumes "add_to_query_chain now mr fresh c name_n type_h class_h fl = Some (Inr (a, c'))"
  shows "dom (q_heap c') \<subseteq> insert fresh (dom (q_heap c))"
proof -
  from assms obtain found l h st where
    scan: "scan_queries now mr name_n type_h class_h fl [] [] (q_list c) (q_heap c) 0 = Some (found, l, h, st)"
    by (auto simp: add_to_query_chain_def split: if_splits Option.bind_splits)
  have "dom (q_heap c') \<subseteq> insert fresh (dom h)"
  proof (cases found)
    case None
    with assms scan show ?thesis by (auto simp: add_to_query_chain_def split: if_splits Option.bind_splits)
  next
    case (Some b)
    with assms scan show ?thesis by (auto simp: add_to_query_chain_def split: if_splits)
  qed
  with scan_queries_dom [OF scan] show ?thesis by blast
qed

lemma add_to_qfq_chain_dom:
  assumes "add_to_qfq_chain C now mr fresh ctx c es name_n type_h class_h fl = Some (Inr (k, es', c', ctx'))"
  shows "dom (q_heap c') \<subseteq> insert fresh (dom (q_heap c))"
proof -
  from assms obtain r h ctx1 where
    look: "check_in_qfq_chain C now ctx (q_heap c) es 0 name_n type_h class_h fl = Some (r, h, ctx1)"
    by (auto simp: add_to_qfq_chain_def split: if_splits Option.bind_splits)
  from check_in_qfq_chain_dom [OF look] have d: "dom h = dom (q_heap c)" .
  show ?thesis
  proof (cases r)
    case (Some i)
    with assms look d show ?thesis by (auto simp: add_to_qfq_chain_def split: if_splits)
  next
    case None
    with assms look obtain b c1 q where
      add: "add_to_query_chain now mr fresh (c\<lparr> q_heap := h \<rparr>) name_n type_h class_h fl = Some (Inr (b, c1))"
      and q: "q_heap c1 b = Some q" "c' = c1\<lparr> q_heap := (q_heap c1)(b \<mapsto> q\<lparr> qc_refcount := qc_refcount q + 1 \<rparr>) \<rparr>"
      by (auto simp: add_to_qfq_chain_def split: if_splits Option.bind_splits sum.splits)
    have "dom (q_heap c') = dom (q_heap c1)" using q by auto
    with add_to_query_chain_dom [OF add] d show ?thesis by simp
  qed
qed

lemma glue_query_reachable:
  assumes "glue_query C now mr fresh a wait type_h name_n fl (cs ! i, c, ctx) = Some (ret, queries, c', ctx')"
    and "reachable C (c, cs)" "i < length cs" "q_heap c fresh = None"
  shows "reachable C (c', cs[i := queries]) \<and> dom (q_heap c') \<subseteq> insert fresh (dom (q_heap c))"
proof -
  from assms(1) obtain q where q: "q_heap c a = Some q" by (auto simp: glue_query_def split: Option.bind_splits)
  with assms(1) obtain r where
    r: "add_to_qfq_chain C now mr fresh ctx (put_query c a (q\<lparr> qc_state := qc_state q OR wait \<rparr>)) (cs ! i) name_n type_h 1 fl = Some r"
    by (cases "add_to_qfq_chain C now mr fresh ctx (put_query c a (q\<lparr> qc_state := qc_state q OR wait \<rparr>)) (cs ! i) name_n type_h 1 fl")
      (auto simp: glue_query_def)
  let ?c = "put_query c a (q\<lparr> qc_state := qc_state q OR wait \<rparr>)"
  have reach: "reachable C (?c, cs)" by (rule put_query_reachable [OF assms(2) q]) simp
  have d: "dom (q_heap ?c) = dom (q_heap c)" by (rule put_query_dom [OF q])
  show ?thesis
  proof (cases r)
    case (Inl e)
    with assms(1,3) q r reach d show ?thesis by (auto simp: glue_query_def)
  next
    case (Inr z)
    obtain k es c2 ctx2 where z: "z = (k, es, c2, ctx2)" by (cases z)
    have "q_heap ?c fresh = None" using assms(4) d by auto
    with r Inr z have "step C (?c, cs) (c2, cs[i := es])" by (intro step.add_query [OF assms(3)]) auto
    with reach have "reachable C (c2, cs[i := es])" by (rule reachable.reach_step)
    moreover have "dom (q_heap c2) \<subseteq> insert fresh (dom (q_heap ?c))"
      by (rule add_to_qfq_chain_dom [OF r [unfolded Inr z]])
    ultimately show ?thesis using assms(1) q r Inr z d by (auto simp: glue_query_def)
  qed
qed

lemma fetch_glue_reachable:
  assumes "fetch_glue C net now mr fresh4 fresh6 a name_n fl (cs ! i, c, ctx) = Some (ret, queries, c', ctx')"
    and "reachable C (c, cs)" "i < length cs" "q_heap c fresh4 = None" "q_heap c fresh6 = None" "fresh4 \<noteq> fresh6"
  shows "reachable C (c', cs[i := queries]) \<and> dom (q_heap c') \<subseteq> {fresh4, fresh6} \<union> dom (q_heap c)"
proof -
  from assms(1) obtain ret1 es1 c1 ctx1 where first: "(if val_context_ip4 net
       then glue_query C now mr fresh4 a Q_WAIT_FOR_A_GLUE ns_t_a name_n fl (cs ! i, c, ctx)
       else Some (VAL_NO_ERROR, cs ! i, c, ctx)) = Some (ret1, es1, c1, ctx1)"
    by (auto simp: fetch_glue_def split: Option.bind_splits)
  have one: "reachable C (c1, cs[i := es1]) \<and> dom (q_heap c1) \<subseteq> insert fresh4 (dom (q_heap c))"
  proof (cases "val_context_ip4 net")
    case True
    with first glue_query_reachable [OF _ assms(2,3,4)] show ?thesis by simp
  next
    case False
    with first assms(2,3) show ?thesis by auto
  qed
  then have free: "q_heap c1 fresh6 = None" using assms(5,6) by auto
  have at: "cs[i := es1] ! i = es1" using assms(3) by simp
  show ?thesis
  proof (cases "ret1 = VAL_NO_ERROR \<and> val_context_ip6 net")
    case True
    with assms(1) first have
      "glue_query C now mr fresh6 a Q_WAIT_FOR_AAAA_GLUE ns_t_aaaa name_n fl (cs[i := es1] ! i, c1, ctx1) = Some (ret, queries, c', ctx')"
      unfolding at by (simp add: fetch_glue_def)
    from glue_query_reachable [OF this conjunct1 [OF one] _ free] assms(3) one show ?thesis by auto
  next
    case False
    with assms(1) first have "queries = es1 \<and> c' = c1" by (auto simp: fetch_glue_def split: if_splits)
    with one show ?thesis by auto
  qed
qed

lemma bootstrap_referral_reachable:
  assumes "bootstrap_referral C net now mr fresh4 fresh6 ctx c (cs ! i) a zone learned = Some (ret, nss, queries, c', ctx')"
    and "reachable C (c, cs)" "i < length cs" "q_heap c fresh4 = None" "q_heap c fresh6 = None" "fresh4 \<noteq> fresh6"
  shows "reachable C (c', cs[i := queries]) \<and> dom (q_heap c') \<subseteq> {fresh4, fresh6} \<union> dom (q_heap c)"
proof -
  define R where "R qs cc \<longleftrightarrow> reachable C (cc, cs[i := qs]) \<and> dom (q_heap cc) \<subseteq> {fresh4, fresh6} \<union> dom (q_heap c)" for qs cc
  from assms(1) obtain q where q: "q_heap c a = Some q"
    by (auto simp: bootstrap_referral_def split: Option.bind_splits)
  have work: "reachable C (put_query c a q', cs)" if "qc_refcount q' = qc_refcount q" for q'
    by (rule put_query_reachable [OF assms(2) q that])
  note d = put_query_dom [of c a q, OF q]
  have put: "R (cs ! i) (put_query c a q')" if "qc_refcount q' = qc_refcount q" for q'
    unfolding R_def d list_update_id by (intro conjI work that) blast
  have same: "R (cs ! i) c"
    unfolding R_def list_update_id by (intro conjI assms(2)) blast
  have glue: "R queries c'"
    if "fetch_glue C net now mr fresh4 fresh6 a name_n fl (cs ! i, put_query c a q', ctx) = Some (ret, queries, c', ctx')"
      "qc_refcount q' = qc_refcount q" for q' name_n fl
  proof -
    have "q_heap (put_query c a q') fresh4 = None" "q_heap (put_query c a q') fresh6 = None"
      using assms(4,5) q by (auto simp: put_query_def)
    from fetch_glue_reachable [OF that(1) work [OF that(2)] assms(3) this assms(6)] show ?thesis by (simp add: R_def d)
  qed
  have "R queries c'"
    using assms(1) q same put
    by (auto simp: bootstrap_referral_def Let_def split: Option.bind_splits if_splits list.splits dest!: glue)
  then show ?thesis by (simp only: R_def)
qed

end
