(* ===== verification/Cache.thy ===== *)
theory Cache
  imports Referral
begin

section \<open>The caches\<close>

text \<open>
  \<^verbatim>\<open>libval/val_cache.c\<close>: the hints cache and the answer cache, two lists of record sets that the library keeps for
  the whole process. What is stored (\<open>stow_info\<close>, \<open>stow_zone_info\<close>, \<open>stow_answers\<close>), what is found (\<open>lookup_store\<close>,
  \<open>get_cached_rrset\<close>), and the name servers closest to a name (\<open>get_nslist_from_cache\<close>). The time is an argument; the
  locks make every routine atomic. The library is built with NSEC3.
\<close>

subsection \<open>Storing\<close>

definition in_bailiwick :: "byte list \<Rightarrow> val_query_chain option \<Rightarrow> bool option" where
  "in_bailiwick name_n q = (case q of
     None \<Rightarrow> Some False
   | Some q \<Rightarrow> do {
       p \<leftarrow> (if qc_zonecut_n q \<noteq> [] then namename name_n (qc_zonecut_n q) else namename (qc_name_n q) name_n);
       Some (p \<noteq> None)
     })"

text \<open>The inner loop of \<open>stow_info\<close>: the first set with the key takes the data, otherwise the new set goes to the end.\<close>

fun stow_one :: "rrset_rec list \<Rightarrow> rrset_rec \<Rightarrow> rrset_rec list option" where
  "stow_one [] new_rr = Some [new_rr]"
| "stow_one (old # olds) new_rr = do {
     b \<leftarrow> same_rrset old new_rr;
     if b then Some ((if rrs_cred new_rr \<le> rrs_cred old then exchange old new_rr else old) # olds)
     else do { rest \<leftarrow> stow_one olds new_rr; Some (old # rest) }
   }"

fun stow_info :: "rrset_rec list \<Rightarrow> rrset_rec list \<Rightarrow> val_query_chain option \<Rightarrow> rrset_rec list option" where
  "stow_info unchecked_info [] matched_q = Some unchecked_info"
| "stow_info unchecked_info (new_rr # new_info) matched_q = do {
     b \<leftarrow> in_bailiwick (rrs_name_n new_rr) matched_q;
     if \<not> b \<or> rrs_type_h new_rr = ns_t_nsec3 \<or> rrs_type_h new_rr = ns_t_nsec
     then stow_info unchecked_info new_info matched_q
     else do {
       unchecked_info' \<leftarrow> stow_one unchecked_info new_rr;
       stow_info unchecked_info' new_info matched_q
     }
   }"

record val_cache =
  unchecked_hints :: "rrset_rec list"
  unchecked_answers :: "rrset_rec list"

fun all_in_bailiwick :: "rrset_rec list \<Rightarrow> val_query_chain option \<Rightarrow> bool option" where
  "all_in_bailiwick [] matched_q = Some True"
| "all_in_bailiwick (r # rs) matched_q = do {
     b \<leftarrow> in_bailiwick (rrs_name_n r) matched_q;
     if b then all_in_bailiwick rs matched_q else Some False
   }"

definition stow_zone_info :: "val_cache \<Rightarrow> rrset_rec list \<Rightarrow> val_query_chain option \<Rightarrow> val_cache option" where
  "stow_zone_info vc new_info matched_q = do {
     b \<leftarrow> all_in_bailiwick new_info matched_q;
     if \<not> b then Some vc
     else do {
       hints \<leftarrow> stow_info (unchecked_hints vc) new_info matched_q;
       Some (vc\<lparr> unchecked_hints := hints \<rparr>)
     }
   }"

definition stow_answers :: "val_cache \<Rightarrow> rrset_rec list \<Rightarrow> val_query_chain option \<Rightarrow> val_cache option" where
  "stow_answers vc new_info matched_q = do {
     answers \<leftarrow> stow_info (unchecked_answers vc) new_info matched_q;
     Some (vc\<lparr> unchecked_answers := answers \<rparr>)
   }"

definition free_validator_cache :: val_cache where
  "free_validator_cache = \<lparr> unchecked_hints = [], unchecked_answers = [] \<rparr>"

subsection \<open>Finding\<close>

abbreviation SR_QUERY_VALIDATING_STUB_FLAGS :: "64 word" where "SR_QUERY_VALIDATING_STUB_FLAGS \<equiv> 12"

definition store_match :: "byte list \<Rightarrow> u16 \<Rightarrow> rrset_rec \<Rightarrow> bool option" where
  "store_match name_n type_h r = do {
     b \<leftarrow> sc_and (Some (rrs_type_h r = type_h \<or> rrs_type_h r = ns_t_cname \<and> alias_match_type type_h))
       (name_eq (rrs_name_n r) name_n);
     if b then Some True
     else if rrs_type_h r = ns_t_dname \<and> alias_match_type type_h
     then do { p \<leftarrow> namename name_n (rrs_name_n r); Some (p \<noteq> None) }
     else Some False
   }"

text \<open>\<open>lookup_store\<close>. The copy can fail, and then the loop ends without an answer.\<close>

fun lookup_store :: "int \<Rightarrow> byte list \<Rightarrow> u16 \<Rightarrow> u16 \<Rightarrow> rrset_rec list \<Rightarrow> 64 word \<Rightarrow> rrset_rec option option" where
  "lookup_store now name_n class_h type_h [] ns_opts = Some None"
| "lookup_store now name_n class_h type_h (r # rs) ns_opts = do {
     b \<leftarrow> sc_and (Some (now < uint (rrs_ttl_x r) \<and> rrs_class_h r = class_h)) (store_match name_n type_h r);
     if b \<and> (ns_opts = 0 \<or> ns_opts = rrs_ns_options r) \<and> rrs_data r \<noteq> [] then do {
       c \<leftarrow> copy_rrset_rec r;
       Some (map_option (\<lambda>new. new\<lparr> rrs_ttl_h := word_of_int (uint (rrs_ttl_x r) - now) \<rparr>) c)
     }
     else lookup_store now name_n class_h type_h rs ns_opts
   }"

record domain_info =
  dom_requested_name_h :: "byte list"
  dom_requested_type_h :: u16
  dom_requested_class_h :: u16
  dom_answers :: "rrset_rec list"
  dom_proofs :: "rrset_rec list"
  dom_qnames :: "byte list list"
  dom_res_error :: int

abbreviation SR_UNSET :: int where "SR_UNSET \<equiv> 0"
abbreviation NS_MAXDNAME :: nat where "NS_MAXDNAME \<equiv> 1025"

text \<open>\<open>get_cached_rrset\<close>: the return value, the query and \<open>*response\<close>.\<close>

definition cached_answer :: "int \<Rightarrow> val_cache \<Rightarrow> val_query_chain \<Rightarrow> rrset_rec option option" where
  "cached_answer now vc q = do {
     a \<leftarrow> lookup_store now (qc_name_n q) (qc_class_h q) (qc_type_h q) (unchecked_answers vc)
       (if qc_flags q AND VAL_QUERY_DONT_VALIDATE \<noteq> 0 then SR_QUERY_VALIDATING_STUB_FLAGS else 0);
     if a = None \<and> qc_type_h q = ns_t_ns \<and> qc_flags q AND VAL_QUERY_DONT_VALIDATE \<noteq> 0
     then lookup_store now (qc_name_n q) (qc_class_h q) (qc_type_h q) (unchecked_hints vc) 0
     else Some a
   }"

definition get_cached_rrset :: "int \<Rightarrow> val_cache \<Rightarrow> val_query_chain \<Rightarrow>
    (val_ret \<times> val_query_chain \<times> domain_info option) option" where
  "get_cached_rrset now vc q = do {
     a \<leftarrow> cached_answer now vc q;
     case a of
       None \<Rightarrow> Some (VAL_NO_ERROR, q, None)
     | Some new_answer \<Rightarrow> do {
         len \<leftarrow> wire_name_length (qc_name_n q);
         name \<leftarrow> seg (qc_name_n q) 0 len;
         name_p \<leftarrow> ns_name_ntop (qc_name_n q) NS_MAXCDNAME;
         case name_p of
           None \<Rightarrow> Some (VAL_NO_ERROR, q, None)
         | Some text \<Rightarrow> do {
             rdata \<leftarrow> first_rdata (rrs_data new_answer);
             (ret, q', qnames, _) \<leftarrow> process_cname_dname_responses (rrs_name_n new_answer) (rrs_type_h new_answer) rdata
               (q\<lparr> qc_state := Q_ANSWERED \<rparr>) [name];
             Some (ret, q', if ret \<noteq> VAL_NO_ERROR then None else Some \<lparr> dom_requested_name_h = text,
               dom_requested_type_h = qc_type_h q, dom_requested_class_h = qc_class_h q, dom_answers = [new_answer],
               dom_proofs = [], dom_qnames = qnames, dom_res_error = SR_UNSET \<rparr>)
           }
       }
   }"

text \<open>The scan of \<open>get_nslist_from_cache\<close>: the name so far, \<open>NULL\<close> first, and its credibility.\<close>

fun closest_ns :: "int \<Rightarrow> byte list \<Rightarrow> u16 \<Rightarrow> rrset_rec list \<Rightarrow> byte list option \<times> byte \<Rightarrow>
    (byte list option \<times> byte) option" where
  "closest_ns now qname_n qtype [] best = Some best"
| "closest_ns now qname_n qtype (r # rs) (name_n, ns_cred) = do {
     p \<leftarrow> (if now < uint (rrs_ttl_x r) \<and> rrs_type_h r = ns_t_ns \<and> (ns_cred = SR_CRED_UNSET \<or> rrs_cred r \<le> ns_cred)
       then namename qname_n (rrs_name_n r) else Some None);
     case p of
       None \<Rightarrow> closest_ns now qname_n qtype rs (name_n, ns_cred)
     | Some p \<Rightarrow> do {
         better \<leftarrow> (case name_n of None \<Rightarrow> Some True
           | Some n \<Rightarrow> if rrs_cred r < ns_cred then Some True
               else do { l1 \<leftarrow> wire_name_length (rrs_name_n r); l2 \<leftarrow> wire_name_length n; Some (l2 < l1) });
         if better \<and> (qtype \<noteq> ns_t_ds \<or> p \<noteq> 0) then closest_ns now qname_n qtype rs (Some (rrs_name_n r), rrs_cred r)
         else closest_ns now qname_n qtype rs (name_n, ns_cred)
       }
   }"

text \<open>\<open>get_nslist_from_cache\<close>: \<open>*ref_ns_list\<close>, \<open>*zonecut_n\<close>, \<open>*ns_cred\<close> and what \<open>bootstrap_referral\<close> changed.\<close>

definition get_nslist_from_cache :: "openssl \<Rightarrow> net_context \<Rightarrow> int \<Rightarrow> int option \<Rightarrow> nat \<Rightarrow> nat \<Rightarrow> int e_pol \<Rightarrow> query_cache \<Rightarrow>
    queries_for_query list \<Rightarrow> nat \<Rightarrow> val_cache \<Rightarrow>
    (name_server list \<times> byte list \<times> byte \<times> queries_for_query list \<times> query_cache \<times> int e_pol) option" where
  "get_nslist_from_cache C net now mr fresh4 fresh6 ctx c queries a vc = do {
     q \<leftarrow> q_heap c a;
     (name, ns_cred) \<leftarrow> closest_ns now (qc_name_n q) (qc_type_h q) (unchecked_hints vc) (None, SR_CRED_UNSET);
     case name of
       None \<Rightarrow> Some ([], [], ns_cred, queries, c, ctx)
     | Some name_n \<Rightarrow> do {
         (_, nss, queries', c', ctx') \<leftarrow>
           bootstrap_referral C net now mr fresh4 fresh6 ctx c queries a name_n (unchecked_hints vc);
         if nss = [] then Some ([], [], ns_cred, queries', c', ctx')
         else do {
           len \<leftarrow> wire_name_length name_n;
           zonecut \<leftarrow> seg name_n 0 len;
           Some (nss, zonecut, ns_cred, queries', c', ctx')
         }
       }
   }"


subsection \<open>What the stores hold\<close>

definition ok_bailiwick :: "val_query_chain \<Rightarrow> bool" where
  "ok_bailiwick q \<longleftrightarrow> valid_name (qc_name_n q) \<and> (qc_zonecut_n q = [] \<or> valid_name (qc_zonecut_n q))"

lemma namename_total: "valid_name big \<Longrightarrow> valid_name little \<Longrightarrow> namename big little \<noteq> None"
  by (auto simp: valid_name_def namename_encodes)

lemma in_bailiwick_total: "ok_bailiwick q \<Longrightarrow> valid_name n \<Longrightarrow> in_bailiwick n (Some q) \<noteq> None"
  using namename_total [of n "qc_zonecut_n q"] namename_total [of "qc_name_n q" n]
  by (auto simp: in_bailiwick_def ok_bailiwick_def)

text \<open>A name is in the bailiwick of a query when it is at or below the zone cut, or above the name when there is none.\<close>

lemma in_bailiwick_encodes:
  assumes "encodes n xs" "encodes (qc_name_n q) qs" "qc_zonecut_n q = [] \<or> encodes (qc_zonecut_n q) zs"
  shows "in_bailiwick n (Some q) = Some (if qc_zonecut_n q = [] then subname qs xs else subname xs zs)"
  using namename_encodes [OF assms(1)] namename_encodes [OF assms(2,1)] assms(3)
  by (auto simp: in_bailiwick_def)

definition storable :: "val_query_chain \<Rightarrow> rrset_rec \<Rightarrow> bool" where
  "storable q r \<longleftrightarrow> in_bailiwick (rrs_name_n r) (Some q) = Some True \<and> rrs_type_h r \<noteq> ns_t_nsec3 \<and> rrs_type_h r \<noteq> ns_t_nsec"

definition compete :: "rrset_rec \<Rightarrow> rrset_rec \<Rightarrow> rrset_rec" where
  "compete old new_rr = (if rrset_key old = rrset_key new_rr \<and> rrs_cred new_rr \<le> rrs_cred old then exchange old new_rr else old)"

definition stowed :: "rrset_rec list \<Rightarrow> rrset_rec \<Rightarrow> rrset_rec list" where
  "stowed l n = (if rrset_key n \<in> rrset_key ` set l then map (\<lambda>old. compete old n) l else l @ [n])"

lemma compete_other: "rrset_key old \<noteq> rrset_key n \<Longrightarrow> compete old n = old"
  by (simp add: compete_def)

lemma compete_kept [simp]:
  "rrset_key (compete old n) = rrset_key old" "rrs_ttl_x (compete old n) = rrs_ttl_x old"
  "rrs_name_n (compete old n) = rrs_name_n old" "rrs_type_h (compete old n) = rrs_type_h old"
  by (simp_all add: compete_def exchange_def rrset_key_def)

lemma stow_one_eq:
  "list_all ok_rrset l \<Longrightarrow> ok_rrset n \<Longrightarrow> distinct (map rrset_key l) \<Longrightarrow> stow_one l n = Some (stowed l n)"
proof (induction l)
  case (Cons old olds)
  then have same: "same_rrset old n = Some (rrset_key old = rrset_key n)" by (simp add: rs.eq_key)
  show ?case
  proof (cases "rrset_key old = rrset_key n")
    case True
    with Cons.prems(3) have "map (\<lambda>x. compete x n) olds = olds"
      by (intro map_idI compete_other) (metis distinct.simps(2) image_eqI list.map(2) list.set_map)
    with True same show ?thesis by (simp add: stowed_def compete_def)
  next
    case False
    with Cons same show ?thesis by (simp add: stowed_def compete_other)
  qed
qed (simp add: stowed_def)

definition wf_store :: "rrset_rec list \<Rightarrow> bool" where
  "wf_store l \<longleftrightarrow> list_all ok_rrset l \<and> distinct (map rrset_key l) \<and>
     (\<forall>r\<in>set l. rrs_type_h r \<noteq> ns_t_nsec \<and> rrs_type_h r \<noteq> ns_t_nsec3)"

abbreviation stamps :: "rrset_rec list \<Rightarrow> ((u16 \<times> u16 \<times> byte list) \<times> u32) list" where
  "stamps \<equiv> map (\<lambda>r. (rrset_key r, rrs_ttl_x r))"

text \<open>Storing never removes a set and never changes when one expires: what is stored is a prefix of the result.\<close>

lemma stowed_stamps: "\<exists>xs. stamps (stowed l n) = stamps l @ xs"
  by (auto simp: stowed_def comp_def)

lemma stowed_wf:
  assumes "wf_store l" "ok_rrset n" "rrs_type_h n \<noteq> ns_t_nsec" "rrs_type_h n \<noteq> ns_t_nsec3"
  shows "wf_store (stowed l n) \<and> rrset_key ` set (stowed l n) = insert (rrset_key n) (rrset_key ` set l)"
  using assms by (auto simp: wf_store_def stowed_def list_all_iff ok_rrset_def comp_def image_image)

lemma stow_info_spec:
  assumes "wf_store l" "list_all ok_rrset new_info" "ok_bailiwick q"
  shows "\<exists>l' xs. stow_info l new_info (Some q) = Some l' \<and> wf_store l' \<and> stamps l' = stamps l @ xs \<and>
    rrset_key ` set l' = rrset_key ` set l \<union> rrset_key ` {n \<in> set new_info. storable q n}"
  using assms(1,2)
proof (induction new_info arbitrary: l)
  case (Cons n ns)
  have ok: "ok_rrset n" "list_all ok_rrset ns" using Cons.prems(2) by simp_all
  obtain b where b: "in_bailiwick (rrs_name_n n) (Some q) = Some b"
    using in_bailiwick_total [OF assms(3)] ok(1) by (auto simp: ok_rrset_def)
  show ?case
  proof (cases "storable q n")
    case True
    then have run: "stow_info l (n # ns) (Some q) = stow_info (stowed l n) ns (Some q)"
      using stow_one_eq [of l n] Cons.prems(1) ok(1) by (simp add: storable_def wf_store_def)
    have w: "wf_store (stowed l n) \<and> rrset_key ` set (stowed l n) = insert (rrset_key n) (rrset_key ` set l)"
      by (rule stowed_wf [OF Cons.prems(1) ok(1)]) (use True in \<open>simp_all add: storable_def\<close>)
    obtain ys where ys: "stamps (stowed l n) = stamps l @ ys" using stowed_stamps by blast
    from Cons.IH [of "stowed l n"] w ok(2) obtain l' xs where "stow_info (stowed l n) ns (Some q) = Some l'" "wf_store l'"
      "stamps l' = stamps (stowed l n) @ xs"
      "rrset_key ` set l' = rrset_key ` set (stowed l n) \<union> rrset_key ` {n \<in> set ns. storable q n}" by blast
    with run w ys True show ?thesis by (intro exI [of _ l'] exI [of _ "ys @ xs"]) auto
  next
    case False
    then have run: "stow_info l (n # ns) (Some q) = stow_info l ns (Some q)" using b by (auto simp: storable_def)
    have "{m \<in> set (n # ns). storable q m} = {m \<in> set ns. storable q m}" using False by auto
    with Cons.IH [OF Cons.prems(1) ok(2)] run show ?thesis by simp
  qed
qed simp

text \<open>Hints are kept only when all of them are in the bailiwick of the query.\<close>

lemma all_in_bailiwick_eq:
  "list_all ok_rrset rs \<Longrightarrow> ok_bailiwick q \<Longrightarrow>
   all_in_bailiwick rs (Some q) = Some (\<forall>r\<in>set rs. in_bailiwick (rrs_name_n r) (Some q) = Some True)"
proof (induction rs)
  case (Cons r rs)
  then obtain b where "in_bailiwick (rrs_name_n r) (Some q) = Some b"
    using in_bailiwick_total [of q "rrs_name_n r"] by (auto simp: ok_rrset_def)
  with Cons show ?case by auto
qed simp

subsection \<open>What a look-up finds\<close>

lemma lookup_store_sound:
  "lookup_store now name_n class_h type_h rs ns_opts = Some (Some a) \<Longrightarrow>
   \<exists>r\<in>set rs. \<exists>cp. now < uint (rrs_ttl_x r) \<and> rrs_class_h r = class_h \<and> store_match name_n type_h r = Some True \<and>
     rrs_data r \<noteq> [] \<and> copy_rrset_rec r = Some (Some cp) \<and> a = cp\<lparr> rrs_ttl_h := word_of_int (uint (rrs_ttl_x r) - now) \<rparr>"
proof (induction rs)
  case (Cons r rs)
  from Cons.prems obtain b where
    b: "sc_and (Some (now < uint (rrs_ttl_x r) \<and> rrs_class_h r = class_h)) (store_match name_n type_h r) = Some b"
    by (auto split: Option.bind_splits)
  show ?case
  proof (cases "b \<and> (ns_opts = 0 \<or> ns_opts = rrs_ns_options r) \<and> rrs_data r \<noteq> []")
    case True
    with b have "now < uint (rrs_ttl_x r) \<and> rrs_class_h r = class_h \<and> store_match name_n type_h r = Some True"
      by (auto simp: sc_and_def split: Option.bind_splits if_splits)
    with True b Cons.prems show ?thesis by (auto split: Option.bind_splits)
  next
    case False
    with b Cons show ?thesis by auto
  qed
qed simp

lemma lookup_store_none:
  assumes "\<forall>r\<in>set rs. store_match name_n type_h r = Some False \<or> uint (rrs_ttl_x r) \<le> now \<or> rrs_class_h r \<noteq> class_h"
  shows "lookup_store now name_n class_h type_h rs ns_opts = Some None"
  using assms by (induction rs) (auto simp: not_less sc_and_def split: Option.bind_splits)

lemma store_match_key:
  assumes "\<not> alias_match_type type_h" "valid_name name_n" "ok_rrset r"
  shows "store_match name_n type_h r = Some (rrs_type_h r = type_h \<and> canon (rrs_name_n r) = canon name_n)"
  using assms by (simp add: store_match_def ok_rrset_def nm.eq_key)

text \<open>
  A set that has expired stays where it is: what is stored later under its key goes into it and is never found. The
  types no alias stands for are those of the validator: \<open>DNSKEY\<close>, \<open>DS\<close>, \<open>SOA\<close>.
\<close>

lemma expired_blocks:
  assumes "wf_store l" "list_all ok_rrset new_info" "ok_bailiwick q" "r \<in> set l" "uint (rrs_ttl_x r) \<le> now"
    and "\<not> alias_match_type (rrs_type_h r)"
  shows "\<exists>l'. stow_info l new_info (Some q) = Some l' \<and>
    lookup_store now (rrs_name_n r) (rrs_class_h r) (rrs_type_h r) l' ns_opts = Some None"
proof -
  from stow_info_spec [OF assms(1-3)] obtain l' xs where l': "stow_info l new_info (Some q) = Some l'" "wf_store l'"
    "stamps l' = stamps l @ xs" by blast
  have v: "valid_name (rrs_name_n r)" using assms(1,4) by (auto simp: wf_store_def list_all_iff ok_rrset_def)
  have "uint (rrs_ttl_x r') \<le> now" if "r' \<in> set l'" "rrset_key r' = rrset_key r" for r'
  proof -
    have "set (stamps l) \<subseteq> set (stamps l')" unfolding l'(3) set_append by blast
    moreover have "(rrset_key r, rrs_ttl_x r) \<in> set (stamps l)" using assms(4) by (simp add: rev_image_eqI)
    ultimately have a: "(rrset_key r', rrs_ttl_x r) \<in> set (stamps l')" unfolding that(2) by (rule subsetD)
    have b: "(rrset_key r', rrs_ttl_x r') \<in> set (stamps l')" using that(1) by (simp add: rev_image_eqI)
    have d: "distinct (map fst (stamps l'))" using l'(2) by (simp add: wf_store_def comp_def)
    have "rrs_ttl_x r' = rrs_ttl_x r" by (rule eq_key_imp_eq_value [OF d b a])
    with assms(5) show ?thesis by simp
  qed
  then have "\<forall>r'\<in>set l'. store_match (rrs_name_n r) (rrs_type_h r) r' = Some False \<or> uint (rrs_ttl_x r') \<le> now \<or>
      rrs_class_h r' \<noteq> rrs_class_h r"
    using l'(2) store_match_key [OF assms(6) v] by (auto simp: wf_store_def list_all_iff rrset_key_def)
  with l'(1) lookup_store_none show ?thesis by blast
qed


subsection \<open>The closest name servers\<close>

text \<open>The sets that could be used, and how they are ranked: first by credibility, then by the length of the name.\<close>

definition usable_ns :: "int \<Rightarrow> byte list \<Rightarrow> u16 \<Rightarrow> rrset_rec \<Rightarrow> bool" where
  "usable_ns now qname qtype r \<longleftrightarrow> now < uint (rrs_ttl_x r) \<and> rrs_type_h r = ns_t_ns \<and>
     (case namename qname (rrs_name_n r) of Some (Some p) \<Rightarrow> qtype \<noteq> ns_t_ds \<or> p \<noteq> 0 | _ \<Rightarrow> False)"

definition no_better :: "byte list \<times> byte \<Rightarrow> byte list \<times> byte \<Rightarrow> bool" where
  "no_better a b \<longleftrightarrow> snd b < snd a \<or> snd b = snd a \<and> the (wire_name_length (fst a)) \<le> the (wire_name_length (fst b))"

lemma no_better_trans: "no_better a b \<Longrightarrow> no_better b c \<Longrightarrow> no_better a c"
  by (auto simp: no_better_def)

lemma no_better_refl [simp]: "no_better a a"
  by (simp add: no_better_def)

abbreviation ns_rank :: "rrset_rec \<Rightarrow> byte list \<times> byte" where
  "ns_rank r \<equiv> (rrs_name_n r, rrs_cred r)"

text \<open>One step of the scan keeps the better of the two.\<close>

lemma closest_ns_step:
  assumes "valid_name qname" "ok_rrset r" "rrs_cred r \<noteq> SR_CRED_UNSET" "valid_name n" "cred \<noteq> SR_CRED_UNSET"
  shows "closest_ns now qname qtype (r # rs) (Some n, cred) =
    closest_ns now qname qtype rs (if usable_ns now qname qtype r \<and> \<not> no_better (ns_rank r) (n, cred)
      then (Some (rrs_name_n r), rrs_cred r) else (Some n, cred))"
proof -
  obtain p where p: "namename qname (rrs_name_n r) = Some p"
    using namename_total [of qname "rrs_name_n r"] assms(1,2) by (auto simp: ok_rrset_def)
  obtain l1 where l1: "wire_name_length (rrs_name_n r) = Some l1"
    using assms(2) name_bytes_seg [of "rrs_name_n r"] by (metis ok_rrset_def)
  obtain l2 where l2: "wire_name_length n = Some l2" using assms(4) name_bytes_seg [of n] by metis
  show ?thesis
    using assms(5) by (cases p) (auto simp: p l1 l2 usable_ns_def no_better_def)
qed

lemma closest_ns_first:
  assumes "valid_name qname" "ok_rrset r"
  shows "closest_ns now qname qtype (r # rs) (None, SR_CRED_UNSET) =
    closest_ns now qname qtype rs (if usable_ns now qname qtype r then (Some (rrs_name_n r), rrs_cred r) else (None, SR_CRED_UNSET))"
proof -
  obtain p where p: "namename qname (rrs_name_n r) = Some p"
    using namename_total [of qname "rrs_name_n r"] assms(1,2) by (auto simp: ok_rrset_def)
  show ?thesis by (cases p) (auto simp: p usable_ns_def)
qed

definition ok_ns_sets :: "rrset_rec list \<Rightarrow> bool" where
  "ok_ns_sets rs \<longleftrightarrow> (\<forall>r\<in>set rs. ok_rrset r \<and> rrs_cred r \<noteq> SR_CRED_UNSET)"

lemma no_better_linear: "no_better a b \<or> no_better b a"
  by (auto simp: no_better_def)

lemma closest_ns_from:
  assumes "valid_name qname" "ok_ns_sets rs" "valid_name n" "cred \<noteq> SR_CRED_UNSET"
  shows "\<exists>n' cred'. closest_ns now qname qtype rs (Some n, cred) = Some (Some n', cred') \<and>
    ((n', cred') = (n, cred) \<or> (\<exists>r\<in>set rs. usable_ns now qname qtype r \<and> (n', cred') = ns_rank r)) \<and>
    no_better (n, cred) (n', cred') \<and> (\<forall>r\<in>set rs. usable_ns now qname qtype r \<longrightarrow> no_better (ns_rank r) (n', cred'))"
  using assms(2-4)
proof (induction rs arbitrary: n cred)
  case (Cons r rs)
  have ok: "ok_rrset r" "rrs_cred r \<noteq> SR_CRED_UNSET" "ok_ns_sets rs" "valid_name (rrs_name_n r)"
    using Cons.prems(1) by (auto simp: ok_ns_sets_def ok_rrset_def)
  show ?case
  proof (cases "usable_ns now qname qtype r \<and> \<not> no_better (ns_rank r) (n, cred)")
    case True
    from Cons.IH [OF ok(3,4,2)] obtain n' cred' where h:
      "closest_ns now qname qtype rs (Some (rrs_name_n r), rrs_cred r) = Some (Some n', cred')"
      "(n', cred') = ns_rank r \<or> (\<exists>r\<in>set rs. usable_ns now qname qtype r \<and> (n', cred') = ns_rank r)"
      "no_better (ns_rank r) (n', cred')" "\<forall>r\<in>set rs. usable_ns now qname qtype r \<longrightarrow> no_better (ns_rank r) (n', cred')"
      by blast
    have nb: "no_better (n, cred) (n', cred')" using True h(3) no_better_linear no_better_trans by blast
    have run: "closest_ns now qname qtype (r # rs) (Some n, cred) = Some (Some n', cred')"
      using True h(1) closest_ns_step [OF assms(1) ok(1,2) Cons.prems(2,3), of now qtype rs] by (simp only: simp_thms if_True if_False)
    have all: "\<forall>x\<in>set (r # rs). usable_ns now qname qtype x \<longrightarrow> no_better (ns_rank x) (n', cred')"
      using nb h(3,4) by simp
    have "(n', cred') = (n, cred) \<or> (\<exists>x\<in>set (r # rs). usable_ns now qname qtype x \<and> (n', cred') = ns_rank x)"
      using True h(2) by (metis list.set_intros)
    with run all nb show ?thesis by blast
  next
    case False
    from Cons.IH [OF ok(3) Cons.prems(2,3)] obtain n' cred' where h:
      "closest_ns now qname qtype rs (Some n, cred) = Some (Some n', cred')"
      "(n', cred') = (n, cred) \<or> (\<exists>r\<in>set rs. usable_ns now qname qtype r \<and> (n', cred') = ns_rank r)"
      "no_better (n, cred) (n', cred')" "\<forall>r\<in>set rs. usable_ns now qname qtype r \<longrightarrow> no_better (ns_rank r) (n', cred')"
      by blast
    have nb: "usable_ns now qname qtype r \<longrightarrow> no_better (ns_rank r) (n', cred')"
      using False h(3) no_better_trans by blast
    have run: "closest_ns now qname qtype (r # rs) (Some n, cred) = Some (Some n', cred')"
      using False h(1) closest_ns_step [OF assms(1) ok(1,2) Cons.prems(2,3), of now qtype rs] by (simp only: simp_thms if_True if_False)
    have all: "\<forall>x\<in>set (r # rs). usable_ns now qname qtype x \<longrightarrow> no_better (ns_rank x) (n', cred')"
      using nb h(3,4) by simp
    have "(n', cred') = (n, cred) \<or> (\<exists>x\<in>set (r # rs). usable_ns now qname qtype x \<and> (n', cred') = ns_rank x)"
      using False h(2) by (metis list.set_intros)
    with run all h(3) show ?thesis by blast
  qed
qed simp

lemma closest_ns_best:
  assumes "valid_name qname" "ok_ns_sets rs"
  shows "\<exists>best. closest_ns now qname qtype rs (None, SR_CRED_UNSET) = Some best \<and>
    (case fst best of
       None \<Rightarrow> \<forall>r\<in>set rs. \<not> usable_ns now qname qtype r
     | Some n \<Rightarrow> (\<exists>r\<in>set rs. usable_ns now qname qtype r \<and> (n, snd best) = ns_rank r) \<and>
         (\<forall>r\<in>set rs. usable_ns now qname qtype r \<longrightarrow> no_better (ns_rank r) (n, snd best)))"
  using assms(2)
proof (induction rs)
  case (Cons r rs)
  have ok: "ok_rrset r" "rrs_cred r \<noteq> SR_CRED_UNSET" "ok_ns_sets rs" "valid_name (rrs_name_n r)"
    using Cons.prems by (auto simp: ok_ns_sets_def ok_rrset_def)
  show ?case
  proof (cases "usable_ns now qname qtype r")
    case True
    from closest_ns_from [OF assms(1) ok(3,4,2), of now qtype] obtain n' cred' where h:
      "closest_ns now qname qtype rs (Some (rrs_name_n r), rrs_cred r) = Some (Some n', cred')"
      "(n', cred') = ns_rank r \<or> (\<exists>r\<in>set rs. usable_ns now qname qtype r \<and> (n', cred') = ns_rank r)"
      "no_better (ns_rank r) (n', cred')" "\<forall>r\<in>set rs. usable_ns now qname qtype r \<longrightarrow> no_better (ns_rank r) (n', cred')"
      by blast
    have "\<exists>x\<in>set (r # rs). usable_ns now qname qtype x \<and> (n', cred') = ns_rank x" using True h(2) by auto
    with h(1,3,4) True closest_ns_first [OF assms(1) ok(1), of now qtype rs] show ?thesis
      by (intro exI [of _ "(Some n', cred')"]) simp
  next
    case False
    from Cons.IH [OF ok(3)] obtain best where h:
      "closest_ns now qname qtype rs (None, SR_CRED_UNSET) = Some best"
      "(case fst best of
       None \<Rightarrow> \<forall>r\<in>set rs. \<not> usable_ns now qname qtype r
     | Some n \<Rightarrow> (\<exists>r\<in>set rs. usable_ns now qname qtype r \<and> (n, snd best) = ns_rank r) \<and>
         (\<forall>r\<in>set rs. usable_ns now qname qtype r \<longrightarrow> no_better (ns_rank r) (n, snd best)))" by blast
    with False closest_ns_first [OF assms(1) ok(1), of now qtype rs] show ?thesis
      by (intro exI [of _ best]) (auto split: option.splits)
  qed
qed simp

text \<open>The name servers of a cache keep the requests of the context consistent, whether they fetch glue or not.\<close>

lemma get_nslist_reachable:
  assumes "get_nslist_from_cache C net now mr fresh4 fresh6 ctx c (cs ! i) a vc = Some (nss, zonecut, cred, queries, c', ctx')"
    and "reachable C (c, cs)" "i < length cs" "q_heap c fresh4 = None" "q_heap c fresh6 = None" "fresh4 \<noteq> fresh6"
  shows "reachable C (c', cs[i := queries])"
  using assms(1,2) bootstrap_referral_reachable [OF _ assms(2-6)]
  by (auto simp: get_nslist_from_cache_def split: Option.bind_splits option.splits if_splits)

subsection \<open>The answer from the cache\<close>

lemma cached_answer_sound:
  assumes "cached_answer now vc q = Some (Some a)"
  shows "\<exists>r\<in>set (unchecked_answers vc) \<union> set (unchecked_hints vc). \<exists>cp. now < uint (rrs_ttl_x r) \<and>
    rrs_class_h r = qc_class_h q \<and> store_match (qc_name_n q) (qc_type_h q) r = Some True \<and> rrs_data r \<noteq> [] \<and>
    copy_rrset_rec r = Some (Some cp) \<and> a = cp\<lparr> rrs_ttl_h := word_of_int (uint (rrs_ttl_x r) - now) \<rparr>"
proof -
  from assms consider
      "lookup_store now (qc_name_n q) (qc_class_h q) (qc_type_h q) (unchecked_answers vc)
       (if qc_flags q AND VAL_QUERY_DONT_VALIDATE \<noteq> 0 then SR_QUERY_VALIDATING_STUB_FLAGS else 0) = Some (Some a)"
    | "lookup_store now (qc_name_n q) (qc_class_h q) (qc_type_h q) (unchecked_hints vc) 0 = Some (Some a)"
    by (auto simp: cached_answer_def split: Option.bind_splits if_splits)
  then show ?thesis by cases (drule lookup_store_sound, blast)+
qed

end
