(* ===== verification/Response.thy ===== *)
theory Response
  imports Cache
begin

section \<open>Responses\<close>

text \<open>
  What the resolver does with a whole response (\<open>digest_response\<close> of \<^verbatim>\<open>libval/val_resquery.c\<close>): its records are sorted
  into answers, proofs, name servers and DS sets, aliases and zone cuts are followed on the way, and at the end the
  query either goes on (\<open>follow_referral_or_alias_link\<close>) or is answered, and the sets go into the caches.
  The message is a buffer \<open>mg_data\<close> that ends at \<open>mg_end\<close>; the header has at least twelve bytes. \<open>rrs_zonecut_n\<close> of the code
  is always the zone cut of the query. The fresh addresses for new queries are \<open>fr 0\<close>, \<open>fr 1\<close>, \<open>\<dots>\<close>
\<close>

abbreviation Q_RESPONSE_ERROR :: u16 where "Q_RESPONSE_ERROR \<equiv> 0x80"
abbreviation Q_WRONG_ANSWER :: u16 where "Q_WRONG_ANSWER \<equiv> 0x100"
abbreviation Q_MISSING_GLUE :: u16 where "Q_MISSING_GLUE \<equiv> 0x400"
abbreviation ns_r_noerror :: nat where "ns_r_noerror \<equiv> 0"

subsection \<open>One record\<close>

record message =
  mg_data :: "byte list"
  mg_end :: nat
  mg_answer :: u16
  mg_authority :: u16
  mg_additional :: u16
  mg_aa :: bool
  mg_rcode :: nat
  mg_hptr :: "byte list"
  mg_server :: "name_server option"
  mg_time :: "int option"
  mg_ip4 :: bool
  mg_ip6 :: bool
  mg_junk :: "nat \<Rightarrow> byte"

text \<open>The variables of \<open>digest_response\<close>; \<open>dg_referral\<close> is \<open>referral_zone_n\<close>, \<open>None\<close> before \<open>referral_seen\<close>.\<close>

record digest =
  dg_query :: val_query_chain
  dg_qnames :: "byte list list"
  dg_answers :: "rrset_rec list"
  dg_proofs :: "rrset_rec list"
  dg_zones :: "rrset_rec list"
  dg_ds :: "rrset_rec list"
  dg_alias :: bool
  dg_proof_seen :: bool
  dg_soa_seen :: bool
  dg_referral :: "byte list option"
  dg_index :: nat

text \<open>\<open>Inl\<close> ends the loop: the value to return and the variables as they are then.\<close>

type_synonym digested = "(val_ret \<times> digest) + digest"

definition and_then :: "digested option \<Rightarrow> (digest \<Rightarrow> digested option) \<Rightarrow> digested option" where
  "and_then x f = do { r \<leftarrow> x; case r of Inl stop \<Rightarrow> Some (Inl stop) | Inr dg \<Rightarrow> f dg }"

definition fail_with :: "u16 \<Rightarrow> digest \<Rightarrow> digested" where
  "fail_with state dg = Inl (VAL_NO_ERROR, dg\<lparr> dg_query := (dg_query dg)\<lparr> qc_state := state \<rparr> \<rparr>)"

definition is_iterative :: "digest \<Rightarrow> bool" where
  "is_iterative dg \<longleftrightarrow> qc_flags (dg_query dg) AND VAL_QUERY_IS_ITERATING \<noteq> 0"

definition is_authoritive :: "message \<Rightarrow> digest \<Rightarrow> bool" where
  "is_authoritive m dg \<longleftrightarrow> is_iterative dg \<and> mg_aa m"

definition save_rr :: "message \<Rightarrow> byte \<Rightarrow> rr_fields \<Rightarrow> byte list \<Rightarrow> byte list \<Rightarrow> digest \<Rightarrow> rrset_rec list \<Rightarrow>
    (val_ret + rrset_rec list) option" where
  "save_rr m sec rr rdata zonecut dg sets =
     save_rr_to_list (mg_time m) (mg_server m) sets (rf_name rr) (rf_type_h rr) (rf_set_type_h rr) (rf_class_h rr)
       (rf_ttl_h rr) (mg_hptr m) rdata (length rdata) sec (is_authoritive m dg) (is_iterative dg) zonecut"

definition saved :: "digest \<Rightarrow> (rrset_rec list \<Rightarrow> digest) \<Rightarrow> val_ret + rrset_rec list \<Rightarrow> digested" where
  "saved dg upd r = (case r of Inl ret \<Rightarrow> Inl (ret, dg) | Inr sets \<Rightarrow> Inr (upd sets))"

text \<open>The records that matter in the answer section.\<close>

definition is_relevant :: "rr_fields \<Rightarrow> digest \<Rightarrow> bool option" where
  "is_relevant rr dg = (case dg_qnames dg of [] \<Rightarrow> Some False
   | qc # qcs \<Rightarrow> do {
       same \<leftarrow> name_eq qc (rf_name rr);
       if same then Some True
       else do {
         p \<leftarrow> (if rf_set_type_h rr = ns_t_dname then namename qc (rf_name rr) else Some None);
         if p \<noteq> None then Some True
         else if rf_type_h rr = ns_t_rrsig then name_in_qname_chain (qc # qcs) (rf_name rr)
         else Some False
       }
     })"

text \<open>An alias in the answer section that was not asked for moves the chain of names and clears the zone cut.\<close>

definition follow_alias :: "rr_fields \<Rightarrow> byte list \<Rightarrow> digest \<Rightarrow> digested option" where
  "follow_alias rr rdata dg =
     (if \<not> dg_alias dg then Some (Inr dg)
      else if (rf_set_type_h rr = ns_t_cname \<and> qc_type_h (dg_query dg) \<noteq> ns_t_cname \<or>
               rf_set_type_h rr = ns_t_dname \<and> qc_type_h (dg_query dg) \<noteq> ns_t_dname) \<and>
              alias_match_type (qc_type_h (dg_query dg)) then do {
        (ret, q, qnames, err) \<leftarrow>
          process_cname_dname_responses (rf_name rr) (rf_type_h rr) rdata (dg_query dg) (dg_qnames dg);
        let dg' = dg\<lparr> dg_query := q, dg_qnames := qnames \<rparr>;
        Some (if ret \<noteq> VAL_NO_ERROR \<or> err then Inl (ret, dg')
              else Inr (dg'\<lparr> dg_query := q\<lparr> qc_zonecut_n := [] \<rparr> \<rparr>))
      }
      else Some (Inr (dg\<lparr> dg_alias := False \<rparr>)))"

definition keep_rr :: "message \<Rightarrow> byte \<Rightarrow> rr_fields \<Rightarrow> byte list \<Rightarrow> digest \<Rightarrow> digested option" where
  "keep_rr m sec rr rdata dg = do {
     relevant \<leftarrow> is_relevant rr dg;
     if sec = VAL_FROM_ANSWER \<and> relevant then
       and_then (follow_alias rr rdata dg) (\<lambda>dg. do {
         r \<leftarrow> save_rr m sec rr rdata (qc_zonecut_n (dg_query dg)) dg (dg_answers dg);
         Some (saved dg (\<lambda>sets. dg\<lparr> dg_answers := sets \<rparr>) r)
       })
     else if sec = VAL_FROM_AUTHORITY then
       (if rf_set_type_h rr = ns_t_nsec \<or> rf_set_type_h rr = ns_t_nsec3 then do {
          let dg = dg\<lparr> dg_proof_seen := True \<rparr>;
          r \<leftarrow> save_rr m sec rr rdata (qc_zonecut_n (dg_query dg)) dg (dg_proofs dg);
          Some (saved dg (\<lambda>sets. dg\<lparr> dg_proofs := sets \<rparr>) r)
        }
        else if rf_set_type_h rr = ns_t_soa then do {
          let dg = dg\<lparr> dg_proof_seen := True, dg_soa_seen := True \<rparr>;
          r \<leftarrow> save_rr m sec rr rdata (rf_name rr) dg (dg_proofs dg);
          Some (saved dg (\<lambda>sets. dg\<lparr> dg_proofs := sets \<rparr>) r)
        }
        else if rf_set_type_h rr = ns_t_ns then do {
          r \<leftarrow> save_rr m sec rr rdata (rf_name rr) dg (dg_zones dg);
          Some (saved dg (\<lambda>sets. dg\<lparr> dg_zones := sets \<rparr>) r)
        }
        else if rf_set_type_h rr = ns_t_ds then do {
          r \<leftarrow> save_rr m sec rr rdata (qc_zonecut_n (dg_query dg)) dg (dg_ds dg);
          Some (saved dg (\<lambda>sets. dg\<lparr> dg_ds := sets \<rparr>) r)
        }
        else Some (Inr dg))
     else if sec = VAL_FROM_ADDITIONAL then
       (if rf_set_type_h rr = ns_t_dnskey then do {
          r \<leftarrow> save_rr m sec rr rdata (qc_zonecut_n (dg_query dg)) dg (dg_answers dg);
          Some (saved dg (\<lambda>sets. dg\<lparr> dg_answers := sets \<rparr>) r)
        }
        else if mg_ip4 m \<and> rf_set_type_h rr = ns_t_a \<or> mg_ip6 m \<and> rf_set_type_h rr = ns_t_aaaa then do {
          r \<leftarrow> save_rr m sec rr rdata (rf_name rr) dg (dg_zones dg);
          Some (saved dg (\<lambda>sets. dg\<lparr> dg_zones := sets \<rparr>) r)
        }
        else Some (Inr dg))
     else Some (Inr dg)
   }"

text \<open>A better zone cut: the owner of an SOA, DNSKEY or NS set of an authoritative response.\<close>

definition set_zonecut :: "byte list \<Rightarrow> digest \<Rightarrow> digested option" where
  "set_zonecut name_n dg = do {
     len \<leftarrow> wire_name_length name_n;
     cut \<leftarrow> seg name_n 0 len;
     let dg = dg\<lparr> dg_query := (dg_query dg)\<lparr> qc_zonecut_n := cut \<rparr> \<rparr>;
     p \<leftarrow> ns_name_ntop cut NS_MAXDNAME;
     if p = None then Some (Inl (VAL_BAD_ARGUMENT, dg))
     else do {
       answers \<leftarrow> fix_zonecut_in_rrset (dg_answers dg) cut;
       proofs \<leftarrow> fix_zonecut_in_rrset (dg_proofs dg) cut;
       zones \<leftarrow> fix_zonecut_in_rrset (dg_zones dg) cut;
       ds \<leftarrow> fix_zonecut_in_rrset (dg_ds dg) cut;
       Some (Inr (dg\<lparr> dg_answers := answers, dg_proofs := proofs, dg_zones := zones, dg_ds := ds \<rparr>))
     }
   }"

definition hints_zonecut :: "message \<Rightarrow> nat \<Rightarrow> rr_fields \<Rightarrow> digest \<Rightarrow> bool" where
  "hints_zonecut m i rr dg \<longleftrightarrow> qc_zonecut_n (dg_query dg) \<noteq> [] \<and> is_authoritive m dg \<and>
     i < unat (mg_answer m) + unat (mg_authority m) \<and>
     (rf_set_type_h rr = ns_t_soa \<or> rf_set_type_h rr = ns_t_dnskey \<and> i < unat (mg_answer m) \<or>
      rf_set_type_h rr = ns_t_ns \<and> (0 < mg_answer m \<or> mg_rcode m \<noteq> ns_r_noerror))"

definition update_zonecut :: "message \<Rightarrow> nat \<Rightarrow> rr_fields \<Rightarrow> digest \<Rightarrow> digested option" where
  "update_zonecut m i rr dg =
     (if \<not> hints_zonecut m i rr dg then Some (Inr dg)
      else do {
        let q = dg_query dg;
        let name_n = rf_name rr;
        lame \<leftarrow> (if rf_set_type_h rr \<noteq> ns_t_soa then Some False
          else do {
            same \<leftarrow> name_eq (qc_zonecut_n q) name_n;
            if same then Some False else do { p \<leftarrow> namename (qc_zonecut_n q) name_n; Some (p \<noteq> None) }
          });
        if lame then Some (fail_with Q_REFERRAL_ERROR dg)
        else do {
          closer \<leftarrow> namename name_n (qc_zonecut_n q);
          if closer = None then Some (Inr dg)
          else do {
            wrong \<leftarrow> (if qc_type_h q = ns_t_ds then namename name_n (qc_name_n q) else Some None);
            if wrong \<noteq> None then Some (fail_with Q_WRONG_ANSWER dg)
            else do {
              same \<leftarrow> name_eq (qc_zonecut_n q) name_n;
              if same then Some (Inr dg) else set_zonecut name_n dg
            }
          }
        }
      })"

text \<open>An NS set in the authority section of a response without answers is a referral; there can be one zone only.\<close>

definition note_referral :: "message \<Rightarrow> byte \<Rightarrow> rr_fields \<Rightarrow> digest \<Rightarrow> digested option" where
  "note_referral m sec rr dg =
     (if rf_set_type_h rr = ns_t_ns \<and> sec = VAL_FROM_AUTHORITY \<and> mg_answer m = 0 then (case dg_referral dg of
        None \<Rightarrow> do {
          wrong \<leftarrow> sc_and (Some (qc_type_h (dg_query dg) = ns_t_ds)) (name_eq (rf_name rr) (qc_name_n (dg_query dg)));
          if wrong then Some (fail_with Q_WRONG_ANSWER dg)
          else do {
            len \<leftarrow> wire_name_length (rf_name rr);
            zone \<leftarrow> seg (rf_name rr) 0 len;
            Some (Inr (dg\<lparr> dg_referral := Some zone \<rparr>))
          }
        }
      | Some zone \<Rightarrow> do {
          same \<leftarrow> name_eq zone (rf_name rr);
          Some (if same then Inr dg else fail_with Q_REFERRAL_ERROR dg)
        })
      else Some (Inr dg))"

text \<open>One turn of the loop.\<close>

definition no_alias_for :: "rr_fields \<Rightarrow> digest \<Rightarrow> bool option" where
  "no_alias_for rr dg = (let q = dg_query dg in do {
     soa \<leftarrow> sc_and (Some (qc_type_h q = ns_t_ds \<and> rf_set_type_h rr = ns_t_soa)) (name_eq (rf_name rr) (qc_name_n q));
     Some (soa \<or> (rf_set_type_h rr = ns_t_cname \<or> rf_set_type_h rr = ns_t_dname) \<and> \<not> alias_match_type (qc_type_h q))
   })"

definition section_of :: "message \<Rightarrow> nat \<Rightarrow> byte" where
  "section_of m i = (if i < unat (mg_answer m) then VAL_FROM_ANSWER
     else if i < unat (mg_answer m) + unat (mg_authority m) then VAL_FROM_AUTHORITY else VAL_FROM_ADDITIONAL)"

definition digest_record :: "message \<Rightarrow> nat \<Rightarrow> rr_fields \<Rightarrow> byte list \<Rightarrow> digest \<Rightarrow> digested option" where
  "digest_record m i rr rdata dg = and_then (keep_rr m (section_of m i) rr rdata dg) (\<lambda>dg. do {
     wrong \<leftarrow> no_alias_for rr dg;
     if wrong then Some (fail_with Q_WRONG_ANSWER dg)
     else and_then (update_zonecut m i rr dg) (note_referral m (section_of m i) rr)
   })"

definition digest_rr :: "message \<Rightarrow> nat \<Rightarrow> digest \<Rightarrow> digested option" where
  "digest_rr m i dg = do {
     x \<leftarrow> extract_from_rr (mg_data m) (dg_index dg) (mg_end m);
     case x of Inl _ \<Rightarrow> Some (fail_with Q_RESPONSE_ERROR dg)
     | Inr rr \<Rightarrow> do {
         d \<leftarrow> decompress (mg_junk m) (mg_data m) (rf_rdata_index rr) (mg_end m) (rf_type_h rr) (rf_rdata_length_h rr);
         case d of Inl _ \<Rightarrow> Some (fail_with Q_RESPONSE_ERROR dg)
         | Inr rdata \<Rightarrow> digest_record m i rr rdata (dg\<lparr> dg_index := rf_response_index rr \<rparr>)
       }
   }"

fun digest_loop :: "message \<Rightarrow> nat \<Rightarrow> nat \<Rightarrow> digest \<Rightarrow> digested option" where
  "digest_loop m 0 i dg = Some (Inr dg)"
| "digest_loop m (Suc n) i dg = and_then (digest_rr m i dg) (digest_loop m n (i + 1))"

subsection \<open>The next step of a query\<close>

record policies =
  po_zse :: "zone_se e_pol"
  po_ta :: "trust_anchor_policy e_pol"
  po_nsec3 :: "int e_pol"

text \<open>What a call changes: the chain of the request, the query cache, the policies and the caches.\<close>

type_synonym world = "queries_for_query list \<times> query_cache \<times> policies \<times> val_cache"

text \<open>Memory is never short here, so \<open>add_to_qfq_chain\<close> fails only on an empty name, before it has done anything.\<close>

definition also_fetch :: "openssl \<Rightarrow> int \<Rightarrow> int option \<Rightarrow> nat \<Rightarrow> byte list \<Rightarrow> u16 \<Rightarrow> u32 \<Rightarrow> world \<Rightarrow> (val_ret \<times> world) option" where
  "also_fetch C now mr fresh name_n type_h fl w = (case w of (queries, c, po, vc) \<Rightarrow> do {
     r \<leftarrow> add_to_qfq_chain C now mr fresh (po_nsec3 po) c queries name_n type_h 1 fl;
     Some (case r of Inl e \<Rightarrow> (e, w)
       | Inr (_, queries', c', ctx') \<Rightarrow> (VAL_NO_ERROR, queries', c', po\<lparr> po_nsec3 := ctx' \<rparr>, vc))
   })"

text \<open>The DNSKEY set of the current zone and the DS set of the next one are fetched at the same time.\<close>

definition fetch_metadata :: "openssl \<Rightarrow> int \<Rightarrow> int option \<Rightarrow> (nat \<Rightarrow> nat) \<Rightarrow> nat \<Rightarrow> byte list \<Rightarrow> world \<Rightarrow>
    (val_ret \<times> world) option" where
  "fetch_metadata C now mr fr a zone w = (case w of (queries, c, po, vc) \<Rightarrow> do {
     q \<leftarrow> q_heap c a;
     if qc_zonecut_n q = [] \<or> qc_flags q AND VAL_QUERY_DONT_VALIDATE \<noteq> 0 then Some (VAL_NO_ERROR, w)
     else do {
       z \<leftarrow> get_zse now (po_zse po) (qc_zonecut_n q) 0;
       case z of Inl e \<Rightarrow> Some (e, w)
       | Inr (tzonestatus, _, ttl1, zse') \<Rightarrow> do {
           (ret, tp, ttl2, ta') \<leftarrow> find_trust_point now (po_ta po) (qc_zonecut_n q);
           let ttl = set_min_ttl (qc_ttl_x q) ttl1;
           let po' = po\<lparr> po_zse := zse', po_ta := ta' \<rparr>;
           if ret \<noteq> VAL_NO_ERROR then Some (ret, queries, put_query c a (q\<lparr> qc_ttl_x := ttl \<rparr>), po', vc)
           else do {
             let w' = (queries, put_query c a (q\<lparr> qc_ttl_x := set_min_ttl ttl ttl2 \<rparr>), po', vc);
             if tp = [] \<or> tzonestatus \<noteq> VAL_AC_WAIT_FOR_TRUST then Some (VAL_NO_ERROR, w')
             else do {
               (ret, w'') \<leftarrow> also_fetch C now mr (fr 0) (qc_zonecut_n q) ns_t_dnskey (qc_flags q) w';
               if ret \<noteq> VAL_NO_ERROR then Some (ret, w'')
               else do {
                 p \<leftarrow> namename zone tp;
                 if p = None then Some (VAL_NO_ERROR, w'')
                 else also_fetch C now mr (fr 1) zone ns_t_ds (qc_flags q) w''
               }
             }
           }
         }
     }
   })"

text \<open>\<open>follow_referral_or_alias_link\<close>. First the names, answers and, for an alias, proofs go to the referral block.\<close>

definition consume :: "bool \<Rightarrow> val_query_chain \<Rightarrow> byte list list \<Rightarrow> rrset_rec list \<Rightarrow> rrset_rec list \<Rightarrow>
    val_query_chain option" where
  "consume alias_chain q qnames answers proofs = (let d = referral_block q in do {
     ans \<leftarrow> merge_rrset_recs (di_answers d) answers;
     prf \<leftarrow> (if alias_chain then merge_rrset_recs (di_proofs d) proofs else Some (di_proofs d));
     Some (q\<lparr> qc_respondent_server := None,
       qc_respondent_server_options := (if qc_respondent_server q = None then qc_respondent_server_options q else 0),
       qc_ns_list := [], qc_state := Q_INIT,
       qc_referral := Some (d\<lparr> di_queries := (if alias_chain then [] else di_queries d),
         di_qnames := qnames @ di_qnames d, di_answers := ans, di_proofs := prf \<rparr>) \<rparr>)
   })"

text \<open>The tail of it: the servers of the zone are known, or their addresses are on the way.\<close>

definition enter_zone :: "openssl \<Rightarrow> int \<Rightarrow> int option \<Rightarrow> (nat \<Rightarrow> nat) \<Rightarrow> nat \<Rightarrow> byte list \<Rightarrow> rrset_rec list \<Rightarrow>
    name_server list \<Rightarrow> world \<Rightarrow> (val_ret \<times> world) option" where
  "enter_zone C now mr fr a zone learned_zones nss w = (case w of (queries, c, po, vc) \<Rightarrow> do {
     q \<leftarrow> q_heap c a;
     let waiting = qc_state q AND Q_WAIT_FOR_GLUE \<noteq> 0;
     vc \<leftarrow> (if waiting then Some vc else stow_zone_info vc learned_zones (Some q));
     let q = (if waiting then q\<lparr> qc_referral := Some ((referral_block q)\<lparr> di_learned_zones := learned_zones \<rparr>) \<rparr> else q);
     if nss = [] \<and> \<not> waiting
     then Some (VAL_NO_ERROR, queries, put_query c a (q\<lparr> qc_state := Q_MISSING_GLUE \<rparr>), po, vc)
     else do {
       (ret, queries, c, po, vc) \<leftarrow> fetch_metadata C now mr fr a zone (queries, put_query c a q, po, vc);
       if ret \<noteq> VAL_NO_ERROR then Some (ret, queries, c, po, vc)
       else do {
         q \<leftarrow> q_heap c a;
         len \<leftarrow> wire_name_length zone;
         cut \<leftarrow> seg zone 0 len;
         Some (VAL_NO_ERROR, queries, put_query c a (q\<lparr> qc_zonecut_n := cut, qc_ns_list := nss \<rparr>), po, vc)
       }
     }
   })"

definition follow_referral_or_alias_link :: "openssl \<Rightarrow> net_context \<Rightarrow> int \<Rightarrow> int option \<Rightarrow> (nat \<Rightarrow> nat) \<Rightarrow> nat \<Rightarrow> bool \<Rightarrow>
    byte list \<Rightarrow> rrset_rec list \<Rightarrow> byte list list \<Rightarrow> rrset_rec list \<Rightarrow> rrset_rec list \<Rightarrow> world \<Rightarrow> (val_ret \<times> world) option" where
  "follow_referral_or_alias_link C net now mr fr a alias_chain zone learned_zones qnames answers proofs w =
   (case w of (queries, c, po, vc) \<Rightarrow> do {
     q0 \<leftarrow> q_heap c a;
     q \<leftarrow> consume alias_chain q0 qnames answers proofs;
     if alias_chain then Some (VAL_NO_ERROR, queries, put_query c a q, po, vc)
     else do {
       let q = q\<lparr> qc_flags := qc_flags q OR VAL_QUERY_IS_ITERATING \<rparr>;
       (been, qs) \<leftarrow> register_query (di_queries (referral_block q)) (qc_name_n q) (qc_type_h q) zone;
       let q = q\<lparr> qc_referral := Some ((referral_block q)\<lparr> di_queries := qs \<rparr>) \<rparr>;
       if been = ITS_BEEN_DONE
       then Some (VAL_NO_ERROR, queries, put_query c a (q\<lparr> qc_state := Q_REFERRAL_ERROR \<rparr>), po, vc)
       else do {
         (ret, nss, queries, c, ctx) \<leftarrow> bootstrap_referral C net now mr (fr 0) (fr 1) (po_nsec3 po) (put_query c a q)
           queries a zone learned_zones;
         if ret \<noteq> VAL_NO_ERROR then Some (ret, queries, c, po\<lparr> po_nsec3 := ctx \<rparr>, vc)
         else enter_zone C now mr (\<lambda>i. fr (i + 2)) a zone learned_zones nss (queries, c, po\<lparr> po_nsec3 := ctx \<rparr>, vc)
       }
     }
   })"

subsection \<open>The whole response\<close>

text \<open>What \<open>digest_response\<close> puts into \<open>di_response\<close>: answers, proofs and the chain of names.\<close>

type_synonym response = "rrset_rec list \<times> rrset_rec list \<times> byte list list"

definition consume_referral_data :: "val_query_chain \<Rightarrow> response \<Rightarrow> (val_query_chain \<times> response) option" where
  "consume_referral_data q r = (case (qc_referral q, r) of
     (None, _) \<Rightarrow> Some (q, r)
   | (Some d, answers, proofs, qnames) \<Rightarrow> do {
       ans \<leftarrow> merge_rrset_recs (di_answers d) answers;
       prf \<leftarrow> merge_rrset_recs (di_proofs d) proofs;
       Some (q\<lparr> qc_referral := None \<rparr>, ans, prf, qnames @ di_qnames d)
     })"

definition or_null :: "'a list option \<Rightarrow> 'a list" where
  "or_null r = (case r of None \<Rightarrow> [] | Some xs \<Rightarrow> xs)"

text \<open>The query is answered; a query for glue keeps its first answer as zone information.\<close>

definition complete :: "digest \<Rightarrow> val_query_chain \<Rightarrow> val_cache \<Rightarrow> (val_query_chain \<times> response \<times> val_cache) option" where
  "complete dg q vc = do {
     answers \<leftarrow> copy_rrset_rec_list (dg_answers dg);
     proofs \<leftarrow> copy_rrset_rec_list (dg_proofs dg);
     (q, resp) \<leftarrow> consume_referral_data q (or_null answers, or_null proofs, dg_qnames dg);
     let q = q\<lparr> qc_flags := qc_flags q AND NOT VAL_QUERY_IS_ITERATING, qc_state := Q_ANSWERED \<rparr>;
     if qc_flags q AND (VAL_QUERY_GLUE_REQUEST OR VAL_QUERY_DONT_VALIDATE) \<noteq> 0 \<and> dg_answers dg \<noteq> [] \<and>
        \<not> dg_proof_seen dg \<and> \<not> dg_alias dg then do {
       g \<leftarrow> copy_rrset_rec (hd (dg_answers dg));
       vc \<leftarrow> stow_zone_info vc (case g of None \<Rightarrow> [] | Some r \<Rightarrow> [r]) (Some q);
       Some (q, resp, vc)
     }
     else Some (q, resp, vc)
   }"

definition stow_learned :: "digest \<Rightarrow> val_query_chain \<Rightarrow> val_cache \<Rightarrow> val_cache option" where
  "stow_learned dg q vc = do {
     vc \<leftarrow> stow_answers vc (dg_answers dg) (Some q);
     vc \<leftarrow> stow_answers vc (dg_proofs dg) (Some q);
     stow_answers vc (dg_ds dg) (Some q)
   }"

definition digest_finish :: "openssl \<Rightarrow> net_context \<Rightarrow> int \<Rightarrow> int option \<Rightarrow> (nat \<Rightarrow> nat) \<Rightarrow> nat \<Rightarrow> message \<Rightarrow> digest \<Rightarrow> world \<Rightarrow>
    (val_ret \<times> response \<times> world) option" where
  "digest_finish C net now mr fr a m dg w = (case w of (queries, c, po, vc) \<Rightarrow> do {
     q \<leftarrow> (case dg_qnames dg of [] \<Rightarrow> Some (dg_query dg)
       | n # _ \<Rightarrow> do {
           same \<leftarrow> name_eq (qc_name_n (dg_query dg)) n;
           if same then Some (dg_query dg)
           else do { len \<leftarrow> wire_name_length n; name \<leftarrow> seg n 0 len; Some ((dg_query dg)\<lparr> qc_name_n := name \<rparr>) }
         });
     let dg = dg\<lparr> dg_alias := dg_alias dg \<and> dg_answers dg \<noteq> [] \<rparr>;
     let referral = (if dg_proof_seen dg \<and> \<not> dg_alias dg \<and> dg_answers dg = [] \<and> mg_rcode m = ns_r_noerror \<and> dg_soa_seen dg
       then None else dg_referral dg);
     if referral \<noteq> None \<or> dg_alias dg then do {
       answers \<leftarrow> copy_rrset_rec_list (dg_answers dg);
       proofs \<leftarrow> copy_rrset_rec_list (dg_proofs dg);
       (ret, queries, c, po, vc) \<leftarrow> follow_referral_or_alias_link C net now mr fr a (dg_alias dg)
         (case referral of None \<Rightarrow> [] | Some zone \<Rightarrow> zone) (dg_zones dg) (dg_qnames dg) (or_null answers) (or_null proofs)
         (queries, put_query c a q, po, vc);
       if ret \<noteq> VAL_NO_ERROR then Some (ret, ([], [], []), queries, c, po, vc)
       else do {
         q \<leftarrow> q_heap c a;
         vc \<leftarrow> stow_learned dg q vc;
         Some (VAL_NO_ERROR, ([], [], []), queries, c, po, vc)
       }
     }
     else do {
       (q, resp, vc) \<leftarrow> complete dg q vc;
       vc \<leftarrow> stow_learned dg q vc;
       Some (VAL_NO_ERROR, resp, queries, put_query c a q, po, vc)
     }
   })"

definition header_of :: "byte list \<Rightarrow> (u16 \<times> u16 \<times> u16 \<times> bool \<times> nat) option" where
  "header_of bs = do {
     answer \<leftarrow> get16 bs 6;
     authority \<leftarrow> get16 bs 8;
     additional \<leftarrow> get16 bs 10;
     b2 \<leftarrow> rd bs 2;
     b3 \<leftarrow> rd bs 3;
     Some (answer, authority, additional, b2 AND 4 \<noteq> 0, unat (b3 AND 0x0f))
   }"

text \<open>
  \<open>digest_response\<close>. The server of the response is read for a log message before anything else. The sum of the
  three counts has sixteen bits.
\<close>

definition start_digest :: "val_query_chain \<Rightarrow> byte list list \<Rightarrow> u16 \<Rightarrow> nat \<Rightarrow> digest" where
  "start_digest q qnames answer index = \<lparr> dg_query = q, dg_qnames = qnames, dg_answers = [], dg_proofs = [], dg_zones = [],
     dg_ds = [], dg_alias = (answer \<noteq> 0), dg_proof_seen = False, dg_soa_seen = False, dg_referral = None, dg_index = index \<rparr>"

definition printable_name :: "byte list \<Rightarrow> bool option" where
  "printable_name n = (if n = [] then Some True else do { p \<leftarrow> ns_name_ntop n NS_MAXDNAME; Some (p \<noteq> None) })"

definition digest_response :: "openssl \<Rightarrow> net_context \<Rightarrow> int \<Rightarrow> int option \<Rightarrow> (nat \<Rightarrow> byte) \<Rightarrow> (nat \<Rightarrow> nat) \<Rightarrow> nat \<Rightarrow> byte list \<Rightarrow>
    world \<Rightarrow> (val_ret \<times> response \<times> world) option" where
  "digest_response C net now mr junk fr a bs w = (case w of (queries, c, po, vc) \<Rightarrow> do {
     q \<leftarrow> q_heap c a;
     resp_ns \<leftarrow> qc_respondent_server q;
     (answer, authority, additional, aa, rcode) \<leftarrow> header_of bs;
     (ret, qnames) \<leftarrow> add_to_qname_chain [] (qc_name_n q);
     if ret \<noteq> VAL_NO_ERROR then Some (ret, ([], [], qnames), w)
     else do {
       ok1 \<leftarrow> printable_name (qc_name_n q);
       ok2 \<leftarrow> (if ok1 then printable_name (qc_zonecut_n q) else Some False);
       if \<not> ok2 then Some (VAL_BAD_ARGUMENT, ([], [], qnames), w)
       else do {
         tot \<leftarrow> (if length bs \<le> 12 then Some 0
           else do { sub \<leftarrow> ptr bs 12; l \<leftarrow> wire_name_length sub; Some (12 + l + 4) });
         let here = (0 < tot \<and> tot \<le> length bs);
         let hptr = (if here then bs else []);
         let rrs_to_go = answer + authority + additional;
         if rrs_to_go = 0 \<or> rrs_to_go = additional then do {
           (ret, proofs) \<leftarrow> prepare_empty_nonexistence [] (Some resp_ns) (qc_name_n q) (qc_type_h q) (qc_class_h q) hptr;
           (q', resp) \<leftarrow> consume_referral_data (q\<lparr> qc_state := Q_ANSWERED \<rparr>) ([], proofs, qnames);
           Some (ret, resp, queries, put_query c a q', po, vc)
         }
         else do {
           let m = \<lparr> mg_data = bs, mg_end = length bs, mg_answer = answer, mg_authority = authority, mg_additional = additional,
             mg_aa = aa, mg_rcode = rcode, mg_hptr = hptr, mg_server = Some resp_ns, mg_time = Some now,
             mg_ip4 = val_context_ip4 net, mg_ip6 = val_context_ip6 net, mg_junk = junk \<rparr>;
           r \<leftarrow> digest_loop m (unat rrs_to_go) 0 (start_digest q qnames answer (if here then tot else 0));
           case r of
             Inl (ret, dg) \<Rightarrow> Some (ret, ([], [], dg_qnames dg), queries, put_query c a (dg_query dg), po, vc)
           | Inr dg \<Rightarrow> digest_finish C net now mr fr a m dg w
         }
       }
     }
   })"

subsection \<open>Names that can be read\<close>

text \<open>A buffer holds a name exactly when \<open>wire_name_length\<close> answers a length for it.\<close>

lemma wnl_scan_labels:
  "wnl_scan field j = Some k \<Longrightarrow> k < NS_MAXCDNAME \<Longrightarrow> rd field k = Some 0 \<Longrightarrow>
   \<exists>ls. list_all wf_label ls \<and> drop j field = enc ls @ drop (Suc k) field \<and> j + length (encl ls) = k"
proof (induction field j rule: wnl_scan.induct)
  case (1 field j)
  show ?case
  proof (cases "j < NS_MAXCDNAME")
    case True
    with 1(2) obtain b where b: "rd field j = Some b" by (subst (asm) wnl_scan.simps) (auto split: Option.bind_splits)
    show ?thesis
    proof (cases "b \<noteq> 0 \<and> 0xc0 AND b = 0")
      case True
      with 1(2) b \<open>j < NS_MAXCDNAME\<close> have "wnl_scan field (j + unat b + 1) = Some k" by (subst (asm) wnl_scan.simps) simp
      from 1(1) [OF \<open>j < NS_MAXCDNAME\<close> b True this 1(3,4)] obtain ls where
        ls: "list_all wf_label ls" "drop (j + unat b + 1) field = enc ls @ drop (Suc k) field"
        "j + unat b + 1 + length (encl ls) = k" by blast
      let ?l = "take (unat b) (drop (Suc j) field)"
      have j: "j < length field" "field ! j = b" using b by (simp_all add: rd_eq_Some_iff)
      have k: "k < length field" using 1(4) by (simp add: rd_eq_Some_iff)
      have len: "length ?l = unat b" using ls(3) k by simp
      have "0 < unat b" "unat b \<le> 63" using True by (simp_all add: and_c0_eq_0_iff unat_gt_0)
      then have wf: "wf_label ?l" using len by (simp add: wf_label_def)
      have "drop j field = b # drop (Suc j) field" using j by (metis Cons_nth_drop_Suc)
      also have "drop (Suc j) field = ?l @ drop (j + unat b + 1) field"
        by (metis append_take_drop_id drop_drop add.commute add_Suc_right Suc_eq_plus1)
      finally have "drop j field = enc (?l # ls) @ drop (Suc k) field" using ls(2) len by simp
      with ls(1,3) wf len show ?thesis by (intro exI [of _ "?l # ls"]) simp
    next
      case False
      with 1(2) b True have "k = j" by (subst (asm) wnl_scan.simps) simp
      with 1(4) have "drop j field = 0 # drop (Suc k) field" by (metis Cons_nth_drop_Suc rd_eq_Some_iff)
      with \<open>k = j\<close> show ?thesis by (intro exI [of _ "[]"]) simp
    qed
  next
    case False
    with 1(2,3) show ?thesis by (simp add: wnl_scan.simps)
  qed
qed

lemma valid_name_iff: "valid_name n \<longleftrightarrow> (\<exists>k. wire_name_length n = Some k \<and> 0 < k)"
proof
  assume "valid_name n"
  then show "\<exists>k. wire_name_length n = Some k \<and> 0 < k" by (rule name_bytes_seg) blast
next
  assume "\<exists>k. wire_name_length n = Some k \<and> 0 < k"
  then obtain j where j: "wnl_scan n 0 = Some j" "j < NS_MAXCDNAME" "rd n j = Some 0"
    by (auto simp: wire_name_length_def split: Option.bind_splits if_splits)
  from wnl_scan_labels [OF j] obtain ls where "list_all wf_label ls" "n = enc ls @ drop (Suc j) n" "length (encl ls) = j"
    by auto
  moreover from this j(2) have "wf_name ls" by (simp add: wf_name_def length_enc)
  ultimately have "encodes n ls" unfolding encodes_def by blast
  then show "valid_name n" by (rule encodes_valid)
qed

subsection \<open>The sets of a response have names\<close>

lemma seg_name: "wire_name_length n = Some k \<Longrightarrow> seg n 0 k = Some b \<Longrightarrow> 0 < k \<Longrightarrow> valid_name b"
  using valid_name_iff [of n] name_bytes_valid(2) [of n] by (auto simp: seg_def name_bytes_def split: if_splits)

lemma init_rr_set_name:
  assumes "init_rr_set tv new n t c ttl hptr sec au it ns = Some (VAL_NO_ERROR, r)" "rrs_name_n new = []"
  shows "ok_rrset r"
  using assms seg_name
  by (auto simp: init_rr_set_def ok_rrset_def Let_def split: Option.bind_splits if_splits)

lemma find_rr_set_ok:
  assumes "find_rr_set tv ns l n t st c ttl hptr rdata sec au it zc = Some (l', f)" "list_all ok_rrset l"
  shows "list_all ok_rrset l' \<and> (\<forall>i. f = Some i \<longrightarrow> i < length l')"
proof -
  have idx: "find_one l n t st c rdata k = Some (Some i) \<Longrightarrow> i < k + length l" for i k
    by (induction l arbitrary: k) (fastforce split: Option.bind_splits if_splits)+
  show ?thesis
    using assms idx [of 0] init_rr_set_name
    by (auto simp: find_rr_set_def Let_def list_all_iff ok_rrset_def zero_rrset_def dest!: set_update_subset_insert [THEN subsetD]
        split: Option.bind_splits if_splits option.splits)
qed


lemma save_rr_ok:
  assumes "save_rr m sec rr rdata zc dg l = Some (Inr l')" "list_all ok_rrset l"
  shows "list_all ok_rrset l'"
proof -
  from assms(1) obtain sets i where f: "find_rr_set (mg_time m) (mg_server m) l (rf_name rr) (rf_type_h rr) (rf_set_type_h rr)
      (rf_class_h rr) (rf_ttl_h rr) (mg_hptr m) rdata sec (is_authoritive m dg) (is_iterative dg) zc = Some (sets, Some i)"
    by (auto simp: save_rr_def save_rr_to_list_def split: Option.bind_splits option.splits)
  note ok = find_rr_set_ok [OF f assms(2)]
  then have oki: "ok_rrset (sets ! i)" by (simp add: list_all_length)
  have upd: "list_all ok_rrset (sets[i := r])" if "rrs_name_n r = rrs_name_n (sets ! i)" for r
    using ok oki that by (auto simp: list_all_iff ok_rrset_def dest!: set_update_subset_insert [THEN subsetD])
  show ?thesis
    using assms(1) f
    by (auto simp: save_rr_def save_rr_to_list_def add_to_set_def add_as_sig_def split: Option.bind_splits option.splits if_splits
        intro!: upd)
qed

lemma fix_zonecut_ok: "fix_zonecut_in_rrset l zc = Some l' \<Longrightarrow> list_all ok_rrset l \<Longrightarrow> list_all ok_rrset l'"
  by (induction l arbitrary: l') (auto simp: ok_rrset_def split: Option.bind_splits if_splits)

text \<open>What every record keeps: the names of the sets, and the references to the query.\<close>

definition ok_digest :: "int \<Rightarrow> digest \<Rightarrow> bool" where
  "ok_digest n dg \<longleftrightarrow> list_all ok_rrset (dg_answers dg) \<and> list_all ok_rrset (dg_proofs dg) \<and>
     list_all ok_rrset (dg_zones dg) \<and> list_all ok_rrset (dg_ds dg) \<and> qc_refcount (dg_query dg) = n"

fun ok_digested :: "int \<Rightarrow> digested \<Rightarrow> bool" where
  "ok_digested n (Inl (ret, dg)) \<longleftrightarrow> qc_refcount (dg_query dg) = n"
| "ok_digested n (Inr dg) \<longleftrightarrow> ok_digest n dg"

lemma register_alias_refcount: "register_alias q n = Some (b, q') \<Longrightarrow> qc_refcount q' = qc_refcount q"
  by (auto simp: register_alias_def Let_def split: Option.bind_splits if_splits)

lemma process_aliases_refcount:
  "process_cname_dname_responses n t rdata q qs = Some (ret, q', qs', err) \<Longrightarrow> qc_refcount q' = qc_refcount q"
  by (auto simp: process_cname_dname_responses_def process_cname_def process_dname_def dest!: register_alias_refcount
      split: Option.bind_splits if_splits option.splits)

lemma fail_with_ok: "ok_digest n dg \<Longrightarrow> ok_digested n (fail_with st dg)"
  by (simp add: fail_with_def ok_digest_def)

lemma follow_alias_ok:
  "follow_alias rr rdata dg = Some r \<Longrightarrow> ok_digest n dg \<Longrightarrow> ok_digested n r"
  by (auto simp: follow_alias_def ok_digest_def Let_def dest!: process_aliases_refcount split: Option.bind_splits if_splits)

lemma saved_ok:
  assumes "save_rr m sec rr rdata zc dg l \<bind> (\<lambda>r. Some (saved dg upd r)) = Some x" "ok_digest n dg" "list_all ok_rrset l"
    and "\<And>sets. list_all ok_rrset sets \<Longrightarrow> ok_digest n (upd sets)"
  shows "ok_digested n x"
proof -
  from assms(1) obtain r where "save_rr m sec rr rdata zc dg l = Some r" "x = saved dg upd r"
    by (auto split: Option.bind_splits)
  with assms(2-4) save_rr_ok [OF _ assms(3)] show ?thesis by (cases r) (auto simp: saved_def ok_digest_def)
qed

lemma and_then_ok:
  assumes "and_then x f = Some r" "\<And>r. x = Some r \<Longrightarrow> ok_digested n r"
    "\<And>dg r. ok_digest n dg \<Longrightarrow> f dg = Some r \<Longrightarrow> ok_digested n r"
  shows "ok_digested n r"
  using assms by (auto simp: and_then_def split: Option.bind_splits sum.splits)

lemma keep_rr_ok:
  assumes "keep_rr m sec rr rdata dg = Some r" "ok_digest n dg"
  shows "ok_digested n r"
proof -
  from assms(1) obtain relevant where rel: "is_relevant rr dg = Some relevant"
    by (auto simp: keep_rr_def split: Option.bind_splits)
  show ?thesis
  proof (cases "sec = VAL_FROM_ANSWER \<and> relevant")
    case True
    with assms(1) rel have "and_then (follow_alias rr rdata dg) (\<lambda>dg. do {
         r \<leftarrow> save_rr m sec rr rdata (qc_zonecut_n (dg_query dg)) dg (dg_answers dg);
         Some (saved dg (\<lambda>sets. dg\<lparr> dg_answers := sets \<rparr>) r)
       }) = Some r" by (simp add: keep_rr_def)
    then show ?thesis
      by (rule and_then_ok) (use follow_alias_ok [OF _ assms(2)] in \<open>auto elim!: saved_ok simp: ok_digest_def\<close>)
  next
    case False
    with assms rel show ?thesis
      by (auto simp: keep_rr_def Let_def ok_digest_def split: if_splits elim!: saved_ok)
  qed
qed

lemma update_zonecut_ok:
  assumes "update_zonecut m i rr dg = Some r" "ok_digest n dg"
  shows "ok_digested n r"
  using assms
  by (auto simp: update_zonecut_def set_zonecut_def Let_def fail_with_ok split: Option.bind_splits if_splits)
    (auto simp: ok_digest_def dest: fix_zonecut_ok)

lemma note_referral_ok:
  assumes "note_referral m sec rr dg = Some r" "ok_digest n dg"
  shows "ok_digested n r"
  using assms
  by (auto simp: note_referral_def fail_with_ok split: Option.bind_splits if_splits option.splits) (auto simp: ok_digest_def)

lemma digest_record_ok:
  assumes "digest_record m i rr rdata dg = Some r" "ok_digest n dg"
  shows "ok_digested n r"
  using assms(1) unfolding digest_record_def
proof (rule and_then_ok)
  fix r assume "keep_rr m (section_of m i) rr rdata dg = Some r"
  then show "ok_digested n r" by (rule keep_rr_ok) (rule assms(2))
next
  fix dg r
  assume dg: "ok_digest n dg" and r: "(do {
     wrong \<leftarrow> no_alias_for rr dg;
     if wrong then Some (fail_with Q_WRONG_ANSWER dg)
     else and_then (update_zonecut m i rr dg) (note_referral m (section_of m i) rr)
   }) = Some r"
  obtain wrong where w: "no_alias_for rr dg = Some wrong" using r by (cases "no_alias_for rr dg") simp_all
  show "ok_digested n r"
  proof (cases wrong)
    case True
    with r w have "r = fail_with Q_WRONG_ANSWER dg" by simp
    with fail_with_ok [OF dg] show ?thesis by simp
  next
    case False
    with r w have "and_then (update_zonecut m i rr dg) (note_referral m (section_of m i) rr) = Some r" by simp
    then show ?thesis by (rule and_then_ok) (use update_zonecut_ok [OF _ dg] note_referral_ok in blast)+
  qed
qed

lemma digest_rr_ok:
  assumes r: "digest_rr m i dg = Some r" and dg: "ok_digest n dg"
  shows "ok_digested n r"
proof -
  have idx: "ok_digest n (dg\<lparr> dg_index := k \<rparr>)" for k using dg by (simp add: ok_digest_def)
  obtain x where x: "extract_from_rr (mg_data m) (dg_index dg) (mg_end m) = Some x"
    using r unfolding digest_rr_def by (cases "extract_from_rr (mg_data m) (dg_index dg) (mg_end m)") simp_all
  show ?thesis
  proof (cases x)
    case (Inl e)
    with r x have "r = fail_with Q_RESPONSE_ERROR dg" by (simp add: digest_rr_def)
    with fail_with_ok [OF dg] show ?thesis by simp
  next
    case (Inr rr)
    let ?d = "decompress (mg_junk m) (mg_data m) (rf_rdata_index rr) (mg_end m) (rf_type_h rr) (rf_rdata_length_h rr)"
    obtain d where d: "?d = Some d" using r x Inr unfolding digest_rr_def by (cases ?d) simp_all
    show ?thesis
    proof (cases d)
      case (Inl e)
      with r x \<open>x = Inr rr\<close> d have "r = fail_with Q_RESPONSE_ERROR dg" by (simp add: digest_rr_def)
      with fail_with_ok [OF dg] show ?thesis by simp
    next
      case (Inr rdata)
      with r x \<open>x = Inr rr\<close> d have "digest_record m i rr rdata (dg\<lparr> dg_index := rf_response_index rr \<rparr>) = Some r"
        by (simp add: digest_rr_def)
      then show ?thesis by (rule digest_record_ok) (rule idx)
    qed
  qed
qed

lemma digest_loop_ok: "digest_loop m k i dg = Some r \<Longrightarrow> ok_digest n dg \<Longrightarrow> ok_digested n r"
proof (induction k arbitrary: i dg r)
  case (Suc k)
  from Suc.prems(1) have "and_then (digest_rr m i dg) (digest_loop m k (i + 1)) = Some r" by simp
  then show ?case by (rule and_then_ok) (use digest_rr_ok [OF _ Suc.prems(2)] Suc.IH in blast)+
qed simp

subsection \<open>A response keeps the requests and the caches consistent\<close>

lemma stow_info_wf:
  assumes "stow_info l new_info Q = Some l'" "wf_store l" "list_all ok_rrset new_info"
  shows "wf_store l' \<and> (\<exists>xs. stamps l' = stamps l @ xs) \<and>
    rrset_key ` set l' \<subseteq> rrset_key ` set l \<union> rrset_key ` {n \<in> set new_info. in_bailiwick (rrs_name_n n) Q = Some True}"
  using assms
proof (induction new_info arbitrary: l)
  case (Cons n ns)
  from Cons.prems(1) obtain b where b: "in_bailiwick (rrs_name_n n) Q = Some b" by (auto split: Option.bind_splits)
  show ?case
  proof (cases "\<not> b \<or> rrs_type_h n = ns_t_nsec3 \<or> rrs_type_h n = ns_t_nsec")
    case True
    with b Cons.prems(1) have run: "stow_info l ns Q = Some l'" by auto
    have "list_all ok_rrset ns" using Cons.prems(3) by simp
    from Cons.IH [OF run Cons.prems(2) this] show ?thesis by auto
  next
    case False
    have ok: "ok_rrset n" "list_all ok_rrset l" "distinct (map rrset_key l)"
      using Cons.prems by (simp_all add: wf_store_def)
    have run: "stow_info (stowed l n) ns Q = Some l'"
      using False b Cons.prems(1) stow_one_eq [OF ok(2,1,3)] by simp
    have w: "wf_store (stowed l n) \<and> rrset_key ` set (stowed l n) = insert (rrset_key n) (rrset_key ` set l)"
      by (rule stowed_wf) (use False ok Cons.prems in auto)
    obtain ys where "stamps (stowed l n) = stamps l @ ys" using stowed_stamps by blast
    have "list_all ok_rrset ns" using Cons.prems(3) by simp
    from \<open>stamps (stowed l n) = stamps l @ ys\<close> Cons.IH [OF run conjunct1 [OF w] this] show ?thesis using w b False by auto
  qed
qed simp

text \<open>The caches are well formed, and a later state of them extends an earlier one.\<close>

definition wf_cache :: "val_cache \<Rightarrow> bool" where
  "wf_cache vc \<longleftrightarrow> wf_store (unchecked_hints vc) \<and> wf_store (unchecked_answers vc)"

definition extends :: "val_cache \<Rightarrow> val_cache \<Rightarrow> bool" where
  "extends vc vc' \<longleftrightarrow> wf_cache vc' \<and> (\<exists>xs. stamps (unchecked_hints vc') = stamps (unchecked_hints vc) @ xs) \<and>
     (\<exists>ys. stamps (unchecked_answers vc') = stamps (unchecked_answers vc) @ ys)"

lemma extends_refl: "wf_cache vc \<Longrightarrow> extends vc vc"
  by (simp add: extends_def)

lemma extends_trans: "extends a b \<Longrightarrow> extends b c \<Longrightarrow> extends a c"
  by (auto simp: extends_def)

lemma stow_answers_extends:
  assumes "stow_answers vc new_info Q = Some vc'" "wf_cache vc" "list_all ok_rrset new_info"
  shows "extends vc vc'"
  using assms stow_info_wf [of "unchecked_answers vc" new_info Q]
  by (auto simp: stow_answers_def extends_def wf_cache_def split: Option.bind_splits)

lemma stow_zone_info_extends:
  assumes "stow_zone_info vc new_info Q = Some vc'" "wf_cache vc" "list_all ok_rrset new_info"
  shows "extends vc vc'"
  using assms stow_info_wf [of "unchecked_hints vc" new_info Q]
  by (auto simp: stow_zone_info_def extends_def wf_cache_def split: Option.bind_splits if_splits)

lemma stow_learned_extends:
  assumes "stow_learned dg q vc = Some vc'" "wf_cache vc" "ok_digest n dg"
  shows "extends vc vc'"
proof -
  from assms(1) obtain vc1 vc2 where "stow_answers vc (dg_answers dg) (Some q) = Some vc1"
      "stow_answers vc1 (dg_proofs dg) (Some q) = Some vc2" "stow_answers vc2 (dg_ds dg) (Some q) = Some vc'"
    by (auto simp: stow_learned_def split: Option.bind_splits)
  with assms(2,3) stow_answers_extends show ?thesis
    unfolding ok_digest_def by (meson extends_def extends_trans)
qed

lemma copy_rrset_ok:
  assumes "copy_rrset_rec r = Some (Some r')" "ok_rrset r"
  shows "ok_rrset r'"
proof -
  obtain k where k: "wire_name_length (rrs_name_n r) = Some k" "0 < k"
    using assms(2) valid_name_iff [of "rrs_name_n r"] by (auto simp: ok_rrset_def)
  with assms(1) have "seg (rrs_name_n r) 0 k = Some (rrs_name_n r')"
    by (auto simp: copy_rrset_rec_def split: Option.bind_splits if_splits option.splits)
  from seg_name [OF k(1) this k(2)] show ?thesis by (simp add: ok_rrset_def)
qed

lemma consume_referral_refcount:
  "consume_referral_data q r = Some (q', r') \<Longrightarrow> qc_refcount q' = qc_refcount q"
  by (auto simp: consume_referral_data_def split: Option.bind_splits option.splits prod.splits)

lemma complete_kept:
  assumes "complete dg q vc = Some (q', resp, vc')" "wf_cache vc" "ok_digest n dg"
  shows "qc_refcount q' = qc_refcount q \<and> extends vc vc'"
proof -
  have hd: "list_all ok_rrset (case g of None \<Rightarrow> [] | Some r \<Rightarrow> [r])"
    if "copy_rrset_rec (hd (dg_answers dg)) = Some g" "dg_answers dg \<noteq> []" for g
    using that assms(3) copy_rrset_ok [of "hd (dg_answers dg)"]
    by (cases "dg_answers dg") (auto simp: ok_digest_def split: option.splits)
  obtain ans pr q1 where q1: "consume_referral_data q (or_null ans, or_null pr, dg_qnames dg) = Some (q1, resp)"
    and rc: "qc_refcount q' = qc_refcount q1"
    and vc: "vc' = vc \<or> (\<exists>g. dg_answers dg \<noteq> [] \<and> copy_rrset_rec (hd (dg_answers dg)) = Some g \<and>
       stow_zone_info vc (case g of None \<Rightarrow> [] | Some r \<Rightarrow> [r]) (Some q') = Some vc')"
    using assms(1) by (auto simp: complete_def Let_def split: Option.bind_splits if_splits)
  have "extends vc vc'" using vc extends_refl [OF assms(2)] stow_zone_info_extends [OF _ assms(2) hd] by blast
  with consume_referral_refcount [OF q1] rc show ?thesis by simp
qed

definition kept :: "openssl \<Rightarrow> queries_for_query list list \<Rightarrow> nat \<Rightarrow> val_cache \<Rightarrow> nat set \<Rightarrow> world \<Rightarrow> bool" where
  "kept C cs i vc0 D w \<longleftrightarrow> (case w of (queries, c, po, vc) \<Rightarrow>
     reachable C (c, cs[i := queries]) \<and> dom (q_heap c) \<subseteq> D \<and> extends vc0 vc)"

lemma kept_put:
  "kept C cs i vc0 D (queries, c, po, vc) \<Longrightarrow> q_heap c a = Some q \<Longrightarrow> qc_refcount q' = qc_refcount q \<Longrightarrow>
   kept C cs i vc0 D (queries, put_query c a q', po', vc)"
  using put_query_reachable [of C c "cs[i := queries]" a q q'] put_query_dom [of c a q q'] by (simp add: kept_def)

lemma kept_stow: "kept C cs i vc0 D (queries, c, po, vc) \<Longrightarrow> extends vc vc' \<Longrightarrow> kept C cs i vc0 D (queries, c, po', vc')"
  by (auto simp: kept_def intro: extends_trans)

lemma kept_more: "kept C cs i vc0 D w \<Longrightarrow> D \<subseteq> D' \<Longrightarrow> kept C cs i vc0 D' w"
  by (auto simp: kept_def)

lemma kept_wf: "kept C cs i vc0 D (queries, c, po, vc) \<Longrightarrow> wf_cache vc"
  by (simp add: kept_def extends_def)

lemma also_fetch_kept:
  assumes f: "also_fetch C now mr fresh name_n type_h fl w = Some (ret, w')" and k: "kept C cs i vc0 D w"
    and i: "i < length cs" and fresh: "fresh \<notin> D"
  shows "kept C cs i vc0 (insert fresh D) w'"
proof -
  obtain queries c po vc where w: "w = (queries, c, po, vc)" by (cases w)
  from k w have reach: "reachable C (c, cs[i := queries])" and d: "dom (q_heap c) \<subseteq> D" and e: "extends vc0 vc"
    by (simp_all add: kept_def)
  from f w obtain r where r: "add_to_qfq_chain C now mr fresh (po_nsec3 po) c queries name_n type_h 1 fl = Some r"
    by (auto simp: also_fetch_def split: Option.bind_splits)
  show ?thesis
  proof (cases r)
    case (Inl e)
    with f w r have "w' = w" by (simp add: also_fetch_def)
    with k show ?thesis using kept_more by blast
  next
    case (Inr z)
    obtain j es c' ctx' where z: "z = (j, es, c', ctx')" by (cases z)
    with f w r Inr have w': "w' = (es, c', po\<lparr> po_nsec3 := ctx' \<rparr>, vc)" by (simp add: also_fetch_def)
    have add: "add_to_qfq_chain C now mr fresh (po_nsec3 po) c (cs[i := queries] ! i) name_n type_h 1 fl = Some (Inr (j, es, c', ctx'))"
      using r Inr z i by simp
    have "q_heap c fresh = None" using d fresh by auto
    then have "step C (c, cs[i := queries]) (c', (cs[i := queries])[i := es])" using add i by (intro step.add_query) auto
    with reach have "reachable C (c', cs[i := es])" using reachable.reach_step by fastforce
    with add_to_qfq_chain_dom [OF add] d e w' show ?thesis by (auto simp: kept_def)
  qed
qed

lemma fetch_metadata_kept:
  assumes f: "fetch_metadata C now mr fr a zone w = Some (ret, w')" and k: "kept C cs i vc0 D w"
    and i: "i < length cs" and fresh: "fr 0 \<notin> D" "fr 1 \<notin> D" "fr 0 \<noteq> fr 1"
  shows "kept C cs i vc0 (insert (fr 0) (insert (fr 1) D)) w'"
proof -
  obtain queries c po vc where w: "w = (queries, c, po, vc)" by (cases w)
  from f w obtain q where q: "q_heap c a = Some q" by (auto simp: fetch_metadata_def split: Option.bind_splits)
  have put: "kept C cs i vc0 (insert (fr 0) (insert (fr 1) D)) (queries, put_query c a (q\<lparr> qc_ttl_x := t \<rparr>), po', vc)" for t po'
    by (rule kept_more [OF kept_put [OF k [unfolded w] q]]) auto
  have same: "kept C cs i vc0 (insert (fr 0) (insert (fr 1) D)) w" by (rule kept_more [OF k]) auto
  have ds: "kept C cs i vc0 (insert (fr 0) (insert (fr 1) D)) w3"
    if "also_fetch C now mr (fr 1) n2 ty2 fl2 w2 = Some (ret3, w3)" "kept C cs i vc0 (insert (fr 0) D) w2"
    for w2 w3 ret3 n2 ty2 fl2
  proof -
    have "fr 1 \<notin> insert (fr 0) D" using fresh by auto
    from also_fetch_kept [OF that i this] show ?thesis by (simp add: insert_commute)
  qed
  have key: "kept C cs i vc0 (insert (fr 0) D) w2"
    if "also_fetch C now mr (fr 0) n1 ty1 fl1 (queries, put_query c a (q\<lparr> qc_ttl_x := t \<rparr>), po', vc) = Some (ret2, w2)"
    for t po' n1 ty1 fl1 ret2 w2
    by (rule also_fetch_kept [OF that kept_put [OF k [unfolded w] q] i fresh(1)]) simp
  have key': "kept C cs i vc0 (insert (fr 0) (insert (fr 1) D)) w2"
    if "also_fetch C now mr (fr 0) n1 ty1 fl1 (queries, put_query c a (q\<lparr> qc_ttl_x := t \<rparr>), po', vc) = Some (ret2, w2)"
    for t po' n1 ty1 fl1 ret2 w2
    by (rule kept_more [OF key [OF that]]) auto
  show ?thesis
    using f same unfolding w
    by (auto simp: fetch_metadata_def Let_def q simp del: One_nat_def split: Option.bind_splits if_splits sum.splits)
      (erule ds key' ds [OF _ key] | rule put)+
qed

lemma consume_refcount: "consume alias_chain q qnames answers proofs = Some q' \<Longrightarrow> qc_refcount q' = qc_refcount q"
  by (auto simp: consume_def Let_def split: Option.bind_splits)

lemma enter_zone_kept:
  assumes f: "enter_zone C now mr fr a zone learned_zones nss w = Some (ret, w')"
    and k: "kept C cs i vc0 D w" and i: "i < length cs" and fr: "inj fr" "range fr \<inter> D = {}"
    and ok: "list_all ok_rrset learned_zones"
  shows "kept C cs i vc0 (D \<union> range fr) w'"
proof -
  obtain queries c po vc where w: "w = (queries, c, po, vc)" by (cases w)
  from f w obtain q where q: "q_heap c a = Some q" by (auto simp: enter_zone_def split: Option.bind_splits)
  let ?waiting = "qc_state q AND Q_WAIT_FOR_GLUE \<noteq> 0"
  let ?q = "if ?waiting then q\<lparr> qc_referral := Some ((referral_block q)\<lparr> di_learned_zones := learned_zones \<rparr>) \<rparr> else q"
  from f w q obtain vc1 where vc1: "(if ?waiting then Some vc else stow_zone_info vc learned_zones (Some q)) = Some vc1"
    by (auto simp: enter_zone_def Let_def split: Option.bind_splits)
  have "wf_cache vc" using k w kept_wf by simp
  then have "extends vc vc1"
    using vc1 stow_zone_info_extends [OF _ _ ok] extends_refl by (auto split: if_splits)
  then have k1: "kept C cs i vc0 D (queries, c, po, vc1)" using k w kept_stow by simp
  have put: "kept C cs i vc0 D (queries, put_query c a q', po, vc1)" if "qc_refcount q' = qc_refcount q" for q'
    by (rule kept_put [OF k1 q that])
  show ?thesis
  proof (cases "nss = [] \<and> \<not> ?waiting")
    case True
    with f w q vc1 have "w' = (queries, put_query c a (?q\<lparr> qc_state := Q_MISSING_GLUE \<rparr>), po, vc1)"
      by (simp add: enter_zone_def Let_def)
    with kept_more [OF put [of "?q\<lparr> qc_state := Q_MISSING_GLUE \<rparr>"]] show ?thesis by simp
  next
    case False
    let ?m = "fetch_metadata C now mr fr a zone (queries, put_query c a ?q, po, vc1)"
    have run: "?m \<bind> (\<lambda>(ret, queries, c, po, vc). if ret \<noteq> VAL_NO_ERROR then Some (ret, queries, c, po, vc)
       else do {
         q \<leftarrow> q_heap c a;
         len \<leftarrow> wire_name_length zone;
         cut \<leftarrow> seg zone 0 len;
         Some (VAL_NO_ERROR, queries, put_query c a (q\<lparr> qc_zonecut_n := cut, qc_ns_list := nss \<rparr>), po, vc)
       }) = Some (ret, w')"
      using f False unfolding w by (simp only: enter_zone_def Let_def prod.case q vc1 Option.bind.simps if_False)
    then have "?m \<noteq> None" by (metis Option.bind.simps(1) option.distinct(1))
    then obtain ret2 queries2 c2 po2 vc2 where meta: "?m = Some (ret2, queries2, c2, po2, vc2)" by (metis option.exhaust prod_cases5)
    have "kept C cs i vc0 (insert (fr 0) (insert (fr 1) D)) (queries2, c2, po2, vc2)"
      by (rule fetch_metadata_kept [OF meta put i]) (use fr in \<open>auto dest: injD\<close>)
    then have k2: "kept C cs i vc0 (D \<union> range fr) (queries2, c2, po2, vc2)" by (rule kept_more) auto
    show ?thesis
    proof (cases "ret2 = VAL_NO_ERROR")
      case True
      with run meta obtain q2 cut where q2: "q_heap c2 a = Some q2"
        and "w' = (queries2, put_query c2 a (q2\<lparr> qc_zonecut_n := cut, qc_ns_list := nss \<rparr>), po2, vc2)"
        by (auto split: Option.bind_splits)
      with kept_put [OF k2 q2, of "q2\<lparr> qc_zonecut_n := cut, qc_ns_list := nss \<rparr>"] show ?thesis by simp
    next
      case False
      with run meta k2 show ?thesis by simp
    qed
  qed
qed

lemma follow_link_kept:
  assumes f: "follow_referral_or_alias_link C net now mr fr a alias_chain zone learned_zones qnames answers proofs w = Some (ret, w')"
    and k: "kept C cs i vc0 D w" and i: "i < length cs" and fr: "inj fr" "range fr \<inter> D = {}"
    and ok: "list_all ok_rrset learned_zones"
  shows "kept C cs i vc0 (D \<union> range fr) w'"
proof -
  let ?D = "D \<union> range fr"
  obtain queries c po vc where w: "w = (queries, c, po, vc)" by (cases w)
  from f w obtain q0 q where q0: "q_heap c a = Some q0" and q: "consume alias_chain q0 qnames answers proofs = Some q"
    by (auto simp: follow_referral_or_alias_link_def split: Option.bind_splits)
  have rc: "qc_refcount q = qc_refcount q0" by (rule consume_refcount [OF q])
  have put: "kept C cs i vc0 D (queries, put_query c a q', po, vc)" if "qc_refcount q' = qc_refcount q0" for q'
    by (rule kept_put [OF k [unfolded w] q0 that])
  show ?thesis
  proof (cases alias_chain)
    case True
    with f w q0 q have "w' = (queries, put_query c a q, po, vc)" by (simp add: follow_referral_or_alias_link_def)
    with kept_more [OF put [OF rc]] show ?thesis by simp
  next
    case False
    let ?q1 = "q\<lparr> qc_flags := qc_flags q OR VAL_QUERY_IS_ITERATING \<rparr>"
    from f w q0 q False obtain been qs where reg: "register_query (di_queries (referral_block ?q1)) (qc_name_n q) (qc_type_h q) zone = Some (been, qs)"
      by (auto simp: follow_referral_or_alias_link_def Let_def split: Option.bind_splits)
    let ?q2 = "?q1\<lparr> qc_referral := Some ((referral_block ?q1)\<lparr> di_queries := qs \<rparr>) \<rparr>"
    show ?thesis
    proof (cases "been = ITS_BEEN_DONE")
      case True
      with f w q0 q False reg have "w' = (queries, put_query c a (?q2\<lparr> qc_state := Q_REFERRAL_ERROR \<rparr>), po, vc)"
        by (simp add: follow_referral_or_alias_link_def Let_def)
      with kept_more [OF put [of "?q2\<lparr> qc_state := Q_REFERRAL_ERROR \<rparr>"]] rc show ?thesis by simp
    next
      case False
      let ?c2 = "put_query c a ?q2"
      from f w q0 q \<open>\<not> alias_chain\<close> reg False obtain ret1 nss queries1 c1 ctx where
        boot: "bootstrap_referral C net now mr (fr 0) (fr 1) (po_nsec3 po) ?c2 queries a zone learned_zones = Some (ret1, nss, queries1, c1, ctx)"
        by (auto simp: follow_referral_or_alias_link_def Let_def split: Option.bind_splits)
      have k2: "kept C cs i vc0 D (queries, ?c2, po, vc)" by (rule put) (simp add: rc)
      have free: "q_heap ?c2 (fr j) = None" for j using k2 fr(2) by (auto simp: kept_def)
      have "fr 0 \<noteq> fr 1" using fr(1) by (auto dest: injD)
      have "reachable C (c1, (cs[i := queries])[i := queries1]) \<and> dom (q_heap c1) \<subseteq> {fr 0, fr 1} \<union> dom (q_heap ?c2)"
        by (rule bootstrap_referral_reachable [where cs = "cs[i := queries]"])
          (use boot i k2 free \<open>fr 0 \<noteq> fr 1\<close> in \<open>auto simp: kept_def\<close>)
      then have k1: "kept C cs i vc0 (D \<union> {fr 0, fr 1}) (queries1, c1, po\<lparr> po_nsec3 := ctx \<rparr>, vc)"
        using k2 by (auto simp: kept_def)
      have k1': "kept C cs i vc0 ?D (queries1, c1, po\<lparr> po_nsec3 := ctx \<rparr>, vc)" by (rule kept_more [OF k1]) auto
      show ?thesis
      proof (cases "ret1 = VAL_NO_ERROR")
        case False
        with f w q0 q \<open>\<not> alias_chain\<close> reg \<open>been \<noteq> ITS_BEEN_DONE\<close> boot k1' show ?thesis
          by (simp add: follow_referral_or_alias_link_def Let_def)
      next
        case True
        with f w q0 q \<open>\<not> alias_chain\<close> reg \<open>been \<noteq> ITS_BEEN_DONE\<close> boot
        have "enter_zone C now mr (\<lambda>i. fr (i + 2)) a zone learned_zones nss (queries1, c1, po\<lparr> po_nsec3 := ctx \<rparr>, vc) = Some (ret, w')"
          by (simp add: follow_referral_or_alias_link_def Let_def)
        moreover have "inj (\<lambda>i. fr (i + 2))" using fr(1) by (auto intro!: injI dest: injD)
        moreover have "fr (j + 2) \<notin> D \<union> {fr 0, fr 1}" for j using fr by (auto dest: injD)
        then have "range (\<lambda>i. fr (i + 2)) \<inter> (D \<union> {fr 0, fr 1}) = {}" by blast
        ultimately have "kept C cs i vc0 (D \<union> {fr 0, fr 1} \<union> range (\<lambda>i. fr (i + 2))) w'"
          by (intro enter_zone_kept [OF _ k1 i _ _ ok])
        then show ?thesis by (rule kept_more) auto
      qed
    qed
  qed
qed

lemma digest_finish_cases:
  assumes f: "digest_finish C net now mr fr a m dg (queries, c, po, vc) = Some (ret, resp, w')" and dg: "ok_digest n dg"
  obtains (link) q1 dg1 al zone qnames ans prv ret2 queries2 c2 po2 vc2 vc3 where
      "follow_referral_or_alias_link C net now mr fr a al zone (dg_zones dg1) qnames ans prv (queries, put_query c a q1, po, vc) =
        Some (ret2, queries2, c2, po2, vc2)"
      "qc_refcount q1 = n" "ok_digest n dg1" "w' = (queries2, c2, po2, vc3)"
      "vc3 = vc2 \<or> (\<exists>q2. q_heap c2 a = Some q2 \<and> stow_learned dg1 q2 vc2 = Some vc3)" "resp = ([], [], [])"
  | (complete) q1 dg1 q2 vc1 vc2 where "complete dg1 q1 vc = Some (q2, resp, vc1)" "qc_refcount q1 = n" "ok_digest n dg1"
      "stow_learned dg1 q2 vc1 = Some vc2" "w' = (queries, put_query c a q2, po, vc2)"
      "qc_zonecut_n q1 = qc_zonecut_n (dg_query dg)"
proof -
  obtain q1 where q1: "(case dg_qnames dg of [] \<Rightarrow> Some (dg_query dg)
       | n # _ \<Rightarrow> do {
           same \<leftarrow> name_eq (qc_name_n (dg_query dg)) n;
           if same then Some (dg_query dg)
           else do { len \<leftarrow> wire_name_length n; name \<leftarrow> seg n 0 len; Some ((dg_query dg)\<lparr> qc_name_n := name \<rparr>) }
         }) = Some q1"
    using f by (simp add: digest_finish_def split: Option.bind_splits)
  have rc: "qc_refcount q1 = n"
    using q1 dg by (auto simp: ok_digest_def split: list.splits Option.bind_splits if_splits)
  have zc: "qc_zonecut_n q1 = qc_zonecut_n (dg_query dg)"
    using q1 by (auto split: list.splits Option.bind_splits if_splits)
  define dg1 where "dg1 = dg\<lparr> dg_alias := dg_alias dg \<and> dg_answers dg \<noteq> [] \<rparr>"
  have ok1: "ok_digest n dg1" using dg by (simp add: dg1_def ok_digest_def)
  define referral where "referral = (if dg_proof_seen dg1 \<and> \<not> dg_alias dg1 \<and> dg_answers dg1 = [] \<and> mg_rcode m = ns_r_noerror \<and>
    dg_soa_seen dg1 then None else dg_referral dg1)"
  have run: "(if referral \<noteq> None \<or> dg_alias dg1 then do {
       answers \<leftarrow> copy_rrset_rec_list (dg_answers dg1);
       proofs \<leftarrow> copy_rrset_rec_list (dg_proofs dg1);
       (ret, queries, c, po, vc) \<leftarrow> follow_referral_or_alias_link C net now mr fr a (dg_alias dg1)
         (case referral of None \<Rightarrow> [] | Some zone \<Rightarrow> zone) (dg_zones dg1) (dg_qnames dg1) (or_null answers) (or_null proofs)
         (queries, put_query c a q1, po, vc);
       if ret \<noteq> VAL_NO_ERROR then Some (ret, ([], [], []), queries, c, po, vc)
       else do {
         q \<leftarrow> q_heap c a;
         vc \<leftarrow> stow_learned dg1 q vc;
         Some (VAL_NO_ERROR, ([], [], []), queries, c, po, vc)
       }
     }
     else do {
       (q, resp, vc) \<leftarrow> complete dg1 q1 vc;
       vc \<leftarrow> stow_learned dg1 q vc;
       Some (VAL_NO_ERROR, resp, queries, put_query c a q, po, vc)
     }) = Some (ret, resp, w')"
    using f by (simp only: digest_finish_def Let_def prod.case q1 Option.bind.simps referral_def dg1_def)
  show thesis
  proof (cases "referral \<noteq> None \<or> dg_alias dg1")
    case True
    with run obtain answers proofs where cp: "copy_rrset_rec_list (dg_answers dg1) = Some answers"
      "copy_rrset_rec_list (dg_proofs dg1) = Some proofs" by (auto split: Option.bind_splits)
    let ?link = "follow_referral_or_alias_link C net now mr fr a (dg_alias dg1)
         (case referral of None \<Rightarrow> [] | Some zone \<Rightarrow> zone) (dg_zones dg1) (dg_qnames dg1) (or_null answers) (or_null proofs)
         (queries, put_query c a q1, po, vc)"
    have "?link \<noteq> None"
    proof
      assume none: "?link = None"
      from run show False unfolding if_P [OF True] cp Option.bind.simps none by simp
    qed
    then obtain ret2 queries2 c2 po2 vc2 where link: "?link = Some (ret2, queries2, c2, po2, vc2)"
      by (metis option.exhaust prod_cases5)
    have "\<exists>vc3. w' = (queries2, c2, po2, vc3) \<and> (vc3 = vc2 \<or> (\<exists>q2. q_heap c2 a = Some q2 \<and> stow_learned dg1 q2 vc2 = Some vc3)) \<and> resp = ([], [], [])"
      using run unfolding if_P [OF True] cp Option.bind.simps link prod.case by (auto split: Option.bind_splits if_splits)
    then show thesis using that(1) [OF link rc ok1] by blast
  next
    case False
    with run obtain q2 vc1 vc2 where "complete dg1 q1 vc = Some (q2, resp, vc1)" "stow_learned dg1 q2 vc1 = Some vc2"
      "w' = (queries, put_query c a q2, po, vc2)"
      by (auto split: Option.bind_splits)
    then show thesis using that(2) rc ok1 zc by blast
  qed
qed

lemma digest_finish_kept:
  assumes f: "digest_finish C net now mr fr a m dg w = Some (ret, resp, w')" and k: "kept C cs i vc0 D w"
    and i: "i < length cs" and fr: "inj fr" "range fr \<inter> D = {}"
    and h: "q_heap (fst (snd w)) a = Some q" and dg: "ok_digest (qc_refcount q) dg"
  shows "kept C cs i vc0 (D \<union> range fr) w'"
proof -
  obtain queries c po vc where w: "w = (queries, c, po, vc)" by (cases w)
  have h: "q_heap c a = Some q" using h w by simp
  from f [unfolded w] dg show ?thesis
  proof (cases rule: digest_finish_cases)
    case (link q1 dg1 al zone qnames ans prv ret2 queries2 c2 po2 vc2 vc3)
    have k1: "kept C cs i vc0 D (queries, put_query c a q1, po, vc)" by (rule kept_put [OF k [unfolded w] h link(2)])
    have "list_all ok_rrset (dg_zones dg1)" using link(3) by (simp add: ok_digest_def)
    from follow_link_kept [OF link(1) k1 i fr this] have k2: "kept C cs i vc0 (D \<union> range fr) (queries2, c2, po2, vc2)" .
    from link(4,5) show ?thesis
      using k2 kept_stow [OF k2 stow_learned_extends [OF _ kept_wf [OF k2] link(3)]] by blast
  next
    case (complete q1 dg1 q2 vc1 vc2)
    note c1 = complete_kept [OF complete(1) kept_wf [OF k [unfolded w]] complete(3)]
    then have "wf_cache vc1" by (simp add: extends_def)
    from extends_trans [OF conjunct2 [OF c1] stow_learned_extends [OF complete(4) this complete(3)]] have "extends vc vc2" .
    from kept_stow [OF k [unfolded w] this] have "kept C cs i vc0 D (queries, c, po, vc2)" .
    from kept_put [OF this h, of q2] c1 complete(2,5) show ?thesis by (auto intro: kept_more)
  qed
qed

lemma digest_response_kept:
  assumes f: "digest_response C net now mr junk fr a bs w = Some (ret, resp, w')" and k: "kept C cs i vc0 D w"
    and i: "i < length cs" and fr: "inj fr" "range fr \<inter> D = {}"
  shows "kept C cs i vc0 (D \<union> range fr) w'"
proof -
  obtain queries c po vc where w: "w = (queries, c, po, vc)" by (cases w)
  from f w obtain q where q: "q_heap c a = Some q" by (auto simp: digest_response_def split: Option.bind_splits)
  have same: "kept C cs i vc0 (D \<union> range fr) w" by (rule kept_more [OF k]) simp
  have put: "kept C cs i vc0 (D \<union> range fr) (queries, put_query c a q', po, vc)" if "qc_refcount q' = qc_refcount q" for q'
    by (rule kept_more [OF kept_put [OF k [unfolded w] q that]]) simp
  have start: "ok_digest (qc_refcount q) (start_digest q qnames n x)" for qnames n x
    by (simp add: ok_digest_def start_digest_def)
  have empty: "kept C cs i vc0 (D \<union> range fr) (queries, put_query c a q', po, vc)"
    if "consume_referral_data (q\<lparr> qc_state := Q_ANSWERED \<rparr>) r = Some (q', r')" for q' r r'
    by (rule put) (use consume_referral_refcount [OF that] in simp)
  have failed: "kept C cs i vc0 (D \<union> range fr) (queries, put_query c a (dg_query dg), po, vc)"
    if "digest_loop m n j (start_digest q qnames x y) = Some (Inl (r, dg))" for m n j qnames x y r dg
    by (rule put) (use digest_loop_ok [OF that start] in simp)
  have ended: "kept C cs i vc0 (D \<union> range fr) w2"
    if "digest_finish C net now mr fr a m dg (queries, c, po, vc) = Some (r, resp2, w2)"
      "digest_loop m' n j (start_digest q qnames x y) = Some (Inr dg)" for m m' n j qnames x y r dg w2 resp2
    by (rule digest_finish_kept [OF that(1) k [unfolded w] i fr, of q]) (use q digest_loop_ok [OF that(2) start] in simp_all)
  show ?thesis
    using f same unfolding w
    by (auto simp: digest_response_def Let_def q split: Option.bind_splits if_splits sum.splits)
      (erule empty failed ended; assumption)+
qed

subsection \<open>Anti-pollution\<close>

text \<open>
  An answer that follows no alias and no referral adds nothing to the answer cache, and exchanges nothing in it, that is
  outside of the zone the query was asked in: while the response is read the zone cut of the query only moves down, or
  an alias clears it for good.
\<close>

definition name_below :: "byte list \<Rightarrow> label list \<Rightarrow> bool" where
  "name_below n zs \<longleftrightarrow> (\<exists>xs. encodes n xs \<and> subname xs zs)"

lemma name_below_trans:
  assumes "namename n m = Some p" "p \<noteq> None" "valid_name n" "name_below m zs"
  shows "name_below n zs"
proof -
  obtain xs ys where e: "encodes n xs" "encodes m ys" "subname ys zs"
    using assms(3,4) by (auto simp: valid_name_def name_below_def)
  have "subname xs ys" using namename_encodes [OF e(1,2)] assms(1,2) by (simp split: if_splits)
  with e show ?thesis unfolding name_below_def using subname_trans by blast
qed

lemma name_below_canon:
  assumes "canon n = canon m" "valid_name n" "name_below m zs"
  shows "name_below n zs"
proof -
  obtain xs ys where e: "encodes n xs" "encodes m ys" "subname ys zs"
    using assms(2,3) by (auto simp: valid_name_def name_below_def)
  with canon_eq_iff [OF e(1,2)] assms(1) subname_cname [of xs ys] show ?thesis
    unfolding name_below_def by blast
qed

text \<open>What is new in the answer cache, also the data that took the place of other data, is at or below \<open>zs\<close>.\<close>

definition new_below :: "label list \<Rightarrow> rrset_rec list \<Rightarrow> rrset_rec list \<Rightarrow> bool" where
  "new_below zs l l' \<longleftrightarrow> (\<forall>r \<in> set l'. r \<in> set l \<or> name_below (rrs_name_n r) zs)"

lemma new_below_refl [simp]: "new_below zs l l"
  by (simp add: new_below_def)

lemma new_below_trans: "new_below zs a b \<Longrightarrow> new_below zs b c \<Longrightarrow> new_below zs a c"
  unfolding new_below_def by blast

lemma stow_one_below:
  "stow_one l n = Some l' \<Longrightarrow> list_all ok_rrset l \<Longrightarrow> ok_rrset n \<Longrightarrow> name_below (rrs_name_n n) zs \<Longrightarrow>
    new_below zs l l' \<and> list_all ok_rrset l'"
proof (induction l n arbitrary: l' rule: stow_one.induct)
  case (2 old olds n)
  have ok: "ok_rrset old" "list_all ok_rrset olds" using "2.prems" by simp_all
  have same: "same_rrset old n = Some (rrset_key old = rrset_key n)"
    using ok(1) "2.prems"(3) by (simp add: rs.eq_key)
  show ?case
  proof (cases "rrset_key old = rrset_key n")
    case True
    then have "name_below (rrs_name_n old) zs"
      using ok(1) by (intro name_below_canon [OF _ _ "2.prems"(4)]) (simp_all add: rrset_key_def ok_rrset_def)
    then have below: "name_below (rrs_name_n (exchange old n)) zs" "ok_rrset (exchange old n)"
      using ok(1) by (simp_all add: exchange_def ok_rrset_def)
    have "l' = (if rrs_cred n \<le> rrs_cred old then exchange old n else old) # olds" using True same "2.prems"(1) by simp
    with below ok show ?thesis by (simp add: new_below_def)
  next
    case False
    with same "2.prems"(1) obtain rest where r: "stow_one olds n = Some rest" "l' = old # rest"
      by (auto split: Option.bind_splits)
    from "2.IH" [OF same _ r(1) ok(2) "2.prems"(3,4)] False r(2) ok(1) show ?thesis by (auto simp: new_below_def)
  qed
qed (simp add: new_below_def)

lemma stow_info_below:
  assumes "stow_info l new_info (Some q) = Some l'" "list_all ok_rrset l" "list_all ok_rrset new_info"
    and "qc_zonecut_n q \<noteq> []" "name_below (qc_zonecut_n q) zs"
  shows "new_below zs l l' \<and> list_all ok_rrset l'"
  using assms(1-3)
proof (induction new_info arbitrary: l)
  case (Cons n ns)
  from Cons.prems(1) obtain b where b: "in_bailiwick (rrs_name_n n) (Some q) = Some b" by (auto split: Option.bind_splits)
  have ok: "ok_rrset n" "list_all ok_rrset ns" using Cons.prems(3) by simp_all
  show ?case
  proof (cases "\<not> b \<or> rrs_type_h n = ns_t_nsec3 \<or> rrs_type_h n = ns_t_nsec")
    case True
    with b Cons.prems(1) have "stow_info l ns (Some q) = Some l'" by auto
    from Cons.IH [OF this Cons.prems(2) ok(2)] show ?thesis .
  next
    case False
    with b Cons.prems(1) obtain l1 where l1: "stow_one l n = Some l1" "stow_info l1 ns (Some q) = Some l'"
      by (auto split: Option.bind_splits)
    obtain p where "namename (rrs_name_n n) (qc_zonecut_n q) = Some p" "p \<noteq> None"
      using b False assms(4) by (auto simp: in_bailiwick_def split: Option.bind_splits)
    from name_below_trans [OF this _ assms(5)] have "name_below (rrs_name_n n) zs" using ok(1) by (simp add: ok_rrset_def)
    from stow_one_below [OF l1(1) Cons.prems(2) ok(1) this] Cons.IH [OF l1(2) _ ok(2)] show ?thesis
      using new_below_trans by blast
  qed
qed simp

lemma stow_learned_below:
  assumes "stow_learned dg q vc = Some vc'" "list_all ok_rrset (unchecked_answers vc)" "ok_digest n dg"
    and "qc_zonecut_n q \<noteq> []" "name_below (qc_zonecut_n q) zs"
  shows "new_below zs (unchecked_answers vc) (unchecked_answers vc')"
proof -
  from assms(1) obtain l1 l2 l3 where st: "stow_info (unchecked_answers vc) (dg_answers dg) (Some q) = Some l1"
      "stow_info l1 (dg_proofs dg) (Some q) = Some l2" "stow_info l2 (dg_ds dg) (Some q) = Some l3" "unchecked_answers vc' = l3"
    by (auto simp: stow_learned_def stow_answers_def split: Option.bind_splits)
  have ok: "list_all ok_rrset (dg_answers dg)" "list_all ok_rrset (dg_proofs dg)" "list_all ok_rrset (dg_ds dg)"
    using assms(3) by (simp_all add: ok_digest_def)
  note 1 = stow_info_below [OF st(1) assms(2) ok(1) assms(4,5)]
  note 2 = stow_info_below [OF st(2) _ ok(2) assms(4,5)]
  note 3 = stow_info_below [OF st(3) _ ok(3) assms(4,5)]
  show ?thesis unfolding st(4) using 1 2 3 new_below_trans by blast
qed

text \<open>The zone cut of the query is cleared or moves down while the response is read.\<close>

definition cut_below :: "label list \<Rightarrow> digest \<Rightarrow> bool" where
  "cut_below zs dg \<longleftrightarrow> qc_zonecut_n (dg_query dg) = [] \<or> name_below (qc_zonecut_n (dg_query dg)) zs"

lemma and_then_Inr: "and_then x f = Some (Inr dg') \<longleftrightarrow> (\<exists>dg. x = Some (Inr dg) \<and> f dg = Some (Inr dg'))"
  by (auto simp: and_then_def split: Option.bind_splits sum.splits)

lemma saved_Inr: "saved dg upd r = Inr dg' \<longleftrightarrow> (\<exists>sets. r = Inr sets \<and> dg' = upd sets)"
  by (auto simp: saved_def split: sum.splits)

lemma follow_alias_cut: "follow_alias rr rdata dg = Some (Inr dg') \<Longrightarrow> cut_below zs dg \<Longrightarrow> cut_below zs dg'"
  by (auto simp: follow_alias_def cut_below_def Let_def split: Option.bind_splits if_splits)

lemma saved_cut:
  assumes "save_rr m sec rr rdata zc dg0 l \<bind> (\<lambda>r. Some (saved dg upd r)) = Some (Inr dg')" "\<And>sets. cut_below zs (upd sets)"
  shows "cut_below zs dg'"
proof -
  from assms(1) obtain r where "saved dg upd r = Inr dg'" by (auto split: Option.bind_splits)
  with assms(2) show ?thesis by (auto simp: saved_Inr)
qed

lemma keep_rr_cut:
  assumes "keep_rr m sec rr rdata dg = Some (Inr dg')" "cut_below zs dg"
  shows "cut_below zs dg'"
proof -
  from assms(1) obtain relevant where rel: "is_relevant rr dg = Some relevant"
    by (auto simp: keep_rr_def split: Option.bind_splits)
  show ?thesis
  proof (cases "sec = VAL_FROM_ANSWER \<and> relevant")
    case True
    with assms(1) rel have "and_then (follow_alias rr rdata dg) (\<lambda>dg. do {
         r \<leftarrow> save_rr m sec rr rdata (qc_zonecut_n (dg_query dg)) dg (dg_answers dg);
         Some (saved dg (\<lambda>sets. dg\<lparr> dg_answers := sets \<rparr>) r)
       }) = Some (Inr dg')" by (simp add: keep_rr_def)
    then obtain dg1 where "follow_alias rr rdata dg = Some (Inr dg1)"
      and s: "save_rr m sec rr rdata (qc_zonecut_n (dg_query dg1)) dg1 (dg_answers dg1) \<bind>
        (\<lambda>r. Some (saved dg1 (\<lambda>sets. dg1\<lparr> dg_answers := sets \<rparr>) r)) = Some (Inr dg')"
      by (auto simp only: and_then_Inr)
    with follow_alias_cut [OF _ assms(2)] have "cut_below zs dg1" by blast
    with saved_cut [OF s, of zs] show ?thesis by (simp add: cut_below_def)
  next
    case False
    have "cut_below zs (dg\<lparr> dg_proof_seen := a, dg_proofs := b \<rparr>)" "cut_below zs (dg\<lparr> dg_proof_seen := a, dg_soa_seen := c, dg_proofs := b \<rparr>)"
      "cut_below zs (dg\<lparr> dg_zones := b \<rparr>)" "cut_below zs (dg\<lparr> dg_ds := b \<rparr>)" "cut_below zs (dg\<lparr> dg_answers := b \<rparr>)" for a b c
      using assms(2) by (simp_all add: cut_below_def)
    with False assms rel show ?thesis
      by (auto simp: keep_rr_def Let_def split: if_splits elim!: saved_cut)
  qed
qed

lemma update_zonecut_cut:
  assumes "update_zonecut m i rr dg = Some (Inr dg')" "cut_below zs dg"
  shows "cut_below zs dg'"
proof -
  let ?q = "dg_query dg" and ?n = "rf_name rr"
  have "dg' = dg \<or> (\<exists>c. hints_zonecut m i rr dg \<and> namename ?n (qc_zonecut_n ?q) = Some (Some c) \<and>
      set_zonecut ?n dg = Some (Inr dg'))"
  proof (cases "hints_zonecut m i rr dg")
    case True
    define lame where "lame = (if rf_set_type_h rr \<noteq> ns_t_soa then Some False
          else do {
            same \<leftarrow> name_eq (qc_zonecut_n ?q) ?n;
            if same then Some False else do { p \<leftarrow> namename (qc_zonecut_n ?q) ?n; Some (p \<noteq> None) }
          })"
    define wrong where "wrong = (if qc_type_h ?q = ns_t_ds then namename ?n (qc_name_n ?q) else Some None)"
    note run = assms(1) [unfolded update_zonecut_def Let_def, folded lame_def wrong_def]
    from run True have l: "lame = Some False" by (cases lame) (auto simp: fail_with_def split: if_splits)
    with run True obtain cl where cl: "namename ?n (qc_zonecut_n ?q) = Some cl"
      by (cases "namename ?n (qc_zonecut_n ?q)") simp_all
    show ?thesis
    proof (cases cl)
      case None
      with run True l cl show ?thesis by simp
    next
      case (Some c)
      with run True l cl have w: "wrong = Some None" by (cases wrong) (auto simp: fail_with_def split: if_splits)
      with run True l cl Some obtain same where "name_eq (qc_zonecut_n ?q) ?n = Some same"
        by (cases "name_eq (qc_zonecut_n ?q) ?n") simp_all
      with run True l cl Some w show ?thesis by (cases same) simp_all
    qed
  qed (use assms(1) in \<open>simp add: update_zonecut_def\<close>)
  then consider "dg' = dg" | c where "hints_zonecut m i rr dg" "namename ?n (qc_zonecut_n ?q) = Some (Some c)"
      "set_zonecut ?n dg = Some (Inr dg')" by blast
  then show ?thesis
  proof cases
    case 1
    with assms(2) show ?thesis by simp
  next
    case (2 c)
    then have below: "name_below (qc_zonecut_n (dg_query dg)) zs"
      using assms(2) by (auto simp: hints_zonecut_def cut_below_def)
    from 2(3) obtain k cut where cut: "wire_name_length (rf_name rr) = Some k" "seg (rf_name rr) 0 k = Some cut"
        "qc_zonecut_n (dg_query dg') = cut"
      by (auto simp: set_zonecut_def Let_def split: Option.bind_splits if_splits)
    show ?thesis
    proof (cases "cut = []")
      case True
      with cut show ?thesis by (simp add: cut_below_def)
    next
      case False
      with cut have k: "0 < k" by (cases k) (auto simp: seg_def split: if_splits)
      then have v: "valid_name (rf_name rr)" using valid_name_iff cut(1) by blast
      from name_below_trans [OF 2(2) _ v below] have "name_below (rf_name rr) zs" by simp
      moreover have "canon cut = canon (rf_name rr)" "valid_name cut"
        using name_bytes_valid [OF v] cut k by (auto simp: seg_def name_bytes_def split: if_splits)
      ultimately show ?thesis using name_below_canon cut(3) by (simp add: cut_below_def)
    qed
  qed
qed

lemma note_referral_cut: "note_referral m sec rr dg = Some (Inr dg') \<Longrightarrow> cut_below zs dg \<Longrightarrow> cut_below zs dg'"
  by (auto simp: note_referral_def cut_below_def fail_with_def split: Option.bind_splits if_splits option.splits)

lemma digest_record_cut:
  assumes "digest_record m i rr rdata dg = Some (Inr dg')" "cut_below zs dg"
  shows "cut_below zs dg'"
proof -
  from assms(1) obtain dg1 dg2 where "keep_rr m (section_of m i) rr rdata dg = Some (Inr dg1)"
      "update_zonecut m i rr dg1 = Some (Inr dg2)" "note_referral m (section_of m i) rr dg2 = Some (Inr dg')"
    by (auto simp: digest_record_def and_then_Inr fail_with_def split: Option.bind_splits if_splits)
  with assms(2) keep_rr_cut update_zonecut_cut note_referral_cut show ?thesis by blast
qed

lemma digest_rr_cut:
  assumes "digest_rr m i dg = Some (Inr dg')" "cut_below zs dg"
  shows "cut_below zs dg'"
proof -
  from assms(1) obtain rr rdata k where "digest_record m i rr rdata (dg\<lparr> dg_index := k \<rparr>) = Some (Inr dg')"
    by (auto simp: digest_rr_def fail_with_def split: Option.bind_splits sum.splits)
  then show ?thesis by (rule digest_record_cut) (use assms(2) in \<open>simp add: cut_below_def\<close>)
qed

lemma digest_loop_cut: "digest_loop m k i dg = Some (Inr dg') \<Longrightarrow> cut_below zs dg \<Longrightarrow> cut_below zs dg'"
proof (induction k arbitrary: i dg)
  case (Suc k)
  then obtain dg1 where "digest_rr m i dg = Some (Inr dg1)" "digest_loop m k (i + 1) dg1 = Some (Inr dg')"
    by (auto simp: and_then_Inr)
  with Suc digest_rr_cut show ?case by blast
qed simp

text \<open>The end of the response: it is an answer when \<open>di_qnames\<close> is set.\<close>

lemma complete_zonecut: "complete dg q vc = Some (q', resp, vc') \<Longrightarrow> qc_zonecut_n q' = qc_zonecut_n q"
  by (auto simp: complete_def consume_referral_data_def Let_def split: Option.bind_splits if_splits option.splits prod.splits)

lemma stow_zone_info_answers: "stow_zone_info vc new_info Q = Some vc' \<Longrightarrow> unchecked_answers vc' = unchecked_answers vc"
  by (auto simp: stow_zone_info_def split: Option.bind_splits if_splits)

lemma complete_answers: "complete dg q vc = Some (q', resp, vc') \<Longrightarrow> unchecked_answers vc' = unchecked_answers vc"
  by (auto simp: complete_def Let_def dest: stow_zone_info_answers split: Option.bind_splits if_splits)

lemma digest_finish_below:
  assumes f: "digest_finish C net now mr fr a m dg (queries, c, po, vc) = Some (ret, (answers, proofs, qnames), queries', c', po', vc')"
    and dg: "ok_digest n dg" "cut_below zs dg" and vc: "list_all ok_rrset (unchecked_answers vc)"
    and q': "q_heap c' a = Some q'" "qc_zonecut_n q' \<noteq> []" and qnames: "qnames \<noteq> []"
  shows "new_below zs (unchecked_answers vc) (unchecked_answers vc')"
  using f dg(1)
proof (cases rule: digest_finish_cases)
  case link
  with qnames show ?thesis by simp
next
  case (complete q1 dg1 q2 vc1 vc2)
  have at: "q' = q2" using complete(5) q'(1) by (simp add: put_query_def)
  have "qc_zonecut_n q' = qc_zonecut_n (dg_query dg)"
    using at complete_zonecut [OF complete(1)] complete(6) by simp
  then have "name_below (qc_zonecut_n q2) zs" using dg(2) q'(2) at by (simp add: cut_below_def)
  from stow_learned_below [OF complete(4) _ complete(3) _ this] show ?thesis
    using vc complete_answers [OF complete(1)] complete(5) q'(2) at by simp
qed

lemma digest_response_below:
  assumes f: "digest_response C net now mr junk fr a bs (queries, c, po, vc) = Some (ret, (answers, proofs, qnames), queries', c', po', vc')"
    and q: "q_heap c a = Some q" "encodes (qc_zonecut_n q) zs" and vc: "wf_cache vc"
    and q': "q_heap c' a = Some q'" "qc_zonecut_n q' \<noteq> []" and qnames: "qnames \<noteq> []"
  shows "new_below zs (unchecked_answers vc) (unchecked_answers vc')"
proof -
  have start: "ok_digest (qc_refcount q) (start_digest q qs n x)" "cut_below zs (start_digest q qs n x)" for qs n x
    using q(2) by (auto simp: ok_digest_def cut_below_def start_digest_def name_below_def)
  have ok: "list_all ok_rrset (unchecked_answers vc)" using vc by (simp add: wf_cache_def wf_store_def)
  have ended: "new_below zs (unchecked_answers vc) (unchecked_answers vc')"
    if "digest_finish C net now mr fr a m dg (queries, c, po, vc) = Some (ret, (answers, proofs, qnames), queries', c', po', vc')"
      "digest_loop m' k j (start_digest q qs x y) = Some (Inr dg)" for m m' k j qs x y dg
    using digest_finish_below [OF that(1) _ digest_loop_cut [OF that(2) start(2)] ok q' qnames]
      digest_loop_ok [OF that(2) start(1)] by simp
  show ?thesis
    using f ended
    by (auto simp: digest_response_def Let_def q(1) split: Option.bind_splits if_splits sum.splits)
qed

end
