(* ===== verification/Config.thy ===== *)
theory Config
  imports Response
begin

section \<open>The configuration of the validator\<close>

text \<open>
  \<^verbatim>\<open>libval/val_policy.c\<close>: the tokens of a configuration file, the parsers of the policies and of the global options,
  policy fragments and their order of precedence (\<open>store_policy_overrides\<close>), the reading of \<^verbatim>\<open>dnsval.conf\<close> with the files
  it includes, and the policies added and removed at run time. What is left of a file, from \<open>*buf_ptr\<close> to
  \<open>end_ptr\<close>, is a list of bytes; a token is a C string, without its final zero. Line numbers serve log messages only and
  are left out. The library is built with NSEC3 and DLV.
\<close>

subsection \<open>Tokens\<close>

definition bytes :: "string \<Rightarrow> byte list" where
  "bytes s = map of_char s"

definition cstr :: "byte list \<Rightarrow> byte list" where
  "cstr s = takeWhile (\<lambda>c. c \<noteq> 0) s"

abbreviation TOKEN_MAX :: nat where "TOKEN_MAX \<equiv> 2048"
abbreviation CONF_COMMENT :: "byte list" where "CONF_COMMENT \<equiv> [0x23]"
abbreviation ZONE_COMMENT :: "byte list" where "ZONE_COMMENT \<equiv> [0x3b]"
abbreviation ALL_COMMENTS :: "byte list" where "ALL_COMMENTS \<equiv> [0x3b, 0x23]"
abbreviation CONF_END_STMT :: byte where "CONF_END_STMT \<equiv> 0x3b"
abbreviation ZONE_END_STMT :: byte where "ZONE_END_STMT \<equiv> 0"

definition read_comment_line :: "byte list \<Rightarrow> byte list" where
  "read_comment_line s = drop 1 (dropWhile (\<lambda>c. c \<noteq> 0x0a) s)"

lemma length_read_comment_line: "length (read_comment_line s) \<le> length s"
  using length_dropWhile_le [of "\<lambda>c. c \<noteq> 0x0a" s] by (simp add: read_comment_line_def)

lemma read_comment_line_shorter:
  assumes "s \<noteq> []"
  shows "length (read_comment_line s) < length s"
proof -
  have "length (dropWhile (\<lambda>c. c \<noteq> 0x0a) s) \<le> length s" by (rule length_dropWhile_le)
  moreover have "0 < length s" using assms by simp
  ultimately show ?thesis unfolding read_comment_line_def length_drop by linarith
qed

text \<open>White space and comment lines in front of a token.\<close>

function skip_to_token :: "byte list \<Rightarrow> byte list \<Rightarrow> byte list" where
  "skip_to_token comment_c s = (case dropWhile isspace s of
     [] \<Rightarrow> []
   | c # cs \<Rightarrow> if c \<in> set comment_c then skip_to_token comment_c (read_comment_line (c # cs)) else c # cs)"
  by pat_completeness auto
termination
proof (relation "measure (\<lambda>(comment_c, s). length s)")
  fix comment_c s :: "byte list" and c cs
  assume "dropWhile isspace s = c # cs" "c \<in> set comment_c"
  then show "((comment_c, read_comment_line (c # cs)), comment_c, s) \<in> measure (\<lambda>(comment_c, s). length s)"
    using read_comment_line_shorter [of "c # cs"] length_dropWhile_le [of isspace s] by simp
qed simp

declare skip_to_token.simps [simp del]

text \<open>
  The second loop of \<open>val_get_token\<close>: the characters stored so far, the index of the last white space after the last
  other character (\<open>trail_space\<close>), whether the statement ended, and what is left.
\<close>

record token_state =
  tk_token :: "byte list"
  tk_quoted :: bool
  tk_escaped :: bool
  tk_trail :: "nat option"

fun token_scan :: "nat \<Rightarrow> byte list \<Rightarrow> byte \<Rightarrow> bool \<Rightarrow> byte list \<Rightarrow> token_state \<Rightarrow>
    val_ret + token_state \<times> bool \<times> byte list" where
  "token_scan conf_limit comment_c endstmt_c ignore_space [] st = Inr (st, False, [])"
| "token_scan conf_limit comment_c endstmt_c ignore_space (c # s) st =
     (if \<not> ignore_space \<and> isspace c \<and> \<not> tk_quoted st \<and> \<not> tk_escaped st then Inr (st, False, c # s)
      else if length (tk_token st) = conf_limit then Inl VAL_CONF_PARSE_ERROR
      else if c = 0x22 then
        token_scan conf_limit comment_c endstmt_c ignore_space s (st\<lparr> tk_quoted := \<not> tk_quoted st \<rparr>)
      else if c = 0x5c then token_scan conf_limit comment_c endstmt_c ignore_space s (st\<lparr> tk_escaped := True \<rparr>)
      else if c = 0x0a then
        (if \<not> tk_escaped st \<and> \<not> tk_quoted st then Inr (st, False, s)
         else token_scan conf_limit comment_c endstmt_c ignore_space s st)
      else if c = endstmt_c then Inr (st, True, s)
      else if c \<in> set comment_c then Inr (st, False, read_comment_line s)
      else token_scan conf_limit comment_c endstmt_c ignore_space s
        (if isspace c then st\<lparr> tk_token := tk_token st @ [c], tk_trail := Some (length (tk_token st)) \<rparr>
         else st\<lparr> tk_token := tk_token st @ [c], tk_escaped := False, tk_trail := None \<rparr>))"

text \<open>
  \<open>val_get_token\<close>: the token, \<open>*endst\<close> and what is left. The final zero is stored behind the characters of the token,
  of which there may be as many as the array holds.
\<close>

definition val_get_token :: "nat \<Rightarrow> byte list \<Rightarrow> byte \<Rightarrow> bool \<Rightarrow> byte list \<Rightarrow>
    (val_ret + byte list \<times> bool \<times> byte list) option" where
  "val_get_token conf_limit comment_c endstmt_c ignore_space s =
     (let s1 = skip_to_token comment_c s in
      if s1 = [] then Some (Inr ([], False, []))
      else case token_scan conf_limit comment_c endstmt_c ignore_space s1
          \<lparr> tk_token = [], tk_quoted = False, tk_escaped = False, tk_trail = None \<rparr> of
        Inl e \<Rightarrow> Some (Inl e)
      | Inr (st, endst, rest) \<Rightarrow> do {
          _ \<leftarrow> emit conf_limit (tk_token st) [0];
          Some (if tk_quoted st \<or> rest = [] \<and> tk_escaped st then Inl VAL_CONF_PARSE_ERROR
            else Inr (cstr (case tk_trail st of None \<Rightarrow> tk_token st | Some k \<Rightarrow> take k (tk_token st)), endst, rest))
        })"

abbreviation conf_token :: "byte list \<Rightarrow> (val_ret + byte list \<times> bool \<times> byte list) option" where
  "conf_token \<equiv> val_get_token TOKEN_MAX CONF_COMMENT CONF_END_STMT False"

lemma skip_to_token_cases:
  "dropWhile isspace s = [] \<Longrightarrow> skip_to_token comment_c s = []"
  "dropWhile isspace s = c # cs \<Longrightarrow> skip_to_token comment_c s =
     (if c \<in> set comment_c then skip_to_token comment_c (read_comment_line (c # cs)) else c # cs)"
  by (subst skip_to_token.simps, simp only: list.case)+

lemma skip_to_token_length: "length (skip_to_token comment_c s) \<le> length s"
proof (induction comment_c s rule: skip_to_token.induct)
  case (1 comment_c s)
  show ?case
  proof (cases "dropWhile isspace s")
    case Nil
    then show ?thesis by (simp only: skip_to_token_cases list.size)
  next
    case (Cons c cs)
    then have "length (c # cs) \<le> length s" using length_dropWhile_le [of isspace s] by simp
    with 1 [OF Cons] read_comment_line_shorter [of "c # cs"] show ?thesis
      by (auto simp: skip_to_token_cases(2) [OF Cons])
  qed
qed

lemma token_scan_length:
  "token_scan conf_limit comment_c endstmt_c ignore_space s st = Inr (st', endst, rest) \<Longrightarrow> length rest \<le> length s"
proof (induction s arbitrary: st)
  case (Cons c s)
  from Cons.prems show ?case
    using length_read_comment_line [of s] by (auto split: if_splits dest: Cons.IH intro: le_SucI)
qed simp

text \<open>The first character of a token is always taken, so every token shortens what is left of the file.\<close>

lemma skip_to_token_hd: "skip_to_token comment_c s = c # cs \<Longrightarrow> \<not> isspace c \<and> c \<notin> set comment_c"
proof (induction comment_c s rule: skip_to_token.induct)
  case (1 comment_c s)
  show ?case
  proof (cases "dropWhile isspace s")
    case Nil
    with 1(2) show ?thesis by (simp add: skip_to_token_cases(1) [OF Nil])
  next
    case (Cons d ds)
    then have "\<not> isspace d" using hd_dropWhile [of isspace s] by auto
    with 1 show ?thesis by (auto simp: skip_to_token_cases(2) [OF Cons] Cons split: if_splits)
  qed
qed

lemma val_get_token_shorter:
  assumes "val_get_token conf_limit comment_c endstmt_c ignore_space s = Some (Inr (token, endst, rest))" "s \<noteq> []"
  shows "length rest < length s"
proof (cases "skip_to_token comment_c s")
  case Nil
  with assms show ?thesis by (simp add: val_get_token_def)
next
  case (Cons c cs)
  let ?st = "\<lparr> tk_token = [], tk_quoted = False, tk_escaped = False, tk_trail = None \<rparr>"
  let ?scan = "token_scan conf_limit comment_c endstmt_c ignore_space (c # cs) ?st"
  obtain st where st: "?scan = Inr (st, endst, rest)"
  proof (cases ?scan)
    case (Inl e)
    with assms(1) Cons show ?thesis by (simp add: val_get_token_def del: token_scan.simps)
  next
    case (Inr r)
    obtain st endst' rest' where r: "r = (st, endst', rest')" by (cases r)
    with assms(1) Cons Inr have "endst' = endst \<and> rest' = rest"
      by (simp add: val_get_token_def emit_def del: token_scan.simps split: if_splits)
    with Inr r that show ?thesis by simp
  qed
  have "\<not> isspace c" using skip_to_token_hd [OF Cons] by simp
  with st have "length rest \<le> length cs"
    using length_read_comment_line [of cs] by (auto split: if_splits dest: token_scan_length)
  with skip_to_token_length [of comment_c s] Cons show ?thesis by simp
qed

subsection \<open>Policies\<close>

definition c_strtol :: "byte list \<Rightarrow> int" where
  "c_strtol s = strtol 10 (dropWhile isspace s)"

definition c_int :: "int \<Rightarrow> int" where
  "c_int x = sint (word_of_int x :: 32 word)"

datatype policy_kind = P_TRUST_ANCHOR | P_CLOCK_SKEW | P_PROV_INSECURE | P_ZONE_SECURITY_EXPECTATION
  | P_NSEC3_MAX_ITER | P_DLV_TRUST_POINTS

datatype prov_insecure = ZONE_PU_TRUSTED | ZONE_PU_UNTRUSTED

text \<open>What \<open>pol\<close> of an entry points to; the kind is the index of the list the entry is in.\<close>

datatype policy_value = Trust_anchor trust_anchor_policy | Clock_skew int | Prov_insecure prov_insecure
  | Zone_se zone_se | Nsec3_max_iter int | Dlv_trust_point "byte list"

definition conf_elem_array :: "(byte list \<times> policy_kind) list" where
  "conf_elem_array = [(bytes ''trust-anchor'', P_TRUST_ANCHOR), (bytes ''clock-skew'', P_CLOCK_SKEW),
     (bytes ''provably-insecure-status'', P_PROV_INSECURE), (bytes ''zone-security-expectation'', P_ZONE_SECURITY_EXPECTATION),
     (bytes ''nsec3-max-iter'', P_NSEC3_MAX_ITER), (bytes ''dlv-trust-points'', P_DLV_TRUST_POINTS)]"

text \<open>\<open>READ_POL_FOR_ZONE\<close>: the rest of the line, with the white space in it.\<close>

definition read_pol_for_zone :: "byte list \<Rightarrow> (val_ret + byte list \<times> bool \<times> byte list) option" where
  "read_pol_for_zone = val_get_token TOKEN_MAX CONF_COMMENT CONF_END_STMT True"

type_synonym parsed_policy = "val_ret + policy_value \<times> bool \<times> byte list"

definition with_token :: "byte list \<Rightarrow> (byte list \<Rightarrow> (val_ret + policy_value) option) \<Rightarrow> parsed_policy option" where
  "with_token s f = do {
     r \<leftarrow> read_pol_for_zone s;
     case r of Inl e \<Rightarrow> Some (Inl e)
     | Inr (token, endst, rest) \<Rightarrow> do {
         v \<leftarrow> f token;
         Some (case v of Inl e \<Rightarrow> Inl e | Inr v \<Rightarrow> Inr (v, endst, rest))
       }
   }"

definition starts_nocase :: "byte list \<Rightarrow> byte list \<Rightarrow> bool" where
  "starts_nocase s p \<longleftrightarrow> map tolower (take (length p) s) = map tolower p"

definition parse_trust_anchor :: "openssl \<Rightarrow> bool \<Rightarrow> byte list \<Rightarrow> parsed_policy option" where
  "parse_trust_anchor C le s = with_token s (\<lambda>ta_token.
     if starts_nocase ta_token (bytes ''DS'') then do {
       d \<leftarrow> val_parse_ds_string (drop 2 ta_token);
       Some (case d of Inl e \<Rightarrow> Inl e | Inr ds \<Rightarrow> Inr (Trust_anchor \<lparr> publickey = None, ta_ds = Some ds \<rparr>))
     }
     else do {
       let pkstr = (if starts_nocase ta_token (bytes ''DNSKEY'') then drop 6 ta_token else ta_token);
       k \<leftarrow> val_parse_dnskey_string C le pkstr;
       Some (case k of Inl e \<Rightarrow> Inl e | Inr key \<Rightarrow> Inr (Trust_anchor \<lparr> publickey = Some key, ta_ds = None \<rparr>))
     })"

definition parse_clock_skew :: "byte list \<Rightarrow> parsed_policy option" where
  "parse_clock_skew s = with_token s (\<lambda>cs_token. Some (Inr (Clock_skew (c_int (c_strtol cs_token)))))"

definition parse_prov_insecure_status :: "byte list \<Rightarrow> parsed_policy option" where
  "parse_prov_insecure_status s = with_token s (\<lambda>pu_token. Some (
     if pu_token = bytes ''trusted'' then Inr (Prov_insecure ZONE_PU_TRUSTED)
     else if pu_token = bytes ''untrusted'' then Inr (Prov_insecure ZONE_PU_UNTRUSTED)
     else Inl VAL_CONF_PARSE_ERROR))"

definition parse_zone_security_expectation :: "byte list \<Rightarrow> parsed_policy option" where
  "parse_zone_security_expectation s = with_token s (\<lambda>se_token. Some (
     if se_token = bytes ''ignore'' then Inr (Zone_se ZONE_SE_IGNORE)
     else if se_token = bytes ''validate'' then Inr (Zone_se ZONE_SE_DO_VAL)
     else if se_token = bytes ''untrusted'' then Inr (Zone_se ZONE_SE_UNTRUSTED)
     else Inl VAL_CONF_PARSE_ERROR))"

definition parse_nsec3_max_iter :: "byte list \<Rightarrow> parsed_policy option" where
  "parse_nsec3_max_iter s = with_token s (\<lambda>iter_token. Some (Inr (Nsec3_max_iter (c_int (c_strtol iter_token)))))"

text \<open>
  A name in the configuration, as wire format. The array starts out as zeros here, which is not seen: what is copied from
  it is the name \<open>ns_name_pton\<close> has written. A name without a length would leave the copy unwritten.
\<close>

definition zone_of_text :: "byte list \<Rightarrow> byte list option option" where
  "zone_of_text token = do {
     r \<leftarrow> ns_name_pton (token @ [0]) (replicate NS_MAXCDNAME 0);
     case r of None \<Rightarrow> Some None
     | Some (_, dst) \<Rightarrow> do { len \<leftarrow> wire_name_length dst; zone \<leftarrow> seg dst 0 len; if zone = [] then None else Some (Some zone) }
   }"

definition parse_dlv_trust_points :: "byte list \<Rightarrow> parsed_policy option" where
  "parse_dlv_trust_points s = with_token s (\<lambda>dlv_token. do {
     z \<leftarrow> zone_of_text dlv_token;
     Some (case z of None \<Rightarrow> Inl VAL_BAD_ARGUMENT | Some zone \<Rightarrow> Inr (Dlv_trust_point zone))
   })"

definition parse_policy :: "openssl \<Rightarrow> bool \<Rightarrow> policy_kind \<Rightarrow> byte list \<Rightarrow> parsed_policy option" where
  "parse_policy C le k = (case k of P_TRUST_ANCHOR \<Rightarrow> parse_trust_anchor C le | P_CLOCK_SKEW \<Rightarrow> parse_clock_skew
     | P_PROV_INSECURE \<Rightarrow> parse_prov_insecure_status | P_ZONE_SECURITY_EXPECTATION \<Rightarrow> parse_zone_security_expectation
     | P_NSEC3_MAX_ITER \<Rightarrow> parse_nsec3_max_iter | P_DLV_TRUST_POINTS \<Rightarrow> parse_dlv_trust_points)"

type_synonym entries = "policy_value policy_entry list"

text \<open>\<open>STORE_POLICY_ENTRY_IN_LIST\<close>, for one entry and for a list of them.\<close>

fun insert_by_length :: "nat \<Rightarrow> 'a policy_entry \<Rightarrow> 'a policy_entry list \<Rightarrow> 'a policy_entry list option" where
  "insert_by_length plen p [] = Some [p]"
| "insert_by_length plen p (cur # rest) = do {
     l \<leftarrow> wire_name_length (zone_n cur);
     if l \<le> plen then Some (p # cur # rest)
     else do { rest' \<leftarrow> insert_by_length plen p rest; Some (cur # rest') }
   }"

fun store_policy_entries :: "'a policy_entry list \<Rightarrow> 'a policy_entry list \<Rightarrow> 'a policy_entry list option" where
  "store_policy_entries [] head = Some head"
| "store_policy_entries (p # ps) head = do {
     plen \<leftarrow> wire_name_length (zone_n p);
     head' \<leftarrow> insert_by_length plen p head;
     store_policy_entries ps head'
   }"

subsection \<open>Global options\<close>

record val_global_opt =
  local_is_trusted :: int
  edns0_size :: int
  env_policy :: int
  app_policy :: int
  log_target :: "byte list option"
  closest_ta_only :: int
  rec_fallback :: int
  max_refresh :: int
  proto :: int
  timeout :: int
  retry :: int

abbreviation VAL_POL_GOPT_UNSET :: int where "VAL_POL_GOPT_UNSET \<equiv> -100"
abbreviation VAL_POL_GOPT_DISABLE :: int where "VAL_POL_GOPT_DISABLE \<equiv> 0"
abbreviation VAL_POL_GOPT_ENABLE :: int where "VAL_POL_GOPT_ENABLE \<equiv> 1"
abbreviation VAL_POL_GOPT_OVERRIDE :: int where "VAL_POL_GOPT_OVERRIDE \<equiv> 2"

text \<open>\<open>set_global_opt_defaults\<close>; \<open>RES_TIMEOUT\<close> and \<open>RES_RETRY\<close> as the library's own header sets them.\<close>

definition global_opt_defaults :: val_global_opt where
  "global_opt_defaults = \<lparr> local_is_trusted = 0, edns0_size = 4096, env_policy = VAL_POL_GOPT_DISABLE,
     app_policy = VAL_POL_GOPT_DISABLE, log_target = None, closest_ta_only = 0, rec_fallback = 1, max_refresh = 60,
     proto = 0, timeout = 5, retry = 1 \<rparr>"

definition keep_unset :: "int \<Rightarrow> int \<Rightarrow> int" where
  "keep_unset old new = (if new \<noteq> VAL_POL_GOPT_UNSET then new else old)"

definition update_dynamic_gopt :: "val_global_opt option \<Rightarrow> val_global_opt \<Rightarrow> val_global_opt" where
  "update_dynamic_gopt g_new g = (let old = (case g_new of None \<Rightarrow> global_opt_defaults | Some old \<Rightarrow> old) in
     old\<lparr> local_is_trusted := keep_unset (local_is_trusted old) (local_is_trusted g),
       edns0_size := keep_unset (edns0_size old) (edns0_size g),
       env_policy := keep_unset (env_policy old) (env_policy g), app_policy := keep_unset (app_policy old) (app_policy g),
       closest_ta_only := keep_unset (closest_ta_only old) (closest_ta_only g),
       rec_fallback := keep_unset (rec_fallback old) (rec_fallback g),
       max_refresh := keep_unset (max_refresh old) (max_refresh g), proto := keep_unset (proto old) (proto g),
       timeout := keep_unset (timeout old) (timeout g), retry := keep_unset (retry old) (retry g) \<rparr>)"

type_synonym parsed_gopt = "val_ret + val_global_opt \<times> bool \<times> byte list"

text \<open>The head of every \<open>parse_*_gopt\<close>: the value of the option, which may not be the last thing in the file.\<close>

definition gopt_value :: "byte list \<Rightarrow> (byte list \<Rightarrow> val_global_opt option) \<Rightarrow> parsed_gopt option" where
  "gopt_value s f = do {
     r \<leftarrow> conf_token s;
     Some (case r of Inl e \<Rightarrow> Inl e
       | Inr (token, endst, rest) \<Rightarrow> if token = [] \<or> rest = [] then Inl VAL_CONF_PARSE_ERROR
           else (case f token of None \<Rightarrow> Inl VAL_CONF_PARSE_ERROR | Some g \<Rightarrow> Inr (g, endst, rest)))
   }"

definition parse_local_answer_gopt :: "byte list \<Rightarrow> val_global_opt \<Rightarrow> parsed_gopt option" where
  "parse_local_answer_gopt s g = gopt_value s (\<lambda>token.
     if token = bytes ''yes'' then Some (g\<lparr> local_is_trusted := 1 \<rparr>)
     else if token = bytes ''no'' then Some (g\<lparr> local_is_trusted := 0 \<rparr>) else None)"

definition parse_edns0_size_gopt :: "byte list \<Rightarrow> val_global_opt \<Rightarrow> parsed_gopt option" where
  "parse_edns0_size_gopt s g = gopt_value s (\<lambda>token. Some (g\<lparr> edns0_size := c_strtol token \<rparr>))"

definition enable_disable :: "byte list \<Rightarrow> int" where
  "enable_disable token = (if token = bytes ''enable'' then VAL_POL_GOPT_ENABLE
     else if token = bytes ''override'' then VAL_POL_GOPT_OVERRIDE else VAL_POL_GOPT_DISABLE)"

definition parse_enable_disable_gopt :: "(int \<Rightarrow> val_global_opt) \<Rightarrow> byte list \<Rightarrow> parsed_gopt option" where
  "parse_enable_disable_gopt upd s = gopt_value s (\<lambda>token. Some (upd (enable_disable token)))"

definition parse_log_target_gopt :: "byte list \<Rightarrow> val_global_opt \<Rightarrow> parsed_gopt option" where
  "parse_log_target_gopt s g = gopt_value s (\<lambda>token. Some (g\<lparr> log_target := Some token \<rparr>))"

definition starts_with :: "byte list \<Rightarrow> byte list \<Rightarrow> bool" where
  "starts_with s p \<longleftrightarrow> take (length p) s = p"

definition parse_closest_ta_target_gopt :: "byte list \<Rightarrow> val_global_opt \<Rightarrow> parsed_gopt option" where
  "parse_closest_ta_target_gopt s g = gopt_value s (\<lambda>token.
     if starts_with token (bytes ''yes'') then Some (g\<lparr> closest_ta_only := 1 \<rparr>)
     else if starts_with token (bytes ''no'') then Some (g\<lparr> closest_ta_only := 0 \<rparr>) else None)"

definition parse_rec_fallback :: "byte list \<Rightarrow> val_global_opt \<Rightarrow> parsed_gopt option" where
  "parse_rec_fallback s g = gopt_value s (\<lambda>token.
     if starts_with token (bytes ''yes'') then Some (g\<lparr> rec_fallback := 1 \<rparr>)
     else if starts_with token (bytes ''no'') then Some (g\<lparr> rec_fallback := 0 \<rparr>) else None)"

definition parse_max_refresh_gopt :: "byte list \<Rightarrow> val_global_opt \<Rightarrow> parsed_gopt option" where
  "parse_max_refresh_gopt s g = gopt_value s (\<lambda>token. Some (g\<lparr> max_refresh := c_strtol token \<rparr>))"

definition parse_proto :: "byte list \<Rightarrow> val_global_opt \<Rightarrow> parsed_gopt option" where
  "parse_proto s g = gopt_value s (\<lambda>token.
     if starts_with token (bytes ''ipv6'') then Some (g\<lparr> proto := VAL_POL_GOPT_PROTO_IPV6 \<rparr>)
     else if starts_with token (bytes ''ipv4'') then Some (g\<lparr> proto := VAL_POL_GOPT_PROTO_IPV4 \<rparr>)
     else if starts_with token (bytes ''any'') then Some (g\<lparr> proto := 0 \<rparr>) else None)"

definition parse_timeout :: "byte list \<Rightarrow> val_global_opt \<Rightarrow> parsed_gopt option" where
  "parse_timeout s g = gopt_value s (\<lambda>token. Some (g\<lparr> timeout := c_int (c_strtol token) \<rparr>))"

definition parse_retry :: "byte list \<Rightarrow> val_global_opt \<Rightarrow> parsed_gopt option" where
  "parse_retry s g = gopt_value s (\<lambda>token. Some (g\<lparr> retry := c_int (c_strtol token) \<rparr>))"

text \<open>The choice of the parser in \<open>get_global_options\<close>.\<close>

definition parse_gopt :: "byte list \<Rightarrow> byte list \<Rightarrow> val_global_opt \<Rightarrow> parsed_gopt option" where
  "parse_gopt token s g =
     (if token = bytes ''trust-oob-answers'' \<or> token = bytes ''trust-local-answers'' then parse_local_answer_gopt s g
      else if token = bytes ''edns0-size'' then parse_edns0_size_gopt s g
      else if token = bytes ''env-policy'' then parse_enable_disable_gopt (\<lambda>t. g\<lparr> env_policy := t \<rparr>) s
      else if token = bytes ''app-policy'' then parse_enable_disable_gopt (\<lambda>t. g\<lparr> app_policy := t \<rparr>) s
      else if token = bytes ''log'' then parse_log_target_gopt s g
      else if token = bytes ''closest-ta-only'' then parse_closest_ta_target_gopt s g
      else if token = bytes ''rec-fallback'' then parse_rec_fallback s g
      else if token = bytes ''max-refresh'' then parse_max_refresh_gopt s g
      else if token = bytes ''proto'' then parse_proto s g
      else if token = bytes ''timeout'' then parse_timeout s g
      else if token = bytes ''retry'' then parse_retry s g
      else Some (Inl VAL_CONF_PARSE_ERROR))"

lemma gopt_value_shorter:
  assumes "gopt_value s f = Some (Inr (g, endst, rest))"
  shows "length rest < length s"
proof -
  from assms obtain token where t: "conf_token s = Some (Inr (token, endst, rest))" "rest \<noteq> []"
    by (auto simp: gopt_value_def split: Option.bind_splits sum.splits if_splits option.splits)
  have "s \<noteq> []" using t by (auto simp: val_get_token_def skip_to_token_cases)
  with t(1) show ?thesis by (rule val_get_token_shorter)
qed

lemma parse_gopt_shorter: "parse_gopt token s g = Some (Inr (g', endst, rest)) \<Longrightarrow> length rest < length s"
  by (auto simp: parse_gopt_def parse_local_answer_gopt_def parse_edns0_size_gopt_def parse_enable_disable_gopt_def
      parse_log_target_gopt_def parse_closest_ta_target_gopt_def parse_rec_fallback_def parse_max_refresh_gopt_def
      parse_proto_def parse_timeout_def parse_retry_def split: if_splits dest: gopt_value_shorter)

function global_options_loop :: "byte list \<Rightarrow> val_global_opt \<Rightarrow> (val_ret + val_global_opt \<times> byte list) option" where
  "global_options_loop s g = do {
     r \<leftarrow> conf_token s;
     case r of Inl e \<Rightarrow> Some (Inl e)
     | Inr (token, endst, rest) \<Rightarrow>
         if endst \<and> token = [] then Some (Inr (g, rest))
         else if rest = [] then Some (Inl VAL_CONF_PARSE_ERROR)
         else do {
           r2 \<leftarrow> parse_gopt token rest g;
           case r2 of Inl e \<Rightarrow> Some (Inl e)
           | Inr (g', endst', rest') \<Rightarrow> if endst' then Some (Inr (g', rest')) else global_options_loop rest' g'
         }
   }"
  by pat_completeness auto
termination
proof (relation "measure (\<lambda>(s, g). length s)", goal_cases)
  case (2 s g r p token q endst rest r2 p2 g' q2 endst' rest')
  then have t: "conf_token s = Some (Inr (token, endst, rest))" "rest \<noteq> []" by auto
  have "s \<noteq> []" using t by (auto simp: val_get_token_def skip_to_token_cases)
  with t(1) have "length rest < length s" by (rule val_get_token_shorter)
  moreover have "length rest' < length rest" using 2 parse_gopt_shorter by auto
  ultimately show ?case by simp
qed simp

declare global_options_loop.simps [simp del]

definition get_global_options :: "byte list \<Rightarrow> (val_ret + val_global_opt \<times> byte list) option" where
  "get_global_options s = global_options_loop s global_opt_defaults"

lemma with_token_shorter: "with_token s f = Some (Inr (v, endst, rest)) \<Longrightarrow> s \<noteq> [] \<Longrightarrow> length rest < length s"
  by (auto simp: with_token_def read_pol_for_zone_def split: Option.bind_splits sum.splits dest: val_get_token_shorter)

lemma parse_policy_shorter:
  "parse_policy C le k s = Some (Inr (v, endst, rest)) \<Longrightarrow> s \<noteq> [] \<Longrightarrow> length rest < length s"
  by (cases k) (auto simp: parse_policy_def parse_trust_anchor_def parse_clock_skew_def parse_prov_insecure_status_def
      parse_zone_security_expectation_def parse_nsec3_max_iter_def parse_dlv_trust_points_def dest: with_token_shorter)


subsection \<open>Policy fragments\<close>

text \<open>The zones of a fragment and their policies: one of them, and all of them up to the end of the statement.\<close>

definition zone_entry :: "openssl \<Rightarrow> bool \<Rightarrow> policy_kind \<Rightarrow> byte list \<Rightarrow> entries \<Rightarrow> (val_ret + entries \<times> bool \<times> byte list) option" where
  "zone_entry C le index s ents = do {
     r \<leftarrow> conf_token s;
     case r of Inl e \<Rightarrow> Some (Inl e)
     | Inr (token, endst, rest) \<Rightarrow>
         if endst \<and> token = [] then Some (Inr (ents, True, rest))
         else if rest = [] then Some (Inl VAL_CONF_PARSE_ERROR)
         else do {
           z \<leftarrow> zone_of_text token;
           case z of None \<Rightarrow> Some (Inl VAL_CONF_PARSE_ERROR)
           | Some zone \<Rightarrow> do {
               v \<leftarrow> parse_policy C le index rest;
               case v of Inl e \<Rightarrow> Some (Inl VAL_CONF_PARSE_ERROR)
               | Inr (v, endst', rest') \<Rightarrow> do {
                   ents' \<leftarrow> store_policy_entries [\<lparr> zone_n = zone, exp_ttl = 0, pol = Some v \<rparr>] ents;
                   Some (Inr (ents', endst', rest'))
                 }
             }
         }
   }"

lemma conf_token_Nil [simp]: "val_get_token conf_limit comment_c endstmt_c ignore_space [] = Some (Inr ([], False, []))"
  by (simp add: val_get_token_def skip_to_token_cases)

lemma zone_entry_shorter:
  assumes "zone_entry C le index s ents = Some (Inr (ents', endst, rest))"
  shows "length rest < length s"
proof -
  have ne: "s \<noteq> []" using assms by (auto simp: zone_entry_def)
  from assms obtain token endst1 rest1 where t: "conf_token s = Some (Inr (token, endst1, rest1))"
    by (cases "conf_token s") (auto simp: zone_entry_def split: sum.splits)
  note less = val_get_token_shorter [OF t ne]
  from assms t consider "rest = rest1" | v where "parse_policy C le index rest1 = Some (Inr (v, endst, rest))" "rest1 \<noteq> []"
    by (auto simp: zone_entry_def split: if_splits Option.bind_splits option.splits sum.splits)
  then show ?thesis
  proof cases
    case 1
    with less show ?thesis by simp
  next
    case 2
    from parse_policy_shorter [OF this] less show ?thesis by simp
  qed
qed

function zone_entries :: "openssl \<Rightarrow> bool \<Rightarrow> policy_kind \<Rightarrow> byte list \<Rightarrow> entries \<Rightarrow> (val_ret + entries \<times> byte list) option" where
  "zone_entries C le index s ents = do {
     r \<leftarrow> zone_entry C le index s ents;
     case r of Inl e \<Rightarrow> Some (Inl e)
     | Inr (ents', endst, rest) \<Rightarrow> if endst then Some (Inr (ents', rest)) else zone_entries C le index rest ents'
   }"
  by pat_completeness auto
termination
  by (relation "measure (\<lambda>(C, le, index, s, ents). length s)") (auto dest: zone_entry_shorter)

declare zone_entries.simps [simp del]

lemma zone_entries_shorter: "zone_entries C le index s ents = Some (Inr (ents', rest)) \<Longrightarrow> length rest < length s"
proof (induction C le index s ents rule: zone_entries.induct)
  case (1 C le index s ents)
  from 1(2) obtain p endst r where e: "zone_entry C le index s ents = Some (Inr (p, endst, r))"
    by (subst (asm) zone_entries.simps) (auto split: Option.bind_splits sum.splits)
  note less = zone_entry_shorter [OF e]
  show ?case
  proof (cases endst)
    case True
    with 1(2) e less show ?thesis by (subst (asm) zone_entries.simps) simp
  next
    case False
    with 1(2) e have "zone_entries C le index r p = Some (Inr (ents', rest))" by (subst (asm) zone_entries.simps) simp
    with 1(1) [OF e refl refl refl False] less show ?thesis by simp
  qed
qed

text \<open>
  \<open>check_relevance\<close>: \<open>*label_count\<close> and \<open>*relevant\<close>. The scope is taken apart at its colons; a level that is not the last
  one is compared as far as the level goes only.
\<close>

function relevance_loop :: "byte list \<Rightarrow> byte list \<Rightarrow> nat \<Rightarrow> nat \<times> bool" where
  "relevance_loop label c label_count =
     (if 0x3a \<in> set c then
        let p = takeWhile (\<lambda>x. x \<noteq> 0x3a) c in
        if p \<noteq> [] \<and> starts_with label p \<or> label = [0x3a] then (label_count, True)
        else relevance_loop label (drop (length p + 1) c) (label_count + 1)
      else (label_count, label = c))"
  by pat_completeness auto
termination
proof (relation "measure (\<lambda>(label, c, label_count). length c)", goal_cases)
  case (2 label c label_count p)
  then have "0 < length c" by (cases c) auto
  then show ?case by (auto intro: diff_less)
qed simp

declare relevance_loop.simps [simp del]

definition check_relevance :: "byte list \<Rightarrow> byte list option \<Rightarrow> nat \<times> bool" where
  "check_relevance label scope = (let label_count = (if label = [0x3a] then 0 else 1) in
     case scope of None \<Rightarrow> (label_count, True)
     | Some c \<Rightarrow> if label_count = 0 then (0, True) else relevance_loop label c label_count)"

record policy_fragment =
  fr_label :: "byte list"
  fr_label_count :: nat
  fr_index :: policy_kind
  fr_pol :: entries

text \<open>What \<open>get_next_policy_fragment\<close> finds: the end of the file, the word for global options or an inclusion, or a fragment.\<close>

datatype fragment = End_of_file | Global_options | Include_file | Fragment policy_fragment

text \<open>One turn of the loop: an irrelevant fragment is \<open>None\<close>.\<close>

definition read_fragment :: "openssl \<Rightarrow> bool \<Rightarrow> byte list option \<Rightarrow> byte list \<Rightarrow> (val_ret + fragment option \<times> byte list) option" where
  "read_fragment C le scope s = do {
     r \<leftarrow> conf_token s;
     case r of Inl e \<Rightarrow> Some (Inl e)
     | Inr (label, endst, rest) \<Rightarrow>
         if rest = [] then Some (Inr (Some End_of_file, []))
         else if endst then Some (Inl VAL_CONF_PARSE_ERROR)
         else if 0x3a \<in> set label \<and> label \<noteq> [0x3a] then Some (Inl VAL_CONF_PARSE_ERROR)
         else if label = bytes ''global-options'' then Some (Inr (Some Global_options, rest))
         else if label = bytes ''include'' then Some (Inr (Some Include_file, rest))
         else do {
           r \<leftarrow> conf_token rest;
           case r of Inl e \<Rightarrow> Some (Inl e)
           | Inr (keyword, endst, rest) \<Rightarrow>
               if rest = [] \<or> endst then Some (Inl VAL_CONF_PARSE_ERROR)
               else (case map_of conf_elem_array keyword of None \<Rightarrow> Some (Inl VAL_CONF_PARSE_ERROR)
                 | Some index \<Rightarrow> do {
                     r \<leftarrow> zone_entries C le index rest [];
                     Some (case r of Inl e \<Rightarrow> Inl e
                       | Inr (ents, rest) \<Rightarrow>
                           (case check_relevance label scope of (label_count, relevant) \<Rightarrow>
                             Inr (if relevant then Some (Fragment \<lparr> fr_label = label, fr_label_count = label_count,
                               fr_index = index, fr_pol = ents \<rparr>) else None, rest)))
                   })
         }
   }"

lemma read_fragment_shorter:
  assumes "read_fragment C le scope s = Some (Inr (f, rest))" "s \<noteq> []"
  shows "length rest < length s"
proof -
  from assms obtain label endst r1 where t: "conf_token s = Some (Inr (label, endst, r1))"
    by (cases "conf_token s") (auto simp: read_fragment_def split: sum.splits)
  note less = val_get_token_shorter [OF t assms(2)]
  show ?thesis
  proof (cases "rest = r1 \<or> rest = []")
    case True
    with less assms(2) show ?thesis by auto
  next
    case False
    with assms(1) t obtain keyword endst1 r2 where k: "conf_token r1 = Some (Inr (keyword, endst1, r2))" "r1 \<noteq> []"
      by (auto simp: read_fragment_def split: if_splits Option.bind_splits sum.splits)
    with assms(1) t False obtain index ents where "zone_entries C le index r2 [] = Some (Inr (ents, rest))"
      by (auto simp: read_fragment_def split: if_splits Option.bind_splits sum.splits option.splits prod.splits)
    from zone_entries_shorter [OF this] val_get_token_shorter [OF k] less show ?thesis by simp
  qed
qed

function get_next_policy_fragment :: "openssl \<Rightarrow> bool \<Rightarrow> byte list option \<Rightarrow> byte list \<Rightarrow>
    (val_ret + fragment \<times> byte list) option" where
  "get_next_policy_fragment C le scope s =
     (if s = [] then Some (Inr (End_of_file, []))
      else do {
        r \<leftarrow> read_fragment C le scope s;
        case r of Inl e \<Rightarrow> Some (Inl e)
        | Inr (Some f, rest) \<Rightarrow> Some (Inr (f, rest))
        | Inr (None, rest) \<Rightarrow> get_next_policy_fragment C le scope rest
      })"
  by pat_completeness auto
termination
  by (relation "measure (\<lambda>(C, le, scope, s). length s)") (auto dest: read_fragment_shorter)

declare get_next_policy_fragment.simps [simp del]

subsection \<open>The order of precedence\<close>

record policy_overrides =
  po_label :: "byte list"
  po_label_count :: nat
  po_plist :: "(policy_kind \<times> entries) list"

text \<open>\<open>store_policy_overrides\<close>: where the label is or goes, and the list of policies below it.\<close>

definition add_policy :: "policy_fragment \<Rightarrow> (policy_kind \<times> entries) list \<Rightarrow> (policy_kind \<times> entries) list" where
  "add_policy f plist = (if fr_index f \<in> fst ` set plist then plist else (fr_index f, fr_pol f) # plist)"

fun store_policy_overrides :: "policy_overrides list \<Rightarrow> policy_fragment \<Rightarrow> policy_overrides list" where
  "store_policy_overrides [] f = [\<lparr> po_label = fr_label f, po_label_count = fr_label_count f, po_plist = add_policy f [] \<rparr>]"
| "store_policy_overrides (cur # rest) f =
     (if po_label_count cur \<le> fr_label_count f then
        if po_label cur = fr_label f then cur\<lparr> po_plist := add_policy f (po_plist cur) \<rparr> # rest
        else cur # store_policy_overrides rest f
      else \<lparr> po_label = fr_label f, po_label_count = fr_label_count f, po_plist = add_policy f [] \<rparr> # cur # rest)"

end
