(* ===== verification/ConfRead.thy ===== *)
theory ConfRead
  imports Config Query
begin

section \<open>Reading the configuration\<close>

text \<open>
  \<^verbatim>\<open>libval/val_policy.c\<close>: \<open>read_next_val_config_file\<close> and \<open>read_val_config_file\<close>, which read
  \<^verbatim>\<open>dnsval.conf\<close> and the files it includes and replace the policies of the context, and the policies a program adds and
  removes at run time (\<open>val_add_valpolicy\<close>, \<open>val_remove_valpolicy\<close>). The files, the environment and the name of the
  program are the argument \<open>H\<close>. Memory is never exhausted, locks and log messages are left out.
\<close>

subsection \<open>The files\<close>

text \<open>
  What the host answers when a file is opened, locked, examined and read, and the time a file was last changed.
  \<open>inline_buf\<close> is the configuration compiled into the library, with its final zero.
\<close>

datatype file_answer = Not_opened | Not_locked | No_stat | Not_read int | File int "byte list"

record host =
  read_file :: "byte list \<Rightarrow> file_answer"
  inline_buf :: "byte list"
  getenv :: "byte list \<Rightarrow> byte list option"
  getprogname :: "byte list option"

definition isalnum :: "byte \<Rightarrow> bool" where
  "isalnum c \<longleftrightarrow> (0x30 \<le> c \<and> c \<le> 0x39) \<or> (0x41 \<le> c \<and> c \<le> 0x5a) \<or> (0x61 \<le> c \<and> c \<le> 0x7a)"

text \<open>The environment variable in the name of an included file; \<open>None\<close> is a parse error.\<close>

definition expand_env :: "host \<Rightarrow> byte list \<Rightarrow> byte list option" where
  "expand_env H token =
     (if 0x24 \<notin> set token then Some token
      else let pre = takeWhile (\<lambda>c. c \<noteq> 0x24) token;
               post = drop (length pre + 1) token;
               var = takeWhile isalnum post in
        case getenv H var of None \<Rightarrow> None
        | Some v \<Rightarrow> if TOKEN_MAX \<le> length token + length v - length var then None
            else Some (pre @ v @ drop (length var) post))"

text \<open>
  The choice of the policy label from the environment or the name of the program: the options, and the label to start
  over with.
\<close>

definition choose_label :: "host \<Rightarrow> byte list option \<Rightarrow> val_global_opt \<Rightarrow> val_global_opt \<times> byte list option" where
  "choose_label H label g =
     (let env = env_policy g = VAL_POL_GOPT_OVERRIDE \<or> label = None \<and> env_policy g = VAL_POL_GOPT_ENABLE;
          from_env = (if env then getenv H (bytes ''VAL_CONTEXT_LABEL'') else None) in
      if from_env \<noteq> None then (g, from_env)
      else let g = (if env then g\<lparr> env_policy := VAL_POL_GOPT_DISABLE \<rparr> else g);
               app = app_policy g = VAL_POL_GOPT_OVERRIDE \<or> label = None \<and> app_policy g = VAL_POL_GOPT_ENABLE in
           if app then (if getprogname H \<noteq> None then (g, getprogname H) else (g\<lparr> app_policy := VAL_POL_GOPT_DISABLE \<rparr>, None))
           else (g, None))"

text \<open>A pass over a file: \<open>next_label\<close>, \<open>*added_files\<close>, \<open>*overrides\<close> and \<open>*g_opt\<close>; \<open>Again\<close> starts over with another label.\<close>

record conf_pass =
  cp_label :: "byte list option"
  cp_added :: "byte list list"
  cp_overrides :: "policy_overrides list"
  cp_gopt :: "val_global_opt option"

datatype pass_end = Done conf_pass | Again conf_pass

lemma get_next_policy_fragment_shorter:
  "get_next_policy_fragment C le scope s = Some (Inr (f, rest)) \<Longrightarrow> s \<noteq> [] \<Longrightarrow> length rest < length s"
proof (induction C le scope s rule: get_next_policy_fragment.induct)
  case (1 C le scope s)
  from 1(2,3) obtain fo r where e: "read_fragment C le scope s = Some (Inr (fo, r))"
    by (subst (asm) get_next_policy_fragment.simps) (auto split: Option.bind_splits sum.splits)
  note less = read_fragment_shorter [OF e 1(3)]
  show ?case
  proof (cases fo)
    case (Some g)
    with 1(2,3) e less show ?thesis by (subst (asm) get_next_policy_fragment.simps) simp
  next
    case None
    with 1(2,3) e have n: "get_next_policy_fragment C le scope r = Some (Inr (f, rest))"
      by (subst (asm) get_next_policy_fragment.simps) simp
    show ?thesis
    proof (cases "r = []")
      case True
      with n 1(3) show ?thesis by (simp add: get_next_policy_fragment.simps)
    next
      case False
      with 1(1) [OF 1(3) e refl refl None n] less show ?thesis by simp
    qed
  qed
qed

text \<open>
  One turn of the inner loop, after the next fragment: what is left to read may be nothing, which ends the pass. \<open>label\<close>
  is \<open>*label\<close>, \<open>first\<close> is \<open>dnsval_c == dlist\<close>.
\<close>

definition read_step :: "host \<Rightarrow> byte list option \<Rightarrow> bool \<Rightarrow> byte list list \<Rightarrow> conf_pass \<Rightarrow> fragment \<Rightarrow> byte list \<Rightarrow>
    (val_ret + pass_end \<times> byte list) option" where
  "read_step H label first dlist cp f rest = (case f of
     Global_options \<Rightarrow> do {
       g \<leftarrow> get_global_options rest;
       Some (case g of Inl e \<Rightarrow> Inl e
       | Inr (g, rest) \<Rightarrow>
           if cp_gopt cp \<noteq> None \<or> \<not> first then Inr (Done cp, rest)
           else case choose_label H label g of (g, new_label) \<Rightarrow>
             if new_label \<noteq> None then Inr (Again (cp\<lparr> cp_gopt := Some g, cp_label := new_label \<rparr>), rest)
             else Inr (Done (cp\<lparr> cp_gopt := Some g, cp_label := label \<rparr>), rest))
     }
   | Include_file \<Rightarrow> do {
       t \<leftarrow> conf_token rest;
       Some (case t of Inl e \<Rightarrow> Inl e
       | Inr (token, endst, rest) \<Rightarrow>
           if endst \<and> token = [] \<or> rest = [] then Inl VAL_CONF_PARSE_ERROR
           else case expand_env H token of None \<Rightarrow> Inl VAL_CONF_PARSE_ERROR
           | Some name \<Rightarrow> if name \<in> set dlist then Inl VAL_CONF_PARSE_ERROR
               else Inr (Done (cp\<lparr> cp_added := cp_added cp @ [name] \<rparr>), rest))
     }
   | Fragment frag \<Rightarrow> Some (Inr (Done (cp\<lparr> cp_overrides := store_policy_overrides (cp_overrides cp) frag \<rparr>), rest))
   | End_of_file \<Rightarrow> Some (Inr (Done cp, rest)))"

lemma global_options_loop_shorter:
  "global_options_loop s g = Some (Inr (g', rest)) \<Longrightarrow> length rest \<le> length s"
proof (induction s g rule: global_options_loop.induct)
  case (1 s g)
  show ?case
  proof (cases "s = []")
    case True
    with 1(2) show ?thesis by (simp add: global_options_loop.simps)
  next
    case False
    from 1(2) obtain token endst r where t: "conf_token s = Some (Inr (token, endst, r))"
      by (subst (asm) global_options_loop.simps) (auto split: Option.bind_splits sum.splits)
    note less = val_get_token_shorter [OF t False]
    show ?thesis
    proof (cases "endst \<and> token = [] \<or> r = []")
      case True
      with 1(2) t less show ?thesis by (subst (asm) global_options_loop.simps) (auto split: if_splits)
    next
      case no: False
      with 1(2) t obtain g1 e1 r1 where p: "parse_gopt token r g = Some (Inr (g1, e1, r1))"
        by (subst (asm) global_options_loop.simps) (auto split: Option.bind_splits sum.splits)
      note less1 = parse_gopt_shorter [OF p]
      show ?thesis
      proof (cases e1)
        case True
        with 1(2) t p no less less1 show ?thesis by (subst (asm) global_options_loop.simps) (auto split: if_splits)
      next
        case f: False
        with 1(2) t p no have "global_options_loop r1 g1 = Some (Inr (g', rest))"
          by (subst (asm) global_options_loop.simps) (auto split: if_splits)
        with 1(1) [OF t refl refl refl _ _ p refl refl refl f] no less less1 show ?thesis by auto
      qed
    qed
  qed
qed

lemma read_step_shorter:
  assumes "read_step H label first dlist cp f rest = Some (Inr (p, rest'))"
  shows "length rest' \<le> length rest"
proof (cases f)
  case Include_file
  with assms obtain token endst where "conf_token rest = Some (Inr (token, endst, rest'))"
    by (auto simp: read_step_def split: Option.bind_splits sum.splits if_splits option.splits)
  then show ?thesis by (cases "rest = []") (auto dest: val_get_token_shorter)
next
  case Global_options
  with assms obtain g where "get_global_options rest = Some (Inr (g, rest'))"
    by (auto simp: read_step_def split: Option.bind_splits sum.splits if_splits prod.splits)
  then show ?thesis by (auto simp: get_global_options_def dest: global_options_loop_shorter)
qed (use assms in \<open>auto simp: read_step_def\<close>)

lemma get_next_policy_fragment_Nil [simp]: "get_next_policy_fragment C le scope [] = Some (Inr (End_of_file, []))"
  by (simp add: get_next_policy_fragment.simps)

definition read_turn :: "openssl \<Rightarrow> bool \<Rightarrow> host \<Rightarrow> byte list option \<Rightarrow> bool \<Rightarrow> byte list list \<Rightarrow> byte list \<Rightarrow> conf_pass \<Rightarrow>
    (val_ret + pass_end \<times> byte list) option" where
  "read_turn C le H label first dlist s cp = do {
     r \<leftarrow> get_next_policy_fragment C le (cp_label cp) s;
     case r of Inl e \<Rightarrow> Some (Inl e) | Inr (f, rest) \<Rightarrow> read_step H label first dlist cp f rest
   }"

lemma read_turn_shorter:
  assumes "read_turn C le H label first dlist s cp = Some (Inr (p, rest))" "rest \<noteq> []"
  shows "length rest < length s"
proof -
  from assms(1) obtain f r where n: "get_next_policy_fragment C le (cp_label cp) s = Some (Inr (f, r))"
    and st: "read_step H label first dlist cp f r = Some (Inr (p, rest))"
    by (auto simp: read_turn_def split: Option.bind_splits sum.splits)
  from read_step_shorter [OF st] assms(2) have "r \<noteq> []" "length rest \<le> length r" by auto
  moreover have "s \<noteq> []" using n \<open>r \<noteq> []\<close> by auto
  ultimately show ?thesis using get_next_policy_fragment_shorter [OF n] by simp
qed

function read_fragments :: "openssl \<Rightarrow> bool \<Rightarrow> host \<Rightarrow> byte list option \<Rightarrow> bool \<Rightarrow> byte list list \<Rightarrow> byte list \<Rightarrow> conf_pass \<Rightarrow>
    (val_ret + pass_end) option" where
  "read_fragments C le H label first dlist s cp = do {
     r \<leftarrow> read_turn C le H label first dlist s cp;
     case r of Inl e \<Rightarrow> Some (Inl e)
     | Inr (Again cp', rest) \<Rightarrow> Some (Inr (Again cp'))
     | Inr (Done cp', rest) \<Rightarrow>
         if rest = [] then Some (Inr (Done cp')) else read_fragments C le H label first dlist rest cp'
   }"
  by pat_completeness auto
termination
  by (relation "measure (\<lambda>(C, le, H, label, first, dlist, s, cp). length s)") (auto dest: read_turn_shorter)

declare read_fragments.simps [simp del]

text \<open>The passes over a file: a pass starts over only when it has just readable the global options.\<close>

lemma read_turn_gopt:
  assumes "read_turn C le H label first dlist s cp = Some (Inr (p, rest))"
  shows "(case p of Done cp' \<Rightarrow> cp_gopt cp \<noteq> None \<longrightarrow> cp_gopt cp' = cp_gopt cp
    | Again cp' \<Rightarrow> cp_gopt cp = None \<and> cp_gopt cp' \<noteq> None)"
proof -
  from assms(1) obtain f r where "read_step H label first dlist cp f r = Some (Inr (p, rest))"
    by (auto simp: read_turn_def split: Option.bind_splits sum.splits)
  then show ?thesis
    by (auto simp: read_step_def split: fragment.splits Option.bind_splits sum.splits if_splits option.splits prod.splits)
qed

lemma read_fragments_gopt:
  "read_fragments C le H label first dlist s cp = Some (Inr p) \<Longrightarrow>
    (case p of Done cp' \<Rightarrow> cp_gopt cp \<noteq> None \<longrightarrow> cp_gopt cp' = cp_gopt cp
     | Again cp' \<Rightarrow> cp_gopt cp = None \<and> cp_gopt cp' \<noteq> None)"
proof (induction C le H label first dlist s cp rule: read_fragments.induct)
  case (1 C le H label first dlist s cp)
  from 1(2) obtain q rest where t: "read_turn C le H label first dlist s cp = Some (Inr (q, rest))"
    by (subst (asm) read_fragments.simps) (auto split: Option.bind_splits sum.splits)
  note turn = read_turn_gopt [OF t]
  show ?case
  proof (cases q)
    case (Again cp')
    with 1(2) t turn show ?thesis by (subst (asm) read_fragments.simps) simp
  next
    case (Done cp')
    show ?thesis
    proof (cases "rest = []")
      case True
      with 1(2) t turn Done show ?thesis by (subst (asm) read_fragments.simps) simp
    next
      case False
      with 1(2) t Done have "read_fragments C le H label first dlist rest cp' = Some (Inr p)"
        by (subst (asm) read_fragments.simps) simp
      from 1(1) [OF t refl refl Done False this] turn Done show ?thesis by (cases p) auto
    qed
  qed
qed

function read_passes :: "openssl \<Rightarrow> bool \<Rightarrow> host \<Rightarrow> byte list option \<Rightarrow> bool \<Rightarrow> byte list list \<Rightarrow> byte list \<Rightarrow> conf_pass \<Rightarrow>
    (val_ret + conf_pass) option" where
  "read_passes C le H label first dlist buf cp = do {
     let cp = cp\<lparr> cp_added := [], cp_overrides := (if first then [] else cp_overrides cp) \<rparr>;
     r \<leftarrow> read_fragments C le H label first dlist buf cp;
     case r of Inl e \<Rightarrow> Some (Inl e)
     | Inr (Done cp') \<Rightarrow> Some (Inr cp')
     | Inr (Again cp') \<Rightarrow> read_passes C le H label first dlist buf cp'
   }"
  by pat_completeness auto
termination
proof (relation "measure (\<lambda>(C, le, H, label, first, dlist, buf, cp). if cp_gopt cp = None then 1 else 0)", goal_cases)
  case (2 C le H label first dlist buf cp cp0 r p cp')
  then have "read_fragments C le H label first dlist buf cp0 = Some (Inr (Again cp'))" by simp
  from read_fragments_gopt [OF this] 2 show ?case by auto
qed simp

declare read_passes.simps [simp del]

definition read_next_val_config_file :: "openssl \<Rightarrow> bool \<Rightarrow> host \<Rightarrow> bool \<Rightarrow> byte list list \<Rightarrow> byte list \<Rightarrow> conf_pass \<Rightarrow>
    (val_ret + conf_pass) option" where
  "read_next_val_config_file C le H first dlist dnsval_conf cp = (case read_file H dnsval_conf of
     Not_opened \<Rightarrow>
       if \<not> first then Some (Inr (cp\<lparr> cp_added := [] \<rparr>))
       else if take 1 (inline_buf H) = [0] then Some (Inl VAL_CONF_NOT_FOUND)
       else read_passes C le H (cp_label cp) first dlist (inline_buf H) cp
   | Not_locked \<Rightarrow> Some (Inr (cp\<lparr> cp_added := [] \<rparr>))
   | No_stat \<Rightarrow> Some (Inl VAL_CONF_NOT_FOUND)
   | Not_read t \<Rightarrow> Some (Inl VAL_CONF_NOT_FOUND)
   | File t buf \<Rightarrow> read_passes C le H (cp_label cp) first dlist buf cp)"

text \<open>
  The loop over the list of files: those read with their times, those to read. It ends for finitely many files, and there
  is no end to it when every file includes another one; that is the outer \<open>None\<close>.
\<close>

definition file_time :: "file_answer \<Rightarrow> int option" where
  "file_time f = (case f of Not_read t \<Rightarrow> Some t | File t _ \<Rightarrow> Some t | _ \<Rightarrow> None)"

type_synonym dnsval_list = "(byte list \<times> int option) list"

definition visit :: "host \<Rightarrow> dnsval_list \<Rightarrow> byte list \<Rightarrow> dnsval_list" where
  "visit H visited name = visited @ [(name, case file_time (read_file H name) of Some t \<Rightarrow> Some t
     | None \<Rightarrow> if visited = [] then Some 0 else None)]"

partial_function (option) read_files :: "openssl \<Rightarrow> bool \<Rightarrow> host \<Rightarrow> dnsval_list \<Rightarrow> byte list list \<Rightarrow> conf_pass \<Rightarrow>
    (val_ret + dnsval_list \<times> conf_pass) option option" where
  "read_files C le H visited todo cp = (case todo of
     [] \<Rightarrow> Some (Some (Inr (visited, cp)))
   | dnsval_c # later \<Rightarrow>
       (case read_next_val_config_file C le H (visited = []) (map fst visited @ todo) dnsval_c cp of
         None \<Rightarrow> Some None
       | Some (Inl e) \<Rightarrow> if e \<noteq> VAL_CONF_NOT_FOUND then Some (Some (Inl e))
           else read_files C le H (visit H visited dnsval_c) later cp
       | Some (Inr cp') \<Rightarrow> read_files C le H (visit H visited dnsval_c) (cp_added cp' @ later) cp'))"

definition readable :: "host \<Rightarrow> byte list \<Rightarrow> bool" where
  "readable H name \<longleftrightarrow> (\<exists>t buf. read_file H name = File t buf)"

lemma read_turn_added:
  assumes "read_turn C le H label first dlist s cp = Some (Inr (p, rest))" "set (cp_added cp) \<inter> set dlist = {}"
  shows "set (cp_added (case p of Done cp' \<Rightarrow> cp' | Again cp' \<Rightarrow> cp')) \<inter> set dlist = {}"
proof -
  from assms(1) obtain f r where "read_step H label first dlist cp f r = Some (Inr (p, rest))"
    by (auto simp: read_turn_def split: Option.bind_splits sum.splits)
  with assms(2) show ?thesis
    by (auto simp: read_step_def split: fragment.splits Option.bind_splits sum.splits if_splits option.splits prod.splits)
qed

lemma read_fragments_added:
  "read_fragments C le H label first dlist s cp = Some (Inr p) \<Longrightarrow> set (cp_added cp) \<inter> set dlist = {} \<Longrightarrow>
    set (cp_added (case p of Done cp' \<Rightarrow> cp' | Again cp' \<Rightarrow> cp')) \<inter> set dlist = {}"
proof (induction C le H label first dlist s cp rule: read_fragments.induct)
  case (1 C le H label first dlist s cp)
  from 1(2) obtain q rest where t: "read_turn C le H label first dlist s cp = Some (Inr (q, rest))"
    by (subst (asm) read_fragments.simps) (auto split: Option.bind_splits sum.splits)
  note turn = read_turn_added [OF t 1(3)]
  show ?case
  proof (cases "\<exists>cp'. q = Done cp' \<and> rest \<noteq> []")
    case False
    with 1(2) t turn show ?thesis by (subst (asm) read_fragments.simps) (auto split: pass_end.splits)
  next
    case True
    then obtain cp' where d: "q = Done cp'" "rest \<noteq> []" by blast
    with 1(2) t have "read_fragments C le H label first dlist rest cp' = Some (Inr p)"
      by (subst (asm) read_fragments.simps) simp
    from 1(1) [OF t refl refl d this] turn d(1) show ?thesis by simp
  qed
qed

lemma read_passes_added:
  "read_passes C le H label first dlist buf cp = Some (Inr cp') \<Longrightarrow> set (cp_added cp') \<inter> set dlist = {}"
proof (induction C le H label first dlist buf cp rule: read_passes.induct)
  case (1 C le H label first dlist buf cp)
  let ?cp = "cp\<lparr> cp_added := [], cp_overrides := (if first then [] else cp_overrides cp) \<rparr>"
  from 1(2) obtain p where f: "read_fragments C le H label first dlist buf ?cp = Some (Inr p)"
    by (subst (asm) read_passes.simps) (auto simp: Let_def split: Option.bind_splits sum.splits)
  show ?case
  proof (cases p)
    case (Done cp1)
    with 1(2) f read_fragments_added [OF f] show ?thesis by (subst (asm) read_passes.simps) (simp add: Let_def)
  next
    case (Again cp1)
    with 1(2) f have "read_passes C le H label first dlist buf cp1 = Some (Inr cp')"
      by (subst (asm) read_passes.simps) (simp add: Let_def)
    from 1(1) [OF refl f refl Again this] show ?thesis .
  qed
qed

lemma read_next_added:
  assumes "read_next_val_config_file C le H first dlist name cp = Some (Inr cp')"
  shows "set (cp_added cp') \<inter> set dlist = {}" "\<not> readable H name \<Longrightarrow> \<not> first \<Longrightarrow> cp_added cp' = []"
  using assms by (auto simp: read_next_val_config_file_def readable_def split: file_answer.splits if_splits dest: read_passes_added)

lemma read_files_returns:
  assumes "finite {name. readable H name}"
  shows "\<exists>r. read_files C le H visited todo cp = Some r"
proof -
  let ?D = "{name. readable H name}"
  let ?m = "\<lambda>(visited :: dnsval_list, todo). (card (?D - set (map fst visited @ todo)),
    length (filter (\<lambda>n. n \<in> ?D) todo) + (if visited = [] then 1 else 0), length todo)"
  let ?R = "inv_image (less_than <*lex*> less_than <*lex*> less_than) ?m"
  have "wf ?R" by (simp add: wf_lex_prod)
  then have "\<exists>r. read_files C le H (fst vt) (snd vt) cp = Some r" for vt
  proof (induction vt arbitrary: cp rule: wf_induct_rule)
    case (less vt)
    obtain visited todo where vt: "vt = (visited, todo)" by (cases vt)
    show ?case
    proof (cases todo)
      case Nil
      with vt show ?thesis by (simp add: read_files.simps)
    next
      case (Cons name later)
      let ?v = "visit H visited name"
      have names: "map fst ?v = map fst visited @ [name]" "?v \<noteq> []" by (simp_all add: visit_def)
      have go: "\<exists>r. read_files C le H ?v (added @ later) cp' = Some r"
        if "set added \<inter> set (map fst visited @ todo) = {}" "\<not> readable H name \<Longrightarrow> visited \<noteq> [] \<Longrightarrow> added = []" for added cp'
      proof -
        have "((?v, added @ later), vt) \<in> ?R"
        proof (cases "\<exists>n \<in> set added. n \<in> ?D")
          case True
          then obtain n where n: "n \<in> set added" "n \<in> ?D" by blast
          have "card (?D - set (map fst ?v @ added @ later)) < card (?D - set (map fst visited @ todo))"
          proof (rule psubset_card_mono)
            show "finite (?D - set (map fst visited @ todo))" using assms by simp
            have "n \<notin> set (map fst visited @ todo)" using n(1) that(1) by blast
            then show "?D - set (map fst ?v @ added @ later) \<subset> ?D - set (map fst visited @ todo)"
              using n Cons names by auto
          qed
          with vt show ?thesis by simp
        next
          case False
          then have "filter (\<lambda>n. n \<in> ?D) added = []" by (simp add: filter_empty_conv)
          then have len: "length (filter (\<lambda>n. n \<in> ?D) (added @ later)) = length (filter (\<lambda>n. n \<in> ?D) later)" by simp
          have "length (filter (\<lambda>n. n \<in> ?D) later) < length (filter (\<lambda>n. n \<in> ?D) todo) + (if visited = [] then 1 else 0) \<or>
            length (filter (\<lambda>n. n \<in> ?D) later) = length (filter (\<lambda>n. n \<in> ?D) todo) + (if visited = [] then 1 else 0) \<and>
            length (added @ later) < length todo"
            using Cons that(2) by (cases "readable H name") auto
          moreover have "card (?D - set (map fst ?v @ added @ later)) \<le> card (?D - set (map fst visited @ todo))"
            using assms Cons names by (intro card_mono) auto
          ultimately show ?thesis unfolding vt in_inv_image prod.case len
            using names(2) by (simp only: in_lex_prod less_than_iff le_less if_False add_0_right prod.case) blast
        qed
        from less [OF this] show ?thesis by simp
      qed
      show ?thesis
      proof (cases "read_next_val_config_file C le H (visited = []) (map fst visited @ todo) name cp")
        case None
        with vt Cons show ?thesis by (simp add: read_files.simps)
      next
        case (Some r)
        show ?thesis
        proof (cases r)
          case (Inl e)
          with Some vt Cons go [of "[]" cp] show ?thesis by (subst read_files.simps) simp
        next
          case (Inr cp')
          with Some have s: "read_next_val_config_file C le H (visited = []) (map fst visited @ todo) name cp = Some (Inr cp')"
            by simp
          from go [of "cp_added cp'" cp'] read_next_added [OF s] have "\<exists>r. read_files C le H ?v (cp_added cp' @ later) cp' = Some r"
            by blast
          with s vt Cons show ?thesis by (subst read_files.simps) simp
        qed
      qed
    qed
  qed
  from this [of "(visited, todo)"] show ?thesis by simp
qed

subsection \<open>The policies of the context\<close>

text \<open>
  The part of \<open>val_context_t\<close> that the configuration fills. \<open>log_targets\<close> are the texts handed to
  \<open>val_log_add_optarg_to_list\<close>, and the query cache is the one of \<open>Query\<close>.
\<close>

record val_context =
  ctx_label :: "byte list option"
  dyn_polflags :: u32
  dyn_valpolopt :: "val_global_opt option"
  dyn_valpol :: "policy_overrides list"
  base_dnsval_conf :: "byte list option"
  dnsval_l :: dnsval_list
  e_pol :: "policy_kind \<Rightarrow> policy_value e_pol"
  g_opt :: "val_global_opt option"
  log_targets :: "byte list list"
  ctx_queries :: query_cache

abbreviation CTX_DYN_POL_VAL_OVR :: u32 where "CTX_DYN_POL_VAL_OVR \<equiv> 1"
abbreviation CTX_DYN_POL_GLO_OVR :: u32 where "CTX_DYN_POL_GLO_OVR \<equiv> 4"

text \<open>The lists of one label, and of all labels, from the most general one on.\<close>

fun apply_policies :: "(policy_kind \<times> entries) list \<Rightarrow> (policy_kind \<Rightarrow> entries) \<Rightarrow> (policy_kind \<Rightarrow> entries) option" where
  "apply_policies [] e = Some e"
| "apply_policies ((index, ents) # plist) e = do {
     ents' \<leftarrow> store_policy_entries ents (e index);
     apply_policies plist (e(index := ents'))
   }"

fun apply_overrides :: "policy_overrides list \<Rightarrow> (policy_kind \<Rightarrow> entries) \<Rightarrow> (policy_kind \<Rightarrow> entries) option" where
  "apply_overrides [] e = Some e"
| "apply_overrides (t # ts) e = do { e' \<leftarrow> apply_policies (po_plist t) e; apply_overrides ts e' }"

text \<open>
  Storing the entries of a list unlinks them from it: after the loop over the dynamic policies their lists are empty.
\<close>

definition emptied :: "policy_overrides list \<Rightarrow> policy_overrides list" where
  "emptied ts = map (\<lambda>t. t\<lparr> po_plist := map (\<lambda>(index, _). (index, [])) (po_plist t) \<rparr>) ts"

text \<open>What \<open>destroy_valpol\<close> frees; an entry that was freed before is freed twice.\<close>

definition all_policies :: "policy_kind list" where
  "all_policies = [P_TRUST_ANCHOR, P_CLOCK_SKEW, P_PROV_INSECURE, P_ZONE_SECURITY_EXPECTATION, P_NSEC3_MAX_ITER,
     P_DLV_TRUST_POINTS]"

definition destroy_valpol :: "val_context \<Rightarrow> val_context option" where
  "destroy_valpol ctx = (if \<exists>k \<in> set all_policies. e_pol ctx k = Dangling then None
     else Some (ctx\<lparr> dnsval_l := [], e_pol := (\<lambda>_. Entries []), g_opt := None \<rparr>))"

text \<open>Reading the files: the label, the fragments by precedence, the global options and the list of files.\<close>

definition read_config :: "openssl \<Rightarrow> bool \<Rightarrow> host \<Rightarrow> byte list option \<Rightarrow> val_context \<Rightarrow>
    (val_ret + dnsval_list \<times> conf_pass) option option" where
  "read_config C le H scope ctx = (let cp = \<lparr> cp_label = scope, cp_added = [], cp_overrides = [], cp_gopt = None \<rparr> in
     case base_dnsval_conf ctx of
       None \<Rightarrow> Some (Some (Inr ([], cp)))
     | Some conf \<Rightarrow>
         if dyn_polflags ctx AND CTX_DYN_POL_VAL_OVR \<noteq> 0 \<and> dyn_polflags ctx AND CTX_DYN_POL_GLO_OVR \<noteq> 0
         then Some (Some (Inr ([], cp)))
         else read_files C le H [] [conf] cp)"

text \<open>What follows \<open>skipfileread\<close>.\<close>

definition install_config :: "host \<Rightarrow> dnsval_list \<Rightarrow> conf_pass \<Rightarrow> val_context \<Rightarrow> val_context option" where
  "install_config H dlist cp ctx = do {
     let overrides = (if cp_label cp = None then take 1 (cp_overrides cp) else cp_overrides cp);
     ctx1 \<leftarrow> destroy_valpol ctx;
     e1 \<leftarrow> (if dyn_polflags ctx AND CTX_DYN_POL_VAL_OVR \<noteq> 0 then Some (\<lambda>_. []) else apply_overrides overrides (\<lambda>_. []));
     e2 \<leftarrow> apply_overrides (dyn_valpol ctx) e1;
     let g = (case cp_gopt cp of None \<Rightarrow> global_opt_defaults | Some g \<Rightarrow> g);
     let logs = List.map_filter (\<lambda>t. t) [log_target g, Option.bind (dyn_valpolopt ctx) log_target, getenv H (bytes ''VAL_LOG_TARGET'')];
     Some (ctx1\<lparr> ctx_label := cp_label cp, e_pol := (\<lambda>k. Entries (e2 k)), dyn_valpol := emptied (dyn_valpol ctx),
       g_opt := Some (case dyn_valpolopt ctx of None \<Rightarrow> g | Some d \<Rightarrow> update_dynamic_gopt (Some g) d),
       log_targets := logs, ctx_queries := \<lparr> q_list = [], q_heap = (q_heap (ctx_queries ctx)) |` (- set (q_list (ctx_queries ctx))) \<rparr>,
       dnsval_l := dlist \<rparr>)
   }"

definition read_val_config_file :: "openssl \<Rightarrow> bool \<Rightarrow> host \<Rightarrow> byte list option \<Rightarrow> val_context \<Rightarrow>
    (val_ret \<times> val_context) option option" where
  "read_val_config_file C le H scope ctx = (case read_config C le H scope ctx of
     None \<Rightarrow> None
   | Some None \<Rightarrow> Some None
   | Some (Some (Inl e)) \<Rightarrow> Some (Some (e, ctx))
   | Some (Some (Inr (dlist, cp))) \<Rightarrow> Some (do { ctx' \<leftarrow> install_config H dlist cp ctx; Some (VAL_NO_ERROR, ctx') }))"

subsection \<open>Policies added and removed by a program\<close>

definition mark_queries :: "byte list \<Rightarrow> query_cache \<Rightarrow> query_cache option" where
  "mark_queries zone qc = (if \<exists>a \<in> set (q_list qc). case q_heap qc a of None \<Rightarrow> True | Some q \<Rightarrow> namename (qc_name_n q) zone = None
     then None
     else Some (qc\<lparr> q_heap := (\<lambda>a. case q_heap qc a of None \<Rightarrow> None
       | Some q \<Rightarrow> Some (if a \<in> set (q_list qc) \<and> in_zone (qc_name_n q) zone
           then q\<lparr> qc_flags := qc_flags q OR VAL_QUERY_MARK_FOR_DELETION \<rparr> else q)) \<rparr>))"

record policy_definition =
  pd_keyword :: "byte list option"
  pd_zone :: "byte list option"
  pd_value :: "byte list option"
  pd_ttl :: int

text \<open>
  The entry \<open>val_add_valpolicy\<close> makes of a definition, and its place in the context \<open>ctx\<close> that
  \<open>val_create_or_refresh_context\<close> gives it.
\<close>

definition policy_of_definition :: "openssl \<Rightarrow> bool \<Rightarrow> int \<Rightarrow> policy_definition \<Rightarrow>
    (val_ret + policy_kind \<times> policy_value policy_entry) option" where
  "policy_of_definition C le now d =
     (case (pd_keyword d, pd_zone d, pd_value d) of
       (Some keyword, Some zone, Some val) \<Rightarrow>
         (case map_of conf_elem_array keyword of None \<Rightarrow> Some (Inl VAL_BAD_ARGUMENT)
         | Some index \<Rightarrow> do {
             z \<leftarrow> zone_of_text zone;
             case z of None \<Rightarrow> Some (Inl VAL_BAD_ARGUMENT)
             | Some z_n \<Rightarrow> do {
                 p \<leftarrow> parse_policy C le index val;
                 Some (case p of Inl e \<Rightarrow> Inl VAL_BAD_ARGUMENT
                   | Inr (v, _, _) \<Rightarrow> Inr (index, \<lparr> zone_n = z_n, exp_ttl = (if 0 < pd_ttl d then pd_ttl d + now else 0), pol = Some v \<rparr>))
               }
           })
     | _ \<Rightarrow> Some (Inl VAL_BAD_ARGUMENT))"

definition val_add_valpolicy :: "openssl \<Rightarrow> bool \<Rightarrow> int \<Rightarrow> policy_definition \<Rightarrow> val_context \<Rightarrow>
    (val_ret \<times> (policy_kind \<times> policy_value policy_entry) option \<times> val_context) option" where
  "val_add_valpolicy C le now d ctx = do {
     r \<leftarrow> policy_of_definition C le now d;
     case r of Inl e \<Rightarrow> Some (e, None, ctx)
     | Inr (index, ent) \<Rightarrow>
         (case e_pol ctx index of Dangling \<Rightarrow> None
         | Entries es \<Rightarrow> do {
             es' \<leftarrow> store_policy_entries [ent] es;
             qc \<leftarrow> mark_queries (zone_n ent) (ctx_queries ctx);
             Some (VAL_NO_ERROR, Some (index, ent), ctx\<lparr> e_pol := (e_pol ctx)(index := Entries es'), ctx_queries := qc \<rparr>)
           })
   }"

text \<open>
  \<open>val_remove_valpolicy\<close> looks for the entry by its address; \<open>place\<close> is where in the list it is, \<open>None\<close> if it is not there.
\<close>

definition val_remove_valpolicy :: "policy_kind \<Rightarrow> nat option \<Rightarrow> val_context \<Rightarrow> (val_ret \<times> val_context) option" where
  "val_remove_valpolicy index place ctx =
     (case e_pol ctx index of Dangling \<Rightarrow> None
     | Entries es \<Rightarrow>
         (case place of None \<Rightarrow> Some (VAL_NO_POLICY, ctx)
         | Some i \<Rightarrow> if length es \<le> i then Some (VAL_NO_POLICY, ctx)
             else do {
               qc \<leftarrow> mark_queries (zone_n (es ! i)) (ctx_queries ctx);
               Some (VAL_NO_ERROR, ctx\<lparr> e_pol := (e_pol ctx)(index := Entries (take i es @ drop (Suc i) es)), ctx_queries := qc \<rparr>)
             }))"

subsection \<open>What every list of policies is made of\<close>

text \<open>The type behind the pointer of an entry is the one its list is for, and its zone is a well-formed name.\<close>

fun has_kind :: "policy_kind \<Rightarrow> policy_value \<Rightarrow> bool" where
  "has_kind P_TRUST_ANCHOR (Trust_anchor _) = True"
| "has_kind P_CLOCK_SKEW (Clock_skew _) = True"
| "has_kind P_PROV_INSECURE (Prov_insecure _) = True"
| "has_kind P_ZONE_SECURITY_EXPECTATION (Zone_se _) = True"
| "has_kind P_NSEC3_MAX_ITER (Nsec3_max_iter _) = True"
| "has_kind P_DLV_TRUST_POINTS (Dlv_trust_point _) = True"
| "has_kind _ _ = False"

definition wf_entry :: "policy_kind \<Rightarrow> policy_value policy_entry \<Rightarrow> bool" where
  "wf_entry k e \<longleftrightarrow> (\<exists>v. pol e = Some v \<and> has_kind k v) \<and> valid_name (zone_n e)"

abbreviation wf_entries :: "policy_kind \<Rightarrow> entries \<Rightarrow> bool" where
  "wf_entries k \<equiv> list_all (wf_entry k)"

definition wf_plist :: "(policy_kind \<times> entries) list \<Rightarrow> bool" where
  "wf_plist pl \<longleftrightarrow> (\<forall>(k, es) \<in> set pl. wf_entries k es)"

definition wf_overrides :: "policy_overrides list \<Rightarrow> bool" where
  "wf_overrides ts \<longleftrightarrow> (\<forall>t \<in> set ts. wf_plist (po_plist t))"

definition wf_context :: "val_context \<Rightarrow> bool" where
  "wf_context ctx \<longleftrightarrow> (\<forall>k es. e_pol ctx k = Entries es \<longrightarrow> wf_entries k es \<and> longest_first es) \<and> wf_overrides (dyn_valpol ctx)"

lemma zone_of_text_valid: "zone_of_text token = Some (Some zone) \<Longrightarrow> valid_name zone"
proof -
  assume "zone_of_text token = Some (Some zone)"
  then obtain dst len where len: "wire_name_length dst = Some len" "seg dst 0 len = Some zone" "zone \<noteq> []"
    by (auto simp: zone_of_text_def split: Option.bind_splits option.splits prod.splits if_splits)
  then have "0 < len" using length_seg [OF len(2)] by auto
  with len show ?thesis by (intro seg_name)
qed

lemma with_token_value:
  "with_token s f = Some (Inr (v, r)) \<Longrightarrow> \<exists>t. f t = Some (Inr v)"
  by (auto simp: with_token_def split: Option.bind_splits sum.splits)

lemma parse_policy_kind:
  assumes "parse_policy C le k s = Some (Inr (v, r))"
  shows "has_kind k v"
  using assms
  by (cases k)
    (auto simp: parse_policy_def parse_trust_anchor_def parse_clock_skew_def parse_prov_insecure_status_def
      parse_zone_security_expectation_def parse_nsec3_max_iter_def parse_dlv_trust_points_def Let_def
      split: if_splits Option.bind_splits sum.splits option.splits dest!: with_token_value)

text \<open>A list stays in order when an entry goes to its place, and the entry found first for a zone is the last one stored.\<close>

definition for_zone :: "byte list \<Rightarrow> 'a policy_entry list \<Rightarrow> 'a policy_entry option" where
  "for_zone z es = List.find (\<lambda>e. zone_n e = z) es"

lemma for_zone_simps [simp]:
  "for_zone z [] = None"
  "for_zone z (e # es) = (if zone_n e = z then Some e else for_zone z es)"
  by (simp_all add: for_zone_def)

lemma for_zone_append: "for_zone z (xs @ ys) = (case for_zone z xs of None \<Rightarrow> for_zone z ys | Some e \<Rightarrow> Some e)"
  by (induction xs) auto

lemma insert_by_length_set: "insert_by_length plen p es = Some es' \<Longrightarrow> set es' = insert p (set es)"
proof (induction es arbitrary: es')
  case (Cons e es)
  from Cons.prems consider "es' = p # e # es" | es1 where "insert_by_length plen p es = Some es1" "es' = e # es1"
    by (auto split: if_splits Option.bind_splits)
  then show ?case
  proof cases
    case 2
    with Cons.IH [OF 2(1)] show ?thesis by auto
  qed simp
qed simp

lemma insert_by_length_first:
  assumes "insert_by_length plen p es = Some es'" "wire_name_length (zone_n p) = Some plen"
  shows "for_zone z es' = (if zone_n p = z then Some p else for_zone z es)"
  using assms by (induction es arbitrary: es') (auto split: if_splits Option.bind_splits)

lemma insert_by_length_sorted:
  assumes "insert_by_length plen p es = Some es'" "wire_name_length (zone_n p) = Some plen" "longest_first es"
  shows "longest_first es'"
  using assms
proof (induction es arbitrary: es')
  case Nil
  then show ?case by (auto simp: longest_first_def)
next
  case (Cons e es)
  from Cons.prems(1) obtain l where l: "wire_name_length (zone_n e) = Some l" by (auto split: Option.bind_splits)
  have tail: "longest_first es" using Cons.prems(3) by (simp add: longest_first_def)
  show ?case
  proof (cases "l \<le> plen")
    case True
    have "name_len (zone_n x) \<le> plen" if "x \<in> set (e # es)" for x
      using that Cons.prems(3) l True by (auto simp: longest_first_def intro: order_trans)
    with True l Cons.prems show ?thesis by (auto simp: longest_first_def)
  next
    case False
    with Cons.prems(1) l obtain es1 where es1: "insert_by_length plen p es = Some es1" "es' = e # es1"
      by (auto split: Option.bind_splits)
    from Cons.IH [OF es1(1) Cons.prems(2) tail] es1(2) insert_by_length_set [OF es1(1)] Cons.prems(2,3) l False
    show ?thesis by (auto simp: longest_first_def)
  qed
qed

lemma store_policy_entries_spec:
  assumes "store_policy_entries ps es = Some es'"
  shows "set es' = set ps \<union> set es" "longest_first es \<Longrightarrow> longest_first es'"
    "for_zone z es' = (case for_zone z (rev ps) of None \<Rightarrow> for_zone z es | Some p \<Rightarrow> Some p)"
proof -
  have "set es' = set ps \<union> set es \<and> (longest_first es \<longrightarrow> longest_first es') \<and>
    for_zone z es' = (case for_zone z (rev ps) of None \<Rightarrow> for_zone z es | Some p \<Rightarrow> Some p)"
    using assms
  proof (induction ps arbitrary: es)
    case (Cons p ps)
    from Cons.prems obtain plen es1 where p: "wire_name_length (zone_n p) = Some plen"
      "insert_by_length plen p es = Some es1" "store_policy_entries ps es1 = Some es'"
      by (auto split: Option.bind_splits)
    note ins = insert_by_length_set [OF p(2)] insert_by_length_sorted [OF p(2,1)] insert_by_length_first [OF p(2,1), of z]
    from Cons.IH [OF p(3)] ins(1,2) have "set es' = set (p # ps) \<union> set es \<and> (longest_first es \<longrightarrow> longest_first es')" by simp
    moreover from Cons.IH [OF p(3)] ins(3)
    have "for_zone z es' = (case for_zone z (rev (p # ps)) of None \<Rightarrow> for_zone z es | Some p \<Rightarrow> Some p)"
      by (cases "for_zone z (rev ps)") (simp_all add: for_zone_append)
    ultimately show ?case by simp
  qed simp
  then show "set es' = set ps \<union> set es" "longest_first es \<Longrightarrow> longest_first es'"
    "for_zone z es' = (case for_zone z (rev ps) of None \<Rightarrow> for_zone z es | Some p \<Rightarrow> Some p)"
    by blast+
qed

lemma store_policy_entries_wf:
  "store_policy_entries ps es = Some es' \<Longrightarrow> wf_entries k ps \<Longrightarrow> wf_entries k es \<Longrightarrow> wf_entries k es'"
  using store_policy_entries_spec(1) [of ps es es'] by (auto simp: list_all_iff)

lemma store_policy_entries_returns:
  assumes "ok_entries ps" "ok_entries es"
  shows "\<exists>es'. store_policy_entries ps es = Some es'"
  using assms
proof (induction ps arbitrary: es)
  case (Cons p ps)
  have ins: "\<exists>es'. insert_by_length plen p es = Some es'" if "ok_entries es" for es plen
    using that
  proof (induction es)
    case (Cons e es)
    then obtain l es' where "wire_name_length (zone_n e) = Some l" "insert_by_length plen p es = Some es'"
      using valid_name_length [of "zone_n e"] by auto
    then show ?case by simp
  qed simp
  obtain k where k: "wire_name_length (zone_n p) = Some k" using Cons.prems(1) valid_name_length [of "zone_n p"] by auto
  from ins [OF Cons.prems(2)] obtain es1 where es1: "insert_by_length k p es = Some es1" by blast
  with insert_by_length_set [OF es1] Cons.prems have "ok_entries es1" by (auto simp: list_all_iff)
  with Cons.IH [OF _ this] Cons.prems(1) k es1 show ?case by auto
qed simp

lemma wf_entries_ok: "wf_entries k es \<Longrightarrow> ok_entries es"
  by (auto simp: list_all_iff wf_entry_def)

lemma zone_entry_wf:
  assumes "zone_entry C le index s ents = Some (Inr (ents', endst, rest))" "wf_entries index ents"
  shows "wf_entries index ents'"
proof -
  from assms(1) consider "ents' = ents"
    | token zone v r1 where "zone_of_text token = Some (Some zone)" "parse_policy C le index r1 = Some (Inr (v, endst, rest))"
      "store_policy_entries [\<lparr> zone_n = zone, exp_ttl = 0, pol = Some v \<rparr>] ents = Some ents'"
    by (auto simp: zone_entry_def split: if_splits Option.bind_splits option.splits sum.splits)
  then show ?thesis
  proof cases
    case 2
    have "wf_entries index [\<lparr> zone_n = zone, exp_ttl = 0, pol = Some v \<rparr>]"
      using zone_of_text_valid [OF 2(1)] parse_policy_kind [OF 2(2)] by (simp add: wf_entry_def)
    from store_policy_entries_wf [OF 2(3) this assms(2)] show ?thesis .
  qed (use assms(2) in simp)
qed

lemma zone_entries_wf:
  "zone_entries C le index s ents = Some (Inr (ents', rest)) \<Longrightarrow> wf_entries index ents \<Longrightarrow> wf_entries index ents'"
proof (induction C le index s ents rule: zone_entries.induct)
  case (1 C le index s ents)
  from 1(2) obtain p endst r where e: "zone_entry C le index s ents = Some (Inr (p, endst, r))"
    by (subst (asm) zone_entries.simps) (auto split: Option.bind_splits sum.splits)
  note wf = zone_entry_wf [OF e 1(3)]
  show ?case
  proof (cases endst)
    case True
    with 1(2) e wf show ?thesis by (subst (asm) zone_entries.simps) simp
  next
    case False
    with 1(2) e have "zone_entries C le index r p = Some (Inr (ents', rest))" by (subst (asm) zone_entries.simps) simp
    with 1(1) [OF e refl refl refl False] wf show ?thesis by simp
  qed
qed

lemma get_next_policy_fragment_wf:
  "get_next_policy_fragment C le scope s = Some (Inr (Fragment f, rest)) \<Longrightarrow> wf_entries (fr_index f) (fr_pol f)"
proof (induction C le scope s rule: get_next_policy_fragment.induct)
  case (1 C le scope s)
  have ne: "s \<noteq> []" using 1(2) by auto
  with 1(2) obtain fo r where e: "read_fragment C le scope s = Some (Inr (fo, r))"
    by (subst (asm) get_next_policy_fragment.simps) (auto split: Option.bind_splits sum.splits)
  show ?case
  proof (cases fo)
    case (Some g)
    with 1(2) e ne have "read_fragment C le scope s = Some (Inr (Some (Fragment f), rest))"
      by (subst (asm) get_next_policy_fragment.simps) simp
    then obtain s' index ents where z: "zone_entries C le index s' [] = Some (Inr (ents, rest))" "fr_index f = index" "fr_pol f = ents"
      by (auto simp: read_fragment_def split: if_splits Option.bind_splits sum.splits option.splits prod.splits)
    from zone_entries_wf [OF z(1)] z(2,3) show ?thesis by simp
  next
    case None
    with 1(2) e ne have "get_next_policy_fragment C le scope r = Some (Inr (Fragment f, rest))"
      by (subst (asm) get_next_policy_fragment.simps) simp
    from 1(1) [OF ne e refl refl None this] show ?thesis .
  qed
qed

lemma add_policy_wf: "wf_entries (fr_index f) (fr_pol f) \<Longrightarrow> wf_plist pl \<Longrightarrow> wf_plist (add_policy f pl)"
  by (auto simp: add_policy_def wf_plist_def)

lemma store_policy_overrides_wf:
  "wf_entries (fr_index f) (fr_pol f) \<Longrightarrow> wf_overrides ts \<Longrightarrow> wf_overrides (store_policy_overrides ts f)"
proof (induction ts)
  case Nil
  then show ?case using add_policy_wf [of f "[]"] by (simp add: wf_overrides_def wf_plist_def)
next
  case (Cons t ts)
  then have "wf_plist (po_plist t)" "wf_overrides ts" by (simp_all add: wf_overrides_def)
  with Cons add_policy_wf [of f "[]"] add_policy_wf [of f "po_plist t"] show ?case
    by (simp add: wf_overrides_def wf_plist_def)
qed

text \<open>
  What a reading keeps of the list of labels: anything that holds of the empty list and that \<open>store_policy_overrides\<close> keeps for a
  fragment whose entries are those of its kind.
\<close>

locale kept_by_storing =
  fixes P :: "policy_overrides list \<Rightarrow> bool"
  assumes empty: "P []"
    and stored: "wf_entries (fr_index f) (fr_pol f) \<Longrightarrow> P ts \<Longrightarrow> P (store_policy_overrides ts f)"
begin

lemma read_turn_kept:
  assumes "read_turn C le H label first dlist s cp = Some (Inr (p, rest))" "P (cp_overrides cp)"
  shows "P (cp_overrides (case p of Done cp' \<Rightarrow> cp' | Again cp' \<Rightarrow> cp'))"
proof -
  from assms(1) obtain f r where n: "get_next_policy_fragment C le (cp_label cp) s = Some (Inr (f, r))"
    and st: "read_step H label first dlist cp f r = Some (Inr (p, rest))"
    by (auto simp: read_turn_def split: Option.bind_splits sum.splits)
  show ?thesis
  proof (cases f)
    case (Fragment frag)
    with st stored [OF get_next_policy_fragment_wf assms(2)] n show ?thesis
      by (auto simp: read_step_def)
  qed (use st assms(2) in \<open>auto simp: read_step_def split: Option.bind_splits sum.splits if_splits option.splits prod.splits\<close>)
qed

lemma read_fragments_kept:
  "read_fragments C le H label first dlist s cp = Some (Inr p) \<Longrightarrow> P (cp_overrides cp) \<Longrightarrow>
    P (cp_overrides (case p of Done cp' \<Rightarrow> cp' | Again cp' \<Rightarrow> cp'))"
proof (induction C le H label first dlist s cp rule: read_fragments.induct)
  case (1 C le H label first dlist s cp)
  from 1(2) obtain q rest where t: "read_turn C le H label first dlist s cp = Some (Inr (q, rest))"
    by (subst (asm) read_fragments.simps) (auto split: Option.bind_splits sum.splits)
  note turn = read_turn_kept [OF t 1(3)]
  show ?case
  proof (cases "\<exists>cp'. q = Done cp' \<and> rest \<noteq> []")
    case False
    with 1(2) t turn show ?thesis by (subst (asm) read_fragments.simps) (auto split: pass_end.splits)
  next
    case True
    then obtain cp' where d: "q = Done cp'" "rest \<noteq> []" by blast
    with 1(2) t have "read_fragments C le H label first dlist rest cp' = Some (Inr p)"
      by (subst (asm) read_fragments.simps) simp
    from 1(1) [OF t refl refl d this] turn d(1) show ?thesis by simp
  qed
qed

lemma read_passes_kept:
  "read_passes C le H label first dlist buf cp = Some (Inr cp') \<Longrightarrow> P (cp_overrides cp) \<Longrightarrow>
    P (cp_overrides cp')"
proof (induction C le H label first dlist buf cp rule: read_passes.induct)
  case (1 C le H label first dlist buf cp)
  let ?cp = "cp\<lparr> cp_added := [], cp_overrides := (if first then [] else cp_overrides cp) \<rparr>"
  from 1(2) obtain p where f: "read_fragments C le H label first dlist buf ?cp = Some (Inr p)"
    by (subst (asm) read_passes.simps) (auto simp: Let_def split: Option.bind_splits sum.splits)
  from 1(3) empty have "P (cp_overrides ?cp)" by simp
  note wf = read_fragments_kept [OF f this]
  show ?case
  proof (cases p)
    case (Done cp1)
    with 1(2) f wf show ?thesis by (subst (asm) read_passes.simps) (simp add: Let_def)
  next
    case (Again cp1)
    with 1(2) f have "read_passes C le H label first dlist buf cp1 = Some (Inr cp')"
      by (subst (asm) read_passes.simps) (simp add: Let_def)
    from 1(1) [OF refl f refl Again this] wf Again show ?thesis by simp
  qed
qed

lemma read_next_kept:
  "read_next_val_config_file C le H first dlist name cp = Some (Inr cp') \<Longrightarrow> P (cp_overrides cp) \<Longrightarrow>
    P (cp_overrides cp')"
  by (auto simp: read_next_val_config_file_def split: file_answer.splits if_splits dest: read_passes_kept)

lemma read_files_kept:
  assumes "read_files C le H visited todo cp = Some (Some (Inr (dlist, cp')))" "P (cp_overrides cp)"
  shows "P (cp_overrides cp')"
proof -
  have "P (cp_overrides cp) \<longrightarrow> (\<forall>dlist cp'. r = Some (Inr (dlist, cp')) \<longrightarrow> P (cp_overrides cp'))"
    if "read_files C le H visited todo cp = Some r" for C le H visited todo cp r
  proof (rule read_files.raw_induct [OF _ that], intro impI allI)
    fix f C le H visited todo cp and r dlist cp'
    assume IH: "\<And>C le H visited todo cp r. f C le H visited todo cp = Some r \<Longrightarrow>
        P (cp_overrides cp) \<longrightarrow> (\<forall>dlist cp'. r = Some (Inr (dlist, cp')) \<longrightarrow> P (cp_overrides cp'))"
      and wf: "P (cp_overrides cp)" and r: "r = Some (Inr (dlist, cp'))"
      and turn: "(case todo of [] \<Rightarrow> Some (Some (Inr (visited, cp)))
        | dnsval_c # later \<Rightarrow>
            (case read_next_val_config_file C le H (visited = []) (map fst visited @ todo) dnsval_c cp of
              None \<Rightarrow> Some None
            | Some (Inl e) \<Rightarrow> if e \<noteq> VAL_CONF_NOT_FOUND then Some (Some (Inl e)) else f C le H (visit H visited dnsval_c) later cp
            | Some (Inr cp') \<Rightarrow> f C le H (visit H visited dnsval_c) (cp_added cp' @ later) cp')) = Some r"
    show "P (cp_overrides cp')"
    proof (cases todo)
      case Nil
      with turn wf r show ?thesis by simp
    next
      case (Cons name later)
      from turn Cons r consider "f C le H (visit H visited name) later cp = Some (Some (Inr (dlist, cp')))"
        | cp1 where "read_next_val_config_file C le H (visited = []) (map fst visited @ todo) name cp = Some (Inr cp1)"
            "f C le H (visit H visited name) (cp_added cp1 @ later) cp1 = Some (Some (Inr (dlist, cp')))"
        by (auto split: option.splits sum.splits if_splits)
      then show ?thesis
      proof cases
        case 1
        from IH [OF 1] wf show ?thesis by simp
      next
        case 2
        from IH [OF 2(2)] read_next_kept [OF 2(1) wf] show ?thesis by simp
      qed
    qed
  qed
  from this [OF assms(1)] assms(2) show ?thesis by simp
qed

lemma read_config_kept:
  "read_config C le H scope ctx = Some (Some (Inr (dlist, cp))) \<Longrightarrow> P (cp_overrides cp)"
  using empty by (auto simp: read_config_def Let_def split: option.splits if_splits dest: read_files_kept)

end

interpretation typed: kept_by_storing wf_overrides
  by unfold_locales (simp add: wf_overrides_def, rule store_policy_overrides_wf)

text \<open>The labels stay in order, from general to specific.\<close>

definition by_generality :: "policy_overrides list \<Rightarrow> bool" where
  "by_generality ts \<longleftrightarrow> sorted_wrt (\<lambda>a b. po_label_count a \<le> po_label_count b) ts"

lemma store_policy_overrides_counts:
  "t \<in> set (store_policy_overrides ts f) \<Longrightarrow> po_label_count t = fr_label_count f \<or> (\<exists>x \<in> set ts. po_label_count t = po_label_count x)"
proof (induction ts)
  case (Cons x ts)
  show ?case
  proof (cases "po_label_count x \<le> fr_label_count f \<and> po_label x \<noteq> fr_label f")
    case True
    with Cons show ?thesis by auto
  next
    case False
    with Cons.prems show ?thesis by (auto split: if_splits)
  qed
qed simp

lemma store_policy_overrides_sorted: "by_generality ts \<Longrightarrow> by_generality (store_policy_overrides ts f)"
proof (induction ts)
  case (Cons t ts)
  then have IH: "by_generality (store_policy_overrides ts f)" by (simp add: by_generality_def)
  have "\<forall>x \<in> set ts. po_label_count t \<le> po_label_count x" using Cons.prems by (simp add: by_generality_def)
  with store_policy_overrides_counts [of _ ts f]
  have "\<forall>x \<in> set (store_policy_overrides ts f). po_label_count t \<le> po_label_count x" if "po_label_count t \<le> fr_label_count f"
    using that by fastforce
  note below = this
  show ?case
  proof (cases "po_label_count t \<le> fr_label_count f")
    case True
    with below IH Cons.prems show ?thesis by (cases "po_label t = fr_label f") (simp_all add: by_generality_def)
  next
    case False
    with Cons.prems show ?thesis by (fastforce simp: by_generality_def)
  qed
qed (simp add: by_generality_def)

interpretation ordered: kept_by_storing by_generality
  by unfold_locales (simp add: by_generality_def, rule store_policy_overrides_sorted)

lemma apply_policies_wf:
  "apply_policies pl e = Some e' \<Longrightarrow> wf_plist pl \<Longrightarrow> \<forall>k. wf_entries k (e k) \<and> longest_first (e k) \<Longrightarrow>
    \<forall>k. wf_entries k (e' k) \<and> longest_first (e' k)"
proof (induction pl arbitrary: e)
  case (Cons p pl)
  obtain index es where p: "p = (index, es)" by (cases p)
  from Cons.prems(1) p obtain es' where es': "store_policy_entries es (e index) = Some es'"
    "apply_policies pl (e(index := es')) = Some e'" by (auto split: Option.bind_splits)
  have "wf_entries index es" "wf_plist pl" using Cons.prems(2) p by (auto simp: wf_plist_def)
  with Cons.prems(3) store_policy_entries_wf [OF es'(1)] store_policy_entries_spec(2) [OF es'(1)]
  have "\<forall>k. wf_entries k ((e(index := es')) k) \<and> longest_first ((e(index := es')) k)" by simp
  from Cons.IH [OF es'(2) \<open>wf_plist pl\<close> this] show ?case .
qed simp

lemma apply_overrides_wf:
  "apply_overrides ts e = Some e' \<Longrightarrow> wf_overrides ts \<Longrightarrow> \<forall>k. wf_entries k (e k) \<and> longest_first (e k) \<Longrightarrow>
    \<forall>k. wf_entries k (e' k) \<and> longest_first (e' k)"
proof (induction ts arbitrary: e)
  case (Cons t ts)
  from Cons.prems(1) obtain e1 where e1: "apply_policies (po_plist t) e = Some e1" "apply_overrides ts e1 = Some e'"
    by (auto split: Option.bind_splits)
  have wf: "wf_plist (po_plist t)" "wf_overrides ts" using Cons.prems(2) by (simp_all add: wf_overrides_def)
  from Cons.IH [OF e1(2) wf(2) apply_policies_wf [OF e1(1) wf(1) Cons.prems(3)]] show ?case .
qed simp

lemma wf_emptied [simp]: "wf_overrides (emptied ts)"
  by (auto simp: wf_overrides_def emptied_def wf_plist_def)

lemma install_config_wf:
  assumes "install_config H dlist cp ctx = Some ctx'" "wf_overrides (cp_overrides cp)" "wf_context ctx"
  shows "wf_context ctx' \<and> (\<forall>k. e_pol ctx' k \<noteq> Dangling)"
proof -
  let ?o = "if cp_label cp = None then take 1 (cp_overrides cp) else cp_overrides cp"
  have o: "wf_overrides ?o" using assms(2) by (auto simp: wf_overrides_def dest: in_set_takeD)
  from assms(1) obtain e1 e2 where
    e1: "(if dyn_polflags ctx AND CTX_DYN_POL_VAL_OVR \<noteq> 0 then Some (\<lambda>_. []) else apply_overrides ?o (\<lambda>_. [])) = Some e1"
    and e2: "apply_overrides (dyn_valpol ctx) e1 = Some e2"
    and ctx': "e_pol ctx' = (\<lambda>k. Entries (e2 k))" "dyn_valpol ctx' = emptied (dyn_valpol ctx)"
    by (auto simp: install_config_def Let_def split: Option.bind_splits)
  have "\<forall>k. wf_entries k (e1 k) \<and> longest_first (e1 k)"
    using e1 apply_overrides_wf [OF _ o, of "\<lambda>_. []"] by (auto simp: longest_first_def split: if_splits)
  note e2_wf = apply_overrides_wf [OF e2 _ this]
  have "wf_overrides (dyn_valpol ctx)" using assms(3) by (simp add: wf_context_def)
  with ctx' e2_wf show ?thesis by (simp add: wf_context_def)
qed

lemma read_val_config_file_wf:
  assumes "read_val_config_file C le H scope ctx = Some (Some (r, ctx'))" "wf_context ctx"
  shows "wf_context ctx'" "r = VAL_NO_ERROR \<Longrightarrow> e_pol ctx' k \<noteq> Dangling \<or> ctx' = ctx"
proof -
  from assms(1) consider "ctx' = ctx"
    | dlist cp where "read_config C le H scope ctx = Some (Some (Inr (dlist, cp)))" "install_config H dlist cp ctx = Some ctx'"
    by (auto simp: read_val_config_file_def split: option.splits sum.splits Option.bind_splits)
  then have "wf_context ctx' \<and> (e_pol ctx' k \<noteq> Dangling \<or> ctx' = ctx)"
  proof cases
    case 2
    have "wf_overrides (cp_overrides cp)" using 2(1) by (rule typed.read_config_kept)
    from install_config_wf [OF 2(2) this assms(2)] show ?thesis by simp
  qed (use assms(2) in simp)
  then show "wf_context ctx'" "r = VAL_NO_ERROR \<Longrightarrow> e_pol ctx' k \<noteq> Dangling \<or> ctx' = ctx" by auto
qed

subsection \<open>What may happen to the policies of a context\<close>

inductive config_step :: "openssl \<Rightarrow> bool \<Rightarrow> val_context \<Rightarrow> val_context \<Rightarrow> bool" for C le where
  Read: "read_val_config_file C le H scope ctx = Some (Some (r, ctx')) \<Longrightarrow> config_step C le ctx ctx'"
| Add: "val_add_valpolicy C le now d ctx = Some (r, handle, ctx') \<Longrightarrow> config_step C le ctx ctx'"
| Remove: "val_remove_valpolicy index place ctx = Some (r, ctx') \<Longrightarrow> config_step C le ctx ctx'"
| Look_up: "retrieve_policy now (e_pol ctx k) = Some (es, p) \<Longrightarrow>
    config_step C le ctx (ctx\<lparr> e_pol := (e_pol ctx)(k := p) \<rparr>)"

definition fresh_context :: "val_context \<Rightarrow> bool" where
  "fresh_context ctx \<longleftrightarrow> (\<forall>k. e_pol ctx k = Entries []) \<and> wf_overrides (dyn_valpol ctx)"

lemma policy_of_definition_wf:
  assumes "policy_of_definition C le now d = Some (Inr (index, ent))"
  shows "wf_entry index ent"
proof -
  from assms obtain zone z s v r where z: "zone_of_text zone = Some (Some z)" "parse_policy C le index s = Some (Inr (v, r))"
    "zone_n ent = z" "pol ent = Some v"
    by (auto simp: policy_of_definition_def split: option.splits Option.bind_splits sum.splits)
  with zone_of_text_valid [OF z(1)] parse_policy_kind [OF z(2)] show ?thesis by (simp add: wf_entry_def)
qed

lemma longest_first_remove: "longest_first (xs @ y # ys) \<Longrightarrow> longest_first (xs @ ys)"
  by (auto simp: longest_first_def sorted_wrt_append)

lemma wf_context_update:
  assumes "wf_context ctx" "\<And>es. p = Entries es \<Longrightarrow> wf_entries k es \<and> longest_first es"
  shows "wf_context (ctx\<lparr> e_pol := (e_pol ctx)(k := p) \<rparr>)"
  using assms by (auto simp: wf_context_def)

lemma wf_context_queries [simp]: "wf_context (ctx\<lparr> ctx_queries := qc \<rparr>) = wf_context ctx"
  by (simp add: wf_context_def)

lemma config_step_wf:
  assumes "config_step C le ctx ctx'" "wf_context ctx"
  shows "wf_context ctx'"
  using assms
proof cases
  case (Read H scope r)
  from read_val_config_file_wf(1) [OF this assms(2)] show ?thesis .
next
  case (Add now d r handle)
  then consider "ctx' = ctx"
    | index ent es es' qc where "policy_of_definition C le now d = Some (Inr (index, ent))" "e_pol ctx index = Entries es"
      "store_policy_entries [ent] es = Some es'"
      "ctx' = ctx\<lparr> e_pol := (e_pol ctx)(index := Entries es'), ctx_queries := qc \<rparr>"
    by (auto simp: val_add_valpolicy_def simp del: store_policy_entries.simps split: Option.bind_splits sum.splits e_pol.splits)
  then show ?thesis
  proof cases
    case 2
    have es: "wf_entries index es" "longest_first es" using assms(2) 2(2) by (auto simp: wf_context_def)
    have "wf_entries index [ent]" using policy_of_definition_wf [OF 2(1)] by simp
    with store_policy_entries_wf [OF 2(3) this es(1)] store_policy_entries_spec(2) [OF 2(3) es(2)]
    have "wf_context (ctx\<lparr> e_pol := (e_pol ctx)(index := Entries es') \<rparr>)" by (intro wf_context_update assms(2)) auto
    then have "wf_context (ctx\<lparr> e_pol := (e_pol ctx)(index := Entries es') \<rparr>\<lparr> ctx_queries := qc \<rparr>)"
      by (simp only: wf_context_queries)
    with 2(4) show ?thesis by simp
  qed (use assms(2) in simp)
next
  case (Remove index place r)
  consider (same) "ctx' = ctx"
    | (cut) es i qc where "e_pol ctx index = Entries es" "i < length es"
      "ctx' = ctx\<lparr> e_pol := (e_pol ctx)(index := Entries (take i es @ drop (Suc i) es)), ctx_queries := qc \<rparr>"
  proof (cases "e_pol ctx index")
    case Dangling
    with Remove show ?thesis by (simp add: val_remove_valpolicy_def)
  next
    case (Entries es)
    show ?thesis
    proof (cases "\<exists>i. place = Some i \<and> i < length es")
      case True
      then obtain i where "place = Some i" "i < length es" by blast
      with Remove Entries cut [of es i] show ?thesis by (auto simp: val_remove_valpolicy_def split: Option.bind_splits)
    next
      case False
      with Remove Entries have "ctx' = ctx" by (cases place) (auto simp: val_remove_valpolicy_def)
      then show ?thesis by (rule same)
    qed
  qed
  then show ?thesis
  proof cases
    case (cut es i qc)
    note 2 = this
    have es: "wf_entries index es" "longest_first es" using assms(2) 2(1) by (auto simp: wf_context_def)
    have split: "es = take i es @ es ! i # drop (Suc i) es" using 2(2) by (rule id_take_nth_drop)
    have "longest_first (take i es @ drop (Suc i) es)" using es(2) split longest_first_remove by metis
    moreover have "wf_entries index (take i es @ drop (Suc i) es)"
      using es(1) by (auto simp: list_all_iff dest: in_set_takeD in_set_dropD)
    ultimately have "wf_context (ctx\<lparr> e_pol := (e_pol ctx)(index := Entries (take i es @ drop (Suc i) es)) \<rparr>)"
      by (intro wf_context_update assms(2)) auto
    then have "wf_context (ctx\<lparr> e_pol := (e_pol ctx)(index := Entries (take i es @ drop (Suc i) es)) \<rparr>\<lparr> ctx_queries := qc \<rparr>)"
      by (simp only: wf_context_queries)
    with 2(3) show ?thesis by simp
  qed (use assms(2) in simp)
next
  case (Look_up now k es p)
  show ?thesis unfolding Look_up(1)
  proof (rule wf_context_update [OF assms(2)])
    fix es' assume "p = Entries es'"
    with Look_up(2) obtain es0 where "e_pol ctx k = Entries es0" "es' = live now es0"
      by (cases "e_pol ctx k") (auto simp: retrieve_policy_live retrieve_policy_def [of _ Dangling] split: if_splits)
    with assms(2) show "wf_entries k es' \<and> longest_first es'"
      by (auto simp: wf_context_def list_all_filter longest_first_live)
  qed
qed

lemma reached_context_wf:
  "(config_step C le)\<^sup>*\<^sup>* ctx ctx' \<Longrightarrow> wf_context ctx \<Longrightarrow> wf_context ctx'"
  by (induction rule: rtranclp_induct) (auto dest: config_step_wf)

lemma fresh_context_wf: "fresh_context ctx \<Longrightarrow> wf_context ctx"
  by (simp add: fresh_context_def wf_context_def longest_first_def)

subsection \<open>Precedence\<close>

text \<open>Of several fragments for a label and kind the first one counts.\<close>

definition policy_at :: "policy_overrides list \<Rightarrow> byte list \<Rightarrow> nat \<Rightarrow> policy_kind \<Rightarrow> entries option" where
  "policy_at ts l n k = (case List.find (\<lambda>t. po_label t = l \<and> po_label_count t = n) ts of None \<Rightarrow> None
     | Some t \<Rightarrow> map_of (po_plist t) k)"

lemma map_of_add_policy:
  "map_of (add_policy f pl) k = (case map_of pl k of Some p \<Rightarrow> Some p | None \<Rightarrow> if k = fr_index f then Some (fr_pol f) else None)"
proof (cases "fr_index f \<in> fst ` set pl")
  case True
  then have "map_of pl (fr_index f) \<noteq> None" by (simp add: map_of_eq_None_iff)
  with True show ?thesis by (auto simp: add_policy_def split: option.splits)
next
  case False
  then have "map_of pl (fr_index f) = None" by (simp add: map_of_eq_None_iff)
  with False show ?thesis by (auto simp: add_policy_def split: option.splits)
qed

lemma policy_at_Cons:
  "policy_at (t # ts) l n k = (if po_label t = l \<and> po_label_count t = n then map_of (po_plist t) k else policy_at ts l n k)"
  by (simp add: policy_at_def)

lemma policy_at_beyond:
  assumes "by_generality ts" "\<And>t. t \<in> set ts \<Longrightarrow> n < po_label_count t"
  shows "policy_at ts l n k = None"
proof -
  have "List.find (\<lambda>t. po_label t = l \<and> po_label_count t = n) ts = None"
    using assms(2) by (auto simp: find_None_iff)
  then show ?thesis by (simp add: policy_at_def)
qed

lemma policy_at_store:
  assumes "by_generality ts" "\<And>t. t \<in> set ts \<Longrightarrow> po_label t = fr_label f \<Longrightarrow> po_label_count t = fr_label_count f"
  shows "policy_at (store_policy_overrides ts f) l n k = (case policy_at ts l n k of Some p \<Rightarrow> Some p
    | None \<Rightarrow> if l = fr_label f \<and> n = fr_label_count f \<and> k = fr_index f then Some (fr_pol f) else None)"
  using assms
proof (induction ts)
  case Nil
  then show ?case by (simp add: policy_at_def map_of_add_policy)
next
  case (Cons t ts)
  have s: "by_generality ts" using Cons.prems(1) by (simp add: by_generality_def)
  note IH = Cons.IH [OF s Cons.prems(2)]
  show ?case
  proof (cases "po_label_count t \<le> fr_label_count f")
    case True
    show ?thesis
    proof (cases "po_label t = fr_label f")
      case eq: True
      with Cons.prems(2) [of t] have "po_label_count t = fr_label_count f" by simp
      with eq show ?thesis by (auto simp: policy_at_Cons map_of_add_policy split: option.splits)
    next
      case False
      with True IH show ?thesis by (auto simp: policy_at_Cons split: option.splits)
    qed
  next
    case False
    have "fr_label_count f < po_label_count x" if "x \<in> set (t # ts)" for x
      using that False Cons.prems(1) by (fastforce simp: by_generality_def)
    from policy_at_beyond [OF Cons.prems(1) this] False show ?thesis
      by (auto simp: policy_at_Cons [of "\<lparr> po_label = _, po_label_count = _, po_plist = _ \<rparr>"] map_of_add_policy split: option.splits)
  qed
qed

definition labelled :: "(byte list \<Rightarrow> nat) \<Rightarrow> policy_overrides list \<Rightarrow> bool" where
  "labelled cnt ts \<longleftrightarrow> (\<forall>t \<in> set ts. po_label_count t = cnt (po_label t))"

lemma store_policy_overrides_labelled:
  "labelled cnt ts \<Longrightarrow> fr_label_count f = cnt (fr_label f) \<Longrightarrow> labelled cnt (store_policy_overrides ts f)"
  by (induction ts) (auto simp: labelled_def)

lemma policy_at_fold:
  assumes "by_generality ts" "labelled cnt ts" "\<forall>f \<in> set fs. fr_label_count f = cnt (fr_label f)"
  shows "by_generality (foldl store_policy_overrides ts fs)"
    "policy_at (foldl store_policy_overrides ts fs) l (cnt l) k = (case policy_at ts l (cnt l) k of Some p \<Rightarrow> Some p
      | None \<Rightarrow> map_option fr_pol (List.find (\<lambda>f. fr_label f = l \<and> fr_index f = k) fs))"
proof -
  have "by_generality (foldl store_policy_overrides ts fs) \<and>
    policy_at (foldl store_policy_overrides ts fs) l (cnt l) k = (case policy_at ts l (cnt l) k of Some p \<Rightarrow> Some p
      | None \<Rightarrow> map_option fr_pol (List.find (\<lambda>f. fr_label f = l \<and> fr_index f = k) fs))"
    using assms
  proof (induction fs arbitrary: ts)
    case Nil
    then show ?case by (simp split: option.splits)
  next
    case (Cons f fs)
    let ?ts = "store_policy_overrides ts f"
    have f: "fr_label_count f = cnt (fr_label f)" using Cons.prems(3) by simp
    have "policy_at ?ts l (cnt l) k = (case policy_at ts l (cnt l) k of Some p \<Rightarrow> Some p
      | None \<Rightarrow> if l = fr_label f \<and> cnt l = fr_label_count f \<and> k = fr_index f then Some (fr_pol f) else None)"
      using Cons.prems(2) f by (intro policy_at_store [OF Cons.prems(1)]) (simp add: labelled_def)
    with Cons.IH [OF store_policy_overrides_sorted [OF Cons.prems(1)] store_policy_overrides_labelled [OF Cons.prems(2) f]] Cons.prems(3) f
    show ?case by (auto split: option.splits)
  qed
  then show "by_generality (foldl store_policy_overrides ts fs)"
    "policy_at (foldl store_policy_overrides ts fs) l (cnt l) k = (case policy_at ts l (cnt l) k of Some p \<Rightarrow> Some p
      | None \<Rightarrow> map_option fr_pol (List.find (\<lambda>f. fr_label f = l \<and> fr_index f = k) fs))"
    by blast+
qed

text \<open>The entries of a kind, in the order in which they are stored.\<close>

definition plist_entries :: "policy_kind \<Rightarrow> (policy_kind \<times> entries) list \<Rightarrow> entries" where
  "plist_entries k pl = concat (map snd (filter (\<lambda>(k', _). k' = k) pl))"

definition all_entries :: "policy_kind \<Rightarrow> policy_overrides list \<Rightarrow> entries" where
  "all_entries k ts = concat (map (\<lambda>t. plist_entries k (po_plist t)) ts)"

definition last_for :: "byte list \<Rightarrow> entries \<Rightarrow> policy_value policy_entry option" where
  "last_for z es = for_zone z (rev es)"

lemma apply_policies_for_zone:
  "apply_policies pl e = Some e' \<Longrightarrow>
    for_zone z (e' k) = (case last_for z (plist_entries k pl) of Some p \<Rightarrow> Some p | None \<Rightarrow> for_zone z (e k))"
proof (induction pl arbitrary: e)
  case (Cons p pl)
  obtain index es where p: "p = (index, es)" by (cases p)
  from Cons.prems p obtain es' where es': "store_policy_entries es (e index) = Some es'"
    "apply_policies pl (e(index := es')) = Some e'" by (auto split: Option.bind_splits)
  show ?case
  proof (cases "index = k")
    case True
    from Cons.IH [OF es'(2)] store_policy_entries_spec(3) [OF es'(1), of z] p True show ?thesis
      by (simp add: plist_entries_def last_for_def for_zone_append split: option.splits)
  next
    case False
    from Cons.IH [OF es'(2)] p False show ?thesis by (simp add: plist_entries_def split: option.splits)
  qed
qed (simp add: plist_entries_def last_for_def)

lemma apply_overrides_for_zone:
  "apply_overrides ts e = Some e' \<Longrightarrow>
    for_zone z (e' k) = (case last_for z (all_entries k ts) of Some p \<Rightarrow> Some p | None \<Rightarrow> for_zone z (e k))"
proof (induction ts arbitrary: e)
  case (Cons t ts)
  from Cons.prems obtain e1 where e1: "apply_policies (po_plist t) e = Some e1" "apply_overrides ts e1 = Some e'"
    by (auto split: Option.bind_splits)
  from Cons.IH [OF e1(2)] apply_policies_for_zone [OF e1(1), of z k] show ?case
    by (simp add: all_entries_def last_for_def for_zone_append split: option.splits)
qed (simp add: all_entries_def last_for_def)

text \<open>The fragments a reading keeps, with the policies of the program behind them.\<close>

definition effective :: "val_context \<Rightarrow> conf_pass \<Rightarrow> policy_overrides list" where
  "effective ctx cp = (if dyn_polflags ctx AND CTX_DYN_POL_VAL_OVR \<noteq> 0 then []
     else if cp_label cp = None then take 1 (cp_overrides cp) else cp_overrides cp) @ dyn_valpol ctx"

lemma install_config_for_zone:
  assumes "install_config H dlist cp ctx = Some ctx'"
  shows "\<exists>es. e_pol ctx' k = Entries es \<and> for_zone z es = last_for z (all_entries k (effective ctx cp))"
proof -
  let ?o = "if cp_label cp = None then take 1 (cp_overrides cp) else cp_overrides cp"
  from assms obtain e1 e2 where
    e1: "(if dyn_polflags ctx AND CTX_DYN_POL_VAL_OVR \<noteq> 0 then Some (\<lambda>_. []) else apply_overrides ?o (\<lambda>_. [])) = Some e1"
    and e2: "apply_overrides (dyn_valpol ctx) e1 = Some e2" and ctx': "e_pol ctx' = (\<lambda>k. Entries (e2 k))"
    by (auto simp: install_config_def Let_def split: Option.bind_splits)
  have "for_zone z (e1 k) = (if dyn_polflags ctx AND CTX_DYN_POL_VAL_OVR \<noteq> 0 then None else last_for z (all_entries k ?o))"
  proof (cases "dyn_polflags ctx AND CTX_DYN_POL_VAL_OVR \<noteq> 0")
    case True
    with e1 show ?thesis by auto
  next
    case False
    then have "apply_overrides ?o (\<lambda>_. []) = Some e1" using e1 by simp
    from apply_overrides_for_zone [OF this, of z k] False show ?thesis by (simp split: option.splits)
  qed
  with apply_overrides_for_zone [OF e2, of z k] ctx' show ?thesis
    by (simp add: effective_def all_entries_def last_for_def for_zone_append split: option.splits)
qed

lemma emptied_entries [simp]: "all_entries k (emptied ts) = []"
  by (auto simp: all_entries_def emptied_def plist_entries_def concat_eq_Nil_conv)

lemma install_config_dyn: "install_config H dlist cp ctx = Some ctx' \<Longrightarrow> dyn_valpol ctx' = emptied (dyn_valpol ctx) \<and>
    dyn_polflags ctx' = dyn_polflags ctx"
  by (auto simp: install_config_def destroy_valpol_def Let_def split: Option.bind_splits if_splits)

text \<open>When the program's policies replace the files altogether.\<close>

abbreviation overridden :: "val_context \<Rightarrow> bool" where
  "overridden ctx \<equiv> dyn_polflags ctx AND CTX_DYN_POL_VAL_OVR \<noteq> 0 \<and> dyn_polflags ctx AND CTX_DYN_POL_GLO_OVR \<noteq> 0"

lemma read_overridden:
  assumes "overridden ctx" "read_val_config_file C le H scope ctx = Some (Some (r, ctx'))"
  shows "r = VAL_NO_ERROR" "install_config H [] \<lparr> cp_label = scope, cp_added = [], cp_overrides = [], cp_gopt = None \<rparr> ctx = Some ctx'"
proof -
  have "read_config C le H scope ctx = Some (Some (Inr ([], \<lparr> cp_label = scope, cp_added = [], cp_overrides = [], cp_gopt = None \<rparr>)))"
    using assms(1) by (simp add: read_config_def Let_def split: option.splits)
  with assms(2) show "r = VAL_NO_ERROR" "install_config H [] \<lparr> cp_label = scope, cp_added = [], cp_overrides = [], cp_gopt = None \<rparr> ctx = Some ctx'"
    by (auto simp: read_val_config_file_def split: Option.bind_splits)
qed

lemma for_zone_empty: "(\<And>z. for_zone z es = None) \<Longrightarrow> es = []"
proof (cases es)
  case (Cons e es')
  assume "\<And>z. for_zone z es = None"
  from this [of "zone_n e"] Cons show ?thesis by simp
qed simp

lemma read_twice_overridden:
  assumes "overridden ctx" "read_val_config_file C le H scope ctx = Some (Some (r, ctx1))"
    and "read_val_config_file C le H scope' ctx1 = Some (Some (r', ctx2))"
  shows "\<exists>es. e_pol ctx1 k = Entries es \<and> for_zone z es = last_for z (all_entries k (dyn_valpol ctx))"
    "e_pol ctx2 k = Entries []"
proof -
  note one = read_overridden(2) [OF assms(1,2)]
  from install_config_for_zone [OF one, of k z] assms(1)
  show "\<exists>es. e_pol ctx1 k = Entries es \<and> for_zone z es = last_for z (all_entries k (dyn_valpol ctx))"
    by (simp add: effective_def)
  have o: "overridden ctx1" using install_config_dyn [OF one] assms(1) by simp
  note two = read_overridden(2) [OF o assms(3)]
  have "all_entries k (effective ctx1 cp) = []" for cp
    using o install_config_dyn [OF one] by (simp add: effective_def)
  then have none: "\<exists>es. e_pol ctx2 k = Entries es \<and> for_zone z es = None" for z
    using install_config_for_zone [OF two, of k z] by (simp add: last_for_def)
  from none obtain es where "e_pol ctx2 k = Entries es" by blast
  with none for_zone_empty [of es] show "e_pol ctx2 k = Entries []" by auto
qed

subsection \<open>Words in a file\<close>

definition plain :: "byte \<Rightarrow> bool" where
  "plain c \<longleftrightarrow> c \<noteq> 0 \<and> \<not> isspace c \<and> c \<notin> {0x22, 0x23, 0x3b, 0x5c}"

lemma plain_newline: "plain c \<Longrightarrow> c \<noteq> 0x0a"
  by (auto simp: plain_def isspace_def)

lemma token_scan_plain:
  assumes "list_all plain w" "length (tk_token st) + length w \<le> n" "\<not> tk_escaped st" "tk_trail st = None"
  shows "token_scan n CONF_COMMENT CONF_END_STMT False (w @ s) st =
    token_scan n CONF_COMMENT CONF_END_STMT False s (st\<lparr> tk_token := tk_token st @ w \<rparr>)"
  using assms
proof (induction w arbitrary: st)
  case (Cons c w)
  have c: "\<not> isspace c" "c \<notin> {0x22, 0x23, 0x3b, 0x5c, 0x0a}" using Cons.prems(1) plain_newline by (auto simp: plain_def)
  let ?st = "st\<lparr> tk_token := tk_token st @ [c], tk_escaped := False, tk_trail := None \<rparr>"
  have "token_scan n CONF_COMMENT CONF_END_STMT False (c # w @ s) st = token_scan n CONF_COMMENT CONF_END_STMT False (w @ s) ?st"
    using c Cons.prems(2) by simp
  also have "\<dots> = token_scan n CONF_COMMENT CONF_END_STMT False s (?st\<lparr> tk_token := tk_token ?st @ w \<rparr>)"
    using Cons.prems(1,2) by (intro Cons.IH) simp_all
  also have "?st\<lparr> tk_token := tk_token ?st @ w \<rparr> = st\<lparr> tk_token := tk_token st @ c # w \<rparr>"
    using Cons.prems(3,4) by simp
  finally show ?case by simp
qed simp

lemma skip_to_plain: "plain c \<Longrightarrow> skip_to_token CONF_COMMENT (c # s) = c # s"
  by (subst skip_to_token_cases(2)) (auto simp: plain_def)

lemma conf_token_word:
  assumes "list_all plain w" "w \<noteq> []" "length w \<le> TOKEN_MAX" "isspace d"
  shows "conf_token (w @ d # s) = (if length w = TOKEN_MAX then None else Some (Inr (w, False, d # s)))"
proof -
  let ?st = "\<lparr> tk_token = [], tk_quoted = False, tk_escaped = False, tk_trail = None \<rparr>"
  obtain c w' where w: "w = c # w'" using assms(2) by (cases w) auto
  have skip: "skip_to_token CONF_COMMENT (w @ d # s) = w @ d # s" using assms(1) w skip_to_plain [of c] by simp
  have "takeWhile (\<lambda>c. c \<noteq> 0) w = w" using assms(1) by (auto simp: list_all_iff plain_def)
  moreover have "token_scan TOKEN_MAX CONF_COMMENT CONF_END_STMT False (w @ d # s) ?st = Inr (?st\<lparr> tk_token := w \<rparr>, False, d # s)"
    using token_scan_plain [OF assms(1), of ?st TOKEN_MAX "d # s"] assms(3,4) by simp
  moreover have "w @ d # s \<noteq> []" by simp
  ultimately show ?thesis using assms(3)
    by (simp only: val_get_token_def skip Let_def if_False sum.case prod.case)
      (auto simp: emit_def cstr_def)
qed

text \<open>A label is relevant in a scope of several levels when it only begins with a level that is not the last one.\<close>

lemma relevance_longer:
  assumes "p \<noteq> []" "0x3a \<notin> set p" "p @ x \<noteq> [0x3a]"
  shows "check_relevance (p @ x) (Some (p @ 0x3a # rest)) = (1, True)"
proof -
  have "takeWhile (\<lambda>c. c \<noteq> 0x3a) (p @ 0x3a # rest) = p"
    using assms(2) by (subst takeWhile_append2) auto
  moreover have "0x3a \<in> set (p @ 0x3a # rest)" "starts_with (p @ x) p" by (simp_all add: starts_with_def)
  ultimately have "relevance_loop (p @ x) (p @ 0x3a # rest) 1 = (1, True)"
    using assms(1) by (subst relevance_loop.simps) (simp only: if_True Let_def simp_thms if_P)
  then show ?thesis using assms(3) by (simp add: check_relevance_def)
qed

subsection \<open>Effects of an added policy\<close>

lemma mark_flags: "(x OR VAL_QUERY_MARK_FOR_DELETION) AND VAL_QUERY_MARK_FOR_DELETION \<noteq> (0 :: u32)"
  by (simp add: bit.conj_disj_distrib2)

lemma mark_queries_marked:
  assumes "mark_queries zone qc = Some qc'" "a \<in> set (q_list qc)" "q_heap qc' a = Some q" "in_zone (qc_name_n q) zone"
  shows "qc_flags q AND VAL_QUERY_MARK_FOR_DELETION \<noteq> 0"
  using assms mark_flags by (auto simp: mark_queries_def split: if_splits option.splits)

lemma val_add_valpolicy_effect:
  assumes "val_add_valpolicy C le now d ctx = Some (VAL_NO_ERROR, Some (index, ent), ctx')"
  shows "\<exists>es. e_pol ctx' index = Entries es \<and> for_zone (zone_n ent) es = Some ent"
    "a \<in> set (q_list (ctx_queries ctx')) \<Longrightarrow> q_heap (ctx_queries ctx') a = Some q \<Longrightarrow> in_zone (qc_name_n q) (zone_n ent) \<Longrightarrow>
      qc_flags q AND VAL_QUERY_MARK_FOR_DELETION \<noteq> 0"
proof -
  from assms obtain es es' qc where e: "store_policy_entries [ent] es = Some es'"
    and qc: "mark_queries (zone_n ent) (ctx_queries ctx) = Some qc"
    and ctx': "ctx' = ctx\<lparr> e_pol := (e_pol ctx)(index := Entries es'), ctx_queries := qc \<rparr>"
    by (auto simp: val_add_valpolicy_def simp del: store_policy_entries.simps split: Option.bind_splits sum.splits e_pol.splits)
  from store_policy_entries_spec(3) [OF e, of "zone_n ent"] ctx'
  show "\<exists>es. e_pol ctx' index = Entries es \<and> for_zone (zone_n ent) es = Some ent" by simp
  have "q_list qc = q_list (ctx_queries ctx)" using qc by (auto simp: mark_queries_def split: if_splits)
  then show "a \<in> set (q_list (ctx_queries ctx')) \<Longrightarrow> q_heap (ctx_queries ctx') a = Some q \<Longrightarrow> in_zone (qc_name_n q) (zone_n ent) \<Longrightarrow>
      qc_flags q AND VAL_QUERY_MARK_FOR_DELETION \<noteq> 0"
    using mark_queries_marked [OF qc] ctx' by simp
qed

lemma read_val_config_file_returns:
  assumes "finite {name. readable H name}"
  shows "\<exists>r. read_val_config_file C le H scope ctx = Some r"
proof -
  have "\<exists>r. read_config C le H scope ctx = Some r"
    using read_files_returns [OF assms] by (auto simp: read_config_def Let_def split: option.splits)
  then show ?thesis by (auto simp: read_val_config_file_def split: option.splits sum.splits)
qed

end
