(* ===== verification/Mkquery.thy ===== *)
theory Mkquery
  imports Pack ConfRead
begin

section \<open>Queries\<close>

text \<open>
  \<^verbatim>\<open>libsres/res_mkquery.c\<close>: the bytes of a query, with the OPT record of EDNS0. \<^verbatim>\<open>libsres/res_tsig.c\<close>: its signature by a shared
  key, and what is looked at in the signature of a response. The checks of \<^verbatim>\<open>libsres/res_query.c\<close> on the header of a
  response. \<open>HMAC\<close> is a parameter like the other primitives of OpenSSL.
\<close>

subsection \<open>Building a query\<close>

record tsig =
  ts_name_n :: "byte list"
  ts_alg_n :: "byte list"
  ts_key :: "byte list"
  ts_keylen :: "64 word"
  ts_alg :: int
  ts_fudge :: u16
  ts_mac_size :: u16
  ts_rdatalen :: u16
  ts_buf_size :: nat

record server = name_server +
  ns_tsig :: "tsig option"
  ns_security_options :: u32
  ns_edns0_size :: int
  ns_retrans :: int
  ns_retry :: int

abbreviation ns_o_query :: nat where "ns_o_query \<equiv> 0"
abbreviation ns_o_iquery :: nat where "ns_o_iquery \<equiv> 1"
abbreviation ns_o_notify :: nat where "ns_o_notify \<equiv> 4"
abbreviation ns_t_null :: u16 where "ns_t_null \<equiv> 10"
abbreviation ns_t_opt :: u16 where "ns_t_opt \<equiv> 41"
abbreviation ns_t_tsig :: u16 where "ns_t_tsig \<equiv> 250"
abbreviation ns_t_any :: u16 where "ns_t_any \<equiv> 255"
abbreviation NS_HFIXEDSZ :: nat where "NS_HFIXEDSZ \<equiv> 12"
abbreviation NS_QFIXEDSZ :: nat where "NS_QFIXEDSZ \<equiv> 4"
abbreviation NS_RRFIXEDSZ :: nat where "NS_RRFIXEDSZ \<equiv> 10"
abbreviation NS_OPT_DNSSEC_OK :: u16 where "NS_OPT_DNSSEC_OK \<equiv> 0x8000"
abbreviation SR_QUERY_SET_DO :: "64 word" where "SR_QUERY_SET_DO \<equiv> 4"
abbreviation SR_QUERY_SET_CD :: "64 word" where "SR_QUERY_SET_CD \<equiv> 8"

text \<open>A field of the second pair of bytes of the header: the byte, the bits that belong to it, their value.\<close>

definition set_field :: "byte list \<Rightarrow> nat \<Rightarrow> byte \<Rightarrow> byte \<Rightarrow> byte list option" where
  "set_field buf i field v = do { b \<leftarrow> rd buf i; wr buf i ((b AND NOT field) OR v) }"

abbreviation opcode_bits :: byte where "opcode_bits \<equiv> 0x78"
abbreviation rd_bit :: byte where "rd_bit \<equiv> 0x01"
abbreviation cd_bit :: byte where "cd_bit \<equiv> 0x10"
abbreviation rcode_bits :: byte where "rcode_bits \<equiv> 0x0f"

text \<open>
  \<open>res_val_nmkquery\<close>: the header, then by the operation. \<open>qid\<close> is what \<open>libsres_random\<close> answers, \<open>dname\<close> a string with its
  final zero, \<open>lastdnptr\<close> allows for 20 pointers. The answer is the buffer with the length of the query.
\<close>

definition nmk_header :: "bool \<Rightarrow> u16 \<Rightarrow> 'a name_server_scheme \<Rightarrow> nat \<Rightarrow> byte list \<Rightarrow> byte list option" where
  "nmk_header le qid pref_ns op buf = do {
     b \<leftarrow> blit buf 0 (replicate NS_HFIXEDSZ 0);
     b \<leftarrow> blit b 0 (host16 le qid);
     b \<leftarrow> set_field b 2 opcode_bits (push_bit 3 (word_of_nat op AND 0x0f));
     b \<leftarrow> set_field b 2 rd_bit (if ns_options pref_ns AND SR_QUERY_RECURSE \<noteq> 0 then rd_bit else 0);
     set_field b 3 rcode_bits 0
   }"

definition nmk_completion :: "byte list \<Rightarrow> u16 \<Rightarrow> byte list \<Rightarrow> nat \<Rightarrow> nat \<Rightarrow> nat list option \<Rightarrow> (byte list \<times> nat) option option" where
  "nmk_completion data class_h buf cp buflen dnptrs =
     (if buflen < cp + NS_RRFIXEDSZ then Some None
      else do {
        (n, buf, dnptrs) \<leftarrow> ns_name_compress data buf cp (buflen - cp - NS_RRFIXEDSZ) dnptrs (Some 20);
        case n of None \<Rightarrow> Some None
        | Some n \<Rightarrow> do {
            buf \<leftarrow> blit buf (cp + n) (put16 ns_t_null @ put16 class_h @ put32 0 @ put16 0);
            buf \<leftarrow> blit buf 10 (put16 1);
            Some (Some (buf, cp + n + NS_RRFIXEDSZ))
          }
      })"

definition nmk_question :: "nat \<Rightarrow> byte list \<Rightarrow> u16 \<Rightarrow> u16 \<Rightarrow> byte list \<Rightarrow> byte list \<Rightarrow> nat \<Rightarrow> (byte list \<times> nat) option option" where
  "nmk_question op dname class_h type_h data buf buflen =
     (if buflen < NS_HFIXEDSZ + NS_QFIXEDSZ then Some None
      else do {
        (n, buf, dnptrs) \<leftarrow> ns_name_compress dname buf NS_HFIXEDSZ (buflen - NS_HFIXEDSZ - NS_QFIXEDSZ) (Some []) (Some 20);
        case n of None \<Rightarrow> Some None
        | Some n \<Rightarrow> do {
            buf \<leftarrow> blit buf (NS_HFIXEDSZ + n) (put16 type_h @ put16 class_h);
            buf \<leftarrow> blit buf 4 (put16 1);
            if op = ns_o_query \<or> data = [] then Some (Some (buf, NS_HFIXEDSZ + n + NS_QFIXEDSZ))
            else nmk_completion data class_h buf (NS_HFIXEDSZ + n + NS_QFIXEDSZ) buflen dnptrs
          }
      })"

definition nmk_iquery :: "u16 \<Rightarrow> u16 \<Rightarrow> byte list \<Rightarrow> nat \<Rightarrow> byte list \<Rightarrow> nat \<Rightarrow> (byte list \<times> nat) option option" where
  "nmk_iquery class_h type_h data datalen buf buflen =
     (if buflen < NS_HFIXEDSZ + 1 + NS_RRFIXEDSZ + datalen then Some None
      else do {
        d \<leftarrow> seg data 0 datalen;
        buf \<leftarrow> blit buf NS_HFIXEDSZ ([0] @ put16 type_h @ put16 class_h @ put32 0 @ put16 (word_of_nat datalen) @ d);
        buf \<leftarrow> blit buf 6 (put16 1);
        Some (Some (buf, NS_HFIXEDSZ + 1 + NS_RRFIXEDSZ + datalen))
      })"

definition res_val_nmkquery :: "bool \<Rightarrow> u16 \<Rightarrow> 'a name_server_scheme \<Rightarrow> nat \<Rightarrow> byte list \<Rightarrow> u16 \<Rightarrow> u16 \<Rightarrow> byte list \<Rightarrow> nat \<Rightarrow>
    byte list \<Rightarrow> nat \<Rightarrow> (byte list \<times> nat) option option" where
  "res_val_nmkquery le qid pref_ns op dname class_h type_h data datalen buf buflen =
     (if buf = [] \<or> buflen < NS_HFIXEDSZ \<or> 65536 \<le> datalen then Some None
      else do {
        buf \<leftarrow> nmk_header le qid pref_ns op buf;
        if op = ns_o_query \<or> op = ns_o_notify then nmk_question op dname class_h type_h data buf buflen
        else if op = ns_o_iquery then nmk_iquery class_h type_h data datalen buf buflen
        else Some None
      })"

text \<open>\<open>res_val_nopt\<close> appends the OPT record and counts it.\<close>

definition res_val_nopt :: "'a server_scheme \<Rightarrow> byte list \<Rightarrow> nat \<Rightarrow> nat \<Rightarrow> (byte list \<times> nat) option option" where
  "res_val_nopt pref_ns buf buflen query_length =
     (if buflen < query_length + 1 + NS_RRFIXEDSZ then Some None
      else do {
        buf \<leftarrow> blit buf query_length
          ([0] @ put16 ns_t_opt @ put16 (word_of_int (ns_edns0_size pref_ns) AND 0xffff) @ [0, 0] @ put16 NS_OPT_DNSSEC_OK @ put16 0);
        arcount \<leftarrow> get16 buf 10;
        buf \<leftarrow> blit buf 10 (put16 (arcount + 1));
        Some (Some (buf, query_length + 1 + NS_RRFIXEDSZ))
      })"

subsection \<open>Signing a query\<close>

record openssl_hmac = openssl +
  HMAC :: "Crypto.digest \<Rightarrow> byte list \<Rightarrow> byte list \<Rightarrow> byte list"

definition hmac_sized :: "openssl_hmac \<Rightarrow> bool" where
  "hmac_sized C \<longleftrightarrow> (\<forall>d k x. length (HMAC C d k x) = digest_length d)"

abbreviation TSIG_ALG_HMAC_MD5 :: int where "TSIG_ALG_HMAC_MD5 \<equiv> 1"
abbreviation TSIG_ALG_HMAC_SHA1 :: int where "TSIG_ALG_HMAC_SHA1 \<equiv> 2"
abbreviation TSIG_ALG_HMAC_SHA256 :: int where "TSIG_ALG_HMAC_SHA256 \<equiv> 3"
abbreviation ZONE_USE_TSIG :: u32 where "ZONE_USE_TSIG \<equiv> 1"

definition TSIG_ALG_HMAC_MD5_STR :: "byte list" where "TSIG_ALG_HMAC_MD5_STR = bytes ''hmac-md5.sig-alg.reg.int''"
definition TSIG_ALG_HMAC_SHA1_STR :: "byte list" where "TSIG_ALG_HMAC_SHA1_STR = bytes ''hmac-sha1''"
definition TSIG_ALG_HMAC_SHA256_STR :: "byte list" where "TSIG_ALG_HMAC_SHA256_STR = bytes ''hmac-sha256''"

text \<open>
  \<open>decode_tsig_key\<close>: the length goes through \<open>unsigned int\<close> and \<open>int\<close> into a \<open>size_t\<close>; \<open>BIO_read\<close> answers -1 when nothing can
  be decoded.
\<close>

definition decode_tsig_key :: "openssl_hmac \<Rightarrow> byte list \<Rightarrow> 64 word \<times> byte list" where
  "decode_tsig_key C keystr = (case BIO_base64 C keystr of None \<Rightarrow> (-1, [])
     | Some key \<Rightarrow> let k = take (length keystr) key in (word_of_nat (length k), k))"

text \<open>\<open>res_set_ns_tsig\<close>, on a string \<open>name:alg:fudge:key\<close> without its final zero.\<close>

definition next_field :: "byte list \<Rightarrow> (byte list \<times> byte list) option" where
  "next_field s = (if 0x3a \<in> set s then Some (takeWhile (\<lambda>c. c \<noteq> 0x3a) s, drop 1 (dropWhile (\<lambda>c. c \<noteq> 0x3a) s)) else None)"

definition tsig_alg_of :: "byte list \<Rightarrow> (byte list \<times> int \<times> u16) option" where
  "tsig_alg_of alg_s =
     (if alg_s = [] then Some (TSIG_ALG_HMAC_MD5_STR, TSIG_ALG_HMAC_MD5, 16)
      else if alg_s = TSIG_ALG_HMAC_MD5_STR then Some (alg_s, TSIG_ALG_HMAC_MD5, 16)
      else if alg_s = TSIG_ALG_HMAC_SHA1_STR then Some (alg_s, TSIG_ALG_HMAC_SHA1, 20)
      else if alg_s = TSIG_ALG_HMAC_SHA256_STR then Some (alg_s, TSIG_ALG_HMAC_SHA256, 32)
      else None)"

definition tsig_fudge_of :: "byte list \<Rightarrow> u16" where
  "tsig_fudge_of fudge_s = (let f = word_of_int (c_int (c_strtol fudge_s)) in if f = 0 then 300 else f)"

definition tsig_of_fields :: "openssl_hmac \<Rightarrow> byte list \<Rightarrow> byte list \<Rightarrow> byte list \<Rightarrow> byte list \<Rightarrow> tsig option option" where
  "tsig_of_fields C name_s alg_s fudge_s key_s = do {
     p \<leftarrow> ns_name_pton (map tolower name_s @ [0]) (replicate NS_MAXCDNAME 0);
     case p of None \<Rightarrow> Some None
     | Some (_, name_n) \<Rightarrow> (case tsig_alg_of alg_s of None \<Rightarrow> Some None
       | Some (alg_s, alg, mac_size) \<Rightarrow> do {
           p \<leftarrow> ns_name_pton (alg_s @ [0]) (replicate NS_MAXCDNAME 0);
           case p of None \<Rightarrow> Some None
           | Some (_, alg_n) \<Rightarrow> let (keylen, key) = decode_tsig_key C key_s in
               if keylen = 0 then Some None
               else do {
                 nl \<leftarrow> wire_name_length name_n;
                 al \<leftarrow> wire_name_length alg_n;
                 let rr_hlen = nl + 2 + 2 + 4;
                 let rr_rdatalen = al + 4 + 2 + 2 + 2 + unat mac_size + 2 + 2 + 2;
                 Some (Some \<lparr> ts_name_n = name_n, ts_alg_n = alg_n, ts_key = key, ts_keylen = keylen, ts_alg = alg,
                   ts_fudge = tsig_fudge_of fudge_s, ts_mac_size = mac_size, ts_rdatalen = word_of_nat rr_rdatalen,
                   ts_buf_size = rr_hlen + 2 + rr_rdatalen \<rparr>)
               }
         })
   }"

definition res_set_ns_tsig :: "openssl_hmac \<Rightarrow> server \<Rightarrow> byte list \<Rightarrow> server option option" where
  "res_set_ns_tsig C ns tsigstr = (case next_field tsigstr of None \<Rightarrow> Some None
     | Some (name_s, s) \<Rightarrow> (case next_field s of None \<Rightarrow> Some None
     | Some (alg_s, s) \<Rightarrow> (case next_field s of None \<Rightarrow> Some None
     | Some (fudge_s, key_s) \<Rightarrow> do {
         t \<leftarrow> tsig_of_fields C name_s alg_s fudge_s key_s;
         Some (map_option (\<lambda>t. ns\<lparr> ns_tsig := Some t, ns_security_options := ns_security_options ns OR ZONE_USE_TSIG \<rparr>) t)
       })))"

text \<open>
  \<open>res_tsig_sign\<close>. \<open>now\<close> is the time in seconds. The buffer of the signed query is written from front to back; the bytes
  for the MAC are zero until they are known.
\<close>

definition tsig_md :: "int \<Rightarrow> Crypto.digest option" where
  "tsig_md alg = (if alg = TSIG_ALG_HMAC_MD5 then Some MD5 else if alg = TSIG_ALG_HMAC_SHA1 then Some SHA1
     else if alg = TSIG_ALG_HMAC_SHA256 then Some SHA256 else None)"

definition put48 :: "64 word \<Rightarrow> byte list" where
  "put48 w = put16 (ucast (drop_bit 32 w)) @ put32 (ucast w)"

definition tsig_append :: "openssl_hmac \<Rightarrow> 64 word \<Rightarrow> tsig \<Rightarrow> Crypto.digest \<Rightarrow> byte list \<Rightarrow> byte list option option" where
  "tsig_append C now t md query = do {
     let cap = length query + ts_buf_size t;
     key \<leftarrow> seg (ts_key t) 0 (unat (ts_keylen t));
     out \<leftarrow> emit cap [] query;
     let d1 = out;
     arcount \<leftarrow> get16 out 10;
     out \<leftarrow> blit out 10 (put16 (arcount + 1));
     nl \<leftarrow> wire_name_length (ts_name_n t);
     name \<leftarrow> seg (ts_name_n t) 0 nl;
     out \<leftarrow> emit cap out name;
     out \<leftarrow> emit cap out (put16 ns_t_tsig);
     let d2 = put16 ns_t_any @ put32 0;
     out \<leftarrow> emit cap out d2;
     out \<leftarrow> emit cap out (put16 (ts_rdatalen t));
     al \<leftarrow> wire_name_length (ts_alg_n t);
     alg \<leftarrow> seg (ts_alg_n t) 0 al;
     out \<leftarrow> emit cap out alg;
     let d3 = put48 now @ put16 (ts_fudge t);
     out \<leftarrow> emit cap out d3;
     out \<leftarrow> emit cap out (put16 (ts_mac_size t));
     let hp = length out;
     out \<leftarrow> emit cap out (replicate (unat (ts_mac_size t)) 0);
     hid \<leftarrow> get16 out 0;
     out \<leftarrow> emit cap out (put16 hid);
     let d4 = put16 0 @ put16 0;
     out \<leftarrow> emit cap out d4;
     let hash = HMAC C md key (d1 @ name @ d2 @ alg @ d3 @ d4);
     if length hash \<noteq> unat (ts_mac_size t) then Some None
     else do { out \<leftarrow> blit out hp hash; Some (Some out) }
   }"

definition res_tsig_sign :: "openssl_hmac \<Rightarrow> 64 word \<Rightarrow> byte list \<Rightarrow> nat \<Rightarrow> server \<Rightarrow> byte list option option" where
  "res_tsig_sign C now query query_length ns =
     (if query_length \<le> NS_HFIXEDSZ then Some None
      else do {
        q \<leftarrow> seg query 0 query_length;
        if ns_security_options ns AND ZONE_USE_TSIG = 0 then Some (Some q)
        else case ns_tsig ns of None \<Rightarrow> Some None
        | Some t \<Rightarrow> (case tsig_md (ts_alg t) of None \<Rightarrow> Some None | Some md \<Rightarrow> tsig_append C now t md q)
      })"

subsection \<open>The payload\<close>

text \<open>
  \<open>res_create_query_payload\<close>. \<open>query\<close> is the array on the stack with whatever is in it; the answer is \<open>None\<close> for
  \<open>SR_MKQUERY_INTERNAL_ERROR\<close>.
\<close>

definition payload_limit :: nat where
  "payload_limit = 12 + NS_MAXDNAME + 4"

definition payload_flags :: "server \<Rightarrow> byte list \<Rightarrow> byte list option" where
  "payload_flags ns query = do {
     query \<leftarrow> (if ns_options ns AND SR_QUERY_SET_CD \<noteq> 0 then set_field query 3 cd_bit cd_bit else Some query);
     set_field query 2 rd_bit (if ns_options ns AND SR_QUERY_RECURSE \<noteq> 0 then rd_bit else 0)
   }"

definition res_create_query_payload :: "openssl_hmac \<Rightarrow> bool \<Rightarrow> u16 \<Rightarrow> 64 word \<Rightarrow> server \<Rightarrow> byte list \<Rightarrow> byte list \<Rightarrow> u16 \<Rightarrow> u16 \<Rightarrow>
    byte list option option" where
  "res_create_query_payload C le qid now ns query name class_h type_h = do {
     r \<leftarrow> res_val_nmkquery le qid ns ns_o_query name class_h type_h [] 0 query payload_limit;
     case r of None \<Rightarrow> Some None
     | Some (query, query_length) \<Rightarrow> do {
         r \<leftarrow> (if ns_options ns AND SR_QUERY_SET_DO \<noteq> 0 then res_val_nopt ns query payload_limit query_length
              else Some (Some (query, query_length)));
         case r of None \<Rightarrow> Some None
         | Some (query, query_length) \<Rightarrow> do {
             query \<leftarrow> payload_flags ns query;
             res_tsig_sign C now query query_length ns
           }
       }
   }"

subsection \<open>The header of a response\<close>

definition res_tsig_verifies :: "server \<Rightarrow> byte list \<Rightarrow> nat \<Rightarrow> byte list option option" where
  "res_tsig_verifies respondent answer answer_length =
     (if ns_security_options respondent AND ZONE_USE_TSIG = 0 then Some (Some answer)
      else if answer_length < NS_HFIXEDSZ then Some None
      else do {
        arcount \<leftarrow> get16 answer 10;
        if arcount = 0 then Some None
        else do { answer \<leftarrow> blit answer 10 (put16 (arcount - 1)); Some (Some answer) }
      })"

datatype sr_code = SR_NO_ERROR | SR_INTERNAL_ERROR | SR_TSIG_ERROR | SR_NO_ANSWER | SR_HEADER_ERROR | SR_DNS_GENERIC_ERROR
  | SR_NXDOMAIN | SR_FORMERR | SR_SERVFAIL | SR_NOTIMPL | SR_REFUSED

definition nxdomain_welcome :: "byte list \<Rightarrow> bool option" where
  "nxdomain_welcome response = do {
     nscount \<leftarrow> get16 response 8;
     ancount \<leftarrow> get16 response 6;
     arcount \<leftarrow> get16 response 10;
     Some (ancount = 0 \<and> nscount = 0 \<and> arcount = 0 \<or> 0 < nscount)
   }"

definition theres_something_wrong_with_header :: "byte list \<Rightarrow> sr_code option" where
  "theres_something_wrong_with_header response = do {
     b2 \<leftarrow> rd response 2;
     b3 \<leftarrow> rd response 3;
     let rcode = unat (b3 AND rcode_bits);
     if b2 AND 0x80 \<noteq> 0 \<and> b2 AND opcode_bits \<noteq> 0 then Some SR_HEADER_ERROR
     else if rcode = 0 then Some SR_NO_ERROR
     else if rcode = 3 then do { w \<leftarrow> nxdomain_welcome response; Some (if w then SR_NO_ERROR else SR_NXDOMAIN) }
     else Some (if rcode = 1 then SR_FORMERR else if rcode = 2 then SR_SERVFAIL else if rcode = 4 then SR_NOTIMPL
       else if rcode = 5 then SR_REFUSED else SR_DNS_GENERIC_ERROR)
   }"

definition res_response_checks :: "server option \<Rightarrow> byte list \<Rightarrow> nat \<Rightarrow> (sr_code \<times> byte list) option" where
  "res_response_checks respondent answer answer_length = do {
     a \<leftarrow> (case respondent of None \<Rightarrow> Some (Some answer) | Some r \<Rightarrow> res_tsig_verifies r answer answer_length);
     case a of None \<Rightarrow> Some (SR_NO_ANSWER, [])
     | Some answer \<Rightarrow> do {
         retval \<leftarrow> theres_something_wrong_with_header answer;
         Some (if retval = SR_NO_ERROR then (SR_NO_ERROR, answer) else (SR_NO_ANSWER, []))
       }
   }"

definition res_quecmp :: "byte list \<Rightarrow> byte list \<Rightarrow> int option" where
  "res_quecmp query response =
     (if query = [] \<or> response = [] then Some 1
      else do { q \<leftarrow> ptr query 12; r \<leftarrow> ptr response 12; namecmp q r })"

subsection \<open>What a query is\<close>

text \<open>The query for a name, type and class, as RFC 1035 and RFC 6891 lay it out.\<close>

definition opt_bytes :: "server \<Rightarrow> byte list" where
  "opt_bytes ns = [0] @ put16 ns_t_opt @ put16 (word_of_int (ns_edns0_size ns)) @ [0, 0, 0x80, 0] @ put16 0"

definition query_header :: "bool \<Rightarrow> u16 \<Rightarrow> server \<Rightarrow> u16 \<Rightarrow> byte list" where
  "query_header le qid ns arcount = host16 le qid @
     [if ns_options ns AND SR_QUERY_RECURSE \<noteq> 0 then rd_bit else 0, if ns_options ns AND SR_QUERY_SET_CD \<noteq> 0 then cd_bit else 0] @
     put16 1 @ put16 0 @ put16 0 @ put16 arcount"

definition query_bytes :: "bool \<Rightarrow> u16 \<Rightarrow> server \<Rightarrow> label list \<Rightarrow> u16 \<Rightarrow> u16 \<Rightarrow> byte list" where
  "query_bytes le qid ns ls type_h class_h =
     query_header le qid ns (if ns_options ns AND SR_QUERY_SET_DO \<noteq> 0 then 1 else 0) @ enc ls @ put16 type_h @ put16 class_h @
     (if ns_options ns AND SR_QUERY_SET_DO \<noteq> 0 then opt_bytes ns else [])"

lemma blit_tail: "length src \<le> length t \<Longrightarrow> i = length pre \<Longrightarrow> blit (pre @ t) i src = Some (pre @ src @ drop (length src) t)"
  by (simp add: blit_def)

lemma host16_bytes: obtains a b where "host16 le w = [a, b]"
  by (cases le) (auto simp: host16_def put16_def)

lemma nmk_header_bytes:
  assumes "NS_HFIXEDSZ \<le> length buf"
  shows "nmk_header le qid ns ns_o_query buf = Some (host16 le qid @
     [if ns_options ns AND SR_QUERY_RECURSE \<noteq> 0 then rd_bit else 0, 0, 0, 0, 0, 0, 0, 0, 0, 0] @ drop NS_HFIXEDSZ buf)"
proof -
  obtain a b where "host16 le qid = [a, b]" by (rule host16_bytes)
  with assms show ?thesis
    by (simp add: nmk_header_def blit_def set_field_def rd_def wr_def numeral_eq_Suc)
qed

lemma nmk_question_bytes:
  assumes "wf_name ls" "length t = 1029"
  shows "nmk_question ns_o_query (text_name ls @ [0]) class_h type_h [] ([a, b, c, d, 0, 0, 0, 0, 0, 0, 0, 0] @ t) payload_limit =
    Some (Some ([a, b, c, d, 0, 1, 0, 0, 0, 0, 0, 0] @ enc ls @ put16 type_h @ put16 class_h @ drop (length (enc ls) + 4) t,
      NS_HFIXEDSZ + length (enc ls) + NS_QFIXEDSZ))"
proof -
  let ?h = "[a, b, c, d, 0, 0, 0, 0, 0, 0, 0, 0] :: byte list"
  have len: "length (enc ls) \<le> 255" using assms(1) by (simp add: wf_name_def)
  have pton: "ns_name_pton (text_name ls @ [0]) (replicate NS_MAXCDNAME 0) =
      Some (Some (if ls = [] then 1 else 0, enc ls @ drop (length (enc ls)) (replicate NS_MAXCDNAME 0)))"
    using pton_text [OF assms(1), of "replicate NS_MAXCDNAME 0" "[]"] len by simp
  obtain ps where pack: "ns_name_pack (enc ls @ drop (length (enc ls)) (replicate NS_MAXCDNAME 0)) (?h @ t) 12 1025 (Some []) (Some 20) =
      Some (Some (length (enc ls)), take 12 (?h @ t) @ enc ls @ drop (12 + length (enc ls)) (?h @ t), ps)"
    using ns_name_pack_copies [OF assms(1), of 1025 12 "?h @ t" "Some []"] len assms(2) by auto
  have cut: "take 12 (?h @ t) = ?h" "drop (12 + length (enc ls)) (?h @ t) = drop (length (enc ls)) t"
  proof -
    have "drop (12 + length (enc ls)) (?h @ t) = drop (length (enc ls)) (drop 12 (?h @ t))" by (simp only: drop_drop add.commute)
    then show "drop (12 + length (enc ls)) (?h @ t) = drop (length (enc ls)) t" by simp
  qed simp
  have b1: "blit (?h @ enc ls @ drop (length (enc ls)) t) (12 + length (enc ls)) (put16 type_h @ put16 class_h) =
      Some (?h @ enc ls @ put16 type_h @ put16 class_h @ drop (length (enc ls) + 4) t)"
    using blit_tail [of "put16 type_h @ put16 class_h" "drop (length (enc ls)) t" "12 + length (enc ls)" "?h @ enc ls"] len assms(2)
    by (simp add: add.commute)
  have b2: "blit (?h @ r) 4 (put16 1) = Some ([a, b, c, d, 0, 1, 0, 0, 0, 0, 0, 0] @ r)" for r
    by (simp add: blit_def put16_def)
  from pton pack [unfolded cut] b1 b2 show ?thesis
    by (simp add: nmk_question_def ns_name_compress_def payload_limit_def)
qed


lemma res_val_nmkquery_bytes:
  assumes "wf_name ls" "length junk = payload_limit"
  shows "\<exists>t. length t = 1025 - length (enc ls) \<and> res_val_nmkquery le qid ns ns_o_query (text_name ls @ [0]) class_h type_h [] 0 junk payload_limit =
    Some (Some (host16 le qid @ [if ns_options ns AND SR_QUERY_RECURSE \<noteq> 0 then rd_bit else 0, 0, 0, 1, 0, 0, 0, 0, 0, 0] @
      enc ls @ put16 type_h @ put16 class_h @ t, NS_HFIXEDSZ + length (enc ls) + NS_QFIXEDSZ))"
proof -
  obtain a b where ab: "host16 le qid = [a, b]" by (rule host16_bytes)
  have junk: "junk \<noteq> []" "NS_HFIXEDSZ \<le> length junk" "length (drop NS_HFIXEDSZ junk) = 1029"
    using assms(2) by (auto simp: payload_limit_def)
  have "length (drop (length (enc ls) + 4) (drop NS_HFIXEDSZ junk)) = 1025 - length (enc ls)" using assms(2) by (simp add: payload_limit_def)
  moreover have "res_val_nmkquery le qid ns ns_o_query (text_name ls @ [0]) class_h type_h [] 0 junk payload_limit =
    nmk_question ns_o_query (text_name ls @ [0]) class_h type_h []
      ([a, b, if ns_options ns AND SR_QUERY_RECURSE \<noteq> 0 then rd_bit else 0, 0, 0, 0, 0, 0, 0, 0, 0, 0] @ drop NS_HFIXEDSZ junk) payload_limit"
    using junk(1,2) nmk_header_bytes [OF junk(2), of le qid ns] ab by (simp add: res_val_nmkquery_def payload_limit_def)
  ultimately show ?thesis using nmk_question_bytes [OF assms(1) junk(3)] ab by auto
qed

lemma set_cd: "set_field (a # b # c # 0 # t) 3 cd_bit cd_bit = Some (a # b # c # cd_bit # t)"
  by (simp add: set_field_def rd_def wr_def numeral_eq_Suc)

lemma set_rd: "c = 0 \<or> c = rd_bit \<Longrightarrow> set_field (a # b # c # d # t) 2 rd_bit v = Some (a # b # v # d # t)"
  by (auto simp: set_field_def rd_def wr_def numeral_eq_Suc)

lemma payload_flags_bytes:
  assumes "c = (if ns_options ns AND SR_QUERY_RECURSE \<noteq> 0 then rd_bit else 0)"
  shows "payload_flags ns (a # b # c # 0 # t) = Some (a # b # c # (if ns_options ns AND SR_QUERY_SET_CD \<noteq> 0 then cd_bit else 0) # t)"
proof -
  have "c = 0 \<or> c = rd_bit" using assms by simp
  from set_rd [OF this] show ?thesis using assms by (auto simp: payload_flags_def set_cd)
qed

lemma res_val_nopt_bytes:
  assumes "q = length h + 12" "q + 11 \<le> payload_limit" "11 \<le> length t"
  shows "res_val_nopt ns (a # b # c # d # e # f # g # i # j # k # 0 # 0 # h @ t) payload_limit q =
    Some (Some (a # b # c # d # e # f # g # i # j # k # 0 # 1 # h @ opt_bytes ns @ drop 11 t, q + 11))"
proof -
  let ?p = "a # b # c # d # e # f # g # i # j # k # 0 # 0 # h"
  have e: "(word_of_int (ns_edns0_size ns) AND 0xffff :: u16) = word_of_int (ns_edns0_size ns)"
  proof -
    have "(0xffff :: u16) = -1" by simp
    then show ?thesis by (metis and.right_neutral)
  qed
  have b1: "blit (?p @ t) q (opt_bytes ns) = Some (?p @ opt_bytes ns @ drop 11 t)"
    using blit_tail [of "opt_bytes ns" t q ?p] assms by (simp add: opt_bytes_def)
  have o: "[0] @ put16 ns_t_opt @ put16 (word_of_int (ns_edns0_size ns) AND 0xffff) @ [0, 0] @ put16 NS_OPT_DNSSEC_OK @ put16 0 = opt_bytes ns"
    unfolding e by (simp add: opt_bytes_def put16_def)
  have g: "get16 (?p @ opt_bytes ns @ drop 11 t) 10 = Some 0" by (simp add: get16_def be16_def rd_def numeral_eq_Suc)
  have b2: "blit (?p @ r) 10 (put16 1) = Some (a # b # c # d # e # f # g # i # j # k # 0 # 1 # h @ r)" for r
    by (simp add: blit_def put16_def)
  from b1 g b2 assms show ?thesis unfolding res_val_nopt_def o by simp
qed


lemma query_header_bytes:
  assumes "host16 le qid = [a, b]"
  shows "query_header le qid ns 0 = [a, b, if ns_options ns AND SR_QUERY_RECURSE \<noteq> 0 then rd_bit else 0,
      if ns_options ns AND SR_QUERY_SET_CD \<noteq> 0 then cd_bit else 0, 0, 1, 0, 0, 0, 0, 0, 0]"
    "query_header le qid ns 1 = [a, b, if ns_options ns AND SR_QUERY_RECURSE \<noteq> 0 then rd_bit else 0,
      if ns_options ns AND SR_QUERY_SET_CD \<noteq> 0 then cd_bit else 0, 0, 1, 0, 0, 0, 0, 0, 1]"
  using assms by (simp_all add: query_header_def put16_def)

text \<open>The payload is that query, signed where a key is configured.\<close>

lemma res_create_query_payload_bytes:
  assumes "wf_name ls" "length junk = payload_limit"
  shows "\<exists>t. res_create_query_payload C le qid now ns junk (text_name ls @ [0]) class_h type_h =
    res_tsig_sign C now (query_bytes le qid ns ls type_h class_h @ t) (length (query_bytes le qid ns ls type_h class_h)) ns"
proof -
  obtain a b where ab: "host16 le qid = [a, b]" by (rule host16_bytes)
  define r where "r = (if ns_options ns AND SR_QUERY_RECURSE \<noteq> 0 then rd_bit else 0)"
  let ?h = "enc ls @ put16 type_h @ put16 class_h"
  let ?q = "NS_HFIXEDSZ + length (enc ls) + NS_QFIXEDSZ"
  have len: "length (enc ls) \<le> 255" using assms(1) by (simp add: wf_name_def)
  obtain t where t: "length t = 1025 - length (enc ls)"
    and q: "res_val_nmkquery le qid ns ns_o_query (text_name ls @ [0]) class_h type_h [] 0 junk payload_limit =
      Some (Some (a # b # r # 0 # 0 # 1 # 0 # 0 # 0 # 0 # 0 # 0 # ?h @ t, ?q))"
    using res_val_nmkquery_bytes [OF assms, of le qid ns class_h type_h] unfolding r_def ab by auto
  note flags = payload_flags_bytes [OF r_def]
  show ?thesis
  proof (cases "ns_options ns AND SR_QUERY_SET_DO = 0")
    case True
    have "query_bytes le qid ns ls type_h class_h = a # b # r # (if ns_options ns AND SR_QUERY_SET_CD \<noteq> 0 then cd_bit else 0) #
        0 # 1 # 0 # 0 # 0 # 0 # 0 # 0 # ?h"
      using True query_header_bytes(1) [OF ab, of ns] by (simp add: query_bytes_def r_def)
    moreover from this have "length (query_bytes le qid ns ls type_h class_h) = ?q" by simp
    ultimately show ?thesis using q flags True
      by (intro exI [of _ t]) (simp add: res_create_query_payload_def)
  next
    case False
    have o: "res_val_nopt ns (a # b # r # 0 # 0 # 1 # 0 # 0 # 0 # 0 # 0 # 0 # ?h @ t) payload_limit ?q =
        Some (Some (a # b # r # 0 # 0 # 1 # 0 # 0 # 0 # 0 # 0 # 1 # ?h @ opt_bytes ns @ drop 11 t, ?q + 11))"
      using len t by (intro res_val_nopt_bytes) (simp_all add: payload_limit_def)
    have "query_bytes le qid ns ls type_h class_h = a # b # r # (if ns_options ns AND SR_QUERY_SET_CD \<noteq> 0 then cd_bit else 0) #
        0 # 1 # 0 # 0 # 0 # 0 # 0 # 1 # ?h @ opt_bytes ns"
      using False query_header_bytes(2) [OF ab, of ns] by (simp add: query_bytes_def r_def)
    moreover from this have "length (query_bytes le qid ns ls type_h class_h) = ?q + 11" by (simp add: opt_bytes_def)
    ultimately show ?thesis using q o flags False
      by (intro exI [of _ "drop 11 t"]) (simp add: res_create_query_payload_def)
  qed
qed

lemma payload_plain:
  assumes "wf_name ls" "length junk = payload_limit" "ns_security_options ns AND ZONE_USE_TSIG = 0"
  shows "res_create_query_payload C le qid now ns junk (text_name ls @ [0]) class_h type_h =
    Some (Some (query_bytes le qid ns ls type_h class_h))"
proof -
  obtain a b where ab: "host16 le qid = [a, b]" by (rule host16_bytes)
  have "NS_HFIXEDSZ < length (query_bytes le qid ns ls type_h class_h)"
    using ab by (auto simp: query_bytes_def query_header_def put16_def)
  moreover obtain t where "res_create_query_payload C le qid now ns junk (text_name ls @ [0]) class_h type_h =
    res_tsig_sign C now (query_bytes le qid ns ls type_h class_h @ t) (length (query_bytes le qid ns ls type_h class_h)) ns"
    using res_create_query_payload_bytes [OF assms(1,2)] by blast
  ultimately show ?thesis using assms(3) by (simp add: res_tsig_sign_def seg_def)
qed

subsection \<open>What a query says\<close>

text \<open>A server reads the question out of it, and the OPT record where one is wanted.\<close>

lemma query_split:
  "query_bytes le qid ns ls type_h class_h = query_header le qid ns (if ns_options ns AND SR_QUERY_SET_DO \<noteq> 0 then 1 else 0) @
     enc ls @ put16 type_h @ put16 class_h @ (if ns_options ns AND SR_QUERY_SET_DO \<noteq> 0 then opt_bytes ns else [])"
  by (simp add: query_bytes_def)

lemma length_query_header [simp]: "length (query_header le qid ns n) = 12"
proof -
  obtain a b where "host16 le qid = [a, b]" by (rule host16_bytes)
  then show ?thesis by (simp add: query_header_def)
qed

lemma query_header_of:
  "header_of (query_header le qid ns n @ t) = Some (0, 0, n, False, 0)"
proof -
  obtain a b where ab: "host16 le qid = [a, b]" by (rule host16_bytes)
  have "be16 (ucast (drop_bit 8 n)) (ucast n) = n" by (rule be16_put16)
  then show ?thesis
    by (simp add: header_of_def query_header_def ab put16_def get16_def rd_def numeral_eq_Suc be16_def)
qed

lemma query_question:
  assumes "wf_name ls"
  shows "ns_name_unpack (query_bytes le qid ns ls type_h class_h) (length (query_bytes le qid ns ls type_h class_h)) 12 NS_MAXCDNAME =
      Some (Some (length (enc ls), enc ls))"
    "get16 (query_bytes le qid ns ls type_h class_h) (12 + length (enc ls)) = Some type_h"
    "get16 (query_bytes le qid ns ls type_h class_h) (14 + length (enc ls)) = Some class_h"
proof -
  let ?n = "if ns_options ns AND SR_QUERY_SET_DO \<noteq> 0 then 1 else 0"
  let ?o = "if ns_options ns AND SR_QUERY_SET_DO \<noteq> 0 then opt_bytes ns else []"
  let ?h = "query_header le qid ns ?n"
  have "length (enc ls) \<le> NS_MAXCDNAME" using assms by (simp add: wf_name_def)
  from unpack_enc [OF assms this, of ?h _ "put16 type_h @ put16 class_h @ ?o"]
  show "ns_name_unpack (query_bytes le qid ns ls type_h class_h) (length (query_bytes le qid ns ls type_h class_h)) 12 NS_MAXCDNAME =
      Some (Some (length (enc ls), enc ls))" by (simp add: query_split)
  show "get16 (query_bytes le qid ns ls type_h class_h) (12 + length (enc ls)) = Some type_h"
    using get16_at [of "12 + length (enc ls)" "?h @ enc ls" type_h "put16 class_h @ ?o"] by (simp add: query_split)
  show "get16 (query_bytes le qid ns ls type_h class_h) (14 + length (enc ls)) = Some class_h"
    using get16_at [of "14 + length (enc ls)" "?h @ enc ls @ put16 type_h" class_h ?o] by (simp add: query_split)
qed

lemma query_opt:
  assumes "wf_name ls" "ns_options ns AND SR_QUERY_SET_DO \<noteq> 0"
  shows "extract_from_rr (query_bytes le qid ns ls type_h class_h) (16 + length (enc ls)) (length (query_bytes le qid ns ls type_h class_h)) =
    Some (Inr \<lparr> rf_name = [0], rf_type_h = ns_t_opt, rf_set_type_h = ns_t_opt, rf_class_h = word_of_int (ns_edns0_size ns),
      rf_ttl_h = 0x8000, rf_rdata_length_h = 0, rf_rdata_index = 27 + length (enc ls), rf_response_index = 27 + length (enc ls) \<rparr>)"
proof -
  let ?p = "query_header le qid ns 1 @ enc ls @ put16 type_h @ put16 class_h"
  let ?h = "rr_head ns_t_opt (word_of_int (ns_edns0_size ns)) 0x8000 0"
  have q: "query_bytes le qid ns ls type_h class_h = (?p @ [0]) @ ?h @ []"
    using assms(2) by (simp add: query_split opt_bytes_def rr_head_def put32_def put16_def)
  have i: "16 + length (enc ls) = length ?p" by simp
  have "name_in (?p @ enc [] @ ?h) (length (?p @ enc [] @ ?h)) (length ?p) (length (enc [])) []"
    by (rule name_in_enc) (simp_all add: wf_name_def)
  then have "name_in (query_bytes le qid ns ls type_h class_h) (length (query_bytes le qid ns ls type_h class_h)) (16 + length (enc ls)) 1 []"
    unfolding q i by (simp add: enc_def)
  from extract_from_rr_fields [OF this _ q] show ?thesis
    by (simp add: q enc_def)
qed

subsection \<open>A signed query\<close>

text \<open>
  A key that \<open>res_set_ns_tsig\<close> makes from a name and an algorithm: the buffers hold the names, the sizes are those of
  the record that will be appended.
\<close>

definition wf_tsig :: "tsig \<Rightarrow> label list \<Rightarrow> label list \<Rightarrow> Crypto.digest \<Rightarrow> bool" where
  "wf_tsig t nls als md \<longleftrightarrow> wf_name nls \<and> wf_name als \<and> (\<exists>p. ts_name_n t = enc nls @ p) \<and> (\<exists>p. ts_alg_n t = enc als @ p) \<and>
     unat (ts_keylen t) \<le> length (ts_key t) \<and> tsig_md (ts_alg t) = Some md \<and> unat (ts_mac_size t) = digest_length md \<and>
     ts_rdatalen t = word_of_nat (length (enc als) + 16 + digest_length md) \<and>
     ts_buf_size t = length (enc nls) + 10 + (length (enc als) + 16 + digest_length md)"

text \<open>What RFC 2845 has digested after the message, and the data of the record.\<close>

definition tsig_variables :: "64 word \<Rightarrow> tsig \<Rightarrow> label list \<Rightarrow> label list \<Rightarrow> byte list" where
  "tsig_variables now t nls als = enc nls @ put16 ns_t_any @ put32 0 @ enc als @ put48 now @ put16 (ts_fudge t) @ put16 0 @ put16 0"

definition tsig_rdata :: "64 word \<Rightarrow> tsig \<Rightarrow> label list \<Rightarrow> byte list \<Rightarrow> u16 \<Rightarrow> byte list" where
  "tsig_rdata now t als mac qid =
     enc als @ put48 now @ put16 (ts_fudge t) @ put16 (ts_mac_size t) @ mac @ put16 qid @ put16 0 @ put16 0"

definition with_arcount :: "u16 \<Rightarrow> byte list \<Rightarrow> byte list" where
  "with_arcount n q = take 10 q @ put16 n @ drop 12 q"

lemma length_put48 [simp]: "length (put48 w) = 6"
  by (simp add: put48_def)

lemma length_with_arcount [simp]: "12 \<le> length q \<Longrightarrow> length (with_arcount n q) = length q"
  by (simp add: with_arcount_def)

lemma emit_fits: "length out + length bs \<le> cap \<Longrightarrow> emit cap out bs = Some (out @ bs)"
  by (simp add: emit_def)

lemma tsig_append_bytes:
  assumes "wf_tsig t nls als md" "hmac_sized C" "12 \<le> length q" "get16 q 10 = Some n" "get16 q 0 = Some qid"
  shows "tsig_append C now t md q = Some (Some (with_arcount (n + 1) q @ enc nls @
    rr_head ns_t_tsig ns_t_any 0 (length (enc als) + 16 + digest_length md) @
    tsig_rdata now t als (HMAC C md (take (unat (ts_keylen t)) (ts_key t)) (q @ tsig_variables now t nls als)) qid))"
proof -
  let ?cap = "length q + ts_buf_size t"
  let ?q = "with_arcount (n + 1) q"
  let ?key = "take (unat (ts_keylen t)) (ts_key t)"
  let ?d2 = "put16 ns_t_any @ put32 0 :: byte list"
  let ?d3 = "put48 now @ put16 (ts_fudge t)"
  let ?d4 = "put16 0 @ put16 0 :: byte list"
  let ?mac = "HMAC C md ?key (q @ enc nls @ ?d2 @ enc als @ ?d3 @ ?d4)"
  obtain p p' where names: "wf_name nls" "wf_name als" "ts_name_n t = enc nls @ p" "ts_alg_n t = enc als @ p'"
    and mac: "unat (ts_mac_size t) = digest_length md" "length ?mac = digest_length md"
    and sizes: "ts_buf_size t = length (enc nls) + 10 + (length (enc als) + 16 + digest_length md)"
      "ts_rdatalen t = word_of_nat (length (enc als) + 16 + digest_length md)"
    and key: "seg (ts_key t) 0 (unat (ts_keylen t)) = Some ?key"
    using assms(1,2) by (auto simp: wf_tsig_def hmac_sized_def seg_def)
  have len: "length ?q = length q" using assms(3) by simp
  have b: "blit q 10 (put16 (n + 1)) = Some ?q" using assms(3) by (simp add: blit_def with_arcount_def)
  let ?o1 = "?q @ enc nls @ put16 ns_t_tsig @ ?d2 @ put16 (ts_rdatalen t) @ enc als @ ?d3 @ put16 (ts_mac_size t)"
  have hid: "get16 (?o1 @ replicate (digest_length md) 0) 0 = Some qid"
  proof -
    have "q \<noteq> []" using assms(3) by auto
    with assms(3,5) len show ?thesis by (simp add: get16_def rd_append with_arcount_def) (simp add: rd_def)
  qed
  have cap: "?cap = length q + length (enc nls) + length (enc als) + 26 + digest_length md" using sizes(1) by simp
  have e: "emit ?cap [] q = Some q" "emit ?cap ?q (enc nls) = Some (?q @ enc nls)"
    "emit ?cap (?q @ enc nls) (put16 ns_t_tsig) = Some (?q @ enc nls @ put16 ns_t_tsig)"
    "emit ?cap (?q @ enc nls @ put16 ns_t_tsig) ?d2 = Some (?q @ enc nls @ put16 ns_t_tsig @ ?d2)"
    "emit ?cap (?q @ enc nls @ put16 ns_t_tsig @ ?d2) (put16 (ts_rdatalen t)) =
      Some (?q @ enc nls @ put16 ns_t_tsig @ ?d2 @ put16 (ts_rdatalen t))"
    "emit ?cap (?q @ enc nls @ put16 ns_t_tsig @ ?d2 @ put16 (ts_rdatalen t)) (enc als) =
      Some (?q @ enc nls @ put16 ns_t_tsig @ ?d2 @ put16 (ts_rdatalen t) @ enc als)"
    "emit ?cap (?q @ enc nls @ put16 ns_t_tsig @ ?d2 @ put16 (ts_rdatalen t) @ enc als) ?d3 =
      Some (?q @ enc nls @ put16 ns_t_tsig @ ?d2 @ put16 (ts_rdatalen t) @ enc als @ ?d3)"
    "emit ?cap (?q @ enc nls @ put16 ns_t_tsig @ ?d2 @ put16 (ts_rdatalen t) @ enc als @ ?d3) (put16 (ts_mac_size t)) = Some ?o1"
    "emit ?cap ?o1 (replicate (digest_length md) 0) = Some (?o1 @ replicate (digest_length md) 0)"
    "emit ?cap (?o1 @ replicate (digest_length md) 0) (put16 qid) = Some (?o1 @ replicate (digest_length md) 0 @ put16 qid)"
    "emit ?cap (?o1 @ replicate (digest_length md) 0 @ put16 qid) ?d4 = Some (?o1 @ replicate (digest_length md) 0 @ put16 qid @ ?d4)"
    using len unfolding cap by (simp_all add: emit_def)
  have f: "blit (?o1 @ replicate (digest_length md) 0 @ put16 qid @ ?d4) (length ?o1) ?mac = Some (?o1 @ ?mac @ put16 qid @ ?d4)"
    using mac(2) by (intro blit_append) simp
  have wn: "wire_name_length (ts_name_n t) = Some (length (enc nls))" "seg (ts_name_n t) 0 (length (enc nls)) = Some (enc nls)"
    "wire_name_length (ts_alg_n t) = Some (length (enc als))" "seg (ts_alg_n t) 0 (length (enc als)) = Some (enc als)"
    using names by (simp_all add: seg_def)
  have "tsig_append C now t md q = Some (Some (?o1 @ ?mac @ put16 qid @ ?d4))"
    unfolding tsig_append_def Let_def key wn e(1) Option.bind.bind_lunit assms(4) b e(2-8) mac(1) e(9) hid e(10,11) f
    using mac(2) f by simp
  then show ?thesis
    by (simp add: tsig_rdata_def tsig_variables_def rr_head_def sizes(2))
qed

lemma query_id:
  obtains qid' where "get16 (query_bytes le qid ns ls type_h class_h) 0 = Some qid'" "take 2 (query_bytes le qid ns ls type_h class_h) = put16 qid'"
proof -
  obtain a b where ab: "host16 le qid = [a, b]" by (rule host16_bytes)
  then have "take 2 (query_bytes le qid ns ls type_h class_h) = put16 (be16 a b)"
    by (simp add: query_bytes_def query_header_def put16_be16)
  moreover have "get16 (query_bytes le qid ns ls type_h class_h) 0 = Some (be16 a b)"
    using ab by (simp add: query_bytes_def query_header_def get16_def)
  ultimately show thesis using that by blast
qed

lemma query_arcount:
  "get16 (query_bytes le qid ns ls type_h class_h) 10 = Some (if ns_options ns AND SR_QUERY_SET_DO \<noteq> 0 then 1 else 0)"
  using query_header_of [of le qid ns "if ns_options ns AND SR_QUERY_SET_DO \<noteq> 0 then 1 else 0"
      "enc ls @ put16 type_h @ put16 class_h @ (if ns_options ns AND SR_QUERY_SET_DO \<noteq> 0 then opt_bytes ns else [])"]
  by (auto simp: header_of_def query_split split: Option.bind_splits)

lemma payload_signed:
  assumes "wf_name ls" "length junk = payload_limit" "ns_security_options ns AND ZONE_USE_TSIG \<noteq> 0"
    and "ns_tsig ns = Some t" "wf_tsig t nls als md" "hmac_sized C"
    and "q = query_bytes le qid ns ls type_h class_h" "get16 q 0 = Some qid'" "get16 q 10 = Some n"
  shows "res_create_query_payload C le qid now ns junk (text_name ls @ [0]) class_h type_h =
    Some (Some (with_arcount (n + 1) q @ enc nls @ rr_head ns_t_tsig ns_t_any 0 (length (enc als) + 16 + digest_length md) @
      tsig_rdata now t als (HMAC C md (take (unat (ts_keylen t)) (ts_key t)) (q @ tsig_variables now t nls als)) qid'))"
proof -
  have q: "NS_HFIXEDSZ < length q" by (simp add: assms(7) query_split)
  obtain r where "res_create_query_payload C le qid now ns junk (text_name ls @ [0]) class_h type_h =
    res_tsig_sign C now (q @ r) (length q) ns"
    using res_create_query_payload_bytes [OF assms(1,2), of C le qid now ns class_h type_h] assms(7) by blast
  moreover have "tsig_md (ts_alg t) = Some md" using assms(5) by (simp add: wf_tsig_def)
  moreover have "12 \<le> length q" using q by simp
  ultimately show ?thesis
    using tsig_append_bytes [OF assms(5,6) _ assms(9,8), of now] assms(3,4) q by (simp add: res_tsig_sign_def seg_def)
qed

text \<open>The record at the end of it is what a server finds there.\<close>

lemma length_tsig_rdata: "length (tsig_rdata now t als mac qid) = length (enc als) + 16 + length mac"
  by (simp add: tsig_rdata_def)

lemma tsig_extracted:
  assumes "wf_name nls" "wf_name als" "n = length (enc als) + 16 + digest_length md" "length rdata = n"
    and "m = q @ enc nls @ rr_head ns_t_tsig ns_t_any 0 n @ rdata"
  shows "extract_from_rr m (length q) (length m) = Some (Inr \<lparr> rf_name = enc nls, rf_type_h = ns_t_tsig, rf_set_type_h = ns_t_tsig,
    rf_class_h = ns_t_any, rf_ttl_h = 0, rf_rdata_length_h = n, rf_rdata_index = length q + length (enc nls) + 10,
    rf_response_index = length m \<rparr>)"
proof -
  have "name_in m (length m) (length q) (length (enc nls)) nls"
    unfolding assms(5) by (rule name_in_enc [OF assms(1)]) simp_all
  moreover have "length (enc als) \<le> 255" using assms(2) by (simp add: wf_name_def)
  then have "n < 65536" using assms(3) by (cases md) (simp_all add: digest_length_def)
  ultimately show ?thesis
    using extract_from_rr_fields [of m "length m" "length q" "length (enc nls)" nls "q @ enc nls" ns_t_tsig ns_t_any 0 n rdata] assms(4,5)
    by simp
qed

text \<open>Setting a key.\<close>

lemma upper_escape: "0x41 \<le> c \<and> c \<le> 0x5a \<Longrightarrow> escape c = [c] \<and> escape (c + 0x20) = [c + 0x20]"
proof -
  assume "0x41 \<le> c \<and> c \<le> 0x5a"
  then have c: "0x41 \<le> unat c" "unat c < 0x5b" by (auto simp: word_le_nat_alt)
  have "list_all (\<lambda>n. escape (word_of_nat n) = [word_of_nat n] \<and> escape (word_of_nat n + 0x20) = [word_of_nat n + 0x20]) [0x41..<0x5b]"
    by code_simp
  then have "escape (word_of_nat (unat c)) = [word_of_nat (unat c)] \<and> escape (word_of_nat (unat c) + 0x20) = [word_of_nat (unat c) + 0x20]"
    using c unfolding list_all_iff by (metis atLeastLessThan_iff set_upt)
  then show ?thesis by simp
qed

lemma digits_not_upper: "n < 10 \<Longrightarrow> tolower (digits n) = digits n"
proof -
  assume "n < 10"
  moreover have "list_all (\<lambda>n. tolower (digits n) = digits n) [0..<10]" by code_simp
  ultimately show ?thesis by (simp only: list_all_iff set_upt atLeastLessThan_iff) simp
qed

lemma map_tolower_escape: "map tolower (escape c) = escape (tolower c)"
proof (cases "0x41 \<le> c \<and> c \<le> 0x5a")
  case True
  then show ?thesis using upper_escape by (simp add: tolower_def)
next
  case False
  then have c: "tolower c = c" by (auto simp: tolower_def)
  have "unat c div 100 < 10" "unat c mod 100 div 10 < 10" "unat c mod 10 < 10" using unat_byte [of c] by simp_all
  moreover have "tolower 0x5c = 0x5c" by (simp add: tolower_def)
  ultimately show ?thesis using c by (simp add: escape_def digits_not_upper)
qed

lemma tolower_dot: "tolower 0x2e = 0x2e"
  by (simp add: tolower_def)

lemma map_tolower_text_label: "map tolower (text_label l) = text_label (map tolower l)"
  by (induction l) (simp_all add: text_label_def map_tolower_escape)

lemma map_tolower_text_rest: "map tolower (text_rest ls) = text_rest (map (map tolower) ls)"
  by (induction ls) (simp_all add: text_rest_def map_tolower_text_label tolower_dot)

lemma map_tolower_text_name: "map tolower (text_name ls) = text_name (map (map tolower) ls)"
  by (cases ls) (simp_all add: map_tolower_text_label map_tolower_text_rest tolower_dot)

lemma tsig_alg_names:
  assumes "tsig_alg_of alg_s = Some (alg_s', alg, mac)"
  obtains als md where "wf_name als" "alg_s' = text_name als" "tsig_md alg = Some md" "unat mac = digest_length md"
proof -
  let ?names = "[[bytes ''hmac-md5'', bytes ''sig-alg'', bytes ''reg'', bytes ''int''], [bytes ''hmac-sha1''], [bytes ''hmac-sha256'']]"
  have n: "list_all wf_name ?names" unfolding wf_name_def wf_label_def by code_simp
  have t: "map text_name ?names = [TSIG_ALG_HMAC_MD5_STR, TSIG_ALG_HMAC_SHA1_STR, TSIG_ALG_HMAC_SHA256_STR]" by code_simp
  show thesis
    using assms n t that [of "?names ! 0" MD5] that [of "?names ! 1" SHA1] that [of "?names ! 2" SHA256]
    by (auto simp: tsig_alg_of_def tsig_md_def digest_length_def split: if_splits)
qed

text \<open>A key that can be decoded, for a name in text form, is well-formed.\<close>

lemma tsig_of_fields_wf:
  assumes "wf_name nls" "tsig_alg_of alg_s = Some (alg_s', alg, mac)"
    and "BIO_base64 C key_s = Some key" "take (length key_s) key \<noteq> []" "length key < 2 ^ 64"
  obtains t als md where "tsig_of_fields C (text_name nls) alg_s fudge_s key_s = Some (Some t)"
    "wf_tsig t (map (map tolower) nls) als md" "take (unat (ts_keylen t)) (ts_key t) = take (length key_s) key"
proof -
  obtain als md where a: "wf_name als" "alg_s' = text_name als" "tsig_md alg = Some md" "unat mac = digest_length md"
    by (rule tsig_alg_names [OF assms(2)])
  let ?nls = "map (map tolower) nls"
  let ?k = "take (length key_s) key"
  have nls: "wf_name ?nls" using assms(1) by (rule lower_wf_name)
  have p1: "\<exists>r. ns_name_pton (map tolower (text_name nls) @ [0]) (replicate NS_MAXCDNAME 0) =
      Some (Some (r, enc ?nls @ drop (length (enc ?nls)) (replicate NS_MAXCDNAME 0)))"
    using pton_text [OF nls, of "replicate NS_MAXCDNAME 0" "[]"] nls
    by (simp add: map_tolower_text_name wf_name_def)
  have p2: "\<exists>r. ns_name_pton (alg_s' @ [0]) (replicate NS_MAXCDNAME 0) =
      Some (Some (r, enc als @ drop (length (enc als)) (replicate NS_MAXCDNAME 0)))"
    using pton_text [OF a(1), of "replicate NS_MAXCDNAME 0" "[]"] a(1,2) by (simp add: wf_name_def)
  have k: "length ?k < 2 ^ 64" using assms(5) by simp
  then have kl: "unat (word_of_nat (length ?k) :: 64 word) = length ?k" by (simp add: unat_of_nat)
  then have "word_of_nat (length ?k) \<noteq> (0 :: 64 word)" using assms(4) by (metis length_0_conv unat_0)
  then have k0: "word_of_nat (min (length key) (length key_s)) \<noteq> (0 :: 64 word)" by (simp add: min.commute)
  define t where "t = \<lparr> ts_name_n = enc ?nls @ drop (length (enc ?nls)) (replicate NS_MAXCDNAME 0),
    ts_alg_n = enc als @ drop (length (enc als)) (replicate NS_MAXCDNAME 0), ts_key = ?k, ts_keylen = word_of_nat (length ?k),
    ts_alg = alg, ts_fudge = tsig_fudge_of fudge_s, ts_mac_size = mac,
    ts_rdatalen = word_of_nat (length (enc als) + 4 + 2 + 2 + 2 + unat mac + 2 + 2 + 2),
    ts_buf_size = length (enc ?nls) + 2 + 2 + 4 + 2 + (length (enc als) + 4 + 2 + 2 + 2 + unat mac + 2 + 2 + 2) \<rparr>"
  have "tsig_of_fields C (text_name nls) alg_s fudge_s key_s = Some (Some t)"
    using p1 p2 assms(2,3) k0 nls a(1) by (auto simp: tsig_of_fields_def decode_tsig_key_def Let_def t_def)
  moreover have "wf_tsig t ?nls als md"
    unfolding wf_tsig_def t_def using a nls kl by (simp add: algebra_simps)
  moreover have "take (unat (ts_keylen t)) (ts_key t) = ?k" using kl by (simp add: t_def) (simp add: min_def)
  ultimately show thesis by (rule that)
qed

text \<open>One that cannot is accepted as well, with a length that no memory has.\<close>

lemma undecodable_key:
  assumes "BIO_base64 C key_s = None" "tsig_of_fields C name_s alg_s fudge_s key_s = Some (Some t)"
  shows "ts_keylen t = -1 \<and> tsig_append C now t md q = None"
proof -
  have "ts_keylen t = -1" "ts_key t = []"
    using assms by (auto simp: tsig_of_fields_def decode_tsig_key_def Let_def split: Option.bind_splits option.splits prod.splits)
  moreover have "unat (-1 :: 64 word) \<noteq> 0" by (simp only: unsigned_eq_0_iff) simp
  ultimately have "ts_keylen t = -1" "seg (ts_key t) 0 (unat (ts_keylen t)) = None" by (simp_all add: seg_def)
  then show ?thesis by (simp add: tsig_append_def Let_def)
qed

subsection \<open>What a signature of a response is worth\<close>

lemma get16_with_arcount: "12 \<le> length a \<Longrightarrow> get16 (with_arcount n a) 10 = Some n"
  using get16_at [of 10 "take 10 a" n "drop 12 a"] by (simp add: with_arcount_def)

lemma with_arcount_back:
  assumes "12 \<le> length a" "get16 a 10 = Some n"
  shows "blit (with_arcount m a) 10 (put16 n) = Some a"
proof -
  have "put16 n = [a ! 10, a ! 11]" using assms by (auto simp: get16_def rd_def put16_be16)
  moreover have "take 12 a = take 10 a @ [a ! 10, a ! 11]"
    using assms(1) take_Suc_conv_app_nth [of 10 a] take_Suc_conv_app_nth [of 11 a] by simp
  ultimately have "take 10 a @ put16 n @ drop 12 a = a" by (metis append.assoc append_take_drop_id)
  then show ?thesis using assms(1) by (simp add: blit_def with_arcount_def)
qed

lemma res_response_checks_forged:
  assumes "ns_security_options r AND ZONE_USE_TSIG \<noteq> 0" "12 \<le> len" "12 \<le> length a" "get16 a 10 = Some n" "n \<noteq> -1"
  shows "res_response_checks (Some r) (with_arcount (n + 1) a) len = res_response_checks None a len"
proof -
  have "n + 1 \<noteq> 0" using assms(5) by (metis add_eq_0_iff2)
  moreover have "blit (with_arcount (n + 1) a) 10 (put16 (n + 1 - 1)) = Some a"
    using with_arcount_back [OF assms(3,4)] by simp
  ultimately have "res_tsig_verifies r (with_arcount (n + 1) a) len = Some (Some a)"
    using assms(1,2) get16_with_arcount [OF assms(3), of "n + 1"] by (simp add: res_tsig_verifies_def)
  then show ?thesis by (simp add: res_response_checks_def)
qed

text \<open>An answer repeats the question: comparing it to the query is comparing the names.\<close>

lemma res_quecmp_names:
  assumes "wf_name xs" "wf_name ys" "length h = 12" "length h' = 12"
  shows "res_quecmp (h @ enc xs @ t) (h' @ enc ys @ t') = namecmp (enc xs @ t) (enc ys @ t')"
proof -
  have "enc xs \<noteq> []" "enc ys \<noteq> []" by (auto simp: enc_def)
  with ptr_append [of "enc xs @ t" h] ptr_append [of "enc ys @ t'" h'] assms(3,4) show ?thesis
    by (auto simp: res_quecmp_def)
qed

lemma query_reads:
  fixes ns :: server
  assumes "wf_name ls"
  shows "\<exists>q. q = query_bytes le qid ns ls type_h class_h \<and>
    ns_name_unpack q (length q) 12 NS_MAXCDNAME = Some (Some (length (enc ls), enc ls)) \<and>
    get16 q (12 + length (enc ls)) = Some type_h \<and> get16 q (14 + length (enc ls)) = Some class_h \<and>
    take 2 q = host16 le qid \<and> get16 q 4 = Some 1 \<and>
    rd q 2 = Some (if ns_options ns AND SR_QUERY_RECURSE \<noteq> 0 then rd_bit else 0) \<and>
    rd q 3 = Some (if ns_options ns AND SR_QUERY_SET_CD \<noteq> 0 then cd_bit else 0) \<and>
    (if ns_options ns AND SR_QUERY_SET_DO = 0
     then header_of q = Some (0, 0, 0, False, 0) \<and> length q = 16 + length (enc ls)
     else header_of q = Some (0, 0, 1, False, 0) \<and>
       extract_from_rr q (16 + length (enc ls)) (length q) = Some (Inr \<lparr> rf_name = [0], rf_type_h = ns_t_opt,
         rf_set_type_h = ns_t_opt, rf_class_h = word_of_int (ns_edns0_size ns), rf_ttl_h = 0x8000, rf_rdata_length_h = 0,
         rf_rdata_index = 27 + length (enc ls), rf_response_index = length q \<rparr>))"
proof -
  obtain a b where ab: "host16 le qid = [a, b]" by (rule host16_bytes)
  have head: "take 2 (query_bytes le qid ns ls type_h class_h) = host16 le qid"
    "get16 (query_bytes le qid ns ls type_h class_h) 4 = Some 1"
    "rd (query_bytes le qid ns ls type_h class_h) 2 = Some (if ns_options ns AND SR_QUERY_RECURSE \<noteq> 0 then rd_bit else 0)"
    "rd (query_bytes le qid ns ls type_h class_h) 3 = Some (if ns_options ns AND SR_QUERY_SET_CD \<noteq> 0 then cd_bit else 0)"
    using ab by (simp_all add: query_bytes_def query_header_def put16_def get16_def be16_def rd_def numeral_eq_Suc)
  have len: "length (query_bytes le qid ns ls type_h class_h) = (if ns_options ns AND SR_QUERY_SET_DO = 0 then 16 else 27) + length (enc ls)"
    by (simp add: query_split opt_bytes_def)
  have hd: "header_of (query_bytes le qid ns ls type_h class_h) =
      Some (0, 0, if ns_options ns AND SR_QUERY_SET_DO = 0 then 0 else 1, False, 0)"
    by (simp add: query_split query_header_of)
  show ?thesis
    using query_question [OF assms, of le qid ns type_h class_h] query_opt [OF assms, of ns le qid type_h class_h] head len hd
    by auto
qed

lemma signed_payload_reads:
  assumes "wf_name ls" "length junk = payload_limit" "ns_security_options ns AND ZONE_USE_TSIG \<noteq> 0"
    and "ns_tsig ns = Some t" "wf_tsig t nls als md" "hmac_sized C" "q = query_bytes le qid ns ls type_h class_h"
  shows "\<exists>p n qid' mac. get16 q 10 = Some n \<and> get16 q 0 = Some qid' \<and>
    res_create_query_payload C le qid now ns junk (text_name ls @ [0]) class_h type_h = Some (Some p) \<and>
    take (length q) p = with_arcount (n + 1) q \<and>
    mac = HMAC C md (take (unat (ts_keylen t)) (ts_key t)) (q @ tsig_variables now t nls als) \<and>
    drop (length q + length (enc nls) + 10) p = tsig_rdata now t als mac qid' \<and>
    extract_from_rr p (length q) (length p) = Some (Inr \<lparr> rf_name = enc nls, rf_type_h = ns_t_tsig, rf_set_type_h = ns_t_tsig,
      rf_class_h = ns_t_any, rf_ttl_h = 0, rf_rdata_length_h = length (enc als) + 16 + digest_length md,
      rf_rdata_index = length q + length (enc nls) + 10, rf_response_index = length p \<rparr>)"
proof -
  obtain qid' where qid': "get16 q 0 = Some qid'" using query_id assms(7) by metis
  obtain n where n: "get16 q 10 = Some n" using query_arcount assms(7) by metis
  let ?mac = "HMAC C md (take (unat (ts_keylen t)) (ts_key t)) (q @ tsig_variables now t nls als)"
  let ?n = "length (enc als) + 16 + digest_length md"
  let ?q = "with_arcount (n + 1) q"
  define p where "p = ?q @ enc nls @ rr_head ns_t_tsig ns_t_any 0 ?n @ tsig_rdata now t als ?mac qid'"
  have run: "res_create_query_payload C le qid now ns junk (text_name ls @ [0]) class_h type_h = Some (Some p)"
    unfolding p_def by (rule payload_signed [OF assms qid' n])
  have l: "length ?q = length q" by (rule length_with_arcount) (simp add: assms(7) query_split)
  have mac: "length ?mac = digest_length md" using assms(6) by (simp add: hmac_sized_def)
  have names: "wf_name nls" "wf_name als" using assms(5) by (simp_all add: wf_tsig_def)
  have "extract_from_rr p (length ?q) (length p) = Some (Inr \<lparr> rf_name = enc nls, rf_type_h = ns_t_tsig, rf_set_type_h = ns_t_tsig,
      rf_class_h = ns_t_any, rf_ttl_h = 0, rf_rdata_length_h = ?n,
      rf_rdata_index = length ?q + length (enc nls) + 10, rf_response_index = length p \<rparr>)"
    by (rule tsig_extracted [OF names refl _ p_def]) (simp add: length_tsig_rdata mac)
  moreover have "take (length q) p = ?q" "drop (length q + length (enc nls) + 10) p = tsig_rdata now t als ?mac qid'"
    using l by (simp_all add: p_def)
  ultimately show ?thesis using qid' n run l by auto
qed

end
