(* ===== verification/Transport.thy ===== *)
theory Transport
  imports Mkquery
begin

section \<open>Sending queries and waiting for answers\<close>

text \<open>
  \<^verbatim>\<open>libsres/res_io_manager.c\<close>. A query to several servers is a list of expected arrivals, one per server, each with its socket,
  the attempts it has left and the times of its next attempt and of its end. A transaction is such a list. What the kernel
  and the clock answer are parameters; the state counts how often they were asked. The lock of the library is held by every
  operation, so an operation is one step.
\<close>

subsection \<open>Arrivals\<close>

type_synonym timeval = "int \<times> int"

definition LTEQ :: "timeval \<Rightarrow> timeval \<Rightarrow> bool" where
  "LTEQ a b = (if fst a = fst b then snd a < snd b \<or> snd a = snd b else fst a < fst b)"

definition timercmp_gt :: "timeval \<Rightarrow> timeval \<Rightarrow> bool" where
  "timercmp_gt a b = (if fst a = fst b then snd b < snd a else fst b < fst a)"

text \<open>\<open>UPDATE\<close> of a time at an address; the null pointer is \<open>None\<close>.\<close>

definition UPDATE :: "timeval option \<Rightarrow> timeval \<Rightarrow> timeval option option" where
  "UPDATE a b = (case a of None \<Rightarrow> None | Some t \<Rightarrow> Some (Some (if t = (0, 0) \<or> timercmp_gt t b then b else t)))"

record arrival =
  ea_socket :: "nat option"
  ea_name :: "byte list"
  ea_type_h :: u16
  ea_class_h :: u16
  ea_ns :: server
  ea_which_address :: nat
  ea_using_stream :: bool
  ea_signed :: "byte list"
  ea_response :: "byte list option"
  ea_response_length :: nat
  ea_remaining_attempts :: int
  ea_next_try :: timeval
  ea_cancel_time :: timeval

datatype srio = SR_IO_GOT_ANSWER | SR_IO_UNSET | SR_IO_NO_ANSWER_YET | SR_IO_MEMORY_ERROR | SR_IO_TOO_MANY_TRANS
  | SR_IO_SOCKET_ERROR | SR_IO_NO_ANSWER | SR_IO_INTERNAL_ERROR

text \<open>
  What becomes of the system calls of one \<open>res_io_send\<close>: the first of them that fails, with the descriptor that \<open>socket\<close>
  answered. What one \<open>recv\<close> or \<open>recvfrom\<close> answers: bytes, and whether they come from the address they are expected from.
\<close>

datatype sent = No_socket | Not_bound nat | Not_set nat | Not_connected nat | Not_sent nat | Sent nat

datatype recv_result = Recv bool "byte list" | Would_block | Recv_failed

record environment =
  ev_ssl :: openssl_hmac
  ev_le :: bool
  ev_stack :: "byte list"
  ev_rlimit :: int
  ev_clock :: "nat \<Rightarrow> timeval"
  ev_random :: "nat \<Rightarrow> u16"
  ev_sent :: "nat \<Rightarrow> sent"
  ev_recv :: "nat \<Rightarrow> recv_result"
  ev_ready :: "nat \<Rightarrow> nat list option"

record io =
  io_ticks :: nat
  io_draws :: nat
  io_sends :: nat
  io_recvs :: nat
  io_selects :: nat
  io_open :: int
  io_max :: int

definition gettimeofday :: "environment \<Rightarrow> io \<Rightarrow> timeval \<times> io" where
  "gettimeofday E io = (ev_clock E (io_ticks io), io\<lparr> io_ticks := io_ticks io + 1 \<rparr>)"

text \<open>\<open>_init_max_fd\<close>, from the limit of the process, which is kept in an \<open>int\<close>.\<close>

definition init_max_fd :: "int \<Rightarrow> int" where
  "init_max_fd rlim_cur = (let lim = sint (word_of_int (rlim_cur - 10) :: 32 word) in if lim \<le> 0 then 1 else lim)"

definition res_get_timeout :: "server \<Rightarrow> int" where
  "res_get_timeout ns = (\<Sum>i \<leftarrow> [0..ns_retry ns]. ns_retrans ns)"

definition set_alarms :: "environment \<Rightarrow> int \<Rightarrow> int \<Rightarrow> arrival \<Rightarrow> io \<Rightarrow> arrival \<times> io" where
  "set_alarms E nxt cancel ea io = (let (t, io) = gettimeofday E io; n = (fst t + nxt, snd t) in
     (ea\<lparr> ea_next_try := n, ea_cancel_time := (fst n + cancel, snd n) \<rparr>, io))"

definition res_ea_init :: "environment \<Rightarrow> byte list \<Rightarrow> u16 \<Rightarrow> u16 \<Rightarrow> byte list \<Rightarrow> server \<Rightarrow> int \<Rightarrow> io \<Rightarrow> arrival \<times> io" where
  "res_ea_init E name type_h class_h signed_query ns delay io =
     set_alarms E delay (res_get_timeout ns) \<lparr> ea_socket = None, ea_name = name, ea_type_h = type_h, ea_class_h = class_h,
       ea_ns = ns, ea_which_address = 0, ea_using_stream = False, ea_signed = signed_query, ea_response = None, ea_response_length = 0,
       ea_remaining_attempts = ns_retry ns + 1, ea_next_try = (0, 0), ea_cancel_time = (0, 0) \<rparr> io"

text \<open>Closing a socket, as every operation does it.\<close>

definition close_socket :: "arrival \<Rightarrow> io \<Rightarrow> arrival \<times> io" where
  "close_socket ea io = (case ea_socket ea of None \<Rightarrow> (ea, io)
     | Some _ \<Rightarrow> (ea\<lparr> ea_socket := None \<rparr>, io\<lparr> io_open := io_open io - 1 \<rparr>))"

definition res_io_retry_source :: "environment \<Rightarrow> arrival \<Rightarrow> io \<Rightarrow> arrival \<times> io" where
  "res_io_retry_source E ea io = (let (ea, io) = close_socket ea io; (t, io) = gettimeofday E io in
     (ea\<lparr> ea_next_try := t \<rparr>, io))"

definition res_io_reset_source :: "environment \<Rightarrow> arrival \<Rightarrow> io \<Rightarrow> arrival \<times> io" where
  "res_io_reset_source E ea io = (let (ea, io) = close_socket ea io; (t, io) = gettimeofday E io in
     (ea\<lparr> ea_cancel_time := t \<rparr>, io))"

definition res_io_cancel_source :: "environment \<Rightarrow> arrival \<Rightarrow> io \<Rightarrow> arrival \<times> io" where
  "res_io_cancel_source E ea io = (let (ea, io) = close_socket ea io; (t, io) = gettimeofday E io in
     (ea\<lparr> ea_cancel_time := t, ea_remaining_attempts := -1 \<rparr>, io))"

fun res_io_cancel_all_remaining_attempts :: "environment \<Rightarrow> arrival list \<Rightarrow> io \<Rightarrow> arrival list \<times> io" where
  "res_io_cancel_all_remaining_attempts E [] io = ([], io)"
| "res_io_cancel_all_remaining_attempts E (ea # eas) io = (let (ea, io) = res_io_cancel_source E ea io;
     (eas, io) = res_io_cancel_all_remaining_attempts E eas io in (ea # eas, io))"

definition res_io_is_finished :: "arrival \<Rightarrow> bool" where
  "res_io_is_finished ea \<longleftrightarrow> ea_remaining_attempts ea = -1"

definition res_io_are_all_finished :: "arrival list \<Rightarrow> bool" where
  "res_io_are_all_finished eas = list_all res_io_is_finished eas"

subsection \<open>Sending\<close>

text \<open>\<open>res_io_send\<close>. With a socket that is open already only the sending itself can fail.\<close>

definition send_failed :: "environment \<Rightarrow> arrival \<Rightarrow> io \<Rightarrow> srio \<times> arrival \<times> io" where
  "send_failed E ea io = (let (ea, io) = res_io_reset_source E ea io in (SR_IO_SOCKET_ERROR, ea, io))"

definition send_bytes :: "environment \<Rightarrow> bool \<Rightarrow> arrival \<Rightarrow> io \<Rightarrow> srio \<times> arrival \<times> io" where
  "send_bytes E ok ea io =
     (if ok then let ea = ea\<lparr> ea_remaining_attempts := ea_remaining_attempts ea - 1 \<rparr>;
         (ea, io) = set_alarms E (ns_retrans (ea_ns ea)) (res_get_timeout (ea_ns ea)) ea io in (SR_IO_UNSET, ea, io)
      else send_failed E ea io)"

definition open_and_send :: "environment \<Rightarrow> sent \<Rightarrow> arrival \<Rightarrow> io \<Rightarrow> srio \<times> arrival \<times> io" where
  "open_and_send E r ea io =
     (let opened = (\<lambda>fd. (ea\<lparr> ea_socket := Some fd \<rparr>, io\<lparr> io_open := io_open io + 1 \<rparr>));
          retry = (\<lambda>fd. let (ea, io) = opened fd; (ea, io) = res_io_retry_source E ea io in (SR_IO_SOCKET_ERROR, ea, io)) in
      case r of No_socket \<Rightarrow> (SR_IO_SOCKET_ERROR, ea, io)
      | Not_bound fd \<Rightarrow> retry fd
      | Not_set fd \<Rightarrow> retry fd
      | Not_connected fd \<Rightarrow> (let (ea, io) = opened fd in send_failed E ea io)
      | Not_sent fd \<Rightarrow> (let (ea, io) = opened fd in send_bytes E False ea io)
      | Sent fd \<Rightarrow> (let (ea, io) = opened fd in send_bytes E True ea io))"

definition is_sent :: "sent \<Rightarrow> bool" where
  "is_sent r = (case r of Sent _ \<Rightarrow> True | _ \<Rightarrow> False)"

definition res_io_send :: "environment \<Rightarrow> arrival \<Rightarrow> io \<Rightarrow> (srio \<times> arrival \<times> io) option" where
  "res_io_send E ea io =
     (if length (ns_address (ea_ns ea)) \<le> ea_which_address ea then None
      else let io = (if io_max io = 0 then io\<lparr> io_max := init_max_fd (ev_rlimit E) \<rparr> else io) in
        if ea_socket ea = None \<and> io_max io \<le> io_open io then Some (SR_IO_TOO_MANY_TRANS, ea, io)
        else let r = ev_sent E (io_sends io); io = io\<lparr> io_sends := io_sends io + 1 \<rparr> in
          Some (if ea_socket ea = None then open_and_send E r ea io else send_bytes E (is_sent r) ea io))"

subsection \<open>Falling back\<close>

text \<open>
  \<open>_reset_timeouts\<close>: an arrival is due at once, and those behind it are moved forward by as much as the next one lies in the
  future. The arrivals behind it are the rest of the list.
\<close>

definition shift_alarms :: "int \<Rightarrow> arrival \<Rightarrow> arrival" where
  "shift_alarms offset t = (if ea_socket t \<noteq> None then t
     else t\<lparr> ea_next_try := (fst (ea_next_try t) - offset, snd (ea_next_try t)),
       ea_cancel_time := (fst (ea_cancel_time t) - offset, snd (ea_cancel_time t)) \<rparr>)"

definition reset_timeouts :: "environment \<Rightarrow> arrival \<Rightarrow> arrival list \<Rightarrow> io \<Rightarrow> arrival \<times> arrival list \<times> io" where
  "reset_timeouts E temp rest io = (let (temp, io) = set_alarms E 0 (res_get_timeout (ea_ns temp)) temp io in
     case rest of [] \<Rightarrow> (temp, [], io)
     | n # _ \<Rightarrow> let offset = fst (ea_next_try n) - fst (ea_next_try temp) in
         (temp, if 0 < offset then map (shift_alarms offset) rest else rest, io))"

text \<open>The sizes of EDNS0 to fall back to; the loop looks at the first three of them only.\<close>

definition edns0_fallback :: "int list" where
  "edns0_fallback = [4096, 1492, 512, 0]"

definition fallback_max_index :: nat where
  "fallback_max_index = 3"

definition lower_edns0 :: "arrival \<Rightarrow> arrival" where
  "lower_edns0 temp = (let ns = ea_ns temp in
     if ns_options ns AND SR_QUERY_VALIDATING_STUB_FLAGS \<noteq> 0 \<and> 0 < ns_edns0_size ns
     then case List.find (\<lambda>s. s < ns_edns0_size ns) (take fallback_max_index edns0_fallback) of None \<Rightarrow> temp
       | Some s \<Rightarrow> temp\<lparr> ea_ns := ns\<lparr> ns_edns0_size := s, ns_options := (if s = 0
             then ns_options ns XOR SR_QUERY_VALIDATING_STUB_FLAGS else ns_options ns) \<rparr>,
           ea_remaining_attempts := (if ea_remaining_attempts temp \<le> 0 then 1 else ea_remaining_attempts temp + 1) \<rparr>
     else temp)"

text \<open>A payload for the server as it is now; the code tests for a negative answer, of which there is none.\<close>

definition payload_for :: "environment \<Rightarrow> server \<Rightarrow> byte list \<Rightarrow> u16 \<Rightarrow> u16 \<Rightarrow> io \<Rightarrow> (byte list option \<times> io) option" where
  "payload_for E ns name class_h type_h io = do {
     p \<leftarrow> res_create_query_payload (ev_ssl E) (ev_le E) (ev_random E (io_draws io)) (word_of_int (fst (ev_clock E (io_ticks io)))) ns
       (ev_stack E) name class_h type_h;
     Some (p, io\<lparr> io_draws := io_draws io + 1, io_ticks := io_ticks io + 1 \<rparr>)
   }"

text \<open>
  \<open>res_nsfallback_ea\<close>, for the arrival \<open>temp\<close> with \<open>rest\<close> behind it; \<open>before\<close> says whether those in front of it are finished.
  A signed query that was not made is the empty list.
\<close>

definition fallback_arrival :: "environment \<Rightarrow> bool \<Rightarrow> arrival \<Rightarrow> arrival list \<Rightarrow> timeval option \<Rightarrow> io \<Rightarrow>
    (int \<times> arrival \<times> arrival list \<times> timeval option \<times> io) option" where
  "fallback_arrival E before temp rest closest_event io = (let old_size = ns_edns0_size (ea_ns temp); temp = lower_edns0 temp in
     if ea_remaining_attempts temp \<le> 0 then
       let (temp, io) = res_io_reset_source E temp io in
       Some (if before \<and> res_io_are_all_finished (temp # rest) then -1 else 0, temp, rest, closest_event, io)
     else do {
       let (temp, rest, io) = reset_timeouts E temp rest io;
       closest_event \<leftarrow> UPDATE closest_event (ea_next_try temp);
       if old_size = 0 then Some (0, temp, rest, closest_event, io)
       else do {
         (p, io) \<leftarrow> payload_for E (ea_ns temp) (ea_name temp) (ea_class_h temp) (ea_type_h temp) io;
         let temp = temp\<lparr> ea_signed := (case p of None \<Rightarrow> [] | Some q \<Rightarrow> q) \<rparr>;
         let (temp, io) = close_socket temp io;
         Some (1, temp, rest, closest_event, io)
       }
     })"

text \<open>With a server given, the arrival is the first one for its name and first address.\<close>

definition asks_server :: "server \<Rightarrow> arrival \<Rightarrow> bool option" where
  "asks_server srv temp = do {
     c \<leftarrow> namecmp (ns_name_n srv) (ns_name_n (ea_ns temp));
     if c \<noteq> 0 then Some False
     else if ns_address srv = [] \<or> length (ns_address (ea_ns temp)) \<le> ea_which_address temp then None
     else Some (hd (ns_address srv) = ns_address (ea_ns temp) ! ea_which_address temp)
   }"

fun fallback_server :: "environment \<Rightarrow> server \<Rightarrow> bool \<Rightarrow> arrival list \<Rightarrow> timeval option \<Rightarrow> io \<Rightarrow>
    (int \<times> arrival list \<times> timeval option \<times> io) option" where
  "fallback_server E srv before [] closest_event io = Some (-1, [], closest_event, io)"
| "fallback_server E srv before (temp # rest) closest_event io = do {
     m \<leftarrow> asks_server srv temp;
     if m then do {
       (r, temp, rest, closest_event, io) \<leftarrow> fallback_arrival E before temp rest closest_event io;
       Some (r, temp # rest, closest_event, io)
     }
     else do {
       (r, rest, closest_event, io) \<leftarrow> fallback_server E srv (before \<and> res_io_is_finished temp) rest closest_event io;
       Some (r, temp # rest, closest_event, io)
     }
   }"

definition res_nsfallback_ea :: "environment \<Rightarrow> arrival list \<Rightarrow> timeval option \<Rightarrow> server option \<Rightarrow> io \<Rightarrow>
    (int \<times> arrival list \<times> timeval option \<times> io) option" where
  "res_nsfallback_ea E eas closest_event srv io = (case eas of [] \<Rightarrow> Some (-1, [], closest_event, io)
     | temp # rest \<Rightarrow> (case srv of Some s \<Rightarrow> fallback_server E s True eas closest_event io
       | None \<Rightarrow> do {
           (r, temp, rest, closest_event, io) \<leftarrow> fallback_arrival E True temp rest closest_event io;
           Some (r, temp # rest, closest_event, io)
         }))"

subsection \<open>Checking what is due\<close>

definition res_io_next_address :: "environment \<Rightarrow> arrival \<Rightarrow> arrival list \<Rightarrow> io \<Rightarrow> arrival \<times> arrival list \<times> io" where
  "res_io_next_address E ea rest io =
     (if int (ea_which_address ea) < int (length (ns_address (ea_ns ea))) - 1 then
        let (ea, io) = close_socket ea io;
            ea = ea\<lparr> ea_which_address := ea_which_address ea + 1, ea_remaining_attempts := ns_retry (ea_ns ea) + 1 \<rparr>;
            (ea, io) = set_alarms E 0 (res_get_timeout (ea_ns ea)) ea io in (ea, rest, io)
      else let (ea, io) = res_io_cancel_source E ea io in
        case rest of [] \<Rightarrow> (ea, [], io)
        | next_server # others \<Rightarrow>
            if ea_remaining_attempts next_server \<noteq> 0 \<and> ea_socket next_server = None then
              let (next_server, others, io) = reset_timeouts E next_server others io in (ea, next_server # others, io)
            else (ea, rest, io))"

text \<open>Sending goes on with the next address while it fails.\<close>

lemma send_keeps:
  "res_io_send E ea io = Some (rc, ea', io') \<Longrightarrow> ea_ns ea' = ea_ns ea \<and> ea_which_address ea' = ea_which_address ea"
  by (auto simp: res_io_send_def open_and_send_def send_bytes_def send_failed_def res_io_retry_source_def res_io_reset_source_def
      close_socket_def set_alarms_def gettimeofday_def Let_def split: if_splits sent.splits option.splits)

lemma next_address_moves:
  assumes "res_io_next_address E ea rest io = (ea', rest', io')"
  shows "ea_remaining_attempts ea' = -1 \<or>
    ea_which_address ea' = ea_which_address ea + 1 \<and> ea_which_address ea' < length (ns_address (ea_ns ea')) \<and> ea_ns ea' = ea_ns ea"
  using assms by (auto simp: res_io_next_address_def res_io_cancel_source_def close_socket_def set_alarms_def gettimeofday_def Let_def
      split: if_splits option.splits list.splits prod.splits)

definition addresses_left :: "arrival \<Rightarrow> nat" where
  "addresses_left ea = length (ns_address (ea_ns ea)) - ea_which_address ea"

function send_loop :: "environment \<Rightarrow> arrival \<Rightarrow> arrival list \<Rightarrow> io \<Rightarrow> (arrival \<times> arrival list \<times> io) option" where
  "send_loop E ea rest io =
     (if ea_remaining_attempts ea = -1 then Some (ea, rest, io)
      else do {
        (rc, ea', io) \<leftarrow> res_io_send E ea io;
        if rc = SR_IO_SOCKET_ERROR
        then case res_io_next_address E ea' rest io of (ea'', rest, io) \<Rightarrow> send_loop E ea'' rest io
        else Some (ea', rest, io)
      })"
  by pat_completeness auto
termination
  by (relation "measure (\<lambda>(E, ea, rest, io). if ea_remaining_attempts ea = -1 then 0 else 1 + addresses_left ea)")
    (auto simp: addresses_left_def split: prod.split dest!: send_keeps dest: next_address_moves)

declare send_loop.simps [simp del]

text \<open>
  One turn of the loop of \<open>res_io_check_ea_list\<close>, for an arrival that is not finished: what its time is up for, then what is due.
  The first component of the answer is what is added to \<open>net_change\<close>.
\<close>

definition is_over :: "timeval \<Rightarrow> arrival \<Rightarrow> bool" where
  "is_over now ea \<longleftrightarrow> LTEQ (ea_cancel_time ea) now \<or> ea_remaining_attempts ea = 0 \<and> LTEQ (ea_next_try ea) now"

definition check_arrival :: "environment \<Rightarrow> timeval \<Rightarrow> timeval option \<Rightarrow> arrival \<Rightarrow> arrival list \<Rightarrow> io \<Rightarrow>
    (int \<times> arrival \<times> arrival list \<times> timeval option \<times> io) option" where
  "check_arrival E now next_evt ea rest io =
     (if is_over now ea then do {
        let change = (if ea_socket ea \<noteq> None then -1 else 0);
        (r, ea, rest, next_evt, io) \<leftarrow> fallback_arrival E True ea rest next_evt io;
        let (ea, rest, io) = (if r \<noteq> 1 then res_io_next_address E ea rest io else (ea, rest, io));
        Some (change, ea, rest, next_evt, io)
      }
      else if LTEQ (ea_next_try ea) now then do {
        (ea', rest, io) \<leftarrow> send_loop E ea rest io;
        Some (if ea_socket ea = None \<and> ea_socket ea' \<noteq> None then 1 else 0, ea', rest, next_evt, io)
      }
      else Some (0, ea, rest, next_evt, io))"

definition note_event :: "timeval option \<Rightarrow> arrival \<Rightarrow> timeval option option" where
  "note_event next_evt ea = (if ea_remaining_attempts ea = -1 \<or> next_evt = None then Some next_evt
     else do { e \<leftarrow> UPDATE next_evt (ea_cancel_time ea); UPDATE e (ea_next_try ea) })"

lemma fallback_length: "fallback_arrival E b ea rest ev io = Some (r, ea', rest', ev', io') \<Longrightarrow> length rest' = length rest"
  by (auto simp: fallback_arrival_def reset_timeouts_def set_alarms_def gettimeofday_def Let_def
      split: Option.bind_splits if_splits list.splits prod.splits)

lemma next_address_length: "res_io_next_address E ea rest io = (ea', rest', io') \<Longrightarrow> length rest' = length rest"
  by (auto simp: res_io_next_address_def reset_timeouts_def set_alarms_def gettimeofday_def Let_def
      split: if_splits list.splits prod.splits)

lemma send_loop_length: "send_loop E ea rest io = Some (ea', rest', io') \<Longrightarrow> length rest' = length rest"
proof (induction E ea rest io rule: send_loop.induct)
  case (1 E ea rest io)
  note run = 1(2) [unfolded send_loop.simps [of E ea rest io]]
  show ?case
  proof (cases "ea_remaining_attempts ea = -1")
    case False
    with run obtain rc ea1 io1 where s: "res_io_send E ea io = Some (rc, ea1, io1)" by (auto split: Option.bind_splits)
    obtain ea2 rest2 io2 where n: "res_io_next_address E ea1 rest io1 = (ea2, rest2, io2)" by (cases "res_io_next_address E ea1 rest io1")
    show ?thesis
    proof (cases "rc = SR_IO_SOCKET_ERROR")
      case True
      with run False s n have "send_loop E ea2 rest2 io2 = Some (ea', rest', io')" by simp
      from 1(1) [OF False s _ _ True _ _ this] n next_address_length [OF n] show ?thesis by simp
    qed (use run False s in simp)
  qed (use run in simp)
qed

lemma check_arrival_length: "check_arrival E now ev ea rest io = Some (d, ea', rest', ev', io') \<Longrightarrow> length rest' = length rest"
  by (auto simp: check_arrival_def Let_def split: if_splits Option.bind_splits prod.splits
      dest!: fallback_length next_address_length send_loop_length)

text \<open>The loop; the last components of the answer are \<open>net_change\<close> and the number of arrivals that are not finished.\<close>

function check_loop :: "environment \<Rightarrow> timeval \<Rightarrow> timeval option \<Rightarrow> arrival list \<Rightarrow> io \<Rightarrow>
    (arrival list \<times> timeval option \<times> io \<times> int \<times> nat) option" where
  "check_loop E now next_evt [] io = Some ([], next_evt, io, 0, 0)"
| "check_loop E now next_evt (ea # rest) io =
     (if ea_remaining_attempts ea = -1 then do {
        (rest, next_evt, io, net_change, remaining) \<leftarrow> check_loop E now next_evt rest io;
        Some (ea # rest, next_evt, io, net_change, remaining)
      }
      else do {
        (d, ea, rest, next_evt, io) \<leftarrow> check_arrival E now next_evt ea rest io;
        next_evt \<leftarrow> note_event next_evt ea;
        (rest, next_evt, io, net_change, remaining) \<leftarrow> check_loop E now next_evt rest io;
        Some (ea # rest, next_evt, io, d + net_change, remaining + (if ea_remaining_attempts ea = -1 then 0 else 1))
      })"
  by pat_completeness auto
termination
  by (relation "measure (\<lambda>(E, now, ev, eas, io). length eas)") (auto dest!: check_arrival_length)

definition res_io_check_ea_list :: "environment \<Rightarrow> arrival list \<Rightarrow> timeval option \<Rightarrow> timeval option \<Rightarrow> io \<Rightarrow>
    (srio \<times> arrival list \<times> timeval option \<times> io \<times> int \<times> nat) option" where
  "res_io_check_ea_list E eas next_evt now io = do {
     let (now, io) = (case now of None \<Rightarrow> gettimeofday E io | Some t \<Rightarrow> (t, io));
     (eas, next_evt, io, net_change, remaining) \<leftarrow> check_loop E now next_evt eas io;
     let io = (if next_evt = None then io else snd (gettimeofday E io));
     Some (if 0 < remaining then SR_IO_UNSET else SR_IO_NO_ANSWER, eas, next_evt, io, net_change, remaining)
   }"

subsection \<open>Transactions\<close>

text \<open>The table of transactions; a null pointer in it is the empty list.\<close>

record manager =
  transactions :: "nat \<Rightarrow> arrival list"
  next_transaction :: nat
  manager_io :: io

definition MAX_TRANSACTIONS :: nat where
  "MAX_TRANSACTIONS = 128"

definition check_one_tid :: "environment \<Rightarrow> nat \<Rightarrow> timeval option \<Rightarrow> timeval option \<Rightarrow> manager \<Rightarrow>
    (bool \<times> timeval option \<times> manager) option" where
  "check_one_tid E tid next_evt now m =
     (if transactions m tid = [] then Some (False, next_evt, m)
      else do {
        (_, eas, next_evt, io, _, active) \<leftarrow> res_io_check_ea_list E (transactions m tid) next_evt now (manager_io m);
        Some (0 < active, next_evt, m\<lparr> transactions := (transactions m)(tid := eas), manager_io := io \<rparr>)
      })"

fun check_others :: "environment \<Rightarrow> timeval \<Rightarrow> nat list \<Rightarrow> timeval option \<Rightarrow> manager \<Rightarrow> (timeval option \<times> manager) option" where
  "check_others E now [] next_evt m = Some (next_evt, m)"
| "check_others E now (i # is) next_evt m = do {
     (_, next_evt, m) \<leftarrow> check_one_tid E i next_evt (Some now) m;
     check_others E now is next_evt m
   }"

definition res_io_check :: "environment \<Rightarrow> int \<Rightarrow> manager \<Rightarrow> (bool \<times> timeval option \<times> manager) option" where
  "res_io_check E transaction_id m =
     (if transaction_id < 0 \<or> int MAX_TRANSACTIONS \<le> transaction_id then Some (False, None, m)
      else do {
        let (tv, io) = gettimeofday E (manager_io m);
        (next_evt, m) \<leftarrow> check_others E tv (filter (\<lambda>i. int i \<noteq> transaction_id) [0..<MAX_TRANSACTIONS]) (Some (0, 0)) (m\<lparr> manager_io := io \<rparr>);
        check_one_tid E (nat transaction_id) next_evt (Some tv) m
      })"

text \<open>\<open>res_io_queue_ea\<close>: the first free place from \<open>next_transaction\<close> on, around the table.\<close>

definition free_transaction :: "manager \<Rightarrow> nat option" where
  "free_transaction m = List.find (\<lambda>i. transactions m i = [])
     (map (\<lambda>k. (next_transaction m + k) mod MAX_TRANSACTIONS) [0..<MAX_TRANSACTIONS])"

definition res_io_queue_ea :: "int \<Rightarrow> arrival list \<Rightarrow> manager \<Rightarrow> srio \<times> int \<times> manager" where
  "res_io_queue_ea transaction_id new_ea m =
     (case (if transaction_id = -1 then map_option (\<lambda>i. (i, (i + 1) mod MAX_TRANSACTIONS)) (free_transaction m)
            else Some (nat transaction_id, next_transaction m)) of
        None \<Rightarrow> (SR_IO_TOO_MANY_TRANS, transaction_id, m)
      | Some (i, n) \<Rightarrow> (SR_IO_UNSET, int i,
          m\<lparr> transactions := (transactions m)(i := transactions m i @ new_ea), next_transaction := n \<rparr>))"

text \<open>Closing every socket of a list is what is left of freeing it.\<close>

fun res_free_ea_list :: "arrival list \<Rightarrow> io \<Rightarrow> io" where
  "res_free_ea_list [] io = io"
| "res_free_ea_list (ea # eas) io = res_free_ea_list eas (snd (close_socket ea io))"

definition res_cancel :: "int \<Rightarrow> manager \<Rightarrow> int \<times> manager" where
  "res_cancel transaction_id m =
     (if transaction_id = -1 then (-1, m)
      else let i = nat transaction_id in
        (-1, m\<lparr> transactions := (transactions m)(i := []), manager_io := res_free_ea_list (transactions m i) (manager_io m) \<rparr>))"

definition res_io_cancel_all :: "manager \<Rightarrow> manager" where
  "res_io_cancel_all m = foldl (\<lambda>m i. snd (res_cancel (int i) m)) m [0..<MAX_TRANSACTIONS]"

subsection \<open>Answers\<close>

text \<open>\<open>clone_ns_tsig\<close>; no memory has a length that came from -1, so there is no copy of such a key.\<close>

definition clone_ns_tsig :: "tsig option \<Rightarrow> tsig option option" where
  "clone_ns_tsig t = (case t of None \<Rightarrow> Some None
     | Some t \<Rightarrow> if 2 ^ 63 \<le> unat (ts_keylen t) then Some None
         else do { k \<leftarrow> seg (ts_key t) 0 (unat (ts_keylen t)); Some (Some (t\<lparr> ts_key := k \<rparr>)) })"

definition clone_server :: "server \<Rightarrow> server option" where
  "clone_server ns = do {
     name_len \<leftarrow> wire_name_length (ns_name_n ns);
     name \<leftarrow> seg (ns_name_n ns) 0 name_len;
     t \<leftarrow> clone_ns_tsig (ns_tsig ns);
     Some (ns\<lparr> ns_name_n := name, ns_tsig := t \<rparr>)
   }"

fun clone_server_list :: "server list \<Rightarrow> server list option" where
  "clone_server_list [] = Some []"
| "clone_server_list (ns # nss) = do { c \<leftarrow> clone_server ns; cs \<leftarrow> clone_server_list nss; Some (c # cs) }"

definition clone_respondent :: "arrival \<Rightarrow> server option" where
  "clone_respondent ea = (let ns = ea_ns ea in do {
     r \<leftarrow> clone_server (if 1 < length (ns_address ns) then ns\<lparr> ns_address := take 1 (ns_address ns) \<rparr> else ns);
     if ea_which_address ea = 0 then Some r
     else if ns_address r = [] \<or> length (ns_address ns) \<le> ea_which_address ea then None
     else Some (r\<lparr> ns_address := [ns_address ns ! ea_which_address ea] \<rparr>)
   })"

text \<open>
  \<open>res_io_get_a_response\<close>. The answer is the return code, the message, the respondent and the arrivals. A message that fails
  the checks is dropped, its server is the respondent and the loop goes on.
\<close>

fun get_response_loop :: "environment \<Rightarrow> srio \<Rightarrow> server option \<Rightarrow> arrival list \<Rightarrow> io \<Rightarrow>
    (srio \<times> nat \<times> byte list option \<times> server option \<times> arrival list \<times> io) option" where
  "get_response_loop E retval respondent [] io = Some (retval, 0, None, respondent, [], io)"
| "get_response_loop E retval respondent (ea # eas) io = (let more = (if ea_remaining_attempts ea \<noteq> -1 then 1 else 0) in
     case ea_response ea of
       None \<Rightarrow> do {
         (rc, retries, ans, respondent, eas, io) \<leftarrow> get_response_loop E retval respondent eas io;
         Some (rc, retries + more, ans, respondent, ea # eas, io)
       }
     | Some msg \<Rightarrow> do {
         (rc, msg) \<leftarrow> res_response_checks respondent msg (ea_response_length ea);
         r \<leftarrow> clone_respondent ea;
         if rc = SR_NO_ERROR then
           Some (SR_IO_GOT_ANSWER, more, Some (take (ea_response_length ea) msg), Some r, ea\<lparr> ea_response := None, ea_response_length := 0 \<rparr> # eas, io)
         else do {
           let ea = ea\<lparr> ea_response := None, ea_response_length := 0 \<rparr>;
           let (ea, io) = close_socket ea io;
           let (ea, io) = set_alarms E 0 (res_get_timeout (ea_ns ea)) ea io;
           (rc, retries, ans, respondent, eas, io) \<leftarrow> get_response_loop E SR_IO_NO_ANSWER (Some r) eas io;
           Some (rc, retries + more, ans, respondent, ea # eas, io)
         }
       })"

definition res_io_get_a_response :: "environment \<Rightarrow> server option \<Rightarrow> arrival list \<Rightarrow> io \<Rightarrow>
    (srio \<times> byte list option \<times> server option \<times> arrival list \<times> io) option" where
  "res_io_get_a_response E respondent eas io = do {
     (rc, retries, ans, respondent, eas, io) \<leftarrow> get_response_loop E SR_IO_UNSET respondent eas io;
     Some (if rc \<noteq> SR_IO_GOT_ANSWER \<and> retries = 0 then SR_IO_NO_ANSWER else rc, ans, respondent, eas, io)
   }"

text \<open>\<open>complete_read\<close>: what has been read when it stops, which is less than was asked for after an error.\<close>

definition next_recv :: "environment \<Rightarrow> io \<Rightarrow> recv_result \<times> io" where
  "next_recv E io = (ev_recv E (io_recvs io), io\<lparr> io_recvs := io_recvs io + 1 \<rparr>)"

function complete_read :: "environment \<Rightarrow> nat \<Rightarrow> byte list \<Rightarrow> io \<Rightarrow> byte list \<times> io" where
  "complete_read E n field io = (let (r, io) = next_recv E io in
     case r of Recv _ bs \<Rightarrow>
         (let got = take (n - length field) bs in
          if length (field @ got) < n \<and> got \<noteq> [] then complete_read E n (field @ got) io else (field @ got, io))
     | _ \<Rightarrow> (field, io))"
  by pat_completeness auto
termination
  by (relation "measure (\<lambda>(E, n, field, io). n - length field)") (auto simp: neq_Nil_conv)

declare complete_read.simps [simp del]

definition read_failed :: "environment \<Rightarrow> arrival \<Rightarrow> io \<Rightarrow> srio \<times> arrival \<times> io" where
  "read_failed E ea io = (let (ea, io) = res_io_reset_source E ea io in (SR_IO_SOCKET_ERROR, ea, io))"

definition res_io_read_tcp :: "environment \<Rightarrow> arrival \<Rightarrow> io \<Rightarrow> (srio \<times> arrival \<times> io) option" where
  "res_io_read_tcp E arrival io = (let (len_n, io) = complete_read E 2 [] io in
     if length len_n \<noteq> 2 then Some (read_failed E arrival io)
     else do {
       w \<leftarrow> get16 len_n 0;
       let len_h = unat w;
       if len_h = 0 then let (ea, io) = res_io_retry_source E arrival io in Some (SR_IO_MEMORY_ERROR, ea\<lparr> ea_response := None \<rparr>, io)
       else let (msg, io) = complete_read E len_h [] io in
         if length msg \<noteq> len_h then Some (read_failed E (arrival\<lparr> ea_response := None, ea_response_length := 0 \<rparr>) io)
         else Some (SR_IO_UNSET, arrival\<lparr> ea_response := Some msg, ea_response_length := len_h \<rparr>, io)
     })"

text \<open>
  \<open>res_io_read_udp\<close>: the buffer has 8192 bytes that are zero behind what was received.
\<close>

definition res_io_read_udp :: "environment \<Rightarrow> arrival \<Rightarrow> io \<Rightarrow> (srio \<times> arrival \<times> io) option" where
  "res_io_read_udp E arrival io =
     (if ea_response arrival \<noteq> None then Some (SR_IO_UNSET, arrival, io)
      else let (r, io) = next_recv E io in
        case r of Would_block \<Rightarrow> Some (SR_IO_SOCKET_ERROR, arrival\<lparr> ea_response_length := 0 \<rparr>, io)
        | Recv_failed \<Rightarrow> Some (read_failed E (arrival\<lparr> ea_response_length := 0 \<rparr>) io)
        | Recv from bs \<Rightarrow>
            if bs = [] then Some (read_failed E (arrival\<lparr> ea_response_length := 0 \<rparr>) io)
            else if length (ns_address (ea_ns arrival)) \<le> ea_which_address arrival then None
            else if \<not> from then Some (read_failed E (arrival\<lparr> ea_response_length := 0 \<rparr>) io)
            else let got = take 8192 bs in
              Some (SR_IO_UNSET, arrival\<lparr> ea_response := Some (got @ replicate (8192 - length got) 0), ea_response_length := length got \<rparr>, io))"

definition res_switch_to_tcp :: "environment \<Rightarrow> arrival \<Rightarrow> io \<Rightarrow> arrival \<times> io" where
  "res_switch_to_tcp E ea io = (let ea = ea\<lparr> ea_response := None, ea_response_length := 0, ea_using_stream := True \<rparr>;
     (ea, io) = close_socket ea io in
     set_alarms E 0 (res_get_timeout (ea_ns ea)) (ea\<lparr> ea_remaining_attempts := ns_retry (ea_ns ea) + 1 \<rparr>) io)"

fun res_switch_all_to_tcp :: "arrival list \<Rightarrow> io \<Rightarrow> arrival list \<times> io" where
  "res_switch_all_to_tcp [] io = ([], io)"
| "res_switch_all_to_tcp (ea # eas) io = (let (ea, io) = close_socket (ea\<lparr> ea_response := None, ea_response_length := 0, ea_using_stream := True \<rparr>) io;
     (eas, io) = res_switch_all_to_tcp eas io in (ea # eas, io))"

text \<open>\<open>res_io_read\<close>, for the descriptors \<open>fds\<close> that are readable: the tests of one message, then the loop.\<close>

definition is_expected :: "byte list \<Rightarrow> byte list \<Rightarrow> bool option" where
  "is_expected query response = do {
     q \<leftarrow> seg query 0 2;
     r \<leftarrow> seg response 0 2;
     if q \<noteq> r then Some False
     else do { c \<leftarrow> res_quecmp query response; Some (c = 0) }
   }"

definition read_arrival :: "environment \<Rightarrow> arrival \<Rightarrow> io \<Rightarrow> (arrival \<times> io) option" where
  "read_arrival E arrival io = do {
     (rc, arrival, io) \<leftarrow> (if ea_using_stream arrival then res_io_read_tcp E arrival io else res_io_read_udp E arrival io);
     if rc \<noteq> SR_IO_UNSET then Some (arrival, io)
     else do {
       response \<leftarrow> ea_response arrival;
       ok \<leftarrow> is_expected (ea_signed arrival) response;
       if \<not> ok then do { _ \<leftarrow> rd response 3; Some (arrival\<lparr> ea_response := None, ea_response_length := 0 \<rparr>, io) }
       else if ea_using_stream arrival then Some (arrival, io)
       else do {
         b2 \<leftarrow> rd response 2;
         Some (if b2 AND 2 \<noteq> 0 then res_switch_to_tcp E arrival io else (arrival, io))
       }
     }
   }"

fun res_io_read :: "environment \<Rightarrow> nat list \<Rightarrow> arrival list \<Rightarrow> io \<Rightarrow> (nat \<times> nat list \<times> arrival list \<times> io) option" where
  "res_io_read E fds [] io = Some (0, fds, [], io)"
| "res_io_read E fds (ea # eas) io = (case ea_socket ea of
     Some fd \<Rightarrow>
       if ea_remaining_attempts ea = -1 \<or> fd \<notin> set fds then do {
         (handled, fds, eas, io) \<leftarrow> res_io_read E fds eas io; Some (handled, fds, ea # eas, io) }
       else do {
         (ea, io) \<leftarrow> read_arrival E ea io;
         (handled, fds, eas, io) \<leftarrow> res_io_read E (removeAll fd fds) eas io;
         Some (handled + 1, fds, ea # eas, io)
       }
   | None \<Rightarrow> do { (handled, fds, eas, io) \<leftarrow> res_io_read E fds eas io; Some (handled, fds, ea # eas, io) })"

text \<open>\<open>res_io_select_info\<close>: the descriptors to wait for, the number above them, and the time to wait until.\<close>

fun res_io_select_info :: "arrival list \<Rightarrow> nat \<Rightarrow> nat list \<Rightarrow> timeval option \<Rightarrow> (nat \<times> nat list \<times> timeval option) option" where
  "res_io_select_info [] nfds fds tmo = Some (nfds, fds, tmo)"
| "res_io_select_info (ea # eas) nfds fds tmo = (let note = (if tmo = None then Some None
       else do { e \<leftarrow> UPDATE tmo (ea_cancel_time ea); UPDATE e (ea_next_try ea) }) in
     case ea_socket ea of
       Some fd \<Rightarrow>
         if ea_remaining_attempts ea = -1 then res_io_select_info eas nfds fds tmo
         else if fd \<in> set fds then res_io_select_info eas nfds fds tmo
         else do { t \<leftarrow> note; res_io_select_info eas (if nfds \<le> fd then fd + 1 else nfds) (fds @ [fd]) t }
     | None \<Rightarrow>
         if 0 < ea_remaining_attempts ea then do { t \<leftarrow> note; res_io_select_info eas nfds fds t }
         else res_io_select_info eas nfds fds tmo)"

definition res_io_select_sockets :: "environment \<Rightarrow> nat list \<Rightarrow> io \<Rightarrow> nat list option \<times> io" where
  "res_io_select_sockets E fds io = (if fds = [] then (Some [], io)
     else (map_option (filter (\<lambda>fd. fd \<in> set fds)) (ev_ready E (io_selects io)), io\<lparr> io_selects := io_selects io + 1 \<rparr>))"

text \<open>\<open>res_io_accept\<close>. A failed \<open>select\<close> is an error; with nothing readable the descriptors and the next event are handed out.\<close>

definition res_io_accept :: "environment \<Rightarrow> int \<Rightarrow> nat list \<Rightarrow> timeval option \<Rightarrow> manager \<Rightarrow>
    (srio \<times> byte list option \<times> server option \<times> nat list \<times> timeval option \<times> manager) option" where
  "res_io_accept E tid pending closest_event m = do {
     (active, next_event, m) \<leftarrow> res_io_check E tid m;
     if \<not> active then Some (SR_IO_NO_ANSWER, None, None, pending, closest_event, m)
     else do {
       let put = (\<lambda>eas io m. m\<lparr> transactions := (transactions m)(nat tid := eas), manager_io := io \<rparr>);
       (rc, ans, respondent, eas, io) \<leftarrow> res_io_get_a_response E None (transactions m (nat tid)) (manager_io m);
       let m = put eas io m;
       if rc = SR_IO_GOT_ANSWER then Some (rc, ans, respondent, pending, closest_event, m)
       else do {
         (_, fds, _) \<leftarrow> res_io_select_info eas 0 [] None;
         let (ready, io) = res_io_select_sockets E fds io;
         let m = m\<lparr> manager_io := io \<rparr>;
         case ready of None \<Rightarrow> Some (SR_IO_SOCKET_ERROR, None, respondent, pending, closest_event, m)
         | Some [] \<Rightarrow> do {
             (_, pending, _) \<leftarrow> res_io_select_info eas 0 pending None;
             t \<leftarrow> next_event;
             closest_event \<leftarrow> UPDATE closest_event t;
             Some (SR_IO_NO_ANSWER_YET, None, respondent, pending, closest_event, m)
           }
         | Some fds \<Rightarrow> do {
             (_, _, eas, io) \<leftarrow> res_io_read E fds eas io;
             (rc, ans, respondent, eas, io) \<leftarrow> res_io_get_a_response E respondent eas io;
             Some (if rc = SR_IO_UNSET then SR_IO_NO_ANSWER_YET else if rc = SR_IO_NO_ANSWER then SR_IO_NO_ANSWER else SR_IO_GOT_ANSWER,
               ans, respondent, pending, closest_event, put eas io m)
           }
       }
     }
   }"

subsection \<open>Queries to several servers\<close>

text \<open>
  \<open>res_async_query_create\<close>: an arrival for every server, a second apart. Only the answer for the last payload is looked at in
  the end: when that could not be made, there is no query.
\<close>

fun create_arrivals :: "environment \<Rightarrow> byte list \<Rightarrow> u16 \<Rightarrow> u16 \<Rightarrow> server list \<Rightarrow> int \<Rightarrow> bool \<Rightarrow> io \<Rightarrow>
    (bool \<times> arrival list \<times> io) option" where
  "create_arrivals E name type_h class_h [] delay ok io = Some (ok, [], io)"
| "create_arrivals E name type_h class_h (ns # nss) delay ok io = do {
     (p, io) \<leftarrow> payload_for E ns name class_h type_h io;
     let (ea, io) = res_ea_init E name type_h class_h (case p of None \<Rightarrow> [] | Some q \<Rightarrow> q) ns delay io;
     (ok, eas, io) \<leftarrow> create_arrivals E name type_h class_h nss (delay + 1) (p \<noteq> None) io;
     Some (ok, ea # eas, io)
   }"

definition res_async_query_create :: "environment \<Rightarrow> byte list \<Rightarrow> u16 \<Rightarrow> u16 \<Rightarrow> server list \<Rightarrow> io \<Rightarrow> (arrival list \<times> io) option" where
  "res_async_query_create E name type_h class_h pref_ns io =
     (if name = [] \<or> pref_ns = [] then Some ([], io)
      else do {
        ns_list \<leftarrow> clone_server_list pref_ns;
        (ok, head, io) \<leftarrow> create_arrivals E name type_h class_h ns_list 0 True io;
        Some (if ok then (head, io) else ([], res_free_ea_list head io))
      })"

definition res_async_query_send :: "environment \<Rightarrow> byte list \<Rightarrow> u16 \<Rightarrow> u16 \<Rightarrow> server list \<Rightarrow> io \<Rightarrow> (arrival list \<times> io) option" where
  "res_async_query_send E name type_h class_h pref_ns io = do {
     (head, io) \<leftarrow> res_async_query_create E name type_h class_h pref_ns io;
     if head = [] then Some ([], io)
     else do { (_, head, _, io, _, _) \<leftarrow> res_io_check_ea_list E head None None io; Some (head, io) }
   }"

datatype handled = H_NO_ANSWER | H_UNSET | H_NO_ANSWER_YET

fun handled_status :: "handled \<Rightarrow> arrival list \<Rightarrow> handled" where
  "handled_status ret [] = ret"
| "handled_status ret (ea # eas) =
     (if ea_remaining_attempts ea = -1 then handled_status ret eas
      else if ea_response ea \<noteq> None then H_UNSET
      else handled_status (if ea_socket ea \<noteq> None then H_NO_ANSWER_YET else ret) eas)"

definition res_async_query_handle :: "environment \<Rightarrow> nat list \<Rightarrow> arrival list \<Rightarrow> io \<Rightarrow> (handled \<times> nat \<times> nat list \<times> arrival list \<times> io) option" where
  "res_async_query_handle E fds eas io = do {
     (n, fds, eas, io) \<leftarrow> res_io_read E fds eas io;
     Some (handled_status H_NO_ANSWER eas, n, fds, eas, io)
   }"

definition res_async_ea_isset :: "arrival list \<Rightarrow> nat list \<Rightarrow> bool" where
  "res_async_ea_isset eas fds \<longleftrightarrow> list_ex (\<lambda>ea. case ea_socket ea of None \<Rightarrow> False | Some fd \<Rightarrow> fd \<in> set fds) eas"

definition res_async_ea_count_active :: "arrival list \<Rightarrow> nat" where
  "res_async_ea_count_active eas = length (filter (\<lambda>ea. ea_remaining_attempts ea \<noteq> -1 \<and> ea_socket ea \<noteq> None) eas)"

definition query_queue :: "environment \<Rightarrow> byte list \<Rightarrow> u16 \<Rightarrow> u16 \<Rightarrow> server list \<Rightarrow> manager \<Rightarrow> (bool \<times> int \<times> manager) option" where
  "query_queue E name type_h class_h pref_ns m = do {
     (ea, io) \<leftarrow> res_async_query_create E name type_h class_h pref_ns (manager_io m);
     if ea = [] then Some (False, -1, m\<lparr> manager_io := io \<rparr>)
     else let (rc, tid, m) = res_io_queue_ea (-1) ea (m\<lparr> manager_io := io \<rparr>) in Some (rc = SR_IO_UNSET, tid, m)
   }"

definition response_recv :: "environment \<Rightarrow> int \<Rightarrow> nat list \<Rightarrow> timeval option \<Rightarrow> manager \<Rightarrow>
    (srio \<times> byte list option \<times> server option \<times> nat list \<times> timeval option \<times> manager) option" where
  "response_recv E tid pending closest_event m = res_io_accept E tid pending closest_event m"

subsection \<open>Sockets are counted\<close>

text \<open>
  \<open>accounted\<close> relates what an operation does to the sockets of its arrivals and to the count of the library: both change alike,
  and the count does not pass the limit.
\<close>

definition sock :: "arrival \<Rightarrow> int" where
  "sock ea = (if ea_socket ea = None then 0 else 1)"

definition sockets :: "arrival list \<Rightarrow> int" where
  "sockets eas = (\<Sum>ea \<leftarrow> eas. sock ea)"

lemma sockets_simps [simp]:
  "sockets [] = 0" "sockets (ea # eas) = sock ea + sockets eas" "sockets (eas @ eas') = sockets eas + sockets eas'"
  by (simp_all add: sockets_def)

lemma sock_simps [simp]:
  "sock (ea\<lparr> ea_next_try := t \<rparr>) = sock ea" "sock (ea\<lparr> ea_cancel_time := t \<rparr>) = sock ea" "sock (ea\<lparr> ea_remaining_attempts := n \<rparr>) = sock ea"
  "sock (ea\<lparr> ea_ns := ns \<rparr>) = sock ea" "sock (ea\<lparr> ea_signed := q \<rparr>) = sock ea" "sock (ea\<lparr> ea_which_address := i \<rparr>) = sock ea"
  "sock (ea\<lparr> ea_response := r \<rparr>) = sock ea" "sock (ea\<lparr> ea_response_length := k \<rparr>) = sock ea" "sock (ea\<lparr> ea_using_stream := b \<rparr>) = sock ea"
  "sock (ea\<lparr> ea_socket := None \<rparr>) = 0" "sock (ea\<lparr> ea_socket := Some fd \<rparr>) = 1" "ea_socket ea = None \<Longrightarrow> sock ea = 0"
  by (simp_all add: sock_def)

lemma sock_nonneg: "0 \<le> sock ea"
  by (simp add: sock_def)

lemma sockets_nonneg: "0 \<le> sockets eas"
  by (induction eas) (simp_all add: sock_nonneg add_nonneg_nonneg)

definition accounted :: "environment \<Rightarrow> int \<Rightarrow> io \<Rightarrow> int \<Rightarrow> io \<Rightarrow> bool" where
  "accounted E n io n' io' \<longleftrightarrow> io_open io' - n' = io_open io - n \<and>
     (io_max io = 0 \<or> io_max io = init_max_fd (ev_rlimit E) \<longrightarrow>
       (io_max io' = 0 \<or> io_max io' = init_max_fd (ev_rlimit E)) \<and>
       io_open io' \<le> max (io_open io) (init_max_fd (ev_rlimit E)))"

named_theorems accounts \<open>operations on one arrival keep the account\<close>

lemma accounted_refl [simp]: "accounted E n io n io"
  by (simp add: accounted_def)

lemma accounted_trans: "accounted E n io n1 io1 \<Longrightarrow> accounted E n1 io1 n2 io2 \<Longrightarrow> accounted E n io n2 io2"
  unfolding accounted_def by fastforce

lemma accounted_more: "accounted E n io n' io' \<Longrightarrow> accounted E (n + k) io (n' + k) io'"
  by (simp add: accounted_def)

lemma accounted_before: "accounted E n io n' io' \<Longrightarrow> accounted E (k + n) io (k + n') io'"
  by (simp add: accounted_def)

lemma accounted_io [simp]:
  "accounted E n (io\<lparr> io_ticks := t \<rparr>) n' io' = accounted E n io n' io'" "accounted E n io n' (io'\<lparr> io_ticks := t \<rparr>) = accounted E n io n' io'"
  "accounted E n (io\<lparr> io_draws := t \<rparr>) n' io' = accounted E n io n' io'" "accounted E n io n' (io'\<lparr> io_draws := t \<rparr>) = accounted E n io n' io'"
  "accounted E n (io\<lparr> io_sends := t \<rparr>) n' io' = accounted E n io n' io'" "accounted E n io n' (io'\<lparr> io_sends := t \<rparr>) = accounted E n io n' io'"
  "accounted E n (io\<lparr> io_recvs := t \<rparr>) n' io' = accounted E n io n' io'" "accounted E n io n' (io'\<lparr> io_recvs := t \<rparr>) = accounted E n io n' io'"
  "accounted E n (io\<lparr> io_selects := t \<rparr>) n' io' = accounted E n io n' io'" "accounted E n io n' (io'\<lparr> io_selects := t \<rparr>) = accounted E n io n' io'"
  by (simp_all add: accounted_def)

lemma accounted_gettimeofday: "gettimeofday E io = (t, io') \<Longrightarrow> accounted E n io n io'"
  by (auto simp: gettimeofday_def accounted_def)

lemma accounted_close: "close_socket ea io = (ea', io') \<Longrightarrow> accounted E (sock ea) io (sock ea') io'"
  by (auto simp: close_socket_def accounted_def sock_def split: option.splits)

lemma accounted_alarms: "set_alarms E n c ea io = (ea', io') \<Longrightarrow> accounted E (sock ea) io (sock ea') io'"
  by (auto simp: set_alarms_def gettimeofday_def Let_def)

lemma accounted_sources:
  "res_io_retry_source E ea io = (ea', io') \<Longrightarrow> accounted E (sock ea) io (sock ea') io'"
  "res_io_reset_source E ea io = (ea', io') \<Longrightarrow> accounted E (sock ea) io (sock ea') io'"
  "res_io_cancel_source E ea io = (ea', io') \<Longrightarrow> accounted E (sock ea) io (sock ea') io'"
  by (auto simp: res_io_retry_source_def res_io_reset_source_def res_io_cancel_source_def gettimeofday_def Let_def
      split: prod.splits dest!: accounted_close [where E = E])

lemma init_max_fd_pos: "0 < init_max_fd n"
  by (simp add: init_max_fd_def Let_def)

lemma accounted_send:
  assumes "res_io_send E ea io = Some (rc, ea', io')"
  shows "accounted E (sock ea) io (sock ea') io'"
  using assms init_max_fd_pos [of "ev_rlimit E"]
  by (auto simp: res_io_send_def open_and_send_def send_bytes_def send_failed_def res_io_retry_source_def res_io_reset_source_def
      close_socket_def set_alarms_def gettimeofday_def accounted_def sock_def Let_def split: if_splits sent.splits option.splits)

lemma accounted_shift: "sock (shift_alarms n ea) = sock ea"
  by (simp add: shift_alarms_def)

lemma sockets_shift [simp]: "sockets (map (shift_alarms n) eas) = sockets eas"
  by (induction eas) (simp_all add: accounted_shift)

lemma accounted_reset_timeouts:
  "reset_timeouts E ea rest io = (ea', rest', io') \<Longrightarrow> accounted E (sock ea + sockets rest) io (sock ea' + sockets rest') io'"
  by (auto simp: reset_timeouts_def set_alarms_def gettimeofday_def accounted_shift Let_def split: list.splits if_splits)

lemma accounted_next_address:
  assumes "res_io_next_address E ea rest io = (ea', rest', io')"
  shows "accounted E (sock ea + sockets rest) io (sock ea' + sockets rest') io'"
proof (cases "int (ea_which_address ea) < int (length (ns_address (ea_ns ea))) - 1")
  case True
  obtain ea1 io1 where c: "close_socket ea io = (ea1, io1)" by (cases "close_socket ea io")
  from accounted_more [OF accounted_close [OF c, where E = E], of "sockets rest"] True assms c show ?thesis
    by (auto simp: res_io_next_address_def set_alarms_def gettimeofday_def Let_def)
next
  case False
  obtain ea1 io1 where c: "res_io_cancel_source E ea io = (ea1, io1)" by (cases "res_io_cancel_source E ea io")
  note a = accounted_more [OF accounted_sources(3) [OF c], of "sockets rest"]
  show ?thesis
  proof (cases "rest \<noteq> [] \<and> ea_remaining_attempts (hd rest) \<noteq> 0 \<and> ea_socket (hd rest) = None")
    case True
    then obtain n others where r: "rest = n # others" by (cases rest) auto
    obtain n' others' io2 where t: "reset_timeouts E n others io1 = (n', others', io2)" by (cases "reset_timeouts E n others io1")
    from accounted_before [OF accounted_reset_timeouts [OF t], of "sock ea1"] a assms c t r True False show ?thesis
      by (auto simp: res_io_next_address_def add.assoc intro: accounted_trans)
  qed (use a assms c False in \<open>auto simp: res_io_next_address_def Let_def split: list.splits if_splits\<close>)
qed

lemma sock_lower [simp]: "sock (lower_edns0 ea) = sock ea"
  by (simp add: lower_edns0_def Let_def split: option.splits)

lemma accounted_payload: "payload_for E ns name c t io = Some (p, io') \<Longrightarrow> accounted E n io n io'"
  by (auto simp: payload_for_def split: Option.bind_splits)

lemma accounted_fallback:
  assumes "fallback_arrival E b ea rest ev io = Some (r, ea', rest', ev', io')"
  shows "accounted E (sock ea + sockets rest) io (sock ea' + sockets rest') io'"
proof (cases "ea_remaining_attempts (lower_edns0 ea) \<le> 0")
  case True
  obtain ea1 io1 where c: "res_io_reset_source E (lower_edns0 ea) io = (ea1, io1)" by (cases "res_io_reset_source E (lower_edns0 ea) io")
  from accounted_more [OF accounted_sources(2) [OF c], of "sockets rest"] assms True c show ?thesis
    by (auto simp: fallback_arrival_def Let_def)
next
  case False
  obtain ea1 rest1 io1 where t: "reset_timeouts E (lower_edns0 ea) rest io = (ea1, rest1, io1)"
    by (cases "reset_timeouts E (lower_edns0 ea) rest io")
  note a = accounted_reset_timeouts [OF t, unfolded sock_lower]
  show ?thesis
  proof (cases "ns_edns0_size (ea_ns ea) = 0")
    case True
    with a assms False t show ?thesis by (auto simp: fallback_arrival_def Let_def split: Option.bind_splits)
  next
    case nz: False
    from assms False t nz obtain p io2 where p: "payload_for E (ea_ns ea1) (ea_name ea1) (ea_class_h ea1) (ea_type_h ea1) io1 = Some (p, io2)"
      and c: "close_socket (ea1\<lparr> ea_signed := (case p of None \<Rightarrow> [] | Some q \<Rightarrow> q) \<rparr>) io2 = (ea', io')" "rest' = rest1"
      by (auto simp: fallback_arrival_def Let_def split: Option.bind_splits prod.splits)
    from accounted_more [OF accounted_close [OF c(1), where E = E], of "sockets rest1"]
    have "accounted E (sock ea1 + sockets rest1) io2 (sock ea' + sockets rest') io'" using c(2) by simp
    with accounted_payload [OF p, of "sock ea1 + sockets rest1"] a show ?thesis by (blast intro: accounted_trans)
  qed
qed

lemma accounted_send_loop:
  "send_loop E ea rest io = Some (ea', rest', io') \<Longrightarrow> accounted E (sock ea + sockets rest) io (sock ea' + sockets rest') io'"
proof (induction E ea rest io rule: send_loop.induct)
  case (1 E ea rest io)
  note run = 1(2) [unfolded send_loop.simps [of E ea rest io]]
  show ?case
  proof (cases "ea_remaining_attempts ea = -1")
    case False
    with run obtain rc ea1 io1 where s: "res_io_send E ea io = Some (rc, ea1, io1)" by (auto split: Option.bind_splits)
    note a1 = accounted_more [OF accounted_send [OF s], of "sockets rest"]
    obtain ea2 rest2 io2 where n: "res_io_next_address E ea1 rest io1 = (ea2, rest2, io2)" by (cases "res_io_next_address E ea1 rest io1")
    show ?thesis
    proof (cases "rc = SR_IO_SOCKET_ERROR")
      case True
      with run False s n have "send_loop E ea2 rest2 io2 = Some (ea', rest', io')" by simp
      from 1(1) [OF False s _ _ True _ _ this] n have "accounted E (sock ea2 + sockets rest2) io2 (sock ea' + sockets rest') io'" by simp
      with a1 accounted_next_address [OF n] show ?thesis by (blast intro: accounted_trans)
    qed (use run False s a1 in simp)
  qed (use run in simp)
qed

lemma accounted_check_arrival:
  assumes "check_arrival E now ev ea rest io = Some (d, ea', rest', ev', io')"
  shows "accounted E (sock ea + sockets rest) io (sock ea' + sockets rest') io'"
proof (cases "is_over now ea")
  case True
  with assms obtain r ea1 rest1 io1 where f: "fallback_arrival E True ea rest ev io = Some (r, ea1, rest1, ev', io1)"
    and n: "(if r \<noteq> 1 then res_io_next_address E ea1 rest1 io1 else (ea1, rest1, io1)) = (ea', rest', io')"
    by (auto simp: check_arrival_def Let_def split: Option.bind_splits prod.splits if_splits)
  from n have "accounted E (sock ea1 + sockets rest1) io1 (sock ea' + sockets rest') io'"
    by (auto split: if_splits dest: accounted_next_address)
  with accounted_fallback [OF f] show ?thesis by (blast intro: accounted_trans)
next
  case False
  with assms show ?thesis
    by (auto simp: check_arrival_def split: if_splits Option.bind_splits dest!: accounted_send_loop)
qed

lemma accounted_check_loop:
  "check_loop E now ev eas io = Some (eas', ev', io', d, n) \<Longrightarrow> accounted E (sockets eas) io (sockets eas') io'"
proof (induction E now ev eas io arbitrary: eas' ev' io' d n rule: check_loop.induct)
  case (2 E now ev ea rest io)
  show ?case
  proof (cases "ea_remaining_attempts ea = -1")
    case True
    with 2(3) obtain rest' d' n' where "check_loop E now ev rest io = Some (rest', ev', io', d', n')" "eas' = ea # rest'"
      by (auto split: Option.bind_splits)
    with 2(1) [OF True] show ?thesis by (auto intro: accounted_before)
  next
    case False
    with 2(3) obtain d1 ea1 rest1 ev1 io1 ev2 rest' d' n' where c: "check_arrival E now ev ea rest io = Some (d1, ea1, rest1, ev1, io1)"
      and e: "note_event ev1 ea1 = Some ev2" and l: "check_loop E now ev2 rest1 io1 = Some (rest', ev', io', d', n')" "eas' = ea1 # rest'"
      by (auto split: Option.bind_splits)
    from 2(2) [OF False c _ _ _ _ e l(1)] have "accounted E (sockets rest1) io1 (sockets rest') io'" by simp
    from accounted_before [OF this, of "sock ea1"] accounted_check_arrival [OF c] l(2) show ?thesis
      by (auto intro: accounted_trans)
  qed
qed simp

lemma accounted_check_ea_list:
  "res_io_check_ea_list E eas ev now io = Some (rc, eas', ev', io', d, n) \<Longrightarrow> accounted E (sockets eas) io (sockets eas') io'"
  by (auto simp: res_io_check_ea_list_def gettimeofday_def Let_def split: Option.bind_splits option.splits if_splits prod.splits
      dest!: accounted_check_loop)

lemma accounted_get_response:
  "get_response_loop E rv respondent eas io = Some (rc, n, ans, resp', eas', io') \<Longrightarrow> accounted E (sockets eas) io (sockets eas') io'"
proof (induction E rv respondent eas io arbitrary: rc n ans resp' eas' io' rule: get_response_loop.induct)
  case (2 E rv respondent ea eas io)
  show ?case
  proof (cases "ea_response ea")
    case None
    with 2(1) [OF refl None] 2(3) show ?thesis by (auto simp: Let_def split: Option.bind_splits intro!: accounted_before)
  next
    case (Some msg)
    with 2(3) obtain rc1 msg1 r where c: "res_response_checks respondent msg (ea_response_length ea) = Some (rc1, msg1)" "clone_respondent ea = Some r"
      by (auto simp: Let_def split: Option.bind_splits)
    show ?thesis
    proof (cases "rc1 = SR_NO_ERROR")
      case True
      with 2(3) Some c show ?thesis by (auto simp: Let_def)
    next
      case False
      let ?ea = "ea\<lparr> ea_response := None, ea_response_length := 0 \<rparr>"
      obtain ea1 io1 where cl: "close_socket ?ea io = (ea1, io1)" by (cases "close_socket ?ea io")
      obtain ea2 io2 where al: "set_alarms E 0 (res_get_timeout (ea_ns ea1)) ea1 io1 = (ea2, io2)"
        by (cases "set_alarms E 0 (res_get_timeout (ea_ns ea1)) ea1 io1")
      from 2(3) Some c False cl al obtain rc2 n2 eas2 where l: "get_response_loop E SR_IO_NO_ANSWER (Some r) eas io2 = Some (rc2, n2, ans, resp', eas2, io')"
        and e: "eas' = ea2 # eas2"
        by (auto simp: Let_def split: Option.bind_splits prod.splits)
      have "accounted E (sock ea) io (sock ea2) io2"
        using accounted_trans [OF accounted_close [OF cl, where E = E] accounted_alarms [OF al]] by simp
      from accounted_more [OF this, of "sockets eas"] have "accounted E (sockets (ea # eas)) io (sock ea2 + sockets eas) io2" by simp
      moreover have "accounted E (sockets eas) io2 (sockets eas2) io'"
        using 2(2) [OF refl Some c(1) refl c(2) False refl _ _ _ _ l] cl al by auto
      ultimately show ?thesis using e by (auto intro: accounted_trans accounted_before)
    qed
  qed
qed simp

lemma accounted_complete_read: "complete_read E n field io = (bs, io') \<Longrightarrow> accounted E k io k io'"
proof (induction E n field io rule: complete_read.induct)
  case (1 E n field io)
  note run = 1(2) [unfolded complete_read.simps [of E n field io]]
  obtain r io1 where r: "next_recv E io = (r, io1)" by (cases "next_recv E io")
  then have a: "accounted E k io k io1" by (auto simp: next_recv_def)
  show ?case
  proof (cases r)
    case (Recv src bs1)
    let ?got = "take (n - length field) bs1"
    show ?thesis
    proof (cases "length (field @ ?got) < n \<and> ?got \<noteq> []")
      case True
      with run r Recv have run': "complete_read E n (field @ ?got) io1 = (bs, io')" by simp
      from 1(1) [OF refl _ Recv refl True run'] r have "accounted E k io1 k io'" by simp
      with a show ?thesis by (rule accounted_trans)
    next
      case False
      with run r Recv have "io' = io1" by (auto simp: Let_def simp del: length_append split: if_splits)
      with a show ?thesis by simp
    qed
  qed (use run r a in auto)
qed

lemma accounted_read_failed: "read_failed E ea io = (rc, ea', io') \<Longrightarrow> accounted E (sock ea) io (sock ea') io'"
  by (auto simp: read_failed_def split: prod.splits dest!: accounted_sources(2))

lemma accounted_read_tcp:
  assumes "res_io_read_tcp E ea io = Some (rc, ea', io')"
  shows "accounted E (sock ea) io (sock ea') io'"
proof -
  obtain l io1 where l: "complete_read E 2 [] io = (l, io1)" by (cases "complete_read E 2 [] io")
  note a1 = accounted_complete_read [OF l, of "sock ea"]
  have rest: "accounted E (sock ea) io1 (sock ea') io'"
  proof (cases "length l = 2")
    case True
    with assms l obtain w where w: "get16 l 0 = Some w" by (auto simp: res_io_read_tcp_def split: Option.bind_splits)
    show ?thesis
    proof (cases "w = 0")
      case True
      obtain ea2 io2 where r: "res_io_retry_source E ea io1 = (ea2, io2)" by (cases "res_io_retry_source E ea io1")
      with assms l \<open>length l = 2\<close> w True have "ea' = ea2\<lparr> ea_response := None \<rparr>" "io' = io2" by (auto simp: res_io_read_tcp_def)
      with accounted_sources(1) [OF r] show ?thesis by simp
    next
      case False
      obtain msg io2 where m: "complete_read E (unat w) [] io1 = (msg, io2)" by (cases "complete_read E (unat w) [] io1")
      note a2 = accounted_complete_read [OF m, of "sock ea"]
      have "unat w \<noteq> 0" using False by (simp add: unat_eq_zero)
      with assms l \<open>length l = 2\<close> w m have "accounted E (sock ea) io2 (sock ea') io'"
        by (auto simp: res_io_read_tcp_def Let_def split: if_splits dest!: accounted_read_failed)
      with a2 show ?thesis by (rule accounted_trans)
    qed
  next
    case False
    with assms l show ?thesis by (auto simp: res_io_read_tcp_def dest!: accounted_read_failed)
  qed
  from a1 rest show ?thesis by (rule accounted_trans)
qed

lemma accounted_read_udp: "res_io_read_udp E ea io = Some (rc, ea', io') \<Longrightarrow> accounted E (sock ea) io (sock ea') io'"
  by (auto simp: res_io_read_udp_def next_recv_def Let_def split: if_splits recv_result.splits dest!: accounted_read_failed)

lemma accounted_switch: "res_switch_to_tcp E ea io = (ea', io') \<Longrightarrow> accounted E (sock ea) io (sock ea') io'"
  by (auto simp: res_switch_to_tcp_def Let_def split: prod.splits dest!: accounted_alarms
      accounted_close [where E = E] intro: accounted_trans)

lemma accounted_read_arrival:
  assumes "read_arrival E ea io = Some (ea', io')"
  shows "accounted E (sock ea) io (sock ea') io'"
proof -
  from assms obtain rc ea1 io1 where r: "(if ea_using_stream ea then res_io_read_tcp E ea io else res_io_read_udp E ea io) = Some (rc, ea1, io1)"
    by (auto simp: read_arrival_def split: Option.bind_splits)
  then have "accounted E (sock ea) io (sock ea1) io1" by (auto split: if_splits dest: accounted_read_tcp accounted_read_udp)
  moreover have "accounted E (sock ea1) io1 (sock ea') io'"
    using assms r by (auto simp: read_arrival_def Let_def split: Option.bind_splits if_splits dest!: accounted_switch)
  ultimately show ?thesis by (rule accounted_trans)
qed

lemma accounted_res_io_read:
  "res_io_read E fds eas io = Some (n, fds', eas', io') \<Longrightarrow> accounted E (sockets eas) io (sockets eas') io'"
proof (induction E fds eas io arbitrary: n fds' eas' io' rule: res_io_read.induct)
  case (2 E fds ea eas io)
  show ?case
  proof (cases "\<exists>fd. ea_socket ea = Some fd \<and> ea_remaining_attempts ea \<noteq> -1 \<and> fd \<in> set fds")
    case True
    then obtain fd where fd: "ea_socket ea = Some fd" "\<not> (ea_remaining_attempts ea = -1 \<or> fd \<notin> set fds)" by auto
    with 2(4) obtain ea1 io1 m eas1 where r: "read_arrival E ea io = Some (ea1, io1)"
      and l: "res_io_read E (removeAll fd fds) eas io1 = Some (m, fds', eas1, io')" "eas' = ea1 # eas1"
      by (auto split: Option.bind_splits)
    from 2(3) [OF fd r refl l(1)] accounted_more [OF accounted_read_arrival [OF r], of "sockets eas"] l(2) show ?thesis
      by (auto intro: accounted_trans accounted_before)
  next
    case False
    with 2(4) obtain m eas1 where l: "res_io_read E fds eas io = Some (m, fds', eas1, io')" "eas' = ea # eas1"
      by (auto split: Option.bind_splits option.splits if_splits)
    have "accounted E (sockets eas) io (sockets eas1) io'"
    proof (cases "ea_socket ea")
      case None
      from 2(1) [OF None l(1)] show ?thesis .
    next
      case (Some fd)
      with False have "ea_remaining_attempts ea = -1 \<or> fd \<notin> set fds" by auto
      from 2(2) [OF Some this l(1)] show ?thesis .
    qed
    with l(2) show ?thesis by (auto intro: accounted_before)
  qed
qed simp

lemma free_ea_list_count: "res_free_ea_list eas io = io\<lparr> io_open := io_open io - sockets eas \<rparr>"
  by (induction eas arbitrary: io) (auto simp: close_socket_def sock_def split: option.splits)

lemma create_arrivals_closed:
  "create_arrivals E name t c nss delay ok io = Some (ok', eas, io') \<Longrightarrow> sockets eas = 0 \<and> accounted E n io n io'"
proof (induction nss arbitrary: delay ok io ok' eas io')
  case (Cons ns nss)
  then obtain p io1 eas1 ok1 where p: "payload_for E ns name c t io = Some (p, io1)"
    and l: "create_arrivals E name t c nss (delay + 1) (p \<noteq> None) (snd (res_ea_init E name t c (case p of None \<Rightarrow> [] | Some q \<Rightarrow> q) ns delay io1)) =
      Some (ok', eas1, io')" "eas = fst (res_ea_init E name t c (case p of None \<Rightarrow> [] | Some q \<Rightarrow> q) ns delay io1) # eas1"
    by (auto split: Option.bind_splits prod.splits)
  have init: "ea_socket (fst (res_ea_init E name t c q ns d io1)) = None" "accounted E n io1 n (snd (res_ea_init E name t c q ns d io1))" for q d
    by (simp_all add: res_ea_init_def set_alarms_def gettimeofday_def Let_def)
  let ?q = "case p of None \<Rightarrow> [] | Some q \<Rightarrow> q"
  from Cons.IH [OF l(1)] have "accounted E n io1 n io'" "sockets eas1 = 0"
    using init(2) [of ?q delay] by (auto intro: accounted_trans)
  with l(2) init(1) [of ?q delay] accounted_trans [OF accounted_payload [OF p, of n]] show ?case by simp
qed simp

lemma create_closed:
  assumes "res_async_query_create E name t c nss io = Some (eas, io')"
  shows "sockets eas = 0 \<and> accounted E n io n io'"
proof (cases "name = [] \<or> nss = []")
  case False
  with assms obtain l ok head io1 where "create_arrivals E name t c l 0 True io = Some (ok, head, io1)"
    and e: "(if ok then (head, io1) else ([], res_free_ea_list head io1)) = (eas, io')"
    by (auto simp: res_async_query_create_def split: Option.bind_splits)
  with create_arrivals_closed [OF this(1), of n] show ?thesis by (auto simp: free_ea_list_count split: if_splits)
qed (use assms in \<open>auto simp: res_async_query_create_def\<close>)

lemma switch_all_count: "accounted E (sockets eas) io (sockets (fst (res_switch_all_to_tcp eas io))) (snd (res_switch_all_to_tcp eas io))"
proof (induction eas arbitrary: io)
  case (Cons ea eas)
  obtain ea1 io1 where c: "close_socket (ea\<lparr> ea_response := None, ea_response_length := 0, ea_using_stream := True \<rparr>) io = (ea1, io1)"
    by (cases "close_socket (ea\<lparr> ea_response := None, ea_response_length := 0, ea_using_stream := True \<rparr>) io")
  obtain eas2 io2 where s: "res_switch_all_to_tcp eas io1 = (eas2, io2)" by (cases "res_switch_all_to_tcp eas io1")
  from accounted_more [OF accounted_close [OF c, where E = E], of "sockets eas"] accounted_before [OF Cons.IH [of io1], of "sock ea1"] s
  show ?case by (auto simp: c intro: accounted_trans)
qed simp

lemma fallback_server_count:
  "fallback_server E s b eas ev io = Some (r, eas', ev', io') \<Longrightarrow> accounted E (sockets eas) io (sockets eas') io'"
proof (induction E s b eas ev io arbitrary: r eas' ev' io' rule: fallback_server.induct)
  case (2 E s b ea rest ev io)
  then obtain m where m: "asks_server s ea = Some m" by (auto split: Option.bind_splits)
  show ?case
  proof (cases m)
    case True
    with 2(2) m show ?thesis by (auto split: Option.bind_splits dest!: accounted_fallback)
  next
    case False
    with 2(2) m obtain rest' where l: "fallback_server E s (b \<and> res_io_is_finished ea) rest ev io = Some (r, rest', ev', io')" "eas' = ea # rest'"
      by (auto split: Option.bind_splits)
    from 2(1) [OF m False l(1)] l(2) show ?thesis by (auto intro: accounted_before)
  qed
qed simp

subsection \<open>The table keeps the account\<close>

definition res_nsfallback :: "environment \<Rightarrow> int \<Rightarrow> timeval option \<Rightarrow> server option \<Rightarrow> manager \<Rightarrow> (int \<times> timeval option \<times> manager) option" where
  "res_nsfallback E transaction_id closest_event srv m =
     (if transaction_id < 0 then Some (-1, closest_event, m)
      else if int MAX_TRANSACTIONS \<le> transaction_id then None
      else let i = nat transaction_id in do {
        (r, eas, closest_event, io) \<leftarrow> res_nsfallback_ea E (transactions m i) closest_event srv (manager_io m);
        Some (r, closest_event, m\<lparr> transactions := (transactions m)(i := eas), manager_io := io \<rparr>)
      })"

definition res_switch_all_to_tcp_tid :: "int \<Rightarrow> manager \<Rightarrow> manager" where
  "res_switch_all_to_tcp_tid tid m =
     (if tid < 0 \<or> int MAX_TRANSACTIONS \<le> tid then m
      else let (eas, io) = res_switch_all_to_tcp (transactions m (nat tid)) (manager_io m) in
        m\<lparr> transactions := (transactions m)(nat tid := eas), manager_io := io \<rparr>)"

text \<open>
  The steps of the table: what the functions that lock it do. A transaction is cancelled by the number it was given, which is in
  the table, or by -1.
\<close>

inductive manager_step :: "environment \<Rightarrow> manager \<Rightarrow> manager \<Rightarrow> bool" for E where
  queued: "query_queue E name type_h class_h pref_ns m = Some (ok, tid, m') \<Longrightarrow> manager_step E m m'"
| received: "response_recv E tid pending event m = Some (rc, ans, respondent, pending', event', m') \<Longrightarrow> manager_step E m m'"
| checked: "res_io_check E tid m = Some (b, event, m') \<Longrightarrow> manager_step E m m'"
| fell_back: "res_nsfallback E tid event srv m = Some (r, event', m') \<Longrightarrow> manager_step E m m'"
| switched: "manager_step E m (res_switch_all_to_tcp_tid tid m)"
| cancelled: "tid < int MAX_TRANSACTIONS \<Longrightarrow> -1 \<le> tid \<Longrightarrow> manager_step E m (snd (res_cancel tid m))"
| all_cancelled: "manager_step E m (res_io_cancel_all m)"

definition empty_manager :: manager where
  "empty_manager = \<lparr> transactions = (\<lambda>_. []), next_transaction = 0,
     manager_io = \<lparr> io_ticks = 0, io_draws = 0, io_sends = 0, io_recvs = 0, io_selects = 0, io_open = 0, io_max = 0 \<rparr> \<rparr>"

inductive manager_reachable :: "environment \<Rightarrow> manager \<Rightarrow> bool" for E where
  start: "manager_reachable E empty_manager"
| later: "manager_reachable E m \<Longrightarrow> manager_step E m m' \<Longrightarrow> manager_reachable E m'"

definition table_sockets :: "manager \<Rightarrow> int" where
  "table_sockets m = (\<Sum>i<MAX_TRANSACTIONS. sockets (transactions m i))"

definition wf_manager :: "environment \<Rightarrow> manager \<Rightarrow> bool" where
  "wf_manager E m \<longleftrightarrow> io_open (manager_io m) = table_sockets m \<and>
     (io_max (manager_io m) = 0 \<or> io_max (manager_io m) = init_max_fd (ev_rlimit E)) \<and> io_open (manager_io m) \<le> init_max_fd (ev_rlimit E)"

lemma table_sockets_update:
  assumes "i < MAX_TRANSACTIONS"
  shows "(\<Sum>j<MAX_TRANSACTIONS. sockets (((transactions m)(i := eas)) j)) = table_sockets m - sockets (transactions m i) + sockets eas"
proof -
  have "(\<Sum>j<MAX_TRANSACTIONS. sockets (((transactions m)(i := eas)) j)) =
      sockets eas + (\<Sum>j\<in>{..<MAX_TRANSACTIONS} - {i}. sockets (transactions m j))"
    using assms by (subst sum.remove [of _ i]) auto
  moreover have "table_sockets m = sockets (transactions m i) + (\<Sum>j\<in>{..<MAX_TRANSACTIONS} - {i}. sockets (transactions m j))"
    using assms unfolding table_sockets_def by (subst sum.remove [of _ i]) auto
  ultimately show ?thesis by simp
qed

lemma table_update:
  assumes "wf_manager E m" and "i < MAX_TRANSACTIONS" and "accounted E (sockets (transactions m i)) (manager_io m) (sockets eas) io"
  shows "wf_manager E (m\<lparr> transactions := (transactions m)(i := eas), manager_io := io \<rparr>)"
  using assms table_sockets_update [OF assms(2), of m eas]
  by (auto simp: wf_manager_def accounted_def table_sockets_def)

lemma table_io: "wf_manager E m \<Longrightarrow> accounted E n (manager_io m) n io \<Longrightarrow> wf_manager E (m\<lparr> manager_io := io \<rparr>)"
  by (auto simp: wf_manager_def accounted_def table_sockets_def)

lemma check_one_tid_wf:
  assumes "check_one_tid E i ev now m = Some (b, ev', m')" and "wf_manager E m" and "i < MAX_TRANSACTIONS"
  shows "wf_manager E m'"
  using assms by (auto simp: check_one_tid_def split: if_splits Option.bind_splits intro!: table_update dest: accounted_check_ea_list)

lemma check_others_wf:
  "check_others E now is ev m = Some (ev', m') \<Longrightarrow> wf_manager E m \<Longrightarrow> \<forall>i\<in>set is. i < MAX_TRANSACTIONS \<Longrightarrow> wf_manager E m'"
  by (induction E now "is" ev m rule: check_others.induct) (auto split: Option.bind_splits dest: check_one_tid_wf)

lemma res_io_check_wf:
  assumes "res_io_check E tid m = Some (b, ev, m')" and "wf_manager E m"
  shows "wf_manager E m'"
proof (cases "tid < 0 \<or> int MAX_TRANSACTIONS \<le> tid")
  case False
  obtain tv io where t: "gettimeofday E (manager_io m) = (tv, io)" by (cases "gettimeofday E (manager_io m)")
  from False assms(1) t obtain ev1 m1 where o: "check_others E tv (filter (\<lambda>i. int i \<noteq> tid) [0..<MAX_TRANSACTIONS]) (Some (0, 0)) (m\<lparr> manager_io := io \<rparr>) = Some (ev1, m1)"
    and c: "check_one_tid E (nat tid) ev1 (Some tv) m1 = Some (b, ev, m')"
    by (auto simp: res_io_check_def split: Option.bind_splits)
  have "wf_manager E (m\<lparr> manager_io := io \<rparr>)" by (rule table_io [OF assms(2) accounted_gettimeofday [OF t]])
  from check_one_tid_wf [OF c check_others_wf [OF o this]] False show ?thesis by (simp add: nat_less_iff)
qed (use assms in \<open>auto simp: res_io_check_def\<close>)

lemma free_transaction_bound: "free_transaction m = Some i \<Longrightarrow> i < MAX_TRANSACTIONS"
  by (auto simp: free_transaction_def find_Some_iff MAX_TRANSACTIONS_def)

lemma query_queue_wf:
  assumes "query_queue E name t c nss m = Some (ok, tid, m')" and "wf_manager E m"
  shows "wf_manager E m'"
proof -
  from assms(1) obtain eas io where c: "res_async_query_create E name t c nss (manager_io m) = Some (eas, io)"
    by (auto simp: query_queue_def split: Option.bind_splits)
  note a = create_closed [OF c]
  from a have w: "wf_manager E (m\<lparr> manager_io := io \<rparr>)" by (blast intro: table_io [OF assms(2)])
  show ?thesis
  proof (cases "eas = []")
    case True
    with assms(1) c w show ?thesis by (auto simp: query_queue_def)
  next
    case False
    have "accounted E (sockets (transactions m i)) (manager_io m) (sockets (transactions m i @ eas)) io" for i
      using a by simp
    note u = table_update [OF assms(2) _ this]
    from assms(1) c False w u show ?thesis
      by (auto simp: query_queue_def res_io_queue_ea_def wf_manager_def table_sockets_def dest!: free_transaction_bound
          split: option.splits)
  qed
qed


lemma get_a_response_accounted:
  "res_io_get_a_response E respondent eas io = Some (rc, ans, resp', eas', io') \<Longrightarrow> accounted E (sockets eas) io (sockets eas') io'"
  by (auto simp: res_io_get_a_response_def split: Option.bind_splits dest!: accounted_get_response)

lemma select_sockets_accounted: "res_io_select_sockets E fds io = (r, io') \<Longrightarrow> accounted E n io n io'"
  by (auto simp: res_io_select_sockets_def split: if_splits)

lemma res_io_accept_wf:
  assumes "res_io_accept E tid pending ev m = Some (rc, ans, resp, pending', ev', m')" and "wf_manager E m"
  shows "wf_manager E m'"
proof -
  from assms(1) obtain active ne m1 where c: "res_io_check E tid m = Some (active, ne, m1)"
    by (auto simp: res_io_accept_def split: Option.bind_splits)
  note w1 = res_io_check_wf [OF c assms(2)]
  show ?thesis
  proof (cases active)
    case False
    with assms(1) c w1 show ?thesis by (auto simp: res_io_accept_def)
  next
    case True
    let ?i = "nat tid"
    have i: "?i < MAX_TRANSACTIONS" using c True by (auto simp: res_io_check_def nat_less_iff split: if_splits)
    from assms(1) c True obtain rc1 ans1 resp1 eas1 io1
      where g: "res_io_get_a_response E None (transactions m1 ?i) (manager_io m1) = Some (rc1, ans1, resp1, eas1, io1)"
      by (auto simp: res_io_accept_def split: Option.bind_splits)
    note a1 = get_a_response_accounted [OF g]
    let ?m2 = "\<lambda>eas io. m1\<lparr> transactions := (transactions m1)(?i := eas), manager_io := io \<rparr>"
    note put = table_update [OF w1 i]
    show ?thesis
    proof (cases "rc1 = SR_IO_GOT_ANSWER")
      case True
      with assms(1) c \<open>active\<close> g put [OF a1] show ?thesis by (auto simp: res_io_accept_def Let_def)
    next
      case False
      from assms(1) c \<open>active\<close> g False obtain nfds fds tmo where i1: "res_io_select_info eas1 0 [] None = Some (nfds, fds, tmo)"
        by (auto simp: res_io_accept_def Let_def split: Option.bind_splits)
      obtain ready io2 where s: "res_io_select_sockets E fds io1 = (ready, io2)" by (cases "res_io_select_sockets E fds io1")
      note a2 = accounted_trans [OF a1 select_sockets_accounted [OF s]]
      from put [OF a2] have w2: "wf_manager E (?m2 eas1 io2)" .
      show ?thesis
      proof (cases "ready = None \<or> ready = Some []")
        case True
        with assms(1) c \<open>active\<close> g False i1 s w2 show ?thesis
          by (auto simp: res_io_accept_def Let_def split: Option.bind_splits)
      next
        case other: False
        then obtain fd fds' where "ready = Some (fd # fds')" by (cases ready; cases "the ready") auto
        with assms(1) c \<open>active\<close> g False i1 s obtain n fds1 eas2 io3 rc2 eas3 io4
          where r: "res_io_read E (fd # fds') eas1 io2 = Some (n, fds1, eas2, io3)"
            and g2: "res_io_get_a_response E resp1 eas2 io3 = Some (rc2, ans, resp, eas3, io4)" and m': "m' = ?m2 eas3 io4"
          by (auto simp: res_io_accept_def Let_def split: Option.bind_splits)
        from accounted_trans [OF accounted_trans [OF a2 accounted_res_io_read [OF r]] get_a_response_accounted [OF g2]]
        show ?thesis unfolding m' by (rule put)
      qed
    qed
  qed
qed

lemma res_nsfallback_wf:
  assumes "res_nsfallback E tid ev srv m = Some (r, ev', m')" and "wf_manager E m"
  shows "wf_manager E m'"
  using assms
  by (auto simp: res_nsfallback_def res_nsfallback_ea_def Let_def nat_less_iff split: if_splits Option.bind_splits list.splits option.splits
      intro!: table_update accounted_before dest: fallback_server_count accounted_fallback)

lemma res_switch_all_to_tcp_tid_wf: "wf_manager E m \<Longrightarrow> wf_manager E (res_switch_all_to_tcp_tid tid m)"
  using switch_all_count [of E "transactions m (nat tid)" "manager_io m"]
  by (auto simp: res_switch_all_to_tcp_tid_def nat_less_iff split: prod.splits intro!: table_update)

lemma res_cancel_wf: "wf_manager E m \<Longrightarrow> -1 \<le> tid \<Longrightarrow> tid < int MAX_TRANSACTIONS \<Longrightarrow> wf_manager E (snd (res_cancel tid m))"
  using sockets_nonneg [of "transactions m (nat tid)"]
  by (auto simp: res_cancel_def Let_def nat_less_iff free_ea_list_count accounted_def intro!: table_update)

lemma res_io_cancel_all_wf:
  assumes "wf_manager E m"
  shows "wf_manager E (res_io_cancel_all m)"
proof -
  have "wf_manager E m \<Longrightarrow> \<forall>i\<in>set is. i < MAX_TRANSACTIONS \<Longrightarrow> wf_manager E (foldl (\<lambda>m i. snd (res_cancel (int i) m)) m is)" for m "is"
    by (induction "is" arbitrary: m) (simp_all add: res_cancel_wf)
  with assms show ?thesis by (simp add: res_io_cancel_all_def)
qed

lemma manager_step_wf:
  assumes "manager_step E m m'" and "wf_manager E m"
  shows "wf_manager E m'"
  using assms by (cases rule: manager_step.cases)
    (auto simp: response_recv_def intro: query_queue_wf res_io_accept_wf res_io_check_wf res_nsfallback_wf res_switch_all_to_tcp_tid_wf
      res_cancel_wf res_io_cancel_all_wf)

lemma empty_manager_wf: "wf_manager E empty_manager"
  using init_max_fd_pos [of "ev_rlimit E"] by (simp add: wf_manager_def empty_manager_def table_sockets_def)

lemma reachable_wf: "manager_reachable E m \<Longrightarrow> wf_manager E m"
  by (induction rule: manager_reachable.induct) (auto intro: empty_manager_wf manager_step_wf)

text \<open>Cancelling everything closes every socket.\<close>

lemma cancel_all_empty: "i < MAX_TRANSACTIONS \<Longrightarrow> transactions (res_io_cancel_all m) i = []"
proof -
  have "transactions (foldl (\<lambda>m i. snd (res_cancel (int i) m)) m is) i = (if i \<in> set is then [] else transactions m i)" for m "is" i
    by (induction "is" arbitrary: m) (auto simp: res_cancel_def Let_def)
  then show "i < MAX_TRANSACTIONS \<Longrightarrow> transactions (res_io_cancel_all m) i = []" by (simp add: res_io_cancel_all_def)
qed

end
