(* ===== verification/Waiting.thy ===== *)
theory Waiting
  imports Transport
begin

section \<open>Waiting comes to an end\<close>

text \<open>
  Every check of a list of arrivals takes something off what is left to do when it comes in time for the first arrival that is
  not finished, and adds nothing otherwise. So a query to several servers ends, with or without answers, if checks keep coming
  in time.
\<close>


subsection \<open>Arrivals that can be asked about\<close>

text \<open>
  What \<open>res_async_query_create\<close> makes of a name in text form and servers that have an address, no negative number of retries and,
  if they have a key, a well-formed one.
\<close>

definition server_ready :: "environment \<Rightarrow> server \<Rightarrow> bool" where
  "server_ready E ns \<longleftrightarrow> 0 \<le> ns_retry ns \<and> (ns_security_options ns AND ZONE_USE_TSIG = 0 \<or>
     hmac_sized (ev_ssl E) \<and> (\<exists>t nls als md. ns_tsig ns = Some t \<and> wf_tsig t nls als md))"

definition arrival_ready :: "environment \<Rightarrow> arrival \<Rightarrow> bool" where
  "arrival_ready E ea \<longleftrightarrow> -1 \<le> ea_remaining_attempts ea \<and> ea_which_address ea < length (ns_address (ea_ns ea)) \<and>
     server_ready E (ea_ns ea) \<and> (\<exists>ls. wf_name ls \<and> ea_name ea = text_name ls @ [0])"

text \<open>What is left to do: attempts, sizes of EDNS0 to fall back to, and addresses behind the one that is asked.\<close>

definition sizes_left :: "server \<Rightarrow> nat" where
  "sizes_left ns = (if ns_options ns AND SR_QUERY_VALIDATING_STUB_FLAGS \<noteq> 0 \<and> 0 < ns_edns0_size ns
     then length (filter (\<lambda>s. s < ns_edns0_size ns) (take fallback_max_index edns0_fallback)) else 0)"

definition weight :: "arrival \<Rightarrow> nat" where
  "weight ea = (if ea_remaining_attempts ea = -1 then 0
     else 1 + nat (ea_remaining_attempts ea) + 2 * sizes_left (ea_ns ea) +
       (length (ns_address (ea_ns ea)) - 1 - ea_which_address ea) * nat (ns_retry (ea_ns ea) + 2))"

definition total_weight :: "arrival list \<Rightarrow> nat" where
  "total_weight eas = sum_list (map weight eas)"

text \<open>
  A check comes in time for an arrival that is due if its end has not come yet and a socket can be had, or if its attempts are
  used up.
\<close>

definition in_time :: "environment \<Rightarrow> timeval \<Rightarrow> io \<Rightarrow> arrival \<Rightarrow> bool" where
  "in_time E now io ea \<longleftrightarrow> LTEQ (ea_next_try ea) now \<and> (ea_remaining_attempts ea = 0 \<or> \<not> LTEQ (ea_cancel_time ea) now \<and>
     (ea_socket ea \<noteq> None \<or> io_open io < (if io_max io = 0 then init_max_fd (ev_rlimit E) else io_max io)))"

definition first_in_time :: "environment \<Rightarrow> timeval \<Rightarrow> io \<Rightarrow> arrival list \<Rightarrow> bool" where
  "first_in_time E now io eas = (case dropWhile res_io_is_finished eas of [] \<Rightarrow> False | ea # _ \<Rightarrow> in_time E now io ea)"

text \<open>Arrivals that differ in their times only.\<close>

definition same_but_times :: "arrival \<Rightarrow> arrival \<Rightarrow> bool" where
  "same_but_times a b \<longleftrightarrow> b = a\<lparr> ea_next_try := ea_next_try b, ea_cancel_time := ea_cancel_time b \<rparr>"

definition retimed :: "arrival list \<Rightarrow> arrival list \<Rightarrow> bool" where
  "retimed = list_all2 same_but_times"

lemma same_but_times_refl [simp]: "same_but_times a a"
  by (cases a) (simp add: same_but_times_def)

lemma same_but_times_trans: "same_but_times a b \<Longrightarrow> same_but_times b c \<Longrightarrow> same_but_times a c"
  by (cases a; cases b; cases c) (simp add: same_but_times_def)

lemma same_but_times_update [simp]:
  "same_but_times a (a\<lparr> ea_next_try := n \<rparr>)" "same_but_times a (a\<lparr> ea_cancel_time := n \<rparr>)"
  "same_but_times a (a\<lparr> ea_next_try := n, ea_cancel_time := c \<rparr>)"
  by (cases a; simp add: same_but_times_def)+

lemma retimed_refl [simp]: "retimed eas eas"
  by (simp add: retimed_def list_all2_refl)

lemma retimed_trans: "retimed a b \<Longrightarrow> retimed b c \<Longrightarrow> retimed a c"
  unfolding retimed_def by (rule list_all2_trans [OF same_but_times_trans])

lemma retimed_Cons [simp]: "retimed (a # as) (b # bs) = (same_but_times a b \<and> retimed as bs)"
  by (simp add: retimed_def)

lemma weight_times [simp]: "weight (ea\<lparr> ea_next_try := n \<rparr>) = weight ea" "weight (ea\<lparr> ea_cancel_time := n \<rparr>) = weight ea"
  "weight (ea\<lparr> ea_socket := s \<rparr>) = weight ea" "weight (ea\<lparr> ea_signed := q \<rparr>) = weight ea"
  by (simp_all add: weight_def)

lemma ready_times [simp]:
  "arrival_ready E (ea\<lparr> ea_next_try := n \<rparr>) = arrival_ready E ea" "arrival_ready E (ea\<lparr> ea_cancel_time := n \<rparr>) = arrival_ready E ea"
  "arrival_ready E (ea\<lparr> ea_socket := s \<rparr>) = arrival_ready E ea" "arrival_ready E (ea\<lparr> ea_signed := q \<rparr>) = arrival_ready E ea"
  by (simp_all add: arrival_ready_def)

lemma same_but_times_keeps:
  assumes "same_but_times a b"
  shows "weight b = weight a" and "arrival_ready E b = arrival_ready E a" and "ea_remaining_attempts b = ea_remaining_attempts a"
  by (subst assms [unfolded same_but_times_def], simp)+

lemma retimed_weight: "retimed eas eas' \<Longrightarrow> total_weight eas' = total_weight eas"
  unfolding retimed_def total_weight_def by (induction rule: list_all2_induct) (auto simp: same_but_times_keeps)

lemma retimed_ready: "retimed eas eas' \<Longrightarrow> list_all (arrival_ready E) eas' = list_all (arrival_ready E) eas"
  unfolding retimed_def by (induction rule: list_all2_induct) (auto simp: same_but_times_keeps)

lemma same_shift [simp]: "same_but_times ea (shift_alarms n ea)"
  by (simp add: shift_alarms_def)

lemma retimed_shift [simp]: "retimed eas (map (shift_alarms n) eas)"
  by (simp add: retimed_def list_all2_conv_all_nth)

lemma reset_timeouts_retimed:
  "reset_timeouts E ea rest io = (ea', rest', io') \<Longrightarrow> same_but_times ea ea' \<and> retimed rest rest'"
  by (auto simp: reset_timeouts_def set_alarms_def gettimeofday_def Let_def split: list.splits if_splits)

lemma close_socket_only: "close_socket ea io = (ea', io') \<Longrightarrow> ea' = ea\<lparr> ea_socket := None \<rparr>"
  by (cases ea) (auto simp: close_socket_def split: option.splits)

subsection \<open>What is left gets less\<close>

lemma fallback_sizes: "take fallback_max_index edns0_fallback = [4096, 1492, 512]"
  by (simp add: edns0_fallback_def fallback_max_index_def)

lemma lower_edns0_cases:
  fixes ns :: server
  assumes "ns_options ns AND SR_QUERY_VALIDATING_STUB_FLAGS \<noteq> 0" "0 < ns_edns0_size ns"
  shows "sizes_left ns = (if ns_edns0_size ns \<le> 512 then 0 else if ns_edns0_size ns \<le> 1492 then 1 else if ns_edns0_size ns \<le> 4096 then 2 else 3)"
    and "List.find (\<lambda>s. s < ns_edns0_size ns) (take fallback_max_index edns0_fallback) =
      (if ns_edns0_size ns \<le> 512 then None else Some (if ns_edns0_size ns \<le> 1492 then 512 else if ns_edns0_size ns \<le> 4096 then 1492 else 4096))"
  using assms by (simp_all add: sizes_left_def fallback_sizes)

lemma lower_edns0_same: "lower_edns0 ea = ea \<or> (\<exists>s. 0 < s \<and> Suc (sizes_left ((ea_ns ea)\<lparr> ns_edns0_size := s \<rparr>)) = sizes_left (ea_ns ea) \<and>
    lower_edns0 ea = ea\<lparr> ea_ns := (ea_ns ea)\<lparr> ns_edns0_size := s \<rparr>,
      ea_remaining_attempts := (if ea_remaining_attempts ea \<le> 0 then 1 else ea_remaining_attempts ea + 1) \<rparr>)"
proof (cases "ns_options (ea_ns ea) AND SR_QUERY_VALIDATING_STUB_FLAGS \<noteq> 0 \<and> 512 < ns_edns0_size (ea_ns ea)")
  case True
  define s :: int where "s = (if ns_edns0_size (ea_ns ea) \<le> 1492 then 512 else if ns_edns0_size (ea_ns ea) \<le> 4096 then 1492 else 4096)"
  have "lower_edns0 ea = ea\<lparr> ea_ns := (ea_ns ea)\<lparr> ns_edns0_size := s \<rparr>,
      ea_remaining_attempts := (if ea_remaining_attempts ea \<le> 0 then 1 else ea_remaining_attempts ea + 1) \<rparr>"
    using True lower_edns0_cases(2) [of "ea_ns ea"] by (simp add: lower_edns0_def s_def)
  moreover have "Suc (sizes_left ((ea_ns ea)\<lparr> ns_edns0_size := s \<rparr>)) = sizes_left (ea_ns ea)"
    using True lower_edns0_cases(1) [of "ea_ns ea"] lower_edns0_cases(1) [of "(ea_ns ea)\<lparr> ns_edns0_size := s \<rparr>"] by (simp add: s_def)
  moreover have "0 < s" by (simp add: s_def)
  ultimately show ?thesis by blast
next
  case False
  have "lower_edns0 ea = ea"
  proof (cases "ns_options (ea_ns ea) AND SR_QUERY_VALIDATING_STUB_FLAGS \<noteq> 0 \<and> 0 < ns_edns0_size (ea_ns ea)")
    case True
    with False have "List.find (\<lambda>s. s < ns_edns0_size (ea_ns ea)) (take fallback_max_index edns0_fallback) = None"
      by (subst lower_edns0_cases(2)) simp_all
    then show ?thesis by (simp add: lower_edns0_def Let_def)
  next
    case False
    then have "\<not> (ns_options (ea_ns ea) AND SR_QUERY_VALIDATING_STUB_FLAGS \<noteq> 0 \<and> 0 < ns_edns0_size (ea_ns ea))" .
    then show ?thesis unfolding lower_edns0_def Let_def by (rule if_not_P)
  qed
  then show ?thesis ..
qed

lemma weight_unfinished: "ea_remaining_attempts ea \<noteq> -1 \<Longrightarrow> weight ea = 1 + nat (ea_remaining_attempts ea) + 2 * sizes_left (ea_ns ea) +
    (length (ns_address (ea_ns ea)) - 1 - ea_which_address ea) * nat (ns_retry (ea_ns ea) + 2)"
  by (simp add: weight_def)

lemma lower_edns0_weight:
  assumes "arrival_ready E ea" "ea_remaining_attempts ea \<noteq> -1"
  shows "lower_edns0 ea = ea \<or> weight (lower_edns0 ea) < weight ea \<and> 0 < ea_remaining_attempts (lower_edns0 ea)"
    and "arrival_ready E (lower_edns0 ea)" and "ea_remaining_attempts (lower_edns0 ea) \<noteq> -1"
proof -
  have n: "-1 \<le> ea_remaining_attempts ea" using assms(1) by (simp add: arrival_ready_def)
  from lower_edns0_same [of ea]
  have "(lower_edns0 ea = ea \<or> weight (lower_edns0 ea) < weight ea \<and> 0 < ea_remaining_attempts (lower_edns0 ea)) \<and>
    arrival_ready E (lower_edns0 ea) \<and> ea_remaining_attempts (lower_edns0 ea) \<noteq> -1"
  proof
    assume "lower_edns0 ea = ea"
    with assms show ?thesis by simp
  next
    assume "\<exists>s. 0 < s \<and> Suc (sizes_left ((ea_ns ea)\<lparr> ns_edns0_size := s \<rparr>)) = sizes_left (ea_ns ea) \<and>
      lower_edns0 ea = ea\<lparr> ea_ns := (ea_ns ea)\<lparr> ns_edns0_size := s \<rparr>,
        ea_remaining_attempts := (if ea_remaining_attempts ea \<le> 0 then 1 else ea_remaining_attempts ea + 1) \<rparr>"
    then obtain s where s: "Suc (sizes_left ((ea_ns ea)\<lparr> ns_edns0_size := s \<rparr>)) = sizes_left (ea_ns ea)"
      "lower_edns0 ea = ea\<lparr> ea_ns := (ea_ns ea)\<lparr> ns_edns0_size := s \<rparr>,
        ea_remaining_attempts := (if ea_remaining_attempts ea \<le> 0 then 1 else ea_remaining_attempts ea + 1) \<rparr>" by blast
    have "arrival_ready E (lower_edns0 ea)" using assms(1) n unfolding s(2) by (simp add: arrival_ready_def server_ready_def)
    moreover have "0 < ea_remaining_attempts (lower_edns0 ea)" unfolding s(2) by simp
    moreover have "weight (lower_edns0 ea) < weight ea"
      unfolding weight_unfinished [OF assms(2)] s(2) using n assms(2) s(1) by (subst weight_unfinished) auto
    ultimately show ?thesis by simp
  qed
  then show "lower_edns0 ea = ea \<or> weight (lower_edns0 ea) < weight ea \<and> 0 < ea_remaining_attempts (lower_edns0 ea)"
    "arrival_ready E (lower_edns0 ea)" "ea_remaining_attempts (lower_edns0 ea) \<noteq> -1" by auto
qed

lemma payload_ready:
  assumes "arrival_ready E ea" "length (ev_stack E) = payload_limit"
  shows "\<exists>q io'. payload_for E (ea_ns ea) (ea_name ea) (ea_class_h ea) (ea_type_h ea) io = Some (Some q, io')"
proof -
  obtain ls where ls: "wf_name ls" "ea_name ea = text_name ls @ [0]" using assms(1) by (auto simp: arrival_ready_def)
  show ?thesis
  proof (cases "ns_security_options (ea_ns ea) AND ZONE_USE_TSIG = 0")
    case True
    with payload_plain [OF ls(1) assms(2) True] ls(2) show ?thesis by (simp add: payload_for_def)
  next
    case False
    with assms(1) obtain t nls als md where t: "hmac_sized (ev_ssl E)" "ns_tsig (ea_ns ea) = Some t" "wf_tsig t nls als md"
      by (auto simp: arrival_ready_def server_ready_def)
    let ?q = "query_bytes (ev_le E) (ev_random E (io_draws io)) (ea_ns ea) ls (ea_type_h ea) (ea_class_h ea)"
    obtain i where "get16 ?q 0 = Some i" by (rule query_id)
    from payload_signed [OF ls(1) assms(2) False t(2,3,1) refl this query_arcount] ls(2) show ?thesis by (simp add: payload_for_def)
  qed
qed

lemma next_address_less:
  assumes "res_io_next_address E ea rest io = (ea', rest', io')" "arrival_ready E ea" "ea_remaining_attempts ea \<noteq> -1"
  shows "weight ea' < weight ea" and "arrival_ready E ea'" and "retimed rest rest'"
proof -
  have n: "0 \<le> ns_retry (ea_ns ea)" "-1 < ea_remaining_attempts ea" "ea_which_address ea < length (ns_address (ea_ns ea))"
    using assms(2,3) by (auto simp: arrival_ready_def server_ready_def)
  have "weight ea' < weight ea \<and> arrival_ready E ea' \<and> retimed rest rest'"
  proof (cases "int (ea_which_address ea) < int (length (ns_address (ea_ns ea))) - 1")
    case True
    obtain ea1 io1 where c: "close_socket ea io = (ea1, io1)" by (cases "close_socket ea io")
    obtain k where k: "length (ns_address (ea_ns ea)) - 1 - ea_which_address ea = Suc k"
      "length (ns_address (ea_ns ea)) - 1 - Suc (ea_which_address ea) = k" using True n by (cases "length (ns_address (ea_ns ea)) - 1 - ea_which_address ea") auto
    from assms(1) True c close_socket_only [OF c] n assms(2) k show ?thesis
      by (auto simp: res_io_next_address_def set_alarms_def gettimeofday_def Let_def weight_def arrival_ready_def)
  next
    case False
    obtain ea1 io1 where c: "res_io_cancel_source E ea io = (ea1, io1)" by (cases "res_io_cancel_source E ea io")
    have e: "weight ea1 = 0 \<and> arrival_ready E ea1"
      using c assms(2) by (auto simp: res_io_cancel_source_def gettimeofday_def weight_def arrival_ready_def Let_def split: prod.splits dest!: close_socket_only)
    have w: "0 < weight ea" using assms(3) by (simp add: weight_def)
    from assms(1) False c e w show ?thesis
      by (auto simp: res_io_next_address_def Let_def split: list.splits if_splits prod.splits dest!: reset_timeouts_retimed)
  qed
  then show "weight ea' < weight ea" "arrival_ready E ea'" "retimed rest rest'" by auto
qed

lemma next_address_starts_over:
  assumes "res_io_next_address E ea rest io = (ea', rest', io')" "ea_remaining_attempts ea' \<noteq> -1"
  shows "ea_remaining_attempts ea' = ns_retry (ea_ns ea') + 1"
  using assms by (auto simp: res_io_next_address_def res_io_cancel_source_def close_socket_def set_alarms_def gettimeofday_def Let_def
      split: if_splits option.splits list.splits prod.splits)

lemma fallback_progress:
  assumes "arrival_ready E ea" "ea_remaining_attempts ea \<noteq> -1" "length (ev_stack E) = payload_limit"
  shows "\<exists>r ea' rest' e' io'. fallback_arrival E b ea rest (Some e) io = Some (r, ea', rest', Some e', io') \<and> arrival_ready E ea' \<and>
    ea_remaining_attempts ea' \<noteq> -1 \<and> retimed rest rest' \<and> weight ea' \<le> weight ea \<and>
    (r = 1 \<and> ea_remaining_attempts ea = 0 \<longrightarrow> weight ea' < weight ea)"
proof -
  note low = lower_edns0_weight [OF assms(1,2)]
  show ?thesis
  proof (cases "ea_remaining_attempts (lower_edns0 ea) \<le> 0")
    case True
    obtain ea1 io1 where c: "res_io_reset_source E (lower_edns0 ea) io = (ea1, io1)" by (cases "res_io_reset_source E (lower_edns0 ea) io")
    then have "weight ea1 = weight (lower_edns0 ea) \<and> arrival_ready E ea1 \<and> ea_remaining_attempts ea1 \<noteq> -1"
      using low by (auto simp: res_io_reset_source_def gettimeofday_def split: prod.splits dest!: close_socket_only)
    with True c low show ?thesis by (auto simp: fallback_arrival_def Let_def)
  next
    case False
    obtain ea1 rest1 io1 where t: "reset_timeouts E (lower_edns0 ea) rest io = (ea1, rest1, io1)"
      by (cases "reset_timeouts E (lower_edns0 ea) rest io")
    note same = reset_timeouts_retimed [OF t]
    note keep = same_but_times_keeps [OF conjunct1 [OF same]]
    have w: "weight ea1 \<le> weight ea" "ea_remaining_attempts ea = 0 \<Longrightarrow> weight ea1 < weight ea"
      using low(1) False keep(1) by auto
    show ?thesis
    proof (cases "ns_edns0_size (ea_ns ea) = 0")
      case True
      with False t same keep low w show ?thesis by (simp add: fallback_arrival_def UPDATE_def)
    next
      case nz: False
      have "arrival_ready E ea1" using keep(2) low(2) by simp
      from payload_ready [OF this assms(3), of io1] obtain q io2
        where p: "payload_for E (ea_ns ea1) (ea_name ea1) (ea_class_h ea1) (ea_type_h ea1) io1 = Some (Some q, io2)" by blast
      obtain ea2 io3 where c: "close_socket (ea1\<lparr> ea_signed := q \<rparr>) io2 = (ea2, io3)" by (cases "close_socket (ea1\<lparr> ea_signed := q \<rparr>) io2")
      then have "ea2 = ea1\<lparr> ea_signed := q, ea_socket := None \<rparr>" by (rule close_socket_only)
      with False nz t same keep low w p c show ?thesis by (simp add: fallback_arrival_def UPDATE_def)
    qed
  qed
qed

lemma res_io_send_cases:
  assumes "arrival_ready E ea" "0 < ea_remaining_attempts ea"
  shows "\<exists>rc ea' io'. res_io_send E ea io = Some (rc, ea', io') \<and> arrival_ready E ea' \<and> weight ea' \<le> weight ea \<and>
    (rc = SR_IO_SOCKET_ERROR \<longrightarrow> ea_remaining_attempts ea' \<noteq> -1) \<and>
    (rc = SR_IO_SOCKET_ERROR \<or> rc = SR_IO_UNSET \<and> weight ea' < weight ea \<or>
     rc = SR_IO_TOO_MANY_TRANS \<and> ea' = ea \<and> ea_socket ea = None \<and> (if io_max io = 0 then init_max_fd (ev_rlimit E) else io_max io) \<le> io_open io)"
proof -
  have less: "weight (ea\<lparr> ea_remaining_attempts := ea_remaining_attempts ea - 1 \<rparr>) < weight ea"
    using assms by (simp add: weight_def)
  have which: "\<not> length (ns_address (ea_ns ea)) \<le> ea_which_address ea" using assms(1) by (simp add: arrival_ready_def)
  have ready: "arrival_ready E (ea\<lparr> ea_remaining_attempts := ea_remaining_attempts ea - 1 \<rparr>)"
    using assms by (simp add: arrival_ready_def)
  have w: "weight (ea\<lparr> ea_socket := s, ea_remaining_attempts := n \<rparr>) = weight (ea\<lparr> ea_remaining_attempts := n \<rparr>)"
    "arrival_ready E (ea\<lparr> ea_socket := s, ea_remaining_attempts := n \<rparr>) = arrival_ready E (ea\<lparr> ea_remaining_attempts := n \<rparr>)" for s n
    by (simp_all add: weight_def arrival_ready_def)
  show ?thesis
    using assms which less ready
    by (auto simp: res_io_send_def open_and_send_def send_bytes_def send_failed_def res_io_retry_source_def res_io_reset_source_def w
        set_alarms_def gettimeofday_def close_socket_def Let_def split: sent.splits option.splits)
qed

lemma send_loop_progress:
  assumes "arrival_ready E ea" "0 < ea_remaining_attempts ea"
  shows "\<exists>ea' rest' io'. send_loop E ea rest io = Some (ea', rest', io') \<and> arrival_ready E ea' \<and> retimed rest rest' \<and> weight ea' \<le> weight ea \<and>
    (ea_socket ea \<noteq> None \<or> io_open io < (if io_max io = 0 then init_max_fd (ev_rlimit E) else io_max io) \<longrightarrow> weight ea' < weight ea)"
  using assms
proof (induction E ea rest io rule: send_loop.induct)
  case (1 E ea rest io)
  from res_io_send_cases [OF 1(2,3), of io] obtain rc ea1 io1 where s: "res_io_send E ea io = Some (rc, ea1, io1)"
    and p: "arrival_ready E ea1" "weight ea1 \<le> weight ea" "rc = SR_IO_SOCKET_ERROR \<Longrightarrow> ea_remaining_attempts ea1 \<noteq> -1"
      "rc = SR_IO_SOCKET_ERROR \<or> rc = SR_IO_UNSET \<and> weight ea1 < weight ea \<or>
       rc = SR_IO_TOO_MANY_TRANS \<and> ea1 = ea \<and> ea_socket ea = None \<and> (if io_max io = 0 then init_max_fd (ev_rlimit E) else io_max io) \<le> io_open io"
    by blast
  have n: "ea_remaining_attempts ea \<noteq> -1" using 1(3) by simp
  show ?case
  proof (cases "rc = SR_IO_SOCKET_ERROR")
    case True
    obtain ea2 rest2 io2 where a: "res_io_next_address E ea1 rest io1 = (ea2, rest2, io2)" by (cases "res_io_next_address E ea1 rest io1")
    note less = next_address_less [OF a p(1) p(3) [OF True]]
    have run: "send_loop E ea rest io = send_loop E ea2 rest2 io2" using n s True a by (subst send_loop.simps) simp
    show ?thesis
    proof (cases "ea_remaining_attempts ea2 = -1")
      case True
      then have "send_loop E ea2 rest2 io2 = Some (ea2, rest2, io2)" by (subst send_loop.simps) simp
      with run less p(2) show ?thesis by auto
    next
      case False
      have "0 < ea_remaining_attempts ea2"
        using next_address_starts_over [OF a False] less(2) by (simp add: arrival_ready_def server_ready_def)
      from 1(1) [OF n s refl refl True a [symmetric] refl less(2) this] obtain ea3 rest3 io3
        where "send_loop E ea2 rest2 io2 = Some (ea3, rest3, io3)" "arrival_ready E ea3" "retimed rest2 rest3" "weight ea3 \<le> weight ea2"
        by blast
      with run less p(2) show ?thesis by (auto intro: retimed_trans)
    qed
  next
    case False
    with n s have "send_loop E ea rest io = Some (ea1, rest, io1)" by (subst send_loop.simps) simp
    with p False show ?thesis by auto
  qed
qed

lemma check_arrival_progress:
  assumes "arrival_ready E ea" "ea_remaining_attempts ea \<noteq> -1" "length (ev_stack E) = payload_limit"
  shows "\<exists>d ea' rest' e' io'. check_arrival E now (Some e) ea rest io = Some (d, ea', rest', Some e', io') \<and> arrival_ready E ea' \<and>
    retimed rest rest' \<and> weight ea' \<le> weight ea \<and> (in_time E now io ea \<longrightarrow> weight ea' < weight ea)"
proof (cases "is_over now ea")
  case True
  from fallback_progress [OF assms, of True rest e io] obtain r ea1 rest1 e1 io1
    where f: "fallback_arrival E True ea rest (Some e) io = Some (r, ea1, rest1, Some e1, io1)"
      and p: "arrival_ready E ea1" "ea_remaining_attempts ea1 \<noteq> -1" "retimed rest rest1" "weight ea1 \<le> weight ea"
        "r = 1 \<and> ea_remaining_attempts ea = 0 \<longrightarrow> weight ea1 < weight ea" by blast
  show ?thesis
  proof (cases "r = 1")
    case True
    have "in_time E now io ea \<Longrightarrow> ea_remaining_attempts ea = 0" using \<open>is_over now ea\<close> by (auto simp: is_over_def in_time_def)
    with f p True \<open>is_over now ea\<close> show ?thesis by (auto simp: check_arrival_def Let_def)
  next
    case False
    obtain ea2 rest2 io2 where a: "res_io_next_address E ea1 rest1 io1 = (ea2, rest2, io2)" by (cases "res_io_next_address E ea1 rest1 io1")
    from next_address_less [OF a p(1,2)] f p False a \<open>is_over now ea\<close> show ?thesis
      by (auto simp: check_arrival_def Let_def intro: retimed_trans)
  qed
next
  case False
  show ?thesis
  proof (cases "LTEQ (ea_next_try ea) now")
    case True
    with False assms(1,2) have "0 < ea_remaining_attempts ea" by (auto simp: is_over_def arrival_ready_def)
    from send_loop_progress [OF assms(1) this, of rest io] obtain ea1 rest1 io1 where "send_loop E ea rest io = Some (ea1, rest1, io1)"
      "arrival_ready E ea1" "retimed rest rest1" "weight ea1 \<le> weight ea"
      "ea_socket ea \<noteq> None \<or> io_open io < (if io_max io = 0 then init_max_fd (ev_rlimit E) else io_max io) \<longrightarrow> weight ea1 < weight ea" by blast
    with True False \<open>0 < ea_remaining_attempts ea\<close> show ?thesis by (auto simp: check_arrival_def in_time_def)
  qed (use False assms in \<open>auto simp: check_arrival_def in_time_def\<close>)
qed

lemma note_event_some: "\<exists>e'. note_event (Some e) ea = Some (Some e')"
  by (auto simp: note_event_def UPDATE_def)

lemma check_loop_progress:
  assumes "length (ev_stack E) = payload_limit" "list_all (arrival_ready E) eas"
  shows "\<exists>eas' e' io' d n. check_loop E now (Some e) eas io = Some (eas', Some e', io', d, n) \<and> list_all (arrival_ready E) eas' \<and>
    total_weight eas' \<le> total_weight eas \<and> (first_in_time E now io eas \<longrightarrow> total_weight eas' < total_weight eas)"
  using assms(2)
proof (induction "length eas" arbitrary: e eas io)
  case 0
  then show ?case by (simp add: first_in_time_def)
next
  case (Suc k)
  then obtain ea rest where eas: "eas = ea # rest" "k = length rest" by (cases eas) auto
  show ?case
  proof (cases "ea_remaining_attempts ea = -1")
    case True
    from Suc.hyps(1) [OF eas(2), of e io] Suc.prems eas(1) True show ?thesis
      by (auto simp: first_in_time_def res_io_is_finished_def total_weight_def)
  next
    case False
    from Suc.prems eas(1) have r: "arrival_ready E ea" "list_all (arrival_ready E) rest" by auto
    from check_arrival_progress [OF r(1) False assms(1), of now e rest io] obtain d ea1 rest1 e1 io1
      where c: "check_arrival E now (Some e) ea rest io = Some (d, ea1, rest1, Some e1, io1)"
        and p: "arrival_ready E ea1" "retimed rest rest1" "weight ea1 \<le> weight ea" "in_time E now io ea \<longrightarrow> weight ea1 < weight ea" by blast
    obtain e2 where e2: "note_event (Some e1) ea1 = Some (Some e2)" using note_event_some by blast
    have "k = length rest1" using eas(2) check_arrival_length [OF c] by simp
    from Suc.hyps(1) [OF this, of e2 io1] retimed_ready [OF p(2)] r(2) obtain rest2 e3 io2 d' n
      where l: "check_loop E now (Some e2) rest1 io1 = Some (rest2, Some e3, io2, d', n)" "list_all (arrival_ready E) rest2"
        "total_weight rest2 \<le> total_weight rest1" by blast
    from c e2 l(1) False have "check_loop E now (Some e) (ea # rest) io =
      Some (ea1 # rest2, Some e3, io2, d + d', n + (if ea_remaining_attempts ea1 = -1 then 0 else 1))" by simp
    moreover have "first_in_time E now io (ea # rest) = in_time E now io ea" using False by (simp add: first_in_time_def res_io_is_finished_def)
    ultimately show ?thesis using p l retimed_weight [OF p(2)] unfolding eas(1) by (auto simp: total_weight_def)
  qed
qed

lemma check_progress:
  assumes "length (ev_stack E) = payload_limit" "list_all (arrival_ready E) eas"
  shows "\<exists>rc eas' e' io' d n. res_io_check_ea_list E eas (Some e) (Some now) io = Some (rc, eas', Some e', io', d, n) \<and>
    list_all (arrival_ready E) eas' \<and> total_weight eas' \<le> total_weight eas \<and>
    (first_in_time E now io eas \<longrightarrow> total_weight eas' < total_weight eas)"
  using check_loop_progress [OF assms, of now e io] by (auto simp: res_io_check_ea_list_def)

lemma finished_weight: "total_weight eas = 0 \<longleftrightarrow> res_io_are_all_finished eas"
  by (auto simp: total_weight_def res_io_are_all_finished_def res_io_is_finished_def weight_def list_all_iff)

text \<open>The state after a number of checks at the times \<open>clock\<close>, as \<open>res_io_check\<close> makes them.\<close>

primrec after_checks :: "environment \<Rightarrow> (nat \<Rightarrow> timeval) \<Rightarrow> nat \<Rightarrow> arrival list \<Rightarrow> io \<Rightarrow> (arrival list \<times> io) option" where
  "after_checks E clock 0 eas io = Some (eas, io)"
| "after_checks E clock (Suc k) eas io = do {
     (eas, io) \<leftarrow> after_checks E clock k eas io;
     (_, eas, _, io, _, _) \<leftarrow> res_io_check_ea_list E eas (Some (0, 0)) (Some (clock k)) io;
     Some (eas, io)
   }"

definition timely :: "environment \<Rightarrow> (nat \<Rightarrow> timeval) \<Rightarrow> nat \<Rightarrow> arrival list \<Rightarrow> io \<Rightarrow> bool" where
  "timely E clock k eas io = (case after_checks E clock k eas io of None \<Rightarrow> False | Some (eas, io) \<Rightarrow> first_in_time E (clock k) io eas)"

definition ended :: "environment \<Rightarrow> (nat \<Rightarrow> timeval) \<Rightarrow> nat \<Rightarrow> arrival list \<Rightarrow> io \<Rightarrow> bool" where
  "ended E clock k eas io = (case after_checks E clock k eas io of None \<Rightarrow> False | Some (eas, io) \<Rightarrow> res_io_are_all_finished eas)"

lemma after_checks_total:
  assumes "length (ev_stack E) = payload_limit" "list_all (arrival_ready E) eas"
  shows "\<exists>eas' io'. after_checks E clock k eas io = Some (eas', io') \<and> list_all (arrival_ready E) eas'"
proof (induction k)
  case (Suc k)
  then obtain eas1 io1 where s: "after_checks E clock k eas io = Some (eas1, io1)" "list_all (arrival_ready E) eas1" by blast
  from check_progress [OF assms(1) s(2), of "(0, 0)" "clock k" io1] s(1) show ?case by auto
qed (use assms(2) in simp)

definition left_after :: "environment \<Rightarrow> (nat \<Rightarrow> timeval) \<Rightarrow> nat \<Rightarrow> arrival list \<Rightarrow> io \<Rightarrow> nat" where
  "left_after E clock k eas io = (case after_checks E clock k eas io of None \<Rightarrow> 0 | Some (eas, io) \<Rightarrow> total_weight eas)"

lemma left_after_step:
  assumes "length (ev_stack E) = payload_limit" "list_all (arrival_ready E) eas"
  shows "left_after E clock (Suc k) eas io \<le> left_after E clock k eas io"
    and "timely E clock k eas io \<Longrightarrow> left_after E clock (Suc k) eas io < left_after E clock k eas io"
    and "ended E clock k eas io = (left_after E clock k eas io = 0)"
proof -
  from after_checks_total [OF assms, of clock k io] obtain eas1 io1 where s: "after_checks E clock k eas io = Some (eas1, io1)"
    "list_all (arrival_ready E) eas1" by blast
  from check_progress [OF assms(1) s(2), of "(0, 0)" "clock k" io1] s(1)
  show "left_after E clock (Suc k) eas io \<le> left_after E clock k eas io"
    "timely E clock k eas io \<Longrightarrow> left_after E clock (Suc k) eas io < left_after E clock k eas io"
    "ended E clock k eas io = (left_after E clock k eas io = 0)"
    by (auto simp: left_after_def timely_def ended_def finished_weight)
qed

lemma decreasing_ends:
  fixes f :: "nat \<Rightarrow> nat"
  assumes "\<And>k. f (Suc k) \<le> f k" and "\<And>k. 0 < f k \<Longrightarrow> \<exists>j\<ge>k. f j = 0 \<or> f (Suc j) < f j"
  shows "\<exists>k. \<forall>j\<ge>k. f j = 0"
proof -
  have mono: "k \<le> j \<Longrightarrow> f j \<le> f k" for k j using assms(1) by (rule lift_Suc_antimono_le)
  have "\<exists>k. f k = 0"
  proof -
    have "\<exists>j. f j = 0" if "f k = n" for k n
      using that
    proof (induction n arbitrary: k rule: less_induct)
      case (less n)
      show ?case
      proof (cases "n = 0")
        case False
        with less.prems assms(2) [of k] obtain j where j: "k \<le> j" "f j = 0 \<or> f (Suc j) < f j" by auto
        then show ?thesis using less.IH [of "f (Suc j)" "Suc j"] mono [OF j(1)] less.prems by auto
      qed (use less.prems in blast)
    qed
    then show ?thesis by blast
  qed
  then obtain k where "f k = 0" ..
  then have "\<forall>j\<ge>k. f j = 0" using mono by fastforce
  then show ?thesis ..
qed

lemma checks_end:
  assumes "length (ev_stack E) = payload_limit" "list_all (arrival_ready E) eas"
    and "\<And>k. \<not> ended E clock k eas io \<Longrightarrow> \<exists>j\<ge>k. ended E clock j eas io \<or> timely E clock j eas io"
  shows "\<exists>k. \<forall>j\<ge>k. ended E clock j eas io"
proof -
  note step = left_after_step [OF assms(1,2)]
  have "\<exists>j\<ge>k. left_after E clock j eas io = 0 \<or> left_after E clock (Suc j) eas io < left_after E clock j eas io"
    if "0 < left_after E clock k eas io" for k
    using assms(3) [of k] that step(2,3) by (metis not_gr_zero)
  from decreasing_ends [of "\<lambda>k. left_after E clock k eas io", OF step(1) this] show ?thesis using step(3) by blast
qed

section \<open>What is read\<close>

text \<open>A message that stays with an arrival after \<open>res_io_read\<close> repeats the identifier and the name of the query.\<close>

lemma read_udp_stream: "res_io_read_udp E ea io = Some (rc, ea', io') \<Longrightarrow> ea_using_stream ea' = ea_using_stream ea \<and> ea_signed ea' = ea_signed ea"
  by (auto simp: res_io_read_udp_def read_failed_def res_io_reset_source_def close_socket_def gettimeofday_def Let_def
      split: if_splits recv_result.splits option.splits prod.splits)

lemma read_tcp_stream: "res_io_read_tcp E ea io = Some (rc, ea', io') \<Longrightarrow> ea_using_stream ea' = ea_using_stream ea \<and> ea_signed ea' = ea_signed ea"
  by (auto simp: res_io_read_tcp_def read_failed_def res_io_reset_source_def res_io_retry_source_def close_socket_def gettimeofday_def Let_def
      split: if_splits option.splits prod.splits Option.bind_splits)

lemma read_response:
  assumes "(if ea_using_stream ea then res_io_read_tcp E ea io else res_io_read_udp E ea io) = Some (rc, ea', io')"
    and "rc \<noteq> SR_IO_UNSET" "ea_response ea = None"
  shows "ea_response ea' = None"
  using assms by (auto simp: res_io_read_udp_def res_io_read_tcp_def read_failed_def res_io_reset_source_def res_io_retry_source_def
      close_socket_def gettimeofday_def Let_def split: if_splits recv_result.splits option.splits prod.splits Option.bind_splits)

lemma switch_response: "ea_response (fst (res_switch_to_tcp E ea io)) = None"
  by (auto simp: res_switch_to_tcp_def set_alarms_def close_socket_def gettimeofday_def Let_def split: option.splits prod.splits)

lemma read_arrival_expected:
  assumes "read_arrival E ea io = Some (ea', io')" "ea_response ea = None" "ea_response ea' = Some r"
  shows "is_expected (ea_signed ea) r = Some True \<and> (\<not> ea_using_stream ea \<longrightarrow> (\<exists>b. rd r 2 = Some b \<and> b AND 2 = 0))"
proof -
  from assms(1) obtain rc ea1 io1 where rd: "(if ea_using_stream ea then res_io_read_tcp E ea io else res_io_read_udp E ea io) = Some (rc, ea1, io1)"
    by (auto simp: read_arrival_def split: Option.bind_splits)
  have same: "ea_using_stream ea1 = ea_using_stream ea" "ea_signed ea1 = ea_signed ea"
    using rd by (auto split: if_splits dest: read_tcp_stream read_udp_stream)
  have rc: "rc = SR_IO_UNSET"
  proof (rule ccontr)
    assume "rc \<noteq> SR_IO_UNSET"
    with read_response [OF rd this assms(2)] assms(1,3) rd show False by (simp add: read_arrival_def)
  qed
  from assms(1) rd rc same obtain msg ok where m: "ea_response ea1 = Some msg" "is_expected (ea_signed ea) msg = Some ok"
    by (auto simp: read_arrival_def split: Option.bind_splits)
  show ?thesis
    using assms(1,3) rd rc same m switch_response [of E ea1 io1]
    by (auto simp: read_arrival_def split: if_splits Option.bind_splits)
qed

lemma is_expected_names:
  assumes "is_expected (h @ enc xs @ t) (h' @ enc ys @ t') = Some True" "wf_name xs" "wf_name ys" "length h = 12" "length h' = 12"
  shows "take 2 h' = take 2 h \<and> cname xs = cname ys"
  using assms res_quecmp_names [OF assms(2-5), of t t'] namecmp_eq_0 [of "enc xs @ t" xs "enc ys @ t'" ys]
  by (auto simp: is_expected_def seg_def split: if_splits Option.bind_splits)

text \<open>A message over a stream is looked at whatever its length is.\<close>

lemma short_message:
  assumes "length r < 12" "length r < 4 \<or> take 2 r = take 2 q"
  shows "do { ok \<leftarrow> is_expected q r; if ok then Some () else map_option (\<lambda>_. ()) (rd r 3) } = None"
  using assms by (auto simp: is_expected_def seg_def res_quecmp_def ptr_def rd_def split: if_splits Option.bind_splits)

lemma read_short_message:
  assumes "ea_using_stream ea" "complete_read E 2 [] io = (l, io1)" "length l = 2" "get16 l 0 = Some w" "w \<noteq> 0"
    and "complete_read E (unat w) [] io1 = (msg, io2)" "length msg = unat w" "unat w < 12"
    and "unat w < 4 \<or> take 2 msg = take 2 (ea_signed ea)"
  shows "read_arrival E ea io = None"
proof -
  have "unat w \<noteq> 0" using assms(5) by (simp add: unat_eq_zero)
  with assms have "res_io_read_tcp E ea io = Some (SR_IO_UNSET, ea\<lparr> ea_response := Some msg, ea_response_length := unat w \<rparr>, io2)"
    by (simp add: res_io_read_tcp_def Let_def)
  moreover have "do { ok \<leftarrow> is_expected (ea_signed ea) msg; if ok then Some () else map_option (\<lambda>_. ()) (rd msg 3) } = None"
    using assms(7-9) by (intro short_message) simp_all
  ultimately show ?thesis using assms(1) by (auto simp: read_arrival_def split: Option.bind_splits if_splits)
qed

section \<open>No time to wait\<close>

text \<open>With a timeout of zero an arrival is over whenever it is due, so nothing is ever sent.\<close>

definition no_time :: "arrival \<Rightarrow> bool" where
  "no_time ea \<longleftrightarrow> ns_retrans (ea_ns ea) = 0 \<and> (ea_remaining_attempts ea = -1 \<or> ea_next_try ea = ea_cancel_time ea)"

lemma no_timeout: "ns_retrans ns = 0 \<Longrightarrow> res_get_timeout ns = 0"
  by (simp add: res_get_timeout_def map_replicate_const sum_list_replicate)

lemma no_time_reset: 
  assumes "reset_timeouts E ea rest io = (ea', rest', io')" "ns_retrans (ea_ns ea) = 0" "list_all no_time rest"
  shows "no_time ea' \<and> list_all no_time rest' \<and> io_sends io' = io_sends io"
proof -
  have "list_all no_time (map (shift_alarms n) rest)" for n
    using assms(3) by (auto simp: list_all_iff no_time_def shift_alarms_def)
  with assms show ?thesis
    by (auto simp: reset_timeouts_def set_alarms_def gettimeofday_def no_timeout no_time_def Let_def simp del: list.map split: list.splits if_splits)
qed

lemma no_time_reset_both:
  assumes "reset_timeouts E ea rest io = (ea', rest', io')" "no_time ea" "list_all no_time rest"
  shows "no_time ea'" and "list_all no_time rest'" and "io_sends io' = io_sends io"
  using no_time_reset [OF assms(1)] assms(2,3) by (simp_all add: no_time_def)

lemma no_time_close: "close_socket ea io = (ea', io') \<Longrightarrow> no_time ea' = no_time ea \<and> ea_ns ea' = ea_ns ea \<and> io_sends io' = io_sends io"
  by (auto simp: close_socket_def no_time_def split: option.splits)

lemma lower_edns0_retrans [simp]: "ns_retrans (ea_ns (lower_edns0 ea)) = ns_retrans (ea_ns ea)"
  by (simp add: lower_edns0_def Let_def split: option.splits)

lemma no_time_fallback:
  assumes "fallback_arrival E b ea rest ev io = Some (r, ea', rest', ev', io')" "no_time ea" "list_all no_time rest"
  shows "ns_retrans (ea_ns ea') = 0 \<and> (r = 1 \<longrightarrow> no_time ea') \<and> list_all no_time rest' \<and> io_sends io' = io_sends io"
proof (cases "ea_remaining_attempts (lower_edns0 ea) \<le> 0")
  case True
  with assms show ?thesis
    by (auto simp: fallback_arrival_def res_io_reset_source_def gettimeofday_def Let_def no_time_def close_socket_def split: prod.splits option.splits if_splits)
next
  case False
  obtain ea1 rest1 io1 where t: "reset_timeouts E (lower_edns0 ea) rest io = (ea1, rest1, io1)"
    by (cases "reset_timeouts E (lower_edns0 ea) rest io")
  have n: "no_time ea1 \<and> list_all no_time rest1 \<and> io_sends io1 = io_sends io"
    using no_time_reset [OF t] assms(2,3) by (simp add: no_time_def)
  then show ?thesis
    using assms(1) False t
    by (auto simp: fallback_arrival_def payload_for_def Let_def split: Option.bind_splits if_splits prod.splits option.splits dest!: no_time_close)
      (auto simp: no_time_def)
qed

lemma no_time_next:
  assumes "res_io_next_address E ea rest io = (ea', rest', io')" "ns_retrans (ea_ns ea) = 0" "list_all no_time rest"
  shows "no_time ea' \<and> list_all no_time rest' \<and> io_sends io' = io_sends io"
proof (cases "int (ea_which_address ea) < int (length (ns_address (ea_ns ea))) - 1")
  case True
  with assms show ?thesis
    by (auto simp: res_io_next_address_def set_alarms_def gettimeofday_def Let_def no_time_def no_timeout split: prod.splits dest!: no_time_close)
next
  case False
  obtain ea1 io1 where c: "res_io_cancel_source E ea io = (ea1, io1)" by (cases "res_io_cancel_source E ea io")
  then have "no_time ea1" "io_sends io1 = io_sends io" using assms(2)
    by (auto simp: res_io_cancel_source_def gettimeofday_def Let_def no_time_def split: prod.splits dest!: no_time_close)
  with assms False c show ?thesis
    by (auto simp: res_io_next_address_def Let_def split: list.splits if_splits prod.splits dest: no_time_reset_both)
qed

lemma no_time_check_arrival:
  assumes "check_arrival E now ev ea rest io = Some (d, ea', rest', ev', io')" "no_time ea" "ea_remaining_attempts ea \<noteq> -1" "list_all no_time rest"
  shows "no_time ea' \<and> list_all no_time rest' \<and> io_sends io' = io_sends io"
proof (cases "is_over now ea")
  case True
  with assms obtain r ea1 rest1 io1 where f: "fallback_arrival E True ea rest ev io = Some (r, ea1, rest1, ev', io1)"
    and n: "(if r \<noteq> 1 then res_io_next_address E ea1 rest1 io1 else (ea1, rest1, io1)) = (ea', rest', io')"
    by (auto simp: check_arrival_def Let_def split: Option.bind_splits prod.splits if_splits)
  with no_time_fallback [OF f assms(2,4)] show ?thesis by (auto split: if_splits dest: no_time_next)
next
  case False
  with assms show ?thesis by (auto simp: check_arrival_def is_over_def no_time_def split: if_splits)
qed

lemma no_time_check_loop:
  "check_loop E now ev eas io = Some (eas', ev', io', d, n) \<Longrightarrow> list_all no_time eas \<Longrightarrow> list_all no_time eas' \<and> io_sends io' = io_sends io"
proof (induction E now ev eas io arbitrary: eas' ev' io' d n rule: check_loop.induct)
  case (2 E now ev ea rest io)
  show ?case
  proof (cases "ea_remaining_attempts ea = -1")
    case True
    with 2(3) obtain rest' d' n' where "check_loop E now ev rest io = Some (rest', ev', io', d', n')" "eas' = ea # rest'"
      by (auto split: Option.bind_splits)
    with 2(1) [OF True] 2(4) show ?thesis by auto
  next
    case False
    with 2(3) obtain d1 ea1 rest1 ev1 io1 ev2 rest' d' n' where c: "check_arrival E now ev ea rest io = Some (d1, ea1, rest1, ev1, io1)"
      and e: "note_event ev1 ea1 = Some ev2" and l: "check_loop E now ev2 rest1 io1 = Some (rest', ev', io', d', n')" "eas' = ea1 # rest'"
      by (auto split: Option.bind_splits)
    from no_time_check_arrival [OF c _ False] 2(4) have n: "no_time ea1" "list_all no_time rest1" "io_sends io1 = io_sends io" by auto
    from 2(2) [OF False c _ _ _ _ e l(1) n(2)] n l(2) show ?thesis by simp
  qed
qed simp

lemma no_time_checks: "after_checks E clock k eas io = Some (eas', io') \<Longrightarrow> list_all no_time eas \<Longrightarrow> list_all no_time eas' \<and> io_sends io' = io_sends io"
proof (induction k arbitrary: eas' io')
  case (Suc k)
  then show ?case
    by (auto simp: res_io_check_ea_list_def gettimeofday_def split: Option.bind_splits option.splits dest!: no_time_check_loop)
qed simp

text \<open>What \<open>res_async_query_create\<close> makes for servers without a timeout is such a list.\<close>

lemma no_time_created:
  "create_arrivals E name t c nss delay ok io = Some (ok', eas, io') \<Longrightarrow> list_all (\<lambda>ns. ns_retrans ns = 0) nss \<Longrightarrow>
     list_all no_time eas \<and> io_sends io' = io_sends io"
proof (induction nss arbitrary: delay ok io ok' eas io')
  case (Cons ns nss)
  then obtain p io1 eas1 where p: "payload_for E ns name c t io = Some (p, io1)"
    and l: "create_arrivals E name t c nss (delay + 1) (p \<noteq> None) (snd (res_ea_init E name t c (case p of None \<Rightarrow> [] | Some q \<Rightarrow> q) ns delay io1)) =
      Some (ok', eas1, io')" "eas = fst (res_ea_init E name t c (case p of None \<Rightarrow> [] | Some q \<Rightarrow> q) ns delay io1) # eas1"
    by (auto split: Option.bind_splits prod.splits)
  have "no_time (fst (res_ea_init E name t c q ns d io1)) \<and> io_sends (snd (res_ea_init E name t c q ns d io1)) = io_sends io1" for q d
    using Cons.prems(2) by (simp add: res_ea_init_def set_alarms_def gettimeofday_def no_time_def no_timeout Let_def)
  with Cons.IH [OF l(1)] Cons.prems(2) l(2) p show ?case by (auto simp: payload_for_def split: Option.bind_splits)
qed simp

text \<open>Falling back stops at the last size that is not zero.\<close>

lemma lower_edns0_keeps:
  "ns_options (ea_ns (lower_edns0 ea)) = ns_options (ea_ns ea) \<and> (0 < ns_edns0_size (ea_ns ea) \<longrightarrow> 0 < ns_edns0_size (ea_ns (lower_edns0 ea)))"
  using lower_edns0_same [of ea] by auto

section \<open>Queries that are created can be asked\<close>

lemma clone_ns_tsig_wf:
  assumes "clone_ns_tsig (Some t) = Some (Some t')" "wf_tsig t nls als md"
  shows "wf_tsig t' nls als md"
  using assms by (auto simp: clone_ns_tsig_def wf_tsig_def seg_def split: if_splits Option.bind_splits)

lemma clone_server_ready:
  assumes "clone_server ns = Some ns'" "server_ready E ns" "\<And>t. ns_tsig ns = Some t \<Longrightarrow> unat (ts_keylen t) < 2 ^ 63"
  shows "server_ready E ns' \<and> ns_address ns' = ns_address ns"
proof -
  from assms(1) obtain name t where t: "clone_ns_tsig (ns_tsig ns) = Some t" "ns' = ns\<lparr> ns_name_n := name, ns_tsig := t \<rparr>"
    by (auto simp: clone_server_def split: Option.bind_splits)
  show ?thesis
  proof (cases "ns_security_options ns AND ZONE_USE_TSIG = 0")
    case True
    with assms(2) t(2) show ?thesis by (simp add: server_ready_def)
  next
    case False
    with assms(2) obtain t0 nls als md where k: "hmac_sized (ev_ssl E)" "ns_tsig ns = Some t0" "wf_tsig t0 nls als md" "0 \<le> ns_retry ns"
      by (auto simp: server_ready_def)
    from t(1) k(2) assms(3) [OF k(2)] obtain t1 where "t = Some t1"
      by (auto simp: clone_ns_tsig_def split: if_splits Option.bind_splits)
    then have "wf_tsig t1 nls als md" using clone_ns_tsig_wf [OF _ k(3)] t(1) k(2) by simp
    then show ?thesis using t(2) k(1,4) \<open>t = Some t1\<close> unfolding server_ready_def by simp blast
  qed
qed

lemma clone_server_list_ready:
  assumes "clone_server_list nss = Some nss'"
    and "\<forall>ns\<in>set nss. server_ready E ns \<and> ns_address ns \<noteq> [] \<and> (\<forall>t. ns_tsig ns = Some t \<longrightarrow> unat (ts_keylen t) < 2 ^ 63)"
  shows "\<forall>ns\<in>set nss'. server_ready E ns \<and> ns_address ns \<noteq> []"
  using assms
proof (induction nss arbitrary: nss')
  case (Cons ns nss)
  then obtain c cs where "clone_server ns = Some c" "clone_server_list nss = Some cs" "nss' = c # cs"
    by (auto split: Option.bind_splits)
  with Cons clone_server_ready [of ns c E] show ?case by auto
qed simp

lemma created_ready:
  "create_arrivals E (text_name ls @ [0]) t c nss delay ok io = Some (ok', eas, io') \<Longrightarrow> wf_name ls \<Longrightarrow>
     \<forall>ns\<in>set nss. server_ready E ns \<and> ns_address ns \<noteq> [] \<Longrightarrow> list_all (arrival_ready E) eas"
proof (induction nss arbitrary: delay ok io ok' eas io')
  case (Cons ns nss)
  then obtain p io1 eas1 where p: "payload_for E ns (text_name ls @ [0]) c t io = Some (p, io1)"
    and l: "create_arrivals E (text_name ls @ [0]) t c nss (delay + 1) (p \<noteq> None)
        (snd (res_ea_init E (text_name ls @ [0]) t c (case p of None \<Rightarrow> [] | Some q \<Rightarrow> q) ns delay io1)) = Some (ok', eas1, io')"
      "eas = fst (res_ea_init E (text_name ls @ [0]) t c (case p of None \<Rightarrow> [] | Some q \<Rightarrow> q) ns delay io1) # eas1"
    by (auto split: Option.bind_splits prod.splits)
  have "arrival_ready E (fst (res_ea_init E (text_name ls @ [0]) t c q ns d io1))" for q d
    using Cons.prems(2,3) by (auto simp: res_ea_init_def set_alarms_def gettimeofday_def arrival_ready_def server_ready_def Let_def)
  with Cons.IH [OF l(1) Cons.prems(2)] Cons.prems(3) l(2) show ?case by simp
qed simp

definition askable :: "environment \<Rightarrow> server \<Rightarrow> bool" where
  "askable E ns \<longleftrightarrow> server_ready E ns \<and> ns_address ns \<noteq> [] \<and> (\<forall>t. ns_tsig ns = Some t \<longrightarrow> unat (ts_keylen t) < 2 ^ 63)"

lemma query_create_ready:
  assumes "res_async_query_create E (text_name ls @ [0]) t c nss io = Some (eas, io')" "wf_name ls" "\<forall>ns\<in>set nss. askable E ns"
  shows "list_all (arrival_ready E) eas"
proof (cases "nss = []")
  case False
  with assms(1) obtain l ok head io1 where cl: "clone_server_list nss = Some l"
    and c: "create_arrivals E (text_name ls @ [0]) t c l 0 True io = Some (ok, head, io1)" "eas = (if ok then head else [])"
    by (auto simp: res_async_query_create_def split: Option.bind_splits if_splits)
  have "\<forall>ns\<in>set l. server_ready E ns \<and> ns_address ns \<noteq> []"
    by (rule clone_server_list_ready [OF cl]) (use assms(3) in \<open>simp add: askable_def\<close>)
  with created_ready [OF c(1) assms(2)] c(2) show ?thesis by simp
qed (use assms in \<open>simp add: res_async_query_create_def\<close>)

lemma created_query_ends:
  assumes "res_async_query_create E (text_name ls @ [0]) t c nss io = Some (eas, io')" "wf_name ls" "\<forall>ns\<in>set nss. askable E ns"
    and "length (ev_stack E) = payload_limit"
    and "\<forall>k. ended E clock k eas io' \<or> (\<exists>j\<ge>k. timely E clock j eas io')"
  shows "\<exists>k. \<forall>j\<ge>k. ended E clock j eas io'"
  using checks_end [OF assms(4) query_create_ready [OF assms(1-3)]] assms(5) by blast

lemma ended_stays:
  assumes "length (ev_stack E) = payload_limit" "list_all (arrival_ready E) eas" "ended E clock k eas io" "k \<le> j"
  shows "ended E clock j eas io"
proof -
  note step = left_after_step [OF assms(1,2), of clock]
  have "left_after E clock j eas io \<le> left_after E clock k eas io"
    by (rule lift_Suc_antimono_le [of "\<lambda>k. left_after E clock k eas io", OF step(1) assms(4)])
  with assms(3) step(3) show ?thesis by simp
qed

lemma clone_server_retrans:
  "clone_server_list nss = Some nss' \<Longrightarrow> list_all (\<lambda>ns. ns_retrans ns = 0) nss \<Longrightarrow> list_all (\<lambda>ns. ns_retrans ns = 0) nss'"
  by (induction nss arbitrary: nss') (auto simp: clone_server_def split: Option.bind_splits)

lemma no_time_free: "io_sends (res_free_ea_list eas io) = io_sends io"
  by (induction eas arbitrary: io) (auto simp: close_socket_def split: option.splits)

lemma no_time_query:
  assumes "res_async_query_create E name t c nss io = Some (eas, io1)" "list_all (\<lambda>ns. ns_retrans ns = 0) nss"
    and "after_checks E clock k eas io1 = Some (eas', io')"
  shows "io_sends io' = io_sends io"
proof -
  have "list_all no_time eas \<and> io_sends io1 = io_sends io"
    using assms(1) clone_server_retrans [OF _ assms(2)]
    by (auto simp: res_async_query_create_def no_time_free split: Option.bind_splits if_splits dest!: no_time_created)
  with no_time_checks [OF assms(3)] show ?thesis by simp
qed

end
