(* ===== verification/Chains.thy ===== *)
theory Chains
  imports Config
begin

section \<open>Chains of trust\<close>

text \<open>
  The middle of \<^verbatim>\<open>libval/val_assertion.c\<close>: assertions from the answers of a query (\<open>assimilate_answers\<close>), what an assertion
  waits for (\<open>build_pending_query\<close>), the assertion that is to vouch for it (\<open>get_ac_trust\<close>) and its verification
  (\<open>try_verify_assertion\<close>). An assertion lives in one of the two lists of a query, so a pointer to it is the address of the
  query, the list and the position.
\<close>

subsection \<open>The state of a validation\<close>

text \<open>What is fixed during a call: OpenSSL, the time, options of the context, the choice of \<open>malloc\<close>, an unset local.\<close>

record venv =
  ve_ssl :: openssl
  ve_now :: int
  ve_max_refresh :: "int option"
  ve_closest_ta_only :: bool
  ve_fresh :: "(nat \<Rightarrow> val_query_chain option) \<Rightarrow> nat"
  ve_unset :: u32
  ve_rec_fallback :: bool
  ve_root_ns :: bool

record validator =
  va_cache :: query_cache
  va_queries :: "queries_for_query list"
  va_skew :: "int e_pol"
  va_zse :: "zone_se e_pol"
  va_ta :: "trust_anchor_policy e_pol"
  va_dlv :: "byte list e_pol"
  va_nsec3 :: "int e_pol"
  va_pu :: "prov_insecure e_pol"

type_synonym as_ref = "nat \<times> bool \<times> nat"

abbreviation VAL_AC_CAN_VERIFY :: u16 where "VAL_AC_CAN_VERIFY \<equiv> 1"
abbreviation VAL_AC_WAIT_FOR_RRSIG :: u16 where "VAL_AC_WAIT_FOR_RRSIG \<equiv> 3"
abbreviation VAL_AC_INIT :: u16 where "VAL_AC_INIT \<equiv> 5"
abbreviation VAL_AC_NEGATIVE_PROOF :: u16 where "VAL_AC_NEGATIVE_PROOF \<equiv> 6"
abbreviation VAL_AC_DONT_GO_FURTHER :: u16 where "VAL_AC_DONT_GO_FURTHER \<equiv> 7"
abbreviation VAL_AC_PINSECURE :: u16 where "VAL_AC_PINSECURE \<equiv> 9"
abbreviation VAL_AC_BARE_RRSIG :: u16 where "VAL_AC_BARE_RRSIG \<equiv> 10"
abbreviation VAL_AC_LAST_STATE :: u16 where "VAL_AC_LAST_STATE \<equiv> 12"
abbreviation VAL_AC_DS_MISSING :: u16 where "VAL_AC_DS_MISSING \<equiv> 15"
abbreviation VAL_AC_DATA_MISSING :: u16 where "VAL_AC_DATA_MISSING \<equiv> 16"
abbreviation VAL_AC_FAIL_BASE :: u16 where "VAL_AC_FAIL_BASE \<equiv> 17"
abbreviation Q_SENT :: u16 where "Q_SENT \<equiv> 2"
abbreviation Q_ERROR_BASE :: u16 where "Q_ERROR_BASE \<equiv> 0x20"
abbreviation Q_CONFLICTING_ANSWERS :: u16 where "Q_CONFLICTING_ANSWERS \<equiv> 0x800"

definition query_at :: "validator \<Rightarrow> nat \<Rightarrow> val_query_chain option" where
  "query_at v a = q_heap (va_cache v) a"

definition store_query :: "nat \<Rightarrow> val_query_chain \<Rightarrow> validator \<Rightarrow> validator" where
  "store_query a q v = v\<lparr> va_cache := (va_cache v)\<lparr> q_heap := (q_heap (va_cache v))(a \<mapsto> q) \<rparr> \<rparr>"

definition as_list :: "bool \<Rightarrow> val_query_chain \<Rightarrow> val_digested_auth_chain list" where
  "as_list proof q = (if proof then qc_proof q else qc_ans q)"

definition set_as_list :: "bool \<Rightarrow> val_digested_auth_chain list \<Rightarrow> val_query_chain \<Rightarrow> val_query_chain" where
  "set_as_list proof l q = (if proof then q\<lparr> qc_proof := l \<rparr> else q\<lparr> qc_ans := l \<rparr>)"

definition get_as :: "validator \<Rightarrow> as_ref \<Rightarrow> val_digested_auth_chain option" where
  "get_as v r = (case r of (a, proof, i) \<Rightarrow> do {
     q \<leftarrow> query_at v a;
     if i < length (as_list proof q) then Some (as_list proof q ! i) else None
   })"

definition put_as :: "as_ref \<Rightarrow> val_digested_auth_chain \<Rightarrow> validator \<Rightarrow> validator option" where
  "put_as r as v = (case r of (a, proof, i) \<Rightarrow> do {
     q \<leftarrow> query_at v a;
     if i < length (as_list proof q) then Some (store_query a (set_as_list proof ((as_list proof q)[i := as]) q) v) else None
   })"

definition put_status :: "as_ref \<Rightarrow> u16 \<Rightarrow> validator \<Rightarrow> validator option" where
  "put_status r st v = do { as \<leftarrow> get_as v r; put_as r (as\<lparr> val_ac_status := st \<rparr>) v }"

text \<open>\<open>SET_MIN_TTL\<close> on the time to live of a query.\<close>

definition lower_ttl :: "nat \<Rightarrow> u32 \<Rightarrow> validator \<Rightarrow> validator option" where
  "lower_ttl a ttl_x v = do { q \<leftarrow> query_at v a; Some (store_query a (q\<lparr> qc_ttl_x := set_min_ttl (qc_ttl_x q) ttl_x \<rparr>) v) }"

text \<open>
  \<open>add_to_qfq_chain\<close> on this state: the element of the chain that was found or added, as its distance from the end (elements
  are added in front), and its query.
\<close>

definition add_query_for :: "venv \<Rightarrow> byte list \<Rightarrow> u16 \<Rightarrow> u16 \<Rightarrow> u32 \<Rightarrow> validator \<Rightarrow> (val_ret + nat \<times> validator) option" where
  "add_query_for E name_n type_h class_h fl v = do {
     r \<leftarrow> add_to_qfq_chain (ve_ssl E) (ve_now E) (ve_max_refresh E) (ve_fresh E (q_heap (va_cache v))) (va_nsec3 v) (va_cache v)
       (va_queries v) name_n type_h class_h fl;
     case r of Inl e \<Rightarrow> Some (Inl e)
     | Inr (k, qs, c, ctx) \<Rightarrow> Some (Inr (length qs - 1 - k, v\<lparr> va_queries := qs, va_cache := c, va_nsec3 := ctx \<rparr>))
   }"

definition qfq_at :: "validator \<Rightarrow> nat \<Rightarrow> queries_for_query" where
  "qfq_at v t = rev (va_queries v) ! t"

definition ask :: "venv \<Rightarrow> byte list \<Rightarrow> u16 \<Rightarrow> u16 \<Rightarrow> u32 \<Rightarrow> validator \<Rightarrow> (val_ret + nat \<times> validator) option" where
  "ask E name_n type_h class_h fl v = do {
     r \<leftarrow> add_query_for E name_n type_h class_h fl v;
     case r of Inl e \<Rightarrow> Some (Inl e) | Inr (t, v) \<Rightarrow> Some (Inr (qfq_query (qfq_at v t), v))
   }"

subsection \<open>What an assertion waits for\<close>

text \<open>
  The loop over the signatures in \<open>build_pending_query\<close>: the signatures with what is noted in them, and the name of the
  first signer that can have signed the set.
\<close>

fun pending_sigs :: "byte list \<Rightarrow> u16 \<Rightarrow> rrset_rr list \<Rightarrow> (rrset_rr list \<times> byte list option) option" where
  "pending_sigs name_n type_h [] = Some ([], None)"
| "pending_sigs name_n type_h (cur_rr # rest) =
     (if rr_rdata cur_rr = [] then do {
        (rest, s) \<leftarrow> pending_sigs name_n type_h rest; Some (cur_rr\<lparr> rr_status := VAL_AC_DATA_MISSING \<rparr> # rest, s) }
      else do {
        signby_name_n \<leftarrow> ptr (rr_rdata cur_rr) SIGNBY;
        p \<leftarrow> namename name_n signby_name_n;
        if p = None \<or> p = Some 0 \<and> type_h = ns_t_ds then do {
          (rest, s) \<leftarrow> pending_sigs name_n type_h rest; Some (cur_rr\<lparr> rr_status := VAL_AC_INVALID_RRSIG \<rparr> # rest, s) }
        else Some (cur_rr # rest, Some signby_name_n)
      })"

text \<open>The test of a DNSKEY set: the status, the time to live and the state; \<open>None\<close> inside when the assertion is done with.\<close>

definition pending_key :: "venv \<Rightarrow> as_ref \<Rightarrow> rrset_rec \<Rightarrow> u32 \<Rightarrow> validator \<Rightarrow> (val_ret + (u16 \<times> u32) option \<times> validator) option" where
  "pending_key E r s fl v =
     (if rrs_type_h s \<noteq> ns_t_dnskey then Some (Inr (Some (VAL_AC_UNSET, 0), v))
      else do {
        t \<leftarrow> is_trusted_key (ve_ssl E) (ve_now E) (ve_closest_ta_only E) (va_ta v) (rrs_name_n s) (rrs_data s) fl 0;
        case t of Inl e \<Rightarrow> Some (Inl e)
        | Inr (keys, status, ttl_x, ctx) \<Rightarrow> do {
            v \<leftarrow> put_as r \<lparr> val_ac_status = (if status \<noteq> VAL_AC_WAIT_FOR_TRUST \<and> status \<noteq> VAL_AC_TRUST_NOCHK then status
                else VAL_AC_WAIT_FOR_TRUST), ac_data = Some (s\<lparr> rrs_data := keys \<rparr>) \<rparr> (v\<lparr> va_ta := ctx \<rparr>);
            v \<leftarrow> lower_ttl (fst r) ttl_x v;
            Some (Inr (if status \<noteq> VAL_AC_WAIT_FOR_TRUST \<and> status \<noteq> VAL_AC_TRUST_NOCHK then None else Some (status, ttl_x), v))
          }
      })"

definition pending_signer :: "venv \<Rightarrow> as_ref \<Rightarrow> u16 \<Rightarrow> u32 \<Rightarrow> validator \<Rightarrow> (val_ret \<times> validator) option" where
  "pending_signer E r status fl v = do {
     as \<leftarrow> get_as v r;
     s \<leftarrow> ac_data as;
     (sigs, signer) \<leftarrow> pending_sigs (rrs_name_n s) (rrs_type_h s) (rrs_sig s);
     case signer of
       None \<Rightarrow> do { v \<leftarrow> put_as r \<lparr> val_ac_status = VAL_AC_RRSIG_MISSING, ac_data = Some (s\<lparr> rrs_sig := sigs \<rparr>) \<rparr> v; Some (VAL_NO_ERROR, v) }
     | Some signby_name_n \<Rightarrow> do {
         zonecut \<leftarrow> (if rrs_zonecut_n s = [] then do { len \<leftarrow> wire_name_length signby_name_n; seg signby_name_n 0 len }
           else Some (rrs_zonecut_n s));
         v \<leftarrow> put_as r (as\<lparr> ac_data := Some (s\<lparr> rrs_sig := sigs, rrs_zonecut_n := zonecut \<rparr>) \<rparr>) v;
         if status = VAL_AC_TRUST_NOCHK then do { v \<leftarrow> put_status r VAL_AC_TRUST_NOCHK v; Some (VAL_NO_ERROR, v) }
         else do {
           added \<leftarrow> ask E signby_name_n (if rrs_type_h s = ns_t_dnskey then ns_t_ds else ns_t_dnskey) (rrs_class_h s) fl v;
           case added of Inl e \<Rightarrow> Some (e, v)
           | Inr (_, v) \<Rightarrow> do { v \<leftarrow> put_status r VAL_AC_WAIT_FOR_TRUST v; Some (VAL_NO_ERROR, v) }
         }
       }
   }"

definition build_pending_query :: "venv \<Rightarrow> as_ref \<Rightarrow> u32 \<Rightarrow> validator \<Rightarrow> (val_ret \<times> validator) option" where
  "build_pending_query E r fl v = do {
     as \<leftarrow> get_as v r;
     let state = (\<lambda>st v. do { v \<leftarrow> put_status r st v; Some (VAL_NO_ERROR, v) });
     case ac_data as of None \<Rightarrow> state VAL_AC_DATA_MISSING v
     | Some s \<Rightarrow>
         if rrs_ans_kind s = SR_ANS_BARE_RRSIG then state VAL_AC_BARE_RRSIG v
         else if rrs_data s = [] then state VAL_AC_DATA_MISSING v
         else do {
           k \<leftarrow> pending_key E r s fl v;
           case k of Inl e \<Rightarrow> Some (e, v)
           | Inr (None, v) \<Rightarrow> Some (VAL_NO_ERROR, v)
           | Inr (Some (status, ttl_x), v) \<Rightarrow> do {
               z \<leftarrow> get_zse (ve_now E) (va_zse v) (rrs_name_n s) ttl_x;
               case z of Inl e \<Rightarrow> Some (e, v)
               | Inr (tzonestatus, _, ttl_x, ctx) \<Rightarrow> do {
                   v \<leftarrow> lower_ttl (fst r) ttl_x (v\<lparr> va_zse := ctx \<rparr>);
                   if status \<noteq> VAL_AC_TRUST_NOCHK \<and> tzonestatus \<noteq> VAL_AC_WAIT_FOR_TRUST \<and> fl AND VAL_QUERY_USING_DLV = 0
                   then state tzonestatus v
                   else pending_signer E r status fl v
                 }
             }
         }
   }"

subsection \<open>Assertions from answers\<close>

text \<open>\<open>add_to_authentication_chain\<close>: the assertions, and the query with its time to live.\<close>

fun add_to_authentication_chain :: "rrset_rec list \<Rightarrow> val_query_chain \<Rightarrow> (val_digested_auth_chain list \<times> val_query_chain) option" where
  "add_to_authentication_chain [] q = Some ([], q)"
| "add_to_authentication_chain (next_rr # rest) q = do {
     c \<leftarrow> copy_rrset_rec next_rr;
     (as, q) \<leftarrow> add_to_authentication_chain rest (q\<lparr> qc_ttl_x := set_min_ttl (qc_ttl_x q) (rrs_ttl_x next_rr) \<rparr>);
     Some (\<lparr> val_ac_status = VAL_AC_INIT, ac_data = c \<rparr> # as, q)
   }"

text \<open>Kinds of answers that do not go together; \<open>kind\<close> is that of the first one.\<close>

definition conflicting :: "byte \<Rightarrow> byte \<Rightarrow> bool" where
  "conflicting kind k =
     (if kind \<in> {SR_ANS_STRAIGHT, SR_ANS_CNAME, SR_ANS_DNAME} then k \<notin> {SR_ANS_STRAIGHT, SR_ANS_CNAME, SR_ANS_DNAME}
      else if kind = SR_ANS_BARE_RRSIG then k \<noteq> SR_ANS_BARE_RRSIG
      else if kind = SR_ANS_NACK then k \<noteq> SR_ANS_NACK
      else True)"

text \<open>One turn of the loop of \<open>try_build_chain\<close>: the kind so far comes first.\<close>

definition build_one :: "venv \<Rightarrow> as_ref \<Rightarrow> byte list list \<Rightarrow> u16 \<Rightarrow> u16 \<Rightarrow> u32 \<Rightarrow> byte \<Rightarrow> validator \<Rightarrow>
    (byte \<times> val_ret \<times> validator) option" where
  "build_one E r q_names_n type_h class_h fl kind v = do {
     as \<leftarrow> get_as v r;
     qname \<leftarrow> (case q_names_n of [] \<Rightarrow> None | q # _ \<Rightarrow> Some q);
     (rc, s, st) \<leftarrow> set_ans_kind qname type_h class_h (ac_data as) (val_ac_status as);
     (fails, st) \<leftarrow> (if rc \<noteq> VAL_NO_ERROR then Some (True, st) else fails_to_answer_query q_names_n type_h class_h s st);
     v \<leftarrow> put_as r (as\<lparr> val_ac_status := st, ac_data := s \<rparr>) v;
     if fails then Some (kind, VAL_NO_ERROR, v)
     else do {
       s \<leftarrow> s;
       q \<leftarrow> query_at v (fst r);
       let v = (if kind \<noteq> SR_ANS_UNSET \<and> conflicting kind (rrs_ans_kind s)
         then store_query (fst r) (q\<lparr> qc_state := Q_CONFLICTING_ANSWERS \<rparr>) v else v);
       let kind = (if kind = SR_ANS_UNSET then rrs_ans_kind s else kind);
       v \<leftarrow> (if fl AND VAL_QUERY_DONT_VALIDATE \<noteq> 0 then put_status r VAL_AC_IGNORE_VALIDATION v else Some v);
       as \<leftarrow> get_as v r;
       (rc, v) \<leftarrow> (if val_ac_status as < VAL_AC_DONT_GO_FURTHER then build_pending_query E r fl v else Some (VAL_NO_ERROR, v));
       if rc \<noteq> VAL_NO_ERROR then Some (kind, rc, v)
       else do {
         q \<leftarrow> query_at v (fst r);
         Some (kind, VAL_NO_ERROR, store_query (fst r) (q\<lparr> qc_respondent_server_options :=
           (if qc_respondent_server_options q = 0 then rrs_ns_options s else qc_respondent_server_options q AND rrs_ns_options s) \<rparr>) v)
       }
     }
   }"

fun build_all :: "venv \<Rightarrow> nat \<Rightarrow> bool \<Rightarrow> nat list \<Rightarrow> byte list list \<Rightarrow> u16 \<Rightarrow> u16 \<Rightarrow> u32 \<Rightarrow> byte \<Rightarrow> validator \<Rightarrow>
    (val_ret \<times> validator) option" where
  "build_all E a proof [] q_names_n type_h class_h fl kind v = Some (VAL_NO_ERROR, v)"
| "build_all E a proof (i # is) q_names_n type_h class_h fl kind v = do {
     (kind, rc, v) \<leftarrow> build_one E (a, proof, i) q_names_n type_h class_h fl kind v;
     if rc \<noteq> VAL_NO_ERROR then Some (rc, v) else build_all E a proof is q_names_n type_h class_h fl kind v
   }"

definition try_build_chain :: "venv \<Rightarrow> nat \<Rightarrow> bool \<Rightarrow> byte list list \<Rightarrow> u16 \<Rightarrow> u16 \<Rightarrow> u32 \<Rightarrow> validator \<Rightarrow>
    (val_ret \<times> validator) option" where
  "try_build_chain E a proof q_names_n type_h class_h fl v = do {
     q \<leftarrow> query_at v a;
     build_all E a proof [0..<length (as_list proof q)] q_names_n type_h class_h fl SR_ANS_UNSET
       (store_query a (q\<lparr> qc_respondent_server_options := 0 \<rparr>) v)
   }"

text \<open>Assertions for one of the two lists of a response.\<close>

definition assimilate_list :: "venv \<Rightarrow> nat \<Rightarrow> bool \<Rightarrow> domain_info \<Rightarrow> validator \<Rightarrow> (val_ret \<times> validator) option" where
  "assimilate_list E a proof response v = (let sets = (if proof then dom_proofs response else dom_answers response) in
     if sets = [] then Some (VAL_NO_ERROR, v)
     else do {
       q \<leftarrow> query_at v a;
       (as, q) \<leftarrow> add_to_authentication_chain sets q;
       try_build_chain E a proof (dom_qnames response) (dom_requested_type_h response) (dom_requested_class_h response) (qc_flags q)
         (store_query a (set_as_list proof as q) v)
     })"

definition assimilate_answers :: "venv \<Rightarrow> domain_info \<Rightarrow> nat \<Rightarrow> validator \<Rightarrow> (val_ret \<times> validator) option" where
  "assimilate_answers E response a v =
     (if dom_qnames response = [] then Some (VAL_BAD_ARGUMENT, v)
      else do {
        q \<leftarrow> query_at v a;
        if qc_ans q \<noteq> [] \<or> qc_proof q \<noteq> [] then Some (VAL_NO_ERROR, v)
        else if dom_answers response = [] \<and> dom_proofs response = []
        then Some (VAL_NO_ERROR, store_query a (q\<lparr> qc_state := Q_RESPONSE_ERROR \<rparr>) v)
        else do {
          (rc, v) \<leftarrow> assimilate_list E a False response v;
          if rc \<noteq> VAL_NO_ERROR then Some (rc, v) else assimilate_list E a True response v
        }
      })"

subsection \<open>The assertion that vouches for another\<close>

text \<open>
  \<open>get_ac_trust\<close>. The time to live that \<open>find_dlv_trust_point\<close> may leave unset is \<open>ve_unset\<close>. The answer is the first
  assertion of the answers, or of the proofs, of the query for the keys or the DS set.
\<close>

definition trust_point_above :: "venv \<Rightarrow> as_ref \<Rightarrow> val_digested_auth_chain \<Rightarrow> byte list \<Rightarrow> u32 \<Rightarrow> validator \<Rightarrow> (bool \<times> validator) option" where
  "trust_point_above E r as name_n fl v =
     (if fl AND VAL_QUERY_USING_DLV \<noteq> 0 then do {
        (rc, dlv_tp, dlv_target, ttl_x, ctx) \<leftarrow> find_dlv_trust_point (ve_now E) (va_dlv v) name_n (ve_unset E);
        let v = v\<lparr> va_dlv := ctx \<rparr>;
        if rc \<noteq> VAL_NO_ERROR then Some (False, v)
        else do { v \<leftarrow> lower_ttl (fst r) ttl_x v; Some (dlv_tp \<noteq> [] \<and> dlv_target \<noteq> [], v) }
      }
      else if VAL_AC_DONT_GO_FURTHER \<le> val_ac_status as \<and> val_ac_status as \<le> VAL_AC_LAST_STATE then Some (False, v)
      else do {
        (rc, _, ttl_x, ctx) \<leftarrow> find_trust_point (ve_now E) (va_ta v) name_n;
        let v = v\<lparr> va_ta := ctx \<rparr>;
        if rc \<noteq> VAL_NO_ERROR then Some (False, v) else do { v \<leftarrow> lower_ttl (fst r) ttl_x v; Some (True, v) }
      })"

definition get_ac_trust :: "venv \<Rightarrow> as_ref option \<Rightarrow> u32 \<Rightarrow> bool \<Rightarrow> validator \<Rightarrow> (as_ref option \<times> validator) option" where
  "get_ac_trust E next_as fl proof v = (case next_as of None \<Rightarrow> Some (None, v)
     | Some r \<Rightarrow> do {
         as \<leftarrow> get_as v r;
         case ac_data as of None \<Rightarrow> Some (None, v)
         | Some s \<Rightarrow> do {
             (ok, v) \<leftarrow> trust_point_above E r as (rrs_name_n s) fl v;
             if \<not> ok \<or> rrs_type_h s \<noteq> ns_t_dnskey \<and> rrs_zonecut_n s = [] then Some (None, v)
             else do {
               added \<leftarrow> ask E (if rrs_type_h s = ns_t_dnskey then rrs_name_n s else rrs_zonecut_n s)
                 (if rrs_type_h s = ns_t_dnskey then ns_t_ds else ns_t_dnskey) (rrs_class_h s) fl v;
               case added of Inl e \<Rightarrow> Some (None, v)
               | Inr (a, v) \<Rightarrow> do {
                   q \<leftarrow> query_at v a;
                   v \<leftarrow> (if qc_state q < Q_ANSWERED \<and> VAL_AC_FAIL_BASE < val_ac_status as then put_status r VAL_AC_WAIT_FOR_TRUST v
                     else Some v);
                   q \<leftarrow> query_at v a;
                   Some (if as_list proof q = [] then None else Some (a, proof, 0), v)
                 }
             }
           }
       })"

subsection \<open>Verifying an assertion\<close>

text \<open>The signature for the type of a set among the answers to a query for signatures, with its position.\<close>

fun pending_rrsig :: "u16 \<Rightarrow> val_digested_auth_chain list \<Rightarrow> nat \<Rightarrow> nat option option" where
  "pending_rrsig type_h [] i = Some None"
| "pending_rrsig type_h (pending_as # rest) i = (case ac_data pending_as of
     None \<Rightarrow> pending_rrsig type_h rest (i + 1)
   | Some s \<Rightarrow> if rrs_sig s = [] \<or> rr_rdata (hd (rrs_sig s)) = [] \<or> val_ac_status pending_as \<noteq> VAL_AC_BARE_RRSIG
       then pending_rrsig type_h rest (i + 1)
       else do {
         t \<leftarrow> get16 (rr_rdata (hd (rrs_sig s))) 0;
         if t = type_h then Some (Some i) else pending_rrsig type_h rest (i + 1)
       })"

text \<open>The branch of \<open>try_verify_assertion\<close> for \<open>VAL_AC_WAIT_FOR_RRSIG\<close>; \<open>True\<close> when the function goes on.\<close>

definition wait_for_rrsig :: "venv \<Rightarrow> as_ref \<Rightarrow> u32 \<Rightarrow> validator \<Rightarrow> (val_ret \<times> bool \<times> validator) option" where
  "wait_for_rrsig E r fl v = do {
     as \<leftarrow> get_as v r;
     case ac_data as of None \<Rightarrow> do { v \<leftarrow> put_status r VAL_AC_DATA_MISSING v; Some (VAL_NO_ERROR, False, v) }
     | Some s \<Rightarrow> do {
         pc \<leftarrow> ask E (rrs_name_n s) ns_t_rrsig (rrs_class_h s) fl v;
         case pc of Inl e \<Rightarrow> Some (e, False, v)
         | Inr (a, v) \<Rightarrow> do {
             q \<leftarrow> query_at v a;
             if Q_ERROR_BASE < qc_state q then do { v \<leftarrow> put_status r VAL_AC_RRSIG_MISSING v; Some (VAL_NO_ERROR, False, v) }
             else if qc_state q < Q_ANSWERED then Some (VAL_NO_ERROR, False, v)
             else do {
               found \<leftarrow> pending_rrsig (rrs_type_h s) (qc_ans q) 0;
               case found of None \<Rightarrow> do { v \<leftarrow> put_status r VAL_AC_RRSIG_MISSING v; Some (VAL_NO_ERROR, False, v) }
               | Some i \<Rightarrow> do {
                   pending \<leftarrow> ac_data (qc_ans q ! i);
                   v \<leftarrow> put_as (a, False, i) ((qc_ans q ! i)\<lparr> ac_data := Some (pending\<lparr> rrs_sig := [] \<rparr>) \<rparr>) v;
                   v \<leftarrow> put_as r \<lparr> val_ac_status = VAL_AC_WAIT_FOR_TRUST, ac_data = Some (s\<lparr> rrs_sig := rrs_sig pending \<rparr>) \<rparr> v;
                   (rc, v) \<leftarrow> build_pending_query E r fl v;
                   Some (rc, rc = VAL_NO_ERROR, v)
                 }
             }
           }
       }
   }"

text \<open>The branch for \<open>VAL_AC_WAIT_FOR_TRUST\<close>: with the assertion that is to vouch, when there is one.\<close>

definition wait_for_trust :: "venv \<Rightarrow> as_ref \<Rightarrow> u32 \<Rightarrow> validator \<Rightarrow> (val_ret \<times> as_ref option \<times> validator) option" where
  "wait_for_trust E r fl v = do {
     as \<leftarrow> get_as v r;
     s \<leftarrow> ac_data as;
     let state = (\<lambda>st v. do { v \<leftarrow> put_status r st v; Some (VAL_NO_ERROR, None, v) });
     let missing = (if rrs_type_h s = ns_t_dnskey then VAL_AC_DS_MISSING else VAL_AC_DNSKEY_MISSING);
     if rrs_type_h s \<noteq> ns_t_dnskey \<and> rrs_zonecut_n s = [] then state VAL_AC_DNSKEY_MISSING v
     else do {
       pc \<leftarrow> ask E (if rrs_type_h s = ns_t_dnskey then rrs_name_n s else rrs_zonecut_n s)
         (if rrs_type_h s = ns_t_dnskey then ns_t_ds else ns_t_dnskey) (rrs_class_h s) fl v;
       case pc of Inl e \<Rightarrow> Some (e, None, v)
       | Inr (a, v) \<Rightarrow> do {
           q \<leftarrow> query_at v a;
           if Q_ERROR_BASE < qc_state q then state missing v
           else if qc_state q < Q_ANSWERED then Some (VAL_NO_ERROR, None, v)
           else if (case qc_ans q of [] \<Rightarrow> False | t # _ \<Rightarrow> (case ac_data t of None \<Rightarrow> False | Some d \<Rightarrow> rrs_ans_kind d = SR_ANS_STRAIGHT))
           then do { v \<leftarrow> put_status r VAL_AC_CAN_VERIFY v; Some (VAL_NO_ERROR, Some (a, False, 0), v) }
           else if qc_proof q \<noteq> [] then state VAL_AC_NEGATIVE_PROOF v
           else state missing v
         }
     }
   }"

text \<open>The verification itself, and the times to live of the assertion and its query; nothing happens without an assertion to vouch.\<close>

definition verify_with :: "venv \<Rightarrow> as_ref \<Rightarrow> as_ref option \<Rightarrow> u32 \<Rightarrow> validator \<Rightarrow> validator option" where
  "verify_with E r the_trust fl v = (case the_trust of None \<Rightarrow> Some v
     | Some t \<Rightarrow> do {
         as \<leftarrow> get_as v r;
         trust_as \<leftarrow> get_as v t;
         (st, s, trust_s, ctx) \<leftarrow> verify_next_assertion (ve_ssl E) (ve_now E) (va_skew v) fl (t = r) (val_ac_status as)
           (ac_data as) (ac_data trust_as);
         v \<leftarrow> put_as r \<lparr> val_ac_status = st, ac_data = s \<rparr> (v\<lparr> va_skew := ctx \<rparr>);
         v \<leftarrow> (if t = r then Some v else do { u \<leftarrow> get_as v t; put_as t (u\<lparr> ac_data := trust_s \<rparr>) v });
         case (trust_s, s) of (Some d, Some s) \<Rightarrow>
           (if rrs_ttl_x d < rrs_ttl_x s then do {
              as \<leftarrow> get_as v r;
              v \<leftarrow> put_as r (as\<lparr> ac_data := Some (s\<lparr> rrs_ttl_x := rrs_ttl_x d \<rparr>) \<rparr>) v;
              lower_ttl (fst r) (rrs_ttl_x d) v
            } else Some v)
         | _ \<Rightarrow> Some v
       })"

definition try_verify_assertion :: "venv \<Rightarrow> as_ref option \<Rightarrow> u32 \<Rightarrow> validator \<Rightarrow> (val_ret \<times> validator) option" where
  "try_verify_assertion E next_as fl v = (case next_as of None \<Rightarrow> Some (VAL_NO_ERROR, v)
     | Some r \<Rightarrow> do {
         as \<leftarrow> get_as v r;
         (rc, proceed, the_trust, v) \<leftarrow>
           (if val_ac_status as = VAL_AC_WAIT_FOR_RRSIG then do { (rc, proceed, v) \<leftarrow> wait_for_rrsig E r fl v; Some (rc, proceed, None, v) }
            else if val_ac_status as = VAL_AC_WAIT_FOR_TRUST then do {
              (rc, t, v) \<leftarrow> wait_for_trust E r fl v; Some (rc, t \<noteq> None, t, v) }
            else Some (VAL_NO_ERROR, True, None, v));
         if rc \<noteq> VAL_NO_ERROR \<or> \<not> proceed then Some (rc, v)
         else do {
           as \<leftarrow> get_as v r;
           if val_ac_status as = VAL_AC_TRUST_NOCHK then do { v \<leftarrow> verify_with E r (Some r) fl v; Some (VAL_NO_ERROR, v) }
           else if val_ac_status as = VAL_AC_CAN_VERIFY then do {
             (t, v) \<leftarrow> (case the_trust of Some t \<Rightarrow> Some (Some t, v) | None \<Rightarrow> get_ac_trust E (Some r) fl False v);
             v \<leftarrow> verify_with E r t fl v;
             Some (VAL_NO_ERROR, v)
           }
           else Some (VAL_NO_ERROR, v)
         }
       })"

end
