(* ===== verification/Sanity.thy ===== *)
theory Sanity
  imports Chains
begin

section \<open>The results of a request\<close>

text \<open>
  The end of \<^verbatim>\<open>libval/val_assertion.c\<close>: proofs of non-existence are collected and judged (\<open>nsec_proof_chk\<close>, \<open>nsec3_proof_chk\<close>,
  \<open>prove_nonexistence\<close>), and the internal results of a query become the results the caller sees (\<open>transform_single_result\<close>,
  \<open>perform_sanity_checks\<close> and what it calls). A pointer into a list of results is a position.
\<close>

subsection \<open>Results\<close>

record internal_result =
  rc_status :: nat
  rc_is_proof :: bool
  rc_consumed :: bool
  rc_flags :: u32
  rc_rrset :: as_ref

record val_rrset =
  vr_rcode :: nat
  vr_name :: "byte list"
  vr_class :: u16
  vr_type :: u16
  vr_section :: byte
  vr_ttl :: int
  vr_server :: "byte list"
  vr_data :: "rrset_rr list"
  vr_sig :: "rrset_rr list"

record chain_element =
  ch_status :: u16
  ch_rrset :: "val_rrset option"

record result_chain =
  res_status :: nat
  res_alias :: "byte list"
  res_rrset :: "val_rrset option"
  res_answer :: "chain_element list"
  res_proof_count :: nat
  res_proofs :: "chain_element list list"

abbreviation MAX_PROOFS :: nat where "MAX_PROOFS \<equiv> 4"
abbreviation VAL_QUERY_AC_DETAIL :: u32 where "VAL_QUERY_AC_DETAIL \<equiv> 1"
abbreviation VAL_QUERY_NEEDS_REFRESH :: u32 where "VAL_QUERY_NEEDS_REFRESH \<equiv> 0x04000000"
abbreviation VAL_DONT_KNOW :: nat where "VAL_DONT_KNOW \<equiv> 0"
abbreviation VAL_BOGUS_PROOF :: nat where "VAL_BOGUS_PROOF \<equiv> 1"
abbreviation VAL_INCOMPLETE_PROOF :: nat where "VAL_INCOMPLETE_PROOF \<equiv> 1"
abbreviation VAL_IRRELEVANT_PROOF :: nat where "VAL_IRRELEVANT_PROOF \<equiv> 1"
abbreviation VAL_INDETERMINATE :: nat where "VAL_INDETERMINATE \<equiv> 3"

text \<open>The state of the routines below: internal results, results, and the validation.\<close>

record results_state =
  rs_work :: "internal_result list"
  rs_results :: "result_chain list"
  rs_validator :: validator

definition unknown_error :: "byte list" where
  "unknown_error = [0x75, 0x6e, 0x6b, 0x6e, 0x6f, 0x77, 0x6e, 0x2f, 0x65, 0x72, 0x72, 0x6f, 0x72]"

definition clone_val_rrset :: "venv \<Rightarrow> rrset_rec \<Rightarrow> val_rrset option" where
  "clone_val_rrset E s = do {
     name \<leftarrow> ns_name_ntop (rrs_name_n s) NS_MAXDNAME;
     Some \<lparr> vr_rcode = rrs_rcode s, vr_name = (case name of None \<Rightarrow> unknown_error | Some t \<Rightarrow> t), vr_class = rrs_class_h s,
       vr_type = rrs_type_h s, vr_section = rrs_section s,
       vr_ttl = (if uint (rrs_ttl_x s) \<le> ve_now E then 0 else uint (rrs_ttl_x s) - ve_now E), vr_server = rrs_server s,
       vr_data = rrs_data s, vr_sig = rrs_sig s \<rparr>
   }"

definition clone_data :: "venv \<Rightarrow> rrset_rec option \<Rightarrow> val_rrset option option" where
  "clone_data E d = (case d of None \<Rightarrow> Some None | Some s \<Rightarrow> map_option Some (clone_val_rrset E s))"

text \<open>\<open>transform_authentication_chain\<close>: from an assertion up; it does not return when the chain is a circle.\<close>

partial_function (option) transform_chain :: "venv \<Rightarrow> as_ref option \<Rightarrow> u32 \<Rightarrow> chain_element list \<Rightarrow> validator \<Rightarrow>
    (chain_element list \<times> validator) option" where
  "transform_chain E o_ac fl chain v = (case o_ac of None \<Rightarrow> Some (chain, v)
     | Some r \<Rightarrow> Option.bind (get_as v r) (\<lambda>as. Option.bind (clone_data E (ac_data as)) (\<lambda>d.
         let chain = chain @ [\<lparr> ch_status = val_ac_status as, ch_rrset = d \<rparr>] in
         if val_ac_status as = VAL_AC_NEGATIVE_PROOF \<or> val_ac_status as = VAL_AC_PINSECURE then Some (chain, v)
         else Option.bind (get_ac_trust E (Some r) fl False v) (\<lambda>(t, v). transform_chain E t fl chain v))))"

text \<open>A fresh block at the end of the results.\<close>

definition result_block :: result_chain where
  "result_block = \<lparr> res_status = VAL_DONT_KNOW, res_alias = [], res_rrset = None, res_answer = [], res_proof_count = 0,
     res_proofs = replicate MAX_PROOFS [] \<rparr>"

definition upd_result :: "nat \<Rightarrow> (result_chain \<Rightarrow> result_chain) \<Rightarrow> results_state \<Rightarrow> results_state" where
  "upd_result i f S = S\<lparr> rs_results := (rs_results S)[i := f (rs_results S ! i)] \<rparr>"

definition upd_work :: "nat \<Rightarrow> (internal_result \<Rightarrow> internal_result) \<Rightarrow> results_state \<Rightarrow> results_state" where
  "upd_work i f S = S\<lparr> rs_work := (rs_work S)[i := f (rs_work S ! i)] \<rparr>"

text \<open>A write to a place of \<open>val_rc_proofs\<close>; behind the array it is a fault.\<close>

definition put_proof :: "nat \<Rightarrow> nat \<Rightarrow> chain_element list \<Rightarrow> results_state \<Rightarrow> results_state option" where
  "put_proof m slot chain S =
     (if slot < length (res_proofs (rs_results S ! m))
      then Some (upd_result m (\<lambda>r. r\<lparr> res_proofs := (res_proofs r)[slot := chain] \<rparr>) S) else None)"

text \<open>
  \<open>transform_single_result\<close> for the internal result at position \<open>w\<close>, or for none: the block that was used and the state. The
  place for a proof is chosen before the count goes up, which it does with \<open>VAL_QUERY_AC_DETAIL\<close> only.
\<close>

definition attach_proof :: "venv \<Rightarrow> nat \<Rightarrow> nat \<Rightarrow> results_state \<Rightarrow> (nat \<times> results_state) option" where
  "attach_proof E w m S = (let wr = rs_work S ! w; slot = res_proof_count (rs_results S ! m) in do {
     S \<leftarrow> put_proof m slot [] S;
     let S = upd_work w (\<lambda>x. x\<lparr> rc_consumed := True \<rparr>) S;
     if rc_flags wr AND VAL_QUERY_AC_DETAIL = 0 then Some (m, S)
     else do {
       (chain, v) \<leftarrow> transform_chain E (Some (rc_rrset wr)) (rc_flags wr) [] (rs_validator S);
       S \<leftarrow> put_proof m slot chain (S\<lparr> rs_validator := v \<rparr>);
       Some (m, upd_result m (\<lambda>r. r\<lparr> res_proof_count := res_proof_count r + 1 \<rparr>) S)
     }
   })"

definition transform_proof :: "venv \<Rightarrow> nat \<Rightarrow> nat option \<Rightarrow> results_state \<Rightarrow> (nat \<times> results_state) option" where
  "transform_proof E w proof_res S = (case proof_res of
     None \<Rightarrow> attach_proof E w (length (rs_results S)) (S\<lparr> rs_results := rs_results S @ [result_block] \<rparr>)
   | Some p \<Rightarrow> if res_proof_count (rs_results S ! p) = MAX_PROOFS
       then Some (p, upd_result p (\<lambda>r. r\<lparr> res_status := VAL_BOGUS_PROOF \<rparr>) S)
       else attach_proof E w p S)"

definition transform_answer :: "venv \<Rightarrow> nat \<Rightarrow> results_state \<Rightarrow> (nat \<times> results_state) option" where
  "transform_answer E w S = (let wr = rs_work S ! w; m = length (rs_results S);
       S = upd_work w (\<lambda>x. x\<lparr> rc_consumed := True \<rparr>) (S\<lparr> rs_results := rs_results S @ [result_block] \<rparr>) in
     if rc_flags wr AND VAL_QUERY_AC_DETAIL \<noteq> 0 then do {
       (chain, v) \<leftarrow> transform_chain E (Some (rc_rrset wr)) (rc_flags wr) [] (rs_validator S);
       Some (m, upd_result m (\<lambda>r. r\<lparr> res_answer := chain, res_rrset := (case chain of [] \<Rightarrow> None | c # _ \<Rightarrow> ch_rrset c) \<rparr>)
         (S\<lparr> rs_validator := v \<rparr>))
     }
     else do {
       as \<leftarrow> get_as (rs_validator S) (rc_rrset wr);
       d \<leftarrow> clone_data E (ac_data as);
       Some (m, upd_result m (\<lambda>r. r\<lparr> res_rrset := d \<rparr>) S)
     })"

definition transform_single_result :: "venv \<Rightarrow> nat option \<Rightarrow> nat option \<Rightarrow> results_state \<Rightarrow> (nat \<times> results_state) option" where
  "transform_single_result E w proof_res S = (case w of
     None \<Rightarrow> Some (length (rs_results S), S\<lparr> rs_results := rs_results S @ [result_block] \<rparr>)
   | Some i \<Rightarrow> if rc_is_proof (rs_work S ! i) then transform_proof E i proof_res S else transform_answer E i S)"

fun transform_outstanding_results :: "venv \<Rightarrow> nat \<Rightarrow> nat list \<Rightarrow> nat option \<Rightarrow> results_state \<Rightarrow> (nat option \<times> results_state) option" where
  "transform_outstanding_results E proof_status [] proof_res S = Some (proof_res, S)"
| "transform_outstanding_results E proof_status (i # is) proof_res S = (let w = rs_work S ! i in
     if rc_consumed w \<or> rc_is_proof w \<and> \<not> val_istrusted proof_status then transform_outstanding_results E proof_status is proof_res S
     else do {
       (m, S) \<leftarrow> transform_single_result E (Some i) proof_res S;
       if rc_is_proof w
       then transform_outstanding_results E proof_status is (Some m) (upd_result m (\<lambda>r. r\<lparr> res_status := proof_status \<rparr>) S)
       else transform_outstanding_results E proof_status is proof_res (upd_result m (\<lambda>r. r\<lparr> res_status := rc_status w \<rparr>) S)
     })"

subsection \<open>Proofs of non-existence\<close>

text \<open>
  The sets of a type among the trusted proofs that are signed by the zone \<open>closest_zc\<close>, the last one first, with their
  positions, and the position of the last SOA.
\<close>

fun proof_sets :: "validator \<Rightarrow> byte list \<Rightarrow> u16 \<Rightarrow> internal_result list \<Rightarrow> nat \<Rightarrow> (nat \<times> rrset_rec) list \<Rightarrow> nat option \<Rightarrow>
    ((nat \<times> rrset_rec) list \<times> nat option) option" where
  "proof_sets v closest_zc type [] i nlist soa_set = Some (nlist, soa_set)"
| "proof_sets v closest_zc type (res # rest) i nlist soa_set =
     (if \<not> rc_is_proof res \<or> \<not> val_istrusted (rc_status res) then proof_sets v closest_zc type rest (i + 1) nlist soa_set
      else do {
        as \<leftarrow> get_as v (rc_rrset res);
        case ac_data as of None \<Rightarrow> proof_sets v closest_zc type rest (i + 1) nlist soa_set
        | Some s \<Rightarrow>
            if rrs_name_n s = [] \<or> rrs_data s = [] \<or> rr_rdata (hd (rrs_data s)) = [] \<or> rrs_sig s = [] \<or> rr_rdata (hd (rrs_sig s)) = []
            then proof_sets v closest_zc type rest (i + 1) nlist soa_set
            else if rrs_type_h s = ns_t_soa then proof_sets v closest_zc type rest (i + 1) nlist (Some i)
            else if rrs_type_h s \<noteq> type then proof_sets v closest_zc type rest (i + 1) nlist soa_set
            else do {
              soa_name_n \<leftarrow> ptr (rr_rdata (hd (rrs_sig s))) SIGNBY;
              c \<leftarrow> namecmp soa_name_n closest_zc;
              proof_sets v closest_zc type rest (i + 1) (if c \<noteq> 0 then nlist else (i, s) # nlist) soa_set
            }
      })"

fun nsec3_proofs :: "(nat \<times> rrset_rec) list \<Rightarrow> (nat \<times> nsec3proof) list option" where
  "nsec3_proofs [] = Some []"
| "nsec3_proofs ((i, s) # rest) = do {
     rest \<leftarrow> nsec3_proofs rest;
     p \<leftarrow> val_parse_nsec3_rdata (rr_rdata (hd (rrs_data s)));
     case p of None \<Rightarrow> Some rest
     | Some nd \<Rightarrow> do {
         b \<leftarrow> rd (rrs_name_n s) 0;
         Some ((i, \<lparr> n3_nd = nd, n3_hashlen = unat b, n3_hash = (if b = 0 then [] else tl (rrs_name_n s)), n3_set = s \<rparr>) # rest)
       }
   }"

text \<open>A proof that was used becomes part of the result, unless it is already.\<close>

definition use_proof :: "venv \<Rightarrow> nat option \<Rightarrow> nat option \<times> results_state \<Rightarrow> (nat option \<times> results_state) option" where
  "use_proof E w pS = (case (w, pS) of (None, _) \<Rightarrow> Some pS
     | (Some i, (proof_res, S)) \<Rightarrow> if rc_consumed (rs_work S ! i) then Some pS
         else do { (m, S) \<leftarrow> transform_single_result E (Some i) proof_res S; Some (Some m, S) })"

definition nsec_proof_chk :: "venv \<Rightarrow> byte list option \<Rightarrow> byte list \<Rightarrow> byte list \<Rightarrow> u16 \<Rightarrow> nat option \<Rightarrow> results_state \<Rightarrow>
    (nat \<times> nat option \<times> results_state) option" where
  "nsec_proof_chk E ce_wcard closest_zc qname_n qtype_h proof_res S = do {
     (nlist, soa_set) \<leftarrow> proof_sets (rs_validator S) closest_zc ns_t_nsec (rs_work S) 0 [] None;
     (span, wcard, notype) \<leftarrow> (if nlist = [] then Some (None, None, False)
       else prove_nsec_span (map snd nlist) qname_n qtype_h ce_wcard);
     let status = (if span = None \<or> wcard = None then VAL_INCOMPLETE_PROOF
       else if notype then VAL_NONEXISTENT_TYPE else VAL_NONEXISTENT_NAME);
     let place = map_option (\<lambda>k. fst (nlist ! k));
     pS \<leftarrow> use_proof E soa_set (proof_res, S);
     pS \<leftarrow> use_proof E (place span) pS;
     (proof_res, S) \<leftarrow> use_proof E (place wcard) pS;
     Some (status, proof_res, S)
   }"

text \<open>\<open>nsec3_proof_chk\<close>: \<open>a\<close> is the query of \<open>qc_proof\<close>, \<open>header\<close> the set of that proof.\<close>

definition nsec3_proof_chk :: "venv \<Rightarrow> nat \<Rightarrow> rrset_rec option \<Rightarrow> byte list option \<Rightarrow> byte list \<Rightarrow> byte list \<Rightarrow> u16 \<Rightarrow> nat option \<Rightarrow>
    results_state \<Rightarrow> (nat \<times> nat option \<times> results_state) option" where
  "nsec3_proof_chk E a header ce_wcard closest_zc qname_n qtype_h proof_res S = do {
     (sets, soa_set) \<leftarrow> proof_sets (rs_validator S) closest_zc ns_t_nsec3 (rs_work S) 0 [] None;
     nlist \<leftarrow> nsec3_proofs sets;
     let v = rs_validator S;
     (s, ttl_x, ctx) \<leftarrow> (if nlist = [] then Some (no_span, 0, va_nsec3 v)
       else prove_nsec3_span (ve_ssl E) (ve_now E) (va_nsec3 v) (map snd nlist) qname_n qtype_h 0 ce_wcard);
     v \<leftarrow> lower_ttl a ttl_x (v\<lparr> va_nsec3 := ctx \<rparr>);
     let status = (if ce_wcard = None \<and> sp_cpe s = None then VAL_INCOMPLETE_PROOF
       else if sp_ncn s = None then VAL_INCOMPLETE_PROOF
       else if sp_optout s then get_header_status_code header
       else if sp_wcp s = None then VAL_INCOMPLETE_PROOF
       else if sp_notype s then VAL_NONEXISTENT_TYPE else VAL_NONEXISTENT_NAME);
     let place = map_option (\<lambda>k. fst (nlist ! k));
     pS \<leftarrow> use_proof E (place (sp_cpe s)) (proof_res, S\<lparr> rs_validator := v \<rparr>);
     pS \<leftarrow> use_proof E (place (sp_ncn s)) pS;
     pS \<leftarrow> use_proof E (place (sp_wcp s)) pS;
     (proof_res, S) \<leftarrow> use_proof E soa_set pS;
     Some (status, proof_res, S)
   }"

text \<open>
  The loop of \<open>prove_nonexistence\<close> that determines the kind of proof: whether validation is skipped, the closest zone that
  signed a proof, its kind and the time to live; \<open>None\<close> inside when some proofs are validated and others are not.
\<close>

record proof_kind =
  pk_skip :: int
  pk_zone :: "byte list option"
  pk_nsec :: nat
  pk_soa_ttl :: u32
  pk_ttl_x :: u32

definition signed_in :: "byte list \<Rightarrow> rrset_rec \<Rightarrow> nat \<Rightarrow> proof_kind \<Rightarrow> proof_kind option" where
  "signed_in qname_n s nsec k =
     (if rrs_sig s = [] \<or> length (rr_rdata (hd (rrs_sig s))) < SIGNBY then Some k
      else do {
        soa_name_n \<leftarrow> ptr (rr_rdata (hd (rrs_sig s))) SIGNBY;
        p \<leftarrow> namename qname_n soa_name_n;
        closer \<leftarrow> (if p = None then Some False else case pk_zone k of None \<Rightarrow> Some True
          | Some zc \<Rightarrow> map_option (\<lambda>c. 0 < c) (namecmp soa_name_n zc));
        let k = (if closer then k\<lparr> pk_zone := Some soa_name_n, pk_nsec := nsec \<rparr> else k);
        Some (k\<lparr> pk_ttl_x := set_min_ttl (pk_ttl_x k) (rrs_ttl_x s) \<rparr>)
      })"

fun proof_kinds :: "venv \<Rightarrow> validator \<Rightarrow> byte list \<Rightarrow> internal_result list \<Rightarrow> proof_kind \<Rightarrow> proof_kind option option" where
  "proof_kinds E v qname_n [] k = Some (Some k)"
| "proof_kinds E v qname_n (res # rest) k = do {
     as \<leftarrow> get_as v (rc_rrset res);
     case ac_data as of None \<Rightarrow> proof_kinds E v qname_n rest k
     | Some s \<Rightarrow>
         if \<not> rc_is_proof res then proof_kinds E v qname_n rest k
         else if val_istrusted (rc_status res) \<and> \<not> val_isvalidated (rc_status res)
         then (if pk_skip k = -1 then Some None else proof_kinds E v qname_n rest (k\<lparr> pk_skip := 1 \<rparr>))
         else if pk_skip k = 1 then Some None
         else do {
           let k = k\<lparr> pk_skip := -1 \<rparr>;
           within \<leftarrow> namename qname_n (rrs_zonecut_n s);
           if within = None then proof_kinds E v qname_n rest k
           else if rrs_type_h s = ns_t_soa then do {
             ttl \<leftarrow> (if rrs_data s \<noteq> [] \<and> 4 < length (rr_rdata (hd (rrs_data s)))
               then get32 (rr_rdata (hd (rrs_data s))) (length (rr_rdata (hd (rrs_data s))) - 4) else Some (pk_soa_ttl k));
             proof_kinds E v qname_n rest (k\<lparr> pk_soa_ttl := ttl, pk_ttl_x := ttl + word_of_int (ve_now E) \<rparr>)
           }
           else if rrs_type_h s = ns_t_nsec then do { k \<leftarrow> signed_in qname_n s 1 k; proof_kinds E v qname_n rest k }
           else if rrs_type_h s = ns_t_nsec3 then do { k \<leftarrow> signed_in qname_n s 3 k; proof_kinds E v qname_n rest k }
           else proof_kinds E v qname_n rest k
         }
   }"

text \<open>\<open>prove_nonexistence\<close> for the query at \<open>a\<close>: the code, \<open>*status\<close>, \<open>*soa_ttl_x\<close>, \<open>*proof_res\<close> and the state.\<close>

definition prove_nonexistence :: "venv \<Rightarrow> nat \<Rightarrow> byte list \<Rightarrow> u16 \<Rightarrow> byte list option \<Rightarrow> nat option \<Rightarrow> results_state \<Rightarrow>
    (val_ret \<times> nat \<times> u32 \<times> nat option \<times> results_state) option" where
  "prove_nonexistence E a qname_n qtype_h ce_wcard proof_res S = do {
     k \<leftarrow> proof_kinds E (rs_validator S) qname_n (rs_work S) \<lparr> pk_skip = 0, pk_zone = None, pk_nsec = 0, pk_soa_ttl = 0, pk_ttl_x = 0 \<rparr>;
     q \<leftarrow> query_at (rs_validator S) a;
     let header = (case qc_proof q of [] \<Rightarrow> None | p # _ \<Rightarrow> ac_data p);
     case k of None \<Rightarrow> Some (VAL_NO_ERROR, VAL_BOGUS_PROOF, 0, proof_res, S)
     | Some k \<Rightarrow>
         if pk_skip k = 1 then do {
           let status = get_header_status_code header;
           (proof_res, S) \<leftarrow> transform_outstanding_results E status [0..<length (rs_work S)] proof_res S;
           Some (VAL_NO_ERROR, status, pk_ttl_x k, proof_res, S)
         }
         else case pk_zone k of None \<Rightarrow> Some (VAL_NO_ERROR, VAL_INCOMPLETE_PROOF, pk_ttl_x k, proof_res, S)
         | Some zc \<Rightarrow>
             if pk_nsec k = 1 then do {
               (status, proof_res, S) \<leftarrow> nsec_proof_chk E ce_wcard zc qname_n qtype_h proof_res S;
               Some (VAL_NO_ERROR, status, pk_ttl_x k, proof_res, S)
             }
             else if qc_proof q = [] then Some (VAL_BAD_ARGUMENT, VAL_DONT_KNOW, pk_ttl_x k, None, S\<lparr> rs_results := [] \<rparr>)
             else do {
               (status, proof_res, S) \<leftarrow> nsec3_proof_chk E a header ce_wcard zc qname_n qtype_h proof_res S;
               Some (VAL_NO_ERROR, status, pk_ttl_x k, proof_res, S)
             }
   }"

subsection \<open>Sanity of the results\<close>

text \<open>A denial of a DS set that comes from the zone below: the first SOA has the name that was asked for.\<close>

fun asked_the_child :: "validator \<Rightarrow> byte list \<Rightarrow> as_ref list \<Rightarrow> bool option" where
  "asked_the_child v name_n [] = Some False"
| "asked_the_child v name_n (r # rest) = do {
     as \<leftarrow> get_as v r;
     s \<leftarrow> ac_data as;
     if rrs_type_h s = ns_t_soa then do { c \<leftarrow> namecmp (rrs_name_n s) name_n; Some (c = 0) } else asked_the_child v name_n rest
   }"

definition check_proof_sanity :: "venv \<Rightarrow> nat \<Rightarrow> results_state \<Rightarrow> (val_ret \<times> results_state) option" where
  "check_proof_sanity E a S = do {
     q \<leftarrow> query_at (rs_validator S) a;
     child \<leftarrow> (if qc_type_h q = ns_t_ds then asked_the_child (rs_validator S) (qc_name_n q) (map rc_rrset (rs_work S)) else Some False);
     if child then Some (VAL_NO_ERROR, S)
     else do {
       (rc, status, soa_ttl_x, proof_res, S) \<leftarrow> prove_nonexistence E a (qc_name_n q) (qc_type_h q) None None S;
       if rc \<noteq> VAL_NO_ERROR then Some (rc, S)
       else case proof_res of None \<Rightarrow> Some (VAL_NO_ERROR, S)
       | Some p \<Rightarrow> do {
           v \<leftarrow> (if val_istrusted status then lower_ttl a soa_ttl_x (rs_validator S) else Some (rs_validator S));
           Some (VAL_NO_ERROR, (upd_result p (\<lambda>r. r\<lparr> res_status := status \<rparr>) S)\<lparr> rs_validator := v \<rparr>)
         }
     }
   }"

text \<open>The name below which a wildcard was expanded, from the labels of the signature: labels are skipped one after another.\<close>

fun skip_front :: "nat \<Rightarrow> byte list \<Rightarrow> byte list option" where
  "skip_front 0 ce = Some ce"
| "skip_front (Suc n) ce = do { b \<leftarrow> rd ce 0; ce \<leftarrow> ptr ce (unat b + 1); skip_front n ce }"

definition wildcard_result :: "nat \<Rightarrow> nat \<Rightarrow> nat \<Rightarrow> results_state \<Rightarrow> results_state option" where
  "wildcard_result a m status S =
     (if status = VAL_NONEXISTENT_NAME \<and> res_answer (rs_results S ! m) \<noteq> [] then do {
        q \<leftarrow> query_at (rs_validator S) a;
        Some ((upd_result m (\<lambda>r. r\<lparr> res_status := VAL_SUCCESS,
            res_answer := (hd (res_answer r))\<lparr> ch_status := VAL_AC_VERIFIED \<rparr> # tl (res_answer r) \<rparr>) S)
          \<lparr> rs_validator := store_query a (q\<lparr> qc_flags := qc_flags q OR VAL_QUERY_NEEDS_REFRESH \<rparr>) (rs_validator S) \<rparr>)
      }
      else Some (upd_result m (\<lambda>r. r\<lparr> res_status := VAL_BOGUS \<rparr>) S))"

definition check_one_wildcard :: "venv \<Rightarrow> nat \<Rightarrow> nat \<Rightarrow> results_state \<Rightarrow> (val_ret \<times> results_state) option" where
  "check_one_wildcard E a i S = do {
     let w = rs_work S ! i;
     (m, S) \<leftarrow> transform_single_result E (Some i) None S;
     as \<leftarrow> get_as (rs_validator S) (rc_rrset w);
     case ac_data as of
       Some s \<Rightarrow>
         if rrs_sig s = [] then Some (VAL_NO_ERROR, upd_result m (\<lambda>r. r\<lparr> res_status := VAL_INDETERMINATE \<rparr>) S)
         else do {
           b \<leftarrow> rd (rr_rdata (hd (rrs_sig s))) RRSIGLABEL;
           q \<leftarrow> query_at (rs_validator S) a;
           name_labels \<leftarrow> wire_name_labels (qc_name_n q);
           ce \<leftarrow> (if unat b + 1 < name_labels then map_option Some (skip_front (name_labels - (unat b + 1)) (qc_name_n q)) else Some None);
           (rc, status, soa_ttl_x, proof_res, S) \<leftarrow> prove_nonexistence E a (qc_name_n q) (qc_type_h q) ce (Some m) S;
           if rc \<noteq> VAL_NO_ERROR then Some (rc, S\<lparr> rs_results := [] \<rparr>)
           else do {
             v \<leftarrow> lower_ttl a soa_ttl_x (rs_validator S);
             m \<leftarrow> proof_res;
             S \<leftarrow> wildcard_result a m status (S\<lparr> rs_validator := v \<rparr>);
             Some (VAL_NO_ERROR, S)
           }
         }
     | None \<Rightarrow> Some (VAL_NO_ERROR, upd_result m (\<lambda>r. r\<lparr> res_status := VAL_INDETERMINATE \<rparr>) S)
   }"

fun check_wildcard_sanity :: "venv \<Rightarrow> nat \<Rightarrow> nat list \<Rightarrow> results_state \<Rightarrow> (val_ret \<times> results_state) option" where
  "check_wildcard_sanity E a [] S = Some (VAL_NO_ERROR, S)"
| "check_wildcard_sanity E a (i # is) S = do {
     let w = rs_work S ! i;
     as \<leftarrow> get_as (rs_validator S) (rc_rrset w);
     if rc_status w = VAL_SUCCESS \<and> \<not> rc_consumed w \<and> val_ac_status as = VAL_AC_WCARD_VERIFIED then do {
       (rc, S) \<leftarrow> check_one_wildcard E a i S;
       if rc \<noteq> VAL_NO_ERROR then Some (rc, S) else check_wildcard_sanity E a is S
     }
     else check_wildcard_sanity E a is S
   }"

subsection \<open>Alias chains\<close>

text \<open>
  What a result says about \<open>qname_n\<close>: nothing, the answer itself, the next name (empty for a null pointer), or an alias that
  has no target or one that is too long.
\<close>

datatype alias_link = Irrelevant | Straight | Next "byte list" | Dead_end

definition alias_link_of :: "rrset_rec \<Rightarrow> byte list \<Rightarrow> u16 \<Rightarrow> u16 \<Rightarrow> alias_link option" where
  "alias_link_of s qname_n type_h class_h = do {
     c \<leftarrow> namecmp qname_n (rrs_name_n s);
     if c = 0 \<and> rrs_ans_kind s = SR_ANS_CNAME
     then Some (if rrs_data s = [] then Dead_end else Next (rr_rdata (hd (rrs_data s))))
     else do {
       p \<leftarrow> (if rrs_ans_kind s = SR_ANS_DNAME then namename qname_n (rrs_name_n s) else Some None);
       case p of
         Some len1 \<Rightarrow>
           if rrs_data s = [] \<or> len1 = 0 then Some Dead_end
           else do {
             len2 \<leftarrow> wire_name_length (rr_rdata (hd (rrs_data s)));
             if NS_MAXCDNAME < len1 + len2 then Some Dead_end
             else do {
               front \<leftarrow> seg qname_n 0 len1;
               target \<leftarrow> seg (rr_rdata (hd (rrs_data s))) 0 len2;
               Some (Next (front @ target))
             }
           }
       | None \<Rightarrow> Some (if c \<noteq> 0 \<or> type_h \<noteq> rrs_type_h s \<and> type_h \<noteq> ns_t_any \<or> class_h \<noteq> rrs_class_h s then Irrelevant else Straight)
     }
   }"

definition result_named :: "byte list \<Rightarrow> result_chain list \<Rightarrow> nat option" where
  "result_named name rs = List.find (\<lambda>i. case res_rrset (rs ! i) of None \<Rightarrow> False | Some d \<Rightarrow> vr_name d = name) [0..<length rs]"

text \<open>The block for a result of the chain, and what is done with it: the code, whether an alias was found and the name after it.\<close>

definition alias_block :: "venv \<Rightarrow> nat \<Rightarrow> nat option \<Rightarrow> results_state \<Rightarrow> (nat \<times> results_state) option" where
  "alias_block E i new_res S = (case new_res of Some m \<Rightarrow> Some (m, S)
     | None \<Rightarrow> do {
         (m, S) \<leftarrow> transform_single_result E (Some i) None S;
         Some (m, upd_result m (\<lambda>r. r\<lparr> res_status := rc_status (rs_work S ! i) \<rparr>) S)
       })"

definition alias_next :: "alias_link \<Rightarrow> byte list \<Rightarrow> nat \<Rightarrow> results_state \<Rightarrow>
    (val_ret \<times> bool \<times> byte list \<times> nat option \<times> results_state) option" where
  "alias_next link qname_n m S = (case link of
     Next next_n \<Rightarrow>
       if next_n = [] then Some (VAL_NO_ERROR, True, [], Some m, S)
       else do {
         text \<leftarrow> ns_name_ntop next_n NS_MAXDNAME;
         case text of None \<Rightarrow> Some (VAL_BAD_ARGUMENT, True, next_n, Some m, S)
         | Some t \<Rightarrow> Some (VAL_NO_ERROR, True, next_n, Some m, upd_result m (\<lambda>r. r\<lparr> res_alias := t \<rparr>) S)
       }
   | Dead_end \<Rightarrow> Some (VAL_NO_ERROR, True, [], Some m, S)
   | _ \<Rightarrow> Some (VAL_NO_ERROR, False, qname_n, Some m, S))"

text \<open>
  The inner loop of \<open>check_alias_sanity\<close>: the code, whether an alias was found, the name after it and \<open>new_res\<close>, which is
  carried from one internal result to the next.
\<close>

fun alias_scan :: "venv \<Rightarrow> u16 \<Rightarrow> u16 \<Rightarrow> byte list \<Rightarrow> nat list \<Rightarrow> nat option \<Rightarrow> results_state \<Rightarrow>
    (val_ret \<times> bool \<times> byte list \<times> nat option \<times> results_state) option" where
  "alias_scan E type_h class_h qname_n [] new_res S = Some (VAL_NO_ERROR, False, qname_n, new_res, S)"
| "alias_scan E type_h class_h qname_n (i # is) new_res S = do {
     let w = rs_work S ! i;
     as \<leftarrow> get_as (rs_validator S) (rc_rrset w);
     case ac_data as of None \<Rightarrow> alias_scan E type_h class_h qname_n is new_res S
     | Some s \<Rightarrow> do {
         text \<leftarrow> (if rc_consumed w then ns_name_ntop qname_n NS_MAXDNAME else Some (Some []));
         case text of None \<Rightarrow> Some (VAL_BAD_ARGUMENT, False, qname_n, new_res, S)
         | Some t \<Rightarrow> do {
             let new_res = (if rc_consumed w then result_named t (rs_results S) else new_res);
             link \<leftarrow> alias_link_of s qname_n type_h class_h;
             if link = Irrelevant then alias_scan E type_h class_h qname_n is new_res S
             else do {
               (m, S) \<leftarrow> alias_block E i new_res (if link = Dead_end then upd_work i (\<lambda>x. x\<lparr> rc_status := VAL_BOGUS \<rparr>) S else S);
               alias_next link qname_n m S
             }
           }
       }
   }"

text \<open>The outer loop: whether an alias was seen, the last name, \<open>new_res\<close> and whether the chain runs in a circle.\<close>

partial_function (option) alias_loop :: "venv \<Rightarrow> val_query_chain \<Rightarrow> query_list list \<Rightarrow> byte list \<Rightarrow> bool \<Rightarrow> results_state \<Rightarrow>
    (val_ret \<times> bool \<times> byte list \<times> nat option \<times> bool \<times> results_state) option" where
  "alias_loop E q ql qname_n seen S = Option.bind (register_query ql qname_n (qc_type_h q) (qc_zonecut_n q)) (\<lambda>(r, ql).
     if r \<noteq> IT_HASNT then Some (VAL_NO_ERROR, seen, qname_n, None, True, S)
     else Option.bind (alias_scan E (qc_type_h q) (qc_class_h q) qname_n [0..<length (rs_work S)] None S) (\<lambda>(rc, found, next_n, new_res, S).
       if rc \<noteq> VAL_NO_ERROR then Some (rc, seen \<or> found, next_n, new_res, False, S)
       else if \<not> found \<or> next_n = [] then Some (VAL_NO_ERROR, seen \<or> found, next_n, new_res, False, S)
       else alias_loop E q ql next_n True S))"

definition drop_the_others :: "results_state \<Rightarrow> results_state" where
  "drop_the_others S = S\<lparr> rs_work := map (\<lambda>w. if \<not> rc_consumed w \<and> rc_status w \<noteq> VAL_IGNORE_VALIDATION
     then w\<lparr> rc_status := VAL_BOGUS \<rparr> else w) (rs_work S) \<rparr>"

definition check_alias_sanity :: "venv \<Rightarrow> nat \<Rightarrow> results_state \<Rightarrow> (val_ret \<times> results_state) option" where
  "check_alias_sanity E a S = do {
     q \<leftarrow> query_at (rs_validator S) a;
     (rc, alias_seen, qname_n, new_res, circle, S) \<leftarrow> (if qc_original_name q = [] then Some (VAL_NO_ERROR, False, [], None, False, S)
       else alias_loop E q [] (qc_original_name q) False S);
     if rc \<noteq> VAL_NO_ERROR then Some (rc, S\<lparr> rs_results := [] \<rparr>)
     else if \<not> alias_seen then Some (VAL_NO_ERROR, S)
     else if new_res = None \<and> qname_n \<noteq> [] \<and> \<not> circle then do {
       (rc, status, soa_ttl_x, proof_res, S) \<leftarrow> prove_nonexistence E a qname_n (qc_type_h q) None None S;
       if rc \<noteq> VAL_NO_ERROR then Some (rc, S\<lparr> rs_results := [] \<rparr>)
       else case proof_res of
         Some p \<Rightarrow> do {
           v \<leftarrow> (if val_istrusted status then lower_ttl a soa_ttl_x (rs_validator S) else Some (rs_validator S));
           Some (VAL_NO_ERROR, drop_the_others ((upd_result p (\<lambda>r. r\<lparr> res_status := status \<rparr>) S)\<lparr> rs_validator := v \<rparr>))
         }
       | None \<Rightarrow> do {
           (m, S) \<leftarrow> transform_single_result E None None S;
           Some (VAL_NO_ERROR, drop_the_others (upd_result m (\<lambda>r. r\<lparr> res_status := VAL_INCOMPLETE_PROOF \<rparr>) S))
         }
     }
     else Some (VAL_NO_ERROR, drop_the_others S)
   }"

subsection \<open>All checks\<close>

text \<open>The first loop of \<open>perform_sanity_checks\<close>: \<open>qc_bad\<close> of the query.\<close>

definition note_bad :: "internal_result list \<Rightarrow> int \<Rightarrow> int" where
  "note_bad ws bad = foldl (\<lambda>bad w. if \<not> val_istrusted (rc_status w) then 1 else if val_isvalidated (rc_status w) then 0 else bad) bad ws"

definition perform_sanity_checks :: "venv \<Rightarrow> nat \<Rightarrow> results_state \<Rightarrow> (val_ret \<times> results_state) option" where
  "perform_sanity_checks E a S = do {
     q \<leftarrow> query_at (rs_validator S) a;
     let S = S\<lparr> rs_validator := store_query a (q\<lparr> qc_bad := note_bad (rs_work S) (qc_bad q) \<rparr>) (rs_validator S) \<rparr>;
     if list_all rc_is_proof (rs_work S)
     then (if \<not> list_all (\<lambda>w. val_istrusted (rc_status w)) (rs_work S)
       then Some (VAL_NO_ERROR, S\<lparr> rs_work := map (\<lambda>w. w\<lparr> rc_status := VAL_BOGUS_PROOF \<rparr>) (rs_work S) \<rparr>)
       else check_proof_sanity E a S)
     else do {
       (rc, S) \<leftarrow> check_wildcard_sanity E a [0..<length (rs_work S)] S;
       if rc \<noteq> VAL_NO_ERROR then Some (rc, S) else check_alias_sanity E a S
     }
   }"

end
