(* ===== verification/Validate.thy ===== *)
theory Validate
  imports Sanity
begin

section \<open>Validation of a query\<close>

text \<open>
  The driver of \<^verbatim>\<open>libval/val_assertion.c\<close>: zone cuts and the test that a zone is provably insecure (\<open>find_next_zonecut\<close>,
  \<open>verify_zonecut_in_rrsig\<close>, \<open>verify_provably_insecure\<close>), look-aside validation (\<open>find_dlv_record\<close>, \<open>set_dlv_branchoff\<close>), the walk
  along the chain of trust (\<open>verify_and_validate\<close>) and \<open>construct_authentication_chain\<close> and \<open>try_chase_query\<close>, which call each
  other: the depth of these calls is bounded by fuel. Names that are only printed to the log are not modelled.
\<close>

abbreviation VAL_NOTRUST :: nat where "VAL_NOTRUST \<equiv> 4"
abbreviation VAL_PINSECURE_UNTRUSTED :: nat where "VAL_PINSECURE_UNTRUSTED \<equiv> 138"
abbreviation VAL_BARE_RRSIG :: nat where "VAL_BARE_RRSIG \<equiv> 139"
abbreviation VAL_UNTRUSTED_ZONE :: nat where "VAL_UNTRUSTED_ZONE \<equiv> 141"
abbreviation VAL_AC_LAST_ERROR :: u16 where "VAL_AC_LAST_ERROR \<equiv> 16"
abbreviation VAL_AC_LAST_BAD :: u16 where "VAL_AC_LAST_BAD \<equiv> 17"
abbreviation VAL_AC_LAST_FAILURE :: u16 where "VAL_AC_LAST_FAILURE \<equiv> 30"
abbreviation VAL_QUERY_NO_DLV :: u32 where "VAL_QUERY_NO_DLV \<equiv> 4"
abbreviation VAL_QUERY_SKIP_RESOLVER :: u32 where "VAL_QUERY_SKIP_RESOLVER \<equiv> 0x40"
abbreviation VAL_QUERY_SEC_LEAF :: u32 where "VAL_QUERY_SEC_LEAF \<equiv> 0x02000000"
abbreviation VAL_QFLAGS_USERMASK :: u32 where "VAL_QFLAGS_USERMASK \<equiv> 0x000f0177"

text \<open>
  \<open>try_chase_query\<close> as the routines below see it: name, class, type, flags and \<open>*done\<close>; the code, \<open>*done\<close>, the results and
  the state.
\<close>

type_synonym chase = "byte list \<Rightarrow> u16 \<Rightarrow> u16 \<Rightarrow> u32 \<Rightarrow> bool \<Rightarrow> validator \<Rightarrow> (val_ret \<times> bool \<times> result_chain list \<times> validator) option"

subsection \<open>Zone cuts\<close>

text \<open>\<open>find_next_zonecut\<close>: the zone of a query that was answered, or the owner of the NS set or of the SOA in the results.\<close>

fun known_zonecut :: "(nat \<Rightarrow> val_query_chain option) \<Rightarrow> queries_for_query list \<Rightarrow> byte list \<Rightarrow> byte list option" where
  "known_zonecut h [] qname_n = Some []"
| "known_zonecut h (e # es) qname_n = do {
     q \<leftarrow> h (qfq_query e);
     same \<leftarrow> (if qc_type_h q \<noteq> ns_t_ds \<and> qc_state q = Q_ANSWERED \<and> qc_zonecut_n q \<noteq> [] \<and> qc_class_h q = 1
       then map_option (\<lambda>c. c = 0) (namecmp (qc_name_n q) qname_n) else Some False);
     if same then Some (qc_zonecut_n q) else known_zonecut h es qname_n
   }"

fun soa_of_proofs :: "chain_element list list \<Rightarrow> val_rrset option option" where
  "soa_of_proofs [] = Some None"
| "soa_of_proofs (p # ps) = (case p of [] \<Rightarrow> None
     | c # _ \<Rightarrow> do { d \<leftarrow> ch_rrset c; if vr_type d = ns_t_soa \<and> vr_data d \<noteq> [] then Some (Some d) else soa_of_proofs ps })"

definition zonecut_set :: "result_chain \<Rightarrow> val_rrset option option" where
  "zonecut_set res = (case res_answer res of
     [] \<Rightarrow> soa_of_proofs (take (res_proof_count res) (res_proofs res))
   | c # _ \<Rightarrow> (case ch_rrset c of
       None \<Rightarrow> soa_of_proofs (take (res_proof_count res) (res_proofs res))
     | Some d \<Rightarrow> Some (if vr_type d = ns_t_ns then Some d else None)))"

text \<open>The name found, empty when there is none; \<open>None\<close> inside when a name cannot be parsed.\<close>

fun zonecut_in_results :: "byte list \<Rightarrow> result_chain list \<Rightarrow> byte list option option" where
  "zonecut_in_results qname_n [] = Some (Some [])"
| "zonecut_in_results qname_n (res # rest) = do {
     z \<leftarrow> zonecut_set res;
     case z of None \<Rightarrow> zonecut_in_results qname_n rest
     | Some d \<Rightarrow> do {
         p \<leftarrow> ns_name_pton (vr_name d @ [0]) (replicate NS_MAXCDNAME 0);
         case p of None \<Rightarrow> Some None
         | Some (_, tname_n) \<Rightarrow> do {
             w \<leftarrow> namename qname_n tname_n;
             if w \<noteq> None then Some (Some tname_n) else zonecut_in_results qname_n rest
           }
       }
   }"

definition find_next_zonecut :: "chase \<Rightarrow> byte list \<Rightarrow> u32 \<Rightarrow> validator \<Rightarrow> (val_ret \<times> bool \<times> byte list \<times> validator) option" where
  "find_next_zonecut chase qname_n fl v =
     (if va_queries v = [] then Some (VAL_BAD_ARGUMENT, True, [], v)
      else if qname_n = [] then Some (VAL_NO_ERROR, True, [], v)
      else do {
        known \<leftarrow> known_zonecut (q_heap (va_cache v)) (va_queries v) qname_n;
        (rc, done, zonecut_name_n, v) \<leftarrow> (if known \<noteq> [] then Some (VAL_NO_ERROR, True, known, v)
          else do {
            (rc, done, results, v) \<leftarrow> chase qname_n 1 ns_t_ns (fl OR VAL_QUERY_DONT_VALIDATE OR VAL_QUERY_AC_DETAIL) True v;
            if rc \<noteq> VAL_NO_ERROR \<or> \<not> done then Some (rc, done, [], v)
            else do {
              z \<leftarrow> zonecut_in_results qname_n results;
              Some (VAL_NO_ERROR, True, (case z of None \<Rightarrow> [] | Some t \<Rightarrow> if t = [] then qname_n else t), v)
            }
          });
        if zonecut_name_n = [] then Some (rc, done, [], v)
        else do {
          w \<leftarrow> namename qname_n zonecut_name_n;
          len \<leftarrow> wire_name_length zonecut_name_n;
          name_n \<leftarrow> (if w = None then Some [] else seg zonecut_name_n 0 len);
          Some (rc, done, name_n, v)
        }
      })"

text \<open>The signer named in the first signature of an element, when there is one that is long enough.\<close>

definition chain_signer :: "chain_element list \<Rightarrow> byte list option option" where
  "chain_signer as = (case as of [] \<Rightarrow> Some None
     | c # _ \<Rightarrow> (case ch_rrset c of None \<Rightarrow> Some None
         | Some d \<Rightarrow> if vr_sig d = [] \<or> length (rr_rdata (hd (vr_sig d))) \<le> SIGNBY then Some None
             else map_option Some (ptr (rr_rdata (hd (vr_sig d))) SIGNBY)))"

text \<open>\<open>verify_zonecut_in_rrsig\<close>: every signer is the zone expected, and there is one.\<close>

fun signed_by_zone :: "byte list \<Rightarrow> chain_element list list \<Rightarrow> bool \<Rightarrow> bool option" where
  "signed_by_zone expected_zc [] found = Some found"
| "signed_by_zone expected_zc (as # rest) found = do {
     zc \<leftarrow> chain_signer as;
     case zc of None \<Rightarrow> signed_by_zone expected_zc rest found
     | Some zc \<Rightarrow> do { c \<leftarrow> namecmp zc expected_zc; if c \<noteq> 0 then Some False else signed_by_zone expected_zc rest True }
   }"

definition verify_zonecut_in_rrsig :: "result_chain \<Rightarrow> byte list \<Rightarrow> bool option" where
  "verify_zonecut_in_rrsig res expected_zc =
     (if expected_zc = [] then Some False
      else signed_by_zone expected_zc (if val_does_not_exist (res_status res) then take (res_proof_count res) (res_proofs res)
        else [res_answer res]) False)"

subsection \<open>Provably insecure\<close>

text \<open>\<open>is_pu_trusted\<close>: the answer, \<open>*ttl_x\<close> and the state.\<close>

definition is_pu_trusted :: "venv \<Rightarrow> byte list \<Rightarrow> u32 \<Rightarrow> validator \<Rightarrow> (bool \<times> u32 \<times> validator) option" where
  "is_pu_trusted E name_n ttl_x v = do {
     (pu_pol, ctx) \<leftarrow> retrieve_policy (ve_now E) (va_pu v);
     name_len \<leftarrow> (if pu_pol \<noteq> [] then wire_name_length name_n else Some 0);
     pu_cur \<leftarrow> skip_longer pu_pol name_len;
     r \<leftarrow> find_zone_policy name_n pu_cur;
     Some (case r of
       Some e \<Rightarrow> (the (pol e) \<noteq> ZONE_PU_UNTRUSTED, if 0 < exp_ttl e then word_of_int (exp_ttl e) else ttl_x, v\<lparr> va_pu := ctx \<rparr>)
     | None \<Rightarrow> (True, ttl_x, v\<lparr> va_pu := ctx \<rparr>))
   }"

text \<open>\<open>IS_KNOWN_DNSSEC_ALG\<close>, and the loop over the DS records of a set.\<close>

definition is_known_dnssec_alg :: "byte \<Rightarrow> bool" where
  "is_known_dnssec_alg x \<longleftrightarrow> x \<in> {1, 2, 3, 5, 6, 7, 8, 10, ALG_ECDSAP256SHA256, ALG_ECDSAP384SHA384}"

fun only_unknown_algs :: "rrset_rr list \<Rightarrow> bool option" where
  "only_unknown_algs [] = Some True"
| "only_unknown_algs (rr # rest) = do {
     ds \<leftarrow> val_parse_ds_rdata (rr_rdata rr);
     others \<leftarrow> only_unknown_algs rest;
     Some ((case ds of Inl _ \<Rightarrow> False | Inr d \<Rightarrow> \<not> is_known_dnssec_alg (d_algo d)) \<and> others)
   }"

text \<open>
  \<open>CUT_AND_APPEND_LABEL\<close>: the last label of the first name goes to the front of the second one. Labels that do not make a
  name that can be measured end in a write outside the block.
\<close>

function last_label_at :: "byte list \<Rightarrow> nat \<Rightarrow> nat option \<Rightarrow> nat option option" where
  "last_label_at q_labels p prev = do {
     b \<leftarrow> rd q_labels p;
     if b = 0 then Some prev else last_label_at q_labels (p + unat b + 1) (Some p)
   }"
  by pat_completeness auto
termination
  by (relation "measure (\<lambda>(l, p, _). length l - p)") (auto simp: rd_eq_Some_iff)

declare last_label_at.simps [simp del]

definition cut_and_append_label :: "byte list \<Rightarrow> byte list \<Rightarrow> (byte list \<times> byte list) option" where
  "cut_and_append_label q_labels qname = do {
     prev \<leftarrow> last_label_at q_labels 0 None;
     case prev of None \<Rightarrow> Some (q_labels, qname)
     | Some p \<Rightarrow> do {
         label \<leftarrow> ptr q_labels p;
         len1 \<leftarrow> wire_name_length label;
         len2 \<leftarrow> (if qname = [] then None else wire_name_length qname);
         front \<leftarrow> (if len1 = 0 \<or> len2 = 0 then None else seg label 0 (len1 - 1));
         rest \<leftarrow> seg qname 0 len2;
         Some (take p q_labels @ [0], front @ rest)
       }
   }"

lemma last_label_at_less: "last_label_at l p prev = Some (Some k) \<Longrightarrow> (\<And>k. prev = Some k \<Longrightarrow> k + 1 < length l) \<Longrightarrow> k + 1 < length l"
proof (induction l p prev rule: last_label_at.induct)
  case (1 l p prev)
  obtain b where b: "rd l p = Some b"
    using "1.prems" by (subst (asm) last_label_at.simps) (auto split: Option.bind_splits)
  show ?case
  proof (cases "b = 0")
    case True
    with b "1.prems"(1) have "prev = Some k" by (subst (asm) last_label_at.simps) simp
    then show ?thesis using "1.prems"(2) by simp
  next
    case False
    with b "1.prems"(1) have nxt: "last_label_at l (p + unat b + 1) (Some p) = Some (Some k)"
      by (subst (asm) last_label_at.simps) simp
    then have "p + unat b + 1 < length l"
      by (subst (asm) last_label_at.simps) (auto simp: rd_eq_Some_iff split: Option.bind_splits)
    then have "p + 1 < length l" by simp
    then show ?thesis using "1.IH" [OF b False nxt] by simp
  qed
qed

lemma cut_shorter:
  assumes "cut_and_append_label l q = Some (l', q')" "rd l 0 = Some b" "b \<noteq> 0"
  shows "length l' < length l"
proof -
  obtain prev where p: "last_label_at l 0 None = Some prev"
    using assms(1) by (auto simp: cut_and_append_label_def split: Option.bind_splits)
  have "prev \<noteq> None"
  proof
    assume "prev = None"
    then have "last_label_at l (unat b + 1) (Some 0) = Some None"
      using p assms(2,3) by (subst (asm) last_label_at.simps) simp
    moreover have "last_label_at l i (Some j) \<noteq> Some None" for i j
    proof (induction l i "Some j" arbitrary: j rule: last_label_at.induct)
      case (1 l i)
      show ?case by (subst last_label_at.simps) (auto split: Option.bind_splits dest: 1)
    qed
    ultimately show False by blast
  qed
  then obtain k where k: "prev = Some k" by auto
  then have "k + 1 < length l" using last_label_at_less p by fastforce
  moreover have "l' = take k l @ [0]"
    using assms(1) p k by (auto simp: cut_and_append_label_def split: Option.bind_splits if_splits)
  ultimately show ?thesis by simp
qed

text \<open>
  One turn of the loop of \<open>verify_provably_insecure\<close>: the loop ends with the code, \<open>*done\<close> and \<open>*is_pinsecure\<close>, or it goes on
  with the labels that remain, \<open>curzone_n\<close>, \<open>nxt_qname\<close> and the look-aside trust point and its target.
\<close>

datatype pi_turn =
    Pi_end val_ret bool bool validator
  | Pi_next "byte list" "byte list" "byte list" "(byte list \<times> byte list) option" validator

definition pi_verdict :: "result_chain \<Rightarrow> byte list \<Rightarrow> bool option option" where
  "pi_verdict res curzone_n =
     (if res_status res = VAL_NONEXISTENT_TYPE \<or> res_status res = VAL_NONEXISTENT_TYPE_NOCHAIN
      then map_option Some (verify_zonecut_in_rrsig res curzone_n)
      else if res_status res = VAL_SUCCESS then do {
        ok \<leftarrow> verify_zonecut_in_rrsig res curzone_n;
        if \<not> ok then Some None
        else case res_rrset res of None \<Rightarrow> Some (Some False) | Some d \<Rightarrow> map_option Some (only_unknown_algs (vr_data d))
      }
      else Some (Some False))"

definition pi_descend :: "u32 \<Rightarrow> byte list \<Rightarrow> byte list \<Rightarrow> byte list \<Rightarrow> (byte list \<times> byte list) option \<Rightarrow> bool \<Rightarrow> validator \<Rightarrow> pi_turn option" where
  "pi_descend fl q_labels nxt_qname zonecut_n dlv pin v =
     (if \<not> pin then Some (Pi_next q_labels zonecut_n nxt_qname dlv v)
      else if fl AND VAL_QUERY_USING_DLV = 0 then Some (Pi_end VAL_NO_ERROR True True v)
      else case dlv of None \<Rightarrow> Some (Pi_end VAL_NO_ERROR True True v)
      | Some (dlv_tp, dlv_target) \<Rightarrow> do {
          (rc, _, last_name) \<leftarrow> replace_name_in_name zonecut_n dlv_tp dlv_target;
          Some (if rc \<noteq> VAL_NO_ERROR then Pi_end rc True False v else Pi_next q_labels last_name [] None v)
        })"

definition pi_chase :: "chase \<Rightarrow> u32 \<Rightarrow> byte list \<Rightarrow> byte list \<Rightarrow> byte list \<Rightarrow> byte list \<Rightarrow> (byte list \<times> byte list) option \<Rightarrow> validator \<Rightarrow>
    pi_turn option" where
  "pi_chase chase fl q_labels curzone_n nxt_qname zonecut_n dlv v = do {
     w \<leftarrow> namename curzone_n zonecut_n;
     if w \<noteq> None then Some (Pi_end VAL_NO_ERROR True False v)
     else do {
       (rc, done, results, v) \<leftarrow> chase zonecut_n 1 ns_t_ds (fl OR VAL_QUERY_SEC_LEAF OR VAL_QUERY_AC_DETAIL) True v;
       if rc \<noteq> VAL_NO_ERROR \<or> \<not> done then Some (Pi_end rc done False v)
       else case results of [] \<Rightarrow> Some (Pi_end VAL_NO_ERROR True False v)
       | res # _ \<Rightarrow>
           if \<not> val_istrusted (res_status res) then Some (Pi_end VAL_NO_ERROR True False v)
           else if res_status res = VAL_NONEXISTENT_NAME \<or> res_status res = VAL_NONEXISTENT_NAME_NOCHAIN
           then Some (Pi_next q_labels curzone_n nxt_qname dlv v)
           else do {
             verdict \<leftarrow> pi_verdict res curzone_n;
             case verdict of None \<Rightarrow> Some (Pi_end VAL_NO_ERROR True False v)
             | Some pin \<Rightarrow> pi_descend fl q_labels nxt_qname zonecut_n dlv pin v
           }
     }
   }"

definition pi_turn :: "chase \<Rightarrow> byte list \<Rightarrow> u32 \<Rightarrow> byte list \<Rightarrow> byte list \<Rightarrow> byte list \<Rightarrow> (byte list \<times> byte list) option \<Rightarrow> validator \<Rightarrow>
    pi_turn option" where
  "pi_turn chase q_name_n fl q_labels curzone_n nxt_qname dlv v = do {
     start \<leftarrow> (if nxt_qname = [] then do { len \<leftarrow> wire_name_length curzone_n; seg curzone_n 0 len } else Some nxt_qname);
     (q_labels, nxt_qname) \<leftarrow> cut_and_append_label q_labels start;
     c \<leftarrow> namecmp q_name_n nxt_qname;
     (rc, done, zonecut_n, v) \<leftarrow> (if c \<noteq> 0 then find_next_zonecut chase nxt_qname fl v else Some (VAL_NO_ERROR, True, [], v));
     b \<leftarrow> rd q_labels 0;
     if rc \<noteq> VAL_NO_ERROR \<or> \<not> done then Some (Pi_end VAL_NO_ERROR done False v)
     else if zonecut_n = [] then
       (if b \<noteq> 0 then Some (Pi_next q_labels curzone_n nxt_qname dlv v)
        else do {
          len \<leftarrow> wire_name_length nxt_qname;
          zonecut_n \<leftarrow> seg nxt_qname 0 len;
          pi_chase chase fl q_labels curzone_n nxt_qname zonecut_n dlv v
        })
     else do {
       c \<leftarrow> namecmp zonecut_n curzone_n;
       if c = 0 then Some (Pi_next q_labels curzone_n nxt_qname dlv v)
       else pi_chase chase fl q_labels curzone_n nxt_qname zonecut_n dlv v
     }
   }"

lemma pi_descend_labels: "pi_descend fl l nxt zc dlv pin v = Some (Pi_next l' cz nxt' dlv' v') \<Longrightarrow> l' = l"
  by (auto simp: pi_descend_def split: if_splits option.splits Option.bind_splits)

lemma pi_chase_labels:
  assumes "pi_chase chase fl l cz nxt zc dlv v = Some (Pi_next l' cz' nxt' dlv' v')"
  shows "l' = l"
  using assms
  by (auto simp: pi_chase_def split: if_splits option.splits Option.bind_splits list.splits prod.splits dest: pi_descend_labels)

lemma pi_turn_labels:
  assumes "pi_turn chase qn fl l cz nxt dlv v = Some (Pi_next l' cz' nxt' dlv' v')" "rd l 0 = Some b" "b \<noteq> 0"
  shows "length l' < length l"
proof -
  obtain start l1 n1 where s: "cut_and_append_label l start = Some (l1, n1)" "l' = l1"
    using assms(1)
    by (auto simp: pi_turn_def split: if_splits option.splits Option.bind_splits prod.splits dest: pi_chase_labels)
  show ?thesis using cut_shorter [OF s(1) assms(2,3)] s(2) by simp
qed

function pi_loop :: "chase \<Rightarrow> byte list \<Rightarrow> u32 \<Rightarrow> byte list \<Rightarrow> byte list \<Rightarrow> byte list \<Rightarrow> (byte list \<times> byte list) option \<Rightarrow> validator \<Rightarrow>
    (val_ret \<times> bool \<times> bool \<times> validator) option" where
  "pi_loop chase q_name_n fl q_labels curzone_n nxt_qname dlv v = (case rd q_labels 0 of None \<Rightarrow> None
     | Some b \<Rightarrow>
         if b = 0 then Some (VAL_NO_ERROR, True, False, v)
         else (case pi_turn chase q_name_n fl q_labels curzone_n nxt_qname dlv v of None \<Rightarrow> None
           | Some (Pi_end rc done is_pinsecure v) \<Rightarrow> Some (rc, done, is_pinsecure, v)
           | Some (Pi_next q_labels curzone_n nxt_qname dlv v) \<Rightarrow> pi_loop chase q_name_n fl q_labels curzone_n nxt_qname dlv v))"
  by pat_completeness auto
termination
  by (relation "measure (\<lambda>(_, _, _, l, _). length l)") (auto dest: pi_turn_labels)

declare pi_loop.simps [simp del]

text \<open>
  \<open>verify_provably_insecure\<close> for the assertion \<open>r\<close>: the code, \<open>*done\<close>, \<open>*is_pinsecure\<close>, \<open>*ttl_x\<close> and the state. With
  look-aside validation and a DS query the second search is for \<open>curzone_n\<close>, the look-aside trust point, and not for its target.
\<close>

definition pi_start :: "chase \<Rightarrow> rrset_rec \<Rightarrow> u32 \<Rightarrow> byte list \<Rightarrow> byte list \<Rightarrow> (byte list \<times> byte list) option \<Rightarrow> byte list \<Rightarrow> validator \<Rightarrow>
    (val_ret \<times> bool \<times> bool \<times> validator) option" where
  "pi_start chase s fl q_zonecut_n curzone_n dlv target v = do {
     q \<leftarrow> namename q_zonecut_n target;
     case q of None \<Rightarrow> Some (VAL_NO_ERROR, True, False, v)
     | Some q \<Rightarrow> do {
         tail \<leftarrow> ptr q_zonecut_n q;
         same \<leftarrow> namecmp q_zonecut_n tail;
         own \<leftarrow> (if same = 0 then Some 1 else namecmp q_zonecut_n (rrs_name_n s));
         if same = 0 then Some (VAL_NO_ERROR, True, False, v)
         else if own = 0 \<and> rrs_type_h s = ns_t_ds then do {
           b \<leftarrow> rd q_zonecut_n 0;
           q_labels \<leftarrow> (if b = 0 then Some q_zonecut_n else ptr q_zonecut_n (unat b + 1));
           q \<leftarrow> namename q_labels curzone_n;
           case q of None \<Rightarrow> Some (VAL_NO_ERROR, True, False, v)
           | Some q \<Rightarrow> do {
               q_labels \<leftarrow> wr q_labels q 0;
               pi_loop chase (rrs_name_n s) fl (take (q + 1) q_labels) curzone_n [] dlv v
             }
         }
         else do {
           q_labels \<leftarrow> wr q_zonecut_n q 0;
           pi_loop chase (rrs_name_n s) fl (take (q + 1) q_labels) curzone_n [] dlv v
         }
       }
   }"

definition verify_provably_insecure :: "venv \<Rightarrow> chase \<Rightarrow> as_ref \<Rightarrow> u32 \<Rightarrow> u32 \<Rightarrow> validator \<Rightarrow>
    (val_ret \<times> bool \<times> bool \<times> u32 \<times> validator) option" where
  "verify_provably_insecure E chase r fl ttl_x v = do {
     as \<leftarrow> get_as v r;
     s \<leftarrow> ac_data as;
     if rrs_name_n s = [] then Some (VAL_BAD_ARGUMENT, False, False, ttl_x, v)
     else if fl AND VAL_QUERY_SEC_LEAF \<noteq> 0 then Some (VAL_NO_ERROR, True, False, ttl_x, v)
     else do {
       let zone = (if rrs_zonecut_n s = [] then rrs_name_n s else rrs_zonecut_n s);
       len \<leftarrow> wire_name_length zone;
       q_zonecut_n \<leftarrow> (if len = 0 then None else seg zone 0 len);
       if fl AND VAL_QUERY_USING_DLV \<noteq> 0 then do {
         (rc, dlv_tp, dlv_target, ttl_x, ctx) \<leftarrow> find_dlv_trust_point (ve_now E) (va_dlv v) (rrs_name_n s) ttl_x;
         let v = v\<lparr> va_dlv := ctx \<rparr>;
         if rc \<noteq> VAL_NO_ERROR \<or> dlv_tp = [] \<or> dlv_target = [] then Some (VAL_NO_ERROR, True, False, ttl_x, v)
         else do {
           (rc, done, pin, v) \<leftarrow> pi_start chase s fl q_zonecut_n dlv_tp (Some (dlv_tp, dlv_target)) dlv_target v;
           Some (rc, done, pin, ttl_x, v)
         }
       }
       else do {
         (rc, curzone_n, ttl_x, ctx) \<leftarrow> find_trust_point (ve_now E) (va_ta v) (rrs_name_n s);
         let v = v\<lparr> va_ta := ctx \<rparr>;
         if rc \<noteq> VAL_NO_ERROR \<or> curzone_n = [] then Some (VAL_NO_ERROR, True, False, ttl_x, v)
         else do {
           (rc, done, pin, v) \<leftarrow> pi_start chase s fl q_zonecut_n curzone_n None curzone_n v;
           Some (rc, done, pin, ttl_x, v)
         }
       }
     }
   }"

subsection \<open>Look-aside validation\<close>

text \<open>\<open>find_dlv_record\<close>: the code, \<open>*done\<close>, \<open>*dlv_ptr\<close> and the state; the name loses a label at every turn.\<close>

function dlv_record_loop :: "chase \<Rightarrow> byte list \<Rightarrow> u32 \<Rightarrow> byte list \<Rightarrow> bool \<Rightarrow> validator \<Rightarrow>
    (val_ret \<times> bool \<times> byte list option \<times> validator) option" where
  "dlv_record_loop chase dlv_tp fl q done v = (case (namecmp q dlv_tp, rd q 0) of
     (Some c, Some b) \<Rightarrow>
       if c = 0 \<or> b = 0 then Some (VAL_NO_ERROR, done, None, v)
       else (case chase q 1 ns_t_dlv fl done v of None \<Rightarrow> None
         | Some (rc, done, results, v) \<Rightarrow>
             if rc \<noteq> VAL_NO_ERROR \<or> \<not> done then Some (rc, done, None, v)
             else if (case results of [] \<Rightarrow> False | r # _ \<Rightarrow> val_isvalidated (res_status r) \<and> \<not> val_does_not_exist (res_status r))
             then Some (VAL_NO_ERROR, True, Some q, v)
             else if unat b + 1 < length q then dlv_record_loop chase dlv_tp fl (drop (unat b + 1) q) done v
             else None)
   | _ \<Rightarrow> None)"
  by pat_completeness auto
termination
  by (relation "measure (\<lambda>(_, _, _, q, _). length q)") auto

declare dlv_record_loop.simps [simp del]

definition find_dlv_record :: "chase \<Rightarrow> byte list \<Rightarrow> byte list \<Rightarrow> u32 \<Rightarrow> bool \<Rightarrow> validator \<Rightarrow>
    (val_ret \<times> bool \<times> byte list option \<times> validator) option" where
  "find_dlv_record chase name dlv_tp fl done v =
     (if name = [] \<or> dlv_tp = [] then Some (VAL_BAD_ARGUMENT, done, None, v)
      else do {
        c \<leftarrow> namecmp name dlv_tp;
        if c = 0 then Some (VAL_NO_ERROR, True, None, v) else dlv_record_loop chase dlv_tp fl name False v
      })"

text \<open>The first assertion of a list of the DLV query is copied into the DS query.\<close>

definition copy_first :: "bool \<Rightarrow> val_query_chain \<Rightarrow> val_query_chain \<Rightarrow> val_query_chain option" where
  "copy_first proof copyfrm q = (case as_list proof copyfrm of [] \<Rightarrow> Some q
     | f # _ \<Rightarrow> do {
         d \<leftarrow> ac_data f;
         (l, q) \<leftarrow> add_to_authentication_chain [d] q;
         case l of [] \<Rightarrow> None
         | n # rest \<Rightarrow> do {
             nd \<leftarrow> ac_data n;
             Some (set_as_list proof (\<lparr> val_ac_status = val_ac_status f, ac_data = Some (nd\<lparr> rrs_ans_kind := rrs_ans_kind d \<rparr>) \<rparr> # rest) q)
           }
       })"

definition copy_dlv_answer :: "nat \<Rightarrow> nat \<Rightarrow> validator \<Rightarrow> validator option" where
  "copy_dlv_answer tp added v = do {
     q \<leftarrow> query_at v added;
     c \<leftarrow> query_at v tp;
     if qc_state q = Q_INIT \<and> Q_ANSWERED \<le> qc_state c then do {
       q \<leftarrow> copy_first False c (q\<lparr> qc_ttl_x := qc_ttl_x c, qc_bad := qc_bad c, qc_state := qc_state c \<rparr>);
       q \<leftarrow> copy_first True c q;
       Some (store_query added q v)
     }
     else Some v
   }"

text \<open>\<open>set_dlv_branchoff\<close> for an assertion: the code, \<open>*done\<close>, \<open>*do_dlv\<close> and the state.\<close>

definition dlv_join :: "venv \<Rightarrow> byte list \<Rightarrow> byte list \<Rightarrow> byte list \<Rightarrow> u16 \<Rightarrow> u32 \<Rightarrow> nat \<Rightarrow> validator \<Rightarrow> (val_ret \<times> bool \<times> validator) option" where
  "dlv_join E name_n cl_target last_name class_h fl a v = do {
     z \<leftarrow> get_zse (ve_now E) (va_zse v) name_n 0;
     case z of Inl e \<Rightarrow> Some (e, False, v)
     | Inr (tzonestatus, tp, ttl_x, ctx) \<Rightarrow> do {
         v \<leftarrow> lower_ttl a ttl_x (v\<lparr> va_zse := ctx \<rparr>);
         closer \<leftarrow> (case tp of None \<Rightarrow> Some None | Some p \<Rightarrow> do { t \<leftarrow> ptr name_n p; namename t last_name });
         if closer \<noteq> None \<and> tzonestatus \<noteq> VAL_AC_WAIT_FOR_TRUST then Some (VAL_NO_ERROR, False, v)
         else do {
           tp_q \<leftarrow> ask E cl_target ns_t_dlv class_h (fl OR VAL_QUERY_NO_DLV) v;
           case tp_q of Inl e \<Rightarrow> Some (e, False, v)
           | Inr (tp_q, v) \<Rightarrow> do {
               added \<leftarrow> ask E last_name ns_t_ds class_h (fl OR VAL_QUERY_USING_DLV) v;
               case added of Inl e \<Rightarrow> Some (e, False, v)
               | Inr (added, v) \<Rightarrow> do { v \<leftarrow> copy_dlv_answer tp_q added v; Some (VAL_NO_ERROR, True, v) }
             }
         }
       }
   }"

definition set_dlv_branchoff :: "venv \<Rightarrow> chase \<Rightarrow> as_ref \<Rightarrow> u32 \<Rightarrow> bool \<Rightarrow> validator \<Rightarrow> (val_ret \<times> bool \<times> bool \<times> validator) option" where
  "set_dlv_branchoff E chase r fl done v = do {
     as \<leftarrow> get_as v r;
     s \<leftarrow> ac_data as;
     z \<leftarrow> get_zse (ve_now E) (va_zse v) (rrs_name_n s) 0;
     case z of Inl e \<Rightarrow> Some (e, done, False, v)
     | Inr (tzonestatus, _, ttl_x, ctx) \<Rightarrow> do {
         v \<leftarrow> lower_ttl (fst r) ttl_x (v\<lparr> va_zse := ctx \<rparr>);
         if tzonestatus \<noteq> VAL_AC_WAIT_FOR_TRUST then Some (VAL_NO_ERROR, done, False, v)
         else do {
           (rc, dlv_tp, dlv_target, ttl_x, ctx) \<leftarrow> find_dlv_trust_point (ve_now E) (va_dlv v) (rrs_name_n s) ttl_x;
           let v = v\<lparr> va_dlv := ctx \<rparr>;
           if rc \<noteq> VAL_NO_ERROR then Some (rc, done, False, v)
           else do {
             v \<leftarrow> lower_ttl (fst r) ttl_x v;
             if dlv_tp = [] \<or> dlv_target = [] then Some (VAL_NO_ERROR, done, False, v)
             else do {
               (rc, name_n, dlv_name) \<leftarrow> replace_name_in_name (rrs_name_n s) dlv_target dlv_tp;
               v \<leftarrow> put_as r (as\<lparr> ac_data := Some (s\<lparr> rrs_name_n := name_n \<rparr>) \<rparr>) v;
               if rc \<noteq> VAL_NO_ERROR then Some (rc, done, False, v)
               else do {
                 (rc, done, found, v) \<leftarrow> find_dlv_record chase dlv_name dlv_tp (fl OR VAL_QUERY_NO_DLV) done v;
                 if rc \<noteq> VAL_NO_ERROR \<or> \<not> done then Some (rc, done, False, v)
                 else case found of None \<Rightarrow> Some (VAL_NO_ERROR, done, False, v)
                 | Some cl_target \<Rightarrow> do {
                     (rc, cl_target, last_name) \<leftarrow> replace_name_in_name cl_target dlv_tp dlv_target;
                     if rc \<noteq> VAL_NO_ERROR then Some (rc, done, False, v)
                     else do {
                       (rc, do_dlv, v) \<leftarrow> dlv_join E name_n cl_target last_name (rrs_class_h s) fl (fst r) v;
                       Some (rc, done, do_dlv, v)
                     }
                   }
               }
             }
           }
         }
       }
   }"

subsection \<open>Going to the root\<close>

text \<open>\<open>switch_to_root\<close> for the element \<open>t\<close> of the chain: \<open>*switched\<close> and the state.\<close>

definition switch_to_root :: "venv \<Rightarrow> nat \<Rightarrow> validator \<Rightarrow> (bool \<times> validator) option" where
  "switch_to_root E t v = (let a = qfq_query (qfq_at v t) in do {
     q \<leftarrow> query_at v a;
     if \<not> ve_rec_fallback E \<or> qc_flags q AND VAL_QUERY_SKIP_RESOLVER \<noteq> 0 \<or> qc_flags q AND VAL_QUERY_ITERATE \<noteq> 0 \<or>
       qc_fallback q = 1 \<or> \<not> ve_root_ns E
     then Some (False, v)
     else do {
       (q, cleared) \<leftarrow> clear_query_chain_structure q;
       if \<not> cleared then Some (False, v)
       else do {
         let v = store_query a (q\<lparr> qc_flags := (qc_flags q AND VAL_QFLAGS_USERMASK) OR VAL_QUERY_IS_ITERATING, qc_fallback := 1 \<rparr>) v;
         let e = qfq_at v t;
         Some (True, v\<lparr> va_queries :=
           rev ((rev (va_queries v))[t := e\<lparr> qfq_flags := qfq_flags e OR VAL_QUERY_IS_ITERATING \<rparr>]) \<rparr>)
       }
     }
   })"

subsection \<open>The walk along a chain of trust\<close>

definition set_chain_complete :: "nat \<Rightarrow> nat" where
  "set_chain_complete st = (if st < 128 then st + 128 else st)"

definition set_result :: "nat \<Rightarrow> nat \<Rightarrow> results_state \<Rightarrow> results_state" where
  "set_result w st S = upd_work w (\<lambda>x. x\<lparr> rc_status := st \<rparr>) S"

text \<open>A chain that ends in a zone shown to be insecure: the policy decides what becomes of the result.\<close>

definition settle_pinsecure :: "venv \<Rightarrow> as_ref \<Rightarrow> nat \<Rightarrow> results_state \<Rightarrow> (u32 \<times> results_state) option" where
  "settle_pinsecure E r w S = do {
     as \<leftarrow> get_as (rs_validator S) r;
     s \<leftarrow> ac_data as;
     (trusted, ttl_x, v) \<leftarrow> is_pu_trusted E (rrs_name_n s) 0 (rs_validator S);
     v \<leftarrow> lower_ttl (fst r) ttl_x v;
     Some (ttl_x, set_result w (if trusted then VAL_PINSECURE else VAL_PINSECURE_UNTRUSTED) (S\<lparr> rs_validator := v \<rparr>))
   }"

text \<open>
  What follows a failure at the assertion \<open>r\<close> in the chain of \<open>as_more\<close>: the code, whether the walk ends, whether this answer is
  done, \<open>ttl_x\<close> and the state. When the zone is not provably insecure the result gets the status that \<open>st\<close> gives for the
  status which the assertion has then, if any.
\<close>

definition pinsecure_or :: "venv \<Rightarrow> chase \<Rightarrow> as_ref \<Rightarrow> as_ref \<Rightarrow> nat \<Rightarrow> u32 \<Rightarrow> (u16 \<Rightarrow> nat option) \<Rightarrow> u32 \<Rightarrow> results_state \<Rightarrow>
    (val_ret \<times> bool \<times> bool \<times> u32 \<times> results_state) option" where
  "pinsecure_or E chase as_more r w fl st ttl_x S = do {
     (rc, pu_done, is_pinsecure, ttl_x, v) \<leftarrow> verify_provably_insecure E chase as_more fl ttl_x (rs_validator S);
     let S = S\<lparr> rs_validator := v \<rparr>;
     if rc \<noteq> VAL_NO_ERROR then Some (rc, True, False, ttl_x, S)
     else if \<not> pu_done then Some (VAL_NO_ERROR, False, False, ttl_x, S)
     else do {
       v \<leftarrow> lower_ttl (fst r) ttl_x v;
       if is_pinsecure then do {
         v \<leftarrow> put_status r VAL_AC_PINSECURE v;
         (ttl_x, S) \<leftarrow> settle_pinsecure E r w (S\<lparr> rs_validator := v \<rparr>);
         Some (VAL_NO_ERROR, True, True, ttl_x, S)
       }
       else do {
         as \<leftarrow> get_as v r;
         let S = S\<lparr> rs_validator := v \<rparr>;
         Some (VAL_NO_ERROR, True, True, 0, case st (val_ac_status as) of None \<Rightarrow> S | Some x \<Rightarrow> set_result w x S)
       }
     }
   }"

text \<open>The first SOA among the proofs for a DS set has the name of the zone itself.\<close>

fun soa_at :: "byte list \<Rightarrow> val_digested_auth_chain list \<Rightarrow> bool option" where
  "soa_at name_n [] = Some False"
| "soa_at name_n (as # rest) = (case ac_data as of
     Some d \<Rightarrow> if rrs_type_h d = ns_t_soa then map_option (\<lambda>c. c = 0) (namecmp (rrs_name_n d) name_n) else soa_at name_n rest
   | None \<Rightarrow> soa_at name_n rest)"

text \<open>The branch for \<open>VAL_AC_NEGATIVE_PROOF\<close>.\<close>

definition judge_negative :: "venv \<Rightarrow> chase \<Rightarrow> as_ref \<Rightarrow> as_ref \<Rightarrow> nat \<Rightarrow> u32 \<Rightarrow> u32 \<Rightarrow> results_state \<Rightarrow>
    (val_ret \<times> bool \<times> bool \<times> u32 \<times> results_state) option" where
  "judge_negative E chase as_more r w fl ttl_x S = do {
     as \<leftarrow> get_as (rs_validator S) r;
     s \<leftarrow> ac_data as;
     if rrs_type_h s \<noteq> ns_t_dnskey then pinsecure_or E chase as_more r w fl (\<lambda>_. Some VAL_BOGUS_PROOF) ttl_x S
     else do {
       (ds_proof, v) \<leftarrow> get_ac_trust E (Some r) fl True (rs_validator S);
       let S = S\<lparr> rs_validator := v \<rparr>;
       case ds_proof of None \<Rightarrow> Some (VAL_NO_ERROR, True, True, ttl_x, set_result w VAL_INDETERMINATE S)
       | Some (a, _, _) \<Rightarrow> do {
           q \<leftarrow> query_at v a;
           child \<leftarrow> soa_at (rrs_name_n s) (qc_proof q);
           if child then Some (VAL_NO_ERROR, True, True, ttl_x, set_result w VAL_BOGUS_PROOF S)
           else pinsecure_or E chase as_more r w fl (\<lambda>_. Some VAL_BOGUS_PROOF) ttl_x S
         }
     }
   }"

text \<open>The branch for the final states.\<close>

definition judge_final :: "venv \<Rightarrow> as_ref \<Rightarrow> nat \<Rightarrow> u16 \<Rightarrow> u32 \<Rightarrow> results_state \<Rightarrow> (u32 \<times> results_state) option" where
  "judge_final E r w status ttl_x S = (let st = rc_status (rs_work S ! w) in
     if st \<noteq> VAL_DONT_KNOW then Some (ttl_x, set_result w (set_chain_complete st) S)
     else if status = VAL_AC_IGNORE_VALIDATION then Some (ttl_x, set_result w VAL_IGNORE_VALIDATION S)
     else if status = VAL_AC_TRUST then Some (ttl_x, set_result w (set_chain_complete st) S)
     else if status = VAL_AC_UNTRUSTED_ZONE then Some (ttl_x, set_result w VAL_UNTRUSTED_ZONE S)
     else if status = VAL_AC_PINSECURE then settle_pinsecure E r w S
     else if status = VAL_AC_BARE_RRSIG then Some (ttl_x, set_result w VAL_BARE_RRSIG S)
     else if status = VAL_AC_NO_LINK then Some (ttl_x, set_result w VAL_NOTRUST S)
     else Some (ttl_x, S))"

definition failed_status :: "u16 \<Rightarrow> nat option" where
  "failed_status status = (if status \<le> VAL_AC_LAST_ERROR then Some VAL_INDETERMINATE
     else if status \<le> VAL_AC_LAST_BAD then Some VAL_DNS_ERROR
     else if status \<le> VAL_AC_LAST_FAILURE then Some VAL_BOGUS else None)"

definition judge_assertion :: "venv \<Rightarrow> chase \<Rightarrow> as_ref \<Rightarrow> as_ref \<Rightarrow> nat \<Rightarrow> u32 \<Rightarrow> u32 \<Rightarrow> results_state \<Rightarrow>
    (val_ret \<times> bool \<times> bool \<times> u32 \<times> results_state) option" where
  "judge_assertion E chase as_more r w fl ttl_x S = do {
     as \<leftarrow> get_as (rs_validator S) r;
     let status = val_ac_status as;
     if status \<le> VAL_AC_INIT then Some (VAL_NO_ERROR, False, False, ttl_x, S)
     else if status = VAL_AC_NEGATIVE_PROOF then judge_negative E chase as_more r w fl ttl_x S
     else if status \<le> VAL_AC_LAST_STATE then do {
       (ttl_x, S) \<leftarrow> judge_final E r w status ttl_x S;
       Some (VAL_NO_ERROR, True, True, ttl_x, S)
     }
     else if status \<le> VAL_AC_LAST_FAILURE then
       pinsecure_or E chase as_more r w fl failed_status 0 S
     else Some (VAL_NO_ERROR, False, True, ttl_x, S)
   }"

text \<open>The inner loop of \<open>verify_and_validate\<close>: the code, \<open>thisdone\<close>, \<open>ttl_x\<close> and the state.\<close>

partial_function (option) walk_chain :: "venv \<Rightarrow> chase \<Rightarrow> as_ref \<Rightarrow> nat \<Rightarrow> u32 \<Rightarrow> as_ref option \<Rightarrow> bool \<Rightarrow> u32 \<Rightarrow> results_state \<Rightarrow>
    (val_ret \<times> bool \<times> u32 \<times> results_state) option" where
  "walk_chain E chase as_more w fl next_as thisdone ttl_x S = (case next_as of None \<Rightarrow> Some (VAL_NO_ERROR, thisdone, ttl_x, S)
     | Some r \<Rightarrow> Option.bind (get_as (rs_validator S) r) (\<lambda>as. Option.bind (ac_data as) (\<lambda>s.
         Option.bind (if val_ac_status as \<le> VAL_AC_INIT then try_verify_assertion E (Some r) fl (rs_validator S)
           else Some (VAL_NO_ERROR, rs_validator S)) (\<lambda>(rc, v).
         if rc \<noteq> VAL_NO_ERROR then Some (rc, thisdone, ttl_x, S\<lparr> rs_validator := v \<rparr>)
         else Option.bind (get_ac_trust E (Some r) fl False v) (\<lambda>(as_trust, v).
         if as_trust = Some r then Option.bind (put_status r VAL_AC_DNSKEY_MISSING v) (\<lambda>v.
           Some (VAL_NO_ERROR, thisdone, ttl_x, set_result w VAL_BOGUS (S\<lparr> rs_validator := v \<rparr>)))
         else Option.bind (judge_assertion E chase as_more r w fl ttl_x (S\<lparr> rs_validator := v \<rparr>)) (\<lambda>(rc, stop, d, ttl_x, S).
         if rc \<noteq> VAL_NO_ERROR \<or> stop then Some (rc, thisdone \<and> d, ttl_x, S)
         else walk_chain E chase as_more w fl as_trust (thisdone \<and> d) ttl_x S))))))"

subsection \<open>All answers of a query\<close>

text \<open>
  The look-aside branch at the end of the loop of \<open>verify_and_validate\<close>: the code, whether the loop starts again, whether the
  answer is done and the state.
\<close>

definition dlv_wanted :: "u32 \<Rightarrow> nat \<Rightarrow> bool" where
  "dlv_wanted fl st \<longleftrightarrow> fl AND VAL_QUERY_DONT_VALIDATE = 0 \<and> fl AND VAL_QUERY_NO_DLV = 0 \<and> fl AND VAL_QUERY_USING_DLV = 0 \<and>
     st \<in> {VAL_NOTRUST, VAL_PINSECURE, VAL_PINSECURE_UNTRUSTED, VAL_IGNORE_VALIDATION, VAL_DONT_KNOW}"

definition try_dlv :: "venv \<Rightarrow> chase \<Rightarrow> as_ref \<Rightarrow> nat \<Rightarrow> u32 \<Rightarrow> results_state \<Rightarrow> (val_ret \<times> bool \<times> bool \<times> results_state) option" where
  "try_dlv E chase r w fl S = do {
     (rc, thisdone, do_dlv, v) \<leftarrow> set_dlv_branchoff E chase r fl True (rs_validator S);
     let S = S\<lparr> rs_validator := v \<rparr>;
     if rc \<noteq> VAL_NO_ERROR then Some (rc, False, False, S)
     else if do_dlv then do {
       q \<leftarrow> query_at v (fst r);
       v \<leftarrow> put_status r VAL_AC_INIT (store_query (fst r) (q\<lparr> qc_flags := qc_flags q OR VAL_QUERY_USING_DLV \<rparr>) v);
       let S = upd_work w (\<lambda>x. x\<lparr> rc_flags := rc_flags x OR VAL_QUERY_USING_DLV \<rparr>) S;
       (rc, v) \<leftarrow> build_pending_query E r (rc_flags (rs_work S ! w)) v;
       let S = S\<lparr> rs_validator := v \<rparr>;
       if rc \<noteq> VAL_NO_ERROR then Some (rc, False, False, S)
       else Some (VAL_NO_ERROR, True, False, set_result w VAL_DONT_KNOW S)
     }
     else if thisdone then Some (VAL_NO_ERROR, False, True, S)
     else Some (VAL_NO_ERROR, False, False, set_result w VAL_DONT_KNOW S)
   }"

text \<open>The internal result of an answer, which is added when there is none, and the work on it.\<close>

definition result_for :: "u32 \<Rightarrow> as_ref \<Rightarrow> nat option \<Rightarrow> results_state \<Rightarrow> nat \<times> results_state" where
  "result_for fl r known S = (case known of Some w \<Rightarrow> (w, S)
     | None \<Rightarrow> (length (rs_work S), S\<lparr> rs_work := rs_work S @ [\<lparr> rc_status = (if fl AND VAL_QUERY_DONT_VALIDATE \<noteq> 0
         then VAL_IGNORE_VALIDATION else VAL_DONT_KNOW), rc_is_proof = fst (snd r), rc_consumed = False, rc_flags = fl, rc_rrset = r \<rparr>] \<rparr>))"

definition validate_at :: "venv \<Rightarrow> chase \<Rightarrow> as_ref \<Rightarrow> u32 \<Rightarrow> nat \<Rightarrow> results_state \<Rightarrow>
    (val_ret \<times> bool \<times> bool \<times> u32 \<times> results_state) option" where
  "validate_at E chase r ttl_x w S = (let fl = rc_flags (rs_work S ! w) in do {
     (rc, thisdone, ttl_x, S) \<leftarrow> walk_chain E chase r w fl (Some r) True ttl_x S;
     if rc \<noteq> VAL_NO_ERROR then Some (rc, False, False, ttl_x, S)
     else if thisdone \<and> dlv_wanted fl (rc_status (rs_work S ! w)) then do {
       (rc, again, thisdone, S) \<leftarrow> try_dlv E chase r w fl S;
       Some (rc, again, thisdone, ttl_x, S)
     }
     else if thisdone then Some (VAL_NO_ERROR, False, True, ttl_x, S)
     else Some (VAL_NO_ERROR, False, False, ttl_x, set_result w (128 * (rc_status (rs_work S ! w) div 128)) S)
   })"

definition validate_one :: "venv \<Rightarrow> chase \<Rightarrow> nat \<Rightarrow> as_ref \<Rightarrow> u32 \<Rightarrow> results_state \<Rightarrow>
    (val_ret \<times> bool \<times> bool \<times> u32 \<times> results_state) option" where
  "validate_one E chase t r ttl_x S = (let known = List.find (\<lambda>i. rc_rrset (rs_work S ! i) = r) [0..<length (rs_work S)] in
     if (case known of None \<Rightarrow> False | Some w \<Rightarrow> rc_status (rs_work S ! w) mod 128 \<noteq> VAL_DONT_KNOW)
     then Some (VAL_NO_ERROR, False, True, ttl_x, S)
     else let (w, S) = result_for (qfq_flags (qfq_at (rs_validator S) t)) r known S in validate_at E chase r ttl_x w S)"

text \<open>\<open>verify_and_validate\<close> for the element \<open>t\<close> and its query \<open>a\<close>, from the answer \<open>i\<close> on: the code, \<open>*done\<close> and the state.\<close>

partial_function (option) validate_from :: "venv \<Rightarrow> chase \<Rightarrow> nat \<Rightarrow> nat \<Rightarrow> bool \<Rightarrow> nat \<Rightarrow> bool \<Rightarrow> u32 \<Rightarrow> results_state \<Rightarrow>
    (val_ret \<times> bool \<times> results_state) option" where
  "validate_from E chase t a proof i done ttl_x S = Option.bind (query_at (rs_validator S) a) (\<lambda>q.
     if length (as_list proof q) \<le> i then Some (VAL_NO_ERROR, done, S)
     else Option.bind (validate_one E chase t (a, proof, i) ttl_x S) (\<lambda>(rc, again, d, ttl_x, S).
       if rc \<noteq> VAL_NO_ERROR then Some (rc, done \<and> d, S)
       else if again then validate_from E chase t a proof 0 True ttl_x S
       else validate_from E chase t a proof (i + 1) (done \<and> d) ttl_x S))"

text \<open>A query without a response yet leaves \<open>*done\<close> as it is.\<close>

definition verify_and_validate :: "venv \<Rightarrow> chase \<Rightarrow> nat \<Rightarrow> bool \<Rightarrow> bool \<Rightarrow> results_state \<Rightarrow> (val_ret \<times> bool \<times> results_state) option" where
  "verify_and_validate E chase t proof done S = (let a = qfq_query (qfq_at (rs_validator S) t) in do {
     q \<leftarrow> query_at (rs_validator S) a;
     if qc_state q \<le> Q_SENT then Some (VAL_NO_ERROR, done, S)
     else validate_from E chase t a proof 0 True 0 S
   })"

subsection \<open>Construction of the results\<close>

text \<open>\<open>construct_authentication_chain\<close> for the element \<open>t\<close>: the code, \<open>*done\<close> and the state.\<close>

definition switch_or :: "venv \<Rightarrow> nat \<Rightarrow> results_state \<Rightarrow> results_state \<Rightarrow> (val_ret \<times> bool \<times> results_state) option" where
  "switch_or E t S S0 = do {
     (switched, v) \<leftarrow> switch_to_root E t (rs_validator S);
     Some (if switched then (VAL_NO_ERROR, False, \<lparr> rs_work = [], rs_results = [], rs_validator = v \<rparr>)
       else (VAL_NO_ERROR, True, S0\<lparr> rs_validator := v \<rparr>))
   }"

definition finish_results :: "venv \<Rightarrow> nat \<Rightarrow> results_state \<Rightarrow> (val_ret \<times> bool \<times> results_state) option" where
  "finish_results E t S = do {
     (rc, S) \<leftarrow> perform_sanity_checks E (qfq_query (qfq_at (rs_validator S) t)) S;
     S \<leftarrow> (if rc = VAL_NO_ERROR then map_option snd (transform_outstanding_results E VAL_IRRELEVANT_PROOF [0..<length (rs_work S)] None S)
       else Some S);
     if rs_results S = [] \<or> list_ex (\<lambda>r. res_status r = VAL_BOGUS \<or> res_status r = VAL_INDETERMINATE) (rs_results S)
     then switch_or E t S S
     else Some (VAL_NO_ERROR, True, S)
   }"

definition construct_authentication_chain :: "venv \<Rightarrow> chase \<Rightarrow> nat \<Rightarrow> results_state \<Rightarrow> (val_ret \<times> bool \<times> results_state) option" where
  "construct_authentication_chain E chase t S = (let S = S\<lparr> rs_results := [] \<rparr> in do {
     q \<leftarrow> query_at (rs_validator S) (qfq_query (qfq_at (rs_validator S) t));
     if Q_ERROR_BASE < qc_state q
     then switch_or E t S (S\<lparr> rs_results := [result_block\<lparr> res_status := VAL_DNS_ERROR \<rparr>] \<rparr>)
     else if qc_state q \<le> Q_SENT then Some (VAL_NO_ERROR, False, S)
     else do {
       (rc, ans_done, S) \<leftarrow> verify_and_validate E chase t False False S;
       if rc \<noteq> VAL_NO_ERROR then Some (rc, False, S)
       else do {
         (rc, proof_done, S) \<leftarrow> verify_and_validate E chase t True False S;
         if rc \<noteq> VAL_NO_ERROR then Some (rc, False, S)
         else if ans_done \<and> proof_done \<and> rs_work S \<noteq> [] then finish_results E t S
         else Some (VAL_NO_ERROR, False, S)
       }
     }
   })"

text \<open>\<open>try_chase_query\<close>; the fuel is the depth to which calls may nest.\<close>

definition count_reference :: "int \<Rightarrow> nat \<Rightarrow> validator \<Rightarrow> validator option" where
  "count_reference d a v = do { q \<leftarrow> query_at v a; Some (store_query a (q\<lparr> qc_refcount := qc_refcount q + d \<rparr>) v) }"

definition chase_with :: "venv \<Rightarrow> chase \<Rightarrow> chase" where
  "chase_with E chase domain_name_n q_class type fl done v = do {
     r \<leftarrow> add_query_for E domain_name_n type q_class fl v;
     case r of Inl e \<Rightarrow> Some (e, done, [], v)
     | Inr (t, v) \<Rightarrow> do {
         v \<leftarrow> count_reference 1 (qfq_query (qfq_at v t)) v;
         (rc, done, S) \<leftarrow> construct_authentication_chain E chase t \<lparr> rs_work = [], rs_results = [], rs_validator = v \<rparr>;
         v \<leftarrow> count_reference (-1) (qfq_query (qfq_at (rs_validator S) t)) (rs_validator S);
         Some (rc, done, rs_results S, v)
       }
   }"

fun try_chase_query :: "venv \<Rightarrow> nat \<Rightarrow> chase" where
  "try_chase_query E 0 domain_name_n q_class type fl done v = None"
| "try_chase_query E (Suc n) domain_name_n q_class type fl done v =
     chase_with E (try_chase_query E n) domain_name_n q_class type fl done v"

declare walk_chain.simps [code] validate_from.simps [code]

subsection \<open>What a verdict rests on\<close>

lemma signed_by_zone_sound:
  assumes "signed_by_zone zone as found = Some True" "c \<in> set as" "chain_signer c = Some (Some zc)"
  shows "namecmp zc zone = Some 0"
  using assms
proof (induction as arbitrary: found)
  case (Cons a as)
  from Cons.prems(1) obtain s where s: "chain_signer a = Some s" by (auto split: Option.bind_splits)
  show ?case
  proof (cases s)
    case None
    with Cons s show ?thesis by auto
  next
    case (Some z)
    with Cons.prems(1) s have "namecmp z zone = Some 0" "signed_by_zone zone as True = Some True"
      by (auto split: Option.bind_splits if_splits)
    with Cons s Some show ?thesis by auto
  qed
qed simp

lemma signed_by_zone_some:
  assumes "signed_by_zone zone as False = Some True"
  shows "\<exists>c\<in>set as. \<exists>zc. chain_signer c = Some (Some zc)"
  using assms by (induction as) (auto split: Option.bind_splits option.splits if_splits)

lemma only_unknown_algs_all:
  assumes "only_unknown_algs rrs = Some True" "rr \<in> set rrs"
  shows "\<exists>d. val_parse_ds_rdata (rr_rdata rr) = Some (Inr d) \<and> \<not> is_known_dnssec_alg (d_algo d)"
  using assms
proof (induction rrs)
  case (Cons a rrs)
  then obtain ds others where d: "val_parse_ds_rdata (rr_rdata a) = Some ds" "only_unknown_algs rrs = Some others"
    "(case ds of Inl _ \<Rightarrow> False | Inr d \<Rightarrow> \<not> is_known_dnssec_alg (d_algo d)) \<and> others"
    by (auto split: Option.bind_splits)
  with Cons show ?case by (auto split: sum.splits)
qed simp

text \<open>
  The first signature over the first set of a chain names the signer \<open>z\<close>; every chain of \<open>cs\<close> that has such a signature has it
  from the zone \<open>cz\<close>, and one of them has. An answer about the DS set of a zone shows the zone to be insecure below \<open>cz\<close> when
  it is a denial of the type with proofs signed by \<open>cz\<close> only, or a validated set signed by \<open>cz\<close> whose records all name an
  algorithm outside the list of those that can be used.
\<close>

definition signature_of :: "chain_element list \<Rightarrow> byte list \<Rightarrow> bool" where
  "signature_of c z \<longleftrightarrow> (\<exists>e rest d s sigs. c = e # rest \<and> ch_rrset e = Some d \<and> vr_sig d = s # sigs \<and>
     SIGNBY < length (rr_rdata s) \<and> z = drop SIGNBY (rr_rdata s))"

definition signed_only_by :: "byte list \<Rightarrow> chain_element list list \<Rightarrow> bool" where
  "signed_only_by cz cs \<longleftrightarrow> (\<exists>c\<in>set cs. \<exists>z. signature_of c z) \<and>
     (\<forall>c\<in>set cs. \<forall>z. signature_of c z \<longrightarrow> namecmp z cz = Some 0)"

definition shows_insecure :: "result_chain \<Rightarrow> byte list \<Rightarrow> bool" where
  "shows_insecure res cz \<longleftrightarrow>
     (res_status res = VAL_NONEXISTENT_TYPE \<or> res_status res = VAL_NONEXISTENT_TYPE_NOCHAIN) \<and>
       signed_only_by cz (take (res_proof_count res) (res_proofs res)) \<or>
     res_status res = VAL_SUCCESS \<and> signed_only_by cz [res_answer res] \<and>
       (\<exists>d. res_rrset res = Some d \<and> (\<forall>rr\<in>set (vr_data d). 2 < length (rr_rdata rr) \<and>
          rr_rdata rr ! 2 \<notin> {1, 2, 3, 5, 6, 7, 8, 10, 13, 14}))"

lemma chain_signer_signature: "chain_signer c = Some (Some z) \<longleftrightarrow> signature_of c z"
  by (auto simp: chain_signer_def signature_of_def ptr_def neq_Nil_conv split: list.splits option.splits if_splits)

lemma signed_by_zone_only:
  assumes "signed_by_zone cz cs False = Some True"
  shows "signed_only_by cz cs"
  using signed_by_zone_some [OF assms] signed_by_zone_sound [OF assms]
  by (auto simp: signed_only_by_def simp flip: chain_signer_signature)

lemma unknown_alg_rdata:
  assumes "val_parse_ds_rdata b = Some (Inr d)" "\<not> is_known_dnssec_alg (d_algo d)"
  shows "2 < length b \<and> b ! 2 \<notin> {1, 2, 3, 5, 6, 7, 8, 10, 13, 14}"
  using assms by (auto simp: val_parse_ds_rdata_def is_known_dnssec_alg_def rd_def Let_def
      split: if_splits Option.bind_splits option.splits)

lemma pi_verdict_sound:
  assumes "pi_verdict res cz = Some (Some True)"
  shows "shows_insecure res cz"
proof (cases "res_status res = VAL_NONEXISTENT_TYPE \<or> res_status res = VAL_NONEXISTENT_TYPE_NOCHAIN")
  case True
  with assms have "signed_by_zone cz (take (res_proof_count res) (res_proofs res)) False = Some True"
    by (auto simp: pi_verdict_def verify_zonecut_in_rrsig_def val_does_not_exist_def split: if_splits)
  with True show ?thesis by (auto simp: shows_insecure_def dest: signed_by_zone_only)
next
  case False
  with assms obtain d where d: "res_status res = VAL_SUCCESS" "verify_zonecut_in_rrsig res cz = Some True"
    "res_rrset res = Some d" "only_unknown_algs (vr_data d) = Some True"
    by (auto simp: pi_verdict_def split: if_splits Option.bind_splits option.splits)
  then have "signed_by_zone cz [res_answer res] False = Some True"
    by (auto simp: verify_zonecut_in_rrsig_def val_does_not_exist_def split: if_splits)
  with d show ?thesis
    using only_unknown_algs_all [OF d(4)] unknown_alg_rdata by (fastforce simp: shows_insecure_def dest: signed_by_zone_only)
qed

lemma copied_name:
  assumes "wire_name_length n = Some k" "seg n 0 k = Some b" "b \<noteq> []"
  shows "\<exists>ls. encodes n ls \<and> wf_name ls \<and> b = enc ls"
proof -
  have k: "0 < k" using assms(2,3) by (cases k) (auto simp: seg_def split: if_splits)
  then have "valid_name n" using assms(1) valid_name_iff by blast
  then obtain ls t where n: "n = enc ls @ t" "wf_name ls" by (rule valid_nameE)
  then have e: "encodes n ls" by simp
  with assms(1) wire_name_length_encodes [OF e] have "k = length (enc ls)" by simp
  with assms(2) n e show ?thesis by (auto simp: seg_def split: if_splits)
qed

lemma last_label_enc:
  "list_all wf_label U \<Longrightarrow> last_label_at (encl pre @ encl U @ [0]) (length (encl pre)) prev =
    Some (if U = [] then prev else Some (length (encl (pre @ butlast U))))"
proof (induction U arbitrary: pre prev)
  case Nil
  then show ?case by (subst last_label_at.simps) (simp add: rd_append)
next
  case (Cons x U)
  then have "last_label_at (encl (pre @ [x]) @ encl U @ [0]) (length (encl (pre @ [x]))) (Some (length (encl pre))) =
      Some (if U = [] then Some (length (encl pre)) else Some (length (encl ((pre @ [x]) @ butlast U))))"
    by (intro Cons.IH) simp
  then show ?case using Cons.prems
    by (subst last_label_at.simps) (simp add: label_simps add.assoc)
qed

lemma cut_enc:
  assumes "list_all wf_label U" "U \<noteq> []" "encodes q N"
  shows "cut_and_append_label (encl U @ [0]) q = Some (encl (butlast U) @ [0], enc (last U # N))"
proof -
  have U: "U = butlast U @ [last U]" using assms(2) by simp
  define B l where "B = butlast U" and "l = last U"
  have u: "U = B @ [l]" using U by (simp add: B_def l_def)
  have l: "wf_label l" using assms(1) u by simp
  then have wl: "wf_name [l]" by (simp add: wf_name_def wf_label_def)
  have at: "last_label_at (encl U @ [0]) 0 None = Some (Some (length (encl B)))"
    using last_label_enc [OF assms(1), of "[]" None] assms(2) by (simp add: B_def)
  have p: "ptr (encl U @ [0]) (length (encl B)) = Some (enc [l])" using u by (simp add: ptr_def)
  have n: "wire_name_length (enc [l]) = Some (length (enc [l]))" using wire_name_length_encodes [OF encodes_enc(2) [OF wl]] .
  have s: "seg (enc [l]) 0 (length (enc [l]) - 1) = Some (encl [l])" by (simp add: seg_def)
  obtain t where q: "q = enc N @ t" "wf_name N" using assms(3) by (rule encodesE)
  have "wire_name_length q = Some (length (enc N))" "seg q 0 (length (enc N)) = Some (enc N)" "q \<noteq> []"
    using assms(3) q by (auto simp: wire_name_length_encodes seg_def)
  moreover have "take (length (encl B)) (encl U @ [0]) = encl B" by (simp add: u)
  moreover have "length (enc N) \<noteq> 0" "length (enc [l]) \<noteq> 0" by (simp_all add: length_enc)
  ultimately have "cut_and_append_label (encl U @ [0]) q = Some (encl B @ [0], encl [l] @ enc N)"
    using at p n s by (simp add: cut_and_append_label_def del: encl.simps)
  then show ?thesis by (simp add: B_def l_def)
qed

lemma subname_between:
  assumes "subname W cs" "subname W zs" "\<not> subname cs zs"
  shows "subname zs cs \<and> length cs < length zs"
proof -
  have le: "subname a b" if "subname W a" "subname W b" "length b \<le> length a" for a b
  proof -
    have "cname (drop (length a - length b) (drop (length W - length a) W)) = cname (drop (length a - length b) a)"
      using that(1) by (intro cname_drop) (simp add: subname_def)
    moreover have "length a - length b + (length W - length a) = length W - length b" using that by (simp add: subname_def)
    ultimately show ?thesis using that by (simp add: subname_def)
  qed
  show ?thesis
  proof (cases "length zs \<le> length cs")
    case True
    with le [OF assms(1,2)] assms(3) show ?thesis by simp
  next
    case False
    with le [OF assms(2,1)] show ?thesis by simp
  qed
qed

lemma subname_suffix: "cname (U @ N) = cname W \<Longrightarrow> subname W N"
proof -
  assume a: "cname (U @ N) = cname W"
  have "length W = length U + length N" using cname_eq_length [OF a] by simp
  moreover have "cname (drop (length U) W) = cname N" using cname_drop [OF a, of "length U"] by simp
  ultimately show ?thesis by (simp add: subname_def)
qed


text \<open>The states that questions lead to.\<close>

inductive asked :: "chase \<Rightarrow> validator \<Rightarrow> validator \<Rightarrow> bool" for chase where
  asked_nothing: "asked chase v v"
| asked_more: "asked chase v v1 \<Longrightarrow> chase n c t fl d v1 = Some (rc, d', results, v2) \<Longrightarrow> asked chase v v2"

lemma asked_one: "chase n c t fl d v = Some (rc, d', results, v') \<Longrightarrow> asked chase v v'"
  by (rule asked_more [OF asked_nothing])

lemma asked_trans: "asked chase v v1 \<Longrightarrow> asked chase v1 v2 \<Longrightarrow> asked chase v v2"
  by (rotate_tac 1, induction rule: asked.induct) (auto intro: asked_more)

lemma find_next_zonecut_within:
  assumes "find_next_zonecut chase q fl v = Some (rc, done, z, v')" "encodes q ns"
  shows "asked chase v v' \<and> (z \<noteq> [] \<longrightarrow> (\<exists>zs. encodes z zs \<and> subname ns zs))"
proof (cases "va_queries v = []")
  case True
  with assms(1) show ?thesis by (auto simp: find_next_zonecut_def intro: asked_nothing)
next
  case False
  have q: "q \<noteq> []" using assms(2) encodes_not_Nil by blast
  with False assms(1) obtain known where k: "known_zonecut (q_heap (va_cache v)) (va_queries v) q = Some known"
    by (auto simp: find_next_zonecut_def split: Option.bind_splits)
  define ask where "ask = (if known \<noteq> [] then Some (VAL_NO_ERROR, True, known, v)
          else do {
            (rc, done, results, v) \<leftarrow> chase q 1 ns_t_ns (fl OR VAL_QUERY_DONT_VALIDATE OR VAL_QUERY_AC_DETAIL) True v;
            if rc \<noteq> VAL_NO_ERROR \<or> \<not> done then Some (rc, done, [], v)
            else do {
              z \<leftarrow> zonecut_in_results q results;
              Some (VAL_NO_ERROR, True, (case z of None \<Rightarrow> [] | Some t \<Rightarrow> if t = [] then q else t), v)
            }
          })"
  have "(do {
        (rc, done, zonecut_name_n, v) \<leftarrow> ask;
        if zonecut_name_n = [] then Some (rc, done, [], v)
        else do {
          w \<leftarrow> namename q zonecut_name_n;
          len \<leftarrow> wire_name_length zonecut_name_n;
          name_n \<leftarrow> (if w = None then Some [] else seg zonecut_name_n 0 len);
          Some (rc, done, name_n, v)
        }
      }) = Some (rc, done, z, v')"
    using assms(1) False q k by (simp add: find_next_zonecut_def ask_def)
  then obtain n where a: "ask = Some (rc, done, n, v')"
    and n: "if n = [] then z = [] else (do {
          w \<leftarrow> namename q n;
          len \<leftarrow> wire_name_length n;
          name_n \<leftarrow> (if w = None then Some [] else seg n 0 len);
          Some (rc, done, name_n, v')
        }) = Some (rc, done, z, v')"
    by (auto split: Option.bind_splits if_splits)
  have "asked chase v v'"
    using a unfolding ask_def by (auto split: if_splits Option.bind_splits intro: asked_nothing asked_one)
  moreover have "\<exists>zs. encodes z zs \<and> subname ns zs" if z: "z \<noteq> []"
  proof -
    from n z obtain w k where w: "namename q n = Some w" "w \<noteq> None" "wire_name_length n = Some k" "seg n 0 k = Some z"
      by (auto split: if_splits Option.bind_splits)
    obtain zs where zs: "encodes n zs" "wf_name zs" "z = enc zs" using copied_name [OF w(3,4) z] by blast
    have "subname ns zs" using namename_encodes [OF assms(2) zs(1)] w(1,2) by (simp split: if_splits)
    moreover have "encodes z zs" using zs by simp
    ultimately show ?thesis by blast
  qed
  ultimately show ?thesis by blast
qed

text \<open>
  A zone shown to be insecure on the way down from the trust point \<open>T\<close> to the zone \<open>W\<close>: the answer to the last question,
  for the DS set of a zone \<open>zs\<close>, shows that the closest zone above that was found, \<open>cs\<close>, does not vouch for it.
\<close>

definition shown_below :: "chase \<Rightarrow> u32 \<Rightarrow> label list \<Rightarrow> label list \<Rightarrow> validator \<Rightarrow> validator \<Rightarrow> bool" where
  "shown_below chase fl W T v0 v' \<longleftrightarrow> (\<exists>cz cs zc zs v1 res rest.
     encodes cz cs \<and> encodes zc zs \<and> subname cs T \<and> subname zs cs \<and> length cs < length zs \<and> subname W zs \<and>
     asked chase v0 v1 \<and>
     chase zc 1 ns_t_ds (fl OR VAL_QUERY_SEC_LEAF OR VAL_QUERY_AC_DETAIL) True v1 = Some (VAL_NO_ERROR, True, res # rest, v') \<and>
     shows_insecure res cz)"

lemma shown_below_asked: "shown_below chase fl W T v1 v' \<Longrightarrow> asked chase v0 v1 \<Longrightarrow> shown_below chase fl W T v0 v'"
  unfolding shown_below_def using asked_trans by blast

lemma pi_chase_cases:
  assumes "pi_chase chase fl l cz nxt zc dlv v = Some t" "fl AND VAL_QUERY_USING_DLV = 0"
  shows "(t = Pi_end VAL_NO_ERROR done True v' \<longrightarrow> namename cz zc = Some None \<and> (\<exists>res rest.
      chase zc 1 ns_t_ds (fl OR VAL_QUERY_SEC_LEAF OR VAL_QUERY_AC_DETAIL) True v = Some (VAL_NO_ERROR, True, res # rest, v') \<and>
      shows_insecure res cz)) \<and>
    (t = Pi_next l' cz' nxt' dlv' v' \<longrightarrow> l' = l \<and> nxt' = nxt \<and> asked chase v v' \<and>
      (cz' = cz \<or> cz' = zc \<and> namename cz zc = Some None))"
proof -
  let ?fl = "fl OR VAL_QUERY_SEC_LEAF OR VAL_QUERY_AC_DETAIL"
  from assms(1) obtain w where w: "namename cz zc = Some w" by (auto simp: pi_chase_def split: Option.bind_splits)
  show ?thesis
  proof (cases w)
    case (Some x)
    with assms(1) w show ?thesis by (auto simp: pi_chase_def)
  next
    case None
    with assms(1) w obtain rc d results v1 where c: "chase zc 1 ns_t_ds ?fl True v = Some (rc, d, results, v1)"
      by (auto simp: pi_chase_def split: Option.bind_splits)
    note asked1 = asked_one [of chase, OF c]
    show ?thesis
    proof (cases "rc = VAL_NO_ERROR \<and> d \<and> results \<noteq> []")
      case False
      with assms(1) w None c show ?thesis by (auto simp: pi_chase_def split: if_splits list.splits)
    next
      case True
      then obtain res rest where r: "results = res # rest" by (cases results) auto
      show ?thesis
      proof (cases "val_istrusted (res_status res) \<and> \<not> (res_status res = VAL_NONEXISTENT_NAME \<or> res_status res = VAL_NONEXISTENT_NAME_NOCHAIN)")
        case False
        with assms(1) w None c True r asked1 show ?thesis by (auto simp: pi_chase_def split: if_splits)
      next
        case t: True
        with assms(1) w None c True r obtain verdict where verdict: "pi_verdict res cz = Some verdict"
          by (auto simp: pi_chase_def split: Option.bind_splits)
        show ?thesis
        proof (cases verdict)
          case None
          with assms(1) w \<open>w = None\<close> c True r t verdict show ?thesis by (auto simp: pi_chase_def)
        next
          case (Some pin)
          with assms(1) w \<open>w = None\<close> c True r t verdict have "pi_descend fl l nxt zc dlv pin v1 = Some t"
            by (auto simp: pi_chase_def)
          then have "t = (if pin then Pi_end VAL_NO_ERROR True True v1 else Pi_next l zc nxt dlv v1)"
            using assms(2) by (simp add: pi_descend_def split: if_splits)
          with w \<open>w = None\<close> c True r t verdict Some asked1 pi_verdict_sound [of res cz] show ?thesis by auto
        qed
      qed
    qed
  qed
qed


text \<open>The labels \<open>U\<close> that remain and the name to go on from (\<open>nxt_qname\<close>, or \<open>curzone_n\<close> at first) make up the name \<open>W\<close>.\<close>

definition pi_inv :: "label list \<Rightarrow> label list \<Rightarrow> byte list \<Rightarrow> byte list \<Rightarrow> byte list \<Rightarrow> bool" where
  "pi_inv W T l cz nxt \<longleftrightarrow> (\<exists>U cs N. l = encl U @ [0] \<and> list_all wf_label U \<and> encodes cz cs \<and> subname W cs \<and> subname cs T \<and>
     wf_name N \<and> (if nxt = [] then N = cs else nxt = enc N) \<and> cname (U @ N) = cname W)"

lemma wf_name_shift:
  assumes "wf_name W" "wf_name N" "list_all wf_label U" "U \<noteq> []" "cname (U @ N) = cname W"
  shows "wf_name (last U # N)"
proof -
  have "length (encl (U @ N)) = length (encl W)" using assms(5) by (rule cname_eq_length_enc)
  moreover have "encl U = encl (butlast U) @ encl [last U]"
    using assms(4) by (metis append_butlast_last_id encl_append)
  ultimately have "length (encl (last U # N)) \<le> length (encl W)" by simp
  moreover have "wf_label (last U)" using assms(3,4) by (simp add: list_all_iff)
  ultimately show ?thesis using assms(1,2) by (simp add: wf_name_def length_enc wf_label_def)
qed

lemma pi_turn_starts:
  assumes "pi_turn chase qn fl l cz nxt dlv v = Some t" "pi_inv W T l cz nxt" "rd l 0 = Some b" "b \<noteq> 0" "wf_name W"
  obtains N l1 n1 cs rc d z v1 and b1 :: byte where
    "encodes cz cs" "subname W cs" "subname cs T" "n1 = enc N" "wf_name N" "subname W N"
    "\<And>cz'. (\<exists>cs. encodes cz' cs \<and> subname W cs \<and> subname cs T) \<Longrightarrow> pi_inv W T l1 cz' n1"
    "asked chase v v1" "z \<noteq> [] \<Longrightarrow> \<exists>zs. encodes z zs \<and> subname N zs"
    "(if rc \<noteq> VAL_NO_ERROR \<or> \<not> d then Some (Pi_end VAL_NO_ERROR d False v1)
     else if z = [] then
       (if b1 \<noteq> 0 then Some (Pi_next l1 cz n1 dlv v1)
        else do {
          len \<leftarrow> wire_name_length n1;
          zonecut_n \<leftarrow> seg n1 0 len;
          pi_chase chase fl l1 cz n1 zonecut_n dlv v1
        })
     else do {
       c \<leftarrow> namecmp z cz;
       if c = 0 then Some (Pi_next l1 cz n1 dlv v1)
       else pi_chase chase fl l1 cz n1 z dlv v1
     }) = Some t"
proof -
  from assms(2) obtain U cs N where U: "l = encl U @ [0]" "list_all wf_label U" and cs: "encodes cz cs" "subname W cs" "subname cs T"
    and N: "wf_name N" "if nxt = [] then N = cs else nxt = enc N" "cname (U @ N) = cname W"
    unfolding pi_inv_def by blast
  have ne: "U \<noteq> []" using assms(3,4) U(1) by (auto simp: rd_def)
  obtain cz1 where cz1: "cz = enc cs @ cz1" using cs(1) by (rule encodesE)
  from assms(1) obtain start where start: "(if nxt = [] then do { len \<leftarrow> wire_name_length cz; seg cz 0 len } else Some nxt) = Some start"
    by (auto simp: pi_turn_def split: Option.bind_splits)
  then have "start = enc N"
    using N(2) wire_name_length_encodes [OF cs(1)] cz1 by (auto simp: seg_def split: if_splits)
  then have st: "encodes start N" using N(1) by simp
  define n1 l1 where "n1 = enc (last U # N)" and "l1 = encl (butlast U) @ [0]"
  have cut: "cut_and_append_label l start = Some (l1, n1)"
    using cut_enc [OF U(2) ne st] U(1) by (simp add: n1_def l1_def)
  have wf: "wf_name (last U # N)" using wf_name_shift [OF assms(5) N(1) U(2) ne N(3)] .
  have same: "cname (butlast U @ last U # N) = cname W" using N(3) ne by (metis append_butlast_last_id append_Cons append_Nil append_assoc)
  have inv: "pi_inv W T l1 cz' n1" if "\<exists>cs. encodes cz' cs \<and> subname W cs \<and> subname cs T" for cz'
  proof -
    have "list_all wf_label (butlast U)" using U(2) by (auto simp: list_all_iff dest: in_set_butlastD)
    moreover have "n1 \<noteq> []" by (simp add: n1_def)
    ultimately show ?thesis using that wf same unfolding pi_inv_def l1_def by (metis n1_def)
  qed
  define G where "G = (\<lambda>(b1 :: byte) rc d z v1. (if rc \<noteq> VAL_NO_ERROR \<or> \<not> d then Some (Pi_end VAL_NO_ERROR d False v1)
     else if z = [] then
       (if b1 \<noteq> 0 then Some (Pi_next l1 cz n1 dlv v1)
        else do {
          len \<leftarrow> wire_name_length n1;
          zonecut_n \<leftarrow> seg n1 0 len;
          pi_chase chase fl l1 cz n1 zonecut_n dlv v1
        })
     else do {
       c \<leftarrow> namecmp z cz;
       if c = 0 then Some (Pi_next l1 cz n1 dlv v1)
       else pi_chase chase fl l1 cz n1 z dlv v1
     }))"
  have "do { c \<leftarrow> namecmp qn n1;
      (rc, d, z, v1) \<leftarrow> (if c \<noteq> 0 then find_next_zonecut chase n1 fl v else Some (VAL_NO_ERROR, True, [], v));
      b1 \<leftarrow> rd l1 0; G b1 rc d z v1 } = Some t"
    using assms(1) start cut by (simp add: pi_turn_def G_def)
  then obtain c :: int and rc d z v1 b1 where
    f: "(if c \<noteq> 0 then find_next_zonecut chase n1 fl v else Some (VAL_NO_ERROR, True, [], v)) = Some (rc, d, z, v1)" and
    rest: "G b1 rc d z v1 = Some t"
    by (auto simp: bind_eq_Some_conv)
  have e1: "encodes n1 (last U # N)" using encodes_enc(2) [OF wf] by (simp only: n1_def)
  have "asked chase v v1 \<and> (z \<noteq> [] \<longrightarrow> (\<exists>zs. encodes z zs \<and> subname (last U # N) zs))"
  proof (cases "c = 0")
    case True with f show ?thesis by (auto intro: asked_nothing)
  next
    case False
    with f have "find_next_zonecut chase n1 fl v = Some (rc, d, z, v1)" by simp
    from find_next_zonecut_within [OF this e1] show ?thesis .
  qed
  with inv rest cs wf subname_suffix [OF same] show ?thesis
    by (intro that [of cs n1 "last U # N" l1 v1 z rc d b1]) (auto simp: n1_def G_def)
qed

lemma pi_chase_below:
  assumes "pi_chase chase fl l cz nxt zc dlv v = Some t" "fl AND VAL_QUERY_USING_DLV = 0" "encodes zc zs" "subname W zs"
    "encodes cz cs" "subname W cs" "subname cs T"
    "\<And>cz'. (\<exists>cs. encodes cz' cs \<and> subname W cs \<and> subname cs T) \<Longrightarrow> pi_inv W T l cz' nxt"
  shows "(t = Pi_end VAL_NO_ERROR done True v' \<longrightarrow> shown_below chase fl W T v v') \<and>
    (t = Pi_next l' cz' nxt' dlv' v' \<longrightarrow> pi_inv W T l' cz' nxt' \<and> asked chase v v')"
proof -
  have b: "subname zs cs \<and> length cs < length zs" if "namename cz zc = Some None"
    using namename_encodes [OF assms(5,3)] that subname_between [OF assms(6,4)] by (simp split: if_splits)
  note c = pi_chase_cases [OF assms(1,2), of "done" v' l' cz' nxt' dlv']
  have "shown_below chase fl W T v v'" if "t = Pi_end VAL_NO_ERROR done True v'"
    using c b assms(3-7) that asked_nothing [of chase v] unfolding shown_below_def by blast
  moreover have "pi_inv W T l' cz' nxt' \<and> asked chase v v'" if "t = Pi_next l' cz' nxt' dlv' v'"
    using c b assms(3-8) that subname_trans [of zs cs T] by blast
  ultimately show ?thesis by blast
qed

lemma pi_turn_below:
  assumes "pi_turn chase qn fl l cz nxt dlv v = Some t" "pi_inv W T l cz nxt" "rd l 0 = Some b" "b \<noteq> 0" "wf_name W"
    "fl AND VAL_QUERY_USING_DLV = 0"
  shows "(t = Pi_end VAL_NO_ERROR done True v' \<longrightarrow> shown_below chase fl W T v v') \<and>
    (t = Pi_next l' cz' nxt' dlv' v' \<longrightarrow> pi_inv W T l' cz' nxt' \<and> asked chase v v')"
proof -
  obtain N l1 n1 cs rc d z v1 and b1 :: byte where t:
    "encodes cz cs" "subname W cs" "subname cs T" "n1 = enc N" "wf_name N" "subname W N"
    "\<And>cz'. (\<exists>cs. encodes cz' cs \<and> subname W cs \<and> subname cs T) \<Longrightarrow> pi_inv W T l1 cz' n1"
    "asked chase v v1" "z \<noteq> [] \<Longrightarrow> \<exists>zs. encodes z zs \<and> subname N zs"
    "(if rc \<noteq> VAL_NO_ERROR \<or> \<not> d then Some (Pi_end VAL_NO_ERROR d False v1)
     else if z = [] then
       (if b1 \<noteq> 0 then Some (Pi_next l1 cz n1 dlv v1)
        else do {
          len \<leftarrow> wire_name_length n1;
          zonecut_n \<leftarrow> seg n1 0 len;
          pi_chase chase fl l1 cz n1 zonecut_n dlv v1
        })
     else do {
       c \<leftarrow> namecmp z cz;
       if c = 0 then Some (Pi_next l1 cz n1 dlv v1)
       else pi_chase chase fl l1 cz n1 z dlv v1
     }) = Some t"
    by (rule pi_turn_starts [OF assms(1-5)]) (rule that)
  have chased: ?thesis if "encodes zc zs" "subname W zs" "pi_chase chase fl l1 cz n1 zc dlv v1 = Some t" for zc zs
    using pi_chase_below [OF that(3) assms(6) that(1,2) t(1-3,7), of "done" v' l' cz' nxt' dlv']
      shown_below_asked [OF _ t(8)] asked_trans [OF t(8)] by meson
  have on: ?thesis if "t = Pi_next l1 cz n1 dlv v1"
    using that t(1-3,7,8) by auto
  show ?thesis
  proof (cases "rc \<noteq> VAL_NO_ERROR \<or> \<not> d")
    case True with t(10) show ?thesis by auto
  next
    case ok: False
    show ?thesis
    proof (cases "z = []")
      case True
      have "encodes n1 N" using t(4,5) by simp
      moreover from this have "wire_name_length n1 = Some (length (enc N))" by (rule wire_name_length_encodes)
      moreover have "seg n1 0 (length (enc N)) = Some n1" using t(4) by (simp add: seg_def)
      ultimately show ?thesis using t(10) ok True on chased [of n1 N] t(6) by (auto split: if_splits)
    next
      case False
      then obtain zs where zs: "encodes z zs" "subname N zs" using t(9) by blast
      with t(6) have "subname W zs" by (blast intro: subname_trans)
      with t(10) ok False on chased [of z zs] zs(1) show ?thesis by (auto split: Option.bind_splits if_splits)
    qed
  qed
qed

lemma pi_loop_below:
  assumes "pi_loop chase qn fl l cz nxt dlv v = Some (VAL_NO_ERROR, done, True, v')" "pi_inv W T l cz nxt" "wf_name W"
    "fl AND VAL_QUERY_USING_DLV = 0"
  shows "shown_below chase fl W T v v'"
  using assms
proof (induction chase qn fl l cz nxt dlv v rule: pi_loop.induct)
  case (1 chase qn fl l cz nxt dlv v)
  obtain b where b: "rd l 0 = Some b" "b \<noteq> 0"
    using "1.prems" by (subst (asm) pi_loop.simps) (auto split: option.splits if_splits)
  with "1.prems" obtain t where t: "pi_turn chase qn fl l cz nxt dlv v = Some t"
    by (subst (asm) pi_loop.simps) (auto split: option.splits)
  note below = pi_turn_below [OF t "1.prems"(2) b "1.prems"(3,4)]
  show ?case
  proof (cases t)
    case (Pi_end rc d p u)
    with "1.prems" b t have "rc = VAL_NO_ERROR" "p" "u = v'" by (subst (asm) pi_loop.simps; simp)+
    with Pi_end below [of d v'] show ?thesis by simp
  next
    case (Pi_next l' cz' nxt' dlv' u)
    from "1.prems" b t Pi_next have "pi_loop chase qn fl l' cz' nxt' dlv' u = Some (VAL_NO_ERROR, done, True, v')"
      by (subst (asm) pi_loop.simps) simp
    with "1.IH" [OF b t Pi_next] "1.prems"(3,4) below [of undefined u l' cz' nxt' dlv'] Pi_next show ?thesis
      using shown_below_asked by blast
  qed
qed


lemma pi_loop_start:
  assumes "pi_loop chase qn fl l cz [] dlv v = Some (VAL_NO_ERROR, done, True, v')"
  shows "\<exists>cs. encodes cz cs"
proof -
  obtain b where b: "rd l 0 = Some b" "b \<noteq> 0"
    using assms by (subst (asm) pi_loop.simps) (auto split: option.splits if_splits)
  with assms obtain t where "pi_turn chase qn fl l cz [] dlv v = Some t"
    by (subst (asm) pi_loop.simps) (auto split: option.splits)
  then obtain k start r where k: "wire_name_length cz = Some k" "seg cz 0 k = Some start" "cut_and_append_label l start = Some r"
    by (simp add: pi_turn_def) (auto split: Option.bind_splits)
  have "start \<noteq> []"
  proof
    assume nil: "start = []"
    obtain prev where p: "last_label_at l 0 None = Some prev"
      using k(3) by (auto simp: cut_and_append_label_def split: Option.bind_splits)
    with k(3) nil have "prev = None" by (auto simp: cut_and_append_label_def split: Option.bind_splits option.splits)
    with k(3) p nil have "cut_and_append_label l start = Some (l, [])" by (simp add: cut_and_append_label_def)
    from cut_shorter [OF this b] show False by simp
  qed
  with copied_name [OF k(1,2)] show ?thesis by blast
qed

lemma pi_inv_start:
  assumes "encodes tp ts" "encodes (enc W) W" "namename (enc W) tp = Some (Some q)"
    "wr (enc W) q 0 = Some l"
  shows "pi_inv W ts (take (q + 1) l) tp []"
proof -
  have wf: "wf_name W" and sub: "subname W ts" and q: "q = length (encl (under W ts))"
    using namename_encodes [OF assms(2,1)] assms(2,3) by (auto elim: encodesE split: if_splits)
  have "enc W = encl (under W ts) @ enc (drop (length W - length ts) W)"
    by (simp add: under_def flip: enc_append)
  with q assms(4) have "take (q + 1) l = encl (under W ts) @ [0]"
    by (cases "enc (drop (length W - length ts) W)") (auto simp: wr_def list_update_append split: if_splits)
  moreover have "list_all wf_label (under W ts)" using wf by (auto simp: wf_name_def under_def list_all_iff dest: in_set_takeD)
  moreover have "cname (under W ts @ ts) = cname W" using sub
    by (auto simp: under_def subname_def cname_eq_iff) (metis append_take_drop_id map_append)
  moreover have "wf_name ts" using assms(1) by (auto elim: encodesE)
  ultimately show ?thesis using assms(1) sub unfolding pi_inv_def
    by (rule_tac exI [of _ "under W ts"], rule_tac exI [of _ ts], rule_tac exI [of _ ts]) simp
qed

lemma pi_start_below:
  assumes "pi_start chase s fl q_zonecut_n tp None tp v = Some (VAL_NO_ERROR, done, True, v')"
    "q_zonecut_n = enc Z" "wf_name Z" "encodes (rrs_name_n s) ns" "fl AND VAL_QUERY_USING_DLV = 0"
  shows "\<exists>ts. encodes tp ts \<and>
    shown_below chase fl (if rrs_type_h s = ns_t_ds \<and> cname Z = cname ns then tl Z else Z) ts v v'"
proof -
  define W where "W = (if rrs_type_h s = ns_t_ds \<and> cname Z = cname ns then tl Z else Z)"
  have wfW: "wf_name W"
    using assms(3) by (cases Z) (auto simp: W_def wf_name_Cons)
  have ez: "encodes (enc Z) Z" and ew: "encodes (enc W) W" using assms(3) wfW by simp_all
  obtain q tail same own where q: "namename (enc Z) tp = Some (Some q)" "ptr (enc Z) q = Some tail"
    "namecmp (enc Z) tail = Some same" "same \<noteq> 0" and own: "namecmp (enc Z) (rrs_name_n s) = Some own"
    using assms(1,2) by (auto simp: pi_start_def split: Option.bind_splits option.splits if_splits)
  let ?loop = "\<lambda>ql q. do { l \<leftarrow> wr ql q 0; pi_loop chase (rrs_name_n s) fl (take (q + 1) l) tp [] None v }"
  have rest: "(if own = 0 \<and> rrs_type_h s = ns_t_ds then do {
        b \<leftarrow> rd (enc Z) 0;
        ql \<leftarrow> (if b = 0 then Some (enc Z) else ptr (enc Z) (unat b + 1));
        q \<leftarrow> namename ql tp;
        case q of None \<Rightarrow> Some (VAL_NO_ERROR, True, False, v) | Some q \<Rightarrow> ?loop ql q
      } else ?loop (enc Z) q) = Some (VAL_NO_ERROR, done, True, v')"
    using assms(1,2) q own by (simp add: pi_start_def)
  have own0: "own = 0 \<longleftrightarrow> cname Z = cname ns" using namecmp_eq_0 [OF ez assms(4)] own by simp
  have "\<exists>q l. namename (enc W) tp = Some (Some q) \<and> wr (enc W) q 0 = Some l \<and>
      pi_loop chase (rrs_name_n s) fl (take (q + 1) l) tp [] None v = Some (VAL_NO_ERROR, done, True, v')"
  proof (cases "own = 0 \<and> rrs_type_h s = ns_t_ds")
    case True
    with rest have "do {
        b \<leftarrow> rd (enc Z) 0;
        ql \<leftarrow> (if b = 0 then Some (enc Z) else ptr (enc Z) (unat b + 1));
        q \<leftarrow> namename ql tp;
        case q of None \<Rightarrow> Some (VAL_NO_ERROR, True, False, v) | Some q \<Rightarrow> ?loop ql q
      } = Some (VAL_NO_ERROR, done, True, v')" by (simp only: simp_thms if_True)
    then obtain b ql w where d: "rd (enc Z) 0 = Some b"
      "(if b = 0 then Some (enc Z) else ptr (enc Z) (unat b + 1)) = Some ql" "namename ql tp = Some w"
      "(case w of None \<Rightarrow> Some (VAL_NO_ERROR, True, False, v) | Some q \<Rightarrow> ?loop ql q) = Some (VAL_NO_ERROR, done, True, v')"
      by (simp only: bind_eq_Some_conv) blast
    from d(4) obtain q where w: "w = Some q" "?loop ql q = Some (VAL_NO_ERROR, done, True, v')" by (cases w) auto
    have "ql = enc W"
    proof (cases Z)
      case Nil with d(1,2) True own0 show ?thesis by (auto simp: W_def rd_def)
    next
      case (Cons x Z')
      then have "wf_label x" using assms(3) by (simp add: wf_name_Cons)
      then have "b = word_of_nat (length x)" "unat b = length x" "b \<noteq> 0" using d(1) Cons by (auto simp: rd_def label_simps)
      with d(2) Cons True own0 show ?thesis by (auto simp: W_def ptr_def split: if_splits)
    qed
    with d(3) w show ?thesis by (auto simp: bind_eq_Some_conv)
  next
    case False
    with rest q own0 show ?thesis by (auto simp: W_def bind_eq_Some_conv)
  qed
  then obtain q l where w: "namename (enc W) tp = Some (Some q)" "wr (enc W) q 0 = Some l"
    "pi_loop chase (rrs_name_n s) fl (take (q + 1) l) tp [] None v = Some (VAL_NO_ERROR, done, True, v')" by blast
  obtain ts where ts: "encodes tp ts" using pi_loop_start [OF w(3)] by blast
  have "shown_below chase fl W ts v v'"
    using pi_loop_below [OF w(3) pi_inv_start [OF ts ew w(1,2)] wfW assms(5)] .
  with ts show ?thesis unfolding W_def by blast
qed

lemma verify_provably_insecure_below:
  assumes "verify_provably_insecure E chase r fl ttl_x v = Some (VAL_NO_ERROR, done, True, ttl_x', v')"
    "fl AND VAL_QUERY_USING_DLV = 0" "get_as v r = Some as" "ac_data as = Some s" "encodes (rrs_name_n s) ns"
    "encodes (if rrs_zonecut_n s = [] then rrs_name_n s else rrs_zonecut_n s) Z"
  shows "fl AND VAL_QUERY_SEC_LEAF = 0 \<and> (\<exists>tp ctx ts. find_trust_point (ve_now E) (va_ta v) (rrs_name_n s) = Some (VAL_NO_ERROR, tp, ttl_x', ctx) \<and>
    encodes tp ts \<and> shown_below chase fl (if rrs_type_h s = ns_t_ds \<and> cname Z = cname ns then tl Z else Z) ts (v\<lparr> va_ta := ctx \<rparr>) v')"
proof -
  let ?zone = "if rrs_zonecut_n s = [] then rrs_name_n s else rrs_zonecut_n s"
  have n: "rrs_name_n s \<noteq> []" using assms(5) by simp
  obtain t where z: "?zone = enc Z @ t" "wf_name Z" using assms(6) by (rule encodesE)
  have len: "wire_name_length ?zone = Some (length (enc Z))" using assms(6) by (rule wire_name_length_encodes)
  have copy: "seg ?zone 0 (length (enc Z)) = Some (enc Z)" using z(1) by (simp add: seg_def)
  from assms(1,2) n have leaf: "fl AND VAL_QUERY_SEC_LEAF = 0"
    by (auto simp: verify_provably_insecure_def assms(3,4) split: if_splits)
  with assms(1,2) n len copy obtain tp ctx where
    tp: "find_trust_point (ve_now E) (va_ta v) (rrs_name_n s) = Some (VAL_NO_ERROR, tp, ttl_x', ctx)" and
    run: "pi_start chase s fl (enc Z) tp None tp (v\<lparr> va_ta := ctx \<rparr>) = Some (VAL_NO_ERROR, done, True, v')"
    by (simp add: verify_provably_insecure_def assms(3,4) Let_def) (auto simp: bind_eq_Some_conv split: if_splits)
  from pi_start_below [OF run refl z(2) assms(5,2)] leaf tp show ?thesis by blast
qed

subsection \<open>What a success rests on\<close>

text \<open>
  An assertion is vouched for when its chain, as \<open>verify_and_validate\<close> walks it, goes up over verified assertions and ends at
  one with the status of a trust anchor.
\<close>

inductive vouched :: "venv \<Rightarrow> u32 \<Rightarrow> validator \<Rightarrow> as_ref \<Rightarrow> bool" for E :: venv and fl :: u32 where
  anchor: "get_as v r = Some as \<Longrightarrow>
    (if val_ac_status as \<le> VAL_AC_INIT then try_verify_assertion E (Some r) fl v else Some (VAL_NO_ERROR, v)) = Some (VAL_NO_ERROR, v1) \<Longrightarrow>
    get_ac_trust E (Some r) fl False v1 = Some (trust, v2) \<Longrightarrow> get_as v2 r = Some as2 \<Longrightarrow> val_ac_status as2 = VAL_AC_TRUST \<Longrightarrow>
    vouched E fl v r"
| link: "get_as v r = Some as \<Longrightarrow>
    (if val_ac_status as \<le> VAL_AC_INIT then try_verify_assertion E (Some r) fl v else Some (VAL_NO_ERROR, v)) = Some (VAL_NO_ERROR, v1) \<Longrightarrow>
    get_ac_trust E (Some r) fl False v1 = Some (Some r2, v2) \<Longrightarrow> get_as v2 r = Some as2 \<Longrightarrow> VAL_AC_LAST_FAILURE < val_ac_status as2 \<Longrightarrow>
    r2 \<noteq> r \<Longrightarrow> vouched E fl v2 r2 \<Longrightarrow> vouched E fl v r"

lemma set_result_work [simp]: "rs_work (set_result w st S) = (rs_work S)[w := (rs_work S ! w)\<lparr> rc_status := st \<rparr>]"
  by (simp add: set_result_def upd_work_def)

lemma set_result_validator [simp]: "rs_validator (set_result w st S) = rs_validator S"
  by (simp add: set_result_def upd_work_def)

text \<open>The internal result at \<open>w\<close> has got one of these statuses, and nothing else has changed among the internal results.\<close>

definition result_set_to :: "nat \<Rightarrow> nat set \<Rightarrow> results_state \<Rightarrow> results_state \<Rightarrow> bool" where
  "result_set_to w sts S S' \<longleftrightarrow> (\<exists>st\<in>sts. rs_work S' = (rs_work S)[w := (rs_work S ! w)\<lparr> rc_status := st \<rparr>])"

lemma result_set_toI: "st \<in> sts \<Longrightarrow> rs_work S = rs_work S0 \<Longrightarrow> result_set_to w sts S0 (set_result w st S)"
  by (auto simp: result_set_to_def)

lemma result_set_to_status: "result_set_to w sts S S' \<Longrightarrow> w < length (rs_work S) \<Longrightarrow> rc_status (rs_work S' ! w) \<in> sts"
  by (auto simp: result_set_to_def)

lemma settle_pinsecure_status:
  assumes "settle_pinsecure E r w S = Some (ttl_x, S')"
  shows "result_set_to w {VAL_PINSECURE, VAL_PINSECURE_UNTRUSTED} S S'"
  using assms by (auto simp: settle_pinsecure_def split: Option.bind_splits intro!: result_set_toI)

lemma pinsecure_or_status:
  assumes "pinsecure_or E chase m r w fl st ttl_x S = Some (VAL_NO_ERROR, stop, d, ttl_x', S')"
  shows "\<not> stop \<and> \<not> d \<and> rs_work S' = rs_work S \<or> stop \<and> ((\<exists>a. st a = None) \<and> rs_work S' = rs_work S \<or>
    result_set_to w ({VAL_PINSECURE, VAL_PINSECURE_UNTRUSTED} \<union> {x. \<exists>a. st a = Some x}) S S')"
proof -
  from assms obtain dn pin t v where p: "verify_provably_insecure E chase m fl ttl_x (rs_validator S) = Some (VAL_NO_ERROR, dn, pin, t, v)"
    by (auto simp: pinsecure_or_def Let_def split: if_splits Option.bind_splits)
  show ?thesis
  proof (cases "dn \<and> pin")
    case True
    with assms p obtain v' t' where "settle_pinsecure E r w (S\<lparr> rs_validator := v' \<rparr>) = Some (t', S')" "stop"
      by (auto simp: pinsecure_or_def Let_def split: if_splits Option.bind_splits)
    with settle_pinsecure_status [OF this(1)] show ?thesis by (auto simp: result_set_to_def)
  next
    case False
    with assms p show ?thesis
      by (auto simp: pinsecure_or_def Let_def split: if_splits Option.bind_splits option.splits intro!: result_set_toI)
  qed
qed

abbreviation failed_statuses :: "nat set" where
  "failed_statuses \<equiv> {VAL_PINSECURE, VAL_PINSECURE_UNTRUSTED, VAL_BOGUS, VAL_INDETERMINATE, VAL_DNS_ERROR}"

lemma result_set_to_mono: "result_set_to w sts S S' \<Longrightarrow> sts \<subseteq> sts' \<Longrightarrow> result_set_to w sts' S S'"
  by (auto simp: result_set_to_def)

lemma judge_negative_status:
  assumes "judge_negative E chase m r w fl ttl_x S = Some (VAL_NO_ERROR, stop, d, ttl_x', S')"
  shows "\<not> stop \<and> \<not> d \<and> rs_work S' = rs_work S \<or> stop \<and> result_set_to w failed_statuses S S'"
proof -
  have or: "\<not> stop \<and> \<not> d \<and> rs_work S' = rs_work S \<or> stop \<and> result_set_to w failed_statuses S S'"
    if "pinsecure_or E chase m r w fl (\<lambda>_. Some VAL_BOGUS_PROOF) ttl_x (S\<lparr> rs_validator := u \<rparr>) = Some (VAL_NO_ERROR, stop, d, ttl_x', S')" for u
    using pinsecure_or_status [OF that] by (auto simp: result_set_to_def)
  from assms obtain as s where a: "get_as (rs_validator S) r = Some as" "ac_data as = Some s"
    by (auto simp: judge_negative_def split: Option.bind_splits)
  show ?thesis
  proof (cases "rrs_type_h s = ns_t_dnskey")
    case False
    with assms a show ?thesis by (intro or [of "rs_validator S"]) (simp add: judge_negative_def)
  next
    case True
    from assms a True obtain t u where g: "get_ac_trust E (Some r) fl True (rs_validator S) = Some (t, u)"
      by (auto simp: judge_negative_def split: Option.bind_splits)
    show ?thesis
    proof (cases t)
      case None
      with assms a True g show ?thesis by (auto simp: judge_negative_def Let_def intro!: result_set_toI)
    next
      case (Some z)
      with assms a True g obtain q child where c: "query_at u (fst z) = Some q" "soa_at (rrs_name_n s) (qc_proof q) = Some child"
        by (cases z) (auto simp: judge_negative_def Let_def split: Option.bind_splits)
      show ?thesis
      proof (cases child)
        case True
        with assms a \<open>rrs_type_h s = ns_t_dnskey\<close> g Some c show ?thesis
          by (cases z) (auto simp: judge_negative_def Let_def intro!: result_set_toI)
      next
        case False
        with assms a True g Some c show ?thesis
          by (cases z) (intro or [of u], simp add: judge_negative_def Let_def)
      qed
    qed
  qed
qed

lemma judge_final_status:
  assumes "judge_final E r w status ttl_x S = Some (ttl_x', S')" "w < length (rs_work S)"
    and "rc_status (rs_work S ! w) = VAL_DONT_KNOW" "rc_status (rs_work S' ! w) = VAL_SUCCESS"
  shows "status = VAL_AC_TRUST"
proof (rule ccontr)
  assume n: "status \<noteq> VAL_AC_TRUST"
  show False
  proof (cases "status = VAL_AC_PINSECURE")
    case True
    with assms have "settle_pinsecure E r w S = Some (ttl_x', S')" by (simp add: judge_final_def)
    from result_set_to_status [OF settle_pinsecure_status [OF this] assms(2)] assms(4) show False by auto
  next
    case False
    with n assms show False by (auto simp: judge_final_def Let_def split: if_splits)
  qed
qed

lemma judge_assertion_status:
  assumes "judge_assertion E chase m r w fl ttl_x S = Some (VAL_NO_ERROR, stop, d, ttl_x', S')"
    and "get_as (rs_validator S) r = Some as"
  shows "\<not> stop \<Longrightarrow> rs_work S' = rs_work S"
    and "\<not> stop \<Longrightarrow> d \<Longrightarrow> VAL_AC_LAST_FAILURE < val_ac_status as \<and> S' = S"
    and "stop \<Longrightarrow> w < length (rs_work S) \<Longrightarrow> rc_status (rs_work S ! w) = VAL_DONT_KNOW \<Longrightarrow>
      rc_status (rs_work S' ! w) = VAL_SUCCESS \<Longrightarrow> val_ac_status as = VAL_AC_TRUST"
proof -
  let ?st = "val_ac_status as"
  consider (low) "?st \<le> VAL_AC_INIT" | (neg) "?st = VAL_AC_NEGATIVE_PROOF" | (fin) "\<not> ?st \<le> VAL_AC_INIT" "?st \<noteq> VAL_AC_NEGATIVE_PROOF" "?st \<le> VAL_AC_LAST_STATE"
    | (fail) "\<not> ?st \<le> VAL_AC_LAST_STATE" "?st \<le> VAL_AC_LAST_FAILURE" | (high) "\<not> ?st \<le> VAL_AC_LAST_FAILURE" by blast
  then have "(\<not> stop \<longrightarrow> rs_work S' = rs_work S) \<and> (\<not> stop \<longrightarrow> d \<longrightarrow> VAL_AC_LAST_FAILURE < ?st \<and> S' = S) \<and>
    (stop \<longrightarrow> w < length (rs_work S) \<longrightarrow> rc_status (rs_work S ! w) = VAL_DONT_KNOW \<longrightarrow>
      rc_status (rs_work S' ! w) = VAL_SUCCESS \<longrightarrow> ?st = VAL_AC_TRUST)"
  proof cases
    case low
    with assms show ?thesis by (auto simp: judge_assertion_def)
  next
    case neg
    with assms have "judge_negative E chase m r w fl ttl_x S = Some (VAL_NO_ERROR, stop, d, ttl_x', S')"
      by (simp add: judge_assertion_def)
    from judge_negative_status [OF this] show ?thesis using result_set_to_status by fastforce
  next
    case fin
    with assms obtain t where "judge_final E r w ?st ttl_x S = Some (t, S')" "stop"
      by (auto simp: judge_assertion_def split: Option.bind_splits)
    with judge_final_status [OF this(1)] show ?thesis by auto
  next
    case fail
    then have ord: "\<not> ?st \<le> VAL_AC_INIT" "?st \<noteq> VAL_AC_NEGATIVE_PROOF" by (auto simp: word_le_nat_alt)
    from assms fail ord have "pinsecure_or E chase m r w fl failed_status 0 S = Some (VAL_NO_ERROR, stop, d, ttl_x', S')"
      by (simp add: judge_assertion_def Let_def del: One_nat_def split del: if_split)
    note p = pinsecure_or_status [OF this]
    have "{x. \<exists>a. failed_status a = Some x} \<subseteq> failed_statuses" by (auto simp: failed_status_def split: if_splits)
    then have "result_set_to w failed_statuses S S'"
      if "result_set_to w ({VAL_PINSECURE, VAL_PINSECURE_UNTRUSTED} \<union> {x. \<exists>a. failed_status a = Some x}) S S'"
      using that by (elim result_set_to_mono) auto
    with p have "\<not> stop \<and> \<not> d \<and> rs_work S' = rs_work S \<or> stop \<and> (rs_work S' = rs_work S \<or> result_set_to w failed_statuses S S')"
      by blast
    then show ?thesis using result_set_to_status by fastforce
  next
    case high
    then have "\<not> ?st \<le> VAL_AC_INIT" "?st \<noteq> VAL_AC_NEGATIVE_PROOF" "\<not> ?st \<le> VAL_AC_LAST_STATE" by (auto simp: word_le_nat_alt)
    with high assms show ?thesis by (auto simp: judge_assertion_def)
  qed
  then show "\<not> stop \<Longrightarrow> rs_work S' = rs_work S" "\<not> stop \<Longrightarrow> d \<Longrightarrow> VAL_AC_LAST_FAILURE < ?st \<and> S' = S"
    "stop \<Longrightarrow> w < length (rs_work S) \<Longrightarrow> rc_status (rs_work S ! w) = VAL_DONT_KNOW \<Longrightarrow>
      rc_status (rs_work S' ! w) = VAL_SUCCESS \<Longrightarrow> ?st = VAL_AC_TRUST" by simp_all
qed

lemma walk_chain_success_raw:
  assumes "walk_chain E chase m w fl next_as d ttl_x S = Some y" "fst y = VAL_NO_ERROR" "fst (snd y)"
  shows "d \<and> (w < length (rs_work S) \<longrightarrow> rc_status (rs_work S ! w) = VAL_DONT_KNOW \<longrightarrow>
    rc_status (rs_work (snd (snd (snd y))) ! w) = VAL_SUCCESS \<longrightarrow> (\<exists>r. next_as = Some r \<and> vouched E fl (rs_validator S) r))"
proof -
  let ?P = "\<lambda>E (chase :: chase) (m :: as_ref) w fl next_as d (ttl_x :: u32) (S :: results_state) (y :: val_ret \<times> bool \<times> u32 \<times> results_state). fst y = VAL_NO_ERROR \<longrightarrow> fst (snd y) \<longrightarrow>
    d \<and> (w < length (rs_work S) \<longrightarrow> rc_status (rs_work S ! w) = VAL_DONT_KNOW \<longrightarrow>
    rc_status (rs_work (snd (snd (snd y))) ! w) = VAL_SUCCESS \<longrightarrow> (\<exists>r. next_as = Some r \<and> vouched E fl (rs_validator S) r))"
  have "?P E chase m w fl next_as d ttl_x S y"
  proof (rule walk_chain.raw_induct [where P = ?P, OF _ assms(1)], intro impI)
    fix walk :: "venv \<Rightarrow> chase \<Rightarrow> as_ref \<Rightarrow> nat \<Rightarrow> u32 \<Rightarrow> as_ref option \<Rightarrow> bool \<Rightarrow> u32 \<Rightarrow> results_state \<Rightarrow>
      (val_ret \<times> bool \<times> u32 \<times> results_state) option"
    fix E chase m w fl next_as d ttl_x S and y :: "val_ret \<times> bool \<times> u32 \<times> results_state"
    assume IH: "\<And>E chase m w fl next_as d ttl_x S y. walk E chase m w fl next_as d ttl_x S = Some y \<Longrightarrow> ?P E chase m w fl next_as d ttl_x S y"
    assume body: "(case next_as of None \<Rightarrow> Some (VAL_NO_ERROR, d, ttl_x, S)
     | Some r \<Rightarrow> Option.bind (get_as (rs_validator S) r) (\<lambda>as. Option.bind (ac_data as) (\<lambda>s.
         Option.bind (if val_ac_status as \<le> VAL_AC_INIT then try_verify_assertion E (Some r) fl (rs_validator S)
           else Some (VAL_NO_ERROR, rs_validator S)) (\<lambda>(rc, v).
         if rc \<noteq> VAL_NO_ERROR then Some (rc, d, ttl_x, S\<lparr> rs_validator := v \<rparr>)
         else Option.bind (get_ac_trust E (Some r) fl False v) (\<lambda>(as_trust, v).
         if as_trust = Some r then Option.bind (put_status r VAL_AC_DNSKEY_MISSING v) (\<lambda>v.
           Some (VAL_NO_ERROR, d, ttl_x, set_result w VAL_BOGUS (S\<lparr> rs_validator := v \<rparr>)))
         else Option.bind (judge_assertion E chase m r w fl ttl_x (S\<lparr> rs_validator := v \<rparr>)) (\<lambda>(rc, stop, d', ttl_x, S).
         if rc \<noteq> VAL_NO_ERROR \<or> stop then Some (rc, d \<and> d', ttl_x, S)
         else walk E chase m w fl as_trust (d \<and> d') ttl_x S)))))) = Some y"
    assume y: "fst y = VAL_NO_ERROR" "fst (snd y)"
    let ?lucky = "w < length (rs_work S) \<longrightarrow> rc_status (rs_work S ! w) = VAL_DONT_KNOW \<longrightarrow>
      rc_status (rs_work (snd (snd (snd y))) ! w) = VAL_SUCCESS \<longrightarrow> (\<exists>r. next_as = Some r \<and> vouched E fl (rs_validator S) r)"
    show "d \<and> ?lucky"
    proof (cases next_as)
      case None
      with body y show ?thesis by auto
    next
      case (Some r)
      with body obtain as s rc v1 where a: "get_as (rs_validator S) r = Some as" "ac_data as = Some s"
        "(if val_ac_status as \<le> VAL_AC_INIT then try_verify_assertion E (Some r) fl (rs_validator S)
           else Some (VAL_NO_ERROR, rs_validator S)) = Some (rc, v1)"
        by (auto split: Option.bind_splits)
      have rc: "rc = VAL_NO_ERROR" using body Some a y by (auto split: if_splits)
      with body Some a obtain trust v2 where g: "get_ac_trust E (Some r) fl False v1 = Some (trust, v2)"
        by (auto split: Option.bind_splits)
      show ?thesis
      proof (cases "trust = Some r")
        case True
        with body Some a rc g y show ?thesis by (auto split: Option.bind_splits)
      next
        case t: False
        with body Some a rc g obtain rc2 stop d2 ttl2 S2 where
          j: "judge_assertion E chase m r w fl ttl_x (S\<lparr> rs_validator := v2 \<rparr>) = Some (rc2, stop, d2, ttl2, S2)" and
          rest: "(if rc2 \<noteq> VAL_NO_ERROR \<or> stop then Some (rc2, d \<and> d2, ttl2, S2)
            else walk E chase m w fl trust (d \<and> d2) ttl2 S2) = Some y"
          by (auto split: Option.bind_splits)
        have ok: "rc2 = VAL_NO_ERROR" using rest y by (auto split: if_splits)
        from j obtain as2 where as2: "get_as v2 r = Some as2" by (auto simp: judge_assertion_def split: Option.bind_splits)
        note js = judge_assertion_status [OF j [unfolded ok]]
        show ?thesis
        proof (cases stop)
          case True
          with rest ok y have d by auto
          moreover have ?lucky
          proof (intro impI)
            assume "w < length (rs_work S)" "rc_status (rs_work S ! w) = VAL_DONT_KNOW"
              "rc_status (rs_work (snd (snd (snd y))) ! w) = VAL_SUCCESS"
            with True rest ok js(3) [of as2] as2 have "val_ac_status as2 = VAL_AC_TRUST" by auto
            then have "vouched E fl (rs_validator S) r"
              by (intro vouched.anchor [OF a(1) _ g as2]) (use a(3) rc in simp_all)
            with Some show "\<exists>r. next_as = Some r \<and> vouched E fl (rs_validator S) r" by simp
          qed
          ultimately show ?thesis ..
        next
          case False
          with rest ok have "walk E chase m w fl trust (d \<and> d2) ttl2 S2 = Some y" by simp
          from IH [OF this] y have ih: "d \<and> d2" "w < length (rs_work S2) \<longrightarrow> rc_status (rs_work S2 ! w) = VAL_DONT_KNOW \<longrightarrow>
            rc_status (rs_work (snd (snd (snd y))) ! w) = VAL_SUCCESS \<longrightarrow> (\<exists>r. trust = Some r \<and> vouched E fl (rs_validator S2) r)"
            by auto
          have ?lucky
          proof (intro impI)
            assume w: "w < length (rs_work S)" "rc_status (rs_work S ! w) = VAL_DONT_KNOW"
              "rc_status (rs_work (snd (snd (snd y))) ! w) = VAL_SUCCESS"
            then have s2: "VAL_AC_LAST_FAILURE < val_ac_status as2" "S2 = S\<lparr> rs_validator := v2 \<rparr>"
              using js(2) [of as2] as2 False ih(1) by auto
            with ih(2) w obtain r2 where r2: "trust = Some r2" "vouched E fl v2 r2" by auto
            have "vouched E fl (rs_validator S) r"
              by (rule vouched.link [OF a(1) _ _ as2 s2(1) _ r2(2)]) (use a(3) rc g r2(1) t in simp_all)
            with Some show "\<exists>r. next_as = Some r \<and> vouched E fl (rs_validator S) r" by simp
          qed
          with ih(1) show ?thesis by simp
        qed
      qed
    qed
  qed
  from this assms(2,3) show ?thesis by (rule mp [OF mp])
qed

lemma walk_chain_success:
  assumes "walk_chain E chase m w fl (Some r) d ttl_x S = Some (VAL_NO_ERROR, True, ttl_x', S')"
    and "w < length (rs_work S)" "rc_status (rs_work S ! w) = VAL_DONT_KNOW" "rc_status (rs_work S' ! w) = VAL_SUCCESS"
  shows "vouched E fl (rs_validator S) r"
  using walk_chain_success_raw [OF assms(1)] assms(2-) by simp

subsection \<open>Proofs fit their places\<close>

text \<open>\<open>val_rc_proofs\<close> has \<open>MAX_PROOFS\<close> places and \<open>val_rc_proof_count\<close> counts no more.\<close>

definition proofs_fit :: "results_state \<Rightarrow> bool" where
  "proofs_fit S \<longleftrightarrow> (\<forall>r\<in>set (rs_results S). length (res_proofs r) = MAX_PROOFS \<and> res_proof_count r \<le> MAX_PROOFS)"

lemma result_block_simps [simp]: "res_proof_count result_block = 0" "length (res_proofs result_block) = MAX_PROOFS"
  "res_answer result_block = []"
  by (simp_all add: result_block_def)

lemma proofs_fit_block [simp]:
  "proofs_fit (S\<lparr> rs_results := rs_results S @ [result_block] \<rparr>) \<longleftrightarrow> proofs_fit S"
  by (auto simp: proofs_fit_def)

lemma proofs_fit_results: "rs_results S' = rs_results S \<Longrightarrow> proofs_fit S' \<longleftrightarrow> proofs_fit S"
  by (simp add: proofs_fit_def)

lemma proofs_fit_work [simp]: "proofs_fit (upd_work i f S) \<longleftrightarrow> proofs_fit S" "proofs_fit (S\<lparr> rs_validator := v \<rparr>) \<longleftrightarrow> proofs_fit S"
  "proofs_fit (S\<lparr> rs_work := ws \<rparr>) \<longleftrightarrow> proofs_fit S" "proofs_fit (S\<lparr> rs_results := [] \<rparr>)"
  by (simp_all add: proofs_fit_def upd_work_def)

lemma upd_work_results [simp]: "rs_results (upd_work i f S) = rs_results S"
  by (simp add: upd_work_def)

lemma proofs_fit_upd:
  assumes "proofs_fit S" "i < length (rs_results S) \<Longrightarrow> length (res_proofs (f (rs_results S ! i))) = MAX_PROOFS \<and>
    res_proof_count (f (rs_results S ! i)) \<le> MAX_PROOFS"
  shows "proofs_fit (upd_result i f S)"
proof (cases "i < length (rs_results S)")
  case True
  with assms show ?thesis by (auto simp: proofs_fit_def upd_result_def dest: subsetD [OF set_update_subset_insert])
next
  case False
  with assms(1) show ?thesis by (simp add: proofs_fit_def upd_result_def list_update_beyond)
qed

lemma proofs_fit_nth: "proofs_fit S \<Longrightarrow> i < length (rs_results S) \<Longrightarrow>
    length (res_proofs (rs_results S ! i)) = MAX_PROOFS \<and> res_proof_count (rs_results S ! i) \<le> MAX_PROOFS"
  by (simp add: proofs_fit_def)

lemma proofs_fit_status: "proofs_fit S \<Longrightarrow> (\<And>r. res_proofs (f r) = res_proofs r \<and> res_proof_count (f r) = res_proof_count r) \<Longrightarrow>
    proofs_fit (upd_result i f S)"
  by (rule proofs_fit_upd) (auto dest: proofs_fit_nth)

lemma transform_answer_fit:
  "transform_answer E w S = Some (m, S') \<Longrightarrow> proofs_fit S \<Longrightarrow> proofs_fit S'"
  by (auto simp: transform_answer_def Let_def split: if_splits Option.bind_splits intro!: proofs_fit_status)

lemma put_proof_fit:
  assumes "put_proof m slot c S = Some S'" "proofs_fit S"
  shows "proofs_fit S'"
  using assms by (auto simp: put_proof_def split: if_splits intro!: proofs_fit_upd dest: proofs_fit_nth)

lemma put_proof_same:
  assumes "put_proof m slot c S = Some S'"
  shows "length (rs_results S') = length (rs_results S)" "rs_work S' = rs_work S" "rs_validator S' = rs_validator S"
    "i < length (rs_results S) \<Longrightarrow> res_proof_count (rs_results S' ! i) = res_proof_count (rs_results S ! i)"
    "i < length (rs_results S) \<Longrightarrow> res_answer (rs_results S' ! i) = res_answer (rs_results S ! i)"
  using assms by (cases "i = m"; auto simp: put_proof_def upd_result_def split: if_splits)+

lemma attach_proof_fit:
  assumes t: "attach_proof E w m0 S = Some (m, S')" and f: "proofs_fit S"
    and m0: "m0 < length (rs_results S)" "res_proof_count (rs_results S ! m0) < MAX_PROOFS"
  shows "proofs_fit S'"
proof -
  let ?slot = "res_proof_count (rs_results S ! m0)"
  from t obtain S1 where p: "put_proof m0 ?slot [] S = Some S1"
    by (auto simp: attach_proof_def Let_def split: Option.bind_splits)
  note f1 = put_proof_fit [OF p f]
  show ?thesis
  proof (cases "rc_flags (rs_work S ! w) AND VAL_QUERY_AC_DETAIL = 0")
    case True
    with t p f1 show ?thesis by (auto simp: attach_proof_def Let_def)
  next
    case False
    with t p obtain chain v S2 where p2: "put_proof m0 ?slot chain (upd_work w (\<lambda>x. x\<lparr> rc_consumed := True \<rparr>) S1\<lparr> rs_validator := v \<rparr>) = Some S2"
      and S': "S' = upd_result m0 (\<lambda>r. r\<lparr> res_proof_count := res_proof_count r + 1 \<rparr>) S2"
      by (auto simp: attach_proof_def Let_def split: Option.bind_splits)
    have f2: "proofs_fit S2" using put_proof_fit [OF p2] f1 by simp
    have "res_proof_count (rs_results S2 ! m0) = ?slot"
      using put_proof_same(4) [OF p2, of m0] put_proof_same(1) [OF p] put_proof_same(4) [OF p, of m0] m0(1) by simp
    then show ?thesis unfolding S' using f2 m0(2) by (intro proofs_fit_upd) (auto dest: proofs_fit_nth)
  qed
qed

lemma transform_single_result_fit:
  assumes t: "transform_single_result E w p S = Some (m, S')" and f: "proofs_fit S" and p: "\<forall>i. p = Some i \<longrightarrow> i < length (rs_results S)"
  shows "proofs_fit S'"
proof (cases w)
  case None
  with t f show ?thesis by (auto simp: transform_single_result_def)
next
  case (Some i)
  show ?thesis
  proof (cases "rc_is_proof (rs_work S ! i)")
    case False
    with Some t f show ?thesis by (auto simp: transform_single_result_def dest: transform_answer_fit)
  next
    case True
    with Some t have tp: "transform_proof E i p S = Some (m, S')" by (simp add: transform_single_result_def)
    show ?thesis
    proof (cases p)
      case None
      with tp have "attach_proof E i (length (rs_results S)) (S\<lparr> rs_results := rs_results S @ [result_block] \<rparr>) = Some (m, S')"
        by (simp add: transform_proof_def)
      from attach_proof_fit [OF this] f show ?thesis by simp
    next
      case (Some k)
      show ?thesis
      proof (cases "res_proof_count (rs_results S ! k) = MAX_PROOFS")
        case True
        with Some tp f show ?thesis by (auto simp: transform_proof_def intro!: proofs_fit_status)
      next
        case False
        with Some tp have "attach_proof E i k S = Some (m, S')" by (simp add: transform_proof_def)
        from attach_proof_fit [OF this f] Some p False proofs_fit_nth [OF f, of k] show ?thesis by auto
      qed
    qed
  qed
qed

text \<open>A proof is stored without a write behind the array, whenever its chain can be built.\<close>

lemma put_proof_some: "slot < length (res_proofs (rs_results S ! m)) \<Longrightarrow> \<exists>S'. put_proof m slot c S = Some S'"
  by (simp add: put_proof_def)

lemma attach_proof_returns:
  assumes f: "proofs_fit S" and m: "m < length (rs_results S)" "res_proof_count (rs_results S ! m) < MAX_PROOFS"
    and chain: "rc_flags (rs_work S ! w) AND VAL_QUERY_AC_DETAIL \<noteq> 0 \<Longrightarrow>
      transform_chain E (Some (rc_rrset (rs_work S ! w))) (rc_flags (rs_work S ! w)) [] (rs_validator S) \<noteq> None"
  shows "\<exists>S'. attach_proof E w m S = Some (m, S')"
proof -
  let ?wr = "rs_work S ! w" and ?slot = "res_proof_count (rs_results S ! m)"
  obtain S1 where p: "put_proof m ?slot [] S = Some S1"
    using put_proof_some [of ?slot S m] proofs_fit_nth [OF f m(1)] m(2) by auto
  let ?S1 = "upd_work w (\<lambda>x. x\<lparr> rc_consumed := True \<rparr>) S1"
  have v: "rs_validator ?S1 = rs_validator S" using put_proof_same(3) [OF p] by (simp add: upd_work_def)
  have f1: "proofs_fit ?S1" "m < length (rs_results ?S1)" using put_proof_fit [OF p f] put_proof_same(1) [OF p] m(1) by simp_all
  show ?thesis
  proof (cases "rc_flags ?wr AND VAL_QUERY_AC_DETAIL = 0")
    case True
    with p show ?thesis by (simp add: attach_proof_def Let_def)
  next
    case False
    from chain [OF this] obtain c u where c: "transform_chain E (Some (rc_rrset ?wr)) (rc_flags ?wr) [] (rs_validator S) = Some (c, u)"
      by auto
    obtain S2 where "put_proof m ?slot c (?S1\<lparr> rs_validator := u \<rparr>) = Some S2"
      using put_proof_some [of ?slot "?S1\<lparr> rs_validator := u \<rparr>" m c] proofs_fit_nth [OF f1] m(2) by auto
    with p c v False show ?thesis by (simp add: attach_proof_def Let_def)
  qed
qed

lemma transform_single_result_returns:
  assumes f: "proofs_fit S" and p: "\<forall>i. p = Some i \<longrightarrow> i < length (rs_results S)" and w: "rc_is_proof (rs_work S ! w)"
    and chain: "rc_flags (rs_work S ! w) AND VAL_QUERY_AC_DETAIL \<noteq> 0 \<Longrightarrow>
      transform_chain E (Some (rc_rrset (rs_work S ! w))) (rc_flags (rs_work S ! w)) [] (rs_validator S) \<noteq> None"
  shows "\<exists>m S'. transform_single_result E (Some w) p S = Some (m, S') \<and> proofs_fit S'"
proof -
  have "\<exists>m S'. transform_proof E w p S = Some (m, S')"
  proof (cases p)
    case None
    let ?S = "S\<lparr> rs_results := rs_results S @ [result_block] \<rparr>"
    have "\<exists>S'. attach_proof E w (length (rs_results S)) ?S = Some (length (rs_results S), S')"
      by (rule attach_proof_returns) (use f chain in simp_all)
    with None show ?thesis by (auto simp: transform_proof_def)
  next
    case (Some i)
    show ?thesis
    proof (cases "res_proof_count (rs_results S ! i) = MAX_PROOFS")
      case True
      with Some show ?thesis by (simp add: transform_proof_def)
    next
      case False
      have i: "i < length (rs_results S)" using p Some by simp
      with False proofs_fit_nth [OF f i] have "res_proof_count (rs_results S ! i) < MAX_PROOFS" by simp
      from attach_proof_returns [OF f i this chain] Some False show ?thesis by (auto simp: transform_proof_def)
    qed
  qed
  then obtain m S' where t: "transform_single_result E (Some w) p S = Some (m, S')"
    using w by (auto simp: transform_single_result_def)
  with transform_single_result_fit [OF t f p] show ?thesis by blast
qed

text \<open>
  The results only grow, the answers in them stay, and what is answered is the position of one of them.
\<close>

definition place_ok :: "nat option \<Rightarrow> results_state \<Rightarrow> bool" where
  "place_ok p S \<longleftrightarrow> (\<forall>i. p = Some i \<longrightarrow> i < length (rs_results S))"

definition results_extend :: "results_state \<Rightarrow> results_state \<Rightarrow> bool" where
  "results_extend S S' \<longleftrightarrow> (proofs_fit S \<longrightarrow> proofs_fit S') \<and> length (rs_results S) \<le> length (rs_results S') \<and>
     (\<forall>i<length (rs_results S). res_answer (rs_results S' ! i) = res_answer (rs_results S ! i))"

lemma results_extend_refl [simp]: "results_extend S S"
  by (simp add: results_extend_def)

lemma results_extend_trans: "results_extend S S' \<Longrightarrow> results_extend S' S'' \<Longrightarrow> results_extend S S''"
  by (auto simp: results_extend_def)

lemma results_extend_validator [simp]: "results_extend S (S\<lparr> rs_validator := v \<rparr>)" "results_extend S (upd_work i f S)"
  by (simp_all add: results_extend_def)

lemma place_ok_simps [simp]: "place_ok None S" "place_ok p (S\<lparr> rs_validator := v \<rparr>) = place_ok p S"
  "place_ok (Some m) S \<longleftrightarrow> m < length (rs_results S)" "place_ok p (upd_work i f S) = place_ok p S"
  by (auto simp: place_ok_def)

lemma place_ok_extends: "place_ok p S \<Longrightarrow> results_extend S S' \<Longrightarrow> place_ok p S'"
  by (auto simp: place_ok_def results_extend_def)

lemma upd_result_length [simp]: "length (rs_results (upd_result i f S)) = length (rs_results S)"
  by (simp add: upd_result_def)

lemma answer_upd:
  assumes "\<And>r. res_answer (f r) = res_answer r" "i < length (rs_results S)"
  shows "res_answer (rs_results (upd_result m f S) ! i) = res_answer (rs_results S ! i)"
  using assms by (cases "m = i") (simp_all add: upd_result_def)

lemma upd_other [simp]: "i \<noteq> m \<Longrightarrow> rs_results (upd_result m f S) ! i = rs_results S ! i"
  by (simp add: upd_result_def)

lemma results_extend_upd: "(\<And>r. res_proofs (f r) = res_proofs r \<and> res_proof_count (f r) = res_proof_count r \<and> res_answer (f r) = res_answer r) \<Longrightarrow>
    results_extend S (upd_result i f S)"
  unfolding results_extend_def by (auto simp: answer_upd intro: proofs_fit_status)

lemma attach_proof_answers:
  "attach_proof E w m0 S = Some (m, S') \<Longrightarrow> m = m0 \<and> length (rs_results S') = length (rs_results S) \<and>
    (\<forall>i<length (rs_results S). res_answer (rs_results S' ! i) = res_answer (rs_results S ! i))"
  by (auto simp: attach_proof_def Let_def answer_upd put_proof_same split: if_splits Option.bind_splits)

lemma transform_single_result_extends:
  assumes "transform_single_result E w p S = Some (m, S')" "place_ok p S"
  shows "results_extend S S' \<and> place_ok (Some m) S'"
proof -
  have "length (rs_results S) \<le> length (rs_results S') \<and> place_ok (Some m) S' \<and>
    (\<forall>i<length (rs_results S). res_answer (rs_results S' ! i) = res_answer (rs_results S ! i))"
    using assms
    by (auto simp: transform_single_result_def transform_proof_def transform_answer_def Let_def nth_append answer_upd
      split: option.splits if_splits Option.bind_splits dest!: attach_proof_answers)
  with transform_single_result_fit [OF assms(1)] assms(2) show ?thesis by (auto simp: results_extend_def place_ok_def)
qed

lemma transform_outstanding_results_extends:
  "transform_outstanding_results E st is p S = Some (p', S') \<Longrightarrow> place_ok p S \<Longrightarrow> results_extend S S' \<and> place_ok p' S'"
proof (induction E st "is" p S arbitrary: p' S' rule: transform_outstanding_results.induct)
  case (2 E st i "is" p S)
  let ?w = "rs_work S ! i"
  show ?case
  proof (cases "rc_consumed ?w \<or> rc_is_proof ?w \<and> \<not> val_istrusted st")
    case True
    with 2 show ?thesis by simp
  next
    case False
    with 2(4) obtain m S1 where t: "transform_single_result E (Some i) p S = Some (m, S1)"
      by (auto simp: Let_def split: Option.bind_splits)
    note e = transform_single_result_extends [OF t 2(5)]
    define f :: "result_chain \<Rightarrow> result_chain" where "f = (\<lambda>r. r\<lparr> res_status := (if rc_is_proof ?w then st else rc_status ?w) \<rparr>)"
    define S2 where "S2 = upd_result m f S1"
    have e2: "results_extend S1 S2" unfolding S2_def by (rule results_extend_upd) (simp add: f_def)
    define p2 where "p2 = (if rc_is_proof ?w then Some m else p)"
    have "place_ok (Some m) S2" "place_ok p S2"
      using place_ok_extends [OF conjunct2 [OF e] e2] place_ok_extends [OF 2(5) results_extend_trans [OF conjunct1 [OF e] e2]] by simp_all
    then have ok: "place_ok p2 S2" by (simp add: p2_def)
    have "transform_outstanding_results E st is p2 S2 = Some (p', S')"
      using 2(4) False t by (auto simp: Let_def p2_def S2_def f_def split: if_splits)
    then have "results_extend S2 S' \<and> place_ok p' S'"
      using 2(2,3) [OF refl False t refl] ok by (cases "rc_is_proof ?w") (simp_all add: p2_def S2_def f_def)
    with e e2 show ?thesis by (blast intro: results_extend_trans)
  qed
qed simp

lemma use_proof_extends:
  "use_proof E w (p, S) = Some (p', S') \<Longrightarrow> place_ok p S \<Longrightarrow> results_extend S S' \<and> place_ok p' S'"
  by (auto simp: use_proof_def split: option.splits if_splits Option.bind_splits dest: transform_single_result_extends)

lemma use_proofs_extend:
  assumes "use_proof E w1 (p, S) = Some (p1, S1)" "use_proof E w2 (p1, S1) = Some (p2, S2)" "use_proof E w3 (p2, S2) = Some (p', S')"
    and "place_ok p S"
  shows "results_extend S S' \<and> place_ok p' S'"
proof -
  note a = use_proof_extends [OF assms(1,4)]
  note b = use_proof_extends [OF assms(2) conjunct2 [OF a]]
  note c = use_proof_extends [OF assms(3) conjunct2 [OF b]]
  from a b c show ?thesis by (blast intro: results_extend_trans)
qed

lemma nsec_proof_chk_extends:
  assumes "nsec_proof_chk E ce zc qn t p S = Some (st, p', S')" "place_ok p S"
  shows "results_extend S S' \<and> place_ok p' S'"
proof -
  from assms(1) obtain x y w1 w2 w3 where u: "use_proof E w1 (p, S) = Some x" "use_proof E w2 x = Some y" "use_proof E w3 y = Some (p', S')"
    unfolding nsec_proof_chk_def Let_def by (auto split: Option.bind_splits prod.splits)
  show ?thesis using use_proofs_extend [of E w1 p S "fst x" "snd x" w2 "fst y" "snd y" w3 p' S'] u assms(2) by simp
qed

lemma nsec3_proof_chk_extends:
  assumes "nsec3_proof_chk E a h ce zc qn t p S = Some (st, p', S')" "place_ok p S"
  shows "results_extend S S' \<and> place_ok p' S'"
proof -
  from assms(1) obtain x y z w1 w2 w3 w4 v where u: "use_proof E w1 (p, S\<lparr> rs_validator := v \<rparr>) = Some x" "use_proof E w2 x = Some y"
    "use_proof E w3 y = Some z" "use_proof E w4 z = Some (p', S')"
    unfolding nsec3_proof_chk_def Let_def by (auto split: Option.bind_splits prod.splits)
  have a: "results_extend S (snd z) \<and> place_ok (fst z) (snd z)"
    using use_proofs_extend [of E w1 p "S\<lparr> rs_validator := v \<rparr>" "fst x" "snd x" w2 "fst y" "snd y" w3 "fst z" "snd z"] u assms(2)
    by (auto intro: results_extend_trans [OF results_extend_validator(1)])
  from use_proof_extends [of E w4 "fst z" "snd z" p' S'] u(4) a show ?thesis by (auto intro: results_extend_trans)
qed

lemma prove_nonexistence_extends:
  assumes "prove_nonexistence E a qn t ce p S = Some (VAL_NO_ERROR, st, ttl_x, p', S')" "place_ok p S"
  shows "results_extend S S' \<and> place_ok p' S'"
  using assms
  by (auto simp: prove_nonexistence_def Let_def split: Option.bind_splits option.splits if_splits
    dest!: transform_outstanding_results_extends nsec_proof_chk_extends nsec3_proof_chk_extends)

lemma prove_nonexistence_fails:
  "prove_nonexistence E a qn t ce p S = Some (rc, st, ttl_x, p', S') \<Longrightarrow> rc \<noteq> VAL_NO_ERROR \<Longrightarrow> rs_results S' = []"
  by (auto simp: prove_nonexistence_def Let_def split: Option.bind_splits option.splits if_splits)

lemma no_results_fit [simp]: "proofs_fit \<lparr> rs_work = ws, rs_results = [], rs_validator = v \<rparr>"
  by (simp add: proofs_fit_def)

lemma results_extend_fit: "results_extend S S' \<Longrightarrow> proofs_fit S \<Longrightarrow> proofs_fit S'"
  by (simp add: results_extend_def)

lemma transform_single_result_keeps_fit:
  "transform_single_result E w None S = Some (m, S') \<Longrightarrow> proofs_fit S \<Longrightarrow> proofs_fit S' \<and> m < length (rs_results S')"
  using transform_single_result_extends [of E w None S m S'] by (auto dest: results_extend_fit)

lemma prove_nonexistence_fit:
  assumes "prove_nonexistence E a qn t ce p S = Some (rc, st, ttl_x, p', S')" "place_ok p S" "proofs_fit S"
  shows "proofs_fit S'"
proof (cases "rc = VAL_NO_ERROR")
  case True
  with prove_nonexistence_extends assms show ?thesis by (blast intro: results_extend_fit)
next
  case False
  with prove_nonexistence_fails [OF assms(1)] show ?thesis by (simp add: proofs_fit_def)
qed

lemma prove_nonexistence_fit_new:
  "prove_nonexistence E a qn t ce None S = Some (rc, st, ttl_x, p', S') \<Longrightarrow> proofs_fit S \<Longrightarrow> proofs_fit S'"
  using prove_nonexistence_fit [of E a qn t ce None S rc st ttl_x p' S'] by simp

lemma check_proof_sanity_fit:
  assumes c: "check_proof_sanity E a S = Some (rc, S')" and f: "proofs_fit S"
  shows "proofs_fit S'"
proof -
  have p: "proofs_fit S1" if "prove_nonexistence E a qn t ce None S = Some (rc, st, ttl_x, p', S1)" for qn t ce rc st ttl_x p' S1
    using prove_nonexistence_fit_new [OF that f] .
  from c f show ?thesis
    by (auto simp: check_proof_sanity_def split: if_splits Option.bind_splits option.splits dest!: p intro!: proofs_fit_status)
qed

lemma wildcard_result_fit: "wildcard_result a m st S = Some S' \<Longrightarrow> proofs_fit S \<Longrightarrow> proofs_fit S'"
  by (auto simp: wildcard_result_def split: if_splits Option.bind_splits intro!: proofs_fit_status)

lemma wildcard_result_fit': "wildcard_result a m st (S\<lparr> rs_validator := v \<rparr>) = Some S' \<Longrightarrow> proofs_fit S \<Longrightarrow> proofs_fit S'"
  by (drule wildcard_result_fit) simp_all

lemma check_one_wildcard_fit:
  assumes "check_one_wildcard E a i S = Some (rc, S')" "proofs_fit S"
  shows "proofs_fit S'"
proof -
  from assms(1) obtain m S1 where t: "transform_single_result E (Some i) None S = Some (m, S1)"
    by (auto simp: check_one_wildcard_def Let_def split: Option.bind_splits)
  with assms(2) have f: "proofs_fit S1" "m < length (rs_results S1)" by (auto dest: transform_single_result_keeps_fit)
  have p: "proofs_fit S2" if "prove_nonexistence E a qn ty ce (Some m) S1 = Some (rc, st, ttl_x, p', S2)" for rc qn ty ce st ttl_x p' S2
    using prove_nonexistence_fit [OF that] f by simp
  from assms(1) t f show ?thesis
    by (auto simp: check_one_wildcard_def Let_def split: Option.bind_splits option.splits if_splits
      intro!: proofs_fit_status dest!: p dest: wildcard_result_fit')
qed

lemma check_wildcard_sanity_fit:
  "check_wildcard_sanity E a is S = Some (rc, S') \<Longrightarrow> proofs_fit S \<Longrightarrow> proofs_fit S'"
proof (induction "is" arbitrary: S)
  case (Cons i "is")
  then obtain as where a: "get_as (rs_validator S) (rc_rrset (rs_work S ! i)) = Some as"
    by (auto simp: Let_def split: Option.bind_splits)
  show ?case
  proof (cases "rc_status (rs_work S ! i) = VAL_SUCCESS \<and> \<not> rc_consumed (rs_work S ! i) \<and> val_ac_status as = VAL_AC_WCARD_VERIFIED")
    case True
    with Cons.prems(1) a obtain r S1 where o: "check_one_wildcard E a i S = Some (r, S1)"
      by (auto simp: Let_def split: Option.bind_splits)
    with Cons True a show ?thesis
      by (auto simp: Let_def split: if_splits dest: check_one_wildcard_fit)
  next
    case False
    with Cons a show ?thesis by (auto simp: Let_def)
  qed
qed simp

lemma result_named_place: "result_named t rs = Some m \<Longrightarrow> m < length rs"
  by (auto simp: result_named_def find_Some_iff)

lemma alias_block_fit: "alias_block E i nr S = Some (m, S') \<Longrightarrow> proofs_fit S \<Longrightarrow> proofs_fit S'"
  by (auto simp: alias_block_def split: option.splits Option.bind_splits intro!: proofs_fit_status dest: transform_single_result_keeps_fit)

lemma alias_next_fit: "alias_next l qn m S = Some (rc, f, n, nr, S') \<Longrightarrow> proofs_fit S \<Longrightarrow> proofs_fit S'"
  by (auto simp: alias_next_def split: alias_link.splits if_splits Option.bind_splits option.splits intro!: proofs_fit_status)

lemma alias_scan_fit:
  "alias_scan E t c qn is nr S = Some (rc, f, n, nr', S') \<Longrightarrow> proofs_fit S \<Longrightarrow> proofs_fit S'"
proof (induction "is" arbitrary: nr S)
  case (Cons i "is")
  have step: "proofs_fit S'" if "alias_block E i nr1 S1 = Some (m, S2)" "alias_next l qn m S2 = Some (rc, f, n, nr', S')" "proofs_fit S1"
    for nr1 S1 m S2 l using alias_next_fit [OF that(2)] alias_block_fit [OF that(1,3)] by blast
  from Cons.prems show ?case
    by (auto simp: Let_def split: Option.bind_splits option.splits if_splits dest: Cons.IH step)
qed simp

lemma alias_loop_fit:
  assumes "alias_loop E q ql qn seen S = Some y" "proofs_fit S"
  shows "proofs_fit (snd (snd (snd (snd (snd y)))))"
proof -
  let ?P = "\<lambda>(E :: venv) (q :: val_query_chain) (ql :: query_list list) (qn :: byte list) (seen :: bool) (S :: results_state)
    (y :: val_ret \<times> bool \<times> byte list \<times> nat option \<times> bool \<times> results_state). proofs_fit S \<longrightarrow> proofs_fit (snd (snd (snd (snd (snd y)))))"
  have "?P E q ql qn seen S y"
  proof (rule alias_loop.raw_induct [where P = ?P, OF _ assms(1)], intro impI)
    fix walk :: "venv \<Rightarrow> val_query_chain \<Rightarrow> query_list list \<Rightarrow> byte list \<Rightarrow> bool \<Rightarrow> results_state \<Rightarrow>
      (val_ret \<times> bool \<times> byte list \<times> nat option \<times> bool \<times> results_state) option"
    fix E q ql qn seen S and y :: "val_ret \<times> bool \<times> byte list \<times> nat option \<times> bool \<times> results_state"
    assume IH: "\<And>E q ql qn seen S y. walk E q ql qn seen S = Some y \<Longrightarrow> ?P E q ql qn seen S y" and fit: "proofs_fit S"
    assume body: "Option.bind (register_query ql qn (qc_type_h q) (qc_zonecut_n q)) (\<lambda>(r, ql).
     if r \<noteq> IT_HASNT then Some (VAL_NO_ERROR, seen, qn, None, True, S)
     else Option.bind (alias_scan E (qc_type_h q) (qc_class_h q) qn [0..<length (rs_work S)] None S) (\<lambda>(rc, found, next_n, new_res, S).
       if rc \<noteq> VAL_NO_ERROR then Some (rc, seen \<or> found, next_n, new_res, False, S)
       else if \<not> found \<or> next_n = [] then Some (VAL_NO_ERROR, seen \<or> found, next_n, new_res, False, S)
       else walk E q ql next_n True S)) = Some y"
    from body obtain r ql' where r: "register_query ql qn (qc_type_h q) (qc_zonecut_n q) = Some (r, ql')"
      by (auto split: Option.bind_splits)
    show "proofs_fit (snd (snd (snd (snd (snd y)))))"
    proof (cases "r = IT_HASNT")
      case False
      with body r fit show ?thesis by auto
    next
      case True
      with body r obtain rc found n nr S1 where
        s: "alias_scan E (qc_type_h q) (qc_class_h q) qn [0..<length (rs_work S)] None S = Some (rc, found, n, nr, S1)"
        by (auto split: Option.bind_splits)
      from alias_scan_fit [OF this fit] have f1: "proofs_fit S1" .
      show ?thesis
      proof (cases "rc \<noteq> VAL_NO_ERROR \<or> \<not> found \<or> n = []")
        case True
        with body r s f1 \<open>r = IT_HASNT\<close> show ?thesis by (auto split: if_splits)
      next
        case False
        with body r s True have "walk E q ql' n True S1 = Some y" by simp
        from IH [OF this] f1 show ?thesis by simp
      qed
    qed
  qed
  with assms(2) show ?thesis by simp
qed

lemma drop_the_others_fit [simp]: "proofs_fit (drop_the_others S) = proofs_fit S"
  by (simp add: drop_the_others_def)

lemma check_alias_sanity_fit:
  assumes "check_alias_sanity E a S = Some (rc, S')" "proofs_fit S"
  shows "proofs_fit S'"
proof -
  from assms(1) obtain q where q: "query_at (rs_validator S) a = Some q"
    by (auto simp: check_alias_sanity_def split: Option.bind_splits)
  from assms(1) q obtain rc1 seen n nr circle S1 where
    l: "(if qc_original_name q = [] then Some (VAL_NO_ERROR, False, [], None, False, S)
       else alias_loop E q [] (qc_original_name q) False S) = Some (rc1, seen, n, nr, circle, S1)"
    by (auto simp: check_alias_sanity_def split: Option.bind_splits)
  then have f: "proofs_fit S1" using assms(2) alias_loop_fit [of E q "[]" "qc_original_name q" False S] by (auto split: if_splits)
  show ?thesis
  proof (cases "rc1 = VAL_NO_ERROR \<and> seen \<and> nr = None \<and> n \<noteq> [] \<and> \<not> circle")
    case False
    with assms(1) q l f show ?thesis by (auto simp: check_alias_sanity_def split: if_splits)
  next
    case True
    with assms(1) q l obtain rc2 st ttl_x p S2 where
      p: "prove_nonexistence E a n (qc_type_h q) None None S1 = Some (rc2, st, ttl_x, p, S2)"
      by (auto simp: check_alias_sanity_def split: Option.bind_splits)
    with prove_nonexistence_fit_new f have "proofs_fit S2" by blast
    with assms(1) q l True p show ?thesis
      by (auto simp: check_alias_sanity_def split: if_splits option.splits Option.bind_splits intro!: proofs_fit_status
        dest: transform_single_result_keeps_fit)
  qed
qed

lemma perform_sanity_checks_fit:
  assumes "perform_sanity_checks E a S = Some (rc, S')" "proofs_fit S"
  shows "proofs_fit S'"
  using assms
  by (auto simp: perform_sanity_checks_def Let_def split: if_splits Option.bind_splits
    dest!: check_proof_sanity_fit check_wildcard_sanity_fit check_alias_sanity_fit)

lemma finish_results_fit:
  assumes "finish_results E t S = Some (rc, dn, S')" "proofs_fit S"
  shows "proofs_fit S'"
proof -
  from assms(1) obtain rc1 S1 where p: "perform_sanity_checks E (qfq_query (qfq_at (rs_validator S) t)) S = Some (rc1, S1)"
    by (auto simp: finish_results_def split: Option.bind_splits)
  from perform_sanity_checks_fit [OF this assms(2)] have f1: "proofs_fit S1" .
  from assms(1) p obtain S2 where
    s: "(if rc1 = VAL_NO_ERROR then map_option snd (transform_outstanding_results E VAL_IRRELEVANT_PROOF [0..<length (rs_work S1)] None S1)
       else Some S1) = Some S2"
    by (auto simp: finish_results_def split: Option.bind_splits)
  have f2: "proofs_fit S2"
  proof (cases "rc1 = VAL_NO_ERROR")
    case True
    with s obtain p' where "transform_outstanding_results E VAL_IRRELEVANT_PROOF [0..<length (rs_work S1)] None S1 = Some (p', S2)" by auto
    from transform_outstanding_results_extends [OF this] f1 show ?thesis by (auto dest: results_extend_fit)
  qed (use s f1 in simp)
  with assms(1) p s show ?thesis
    by (auto simp: finish_results_def switch_or_def split: if_splits Option.bind_splits)
qed

subsection \<open>Errors, wildcards and denials\<close>

lemma finish_results_code: "finish_results E t S = Some (rc, dn, S') \<Longrightarrow> rc = VAL_NO_ERROR"
  by (auto simp: finish_results_def switch_or_def split: if_splits Option.bind_splits)

text \<open>The results after an untrusted proof.\<close>

lemma outstanding_proofs_dropped:
  "list_all rc_is_proof (rs_work S) \<Longrightarrow> \<forall>i\<in>set is. i < length (rs_work S) \<Longrightarrow> \<not> val_istrusted st \<Longrightarrow>
    transform_outstanding_results E st is p S = Some (p, S)"
  by (induction "is") (auto simp: Let_def list_all_length)

lemma untrusted_proof_no_results:
  assumes "finish_results E t S = Some (rc, dn, S')" "list_all rc_is_proof (rs_work S)"
    and "\<not> list_all (\<lambda>w. val_istrusted (rc_status w)) (rs_work S)" "rs_results S = []"
  shows "rs_results S' = []"
proof -
  let ?a = "qfq_query (qfq_at (rs_validator S) t)"
  from assms(1) obtain q where q: "query_at (rs_validator S) ?a = Some q"
    by (auto simp: finish_results_def perform_sanity_checks_def split: Option.bind_splits)
  define S1 where "S1 = S\<lparr> rs_validator := store_query ?a (q\<lparr> qc_bad := note_bad (rs_work S) (qc_bad q) \<rparr>) (rs_validator S),
    rs_work := map (\<lambda>w. w\<lparr> rc_status := VAL_BOGUS_PROOF \<rparr>) (rs_work S) \<rparr>"
  have p: "perform_sanity_checks E ?a S = Some (VAL_NO_ERROR, S1)"
    using q assms(2,3) by (simp add: perform_sanity_checks_def S1_def)
  have "list_all rc_is_proof (rs_work S1)" using assms(2) by (simp add: S1_def list_all_length)
  moreover have "\<not> val_istrusted VAL_IRRELEVANT_PROOF" by (simp add: val_istrusted_def)
  ultimately have "transform_outstanding_results E VAL_IRRELEVANT_PROOF [0..<length (rs_work S1)] None S1 = Some (None, S1)"
    by (intro outstanding_proofs_dropped) auto
  with assms(1) p have "switch_or E t S1 S1 = Some (rc, dn, S')"
    using assms(4) by (simp add: finish_results_def S1_def)
  then show ?thesis using assms(4) by (auto simp: switch_or_def S1_def split: if_splits Option.bind_splits)
qed

text \<open>What \<open>proof_sets\<close> collects.\<close>

definition trusted_proof :: "validator \<Rightarrow> byte list \<Rightarrow> u16 \<Rightarrow> internal_result \<Rightarrow> rrset_rec \<Rightarrow> bool" where
  "trusted_proof v zc type w s \<longleftrightarrow> rc_is_proof w \<and> val_istrusted (rc_status w) \<and>
     (\<exists>as. get_as v (rc_rrset w) = Some as \<and> ac_data as = Some s) \<and> rrs_type_h s = type \<and> rrs_sig s \<noteq> [] \<and>
     (\<exists>signer. ptr (rr_rdata (hd (rrs_sig s))) SIGNBY = Some signer \<and> namecmp signer zc = Some 0)"

lemma proof_sets_sound:
  assumes "proof_sets v zc type ws i nl soa = Some (nl', soa')"
  shows "(\<forall>(k, s)\<in>set nl'. (k, s) \<in> set nl \<or> i \<le> k \<and> k - i < length ws \<and> trusted_proof v zc type (ws ! (k - i)) s) \<and>
    (\<forall>k. soa' = Some k \<longrightarrow> soa = Some k \<or> i \<le> k \<and> k - i < length ws \<and> rc_is_proof (ws ! (k - i)))"
  using assms
proof (induction ws arbitrary: i nl soa)
  case (Cons w ws)
  let ?g = "\<lambda>nl soa. (\<forall>(k, s)\<in>set nl'. (k, s) \<in> set nl \<or> i \<le> k \<and> k - i < length (w # ws) \<and> trusted_proof v zc type ((w # ws) ! (k - i)) s) \<and>
    (\<forall>k. soa' = Some k \<longrightarrow> soa = Some k \<or> i \<le> k \<and> k - i < length (w # ws) \<and> rc_is_proof ((w # ws) ! (k - i)))"
  have tail: "?g nl0 soa0" if "proof_sets v zc type ws (i + 1) nl0 soa0 = Some (nl', soa')" for nl0 soa0
  proof -
    have k: "i \<le> k \<and> k - i < length (w # ws) \<and> (w # ws) ! (k - i) = ws ! (k - (i + 1))" if "i + 1 \<le> k" "k - (i + 1) < length ws" for k
    proof -
      from that have "k - i = Suc (k - (i + 1))" by simp
      with that show ?thesis by simp
    qed
    from Cons.IH [OF that] show ?thesis using k by (fastforce split: prod.splits)
  qed
  show ?case
  proof (cases "rc_is_proof w \<and> val_istrusted (rc_status w)")
    case False
    with Cons.prems tail show ?thesis by auto
  next
    case p: True
    with Cons.prems obtain as where a: "get_as v (rc_rrset w) = Some as" by (auto split: Option.bind_splits)
    show ?thesis
    proof (cases "ac_data as")
      case None
      with Cons.prems tail p a show ?thesis by auto
    next
      case (Some s)
      show ?thesis
      proof (cases "rrs_name_n s = [] \<or> rrs_data s = [] \<or> rr_rdata (hd (rrs_data s)) = [] \<or> rrs_sig s = [] \<or> rr_rdata (hd (rrs_sig s)) = []")
        case True
        with Cons.prems tail p a Some show ?thesis by auto
      next
        case full: False
        show ?thesis
        proof (cases "rrs_type_h s = ns_t_soa")
          case True
          with Cons.prems p a Some full have "proof_sets v zc type ws (i + 1) nl (Some i) = Some (nl', soa')" by simp
          from tail [OF this] show ?thesis using p by auto
        next
          case soa: False
          show ?thesis
          proof (cases "rrs_type_h s = type")
            case False
            with Cons.prems tail p a Some full soa show ?thesis by auto
          next
            case True
            with Cons.prems p a Some full soa obtain signer c where
              c: "ptr (rr_rdata (hd (rrs_sig s))) SIGNBY = Some signer" "namecmp signer zc = Some c"
                "proof_sets v zc type ws (i + 1) (if c \<noteq> 0 then nl else (i, s) # nl) soa = Some (nl', soa')"
              by (auto split: Option.bind_splits)
            have "trusted_proof v zc type w s" if "c = 0" using that c p a Some full True by (auto simp: trusted_proof_def)
            with tail [OF c(3)] show ?thesis by (cases "c = 0") auto
          qed
        qed
      qed
    qed
  qed
qed simp

text \<open>A record of a trusted proof of the response, signed by the zone \<open>zc\<close>.\<close>

definition trusted_record :: "results_state \<Rightarrow> byte list \<Rightarrow> u16 \<Rightarrow> rrset_rec \<Rightarrow> bool" where
  "trusted_record S zc type s \<longleftrightarrow> (\<exists>w\<in>set (rs_work S). trusted_proof (rs_validator S) zc type w s)"

lemma nsec_denial_sound:
  assumes n: "nsec_proof_chk E None zc qname_n qtype_h p S = Some (st, p', S')" "st \<in> {VAL_NONEXISTENT_NAME, VAL_NONEXISTENT_TYPE}"
    and q: "encodes qname_n qs" "0 < qtype_h" "qtype_h < 256"
    and wf: "\<And>s. trusted_record S zc ns_t_nsec s \<Longrightarrow> rfc_nsec s \<and> no_next [s] qs"
  shows "(\<exists>s. trusted_record S zc ns_t_nsec s \<and> nsec_denies_type s qs (unat qtype_h) \<and> st = VAL_NONEXISTENT_TYPE) \<or>
    (\<exists>s. trusted_record S zc ns_t_nsec s \<and> nsec_denies_name s qs) \<and>
    (\<exists>cs s. subname qs cs \<and> trusted_record S zc ns_t_nsec s \<and>
      (nsec_denies_name s (star # cs) \<and> st = VAL_NONEXISTENT_NAME \<or> nsec_owner s (star # cs) \<and> st = VAL_NONEXISTENT_TYPE))"
proof -
  from n obtain nl soa span wcard notype where ps: "proof_sets (rs_validator S) zc ns_t_nsec (rs_work S) 0 [] None = Some (nl, soa)" and
    r: "(if nl = [] then Some (None, None, False) else prove_nsec_span (map snd nl) qname_n qtype_h None) = Some (span, wcard, notype)" and
    st: "st = (if span = None \<or> wcard = None then VAL_INCOMPLETE_PROOF else if notype then VAL_NONEXISTENT_TYPE else VAL_NONEXISTENT_NAME)"
    unfolding nsec_proof_chk_def Let_def by (auto split: Option.bind_splits)
  from st n(2) obtain i j where ij: "span = Some i" "wcard = Some j" by (cases span; cases wcard) (auto split: if_splits)
  with r have run: "prove_nsec_span (map snd nl) qname_n qtype_h None = Some (Some i, Some j, notype)" by (auto split: if_splits)
  have t: "trusted_record S zc ns_t_nsec s" if "s \<in> set (map snd nl)" for s
    using proof_sets_sound [OF ps] that unfolding trusted_record_def by force
  then have wfs: "list_all rfc_nsec (map snd nl)" "no_next (map snd nl) qs"
    using wf unfolding list_all_iff no_next_def by force+
  have mem: "trusted_record S zc ns_t_nsec (map snd nl ! k)" if "k < length nl" for k
    using t [OF nth_mem, of k] that by simp
  from prove_nsec_span_denies [OF q(1) wfs(1) q(2,3) wfs(2)] run consider
    "i < length nl" "notype" "nsec_denies_type (map snd nl ! i) qs (unat qtype_h)"
  | cs where "i < length nl" "nsec_denies_name (map snd nl ! i) qs" "subname qs cs"
      "wildcard_shown (map snd nl) (star # cs) (Some j) notype"
    by auto
  then show ?thesis
  proof cases
    case 1
    with st ij mem show ?thesis by (intro disjI1 exI [of _ "map snd nl ! i"]) simp
  next
    case (2 cs)
    from 2(4) have "j < length nl" and w: "if notype then nsec_owner (map snd nl ! j) (star # cs)
        else nsec_denies_name (map snd nl ! j) (star # cs)"
      by (auto simp: wildcard_shown_def)
    then have "trusted_record S zc ns_t_nsec (map snd nl ! i)" "trusted_record S zc ns_t_nsec (map snd nl ! j)"
      using mem 2(1) by blast+
    with w 2(2,3) st ij show ?thesis by (cases notype) (simp_all, blast+)
  qed
qed

text \<open>A proof that goes to a given place stays there.\<close>

lemma upd_result_work [simp]: "rs_work (upd_result i f S) = rs_work S"
  by (simp add: upd_result_def)

lemma upd_work_kinds: "(\<And>x. rc_is_proof (f x) = rc_is_proof x) \<Longrightarrow> map rc_is_proof (rs_work (upd_work i f S)) = map rc_is_proof (rs_work S)"
  by (simp add: upd_work_def map_update) (metis list_update_beyond list_update_id not_le length_map nth_map)

lemma attach_proof_kinds: "attach_proof E w m0 S = Some (m, S') \<Longrightarrow> m = m0 \<and> map rc_is_proof (rs_work S') = map rc_is_proof (rs_work S)"
  by (auto simp: attach_proof_def Let_def upd_work_kinds put_proof_same split: if_splits Option.bind_splits)

lemma transform_single_result_kinds:
  "transform_single_result E w p S = Some (m, S') \<Longrightarrow> map rc_is_proof (rs_work S') = map rc_is_proof (rs_work S)"
  by (auto simp: transform_single_result_def transform_proof_def transform_answer_def Let_def upd_work_kinds
    split: option.splits if_splits Option.bind_splits dest!: attach_proof_kinds)

lemma transform_proof_place: "transform_proof E w (Some k) S = Some (m, S') \<Longrightarrow> m = k"
  by (auto simp: transform_proof_def split: if_splits dest: attach_proof_kinds)

lemma use_proof_place:
  assumes "use_proof E w (Some k, S) = Some (p, S')" "\<forall>i. w = Some i \<longrightarrow> i < length (rs_work S) \<and> rc_is_proof (rs_work S ! i)"
  shows "p = Some k \<and> map rc_is_proof (rs_work S') = map rc_is_proof (rs_work S)"
proof (cases w)
  case None
  with assms show ?thesis by (simp add: use_proof_def)
next
  case (Some i)
  show ?thesis
  proof (cases "rc_consumed (rs_work S ! i)")
    case True
    with Some assms show ?thesis by (simp add: use_proof_def)
  next
    case False
    with Some assms obtain m where t: "transform_single_result E (Some i) (Some k) S = Some (m, S')" "p = Some m"
      by (auto simp: use_proof_def split: Option.bind_splits)
    with assms Some have "transform_proof E i (Some k) S = Some (m, S')" by (simp add: transform_single_result_def)
    with transform_proof_place transform_single_result_kinds t show ?thesis by blast
  qed
qed

lemma kind_at: "map rc_is_proof (rs_work S') = map rc_is_proof (rs_work S) \<Longrightarrow> i < length (rs_work S) \<and> rc_is_proof (rs_work S ! i) \<Longrightarrow>
    i < length (rs_work S') \<and> rc_is_proof (rs_work S' ! i)"
  by (metis length_map nth_map)

lemma use_proofs_place:
  assumes "use_proof E w1 (Some k, S) = Some (p1, S1)" "use_proof E w2 (p1, S1) = Some (p2, S2)" "use_proof E w3 (p2, S2) = Some (p3, S3)"
    and "\<forall>i. w1 = Some i \<or> w2 = Some i \<or> w3 = Some i \<longrightarrow> i < length (rs_work S) \<and> rc_is_proof (rs_work S ! i)"
  shows "p3 = Some k \<and> map rc_is_proof (rs_work S3) = map rc_is_proof (rs_work S)"
proof -
  have a: "p1 = Some k \<and> map rc_is_proof (rs_work S1) = map rc_is_proof (rs_work S)" using use_proof_place [OF assms(1)] assms(4) by blast
  have b: "p2 = Some k \<and> map rc_is_proof (rs_work S2) = map rc_is_proof (rs_work S1)"
    using use_proof_place [of E w2 k S1 p2 S2] assms(2,4) a kind_at [of S1 S] by auto
  show ?thesis using use_proof_place [of E w3 k S2 p3 S3] assms(3,4) a b kind_at [of S2 S] by auto
qed

lemma proof_sets_places:
  assumes "proof_sets v zc t (rs_work S) 0 [] None = Some (nl, soa)"
  shows "\<forall>i. soa = Some i \<or> (\<exists>k<length nl. i = fst (nl ! k)) \<longrightarrow> i < length (rs_work S) \<and> rc_is_proof (rs_work S ! i)"
proof (intro allI impI, elim disjE exE conjE)
  fix i assume "soa = Some i"
  with proof_sets_sound [OF assms] show "i < length (rs_work S) \<and> rc_is_proof (rs_work S ! i)" by simp
next
  fix i k assume "k < length nl" "i = fst (nl ! k)"
  then have "(i, snd (nl ! k)) \<in> set nl" by simp
  with proof_sets_sound [OF assms] show "i < length (rs_work S) \<and> rc_is_proof (rs_work S ! i)"
    by (auto simp: trusted_proof_def)
qed

subsection \<open>The proofs that are used\<close>

lemma nsec_span_loop_range:
  "nsec_span_loop qn t ns i span ce = Some r \<Longrightarrow>
    (case r of Inr j \<Rightarrow> j < i + length ns | Inl (s, _) \<Rightarrow> \<forall>j. s = Some j \<longrightarrow> span = Some j \<or> j < i + length ns)"
proof (induction ns arbitrary: i span ce)
  case (Cons n ns)
  then show ?case
    by (fastforce split: Option.bind_splits if_splits sum.splits prod.splits)
qed auto

lemma nsec_wcard_loop_range: "nsec_wcard_loop wc ns i = Some (Some j, nt) \<Longrightarrow> j < i + length ns"
proof (induction ns arbitrary: i)
  case (Cons n ns)
  from Cons.prems show ?case by (auto split: Option.bind_splits if_splits dest: Cons.IH)
qed simp

lemma prove_nsec_span_range:
  assumes "prove_nsec_span ns qn t ce = Some (span, wcard, nt)"
  shows "\<forall>j. span = Some j \<or> wcard = Some j \<longrightarrow> j < length ns"
proof -
  from assms obtain r where r: "nsec_span_loop qn t ns 0 None None = Some r"
    by (auto simp: prove_nsec_span_def split: Option.bind_splits)
  from nsec_span_loop_range [OF r] assms r show ?thesis
    by (auto simp: prove_nsec_span_def split: sum.splits option.splits Option.bind_splits if_splits dest: nsec_wcard_loop_range [where i = 0, simplified])
qed

lemma cpe_records_range:
  "cpe_records C now f cp t ns i ttl ctx = Some (r, ttl', ctx') \<Longrightarrow> r = Inl (Some j) \<or> r = Inr j \<Longrightarrow> j < i + length ns"
proof (induction ns arbitrary: i ttl ctx f)
  case (Cons n ns)
  have ih: "j < Suc (i + length ns)" if "cpe_records C now f cp t ns (Suc i) ttl ctx = Some (r', ttl', ctx')" "r' = r" for ttl ctx f r'
    using Cons.IH [OF _ Cons.prems(2), of f "Suc i" ttl ctx] that by simp
  from Cons.prems show ?case by (auto split: Option.bind_splits if_splits option.splits dest: ih)
qed auto

lemma ncn_records_range: "ncn_records C now s ns i ttl ctx = Some (Inr (Some j, oo), ttl', ctx') \<Longrightarrow> j < i + length ns"
proof (induction ns arbitrary: i ttl ctx)
  case (Cons n ns)
  have ih: "j < Suc (i + length ns)" if "ncn_records C now s ns (Suc i) ttl ctx = Some (Inr (Some j, oo), ttl', ctx')" for ttl ctx
    using Cons.IH [of "Suc i" ttl ctx] that by simp
  from Cons.prems show ?case by (auto split: Option.bind_splits if_splits option.splits dest: ih)
qed simp

lemma wcp_records_range: "wcp_records C now s ns i ttl ctx = Some ((Some j, nt), ttl', ctx') \<Longrightarrow> j < i + length ns"
proof (induction ns arbitrary: i ttl ctx)
  case (Cons n ns)
  have ih: "j < Suc (i + length ns)" if "wcp_records C now s ns (Suc i) ttl ctx = Some ((Some j, nt), ttl', ctx')" for ttl ctx
    using Cons.IH [of "Suc i" ttl ctx] that by simp
  from Cons.prems show ?case by (auto split: Option.bind_splits if_splits option.splits dest: ih)
qed simp

lemma cpe_search_range:
  assumes "cpe_search C now qn t ns p soa ttl ctx = Some (r, p', ttl', ctx')" "r = Inl (Some j) \<or> r = Inr j"
  shows "j < length ns"
proof -
  let ?P = "\<lambda>(C :: openssl) (now :: int) (qn :: byte list) (t :: u16) (ns :: nsec3proof list) (p :: nat) (soa :: byte list) (ttl :: u32)
    (ctx :: int e_pol) (y :: (nat option + nat) \<times> nat \<times> u32 \<times> int e_pol). \<forall>j. fst y = Inl (Some j) \<or> fst y = Inr j \<longrightarrow> j < length ns"
  have "?P C now qn t ns p soa ttl ctx (r, p', ttl', ctx')"
  proof (rule cpe_search.raw_induct [where P = ?P, OF _ assms(1)])
    fix f C now qn t ns p soa ttl ctx and y :: "(nat option + nat) \<times> nat \<times> u32 \<times> int e_pol"
    assume IH: "\<And>C now qn t ns p soa ttl ctx y. f C now qn t ns p soa ttl ctx = Some y \<Longrightarrow> ?P C now qn t ns p soa ttl ctx y"
      and body: "do {
         cp \<leftarrow> ptr qn p;
         c \<leftarrow> namecmp cp soa;
         if c < 0 then Some (Inl None, p, ttl, ctx)
         else do {
           (r, ttl_x', ctx') \<leftarrow> cpe_records C now (p = 0) cp t ns 0 ttl ctx;
           if r \<noteq> Inl None then Some (r, p, ttl_x', ctx')
           else do {
             b \<leftarrow> rd qn p;
             soa \<leftarrow> signer_of (last ns);
             f C now qn t ns (if b \<noteq> 0 then p + unat b + 1 else p) soa ttl_x' ctx'
           }
         }
       } = Some y"
    from body obtain cp c where c: "ptr qn p = Some cp" "namecmp cp soa = Some c" by (auto split: Option.bind_splits)
    show "\<forall>j. fst y = Inl (Some j) \<or> fst y = Inr j \<longrightarrow> j < length ns"
    proof (cases "c < 0")
      case True
      with body c show ?thesis by auto
    next
      case False
      with body c obtain r ttl1 ctx1 where r: "cpe_records C now (p = 0) cp t ns 0 ttl ctx = Some (r, ttl1, ctx1)"
        by (auto split: Option.bind_splits)
      show ?thesis
      proof (cases "r = Inl None")
        case True
        with body c False r obtain q so where "f C now qn t ns q so ttl1 ctx1 = Some y" by (auto split: Option.bind_splits)
        from IH [OF this] show ?thesis .
      next
        case r2: False
        with body c False r have "fst y = r" by (auto split: Option.bind_splits)
        with cpe_records_range [OF r] show ?thesis by auto
      qed
    qed
  qed
  with assms(2) show ?thesis by auto
qed

lemma span_below_range:
  assumes "span_below C now qn ns cp hinted s ttl ctx = Some (s', ttl', ctx')"
  shows "\<forall>j. sp_cpe s' = Some j \<or> sp_ncn s' = Some j \<or> sp_wcp s' = Some j \<longrightarrow>
    sp_cpe s = Some j \<or> sp_ncn s = Some j \<or> sp_wcp s = Some j \<or> j < length ns"
proof -
  have n: "j < length ns" if "ncn_records C now x ns 0 ttl ctx = Some (Inr (Some j, oo), ttl', ctx')" for x ttl ctx oo ttl' ctx' j
    using ncn_records_range [OF that] by simp
  have w: "j < length ns" if "wcp_records C now x ns 0 ttl ctx = Some ((Some j, nt), ttl', ctx')" for x ttl ctx nt ttl' ctx' j
    using wcp_records_range [OF that] by simp
  from assms obtain q where q: "do { len \<leftarrow> wire_name_length qn; next_closer qn cp 0 len } = Some q"
    by (auto simp: span_below_def split: Option.bind_splits)
  show ?thesis
  proof (cases q)
    case None
    with assms q show ?thesis by (auto simp: span_below_def split: Option.bind_splits)
  next
    case (Some k)
    with assms q obtain x r ttl1 ctx1 where x: "ptr qn k = Some x" "ncn_records C now x ns 0 ttl ctx = Some (r, ttl1, ctx1)"
      by (auto simp: span_below_def split: Option.bind_splits)
    show ?thesis
    proof (cases r)
      case (Inl u)
      with assms q x Some show ?thesis by (auto simp: span_below_def split: Option.bind_splits)
    next
      case (Inr z)
      obtain k oo where z: "z = (k, oo)" by (cases z)
      have k: "\<forall>j. k = Some j \<longrightarrow> j < length ns" using n x(2) Inr z by auto
      from assms q x Some Inr z have "sp_cpe s' = sp_cpe s \<and> sp_ncn s' = k \<and> (sp_wcp s' = k \<or> sp_wcp s' = sp_wcp s \<or>
          (\<exists>y nt ttl2 ctx2. wcp_records C now y ns 0 ttl1 ctx1 = Some ((sp_wcp s', nt), ttl2, ctx2)))"
        by (auto simp: span_below_def Let_def split: Option.bind_splits if_splits)
      with k w show ?thesis by metis
    qed
  qed
qed

lemma prove_nsec3_span_range:
  assumes "prove_nsec3_span C now ctx ns qn t ttl ce = Some (s, ttl', ctx')"
  shows "\<forall>j. sp_cpe s = Some j \<or> sp_ncn s = Some j \<or> sp_wcp s = Some j \<longrightarrow> j < length ns"
proof (cases ce)
  case (Some cp)
  with assms have "span_below C now qn ns cp True no_span ttl ctx = Some (s, ttl', ctx')" by (simp add: prove_nsec3_span_def)
  from span_below_range [OF this] show ?thesis by (auto simp: no_span_def)
next
  case None
  with assms obtain r p ttl1 ctx1 where c: "cpe_search C now qn t ns 0 qn ttl ctx = Some (r, p, ttl1, ctx1)"
    by (auto simp: prove_nsec3_span_def split: Option.bind_splits)
  show ?thesis
  proof (cases r)
    case (Inr i)
    with assms None c cpe_search_range [OF c] show ?thesis by (auto simp: prove_nsec3_span_def)
  next
    case (Inl o')
    show ?thesis
    proof (cases o')
      case None
      with assms \<open>ce = None\<close> c Inl show ?thesis by (auto simp: prove_nsec3_span_def no_span_def)
    next
      case (Some i)
      with assms \<open>ce = None\<close> c Inl obtain cp where
        "span_below C now qn ns cp False (no_span\<lparr> sp_cpe := Some i \<rparr>) ttl1 ctx1 = Some (s, ttl', ctx')"
        by (auto simp: prove_nsec3_span_def split: Option.bind_splits)
      from span_below_range [OF this] cpe_search_range [OF c] Inl Some show ?thesis by (auto simp: no_span_def)
    qed
  qed
qed

lemma nsec3_proofs_places: "nsec3_proofs sets = Some nl \<Longrightarrow> (i, p) \<in> set nl \<Longrightarrow> \<exists>s. (i, s) \<in> set sets"
proof (induction sets arbitrary: nl)
  case (Cons x sets)
  obtain k s where x: "x = (k, s)" by (cases x)
  with Cons.prems obtain rest where rest: "nsec3_proofs sets = Some rest" by (auto split: Option.bind_splits)
  from Cons.prems x rest have "nl = rest \<or> (\<exists>h. nl = (k, h) # rest)" by (auto simp: Let_def split: Option.bind_splits option.splits)
  with Cons.IH [OF rest] Cons.prems(2) x show ?case by fastforce
qed simp

lemma nsec_proof_chk_place:
  assumes "nsec_proof_chk E ce zc qn t (Some k) S = Some (st, p', S')"
  shows "p' = Some k"
proof -
  from assms obtain nl soa span wcard nt x y where ps: "proof_sets (rs_validator S) zc ns_t_nsec (rs_work S) 0 [] None = Some (nl, soa)"
    and r: "(if nl = [] then Some (None, None, False) else prove_nsec_span (map snd nl) qn t ce) = Some (span, wcard, nt)"
    and u: "use_proof E soa (Some k, S) = Some x" "use_proof E (map_option (\<lambda>k. fst (nl ! k)) span) x = Some y"
      "use_proof E (map_option (\<lambda>k. fst (nl ! k)) wcard) y = Some (p', S')"
    unfolding nsec_proof_chk_def Let_def by (auto split: Option.bind_splits prod.splits)
  have range: "\<forall>j. span = Some j \<or> wcard = Some j \<longrightarrow> j < length nl"
    using r prove_nsec_span_range [of "map snd nl" qn t ce span wcard nt] by (auto split: if_splits)
  show ?thesis
    using use_proofs_place [of E soa k S "fst x" "snd x" "map_option (\<lambda>k. fst (nl ! k)) span" "fst y" "snd y"
        "map_option (\<lambda>k. fst (nl ! k)) wcard" p' S'] u proof_sets_places [OF ps] range by auto
qed

lemma nsec3_proof_chk_place:
  assumes "nsec3_proof_chk E a h ce zc qn t (Some k) S = Some (st, p', S')"
  shows "p' = Some k"
proof -
  let ?pl = "\<lambda>nl. map_option (\<lambda>k. fst (nl ! k))"
  from assms obtain sets soa nl s ttl_x ctx v x y z where
    ps: "proof_sets (rs_validator S) zc ns_t_nsec3 (rs_work S) 0 [] None = Some (sets, soa)" and n: "nsec3_proofs sets = Some nl"
    and r: "(if nl = [] then Some (no_span, 0, va_nsec3 (rs_validator S))
       else prove_nsec3_span (ve_ssl E) (ve_now E) (va_nsec3 (rs_validator S)) (map snd nl) qn t 0 ce) = Some (s, ttl_x, ctx)"
    and u: "use_proof E (?pl nl (sp_cpe s)) (Some k, S\<lparr> rs_validator := v \<rparr>) = Some x" "use_proof E (?pl nl (sp_ncn s)) x = Some y"
      "use_proof E (?pl nl (sp_wcp s)) y = Some z" "use_proof E soa z = Some (p', S')"
    unfolding nsec3_proof_chk_def Let_def by (auto split: Option.bind_splits prod.splits)
  have range: "\<forall>j. sp_cpe s = Some j \<or> sp_ncn s = Some j \<or> sp_wcp s = Some j \<longrightarrow> j < length nl"
    using r prove_nsec3_span_range [of _ _ _ "map snd nl" qn t 0 ce s ttl_x ctx] by (auto simp: no_span_def split: if_splits)
  have place: "\<exists>k<length sets. i = fst (sets ! k)" if "j < length nl" "i = fst (nl ! j)" for i j
    using nsec3_proofs_places [OF n, of i "snd (nl ! j)"] that by (auto simp: in_set_conv_nth) (metis fst_conv)
  have fits: "i < length (rs_work S) \<and> rc_is_proof (rs_work S ! i)" if "?pl nl (sp_cpe s) = Some i \<or> ?pl nl (sp_ncn s) = Some i \<or> ?pl nl (sp_wcp s) = Some i" for i
  proof -
    from that range obtain j where "j < length nl" "i = fst (nl ! j)" by auto
    from place [OF this] proof_sets_places [OF ps] show ?thesis by blast
  qed
  have a: "fst z = Some k \<and> map rc_is_proof (rs_work (snd z)) = map rc_is_proof (rs_work S)"
    using use_proofs_place [of E _ k "S\<lparr> rs_validator := v \<rparr>" "fst x" "snd x" _ "fst y" "snd y" _ "fst z" "snd z"] u fits by simp
  have "\<forall>i. soa = Some i \<longrightarrow> i < length (rs_work (snd z)) \<and> rc_is_proof (rs_work (snd z) ! i)"
    using proof_sets_places [OF ps] kind_at [OF conjunct2 [OF a]] by blast
  with use_proof_place [of E soa k "snd z" p' S'] u(4) a show ?thesis by (metis prod.collapse)
qed

lemma transform_outstanding_results_place:
  "transform_outstanding_results E st is (Some k) S = Some (p', S') \<Longrightarrow> p' = Some k"
proof (induction "is" arbitrary: S)
  case (Cons i "is")
  show ?case
  proof (cases "rc_is_proof (rs_work S ! i)")
    case True
    show ?thesis
    proof (cases "rc_consumed (rs_work S ! i) \<or> \<not> val_istrusted st")
      case True
      with Cons \<open>rc_is_proof (rs_work S ! i)\<close> show ?thesis by (auto simp: Let_def)
    next
      case False
      with True Cons.prems obtain m S1 where t: "transform_proof E i (Some k) S = Some (m, S1)"
        by (auto simp: Let_def transform_single_result_def split: Option.bind_splits)
      with True False Cons.prems have "transform_outstanding_results E st is (Some m) (upd_result m (\<lambda>r. r\<lparr> res_status := st \<rparr>) S1) = Some (p', S')"
        by (simp add: Let_def transform_single_result_def)
      with Cons.IH transform_proof_place [OF t] show ?thesis by blast
    qed
  next
    case False
    with Cons show ?thesis by (auto simp: Let_def split: if_splits Option.bind_splits)
  qed
qed simp

lemma prove_nonexistence_place:
  assumes "prove_nonexistence E a qn t ce (Some k) S = Some (VAL_NO_ERROR, st, ttl_x, p', S')"
  shows "p' = Some k"
  using assms
  by (auto simp: prove_nonexistence_def Let_def split: Option.bind_splits option.splits if_splits
    dest: transform_outstanding_results_place nsec_proof_chk_place nsec3_proof_chk_place)

text \<open>An answer expanded from a wildcard, without the details of the chain.\<close>

lemma transform_answer_without_detail:
  assumes "transform_answer E w S = Some (m, S')" "rc_flags (rs_work S ! w) AND VAL_QUERY_AC_DETAIL = 0"
  shows "m = length (rs_results S) \<and> length (rs_results S') = Suc m \<and> res_answer (rs_results S' ! m) = []"
  using assms by (auto simp: transform_answer_def Let_def upd_result_def split: Option.bind_splits)

lemma wildcard_without_detail:
  assumes c: "check_one_wildcard E a w S = Some (VAL_NO_ERROR, S')" and "\<not> rc_is_proof (rs_work S ! w)"
    and "rc_flags (rs_work S ! w) AND VAL_QUERY_AC_DETAIL = 0"
  shows "length (rs_results S) < length (rs_results S') \<and>
    res_status (rs_results S' ! length (rs_results S)) \<in> {VAL_BOGUS, VAL_INDETERMINATE}"
proof -
  let ?m = "length (rs_results S)"
  from c obtain m S1 where t: "transform_single_result E (Some w) None S = Some (m, S1)"
    by (auto simp: check_one_wildcard_def Let_def split: Option.bind_splits)
  with assms(2) have ta: "transform_answer E w S = Some (m, S1)" by (simp add: transform_single_result_def)
  from transform_answer_without_detail [OF ta assms(3)] have m: "m = ?m" "length (rs_results S1) = Suc ?m" "res_answer (rs_results S1 ! ?m) = []"
    by auto
  from c t obtain as where a: "get_as (rs_validator S1) (rc_rrset (rs_work S ! w)) = Some as"
    by (auto simp: check_one_wildcard_def Let_def split: Option.bind_splits)
  show ?thesis
  proof (cases "case ac_data as of None \<Rightarrow> True | Some s \<Rightarrow> rrs_sig s = []")
    case True
    with c t a m(1) have "S' = upd_result ?m (\<lambda>r. r\<lparr> res_status := VAL_INDETERMINATE \<rparr>) S1"
      by (auto simp: check_one_wildcard_def Let_def split: option.splits)
    with m(2) show ?thesis by (simp add: upd_result_def)
  next
    case False
    with c t a m(1) obtain qn ty ce st ttl_x k S2 v where
      p: "prove_nonexistence E a qn ty ce (Some ?m) S1 = Some (VAL_NO_ERROR, st, ttl_x, Some k, S2)" and
      w: "wildcard_result a k st (S2\<lparr> rs_validator := v \<rparr>) = Some S'"
      by (auto simp: check_one_wildcard_def Let_def split: option.splits Option.bind_splits if_splits)
    from prove_nonexistence_place [OF p] have k: "k = ?m" by simp
    from prove_nonexistence_extends [OF p] m have e: "length (rs_results S1) \<le> length (rs_results S2)" "res_answer (rs_results S2 ! ?m) = []"
      by (auto simp: results_extend_def)
    from w k e(2) have "S' = upd_result ?m (\<lambda>r. r\<lparr> res_status := VAL_BOGUS \<rparr>) (S2\<lparr> rs_validator := v \<rparr>)"
      by (simp add: wildcard_result_def)
    with e(1) m(2) show ?thesis by (simp add: upd_result_def)
  qed
qed

subsection \<open>Every answer is looked at\<close>

lemma upd_work_rrset: "map rc_rrset (rs_work (upd_work w (\<lambda>x. x\<lparr> rc_status := st \<rparr>) S)) = map rc_rrset (rs_work S)"
  "map rc_rrset (rs_work (upd_work w (\<lambda>x. x\<lparr> rc_flags := g x \<rparr>) S)) = map rc_rrset (rs_work S)"
  by (simp_all add: upd_work_def map_update) (metis list_update_beyond list_update_id not_le length_map nth_map)+

abbreviation answers_in :: "results_state \<Rightarrow> as_ref list" where
  "answers_in S \<equiv> map rc_rrset (rs_work S)"

text \<open>The internal results stand for the same answers, and the results of the caller are untouched.\<close>

definition same_answers :: "results_state \<Rightarrow> results_state \<Rightarrow> bool" where
  "same_answers S S' \<longleftrightarrow> answers_in S' = answers_in S \<and> rs_results S' = rs_results S"

lemma same_answers_simps [simp]: "same_answers S S" "same_answers S (S\<lparr> rs_validator := v \<rparr>)"
  "same_answers (S\<lparr> rs_validator := v \<rparr>) S' = same_answers S S'" "same_answers S (S'\<lparr> rs_validator := v \<rparr>) = same_answers S S'"
  by (simp_all add: same_answers_def)

lemma same_answers_trans [trans]: "same_answers S S' \<Longrightarrow> same_answers S' S'' \<Longrightarrow> same_answers S S''"
  by (simp add: same_answers_def)

lemma set_result_rrset [simp]: "map rc_rrset ((rs_work S)[w := (rs_work S ! w)\<lparr> rc_status := st \<rparr>]) = answers_in S"
  using upd_work_rrset(1) [of w st S] by (simp add: upd_work_def)

lemma set_result_same [simp]: "same_answers S (set_result w st S') = same_answers S S'"
  using upd_work_rrset(1) [of w st S'] by (simp add: same_answers_def set_result_def)

lemma set_result_results [simp]: "rs_results (set_result w st S) = rs_results S"
  by (simp add: set_result_def)

lemma settle_pinsecure_rrset: "settle_pinsecure E r w S = Some (t, S') \<Longrightarrow> same_answers S S'"
  by (auto simp: settle_pinsecure_def split: Option.bind_splits)

lemma pinsecure_or_rrset: "pinsecure_or E chase m r w fl st ttl_x S = Some (rc, stop, d, t, S') \<Longrightarrow> same_answers S S'"
  by (auto simp: pinsecure_or_def Let_def split: if_splits Option.bind_splits option.splits dest!: settle_pinsecure_rrset)

lemma judge_negative_rrset: "judge_negative E chase m r w fl ttl_x S = Some (rc, stop, d, t, S') \<Longrightarrow> same_answers S S'"
  by (auto simp: judge_negative_def Let_def split: if_splits Option.bind_splits option.splits dest!: pinsecure_or_rrset)

lemma judge_final_rrset: "judge_final E r w st ttl_x S = Some (t, S') \<Longrightarrow> same_answers S S'"
  by (auto simp: judge_final_def Let_def split: if_splits dest!: settle_pinsecure_rrset)

lemma judge_assertion_rrset: "judge_assertion E chase m r w fl ttl_x S = Some (rc, stop, d, t, S') \<Longrightarrow> same_answers S S'"
  by (auto simp: judge_assertion_def Let_def split: if_splits Option.bind_splits dest!: pinsecure_or_rrset judge_negative_rrset judge_final_rrset)

lemma walk_chain_rrset:
  assumes "walk_chain E chase m w fl next_as d ttl_x S = Some y"
  shows "same_answers S (snd (snd (snd y)))"
proof (rule walk_chain.raw_induct [where P = "\<lambda>E (chase :: chase) (m :: as_ref) w fl next_as d (ttl_x :: u32) (S :: results_state)
    (y :: val_ret \<times> bool \<times> u32 \<times> results_state). same_answers S (snd (snd (snd y)))", OF _ assms])
  fix walk :: "venv \<Rightarrow> chase \<Rightarrow> as_ref \<Rightarrow> nat \<Rightarrow> u32 \<Rightarrow> as_ref option \<Rightarrow> bool \<Rightarrow> u32 \<Rightarrow> results_state \<Rightarrow>
    (val_ret \<times> bool \<times> u32 \<times> results_state) option"
  fix E chase m w fl next_as d ttl_x S and y :: "val_ret \<times> bool \<times> u32 \<times> results_state"
  assume IH: "\<And>E chase m w fl next_as d ttl_x S y. walk E chase m w fl next_as d ttl_x S = Some y \<Longrightarrow> same_answers S (snd (snd (snd y)))"
  assume body: "(case next_as of None \<Rightarrow> Some (VAL_NO_ERROR, d, ttl_x, S)
     | Some r \<Rightarrow> Option.bind (get_as (rs_validator S) r) (\<lambda>as. Option.bind (ac_data as) (\<lambda>s.
         Option.bind (if val_ac_status as \<le> VAL_AC_INIT then try_verify_assertion E (Some r) fl (rs_validator S)
           else Some (VAL_NO_ERROR, rs_validator S)) (\<lambda>(rc, v).
         if rc \<noteq> VAL_NO_ERROR then Some (rc, d, ttl_x, S\<lparr> rs_validator := v \<rparr>)
         else Option.bind (get_ac_trust E (Some r) fl False v) (\<lambda>(as_trust, v).
         if as_trust = Some r then Option.bind (put_status r VAL_AC_DNSKEY_MISSING v) (\<lambda>v.
           Some (VAL_NO_ERROR, d, ttl_x, set_result w VAL_BOGUS (S\<lparr> rs_validator := v \<rparr>)))
         else Option.bind (judge_assertion E chase m r w fl ttl_x (S\<lparr> rs_validator := v \<rparr>)) (\<lambda>(rc, stop, d', ttl_x, S).
         if rc \<noteq> VAL_NO_ERROR \<or> stop then Some (rc, d \<and> d', ttl_x, S)
         else walk E chase m w fl as_trust (d \<and> d') ttl_x S)))))) = Some y"
  show "same_answers S (snd (snd (snd y)))"
  proof (cases next_as)
    case None
    with body show ?thesis by auto
  next
    case (Some r)
    with body obtain as s rc v1 where a: "get_as (rs_validator S) r = Some as" "ac_data as = Some s"
      "(if val_ac_status as \<le> VAL_AC_INIT then try_verify_assertion E (Some r) fl (rs_validator S)
         else Some (VAL_NO_ERROR, rs_validator S)) = Some (rc, v1)"
      by (auto split: Option.bind_splits)
    show ?thesis
    proof (cases "rc = VAL_NO_ERROR")
      case False
      with body Some a show ?thesis by auto
    next
      case rc: True
      with body Some a obtain trust v2 where g: "get_ac_trust E (Some r) fl False v1 = Some (trust, v2)"
        by (auto split: Option.bind_splits)
      show ?thesis
      proof (cases "trust = Some r")
        case True
        with body Some a rc g show ?thesis by (auto split: Option.bind_splits)
      next
        case t: False
        with body Some a rc g obtain rc2 stop d2 ttl2 S2 where
          j: "judge_assertion E chase m r w fl ttl_x (S\<lparr> rs_validator := v2 \<rparr>) = Some (rc2, stop, d2, ttl2, S2)" and
          rest: "(if rc2 \<noteq> VAL_NO_ERROR \<or> stop then Some (rc2, d \<and> d2, ttl2, S2)
            else walk E chase m w fl trust (d \<and> d2) ttl2 S2) = Some y"
          by (auto split: Option.bind_splits)
        from judge_assertion_rrset [OF j] have s2: "same_answers S S2" by simp
        show ?thesis
        proof (cases "rc2 \<noteq> VAL_NO_ERROR \<or> stop")
          case True
          with rest s2 show ?thesis by auto
        next
          case False
          with rest have "walk E chase m w fl trust (d \<and> d2) ttl2 S2 = Some y" by simp
          from IH [OF this] s2 show ?thesis by (blast intro: same_answers_trans)
        qed
      qed
    qed
  qed
qed

lemma try_dlv_rrset: "try_dlv E chase r w fl S = Some (rc, again, d, S') \<Longrightarrow> same_answers S S'"
  by (auto simp: try_dlv_def Let_def same_answers_def upd_work_rrset split: if_splits Option.bind_splits)

lemma validate_at_rrset: "validate_at E chase r ttl_x w S = Some (rc, again, d, ttl', S') \<Longrightarrow> same_answers S S'"
  by (auto simp: validate_at_def Let_def split: Option.bind_splits if_splits dest!: try_dlv_rrset walk_chain_rrset intro: same_answers_trans)

lemma validate_one_rrset:
  assumes "validate_one E chase t r ttl_x S = Some (rc, again, d, ttl', S')"
  shows "set (answers_in S) \<subseteq> set (answers_in S') \<and> r \<in> set (answers_in S') \<and> rs_results S' = rs_results S"
proof -
  let ?known = "List.find (\<lambda>i. rc_rrset (rs_work S ! i) = r) [0..<length (rs_work S)]"
  have known: "r \<in> set (answers_in S)" if "?known = Some w" for w
    using that by (auto simp: find_Some_iff)
  show ?thesis
  proof (cases "case ?known of None \<Rightarrow> False | Some w \<Rightarrow> rc_status (rs_work S ! w) mod 128 \<noteq> VAL_DONT_KNOW")
    case True
    with assms known show ?thesis by (auto simp: validate_one_def Let_def split: option.splits)
  next
    case False
    obtain w S0 where f: "result_for (qfq_flags (qfq_at (rs_validator S) t)) r ?known S = (w, S0)" by fastforce
    with assms False have "validate_at E chase r ttl_x w S0 = Some (rc, again, d, ttl', S')"
      by (simp add: validate_one_def)
    from validate_at_rrset [OF this, unfolded same_answers_def] f known show ?thesis
      by (auto simp: result_for_def split: option.splits)
  qed
qed

lemma validate_from_raw:
  assumes "validate_from E chase t a proof i dn ttl_x S = Some y"
  shows "rs_results (snd (snd y)) = rs_results S \<and> (fst y = VAL_NO_ERROR \<longrightarrow> (\<forall>j<i. (a, proof, j) \<in> set (answers_in S)) \<longrightarrow>
    (\<exists>q. query_at (rs_validator (snd (snd y))) a = Some q \<and>
      (\<forall>j<length (as_list proof q). (a, proof, j) \<in> set (answers_in (snd (snd y))))))"
proof -
  let ?P = "\<lambda>(E :: venv) (chase :: chase) (t :: nat) a proof i (dn :: bool) (ttl_x :: u32) (S :: results_state) (y :: val_ret \<times> bool \<times> results_state).
    rs_results (snd (snd y)) = rs_results S \<and> (fst y = VAL_NO_ERROR \<longrightarrow> (\<forall>j<i. (a, proof, j) \<in> set (answers_in S)) \<longrightarrow>
    (\<exists>q. query_at (rs_validator (snd (snd y))) a = Some q \<and> (\<forall>j<length (as_list proof q). (a, proof, j) \<in> set (answers_in (snd (snd y))))))"
  show "?P E chase t a proof i dn ttl_x S y"
  proof (rule validate_from.raw_induct [where P = ?P, OF _ assms])
    fix f :: "venv \<Rightarrow> chase \<Rightarrow> nat \<Rightarrow> nat \<Rightarrow> bool \<Rightarrow> nat \<Rightarrow> bool \<Rightarrow> u32 \<Rightarrow> results_state \<Rightarrow> (val_ret \<times> bool \<times> results_state) option"
    fix E chase t a pr i dn ttl_x S and y :: "val_ret \<times> bool \<times> results_state"
    assume IH: "\<And>E chase t a pr i dn ttl_x S y. f E chase t a pr i dn ttl_x S = Some y \<Longrightarrow> ?P E chase t a pr i dn ttl_x S y"
    assume body: "Option.bind (query_at (rs_validator S) a) (\<lambda>q.
     if length (as_list pr q) \<le> i then Some (VAL_NO_ERROR, dn, S)
     else Option.bind (validate_one E chase t (a, pr, i) ttl_x S) (\<lambda>(rc, again, d, ttl_x, S).
       if rc \<noteq> VAL_NO_ERROR then Some (rc, dn \<and> d, S)
       else if again then f E chase t a pr 0 True ttl_x S
       else f E chase t a pr (i + 1) (dn \<and> d) ttl_x S)) = Some y"
    from body obtain q where q: "query_at (rs_validator S) a = Some q" by (auto split: Option.bind_splits)
    show "?P E chase t a pr i dn ttl_x S y"
    proof (cases "length (as_list pr q) \<le> i")
      case True
      with body q show ?thesis by auto
    next
      case False
      with body q obtain rc again d t1 S1 where o: "validate_one E chase t (a, pr, i) ttl_x S = Some (rc, again, d, t1, S1)"
        by (auto split: Option.bind_splits)
      note one = validate_one_rrset [OF o]
      have next_i: "\<forall>j<i + 1. (a, pr, j) \<in> set (answers_in S1)" if "\<forall>j<i. (a, pr, j) \<in> set (answers_in S)"
        using one that by (auto simp: less_Suc_eq)
      show ?thesis
      proof (cases "rc = VAL_NO_ERROR")
        case rc: True
        show ?thesis
        proof (cases again)
          case True
          with body q False o rc have "f E chase t a pr 0 True t1 S1 = Some y" by simp
          from IH [OF this] one show ?thesis by simp
        next
          case ag: False
          with body q False o rc have "f E chase t a pr (i + 1) (dn \<and> d) t1 S1 = Some y" by simp
          from IH [OF this] one next_i show ?thesis by auto
        qed
      next
        case rc: False
        with body q False o one show ?thesis by auto
      qed
    qed
  qed
qed

lemma verify_and_validate_covers:
  assumes "verify_and_validate E chase t proof d S = Some (VAL_NO_ERROR, dn, S')"
    and "query_at (rs_validator S) (qfq_query (qfq_at (rs_validator S) t)) = Some q0" "Q_SENT < qc_state q0"
  shows "\<exists>q. query_at (rs_validator S') (qfq_query (qfq_at (rs_validator S) t)) = Some q \<and>
    (\<forall>j<length (as_list proof q). (qfq_query (qfq_at (rs_validator S) t), proof, j) \<in> set (answers_in S'))"
proof -
  have waited: "(qc_state q0 \<le> Q_SENT) = False" using assms(3) by (simp add: not_le)
  have "validate_from E chase t (qfq_query (qfq_at (rs_validator S) t)) proof 0 True 0 S = Some (VAL_NO_ERROR, dn, S')"
    using assms(1,2) by (simp add: verify_and_validate_def Let_def waited)
  from validate_from_raw [OF this] show ?thesis by simp
qed

lemma verify_and_validate_results:
  assumes "verify_and_validate E chase t proof d S = Some (rc, dn, S')"
  shows "rs_results S' = rs_results S"
proof (cases "S' = S")
  case False
  with assms have "validate_from E chase t (qfq_query (qfq_at (rs_validator S) t)) proof 0 True 0 S = Some (rc, dn, S')"
    by (auto simp: verify_and_validate_def Let_def split: Option.bind_splits if_splits)
  from validate_from_raw [OF this] show ?thesis by simp
qed simp

text \<open>So every result that is handed out has its proofs in their places.\<close>

lemma construct_authentication_chain_fit:
  assumes "construct_authentication_chain E chase t S = Some (rc, dn, S')"
  shows "proofs_fit S'"
proof -
  have block: "proofs_fit (S\<lparr> rs_results := [result_block\<lparr> res_status := VAL_DNS_ERROR \<rparr>] \<rparr>)" by (simp add: proofs_fit_def)
  have keep: "proofs_fit S1 \<Longrightarrow> proofs_fit S2" if "verify_and_validate E chase t p d S1 = Some (rc1, d1, S2)" for p d S1 rc1 d1 S2
    using verify_and_validate_results [OF that] by (simp add: proofs_fit_def)
  let ?S = "S\<lparr> rs_results := [] \<rparr>"
  from assms obtain q where q: "query_at (rs_validator S) (qfq_query (qfq_at (rs_validator S) t)) = Some q"
    by (auto simp: construct_authentication_chain_def Let_def split: Option.bind_splits)
  show ?thesis
  proof (cases "Q_ERROR_BASE < qc_state q \<or> qc_state q \<le> Q_SENT")
    case True
    with assms q block show ?thesis
      by (auto simp: construct_authentication_chain_def Let_def switch_or_def split: if_splits Option.bind_splits)
  next
    case False
    with assms q obtain rc1 d1 S1 where v1: "verify_and_validate E chase t False False ?S = Some (rc1, d1, S1)"
      by (auto simp: construct_authentication_chain_def Let_def split: Option.bind_splits)
    from keep [OF v1] have f1: "proofs_fit S1" by simp
    show ?thesis
    proof (cases "rc1 = VAL_NO_ERROR")
      case True
      with assms q False v1 obtain rc2 d2 S2 where v2: "verify_and_validate E chase t True False S1 = Some (rc2, d2, S2)"
        by (auto simp: construct_authentication_chain_def Let_def split: Option.bind_splits)
      from keep [OF v2 f1] have f2: "proofs_fit S2" .
      from assms q False v1 v2 True have "S' = S2 \<or> finish_results E t S2 = Some (rc, dn, S')"
        by (auto simp: construct_authentication_chain_def Let_def split: if_splits)
      with f2 finish_results_fit show ?thesis by blast
    next
      case rc: False
      with assms q False v1 f1 show ?thesis by (auto simp: construct_authentication_chain_def Let_def)
    qed
  qed
qed

lemma chase_with_fit:
  assumes "chase_with E chase n c ty fl d v = Some (rc, d', results, v')" "res \<in> set results"
  shows "length (res_proofs res) = MAX_PROOFS \<and> res_proof_count res \<le> MAX_PROOFS"
proof -
  from assms obtain t S0 S where "construct_authentication_chain E chase t S0 = Some (rc, d', S)" "results = rs_results S"
    unfolding chase_with_def by (fastforce split: Option.bind_splits sum.splits)
  with assms(2) construct_authentication_chain_fit show ?thesis by (auto simp: proofs_fit_def)
qed

subsection \<open>A signature for every verified assertion\<close>

lemma get_put_as: "put_as r as v = Some v' \<Longrightarrow> get_as v' r = Some as"
  by (cases r) (auto simp: put_as_def get_as_def query_at_def store_query_def as_list_def set_as_list_def split: Option.bind_splits if_splits)

lemma get_put_other: "put_as t as v = Some v' \<Longrightarrow> t \<noteq> r \<Longrightarrow> get_as v' r = get_as v r"
  by (cases r; cases t) (auto simp: put_as_def get_as_def query_at_def store_query_def as_list_def set_as_list_def
    split: Option.bind_splits if_splits)

lemma get_as_policies [simp]: "get_as (v\<lparr> va_skew := ctx \<rparr>) r = get_as v r"
  by (cases r) (simp add: get_as_def query_at_def)

lemma as_list_ttl [simp]: "as_list p (q\<lparr> qc_ttl_x := t \<rparr>) = as_list p q"
  by (simp add: as_list_def)

lemma get_lower_ttl: "lower_ttl a t v = Some v' \<Longrightarrow> get_as v' r = get_as v r"
  by (cases r; cases "fst r = a") (auto simp: lower_ttl_def get_as_def query_at_def store_query_def split: Option.bind_splits)

lemma verify_with_status:
  assumes "verify_with E r (Some t) fl v = Some v'" "get_as v r = Some as" "get_as v t = Some trust" "get_as v' r = Some as'"
  shows "\<exists>s trust_s ctx. verify_next_assertion (ve_ssl E) (ve_now E) (va_skew v) fl (t = r) (val_ac_status as) (ac_data as)
    (ac_data trust) = Some (val_ac_status as', s, trust_s, ctx)"
proof -
  from assms(1-3) obtain st s trust_s ctx v1 where n: "verify_next_assertion (ve_ssl E) (ve_now E) (va_skew v) fl (t = r) (val_ac_status as)
      (ac_data as) (ac_data trust) = Some (st, s, trust_s, ctx)"
    and p: "put_as r \<lparr> val_ac_status = st, ac_data = s \<rparr> (v\<lparr> va_skew := ctx \<rparr>) = Some v1"
    by (auto simp: verify_with_def split: Option.bind_splits)
  from assms(1-3) n p obtain v2 where u: "(if t = r then Some v1 else do { u \<leftarrow> get_as v1 t; put_as t (u\<lparr> ac_data := trust_s \<rparr>) v1 }) = Some v2"
    by (auto simp: verify_with_def split: Option.bind_splits)
  have g: "get_as v2 r = Some \<lparr> val_ac_status = st, ac_data = s \<rparr>"
    using u get_put_as [OF p] by (auto split: if_splits Option.bind_splits dest: get_put_other)
  have low: "\<exists>s'. get_as v' r = Some \<lparr> val_ac_status = st, ac_data = s' \<rparr>"
    if "put_as r \<lparr> val_ac_status = st, ac_data = x \<rparr> v2 = Some v3" "lower_ttl a tx v3 = Some v'" for x v3 a tx
    using get_lower_ttl [OF that(2), of r] get_put_as [OF that(1)] by simp
  have "\<exists>s'. get_as v' r = Some \<lparr> val_ac_status = st, ac_data = s' \<rparr>"
    using assms(1-3) n p u g
    by (auto simp: verify_with_def split: Option.bind_splits option.splits if_splits dest: low)
  with assms(4) have "val_ac_status as' = st" by auto
  with n show ?thesis by blast
qed

lemma verify_with_sound:
  assumes "verify_with E r (Some t) fl v = Some v'" "get_as v r = Some as" "get_as v t = Some trust" "get_as v' r = Some as'"
    and "\<not> as_verified (val_ac_status as)" "as_verified (val_ac_status as')"
    and "ac_data as = Some s" "list_all (\<lambda>sig. \<not> sig_verified (rr_status sig)) (rrs_sig s)"
  shows "\<exists>sig \<in> set (rrs_sig s). \<exists>key \<in> set (if rrs_type_h s = ns_t_dnskey \<or> t = r then rrs_data s else rrs_data (the (ac_data trust))).
    authentic (ve_ssl E) (ve_now E) (va_skew v) fl s (rr_rdata sig) (rr_rdata key)"
proof -
  from verify_with_status [OF assms(1-4)] assms(7) obtain s' trust_s ctx where
    "verify_next_assertion (ve_ssl E) (ve_now E) (va_skew v) fl (t = r) (val_ac_status as) (Some s) (ac_data trust) =
      Some (val_ac_status as', s', trust_s, ctx)" by auto
  from verify_next_assertion_sound [OF this assms(5,6,8)] show ?thesis .
qed

end
