(* ===== verification/Samples.thy ===== *)
theory Samples
  imports Waiting Validate
begin

section \<open>Concrete inputs\<close>

text \<open>
  The concrete names, records, keys and signatures at which the properties of the root theory are
  instantiated, and an instance of the parameter \<open>openssl\<close> that accepts every signature.
\<close>

subsection \<open>Names\<close>

abbreviation name_a :: "byte list" where "name_a \<equiv> [1, 0x61, 0]"
abbreviation name_A :: "byte list" where "name_A \<equiv> [1, 0x41, 0]"
abbreviation name_ba :: "byte list" where "name_ba \<equiv> [1, 0x62, 1, 0x61, 0]"

lemma wf_samples [simp]:
  "wf_name []" "wf_name [[0x61]]" "wf_name [[0x41]]" "wf_name [[0x62], [0x61]]" "wf_name [[0x62]]"
  by (simp_all add: wf_name_def wf_label_def)

lemma encodes_samples [simp]:
  "encodes [0] []" "encodes name_a [[0x61]]" "encodes name_A [[0x41]]" "encodes name_ba [[0x62], [0x61]]"
  using encodes_enc(2) [of "[]"] encodes_enc(2) [of "[[0x61]]"] encodes_enc(2) [of "[[0x41]]"]
    encodes_enc(2) [of "[[0x62], [0x61]]"]
  by (simp_all add: wf_name_def wf_label_def)

lemma valid_samples [simp]: "valid_name [0]" "valid_name name_a" "valid_name name_A" "valid_name name_ba"
  unfolding valid_name_def by (rule exI, rule encodes_samples)+

subsection \<open>A signed set\<close>

definition any_ssl :: openssl where
  "any_ssl = \<lparr> evp = (\<lambda>d _. replicate (digest_length d) 0), RSA_verify = (\<lambda>_ _ _ _ _. True),
     DSA_verify = (\<lambda>_ _ _ _ _ _. True), EC_KEY_set = (\<lambda>_ _ _. True), ECDSA_verify = (\<lambda>_ _ _ _ _ _. True),
     BIO_base64 = (\<lambda>_. Some [1, 3, 7]) \<rparr>"

lemma any_ssl_sized [simp]: "digests_sized any_ssl"
  by (simp add: digests_sized_def any_ssl_def)

definition key1 :: "byte list" where
  "key1 = [1, 0, 3, 5, 1, 3, 7]"

definition sig1 :: "byte list" where
  "sig1 = [0, 1, 5, 1, 0, 0, 0, 60, 0, 0, 2, 0, 0, 0, 1, 0] @ put16 (keytag key1) @ name_a @ [9]"

definition set1 :: rrset_rec where
  "set1 = zero_rrset\<lparr> rrs_name_n := name_A, rrs_type_h := 1, rrs_class_h := 1,
     rrs_data := [\<lparr> rr_rdata = [10, 0, 0, 1], rr_status = 0 \<rparr>], rrs_sig := [\<lparr> rr_rdata = sig1, rr_status = 0 \<rparr>] \<rparr>"

definition keyset1 :: rrset_rec where
  "keyset1 = zero_rrset\<lparr> rrs_name_n := name_a, rrs_type_h := ns_t_dnskey, rrs_class_h := 1,
     rrs_data := [\<lparr> rr_rdata = key1, rr_status = 0 \<rparr>] \<rparr>"

definition run1 :: "(u16 \<times> rrset_rec option \<times> rrset_rec option \<times> int e_pol) option" where
  "run1 = verify_next_assertion any_ssl 300 (Entries []) 0 False VAL_AC_UNSET (Some set1) (Some keyset1)"

lemma run1_verified: "map_option fst run1 = Some VAL_AC_VERIFIED"
  by code_simp

lemma run1_eq:
  obtains as' trust' ctx' where
    "verify_next_assertion any_ssl 300 (Entries []) 0 False VAL_AC_UNSET (Some set1) (Some keyset1) =
      Some (VAL_AC_VERIFIED, as', trust', ctx')"
  using run1_verified by (auto simp: run1_def)

lemma run1_fresh: "list_all (\<lambda>sig. \<not> sig_verified (rr_status sig)) (rrs_sig set1)"
  by (simp add: set1_def sig_verified_def)

definition anchor1 :: "trust_anchor_policy policy_entry" where
  "anchor1 = \<lparr> zone_n = name_a, exp_ttl = 0, pol = Some \<lparr>
     publickey = Some \<lparr> flags = 256, protocol = 3, algorithm = 5, public_key = [1, 3, 7], key_tag = keytag key1 \<rparr>,
     ta_ds = None \<rparr> \<rparr>"

definition trusted1 :: "(val_ret + rrset_rr list \<times> u16 \<times> u32 \<times> trust_anchor_policy e_pol) option" where
  "trusted1 = is_trusted_key any_ssl 300 False (Entries [anchor1]) name_A (rrs_data keyset1) 0 0"

lemma trusted1_status:
  "map_option (map_sum id (\<lambda>(k, st, t, ctx). (st, t))) trusted1 = Some (Inr (VAL_AC_TRUST_NOCHK, 0))"
  by code_simp

lemma trusted1_eq:
  obtains keys' ctx' where "is_trusted_key any_ssl 300 False (Entries [anchor1]) name_A (rrs_data keyset1) 0 0 =
    Some (Inr (keys', VAL_AC_TRUST_NOCHK, 0, ctx'))"
proof -
  obtain z where z: "trusted1 = Some z" "map_sum id (\<lambda>(k, st, t, ctx). (st, t)) z = Inr (VAL_AC_TRUST_NOCHK, 0)"
    using map_option_eq_Some [THEN iffD1, OF trusted1_status] by blast
  obtain r where r: "trusted1 = Some (Inr r)" "(\<lambda>(k, st, t, ctx). (st, t)) r = (VAL_AC_TRUST_NOCHK, 0)"
    using z by (cases z) simp_all
  obtain k st t ctx where "r = (k, st, t, ctx)" by (cases r)
  with r that [of k ctx] show ?thesis by (simp add: trusted1_def)
qed

subsection \<open>Denial records\<close>

abbreviation name_b :: "byte list" where "name_b \<equiv> [1, 0x62, 0]"
abbreviation name_c :: "byte list" where "name_c \<equiv> [1, 0x63, 0]"

abbreviation rr_of :: "byte list \<Rightarrow> rrset_rr" where
  "rr_of d \<equiv> \<lparr> rr_rdata = d, rr_status = 0 \<rparr>"

definition nsec_rr :: "label list \<Rightarrow> label list \<Rightarrow> byte list \<Rightarrow> rrset_rec" where
  "nsec_rr own nxt bits = zero_rrset\<lparr> rrs_name_n := enc own, rrs_type_h := ns_t_nsec, rrs_class_h := 1,
     rrs_data := [rr_of (enc nxt @ bits)], rrs_sig := [rr_of (replicate SIGNBY 0 @ [0])] \<rparr>"

lemma nsec_rr_says: "wf_name own \<Longrightarrow> wf_name nxt \<Longrightarrow> nsec_says (nsec_rr own nxt bits) own nxt [] bits"
  by (simp add: nsec_says_def nsec_rr_def encodes_enc(2) [of "[]", simplified])

lemma wf_samples' [simp]: "wf_name [[0x63]]" "wf_name [[0x2a]]" "wf_name [[0x2a], [0x62]]"
  by (simp_all add: wf_name_def wf_label_def)

definition n3_rr :: "byte \<Rightarrow> label list \<Rightarrow> nsec3proof" where
  "n3_rr alg apex = \<lparr> n3_nd = \<lparr> n3_alg = alg, n3_flags = 0, n3_iterations = 1, n3_salt = [], n3_nexthash = [0x7a],
       n3_nexthashlen = 1, n3_bit_field = 0 \<rparr>, n3_hashlen = 1, n3_hash = [0x30],
     n3_set = zero_rrset\<lparr> rrs_type_h := ns_t_nsec3, rrs_class_h := 1, rrs_data := [rr_of [1, 0, 0, 1, 0, 0]],
       rrs_sig := [rr_of (replicate SIGNBY 0 @ enc apex)] \<rparr> \<rparr>"

lemma n3_rr_signer: "signer_of (n3_rr alg apex) = Some (enc apex)"
  by (simp add: signer_of_def n3_rr_def first_rdata_def ptr_def)

lemma n3_rr_proper: "wf_name apex \<Longrightarrow> apex \<noteq> [] \<Longrightarrow> proper_nsec3 (n3_rr 1 apex)"
  by (auto simp: proper_nsec3_def n3_rr_signer n3_rr_def wf_nsec3_def zero_rrset_def signer_of_def first_rdata_def ptr_def)

subsection \<open>Queries and caches\<close>

definition query1 :: val_query_chain where
  "query1 = (new_query_chain name_a 1 1 0)\<lparr> qc_name_n := name_a, qc_state := Q_INIT \<rparr>"

definition cache0 :: query_cache where
  "cache0 = \<lparr> q_list = [], q_heap = \<lambda>_. None \<rparr>"

lemma name_a_facts [simp]: "wire_name_length name_a = Some 3" "name_eq name_a name_a = Some True"
  by code_simp+

lemma add_first:
  "add_to_query_chain now mr 0 cache0 name_a 1 1 0 = Some (Inr (0, \<lparr> q_list = [0], q_heap = [0 \<mapsto> query1] \<rparr>))"
  by (simp add: add_to_query_chain_def cache0_def init_query_chain_node_def new_query_chain_def query1_def seg_def)

lemma add_first_qfq:
  "add_to_qfq_chain C now mr 0 ctx cache0 [] name_a 1 1 0 = Some (Inr (0, [\<lparr> qfq_flags = 0, qfq_query = 0 \<rparr>],
     \<lparr> q_list = [0], q_heap = [0 \<mapsto> query1\<lparr> qc_refcount := 1 \<rparr>] \<rparr>, ctx))"
  using add_first [of now mr] by (simp add: add_to_qfq_chain_def cache0_def query1_def new_query_chain_def)

text \<open>One request with one query.\<close>

definition cache1 :: query_cache where
  "cache1 = \<lparr> q_list = [0], q_heap = [0 \<mapsto> query1\<lparr> qc_refcount := 1 \<rparr>] \<rparr>"

lemma reachable1: "reachable C (cache1, [[\<lparr> qfq_flags = 0, qfq_query = 0 \<rparr>]])"
proof -
  have "reachable C (cache0, [])" unfolding cache0_def by (rule reachable.reach_start)
  then have one: "reachable C (cache0, [[]])" using step.open_request [of C cache0 "[]"] reachable.reach_step by fastforce
  have "step C (cache0, [[]]) (cache1, [[]][0 := [\<lparr> qfq_flags = 0, qfq_query = 0 \<rparr>]])"
  proof (rule step.add_query)
    show "add_to_qfq_chain C 0 None 0 (Entries []) cache0 ([[]] ! 0) name_a 1 1 0 =
      Some (Inr (0, [\<lparr> qfq_flags = 0, qfq_query = 0 \<rparr>], cache1, Entries []))"
      using add_first_qfq [of C 0 None "Entries []"] by (simp add: cache1_def)
  qed (simp_all add: cache0_def)
  with one show ?thesis by (simp add: reachable.reach_step)
qed

definition server1 :: name_server where
  "server1 = \<lparr> ns_name_n = name_b, ns_options = 1, ns_address = [[10, 0, 0, 1]] \<rparr>"

definition ns_set1 :: rrset_rec where
  "ns_set1 = zero_rrset\<lparr> rrs_name_n := name_a, rrs_type_h := ns_t_ns, rrs_class_h := 1, rrs_ttl_x := 1000, rrs_cred := 4,
     rrs_data := [rr_of name_ba] \<rparr>"

definition a_set1 :: rrset_rec where
  "a_set1 = zero_rrset\<lparr> rrs_name_n := name_ba, rrs_type_h := ns_t_a, rrs_class_h := 1, rrs_ttl_x := 1000, rrs_cred := 5,
     rrs_data := [rr_of [10, 0, 0, 1]] \<rparr>"

definition net4 :: net_context where
  "net4 = \<lparr> g_proto = None, have_ipv4 = True, have_ipv6 = False, root_ns = [server1] \<rparr>"

text \<open>An answer with one address record for the query \<open>query1\<close>, from a server that is authoritative.\<close>

definition response1 :: "byte list" where
  "response1 = [0, 0, 0x84, 0, 0, 1, 0, 1, 0, 0, 0, 0] @ name_a @ [0, 1, 0, 1] @
     [0xc0, 12, 0, 1, 0, 1, 0, 0, 0, 60, 0, 4, 10, 0, 0, 1]"

definition asked1 :: query_cache where
  "asked1 = put_query cache1 0 (query1\<lparr> qc_refcount := 1, qc_respondent_server := Some server1 \<rparr>)"

lemma asked1_reachable: "reachable C (asked1, [[\<lparr> qfq_flags = 0, qfq_query = 0 \<rparr>]])"
  unfolding asked1_def by (rule put_query_reachable [OF reachable1, where q = "query1\<lparr> qc_refcount := 1 \<rparr>"]) (simp_all add: cache1_def)

definition no_policies :: policies where
  "no_policies = \<lparr> po_zse = Entries [], po_ta = Entries [], po_nsec3 = Entries [] \<rparr>"

definition digested1 :: "(val_ret \<times> response \<times> world) option" where
  "digested1 = digest_response any_ssl net4 0 (Some 1000) (\<lambda>_. 0) Suc 0 response1
     ([\<lparr> qfq_flags = 0, qfq_query = 0 \<rparr>], asked1, no_policies, free_validator_cache)"

lemma digested1_checked:
  "case digested1 of None \<Rightarrow> False | Some (ret, (answers, proofs, qnames), queries, c, po, vc) \<Rightarrow>
     ret = VAL_NO_ERROR \<and> length answers = 1 \<and> map rrs_name_n (unchecked_answers vc) = [name_a] \<and>
     queries = [\<lparr> qfq_flags = 0, qfq_query = 0 \<rparr>]"
  by code_simp

lemma digested1_eq:
  obtains answers proofs qnames c po vc where "digest_response any_ssl net4 0 (Some 1000) (\<lambda>_. 0) Suc 0 response1
     ([\<lparr> qfq_flags = 0, qfq_query = 0 \<rparr>], asked1, no_policies, free_validator_cache) =
       Some (VAL_NO_ERROR, (answers, proofs, qnames), [\<lparr> qfq_flags = 0, qfq_query = 0 \<rparr>], c, po, vc)"
    "length answers = 1" "map rrs_name_n (unchecked_answers vc) = [name_a]"
  using digested1_checked unfolding digested1_def [symmetric] by (auto split: option.splits)

lemma no_cache_wf: "wf_cache free_validator_cache"
  by (simp add: wf_cache_def free_validator_cache_def wf_store_def)

subsection \<open>A configuration\<close>

declare read_files.simps [code]

definition skew_entry :: "byte list \<Rightarrow> int \<Rightarrow> policy_value policy_entry" where
  "skew_entry z n = \<lparr> zone_n = z, exp_ttl = 0, pol = Some (Clock_skew n) \<rparr>"

text \<open>A context whose program brings a policy of its own and wants no files.\<close>

definition programmed1 :: val_context where
  "programmed1 = \<lparr> ctx_label = None, dyn_polflags = 5, dyn_valpolopt = None,
     dyn_valpol = [\<lparr> po_label = [0x3a], po_label_count = 0, po_plist = [(P_CLOCK_SKEW, [skew_entry name_a 60])] \<rparr>],
     base_dnsval_conf = Some [0x63], dnsval_l = [], e_pol = (\<lambda>_. Entries []), g_opt = None, log_targets = [],
     ctx_queries = \<lparr> q_list = [0], q_heap = [0 \<mapsto> query1] \<rparr> \<rparr>"

lemma programmed1_fresh: "fresh_context programmed1"
  by (simp add: fresh_context_def programmed1_def wf_overrides_def wf_plist_def skew_entry_def wf_entry_def)

definition no_files :: host where
  "no_files = \<lparr> read_file = (\<lambda>_. Not_opened), inline_buf = [0], getenv = (\<lambda>_. None), getprogname = None \<rparr>"

text \<open>One file, with the clock skew of a zone for every program and for one of them.\<close>

definition one_file :: host where
  "one_file = no_files\<lparr> read_file := (\<lambda>name. if name = [0x63] then
     File 7 (bytes '': clock-skew a 60 ;'' @ [0x0a] @ bytes ''m clock-skew a 90 ;'' @ [0x0a]) else Not_opened) \<rparr>"

definition filed1 :: val_context where
  "filed1 = programmed1\<lparr> dyn_polflags := 0, dyn_valpol := [] \<rparr>"

definition skew_in :: "val_context \<Rightarrow> entries" where
  "skew_in ctx = (case e_pol ctx P_CLOCK_SKEW of Entries es \<Rightarrow> es | Dangling \<Rightarrow> [])"

lemma programmed1_read:
  "case read_val_config_file any_ssl False no_files None programmed1 of Some (Some (r, ctx)) \<Rightarrow>
     r = VAL_NO_ERROR \<and> skew_in ctx = [skew_entry name_a 60] \<and>
     (case read_val_config_file any_ssl False no_files None ctx of Some (Some (r, ctx')) \<Rightarrow>
        r = VAL_NO_ERROR \<and> skew_in ctx' = [] | _ \<Rightarrow> False) | _ \<Rightarrow> False"
  by code_simp

lemma filed1_read:
  "case read_config any_ssl False one_file (Some [0x6d]) filed1 of Some (Some (Inr (dlist, cp))) \<Rightarrow>
     dlist = [([0x63], Some 7)] \<and> length (cp_overrides cp) = 2 \<and> all_entries P_CLOCK_SKEW (effective filed1 cp) = [skew_entry name_a 60, skew_entry name_a 90] | _ \<Rightarrow> False"
  by code_simp

lemma filed1_result:
  "case read_val_config_file any_ssl False one_file (Some [0x6d]) filed1 of Some (Some (r, ctx)) \<Rightarrow>
     r = VAL_NO_ERROR \<and> skew_in ctx = [skew_entry name_a 90, skew_entry name_a 60] | _ \<Rightarrow> False"
  by code_simp

definition skew_definition :: policy_definition where
  "skew_definition = \<lparr> pd_keyword = Some (bytes ''clock-skew''), pd_zone = Some (bytes ''a''), pd_value = Some (bytes ''30''), pd_ttl = 5 \<rparr>"

lemma programmed1_added:
  "case val_add_valpolicy any_ssl False 100 skew_definition programmed1 of Some (r, Some (index, ent), ctx) \<Rightarrow>
     r = VAL_NO_ERROR \<and> index = P_CLOCK_SKEW \<and> ent = \<lparr> zone_n = name_a, exp_ttl = 105, pol = Some (Clock_skew 30) \<rparr> \<and> 
     skew_in ctx = [ent] \<and> map_option qc_flags (q_heap (ctx_queries ctx) 0) = Some (qc_flags query1 OR 128) | _ \<Rightarrow> False"
  by code_simp

subsection \<open>Messages\<close>

declare dn_same.simps [code]

text \<open>The bound for offsets is compared as an integer when these are evaluated.\<close>

lemma dn_walk_code [code]:
  "dn_walk domain msg sp = do {
     b \<leftarrow> rd msg sp;
     if b = 0 \<or> b AND NS_CMPRSFLGS \<noteq> 0 \<or> 0x4000 \<le> int sp then Some (Some None)
     else do {
       r \<leftarrow> dn_same domain msg 0 sp;
       case r of None \<Rightarrow> Some None
       | Some e \<Rightarrow> if e then Some (Some (Some sp)) else dn_walk domain msg (sp + unat b + 1)
     }
   }"
proof -
  have "0x4000 \<le> int sp \<longleftrightarrow> 0x4000 \<le> sp" by arith
  then show ?thesis by (subst dn_walk.simps) (simp only:)
qed

lemma save_dnptr_code [code]:
  "save_dnptr cap dstp st = (case (cap, st) of
     (Some lastdnptr, first, ptrs) \<Rightarrow>
       if length ptrs + 2 < lastdnptr \<and> int dstp < 0x4000 \<and> first then (False, ptrs @ [dstp]) else (first, ptrs)
   | (None, st) \<Rightarrow> st)"
proof -
  have "int dstp < 0x4000 \<longleftrightarrow> dstp < 0x4000" by arith
  then show ?thesis by (simp only: save_dnptr_def)
qed

text \<open>The name \<open>a\<close> is at offset 12.\<close>

definition packed1 :: "byte list" where
  "packed1 = replicate 12 0 @ name_a @ replicate 25 0"

lemma packed1_names: "names_at packed1 15 [12]"
proof -
  have r: "rd (take 15 packed1) 12 = Some 1" "labellen (take 15 packed1) 12 = Some 1" "seg (take 15 packed1) 13 1 = Some [0x61]"
    "rd (take 15 packed1) 14 = Some 0"
    by code_simp+
  have "expands (take 15 packed1) 12 [[1, 0x61]]"
    using expands_label [of "take 15 packed1" 12 1 1 "[0x61]" "[]"] r expands_root [of "take 15 packed1" 14] by simp
  then show ?thesis by (auto simp: names_at_def)
qed

lemma packed1_next:
  "\<exists>buf. ns_name_pack (enc [[0x62], [0x41]]) packed1 15 20 (Some [12]) (Some 20) = Some (Some 4, buf, Some [12, 15])"
proof -
  have "case ns_name_pack (enc [[0x62], [0x41]]) packed1 15 20 (Some [12]) (Some 20) of
      Some (n, buf, ps) \<Rightarrow> n = Some 4 \<and> ps = Some [12, 15] | None \<Rightarrow> False"
    by code_simp
  then show ?thesis by (auto split: option.splits)
qed

definition hmac1 :: openssl_hmac where
  "hmac1 = openssl.extend any_ssl \<lparr> HMAC = (\<lambda>d _ _. replicate (digest_length d) 7) \<rparr>"

lemma hmac1_sized: "hmac_sized hmac1"
  by (simp add: hmac_sized_def hmac1_def openssl.extend_def)

lemma hmac1_base64: "BIO_base64 hmac1 = (\<lambda>_. Some [1, 3, 7])"
  by (simp add: hmac1_def openssl.extend_def any_ssl_def)

definition keyless1 :: server where
  "keyless1 = name_server.extend server1 \<lparr> ns_tsig = None, ns_security_options = 0, ns_edns0_size = 4096, ns_retrans = 5, ns_retry = 1 \<rparr>"

lemma keyless1_fields [simp]: "ns_security_options keyless1 = 0" "ns_tsig keyless1 = None"
  by (simp_all add: keyless1_def name_server.extend_def)

lemma keyed1:
  "\<exists>t als. res_set_ns_tsig hmac1 keyless1 (bytes ''K::60:x'') = Some (Some (keyless1\<lparr> ns_tsig := Some t, ns_security_options := 1 \<rparr>)) \<and>
     wf_tsig t [[0x6b]] als MD5"
proof -
  have f: "next_field (bytes ''K::60:x'') = Some ([0x4b], bytes '':60:x'')" "next_field (bytes '':60:x'') = Some ([], bytes ''60:x'')"
    "next_field (bytes ''60:x'') = Some (bytes ''60'', bytes ''x'')"
    by code_simp+
  have n: "text_name [[0x4b]] = [0x4b]" "bytes ''x'' = [0x78]" by code_simp+
  have w: "wf_name [[0x4b]]" by (simp add: wf_name_def wf_label_def)
  have l: "map (map tolower) [[0x4b]] = [[0x6b]]" by code_simp
  have a: "tsig_alg_of [] = Some (TSIG_ALG_HMAC_MD5_STR, 1, 16)" by (simp add: tsig_alg_of_def)
  obtain t als md where t: "tsig_of_fields hmac1 (text_name [[0x4b]]) [] (bytes ''60'') (bytes ''x'') = Some (Some t)"
    "wf_tsig t (map (map tolower) [[0x4b]]) als md"
    by (rule tsig_of_fields_wf [OF w a, of hmac1 "bytes ''x''" "[1, 3, 7]" "bytes ''60''"]) (simp_all add: hmac1_base64 n(2))
  have "ts_alg t = 1"
    using t(1) by (auto simp: tsig_of_fields_def tsig_alg_of_def Let_def split: Option.bind_splits option.splits prod.splits if_splits)
  with t(2) have "md = MD5" by (simp add: wf_tsig_def tsig_md_def)
  with t f n l show ?thesis by (auto simp: res_set_ns_tsig_def)
qed

lemma query_prefix:
  fixes ns :: server
  assumes "take (length (query_bytes le qid ns ls ty cl)) p = with_arcount n (query_bytes le qid ns ls ty cl)"
  shows "take 2 p = host16 le qid"
proof -
  obtain a b where ab: "host16 le qid = [a, b]" by (rule host16_bytes)
  have "take 2 (take (length (query_bytes le qid ns ls ty cl)) p) = take 2 (with_arcount n (query_bytes le qid ns ls ty cl))"
    using assms by simp
  moreover have "take 2 (with_arcount n (query_bytes le qid ns ls ty cl)) = host16 le qid"
    using ab by (simp add: with_arcount_def query_bytes_def query_header_def)
  moreover have "2 \<le> length (query_bytes le qid ns ls ty cl)" by (simp add: query_split)
  ultimately show ?thesis by (simp add: min_absorb1)
qed

lemma undecodable1:
  "\<exists>t. tsig_of_fields (hmac1\<lparr> BIO_base64 := (\<lambda>_. None) \<rparr>) (bytes ''k'') [] [] (bytes ''!'') = Some (Some t)"
proof -
  have "case tsig_of_fields (hmac1\<lparr> BIO_base64 := (\<lambda>_. None) \<rparr>) (bytes ''k'') [] [] (bytes ''!'') of Some (Some _) \<Rightarrow> True | _ \<Rightarrow> False"
    by code_simp
  then show ?thesis by (auto split: option.splits)
qed

text \<open>A server that is asked once, and a stream that ends within a message.\<close>

definition env1 :: environment where
  "env1 = \<lparr> ev_ssl = hmac1, ev_le = True, ev_stack = replicate payload_limit 0, ev_rlimit = 1024, ev_clock = (\<lambda>k. (int k, 0)),
     ev_random = (\<lambda>_. 7), ev_sent = (\<lambda>_. Sent 5), ev_recv = (\<lambda>k. if k = 0 then Recv True [0, 1] else Recv True [9]),
     ev_ready = (\<lambda>_. Some [5]) \<rparr>"

definition once1 :: server where
  "once1 = keyless1\<lparr> ns_retry := 0, ns_edns0_size := 0 \<rparr>"

definition io_start :: io where
  "io_start = manager_io empty_manager"

definition payload1 :: "byte list" where
  "payload1 = query_bytes True 7 once1 [[0x61]] 1 1"

definition awaited1 :: arrival where
  "awaited1 = \<lparr> ea_socket = None, ea_name = text_name [[0x61]] @ [0], ea_type_h = 1, ea_class_h = 1, ea_ns = once1, ea_which_address = 0,
     ea_using_stream = False, ea_signed = payload1, ea_response = None, ea_response_length = 0, ea_remaining_attempts = 1,
     ea_next_try = (1, 0), ea_cancel_time = (6, 0) \<rparr>"

definition clock1 :: "nat \<Rightarrow> timeval" where
  "clock1 k = (if k = 0 then (5, 0) else (100, 0))"

lemma env1_fields [simp]: "ev_stack env1 = replicate payload_limit 0" "ev_le env1" "ev_random env1 k = 7" "ev_clock env1 k = (int k, 0)"
  by (simp_all add: env1_def)

lemma once1_fields [simp]: "ns_security_options once1 = 0" "ns_tsig once1 = None" "ns_retry once1 = 0" "ns_retrans once1 = 5"
  "ns_name_n once1 = name_b" "ns_address once1 = [[10, 0, 0, 1]]"
  by (simp_all add: once1_def keyless1_def name_server.extend_def server1_def)

lemma created1: "res_async_query_create env1 (text_name [[0x61]] @ [0]) 1 1 [once1] io_start = Some ([awaited1], io_start\<lparr> io_draws := 1, io_ticks := 2 \<rparr>)"
proof -
  have c: "clone_server once1 = Some once1" by code_simp
  have "wf_name [[0x61]]" by (simp add: wf_name_def wf_label_def)
  from payload_plain [OF this, of "replicate payload_limit 0" once1 "ev_ssl env1" True 7 0 1 1]
  have p: "payload_for env1 once1 (text_name [[0x61]] @ [0]) 1 1 io_start = Some (Some payload1, io_start\<lparr> io_draws := 1, io_ticks := 1 \<rparr>)"
    by (simp add: payload_for_def payload1_def io_start_def empty_manager_def)
  have i: "res_ea_init env1 (text_name [[0x61]] @ [0]) 1 1 payload1 once1 0 (io_start\<lparr> io_draws := 1, io_ticks := 1 \<rparr>) =
      (awaited1, io_start\<lparr> io_draws := 1, io_ticks := 2 \<rparr>)"
    by (simp add: res_ea_init_def set_alarms_def gettimeofday_def res_get_timeout_def awaited1_def io_start_def)
  show ?thesis using c p i by (simp add: res_async_query_create_def)
qed

lemma askable1: "askable env1 once1"
  by (simp add: askable_def server_ready_def)

lemma awaited1_runs:
  "timely env1 clock1 0 [awaited1] (io_start\<lparr> io_draws := 1, io_ticks := 2 \<rparr>)" "timely env1 clock1 1 [awaited1] (io_start\<lparr> io_draws := 1, io_ticks := 2 \<rparr>)"
  "ended env1 clock1 2 [awaited1] (io_start\<lparr> io_draws := 1, io_ticks := 2 \<rparr>)"
  by code_simp+

definition manager1 :: manager where
  "manager1 = \<lparr> transactions = (\<lambda>_. [])(0 := [awaited1]), next_transaction = 1, manager_io = io_start\<lparr> io_draws := 1, io_ticks := 2 \<rparr> \<rparr>"

lemma queued1: "query_queue env1 (text_name [[0x61]] @ [0]) 1 1 [once1] empty_manager = Some (True, 0, manager1)"
proof -
  have "free_transaction (empty_manager\<lparr> manager_io := io_start\<lparr> io_draws := 1, io_ticks := 2 \<rparr> \<rparr>) = Some 0"
    by (simp add: free_transaction_def empty_manager_def MAX_TRANSACTIONS_def upt_rec [of 0])
  then show ?thesis using created1
    by (simp add: query_queue_def res_io_queue_ea_def manager1_def io_start_def [symmetric] MAX_TRANSACTIONS_def)
      (simp add: empty_manager_def fun_upd_def)
qed

lemma checked1: "map_option (\<lambda>(b, ev, m). (b, io_open (manager_io m))) (res_io_check env1 0 manager1) = Some (True, 1)"
  by code_simp

definition env2 :: environment where
  "env2 = env1\<lparr> ev_recv := (\<lambda>k. if k = 0 then Recv True [0, 19] else Recv True payload1) \<rparr>"

lemma answered1: "map_option (\<lambda>(ea, io). ea_response ea) (read_arrival env2 (awaited1\<lparr> ea_using_stream := True, ea_socket := Some 5 \<rparr>) io_start) = Some (Some payload1)"
  by code_simp

lemma payload1_split: "payload1 = [7, 0, 0, 0, 0, 1, 0, 0, 0, 0, 0, 0] @ enc [[0x61]] @ [0, 1, 0, 1]"
  by code_simp

lemma short1: "complete_read env1 2 [] io_start = ([0, 1], io_start\<lparr> io_recvs := 1 \<rparr>)" "complete_read env1 1 [] (io_start\<lparr> io_recvs := 1 \<rparr>) = ([9], io_start\<lparr> io_recvs := 2 \<rparr>)"
  by code_simp+

subsection \<open>A chain of trust\<close>

declare cpe_search.simps [code] transform_chain.simps [code] alias_loop.simps [code]



definition venv1 :: venv where
  "venv1 = \<lparr> ve_ssl = any_ssl, ve_now = 300, ve_max_refresh = None, ve_closest_ta_only = False, ve_fresh = (\<lambda>_. 7), ve_unset = 0,
     ve_rec_fallback = False, ve_root_ns = False \<rparr>"

definition answered_query :: "byte list \<Rightarrow> u16 \<Rightarrow> u16 \<Rightarrow> rrset_rec \<Rightarrow> val_query_chain" where
  "answered_query n t st s = (new_query_chain n t 1 0)\<lparr> qc_name_n := n, qc_state := Q_ANSWERED, qc_ttl_x := 1000, qc_refcount := 1,
     qc_ans := [\<lparr> val_ac_status = st, ac_data = Some s \<rparr>] \<rparr>"

text \<open>A key that signs the zone, and the trusted key that signs the set of both; neither signature has been looked at.\<close>

definition key2 :: "byte list" where
  "key2 = [1, 0, 3, 5, 1, 3, 9]"

definition sample_sig :: "byte list \<Rightarrow> byte list \<Rightarrow> rrset_rr" where
  "sample_sig type_n key = rr_of (type_n @ [5, 1, 0, 0, 0, 60, 0, 0, 2, 0, 0, 0, 1, 0] @ put16 (keytag key) @ name_a @ [9])"

definition keyset2 :: rrset_rec where
  "keyset2 = keyset1\<lparr> rrs_ans_kind := SR_ANS_STRAIGHT, rrs_ttl_x := 1000,
     rrs_data := [rr_of key2, \<lparr> rr_rdata = key1, rr_status = VAL_AC_TRUST_POINT \<rparr>], rrs_sig := [sample_sig [0, 48] key1] \<rparr>"

definition set2 :: rrset_rec where
  "set2 = set1\<lparr> rrs_zonecut_n := name_a, rrs_ans_kind := SR_ANS_STRAIGHT, rrs_ttl_x := 1000, rrs_sig := [sample_sig [0, 1] key2] \<rparr>"

definition chain1 :: validator where
  "chain1 = \<lparr> va_cache = \<lparr> q_list = [0, 1], q_heap = [0 \<mapsto> answered_query name_A 1 VAL_AC_WAIT_FOR_TRUST set2,
       1 \<mapsto> answered_query name_a ns_t_dnskey VAL_AC_TRUST_NOCHK keyset2] \<rparr>,
     va_queries = [\<lparr> qfq_flags = 0, qfq_query = 1 \<rparr>, \<lparr> qfq_flags = 0, qfq_query = 0 \<rparr>],
     va_skew = Entries [], va_zse = Entries [], va_ta = Entries [anchor1], va_dlv = Entries [], va_nsec3 = Entries [], va_pu = Entries [] \<rparr>"

definition work1 :: results_state where
  "work1 = \<lparr> rs_work = [\<lparr> rc_status = VAL_DONT_KNOW, rc_is_proof = False, rc_consumed = False, rc_flags = 0, rc_rrset = (0, False, 0) \<rparr>],
     rs_results = [], rs_validator = chain1 \<rparr>"


text \<open>A name below the trusted zone whose DS set is denied by an NSEC record of that zone.\<close>

definition denial2 :: rrset_rec where
  "denial2 = (nsec_rr [[0x62], [0x61]] [[0x63], [0x61]] [0, 1, 0x60])\<lparr> rrs_sig := [sample_sig [0, 47] key2], rrs_zonecut_n := name_a,
     rrs_ttl_x := 1000 \<rparr>"

definition denied_query :: val_query_chain where
  "denied_query = (new_query_chain name_ba ns_t_ds 1 0x02000001)\<lparr> qc_name_n := name_ba, qc_state := Q_ANSWERED, qc_ttl_x := 1000, qc_refcount := 1,
     qc_flags := 0x02000001, qc_proof := [\<lparr> val_ac_status = VAL_AC_VERIFIED, ac_data = Some denial2 \<rparr>] \<rparr>"

definition unsigned2 :: rrset_rec where
  "unsigned2 = set2\<lparr> rrs_name_n := name_ba, rrs_sig := [], rrs_zonecut_n := [] \<rparr>"

definition insecure1 :: validator where
  "insecure1 = chain1\<lparr> va_cache := \<lparr> q_list = [0, 1, 2], q_heap = [0 \<mapsto> answered_query name_ba 1 VAL_AC_RRSIG_MISSING unsigned2,
       1 \<mapsto> answered_query name_a ns_t_dnskey VAL_AC_TRUST keyset2, 2 \<mapsto> denied_query] \<rparr>,
     va_queries := [\<lparr> qfq_flags = 0x02000001, qfq_query = 2 \<rparr>, \<lparr> qfq_flags = 0x02000001, qfq_query = 1 \<rparr>, \<lparr> qfq_flags = 0, qfq_query = 0 \<rparr>] \<rparr>"

abbreviation chase1 :: chase where "chase1 \<equiv> try_chase_query venv1 1"

lemma walked1:
  "case walk_chain venv1 chase1 (0, False, 0) 0 0 (Some (0, False, 0)) True 0 work1 of None \<Rightarrow> False
   | Some (rc, d, t, S) \<Rightarrow> rc = VAL_NO_ERROR \<and> d \<and> map rc_status (rs_work S) = [VAL_SUCCESS]"
  by code_simp

lemma validated1:
  "case verify_and_validate venv1 chase1 0 False False (work1\<lparr> rs_work := [] \<rparr>) of None \<Rightarrow> False
   | Some (rc, d, S) \<Rightarrow> rc = VAL_NO_ERROR \<and> d \<and> map rc_status (rs_work S) = [VAL_SUCCESS] \<and>
       map_option (\<lambda>q. length (qc_ans q)) (query_at (rs_validator S) 0) = Some 1"
  by code_simp

lemma constructed1:
  "case construct_authentication_chain venv1 chase1 0 work1 of None \<Rightarrow> False
   | Some (rc, d, S) \<Rightarrow> rc = VAL_NO_ERROR \<and> d \<and> map res_status (rs_results S) = [VAL_SUCCESS]"
  by code_simp

lemma verified1:
  "case verify_with venv1 (0, False, 0) (Some (1, False, 0)) 0 chain1 of None \<Rightarrow> False
   | Some v \<Rightarrow> map_option val_ac_status (get_as v (0, False, 0)) = Some VAL_AC_VERIFIED"
  by code_simp

lemma insecure1_shown:
  "case verify_provably_insecure venv1 (try_chase_query venv1 2) (0, False, 0) 0 0 insecure1 of None \<Rightarrow> False
   | Some (rc, d, pin, t, v) \<Rightarrow> rc = VAL_NO_ERROR \<and> d \<and> pin"
  by code_simp

lemma denied1_chased:
  "case try_chase_query venv1 2 name_ba 1 ns_t_ds 0x02000001 True insecure1 of None \<Rightarrow> False
   | Some (rc, d, rs, v) \<Rightarrow> rc = VAL_NO_ERROR \<and> d \<and> map res_status rs = [VAL_NONEXISTENT_TYPE] \<and> map res_proof_count rs = [1]"
  by code_simp

definition denial_work :: results_state where
  "denial_work = \<lparr> rs_work = [\<lparr> rc_status = VAL_SUCCESS, rc_is_proof = True, rc_consumed = False, rc_flags = VAL_QUERY_AC_DETAIL,
     rc_rrset = (2, True, 0) \<rparr>], rs_results = [], rs_validator = insecure1 \<rparr>"

lemma denial_work_shown:
  "case nsec_proof_chk venv1 None name_a name_ba ns_t_ds None denial_work of None \<Rightarrow> False
   | Some (st, p, S) \<Rightarrow> st = VAL_NONEXISTENT_TYPE \<and> p = Some 0"
  by code_simp

text \<open>An answer that was expanded from a wildcard, asked for without the details of its chain.\<close>

definition wild1 :: results_state where
  "wild1 = work1\<lparr> rs_work := map (\<lambda>w. w\<lparr> rc_status := VAL_SUCCESS \<rparr>) (rs_work work1),
     rs_validator := chain1\<lparr> va_cache := (va_cache chain1)\<lparr> q_heap := (q_heap (va_cache chain1))
       (0 \<mapsto> answered_query name_A 1 VAL_AC_WCARD_VERIFIED set2) \<rparr> \<rparr> \<rparr>"

lemma wild1_checked:
  "case check_one_wildcard venv1 0 0 wild1 of None \<Rightarrow> False | Some (rc, S) \<Rightarrow> rc = VAL_NO_ERROR \<and> map res_status (rs_results S) = [VAL_BOGUS]"
  by code_simp

text \<open>A response of proofs only, one of which could not be validated.\<close>

definition untrusted1 :: results_state where
  "untrusted1 = denial_work\<lparr> rs_work := map (\<lambda>w. w\<lparr> rc_status := VAL_BOGUS \<rparr>) (rs_work denial_work) \<rparr>"

lemma untrusted1_finished:
  "case finish_results venv1 0 untrusted1 of None \<Rightarrow> False | Some (rc, d, S) \<Rightarrow> rc = VAL_NO_ERROR \<and> d"
  by code_simp

lemma denial2_says: "nsec_says denial2 [[0x62], [0x61]] [[0x63], [0x61]] [[0x61]] [0, 1, 0x60]"
proof -
  have "encodes (name_a @ [9]) [[0x61]]" using encodes_enc(1) [of "[[0x61]]" "[9]"] by (simp add: wf_name_def wf_label_def)
  moreover have "drop SIGNBY (rr_rdata (sample_sig [0, 47] key2)) = name_a @ [9]" by (simp add: sample_sig_def)
  moreover have "encodes (enc [[0x62], [0x61]]) [[0x62], [0x61]]" by (rule encodes_enc) (simp add: wf_name_def wf_label_def)
  moreover have "wf_name [[0x63], [0x61]]" by (simp add: wf_name_def wf_label_def)
  ultimately show ?thesis by (simp add: nsec_says_def denial2_def nsec_rr_def)
qed

text \<open>What the denial records say.\<close>

lemma star_not_next: "nsec_says n own [[0x63], [0x61]] apex bits \<Longrightarrow> \<not> nsec_next n (star # cs)"
  "nsec_says n own [[0x63]] apex bits \<Longrightarrow> \<not> nsec_next n (star # cs)"
  by (simp_all add: nsec_next_says cname_eq_iff tolower_def)

lemma nsec_rr_rfc: "wf_name own \<Longrightarrow> wf_name nxt \<Longrightarrow> rfc_nsec (nsec_rr own nxt [])"
  using nsec_rr_says [of own nxt "[]"] unfolding rfc_nsec_def
  by (intro exI [of _ own] exI [of _ nxt] exI [of _ "[]"]) (auto simp: wf_windows_def)

lemma denial2_rfc: "rfc_nsec denial2"
  using denial2_says unfolding rfc_nsec_def
  by (rule_tac exI, rule_tac exI, rule_tac exI, rule_tac exI [of _ "[(0, [0x60])]"]) (auto simp: wf_windows_def)

lemma denial2_no_next: "no_next [denial2] [[0x62], [0x61]]"
  using nsec_next_says [OF denial2_says, of "[[0x62], [0x61]]"] star_not_next(1) [OF denial2_says]
  by (simp add: no_next_def cname_eq_iff tolower_def)

lemma denial2_only: "trusted_record denial_work name_a ns_t_nsec s \<Longrightarrow> s = denial2"
  by (auto simp: trusted_record_def trusted_proof_def denial_work_def get_as_def query_at_def insecure1_def denied_query_def as_list_def)

lemma denial2_own: "nsec_says denial2 own nxt apex bits \<Longrightarrow> own = [[0x62], [0x61]]"
proof -
  assume s: "nsec_says denial2 own nxt apex bits"
  have n: "rrs_name_n denial2 = enc [[0x62], [0x61]]" by (simp add: denial2_def nsec_rr_def)
  from s n obtain t where "enc [[0x62], [0x61]] @ [] = enc own @ t" "wf_name own"
    by (auto simp: nsec_says_def elim!: encodesE)
  with enc_eq_append [OF _ _ this(1)] wf_name_labels show ?thesis by (simp add: wf_name_def wf_label_def)
qed

text \<open>An NSEC3 record at the hash of zeros with the bitmap of one type, and a hash that maps the names of three octets there.\<close>

definition n3_full :: nsec3proof where
  "n3_full = \<lparr> n3_nd = \<lparr> n3_alg = 1, n3_flags = 0, n3_iterations = 0, n3_salt = [], n3_nexthash = replicate 32 0x76,
       n3_nexthashlen = 32, n3_bit_field = 26 \<rparr>, n3_hashlen = 32, n3_hash = replicate 32 0x30,
     n3_set = zero_rrset\<lparr> rrs_type_h := ns_t_nsec3, rrs_class_h := 1,
       rrs_data := [rr_of ([1, 0, 0, 0, 0, 20] @ replicate 20 0xff @ [0, 1, 0x40])],
       rrs_sig := [rr_of (replicate SIGNBY 0 @ name_a)] \<rparr> \<rparr>"

definition length_ssl :: openssl where
  "length_ssl = any_ssl\<lparr> evp := (\<lambda>d b. replicate (digest_length d) (if length b = 3 then 0 else 0x84)) \<rparr>"

lemma length_ssl_sized: "digests_sized length_ssl"
  by (simp add: digests_sized_def length_ssl_def any_ssl_def)

lemma n3_full_rfc: "rfc_nsec3 n3_full"
  unfolding rfc_nsec3_def
  by (intro conjI exI [of _ "[(0, [0x40])]"]) (simp_all add: n3_full_def wf_nsec3_def n3_bits_def first_rdata_def wf_windows_def)

lemma n3_full_found:
  "prove_nsec3_span any_ssl 0 (Entries []) [n3_full] (enc [[0x62], [0x61]] @ []) 28 0 None =
    Some (\<lparr> sp_ncn = Some 0, sp_cpe = Some 0, sp_wcp = Some 0, sp_notype = True, sp_optout = False \<rparr>, 0, Entries [])"
  by code_simp

lemma n3_full_spans:
  "prove_nsec3_span length_ssl 0 (Entries []) [n3_full] (enc [[0x62], [0x61]] @ []) 28 0 None =
    Some (\<lparr> sp_ncn = Some 0, sp_cpe = Some 0, sp_wcp = Some 0, sp_notype = False, sp_optout = False \<rparr>, 0, Entries [])"
  by code_simp

lemma n3_full_not_covers: "\<not> n3_covers any_ssl n3_full xs"
proof -
  have "base32 (replicate (digest_length SHA1) 0) = replicate 32 0x30" by code_simp
  then have "low (hashed any_ssl n3_full xs) = low (n3_owner n3_full)"
    by (simp add: hashed_def any_ssl_def n3_full_def n3_owner_def)
  moreover have "low (n3_owner n3_full) < low (n3_nexthash (n3_nd n3_full))" by code_simp
  ultimately show ?thesis by (simp add: n3_covers_def in_gap_def)
qed

lemma denial_chain: "transform_chain venv1 (Some (2, True, 0)) VAL_QUERY_AC_DETAIL [] insecure1 \<noteq> None"
  by code_simp

text \<open>
  The same query sent to the servers of its own zone, \<open>a\<close>: a response that answers it; one with an alias to the foreign name \<open>c\<close>, which
  clears the zone cut, so that the address of \<open>c\<close> is stored; and one that refers to the foreign zone \<open>c\<close>, which becomes the zone
  cut, so that a DS set for \<open>c\<close> is stored.
\<close>

definition asked2 :: query_cache where
  "asked2 = put_query cache1 0 (query1\<lparr> qc_refcount := 1, qc_zonecut_n := name_a, qc_respondent_server := Some server1 \<rparr>)"

definition digested_in_zone :: "byte list \<Rightarrow> (val_ret \<times> response \<times> world) option" where
  "digested_in_zone bs = digest_response any_ssl net4 0 (Some 1000) (\<lambda>_. 0) Suc 0 bs
     ([\<lparr> qfq_flags = 0, qfq_query = 0 \<rparr>], asked2, no_policies, free_validator_cache)"

lemma digested2_checked:
  "case digested_in_zone response1 of None \<Rightarrow> False | Some (ret, (answers, proofs, qnames), queries, c, po, vc) \<Rightarrow>
     ret = VAL_NO_ERROR \<and> qnames \<noteq> [] \<and> map rrs_name_n (unchecked_answers vc) = [name_a] \<and>
     map_option qc_zonecut_n (q_heap c 0) = Some name_a"
  by code_simp

definition response_alias :: "byte list" where
  "response_alias = [0, 0, 0x84, 0, 0, 1, 0, 2, 0, 0, 0, 0] @ name_a @ [0, 1, 0, 1] @
     [0xc0, 12, 0, 5, 0, 1, 0, 0, 0, 60, 0, 3] @ name_c @ [1, 0x63, 0, 0, 1, 0, 1, 0, 0, 0, 60, 0, 4, 10, 0, 0, 1]"

lemma alias_leaves_the_zone:
  "case digested_in_zone response_alias of None \<Rightarrow> False | Some (ret, (answers, proofs, qnames), queries, c, po, vc) \<Rightarrow>
     ret = VAL_NO_ERROR \<and> name_c \<in> rrs_name_n ` set (unchecked_answers vc) \<and>
     map_option qc_zonecut_n (q_heap c 0) = Some []"
  by code_simp

definition response_referral :: "byte list" where
  "response_referral = [0, 0, 0x80, 0, 0, 1, 0, 0, 0, 2, 0, 1] @ name_a @ [0, 1, 0, 1] @
     name_c @ [0, 2, 0, 1, 0, 0, 0, 60, 0, 5, 1, 0x62, 1, 0x63, 0] @
     name_c @ [0, 43, 0, 1, 0, 0, 0, 60, 0, 24, 0, 1, 5, 1] @ replicate 20 7 @
     [1, 0x62, 1, 0x63, 0, 0, 1, 0, 1, 0, 0, 0, 60, 0, 4, 10, 0, 0, 1]"

lemma referral_leaves_the_zone:
  "case digested_in_zone response_referral of None \<Rightarrow> False | Some (ret, (answers, proofs, qnames), queries, c, po, vc) \<Rightarrow>
     ret = VAL_NO_ERROR \<and> qnames = [] \<and> (name_c, 43) \<in> (\<lambda>r. (rrs_name_n r, rrs_type_h r)) ` set (unchecked_answers vc) \<and>
     map_option qc_zonecut_n (q_heap c 0) = Some name_c"
  by code_simp

end
