(* ===== verification/Spec2Isabelle.thy ===== *)
theory Spec2Isabelle
  imports Samples
begin

text \<open>
  This is a verification development for the validator of DNSSEC-Tools: the C libraries \<^verbatim>\<open>libsres\<close> (a resolver) and
  \<^verbatim>\<open>libval\<close> (DNSSEC validation) under \<^verbatim>\<open>src/dnssec-tools/validator/\<close>. File names below are relative to that
  directory. The other programs of the repository (patches to applications, the Qt tools, the Perl modules) are not
  modelled.

  The program. A request is a chain of queries. A query is answered from the caches (\<^verbatim>\<open>libval/val_cache.c\<close>) or by
  name servers, whose responses are taken apart (\<^verbatim>\<open>libval/val_support.c\<close>, \<^verbatim>\<open>libsres/ns_name.c\<close>), followed along
  referrals and aliases (\<^verbatim>\<open>libval/val_resquery.c\<close>) and kept as record sets. The sets of an answer are authenticated:
  signatures are checked with the keys of the zone (\<^verbatim>\<open>libval/val_verify.c\<close>, \<^verbatim>\<open>libval/val_crypto.c\<close>), keys with DS
  records or trust anchors, the configured policies (\<^verbatim>\<open>libval/val_policy.h\<close>, \<^verbatim>\<open>libval/val_assertion.c\<close>) say where
  trust begins, and the absence of a name or a type is proved from NSEC and NSEC3 records
  (\<^verbatim>\<open>libval/val_assertion.c\<close>).

  The theories, each on the ones before it:

  \<^item> \<^verbatim>\<open>Prelude\<close>: byte buffers and the conventions of C.
  \<^item> \<^verbatim>\<open>Names\<close>: wire-format names (\<open>wire_name_length\<close>, \<open>namecmp\<close>, \<open>namename\<close>, \<open>is_tail\<close>, \<open>lower_name\<close>); names as lists of
    labels, and the canonical order as an instance of \<open>linorder\<close>.
  \<^item> \<^verbatim>\<open>NsName\<close>: compression and text form of names, \<^verbatim>\<open>libsres/ns_name.c\<close>.
  \<^item> \<^verbatim>\<open>Message\<close>: records in a message (\<open>extract_from_rr\<close>, \<open>decompress\<close>, \<open>lower\<close>, \<open>val_create_rr_otw\<close>).
  \<^item> \<^verbatim>\<open>RRset\<close>: record sets, their canonical copies and their merging, chains of names and queries. Its locale \<open>keyed\<close> is the
    contract of a comparison that decides equality of keys, interpreted for names and for sets; \<open>insertion\<close> that of
    an insertion into a sorted list, interpreted for \<open>link_rr\<close>.
  \<^item> \<^verbatim>\<open>Crypto\<close>: keys, signatures and digests; \<^verbatim>\<open>Parse\<close>: record data and the strings of the configuration.
  \<^item> \<^verbatim>\<open>Policy\<close>: the look-up of clock skew, zone security expectation, trust point and DLV trust point.
  \<^item> \<^verbatim>\<open>Verify\<close>: the signed data, the verification of a set against keys, trust anchors.
  \<^item> \<^verbatim>\<open>Nsec\<close>: type bitmaps, the kind of an answer, the proofs of non-existence by NSEC and NSEC3 records.
  \<^item> \<^verbatim>\<open>Query\<close>: the query cache of a context, the chains of the requests, and their state machine (\<open>step\<close>, \<open>reachable\<close>).
  \<^item> \<^verbatim>\<open>Referral\<close>: alias chains, name servers with glue, referrals. \<^verbatim>\<open>Cache\<close>: the answer and hints caches.
  \<^item> \<^verbatim>\<open>Response\<close>: \<open>digest_response\<close>, what the library does with the bytes a name server sent.
  \<^item> \<^verbatim>\<open>Config\<close>: the language of the configuration: tokens, policies, global options, fragments and their precedence.
    \<^verbatim>\<open>ConfRead\<close>: reading \<^verbatim>\<open>dnsval.conf\<close> with what it includes into a context, and adding and removing policies at run
    time (\<open>config_step\<close> is the step relation of a context's policies).
  \<^item> \<^verbatim>\<open>Pack\<close>: names written into a message with pointers to earlier ones. \<^verbatim>\<open>Mkquery\<close>: the queries of \<^verbatim>\<open>libsres/res_mkquery.c\<close>,
    their signature by a shared key (\<^verbatim>\<open>libsres/res_tsig.c\<close>), the checks on the header of a response.
  \<^item> \<^verbatim>\<open>Transport\<close>: sending queries to several servers and waiting for the answers, \<^verbatim>\<open>libsres/res_io_manager.c\<close>; what the
    kernel answers is the parameter \<open>environment\<close>, and \<open>manager_step\<close> is the step relation of the table of transactions.
    \<^verbatim>\<open>Waiting\<close>: why waiting ends, what a message that is kept has in common with its query, and when nothing is sent.
  \<^item> \<^verbatim>\<open>Chains\<close>: assertions from the answers of a query, what they wait for, what vouches for them, their verification
    (\<open>assimilate_answers\<close>, \<open>build_pending_query\<close>, \<open>get_ac_trust\<close>, \<open>try_verify_assertion\<close>) over the state \<open>validator\<close>, which
    holds the queries, the request and the policies. \<^verbatim>\<open>Sanity\<close>: the results of a request: proofs of non-existence, wildcards
    and aliases (\<open>prove_nonexistence\<close>, \<open>perform_sanity_checks\<close>). \<^verbatim>\<open>Validate\<close>: the walk along a chain of trust, the provably
    insecure test, look-aside validation, \<open>construct_authentication_chain\<close> and \<open>try_chase_query\<close>, and what their verdicts rest
    on (\<open>vouched\<close>, \<open>shown_below\<close>).
  \<^item> \<^verbatim>\<open>Samples\<close>: concrete inputs for the witnesses.

  How code becomes definitions. A C function is a definition of the same name; a loop is a recursive function next to
  it. A pointer into a buffer is the rest of the buffer or an offset, the null pointer the empty list, a linked list a
  list, a structure a record; objects shared through pointers (queries) live in a map from addresses. Machine integers
  are words; a count that the code cannot bring near its limits is a \<open>nat\<close> or an \<open>int\<close>. Return codes are values of
  \<open>val_ret\<close>; a function that answers a code or a value has a sum type. The outer \<open>option\<close> is the memory monad: \<open>None\<close> says
  that the run leaves an object it may access, or does not return. So \<open>f x = Some y\<close> is total correctness, and every
  theorem of that form excludes overruns as well as endless loops. Loops end by a measure; those
  that may not (\<open>cpe_search\<close>, \<open>dname_loop\<close>, \<open>read_files\<close>, \<open>transform_chain\<close>, \<open>alias_loop\<close>, \<open>walk_chain\<close>, \<open>validate_from\<close>) are
  \<open>partial_function\<close>s in the option monad. There is fuel in one place: the routines of \<^verbatim>\<open>Validate\<close> call \<open>try_chase_query\<close>, which calls
  them; they have it as the argument \<open>chase\<close>, and the fuel of \<open>try_chase_query\<close> is the depth to which such calls may nest. What is
  proved holds for every \<open>chase\<close>, or for every depth. A search for a provably insecure zone runs with \<open>VAL_QUERY_SEC_LEAF\<close>, under which
  none is started again, so the samples below need a depth of two only.
  What a comment or an RFC promises is stated apart from the code: \<open>signed_data\<close> (RFC 4034), \<open>cname\<close> and its order,
  \<open>merge_spec\<close>, \<open>canonical_copy\<close>, \<open>anchored\<close>, \<open>holds_type\<close>, \<open>nsec_denies_type\<close>, \<open>nsec_denies_name\<close> and \<open>n3_covers\<close>, \<open>stamps\<close> of a cache, \<open>refs\<close> of the
  requests; the theorems relate the code to them.

  Parameters. OpenSSL is the record \<open>openssl\<close> of its primitives (digests, signature checks, base64); what is assumed of
  it is that digests have their length (\<open>digests_sized\<close>). The time of day, what \<open>malloc\<close> answers for a fresh query, and
  the options of the context are arguments. Allocation does not fail. Logging and locks are left out: the code holds a lock
  around each operation modelled here, so one operation is one step.

  What the theorems show. Safety of validation: a verified set carries a signature that is good over the
  data the code puts together (C1; C6 says when they are the canonical data), a result of success is vouched for up to a trust anchor (C2), where each verification of an assertion needs a
  signature by the one above (C3), a trusted key matches an anchor of its zone (C4), a zone counts as provably insecure only when a
  zone above it, down from the trust point, shows it (C5), the signed data are those of the RFC (C6), and the denial proofs the code accepts are proofs (C7 to C9);
  an answer without an alias stores nothing foreign to the zone it comes from (C15). Invariants of the state: reference counts (C10, C14), the caches (C11),
  the results (C13), the open sockets (C16). Every answer is looked at (C12). Liveness: a query to servers ends when it is checked
  in time again and again (C17). The others are functional and equivalence results on every component, termination, and round trips. The last
  group states what the code does where it departs from what it means to do; each is also listed as a finding.

  Not modelled: the driver that fetches what a request waits for (\<open>ask_cache\<close>, \<open>ask_resolver\<close>, \<open>val_resolve_and_check\<close> and the
  asynchronous interface in \<^verbatim>\<open>libval/val_assertion.c\<close>), \<open>val_resquery_send\<close> and \<open>val_resquery_rcv\<close> (they join what \<^verbatim>\<open>Transport\<close>
  and \<^verbatim>\<open>Response\<close> model), the readers of \<^verbatim>\<open>resolv.conf\<close>, the root hints and \<^verbatim>\<open>/etc/hosts\<close> (\<^verbatim>\<open>libval/val_policy.c\<close>),
  DANE, the printing routines and the front ends that answer in the form of \<open>getaddrinfo\<close> and its relatives.
\<close>

section \<open>Further facts of the components\<close>

text \<open>
  A key that cannot be read is reported as having verified a signature when another key with the
  same tag has verified it before: the RSA routine returns without touching *sig_status, whose
  old value val_sigverify takes for the verdict.
\<close>

theorem unreadable_key_verifies:
  assumes "flags dnskey AND ZONE_KEY_FLAG \<noteq> 0" "protocol dnskey = 3" "sig_algorithm rrsig = ALG_RSASHA1"
    "algorithm dnskey = ALG_RSASHA1" "sig_time_error now rrsig 0 = None" "rsa_parse_public_key (public_key dnskey) = Some None"
  shows "val_sigverify C now 0 data dnskey rrsig (k, VAL_AC_RRSIG_VERIFIED) 0 =
    Some (True, VAL_AC_INVALID_KEY, VAL_AC_RRSIG_VERIFIED)"
  by (rule val_sigverify_unreadable_key [OF assms])

theorem unreadable_key_verifies_witness:
  "val_sigverify any_ssl 450 0 [] \<lparr> flags = 256, protocol = 3, algorithm = 5, public_key = [], key_tag = 0 \<rparr>
    \<lparr> type_covered = 1, sig_algorithm = 5, labels = 1, orig_ttl = 0, sig_expr = 500, sig_incp = 400, sig_key_tag = 0,
       signer_name = [], signature = [] \<rparr> (0, VAL_AC_RRSIG_VERIFIED) 0 =
    Some (True, VAL_AC_INVALID_KEY, VAL_AC_RRSIG_VERIFIED)"
  by (rule unreadable_key_verifies) (simp_all add: sig_time_error_def rsa_parse_public_key_def)

text \<open>
  The last loop of is_trusted_key finds out, without reading outside the name, whether a trust
  anchor is configured for a proper parent of the zone, for anchors kept with the longer zones
  first and none as long as the root when the zone is the root.
\<close>

theorem anchor_above_closest:
  assumes "wf_name xs" "ok_entries es" "longest_first es" "xs = [] \<Longrightarrow> es = []"
  shows "anchor_above (enc xs @ t) 0 (length (enc xs)) es =
    Some (case xs of [] \<Rightarrow> False | _ # ls \<Rightarrow> closest (\<lambda>_. True) es ls \<noteq> None)"
  using anchor_above_enc [of "[]" xs es t] assms by simp

theorem anchor_above_closest_witness: "anchor_above name_ba 0 (length name_ba) [anchor1] = Some True"
  using anchor_above_closest [of "[[0x62], [0x61]]" "[anchor1]" "[]"] encodes_samples(2)
    canon_encodes [of name_a "[[0x61]]"]
  by (simp add: anchor1_def longest_first_def closest.simps [of _ _ "[_]"] names_zone_def)

text \<open>
  namename answers a pointer to the place in the larger name where the smaller one, compared
  without case, begins, and NULL when the larger is not at or below the smaller.
\<close>

theorem namename_finds:
  assumes "encodes big xs" "encodes little ys"
  shows "namename big little = Some (if subname xs ys then Some (length (encl (under xs ys))) else None)"
  by (rule namename_encodes [OF assms])

theorem namename_finds_witness: "namename name_ba name_A = Some (Some 2)"
  using namename_finds [OF encodes_samples(4,3)]
  by (simp add: subname_def under_def cname_eq_iff tolower_def)

text \<open>
  A name written as labels and a pointer to the rest of the name elsewhere in the message
  unpacks to the whole name, and the consumed length is that of the labels and the pointer.
\<close>

theorem unpack_compressed_name:
  assumes "m = pre @ encl xs @ ptr_bytes p @ rest" "m = pre' @ enc ys @ rest'" "p = length pre'"
    and "wf_name (xs @ ys)" "length (enc (xs @ ys)) \<le> dstsiz" "p < 0x4000" "length (encl xs) + 2 < length m"
  shows "ns_name_unpack m (length m) (length pre) dstsiz = Some (Some (length (encl xs) + 2, enc (xs @ ys)))"
  by (rule unpack_compressed [OF assms])

theorem unpack_compressed_name_witness:
  "ns_name_unpack [1, 0x61, 0, 1, 0x62, 0xc0, 0] (length [1, 0x61, 0, 1, 0x62, 0xc0, 0 :: byte]) (length name_a) 255 =
    Some (Some (length (encl [[0x62]]) + 2, enc ([[0x62]] @ [[0x61]])))"
  by (rule unpack_compressed_name [of _ name_a "[[0x62]]" 0 "[]" "[]" "[[0x61]]" "[1, 0x62, 0xc0, 0]"])
    (simp_all add: ptr_bytes_def)

text \<open>
  A record made by val_create_rr_otw from the printed form of a name is taken apart by
  extract_from_rr into the same name, type, class and length, but its TTL is only the low 16
  bits of the one given.
\<close>

theorem created_record_extracts:
  assumes "wf_name ls" "word_of_int typ \<noteq> ns_t_rrsig" "length rdata < 65536"
    and "val_create_rr_otw junk (text_name ls @ [0]) typ cls ttl rdata = Some (Inr otw)"
  shows "extract_from_rr otw 0 (length otw) = Some (Inr \<lparr> rf_name = enc ls,
    rf_type_h = word_of_int typ, rf_set_type_h = word_of_int typ, rf_class_h = word_of_int cls,
    rf_ttl_h = ucast (word_of_int ttl :: u16), rf_rdata_length_h = length rdata,
    rf_rdata_index = length (enc ls) + 10, rf_response_index = length otw \<rparr>)"
  by (rule extract_created [OF assms])

theorem created_record_extracts_witness:
  "\<exists>otw. val_create_rr_otw (\<lambda>_. 0) (text_name [[0x61]] @ [0]) 1 1 65546 [10, 0, 0, 1] = Some (Inr otw) \<and>
    map_option (map_sum id rf_ttl_h) (extract_from_rr otw 0 (length otw)) = Some (Inr 10)"
proof -
  obtain otw where otw: "val_create_rr_otw (\<lambda>_. 0) (text_name [[0x61]] @ [0]) 1 1 65546 [10, 0, 0, 1] = Some (Inr otw)"
    using val_create_rr_otw_text [of "[[0x61]]"] wf_samples(2) by metis
  with created_record_extracts [OF _ _ _ otw] show ?thesis by simp
qed

text \<open>
  decompress replaces the two names at the start of an SOA, MINFO or RP record by their
  expansions and copies the rest of the data, for data that holds both names and lies inside the
  response.
\<close>

theorem decompress_two_names:
  assumes "two_names_first t" "name_in r eom i inc ls" "name_in r eom (i + inc) inc' ls'"
    and "eom \<le> length r" "inc + inc' \<le> n" "i + n \<le> eom"
  shows "decompress junk r i eom t n =
    Some (Inr (enc ls @ enc ls' @ take (n - (inc + inc')) (drop (i + inc + inc') r)))"
  by (rule decompress_two [OF assms])

theorem decompress_two_names_witness:
  "decompress (\<lambda>_. 0) [1, 0x61, 0, 1, 0x62, 0xc0, 0, 7] 0 8 ns_t_soa 8 =
    Some (Inr ([1, 0x61, 0] @ [1, 0x62, 1, 0x61, 0] @ [7]))"
proof -
  have "name_in [1, 0x61, 0, 1, 0x62, 0xc0, 0, 7] 8 0 3 [[0x61]]"
    "name_in [1, 0x61, 0, 1, 0x62, 0xc0, 0, 7] 8 (0 + 3) 4 [[0x62], [0x61]]"
    unfolding name_in_def by (rule conjI, simp, code_simp)+
  from decompress_two_names [OF _ this, of ns_t_soa 8 "\<lambda>_. 0"] show ?thesis
    by (simp add: two_names_first_def)
qed

text \<open>
  For a record with a name at the start of its data whose stated length is shorter than the name
  in the message, decompress writes the expanded name past the end of the buffer it has
  allocated.
\<close>

theorem decompress_short_overflow:
  assumes "one_name_first t" "name_in r eom i inc ls" "n < inc" "inc < n + length (enc ls)"
  shows "decompress junk r i eom t n = None"
  by (rule decompress_one_short [OF assms])

theorem decompress_short_overflow_witness:
  "decompress (\<lambda>_. 0) [1, 0x61, 0, 1, 0x62, 0xc0, 0, 7] 3 8 ns_t_cname 1 = None"
proof -
  have "name_in [1, 0x61, 0, 1, 0x62, 0xc0, 0, 7] 8 3 4 [[0x62], [0x61]]"
    unfolding name_in_def by (rule conjI, simp, code_simp)
  from decompress_short_overflow [OF _ this] show ?thesis by (simp add: one_name_first_def)
qed

text \<open>
  register_query looks for the name and zone, without case, among the first eleven registered
  queries; a query found there is not entered again, a longer list refuses new queries, and
  otherwise the query is put at the end.
\<close>

theorem register_query_bounded:
  assumes "list_all ok_query q" "valid_name n" "z = [] \<or> valid_name z"
  shows "register_query q n t z = Some
    (if \<exists>x\<in>set (take 11 q). ql_hits n z x then (ITS_BEEN_DONE, q)
     else if 11 < length q then (IT_WONT, q)
     else (IT_HASNT, q @ [new_query n t z]))"
  by (rule register_query_eq [OF assms])

theorem register_query_bounded_witness:
  "register_query [\<lparr> ql_name_n = name_a, ql_zone_n = [0], ql_type_h = 1 \<rparr>] name_A 28 [] =
    Some (ITS_BEEN_DONE, [\<lparr> ql_name_n = name_a, ql_zone_n = [0], ql_type_h = 1 \<rparr>])"
proof -
  have "canon name_a = canon name_A"
    using canon_eq_iff [OF encodes_samples(2,3)] by (simp add: cname_eq_iff tolower_def)
  then show ?thesis
    using register_query_bounded [of "[\<lparr> ql_name_n = name_a, ql_zone_n = [0], ql_type_h = 1 \<rparr>]" name_A "[]" 28]
    by (simp add: ok_query_def ql_hits_def)
qed

text \<open>
  val_parse_rrsig_rdata reads back every field of an RRSIG record written in wire format, with
  the signer name in its dotted form and the signature whole.
\<close>

theorem rrsig_fields:
  assumes "wf_name signer"
  shows "val_parse_rrsig_rdata (rrsig_bytes t alg labs ttl expr incp tag signer sig) =
    Some (Inr \<lparr> type_covered = t, sig_algorithm = alg, labels = labs, orig_ttl = ttl,
      sig_expr = expr, sig_incp = incp, sig_key_tag = tag, signer_name = dotted signer, signature = sig \<rparr>)"
  by (rule val_parse_rrsig_rdata_fields [OF assms])

theorem rrsig_fields_witness:
  "map_option (map_sum id signature) (val_parse_rrsig_rdata (rrsig_bytes 1 5 1 60 512 256 3080 [[0x61]] [9])) = Some (Inr [9])"
  using rrsig_fields [of "[[0x61]]" 1 5 1 60 512 256 3080 "[9]"] by simp

text \<open>
  val_parse_ds_rdata reads back the key tag, the algorithms and the digest of a DS record with a
  SHA-1 or a SHA-256 digest, whatever bytes follow.
\<close>

theorem ds_fields:
  assumes "typ = ALG_DS_HASH_SHA1 \<and> length h = 20 \<or> typ = ALG_DS_HASH_SHA256 \<and> length h = 32"
  shows "val_parse_ds_rdata (put16 tag @ [alg, typ] @ h @ rest) =
    Some (Inr \<lparr> d_keytag = tag, d_algo = alg, d_type = typ, d_hash = h \<rparr>)"
  by (rule val_parse_ds_rdata_fields [OF assms])

theorem ds_fields_witness:
  "val_parse_ds_rdata (put16 7 @ [5, ALG_DS_HASH_SHA1] @ replicate 20 1 @ [2]) =
    Some (Inr \<lparr> d_keytag = 7, d_algo = 5, d_type = ALG_DS_HASH_SHA1, d_hash = replicate 20 1 \<rparr>)"
  by (rule ds_fields) simp

text \<open>
  A DS record with a SHA-384 digest is never accepted: the parser answers VAL_NOT_IMPLEMENTED
  although the comparison in ds_hash_is_equal supports the digest.
\<close>

theorem ds_sha384_not_parsed:
  "val_parse_ds_rdata (put16 tag @ [alg, ALG_DS_HASH_SHA384] @ h) = Some (Inl VAL_NOT_IMPLEMENTED)"
  by (rule val_parse_ds_rdata_sha384)

text \<open>
  val_parse_dname never returns on a name with a compression pointer to itself: the loop has no
  bound on the pointers it follows.
\<close>

theorem dname_pointer_loop:
  assumes "rd buf p = Some b" "b AND 0xc0 = 0xc0" "rd buf (p + 1) = Some c"
    and "256 * unat (b AND 0x3f) + unat c = p" "p < n" "0 < cap"
  shows "val_parse_dname buf n p cap = None"
  by (rule val_parse_dname_self [OF assms])

theorem dname_pointer_loop_witness: "val_parse_dname [0xc0, 0] 2 0 256 = None"
  by (rule dname_pointer_loop [where b = "0xc0" and c = 0]) simp_all

text \<open>
  base32hex_encode writes the base 32 text with the extended hex alphabet in lower case, eight
  characters for every five bytes, for inputs of a multiple of five bytes.
\<close>

theorem base32hex_correct:
  assumes "length inp mod 5 = 0"
  shows "base32hex_encode inp = Some (base32 inp)"
  by (rule base32hex_encode_multiple [OF assms])

theorem base32hex_correct_witness:
  "base32hex_encode [0x66, 0x6f, 0x6f, 0x62, 0x61] = Some (base32 [0x66, 0x6f, 0x6f, 0x62, 0x61])"
  by (rule base32hex_correct) simp

text \<open>
  An NSEC3 record whose next hash is not a multiple of five bytes long makes
  val_parse_nsec3_rdata write past the end of a buffer: base32hex_encode allocates too few bytes
  for the last group.
\<close>

theorem nsec3_hash_overflow:
  assumes "length h < 256" "length h mod 5 \<noteq> 0" "length salt < 256"
  shows "val_parse_nsec3_rdata ([alg, fl] @ put16 iter @ [word_of_nat (length salt)] @ salt @
    [word_of_nat (length h)] @ h @ bits) = None"
  by (rule val_parse_nsec3_rdata_overflow [OF assms])

theorem nsec3_hash_overflow_witness: "val_parse_nsec3_rdata [1, 0, 0, 1, 0, 2, 0xaa, 0xbb] = None"
  using nsec3_hash_overflow [of "[0xaa, 0xbb]" "[]" 1 0 1 "[]"] by (simp add: put16_def)

text \<open>
  The key tag of a DNSKEY read from a configuration string is that of its record data with the
  flags in host byte order, so on a big-endian host the string and the wire record parse to the
  same key.
\<close>

theorem configured_key_tag:
  assumes "val_parse_dnskey_string C False s = Some (Inr k)" "algorithm k \<noteq> ALG_RSAMD5"
  shows "val_parse_dnskey_rdata (put16 (flags k) @ [protocol k, algorithm k] @ public_key k) = Some (Inr k)"
  by (rule val_parse_dnskey_string_big_endian [OF assms])

theorem configured_key_tag_witness:
  "val_parse_dnskey_rdata (put16 256 @ [3, 5] @ [1, 3, 7]) = Some (Inr
    \<lparr> flags = 256, protocol = 3, algorithm = 5, public_key = [1, 3, 7], key_tag = keytag (put16 256 @ [3, 5] @ [1, 3, 7]) \<rparr>)"
proof -
  have "val_parse_dnskey_string any_ssl False (map (word_of_nat \<circ> of_char) ''256 3 5 AQMH'') = Some (Inr
    \<lparr> flags = 256, protocol = 3, algorithm = 5, public_key = [1, 3, 7], key_tag = keytag (put16 256 @ [3, 5] @ [1, 3, 7]) \<rparr>)"
    by code_simp
  from configured_key_tag [OF this] show ?thesis by simp
qed

text \<open>
  On a little-endian host the flags enter the tag of a configured key with their bytes swapped:
  the tag of a zone key with flags 256 differs from the tag of the same key on the wire.
\<close>

theorem configured_key_tag_swapped: "keytag (host16 True 256 @ [3, 5, 0x41]) \<noteq> keytag (put16 256 @ [3, 5, 0x41])"
  by (rule keytag_swapped)

text \<open>
  A DS digest matches exactly when it is the digest of the canonical owner name followed by the
  DNSKEY record data; names in different spelling give the same verdict.
\<close>

theorem ds_digest_matches:
  assumes "valid_name n" "rrdata \<noteq> []" "digests_sized C"
  shows "ds_digest_is_equal C d n rrdata h = Some (h = evp C d (canon n @ rrdata))"
  by (rule ds_digest_is_equal_iff [OF assms])

theorem ds_digest_matches_witness:
  "ds_digest_is_equal any_ssl SHA1 name_A key1 (replicate 20 0) = Some (replicate 20 0 = evp any_ssl SHA1 (canon name_A @ key1))"
  by (rule ds_digest_matches) (simp_all add: key1_def)

text \<open>
  nsec3_sha_hash_compute is the iterated hash of RFC 5155: the digest of value and salt, applied
  once more than the iteration count, to the canonical name.
\<close>

theorem nsec3_hash_iterated:
  assumes "valid_name n"
  shows "nsec3_sha_hash_compute C n salt iter = Some (((\<lambda>x. evp C SHA1 (x @ salt)) ^^ (iter + 1)) (canon n))"
  by (rule nsec3_sha_hash_compute_eq [OF assms])

theorem nsec3_hash_iterated_witness: "nsec3_sha_hash_compute any_ssl name_A [1] 1 = Some (replicate 20 0)"
  using nsec3_hash_iterated [of name_A any_ssl "[1]" 1] by (simp add: any_ssl_def digest_length_def)

text \<open>
  rsa_parse_public_key takes an RSA key in the format of RFC 3110 apart into its exponent and
  modulus, for exponents of any length that the format can express.
\<close>

theorem rsa_key_roundtrip:
  assumes "length e < 65536" "m \<noteq> []"
  shows "rsa_parse_public_key (rsa_key_bytes e m) = Some (Some (BN_bin2bn e, BN_bin2bn m))"
  by (rule rsa_parse_key [OF assms])

theorem rsa_key_roundtrip_witness: "rsa_parse_public_key (rsa_key_bytes [1, 0, 1] [0xab, 0xcd]) = Some (Some (65537, 43981))"
  using rsa_key_roundtrip [of "[1, 0, 1]" "[0xab, 0xcd]"] by (simp add: BN_bin2bn_def)

text \<open>
  After RETRIEVE_POLICY has freed an expired first entry, the list head of the context still
  points at it: the next lookup uses freed memory.
\<close>

theorem expired_head_dangles:
  fixes e :: "'a policy_entry"
  assumes "expired now e"
  shows "retrieve_policy now (Entries (e # es)) = Some (live now es, Dangling) \<and> retrieve_policy now' (Dangling :: 'a e_pol) = None"
  using assms by (simp add: retrieve_policy_def Let_def)

theorem expired_head_dangles_witness:
  "retrieve_policy 300 (Entries [anchor1\<lparr> exp_ttl := 200 \<rparr>]) = Some (live 300 [], Dangling) \<and>
    retrieve_policy 400 (Dangling :: trust_anchor_policy e_pol) = None"
  by (rule expired_head_dangles) (simp add: expired_def)

text \<open>
  replace_name_in_name does not put the new suffix in place of the old one: over a suffix other
  than the root its answer is only the part of the name above the suffix.
\<close>

theorem replaced_name_is_cut:
  assumes "encodes n xs" "encodes s ys" "encodes d ds" "subname xs ys" "ys \<noteq> []"
  shows "\<exists>n' new. replace_name_in_name n s d = Some (VAL_NO_ERROR, n', new) \<and> encodes new (under xs ys)"
  using replace_name_in_name_cuts [OF assms(1-4)] assms(5) by metis

theorem replaced_name_is_cut_witness:
  "\<exists>n' new. replace_name_in_name name_ba name_A name_ba = Some (VAL_NO_ERROR, n', new) \<and> encodes new [[0x62]]"
  using replaced_name_is_cut [OF encodes_samples(4,3,4)]
  by (simp add: subname_def under_def cname_eq_iff tolower_def)

text \<open>
  is_tail holds exactly when the first name is at or below the second, without case, wherever
  the shorter name can stand at a label boundary of the longer one; other answers it gives are
  right too.
\<close>

theorem is_tail_iff:
  assumes "encodes full xs" "encodes tail ys" "is_tail full tail = Some b"
  shows "b \<longleftrightarrow> subname xs ys"
  by (rule is_tail_sound [OF assms])

theorem is_tail_iff_witness: "is_tail name_ba name_A = Some True \<and> subname [[0x62], [0x61]] [[0x41]]"
proof -
  have "is_tail name_ba name_A = Some True" by code_simp
  with is_tail_iff [OF encodes_samples(4,3) this] show ?thesis by simp
qed

text \<open>
  The search for the wildcard record answers that the wildcard exists without the type whenever
  an NSEC record is owned by the wildcard, whatever its bitmap says: a wildcard that has the
  type is reported as not having it.
\<close>

theorem wildcard_types_ignored:
  assumes "encodes wc_n ws" "nsec_says n own nxt apex bits" "cname ws = cname own"
  shows "nsec_wcard_loop wc_n (n # ns) i = Some (Some i, True)"
  by (rule nsec_wcard_loop_ignores_types [OF assms])

theorem wildcard_types_ignored_witness:
  "nsec_wcard_loop (enc [star]) [nsec_rr [star] [] [0, 1, 0x40]] 0 = Some (Some 0, True) \<and> is_type_set [0, 1, 0x40] ns_t_a"
proof -
  have "is_type_set [0, 1, 0x40] ns_t_a" by code_simp
  with wildcard_types_ignored [OF encodes_enc(2) [of "[star]"] nsec_rr_says [of "[star]" "[]" "[0, 1, 0x40]"]]
  show ?thesis by simp
qed

text \<open>
  For types below 256 is_type_set reads a bitmap of well-formed windows as RFC 4034 section
  4.1.2 defines it.
\<close>

theorem type_bitmap_windows:
  assumes "wf_windows ws" "0 < type" "type < 256"
  shows "is_type_set (concat (map window_bytes ws)) type \<longleftrightarrow> holds_type ws (unat type)"
  by (rule is_type_set_windows [OF assms])

theorem type_bitmap_windows_witness: "is_type_set [0, 1, 0x40] 1"
  using type_bitmap_windows [of "[(0, [0x40])]" 1] by (simp add: wf_windows_def holds_type_def)

text \<open>
  is_type_set never finds a type of 256 or more in a bitmap of well-formed windows, because it
  looks for the window of the type divided by eight: such a type is always denied.
\<close>

theorem type_bitmap_high:
  assumes "wf_windows ws" "256 \<le> type"
  shows "\<not> is_type_set (concat (map window_bytes ws)) type"
  by (rule is_type_set_high [OF assms])

theorem type_bitmap_high_witness:
  "\<not> is_type_set (window_bytes (128, [0x40])) ns_t_dlv \<and> holds_type [(128, [0x40])] (unat ns_t_dlv)"
  using type_bitmap_high [of "[(128, [0x40])]" ns_t_dlv] by (simp add: wf_windows_def holds_type_def)

text \<open>
  prove_nsec3_span returns, with the time to live and the policies untouched, for a name other
  than the root when no iteration limits are configured and every NSEC3 record has data and a
  signer below the root.
\<close>

theorem nsec3_span_returns:
  assumes "wf_name qs" "qs \<noteq> []" "digests_sized C" "list_all proper_nsec3 nlist" "nlist \<noteq> []"
  shows "\<exists>s. prove_nsec3_span C now (Entries []) nlist (enc qs @ t) qtype_h ttl_x None = Some (s, ttl_x, Entries [])"
  by (rule prove_nsec3_span_returns [OF assms])

theorem nsec3_span_returns_witness:
  "\<exists>s. prove_nsec3_span any_ssl 7 (Entries []) [n3_rr 1 [[0x61]]] (enc [[0x62], [0x61]] @ []) 1 9 None = Some (s, 9, Entries [])"
  by (rule nsec3_span_returns) (simp_all add: n3_rr_proper)

text \<open>
  The query that add_to_query_chain answers is either one of the cache that matches the name,
  type, class and flags, is not marked for deletion and has not expired, or a new one at the
  head of the list, in the first state, without references and without answers, with a copy of
  the name.
\<close>

theorem query_found_matches:
  assumes "add_to_query_chain now mr fresh c name_n type_h class_h fl = Some (Inr (a, c'))"
  shows "\<exists>q. q_heap c' a = Some q \<and> (answers_for now mr name_n type_h class_h fl q \<or>
    a = fresh \<and> hd (q_list c') = fresh \<and> qc_state q = Q_INIT \<and> qc_refcount q = 0 \<and> qc_type_h q = type_h \<and>
    qc_class_h q = class_h \<and> qc_ans q = [] \<and> (\<exists>len. wire_name_length name_n = Some len \<and> seg name_n 0 len = Some (qc_original_name q)))"
  by (rule add_to_query_chain_answer [OF assms])

theorem query_found_matches_witness:
  "\<exists>q. q_heap \<lparr> q_list = [0], q_heap = [0 \<mapsto> query1] \<rparr> 0 = Some q \<and> (answers_for 0 None name_a 1 1 0 q \<or> qc_state q = Q_INIT)"
  using query_found_matches [OF add_first [of 0 None]] by auto

text \<open>
  A query that is marked for deletion and still in use drops out of the list of the context when
  the marked query after it is freed: it stays allocated, but nothing of the context points at
  it any more.
\<close>

theorem in_use_query_lost:
  assumes "q_list c = [a, b]" "q_heap c a = Some qa" "qc_flags qa AND VAL_QUERY_MARK_FOR_DELETION \<noteq> 0"
    "0 < qc_refcount qa" "q_heap c b = Some qb" "qc_flags qb AND VAL_QUERY_MARK_FOR_DELETION \<noteq> 0"
    "qc_refcount qb = 0" "a \<noteq> b" "valid_name name_n" "fresh \<noteq> a"
  shows "\<exists>c'. add_to_query_chain now mr fresh c name_n type_h class_h fl = Some (Inr (fresh, c')) \<and>
    q_list c' = [fresh] \<and> q_heap c' a = Some qa"
  by (rule in_use_query_dropped [OF assms])

theorem in_use_query_lost_witness:
  "\<exists>c'. add_to_query_chain 0 None 2 \<lparr> q_list = [0, 1], q_heap = [0 \<mapsto> query1\<lparr> qc_flags := 0x80, qc_refcount := 1 \<rparr>,
      1 \<mapsto> query1\<lparr> qc_flags := 0x80 \<rparr>] \<rparr> name_b 1 1 0 = Some (Inr (2, c')) \<and>
    q_list c' = [2] \<and> q_heap c' 0 = Some (query1\<lparr> qc_flags := 0x80, qc_refcount := 1 \<rparr>)"
proof -
  have "valid_name name_b" using valid_name_enc(1) [of "[[0x62]]"] by simp
  then show ?thesis
    by (intro in_use_query_lost [where b = 1 and qb = "query1\<lparr> qc_flags := 0x80 \<rparr>"])
      (simp_all add: query1_def new_query_chain_def)
qed

text \<open>
  After twelve names of an alias chain are registered, process_cname_dname_responses registers
  no more and refuses none that is not among the first eleven: the bound on alias chains is not
  enforced, and a loop among later names is not noticed.
\<close>

theorem alias_chain_unbounded:
  assumes "ok_aliases q" "11 < length (di_queries (referral_block q))" "\<not> alias_seen q rdata"
    "valid_name rdata" "valid_name n" "list_all valid_name qnames" "qnames \<noteq> []"
    "canon (hd qnames) = canon n" "qc_type_h q \<noteq> ns_t_cname"
  shows "\<exists>q'. process_cname_dname_responses n ns_t_cname rdata q qnames = Some (VAL_NO_ERROR, q', name_bytes rdata # qnames, False) \<and>
    qc_state q' = Q_INIT \<and> di_queries (referral_block q') = di_queries (referral_block q)"
  by (rule alias_bound_not_enforced [OF assms])

theorem alias_chain_unbounded_witness:
  "\<exists>q'. process_cname_dname_responses name_a ns_t_cname name_a
     (query1\<lparr> qc_referral := Some (new_delegation\<lparr> di_queries := replicate 11 \<lparr> ql_name_n = name_ba, ql_zone_n = [0], ql_type_h = 1 \<rparr> @
        [\<lparr> ql_name_n = name_a, ql_zone_n = [0], ql_type_h = 1 \<rparr>] \<rparr>) \<rparr>) [name_a] =
    Some (VAL_NO_ERROR, q', [name_a, name_a], False) \<and> qc_state q' = Q_INIT"
proof -
  let ?qs = "replicate 11 \<lparr> ql_name_n = name_ba, ql_zone_n = [0], ql_type_h = 1 \<rparr> @
    [\<lparr> ql_name_n = name_a, ql_zone_n = [0], ql_type_h = 1 \<rparr>]"
  let ?q = "query1\<lparr> qc_referral := Some (new_delegation\<lparr> di_queries := ?qs \<rparr>) \<rparr>"
  have block: "di_queries (referral_block ?q) = ?qs" by (simp add: referral_block_def)
  have cut: "qc_zonecut_n ?q = []" "qc_type_h ?q = 1" by (simp_all add: query1_def new_query_chain_def)
  have "list_all ok_query ?qs" by (simp add: ok_query_def list_all_iff del: replicate.simps)
  then have ok: "ok_aliases ?q" by (simp only: ok_aliases_def block cut) simp
  have "set (take 11 ?qs) = {\<lparr> ql_name_n = name_ba, ql_zone_n = [0], ql_type_h = 1 \<rparr>}" by simp
  moreover have "canon name_ba \<noteq> canon name_a"
    using canon_encodes [OF encodes_samples(4)] canon_encodes [OF encodes_samples(2)] by (simp add: tolower_def)
  ultimately have unseen: "\<not> alias_seen ?q name_a" unfolding alias_seen_def block cut by (simp add: ql_hits_def)
  have len: "11 < length (di_queries (referral_block ?q))" unfolding block by simp
  have nb: "name_bytes name_a = name_a" by (simp add: name_bytes_def)
  from alias_chain_unbounded [OF ok len unseen valid_samples(2) valid_samples(2), of "[name_a]"] show ?thesis
    unfolding cut nb by fastforce
qed

text \<open>
  res_zi_unverified_ns_list takes the name servers of the zone from its NS sets in order, with
  recursion off, gives each only addresses of A or AAAA sets owned by its name, gives every such
  set of a server to a server of that name, and splits the servers into those with an address
  and those without.
\<close>

theorem name_servers_with_glue:
  assumes "valid_name zone" "list_all ok_rrset sets" "\<forall>n\<in>set (zone_ns zone sets). valid_name n"
  shows "\<exists>nss. res_zi_unverified_ns_list ip4 ip6 zone sets =
      Some (filter (\<lambda>ns. ns_address ns \<noteq> []) nss, filter (\<lambda>ns. ns_address ns = []) nss) \<and>
    map ns_name_n nss = map name_bytes (zone_ns zone sets) \<and> (\<forall>ns\<in>set nss. ns_options ns AND SR_QUERY_RECURSE = 0) \<and>
    (\<forall>ns\<in>set nss. has_glue ip4 ip6 sets ns) \<and>
    (\<forall>rs\<in>set sets. wants_glue ip4 ip6 rs \<and> rrs_cred rs \<le> SR_CRED_NONAUTH \<and>
      canon (rrs_name_n rs) \<in> canon ` set (zone_ns zone sets) \<longrightarrow>
      (\<exists>ns\<in>set nss. canon (ns_name_n ns) = canon (rrs_name_n rs) \<and> set (glue rs) \<subseteq> set (ns_address ns)))"
  by (rule name_servers_found [OF assms, of ip4 ip6], intro exI) blast

theorem name_servers_with_glue_witness:
  "\<exists>nss. res_zi_unverified_ns_list True False name_A [ns_set1, a_set1] =
      Some (filter (\<lambda>ns. ns_address ns \<noteq> []) nss, filter (\<lambda>ns. ns_address ns = []) nss) \<and>
    map ns_name_n nss = [name_ba]"
proof -
  have c: "canon name_A = canon name_a" using canon_eq_iff [OF encodes_samples(3,2)] by (simp add: cname_eq_iff tolower_def)
  then have z: "zone_ns name_A [ns_set1, a_set1] = [name_ba]" by (simp add: zone_ns_def ns_set1_def a_set1_def)
  have nb: "name_bytes name_ba = name_ba"
    using wire_name_length_encodes [OF encodes_samples(4)] by (simp add: name_bytes_def)
  have "list_all ok_rrset [ns_set1, a_set1]" by (simp add: ok_rrset_def ns_set1_def a_set1_def)
  from name_servers_with_glue [OF valid_samples(3) this, of True False] z nb show ?thesis by fastforce
qed

text \<open>
  bootstrap_referral, which changes the query it works for and may add queries for glue to the
  request, leads from a reachable state of the requests and the query cache to a reachable one,
  so the reference counts stay exact.
\<close>

theorem referral_keeps_references:
  assumes "bootstrap_referral C net now mr fresh4 fresh6 ctx c (cs ! i) a zone learned = Some (ret, nss, queries, c', ctx')"
    and "reachable C (c, cs)" "i < length cs" "q_heap c fresh4 = None" "q_heap c fresh6 = None" "fresh4 \<noteq> fresh6"
    and "es \<in> set (cs[i := queries])" "e \<in> set es"
  shows "\<exists>q. q_heap c' (qfq_query e) = Some q \<and> qc_refcount q = int (refs (cs[i := queries]) (qfq_query e)) \<and> 0 < qc_refcount q"
  by (rule reachable_live [OF conjunct1 [OF bootstrap_referral_reachable [OF assms(1-6)]] assms(7,8)])

theorem referral_keeps_references_witness:
  "\<exists>c'. bootstrap_referral any_ssl net4 0 None 1 2 (Entries []) cache1 [\<lparr> qfq_flags = 0, qfq_query = 0 \<rparr>] 0 [0] [] =
     Some (VAL_NO_ERROR, [server1], [\<lparr> qfq_flags = 0, qfq_query = 0 \<rparr>], c', Entries []) \<and>
    (\<exists>q. q_heap c' 0 = Some q \<and> qc_refcount q = 1)"
proof -
  let ?es = "[\<lparr> qfq_flags = 0, qfq_query = 0 \<rparr>]"
  let ?c = "put_query cache1 0 (query1\<lparr> qc_refcount := 1, qc_state := Q_INIT, qc_flags := VAL_QUERY_IS_ITERATING \<rparr>)"
  have root: "name_eq [0] [0] = Some True" by code_simp
  have cl: "clone_ns_list [server1] = Some [server1]" by code_simp
  have run: "bootstrap_referral any_ssl net4 0 None 1 2 (Entries []) cache1 ([?es] ! 0) 0 [0] [] =
     Some (VAL_NO_ERROR, [server1], ?es, ?c, Entries [])"
    using root cl by (simp add: bootstrap_referral_def cache1_def net4_def query1_def new_query_chain_def)
  have "\<exists>q. q_heap ?c 0 = Some q \<and> qc_refcount q = int (refs ([?es][0 := ?es]) 0) \<and> 0 < qc_refcount q"
    using referral_keeps_references [OF run reachable1, where es = ?es and e = "hd ?es"] by (simp add: cache1_def)
  with run show ?thesis by (auto simp: refs_def)
qed

text \<open>
  Once a DNSKEY, DS or SOA set in a cache has expired, nothing stored later makes lookup_store
  find one: the new data goes into the expired entry, whose time of expiry is never renewed.
\<close>

theorem expired_entry_blocks:
  assumes "wf_store l" "list_all ok_rrset new_info" "ok_bailiwick q" "r \<in> set l" "uint (rrs_ttl_x r) \<le> now"
    and "\<not> alias_match_type (rrs_type_h r)"
  shows "\<exists>l'. stow_info l new_info (Some q) = Some l' \<and>
    lookup_store now (rrs_name_n r) (rrs_class_h r) (rrs_type_h r) l' ns_opts = Some None"
  by (rule expired_blocks [OF assms])

theorem expired_entry_blocks_witness:
  "\<exists>l'. stow_info [keyset1] [keyset1\<lparr> rrs_ttl_x := 1000 \<rparr>] (Some query1) = Some l' \<and>
    lookup_store 5 name_a 1 ns_t_dnskey l' 0 = Some None"
proof -
  have w: "wf_store [keyset1]" "list_all ok_rrset [keyset1\<lparr> rrs_ttl_x := 1000 \<rparr>]" "ok_bailiwick query1"
    by (simp_all add: wf_store_def ok_rrset_def keyset1_def ok_bailiwick_def query1_def new_query_chain_def)
  from expired_entry_blocks [OF w, of keyset1 5 0] show ?thesis
    by (simp add: keyset1_def alias_match_type_def zero_rrset_def)
qed

text \<open>
  The scan of get_nslist_from_cache finds, among the NS sets that have not expired and whose
  owner is at or above the name (strictly above for DS), one of the best credibility and, among
  those, of the longest name; it finds none only when there is none.
\<close>

theorem closest_name_servers:
  assumes "valid_name qname" "ok_ns_sets rs"
  shows "\<exists>best. closest_ns now qname qtype rs (None, SR_CRED_UNSET) = Some best \<and>
    (case fst best of
       None \<Rightarrow> \<forall>r\<in>set rs. \<not> usable_ns now qname qtype r
     | Some n \<Rightarrow> (\<exists>r\<in>set rs. usable_ns now qname qtype r \<and> (n, snd best) = ns_rank r) \<and>
         (\<forall>r\<in>set rs. usable_ns now qname qtype r \<longrightarrow> no_better (ns_rank r) (n, snd best)))"
  by (rule closest_ns_best [OF assms])

theorem closest_name_servers_witness:
  "\<exists>best. closest_ns 10 name_ba 1 [ns_set1, ns_set1\<lparr> rrs_name_n := [0] \<rparr>] (None, SR_CRED_UNSET) = Some best \<and> fst best \<noteq> None"
proof -
  have ok: "ok_ns_sets [ns_set1, ns_set1\<lparr> rrs_name_n := [0] \<rparr>]" by (simp add: ok_ns_sets_def ok_rrset_def ns_set1_def)
  have "namename name_ba name_a = Some (Some 2)"
    using namename_encodes [OF encodes_samples(4,2)] by (simp add: subname_def under_def)
  then have u: "usable_ns 10 name_ba 1 ns_set1" by (simp add: usable_ns_def ns_set1_def)
  from closest_name_servers [OF valid_samples(4) ok, of 10 1] obtain best where
    "closest_ns 10 name_ba 1 [ns_set1, ns_set1\<lparr> rrs_name_n := [0] \<rparr>] (None, SR_CRED_UNSET) = Some best"
    "fst best = None \<longrightarrow> (\<forall>r\<in>set [ns_set1, ns_set1\<lparr> rrs_name_n := [0] \<rparr>]. \<not> usable_ns 10 name_ba 1 r)"
    by (auto split: option.splits)
  with u show ?thesis by (intro exI [of _ best]) auto
qed

text \<open>
  Fragments end up in the order of precedence, labels from general to specific, and of several
  fragments for a label and a kind of policy the first one found is the one that is kept
  (store_policy_overrides).
\<close>

theorem first_fragment_counts:
  assumes "\<forall>f \<in> set fs. fr_label_count f = cnt (fr_label f)"
  shows "by_generality (foldl store_policy_overrides [] fs) \<and>
    policy_at (foldl store_policy_overrides [] fs) l (cnt l) k =
      map_option fr_pol (List.find (\<lambda>f. fr_label f = l \<and> fr_index f = k) fs)"
  using policy_at_fold(1) [of "[]" cnt fs] policy_at_fold(2) [of "[]" cnt fs l k] assms
  by (simp add: by_generality_def labelled_def policy_at_def)

theorem first_fragment_counts_witness:
  "policy_at (foldl store_policy_overrides [] (map (\<lambda>n. \<lparr> fr_label = [0x6d], fr_label_count = 1, fr_index = P_CLOCK_SKEW,
     fr_pol = [skew_entry name_a n] \<rparr>) [60, 90])) [0x6d] 1 P_CLOCK_SKEW = Some [skew_entry name_a 60]"
  using first_fragment_counts [of "map (\<lambda>n. \<lparr> fr_label = [0x6d], fr_label_count = 1, fr_index = P_CLOCK_SKEW,
     fr_pol = [skew_entry name_a n] \<rparr>) [60, 90]" "\<lambda>_. 1" "[0x6d]" P_CLOCK_SKEW] by simp

text \<open>
  A policy that val_add_valpolicy adds is the first one found for its zone, and every cached
  query for a name in that zone is marked for deletion, so none is answered from the cache any
  more.
\<close>

theorem added_policy_first:
  assumes "val_add_valpolicy C le now d ctx = Some (VAL_NO_ERROR, Some (index, ent), ctx')"
  shows "(\<exists>es. e_pol ctx' index = Entries es \<and> for_zone (zone_n ent) es = Some ent) \<and>
    (\<forall>a q. a \<in> set (q_list (ctx_queries ctx')) \<longrightarrow> q_heap (ctx_queries ctx') a = Some q \<longrightarrow>
      in_zone (qc_name_n q) (zone_n ent) \<longrightarrow> qc_flags q AND VAL_QUERY_MARK_FOR_DELETION \<noteq> 0)"
  using val_add_valpolicy_effect [OF assms] by blast

theorem added_policy_first_witness:
  "\<exists>ent ctx. val_add_valpolicy any_ssl False 100 skew_definition programmed1 = Some (VAL_NO_ERROR, Some (P_CLOCK_SKEW, ent), ctx) \<and>
     (\<exists>es. e_pol ctx P_CLOCK_SKEW = Entries es \<and> for_zone name_a es = Some ent)"
proof -
  obtain ent ctx where run: "val_add_valpolicy any_ssl False 100 skew_definition programmed1 = Some (VAL_NO_ERROR, Some (P_CLOCK_SKEW, ent), ctx)"
    "zone_n ent = name_a"
    using programmed1_added by (auto split: option.splits)
  with added_policy_first [OF run(1)] show ?thesis by auto
qed

text \<open>
  val_get_token returns a word of plain characters unchanged and leaves what follows it, but a
  word as long as the array has its final zero written behind the array: the bound is checked
  with the number of characters and not with room for the zero.
\<close>

theorem config_word_overflow:
  assumes "list_all plain w" "w \<noteq> []" "length w \<le> TOKEN_MAX" "isspace d"
  shows "conf_token (w @ d # s) = (if length w = TOKEN_MAX then None else Some (Inr (w, False, d # s)))"
  using assms by (rule conf_token_word)

theorem config_word_overflow_witness:
  "conf_token ([0x61, 0x62] @ 0x20 # [0x3b]) = Some (Inr ([0x61, 0x62], False, [0x20, 0x3b])) \<and>
   conf_token (replicate 2048 0x61 @ 0x20 # []) = None"
proof -
  have p: "plain 0x61" "plain 0x62" "isspace 0x20" by (simp_all add: plain_def isspace_def)
  then have "list_all plain (replicate n 0x61)" for n by (simp add: list_all_iff)
  then show ?thesis
    using config_word_overflow [of "[0x61, 0x62]" "0x20" "[0x3b]"] config_word_overflow [of "replicate 2048 0x61" "0x20" "[]"] p
    by simp
qed

text \<open>
  The policies a program gives to its context hold after the first reading only: storing them
  unlinks the entries from the list that was to keep them, and the next reading (a refresh of
  the context) finds that list empty.
\<close>

theorem dynamic_policies_lost:
  assumes "overridden ctx" "read_val_config_file C le H scope ctx = Some (Some (r, ctx1))"
    and "read_val_config_file C le H scope' ctx1 = Some (Some (r', ctx2))"
  shows "(\<exists>es. e_pol ctx1 k = Entries es \<and> for_zone z es = last_for z (all_entries k (dyn_valpol ctx))) \<and>
    e_pol ctx2 k = Entries []"
  using read_twice_overridden [OF assms] by blast

theorem dynamic_policies_lost_witness:
  "\<exists>r r' ctx1 ctx2. read_val_config_file any_ssl False no_files None programmed1 = Some (Some (r, ctx1)) \<and>
     read_val_config_file any_ssl False no_files None ctx1 = Some (Some (r', ctx2)) \<and>
     (\<exists>es. e_pol ctx1 P_CLOCK_SKEW = Entries es \<and> for_zone name_a es = Some (skew_entry name_a 60)) \<and>
     e_pol ctx2 P_CLOCK_SKEW = Entries []"
proof -
  obtain r r' ctx1 ctx2 where run: "read_val_config_file any_ssl False no_files None programmed1 = Some (Some (r, ctx1))"
    "read_val_config_file any_ssl False no_files None ctx1 = Some (Some (r', ctx2))"
    using programmed1_read by (auto split: option.splits)
  have "overridden programmed1" by (simp add: programmed1_def)
  from dynamic_policies_lost [OF this run, of P_CLOCK_SKEW name_a] run show ?thesis
    by (simp add: programmed1_def all_entries_def plist_entries_def last_for_def skew_entry_def)
qed

text \<open>
  In a scope of several levels a label counts as relevant when it merely begins with a level
  that is not the last one: the policy of one program is applied to another whose name it
  extends.
\<close>

theorem longer_label_relevant:
  assumes "p \<noteq> []" "0x3a \<notin> set p" "p @ x \<noteq> [0x3a]"
  shows "check_relevance (p @ x) (Some (p @ 0x3a # rest)) = (1, True)"
  using assms by (rule relevance_longer)

theorem longer_label_relevant_witness:
  "check_relevance ([0x61] @ [0x62]) (Some ([0x61] @ 0x3a # [0x63])) = (1, True)"
  by (rule longer_label_relevant) simp_all

text \<open>
  A name that ns_name_pack writes into a message, with pointers to the names written before,
  stands for the same labels up to case: following the pointers from where it was written spells
  them, nothing in front of it is changed, and every name in the list of pointers can still be
  followed within what has been written.
\<close>

theorem packed_name_expands:
  assumes "ns_name_pack (enc xs @ t) buf dst dstsiz (Some ps) cap = Some (Some n, buf', Some ps')" "wf_name xs"
    and "names_at buf k ps" "k \<le> dst"
  shows "n \<le> dstsiz \<and> take dst buf' = take dst buf \<and> names_at buf' (dst + n) ps' \<and>
    (\<exists>cs. expands (take (dst + n) buf') dst cs \<and> folded cs = map tolower (enc xs))"
  using assms by (rule ns_name_pack_sound)

theorem packed_name_expands_witness:
  "\<exists>buf. ns_name_pack (enc [[0x62], [0x41]]) packed1 15 20 (Some [12]) (Some 20) = Some (Some 4, buf, Some [12, 15]) \<and>
     (\<exists>cs. expands (take 19 buf) 15 cs \<and> folded cs = name_ba)"
proof -
  obtain buf where run: "ns_name_pack (enc [[0x62], [0x41]]) packed1 15 20 (Some [12]) (Some 20) = Some (Some 4, buf, Some [12, 15])"
    using packed1_next by blast
  have "map tolower (enc [[0x62], [0x41]]) = name_ba" by code_simp
  moreover have "wf_name [[0x62], [0x41]]" by (simp add: wf_name_def wf_label_def)
  ultimately show ?thesis using packed_name_expands [of "[[0x62], [0x41]]" "[]" packed1 15 20 "[12]" "Some 20" 4 buf "[12, 15]" 15] run packed1_names by auto
qed

text \<open>
  The signature of a response is not looked at: what is accepted from a server without a key is
  accepted from a server with a key as soon as the count of additional records is one higher,
  whatever the message ends with (res_tsig_verifies, "not checking tsig!").
\<close>

theorem tsig_of_response_unchecked:
  assumes "ns_security_options r AND ZONE_USE_TSIG \<noteq> 0" "12 \<le> len" "12 \<le> length a" "get16 a 10 = Some n" "n \<noteq> -1"
  shows "res_response_checks (Some r) (with_arcount (n + 1) a) len = res_response_checks None a len"
  using assms by (rule res_response_checks_forged)

theorem tsig_of_response_unchecked_witness:
  "res_response_checks (Some (keyless1\<lparr> ns_security_options := 1 \<rparr>)) (with_arcount 1 response1) 35 = Some (SR_NO_ERROR, response1)"
proof -
  have "length response1 = 35" "get16 response1 10 = Some 0" "res_response_checks None response1 35 = Some (SR_NO_ERROR, response1)"
    by code_simp+
  then show ?thesis using tsig_of_response_unchecked [of "keyless1\<lparr> ns_security_options := 1 \<rparr>" 35 response1 0] by simp
qed

text \<open>
  A key that is not base64 is accepted by res_set_ns_tsig, with the answer -1 of BIO_read as its
  length, and signing a query with it reads memory that is not there.
\<close>

theorem undecodable_key_accepted:
  assumes "BIO_base64 C key_s = None" "tsig_of_fields C name_s alg_s fudge_s key_s = Some (Some t)"
  shows "ts_keylen t = -1 \<and> tsig_append C now t md q = None"
  using assms by (rule undecodable_key)

theorem undecodable_key_accepted_witness:
  "\<exists>t. tsig_of_fields (hmac1\<lparr> BIO_base64 := (\<lambda>_. None) \<rparr>) (bytes ''k'') [] [] (bytes ''!'') = Some (Some t) \<and> ts_keylen t = -1"
proof -
  obtain t where "tsig_of_fields (hmac1\<lparr> BIO_base64 := (\<lambda>_. None) \<rparr>) (bytes ''k'') [] [] (bytes ''!'') = Some (Some t)"
    using undecodable1 by blast
  with undecodable_key_accepted [OF _ this] show ?thesis by simp
qed

text \<open>
  A message over TCP is looked at before its length is: a server that sends fewer than four
  bytes, or fewer than twelve that begin with the identifier of the query, makes res_io_read
  read behind the memory it has allocated for the message.
\<close>

theorem short_answer_overread:
  assumes "ea_using_stream ea" "complete_read E 2 [] io = (l, io1)" "length l = 2" "get16 l 0 = Some w" "w \<noteq> 0"
    and "complete_read E (unat w) [] io1 = (msg, io2)" "length msg = unat w" "unat w < 12"
    and "unat w < 4 \<or> take 2 msg = take 2 (ea_signed ea)"
  shows "read_arrival E ea io = None"
  using assms by (rule read_short_message)

theorem short_answer_overread_witness:
  "read_arrival env1 (awaited1\<lparr> ea_using_stream := True, ea_socket := Some 5 \<rparr>) io_start = None"
proof -
  have "get16 [0, 1] 0 = Some (1 :: u16)" "unat (1 :: u16) = 1" by code_simp+
  with short_answer_overread [of "awaited1\<lparr> ea_using_stream := True, ea_socket := Some 5 \<rparr>", OF _ short1(1), of 1 "[9]"] short1(2)
  show ?thesis by simp
qed

text \<open>
  With a timeout of zero, which the configuration accepts, the end of an arrival is always
  reached when its next attempt is: however often a query to such servers is checked, nothing is
  sent.
\<close>

theorem zero_timeout_never_sends:
  assumes "res_async_query_create E name t c nss io = Some (eas, io1)" "list_all (\<lambda>ns. ns_retrans ns = 0) nss"
    and "after_checks E clock k eas io1 = Some (eas', io')"
  shows "io_sends io' = io_sends io"
  using assms by (rule no_time_query)

text \<open>
  Falling back to smaller sizes of EDNS0 never comes to the last entry of its table: the options
  of the server stay as they are and a size that was positive stays positive, so a server that
  rejects EDNS0 is never asked without it.
\<close>

theorem edns0_never_given_up:
  "ns_options (ea_ns (lower_edns0 ea)) = ns_options (ea_ns ea) \<and> (0 < ns_edns0_size (ea_ns ea) \<longrightarrow> 0 < ns_edns0_size (ea_ns (lower_edns0 ea)))"
  by (rule lower_edns0_keeps)

text \<open>
  A process without a limit on its descriptors gets a limit of one socket: the limit is kept in
  an int.
\<close>

theorem unlimited_descriptors: "init_max_fd (2 ^ 64 - 1) = 1"
  by (simp add: init_max_fd_def)

text \<open>
  When the response to a query consists of proofs only and one of them is not trusted,
  construct_authentication_chain hands out no result at all: perform_sanity_checks marks every
  internal result as a bogus proof, but what is left over is only transformed when its status is
  trusted.
\<close>

theorem untrusted_proof_is_dropped:
  assumes "finish_results E t S = Some (rc, is_done, S')" "list_all rc_is_proof (rs_work S)"
    and "\<not> list_all (\<lambda>w. val_istrusted (rc_status w)) (rs_work S)" "rs_results S = []"
  shows "rc = VAL_NO_ERROR \<and> rs_results S' = []"
  using finish_results_code [OF assms(1)] untrusted_proof_no_results [OF assms] by simp

theorem untrusted_proof_is_dropped_witness:
  "\<exists>S. finish_results venv1 0 untrusted1 = Some (VAL_NO_ERROR, True, S) \<and> rs_results S = []"
proof -
  from untrusted1_finished obtain S where run: "finish_results venv1 0 untrusted1 = Some (VAL_NO_ERROR, True, S)" by (auto split: option.splits)
  have "list_all rc_is_proof (rs_work untrusted1)" "\<not> list_all (\<lambda>w. val_istrusted (rc_status w)) (rs_work untrusted1)" "rs_results untrusted1 = []"
    by (simp_all add: untrusted1_def denial_work_def val_istrusted_def)
  with untrusted_proof_is_dropped [OF run] run show ?thesis by simp
qed

text \<open>
  The error code of perform_sanity_checks and of transform_outstanding_results is lost: whatever
  they answer, construct_authentication_chain returns VAL_NO_ERROR.
\<close>

theorem sanity_error_is_lost:
  assumes "finish_results E t S = Some (rc, is_done, S')"
  shows "rc = VAL_NO_ERROR"
  by (rule finish_results_code [OF assms])

text \<open>
  Whatever try_chase_query hands out, every result has exactly the four places for proofs of
  val_rc_proofs and counts no more than four: nothing that collects proofs, on the way through
  the sanity checks for denials, wildcards and aliases, writes behind the array.
\<close>

theorem results_have_four_places:
  assumes "try_chase_query E n name_n q_class type fl d v = Some (rc, d', results, v')" "res \<in> set results"
  shows "length (res_proofs res) = MAX_PROOFS \<and> res_proof_count res \<le> MAX_PROOFS"
proof (cases n)
  case 0
  with assms(1) show ?thesis by simp
next
  case (Suc k)
  with assms(1) have "chase_with E (try_chase_query E k) name_n q_class type fl d v = Some (rc, d', results, v')" by simp
  then show ?thesis using assms(2) by (rule chase_with_fit)
qed

theorem results_have_four_places_witness:
  "\<exists>res :: result_chain. res_status res = VAL_NONEXISTENT_TYPE \<and> res_proof_count res = 1 \<and> length (res_proofs res) = MAX_PROOFS"
proof -
  from denied1_chased obtain res v where
    "try_chase_query venv1 2 name_ba 1 ns_t_ds 0x02000001 True insecure1 = Some (VAL_NO_ERROR, True, [res], v)"
    and st: "res_status res = VAL_NONEXISTENT_TYPE" "res_proof_count res = 1"
    by (auto split: option.splits)
  from results_have_four_places [OF this(1), of res] have "length (res_proofs res) = MAX_PROOFS" by simp
  with st show ?thesis by blast
qed

section \<open>The properties of the program\<close>

text \<open>
  C1. When verify_next_assertion answers a status of success for an assertion that was not
  verified before, and none of whose signatures was, then some signature of its set is good
  under some key of the right key set: the key parses, its tag is the one the signature names,
  it is a zone key of protocol 3 and of the same algorithm, the labels fit, the test of the time
  passes at the clock skew in force, and the primitive accepts the data that make_sigfield
  builds. The time is inside the window widened by that skew when the skew is not negative and
  the window does not wrap in 32 bits; a negative skew, which VAL_QUERY_IGNORE_SKEW gives, asks
  for no test of the time. The data is the canonical signed data under the conditions of
  sigfield_is_signed_data; where the signatures of a set have signers of different lengths it
  need not be (sigfield_overread).
\<close>

theorem verified_assertion_is_signed:
  assumes "verify_next_assertion C now ctx fl same status (Some rs) trust = Some (st, as', trust', ctx')"
    and "\<not> as_verified status" "as_verified st" "list_all (\<lambda>sig. \<not> sig_verified (rr_status sig)) (rrs_sig rs)"
  shows "\<exists>sig \<in> set (rrs_sig rs).
    \<exists>key \<in> set (if rrs_type_h rs = ns_t_dnskey \<or> same then rrs_data rs else rrs_data (the trust)).
      authentic C now ctx fl rs (rr_rdata sig) (rr_rdata key) \<and> in_window now ctx fl (rr_rdata sig)"
  using verify_next_assertion_sound [OF assms] authentic_in_window by blast

theorem verified_assertion_is_signed_witness:
  "\<exists>sig \<in> set (rrs_sig set1). \<exists>key \<in> set (rrs_data keyset1).
     authentic any_ssl 300 (Entries []) 0 set1 (rr_rdata sig) (rr_rdata key) \<and> in_window 300 (Entries []) 0 (rr_rdata sig)"
proof -
  obtain as' trust' ctx' where run:
    "verify_next_assertion any_ssl 300 (Entries []) 0 False VAL_AC_UNSET (Some set1) (Some keyset1) =
      Some (VAL_AC_VERIFIED, as', trust', ctx')"
    by (rule run1_eq)
  show ?thesis
    using verified_assertion_is_signed [OF run _ _ run1_fresh] by (simp add: as_verified_def set1_def)
qed

text \<open>
  C2. When the walk of verify_and_validate along the chain of trust of an answer is done and
  turns an internal result that was VAL_DONT_KNOW into VAL_SUCCESS, the answer is vouched for:
  assertion after assertion is verified and names the one above as its trust, up to an assertion
  with the status of a trust anchor.
\<close>

theorem success_is_vouched:
  assumes "walk_chain E chase as_more w fl (Some r) thisdone ttl_x S = Some (VAL_NO_ERROR, True, ttl_x', S')"
    and "w < length (rs_work S)" "rc_status (rs_work S ! w) = VAL_DONT_KNOW" "rc_status (rs_work S' ! w) = VAL_SUCCESS"
  shows "vouched E fl (rs_validator S) r"
  by (rule walk_chain_success [OF assms])

theorem success_is_vouched_witness: "vouched venv1 0 chain1 (0, False, 0)"
proof -
  from walked1 obtain t S where
    run: "walk_chain venv1 chase1 (0, False, 0) 0 0 (Some (0, False, 0)) True 0 work1 = Some (VAL_NO_ERROR, True, t, S)"
    and st: "map rc_status (rs_work S) = [VAL_SUCCESS]" by (auto split: option.splits)
  from st have "rc_status (rs_work S ! 0) = VAL_SUCCESS" by (cases "rs_work S") simp_all
  from success_is_vouched [OF run _ _ this] show ?thesis by (simp add: work1_def)
qed

text \<open>
  C3. When try_verify_assertion verifies an assertion with the one that is to vouch for it, and
  the assertion comes out as verified although neither it nor a signature of it was, then a
  signature of its set is good under a key of the assertion that vouches (of the set itself, for
  a set of keys): the check that authentic describes, at the clock skew the policy gives.
\<close>

theorem verification_needs_signature:
  assumes "verify_with E r (Some t) fl v = Some v'" "get_as v r = Some as" "get_as v t = Some trust" "get_as v' r = Some as'"
    and "\<not> as_verified (val_ac_status as)" "as_verified (val_ac_status as')"
    and "ac_data as = Some s" "list_all (\<lambda>sig. \<not> sig_verified (rr_status sig)) (rrs_sig s)"
  shows "\<exists>sig \<in> set (rrs_sig s). \<exists>key \<in> set (if rrs_type_h s = ns_t_dnskey \<or> t = r then rrs_data s else rrs_data (the (ac_data trust))).
    authentic (ve_ssl E) (ve_now E) (va_skew v) fl s (rr_rdata sig) (rr_rdata key)"
  by (rule verify_with_sound [OF assms])

theorem verification_needs_signature_witness:
  "\<exists>sig \<in> set (rrs_sig set2). \<exists>key \<in> set (rrs_data keyset2). authentic any_ssl 300 (Entries []) 0 set2 (rr_rdata sig) (rr_rdata key)"
proof -
  from verified1 obtain v as' where run: "verify_with venv1 (0, False, 0) (Some (1, False, 0)) 0 chain1 = Some v"
    and as': "get_as v (0, False, 0) = Some as'" "val_ac_status as' = VAL_AC_VERIFIED" by (auto split: option.splits)
  have as: "get_as chain1 (0, False, 0) = Some \<lparr> val_ac_status = VAL_AC_WAIT_FOR_TRUST, ac_data = Some set2 \<rparr>"
    "get_as chain1 (1, False, 0) = Some \<lparr> val_ac_status = VAL_AC_TRUST_NOCHK, ac_data = Some keyset2 \<rparr>"
    by (simp_all add: get_as_def query_at_def chain1_def answered_query_def as_list_def)
  have "list_all (\<lambda>sig. \<not> sig_verified (rr_status sig)) (rrs_sig set2)" "rrs_type_h set2 = 1"
    by (simp_all add: set2_def set1_def sample_sig_def sig_verified_def)
  with verification_needs_signature [OF run as as'(1), of set2] as'(2) show ?thesis
    by (simp add: as_verified_def venv1_def chain1_def)
qed

text \<open>
  C4. is_trusted_key answers VAL_AC_TRUST_NOCHK only if a live trust anchor is configured for
  the very zone and the record data of one of the keys of the set is the configured DNSKEY,
  field by field, or has the algorithm and the key tag (of RFC 4034, but for RSA/MD5) of the
  configured DS record, whose digest (SHA-1, SHA-256 or SHA-384, by its type) is that of the
  canonical owner name followed by this data.
\<close>

theorem trusted_key_is_anchored:
  assumes "is_trusted_key C now closest_only (Entries es) zone keys fl t = Some (Inr (keys', VAL_AC_TRUST_NOCHK, t', ctx'))"
    and "valid_name zone"
  shows "\<exists>e \<in> set (live now es). namecmp (zone_n e) zone = Some 0 \<and>
    (\<exists>key \<in> rr_rdata ` set keys. anchored C e zone key)"
  by (rule is_trusted_key_sound [OF assms])

theorem trusted_key_is_anchored_witness:
  "\<exists>e \<in> set (live 300 [anchor1]). namecmp (zone_n e) name_A = Some 0 \<and>
    (\<exists>key \<in> rr_rdata ` set (rrs_data keyset1). anchored any_ssl e name_A key)"
proof -
  obtain keys' ctx' where run: "is_trusted_key any_ssl 300 False (Entries [anchor1]) name_A (rrs_data keyset1) 0 0 =
    Some (Inr (keys', VAL_AC_TRUST_NOCHK, 0, ctx'))"
    by (rule trusted1_eq)
  show ?thesis by (rule trusted_key_is_anchored [OF run]) simp
qed

text \<open>
  C5. When verify_provably_insecure, outside look-aside validation, says that an assertion is
  provably insecure, then the request was not itself part of such a search, find_trust_point has
  a trust point for the name of the set, and on the way down from there to the zone of the set
  (its parent, for the DS set of the zone itself) the last question that was asked was for the
  DS set of a zone at or above it and strictly below a zone that is the trust point or below it.
  The first result of that question is a denial of the DS type with proofs signed by the zone
  above only, or a validated DS set, signed by the zone above, all of whose records name an
  algorithm that cannot be used. The state is reached from that of the assertion by questions
  only.
\<close>


theorem insecurity_is_shown:
  assumes run: "verify_provably_insecure E chase r fl ttl_x v = Some (VAL_NO_ERROR, is_done, True, ttl_x', v')"
    and dlv: "fl AND VAL_QUERY_USING_DLV = 0"
    and as: "get_as v r = Some as" "ac_data as = Some s" "encodes (rrs_name_n s) ns"
    and zone: "encodes (if rrs_zonecut_n s = [] then rrs_name_n s else rrs_zonecut_n s) Z"
  shows "fl AND VAL_QUERY_SEC_LEAF = 0 \<and>
    (\<exists>tp ctx ts. find_trust_point (ve_now E) (va_ta v) (rrs_name_n s) = Some (VAL_NO_ERROR, tp, ttl_x', ctx) \<and> encodes tp ts \<and>
       shown_below chase fl (if rrs_type_h s = ns_t_ds \<and> cname Z = cname ns then tl Z else Z) ts (v\<lparr> va_ta := ctx \<rparr>) v')"
  by (rule verify_provably_insecure_below [OF assms])



theorem insecurity_is_shown_witness:
  "\<exists>ts ctx v'. shown_below (try_chase_query venv1 2) 0 [[0x62], [0x61]] ts (insecure1\<lparr> va_ta := ctx \<rparr>) v'"
proof -
  from insecure1_shown obtain t v where
    run: "verify_provably_insecure venv1 (try_chase_query venv1 2) (0, False, 0) 0 0 insecure1 = Some (VAL_NO_ERROR, True, True, t, v)"
    by (auto split: option.splits)
  have as: "get_as insecure1 (0, False, 0) = Some \<lparr> val_ac_status = VAL_AC_RRSIG_MISSING, ac_data = Some unsigned2 \<rparr>"
    by (simp add: get_as_def query_at_def insecure1_def answered_query_def as_list_def)
  have "rrs_name_n unsigned2 = name_ba" "rrs_zonecut_n unsigned2 = []" "rrs_type_h unsigned2 = 1"
    by (simp_all add: unsigned2_def set2_def set1_def)
  with insecurity_is_shown [OF run _ as, of unsigned2 "[[0x62], [0x61]]" "[[0x62], [0x61]]"] show ?thesis by auto
qed


text \<open>
  C6. make_sigfield builds exactly the data of RFC 4034 section 3.1.8.1: the fields of the
  signature with the signer name in lower case, then every record under the lowered owner name
  (or under the wildcard name that replaces its first labels) with type, class, original TTL,
  length and data; its length bookkeeping never rejects a set whose signer name is as long as
  that of the first signature.
\<close>

theorem sigfield_is_signed_data:
  assumes "encodes (rrs_name_n rs) xs" "w \<le> length xs"
    and "rrs_sig rs \<noteq> []" "encodes (drop SIGNBY (rr_rdata (hd (rrs_sig rs)))) zs"
    and "encodes (drop SIGNBY sig) ys" "length (enc ys) = length (enc zs)"
    and "list_all (\<lambda>rr. rr_rdata rr \<noteq> []) (rrs_data rs)"
  shows "\<exists>ttl. make_sigfield rs sig w = Some (rs\<lparr> rrs_ttl_h := ttl \<rparr>, Inr (signed_data xs w ys rs sig))"
  using make_sigfield_signed_data [OF assms] by metis

theorem sigfield_is_signed_data_witness:
  "\<exists>ttl. make_sigfield set1 sig1 1 = Some (set1\<lparr> rrs_ttl_h := ttl \<rparr>, Inr (signed_data [[0x41]] 1 [[0x61]] set1 sig1))"
proof -
  have "encodes (name_a @ [9]) [[0x61]]"
    using encodes_enc(1) [of "[[0x61]]" "[9]"] by simp
  then have "encodes (drop SIGNBY sig1) [[0x61]]" by (simp add: sig1_def put16_def)
  then show ?thesis
    by (intro sigfield_is_signed_data [of set1 "[[0x41]]" 1 "[[0x61]]"]) (simp_all add: set1_def)
qed
















text \<open>
  C10. In every reachable state of the requests of a context and the query cache they share,
  every query a request holds is allocated and its reference count is the number of references
  all requests hold, so it is positive: no query is freed under a request.
\<close>

theorem requests_stay_live:
  assumes "reachable C (c, cs)" "es \<in> set cs" "e \<in> set es"
  shows "\<exists>q. q_heap c (qfq_query e) = Some q \<and> qc_refcount q = int (refs cs (qfq_query e)) \<and> 0 < qc_refcount q"
  by (rule reachable_live [OF assms])

theorem requests_stay_live_witness: "\<exists>q. q_heap cache1 0 = Some q \<and> qc_refcount q = int (refs [[\<lparr> qfq_flags = 0, qfq_query = 0 \<rparr>]] 0)"
  using requests_stay_live [OF reachable1 [of any_ssl]] by auto

text \<open>
  C11. stow_info keeps a cache free of duplicate keys, of NSEC and NSEC3 sets and of names that
  are no names; the keys it adds are exactly those of the new sets in the bailiwick of the
  query; and what was there stays, at its place and with its time of expiry.
\<close>

theorem cache_store_invariant:
  assumes "wf_store l" "list_all ok_rrset new_info" "ok_bailiwick q"
  shows "\<exists>l' xs. stow_info l new_info (Some q) = Some l' \<and> wf_store l' \<and> stamps l' = stamps l @ xs \<and>
    rrset_key ` set l' = rrset_key ` set l \<union> rrset_key ` {n \<in> set new_info. storable q n}"
  by (rule stow_info_spec [OF assms])

theorem cache_store_invariant_witness:
  "\<exists>l'. stow_info [ns_set1] [a_set1] (Some (query1\<lparr> qc_zonecut_n := name_A \<rparr>)) = Some l' \<and> wf_store l' \<and>
    rrset_key ` set l' = {rrset_key ns_set1, rrset_key a_set1}"
proof -
  let ?q = "query1\<lparr> qc_zonecut_n := name_A \<rparr>"
  have q: "qc_name_n ?q = name_a" "qc_zonecut_n ?q = name_A" by (simp_all add: query1_def)
  have w: "wf_store [ns_set1]" "list_all ok_rrset [a_set1]" "ok_bailiwick ?q"
    unfolding ok_bailiwick_def q by (simp_all add: wf_store_def ok_rrset_def ns_set1_def a_set1_def)
  have "in_bailiwick name_ba (Some ?q) = Some True"
    using in_bailiwick_encodes [OF encodes_samples(4), of ?q "[[0x61]]" "[[0x41]]"] unfolding q
    by (simp add: subname_def cname_eq_iff tolower_def)
  then have s: "{n \<in> set [a_set1]. storable ?q n} = {a_set1}" by (auto simp: storable_def a_set1_def)
  from cache_store_invariant [OF w, unfolded s] obtain l' where "stow_info [ns_set1] [a_set1] (Some ?q) = Some l'" "wf_store l'"
    "rrset_key ` set l' = rrset_key ` set [ns_set1] \<union> rrset_key ` {a_set1}" by metis
  then show ?thesis by (intro exI [of _ l']) (simp add: insert_commute)
qed

text \<open>
  C12. When verify_and_validate returns without an error for a query that has been answered,
  every answer, or every proof, that the query then holds has an internal result, whatever was
  asked and fetched on the way and however often validation was started again with look-aside
  validation; for a query that still waits for its answer it changes nothing and leaves *done as
  it is.
\<close>


theorem every_answer_is_validated:
  assumes "verify_and_validate E chase t is_proof d S = Some (VAL_NO_ERROR, is_done, S')"
    and "query_at (rs_validator S) (qfq_query (qfq_at (rs_validator S) t)) = Some q0"
  shows "if qc_state q0 \<le> Q_SENT then S' = S \<and> is_done = d
    else \<exists>q. query_at (rs_validator S') (qfq_query (qfq_at (rs_validator S) t)) = Some q \<and>
      (\<forall>j<length (as_list is_proof q). (qfq_query (qfq_at (rs_validator S) t), is_proof, j) \<in> rc_rrset ` set (rs_work S'))"
proof (cases "qc_state q0 \<le> Q_SENT")
  case True
  with assms show ?thesis by (simp add: verify_and_validate_def Let_def)
next
  case False
  then have "Q_SENT < qc_state q0" by simp
  from verify_and_validate_covers [OF assms this] False show ?thesis by simp
qed



theorem every_answer_is_validated_witness:
  "\<exists>S :: results_state. map rc_status (rs_work S) = [VAL_SUCCESS] \<and> (0, False, 0) \<in> rc_rrset ` set (rs_work S)"
proof -
  from validated1 obtain S q where run: "verify_and_validate venv1 chase1 0 False False (work1\<lparr> rs_work := [] \<rparr>) = Some (VAL_NO_ERROR, True, S)"
    and S: "map rc_status (rs_work S) = [VAL_SUCCESS]" "query_at (rs_validator S) 0 = Some q" "length (qc_ans q) = 1"
    by (auto split: option.splits)
  have z: "qfq_query (qfq_at (rs_validator (work1\<lparr> rs_work := [] \<rparr>)) 0) = 0" by (simp add: qfq_at_def chain1_def work1_def)
  have q0: "query_at (rs_validator (work1\<lparr> rs_work := [] \<rparr>)) (qfq_query (qfq_at (rs_validator (work1\<lparr> rs_work := [] \<rparr>)) 0)) =
      Some (answered_query name_A 1 VAL_AC_WAIT_FOR_TRUST set2)"
    unfolding z by (simp add: query_at_def chain1_def work1_def)
  have "(0, False, 0) \<in> rc_rrset ` set (rs_work S)"
    using every_answer_is_validated [OF run q0] S unfolding z by (simp add: as_list_def answered_query_def)
  with S(1) show ?thesis by (intro exI [of _ S] conjI)
qed


text \<open>
  C13. Collecting a proof never writes behind the four places of val_rc_proofs: in every state
  whose result blocks have their four places and count at most four, transform_single_result of
  a proof into a given block, or a new one, returns (a write outside the array is a fault of the
  model) and leaves such a state, a block that is full included. What the chain of the proof
  needs to be read is assumed.
\<close>


theorem results_hold_four_proofs:
  assumes "proofs_fit S" "\<forall>i. p = Some i \<longrightarrow> i < length (rs_results S)" "rc_is_proof (rs_work S ! w)"
    and "rc_flags (rs_work S ! w) AND VAL_QUERY_AC_DETAIL \<noteq> 0 \<Longrightarrow>
      transform_chain E (Some (rc_rrset (rs_work S ! w))) (rc_flags (rs_work S ! w)) [] (rs_validator S) \<noteq> None"
  shows "\<exists>m S'. transform_single_result E (Some w) p S = Some (m, S') \<and> proofs_fit S'"
  by (rule transform_single_result_returns [OF assms])



theorem results_hold_four_proofs_witness:
  "\<exists>m S'. transform_single_result venv1 (Some 0) (Some 0) (denial_work\<lparr> rs_results := [result_block\<lparr> res_proof_count := 3 \<rparr>] \<rparr>) = Some (m, S') \<and>
     proofs_fit S'"
  by (rule results_hold_four_proofs) (use denial_chain in \<open>simp_all add: proofs_fit_def denial_work_def\<close>)


text \<open>
  C14. Whatever bytes a server sends, digest_response leads from a reachable state of the
  requests and the query cache to a reachable one in which every query of a request is alive and
  its reference count is the number of requests that use it; both caches stay well formed, and
  nothing that was in them is lost or gets another time of expiry.
\<close>

theorem response_keeps_references:
  assumes run: "digest_response C net now mr junk fr a bs (cs ! i, c, po, vc) = Some (ret, resp, queries, c', po', vc')"
    and "reachable C (c, cs)" "i < length cs" "inj fr" "\<forall>j. q_heap c (fr j) = None" "wf_cache vc"
  shows "reachable C (c', cs[i := queries]) \<and> extends vc vc' \<and>
    (\<forall>es\<in>set (cs[i := queries]). \<forall>e\<in>set es. \<exists>q. q_heap c' (qfq_query e) = Some q \<and>
       qc_refcount q = int (refs (cs[i := queries]) (qfq_query e)) \<and> 0 < qc_refcount q)"
proof -
  have "kept C cs i vc (dom (q_heap c)) (cs ! i, c, po, vc)" using assms by (simp add: kept_def extends_refl)
  moreover have "range fr \<inter> dom (q_heap c) = {}" using assms(5) by auto
  ultimately have "kept C cs i vc (dom (q_heap c) \<union> range fr) (queries, c', po', vc')"
    by (rule digest_response_kept [OF run _ assms(3,4)])
  then have "reachable C (c', cs[i := queries])" "extends vc vc'" by (simp_all add: kept_def)
  with reachable_live show ?thesis by blast
qed

theorem response_keeps_references_witness:
  "\<exists>resp c' po' vc'. digest_response any_ssl net4 0 (Some 1000) (\<lambda>_. 0) Suc 0 response1
     ([\<lparr> qfq_flags = 0, qfq_query = 0 \<rparr>], asked1, no_policies, free_validator_cache) =
       Some (VAL_NO_ERROR, resp, [\<lparr> qfq_flags = 0, qfq_query = 0 \<rparr>], c', po', vc') \<and> length (fst resp) = 1 \<and>
     (\<exists>q. q_heap c' 0 = Some q \<and> qc_refcount q = 1)"
proof -
  let ?es = "[\<lparr> qfq_flags = 0, qfq_query = 0 \<rparr>]"
  obtain answers proofs qnames c po vc where run: "digest_response any_ssl net4 0 (Some 1000) (\<lambda>_. 0) Suc 0 response1
     ([?es] ! 0, asked1, no_policies, free_validator_cache) = Some (VAL_NO_ERROR, (answers, proofs, qnames), ?es, c, po, vc)"
    "length answers = 1"
    using digested1_eq by (metis nth_Cons_0)
  have "\<forall>es\<in>set ([?es][0 := ?es]). \<forall>e\<in>set es. \<exists>q. q_heap c (qfq_query e) = Some q \<and>
       qc_refcount q = int (refs ([?es][0 := ?es]) (qfq_query e)) \<and> 0 < qc_refcount q"
    using response_keeps_references [OF run(1) asked1_reachable _ _ _ no_cache_wf]
    by (simp add: asked1_def cache1_def put_query_def)
  then have "\<exists>q. q_heap c 0 = Some q \<and> qc_refcount q = 1" by (auto simp: refs_def)
  with run show ?thesis by auto
qed

text \<open>
  C15. A response that is taken as the answer to its query, and does not have an alias clear its
  zone cut, puts no foreign data into the answer cache: every set that is new there afterwards,
  also by an exchange of the data of an entry, has a name at or below the zone whose servers the
  query was sent to. The condition is needed: a response with an alias clears the zone cut, and
  one with a referral replaces it by a zone that is not compared with it, and either can store
  data for foreign names (alias_leaves_the_zone, referral_leaves_the_zone).
\<close>


theorem response_within_bailiwick:
  assumes run: "digest_response C net now mr junk fr a bs (queries, c, po, vc) =
      Some (ret, (answers, proofs, qnames), queries', c', po', vc')"
    and sent: "q_heap c a = Some q" "encodes (qc_zonecut_n q) zs" "wf_cache vc"
    and kept: "q_heap c' a = Some q'" "qc_zonecut_n q' \<noteq> []" "qnames \<noteq> []"
  shows "\<forall>r \<in> set (unchecked_answers vc'). r \<in> set (unchecked_answers vc) \<or> (\<exists>xs. encodes (rrs_name_n r) xs \<and> subname xs zs)"
  using digest_response_below [OF assms] by (simp add: new_below_def name_below_def)



theorem response_within_bailiwick_witness:
  "case digested_in_zone response1 of None \<Rightarrow> False | Some (ret, resp, queries, c, po, vc) \<Rightarrow>
     map rrs_name_n (unchecked_answers vc) = [name_a] \<and> (\<forall>r \<in> set (unchecked_answers vc). \<exists>xs. encodes (rrs_name_n r) xs \<and> subname xs [[0x61]])"
proof -
  obtain answers proofs qnames queries c po vc where
    run: "digested_in_zone response1 = Some (VAL_NO_ERROR, (answers, proofs, qnames), queries, c, po, vc)" and
    d: "qnames \<noteq> []" "map rrs_name_n (unchecked_answers vc) = [name_a]" "map_option qc_zonecut_n (q_heap c 0) = Some name_a"
    using digested2_checked by (auto split: option.splits)
  obtain q' where q': "q_heap c 0 = Some q'" "qc_zonecut_n q' = name_a" using d(3) by auto
  have "\<forall>r \<in> set (unchecked_answers vc). r \<in> set (unchecked_answers free_validator_cache) \<or>
      (\<exists>xs. encodes (rrs_name_n r) xs \<and> subname xs [[0x61]])"
    by (rule response_within_bailiwick [OF run [unfolded digested_in_zone_def] _ _ no_cache_wf q'(1) _ d(1),
          where q = "query1\<lparr> qc_refcount := 1, qc_zonecut_n := name_a, qc_respondent_server := Some server1 \<rparr>"])
      (simp_all add: asked2_def put_query_def query1_def new_query_chain_def q'(2))
  with d(2) run show ?thesis by (auto simp: free_validator_cache_def)
qed


text \<open>
  C16. Whatever is done with the table of transactions from the start on - queueing, reading,
  checking, falling back, switching to TCP, cancelling -, the count of open sockets that
  res_io_send compares with the limit of the process is the number of arrivals in the table that
  hold a socket, it never passes that limit, and cancelling everything brings it to zero.
\<close>

theorem sockets_accounted:
  assumes "manager_reachable E m"
  shows "io_open (manager_io m) = table_sockets m \<and> io_open (manager_io m) \<le> init_max_fd (ev_rlimit E) \<and>
    io_open (manager_io (res_io_cancel_all m)) = 0"
proof -
  have "wf_manager E (res_io_cancel_all m)" using reachable_wf [OF assms] by (rule res_io_cancel_all_wf)
  moreover have "table_sockets (res_io_cancel_all m) = 0" by (simp add: table_sockets_def cancel_all_empty)
  ultimately show ?thesis using reachable_wf [OF assms] by (simp add: wf_manager_def)
qed

theorem sockets_accounted_witness:
  "\<exists>m. manager_reachable env1 m \<and> io_open (manager_io m) = 1 \<and> table_sockets m = 1"
proof -
  from checked1 obtain b ev m where m: "res_io_check env1 0 manager1 = Some (b, ev, m)" "io_open (manager_io m) = 1" by auto
  have "manager_reachable env1 manager1" using queued1 by (auto intro: manager_reachable.intros manager_step.queued)
  then have "manager_reachable env1 m" using m(1) by (auto intro: manager_reachable.later manager_step.checked)
  with sockets_accounted [OF this] m(2) show ?thesis by auto
qed

text \<open>
  C17. A query that was created for a well-formed name and servers with an address, a number of
  retries that is not negative and keys that are well-formed comes to an end: if checks come in
  time for the first arrival that is not finished again and again, then from some check on every
  arrival is finished, and no check reads what is not there.
\<close>

theorem queries_end:
  assumes "res_async_query_create E (text_name ls @ [0]) t c nss io = Some (eas, io')" "wf_name ls" "\<forall>ns\<in>set nss. askable E ns"
    and "length (ev_stack E) = payload_limit"
    and "\<forall>k. ended E clock k eas io' \<or> (\<exists>j\<ge>k. timely E clock j eas io')"
  shows "(\<forall>k. after_checks E clock k eas io' \<noteq> None) \<and> (\<exists>k. \<forall>j\<ge>k. ended E clock j eas io')"
  using created_query_ends [OF assms] after_checks_total [OF assms(4) query_create_ready [OF assms(1-3)]] by fastforce

theorem queries_end_witness:
  "\<exists>k. \<forall>j\<ge>k. ended env1 clock1 j [awaited1] (io_start\<lparr> io_draws := 1, io_ticks := 2 \<rparr>)"
proof -
  let ?io = "io_start\<lparr> io_draws := 1, io_ticks := 2 \<rparr>"
  have w: "wf_name [[0x61]]" by (simp add: wf_name_def wf_label_def)
  have a: "\<forall>ns\<in>set [once1]. askable env1 ns" by (simp add: askable1)
  have l: "length (ev_stack env1) = payload_limit" by simp
  have "ended env1 clock1 k [awaited1] ?io \<or> (\<exists>j\<ge>k. timely env1 clock1 j [awaited1] ?io)" for k
  proof (cases "k \<le> 1")
    case True
    with awaited1_runs(2) show ?thesis by blast
  next
    case False
    with ended_stays [OF l query_create_ready [OF created1 w a] awaited1_runs(3)] show ?thesis by simp
  qed
  with queries_end [OF created1 w a l] show ?thesis by blast
qed

text \<open>
  C18. A message that res_io_read leaves with an arrival that had none repeats the identifier of
  the query that was sent, its first name is the name asked for up to case, and one that came in
  a datagram is not truncated.
\<close>

theorem answer_repeats_question:
  assumes "read_arrival E ea io = Some (ea', io')" "ea_response ea = None" "ea_response ea' = Some (h' @ enc ys @ t')"
    and "ea_signed ea = h @ enc xs @ t" "wf_name xs" "wf_name ys" "length h = 12" "length h' = 12"
  shows "take 2 h' = take 2 h \<and> cname ys = cname xs \<and> (\<not> ea_using_stream ea \<longrightarrow> (\<exists>b. rd h' 2 = Some b \<and> b AND 2 = 0))"
proof -
  note e = read_arrival_expected [OF assms(1-3)]
  have "take 2 h' = take 2 h \<and> cname xs = cname ys"
    using e assms(4) by (intro is_expected_names [OF _ assms(5-8)]) auto
  moreover have "rd (h' @ enc ys @ t') 2 = rd h' 2" using assms(8) by (simp add: rd_def nth_append)
  ultimately show ?thesis using e by auto
qed

theorem answer_repeats_question_witness:
  "\<exists>ea io h. read_arrival env2 (awaited1\<lparr> ea_using_stream := True, ea_socket := Some 5 \<rparr>) io_start = Some (ea, io) \<and>
     ea_response ea = Some (h @ enc [[0x61]] @ [0, 1, 0, 1]) \<and> take 2 h = [7, 0]"
proof -
  let ?ea = "awaited1\<lparr> ea_using_stream := True, ea_socket := Some 5 \<rparr>"
  let ?h = "[7, 0, 0, 0, 0, 1, 0, 0, 0, 0, 0, 0] :: byte list"
  obtain ea io where r: "read_arrival env2 ?ea io_start = Some (ea, io)" "ea_response ea = Some payload1" using answered1 by auto
  have q: "ea_signed ?ea = ?h @ enc [[0x61]] @ [0, 1, 0, 1]" using payload1_split by (simp add: awaited1_def)
  have w: "wf_name [[0x61]]" by (simp add: wf_name_def wf_label_def)
  have n: "ea_response ?ea = None" by (simp add: awaited1_def)
  note s = r(2) [unfolded payload1_split]
  from answer_repeats_question [OF r(1) n s q w w] have "take 2 ?h = [7, 0]" by simp
  with r(1) s show ?thesis by blast
qed

text \<open>
  C19. The answer get_cached_rrset builds on is the canonical copy of a set of one of the caches
  that has not expired, has data and the class, and matches the name and type or stands for them
  as an alias; its time to live is what is left.
\<close>

theorem cached_answer_is_fresh:
  assumes "cached_answer now vc q = Some (Some a)"
  shows "\<exists>r\<in>set (unchecked_answers vc) \<union> set (unchecked_hints vc). \<exists>cp. now < uint (rrs_ttl_x r) \<and>
    rrs_class_h r = qc_class_h q \<and> store_match (qc_name_n q) (qc_type_h q) r = Some True \<and> rrs_data r \<noteq> [] \<and>
    copy_rrset_rec r = Some (Some cp) \<and> a = cp\<lparr> rrs_ttl_h := word_of_int (uint (rrs_ttl_x r) - now) \<rparr>"
  by (rule cached_answer_sound [OF assms])

theorem cached_answer_is_fresh_witness:
  "\<exists>a. cached_answer 400 \<lparr> unchecked_hints = [], unchecked_answers = [set1\<lparr> rrs_ttl_x := 1000 \<rparr>] \<rparr> query1 = Some (Some a) \<and> rrs_ttl_h a = 600"
proof -
  let ?r = "set1\<lparr> rrs_ttl_x := 1000 \<rparr>"
  let ?vc = "\<lparr> unchecked_hints = [], unchecked_answers = [?r] \<rparr>"
  have "map_option (map_option rrs_ttl_h) (cached_answer 400 ?vc query1) = Some (Some 600)" by code_simp
  then obtain a where a: "cached_answer 400 ?vc query1 = Some (Some a)" by auto
  from cached_answer_is_fresh [OF a] obtain cp where "a = cp\<lparr> rrs_ttl_h := word_of_int (1000 - 400) \<rparr>" by auto
  with a show ?thesis by auto
qed

text \<open>
  C20. A set that answers a query as a straight answer, by fails_to_answer_query, is owned by
  the name at the top of the chain of names and has the type and the class that were asked for.
\<close>

theorem straight_answer_matches:
  assumes "fails_to_answer_query qs qt qc (Some s) st = Some (False, st')" "rrs_ans_kind s = SR_ANS_STRAIGHT"
  shows "qs \<noteq> [] \<and> name_eq (rrs_name_n s) (hd qs) = Some True \<and> (rrs_type_h s = qt \<or> qt = ns_t_any) \<and>
    (rrs_class_h s = qc \<or> qc = ns_c_any)"
  using accepted_straight [OF assms] name_in_q_names_top by blast

theorem straight_answer_matches_witness:
  "fails_to_answer_query [name_a] 1 1 (Some (set1\<lparr> rrs_ans_kind := 1 \<rparr>)) 0 = Some (False, 0) \<and> name_eq name_A name_a = Some True"
proof -
  have run: "fails_to_answer_query [name_a] 1 1 (Some (set1\<lparr> rrs_ans_kind := 1 \<rparr>)) 0 = Some (False, 0)" by code_simp
  with straight_answer_matches [OF run] show ?thesis by (simp add: set1_def)
qed

text \<open>
  C21. For a DNAME record at a proper ancestor of the name at the top of the chain,
  process_cname_dname_responses puts the labels below the ancestor in front of the target, as
  RFC 6672 asks, when the new name fits; it refuses a name that is too long and an owner name
  that was registered before.
\<close>

theorem dname_substitution:
  assumes "ok_aliases q" "qnames \<noteq> []" "encodes (hd qnames) xs" "encodes n ys" "encodes rdata zs"
    "subname xs ys" "length ys < length xs" "qc_type_h q \<noteq> ns_t_dname"
  shows "process_cname_dname_responses n ns_t_dname rdata q qnames = Some (VAL_NO_ERROR,
    (if NS_MAXCDNAME < length (enc (under xs ys @ zs)) then (q\<lparr> qc_state := Q_REFERRAL_ERROR \<rparr>, qnames, True)
     else if alias_seen q n then (with_alias q n, enc ys # qnames, True)
     else ((with_alias q n)\<lparr> qc_state := Q_INIT \<rparr>, enc (under xs ys @ zs) # enc ys # qnames, False)))"
  by (rule dname_followed [OF assms])

theorem dname_substitution_witness:
  "\<exists>q'. process_cname_dname_responses name_A ns_t_dname name_b query1 [name_ba] =
    Some (VAL_NO_ERROR, q', [[1, 0x62, 1, 0x62, 0], name_A, name_ba], False)"
proof -
  have e: "encodes name_b [[0x62]]" using encodes_enc(2) [of "[[0x62]]"] by simp
  show ?thesis
    using dname_substitution [of query1 "[name_ba]", OF _ _ _ encodes_samples(3) e, of "[[0x62], [0x61]]"] encodes_samples(4)
    by (simp add: ok_aliases_def alias_seen_def referral_block_def query1_def new_query_chain_def new_delegation_def
        subname_def under_def cname_eq_iff tolower_def)
qed

text \<open>
  C22. val_sigverify accepts a signature without an earlier verdict only under a zone key of
  protocol 3 and of its algorithm, inside the window from inception minus skew to expiration
  plus skew (where the 32-bit sum and difference do not wrap), and when the primitive accepts
  it.
\<close>

theorem sigverify_time_window:
  assumes "val_sigverify C now w data dnskey rrsig (k, s) skew = Some (True, k', s')" "s \<noteq> VAL_AC_RRSIG_VERIFIED"
    and "0 \<le> skew" "skew \<le> uint (sig_incp rrsig)" "uint (sig_expr rrsig) + skew < 2 ^ 32"
  shows "flags dnskey AND ZONE_KEY_FLAG \<noteq> 0 \<and> protocol dnskey = 3 \<and> algorithm dnskey = sig_algorithm rrsig \<and>
    uint (sig_incp rrsig) - skew \<le> now \<and> now \<le> uint (sig_expr rrsig) + skew \<and> signed_by C data dnskey rrsig"
  using val_sigverify_sound(1-5) [OF assms(1,2)] sig_time_window [OF assms(3-5)] by blast

theorem sigverify_time_window_witness:
  "signed_by any_ssl [] \<lparr> flags = 256, protocol = 3, algorithm = 5, public_key = [1, 3, 7], key_tag = 0 \<rparr>
    \<lparr> type_covered = 1, sig_algorithm = 5, labels = 1, orig_ttl = 0, sig_expr = 500, sig_incp = 400, sig_key_tag = 0,
       signer_name = [], signature = [] \<rparr>"
proof -
  let ?k = "\<lparr> flags = 256, protocol = 3, algorithm = 5, public_key = [1, 3, 7], key_tag = 0 \<rparr>"
  let ?s = "\<lparr> type_covered = 1, sig_algorithm = 5, labels = 1, orig_ttl = 0, sig_expr = 500, sig_incp = 400, sig_key_tag = 0,
       signer_name = [], signature = [] \<rparr>"
  have "val_sigverify any_ssl 390 0 [] ?k ?s (0, 0) 20 = Some (True, 0, VAL_AC_RRSIG_VERIFIED_SKEW)"
    by code_simp
  from sigverify_time_window [OF this] show ?thesis by simp
qed

text \<open>
  C23. namecmp compares two names as the canonical order of RFC 4034 section 6.1 does: the sign
  of its answer is that of the comparison of the canonical names, and it stays inside both
  names.
\<close>

theorem namecmp_canonical:
  assumes "encodes n1 xs" "encodes n2 ys"
  shows "\<exists>r. namecmp n1 n2 = Some r \<and> sgn r = ocmp (cname xs) (cname ys)"
  using namecmp_encodes [OF assms] by metis

theorem namecmp_canonical_witness:
  "\<exists>r. namecmp name_A name_ba = Some r \<and> sgn r = ocmp (cname [[0x41]]) (cname [[0x62], [0x61]])"
  by (rule namecmp_canonical [OF encodes_samples(3,4)])

text \<open>
  C24. merge_rrset_recs refines the merge of finite maps: for lists without duplicate keys and
  whatever the spelling of the names, every key of either list is kept once, in the order of the
  old list and then of the new one, and where both have a key the entry of lower credibility and
  section rank wins the data.
\<close>

theorem merge_is_spec:
  assumes "list_all ok_rrset dest" "list_all ok_rrset new_info"
    and "distinct (map rrset_key dest)" "distinct (map rrset_key new_info)"
  shows "\<exists>l. merge_rrset_recs dest new_info = Some l \<and> distinct (map rrset_key l) \<and>
    map rrset_key l = map rrset_key dest @ filter (\<lambda>k. k \<notin> set (map rrset_key dest)) (map rrset_key new_info) \<and>
    l = merge_spec dest new_info"
  using merge_eq_spec [OF assms] merge_spec_distinct [OF assms(3,4)] merge_spec_keys by blast

theorem merge_is_spec_witness:
  "\<exists>l. merge_rrset_recs [set1] [keyset1, set1\<lparr> rrs_name_n := name_a \<rparr>] = Some l \<and>
    map rrset_key l = [rrset_key set1, rrset_key keyset1]"
proof -
  have c: "canon name_A = canon name_a"
    using canon_eq_iff [OF encodes_samples(3,2)] by (simp add: cname_eq_iff tolower_def)
  obtain l where "merge_rrset_recs [set1] [keyset1, set1\<lparr> rrs_name_n := name_a \<rparr>] = Some l"
    "map rrset_key l = map rrset_key [set1] @ filter (\<lambda>k. k \<notin> set (map rrset_key [set1]))
      (map rrset_key [keyset1, set1\<lparr> rrs_name_n := name_a \<rparr>])"
    using merge_is_spec [of "[set1]" "[keyset1, set1\<lparr> rrs_name_n := name_a \<rparr>]"]
    by (auto simp: ok_rrset_def set1_def keyset1_def rrset_key_def)
  with c show ?thesis by (simp add: rrset_key_def set1_def keyset1_def)
qed

text \<open>
  C25. copy_rrset_rec makes the canonical copy of a well-formed set: the data are exactly the
  data of the set with their names in lower case, in increasing order and without duplicates, as
  RFC 4034 section 6.3 asks for signing.
\<close>

theorem canonical_copy_of_set:
  assumes "wf_rrset rs"
  shows "\<exists>rs'. copy_rrset_rec rs = Some (Some rs') \<and>
    rdatas (rrs_data rs') = sorted_list_of_set ((\<lambda>r. the (lower (rrs_type_h rs) (rr_rdata r))) ` set (rrs_data rs)) \<and>
    rdatas (rrs_sig rs') = sorted_list_of_set (rr_rdata ` set (rrs_sig rs)) \<and> rrset_key rs' = rrset_key rs"
  using copy_rrset_rec_ok [OF assms] canonical_copy_key [OF assms]
  by (simp add: canonical_copy_def canonical_rrs_rdatas)

theorem canonical_copy_of_set_witness:
  "\<exists>rs'. copy_rrset_rec set1 = Some (Some rs') \<and> rdatas (rrs_data rs') = [[10, 0, 0, 1]] \<and>
    rdatas (rrs_sig rs') = [sig1] \<and> rrset_key rs' = rrset_key set1"
proof -
  have "wf_rrset set1"
    by (simp add: wf_rrset_def set1_def ok_rr_def lower_def zero_rrset_def sig1_def two_names_first_def
        one_name_first_def prefix_then_name_def)
  from canonical_copy_of_set [OF this] show ?thesis
    by (simp add: set1_def lower_def two_names_first_def one_name_first_def prefix_then_name_def)
qed

text \<open>
  C26. Whatever is read from configuration files, added or removed by a program or dropped by a
  look-up, every list of policies of a context holds only policies of the type that the index of
  the list stands for (the code casts the untyped pointer of an entry by that index), for well-
  formed zones, the longer zones first.
\<close>

theorem configured_policies_typed:
  assumes "fresh_context ctx" "(config_step C le)\<^sup>*\<^sup>* ctx ctx'" "e_pol ctx' k = Entries es"
  shows "wf_entries k es \<and> longest_first es"
  using reached_context_wf [OF assms(2) fresh_context_wf [OF assms(1)]] assms(3) by (simp add: wf_context_def)

theorem configured_policies_typed_witness:
  "\<exists>ctx. config_step any_ssl False programmed1 ctx \<and> e_pol ctx P_CLOCK_SKEW = Entries (skew_in ctx) \<and>
     length (skew_in ctx) = 1 \<and> wf_entries P_CLOCK_SKEW (skew_in ctx)"
proof -
  obtain r ctx where run: "read_val_config_file any_ssl False no_files None programmed1 = Some (Some (r, ctx))"
    and "skew_in ctx = [skew_entry name_a 60]"
    using programmed1_read by (auto split: option.splits)
  then have "e_pol ctx P_CLOCK_SKEW = Entries (skew_in ctx)" "length (skew_in ctx) = 1"
    by (auto simp: skew_in_def split: e_pol.splits)
  moreover have s: "config_step any_ssl False programmed1 ctx" using run by (rule Read)
  ultimately show ?thesis
    using configured_policies_typed [OF programmed1_fresh, of any_ssl False ctx P_CLOCK_SKEW "skew_in ctx"] s by blast
qed

text \<open>
  C27. After a reading, the policy the context finds first for a zone is the last one stored for
  it, among the fragments of the files and after them the policies the program brings, and
  nothing else is left of what the context held before. The fragments of the files are in the
  order of the number of levels of their labels, whatever order the files have them in, so that
  one with a more specific label replaces one with a more general label; without a scope only
  the most general one is used.
\<close>


theorem later_policy_wins:
  assumes "read_config C le H scope ctx = Some (Some (Inr (dlist, cp)))"
    and "read_val_config_file C le H scope ctx = Some (Some (r, ctx'))"
  shows "r = VAL_NO_ERROR \<and> by_generality (cp_overrides cp) \<and>
    (\<exists>es. e_pol ctx' k = Entries es \<and> for_zone z es = last_for z (all_entries k (effective ctx cp)))"
proof -
  from assms have "r = VAL_NO_ERROR" "install_config H dlist cp ctx = Some ctx'"
    by (auto simp: read_val_config_file_def split: Option.bind_splits)
  with install_config_for_zone ordered.read_config_kept [OF assms(1)] show ?thesis by blast
qed



theorem later_policy_wins_witness:
  "\<exists>ctx. read_val_config_file any_ssl False one_file (Some [0x6d]) filed1 = Some (Some (VAL_NO_ERROR, ctx)) \<and>
     (\<exists>es. e_pol ctx P_CLOCK_SKEW = Entries es \<and> for_zone name_a es = Some (skew_entry name_a 90))"
proof -
  obtain dlist cp where c: "read_config any_ssl False one_file (Some [0x6d]) filed1 = Some (Some (Inr (dlist, cp)))"
    "all_entries P_CLOCK_SKEW (effective filed1 cp) = [skew_entry name_a 60, skew_entry name_a 90]"
    using filed1_read by (auto split: option.splits sum.splits)
  obtain r ctx where run: "read_val_config_file any_ssl False one_file (Some [0x6d]) filed1 = Some (Some (r, ctx))"
    using filed1_result by (auto split: option.splits)
  from later_policy_wins [OF c(1) run, of P_CLOCK_SKEW name_a] run c(2) show ?thesis
    by (simp add: last_for_def skew_entry_def)
qed


text \<open>
  C28. Reading the configuration ends when finitely many files can be read, however they include
  each other and whatever is in them.
\<close>

theorem config_reading_ends:
  assumes "finite {name. readable H name}"
  shows "\<exists>r. read_val_config_file C le H scope ctx = Some r"
  using assms by (rule read_val_config_file_returns)

theorem config_reading_ends_witness:
  "\<exists>r. read_val_config_file any_ssl False one_file (Some [0x6d]) filed1 = Some r"
proof (rule config_reading_ends)
  have "{name. readable one_file name} \<subseteq> {[0x63]}" by (auto simp: readable_def one_file_def no_files_def split: if_splits)
  then show "finite {name. readable one_file name}" by (rule finite_subset) simp
qed

text \<open>
  C29. get_zse answers the status, the zone and the time to live of the live zone-security-
  expectation entry that governs the name, which is the longest zone with a policy the name is
  in when the list is kept with the longer zones first; when the name is in no zone with a
  policy it answers the default, VAL_AC_WAIT_FOR_TRUST, and leaves the time to live alone.
\<close>


theorem zone_policy_longest:
  assumes "ok_entries es" "valid_name n" "longest_first es"
  shows "case governing (live now es) n of
      None \<Rightarrow> (\<forall>e \<in> set (live now es). in_zone n (zone_n e) \<longrightarrow> pol e = None) \<and>
        (\<exists>ctx'. get_zse now (Entries es) n ttl_x = Some (Inr (VAL_AC_WAIT_FOR_TRUST, None, ttl_x, ctx')))
    | Some e \<Rightarrow> e \<in> set (live now es) \<and> in_zone n (zone_n e) \<and> pol e \<noteq> None \<and>
        (\<forall>e' \<in> set (live now es). in_zone n (zone_n e') \<longrightarrow> pol e' \<noteq> None \<longrightarrow> name_len (zone_n e') \<le> name_len (zone_n e)) \<and>
        (\<exists>ctx'. get_zse now (Entries es) n ttl_x = Some (Inr (zse_status (the (pol e)), the (namename n (zone_n e)),
           if 0 < exp_ttl e then word_of_int (exp_ttl e) else ttl_x, ctx')))"
proof -
  obtain ctx' where run: "get_zse now (Entries es) n ttl_x = Some (Inr (case governing (live now es) n of
    None \<Rightarrow> (VAL_AC_WAIT_FOR_TRUST, None, ttl_x, ctx')
  | Some e \<Rightarrow> (zse_status (the (pol e)), the (namename n (zone_n e)),
      if 0 < exp_ttl e then word_of_int (exp_ttl e) else ttl_x, ctx')))"
    by (rule get_zse_governing [OF assms(1,2)])
  show ?thesis
  proof (cases "governing (live now es) n")
    case None
    then have "\<forall>e \<in> set (live now es). in_zone n (zone_n e) \<longrightarrow> pol e = None"
      by (auto simp: governing_def find_None_iff)
    with run None show ?thesis by simp
  next
    case (Some e)
    then have "e \<in> set (live now es) \<and> in_zone n (zone_n e) \<and> pol e \<noteq> None"
      using nth_mem [of _ "live now es"] unfolding governing_def find_Some_iff by blast
    with run Some governing_longest [OF longest_first_live [OF assms(3)] Some] show ?thesis by auto
  qed
qed



theorem zone_policy_longest_witness:
  "\<exists>m t ctx' ctx''. get_zse 300 (Entries [\<lparr> zone_n = name_a, exp_ttl = 0, pol = Some ZONE_SE_IGNORE \<rparr>]) name_ba 0 =
      Some (Inr (VAL_AC_IGNORE_VALIDATION, m, t, ctx')) \<and>
    get_zse 300 (Entries [\<lparr> zone_n = name_ba, exp_ttl = 0, pol = Some ZONE_SE_IGNORE \<rparr>]) name_a 0 =
      Some (Inr (VAL_AC_WAIT_FOR_TRUST, None, 0, ctx''))"
proof -
  let ?e = "\<lambda>z. \<lparr> zone_n = z, exp_ttl = 0, pol = Some ZONE_SE_IGNORE \<rparr>"
  have "in_zone name_ba name_a" "\<not> in_zone name_a name_ba"
    by (simp_all add: in_zone_encodes [OF encodes_samples(4,2)] in_zone_encodes [OF encodes_samples(2,4)] subname_def)
  then have g: "governing (live 300 [?e name_a]) name_ba = Some (?e name_a)" "governing (live 300 [?e name_ba]) name_a = None"
    by (simp_all add: governing_def expired_def)
  have "\<exists>m t ctx'. get_zse 300 (Entries [?e name_a]) name_ba 0 = Some (Inr (VAL_AC_IGNORE_VALIDATION, m, t, ctx'))"
    using zone_policy_longest [of "[?e name_a]" name_ba 300 0] unfolding g(1) by (simp add: longest_first_def zse_status_def) blast
  moreover have "\<exists>ctx'. get_zse 300 (Entries [?e name_ba]) name_a 0 = Some (Inr (VAL_AC_WAIT_FOR_TRUST, None, 0, ctx'))"
    using zone_policy_longest [of "[?e name_ba]" name_a 300 0] unfolding g(2) by (simp add: longest_first_def)
  ultimately show ?thesis by blast
qed


text \<open>
  C30. find_trust_point answers the closest of the name and its parents that a live trust anchor
  is configured for, with the time to live of that anchor, and no zone when there is none.
\<close>

theorem trust_point_closest:
  assumes "encodes zone xs" "ok_entries es" "longest_first es"
  shows "\<exists>ctx'. find_trust_point now (Entries es) zone = Some (case closest (\<lambda>_. True) (live now es) xs of
    None \<Rightarrow> (VAL_NO_ERROR, [], 0, ctx')
  | Some (zs, e) \<Rightarrow> (VAL_NO_ERROR, enc zs, entry_ttl e 0, ctx'))"
  by (rule find_trust_point_closest [OF assms]) (rule exI)

theorem trust_point_closest_witness: "\<exists>ctx'. find_trust_point 300 (Entries [anchor1]) name_ba = Some (VAL_NO_ERROR, name_a, 0, ctx')"
proof -
  have c: "closest (\<lambda>_. True) [anchor1] [[0x62], [0x61]] = Some ([[0x61]], anchor1)"
    using canon_encodes [of name_a "[[0x61]]"] canon_encodes [of name_ba "[[0x62], [0x61]]"]
    by (simp add: closest.simps [of _ _ "_ # _"] names_zone_def anchor1_def tolower_def)
  then show ?thesis
    using trust_point_closest [OF encodes_samples(4), of "[anchor1]" 300]
    by (simp add: longest_first_def anchor1_def expired_def)
qed

text \<open>
  C31. ns_name_unpack returns on every message, whatever pointer loops it holds, and stays
  inside the message and the destination, unless the message ends in the label type byte 0x41.
\<close>

theorem unpack_never_faults:
  assumes "src < length msg" "last msg \<noteq> DNS_LABELTYPE_BITSTRING" "0 < dstsiz"
  shows "ns_name_unpack msg (length msg) src dstsiz \<noteq> None"
  using unpack_loop_safe [of src "length msg" msg "[]" dstsiz src 0 None] assms by (simp add: ns_name_unpack_def)

theorem unpack_never_faults_witness: "ns_name_unpack [0xc0, 2, 0xc0, 0] (length [0xc0, 2, 0xc0, 0 :: byte]) 0 255 \<noteq> None"
  by (rule unpack_never_faults) simp_all

text \<open>
  C32. What ns_name_unpack writes is the expansion of the compressed name at the source offset:
  the labels it passes, following pointers, closed by the root, and no longer than the
  destination.
\<close>

theorem unpack_expands:
  assumes "ns_name_unpack msg eom src dstsiz = Some (Some (n, res))"
  shows "\<exists>cs. expands msg src cs \<and> res = concat cs @ [0] \<and> length res \<le> dstsiz"
proof -
  have "unpack_loop msg eom src dstsiz src 0 None [] = Some (Some (n, res))"
    using assms by (simp add: ns_name_unpack_def split: if_split_asm)
  from unpack_loop_sound [OF this] show ?thesis by simp
qed

theorem unpack_expands_witness:
  "\<exists>cs. expands [1, 0x61, 0, 1, 0x62, 0xc0, 0] 3 cs \<and> [1, 0x62, 1, 0x61, 0] = concat cs @ [0] \<and> length [1, 0x62, 1, 0x61, 0 :: byte] \<le> 255"
  by (rule unpack_expands [where n = 4 and eom = 7]) code_simp

text \<open>
  C33. Printing a name with ns_name_ntop into a buffer that is large enough and reading the text
  back with ns_name_pton gives the name, with every escape the printer uses.
\<close>

theorem name_text_roundtrip:
  assumes "wf_name ls" "ns_name_ntop (enc ls @ t) dstsiz = Some (Some text)" "length (enc ls) \<le> length dst"
  shows "\<exists>r. ns_name_pton text dst = Some (Some (r, enc ls @ drop (length (enc ls)) dst))"
proof -
  have "text = text_name ls @ [0]"
    using assms(2) ntop_enc [OF wf_name_labels [OF assms(1)], of t dstsiz] by (auto split: if_split_asm)
  with pton_text [OF assms(1,3), of "[]"] show ?thesis by auto
qed

theorem name_text_roundtrip_witness:
  "\<exists>r. ns_name_pton (map (word_of_nat \<circ> of_char) ''b.a'' @ [0]) (replicate 255 0) =
    Some (Some (r, name_ba @ replicate 250 0))"
proof -
  have "ns_name_ntop (enc [[0x62], [0x61]] @ []) 255 = Some (Some (map (word_of_nat \<circ> of_char) ''b.a'' @ [0]))"
    by code_simp
  from name_text_roundtrip [OF _ this, of "replicate 255 0"] show ?thesis by simp
qed

text \<open>
  C34. The payload of a query for a name in text form, to a server without a shared key, is read
  back by the parsers of messages as one question with exactly that name, type and class, no
  records but an OPT record with the DO bit and the configured size when EDNS0 is wanted, and
  the bits for recursion and for disabled checking as the options of the server say.
\<close>

theorem query_is_read_back:
  assumes "wf_name ls" "length junk = payload_limit" "ns_security_options ns AND ZONE_USE_TSIG = 0"
  shows "\<exists>q. res_create_query_payload C le qid now ns junk (text_name ls @ [0]) class_h type_h = Some (Some q) \<and>
    ns_name_unpack q (length q) 12 NS_MAXCDNAME = Some (Some (length (enc ls), enc ls)) \<and>
    get16 q (12 + length (enc ls)) = Some type_h \<and> get16 q (14 + length (enc ls)) = Some class_h \<and>
    take 2 q = host16 le qid \<and> get16 q 4 = Some 1 \<and>
    rd q 2 = Some (if ns_options ns AND SR_QUERY_RECURSE \<noteq> 0 then rd_bit else 0) \<and>
    rd q 3 = Some (if ns_options ns AND SR_QUERY_SET_CD \<noteq> 0 then cd_bit else 0) \<and>
    (if ns_options ns AND SR_QUERY_SET_DO = 0
     then header_of q = Some (0, 0, 0, False, 0) \<and> length q = 16 + length (enc ls)
     else header_of q = Some (0, 0, 1, False, 0) \<and>
       extract_from_rr q (16 + length (enc ls)) (length q) = Some (Inr \<lparr> rf_name = [0], rf_type_h = ns_t_opt,
         rf_set_type_h = ns_t_opt, rf_class_h = word_of_int (ns_edns0_size ns), rf_ttl_h = 0x8000, rf_rdata_length_h = 0,
         rf_rdata_index = 27 + length (enc ls), rf_response_index = length q \<rparr>))"
  using payload_plain [OF assms] query_reads [OF assms(1)] by blast

theorem query_is_read_back_witness:
  "\<exists>q. res_create_query_payload hmac1 True 7 0 keyless1 (replicate payload_limit 0xee) (text_name [[0x62], [0x61]] @ [0]) 1 ns_t_dnskey =
     Some (Some q) \<and> get16 q 17 = Some ns_t_dnskey"
proof -
  have "wf_name [[0x62], [0x61]]" "length (replicate payload_limit (0xee :: byte)) = payload_limit" "ns_security_options keyless1 AND ZONE_USE_TSIG = 0"
    by simp_all
  then obtain q where "res_create_query_payload hmac1 True 7 0 keyless1 (replicate payload_limit 0xee) (text_name [[0x62], [0x61]] @ [0]) 1 ns_t_dnskey =
      Some (Some q)" "get16 q (12 + length (enc [[0x62], [0x61]])) = Some ns_t_dnskey"
    using query_is_read_back by blast
  then show ?thesis by (intro exI [of _ q]) simp
qed

text \<open>
  C35. With a well-formed shared key the payload is the query with one more record counted and a
  TSIG record at its end: a parser of messages finds that record there, and its MAC is the HMAC
  under the key over the query as it was before the record was counted and the variables of RFC
  2845, with the identifier of the query repeated after it.
\<close>

theorem signed_query_is_rfc2845:
  assumes "wf_name ls" "length junk = payload_limit" "ns_security_options ns AND ZONE_USE_TSIG \<noteq> 0"
    and "ns_tsig ns = Some t" "wf_tsig t nls als md" "hmac_sized C" "q = query_bytes le qid ns ls type_h class_h"
  shows "\<exists>p n qid' mac. get16 q 10 = Some n \<and> get16 q 0 = Some qid' \<and>
    res_create_query_payload C le qid now ns junk (text_name ls @ [0]) class_h type_h = Some (Some p) \<and>
    take (length q) p = with_arcount (n + 1) q \<and>
    mac = HMAC C md (take (unat (ts_keylen t)) (ts_key t)) (q @ tsig_variables now t nls als) \<and>
    drop (length q + length (enc nls) + 10) p = tsig_rdata now t als mac qid' \<and>
    extract_from_rr p (length q) (length p) = Some (Inr \<lparr> rf_name = enc nls, rf_type_h = ns_t_tsig, rf_set_type_h = ns_t_tsig,
      rf_class_h = ns_t_any, rf_ttl_h = 0, rf_rdata_length_h = length (enc als) + 16 + digest_length md,
      rf_rdata_index = length q + length (enc nls) + 10, rf_response_index = length p \<rparr>)"
  using assms by (rule signed_payload_reads)

theorem signed_query_is_rfc2845_witness:
  "\<exists>t p. res_set_ns_tsig hmac1 keyless1 (bytes ''K::60:x'') = Some (Some (keyless1\<lparr> ns_tsig := Some t, ns_security_options := 1 \<rparr>)) \<and>
     res_create_query_payload hmac1 True 7 9 (keyless1\<lparr> ns_tsig := Some t, ns_security_options := 1 \<rparr>) (replicate payload_limit 0)
       (text_name [[0x61]] @ [0]) 1 1 = Some (Some p) \<and> take 2 p = host16 True 7"
proof -
  obtain t als where t: "res_set_ns_tsig hmac1 keyless1 (bytes ''K::60:x'') = Some (Some (keyless1\<lparr> ns_tsig := Some t, ns_security_options := 1 \<rparr>))"
    "wf_tsig t [[0x6b]] als MD5"
    using keyed1 by blast
  let ?ns = "keyless1\<lparr> ns_tsig := Some t, ns_security_options := 1 \<rparr>"
  obtain p n where p: "res_create_query_payload hmac1 True 7 9 ?ns (replicate payload_limit 0) (text_name [[0x61]] @ [0]) 1 1 = Some (Some p)"
    "take (length (query_bytes True 7 ?ns [[0x61]] 1 1)) p = with_arcount (n + 1) (query_bytes True 7 ?ns [[0x61]] 1 1)"
    using signed_query_is_rfc2845 [of "[[0x61]]" "replicate payload_limit 0" ?ns t "[[0x6b]]" als MD5 hmac1 _ True 7 1 1 9] t(2) hmac1_sized
    by auto
  from p(2) have "take 2 p = host16 True 7" by (rule query_prefix)
  with t(1) p(1) show ?thesis by blast
qed

text \<open>
  C36. keytag, which adds in 32 bits and folds the carry once, computes the key tag of RFC 4034
  appendix B over unbounded numbers for every record data that fits a DNS message.
\<close>

theorem keytag_is_rfc4034:
  assumes "length key \<le> 65535"
  shows "unat (keytag key) = (tag_sum key + tag_sum key div 65536) mod 65536"
  by (rule keytag_rfc4034 [OF assms])

theorem keytag_is_rfc4034_witness: "unat (keytag [0xff, 0xff, 0xff, 0xff, 0, 3]) = 3"
proof -
  have t: "tag_sum [0xff, 0xff, 0xff, 0xff, 0, 3] = 131073" by simp
  have "length [0xff, 0xff, 0xff, 0xff, 0, 3 :: byte] \<le> 65535" by simp
  from keytag_is_rfc4034 [OF this] have "unat (keytag [0xff, 0xff, 0xff, 0xff, 0, 3]) = (131073 + 131073 div 65536) mod 65536"
    unfolding t .
  then show ?thesis by simp
qed

text \<open>
  C37. check_wildcard_sanity can accept an answer that was expanded from a wildcard only when
  the caller asked for the details of the authentication chain: without VAL_QUERY_AC_DETAIL
  val_rc_answer stays empty, so the result of such an answer is always VAL_BOGUS or
  VAL_INDETERMINATE, whatever was proved.
\<close>

theorem wildcard_needs_detail:
  assumes "check_one_wildcard E a w S = Some (VAL_NO_ERROR, S')" "\<not> rc_is_proof (rs_work S ! w)"
    and "rc_flags (rs_work S ! w) AND VAL_QUERY_AC_DETAIL = 0"
  shows "length (rs_results S) < length (rs_results S') \<and>
    res_status (rs_results S' ! length (rs_results S)) \<in> {VAL_BOGUS, VAL_INDETERMINATE}"
  by (rule wildcard_without_detail [OF assms])

theorem wildcard_needs_detail_witness:
  "\<exists>S. check_one_wildcard venv1 0 0 wild1 = Some (VAL_NO_ERROR, S) \<and> res_status (rs_results S ! 0) \<in> {VAL_BOGUS, VAL_INDETERMINATE}"
proof -
  from wild1_checked obtain S where run: "check_one_wildcard venv1 0 0 wild1 = Some (VAL_NO_ERROR, S)" by (auto split: option.splits)
  from wildcard_needs_detail [OF run] run show ?thesis by (simp add: wild1_def work1_def)
qed

text \<open>
  C38. When the signer name of the first signature of a set is longer than what another
  signature of the set holds, make_sigfield copies past the end of that signature: the length is
  always taken from the first one.
\<close>

theorem sigfield_overread:
  assumes "encodes (rrs_name_n rs) xs" "rrs_sig rs \<noteq> []"
    and "encodes (drop SIGNBY (rr_rdata (hd (rrs_sig rs)))) zs" "length sig < SIGNBY + length (enc zs)"
  shows "make_sigfield rs sig w = None"
  by (rule make_sigfield_overread [OF assms])

theorem sigfield_overread_witness: "make_sigfield set1 (take 20 sig1) 0 = None"
proof -
  have "encodes (name_a @ [9]) [[0x61]]"
    using encodes_enc(1) [of "[[0x61]]" "[9]"] by simp
  then have "encodes (drop SIGNBY sig1) [[0x61]]" by (simp add: sig1_def put16_def)
  then show ?thesis
    by (intro sigfield_overread [of set1 "[[0x41]]" "[[0x61]]"]) (simp_all add: set1_def)
qed

text \<open>
  C39. Two honest NSEC records of neighbouring names deny a name that exists: the test that the
  name lies before the next name accepts the next name itself, so the first record is taken to
  cover it when its own record is not a denial of the type.
\<close>

theorem nsec_denies_existing_name:
  assumes "nsec_says n1 own nxt apex b1" "nsec_says n2 nxt nxt2 apex b2" "cname own < cname nxt"
    and "\<not> denies_type b2 t" "cname (star # nxt) \<le> cname nxt2 \<or> cname nxt2 = cname apex"
    and "cname nxt \<noteq> cname apex" "length (enc nxt) + 2 \<le> NS_MAXCDNAME"
  shows "prove_nsec_span [n1, n2] (enc nxt) t None = Some (Some 0, Some 1, False)"
  by (rule existing_name_denied [OF assms])

theorem nsec_denies_existing_name_witness:
  "prove_nsec_span [nsec_rr [[0x61]] [[0x62]] [], nsec_rr [[0x62]] [] [0, 1, 0x40]] name_b 1 None = Some (Some 0, Some 1, False)"
proof -
  have s: "nsec_says (nsec_rr [[0x61]] [[0x62]] []) [[0x61]] [[0x62]] [] []"
    "nsec_says (nsec_rr [[0x62]] [] [0, 1, 0x40]) [[0x62]] [] [] [0, 1, 0x40]" by (simp_all add: nsec_rr_says)
  have d: "\<not> denies_type [0, 1, 0x40] 1" by code_simp
  show ?thesis
    using nsec_denies_existing_name [OF s _ d] by (simp add: less_cname_def cname_def tolower_def)
qed

text \<open>
  C40. prove_nsec3_span never returns when no record can be hashed and the signer of the records
  is the root: stripping the label of the root leaves the root, and the search for the closest
  encloser goes on for ever.
\<close>

theorem nsec3_root_signer_loops:
  assumes "wf_name qs" "qs \<noteq> []" "nlist \<noteq> []"
    and "\<forall>n \<in> set nlist. n3_alg (n3_nd n) \<noteq> ALG_NSEC3_HASH_SHA1 \<and> (\<exists>soa. signer_of n = Some soa \<and> encodes soa [])"
  shows "prove_nsec3_span C now ctx nlist (enc qs @ t) qtype_h ttl_x None = None"
  by (rule prove_nsec3_span_root_loops [OF assms])

theorem nsec3_root_signer_loops_witness:
  "prove_nsec3_span any_ssl 0 (Entries []) [n3_rr 2 []] (enc [[0x61]] @ []) 1 0 None = None"
  by (rule nsec3_root_signer_loops) (simp_all add: n3_rr_signer, simp add: n3_rr_def)

end
